(* ===== verification/Prelude.thy ===== *)
theory Prelude
  imports Main "HOL-Library.Monad_Syntax" "HOL-Library.Multiset"
begin

text \<open>
  What every component of the library shares: C pointers that may be NULL, \<open>size_t\<close> arithmetic
  with its wrap-around, the allocator and the element callbacks as scripts of outcomes, and
  buffers of element slots with checked access.

  Conventions of the whole development.
  \<^item> An operation whose C code can run into undefined behaviour (a read of a slot that was never
    written, an access outside the allocated block, a failed \<open>assert\<close>) returns an \<open>option\<close>,
    and \<open>None\<close> means exactly that. "The operation returns \<open>Some\<close>" is therefore memory safety.
  \<^item> A C pointer parameter or result is a \<open>ptr\<close>. A structure that is modified in place is
    returned updated.
  \<^item> C result codes stay the integers of the source (\<open>0\<close>, \<open>1\<close>, \<open>- 1\<close>).
  \<^item> \<open>size_t\<close> values are \<open>nat\<close> below \<open>2 ^ 64\<close>, and sums, differences and products that
    the source computes are \<open>sz_add\<close>, \<open>sz_sub\<close> and \<open>sz_mul\<close>, which wrap.
\<close>

section \<open>Collections of facts\<close>

named_theorems effect_defs "definitions of the effects, to evaluate concrete runs"

section \<open>Pointers\<close>

datatype 'a ptr = NULL | Ptr (pt: 'a)

lemma ptr_neq_NULL: "p \<noteq> NULL \<longleftrightarrow> (\<exists>x. p = Ptr x)"
  by (cases p) auto

section \<open>The type \<open>size_t\<close>\<close>

type_synonym size_t = nat

definition SIZE_MAX :: nat where
  "SIZE_MAX = 18446744073709551615"

definition PTRDIFF_MAX :: nat where
  "PTRDIFF_MAX = 9223372036854775807"

definition sz_add :: "size_t \<Rightarrow> size_t \<Rightarrow> size_t" where
  "sz_add a b = (a + b) mod (SIZE_MAX + 1)"

definition sz_sub :: "size_t \<Rightarrow> size_t \<Rightarrow> size_t" where
  "sz_sub a b = (a + (SIZE_MAX + 1 - b)) mod (SIZE_MAX + 1)"

definition sz_mul :: "size_t \<Rightarrow> size_t \<Rightarrow> size_t" where
  "sz_mul a b = (a * b) mod (SIZE_MAX + 1)"

lemma SIZE_MAX_PTRDIFF_MAX: "SIZE_MAX = 2 * PTRDIFF_MAX + 1"
  by (simp add: SIZE_MAX_def PTRDIFF_MAX_def)

lemma PTRDIFF_MAX_big: "1000000 \<le> PTRDIFF_MAX"
  by (simp add: PTRDIFF_MAX_def)

lemma sz_add_exact [simp]: "a + b \<le> SIZE_MAX \<Longrightarrow> sz_add a b = a + b"
  by (simp add: sz_add_def)

lemma sz_mul_exact [simp]: "a * b \<le> SIZE_MAX \<Longrightarrow> sz_mul a b = a * b"
  by (simp add: sz_mul_def)

lemma sz_sub_exact [simp]: "b \<le> a \<Longrightarrow> a \<le> SIZE_MAX \<Longrightarrow> sz_sub a b = a - b"
proof -
  assume a: "b \<le> a" "a \<le> SIZE_MAX"
  then have "a + (SIZE_MAX + 1 - b) = (a - b) + (SIZE_MAX + 1)" by simp
  then have "sz_sub a b = (a - b) mod (SIZE_MAX + 1)"
    unfolding sz_sub_def by (simp only: mod_add_self2)
  with a show ?thesis by simp
qed

lemma sz_add_bound: "sz_add a b \<le> SIZE_MAX" and sz_mul_bound: "sz_mul a b \<le> SIZE_MAX"
  and sz_sub_bound: "sz_sub a b \<le> SIZE_MAX"
  by (simp_all add: sz_add_def sz_mul_def sz_sub_def less_Suc_eq_le flip: Suc_eq_plus1)

lemma mult_le_PTRDIFF: "n * e \<le> PTRDIFF_MAX \<Longrightarrow> 0 < e \<Longrightarrow> n \<le> PTRDIFF_MAX"
  by (metis Suc_leI le_trans mult_le_mono2 nat_mult_1_right One_nat_def)

section \<open>The world: allocator, callbacks and their outcomes\<close>

text \<open>
  \<open>allocs\<close> is the script of the allocator: the outcome of each coming call of \<open>malloc\<close>,
  \<open>calloc\<close> or \<open>realloc\<close>, where \<open>False\<close> is "no memory"; after the script every call succeeds.
  \<open>copies\<close> is the script of the element copy callbacks in the same way. As a program makes
  finitely many calls, an arbitrary script stands for every behaviour of the two. \<open>destroyed\<close>
  records the elements passed to the destroy callback, in order, and \<open>live\<close> counts the
  allocated blocks.
\<close>

record 'a world =
  allocs :: "bool list"
  copies :: "bool list"
  destroyed :: "'a list"
  live :: int

definition no_fail :: "('a, 'b) world_scheme \<Rightarrow> bool" where
  "no_fail w \<longleftrightarrow> False \<notin> set (allocs w) \<and> False \<notin> set (copies w)"

text \<open>A world at the start of a run with given scripts.\<close>

definition script :: "bool list \<Rightarrow> bool list \<Rightarrow> 'a world" where
  "script as cs = \<lparr>allocs = as, copies = cs, destroyed = [], live = 0\<rparr>"

definition next_outcome :: "bool list \<Rightarrow> bool \<times> bool list" where
  "next_outcome bs = (case bs of [] \<Rightarrow> (True, []) | b # bs' \<Rightarrow> (b, bs'))"

text \<open>
  \<open>malloc\<close> and \<open>realloc\<close> refuse blocks above \<open>PTRDIFF_MAX\<close> bytes, as the C library does. A request for
  0 bytes is implementation-defined in C: \<open>malloc (0)\<close> may return \<open>NULL\<close>, and \<open>realloc (p, 0)\<close> of the GNU
  library frees \<open>p\<close> and returns \<open>NULL\<close>. No theorem rests on the outcome of a \<open>realloc\<close> to 0 bytes: the
  containers ask for at least one element of at least one byte, and where a product can wrap around
  to 0 the theorems exclude it.
\<close>

definition malloc :: "size_t \<Rightarrow> ('a, 'b) world_scheme \<Rightarrow> bool \<times> ('a, 'b) world_scheme" where
  "malloc n w = (let (ok, rest) = next_outcome (allocs w) in
     if ok \<and> n \<le> PTRDIFF_MAX then (True, w\<lparr>allocs := rest, live := live w + 1\<rparr>)
     else (False, w\<lparr>allocs := rest\<rparr>))"

definition realloc ::
    "bool \<Rightarrow> size_t \<Rightarrow> ('a, 'b) world_scheme \<Rightarrow> bool \<times> ('a, 'b) world_scheme" where
  "realloc old n w = (let (ok, rest) = next_outcome (allocs w) in
     if ok \<and> n \<le> PTRDIFF_MAX
     then (True, w\<lparr>allocs := rest, live := live w + (if old then 0 else 1)\<rparr>)
     else (False, w\<lparr>allocs := rest\<rparr>))"

text \<open>\<open>calloc\<close> refuses a product that overflows.\<close>

definition calloc :: "size_t \<Rightarrow> size_t \<Rightarrow> ('a, 'b) world_scheme \<Rightarrow> bool \<times> ('a, 'b) world_scheme" where
  "calloc n e w = malloc (n * e) w"

definition free_ptr :: "'p ptr \<Rightarrow> ('a, 'b) world_scheme \<Rightarrow> ('a, 'b) world_scheme" where
  "free_ptr p w = (case p of NULL \<Rightarrow> w | Ptr _ \<Rightarrow> w\<lparr>live := live w - 1\<rparr>)"

definition free_block :: "('a, 'b) world_scheme \<Rightarrow> ('a, 'b) world_scheme" where
  "free_block w = w\<lparr>live := live w - 1\<rparr>"

definition blocks :: "'p ptr \<Rightarrow> int" where
  "blocks p = (case p of NULL \<Rightarrow> 0 | Ptr _ \<Rightarrow> 1)"

lemma blocks_simps [simp]: "blocks NULL = 0" "blocks (Ptr x) = 1"
  by (simp_all add: blocks_def)

text \<open>
  An element copy: the callback when one is registered, else \<open>memcpy\<close>. The result \<open>None\<close> is
  a callback that returned non-zero.
\<close>

definition copy_element ::
    "('a \<Rightarrow> 'a) option \<Rightarrow> 'a \<Rightarrow> ('a, 'b) world_scheme \<Rightarrow> 'a option \<times> ('a, 'b) world_scheme" where
  "copy_element f x w = (case f of
       None \<Rightarrow> (Some x, w)
     | Some g \<Rightarrow> (let (ok, rest) = next_outcome (copies w) in
         (if ok then Some (g x) else None, w\<lparr>copies := rest\<rparr>)))"

definition destroy_element ::
    "bool \<Rightarrow> 'a \<Rightarrow> ('a, 'b) world_scheme \<Rightarrow> ('a, 'b) world_scheme" where
  "destroy_element d x w = (if d then w\<lparr>destroyed := destroyed w @ [x]\<rparr> else w)"

text \<open>The value a successful copy stores.\<close>

definition copied :: "('a \<Rightarrow> 'a) option \<Rightarrow> 'a \<Rightarrow> 'a" where
  "copied f x = (case f of None \<Rightarrow> x | Some g \<Rightarrow> g x)"

lemma next_outcome_all:
  "next_outcome bs = (b, cs) \<Longrightarrow> False \<notin> set bs \<Longrightarrow> b \<and> False \<notin> set cs"
  by (cases bs) (auto simp: next_outcome_def)

lemma malloc_effect:
  assumes "malloc n w = (ok, w')"
  shows "destroyed w' = destroyed w" "copies w' = copies w"
    "live w' = live w + (if ok then 1 else 0)" "ok \<Longrightarrow> n \<le> PTRDIFF_MAX"
    "no_fail w \<Longrightarrow> no_fail w'" "no_fail w \<Longrightarrow> n \<le> PTRDIFF_MAX \<Longrightarrow> ok"
    "world.more w' = world.more w"
proof -
  obtain b cs where o: "next_outcome (allocs w) = (b, cs)" by fastforce
  with assms show "destroyed w' = destroyed w" "copies w' = copies w"
    "live w' = live w + (if ok then 1 else 0)" "ok \<Longrightarrow> n \<le> PTRDIFF_MAX"
    "world.more w' = world.more w"
    by (auto simp: malloc_def split: if_splits)
  show "no_fail w \<Longrightarrow> no_fail w'" "no_fail w \<Longrightarrow> n \<le> PTRDIFF_MAX \<Longrightarrow> ok"
    using assms o next_outcome_all [OF o]
    by (auto simp: malloc_def no_fail_def split: if_splits)
qed

lemma realloc_effect:
  assumes "realloc old n w = (ok, w')"
  shows "destroyed w' = destroyed w" "copies w' = copies w"
    "live w' = live w + (if ok \<and> \<not> old then 1 else 0)" "ok \<Longrightarrow> n \<le> PTRDIFF_MAX"
    "no_fail w \<Longrightarrow> no_fail w'" "no_fail w \<Longrightarrow> n \<le> PTRDIFF_MAX \<Longrightarrow> ok"
    "world.more w' = world.more w"
proof -
  obtain b cs where o: "next_outcome (allocs w) = (b, cs)" by fastforce
  with assms show "destroyed w' = destroyed w" "copies w' = copies w"
    "live w' = live w + (if ok \<and> \<not> old then 1 else 0)" "ok \<Longrightarrow> n \<le> PTRDIFF_MAX"
    "world.more w' = world.more w"
    by (auto simp: realloc_def split: if_splits)
  show "no_fail w \<Longrightarrow> no_fail w'" "no_fail w \<Longrightarrow> n \<le> PTRDIFF_MAX \<Longrightarrow> ok"
    using assms o next_outcome_all [OF o]
    by (auto simp: realloc_def no_fail_def split: if_splits)
qed

lemma copy_element_effect:
  assumes "copy_element f x w = (r, w')"
  shows "destroyed w' = destroyed w" "live w' = live w" "r = Some y \<Longrightarrow> y = copied f x"
    "no_fail w \<Longrightarrow> no_fail w'" "no_fail w \<Longrightarrow> r = Some (copied f x)"
    "world.more w' = world.more w"
proof -
  obtain b cs where o: "next_outcome (copies w) = (b, cs)" by fastforce
  with assms show "destroyed w' = destroyed w" "live w' = live w" "r = Some y \<Longrightarrow> y = copied f x"
    "world.more w' = world.more w"
    by (auto simp: copy_element_def copied_def split: if_splits option.splits)
  show "no_fail w \<Longrightarrow> no_fail w'" "no_fail w \<Longrightarrow> r = Some (copied f x)"
    using assms o next_outcome_all [OF o]
    by (auto simp: copy_element_def copied_def no_fail_def split: if_splits option.splits)
qed

lemma destroy_element_simps [simp]:
  "destroyed (destroy_element d x w) = destroyed w @ (if d then [x] else [])"
  "live (destroy_element d x w) = live w"
  "no_fail (destroy_element d x w) = no_fail w"
  "world.more (destroy_element d x w) = world.more w"
  by (simp_all add: destroy_element_def no_fail_def)

lemma free_simps [simp]:
  "destroyed (free_ptr p w) = destroyed w" "live (free_ptr p w) = live w - blocks p"
  "no_fail (free_ptr p w) = no_fail w" "world.more (free_ptr p w) = world.more w"
  "destroyed (free_block w) = destroyed w" "live (free_block w) = live w - 1"
  "no_fail (free_block w) = no_fail w" "world.more (free_block w) = world.more w"
  by (simp_all add: free_ptr_def free_block_def no_fail_def blocks_def split: ptr.splits)

section \<open>Lists and multisets\<close>

lemma mset_take_drop_Suc: "i < length xs \<Longrightarrow>
    add_mset (xs ! i) (mset (take i xs) + mset (drop (Suc i) xs)) = mset xs"
  by (metis append_take_drop_id Cons_nth_drop_Suc mset.simps(2) mset_append union_mset_add_mset_right)

lemma mset_take_drop: "mset (take i xs) + mset (drop i xs) = mset xs"
  by (metis append_take_drop_id mset_append)

lemma mset_update_add: "i < length xs \<Longrightarrow> add_mset (xs ! i) (mset (xs[i := y])) = add_mset y (mset xs)"
  by (simp add: mset_update)

lemma foldl_snoc [simp]: "foldl (\<lambda>xs x. xs @ [x]) ys xs = ys @ xs"
  by (induction xs arbitrary: ys) auto

section \<open>Buffers of element slots\<close>

text \<open>
  The storage of an array container: NULL, or a block of slots. A slot holds \<open>None\<close> while
  nothing was written to it. Reading such a slot, or one outside the block, yields \<open>None\<close>, and
  so does writing outside the block.
\<close>

type_synonym 'a buf = "'a option list ptr"

fun slots :: "'a buf \<Rightarrow> 'a option list" where
  "slots NULL = []"
| "slots (Ptr xs) = xs"

definition buf_get :: "'a buf \<Rightarrow> nat \<Rightarrow> 'a option" where
  "buf_get b i = (if i < length (slots b) then slots b ! i else None)"

definition buf_put :: "'a buf \<Rightarrow> nat \<Rightarrow> 'a option \<Rightarrow> 'a buf option" where
  "buf_put b i v = (if i < length (slots b) then Some (Ptr ((slots b)[i := v])) else None)"

text \<open>A fresh block of \<open>n\<close> slots, and what \<open>realloc\<close> makes of a block.\<close>

definition buf_new :: "nat \<Rightarrow> 'a buf" where
  "buf_new n = Ptr (replicate n None)"

definition buf_resize :: "nat \<Rightarrow> 'a buf \<Rightarrow> 'a buf" where
  "buf_resize n b = Ptr (take n (slots b) @ replicate (n - length (slots b)) None)"

text \<open>\<open>memmove\<close> of \<open>n\<close> slots from slot \<open>s\<close> to slot \<open>d\<close> of the same block.\<close>

definition buf_move :: "'a buf \<Rightarrow> nat \<Rightarrow> nat \<Rightarrow> nat \<Rightarrow> 'a buf option" where
  "buf_move b d s n =
     (if d + n \<le> length (slots b) \<and> s + n \<le> length (slots b)
      then Some (Ptr (take d (slots b) @ take n (drop s (slots b)) @ drop (d + n) (slots b)))
      else None)"

text \<open>The destroy loop over the slots of a container, in the order of the loop.\<close>

fun destroy_slots ::
    "bool \<Rightarrow> 'a buf \<Rightarrow> nat list \<Rightarrow> ('a, 'b) world_scheme \<Rightarrow> ('a, 'b) world_scheme option" where
  "destroy_slots d b [] w = Some w"
| "destroy_slots d b (i # is) w =
     do { x \<leftarrow> buf_get b i; destroy_slots d b is (destroy_element d x w) }"

definition log_if :: "bool \<Rightarrow> 'a list \<Rightarrow> 'a list" where
  "log_if d xs = (if d then xs else [])"

lemma log_if_simps [simp]:
  "log_if d [] = []" "log_if True xs = xs" "log_if False xs = []"
  "log_if d (xs @ ys) = log_if d xs @ log_if d ys"
  by (simp_all add: log_if_def)

lemma destroy_slots_ok:
  assumes "map (buf_get b) is = map Some xs"
  shows "\<exists>w'. destroy_slots d b is w = Some w' \<and> destroyed w' = destroyed w @ log_if d xs
    \<and> live w' = live w \<and> no_fail w' = no_fail w \<and> world.more w' = world.more w"
  using assms
proof (induction "is" arbitrary: xs w)
  case Nil
  then show ?case by simp
next
  case (Cons i is')
  then obtain x xs' where xs: "xs = x # xs'" "buf_get b i = Some x"
    and rest: "map (buf_get b) is' = map Some xs'"
    by (cases xs) auto
  from Cons.IH [OF rest, of "destroy_element d x w"] xs show ?case
    by (auto simp: log_if_def)
qed

lemma buf_get_put: "buf_put b i v = Some b' \<Longrightarrow> buf_get b' j = (if j = i then v else buf_get b j)"
  by (auto simp: buf_put_def buf_get_def split: if_splits)

lemma buf_put_ok: "i < length (slots b) \<Longrightarrow>
    \<exists>b'. buf_put b i v = Some b' \<and> length (slots b') = length (slots b) \<and> b' \<noteq> NULL"
  by (auto simp: buf_put_def)

text \<open>The written prefix of a buffer, and how the operations act on it.\<close>

definition holds :: "'a buf \<Rightarrow> 'a list \<Rightarrow> bool" where
  "holds b xs \<longleftrightarrow> length xs \<le> length (slots b) \<and> take (length xs) (slots b) = map Some xs"

lemma holds_get: "holds b xs \<Longrightarrow> i < length xs \<Longrightarrow> buf_get b i = Some (xs ! i)"
  by (metis buf_get_def holds_def le_trans less_le_trans nth_map nth_take)

lemma holds_get_map: "holds b xs \<Longrightarrow> map (buf_get b) [0..<length xs] = map Some xs"
  by (rule nth_equalityI) (simp_all add: holds_get)

lemma holds_iff: "holds b xs \<longleftrightarrow> (\<forall>i < length xs. i < length (slots b) \<and> slots b ! i = Some (xs ! i))"
proof
  assume "holds b xs"
  then show "\<forall>i < length xs. i < length (slots b) \<and> slots b ! i = Some (xs ! i)"
    by (metis holds_def holds_get buf_get_def less_le_trans)
next
  assume a: "\<forall>i < length xs. i < length (slots b) \<and> slots b ! i = Some (xs ! i)"
  then have "length xs \<le> length (slots b)"
    by (metis less_irrefl not_le)
  with a show "holds b xs"
    by (auto simp: holds_def intro!: nth_equalityI)
qed

lemma holds_Nil [simp]: "holds b []"
  by (simp add: holds_def)

lemma holds_unique: "holds b xs \<Longrightarrow> holds b ys \<Longrightarrow> length xs = length ys \<Longrightarrow> xs = ys"
  by (metis holds_def inj_map_eq_map inj_Some)

lemma holds_take: "holds b xs \<Longrightarrow> holds b (take n xs)"
  by (auto simp: holds_iff)

lemma holds_put_new:
  "holds b xs \<Longrightarrow> length xs < length (slots b) \<Longrightarrow>
     \<exists>b'. buf_put b (length xs) (Some y) = Some b' \<and> holds b' (xs @ [y])
       \<and> length (slots b') = length (slots b) \<and> b' \<noteq> NULL"
  by (auto simp: buf_put_def holds_iff nth_append nth_list_update)

lemma holds_put_beyond:
  "holds b xs \<Longrightarrow> length xs \<le> i \<Longrightarrow> i < length (slots b) \<Longrightarrow>
     \<exists>b'. buf_put b i v = Some b' \<and> holds b' xs
       \<and> length (slots b') = length (slots b) \<and> b' \<noteq> NULL"
  by (auto simp: buf_put_def holds_iff nth_list_update)

lemma holds_put_old:
  "holds b xs \<Longrightarrow> i < length xs \<Longrightarrow>
     \<exists>b'. buf_put b i (Some y) = Some b' \<and> holds b' (xs[i := y])
       \<and> length (slots b') = length (slots b) \<and> b' \<noteq> NULL"
  by (fastforce simp: buf_put_def holds_iff nth_list_update)

lemma holds_resize: "holds b xs \<Longrightarrow> length xs \<le> n \<Longrightarrow> holds (buf_resize n b) xs"
  by (auto simp: holds_iff buf_resize_def nth_append)

lemma slots_resize [simp]: "length (slots (buf_resize n b)) = n"
  by (simp add: buf_resize_def)

lemma slots_new [simp]: "length (slots (buf_new n)) = n"
  by (simp add: buf_new_def)

lemma buf_resize_Ptr [simp]: "buf_resize n b \<noteq> NULL" and buf_new_Ptr [simp]: "buf_new n \<noteq> NULL"
  by (simp_all add: buf_resize_def buf_new_def)

lemma blocks_Ptr_iff [simp]: "p \<noteq> NULL \<Longrightarrow> blocks p = 1"
  by (auto simp: ptr_neq_NULL)

lemma blocks_resize [simp]: "blocks (buf_resize n b) = 1" and blocks_new [simp]: "blocks (buf_new n) = 1"
  by (simp_all add: buf_resize_def buf_new_def)

lemma holds_erase:
  assumes "holds b xs" and "i < length xs"
  shows "\<exists>d. (if Suc i < length xs then buf_move b i (i + 1) (length xs - i - 1) else Some b) = Some d
    \<and> holds d (take i xs @ drop (Suc i) xs) \<and> length (slots d) = length (slots b) \<and> d \<noteq> NULL"
proof -
  have len: "length xs \<le> length (slots b)" and eq: "\<And>k. k < length xs \<Longrightarrow> slots b ! k = Some (xs ! k)"
    using assms(1) by (simp add: holds_def, simp add: holds_iff)
  have "b \<noteq> NULL" using assms(2) len by (cases b) auto
  moreover have "holds b (take i xs @ drop (Suc i) xs)" if "\<not> Suc i < length xs"
    using that len eq by (auto simp: holds_iff)
  moreover have "holds (Ptr (take i (slots b) @ take (length xs - i - 1) (drop (i + 1) (slots b))
      @ drop (i + (length xs - i - 1)) (slots b))) (take i xs @ drop (Suc i) xs)"
    using assms(2) len eq by (auto simp: holds_iff nth_append)
  ultimately show ?thesis
    using assms(2) len by (auto simp: buf_move_def)
qed

lemma holds_insert:
  assumes "holds b xs" and "i < length xs" and "length xs < length (slots b)"
  shows "\<exists>d1 d2 d3 d4. buf_move b (i + 1) i (length xs - i) = Some d1
    \<and> buf_put d1 i (Some y) = Some d2 \<and> holds d2 (take i xs @ y # drop i xs)
    \<and> length (slots d2) = length (slots b) \<and> d2 \<noteq> NULL
    \<and> buf_put d1 i None = Some d3 \<and> buf_move d3 i (i + 1) (length xs - i) = Some d4
    \<and> holds d4 xs \<and> length (slots d4) = length (slots b) \<and> d4 \<noteq> NULL"
proof -
  have eq: "\<And>k. k < length xs \<Longrightarrow> slots b ! k = Some (xs ! k)"
    using assms(1) by (auto simp: holds_iff)
  define n where "n = length xs - i"
  define s1 where "s1 = take (i + 1) (slots b) @ take n (drop i (slots b)) @ drop (i + 1 + n) (slots b)"
  have len1: "length s1 = length (slots b)"
    using assms(2,3) by (simp add: s1_def n_def)
  have s1: "s1 ! k = (if k \<le> i then Some (xs ! k) else Some (xs ! (k - 1)))" if "k \<le> length xs" for k
    using that assms(2,3) eq by (auto simp: s1_def n_def nth_append)
  define s3 where "s3 = s1[i := None]"
  define s4 where "s4 = take i s3 @ take n (drop (i + 1) s3) @ drop (i + n) s3"
  have h2: "holds (Ptr (s1[i := Some y])) (take i xs @ y # drop i xs)"
    using assms(2,3) len1 s1 by (auto simp: holds_iff nth_append nth_list_update nth_Cons')
  have h4: "holds (Ptr s4) xs"
    using assms(2,3) len1 s1 by (auto simp: holds_iff s4_def s3_def n_def nth_append nth_list_update)
  have l4: "length s4 = length (slots b)"
    using assms(2,3) len1 by (simp add: s4_def s3_def n_def)
  have m1: "buf_move b (i + 1) i n = Some (Ptr s1)"
    using assms(2,3) by (simp add: buf_move_def s1_def n_def)
  have p2: "buf_put (Ptr s1) i (Some y) = Some (Ptr (s1[i := Some y]))"
    "buf_put (Ptr s1) i None = Some (Ptr s3)"
    using assms(2,3) len1 by (simp_all add: buf_put_def s3_def)
  have m4: "buf_move (Ptr s3) i (i + 1) n = Some (Ptr s4)"
    using assms(2,3) len1 by (simp add: buf_move_def s4_def s3_def n_def)
  show ?thesis
    using m1 p2 h2 m4 h4 l4 len1 unfolding n_def by (auto simp: s3_def)
qed

section \<open>Comparison callbacks, \<open>qsort\<close> and \<open>bsearch\<close>\<close>

text \<open>
  What the C library and the containers demand of a comparison callback: it orders its
  arguments totally and consistently. \<open>qsort_spec\<close> and \<open>bsearch_spec\<close> are the documented
  behaviour of the two library functions for such a callback.
\<close>

definition cmp_ok :: "('a \<Rightarrow> 'a \<Rightarrow> int) \<Rightarrow> bool" where
  "cmp_ok cmp \<longleftrightarrow> (\<forall>a b. sgn (cmp a b) = - sgn (cmp b a))
     \<and> (\<forall>a b c. cmp a b \<le> 0 \<longrightarrow> cmp b c \<le> 0 \<longrightarrow> cmp a c \<le> 0)"

definition qsort_spec :: "(('a \<Rightarrow> 'a \<Rightarrow> int) \<Rightarrow> 'a list \<Rightarrow> 'a list) \<Rightarrow> bool" where
  "qsort_spec qs \<longleftrightarrow> (\<forall>cmp xs. cmp_ok cmp \<longrightarrow>
     mset (qs cmp xs) = mset xs \<and> sorted_wrt (\<lambda>a b. cmp a b \<le> 0) (qs cmp xs))"

definition bsearch_spec :: "(('a \<Rightarrow> 'a \<Rightarrow> int) \<Rightarrow> 'a \<Rightarrow> 'a list \<Rightarrow> nat option) \<Rightarrow> bool" where
  "bsearch_spec bs \<longleftrightarrow> (\<forall>cmp key xs. cmp_ok cmp \<longrightarrow> sorted_wrt (\<lambda>a b. cmp a b \<le> 0) xs \<longrightarrow>
     (case bs cmp key xs of None \<Rightarrow> \<forall>x \<in> set xs. cmp key x \<noteq> 0
      | Some i \<Rightarrow> i < length xs \<and> cmp key (xs ! i) = 0))"

lemma cmp_ok_sym: "cmp_ok cmp \<Longrightarrow> 0 \<le> cmp a b \<longleftrightarrow> cmp b a \<le> 0"
proof -
  assume "cmp_ok cmp"
  then have "sgn (cmp a b) = - sgn (cmp b a)" unfolding cmp_ok_def by blast
  then show ?thesis by (auto simp: sgn_if split: if_splits)
qed

lemma cmp_ok_trans: "cmp_ok cmp \<Longrightarrow> cmp a b \<le> 0 \<Longrightarrow> cmp b c \<le> 0 \<Longrightarrow> cmp a c \<le> 0"
  unfolding cmp_ok_def by blast

lemma cmp_ok_refl: "cmp_ok cmp \<Longrightarrow> cmp a a = 0"
proof -
  assume "cmp_ok cmp"
  then have "sgn (cmp a a) = - sgn (cmp a a)" unfolding cmp_ok_def by blast
  then show ?thesis by (auto simp: sgn_if split: if_splits)
qed

text \<open>Concrete library functions, for the witnesses.\<close>

fun insert_by :: "('a \<Rightarrow> 'a \<Rightarrow> int) \<Rightarrow> 'a \<Rightarrow> 'a list \<Rightarrow> 'a list" where
  "insert_by cmp x [] = [x]"
| "insert_by cmp x (y # ys) = (if cmp x y \<le> 0 then x # y # ys else y # insert_by cmp x ys)"

definition sort_by :: "('a \<Rightarrow> 'a \<Rightarrow> int) \<Rightarrow> 'a list \<Rightarrow> 'a list" where
  "sort_by cmp xs = foldr (insert_by cmp) xs []"

fun scan_by :: "('a \<Rightarrow> 'a \<Rightarrow> int) \<Rightarrow> 'a \<Rightarrow> 'a list \<Rightarrow> nat option" where
  "scan_by cmp key [] = None"
| "scan_by cmp key (x # xs) =
     (if cmp key x = 0 then Some 0 else map_option Suc (scan_by cmp key xs))"

lemma mset_insert_by: "mset (insert_by cmp x xs) = add_mset x (mset xs)"
  by (induction xs) auto

lemma set_insert_by: "set (insert_by cmp x xs) = insert x (set xs)"
  by (induction xs) auto

lemma sorted_insert_by:
  assumes "cmp_ok cmp"
  shows "sorted_wrt (\<lambda>a b. cmp a b \<le> 0) xs \<Longrightarrow> sorted_wrt (\<lambda>a b. cmp a b \<le> 0) (insert_by cmp x xs)"
proof (induction xs)
  case Nil
  then show ?case by simp
next
  case (Cons y ys)
  have "cmp y x \<le> 0" if "\<not> cmp x y \<le> 0"
    using that cmp_ok_sym [OF assms, of x y] by linarith
  with Cons show ?case
    using cmp_ok_trans [OF assms] by (auto simp: set_insert_by)
qed

lemma sort_by_qsort_spec: "qsort_spec sort_by"
proof -
  have "mset (sort_by cmp xs) = mset xs" for cmp :: "'a \<Rightarrow> 'a \<Rightarrow> int" and xs
    by (induction xs) (auto simp: sort_by_def mset_insert_by)
  moreover have "sorted_wrt (\<lambda>a b. cmp a b \<le> 0) (sort_by cmp xs)"
    if "cmp_ok cmp" for cmp :: "'a \<Rightarrow> 'a \<Rightarrow> int" and xs
    using sorted_insert_by [OF that] by (induction xs) (auto simp: sort_by_def)
  ultimately show ?thesis by (simp add: qsort_spec_def)
qed

lemma scan_by_bsearch_spec: "bsearch_spec scan_by"
proof -
  have "case scan_by cmp key xs of None \<Rightarrow> \<forall>x \<in> set xs. cmp key x \<noteq> 0
      | Some i \<Rightarrow> i < length xs \<and> cmp key (xs ! i) = 0" for cmp :: "'a \<Rightarrow> 'a \<Rightarrow> int" and key xs
    by (induction xs) (auto split: option.splits)
  then show ?thesis by (simp add: bsearch_spec_def)
qed

lemma int_cmp_ok: "cmp_ok (\<lambda>a b :: int. a - b)"
  by (auto simp: cmp_ok_def sgn_if)

section \<open>The copy loop of the containers\<close>

text \<open>
  The loop every \<open>*_copy\<close> runs: read element \<open>i\<close> of the source, push it on the destination,
  and on a failed push clear the destination and return \<open>- 1\<close>. \<open>get\<close> reads the source,
  \<open>push\<close> and \<open>clear\<close> are the destination's operations.
\<close>

fun copy_loop ::
    "('c ptr \<Rightarrow> 'a ptr \<Rightarrow> 'w \<Rightarrow> (int \<times> 'c ptr \<times> 'w) option) \<Rightarrow> ('c ptr \<Rightarrow> 'w \<Rightarrow> ('c ptr \<times> 'w) option)
     \<Rightarrow> (nat \<Rightarrow> 'a option) \<Rightarrow> nat list \<Rightarrow> 'c ptr \<Rightarrow> 'w \<Rightarrow> (int \<times> 'c ptr \<times> 'w) option" where
  "copy_loop push clear get [] dst w = Some (0, dst, w)"
| "copy_loop push clear get (i # is) dst w = do {
     x \<leftarrow> get i;
     (rc, dst1, w1) \<leftarrow> push dst (Ptr x) w;
     if rc \<noteq> 0 then do { (dst2, w2) \<leftarrow> clear dst1 w1; Some (- 1, dst2, w2) }
     else copy_loop push clear get is dst1 w1 }"

text \<open>
  The interface the loop relies on: \<open>rel c m w\<close> says that container \<open>c\<close> represents the
  abstract value \<open>m\<close> in world \<open>w\<close>. A push either stores the copied element or leaves the
  value as it was, and destroys nothing. Clearing passes exactly the stored elements to the
  destroy callback. \<open>own\<close> counts the blocks the container holds; \<open>room c n\<close> says that
  \<open>n\<close> more pushes fail only when the allocator or a callback does.
\<close>

locale push_container =
  fixes push :: "'c ptr \<Rightarrow> 'a ptr \<Rightarrow> ('a, 'b) world_scheme
      \<Rightarrow> (int \<times> 'c ptr \<times> ('a, 'b) world_scheme) option"
    and clear :: "'c ptr \<Rightarrow> ('a, 'b) world_scheme \<Rightarrow> ('c ptr \<times> ('a, 'b) world_scheme) option"
    and rel :: "'c \<Rightarrow> 'm \<Rightarrow> bool"
    and empty :: 'm
    and snoc :: "'m \<Rightarrow> 'a \<Rightarrow> 'm"
    and elems :: "'m \<Rightarrow> 'a multiset"
    and conf :: "'c \<Rightarrow> 'k"
    and cfn :: "'c \<Rightarrow> ('a \<Rightarrow> 'a) option"
    and dfn :: "'c \<Rightarrow> bool"
    and own :: "'c \<Rightarrow> int"
    and room :: "'c \<Rightarrow> nat \<Rightarrow> bool"
  assumes push_law: "rel c m \<Longrightarrow>
      \<exists>rc c' w'. push (Ptr c) (Ptr x) w = Some (rc, Ptr c', w') \<and> conf c' = conf c
        \<and> destroyed w' = destroyed w \<and> live w' - own c' = live w - own c
        \<and> (no_fail w \<longrightarrow> no_fail w' \<and> (\<forall>n. room c (Suc n) \<longrightarrow> rc = 0 \<and> room c' n))
        \<and> (rc = 0 \<and> rel c' (snoc m (copied (cfn c) x)) \<or> rc = - 1 \<and> rel c' m)"
    and clear_law: "rel c m \<Longrightarrow>
      \<exists>c' w' ys. clear (Ptr c) w = Some (Ptr c', w') \<and> conf c' = conf c
        \<and> rel c' empty \<and> live w' - own c' = live w - own c \<and> mset ys = elems m
        \<and> destroyed w' = destroyed w @ log_if (dfn c) ys"
    and conf_law: "conf c' = conf c \<Longrightarrow> cfn c' = cfn c \<and> dfn c' = dfn c"
    and elems_snoc: "elems (snoc m x) = add_mset x (elems m)"
begin

lemma elems_foldl: "elems (foldl snoc m xs) = elems m + mset xs"
  by (induction xs arbitrary: m) (simp_all add: elems_snoc)

lemma copy_loop_ok:
  assumes "rel c m" and "map get is = map Some xs"
  shows "\<exists>rc c' w' ys. copy_loop push clear get is (Ptr c) w = Some (rc, Ptr c', w')
    \<and> conf c' = conf c \<and> live w' - own c' = live w - own c
    \<and> destroyed w' = destroyed w @ log_if (dfn c) ys
    \<and> (no_fail w \<longrightarrow> room c (length xs) \<longrightarrow> rc = 0)
    \<and> (rc = 0 \<and> rel c' (foldl snoc m (map (copied (cfn c)) xs)) \<and> ys = []
       \<or> rc = - 1 \<and> rel c' empty
         \<and> (\<exists>n \<le> length xs. mset ys = elems m + mset (map (copied (cfn c)) (take n xs))))"
  using assms
proof (induction "is" arbitrary: c m w xs)
  case Nil
  then show ?case by (auto intro!: exI [of _ "[]"])
next
  case (Cons i is')
  then obtain x xs' where xs: "xs = x # xs'" and i: "get i = Some x"
    and rest: "map get is' = map Some xs'"
    by (cases xs) auto
  obtain rc c1 w1 where push: "push (Ptr c) (Ptr x) w = Some (rc, Ptr c1, w1)"
    and conf1: "conf c1 = conf c"
    and same: "destroyed w1 = destroyed w" "live w1 - own c1 = live w - own c"
    and nf: "no_fail w \<longrightarrow> no_fail w1 \<and> (\<forall>n. room c (Suc n) \<longrightarrow> rc = 0 \<and> room c1 n)"
    and res: "rc = 0 \<and> rel c1 (snoc m (copied (cfn c) x)) \<or> rc = - 1 \<and> rel c1 m"
    using push_law [OF Cons.prems(1), of x w] by blast
  note conf = conf1 conjunct1 [OF conf_law [OF conf1]] conjunct2 [OF conf_law [OF conf1]]
  from res show ?case
  proof
    assume ok: "rc = 0 \<and> rel c1 (snoc m (copied (cfn c) x))"
    then obtain rc' c' w' ys where loop: "copy_loop push clear get is' (Ptr c1) w1 = Some (rc', Ptr c', w')"
      and conf': "conf c' = conf c1" "live w' - own c' = live w1 - own c1"
      and dest: "destroyed w' = destroyed w1 @ log_if (dfn c1) ys"
      and nf': "no_fail w1 \<longrightarrow> room c1 (length xs') \<longrightarrow> rc' = 0"
      and res': "rc' = 0 \<and> rel c' (foldl snoc (snoc m (copied (cfn c) x)) (map (copied (cfn c1)) xs')) \<and> ys = []
        \<or> rc' = - 1 \<and> rel c' empty \<and> (\<exists>n \<le> length xs'. mset ys
            = elems (snoc m (copied (cfn c) x)) + mset (map (copied (cfn c1)) (take n xs')))"
      using Cons.IH [OF conjunct2 [OF ok] rest, of w1] by (elim exE conjE) (rule that)
    have "copy_loop push clear get (i # is') (Ptr c) w = Some (rc', Ptr c', w')"
      using i push ok loop by simp
    moreover have "no_fail w \<longrightarrow> room c (length xs) \<longrightarrow> rc' = 0"
      using nf nf' xs by auto
    moreover from res' have "rc' = 0 \<and> rel c' (foldl snoc m (map (copied (cfn c)) xs)) \<and> ys = []
       \<or> rc' = - 1 \<and> rel c' empty
         \<and> (\<exists>n \<le> length xs. mset ys = elems m + mset (map (copied (cfn c)) (take n xs)))"
    proof
      assume "rc' = 0 \<and> rel c' (foldl snoc (snoc m (copied (cfn c) x)) (map (copied (cfn c1)) xs')) \<and> ys = []"
      then show ?thesis by (simp add: xs conf)
    next
      assume a: "rc' = - 1 \<and> rel c' empty \<and> (\<exists>n \<le> length xs'. mset ys
            = elems (snoc m (copied (cfn c) x)) + mset (map (copied (cfn c1)) (take n xs')))"
      then obtain n where n: "n \<le> length xs'" and "mset ys
            = elems (snoc m (copied (cfn c) x)) + mset (map (copied (cfn c1)) (take n xs'))" by blast
      then have "mset ys = elems m + mset (map (copied (cfn c)) (take (Suc n) xs))"
        by (simp add: xs conf elems_snoc)
      moreover have "Suc n \<le> length xs" using n xs by simp
      ultimately show ?thesis using a by blast
    qed
    ultimately show ?thesis
      using conf conf' same dest by (intro exI [of _ rc'] exI [of _ c'] exI [of _ w'] exI [of _ ys]) auto
  next
    assume bad: "rc = - 1 \<and> rel c1 m"
    then obtain c2 w2 ys where "clear (Ptr c1) w1 = Some (Ptr c2, w2)" "conf c2 = conf c1"
      "rel c2 empty" "live w2 - own c2 = live w1 - own c1" "mset ys = elems m"
      "destroyed w2 = destroyed w1 @ log_if (dfn c1) ys"
      using clear_law [of c1 m w1] by blast
    then show ?thesis
      using i push bad conf same nf xs
      by (intro exI [of _ "- 1"] exI [of _ c2] exI [of _ w2] exI [of _ ys]) auto
  qed
qed

text \<open>A loop that succeeds meets no failure on the way.\<close>

lemma copy_loop_no_fail:
  assumes "copy_loop push clear get is (Ptr c) w = Some (0, p, w')" and "rel c m" and "no_fail w"
  shows "no_fail w'"
  using assms
proof (induction "is" arbitrary: c m w)
  case (Cons i is')
  then obtain x where i: "get i = Some x" by (cases "get i") simp_all
  from push_law [OF Cons.prems(2), of x w] obtain rc c1 w1 where
    push: "push (Ptr c) (Ptr x) w = Some (rc, Ptr c1, w1)" "conf c1 = conf c" "destroyed w1 = destroyed w"
    "live w1 - own c1 = live w - own c" "no_fail w \<longrightarrow> no_fail w1 \<and> (\<forall>n. room c (Suc n) \<longrightarrow> rc = 0 \<and> room c1 n)"
    and res: "rc = 0 \<and> rel c1 (snoc m (copied (cfn c) x)) \<or> rc = - 1 \<and> rel c1 m"
    by (elim exE conjE) (rule that)
  have "rc = 0"
    using Cons.prems(1) i push(1) by (cases "clear (Ptr c1) w1") (auto split: if_splits)
  moreover have "no_fail w1" using push(5) Cons.prems(3) by simp
  ultimately show ?case
    using Cons.IH [of c1 w1 "snoc m (copied (cfn c) x)"] Cons.prems(1) i push(1) res by simp
qed simp

end

end
