(* ===== verification/Machine.thy ===== *)
theory Machine
  imports Prelude
begin

text \<open>
  Histories of a container: a client calls its operations one after the other, any of which may
  fail. \<open>run\<close> executes a list of operations, \<open>explains\<close> is the step relation of the
  abstract machine, and the locale \<open>spec_machine\<close> is the contract between a container and its
  abstract machine, from which whole histories are understood once for all containers.
\<close>

section \<open>Running operations\<close>

fun run :: "('op \<Rightarrow> 'c \<Rightarrow> 'w \<Rightarrow> (int \<times> 'c \<times> 'w) option) \<Rightarrow> 'op list \<Rightarrow> 'c \<Rightarrow> 'w
    \<Rightarrow> (int list \<times> 'c \<times> 'w) option" where
  "run exec [] c w = Some ([], c, w)"
| "run exec (op # ops) c w = do {
     (rc, c1, w1) \<leftarrow> exec op c w;
     (rcs, c2, w2) \<leftarrow> run exec ops c1 w1;
     Some (rc # rcs, c2, w2) }"

text \<open>
  \<open>explains spec ops rcs m m' ds\<close>: the result codes \<open>rcs\<close> are possible for the operations
  \<open>ops\<close> on the abstract value \<open>m\<close>, which ends as \<open>m'\<close> and releases the elements \<open>ds\<close>
  in this order. An operation does what \<open>spec\<close> says, or is refused with \<open>- 1\<close> and changes
  nothing.
\<close>

inductive explains ::
    "('op \<Rightarrow> 'm \<Rightarrow> int \<Rightarrow> 'm \<Rightarrow> 'a list \<Rightarrow> bool) \<Rightarrow> 'op list \<Rightarrow> int list \<Rightarrow> 'm \<Rightarrow> 'm \<Rightarrow> 'a list \<Rightarrow> bool"
  for spec where
  finished: "explains spec [] [] m m []"
| performed: "spec op m rc m1 ds \<Longrightarrow> explains spec ops rcs m1 m2 es \<Longrightarrow>
     explains spec (op # ops) (rc # rcs) m m2 (ds @ es)"
| refused: "explains spec ops rcs m m2 es \<Longrightarrow> explains spec (op # ops) (- 1 # rcs) m m2 es"

inductive_cases explains_NilE: "explains spec [] rcs m m' ds"
inductive_cases explains_ConsE: "explains spec (op # ops) rcs m m' ds"

lemma explains_length: "explains spec ops rcs m m' ds \<Longrightarrow> length rcs = length ops"
  by (induction rule: explains.induct) simp_all

lemma explains_no_log:
  "explains spec ops rcs m m' ds \<Longrightarrow> (\<And>op m rc m' ds. spec op m rc m' ds \<Longrightarrow> ds = []) \<Longrightarrow> ds = []"
  by (induction rule: explains.induct) (blast, simp, simp)

text \<open>The elements that the operations of a history stored: those of the calls that returned \<open>0\<close>.\<close>

fun stored :: "('op \<Rightarrow> 'a multiset) \<Rightarrow> 'op list \<Rightarrow> int list \<Rightarrow> 'a multiset" where
  "stored st (op # ops) (rc # rcs) = (if rc = 0 then st op else {#}) + stored st ops rcs"
| "stored st _ _ = {#}"

section \<open>The contract\<close>

locale spec_machine =
  fixes exec :: "'op \<Rightarrow> 'c \<Rightarrow> ('a, 'b) world_scheme \<Rightarrow> (int \<times> 'c \<times> ('a, 'b) world_scheme) option"
    and spec :: "'k \<Rightarrow> 'op \<Rightarrow> 'm \<Rightarrow> int \<Rightarrow> 'm \<Rightarrow> 'a list \<Rightarrow> bool"
    and legal :: "'k \<Rightarrow> 'op \<Rightarrow> bool"
    and rel :: "'c \<Rightarrow> ('a, 'b) world_scheme \<Rightarrow> 'm \<Rightarrow> bool"
    and conf :: "'c \<Rightarrow> 'k"
    and logs :: "'k \<Rightarrow> bool"
    and own :: "'c \<Rightarrow> ('a, 'b) world_scheme \<Rightarrow> int"
    and elems :: "'m \<Rightarrow> 'a multiset"
    and stores :: "'k \<Rightarrow> 'op \<Rightarrow> 'a multiset"
  assumes exec_law: "rel c w m \<Longrightarrow> legal (conf c) op \<Longrightarrow>
      \<exists>rc c' w'. exec op c w = Some (rc, c', w') \<and> conf c' = conf c
        \<and> live w' - own c' w' = live w - own c w
        \<and> ((\<exists>m' ds. spec (conf c) op m rc m' ds \<and> rel c' w' m'
              \<and> destroyed w' = destroyed w @ log_if (logs (conf c)) ds)
           \<or> rc = - 1 \<and> rel c' w' m \<and> destroyed w' = destroyed w)"
    and spec_conserves: "spec k op m rc m' ds \<Longrightarrow>
      elems m + (if rc = 0 then stores k op else {#}) = elems m' + mset ds"
begin

text \<open>Every history of legal operations runs to its end, and the abstract machine explains it.\<close>

lemma run_explained:
  assumes "rel c w m" and "\<forall>op \<in> set ops. legal (conf c) op"
  shows "\<exists>rcs c' w' m' ds. run exec ops c w = Some (rcs, c', w') \<and> conf c' = conf c
    \<and> live w' - own c' w' = live w - own c w \<and> rel c' w' m' \<and> explains (spec (conf c)) ops rcs m m' ds
    \<and> destroyed w' = destroyed w @ log_if (logs (conf c)) ds"
  using assms
proof (induction ops arbitrary: c w m)
  case Nil
  then show ?case by (auto intro!: exI [of _ "[]"] explains.finished)
next
  case (Cons op ops)
  from Cons.prems(2) have "legal (conf c) op" by simp
  from exec_law [OF Cons.prems(1) this] obtain rc c1 w1 where e: "exec op c w = Some (rc, c1, w1)" "conf c1 = conf c"
    "live w1 - own c1 w1 = live w - own c w"
    and res: "(\<exists>m' ds. spec (conf c) op m rc m' ds \<and> rel c1 w1 m'
              \<and> destroyed w1 = destroyed w @ log_if (logs (conf c)) ds)
           \<or> rc = - 1 \<and> rel c1 w1 m \<and> destroyed w1 = destroyed w"
    by (elim exE conjE) (rule that)
  obtain m1 ds where m1: "rel c1 w1 m1" "destroyed w1 = destroyed w @ log_if (logs (conf c)) ds"
    and step: "spec (conf c) op m rc m1 ds \<or> rc = - 1 \<and> m1 = m \<and> ds = []"
    using res by force
  have "\<forall>op \<in> set ops. legal (conf c1) op" using Cons.prems(2) e(2) by simp
  from Cons.IH [OF m1(1) this]
  obtain rcs c' w' m' es where r: "run exec ops c1 w1 = Some (rcs, c', w')" "conf c' = conf c1"
    "live w' - own c' w' = live w1 - own c1 w1" "rel c' w' m'" "explains (spec (conf c1)) ops rcs m1 m' es"
    "destroyed w' = destroyed w1 @ log_if (logs (conf c1)) es"
    by (elim exE conjE) (rule that)
  have ex: "explains (spec (conf c)) (op # ops) (rc # rcs) m m' (ds @ es)"
    using step r(5) e(2) by (auto intro: explains.intros)
  have run: "run exec (op # ops) c w = Some (rc # rcs, c', w')" using e(1) r(1) by simp
  have "conf c' = conf c" "live w' - own c' w' = live w - own c w"
    "destroyed w' = destroyed w @ log_if (logs (conf c)) (ds @ es)"
    using e r m1(2) by simp_all
  with run ex r(4) show ?case by blast
qed

text \<open>Nothing is lost and nothing is destroyed twice.\<close>

lemma explains_conserves:
  assumes "explains (spec k) ops rcs m m' ds"
  shows "elems m + stored (stores k) ops rcs = elems m' + mset ds"
  using assms
proof (induction rule: explains.induct)
  case (performed op m rc m1 ds ops rcs m2 es)
  let ?s = "if rc = 0 then stores k op else {#}"
  have "elems m + stored (stores k) (op # ops) (rc # rcs) = (elems m + ?s) + stored (stores k) ops rcs"
    by (simp only: stored.simps add.assoc)
  also have "\<dots> = (elems m1 + stored (stores k) ops rcs) + mset ds"
    using spec_conserves [OF performed(1)] by (simp only: ac_simps)
  also have "\<dots> = elems m2 + mset (ds @ es)"
    using performed(3) by (simp add: ac_simps)
  finally show ?case .
qed simp_all

end

end
