(* ===== verification/Vector.thy ===== *)
theory Vector
  imports Machine
begin

text \<open>
  \<open>src/vector.c\<close>: the dynamic array. The record mirrors the struct of \<open>src/vector.h\<close>, every
  function of the file is a definition of the same name, and \<open>vec_rel v xs\<close> says that \<open>v\<close> is
  a well-formed vector that holds the list \<open>xs\<close>. Slot addresses are slot indices.
\<close>

section \<open>Model\<close>

record 'a vector =
  v_capacity :: size_t
  v_size :: size_t
  v_elem_size :: size_t
  v_elem_destroy :: bool
  v_elem_copy :: "('a \<Rightarrow> 'a) option"
  v_data :: "'a buf"

definition VECTOR_INIT_CAPACITY :: size_t where
  "VECTOR_INIT_CAPACITY = 8"

definition vector_empty :: "'a vector \<Rightarrow> bool" where
  "vector_empty v \<longleftrightarrow> v_size v = 0"

definition vector_copy_element ::
    "'a vector \<Rightarrow> 'a \<Rightarrow> ('a, 'b) world_scheme \<Rightarrow> 'a option \<times> ('a, 'b) world_scheme" where
  "vector_copy_element v src w = copy_element (v_elem_copy v) src w"

definition vector_destroy_element ::
    "'a vector \<Rightarrow> 'a \<Rightarrow> ('a, 'b) world_scheme \<Rightarrow> ('a, 'b) world_scheme" where
  "vector_destroy_element v x w = destroy_element (v_elem_destroy v) x w"

definition vector_init ::
    "'a vector ptr \<Rightarrow> size_t \<Rightarrow> bool \<Rightarrow> ('a \<Rightarrow> 'a) option \<Rightarrow> int \<times> 'a vector ptr" where
  "vector_init p elem_size elem_destroy elem_copy =
     (if p = NULL \<or> elem_size = 0 then (- 1, p)
      else (0, Ptr \<lparr>v_capacity = 0, v_size = 0, v_elem_size = elem_size,
        v_elem_destroy = elem_destroy, v_elem_copy = elem_copy, v_data = NULL\<rparr>))"

definition vector_clear ::
    "'a vector ptr \<Rightarrow> ('a, 'b) world_scheme \<Rightarrow> ('a vector ptr \<times> ('a, 'b) world_scheme) option" where
  "vector_clear p w = (case p of NULL \<Rightarrow> Some (NULL, w) | Ptr v \<Rightarrow> do {
     w1 \<leftarrow> (if v_elem_destroy v then destroy_slots True (v_data v) [0..<v_size v] w else Some w);
     Some (Ptr (v\<lparr>v_size := 0\<rparr>), w1) })"

definition vector_destroy ::
    "'a vector ptr \<Rightarrow> ('a, 'b) world_scheme \<Rightarrow> ('a vector ptr \<times> ('a, 'b) world_scheme) option" where
  "vector_destroy p w = (case p of NULL \<Rightarrow> Some (NULL, w) | Ptr _ \<Rightarrow> do {
     (q, w1) \<leftarrow> vector_clear p w;
     let v = pt q in
     Some (Ptr (v\<lparr>v_data := NULL, v_capacity := 0\<rparr>), free_ptr (v_data v) w1) })"

text \<open>\<open>raw_vector\<close> stands for the fields of a fresh block, which \<open>vector_init\<close> overwrites.\<close>

definition raw_vector :: "'a vector" where
  "raw_vector = \<lparr>v_capacity = 0, v_size = 0, v_elem_size = 0, v_elem_destroy = False,
     v_elem_copy = None, v_data = NULL\<rparr>"

definition vector_new ::
    "size_t \<Rightarrow> bool \<Rightarrow> ('a \<Rightarrow> 'a) option \<Rightarrow> ('a, 'b) world_scheme
     \<Rightarrow> 'a vector ptr \<times> ('a, 'b) world_scheme" where
  "vector_new elem_size elem_destroy elem_copy w =
     (let (ok, w1) = malloc 48 w in
      if \<not> ok then (NULL, w1)
      else let (rc, p) = vector_init (Ptr raw_vector) elem_size elem_destroy elem_copy in
        if rc \<noteq> 0 then (NULL, free_block w1) else (p, w1))"

definition vector_free ::
    "'a vector ptr \<Rightarrow> ('a, 'b) world_scheme \<Rightarrow> ('a, 'b) world_scheme option" where
  "vector_free p w = (case p of NULL \<Rightarrow> Some w | Ptr _ \<Rightarrow> do {
     (_, w1) \<leftarrow> vector_destroy p w; Some (free_block w1) })"

definition vector_reserve ::
    "'a vector ptr \<Rightarrow> size_t \<Rightarrow> ('a, 'b) world_scheme
     \<Rightarrow> int \<times> 'a vector ptr \<times> ('a, 'b) world_scheme" where
  "vector_reserve p capacity w = (case p of NULL \<Rightarrow> (- 1, NULL, w) | Ptr v \<Rightarrow>
     if capacity \<le> v_capacity v then (0, p, w)
     else let bytes = sz_mul capacity (v_elem_size v);
              (ok, w1) = realloc (v_data v \<noteq> NULL) bytes w in
       if \<not> ok then (- 1, p, w1)
       else (0, Ptr (v\<lparr>v_data := buf_resize (bytes div v_elem_size v) (v_data v),
                       v_capacity := capacity\<rparr>), w1))"

text \<open>The growth block that \<open>vector_push\<close> and \<open>vector_insert\<close> share.\<close>

definition vector_grow ::
    "'a vector \<Rightarrow> ('a, 'b) world_scheme \<Rightarrow> int \<times> 'a vector ptr \<times> ('a, 'b) world_scheme" where
  "vector_grow v w =
     (if v_size v = v_capacity v
      then vector_reserve (Ptr v)
        (if v_capacity v = 0 then VECTOR_INIT_CAPACITY else sz_mul (v_capacity v) 2) w
      else (0, Ptr v, w))"

definition vector_push ::
    "'a vector ptr \<Rightarrow> 'a ptr \<Rightarrow> ('a, 'b) world_scheme
     \<Rightarrow> (int \<times> 'a vector ptr \<times> ('a, 'b) world_scheme) option" where
  "vector_push p elem w =
     (if p = NULL \<or> elem = NULL then Some (- 1, p, w)
      else let (rc, q, w1) = vector_grow (pt p) w in
        if rc \<noteq> 0 then Some (- 1, q, w1)
        else let v = pt q; (c, w2) = vector_copy_element v (pt elem) w1 in do {
          d \<leftarrow> buf_put (v_data v) (v_size v) c;
          if c = None then Some (- 1, Ptr (v\<lparr>v_data := d\<rparr>), w2)
          else Some (0, Ptr (v\<lparr>v_data := d, v_size := sz_add (v_size v) 1\<rparr>), w2) })"

definition vector_copy ::
    "bool \<Rightarrow> 'a vector ptr \<Rightarrow> 'a vector ptr \<Rightarrow> ('a, 'b) world_scheme
     \<Rightarrow> (int \<times> 'a vector ptr \<times> ('a, 'b) world_scheme) option" where
  "vector_copy same dst src w =
     (if dst = NULL \<or> src = NULL then Some (- 1, dst, w)
      else if same then Some (0, dst, w)
      else do {
        (dst1, w1) \<leftarrow> vector_destroy dst w;
        let s = pt src;
            (rc, dst2) = vector_init dst1 (v_elem_size s) (v_elem_destroy s) (v_elem_copy s) in
        if rc \<noteq> 0 then Some (- 1, dst2, w1)
        else let (rc2, dst3, w2) = vector_reserve dst2 (v_size s) w1 in
          if rc2 \<noteq> 0 then Some (- 1, dst3, w2)
          else copy_loop vector_push vector_clear (buf_get (v_data s)) [0..<v_size s] dst3 w2 })"

definition vector_clone ::
    "'a vector ptr \<Rightarrow> ('a, 'b) world_scheme \<Rightarrow> ('a vector ptr \<times> ('a, 'b) world_scheme) option" where
  "vector_clone src w = (case src of NULL \<Rightarrow> Some (NULL, w) | Ptr s \<Rightarrow>
     let (copy, w1) = vector_new (v_elem_size s) (v_elem_destroy s) (v_elem_copy s) w in
     if copy = NULL then Some (NULL, w1)
     else do {
       (rc, copy1, w2) \<leftarrow> vector_copy False copy src w1;
       if rc \<noteq> 0 then do { w3 \<leftarrow> vector_free copy1 w2; Some (NULL, w3) }
       else Some (copy1, w2) })"

definition vector_pop ::
    "'a vector ptr \<Rightarrow> ('a, 'b) world_scheme
     \<Rightarrow> (int \<times> 'a vector ptr \<times> ('a, 'b) world_scheme) option" where
  "vector_pop p w =
     (if p = NULL \<or> vector_empty (pt p) then Some (- 1, p, w)
      else let v = (pt p)\<lparr>v_size := sz_sub (v_size (pt p)) 1\<rparr> in do {
        x \<leftarrow> buf_get (v_data v) (v_size v);
        Some (0, Ptr v, vector_destroy_element v x w) })"

definition vector_insert ::
    "'a vector ptr \<Rightarrow> size_t \<Rightarrow> 'a ptr \<Rightarrow> ('a, 'b) world_scheme
     \<Rightarrow> (int \<times> 'a vector ptr \<times> ('a, 'b) world_scheme) option" where
  "vector_insert p index elem w =
     (if p = NULL \<or> elem = NULL \<or> v_size (pt p) < index then Some (- 1, p, w)
      else if index = v_size (pt p) then vector_push p elem w
      else let (rc, q, w1) = vector_grow (pt p) w in
        if rc \<noteq> 0 then Some (- 1, q, w1)
        else let v = pt q; n = sz_sub (v_size v) index in do {
          d1 \<leftarrow> buf_move (v_data v) (index + 1) index n;
          let (c, w2) = vector_copy_element v (pt elem) w1 in do {
          d2 \<leftarrow> buf_put d1 index c;
          if c = None then do {
            d3 \<leftarrow> buf_move d2 index (index + 1) n;
            Some (- 1, Ptr (v\<lparr>v_data := d3\<rparr>), w2) }
          else Some (0, Ptr (v\<lparr>v_data := d2, v_size := sz_add (v_size v) 1\<rparr>), w2) } })"

definition vector_set ::
    "'a vector ptr \<Rightarrow> size_t \<Rightarrow> 'a ptr \<Rightarrow> ('a, 'b) world_scheme
     \<Rightarrow> (int \<times> 'a vector ptr \<times> ('a, 'b) world_scheme) option" where
  "vector_set p index elem w =
     (if p = NULL \<or> elem = NULL \<or> v_size (pt p) \<le> index then Some (- 1, p, w)
      else let v = pt p; (ok, w1) = malloc (v_elem_size v) w in
        if \<not> ok then Some (- 1, p, w1)
        else let (c, w2) = vector_copy_element v (pt elem) w1 in
          case c of None \<Rightarrow> Some (- 1, p, free_block w2)
          | Some y \<Rightarrow> do {
              x \<leftarrow> buf_get (v_data v) index;
              d \<leftarrow> buf_put (v_data v) index (Some y);
              Some (0, Ptr (v\<lparr>v_data := d\<rparr>),
                free_block (vector_destroy_element v x w2)) })"

definition vector_erase ::
    "'a vector ptr \<Rightarrow> size_t \<Rightarrow> ('a, 'b) world_scheme
     \<Rightarrow> ('a vector ptr \<times> ('a, 'b) world_scheme) option" where
  "vector_erase p index w =
     (if p = NULL \<or> v_size (pt p) \<le> index then Some (p, w)
      else let v = pt p in do {
        x \<leftarrow> buf_get (v_data v) index;
        d \<leftarrow> (if sz_add index 1 < v_size v
              then buf_move (v_data v) index (index + 1) (v_size v - index - 1)
              else Some (v_data v));
        Some (Ptr (v\<lparr>v_data := d, v_size := sz_sub (v_size v) 1\<rparr>),
          vector_destroy_element v x w) })"

text \<open>Accessors return the address of a slot, that is its index.\<close>

definition vector_at :: "'a vector ptr \<Rightarrow> size_t \<Rightarrow> nat ptr" where
  "vector_at p index = (if p = NULL \<or> v_size (pt p) \<le> index then NULL else Ptr index)"

definition vector_at_const :: "'a vector ptr \<Rightarrow> size_t \<Rightarrow> nat ptr" where
  "vector_at_const p index = (if p = NULL \<or> v_size (pt p) \<le> index then NULL else Ptr index)"

definition vector_front :: "'a vector ptr \<Rightarrow> nat ptr" where
  "vector_front p = vector_at p 0"

definition vector_front_const :: "'a vector ptr \<Rightarrow> nat ptr" where
  "vector_front_const p = vector_at_const p 0"

definition vector_back :: "'a vector ptr \<Rightarrow> nat ptr" where
  "vector_back p =
     (if p = NULL \<or> vector_empty (pt p) then NULL else Ptr (sz_sub (v_size (pt p)) 1))"

definition vector_back_const :: "'a vector ptr \<Rightarrow> nat ptr" where
  "vector_back_const p =
     (if p = NULL \<or> vector_empty (pt p) then NULL else Ptr (sz_sub (v_size (pt p)) 1))"

text \<open>What \<open>vector_get_as\<close> reads through such an address.\<close>

definition vector_deref :: "'a vector \<Rightarrow> nat ptr \<Rightarrow> 'a option" where
  "vector_deref v a = (case a of NULL \<Rightarrow> None | Ptr i \<Rightarrow> buf_get (v_data v) i)"



section \<open>Invariant\<close>

text \<open>
  \<open>vec_rel v xs\<close>: the first \<open>size\<close> slots hold \<open>xs\<close>, the block has \<open>capacity\<close> slots
  and fits in memory, as does a block of \<open>VECTOR_INIT_CAPACITY\<close> slots, and there is a block
  exactly when the capacity is not 0.
\<close>

definition vec_rel :: "'a vector \<Rightarrow> 'a list \<Rightarrow> bool" where
  "vec_rel v xs \<longleftrightarrow> holds (v_data v) xs \<and> v_size v = length xs
     \<and> length (slots (v_data v)) = v_capacity v \<and> (v_data v = NULL \<longleftrightarrow> v_capacity v = 0)
     \<and> 0 < v_elem_size v \<and> 8 * v_elem_size v \<le> PTRDIFF_MAX
     \<and> v_capacity v * v_elem_size v \<le> PTRDIFF_MAX"

definition vec_conf :: "'a vector \<Rightarrow> size_t \<times> bool \<times> ('a \<Rightarrow> 'a) option" where
  "vec_conf v = (v_elem_size v, v_elem_destroy v, v_elem_copy v)"

definition vec_own :: "'a vector \<Rightarrow> int" where
  "vec_own v = blocks (v_data v)"

text \<open>\<open>n\<close> pushes succeed unless the allocator or a callback refuses.\<close>

definition vec_room :: "'a vector \<Rightarrow> nat \<Rightarrow> bool" where
  "vec_room v n \<longleftrightarrow> v_size v + n \<le> v_capacity v
     \<or> (2 * (v_size v + n) + 8) * v_elem_size v \<le> PTRDIFF_MAX"

lemma vec_conf_eq [simp]:
  "vec_conf v' = vec_conf v \<longleftrightarrow> v_elem_size v' = v_elem_size v
     \<and> v_elem_destroy v' = v_elem_destroy v \<and> v_elem_copy v' = v_elem_copy v"
  by (auto simp: vec_conf_def)

lemma vec_relD:
  assumes "vec_rel v xs"
  shows "holds (v_data v) xs" "v_size v = length xs" "length (slots (v_data v)) = v_capacity v"
    "v_data v = NULL \<longleftrightarrow> v_capacity v = 0" "0 < v_elem_size v"
    "v_capacity v * v_elem_size v \<le> PTRDIFF_MAX" "length xs \<le> v_capacity v"
    "v_capacity v \<le> PTRDIFF_MAX" "8 * v_elem_size v \<le> PTRDIFF_MAX"
  using assms mult_le_PTRDIFF [of "v_capacity v" "v_elem_size v"]
  by (auto simp: vec_rel_def holds_def)

lemma vec_rel_unique: "vec_rel v xs \<Longrightarrow> vec_rel v ys \<Longrightarrow> xs = ys"
  by (auto simp: vec_rel_def dest: holds_unique)


section \<open>Operations\<close>

lemma vector_init_ok:
  assumes "0 < e" and "8 * e \<le> PTRDIFF_MAX"
  shows "\<exists>v. vector_init (Ptr u) e d c = (0, Ptr v) \<and> vec_rel v [] \<and> v_elem_size v = e
    \<and> v_elem_destroy v = d \<and> v_elem_copy v = c \<and> vec_own v = 0"
  using assms by (auto simp: vector_init_def vec_rel_def vec_own_def)

lemma vector_reserve_ok:
  assumes v: "vec_rel v xs" and n: "n * v_elem_size v \<le> SIZE_MAX"
  shows "\<exists>rc v' w'. vector_reserve (Ptr v) n w = (rc, Ptr v', w') \<and> vec_conf v' = vec_conf v
    \<and> vec_rel v' xs \<and> destroyed w' = destroyed w \<and> live w' - vec_own v' = live w - vec_own v
    \<and> (no_fail w \<longrightarrow> no_fail w' \<and> (n * v_elem_size v \<le> PTRDIFF_MAX \<longrightarrow> rc = 0))
    \<and> (rc = 0 \<and> v_capacity v' = max n (v_capacity v) \<or> rc = - 1 \<and> v' = v)"
proof (cases "n \<le> v_capacity v")
  case True
  with v show ?thesis by (auto simp: vector_reserve_def)
next
  case False
  note D = vec_relD [OF v]
  obtain ok w1 where m: "realloc (v_data v \<noteq> NULL) (n * v_elem_size v) w = (ok, w1)" by fastforce
  note E = realloc_effect [OF m]
  show ?thesis
  proof (cases ok)
    case True
    let ?v = "v\<lparr>v_data := buf_resize n (v_data v), v_capacity := n\<rparr>"
    have "vector_reserve (Ptr v) n w = (0, Ptr ?v, w1)"
      using False n m True D(5) by (simp add: vector_reserve_def)
    moreover have "vec_rel ?v xs"
      using D E(4) True False by (auto simp: vec_rel_def holds_resize)
    ultimately show ?thesis
      using E True False by (cases "v_data v") (auto simp: vec_own_def)
  next
    case False': False
    then have "vector_reserve (Ptr v) n w = (- 1, Ptr v, w1)"
      using False n m by (simp add: vector_reserve_def)
    then show ?thesis using v E False' by auto
  qed
qed

lemma vec_double:
  assumes "vec_rel v xs"
  shows "sz_mul (v_capacity v) 2 = 2 * v_capacity v" "2 * v_capacity v * v_elem_size v \<le> SIZE_MAX"
proof -
  note D = vec_relD [OF assms]
  show "sz_mul (v_capacity v) 2 = 2 * v_capacity v"
    using D(8) SIZE_MAX_PTRDIFF_MAX by (simp add: mult.commute)
  have "2 * (v_capacity v * v_elem_size v) \<le> SIZE_MAX"
    using D(6) SIZE_MAX_PTRDIFF_MAX by linarith
  then show "2 * v_capacity v * v_elem_size v \<le> SIZE_MAX" by (simp only: mult.assoc)
qed

lemma vector_grow_ok:
  assumes v: "vec_rel v xs"
  shows "\<exists>rc v' w'. vector_grow v w = (rc, Ptr v', w') \<and> vec_conf v' = vec_conf v
    \<and> vec_rel v' xs \<and> destroyed w' = destroyed w \<and> live w' - vec_own v' = live w - vec_own v
    \<and> (no_fail w \<longrightarrow> no_fail w' \<and> (\<forall>n. vec_room v (Suc n) \<longrightarrow> rc = 0))
    \<and> (rc = 0 \<and> length xs < v_capacity v' \<and> v_capacity v \<le> v_capacity v' \<or> rc = - 1 \<and> v' = v)"
proof (cases "v_size v = v_capacity v")
  case False
  then show ?thesis
    using v vec_relD(2,7) [OF v] by (auto simp: vector_grow_def)
next
  case True
  note D = vec_relD [OF v]
  define n where "n = (if v_capacity v = 0 then VECTOR_INIT_CAPACITY else sz_mul (v_capacity v) 2)"
  have big: "v_capacity v < n" "n * v_elem_size v \<le> SIZE_MAX"
    using vec_double [OF v] D(9) SIZE_MAX_PTRDIFF_MAX
    by (auto simp: n_def VECTOR_INIT_CAPACITY_def)
  have room: "n * v_elem_size v \<le> PTRDIFF_MAX" if "vec_room v (Suc k)" for k
  proof -
    have "n \<le> 2 * (v_size v + Suc k) + 8"
      using vec_double(1) [OF v] True by (auto simp: n_def VECTOR_INIT_CAPACITY_def)
    with that True show ?thesis
      unfolding vec_room_def by (auto intro: le_trans [OF mult_le_mono1])
  qed
  have "vector_grow v w = vector_reserve (Ptr v) n w"
    using True by (simp add: vector_grow_def n_def)
  with vector_reserve_ok [OF v big(2), of w] big(1) True D(2) room show ?thesis
    by (fastforce simp: max_def)
qed

lemma vector_push_ok:
  assumes v: "vec_rel v xs"
  shows "\<exists>rc v' w'. vector_push (Ptr v) (Ptr x) w = Some (rc, Ptr v', w') \<and> vec_conf v' = vec_conf v
    \<and> destroyed w' = destroyed w \<and> live w' - vec_own v' = live w - vec_own v
    \<and> (no_fail w \<longrightarrow> no_fail w' \<and> (\<forall>n. vec_room v (Suc n) \<longrightarrow> rc = 0 \<and> vec_room v' n))
    \<and> (rc = 0 \<and> vec_rel v' (xs @ [copied (v_elem_copy v) x]) \<or> rc = - 1 \<and> vec_rel v' xs)"
proof -
  obtain rc v1 w1 where g: "vector_grow v w = (rc, Ptr v1, w1)" "vec_conf v1 = vec_conf v"
    and v1: "vec_rel v1 xs" and w1: "destroyed w1 = destroyed w" "live w1 - vec_own v1 = live w - vec_own v"
    and nf: "no_fail w \<longrightarrow> no_fail w1 \<and> (\<forall>n. vec_room v (Suc n) \<longrightarrow> rc = 0)"
    and res: "rc = 0 \<and> length xs < v_capacity v1 \<and> v_capacity v \<le> v_capacity v1 \<or> rc = - 1 \<and> v1 = v"
    using vector_grow_ok [OF v, of w] by (elim exE conjE) (rule that)
  note D = vec_relD [OF v1]
  show ?thesis
  proof (cases "rc = 0")
    case False
    then show ?thesis using g v1 w1 nf res by (auto simp: vector_push_def)
  next
    case True
    with res have cap: "length xs < v_capacity v1" "v_capacity v \<le> v_capacity v1" by auto
    obtain c w2 where c: "copy_element (v_elem_copy v1) x w1 = (c, w2)" by fastforce
    note E = copy_element_effect [OF c]
    show ?thesis
    proof (cases c)
      case None
      obtain d where d: "buf_put (v_data v1) (length xs) None = Some d" "holds d xs"
        "length (slots d) = v_capacity v1" "d \<noteq> NULL"
        using holds_put_beyond [OF D(1), of "length xs" None] cap D(3) by auto
      have "vector_push (Ptr v) (Ptr x) w = Some (- 1, Ptr (v1\<lparr>v_data := d\<rparr>), w2)"
        using True g c None d D(2) by (simp add: vector_push_def vector_copy_element_def)
      moreover have "vec_rel (v1\<lparr>v_data := d\<rparr>) xs"
        using D d cap by (auto simp: vec_rel_def)
      ultimately show ?thesis
        using g w1 nf E None D(4) d(4) cap by (auto simp: vec_own_def)
    next
      case (Some y)
      then have y: "y = copied (v_elem_copy v) x" using E(3) g by simp
      obtain d where d: "buf_put (v_data v1) (length xs) (Some y) = Some d" "holds d (xs @ [y])"
        "length (slots d) = v_capacity v1" "d \<noteq> NULL"
        using holds_put_new [OF D(1), of y] cap D(3) by auto
      have sz: "sz_add (length xs) 1 = Suc (length xs)"
        using D(7,8) SIZE_MAX_PTRDIFF_MAX cap by simp
      let ?v = "v1\<lparr>v_data := d, v_size := Suc (length xs)\<rparr>"
      have "vector_push (Ptr v) (Ptr x) w = Some (0, Ptr ?v, w2)"
        using True g c Some d D(2) sz by (simp add: vector_push_def vector_copy_element_def)
      moreover have "vec_rel ?v (xs @ [copied (v_elem_copy v) x])"
        using D d cap y by (auto simp: vec_rel_def)
      moreover have "vec_room ?v n" if "vec_room v (Suc n)" for n
        using that cap g D(2) vec_relD(2) [OF v] by (auto simp: vec_room_def)
      ultimately show ?thesis
        using g w1 nf E D(4) d(4) cap by (auto simp: vec_own_def)
    qed
  qed
qed

lemma vector_clear_ok:
  assumes v: "vec_rel v xs"
  shows "\<exists>w'. vector_clear (Ptr v) w = Some (Ptr (v\<lparr>v_size := 0\<rparr>), w')
    \<and> vec_rel (v\<lparr>v_size := 0\<rparr>) [] \<and> live w' = live w \<and> no_fail w' = no_fail w
    \<and> destroyed w' = destroyed w @ log_if (v_elem_destroy v) xs"
proof -
  note D = vec_relD [OF v]
  have "vec_rel (v\<lparr>v_size := 0\<rparr>) []" using D by (auto simp: vec_rel_def)
  moreover have "\<exists>w'. destroy_slots True (v_data v) [0..<v_size v] w = Some w'
      \<and> destroyed w' = destroyed w @ xs \<and> live w' = live w \<and> no_fail w' = no_fail w"
    using destroy_slots_ok [of "v_data v" "[0..<v_size v]" xs True w] holds_get_map [OF D(1)] D(2)
    by auto
  ultimately show ?thesis by (auto simp: vector_clear_def)
qed

lemma vector_destroy_ok:
  assumes v: "vec_rel v xs"
  shows "\<exists>v' w'. vector_destroy (Ptr v) w = Some (Ptr v', w') \<and> vec_conf v' = vec_conf v
    \<and> vec_rel v' [] \<and> vec_own v' = 0 \<and> live w' = live w - vec_own v \<and> no_fail w' = no_fail w
    \<and> destroyed w' = destroyed w @ log_if (v_elem_destroy v) xs"
proof -
  obtain w1 where c: "vector_clear (Ptr v) w = Some (Ptr (v\<lparr>v_size := 0\<rparr>), w1)"
    "live w1 = live w" "no_fail w1 = no_fail w"
    "destroyed w1 = destroyed w @ log_if (v_elem_destroy v) xs"
    using vector_clear_ok [OF v, of w] by blast
  let ?v = "v\<lparr>v_size := 0, v_data := NULL, v_capacity := 0\<rparr>"
  have "vector_destroy (Ptr v) w = Some (Ptr ?v, free_ptr (v_data v) w1)"
    using c(1) by (simp add: vector_destroy_def)
  moreover have "vec_rel ?v []" using vec_relD [OF v] by (simp add: vec_rel_def)
  ultimately show ?thesis using c by (auto simp: vec_own_def)
qed

text \<open>A vector is a push container that represents its list.\<close>

interpretation vec: push_container vector_push vector_clear vec_rel "[]" "\<lambda>xs x. xs @ [x]" mset
  vec_conf v_elem_copy v_elem_destroy vec_own vec_room
proof (unfold_locales, goal_cases)
  case (1 v xs x w)
  from vector_push_ok [OF 1, of x w] show ?case by (elim exE conjE) (intro exI conjI, auto)
next
  case (2 v xs w)
  from vector_clear_ok [OF 2, of w] show ?case by (fastforce simp: vec_own_def)
qed auto

text \<open>
  \<open>vector_copy\<close>. On success the destination holds the copies of the source's elements and has the
  source's configuration; on failure it is empty. Everything it held before, and every copy made
  before the failure, was passed to the destroy callback.
\<close>

lemma vector_copy_ok:
  assumes d: "vec_rel d ys" and s: "vec_rel s xs"
  shows "\<exists>rc d' w' zs n. vector_copy False (Ptr d) (Ptr s) w = Some (rc, Ptr d', w')
    \<and> vec_conf d' = vec_conf s \<and> live w' - vec_own d' = live w - vec_own d
    \<and> destroyed w' = destroyed w @ log_if (v_elem_destroy d) ys @ log_if (v_elem_destroy s) zs
    \<and> (no_fail w \<longrightarrow> rc = 0)
    \<and> (rc = 0 \<and> vec_rel d' (map (copied (v_elem_copy s)) xs) \<and> zs = []
       \<or> rc = - 1 \<and> vec_rel d' [] \<and> mset zs = mset (map (copied (v_elem_copy s)) (take n xs)))"
proof -
  note S = vec_relD [OF s]
  obtain d1 w1 where 1: "vector_destroy (Ptr d) w = Some (Ptr d1, w1)" "live w1 = live w - vec_own d"
    "no_fail w1 = no_fail w" "destroyed w1 = destroyed w @ log_if (v_elem_destroy d) ys"
    using vector_destroy_ok [OF d, of w] by blast
  obtain d2 where 2: "vector_init (Ptr d1) (v_elem_size s) (v_elem_destroy s) (v_elem_copy s) = (0, Ptr d2)"
    "vec_rel d2 []" "vec_conf d2 = vec_conf s" "vec_own d2 = 0"
    using vector_init_ok [OF S(5,9), of d1 "v_elem_destroy s" "v_elem_copy s"] by auto
  have fits: "length xs * v_elem_size s \<le> PTRDIFF_MAX"
    using S(6,7) by (meson le_trans mult_le_mono1)
  then have "length xs * v_elem_size d2 \<le> SIZE_MAX"
    using 2 SIZE_MAX_PTRDIFF_MAX by simp
  from vector_reserve_ok [OF 2(2) this, of w1]
  obtain rc d3 w2 where 3: "vector_reserve (Ptr d2) (length xs) w1 = (rc, Ptr d3, w2)"
    "vec_conf d3 = vec_conf d2" "vec_rel d3 []" "destroyed w2 = destroyed w1"
    "live w2 - vec_own d3 = live w1 - vec_own d2" "no_fail w1 \<longrightarrow> no_fail w2 \<and>
      (length xs * v_elem_size d2 \<le> PTRDIFF_MAX \<longrightarrow> rc = 0)"
    "rc = 0 \<and> v_capacity d3 = max (length xs) (v_capacity d2) \<or> rc = - 1 \<and> d3 = d2"
    by (elim exE conjE) (rule that)
  show ?thesis
  proof (cases "rc = 0")
    case False
    then have "vector_copy False (Ptr d) (Ptr s) w = Some (- 1, Ptr d3, w2)"
      using 1 2 3 S(2) by (simp add: vector_copy_def)
    then show ?thesis
      using 1 2 3 False fits by (intro exI [of _ "- 1"] exI [of _ d3] exI [of _ w2]
        exI [of _ "[]"] exI [of _ 0]) auto
  next
    case True
    have room: "vec_room d3 (length xs)"
      using True 3 vec_relD(2) [OF 3(3)] by (auto simp: vec_room_def)
    have eq: "vector_copy False (Ptr d) (Ptr s) w
        = copy_loop vector_push vector_clear (buf_get (v_data s)) [0..<v_size s] (Ptr d3) w2"
      using 1 2 3 S(2) True by (simp add: vector_copy_def)
    have "map (buf_get (v_data s)) [0..<v_size s] = map Some xs"
      using holds_get_map [OF S(1)] S(2) by simp
    from vec.copy_loop_ok [OF 3(3) this, of w2]
    obtain rc' d' w' zs where 4:
      "copy_loop vector_push vector_clear (buf_get (v_data s)) [0..<v_size s] (Ptr d3) w2
         = Some (rc', Ptr d', w')"
      "vec_conf d' = vec_conf d3"
      "live w' - vec_own d' = live w2 - vec_own d3"
      "destroyed w' = destroyed w2 @ log_if (v_elem_destroy d3) zs"
      "no_fail w2 \<longrightarrow> vec_room d3 (length xs) \<longrightarrow> rc' = 0"
      "rc' = 0 \<and> vec_rel d' (foldl (\<lambda>xs x. xs @ [x]) [] (map (copied (v_elem_copy d3)) xs)) \<and> zs = []
       \<or> rc' = - 1 \<and> vec_rel d' []
         \<and> (\<exists>n \<le> length xs. mset zs = mset [] + mset (map (copied (v_elem_copy d3)) (take n xs)))"
      by (elim exE conjE) (rule that)
    from 2(3) 3(2) have cf: "v_elem_copy d3 = v_elem_copy s" "v_elem_destroy d3 = v_elem_destroy s"
      by auto
    have nf: "no_fail w \<longrightarrow> rc' = 0" using 1(3) 3(6) 4(5) room by auto
    have dest: "destroyed w' = destroyed w @ log_if (v_elem_destroy d) ys @ log_if (v_elem_destroy s) zs"
      using 1 3 4 cf by simp
    from 4(6) obtain n where res: "rc' = 0 \<and> vec_rel d' (map (copied (v_elem_copy s)) xs) \<and> zs = []
       \<or> rc' = - 1 \<and> vec_rel d' [] \<and> mset zs = mset (map (copied (v_elem_copy s)) (take n xs))"
      unfolding cf foldl_snoc by auto
    have conf: "vec_conf d' = vec_conf s" using 4(2) 3(2) 2(3) by simp
    have lv: "live w' - vec_own d' = live w - vec_own d" using 4(3) 3(5) 2(4) 1(2) by simp
    show ?thesis
      by (intro exI conjI) (rule eq [unfolded 4(1)], rule conf, rule lv, rule dest, rule nf, rule res)
  qed
qed

lemma vector_copy_no_fail:
  assumes d: "vec_rel d ys" and s: "vec_rel s xs" and run: "vector_copy False (Ptr d) (Ptr s) w = Some (0, p, w')"
    and w: "no_fail w"
  shows "no_fail w'"
proof -
  note S = vec_relD [OF s]
  from vector_destroy_ok [OF d, of w] obtain d1 w1 where 1: "vector_destroy (Ptr d) w = Some (Ptr d1, w1)"
    "vec_conf d1 = vec_conf d" "vec_rel d1 []" "vec_own d1 = 0" "live w1 = live w - vec_own d"
    "no_fail w1 = no_fail w" "destroyed w1 = destroyed w @ log_if (v_elem_destroy d) ys"
    by (elim exE conjE) (rule that)
  obtain d2 where 2: "vector_init (Ptr d1) (v_elem_size s) (v_elem_destroy s) (v_elem_copy s) = (0, Ptr d2)"
    "vec_rel d2 []" "v_elem_size d2 = v_elem_size s"
    using vector_init_ok [OF S(5,9), of d1 "v_elem_destroy s" "v_elem_copy s"] by auto
  have "length xs * v_elem_size s \<le> PTRDIFF_MAX" using S(6,7) by (meson le_trans mult_le_mono1)
  then have "length xs * v_elem_size d2 \<le> SIZE_MAX" using 2(3) SIZE_MAX_PTRDIFF_MAX by simp
  from vector_reserve_ok [OF 2(2) this, of w1] obtain rc d3 w2 where
    3: "vector_reserve (Ptr d2) (length xs) w1 = (rc, Ptr d3, w2)" "vec_conf d3 = vec_conf d2" "vec_rel d3 []"
    "destroyed w2 = destroyed w1" "live w2 - vec_own d3 = live w1 - vec_own d2"
    "no_fail w1 \<longrightarrow> no_fail w2 \<and> (length xs * v_elem_size d2 \<le> PTRDIFF_MAX \<longrightarrow> rc = 0)"
    "rc = 0 \<and> v_capacity d3 = max (length xs) (v_capacity d2) \<or> rc = - 1 \<and> d3 = d2"
    by (elim exE conjE) (rule that)
  have "rc = 0" using run 1(1) 2(1) 3(1) S(2) by (auto simp: vector_copy_def split: if_splits)
  then have "copy_loop vector_push vector_clear (buf_get (v_data s)) [0..<v_size s] (Ptr d3) w2 = Some (0, p, w')"
    using run 1(1) 2(1) 3(1) S(2) by (simp add: vector_copy_def)
  then show ?thesis by (rule vec.copy_loop_no_fail [OF _ 3(3)]) (use 3(6) 1(6) w in simp)
qed

lemma vector_pop_ok:
  assumes v: "vec_rel v xs"
  shows "\<exists>rc v' w'. vector_pop (Ptr v) w = Some (rc, Ptr v', w') \<and> vec_conf v' = vec_conf v
    \<and> live w' - vec_own v' = live w - vec_own v \<and> no_fail w' = no_fail w
    \<and> (xs = [] \<and> rc = - 1 \<and> v' = v \<and> w' = w
       \<or> xs \<noteq> [] \<and> rc = 0 \<and> vec_rel v' (butlast xs)
         \<and> destroyed w' = destroyed w @ log_if (v_elem_destroy v) [last xs])"
proof (cases "xs = []")
  case True
  then show ?thesis using v vec_relD(2) [OF v] by (auto simp: vector_pop_def vector_empty_def)
next
  case False
  note D = vec_relD [OF v]
  have sz: "sz_sub (length xs) 1 = length xs - 1"
    using False D(7,8) SIZE_MAX_PTRDIFF_MAX by (simp add: Suc_le_eq)
  have "buf_get (v_data v) (length xs - 1) = Some (last xs)"
    using holds_get [OF D(1), of "length xs - 1"] False by (simp add: last_conv_nth)
  moreover have "vec_rel (v\<lparr>v_size := length xs - 1\<rparr>) (butlast xs)"
    using D holds_take [OF D(1), of "length xs - 1"] by (simp add: vec_rel_def butlast_conv_take)
  ultimately show ?thesis
    using False D(2) sz
    by (auto simp: vector_pop_def vector_empty_def vector_destroy_element_def vec_own_def log_if_def)
qed

lemma vector_set_ok:
  assumes v: "vec_rel v xs"
  shows "\<exists>rc v' w'. vector_set (Ptr v) i (Ptr x) w = Some (rc, Ptr v', w') \<and> vec_conf v' = vec_conf v
    \<and> live w' - vec_own v' = live w - vec_own v \<and> (no_fail w \<longrightarrow> no_fail w' \<and> (i < length xs \<longrightarrow> rc = 0))
    \<and> (rc = - 1 \<and> v' = v \<and> destroyed w' = destroyed w
       \<or> rc = 0 \<and> i < length xs \<and> vec_rel v' (xs[i := copied (v_elem_copy v) x])
         \<and> destroyed w' = destroyed w @ log_if (v_elem_destroy v) [xs ! i])"
proof (cases "i < length xs")
  case False
  then show ?thesis using vec_relD(2) [OF v] by (auto simp: vector_set_def)
next
  case True
  note D = vec_relD [OF v]
  obtain ok w1 where m: "malloc (v_elem_size v) w = (ok, w1)" by fastforce
  obtain c w2 where c: "copy_element (v_elem_copy v) x w1 = (c, w2)" by fastforce
  note M = malloc_effect [OF m] and E = copy_element_effect [OF c]
  have small: "v_elem_size v \<le> PTRDIFF_MAX" using D(9) by simp
  have def: "vector_set (Ptr v) i (Ptr x) w = (if \<not> ok then Some (- 1, Ptr v, w1)
     else (case c of None \<Rightarrow> Some (- 1, Ptr v, free_block w2) | Some y \<Rightarrow> do {
       x \<leftarrow> buf_get (v_data v) i; d \<leftarrow> buf_put (v_data v) i (Some y);
       Some (0, Ptr (v\<lparr>v_data := d\<rparr>), free_block (vector_destroy_element v x w2)) }))"
    using True m c D(2) by (simp add: vector_set_def vector_copy_element_def)
  show ?thesis
  proof (cases "ok \<and> c \<noteq> None")
    case False
    let ?w = "if ok then free_block w2 else w1"
    from False def have "vector_set (Ptr v) i (Ptr x) w = Some (- 1, Ptr v, ?w)" by auto
    moreover have "\<not> no_fail w" using False M(5,6) E(5) small by blast
    ultimately show ?thesis
      using M(1,3) E(1,2) by (intro exI [of _ "- 1"] exI [of _ v] exI [of _ ?w]) auto
  next
    case ok: True
    then obtain y where y: "c = Some y" "y = copied (v_elem_copy v) x" using E(3) by blast
    obtain d where d: "buf_put (v_data v) i (Some y) = Some d" "holds d (xs[i := y])"
      "length (slots d) = length (slots (v_data v))" "d \<noteq> NULL"
      using holds_put_old [OF D(1) True, of y] by blast
    have "vec_rel (v\<lparr>v_data := d\<rparr>) (xs[i := y])"
      using D True d by (auto simp: vec_rel_def)
    moreover have "vector_set (Ptr v) i (Ptr x) w = Some (0, Ptr (v\<lparr>v_data := d\<rparr>),
        free_block (vector_destroy_element v (xs ! i) w2))"
      using def ok y d(1) holds_get [OF D(1) True] by simp
    ultimately show ?thesis
      using ok y d(4) M(1,3,5) E(1,2,4) D(4,7) True
      by (intro exI [of _ 0] exI [of _ "v\<lparr>v_data := d\<rparr>"]
          exI [of _ "free_block (vector_destroy_element v (xs ! i) w2)"])
        (auto simp: vec_own_def vector_destroy_element_def log_if_def)
  qed
qed

lemma vector_erase_ok:
  assumes v: "vec_rel v xs"
  shows "\<exists>v' w'. vector_erase (Ptr v) i w = Some (Ptr v', w') \<and> vec_conf v' = vec_conf v
    \<and> live w' - vec_own v' = live w - vec_own v \<and> no_fail w' = no_fail w
    \<and> (length xs \<le> i \<and> v' = v \<and> w' = w
       \<or> i < length xs \<and> vec_rel v' (take i xs @ drop (Suc i) xs)
         \<and> destroyed w' = destroyed w @ log_if (v_elem_destroy v) [xs ! i])"
proof (cases "i < length xs")
  case False
  then show ?thesis using v vec_relD(2) [OF v] by (auto simp: vector_erase_def)
next
  case True
  note D = vec_relD [OF v]
  have sz: "sz_sub (length xs) 1 = length xs - 1" "sz_add i 1 = Suc i"
    using True D(7,8) SIZE_MAX_PTRDIFF_MAX by simp_all
  obtain d where d: "(if Suc i < length xs then buf_move (v_data v) i (i + 1) (length xs - i - 1)
      else Some (v_data v)) = Some d" "holds d (take i xs @ drop (Suc i) xs)"
    "length (slots d) = length (slots (v_data v))" "d \<noteq> NULL"
    using holds_erase [OF D(1) True] by blast
  have "vec_rel (v\<lparr>v_data := d, v_size := length xs - 1\<rparr>) (take i xs @ drop (Suc i) xs)"
    using D True d by (auto simp: vec_rel_def)
  moreover have "vector_erase (Ptr v) i w = Some (Ptr (v\<lparr>v_data := d, v_size := length xs - 1\<rparr>),
      vector_destroy_element v (xs ! i) w)"
    using d(1) True sz D(2) holds_get [OF D(1) True]
    by (simp add: vector_erase_def split: if_splits)
  ultimately show ?thesis
    using d(4) True D(4,7)
    by (intro exI [of _ "v\<lparr>v_data := d, v_size := length xs - 1\<rparr>"]
        exI [of _ "vector_destroy_element v (xs ! i) w"])
      (auto simp: vec_own_def vector_destroy_element_def log_if_def)
qed

lemma vector_insert_ok:
  assumes v: "vec_rel v xs"
  shows "\<exists>rc v' w'. vector_insert (Ptr v) i (Ptr x) w = Some (rc, Ptr v', w') \<and> vec_conf v' = vec_conf v
    \<and> live w' - vec_own v' = live w - vec_own v \<and> destroyed w' = destroyed w
    \<and> (no_fail w \<longrightarrow> no_fail w' \<and> (vec_room v 1 \<and> i \<le> length xs \<longrightarrow> rc = 0))
    \<and> (rc = - 1 \<and> vec_rel v' xs
       \<or> rc = 0 \<and> i \<le> length xs \<and> vec_rel v' (take i xs @ copied (v_elem_copy v) x # drop i xs))"
proof -
  consider "length xs < i" | "i = length xs" | "i < length xs" by linarith
  then show ?thesis
  proof cases
    case 1
    then show ?thesis using v vec_relD(2) [OF v] by (auto simp: vector_insert_def)
  next
    case 2
    then have "vector_insert (Ptr v) i (Ptr x) w = vector_push (Ptr v) (Ptr x) w"
      using vec_relD(2) [OF v] by (simp add: vector_insert_def)
    moreover obtain rc v' w' where "vector_push (Ptr v) (Ptr x) w = Some (rc, Ptr v', w')"
      "vec_conf v' = vec_conf v" "destroyed w' = destroyed w" "live w' - vec_own v' = live w - vec_own v"
      "no_fail w \<longrightarrow> no_fail w' \<and> (\<forall>n. vec_room v (Suc n) \<longrightarrow> rc = 0 \<and> vec_room v' n)"
      "rc = 0 \<and> vec_rel v' (xs @ [copied (v_elem_copy v) x]) \<or> rc = - 1 \<and> vec_rel v' xs"
      using vector_push_ok [OF v, of x w] by (elim exE conjE) (rule that)
    ultimately show ?thesis
      using 2 by (intro exI [of _ rc] exI [of _ v'] exI [of _ w']) auto
  next
    case 3
    obtain rc v1 w1 where g: "vector_grow v w = (rc, Ptr v1, w1)" "vec_conf v1 = vec_conf v"
      and v1: "vec_rel v1 xs" and w1: "destroyed w1 = destroyed w" "live w1 - vec_own v1 = live w - vec_own v"
      and nf: "no_fail w \<longrightarrow> no_fail w1 \<and> (\<forall>n. vec_room v (Suc n) \<longrightarrow> rc = 0)"
      and res: "rc = 0 \<and> length xs < v_capacity v1 \<and> v_capacity v \<le> v_capacity v1 \<or> rc = - 1 \<and> v1 = v"
      using vector_grow_ok [OF v, of w] by (elim exE conjE) (rule that)
    note D = vec_relD [OF v1]
    show ?thesis
    proof (cases "rc = 0")
      case False
      then show ?thesis
        using g v1 w1 nf res 3 vec_relD(2) [OF v] by (auto simp: vector_insert_def)
    next
      case True
      with res have cap: "length xs < length (slots (v_data v1))" using D(3) by simp
      obtain c w2 where c: "copy_element (v_elem_copy v1) x w1 = (c, w2)" by fastforce
      note E = copy_element_effect [OF c]
      obtain d1 d2 d3 d4 where d: "buf_move (v_data v1) (i + 1) i (length xs - i) = Some d1"
        "buf_put d1 i (Some (the c)) = Some d2" "holds d2 (take i xs @ the c # drop i xs)"
        "length (slots d2) = length (slots (v_data v1))" "d2 \<noteq> NULL"
        "buf_put d1 i None = Some d3" "buf_move d3 i (i + 1) (length xs - i) = Some d4" "holds d4 xs"
        "length (slots d4) = length (slots (v_data v1))" "d4 \<noteq> NULL"
        using holds_insert [OF D(1) 3 cap, of "the c"] by (elim exE conjE) (rule that)
      have sz: "sz_add (length xs) 1 = Suc (length xs)" "sz_sub (length xs) i = length xs - i"
        using D(3,7,8) SIZE_MAX_PTRDIFF_MAX cap 3 by simp_all
      have r4: "vec_rel (v1\<lparr>v_data := d4\<rparr>) xs" using D d cap by (auto simp: vec_rel_def)
      have r2: "vec_rel (v1\<lparr>v_data := d2, v_size := Suc (length xs)\<rparr>) (take i xs @ the c # drop i xs)"
        using D d cap 3 by (auto simp: vec_rel_def)
      have def: "vector_insert (Ptr v) i (Ptr x) w = (if c = None then Some (- 1, Ptr (v1\<lparr>v_data := d4\<rparr>), w2)
          else Some (0, Ptr (v1\<lparr>v_data := d2, v_size := Suc (length xs)\<rparr>), w2))"
        using 3 g True c d D(2) sz vec_relD(2) [OF v]
        by (cases c) (simp_all add: vector_insert_def vector_copy_element_def)
      show ?thesis
      proof (cases c)
        case None
        then show ?thesis using def r4 g w1 nf E(1,2,4,5) D(4) d(9,10) cap by (auto simp: vec_own_def)
      next
        case (Some y)
        have y: "y = copied (v_elem_copy v) x" using E(3) [OF Some] g by simp
        show ?thesis using def r2 g w1 nf E(1,2,4) D(4) d(4,5) cap 3 by (auto simp: vec_own_def Some y)
      qed
    qed
  qed
qed

section \<open>Construction, disposal, access\<close>

lemma vector_new_ok:
  assumes "vector_new e d c w = (p, w')" and "8 * e \<le> PTRDIFF_MAX"
  shows "destroyed w' = destroyed w \<and> (no_fail w \<longrightarrow> no_fail w' \<and> (0 < e \<longrightarrow> p \<noteq> NULL))
    \<and> (p = NULL \<and> live w' = live w
       \<or> (\<exists>v. p = Ptr v \<and> 0 < e \<and> vec_rel v [] \<and> vec_own v = 0 \<and> live w' = live w + 1
           \<and> vec_conf v = (e, d, c)))"
proof -
  obtain ok w1 where m: "malloc 48 w = (ok, w1)" by fastforce
  note M = malloc_effect [OF m]
  have "48 \<le> PTRDIFF_MAX" by (simp add: PTRDIFF_MAX_def)
  with assms m M(1,3,5,6) show ?thesis
    by (cases ok; cases "e = 0")
      (auto simp: vector_new_def vector_init_def raw_vector_def vec_rel_def vec_own_def vec_conf_def)
qed

lemma vector_free_ok:
  assumes v: "vec_rel v xs"
  shows "\<exists>w'. vector_free (Ptr v) w = Some w' \<and> live w' = live w - vec_own v - 1
    \<and> no_fail w' = no_fail w \<and> destroyed w' = destroyed w @ log_if (v_elem_destroy v) xs"
  using vector_destroy_ok [OF v, of w] by (auto simp: vector_free_def)

lemma vector_at_ok:
  assumes v: "vec_rel v xs"
  shows "vector_deref v (vector_at (Ptr v) i) = (if i < length xs then Some (xs ! i) else None)"
    "vector_at_const (Ptr v) i = vector_at (Ptr v) i"
    "vector_deref v (vector_front (Ptr v)) = (if xs = [] then None else Some (hd xs))"
    "vector_deref v (vector_back (Ptr v)) = (if xs = [] then None else Some (last xs))"
proof -
  note D = vec_relD [OF v]
  show "vector_deref v (vector_at (Ptr v) i) = (if i < length xs then Some (xs ! i) else None)"
    using holds_get [OF D(1)] D(2) by (simp add: vector_deref_def vector_at_def)
  show "vector_at_const (Ptr v) i = vector_at (Ptr v) i"
    by (simp add: vector_at_def vector_at_const_def)
  show "vector_deref v (vector_front (Ptr v)) = (if xs = [] then None else Some (hd xs))"
    using holds_get [OF D(1), of 0] D(2)
    by (auto simp: vector_deref_def vector_at_def vector_front_def hd_conv_nth)
  have "sz_sub (length xs) 1 = length xs - 1" if "xs \<noteq> []"
    using that D(7,8) SIZE_MAX_PTRDIFF_MAX by (simp add: Suc_le_eq)
  then show "vector_deref v (vector_back (Ptr v)) = (if xs = [] then None else Some (last xs))"
    using holds_get [OF D(1), of "length xs - 1"] D(2)
    by (auto simp: vector_deref_def vector_back_def vector_empty_def last_conv_nth)
qed




section \<open>Histories\<close>

text \<open>The mutating calls a client makes on a vector, and the list machine they implement.\<close>

datatype 'a vec_op =
    VPush 'a | VPop | VInsert size_t 'a | VSet size_t 'a | VErase size_t | VClear | VReserve size_t

definition vec_exec ::
    "'a vec_op \<Rightarrow> 'a vector \<Rightarrow> ('a, 'b) world_scheme \<Rightarrow> (int \<times> 'a vector \<times> ('a, 'b) world_scheme) option" where
  "vec_exec op v w = (case op of
       VPush x \<Rightarrow> do { (rc, p, w1) \<leftarrow> vector_push (Ptr v) (Ptr x) w; Some (rc, pt p, w1) }
     | VPop \<Rightarrow> do { (rc, p, w1) \<leftarrow> vector_pop (Ptr v) w; Some (rc, pt p, w1) }
     | VInsert i x \<Rightarrow> do { (rc, p, w1) \<leftarrow> vector_insert (Ptr v) i (Ptr x) w; Some (rc, pt p, w1) }
     | VSet i x \<Rightarrow> do { (rc, p, w1) \<leftarrow> vector_set (Ptr v) i (Ptr x) w; Some (rc, pt p, w1) }
     | VErase i \<Rightarrow> do { (p, w1) \<leftarrow> vector_erase (Ptr v) i w; Some (0, pt p, w1) }
     | VClear \<Rightarrow> do { (p, w1) \<leftarrow> vector_clear (Ptr v) w; Some (0, pt p, w1) }
     | VReserve n \<Rightarrow> (let (rc, p, w1) = vector_reserve (Ptr v) n w in Some (rc, pt p, w1)))"

fun vec_ideal :: "('a \<Rightarrow> 'a) \<Rightarrow> 'a vec_op \<Rightarrow> 'a list \<Rightarrow> int \<times> 'a list \<times> 'a list" where
  "vec_ideal f (VPush x) xs = (0, xs @ [f x], [])"
| "vec_ideal f VPop xs = (if xs = [] then (- 1, xs, []) else (0, butlast xs, [last xs]))"
| "vec_ideal f (VInsert i x) xs =
     (if i \<le> length xs then (0, take i xs @ f x # drop i xs, []) else (- 1, xs, []))"
| "vec_ideal f (VSet i x) xs =
     (if i < length xs then (0, xs[i := f x], [xs ! i]) else (- 1, xs, []))"
| "vec_ideal f (VErase i) xs =
     (if i < length xs then (0, take i xs @ drop (Suc i) xs, [xs ! i]) else (0, xs, []))"
| "vec_ideal f VClear xs = (0, [], xs)"
| "vec_ideal f (VReserve n) xs = (0, xs, [])"

text \<open>The ideal step as a relation over the configuration \<open>(elem_size, elem_destroy, elem_copy)\<close>.\<close>

definition vec_spec ::
    "size_t \<times> bool \<times> ('a \<Rightarrow> 'a) option \<Rightarrow> 'a vec_op \<Rightarrow> 'a list \<Rightarrow> int \<Rightarrow> 'a list \<Rightarrow> 'a list \<Rightarrow> bool" where
  "vec_spec k op xs rc ys ds \<longleftrightarrow> vec_ideal (copied (snd (snd k))) op xs = (rc, ys, ds)"

text \<open>A client may not ask to reserve more bytes than \<open>size_t\<close> can count.\<close>

definition vec_legal :: "size_t \<times> bool \<times> ('a \<Rightarrow> 'a) option \<Rightarrow> 'a vec_op \<Rightarrow> bool" where
  "vec_legal k op \<longleftrightarrow> (case op of VReserve n \<Rightarrow> n * fst k \<le> SIZE_MAX | _ \<Rightarrow> True)"

fun vec_stores :: "size_t \<times> bool \<times> ('a \<Rightarrow> 'a) option \<Rightarrow> 'a vec_op \<Rightarrow> 'a multiset" where
  "vec_stores k (VPush x) = {#copied (snd (snd k)) x#}"
| "vec_stores k (VInsert i x) = {#copied (snd (snd k)) x#}"
| "vec_stores k (VSet i x) = {#copied (snd (snd k)) x#}"
| "vec_stores k _ = {#}"

lemma vec_ideal_conserves:
  assumes "vec_ideal (copied (snd (snd k))) op xs = (rc, ys, ds)"
  shows "mset xs + (if rc = 0 then vec_stores k op else {#}) = mset ys + mset ds"
proof (cases op)
  case VPop
  then show ?thesis using assms
    by (cases xs rule: rev_cases) auto
qed (use assms in \<open>auto simp: mset_take_drop mset_take_drop_Suc mset_update_add split: if_splits\<close>)

lemma vec_exec_law:
  assumes v: "vec_rel v xs" and legal: "vec_legal (vec_conf v) op"
  shows "\<exists>rc v' w'. vec_exec op v w = Some (rc, v', w') \<and> vec_conf v' = vec_conf v
    \<and> live w' - vec_own v' = live w - vec_own v
    \<and> ((\<exists>ys ds. vec_spec (vec_conf v) op xs rc ys ds \<and> vec_rel v' ys
          \<and> destroyed w' = destroyed w @ log_if (v_elem_destroy v) ds)
       \<or> rc = - 1 \<and> vec_rel v' xs \<and> destroyed w' = destroyed w)"
proof -
  note defs = vec_exec_def vec_spec_def
  have cf: "copied (snd (snd (vec_conf v))) = copied (v_elem_copy v)" by (simp add: vec_conf_def)
  show ?thesis
  proof (cases op)
    case (VPush x)
    from vector_push_ok [OF v, of x w] show ?thesis
      unfolding VPush defs cf by (elim exE conjE disjE) simp_all
  next
    case VPop
    from vector_pop_ok [OF v, of w] show ?thesis
      unfolding VPop defs cf using v by (elim exE conjE disjE) simp_all
  next
    case (VInsert i x)
    from vector_insert_ok [OF v, of i x w] show ?thesis
      unfolding VInsert defs cf by (elim exE conjE disjE) simp_all
  next
    case (VSet i x)
    from vector_set_ok [OF v, of i x w] show ?thesis
      unfolding VSet defs cf using v by (elim exE conjE disjE) simp_all
  next
    case (VErase i)
    from vector_erase_ok [OF v, of i w] show ?thesis
      unfolding VErase defs cf using v by (elim exE conjE disjE) simp_all
  next
    case VClear
    from vector_clear_ok [OF v, of w] show ?thesis
      unfolding VClear defs cf by (elim exE conjE) (simp add: vec_own_def)
  next
    case (VReserve n)
    have "n * v_elem_size v \<le> SIZE_MAX"
      using legal VReserve by (simp add: vec_legal_def vec_conf_def)
    from vector_reserve_ok [OF v this, of w] show ?thesis
      unfolding VReserve defs cf by (elim exE conjE disjE) simp_all
  qed
qed

interpretation vecm: spec_machine vec_exec vec_spec vec_legal "\<lambda>v w. vec_rel v" vec_conf
  "\<lambda>k. fst (snd k)" "\<lambda>v w. vec_own v" mset vec_stores
proof (unfold_locales, goal_cases)
  case (1 v w xs op)
  then show ?case using vec_exec_law [of v xs op w] by (simp add: vec_conf_def)
next
  case (2 k op xs rc ys ds)
  show ?case by (rule vec_ideal_conserves [OF 2 [unfolded vec_spec_def]])
qed

section \<open>Properties\<close>

text \<open>C1: every history of calls on a freshly initialised vector, with any pattern of allocation
  and copy failures, runs without undefined behaviour and behaves like the list machine: a call
  does what the list operation does and returns its code, or is refused with \<open>- 1\<close> and leaves
  the contents alone. The elements it releases are exactly those the list machine releases, in
  order, and the blocks held are those of the vector.\<close>

theorem vector_history:
  assumes "0 < e" and "8 * e \<le> PTRDIFF_MAX" and "\<forall>op \<in> set ops. vec_legal (e, d, c) op"
  shows "\<exists>v rcs v' w' xs ds. vector_init (Ptr raw_vector) e d c = (0, Ptr v)
    \<and> run vec_exec ops v w = Some (rcs, v', w') \<and> vec_rel v' xs
    \<and> explains (vec_spec (e, d, c)) ops rcs [] xs ds
    \<and> destroyed w' = destroyed w @ log_if d ds \<and> live w' = live w + vec_own v'"
proof -
  obtain v where v: "vector_init (Ptr raw_vector) e d c = (0, Ptr v)" "vec_rel v []"
    "vec_conf v = (e, d, c)" "vec_own v = 0"
    using vector_init_ok [OF assms(1,2), of raw_vector d c] by (auto simp: vec_conf_def)
  have "\<forall>op \<in> set ops. vec_legal (vec_conf v) op" using assms(3) v(3) by simp
  from vecm.run_explained [OF v(2) this, of w]
  obtain rcs v' w' xs ds where r: "run vec_exec ops v w = Some (rcs, v', w')"
    "live w' - vec_own v' = live w - vec_own v" "vec_rel v' xs"
    "explains (vec_spec (vec_conf v)) ops rcs [] xs ds"
    "destroyed w' = destroyed w @ log_if (fst (snd (vec_conf v))) ds"
    by (elim exE conjE) (rule that)
  have "live w' = live w + vec_own v'" using r(2) v(4) by simp
  with r v show ?thesis
    by (intro exI [of _ v] exI [of _ rcs] exI [of _ v'] exI [of _ w'] exI [of _ xs] exI [of _ ds]) simp
qed

theorem vector_history_witness:
  "\<exists>v rcs v' w' xs ds. vector_init (Ptr raw_vector) 4 True None = (0, Ptr v)
    \<and> run vec_exec [VPush 7, VInsert 0 5, VReserve 100, VSet 1 (9 :: int), VPop] v (script [True, False] [])
        = Some (rcs, v', w') \<and> vec_rel v' xs
    \<and> explains (vec_spec (4, True, None)) [VPush 7, VInsert 0 5, VReserve 100, VSet 1 9, VPop] rcs [] xs ds
    \<and> destroyed w' = destroyed (script [True, False] [] :: int world) @ log_if True ds
    \<and> live w' = live (script [True, False] [] :: int world) + vec_own v'"
  by (rule vector_history) (simp_all add: vec_legal_def PTRDIFF_MAX_def SIZE_MAX_def)

text \<open>C2: ownership. When a vector with a registered destroy callback is initialised, used by any
  history of calls under any failures, and destroyed, then the destroy callback has run exactly once
  for every element that a successful call stored, and no block is left allocated.\<close>

theorem vector_ownership:
  assumes "0 < e" and "8 * e \<le> PTRDIFF_MAX" and "\<forall>op \<in> set ops. vec_legal (e, True, c) op"
  shows "\<exists>v rcs v' w1 p w2. vector_init (Ptr raw_vector) e True c = (0, Ptr v)
    \<and> run vec_exec ops v w = Some (rcs, v', w1) \<and> vector_destroy (Ptr v') w1 = Some (p, w2)
    \<and> mset (destroyed w2) = mset (destroyed w) + stored (vec_stores (e, True, c)) ops rcs
    \<and> live w2 = live w"
proof -
  obtain v where v: "vector_init (Ptr raw_vector) e True c = (0, Ptr v)" "vec_rel v []"
    "vec_conf v = (e, True, c)" "vec_own v = 0"
    using vector_init_ok [OF assms(1,2), of raw_vector True c] by (auto simp: vec_conf_def)
  have "\<forall>op \<in> set ops. vec_legal (vec_conf v) op" using assms(3) v(3) by simp
  from vecm.run_explained [OF v(2) this, of w]
  obtain rcs v' w1 xs ds where r: "run vec_exec ops v w = Some (rcs, v', w1)" "vec_conf v' = vec_conf v"
    "live w1 - vec_own v' = live w - vec_own v" "vec_rel v' xs"
    "explains (vec_spec (vec_conf v)) ops rcs [] xs ds"
    "destroyed w1 = destroyed w @ log_if (fst (snd (vec_conf v))) ds"
    by (elim exE conjE) (rule that)
  obtain v2 w2 where d: "vector_destroy (Ptr v') w1 = Some (Ptr v2, w2)" "live w2 = live w1 - vec_own v'"
    "destroyed w2 = destroyed w1 @ log_if (v_elem_destroy v') xs"
    using vector_destroy_ok [OF r(4), of w1] by blast
  have "v_elem_destroy v'" using r(2) v(3) by (simp add: vec_conf_def)
  moreover have "stored (vec_stores (e, True, c)) ops rcs = mset xs + mset ds"
    using vecm.explains_conserves [OF r(5)] v(3) by simp
  ultimately have "mset (destroyed w2) = mset (destroyed w) + stored (vec_stores (e, True, c)) ops rcs"
    using d(3) r(6) v(3) by simp
  moreover have "live w2 = live w" using d(2) r(3) v(4) by simp
  ultimately show ?thesis using v(1) r(1) d(1) by blast
qed

theorem vector_ownership_witness:
  "\<exists>v rcs v' w1 p w2. vector_init (Ptr raw_vector) 8 True (Some (\<lambda>x :: int. x)) = (0, Ptr v)
    \<and> run vec_exec [VPush 1, VPush 2, VSet 0 3, VErase 0] v (script [] [True, False]) = Some (rcs, v', w1)
    \<and> vector_destroy (Ptr v') w1 = Some (p, w2)
    \<and> mset (destroyed w2) = mset (destroyed (script [] [True, False] :: int world))
        + stored (vec_stores (8, True, Some (\<lambda>x :: int. x))) [VPush 1, VPush 2, VSet 0 3, VErase 0] rcs
    \<and> live w2 = live (script [] [True, False] :: int world)"
  by (rule vector_ownership) (simp_all add: vec_legal_def PTRDIFF_MAX_def)

text \<open>C3: \<open>vector_copy\<close> into an initialised destination that is not the source: it returns \<open>0\<close>
  with a deep copy of the source, or \<open>- 1\<close> with an empty destination; it cannot fail when neither
  the allocator nor the copy callback does. What the destination held, and the copies made before a
  failure, go to the destroy callback, and no block leaks.\<close>

theorem vector_copy_deep:
  assumes "vec_rel d ys" and "vec_rel s xs"
  shows "\<exists>rc d' w' zs n. vector_copy False (Ptr d) (Ptr s) w = Some (rc, Ptr d', w')
    \<and> vec_conf d' = vec_conf s \<and> live w' - vec_own d' = live w - vec_own d
    \<and> destroyed w' = destroyed w @ log_if (v_elem_destroy d) ys @ log_if (v_elem_destroy s) zs
    \<and> (no_fail w \<longrightarrow> rc = 0)
    \<and> (rc = 0 \<and> vec_rel d' (map (copied (v_elem_copy s)) xs) \<and> zs = []
       \<or> rc = - 1 \<and> vec_rel d' [] \<and> mset zs = mset (map (copied (v_elem_copy s)) (take n xs)))"
  by (rule vector_copy_ok [OF assms])

definition vec_example :: "int vector" where
  "vec_example = \<lparr>v_capacity = 3, v_size = 2, v_elem_size = 4, v_elem_destroy = True,
     v_elem_copy = Some (\<lambda>x. x), v_data = Ptr [Some 8, Some 6, None]\<rparr>"

lemma vec_example_rel: "vec_rel vec_example [8, 6]"
  by (simp add: vec_example_def vec_rel_def holds_def PTRDIFF_MAX_def)

theorem vector_copy_deep_witness:
  "\<exists>rc d' w' zs n. vector_copy False (Ptr vec_example) (Ptr vec_example) (script [] [True, False])
        = Some (rc, Ptr d', w')
    \<and> vec_conf d' = vec_conf vec_example
    \<and> live w' - vec_own d' = live (script [] [True, False] :: int world) - vec_own vec_example
    \<and> destroyed w' = destroyed (script [] [True, False] :: int world)
        @ log_if (v_elem_destroy vec_example) [8, 6] @ log_if (v_elem_destroy vec_example) zs
    \<and> (no_fail (script [] [True, False] :: int world) \<longrightarrow> rc = 0)
    \<and> (rc = 0 \<and> vec_rel d' (map (copied (v_elem_copy vec_example)) [8, 6]) \<and> zs = []
       \<or> rc = - 1 \<and> vec_rel d' []
         \<and> mset zs = mset (map (copied (v_elem_copy vec_example)) (take n [8, 6])))"
  by (rule vector_copy_deep [OF vec_example_rel vec_example_rel])



text \<open>\<open>vector_reserve\<close> does not check the byte count: when \<open>capacity * elem_size\<close> wraps
  around \<open>size_t\<close> to a small number above 0 that the allocator grants, the call returns \<open>0\<close> and
  records the requested capacity, but the block has fewer slots than that. When it wraps to 0 the
  outcome of \<open>realloc\<close> depends on the library, which is left out here.\<close>

theorem vector_reserve_wraps:
  assumes v: "vec_rel v xs" and big: "SIZE_MAX < n * v_elem_size v"
    and pos: "0 < sz_mul n (v_elem_size v)" and small: "sz_mul n (v_elem_size v) \<le> PTRDIFF_MAX"
    and n: "v_capacity v < n" and w: "no_fail w"
  shows "\<exists>v' w'. vector_reserve (Ptr v) n w = (0, Ptr v', w') \<and> v_capacity v' = n
    \<and> length (slots (v_data v')) < n"
proof -
  note D = vec_relD [OF v]
  let ?b = "sz_mul n (v_elem_size v)"
  obtain ok w1 where m: "realloc (v_data v \<noteq> NULL) ?b w = (ok, w1)" by fastforce
  have ok using realloc_effect(6) [OF m w small] .
  have "?b < n * v_elem_size v" using big sz_mul_bound [of n "v_elem_size v"] by linarith
  then have "?b div v_elem_size v < n" using D(5) by (simp add: less_mult_imp_div_less)
  then show ?thesis
    using m \<open>ok\<close> n by (simp add: vector_reserve_def)
qed

theorem vector_reserve_wraps_witness:
  "\<exists>v' w'. vector_reserve (Ptr vec_example) 4611686018427387905 (script [] []) = (0, Ptr v', w')
    \<and> v_capacity v' = 4611686018427387905 \<and> length (slots (v_data v')) < 4611686018427387905"
  by (rule vector_reserve_wraps [OF vec_example_rel])
    (simp_all add: vec_example_def SIZE_MAX_def PTRDIFF_MAX_def sz_mul_def no_fail_def script_def)

end
