(* ===== verification/Deque.thy ===== *)
theory Deque
  imports Machine
begin

text \<open>
  \<open>src/deque.c\<close>: the ring-buffer deque. Every function of the file is a definition of the same
  name; \<open>deq_rel q xs\<close> says that \<open>q\<close> is a well-formed deque whose elements, from the head
  on and wrapping around the end of the block, are \<open>xs\<close>.
\<close>

section \<open>Model\<close>

record 'a deque =
  q_capacity :: size_t
  q_size :: size_t
  q_head :: size_t
  q_elem_size :: size_t
  q_elem_destroy :: bool
  q_elem_copy :: "('a \<Rightarrow> 'a) option"
  q_data :: "'a buf"

definition DEQUE_INIT_CAPACITY :: size_t where
  "DEQUE_INIT_CAPACITY = 8"

definition deque_empty :: "'a deque \<Rightarrow> bool" where
  "deque_empty q \<longleftrightarrow> q_size q = 0"

definition deque_copy_element ::
    "'a deque \<Rightarrow> 'a \<Rightarrow> ('a, 'b) world_scheme \<Rightarrow> 'a option \<times> ('a, 'b) world_scheme" where
  "deque_copy_element q src w = copy_element (q_elem_copy q) src w"

definition deque_destroy_element ::
    "'a deque \<Rightarrow> 'a \<Rightarrow> ('a, 'b) world_scheme \<Rightarrow> ('a, 'b) world_scheme" where
  "deque_destroy_element q x w = destroy_element (q_elem_destroy q) x w"

text \<open>The remainder by a capacity of 0 is undefined behaviour.\<close>

definition deque_slot :: "'a deque \<Rightarrow> size_t \<Rightarrow> size_t option" where
  "deque_slot q index =
     (if q_capacity q = 0 then None else Some (sz_add (q_head q) index mod q_capacity q))"

definition deque_init ::
    "'a deque ptr \<Rightarrow> size_t \<Rightarrow> bool \<Rightarrow> ('a \<Rightarrow> 'a) option \<Rightarrow> int \<times> 'a deque ptr" where
  "deque_init p elem_size elem_destroy elem_copy =
     (if p = NULL \<or> elem_size = 0 then (- 1, p)
      else (0, Ptr \<lparr>q_capacity = 0, q_size = 0, q_head = 0, q_elem_size = elem_size,
        q_elem_destroy = elem_destroy, q_elem_copy = elem_copy, q_data = NULL\<rparr>))"

text \<open>The element of the deque at an index, read through \<open>deque_slot\<close>.\<close>

definition deque_read :: "'a deque \<Rightarrow> size_t \<Rightarrow> 'a option" where
  "deque_read q i = do { s \<leftarrow> deque_slot q i; buf_get (q_data q) s }"

fun deque_clear_loop ::
    "'a deque \<Rightarrow> nat list \<Rightarrow> ('a, 'b) world_scheme \<Rightarrow> ('a, 'b) world_scheme option" where
  "deque_clear_loop q [] w = Some w"
| "deque_clear_loop q (i # is) w = do {
     x \<leftarrow> deque_read q i; deque_clear_loop q is (deque_destroy_element q x w) }"

definition deque_clear ::
    "'a deque ptr \<Rightarrow> ('a, 'b) world_scheme \<Rightarrow> ('a deque ptr \<times> ('a, 'b) world_scheme) option" where
  "deque_clear p w = (case p of NULL \<Rightarrow> Some (NULL, w) | Ptr q \<Rightarrow> do {
     w1 \<leftarrow> (if q_elem_destroy q then deque_clear_loop q [0..<q_size q] w else Some w);
     Some (Ptr (q\<lparr>q_size := 0, q_head := 0\<rparr>), w1) })"

definition deque_destroy ::
    "'a deque ptr \<Rightarrow> ('a, 'b) world_scheme \<Rightarrow> ('a deque ptr \<times> ('a, 'b) world_scheme) option" where
  "deque_destroy p w = (case p of NULL \<Rightarrow> Some (NULL, w) | Ptr _ \<Rightarrow> do {
     (r, w1) \<leftarrow> deque_clear p w;
     let q = pt r in
     Some (Ptr (q\<lparr>q_data := NULL, q_capacity := 0, q_head := 0\<rparr>), free_ptr (q_data q) w1) })"

definition raw_deque :: "'a deque" where
  "raw_deque = \<lparr>q_capacity = 0, q_size = 0, q_head = 0, q_elem_size = 0, q_elem_destroy = False,
     q_elem_copy = None, q_data = NULL\<rparr>"

definition deque_new ::
    "size_t \<Rightarrow> bool \<Rightarrow> ('a \<Rightarrow> 'a) option \<Rightarrow> ('a, 'b) world_scheme
     \<Rightarrow> 'a deque ptr \<times> ('a, 'b) world_scheme" where
  "deque_new elem_size elem_destroy elem_copy w =
     (let (ok, w1) = malloc 56 w in
      if \<not> ok then (NULL, w1)
      else let (rc, p) = deque_init (Ptr raw_deque) elem_size elem_destroy elem_copy in
        if rc \<noteq> 0 then (NULL, free_block w1) else (p, w1))"

definition deque_free ::
    "'a deque ptr \<Rightarrow> ('a, 'b) world_scheme \<Rightarrow> ('a, 'b) world_scheme option" where
  "deque_free p w = (case p of NULL \<Rightarrow> Some w | Ptr _ \<Rightarrow> do {
     (_, w1) \<leftarrow> deque_destroy p w; Some (free_block w1) })"

text \<open>The loop of \<open>deque_reserve\<close> that straightens the ring into the new block.\<close>

fun deque_move_loop :: "'a deque \<Rightarrow> nat list \<Rightarrow> 'a buf \<Rightarrow> 'a buf option" where
  "deque_move_loop q [] b = Some b"
| "deque_move_loop q (i # is) b = do {
     slot \<leftarrow> (if q_capacity q = 0 then Some 0 else deque_slot q i);
     x \<leftarrow> buf_get (q_data q) slot;
     b1 \<leftarrow> buf_put b i (Some x);
     deque_move_loop q is b1 }"

definition deque_reserve ::
    "'a deque ptr \<Rightarrow> size_t \<Rightarrow> ('a, 'b) world_scheme
     \<Rightarrow> (int \<times> 'a deque ptr \<times> ('a, 'b) world_scheme) option" where
  "deque_reserve p capacity w = (case p of NULL \<Rightarrow> Some (- 1, NULL, w) | Ptr q \<Rightarrow>
     if capacity \<le> q_capacity q then Some (0, p, w)
     else let bytes = sz_mul capacity (q_elem_size q); (ok, w1) = malloc bytes w in
       if \<not> ok then Some (- 1, p, w1)
       else do {
         b \<leftarrow> deque_move_loop q [0..<q_size q] (buf_new (bytes div q_elem_size q));
         Some (0, Ptr (q\<lparr>q_data := b, q_capacity := capacity, q_head := 0\<rparr>),
           free_ptr (q_data q) w1) })"

text \<open>The growth block that both pushes share.\<close>

definition deque_grow ::
    "'a deque \<Rightarrow> ('a, 'b) world_scheme \<Rightarrow> (int \<times> 'a deque ptr \<times> ('a, 'b) world_scheme) option" where
  "deque_grow q w =
     (if q_size q = q_capacity q
      then deque_reserve (Ptr q)
        (if q_capacity q = 0 then DEQUE_INIT_CAPACITY else sz_mul (q_capacity q) 2) w
      else Some (0, Ptr q, w))"

definition deque_push_back ::
    "'a deque ptr \<Rightarrow> 'a ptr \<Rightarrow> ('a, 'b) world_scheme
     \<Rightarrow> (int \<times> 'a deque ptr \<times> ('a, 'b) world_scheme) option" where
  "deque_push_back p elem w =
     (if p = NULL \<or> elem = NULL then Some (- 1, p, w)
      else do {
        (rc, r, w1) \<leftarrow> deque_grow (pt p) w;
        if rc \<noteq> 0 then Some (- 1, r, w1)
        else let q = pt r in do {
          slot \<leftarrow> deque_slot q (q_size q);
          let (c, w2) = deque_copy_element q (pt elem) w1 in do {
          b \<leftarrow> buf_put (q_data q) slot c;
          if c = None then Some (- 1, Ptr (q\<lparr>q_data := b\<rparr>), w2)
          else Some (0, Ptr (q\<lparr>q_data := b, q_size := sz_add (q_size q) 1\<rparr>), w2) } } })"

definition deque_push_front ::
    "'a deque ptr \<Rightarrow> 'a ptr \<Rightarrow> ('a, 'b) world_scheme
     \<Rightarrow> (int \<times> 'a deque ptr \<times> ('a, 'b) world_scheme) option" where
  "deque_push_front p elem w =
     (if p = NULL \<or> elem = NULL then Some (- 1, p, w)
      else do {
        (rc, r, w1) \<leftarrow> deque_grow (pt p) w;
        if rc \<noteq> 0 then Some (- 1, r, w1)
        else let q = (if 0 < q_size (pt r)
               then (pt r)\<lparr>q_head := (if q_head (pt r) = 0 then sz_sub (q_capacity (pt r)) 1
                                     else q_head (pt r) - 1)\<rparr>
               else pt r);
             (c, w2) = deque_copy_element q (pt elem) w1 in do {
          b \<leftarrow> buf_put (q_data q) (q_head q) c;
          if c = None then
            (if 0 < q_size q
             then if q_capacity q = 0 then None
               else Some (- 1, Ptr (q\<lparr>q_data := b, q_head := sz_add (q_head q) 1 mod q_capacity q\<rparr>), w2)
             else Some (- 1, Ptr (q\<lparr>q_data := b\<rparr>), w2))
          else Some (0, Ptr (q\<lparr>q_data := b, q_size := sz_add (q_size q) 1\<rparr>), w2) } })"

definition deque_copy ::
    "bool \<Rightarrow> 'a deque ptr \<Rightarrow> 'a deque ptr \<Rightarrow> ('a, 'b) world_scheme
     \<Rightarrow> (int \<times> 'a deque ptr \<times> ('a, 'b) world_scheme) option" where
  "deque_copy same dst src w =
     (if dst = NULL \<or> src = NULL then Some (- 1, dst, w)
      else if same then Some (0, dst, w)
      else do {
        (dst1, w1) \<leftarrow> deque_destroy dst w;
        let s = pt src;
            (rc, dst2) = deque_init dst1 (q_elem_size s) (q_elem_destroy s) (q_elem_copy s) in
        if rc \<noteq> 0 then Some (- 1, dst2, w1)
        else do {
          (rc2, dst3, w2) \<leftarrow> deque_reserve dst2 (q_size s) w1;
          if rc2 \<noteq> 0 then Some (- 1, dst3, w2)
          else copy_loop deque_push_back deque_clear (deque_read s) [0..<q_size s] dst3 w2 } })"

definition deque_clone ::
    "'a deque ptr \<Rightarrow> ('a, 'b) world_scheme \<Rightarrow> ('a deque ptr \<times> ('a, 'b) world_scheme) option" where
  "deque_clone src w = (case src of NULL \<Rightarrow> Some (NULL, w) | Ptr s \<Rightarrow>
     let (copy, w1) = deque_new (q_elem_size s) (q_elem_destroy s) (q_elem_copy s) w in
     if copy = NULL then Some (NULL, w1)
     else do {
       (rc, copy1, w2) \<leftarrow> deque_copy False copy src w1;
       if rc \<noteq> 0 then do { w3 \<leftarrow> deque_free copy1 w2; Some (NULL, w3) }
       else Some (copy1, w2) })"

definition deque_pop_back ::
    "'a deque ptr \<Rightarrow> ('a, 'b) world_scheme
     \<Rightarrow> (int \<times> 'a deque ptr \<times> ('a, 'b) world_scheme) option" where
  "deque_pop_back p w =
     (if p = NULL \<or> deque_empty (pt p) then Some (- 1, p, w)
      else let q = pt p in do {
        slot \<leftarrow> deque_slot q (sz_sub (q_size q) 1);
        x \<leftarrow> buf_get (q_data q) slot;
        let n = sz_sub (q_size q) 1 in
        Some (0, Ptr (q\<lparr>q_size := n, q_head := (if n = 0 then 0 else q_head q)\<rparr>),
          deque_destroy_element q x w) })"

definition deque_pop_front ::
    "'a deque ptr \<Rightarrow> ('a, 'b) world_scheme
     \<Rightarrow> (int \<times> 'a deque ptr \<times> ('a, 'b) world_scheme) option" where
  "deque_pop_front p w =
     (if p = NULL \<or> deque_empty (pt p) then Some (- 1, p, w)
      else let q = pt p; n = sz_sub (q_size q) 1 in do {
        x \<leftarrow> buf_get (q_data q) (q_head q);
        head \<leftarrow> (if n = 0 then Some 0
                 else if q_capacity q = 0 then None
                 else Some (sz_add (q_head q) 1 mod q_capacity q));
        Some (0, Ptr (q\<lparr>q_size := n, q_head := head\<rparr>), deque_destroy_element q x w) })"

definition deque_set ::
    "'a deque ptr \<Rightarrow> size_t \<Rightarrow> 'a ptr \<Rightarrow> ('a, 'b) world_scheme
     \<Rightarrow> (int \<times> 'a deque ptr \<times> ('a, 'b) world_scheme) option" where
  "deque_set p index elem w =
     (if p = NULL \<or> elem = NULL \<or> q_size (pt p) \<le> index then Some (- 1, p, w)
      else let q = pt p; (ok, w1) = malloc (q_elem_size q) w in
        if \<not> ok then Some (- 1, p, w1)
        else let (c, w2) = deque_copy_element q (pt elem) w1 in
          case c of None \<Rightarrow> Some (- 1, p, free_block w2)
          | Some y \<Rightarrow> do {
              slot \<leftarrow> deque_slot q index;
              x \<leftarrow> buf_get (q_data q) slot;
              b \<leftarrow> buf_put (q_data q) slot (Some y);
              Some (0, Ptr (q\<lparr>q_data := b\<rparr>), free_block (deque_destroy_element q x w2)) })"

text \<open>Accessors return a slot address, or NULL.\<close>

definition deque_at :: "'a deque ptr \<Rightarrow> size_t \<Rightarrow> nat ptr option" where
  "deque_at p index = (if p = NULL \<or> q_size (pt p) \<le> index then Some NULL
     else map_option Ptr (deque_slot (pt p) index))"

definition deque_at_const :: "'a deque ptr \<Rightarrow> size_t \<Rightarrow> nat ptr option" where
  "deque_at_const p index = (if p = NULL \<or> q_size (pt p) \<le> index then Some NULL
     else map_option Ptr (deque_slot (pt p) index))"

definition deque_front :: "'a deque ptr \<Rightarrow> nat ptr option" where
  "deque_front p = deque_at p 0"

definition deque_front_const :: "'a deque ptr \<Rightarrow> nat ptr option" where
  "deque_front_const p = deque_at_const p 0"

definition deque_back :: "'a deque ptr \<Rightarrow> nat ptr option" where
  "deque_back p = (if p = NULL \<or> deque_empty (pt p) then Some NULL
     else map_option Ptr (deque_slot (pt p) (sz_sub (q_size (pt p)) 1)))"

definition deque_back_const :: "'a deque ptr \<Rightarrow> nat ptr option" where
  "deque_back_const p = (if p = NULL \<or> deque_empty (pt p) then Some NULL
     else map_option Ptr (deque_slot (pt p) (sz_sub (q_size (pt p)) 1)))"

definition deque_deref :: "'a deque \<Rightarrow> nat ptr \<Rightarrow> 'a option" where
  "deque_deref q a = (case a of NULL \<Rightarrow> None | Ptr i \<Rightarrow> buf_get (q_data q) i)"

section \<open>Invariant\<close>

text \<open>The slot of index \<open>i\<close>, without overflow.\<close>

definition ring :: "'a deque \<Rightarrow> nat \<Rightarrow> nat" where
  "ring q i = (q_head q + i) mod q_capacity q"

definition deq_rel :: "'a deque \<Rightarrow> 'a list \<Rightarrow> bool" where
  "deq_rel q xs \<longleftrightarrow> q_size q = length xs \<and> length xs \<le> q_capacity q
     \<and> (q_head q < q_capacity q \<or> q_capacity q = 0 \<and> q_head q = 0)
     \<and> map (\<lambda>i. buf_get (q_data q) (ring q i)) [0..<length xs] = map Some xs
     \<and> length (slots (q_data q)) = q_capacity q \<and> (q_data q = NULL \<longleftrightarrow> q_capacity q = 0)
     \<and> 0 < q_elem_size q \<and> 8 * q_elem_size q \<le> PTRDIFF_MAX
     \<and> q_capacity q * q_elem_size q \<le> PTRDIFF_MAX"

definition deq_conf :: "'a deque \<Rightarrow> size_t \<times> bool \<times> ('a \<Rightarrow> 'a) option" where
  "deq_conf q = (q_elem_size q, q_elem_destroy q, q_elem_copy q)"

definition deq_own :: "'a deque \<Rightarrow> int" where
  "deq_own q = blocks (q_data q)"

definition deq_room :: "'a deque \<Rightarrow> nat \<Rightarrow> bool" where
  "deq_room q n \<longleftrightarrow> q_size q + n \<le> q_capacity q
     \<or> (2 * (q_size q + n) + 8) * q_elem_size q \<le> PTRDIFF_MAX"

lemma deq_conf_eq [simp]:
  "deq_conf q' = deq_conf q \<longleftrightarrow> q_elem_size q' = q_elem_size q
     \<and> q_elem_destroy q' = q_elem_destroy q \<and> q_elem_copy q' = q_elem_copy q"
  by (auto simp: deq_conf_def)

lemma map_upt_iff: "map f [0..<length xs] = map Some xs \<longleftrightarrow> (\<forall>i < length xs. f i = Some (xs ! i))"
  by (subst list_eq_iff_nth_eq) (simp del: upt_Suc)

lemma deq_rel_iff:
  "deq_rel q xs \<longleftrightarrow> q_size q = length xs \<and> length xs \<le> q_capacity q
     \<and> (q_head q < q_capacity q \<or> q_capacity q = 0 \<and> q_head q = 0)
     \<and> (\<forall>i < length xs. buf_get (q_data q) (ring q i) = Some (xs ! i))
     \<and> length (slots (q_data q)) = q_capacity q \<and> (q_data q = NULL \<longleftrightarrow> q_capacity q = 0)
     \<and> 0 < q_elem_size q \<and> 8 * q_elem_size q \<le> PTRDIFF_MAX
     \<and> q_capacity q * q_elem_size q \<le> PTRDIFF_MAX"
  by (simp add: deq_rel_def map_upt_iff)

lemma deq_relD:
  assumes "deq_rel q xs"
  shows "q_size q = length xs" "length xs \<le> q_capacity q"
    "q_head q < q_capacity q \<or> q_capacity q = 0 \<and> q_head q = 0"
    "\<And>i. i < length xs \<Longrightarrow> buf_get (q_data q) (ring q i) = Some (xs ! i)"
    "length (slots (q_data q)) = q_capacity q" "q_data q = NULL \<longleftrightarrow> q_capacity q = 0"
    "0 < q_elem_size q" "8 * q_elem_size q \<le> PTRDIFF_MAX"
    "q_capacity q * q_elem_size q \<le> PTRDIFF_MAX"
  using assms [unfolded deq_rel_iff] by simp_all

lemma deq_rel_capacity:
  assumes "deq_rel q xs"
  shows "q_capacity q \<le> PTRDIFF_MAX"
  using mult_le_PTRDIFF [of "q_capacity q" "q_elem_size q"] deq_relD(7,9) [OF assms] by simp

lemma ring_less: "0 < q_capacity q \<Longrightarrow> ring q i < q_capacity q"
  by (simp add: ring_def)

lemma mod_shift_inj:
  assumes "i \<le> j" and "j < (c :: nat)" and "(h + i) mod c = (h + j) mod c"
  shows "i = j"
proof -
  have "c dvd j - i"
    using mod_eq_dvd_iff_nat [of "h + i" "h + j" c] assms by simp
  moreover have "j - i < c" using assms(2) by simp
  ultimately have "j - i = 0" using nat_dvd_not_less by blast
  with assms(1) show ?thesis by simp
qed

lemma ring_inj:
  assumes "i < q_capacity q" and "j < q_capacity q"
  shows "ring q i = ring q j \<longleftrightarrow> i = j"
  using assms mod_shift_inj [of i j "q_capacity q" "q_head q"] mod_shift_inj [of j i "q_capacity q" "q_head q"]
  by (cases "i \<le> j") (auto simp: ring_def)

lemma deque_slot_ring:
  assumes "deq_rel q xs" and "0 < q_capacity q" and "i \<le> q_capacity q"
  shows "deque_slot q i = Some (ring q i)"
  using assms deq_relD(3) [OF assms(1)] deq_rel_capacity [OF assms(1)] SIZE_MAX_PTRDIFF_MAX
  by (simp add: deque_slot_def ring_def)

lemma deque_read_ok:
  assumes "deq_rel q xs" and "i < length xs"
  shows "deque_read q i = Some (xs ! i)"
proof -
  note D = deq_relD [OF assms(1)]
  have c: "0 < q_capacity q" "i \<le> q_capacity q" using assms(2) D(2) by linarith+
  show ?thesis
    using deque_slot_ring [OF assms(1) c] D(4) [OF assms(2)] by (simp add: deque_read_def)
qed

lemma deque_read_map: "deq_rel q xs \<Longrightarrow> map (deque_read q) [0..<q_size q] = map Some xs"
  using deq_relD(1) [of q xs] by (simp add: map_upt_iff deque_read_ok)

section \<open>Operations\<close>

lemma deque_init_ok:
  assumes "0 < e" and "8 * e \<le> PTRDIFF_MAX"
  shows "\<exists>q. deque_init (Ptr u) e d c = (0, Ptr q) \<and> deq_rel q [] \<and> q_elem_size q = e
    \<and> q_elem_destroy q = d \<and> q_elem_copy q = c \<and> deq_own q = 0"
  using assms by (auto simp: deque_init_def deq_rel_def deq_own_def)

lemma deque_clear_loop_ok:
  assumes "map (deque_read q) is = map Some xs"
  shows "\<exists>w'. deque_clear_loop q is w = Some w' \<and> live w' = live w \<and> no_fail w' = no_fail w
    \<and> destroyed w' = destroyed w @ log_if (q_elem_destroy q) xs"
  using assms
proof (induction "is" arbitrary: xs w)
  case (Cons i is')
  then obtain x xs' where xs: "xs = x # xs'" "deque_read q i = Some x"
    and rest: "map (deque_read q) is' = map Some xs'"
    by (cases xs) auto
  from Cons.IH [OF rest, of "deque_destroy_element q x w"] xs show ?case
    by (auto simp: deque_destroy_element_def log_if_def)
qed simp

lemma deque_clear_ok:
  assumes q: "deq_rel q xs"
  shows "\<exists>w'. deque_clear (Ptr q) w = Some (Ptr (q\<lparr>q_size := 0, q_head := 0\<rparr>), w')
    \<and> deq_rel (q\<lparr>q_size := 0, q_head := 0\<rparr>) [] \<and> live w' = live w \<and> no_fail w' = no_fail w
    \<and> destroyed w' = destroyed w @ log_if (q_elem_destroy q) xs"
proof -
  have "deq_rel (q\<lparr>q_size := 0, q_head := 0\<rparr>) []"
    using deq_relD [OF q] by (auto simp: deq_rel_iff)
  moreover obtain w1 where "deque_clear_loop q [0..<q_size q] w = Some w1" "live w1 = live w"
    "no_fail w1 = no_fail w" "destroyed w1 = destroyed w @ log_if (q_elem_destroy q) xs"
    using deque_clear_loop_ok [OF deque_read_map [OF q], of w] by blast
  ultimately show ?thesis by (cases "q_elem_destroy q") (auto simp: deque_clear_def)
qed

lemma deque_destroy_ok:
  assumes q: "deq_rel q xs"
  shows "\<exists>q' w'. deque_destroy (Ptr q) w = Some (Ptr q', w') \<and> deq_conf q' = deq_conf q
    \<and> deq_rel q' [] \<and> deq_own q' = 0 \<and> live w' = live w - deq_own q \<and> no_fail w' = no_fail w
    \<and> destroyed w' = destroyed w @ log_if (q_elem_destroy q) xs"
proof -
  obtain w1 where c: "deque_clear (Ptr q) w = Some (Ptr (q\<lparr>q_size := 0, q_head := 0\<rparr>), w1)"
    "live w1 = live w" "no_fail w1 = no_fail w"
    "destroyed w1 = destroyed w @ log_if (q_elem_destroy q) xs"
    using deque_clear_ok [OF q, of w] by blast
  let ?q = "q\<lparr>q_size := 0, q_head := 0, q_data := NULL, q_capacity := 0\<rparr>"
  have "deque_destroy (Ptr q) w = Some (Ptr ?q, free_ptr (q_data q) w1)"
    using c(1) by (simp add: deque_destroy_def)
  moreover have "deq_rel ?q []" using deq_relD [OF q] by (simp add: deq_rel_iff)
  ultimately show ?thesis using c by (auto simp: deq_own_def)
qed

lemma deque_move_loop_ok:
  assumes q: "deq_rel q xs" and "i \<le> length xs" and "holds b (take i xs)"
    and "length xs \<le> length (slots b)" and "b \<noteq> NULL"
  shows "\<exists>b'. deque_move_loop q [i..<length xs] b = Some b' \<and> holds b' xs
    \<and> length (slots b') = length (slots b) \<and> b' \<noteq> NULL"
  using assms(2-5)
proof (induction "length xs - i" arbitrary: i b)
  case 0
  then show ?case by simp
next
  case (Suc n)
  then have i: "i < length xs" by simp
  note D = deq_relD [OF q]
  have c: "0 < q_capacity q" "i \<le> q_capacity q" using i D(2) by linarith+
  have "length (take i xs) = i" using i by simp
  then obtain b1 where b1: "buf_put b i (Some (xs ! i)) = Some b1" "holds b1 (take i xs @ [xs ! i])"
    "length (slots b1) = length (slots b)" "b1 \<noteq> NULL"
    using holds_put_new [OF Suc.prems(2), of "xs ! i"] i Suc.prems(3) by auto
  have "holds b1 (take (Suc i) xs)" using b1(2) i by (simp add: take_Suc_conv_app_nth)
  moreover have "n = length xs - Suc i" "Suc i \<le> length xs" "length xs \<le> length (slots b1)"
    using Suc.hyps(2) Suc.prems(3) i b1(3) by simp_all
  ultimately obtain b' where "deque_move_loop q [Suc i..<length xs] b1 = Some b'" "holds b' xs"
    "length (slots b') = length (slots b1)" "b' \<noteq> NULL"
    using Suc.hyps(1) [of "Suc i" b1] b1(4) by blast
  then show ?case
    using deque_slot_ring [OF q c] D(4) [OF i] b1 i c
    by (auto simp: upt_conv_Cons)
qed

lemma deque_reserve_ok:
  assumes q: "deq_rel q xs" and n: "n * q_elem_size q \<le> SIZE_MAX"
  shows "\<exists>rc q' w'. deque_reserve (Ptr q) n w = Some (rc, Ptr q', w') \<and> deq_conf q' = deq_conf q
    \<and> deq_rel q' xs \<and> destroyed w' = destroyed w \<and> live w' - deq_own q' = live w - deq_own q
    \<and> (no_fail w \<longrightarrow> no_fail w' \<and> (n * q_elem_size q \<le> PTRDIFF_MAX \<longrightarrow> rc = 0))
    \<and> (rc = 0 \<and> q_capacity q' = max n (q_capacity q) \<or> rc = - 1 \<and> q' = q)"
proof (cases "n \<le> q_capacity q")
  case True
  with q show ?thesis by (auto simp: deque_reserve_def)
next
  case False
  note D = deq_relD [OF q]
  obtain ok w1 where m: "malloc (n * q_elem_size q) w = (ok, w1)" by fastforce
  note E = malloc_effect [OF m]
  show ?thesis
  proof (cases ok)
    case True
    obtain b where b: "deque_move_loop q [0..<length xs] (buf_new n) = Some b" "holds b xs"
      "length (slots b) = n" "b \<noteq> NULL"
      using deque_move_loop_ok [OF q, of 0 "buf_new n"] D(2) False by (auto)
    let ?q = "q\<lparr>q_data := b, q_capacity := n, q_head := 0\<rparr>"
    have eq: "deque_reserve (Ptr q) n w = Some (0, Ptr ?q, free_ptr (q_data q) w1)"
      using False n m True b D(1,7) by (simp add: deque_reserve_def)
    have "deq_rel ?q xs"
      using D b False E(4) [OF True] holds_get [OF b(2)]
      by (auto simp: deq_rel_iff ring_def)
    then show ?thesis
      using eq E(1,3,5) b(4) True False
      by (intro exI [of _ 0] exI [of _ ?q] exI [of _ "free_ptr (q_data q) w1"])
        (auto simp: deq_own_def)
  next
    case False': False
    then have "deque_reserve (Ptr q) n w = Some (- 1, Ptr q, w1)"
      using False n m by (simp add: deque_reserve_def)
    then show ?thesis using q E False' by auto
  qed
qed

lemma deque_grow_ok:
  assumes q: "deq_rel q xs"
  shows "\<exists>rc q' w'. deque_grow q w = Some (rc, Ptr q', w') \<and> deq_conf q' = deq_conf q
    \<and> deq_rel q' xs \<and> destroyed w' = destroyed w \<and> live w' - deq_own q' = live w - deq_own q
    \<and> (no_fail w \<longrightarrow> no_fail w' \<and> (\<forall>n. deq_room q (Suc n) \<longrightarrow> rc = 0))
    \<and> (rc = 0 \<and> length xs < q_capacity q' \<and> q_capacity q \<le> q_capacity q' \<or> rc = - 1 \<and> q' = q)"
proof (cases "q_size q = q_capacity q")
  case False
  then show ?thesis
    using q deq_relD(1,2) [OF q] by (auto simp: deque_grow_def)
next
  case True
  note D = deq_relD [OF q]
  have cap: "q_capacity q \<le> PTRDIFF_MAX" by (rule deq_rel_capacity [OF q])
  define n where "n = (if q_capacity q = 0 then DEQUE_INIT_CAPACITY else sz_mul (q_capacity q) 2)"
  have n2: "n = (if q_capacity q = 0 then 8 else 2 * q_capacity q)"
    using cap SIZE_MAX_PTRDIFF_MAX by (simp add: n_def DEQUE_INIT_CAPACITY_def mult.commute)
  have "2 * (q_capacity q * q_elem_size q) \<le> SIZE_MAX" using D(9) SIZE_MAX_PTRDIFF_MAX by linarith
  then have big: "q_capacity q < n" "n * q_elem_size q \<le> SIZE_MAX"
    using D(8) SIZE_MAX_PTRDIFF_MAX by (auto simp: n2 mult.assoc)
  have room: "n * q_elem_size q \<le> PTRDIFF_MAX" if "deq_room q (Suc k)" for k
  proof -
    have "n \<le> 2 * (q_size q + Suc k) + 8" using True by (simp add: n2)
    with that True show ?thesis
      unfolding deq_room_def by (auto intro: le_trans [OF mult_le_mono1])
  qed
  have "deque_grow q w = deque_reserve (Ptr q) n w"
    using True by (simp add: deque_grow_def n_def)
  with deque_reserve_ok [OF q big(2), of w] big(1) True D(1) room show ?thesis
    by (fastforce simp: max_def)
qed

text \<open>Writing a slot that is not in use does not disturb the elements.\<close>

lemma deq_rel_put_unused:
  assumes q: "deq_rel q xs" and i: "length xs \<le> i" "i < q_capacity q"
    and b: "buf_put (q_data q) (ring q i) v = Some b"
  shows "deq_rel (q\<lparr>q_data := b\<rparr>) xs" "b \<noteq> NULL"
proof -
  note D = deq_relD [OF q]
  have "buf_get b (ring q j) = Some (xs ! j)" if "j < length xs" for j
    using that i D(4) [OF that] ring_inj [of j q i] by (simp add: buf_get_put [OF b])
  moreover have "length (slots b) = q_capacity q" "b \<noteq> NULL"
    using b D(5) by (auto simp: buf_put_def split: if_splits)
  ultimately show "deq_rel (q\<lparr>q_data := b\<rparr>) xs" "b \<noteq> NULL"
    using D i by (auto simp: deq_rel_iff ring_def)
qed

lemma deque_push_back_ok:
  assumes q: "deq_rel q xs"
  shows "\<exists>rc q' w'. deque_push_back (Ptr q) (Ptr x) w = Some (rc, Ptr q', w') \<and> deq_conf q' = deq_conf q
    \<and> destroyed w' = destroyed w \<and> live w' - deq_own q' = live w - deq_own q
    \<and> (no_fail w \<longrightarrow> no_fail w' \<and> (\<forall>n. deq_room q (Suc n) \<longrightarrow> rc = 0 \<and> deq_room q' n))
    \<and> (rc = 0 \<and> deq_rel q' (xs @ [copied (q_elem_copy q) x]) \<or> rc = - 1 \<and> deq_rel q' xs)"
proof -
  obtain rc q1 w1 where g: "deque_grow q w = Some (rc, Ptr q1, w1)" "deq_conf q1 = deq_conf q"
    and q1: "deq_rel q1 xs" and w1: "destroyed w1 = destroyed w" "live w1 - deq_own q1 = live w - deq_own q"
    and nf: "no_fail w \<longrightarrow> no_fail w1 \<and> (\<forall>n. deq_room q (Suc n) \<longrightarrow> rc = 0)"
    and res: "rc = 0 \<and> length xs < q_capacity q1 \<and> q_capacity q \<le> q_capacity q1 \<or> rc = - 1 \<and> q1 = q"
    using deque_grow_ok [OF q, of w] by (elim exE conjE) (rule that)
  note D = deq_relD [OF q1]
  show ?thesis
  proof (cases "rc = 0")
    case False
    then show ?thesis using g q1 w1 nf res by (auto simp: deque_push_back_def)
  next
    case True
    with res have cap: "length xs < q_capacity q1" "q_capacity q \<le> q_capacity q1" by auto
    then have pos: "0 < q_capacity q1" "length xs \<le> q_capacity q1" by simp_all
    obtain c w2 where c: "copy_element (q_elem_copy q1) x w1 = (c, w2)" by fastforce
    note E = copy_element_effect [OF c]
    obtain b where b: "buf_put (q_data q1) (ring q1 (length xs)) c = Some b"
      using buf_put_ok [of "ring q1 (length xs)" "q_data q1" c] ring_less [OF pos(1)] D(5) by auto
    note U = deq_rel_put_unused [OF q1 order_refl cap(1) b]
    have sz: "sz_add (length xs) 1 = Suc (length xs)"
      using pos deq_rel_capacity [OF q1] SIZE_MAX_PTRDIFF_MAX by simp
    let ?q = "q1\<lparr>q_data := b, q_size := Suc (length xs)\<rparr>"
    have def: "deque_push_back (Ptr q) (Ptr x) w = (if c = None then Some (- 1, Ptr (q1\<lparr>q_data := b\<rparr>), w2)
        else Some (0, Ptr ?q, w2))"
      using True g c b D(1) sz deque_slot_ring [OF q1 pos]
      by (simp add: deque_push_back_def deque_copy_element_def)
    have nn: "q_data q1 \<noteq> NULL" using D(6) pos by simp
    show ?thesis
    proof (cases c)
      case None
      then show ?thesis
        using def U g w1 nf E(1,2,4,5) nn
        by (intro exI [of _ "- 1"] exI [of _ "q1\<lparr>q_data := b\<rparr>"] exI [of _ w2]) (auto simp: deq_own_def)
    next
      case (Some y)
      have y: "y = copied (q_elem_copy q) x" using E(3) [OF Some] g(2) by simp
      have "buf_get b (ring q1 i) = Some ((xs @ [y]) ! i)" if "i < Suc (length xs)" for i
        using that cap D(4) [of i] ring_inj [of i q1 "length xs"]
        by (auto simp: buf_get_put [OF b] Some nth_append)
      then have r: "deq_rel ?q (xs @ [y])"
        using deq_relD [OF U(1)] cap by (auto simp: deq_rel_iff ring_def)
      have room: "deq_room ?q n" if "deq_room q (Suc n)" for n
        using that cap g(2) D(1) deq_relD(1) [OF q] by (auto simp: deq_room_def)
      show ?thesis
        using def U(2) r g(2) w1 nf E(1,2,4) nn Some y room
        by (intro exI [of _ 0] exI [of _ ?q] exI [of _ w2]) (auto simp: deq_own_def)
    qed
  qed
qed

interpretation deq: push_container deque_push_back deque_clear deq_rel "[]" "\<lambda>xs x. xs @ [x]" mset
  deq_conf q_elem_copy q_elem_destroy deq_own deq_room
proof (unfold_locales, goal_cases)
  case (1 q xs x w)
  from deque_push_back_ok [OF 1, of x w] show ?case by (elim exE conjE) (intro exI conjI, auto)
next
  case (2 q xs w)
  from deque_clear_ok [OF 2, of w] show ?case by (fastforce simp: deq_own_def)
qed auto

text \<open>Moving the head one slot down puts the old element \<open>i\<close> at index \<open>Suc i\<close>.\<close>

lemma ring_head_down:
  assumes "q_head q < q_capacity q"
    and "q' = q\<lparr>q_head := (if q_head q = 0 then q_capacity q - 1 else q_head q - 1)\<rparr>"
  shows "ring q' (Suc i) = ring q i" "ring q' 0 = q_head q'" "q_head q' < q_capacity q"
    "ring q' 0 = ring q (q_capacity q - 1)" "(q_head q' + 1) mod q_capacity q = q_head q"
proof -
  show "ring q' (Suc i) = ring q i"
  proof (cases "q_head q = 0")
    case True
    then have "ring q' (Suc i) = (q_capacity q + i) mod q_capacity q"
      using assms by (simp add: ring_def)
    then show ?thesis using True by (simp add: ring_def)
  next
    case False
    then show ?thesis using assms by (simp add: ring_def)
  qed
  show "ring q' 0 = q_head q'" "q_head q' < q_capacity q"
    using assms by (auto simp: ring_def)
  show "ring q' 0 = ring q (q_capacity q - 1)"
  proof (cases "q_head q = 0")
    case False
    then have "q_head q + (q_capacity q - 1) = q_head q - 1 + q_capacity q" using assms(1) by simp
    then have "ring q (q_capacity q - 1) = (q_head q - 1) mod q_capacity q"
      unfolding ring_def by (simp only: mod_add_self2)
    then show ?thesis using assms False by (simp add: ring_def)
  qed (use assms in \<open>simp add: ring_def\<close>)
  show "(q_head q' + 1) mod q_capacity q = q_head q"
    using assms by auto
qed

lemma deque_push_front_ok:
  assumes q: "deq_rel q xs"
  shows "\<exists>rc q' w'. deque_push_front (Ptr q) (Ptr x) w = Some (rc, Ptr q', w') \<and> deq_conf q' = deq_conf q
    \<and> destroyed w' = destroyed w \<and> live w' - deq_own q' = live w - deq_own q
    \<and> (no_fail w \<longrightarrow> no_fail w' \<and> (deq_room q 1 \<longrightarrow> rc = 0))
    \<and> (rc = 0 \<and> deq_rel q' (copied (q_elem_copy q) x # xs) \<or> rc = - 1 \<and> deq_rel q' xs)"
proof -
  obtain rc q1 w1 where g: "deque_grow q w = Some (rc, Ptr q1, w1)" "deq_conf q1 = deq_conf q"
    and q1: "deq_rel q1 xs" and w1: "destroyed w1 = destroyed w" "live w1 - deq_own q1 = live w - deq_own q"
    and nf: "no_fail w \<longrightarrow> no_fail w1 \<and> (\<forall>n. deq_room q (Suc n) \<longrightarrow> rc = 0)"
    and res: "rc = 0 \<and> length xs < q_capacity q1 \<and> q_capacity q \<le> q_capacity q1 \<or> rc = - 1 \<and> q1 = q"
    using deque_grow_ok [OF q, of w] by (elim exE conjE) (rule that)
  note D = deq_relD [OF q1]
  show ?thesis
  proof (cases "rc = 0")
    case False
    then show ?thesis using g q1 w1 nf res by (auto simp: deque_push_front_def)
  next
    case True
    with res have cap: "length xs < q_capacity q1" by auto
    then have pos: "0 < q_capacity q1" and head: "q_head q1 < q_capacity q1" using D(3) by auto
    have small: "q_capacity q1 \<le> SIZE_MAX"
      using deq_rel_capacity [OF q1] SIZE_MAX_PTRDIFF_MAX by simp
    define q2 where "q2 = (if 0 < length xs then
      q1\<lparr>q_head := (if q_head q1 = 0 then q_capacity q1 - 1 else q_head q1 - 1)\<rparr> else q1)"
    have sub: "sz_sub (q_capacity q1) 1 = q_capacity q1 - 1" using pos small by simp
    note H = ring_head_down [OF head refl]
    have h2: "q_head q2 = ring q1 (if xs = [] then 0 else q_capacity q1 - 1)"
      using H(2,4) head by (auto simp: q2_def ring_def)
    have f2: "q_capacity q2 = q_capacity q1" "q_data q2 = q_data q1" "q_size q2 = length xs"
      "q_elem_copy q2 = q_elem_copy q1" "deq_conf q2 = deq_conf q1"
      using D(1) by (simp_all add: q2_def)
    obtain c w2 where c: "copy_element (q_elem_copy q1) x w1 = (c, w2)" by fastforce
    note E = copy_element_effect [OF c]
    obtain b where b: "buf_put (q_data q1) (q_head q2) c = Some b"
      using buf_put_ok [of "q_head q2" "q_data q1" c] ring_less [OF pos] D(5) h2 by auto
    have "length xs \<le> (if xs = [] then 0 else q_capacity q1 - 1)"
      "(if xs = [] then 0 else q_capacity q1 - 1) < q_capacity q1" using cap pos by auto
    note U = deq_rel_put_unused [OF q1 this b [unfolded h2]]
    have sz: "sz_add (length xs) 1 = Suc (length xs)" using cap small by simp
    have hback: "xs \<noteq> [] \<Longrightarrow> sz_add (q_head q2) 1 mod q_capacity q1 = q_head q1"
      using H(5) H(3) small by (simp add: q2_def)
    have restore: "q2\<lparr>q_data := b, q_head := q_head q1\<rparr> = q1\<lparr>q_data := b\<rparr>"
      by (simp add: q2_def)
    let ?q = "q2\<lparr>q_data := b, q_size := Suc (length xs)\<rparr>"
    have def: "deque_push_front (Ptr q) (Ptr x) w = (if c = None then Some (- 1, Ptr (q1\<lparr>q_data := b\<rparr>), w2)
        else Some (0, Ptr ?q, w2))"
    proof (cases "xs = []")
      case True
      then show ?thesis
        using \<open>rc = 0\<close> g c b D(1) sz by (simp add: deque_push_front_def deque_copy_element_def q2_def)
    next
      case False
      let ?p = "pt (Ptr q1)"
      have "(if 0 < q_size q1 then ?p\<lparr>q_head := (if q_head ?p = 0 then sz_sub (q_capacity ?p) 1
          else q_head ?p - 1)\<rparr> else ?p) = q2"
        using False D(1) sub by (simp add: q2_def)
      with False show ?thesis
        using \<open>rc = 0\<close> g(1) c b sz f2 hback restore pos
        by (cases c) (simp_all add: deque_push_front_def deque_copy_element_def split del: if_split)
    qed
    have nn: "q_data q1 \<noteq> NULL" using D(6) pos by simp
    show ?thesis
    proof (cases c)
      case None
      then show ?thesis
        using def U g w1 nf E(1,2,4,5) nn
        by (intro exI [of _ "- 1"] exI [of _ "q1\<lparr>q_data := b\<rparr>"] exI [of _ w2]) (auto simp: deq_own_def)
    next
      case (Some y)
      have y: "y = copied (q_elem_copy q) x" using E(3) [OF Some] g(2) by simp
      have r0: "ring q2 0 = q_head q2" and rS: "xs \<noteq> [] \<Longrightarrow> ring q2 (Suc i) = ring q1 i" for i
        using H(1,2) head by (auto simp: q2_def ring_def)
      have "buf_get b (ring q2 i) = Some ((y # xs) ! i)" if "i < Suc (length xs)" for i
      proof (cases i)
        case 0
        then show ?thesis using r0 by (simp add: buf_get_put [OF b] Some)
      next
        case (Suc j)
        with that have j: "j < length xs" by simp
        then have "ring q1 j \<noteq> q_head q2"
          unfolding h2 using cap ring_inj [of j q1 "q_capacity q1 - 1"] by auto
        moreover have "ring q2 (Suc j) = ring q1 j" using j rS [of j] by (cases "xs = []") auto
        ultimately show ?thesis using Suc D(4) [OF j] by (simp add: buf_get_put [OF b])
      qed
      moreover have "length (slots b) = q_capacity q1" using deq_relD(5) [OF U(1)] by simp
      moreover have "q_head q2 < q_capacity q1" using h2 ring_less [OF pos] by simp
      ultimately have r: "deq_rel ?q (y # xs)"
        using D f2 cap U(2) pos by (auto simp: deq_rel_iff ring_def)
      show ?thesis
        using def U(2) r g(2) w1 nf E(1,2,4) nn Some y f2
        by (intro exI [of _ 0] exI [of _ ?q] exI [of _ w2]) (auto simp: deq_own_def)
    qed
  qed
qed

lemma deque_pop_back_ok:
  assumes q: "deq_rel q xs"
  shows "\<exists>rc q' w'. deque_pop_back (Ptr q) w = Some (rc, Ptr q', w') \<and> deq_conf q' = deq_conf q
    \<and> live w' - deq_own q' = live w - deq_own q \<and> no_fail w' = no_fail w
    \<and> (xs = [] \<and> rc = - 1 \<and> q' = q \<and> w' = w
       \<or> xs \<noteq> [] \<and> rc = 0 \<and> deq_rel q' (butlast xs)
         \<and> destroyed w' = destroyed w @ log_if (q_elem_destroy q) [last xs])"
proof (cases "xs = []")
  case True
  then show ?thesis using q deq_relD(1) [OF q] by (auto simp: deque_pop_back_def deque_empty_def)
next
  case False
  note D = deq_relD [OF q]
  let ?n = "length xs - 1"
  have n: "?n < length xs" using False by simp
  have pos: "0 < q_capacity q" "?n \<le> q_capacity q" using D(2) n by linarith+
  have sz: "sz_sub (length xs) 1 = ?n"
    using False D(2) deq_rel_capacity [OF q] SIZE_MAX_PTRDIFF_MAX by (simp add: Suc_le_eq)
  let ?q = "q\<lparr>q_size := ?n, q_head := (if ?n = 0 then 0 else q_head q)\<rparr>"
  have "deq_rel ?q (butlast xs)"
    using D False pos by (auto simp: deq_rel_iff nth_butlast ring_def)
  moreover have "deque_pop_back (Ptr q) w = Some (0, Ptr ?q, deque_destroy_element q (last xs) w)"
    using False D(1) sz D(4) [OF n] deque_slot_ring [OF q pos]
    by (simp add: deque_pop_back_def deque_empty_def last_conv_nth)
  ultimately show ?thesis
    using False by (intro exI [of _ 0] exI [of _ ?q] exI [of _ "deque_destroy_element q (last xs) w"])
      (auto simp: deq_own_def deque_destroy_element_def log_if_def)
qed

lemma deque_pop_front_ok:
  assumes q: "deq_rel q xs"
  shows "\<exists>rc q' w'. deque_pop_front (Ptr q) w = Some (rc, Ptr q', w') \<and> deq_conf q' = deq_conf q
    \<and> live w' - deq_own q' = live w - deq_own q \<and> no_fail w' = no_fail w
    \<and> (xs = [] \<and> rc = - 1 \<and> q' = q \<and> w' = w
       \<or> xs \<noteq> [] \<and> rc = 0 \<and> deq_rel q' (tl xs)
         \<and> destroyed w' = destroyed w @ log_if (q_elem_destroy q) [hd xs])"
proof (cases "xs = []")
  case True
  then show ?thesis using q deq_relD(1) [OF q] by (auto simp: deque_pop_front_def deque_empty_def)
next
  case False
  note D = deq_relD [OF q]
  have pos: "0 < q_capacity q" "q_head q < q_capacity q" using D(2,3) False by auto
  have small: "q_capacity q \<le> SIZE_MAX"
    using deq_rel_capacity [OF q] SIZE_MAX_PTRDIFF_MAX by simp
  have sz: "sz_sub (length xs) 1 = length xs - 1" "sz_add (q_head q) 1 = Suc (q_head q)"
    using False D(2) pos small by (simp_all add: Suc_le_eq)
  have hd: "buf_get (q_data q) (q_head q) = Some (hd xs)"
    using D(4) [of 0] False pos by (simp add: ring_def hd_conv_nth)
  let ?h = "if length xs - 1 = 0 then 0 else Suc (q_head q) mod q_capacity q"
  let ?q = "q\<lparr>q_size := length xs - 1, q_head := ?h\<rparr>"
  have "ring ?q i = ring q (Suc i)" if "i < length xs - 1" for i
    using that by (simp add: ring_def mod_simps)
  then have "deq_rel ?q (tl xs)"
    using D False pos by (auto simp: deq_rel_iff nth_tl)
  moreover have "deque_pop_front (Ptr q) w = Some (0, Ptr ?q, deque_destroy_element q (hd xs) w)"
    using False D(1) sz hd pos by (simp add: deque_pop_front_def deque_empty_def)
  ultimately show ?thesis
    using False by (intro exI [of _ 0] exI [of _ ?q] exI [of _ "deque_destroy_element q (hd xs) w"])
      (auto simp: deq_own_def deque_destroy_element_def log_if_def)
qed

lemma deque_set_ok:
  assumes q: "deq_rel q xs"
  shows "\<exists>rc q' w'. deque_set (Ptr q) i (Ptr x) w = Some (rc, Ptr q', w') \<and> deq_conf q' = deq_conf q
    \<and> live w' - deq_own q' = live w - deq_own q \<and> (no_fail w \<longrightarrow> no_fail w' \<and> (i < length xs \<longrightarrow> rc = 0))
    \<and> (rc = - 1 \<and> q' = q \<and> destroyed w' = destroyed w
       \<or> rc = 0 \<and> i < length xs \<and> deq_rel q' (xs[i := copied (q_elem_copy q) x])
         \<and> destroyed w' = destroyed w @ log_if (q_elem_destroy q) [xs ! i])"
proof (cases "i < length xs")
  case False
  then show ?thesis using deq_relD(1) [OF q] by (auto simp: deque_set_def)
next
  case True
  note D = deq_relD [OF q]
  have pos: "0 < q_capacity q" "i \<le> q_capacity q" using True D(2) by linarith+
  obtain ok w1 where m: "malloc (q_elem_size q) w = (ok, w1)" by fastforce
  obtain c w2 where c: "copy_element (q_elem_copy q) x w1 = (c, w2)" by fastforce
  note M = malloc_effect [OF m] and E = copy_element_effect [OF c]
  have small: "q_elem_size q \<le> PTRDIFF_MAX" using D(8) by simp
  obtain b where b: "buf_put (q_data q) (ring q i) c = Some b" "length (slots b) = q_capacity q" "b \<noteq> NULL"
    using buf_put_ok [of "ring q i" "q_data q" c] ring_less [OF pos(1)] D(5) by auto
  have def: "deque_set (Ptr q) i (Ptr x) w = (if \<not> ok then Some (- 1, Ptr q, w1)
     else if c = None then Some (- 1, Ptr q, free_block w2)
     else Some (0, Ptr (q\<lparr>q_data := b\<rparr>), free_block (deque_destroy_element q (xs ! i) w2)))"
    using True m c b D(1) D(4) [OF True] deque_slot_ring [OF q pos]
    by (cases c) (simp_all add: deque_set_def deque_copy_element_def)
  show ?thesis
  proof (cases "ok \<and> c \<noteq> None")
    case False
    let ?w = "if ok then free_block w2 else w1"
    from False def have "deque_set (Ptr q) i (Ptr x) w = Some (- 1, Ptr q, ?w)" by auto
    moreover have "\<not> no_fail w" using False M(5,6) E(5) small by blast
    ultimately show ?thesis
      using M(1,3) E(1,2) by (intro exI [of _ "- 1"] exI [of _ q] exI [of _ ?w]) auto
  next
    case ok: True
    then have y: "c = Some (copied (q_elem_copy q) x)" using E(3) by blast
    have "buf_get b (ring q j) = Some (xs[i := copied (q_elem_copy q) x] ! j)" if "j < length xs" for j
      using that True D(2) D(4) [OF that] ring_inj [of j q i]
      by (auto simp: buf_get_put [OF b(1)] y nth_list_update)
    then have "deq_rel (q\<lparr>q_data := b\<rparr>) (xs[i := copied (q_elem_copy q) x])"
      using D b pos by (auto simp: deq_rel_iff ring_def)
    then show ?thesis
      using def ok y b(3) M(1,3,5) E(1,2,4) D(6) pos True
      by (intro exI [of _ 0] exI [of _ "q\<lparr>q_data := b\<rparr>"]
          exI [of _ "free_block (deque_destroy_element q (xs ! i) w2)"])
        (auto simp: deq_own_def deque_destroy_element_def log_if_def)
  qed
qed

lemma deque_copy_ok:
  assumes d: "deq_rel d ys" and s: "deq_rel s xs"
  shows "\<exists>rc d' w' zs n. deque_copy False (Ptr d) (Ptr s) w = Some (rc, Ptr d', w')
    \<and> deq_conf d' = deq_conf s \<and> live w' - deq_own d' = live w - deq_own d
    \<and> destroyed w' = destroyed w @ log_if (q_elem_destroy d) ys @ log_if (q_elem_destroy s) zs
    \<and> (no_fail w \<longrightarrow> rc = 0)
    \<and> (rc = 0 \<and> deq_rel d' (map (copied (q_elem_copy s)) xs) \<and> zs = []
       \<or> rc = - 1 \<and> deq_rel d' [] \<and> mset zs = mset (map (copied (q_elem_copy s)) (take n xs)))"
proof -
  note S = deq_relD [OF s]
  obtain d1 w1 where 1: "deque_destroy (Ptr d) w = Some (Ptr d1, w1)" "live w1 = live w - deq_own d"
    "no_fail w1 = no_fail w" "destroyed w1 = destroyed w @ log_if (q_elem_destroy d) ys"
    using deque_destroy_ok [OF d, of w] by blast
  obtain d2 where 2: "deque_init (Ptr d1) (q_elem_size s) (q_elem_destroy s) (q_elem_copy s) = (0, Ptr d2)"
    "deq_rel d2 []" "deq_conf d2 = deq_conf s" "deq_own d2 = 0"
    using deque_init_ok [OF S(7,8), of d1 "q_elem_destroy s" "q_elem_copy s"] by auto
  have fits: "length xs * q_elem_size s \<le> PTRDIFF_MAX"
    using S(2,9) by (meson le_trans mult_le_mono1)
  then have "length xs * q_elem_size d2 \<le> SIZE_MAX"
    using 2 SIZE_MAX_PTRDIFF_MAX by simp
  from deque_reserve_ok [OF 2(2) this, of w1]
  obtain rc d3 w2 where 3: "deque_reserve (Ptr d2) (length xs) w1 = Some (rc, Ptr d3, w2)"
    "deq_conf d3 = deq_conf d2" "deq_rel d3 []" "destroyed w2 = destroyed w1"
    "live w2 - deq_own d3 = live w1 - deq_own d2" "no_fail w1 \<longrightarrow> no_fail w2 \<and>
      (length xs * q_elem_size d2 \<le> PTRDIFF_MAX \<longrightarrow> rc = 0)"
    "rc = 0 \<and> q_capacity d3 = max (length xs) (q_capacity d2) \<or> rc = - 1 \<and> d3 = d2"
    by (elim exE conjE) (rule that)
  show ?thesis
  proof (cases "rc = 0")
    case False
    then have "deque_copy False (Ptr d) (Ptr s) w = Some (- 1, Ptr d3, w2)"
      using 1 2 3 S(1) by (simp add: deque_copy_def)
    then show ?thesis
      using 1 2 3 False fits by (intro exI [of _ "- 1"] exI [of _ d3] exI [of _ w2]
        exI [of _ "[]"] exI [of _ 0]) auto
  next
    case True
    have room: "deq_room d3 (length xs)"
      using True 3 deq_relD(1) [OF 3(3)] by (auto simp: deq_room_def)
    have eq: "deque_copy False (Ptr d) (Ptr s) w
        = copy_loop deque_push_back deque_clear (deque_read s) [0..<q_size s] (Ptr d3) w2"
      using 1 2 3 S(1) True by (simp add: deque_copy_def)
    from deq.copy_loop_ok [OF 3(3) deque_read_map [OF s], of w2]
    obtain rc' d' w' zs where 4:
      "copy_loop deque_push_back deque_clear (deque_read s) [0..<q_size s] (Ptr d3) w2
         = Some (rc', Ptr d', w')"
      "deq_conf d' = deq_conf d3"
      "live w' - deq_own d' = live w2 - deq_own d3"
      "destroyed w' = destroyed w2 @ log_if (q_elem_destroy d3) zs"
      "no_fail w2 \<longrightarrow> deq_room d3 (length xs) \<longrightarrow> rc' = 0"
      "rc' = 0 \<and> deq_rel d' (foldl (\<lambda>xs x. xs @ [x]) [] (map (copied (q_elem_copy d3)) xs)) \<and> zs = []
       \<or> rc' = - 1 \<and> deq_rel d' []
         \<and> (\<exists>n \<le> length xs. mset zs = mset [] + mset (map (copied (q_elem_copy d3)) (take n xs)))"
      by (elim exE conjE) (rule that)
    from 2(3) 3(2) have cf: "q_elem_copy d3 = q_elem_copy s" "q_elem_destroy d3 = q_elem_destroy s"
      by auto
    have nf: "no_fail w \<longrightarrow> rc' = 0" using 1(3) 3(6) 4(5) room fits 2(3) by auto
    have dest: "destroyed w' = destroyed w @ log_if (q_elem_destroy d) ys @ log_if (q_elem_destroy s) zs"
      using 1 3 4 cf by simp
    from 4(6) obtain n where res: "rc' = 0 \<and> deq_rel d' (map (copied (q_elem_copy s)) xs) \<and> zs = []
       \<or> rc' = - 1 \<and> deq_rel d' [] \<and> mset zs = mset (map (copied (q_elem_copy s)) (take n xs))"
      unfolding cf foldl_snoc by auto
    have conf: "deq_conf d' = deq_conf s" using 4(2) 3(2) 2(3) by simp
    have lv: "live w' - deq_own d' = live w - deq_own d" using 4(3) 3(5) 2(4) 1(2) by simp
    show ?thesis
      by (intro exI conjI) (rule eq [unfolded 4(1)], rule conf, rule lv, rule dest, rule nf, rule res)
  qed
qed

section \<open>Construction, disposal, access\<close>

lemma deque_new_ok:
  assumes "deque_new e d c w = (p, w')" and "8 * e \<le> PTRDIFF_MAX"
  shows "destroyed w' = destroyed w \<and> (no_fail w \<longrightarrow> no_fail w' \<and> (0 < e \<longrightarrow> p \<noteq> NULL))
    \<and> (p = NULL \<and> live w' = live w
       \<or> (\<exists>q. p = Ptr q \<and> 0 < e \<and> deq_rel q [] \<and> deq_own q = 0 \<and> live w' = live w + 1
           \<and> deq_conf q = (e, d, c)))"
proof -
  obtain ok w1 where m: "malloc 56 w = (ok, w1)" by fastforce
  note M = malloc_effect [OF m]
  have "56 \<le> PTRDIFF_MAX" by (simp add: PTRDIFF_MAX_def)
  with assms m M(1,3,5,6) show ?thesis
    by (cases ok; cases "e = 0")
      (auto simp: deque_new_def deque_init_def raw_deque_def deq_rel_def deq_own_def deq_conf_def)
qed

lemma deque_free_ok:
  assumes q: "deq_rel q xs"
  shows "\<exists>w'. deque_free (Ptr q) w = Some w' \<and> live w' = live w - deq_own q - 1
    \<and> no_fail w' = no_fail w \<and> destroyed w' = destroyed w @ log_if (q_elem_destroy q) xs"
  using deque_destroy_ok [OF q, of w] by (auto simp: deque_free_def)

lemma deque_at_ok:
  assumes q: "deq_rel q xs" and i: "i < length xs"
  shows "\<exists>a. deque_at (Ptr q) i = Some (Ptr a) \<and> deque_at_const (Ptr q) i = Some (Ptr a)
    \<and> deque_deref q (Ptr a) = Some (xs ! i)"
proof -
  note D = deq_relD [OF q]
  have c: "0 < q_capacity q" "i \<le> q_capacity q" using i D(2) by linarith+
  show ?thesis
    using deque_slot_ring [OF q c] D(1) D(4) [OF i] i
    by (simp add: deque_at_def deque_at_const_def deque_deref_def)
qed

lemma deque_ends_ok:
  assumes q: "deq_rel q xs" and "xs \<noteq> []"
  shows "\<exists>a b. deque_front (Ptr q) = Some (Ptr a) \<and> deque_deref q (Ptr a) = Some (hd xs)
    \<and> deque_back (Ptr q) = Some (Ptr b) \<and> deque_deref q (Ptr b) = Some (last xs)"
proof -
  note D = deq_relD [OF q]
  have n: "length xs - 1 < length xs" "0 < length xs" using assms(2) by simp_all
  have sz: "sz_sub (length xs) 1 = length xs - 1"
    using n D(2) deq_rel_capacity [OF q] SIZE_MAX_PTRDIFF_MAX by (simp add: Suc_le_eq)
  have "deque_back (Ptr q) = deque_at (Ptr q) (length xs - 1)"
    using D(1) sz n by (simp add: deque_back_def deque_at_def deque_empty_def not_le)
  with deque_at_ok [OF q n(1)] deque_at_ok [OF q n(2)] assms(2) show ?thesis
    by (auto simp: deque_front_def hd_conv_nth last_conv_nth)
qed

section \<open>Histories\<close>

datatype 'a deq_op = QPushBack 'a | QPushFront 'a | QPopBack | QPopFront | QSet size_t 'a | QClear

definition deq_exec ::
    "'a deq_op \<Rightarrow> 'a deque \<Rightarrow> ('a, 'b) world_scheme \<Rightarrow> (int \<times> 'a deque \<times> ('a, 'b) world_scheme) option" where
  "deq_exec op q w = (case op of
       QPushBack x \<Rightarrow> do { (rc, p, w1) \<leftarrow> deque_push_back (Ptr q) (Ptr x) w; Some (rc, pt p, w1) }
     | QPushFront x \<Rightarrow> do { (rc, p, w1) \<leftarrow> deque_push_front (Ptr q) (Ptr x) w; Some (rc, pt p, w1) }
     | QPopBack \<Rightarrow> do { (rc, p, w1) \<leftarrow> deque_pop_back (Ptr q) w; Some (rc, pt p, w1) }
     | QPopFront \<Rightarrow> do { (rc, p, w1) \<leftarrow> deque_pop_front (Ptr q) w; Some (rc, pt p, w1) }
     | QSet i x \<Rightarrow> do { (rc, p, w1) \<leftarrow> deque_set (Ptr q) i (Ptr x) w; Some (rc, pt p, w1) }
     | QClear \<Rightarrow> do { (p, w1) \<leftarrow> deque_clear (Ptr q) w; Some (0, pt p, w1) })"

fun deq_ideal :: "('a \<Rightarrow> 'a) \<Rightarrow> 'a deq_op \<Rightarrow> 'a list \<Rightarrow> int \<times> 'a list \<times> 'a list" where
  "deq_ideal f (QPushBack x) xs = (0, xs @ [f x], [])"
| "deq_ideal f (QPushFront x) xs = (0, f x # xs, [])"
| "deq_ideal f QPopBack xs = (if xs = [] then (- 1, [], []) else (0, butlast xs, [last xs]))"
| "deq_ideal f QPopFront xs = (if xs = [] then (- 1, [], []) else (0, tl xs, [hd xs]))"
| "deq_ideal f (QSet i x) xs =
     (if i < length xs then (0, xs[i := f x], [xs ! i]) else (- 1, xs, []))"
| "deq_ideal f QClear xs = (0, [], xs)"

definition deq_spec ::
    "size_t \<times> bool \<times> ('a \<Rightarrow> 'a) option \<Rightarrow> 'a deq_op \<Rightarrow> 'a list \<Rightarrow> int \<Rightarrow> 'a list \<Rightarrow> 'a list \<Rightarrow> bool" where
  "deq_spec k op xs rc ys ds \<longleftrightarrow> deq_ideal (copied (snd (snd k))) op xs = (rc, ys, ds)"

fun deq_stores :: "size_t \<times> bool \<times> ('a \<Rightarrow> 'a) option \<Rightarrow> 'a deq_op \<Rightarrow> 'a multiset" where
  "deq_stores k (QPushBack x) = {#copied (snd (snd k)) x#}"
| "deq_stores k (QPushFront x) = {#copied (snd (snd k)) x#}"
| "deq_stores k (QSet i x) = {#copied (snd (snd k)) x#}"
| "deq_stores k _ = {#}"

lemma deq_ideal_conserves:
  assumes "deq_ideal (copied (snd (snd k))) op xs = (rc, ys, ds)"
  shows "mset xs + (if rc = 0 then deq_stores k op else {#}) = mset ys + mset ds"
proof (cases op)
  case QPopBack
  then show ?thesis using assms by (cases xs rule: rev_cases) auto
next
  case QPopFront
  then show ?thesis using assms by (cases xs) auto
qed (use assms in \<open>auto simp: mset_update_add split: if_splits\<close>)

lemma deq_exec_law:
  assumes q: "deq_rel q xs"
  shows "\<exists>rc q' w'. deq_exec op q w = Some (rc, q', w') \<and> deq_conf q' = deq_conf q
    \<and> live w' - deq_own q' = live w - deq_own q
    \<and> ((\<exists>ys ds. deq_spec (deq_conf q) op xs rc ys ds \<and> deq_rel q' ys
          \<and> destroyed w' = destroyed w @ log_if (q_elem_destroy q) ds)
       \<or> rc = - 1 \<and> deq_rel q' xs \<and> destroyed w' = destroyed w)"
proof -
  note defs = deq_exec_def deq_spec_def
  have cf: "copied (snd (snd (deq_conf q))) = copied (q_elem_copy q)" by (simp add: deq_conf_def)
  show ?thesis
  proof (cases op)
    case (QPushBack x)
    from deque_push_back_ok [OF q, of x w] show ?thesis
      unfolding QPushBack defs cf by (elim exE conjE disjE) simp_all
  next
    case (QPushFront x)
    from deque_push_front_ok [OF q, of x w] show ?thesis
      unfolding QPushFront defs cf by (elim exE conjE disjE) simp_all
  next
    case QPopBack
    from deque_pop_back_ok [OF q, of w] show ?thesis
      unfolding QPopBack defs cf using q by (elim exE conjE disjE) simp_all
  next
    case QPopFront
    from deque_pop_front_ok [OF q, of w] show ?thesis
      unfolding QPopFront defs cf using q by (elim exE conjE disjE) simp_all
  next
    case (QSet i x)
    from deque_set_ok [OF q, of i x w] show ?thesis
      unfolding QSet defs cf using q by (elim exE conjE disjE) simp_all
  next
    case QClear
    from deque_clear_ok [OF q, of w] show ?thesis
      unfolding QClear defs cf by (elim exE conjE) (simp add: deq_own_def)
  qed
qed

interpretation deqm: spec_machine deq_exec deq_spec "\<lambda>k op. True" "\<lambda>q w. deq_rel q" deq_conf
  "\<lambda>k. fst (snd k)" "\<lambda>q w. deq_own q" mset deq_stores
proof (unfold_locales, goal_cases)
  case (1 q w xs op)
  then show ?case using deq_exec_law [of q xs op w] by (simp add: deq_conf_def)
next
  case (2 k op xs rc ys ds)
  show ?case by (rule deq_ideal_conserves [OF 2 [unfolded deq_spec_def]])
qed

section \<open>Properties\<close>

text \<open>C5: every history of pushes and pops at both ends, replacements and clears on a freshly
  initialised deque runs without undefined behaviour under any failures and behaves like the
  list machine, through every wrap-around of the ring and every growth. Destroying the deque then
  releases what is left: with a destroy callback, every element that a successful call stored has
  been destroyed exactly once, and no block stays allocated.\<close>

theorem deque_history:
  assumes "0 < e" and "8 * e \<le> PTRDIFF_MAX"
  shows "\<exists>q rcs q' w1 xs ds p w2. deque_init (Ptr raw_deque) e d c = (0, Ptr q)
    \<and> run deq_exec ops q w = Some (rcs, q', w1) \<and> deq_rel q' xs
    \<and> explains (deq_spec (e, d, c)) ops rcs [] xs ds
    \<and> destroyed w1 = destroyed w @ log_if d ds
    \<and> deque_destroy (Ptr q') w1 = Some (p, w2) \<and> destroyed w2 = destroyed w @ log_if d (ds @ xs)
    \<and> mset (ds @ xs) = stored (deq_stores (e, d, c)) ops rcs \<and> live w2 = live w"
proof -
  obtain q where q: "deque_init (Ptr raw_deque) e d c = (0, Ptr q)" "deq_rel q []"
    "deq_conf q = (e, d, c)" "deq_own q = 0"
    using deque_init_ok [OF assms, of raw_deque d c] by (auto simp: deq_conf_def)
  from deqm.run_explained [OF q(2), of ops w]
  obtain rcs q' w1 xs ds where r: "run deq_exec ops q w = Some (rcs, q', w1)" "deq_conf q' = deq_conf q"
    "live w1 - deq_own q' = live w - deq_own q" "deq_rel q' xs"
    "explains (deq_spec (deq_conf q)) ops rcs [] xs ds"
    "destroyed w1 = destroyed w @ log_if (fst (snd (deq_conf q))) ds"
    by auto
  obtain q2 w2 where d: "deque_destroy (Ptr q') w1 = Some (Ptr q2, w2)" "live w2 = live w1 - deq_own q'"
    "destroyed w2 = destroyed w1 @ log_if (q_elem_destroy q') xs"
    using deque_destroy_ok [OF r(4), of w1] by blast
  have flag: "q_elem_destroy q' = d" using r(2) q(3) by (simp add: deq_conf_def)
  have "stored (deq_stores (e, d, c)) ops rcs = mset (ds @ xs)"
    using deqm.explains_conserves [OF r(5)] q(3) by (simp add: ac_simps)
  moreover have "destroyed w1 = destroyed w @ log_if d ds" using r(6) q(3) by simp
  moreover have "live w2 = live w" using d(2) r(3) q(4) by simp
  ultimately show ?thesis
    using q r(1,4,5) d(1,3) flag
    by (intro exI [of _ q] exI [of _ rcs] exI [of _ q'] exI [of _ w1] exI [of _ xs] exI [of _ ds]
        exI [of _ "Ptr q2"] exI [of _ w2]) simp
qed

theorem deque_history_witness:
  "\<exists>q rcs q' w1 xs ds p w2. deque_init (Ptr raw_deque) 4 True None = (0, Ptr q)
    \<and> run deq_exec [QPushFront 7, QPushBack 5, QPopFront, QSet 0 (9 :: int)] q (script [False] [])
        = Some (rcs, q', w1) \<and> deq_rel q' xs
    \<and> explains (deq_spec (4, True, None)) [QPushFront 7, QPushBack 5, QPopFront, QSet 0 9] rcs [] xs ds
    \<and> destroyed w1 = destroyed (script [False] [] :: int world) @ log_if True ds
    \<and> deque_destroy (Ptr q') w1 = Some (p, w2)
    \<and> destroyed w2 = destroyed (script [False] [] :: int world) @ log_if True (ds @ xs)
    \<and> mset (ds @ xs) = stored (deq_stores (4, True, None)) [QPushFront 7, QPushBack 5, QPopFront, QSet 0 9] rcs
    \<and> live w2 = live (script [False] [] :: int world)"
  by (rule deque_history) (simp_all add: PTRDIFF_MAX_def)

text \<open>\<open>deque_copy\<close> reads the ring of the source from its head and builds a deep copy in an
  initialised destination, or returns \<open>- 1\<close> with an empty one and every copy it had made destroyed.
  It fails only when the allocator or the copy callback does, and no block leaks.\<close>

theorem deque_copy_deep:
  assumes "deq_rel d ys" and "deq_rel s xs"
  shows "\<exists>rc d' w' zs n. deque_copy False (Ptr d) (Ptr s) w = Some (rc, Ptr d', w')
    \<and> deq_conf d' = deq_conf s \<and> live w' - deq_own d' = live w - deq_own d
    \<and> destroyed w' = destroyed w @ log_if (q_elem_destroy d) ys @ log_if (q_elem_destroy s) zs
    \<and> (no_fail w \<longrightarrow> rc = 0)
    \<and> (rc = 0 \<and> deq_rel d' (map (copied (q_elem_copy s)) xs) \<and> zs = []
       \<or> rc = - 1 \<and> deq_rel d' [] \<and> mset zs = mset (map (copied (q_elem_copy s)) (take n xs)))"
  by (rule deque_copy_ok [OF assms])

definition deq_example :: "int deque" where
  "deq_example = \<lparr>q_capacity = 3, q_size = 2, q_head = 2, q_elem_size = 4, q_elem_destroy = True,
     q_elem_copy = None, q_data = Ptr [Some 6, None, Some 8]\<rparr>"

lemma deq_example_rel: "deq_rel deq_example [8, 6]"
  by (simp add: deq_example_def deq_rel_def buf_get_def ring_def PTRDIFF_MAX_def)

theorem deque_copy_deep_witness:
  "\<exists>rc d' w' zs n. deque_copy False (Ptr deq_example) (Ptr deq_example) (script [True] [])
        = Some (rc, Ptr d', w')
    \<and> deq_conf d' = deq_conf deq_example
    \<and> live w' - deq_own d' = live (script [True] [] :: int world) - deq_own deq_example
    \<and> destroyed w' = destroyed (script [True] [] :: int world)
        @ log_if (q_elem_destroy deq_example) [8, 6] @ log_if (q_elem_destroy deq_example) zs
    \<and> (no_fail (script [True] [] :: int world) \<longrightarrow> rc = 0)
    \<and> (rc = 0 \<and> deq_rel d' (map (copied (q_elem_copy deq_example)) [8, 6]) \<and> zs = []
       \<or> rc = - 1 \<and> deq_rel d' []
         \<and> mset zs = mset (map (copied (q_elem_copy deq_example)) (take n [8, 6])))"
  by (rule deque_copy_deep [OF deq_example_rel deq_example_rel])

end
