(* ===== verification/Heap.thy ===== *)
theory Heap
  imports Machine
begin

text \<open>
  \<open>src/heap.c\<close>: the binary max-heap over a growing array. Every function of the file is a
  definition of the same name. \<open>heap_rel h xs\<close> says that the slots of \<open>h\<close> hold \<open>xs\<close> in heap
  order, and \<open>heap_bag h m\<close> that \<open>h\<close> is a heap of the multiset \<open>m\<close>.
\<close>

section \<open>Model\<close>

record 'a heap =
  h_capacity :: size_t
  h_size :: size_t
  h_elem_size :: size_t
  h_elem_compare :: "'a \<Rightarrow> 'a \<Rightarrow> int"
  h_elem_destroy :: bool
  h_elem_copy :: "('a \<Rightarrow> 'a) option"
  h_data :: "'a buf"

definition HEAP_INIT_CAPACITY :: size_t where
  "HEAP_INIT_CAPACITY = 8"

definition heap_empty :: "'a heap \<Rightarrow> bool" where
  "heap_empty h \<longleftrightarrow> h_size h = 0"

definition heap_copy_element ::
    "'a heap \<Rightarrow> 'a \<Rightarrow> ('a, 'b) world_scheme \<Rightarrow> 'a option \<times> ('a, 'b) world_scheme" where
  "heap_copy_element h src w = copy_element (h_elem_copy h) src w"

definition heap_destroy_element ::
    "'a heap \<Rightarrow> 'a \<Rightarrow> ('a, 'b) world_scheme \<Rightarrow> ('a, 'b) world_scheme" where
  "heap_destroy_element h x w = destroy_element (h_elem_destroy h) x w"

definition heap_swap_slots :: "'a buf \<Rightarrow> nat \<Rightarrow> nat \<Rightarrow> 'a buf option" where
  "heap_swap_slots b i j =
     (if i = j then Some b
      else do {
        x \<leftarrow> buf_get b i;
        y \<leftarrow> buf_get b j;
        b1 \<leftarrow> buf_put b i (Some y);
        buf_put b1 j (Some x) })"

definition heap_init ::
    "'a heap ptr \<Rightarrow> size_t \<Rightarrow> ('a \<Rightarrow> 'a \<Rightarrow> int) ptr \<Rightarrow> bool \<Rightarrow> ('a \<Rightarrow> 'a) option \<Rightarrow> int \<times> 'a heap ptr" where
  "heap_init p elem_size elem_compare elem_destroy elem_copy =
     (if p = NULL \<or> elem_size = 0 \<or> elem_compare = NULL then (- 1, p)
      else (0, Ptr \<lparr>h_capacity = 0, h_size = 0, h_elem_size = elem_size,
        h_elem_compare = pt elem_compare, h_elem_destroy = elem_destroy,
        h_elem_copy = elem_copy, h_data = NULL\<rparr>))"

definition heap_clear ::
    "'a heap ptr \<Rightarrow> ('a, 'b) world_scheme \<Rightarrow> ('a heap ptr \<times> ('a, 'b) world_scheme) option" where
  "heap_clear p w = (case p of NULL \<Rightarrow> Some (NULL, w) | Ptr h \<Rightarrow> do {
     w1 \<leftarrow> (if h_elem_destroy h then destroy_slots True (h_data h) [0..<h_size h] w else Some w);
     Some (Ptr (h\<lparr>h_size := 0\<rparr>), w1) })"

definition heap_destroy ::
    "'a heap ptr \<Rightarrow> ('a, 'b) world_scheme \<Rightarrow> ('a heap ptr \<times> ('a, 'b) world_scheme) option" where
  "heap_destroy p w = (case p of NULL \<Rightarrow> Some (NULL, w) | Ptr _ \<Rightarrow> do {
     (q, w1) \<leftarrow> heap_clear p w;
     let h = pt q in
     Some (Ptr (h\<lparr>h_data := NULL, h_capacity := 0\<rparr>), free_ptr (h_data h) w1) })"

definition raw_heap :: "'a heap" where
  "raw_heap = \<lparr>h_capacity = 0, h_size = 0, h_elem_size = 0, h_elem_compare = (\<lambda>_ _. 0),
     h_elem_destroy = False, h_elem_copy = None, h_data = NULL\<rparr>"

definition heap_new ::
    "size_t \<Rightarrow> ('a \<Rightarrow> 'a \<Rightarrow> int) ptr \<Rightarrow> bool \<Rightarrow> ('a \<Rightarrow> 'a) option \<Rightarrow> ('a, 'b) world_scheme
     \<Rightarrow> 'a heap ptr \<times> ('a, 'b) world_scheme" where
  "heap_new elem_size elem_compare elem_destroy elem_copy w =
     (let (ok, w1) = malloc 56 w in
      if \<not> ok then (NULL, w1)
      else let (rc, p) = heap_init (Ptr raw_heap) elem_size elem_compare elem_destroy elem_copy in
        if rc \<noteq> 0 then (NULL, free_block w1) else (p, w1))"

definition heap_free ::
    "'a heap ptr \<Rightarrow> ('a, 'b) world_scheme \<Rightarrow> ('a, 'b) world_scheme option" where
  "heap_free p w = (case p of NULL \<Rightarrow> Some w | Ptr _ \<Rightarrow> do {
     (_, w1) \<leftarrow> heap_destroy p w; Some (free_block w1) })"

definition heap_reserve ::
    "'a heap ptr \<Rightarrow> size_t \<Rightarrow> ('a, 'b) world_scheme
     \<Rightarrow> int \<times> 'a heap ptr \<times> ('a, 'b) world_scheme" where
  "heap_reserve p capacity w = (case p of NULL \<Rightarrow> (- 1, NULL, w) | Ptr h \<Rightarrow>
     if capacity \<le> h_capacity h then (0, p, w)
     else let bytes = sz_mul capacity (h_elem_size h);
              (ok, w1) = realloc (h_data h \<noteq> NULL) bytes w in
       if \<not> ok then (- 1, p, w1)
       else (0, Ptr (h\<lparr>h_data := buf_resize (bytes div h_elem_size h) (h_data h),
                       h_capacity := capacity\<rparr>), w1))"

text \<open>
  The sift-up loop of \<open>heap_push\<close>: \<open>x\<close> is the staged element and slot \<open>i\<close> the hole, which
  moves towards the root. The result is the final position of the hole. Indices are below the
  number of slots of a block, so \<open>i * 2 + 2\<close> does not wrap around in the loops.
\<close>

function heap_sift_up :: "('a \<Rightarrow> 'a \<Rightarrow> int) \<Rightarrow> 'a \<Rightarrow> nat \<Rightarrow> 'a buf \<Rightarrow> (nat \<times> 'a buf) option" where
  "heap_sift_up cmp x i b =
     (if 0 < i then
        let parent = (i - 1) div 2 in do {
        y \<leftarrow> buf_get b parent;
        if 0 \<le> cmp y x then Some (i, b)
        else do { b1 \<leftarrow> buf_put b i (Some y); heap_sift_up cmp x parent b1 } }
      else Some (i, b))"
  by pat_completeness auto
termination
  by (relation "measure (\<lambda>(cmp, x, i, b). i)") auto

declare heap_sift_up.simps [simp del]

text \<open>The growth block of \<open>heap_push\<close>.\<close>

definition heap_grow ::
    "'a heap \<Rightarrow> ('a, 'b) world_scheme \<Rightarrow> int \<times> 'a heap ptr \<times> ('a, 'b) world_scheme" where
  "heap_grow h w =
     (if h_size h = h_capacity h
      then heap_reserve (Ptr h)
        (if h_capacity h = 0 then HEAP_INIT_CAPACITY else sz_mul (h_capacity h) 2) w
      else (0, Ptr h, w))"

definition heap_push ::
    "'a heap ptr \<Rightarrow> 'a ptr \<Rightarrow> ('a, 'b) world_scheme
     \<Rightarrow> (int \<times> 'a heap ptr \<times> ('a, 'b) world_scheme) option" where
  "heap_push p elem w =
     (if p = NULL \<or> elem = NULL then Some (- 1, p, w)
      else let (rc, q, w1) = heap_grow (pt p) w in
        if rc \<noteq> 0 then Some (- 1, q, w1)
        else let h = pt q; (ok, w2) = malloc (h_elem_size h) w1 in
          if \<not> ok then Some (- 1, q, w2)
          else let (c, w3) = heap_copy_element h (pt elem) w2 in
            case c of None \<Rightarrow> Some (- 1, q, free_block w3)
            | Some staged \<Rightarrow> do {
                (i, b) \<leftarrow> heap_sift_up (h_elem_compare h) staged (h_size h) (h_data h);
                b1 \<leftarrow> buf_put b i (Some staged);
                Some (0, Ptr (h\<lparr>h_data := b1, h_size := sz_add (h_size h) 1\<rparr>), free_block w3) })"

text \<open>The sift-down loop of \<open>heap_pop\<close> on a heap of \<open>n\<close> elements.\<close>

definition heap_child :: "('a \<Rightarrow> 'a \<Rightarrow> int) \<Rightarrow> nat \<Rightarrow> nat \<Rightarrow> 'a buf \<Rightarrow> nat option" where
  "heap_child cmp n i b =
     (let left = i * 2 + 1; right = left + 1 in
      if right < n then do {
        x \<leftarrow> buf_get b left; y \<leftarrow> buf_get b right;
        Some (if cmp x y < 0 then right else left) }
      else Some left)"

lemma heap_child_cases: "heap_child cmp n i b = Some j \<Longrightarrow> j = i * 2 + 1 \<or> j = i * 2 + 2 \<and> j < n"
  by (auto simp: heap_child_def Let_def split: if_splits Option.bind_splits)

function heap_sift_down :: "('a \<Rightarrow> 'a \<Rightarrow> int) \<Rightarrow> nat \<Rightarrow> nat \<Rightarrow> 'a buf \<Rightarrow> 'a buf option" where
  "heap_sift_down cmp n i b =
     (if n \<le> i * 2 + 1 then Some b
      else do {
        child \<leftarrow> heap_child cmp n i b;
        x \<leftarrow> buf_get b i;
        y \<leftarrow> buf_get b child;
        if 0 \<le> cmp x y then Some b
        else do { b1 \<leftarrow> heap_swap_slots b i child; heap_sift_down cmp n child b1 } })"
  by pat_completeness auto
termination
  by (relation "measure (\<lambda>(cmp, n, i, b). n - i)") (auto dest!: heap_child_cases)

declare heap_sift_down.simps [simp del]

definition heap_pop ::
    "'a heap ptr \<Rightarrow> ('a, 'b) world_scheme
     \<Rightarrow> (int \<times> 'a heap ptr \<times> ('a, 'b) world_scheme) option" where
  "heap_pop p w =
     (if p = NULL \<or> heap_empty (pt p) then Some (- 1, p, w)
      else let h = pt p in do {
        x \<leftarrow> buf_get (h_data h) 0;
        let w1 = heap_destroy_element h x w; n = sz_sub (h_size h) 1 in
        if n = 0 then Some (0, Ptr (h\<lparr>h_size := n\<rparr>), w1)
        else do {
          y \<leftarrow> buf_get (h_data h) n;
          b \<leftarrow> buf_put (h_data h) 0 (Some y);
          b1 \<leftarrow> heap_sift_down (h_elem_compare h) n 0 b;
          Some (0, Ptr (h\<lparr>h_data := b1, h_size := n\<rparr>), w1) } })"

definition heap_copy ::
    "bool \<Rightarrow> 'a heap ptr \<Rightarrow> 'a heap ptr \<Rightarrow> ('a, 'b) world_scheme
     \<Rightarrow> (int \<times> 'a heap ptr \<times> ('a, 'b) world_scheme) option" where
  "heap_copy same dst src w =
     (if dst = NULL \<or> src = NULL then Some (- 1, dst, w)
      else if same then Some (0, dst, w)
      else do {
        (dst1, w1) \<leftarrow> heap_destroy dst w;
        let s = pt src;
            (rc, dst2) = heap_init dst1 (h_elem_size s) (Ptr (h_elem_compare s))
              (h_elem_destroy s) (h_elem_copy s) in
        if rc \<noteq> 0 then Some (- 1, dst2, w1)
        else let (rc2, dst3, w2) = heap_reserve dst2 (h_size s) w1 in
          if rc2 \<noteq> 0 then Some (- 1, dst3, w2)
          else copy_loop heap_push heap_clear (buf_get (h_data s)) [0..<h_size s] dst3 w2 })"

definition heap_clone ::
    "'a heap ptr \<Rightarrow> ('a, 'b) world_scheme \<Rightarrow> ('a heap ptr \<times> ('a, 'b) world_scheme) option" where
  "heap_clone src w = (case src of NULL \<Rightarrow> Some (NULL, w) | Ptr s \<Rightarrow>
     let (copy, w1) = heap_new (h_elem_size s) (Ptr (h_elem_compare s)) (h_elem_destroy s)
           (h_elem_copy s) w in
     if copy = NULL then Some (NULL, w1)
     else do {
       (rc, copy1, w2) \<leftarrow> heap_copy False copy src w1;
       if rc \<noteq> 0 then do { w3 \<leftarrow> heap_free copy1 w2; Some (NULL, w3) }
       else Some (copy1, w2) })"

definition heap_top :: "'a heap ptr \<Rightarrow> nat ptr" where
  "heap_top p = (if p = NULL \<or> heap_empty (pt p) then NULL else Ptr 0)"

definition heap_top_const :: "'a heap ptr \<Rightarrow> nat ptr" where
  "heap_top_const p = (if p = NULL \<or> heap_empty (pt p) then NULL else Ptr 0)"

text \<open>What \<open>heap_top_as\<close> reads through the address.\<close>

definition heap_deref :: "'a heap \<Rightarrow> nat ptr \<Rightarrow> 'a option" where
  "heap_deref h a = (case a of NULL \<Rightarrow> None | Ptr i \<Rightarrow> buf_get (h_data h) i)"

section \<open>Heap order\<close>

abbreviation par :: "nat \<Rightarrow> nat" where
  "par i \<equiv> (i - 1) div 2"

definition heap_ord :: "('a \<Rightarrow> 'a \<Rightarrow> int) \<Rightarrow> 'a list \<Rightarrow> bool" where
  "heap_ord cmp xs \<longleftrightarrow> (\<forall>i < length xs. 0 < i \<longrightarrow> cmp (xs ! i) (xs ! par i) \<le> 0)"

text \<open>
  The order with one exception: \<open>up_inv\<close> allows element \<open>i\<close> to exceed its parent,
  \<open>down_inv\<close> allows the children of \<open>i\<close> to exceed it. In both the children of \<open>i\<close> respect
  the parent of \<open>i\<close>.
\<close>

definition up_inv :: "('a \<Rightarrow> 'a \<Rightarrow> int) \<Rightarrow> 'a list \<Rightarrow> nat \<Rightarrow> bool" where
  "up_inv cmp xs i \<longleftrightarrow> i < length xs
     \<and> (\<forall>j < length xs. 0 < j \<longrightarrow> j \<noteq> i \<longrightarrow> cmp (xs ! j) (xs ! par j) \<le> 0)
     \<and> (0 < i \<longrightarrow> (\<forall>j < length xs. 0 < j \<longrightarrow> par j = i \<longrightarrow> cmp (xs ! j) (xs ! par i) \<le> 0))"

definition down_inv :: "('a \<Rightarrow> 'a \<Rightarrow> int) \<Rightarrow> 'a list \<Rightarrow> nat \<Rightarrow> bool" where
  "down_inv cmp xs i \<longleftrightarrow>
     (\<forall>j < length xs. 0 < j \<longrightarrow> par j \<noteq> i \<longrightarrow> cmp (xs ! j) (xs ! par j) \<le> 0)
     \<and> (0 < i \<longrightarrow> (\<forall>j < length xs. 0 < j \<longrightarrow> par j = i \<longrightarrow> cmp (xs ! j) (xs ! par i) \<le> 0))"

lemma par_less: "0 < i \<Longrightarrow> par i < i"
  by auto

lemma heap_ord_top:
  assumes "cmp_ok cmp" and "heap_ord cmp xs" and "i < length xs"
  shows "cmp (xs ! i) (xs ! 0) \<le> 0"
  using assms(3)
proof (induction i rule: less_induct)
  case (less i)
  show ?case
  proof (cases "i = 0")
    case True
    then show ?thesis using cmp_ok_refl [OF assms(1)] by simp
  next
    case False
    then have "cmp (xs ! par i) (xs ! 0) \<le> 0" "cmp (xs ! i) (xs ! par i) \<le> 0"
      using less par_less [of i] assms(2) by (auto simp: heap_ord_def)
    then show ?thesis using cmp_ok_trans [OF assms(1)] by blast
  qed
qed

lemma up_step:
  assumes cmp: "cmp_ok cmp" and inv: "up_inv cmp xs i" and i: "0 < i"
    and less: "cmp (xs ! par i) (xs ! i) \<le> 0"
  shows "up_inv cmp (xs[i := xs ! par i, par i := xs ! i]) (par i)"
proof -
  note tr = cmp_ok_trans [OF cmp]
  let ?p = "par i" and ?ys = "xs[i := xs ! par i, par i := xs ! i]"
  have p: "?p < i" using i by auto
  have len: "i < length xs" "?p < length xs" using inv p by (auto simp: up_inv_def)
  have nth: "?ys ! j = (if j = ?p then xs ! i else if j = i then xs ! ?p else xs ! j)" for j
    using len by (auto simp: nth_list_update)
  have up: "cmp (xs ! j) (xs ! par j) \<le> 0" if "j < length xs" "0 < j" "j \<noteq> i" for j
    using inv that by (simp add: up_inv_def)
  have below: "cmp (xs ! j) (xs ! ?p) \<le> 0" if "j < length xs" "0 < j" "par j = i" for j
    using inv that i by (simp add: up_inv_def)
  have 1: "cmp (?ys ! j) (?ys ! par j) \<le> 0" if j: "j < length xs" "0 < j" "j \<noteq> ?p" for j
  proof -
    consider "j = i" | "j \<noteq> i" "par j = i" | "j \<noteq> i" "par j = ?p" | "j \<noteq> i" "par j \<noteq> i" "par j \<noteq> ?p"
      by blast
    then show ?thesis
    proof cases
      case 1
      then show ?thesis using less p unfolding nth by simp
    next
      case 2
      then show ?thesis using below [OF j(1,2)] j p unfolding nth by simp
    next
      case 3
      then show ?thesis using tr [OF _ less] up [OF j(1,2) 3(1)] j unfolding nth by simp
    next
      case 4
      then show ?thesis using up [OF j(1,2) 4(1)] j unfolding nth by simp
    qed
  qed
  have 2: "cmp (?ys ! j) (?ys ! par ?p) \<le> 0" if j: "0 < ?p" "j < length xs" "0 < j" "par j = ?p" for j
  proof -
    have q: "par ?p < ?p" using j(1) by auto
    have a: "cmp (xs ! ?p) (xs ! par ?p) \<le> 0" using up [of ?p] p len j(1) by simp
    have "j \<noteq> ?p" using j(1,4) q by auto
    then show ?thesis
      using a up [OF j(2,3)] tr [OF _ a] j(4) p q unfolding nth by auto
  qed
  from 1 2 len show ?thesis unfolding up_inv_def length_list_update by blast
qed

lemma down_step:
  assumes cmp: "cmp_ok cmp" and inv: "down_inv cmp xs i" and c: "c < length xs" "0 < c" "par c = i"
    and max: "\<And>j. j < length xs \<Longrightarrow> 0 < j \<Longrightarrow> par j = i \<Longrightarrow> cmp (xs ! j) (xs ! c) \<le> 0"
    and less: "cmp (xs ! i) (xs ! c) \<le> 0"
  shows "down_inv cmp (xs[i := xs ! c, c := xs ! i]) c"
proof -
  let ?ys = "xs[i := xs ! c, c := xs ! i]"
  have ic: "i < c" using c(2,3) by auto
  have nth: "?ys ! j = (if j = c then xs ! i else if j = i then xs ! c else xs ! j)" for j
    using c(1) ic by (auto simp: nth_list_update)
  have dn: "cmp (xs ! j) (xs ! par j) \<le> 0" if "j < length xs" "0 < j" "par j \<noteq> i" for j
    using inv that by (simp add: down_inv_def)
  have 1: "cmp (?ys ! j) (?ys ! par j) \<le> 0" if j: "j < length xs" "0 < j" "par j \<noteq> c" for j
  proof -
    consider "j = c" | "j = i" | "j \<noteq> c" "j \<noteq> i" "par j = i" | "j \<noteq> c" "j \<noteq> i" "par j \<noteq> i" by blast
    then show ?thesis
    proof cases
      case 1
      then show ?thesis using less c ic unfolding nth by simp
    next
      case 2
      have "par i < i" using j(2) 2 by auto
      moreover have "cmp (xs ! c) (xs ! par i) \<le> 0"
        using inv c j(2) 2 by (simp add: down_inv_def)
      ultimately show ?thesis using 2 ic unfolding nth by simp
    next
      case 3
      then show ?thesis using max [OF j(1,2)] ic unfolding nth by simp
    next
      case 4
      then show ?thesis using dn [OF j(1,2)] j unfolding nth by simp
    qed
  qed
  have 2: "cmp (?ys ! j) (?ys ! par c) \<le> 0" if j: "j < length xs" "0 < j" "par j = c" for j
    using dn [OF j(1,2)] j ic c par_less [OF j(2)] unfolding nth by auto
  from 1 2 show ?thesis unfolding down_inv_def length_list_update by blast
qed

lemma mset_swap2: "i < length xs \<Longrightarrow> j < length xs \<Longrightarrow> mset (xs[i := xs ! j, j := xs ! i]) = mset xs"
  by (rule mset_swap)

lemma heap_sift_up_ok:
  assumes "cmp_ok cmp" and "up_inv cmp xs i" and "xs ! i = x"
    and "\<And>j. j < length xs \<Longrightarrow> j \<noteq> i \<Longrightarrow> buf_get b j = Some (xs ! j)"
    and "length xs \<le> length (slots b)"
  shows "\<exists>i' b' ys. heap_sift_up cmp x i b = Some (i', b') \<and> heap_ord cmp ys \<and> mset ys = mset xs
    \<and> i' < length ys \<and> ys ! i' = x \<and> (\<forall>j < length ys. j \<noteq> i' \<longrightarrow> buf_get b' j = Some (ys ! j))
    \<and> length (slots b') = length (slots b)"
  using assms(2-5)
proof (induction i arbitrary: xs b rule: less_induct)
  case (less i)
  have i: "i < length xs" using less.prems(1) by (simp add: up_inv_def)
  show ?case
  proof (cases "i = 0 \<or> 0 \<le> cmp (xs ! par i) x")
    case True
    have get: "buf_get b (par i) = Some (xs ! par i)" if "i \<noteq> 0"
      using less.prems(3) [of "par i"] i that par_less [of i] by auto
    have "heap_sift_up cmp x i b = Some (i, b)"
    proof (cases "i = 0")
      case False
      with True get show ?thesis by (subst heap_sift_up.simps) simp
    qed (simp add: heap_sift_up.simps)
    moreover have "heap_ord cmp xs"
      unfolding heap_ord_def
    proof (intro allI impI)
      fix j assume j: "j < length xs" "0 < j"
      show "cmp (xs ! j) (xs ! par j) \<le> 0"
        using True j less.prems(1,2) cmp_ok_sym [OF assms(1), of "xs ! par i" x]
        by (cases "j = i") (auto simp: up_inv_def)
    qed
    ultimately show ?thesis using less.prems i by blast
  next
    case False
    then have pos: "0 < i" and lt: "cmp (xs ! par i) (xs ! i) \<le> 0" using less.prems(2) by auto
    let ?p = "par i" and ?ys = "xs[i := xs ! par i, par i := xs ! i]"
    have p: "?p < i" "?p < length xs" using pos i by auto
    obtain b1 where b1: "buf_put b i (Some (xs ! ?p)) = Some b1" "length (slots b1) = length (slots b)"
      using buf_put_ok [of i b "Some (xs ! ?p)"] i less.prems(4) by auto
    have eq: "heap_sift_up cmp x i b = heap_sift_up cmp x ?p b1"
      using False pos b1(1) less.prems(3) [of ?p] p by (subst heap_sift_up.simps) simp
    have "buf_get b1 j = Some (?ys ! j)" if "j < length ?ys" "j \<noteq> ?p" for j
      using that p i less.prems(3) [of j] by (auto simp: buf_get_put [OF b1(1)] nth_list_update)
    moreover have "?ys ! ?p = x" using p less.prems(2) by simp
    moreover have "length ?ys \<le> length (slots b1)" using less.prems(4) b1(2) by simp
    ultimately obtain i' b' ys where "heap_sift_up cmp x ?p b1 = Some (i', b')" "heap_ord cmp ys"
      "mset ys = mset ?ys" "i' < length ys" "ys ! i' = x"
      "\<forall>j < length ys. j \<noteq> i' \<longrightarrow> buf_get b' j = Some (ys ! j)" "length (slots b') = length (slots b1)"
      using less.IH [OF p(1) up_step [OF assms(1) less.prems(1) pos lt], of b1] by blast
    then show ?thesis
      using eq b1(2) mset_swap2 [OF i p(2)] by auto
  qed
qed

lemma heap_child_ok:
  assumes cmp: "cmp_ok cmp" and b: "holds b xs" and n: "i * 2 + 1 < length xs"
  shows "\<exists>c. heap_child cmp (length xs) i b = Some c \<and> c < length xs \<and> 0 < c \<and> par c = i
    \<and> (\<forall>j < length xs. 0 < j \<longrightarrow> par j = i \<longrightarrow> cmp (xs ! j) (xs ! c) \<le> 0)"
proof -
  have kids: "j = i * 2 + 1 \<or> j = i * 2 + 2" if "0 < j" "par j = i" for j
    using that by presburger
  let ?l = "i * 2 + 1" and ?r = "i * 2 + 2"
  define c where "c = (if ?r < length xs \<and> cmp (xs ! ?l) (xs ! ?r) < 0 then ?r else ?l)"
  have "heap_child cmp (length xs) i b = Some c"
    using holds_get [OF b, of ?l] holds_get [OF b, of ?r] n by (simp add: heap_child_def c_def Let_def)
  moreover have "c < length xs" "0 < c" "par c = i" using n by (auto simp: c_def)
  moreover have "cmp (xs ! j) (xs ! c) \<le> 0" if "j < length xs" "0 < j" "par j = i" for j
    using kids [OF that(2,3)] that(1) cmp_ok_refl [OF cmp] cmp_ok_sym [OF cmp, of "xs ! ?l" "xs ! ?r"]
    by (auto simp: c_def)
  ultimately show ?thesis by blast
qed

lemma heap_swap_slots_ok:
  assumes "holds b xs" and "i < length xs" and "j < length xs" and "i \<noteq> j"
  shows "\<exists>b'. heap_swap_slots b i j = Some b' \<and> holds b' (xs[i := xs ! j, j := xs ! i])
    \<and> length (slots b') = length (slots b) \<and> b' \<noteq> NULL"
proof -
  obtain b1 where 1: "buf_put b i (Some (xs ! j)) = Some b1" "holds b1 (xs[i := xs ! j])"
    "length (slots b1) = length (slots b)"
    using holds_put_old [OF assms(1,2)] by blast
  have "j < length (xs[i := xs ! j])" using assms(3) by simp
  then obtain b2 where "buf_put b1 j (Some (xs ! i)) = Some b2" "holds b2 (xs[i := xs ! j, j := xs ! i])"
    "length (slots b2) = length (slots b1)" "b2 \<noteq> NULL"
    using holds_put_old [OF 1(2)] by blast
  then show ?thesis
    using 1 assms by (simp add: heap_swap_slots_def holds_get)
qed

lemma heap_sift_down_ok:
  assumes cmp: "cmp_ok cmp" and "down_inv cmp xs i" and "holds b xs" and "b \<noteq> NULL"
  shows "\<exists>b' ys. heap_sift_down cmp (length xs) i b = Some b' \<and> holds b' ys \<and> heap_ord cmp ys
    \<and> mset ys = mset xs \<and> length (slots b') = length (slots b) \<and> b' \<noteq> NULL"
  using assms(2-)
proof (induction "length xs - i" arbitrary: xs i b rule: less_induct)
  case less
  have fin: "heap_ord cmp xs"
    if "\<And>j. j < length xs \<Longrightarrow> 0 < j \<Longrightarrow> par j = i \<Longrightarrow> cmp (xs ! j) (xs ! i) \<le> 0"
    unfolding heap_ord_def
  proof (intro allI impI)
    fix j assume "j < length xs" "0 < j"
    then show "cmp (xs ! j) (xs ! par j) \<le> 0"
      using that [of j] less.prems(1) by (cases "par j = i") (simp_all add: down_inv_def)
  qed
  show ?case
  proof (cases "i * 2 + 1 < length xs")
    case False
    then have "heap_sift_down cmp (length xs) i b = Some b" by (subst heap_sift_down.simps) simp
    moreover have "heap_ord cmp xs" by (rule fin) (use False in linarith)
    ultimately show ?thesis using less.prems by blast
  next
    case True
    obtain c where c: "heap_child cmp (length xs) i b = Some c" "c < length xs" "0 < c" "par c = i"
      and max: "\<forall>j < length xs. 0 < j \<longrightarrow> par j = i \<longrightarrow> cmp (xs ! j) (xs ! c) \<le> 0"
      using heap_child_ok [OF cmp less.prems(2) True] by blast
    have ic: "i < c" "i < length xs" using c by auto
    have step: "heap_sift_down cmp (length xs) i b = (if 0 \<le> cmp (xs ! i) (xs ! c) then Some b
        else heap_swap_slots b i c \<bind> heap_sift_down cmp (length xs) c)"
      using c True holds_get [OF less.prems(2)] ic by (subst heap_sift_down.simps) simp
    show ?thesis
    proof (cases "0 \<le> cmp (xs ! i) (xs ! c)")
      case True
      then have "cmp (xs ! c) (xs ! i) \<le> 0" using cmp_ok_sym [OF cmp] by blast
      then have "heap_ord cmp xs" using fin max cmp_ok_trans [OF cmp] by blast
      with step True less.prems show ?thesis by auto
    next
      case False
      then have lt: "cmp (xs ! i) (xs ! c) \<le> 0" by simp
      let ?ys = "xs[i := xs ! c, c := xs ! i]"
      obtain b1 where b1: "heap_swap_slots b i c = Some b1" "holds b1 ?ys"
        "length (slots b1) = length (slots b)" "b1 \<noteq> NULL"
        using heap_swap_slots_ok [OF less.prems(2) ic(2) c(2)] ic by auto
      have inv: "down_inv cmp ?ys c"
        using down_step [OF cmp less.prems(1) c(2-4) _ lt] max by blast
      have "length ?ys - c < length xs - i" using ic c(2) by simp
      from less.hyps [OF this inv b1(2,4)] show ?thesis
        using step False b1 mset_swap2 [OF ic(2) c(2)] by auto
    qed
  qed
qed

section \<open>Invariant\<close>

definition heap_rel :: "'a heap \<Rightarrow> 'a list \<Rightarrow> bool" where
  "heap_rel h xs \<longleftrightarrow> holds (h_data h) xs \<and> h_size h = length xs
     \<and> length (slots (h_data h)) = h_capacity h \<and> (h_data h = NULL \<longleftrightarrow> h_capacity h = 0)
     \<and> 0 < h_elem_size h \<and> 8 * h_elem_size h \<le> PTRDIFF_MAX
     \<and> h_capacity h * h_elem_size h \<le> PTRDIFF_MAX
     \<and> cmp_ok (h_elem_compare h) \<and> heap_ord (h_elem_compare h) xs"

definition heap_bag :: "'a heap \<Rightarrow> 'a multiset \<Rightarrow> bool" where
  "heap_bag h m \<longleftrightarrow> (\<exists>xs. heap_rel h xs \<and> mset xs = m)"

type_synonym 'a heap_cfg = "size_t \<times> ('a \<Rightarrow> 'a \<Rightarrow> int) \<times> bool \<times> ('a \<Rightarrow> 'a) option"

definition heap_conf :: "'a heap \<Rightarrow> 'a heap_cfg" where
  "heap_conf h = (h_elem_size h, h_elem_compare h, h_elem_destroy h, h_elem_copy h)"

definition heap_own :: "'a heap \<Rightarrow> int" where
  "heap_own h = blocks (h_data h)"

definition heap_room :: "'a heap \<Rightarrow> nat \<Rightarrow> bool" where
  "heap_room h n \<longleftrightarrow> h_size h + n \<le> h_capacity h
     \<or> (2 * (h_size h + n) + 8) * h_elem_size h \<le> PTRDIFF_MAX"

lemma heap_conf_eq [simp]:
  "heap_conf h' = heap_conf h \<longleftrightarrow> h_elem_size h' = h_elem_size h \<and> h_elem_compare h' = h_elem_compare h
     \<and> h_elem_destroy h' = h_elem_destroy h \<and> h_elem_copy h' = h_elem_copy h"
  by (auto simp: heap_conf_def)

lemma heap_relD:
  assumes "heap_rel h xs"
  shows "holds (h_data h) xs" "h_size h = length xs" "length (slots (h_data h)) = h_capacity h"
    "h_data h = NULL \<longleftrightarrow> h_capacity h = 0" "0 < h_elem_size h"
    "h_capacity h * h_elem_size h \<le> PTRDIFF_MAX" "length xs \<le> h_capacity h"
    "h_capacity h \<le> PTRDIFF_MAX" "8 * h_elem_size h \<le> PTRDIFF_MAX"
    "cmp_ok (h_elem_compare h)" "heap_ord (h_elem_compare h) xs"
  using assms mult_le_PTRDIFF [of "h_capacity h" "h_elem_size h"]
  by (auto simp: heap_rel_def holds_def)

lemma heap_ord_Nil [simp]: "heap_ord cmp []"
  by (simp add: heap_ord_def)

section \<open>Operations\<close>

lemma heap_init_ok:
  assumes "0 < e" and "8 * e \<le> PTRDIFF_MAX" and "cmp_ok cmp"
  shows "\<exists>h. heap_init (Ptr u) e (Ptr cmp) d c = (0, Ptr h) \<and> heap_rel h []
    \<and> heap_conf h = (e, cmp, d, c) \<and> heap_own h = 0"
  using assms by (auto simp: heap_init_def heap_rel_def heap_own_def heap_conf_def)

lemma heap_clear_ok:
  assumes h: "heap_rel h xs"
  shows "\<exists>w'. heap_clear (Ptr h) w = Some (Ptr (h\<lparr>h_size := 0\<rparr>), w') \<and> heap_rel (h\<lparr>h_size := 0\<rparr>) []
    \<and> live w' = live w \<and> no_fail w' = no_fail w
    \<and> destroyed w' = destroyed w @ log_if (h_elem_destroy h) xs"
proof -
  note D = heap_relD [OF h]
  have "heap_rel (h\<lparr>h_size := 0\<rparr>) []" using D by (simp add: heap_rel_def)
  moreover obtain w1 where "destroy_slots True (h_data h) [0..<h_size h] w = Some w1" "live w1 = live w"
    "no_fail w1 = no_fail w" "destroyed w1 = destroyed w @ xs"
    using destroy_slots_ok [OF holds_get_map [OF D(1)], of True w] D(2) by auto
  ultimately show ?thesis by (cases "h_elem_destroy h") (auto simp: heap_clear_def)
qed

lemma heap_destroy_ok:
  assumes h: "heap_rel h xs"
  shows "\<exists>h' w'. heap_destroy (Ptr h) w = Some (Ptr h', w') \<and> heap_conf h' = heap_conf h
    \<and> heap_rel h' [] \<and> heap_own h' = 0 \<and> live w' = live w - heap_own h \<and> no_fail w' = no_fail w
    \<and> destroyed w' = destroyed w @ log_if (h_elem_destroy h) xs"
proof -
  obtain w1 where c: "heap_clear (Ptr h) w = Some (Ptr (h\<lparr>h_size := 0\<rparr>), w1)"
    "live w1 = live w" "no_fail w1 = no_fail w"
    "destroyed w1 = destroyed w @ log_if (h_elem_destroy h) xs"
    using heap_clear_ok [OF h, of w] by blast
  let ?h = "h\<lparr>h_size := 0, h_data := NULL, h_capacity := 0\<rparr>"
  have "heap_destroy (Ptr h) w = Some (Ptr ?h, free_ptr (h_data h) w1)"
    using c(1) by (simp add: heap_destroy_def)
  moreover have "heap_rel ?h []" using heap_relD [OF h] by (simp add: heap_rel_def)
  ultimately show ?thesis using c by (auto simp: heap_own_def)
qed

lemma heap_reserve_ok:
  assumes h: "heap_rel h xs" and n: "n * h_elem_size h \<le> SIZE_MAX"
  shows "\<exists>rc h' w'. heap_reserve (Ptr h) n w = (rc, Ptr h', w') \<and> heap_conf h' = heap_conf h
    \<and> heap_rel h' xs \<and> destroyed w' = destroyed w \<and> live w' - heap_own h' = live w - heap_own h
    \<and> (no_fail w \<longrightarrow> no_fail w' \<and> (n * h_elem_size h \<le> PTRDIFF_MAX \<longrightarrow> rc = 0))
    \<and> (rc = 0 \<and> h_capacity h' = max n (h_capacity h) \<or> rc = - 1 \<and> h' = h)"
proof (cases "n \<le> h_capacity h")
  case True
  with h show ?thesis by (auto simp: heap_reserve_def)
next
  case False
  note D = heap_relD [OF h]
  obtain ok w1 where m: "realloc (h_data h \<noteq> NULL) (n * h_elem_size h) w = (ok, w1)" by fastforce
  note E = realloc_effect [OF m]
  show ?thesis
  proof (cases ok)
    case True
    let ?h = "h\<lparr>h_data := buf_resize n (h_data h), h_capacity := n\<rparr>"
    have "heap_reserve (Ptr h) n w = (0, Ptr ?h, w1)"
      using False n m True D(5) by (simp add: heap_reserve_def)
    moreover have "heap_rel ?h xs"
      using D E(4) True False by (auto simp: heap_rel_def holds_resize)
    ultimately show ?thesis
      using E True False by (cases "h_data h") (auto simp: heap_own_def)
  next
    case False': False
    then have "heap_reserve (Ptr h) n w = (- 1, Ptr h, w1)"
      using False n m by (simp add: heap_reserve_def)
    then show ?thesis using h E False' by auto
  qed
qed

lemma heap_double:
  assumes "heap_rel h xs"
  shows "sz_mul (h_capacity h) 2 = 2 * h_capacity h" "2 * h_capacity h * h_elem_size h \<le> SIZE_MAX"
proof -
  note D = heap_relD [OF assms]
  show "sz_mul (h_capacity h) 2 = 2 * h_capacity h"
    using D(8) SIZE_MAX_PTRDIFF_MAX by (simp add: mult.commute)
  have "2 * (h_capacity h * h_elem_size h) \<le> SIZE_MAX"
    using D(6) SIZE_MAX_PTRDIFF_MAX by linarith
  then show "2 * h_capacity h * h_elem_size h \<le> SIZE_MAX" by (simp only: mult.assoc)
qed

lemma heap_grow_ok:
  assumes h: "heap_rel h xs"
  shows "\<exists>rc h' w'. heap_grow h w = (rc, Ptr h', w') \<and> heap_conf h' = heap_conf h
    \<and> heap_rel h' xs \<and> destroyed w' = destroyed w \<and> live w' - heap_own h' = live w - heap_own h
    \<and> (no_fail w \<longrightarrow> no_fail w' \<and> (\<forall>n. heap_room h (Suc n) \<longrightarrow> rc = 0))
    \<and> (rc = 0 \<and> length xs < h_capacity h' \<and> h_capacity h \<le> h_capacity h' \<or> rc = - 1 \<and> h' = h)"
proof (cases "h_size h = h_capacity h")
  case False
  then show ?thesis
    using h heap_relD(2,7) [OF h] by (auto simp: heap_grow_def)
next
  case True
  note D = heap_relD [OF h]
  define n where "n = (if h_capacity h = 0 then HEAP_INIT_CAPACITY else sz_mul (h_capacity h) 2)"
  have big: "h_capacity h < n" "n * h_elem_size h \<le> SIZE_MAX"
    using heap_double [OF h] D(9) SIZE_MAX_PTRDIFF_MAX
    by (auto simp: n_def HEAP_INIT_CAPACITY_def)
  have room: "n * h_elem_size h \<le> PTRDIFF_MAX" if "heap_room h (Suc k)" for k
  proof -
    have "n \<le> 2 * (h_size h + Suc k) + 8"
      using heap_double(1) [OF h] True by (auto simp: n_def HEAP_INIT_CAPACITY_def)
    with that True show ?thesis
      unfolding heap_room_def by (auto intro: le_trans [OF mult_le_mono1])
  qed
  have "heap_grow h w = heap_reserve (Ptr h) n w"
    using True by (simp add: heap_grow_def n_def)
  with heap_reserve_ok [OF h big(2), of w] big(1) True D(2) room show ?thesis
    by (fastforce simp: max_def)
qed

text \<open>The staged element sinks into the hole that the sift-up loop leaves.\<close>

lemma heap_sift_in:
  assumes h: "heap_rel h xs" and cap: "length xs < h_capacity h"
  shows "\<exists>i b b1 ys. heap_sift_up (h_elem_compare h) x (length xs) (h_data h) = Some (i, b)
    \<and> buf_put b i (Some x) = Some b1 \<and> mset ys = add_mset x (mset xs) \<and> b1 \<noteq> NULL
    \<and> heap_rel (h\<lparr>h_data := b1, h_size := Suc (length xs)\<rparr>) ys"
proof -
  note D = heap_relD [OF h]
  have inv: "up_inv (h_elem_compare h) (xs @ [x]) (length xs)"
    using D(11) by (auto simp: up_inv_def heap_ord_def nth_append)
  have get: "buf_get (h_data h) j = Some ((xs @ [x]) ! j)"
    if "j < length (xs @ [x])" "j \<noteq> length xs" for j
    using that holds_get [OF D(1), of j] by (simp add: nth_append)
  obtain i b ys where s: "heap_sift_up (h_elem_compare h) x (length xs) (h_data h) = Some (i, b)"
    "heap_ord (h_elem_compare h) ys" "mset ys = mset (xs @ [x])" "i < length ys" "ys ! i = x"
    "\<forall>j < length ys. j \<noteq> i \<longrightarrow> buf_get b j = Some (ys ! j)" "length (slots b) = length (slots (h_data h))"
    using heap_sift_up_ok [OF D(10) inv _ get, of x] cap D(3) by auto
  have len: "length ys = Suc (length xs)" using s(3) by (metis length_append_singleton size_mset)
  then have "i < length (slots b)" using s(4,7) cap D(3) by simp
  then obtain b1 where b1: "buf_put b i (Some x) = Some b1" "length (slots b1) = length (slots b)" "b1 \<noteq> NULL"
    using buf_put_ok by blast
  have "buf_get b1 j = Some (ys ! j)" if "j < length ys" for j
    using that s(5,6) by (simp add: buf_get_put [OF b1(1)])
  moreover have "length ys \<le> length (slots b1)" using len cap D(3) s(7) b1(2) by simp
  ultimately have "holds b1 ys"
    by (auto simp: holds_iff buf_get_def)
  then have "heap_rel (h\<lparr>h_data := b1, h_size := Suc (length xs)\<rparr>) ys"
    using D s(2,7) b1(2,3) len cap by (simp add: heap_rel_def)
  with s b1 show ?thesis by auto
qed

lemma heap_push_ok:
  assumes h: "heap_rel h xs"
  shows "\<exists>rc h' w'. heap_push (Ptr h) (Ptr x) w = Some (rc, Ptr h', w') \<and> heap_conf h' = heap_conf h
    \<and> destroyed w' = destroyed w \<and> live w' - heap_own h' = live w - heap_own h
    \<and> (no_fail w \<longrightarrow> no_fail w' \<and> (\<forall>n. heap_room h (Suc n) \<longrightarrow> rc = 0 \<and> heap_room h' n))
    \<and> (rc = 0 \<and> heap_bag h' (add_mset (copied (h_elem_copy h) x) (mset xs))
       \<or> rc = - 1 \<and> heap_rel h' xs)"
proof -
  obtain rc h1 w1 where g: "heap_grow h w = (rc, Ptr h1, w1)" "heap_conf h1 = heap_conf h"
    and h1: "heap_rel h1 xs" and w1: "destroyed w1 = destroyed w" "live w1 - heap_own h1 = live w - heap_own h"
    and nf: "no_fail w \<longrightarrow> no_fail w1 \<and> (\<forall>n. heap_room h (Suc n) \<longrightarrow> rc = 0)"
    and res: "rc = 0 \<and> length xs < h_capacity h1 \<and> h_capacity h \<le> h_capacity h1 \<or> rc = - 1 \<and> h1 = h"
    using heap_grow_ok [OF h, of w] by (elim exE conjE) (rule that)
  note D = heap_relD [OF h1]
  show ?thesis
  proof (cases "rc = 0")
    case False
    then show ?thesis using g h1 w1 nf res by (auto simp: heap_push_def)
  next
    case True
    with res have cap: "length xs < h_capacity h1" "h_capacity h \<le> h_capacity h1" by auto
    obtain ok w2 where m: "malloc (h_elem_size h1) w1 = (ok, w2)" by fastforce
    obtain c w3 where c: "copy_element (h_elem_copy h1) x w2 = (c, w3)" by fastforce
    note M = malloc_effect [OF m] and E = copy_element_effect [OF c]
    have small: "h_elem_size h1 \<le> PTRDIFF_MAX" using D(9) by simp
    have def: "heap_push (Ptr h) (Ptr x) w = (if \<not> ok then Some (- 1, Ptr h1, w2)
        else case c of None \<Rightarrow> Some (- 1, Ptr h1, free_block w3)
          | Some y \<Rightarrow> do { (i, b) \<leftarrow> heap_sift_up (h_elem_compare h1) y (length xs) (h_data h1);
              b1 \<leftarrow> buf_put b i (Some y);
              Some (0, Ptr (h1\<lparr>h_data := b1, h_size := sz_add (length xs) 1\<rparr>), free_block w3) })"
      using True g m c D(2) by (cases c) (simp_all add: heap_push_def heap_copy_element_def)
    show ?thesis
    proof (cases "ok \<and> c \<noteq> None")
      case False
      let ?w = "if ok then free_block w3 else w2"
      have "heap_push (Ptr h) (Ptr x) w = Some (- 1, Ptr h1, ?w)" using def False by auto
      moreover have "\<not> no_fail w" using False M(5,6) E(5) small nf by blast
      ultimately show ?thesis
        using g(2) h1 w1 M(1,3) E(1,2) by (intro exI [of _ "- 1"] exI [of _ h1] exI [of _ ?w]) auto
    next
      case ok: True
      then have y: "c = Some (copied (h_elem_copy h) x)" using E(3) g(2) by auto
      let ?y = "copied (h_elem_copy h) x"
      obtain i b b1 ys where s: "heap_sift_up (h_elem_compare h1) ?y (length xs) (h_data h1) = Some (i, b)"
        "buf_put b i (Some ?y) = Some b1" "mset ys = add_mset ?y (mset xs)" "b1 \<noteq> NULL"
        "heap_rel (h1\<lparr>h_data := b1, h_size := Suc (length xs)\<rparr>) ys"
        using heap_sift_in [OF h1 cap(1), of ?y] by blast
      have sz: "sz_add (length xs) 1 = Suc (length xs)"
        using D(7,8) SIZE_MAX_PTRDIFF_MAX cap by simp
      let ?h = "h1\<lparr>h_data := b1, h_size := Suc (length xs)\<rparr>"
      have "heap_push (Ptr h) (Ptr x) w = Some (0, Ptr ?h, free_block w3)"
        using def ok y s sz by simp
      moreover have "heap_bag ?h (add_mset ?y (mset xs))" using s(3,5) by (auto simp: heap_bag_def)
      moreover have "heap_room ?h n" if "heap_room h (Suc n)" for n
        using that cap g(2) D(2) heap_relD(2) [OF h] by (auto simp: heap_room_def)
      moreover have "h_data h1 \<noteq> NULL" using D(4) cap by simp
      ultimately show ?thesis
        using g(2) w1 nf M(1,3,5) E(1,2,4) s(4) ok
        by (intro exI [of _ 0] exI [of _ ?h] exI [of _ "free_block w3"]) (auto simp: heap_own_def)
    qed
  qed
qed

lemma heap_pop_ok:
  assumes h: "heap_rel h xs"
  shows "\<exists>rc h' w'. heap_pop (Ptr h) w = Some (rc, Ptr h', w') \<and> heap_conf h' = heap_conf h
    \<and> live w' - heap_own h' = live w - heap_own h \<and> no_fail w' = no_fail w
    \<and> (xs = [] \<and> rc = - 1 \<and> h' = h \<and> w' = w
       \<or> xs \<noteq> [] \<and> rc = 0 \<and> heap_bag h' (mset (tl xs))
         \<and> destroyed w' = destroyed w @ log_if (h_elem_destroy h) [hd xs])"
proof (cases xs)
  case Nil
  then show ?thesis using h heap_relD(2) [OF h] by (auto simp: heap_pop_def heap_empty_def)
next
  case (Cons x xs')
  note D = heap_relD [OF h]
  let ?n = "length xs'" and ?w = "heap_destroy_element h x w"
  have get0: "buf_get (h_data h) 0 = Some x" using holds_get [OF D(1), of 0] Cons by simp
  have sz: "sz_sub (length xs) 1 = ?n"
    using Cons D(7,8) SIZE_MAX_PTRDIFF_MAX by simp
  have pop: "heap_pop (Ptr h) w = (if ?n = 0 then Some (0, Ptr (h\<lparr>h_size := ?n\<rparr>), ?w)
      else do { y \<leftarrow> buf_get (h_data h) ?n; b \<leftarrow> buf_put (h_data h) 0 (Some y);
        b1 \<leftarrow> heap_sift_down (h_elem_compare h) ?n 0 b; Some (0, Ptr (h\<lparr>h_data := b1, h_size := ?n\<rparr>), ?w) })"
    using get0 sz D(2) Cons by (simp add: heap_pop_def heap_empty_def Let_def SIZE_MAX_def)
  have eff: "destroyed ?w = destroyed w @ log_if (h_elem_destroy h) [x]" "live ?w = live w"
    "no_fail ?w = no_fail w"
    by (simp_all add: heap_destroy_element_def log_if_def)
  show ?thesis
  proof (cases "?n = 0")
    case True
    then have "heap_rel (h\<lparr>h_size := ?n\<rparr>) []" using D by (simp add: heap_rel_def)
    then have "heap_bag (h\<lparr>h_size := ?n\<rparr>) (mset xs')" using True by (auto simp: heap_bag_def)
    then show ?thesis
      using pop eff True Cons by (intro exI [of _ 0] exI [of _ "h\<lparr>h_size := ?n\<rparr>"] exI [of _ ?w])
        (auto simp: heap_own_def)
  next
    case False
    let ?ys = "last xs' # butlast xs'"
    have n: "0 < ?n" and nn: "h_data h \<noteq> NULL" using False Cons D(4,7) by auto
    have last: "buf_get (h_data h) ?n = Some (last xs')"
      using holds_get [OF D(1), of ?n] False Cons by (auto simp: nth_Cons' last_conv_nth)
    obtain b where b: "buf_put (h_data h) 0 (Some (last xs')) = Some b" "holds b (xs[0 := last xs'])"
      "length (slots b) = length (slots (h_data h))" "b \<noteq> NULL"
      using holds_put_old [OF D(1), of 0] Cons by auto
    have b': "holds b ?ys" using b(2) Cons False
      by (auto simp: holds_iff nth_Cons' nth_butlast)
    have inv: "down_inv (h_elem_compare h) ?ys 0"
      unfolding down_inv_def
    proof (intro conjI allI impI)
      fix j assume j: "j < length ?ys" "0 < j" "par j \<noteq> 0"
      have eq: "?ys ! k = xs ! k" if "0 < k" "k \<le> j" for k
        using that j(1) Cons by (simp add: nth_Cons' nth_butlast)
      have "cmp_ok (h_elem_compare h)" "j < length xs" using D(10) j(1) Cons by simp_all
      then show "h_elem_compare h (?ys ! j) (?ys ! par j) \<le> 0"
        using D(11) j eq [of j] eq [of "par j"] par_less [of j] by (simp add: heap_ord_def)
    qed simp
    have len: "length ?ys = ?n" using False by simp
    obtain b1 zs where z: "heap_sift_down (h_elem_compare h) ?n 0 b = Some b1" "holds b1 zs"
      "heap_ord (h_elem_compare h) zs" "mset zs = mset ?ys" "length (slots b1) = length (slots b)" "b1 \<noteq> NULL"
      using heap_sift_down_ok [OF D(10) inv b' b(4)] unfolding len by blast
    have mz: "mset zs = mset xs'" using z(4) False by (cases xs' rule: rev_cases) auto
    then have lz: "length zs = ?n" by (metis size_mset)
    let ?h = "h\<lparr>h_data := b1, h_size := ?n\<rparr>"
    have "heap_rel ?h zs" using D z b(3) lz nn by (simp add: heap_rel_def)
    then have "heap_bag ?h (mset xs')" using mz by (auto simp: heap_bag_def)
    moreover have "heap_pop (Ptr h) w = Some (0, Ptr ?h, ?w)"
      using pop False last b(1) z(1) by simp
    ultimately show ?thesis
      using eff Cons nn z(6) by (intro exI [of _ 0] exI [of _ ?h] exI [of _ ?w]) (auto simp: heap_own_def)
  qed
qed

section \<open>The heap as a bag\<close>

lemma heap_bag_empty: "heap_bag h {#} \<longleftrightarrow> heap_rel h []"
  by (auto simp: heap_bag_def)

interpretation hp: push_container heap_push heap_clear heap_bag "{#}" "\<lambda>m x. add_mset x m" id
  heap_conf h_elem_copy h_elem_destroy heap_own heap_room
proof (unfold_locales, goal_cases)
  case (1 h m x w)
  then obtain xs where h: "heap_rel h xs" and m: "mset xs = m" by (auto simp: heap_bag_def)
  obtain rc h' w' where p: "heap_push (Ptr h) (Ptr x) w = Some (rc, Ptr h', w')" "heap_conf h' = heap_conf h"
    "destroyed w' = destroyed w" "live w' - heap_own h' = live w - heap_own h"
    "no_fail w \<longrightarrow> no_fail w' \<and> (\<forall>n. heap_room h (Suc n) \<longrightarrow> rc = 0 \<and> heap_room h' n)"
    "rc = 0 \<and> heap_bag h' (add_mset (copied (h_elem_copy h) x) (mset xs)) \<or> rc = - 1 \<and> heap_rel h' xs"
    using heap_push_ok [OF h, of x w] by (elim exE conjE) (rule that)
  have "rc = 0 \<and> heap_bag h' (add_mset (copied (h_elem_copy h) x) m) \<or> rc = - 1 \<and> heap_bag h' m"
    using p(6) m by (auto simp: heap_bag_def)
  then show ?case by (intro exI conjI) (rule p | assumption)+
next
  case (2 h m w)
  then obtain xs where h: "heap_rel h xs" and m: "mset xs = m" by (auto simp: heap_bag_def)
  from heap_clear_ok [OF h, of w] show ?case
    using m by (fastforce simp: heap_own_def heap_bag_empty)
qed auto

lemma foldl_add_mset: "foldl (\<lambda>m x. add_mset x m) m xs = m + mset xs"
  by (induction xs arbitrary: m) auto

lemma heap_copy_ok:
  assumes d: "heap_rel d ys" and s: "heap_rel s xs"
  shows "\<exists>rc d' w' zs n. heap_copy False (Ptr d) (Ptr s) w = Some (rc, Ptr d', w')
    \<and> heap_conf d' = heap_conf s \<and> live w' - heap_own d' = live w - heap_own d
    \<and> destroyed w' = destroyed w @ log_if (h_elem_destroy d) ys @ log_if (h_elem_destroy s) zs
    \<and> (no_fail w \<longrightarrow> rc = 0)
    \<and> (rc = 0 \<and> heap_bag d' (image_mset (copied (h_elem_copy s)) (mset xs)) \<and> zs = []
       \<or> rc = - 1 \<and> heap_bag d' {#} \<and> mset zs = mset (map (copied (h_elem_copy s)) (take n xs)))"
proof -
  note S = heap_relD [OF s]
  obtain d1 w1 where 1: "heap_destroy (Ptr d) w = Some (Ptr d1, w1)" "live w1 = live w - heap_own d"
    "no_fail w1 = no_fail w" "destroyed w1 = destroyed w @ log_if (h_elem_destroy d) ys"
    using heap_destroy_ok [OF d, of w] by blast
  obtain d2 where 2: "heap_init (Ptr d1) (h_elem_size s) (Ptr (h_elem_compare s)) (h_elem_destroy s)
      (h_elem_copy s) = (0, Ptr d2)"
    "heap_rel d2 []" "heap_conf d2 = heap_conf s" "heap_own d2 = 0"
    using heap_init_ok [OF S(5,9,10), of d1 "h_elem_destroy s" "h_elem_copy s"] by (auto simp: heap_conf_def)
  have fits: "length xs * h_elem_size s \<le> PTRDIFF_MAX"
    using S(6,7) by (meson le_trans mult_le_mono1)
  then have "length xs * h_elem_size d2 \<le> SIZE_MAX"
    using 2 SIZE_MAX_PTRDIFF_MAX by simp
  from heap_reserve_ok [OF 2(2) this, of w1]
  obtain rc d3 w2 where 3: "heap_reserve (Ptr d2) (length xs) w1 = (rc, Ptr d3, w2)"
    "heap_conf d3 = heap_conf d2" "heap_rel d3 []" "destroyed w2 = destroyed w1"
    "live w2 - heap_own d3 = live w1 - heap_own d2" "no_fail w1 \<longrightarrow> no_fail w2 \<and>
      (length xs * h_elem_size d2 \<le> PTRDIFF_MAX \<longrightarrow> rc = 0)"
    "rc = 0 \<and> h_capacity d3 = max (length xs) (h_capacity d2) \<or> rc = - 1 \<and> d3 = d2"
    by (elim exE conjE) (rule that)
  have bag3: "heap_bag d3 {#}" using 3(3) by (simp add: heap_bag_empty)
  show ?thesis
  proof (cases "rc = 0")
    case False
    then have "heap_copy False (Ptr d) (Ptr s) w = Some (- 1, Ptr d3, w2)"
      using 1 2 3 S(2) by (simp add: heap_copy_def)
    then show ?thesis
      using 1 2 3 False fits bag3 by (intro exI [of _ "- 1"] exI [of _ d3] exI [of _ w2]
        exI [of _ "[]"] exI [of _ 0]) auto
  next
    case True
    have room: "heap_room d3 (length xs)"
      using True 3 heap_relD(2) [OF 3(3)] by (auto simp: heap_room_def)
    have eq: "heap_copy False (Ptr d) (Ptr s) w
        = copy_loop heap_push heap_clear (buf_get (h_data s)) [0..<h_size s] (Ptr d3) w2"
      using 1 2 3 S(2) True by (simp add: heap_copy_def)
    have "map (buf_get (h_data s)) [0..<h_size s] = map Some xs"
      using holds_get_map [OF S(1)] S(2) by simp
    from hp.copy_loop_ok [OF bag3 this, of w2]
    obtain rc' d' w' zs where 4:
      "copy_loop heap_push heap_clear (buf_get (h_data s)) [0..<h_size s] (Ptr d3) w2
         = Some (rc', Ptr d', w')"
      "heap_conf d' = heap_conf d3"
      "live w' - heap_own d' = live w2 - heap_own d3"
      "destroyed w' = destroyed w2 @ log_if (h_elem_destroy d3) zs"
      "no_fail w2 \<longrightarrow> heap_room d3 (length xs) \<longrightarrow> rc' = 0"
      "rc' = 0 \<and> heap_bag d' (foldl (\<lambda>m x. add_mset x m) {#} (map (copied (h_elem_copy d3)) xs)) \<and> zs = []
       \<or> rc' = - 1 \<and> heap_bag d' {#}
         \<and> (\<exists>n \<le> length xs. mset zs = id {#} + mset (map (copied (h_elem_copy d3)) (take n xs)))"
      by (elim exE conjE) (rule that)
    from 2(3) 3(2) have cf: "h_elem_copy d3 = h_elem_copy s" "h_elem_destroy d3 = h_elem_destroy s"
      by auto
    have nf: "no_fail w \<longrightarrow> rc' = 0" using 1(3) 3(6) 4(5) room by auto
    have dest: "destroyed w' = destroyed w @ log_if (h_elem_destroy d) ys @ log_if (h_elem_destroy s) zs"
      using 1 3 4 cf by simp
    from 4(6) obtain n where res: "rc' = 0 \<and> heap_bag d' (image_mset (copied (h_elem_copy s)) (mset xs)) \<and> zs = []
       \<or> rc' = - 1 \<and> heap_bag d' {#} \<and> mset zs = mset (map (copied (h_elem_copy s)) (take n xs))"
      unfolding cf foldl_add_mset by auto
    have conf: "heap_conf d' = heap_conf s" using 4(2) 3(2) 2(3) by simp
    have lv: "live w' - heap_own d' = live w - heap_own d" using 4(3) 3(5) 2(4) 1(2) by simp
    show ?thesis
      by (intro exI conjI) (rule eq [unfolded 4(1)], rule conf, rule lv, rule dest, rule nf, rule res)
  qed
qed

lemma heap_new_ok:
  assumes "heap_new e (Ptr cmp) d c w = (p, w')" and "8 * e \<le> PTRDIFF_MAX" and "cmp_ok cmp"
  shows "destroyed w' = destroyed w \<and> (no_fail w \<longrightarrow> no_fail w' \<and> (0 < e \<longrightarrow> p \<noteq> NULL))
    \<and> (p = NULL \<and> live w' = live w
       \<or> (\<exists>h. p = Ptr h \<and> 0 < e \<and> heap_rel h [] \<and> heap_own h = 0 \<and> live w' = live w + 1
           \<and> heap_conf h = (e, cmp, d, c)))"
proof -
  obtain ok w1 where m: "malloc 56 w = (ok, w1)" by fastforce
  note M = malloc_effect [OF m]
  have "56 \<le> PTRDIFF_MAX" by (simp add: PTRDIFF_MAX_def)
  with assms m M(1,3,5,6) show ?thesis
    by (cases ok; cases "e = 0")
      (auto simp: heap_new_def heap_init_def raw_heap_def heap_rel_def heap_own_def heap_conf_def)
qed

lemma heap_free_ok:
  assumes h: "heap_rel h xs"
  shows "\<exists>w'. heap_free (Ptr h) w = Some w' \<and> live w' = live w - heap_own h - 1
    \<and> no_fail w' = no_fail w \<and> destroyed w' = destroyed w @ log_if (h_elem_destroy h) xs"
  using heap_destroy_ok [OF h, of w] by (auto simp: heap_free_def)

lemma heap_top_ok:
  assumes h: "heap_rel h xs"
  shows "heap_deref h (heap_top (Ptr h)) = (if xs = [] then None else Some (hd xs))"
    and "heap_top_const p = heap_top p"
    and "y \<in> set xs \<Longrightarrow> h_elem_compare h y (hd xs) \<le> 0"
proof -
  note D = heap_relD [OF h]
  show "heap_deref h (heap_top (Ptr h)) = (if xs = [] then None else Some (hd xs))"
    using holds_get [OF D(1), of 0] D(2)
    by (simp add: heap_deref_def heap_top_def heap_empty_def hd_conv_nth)
  show "heap_top_const p = heap_top p" by (simp add: heap_top_def heap_top_const_def)
  assume "y \<in> set xs"
  then obtain i where i: "i < length xs" "y = xs ! i" by (auto simp: in_set_conv_nth)
  with heap_ord_top [OF D(10,11) i(1)] show "h_elem_compare h y (hd xs) \<le> 0"
    by (cases xs) auto
qed

section \<open>Histories\<close>

datatype 'a heap_op = HPush 'a | HPop | HClear | HReserve size_t

definition heap_exec ::
    "'a heap_op \<Rightarrow> 'a heap \<Rightarrow> ('a, 'b) world_scheme \<Rightarrow> (int \<times> 'a heap \<times> ('a, 'b) world_scheme) option" where
  "heap_exec op h w = (case op of
       HPush x \<Rightarrow> do { (rc, p, w1) \<leftarrow> heap_push (Ptr h) (Ptr x) w; Some (rc, pt p, w1) }
     | HPop \<Rightarrow> do { (rc, p, w1) \<leftarrow> heap_pop (Ptr h) w; Some (rc, pt p, w1) }
     | HClear \<Rightarrow> do { (p, w1) \<leftarrow> heap_clear (Ptr h) w; Some (0, pt p, w1) }
     | HReserve n \<Rightarrow> (let (rc, p, w1) = heap_reserve (Ptr h) n w in Some (rc, pt p, w1)))"

text \<open>The priority queue: a bag from which \<open>HPop\<close> takes a greatest element.\<close>

fun heap_spec ::
    "'a heap_cfg \<Rightarrow> 'a heap_op \<Rightarrow> 'a multiset \<Rightarrow> int \<Rightarrow> 'a multiset \<Rightarrow> 'a list \<Rightarrow> bool" where
  "heap_spec (e, cmp, d, c) (HPush x) m rc m' ds \<longleftrightarrow> rc = 0 \<and> m' = add_mset (copied c x) m \<and> ds = []"
| "heap_spec (e, cmp, d, c) HPop m rc m' ds \<longleftrightarrow>
     (if m = {#} then rc = - 1 \<and> m' = {#} \<and> ds = []
      else rc = 0 \<and> length ds = 1 \<and> m = add_mset (hd ds) m' \<and> (\<forall>y \<in># m. cmp y (hd ds) \<le> 0))"
| "heap_spec (e, cmp, d, c) HClear m rc m' ds \<longleftrightarrow> rc = 0 \<and> m' = {#} \<and> mset ds = m"
| "heap_spec (e, cmp, d, c) (HReserve n) m rc m' ds \<longleftrightarrow> rc = 0 \<and> m' = m \<and> ds = []"

definition heap_legal :: "'a heap_cfg \<Rightarrow> 'a heap_op \<Rightarrow> bool" where
  "heap_legal k op \<longleftrightarrow> (case op of HReserve n \<Rightarrow> n * fst k \<le> SIZE_MAX | _ \<Rightarrow> True)"

fun heap_stores :: "'a heap_cfg \<Rightarrow> 'a heap_op \<Rightarrow> 'a multiset" where
  "heap_stores (e, cmp, d, c) (HPush x) = {#copied c x#}"
| "heap_stores _ _ = {#}"

definition heap_logs :: "'a heap_cfg \<Rightarrow> bool" where
  "heap_logs k = fst (snd (snd k))"

lemma heap_exec_law:
  assumes "heap_bag h m" and legal: "heap_legal (heap_conf h) op"
  shows "\<exists>rc h' w'. heap_exec op h w = Some (rc, h', w') \<and> heap_conf h' = heap_conf h
    \<and> live w' - heap_own h' = live w - heap_own h
    \<and> ((\<exists>m' ds. heap_spec (heap_conf h) op m rc m' ds \<and> heap_bag h' m'
          \<and> destroyed w' = destroyed w @ log_if (heap_logs (heap_conf h)) ds)
       \<or> rc = - 1 \<and> heap_bag h' m \<and> destroyed w' = destroyed w)"
proof -
  obtain xs where h: "heap_rel h xs" and m: "m = mset xs" using assms(1) by (auto simp: heap_bag_def)
  have bag: "heap_rel h' xs \<Longrightarrow> heap_bag h' m" for h' using m by (auto simp: heap_bag_def)
  have logs: "heap_logs (heap_conf h) = h_elem_destroy h" by (simp add: heap_logs_def heap_conf_def)
  have cf: "heap_conf h = (h_elem_size h, h_elem_compare h, h_elem_destroy h, h_elem_copy h)"
    by (simp add: heap_conf_def)
  show ?thesis
  proof (cases op)
    case (HPush x)
    from heap_push_ok [OF h, of x w] show ?thesis
      unfolding HPush heap_exec_def logs by (elim exE conjE disjE) (simp_all add: cf m bag [unfolded m])
  next
    case HPop
    show ?thesis
    proof (cases xs)
      case Nil
      from heap_pop_ok [OF h, of w] assms(1) Nil m show ?thesis
        unfolding HPop heap_exec_def logs by (elim exE conjE disjE) (simp_all add: cf)
    next
      case (Cons x xs')
      have max: "\<forall>y \<in># m. h_elem_compare h y x \<le> 0" using heap_top_ok(3) [OF h] Cons m by simp
      from heap_pop_ok [OF h, of w] Cons obtain h' w' where p: "heap_pop (Ptr h) w = Some (0, Ptr h', w')"
        "heap_conf h' = heap_conf h" "live w' - heap_own h' = live w - heap_own h" "heap_bag h' (mset xs')"
        "destroyed w' = destroyed w @ log_if (h_elem_destroy h) [x]"
        by auto
      have "heap_spec (heap_conf h) HPop m 0 (mset xs') [x]" using max m Cons by (simp add: cf)
      with p show ?thesis
        unfolding HPop heap_exec_def logs by (intro exI [of _ 0] exI [of _ h'] exI [of _ w']) auto
    qed
  next
    case HClear
    from heap_clear_ok [OF h, of w] show ?thesis
      unfolding HClear heap_exec_def logs
      by (elim exE conjE) (auto simp: heap_conf_def heap_own_def heap_bag_empty m intro!: exI [of _ xs])
  next
    case (HReserve n)
    have "n * h_elem_size h \<le> SIZE_MAX"
      using legal HReserve by (simp add: heap_legal_def heap_conf_def)
    from heap_reserve_ok [OF h this, of w] show ?thesis
      unfolding HReserve heap_exec_def logs by (elim exE conjE disjE) (simp_all add: cf bag)
  qed
qed

lemma heap_spec_conserves:
  assumes "heap_spec k op m rc m' ds"
  shows "id m + (if rc = 0 then heap_stores k op else {#}) = id m' + mset ds"
proof (cases k)
  case (fields e cmp d c)
  show ?thesis
  proof (cases op)
    case HPop
    with assms fields show ?thesis by (cases ds) (auto split: if_splits)
  qed (use assms fields in auto)
qed

interpretation hpm: spec_machine heap_exec heap_spec heap_legal "\<lambda>h w. heap_bag h" heap_conf heap_logs
  "\<lambda>h w. heap_own h" id heap_stores
proof (unfold_locales, goal_cases)
  case (1 h w m op)
  then show ?case by (rule heap_exec_law)
next
  case (2 k op m rc m' ds)
  then show ?case by (rule heap_spec_conserves)
qed

section \<open>Properties\<close>

text \<open>C6: every history of pushes, pops, clears and reserves on a freshly initialised heap runs
  without undefined behaviour under any failures and behaves like a priority queue: a pop releases
  an element that no stored element exceeds, a push adds its element or is refused. After destroying
  the heap, a destroy callback has run exactly once for every element that a successful push stored,
  and no block stays allocated.\<close>

theorem heap_history:
  assumes "0 < e" and "8 * e \<le> PTRDIFF_MAX" and "cmp_ok cmp"
    and "\<forall>op \<in> set ops. heap_legal (e, cmp, d, c) op"
  shows "\<exists>h rcs h' w1 m ds p w2 zs. heap_init (Ptr raw_heap) e (Ptr cmp) d c = (0, Ptr h)
    \<and> run heap_exec ops h w = Some (rcs, h', w1) \<and> heap_bag h' m
    \<and> explains (heap_spec (e, cmp, d, c)) ops rcs {#} m ds
    \<and> destroyed w1 = destroyed w @ log_if d ds
    \<and> heap_destroy (Ptr h') w1 = Some (p, w2) \<and> destroyed w2 = destroyed w @ log_if d (ds @ zs)
    \<and> mset (ds @ zs) = stored (heap_stores (e, cmp, d, c)) ops rcs \<and> live w2 = live w"
proof -
  obtain h where h: "heap_init (Ptr raw_heap) e (Ptr cmp) d c = (0, Ptr h)" "heap_rel h []"
    "heap_conf h = (e, cmp, d, c)" "heap_own h = 0"
    using heap_init_ok [OF assms(1-3), of raw_heap d c] by auto
  have start: "heap_bag h {#}" using h(2) by (simp add: heap_bag_empty)
  have "\<forall>op \<in> set ops. heap_legal (heap_conf h) op" using assms(4) h(3) by simp
  from hpm.run_explained [OF start this, of w]
  obtain rcs h' w1 m ds where r: "run heap_exec ops h w = Some (rcs, h', w1)" "heap_conf h' = heap_conf h"
    "live w1 - heap_own h' = live w - heap_own h" "heap_bag h' m"
    "explains (heap_spec (heap_conf h)) ops rcs {#} m ds"
    "destroyed w1 = destroyed w @ log_if (heap_logs (heap_conf h)) ds"
    by (elim exE conjE) (rule that)
  obtain zs where zs: "heap_rel h' zs" "mset zs = m" using r(4) by (auto simp: heap_bag_def)
  obtain h2 w2 where d: "heap_destroy (Ptr h') w1 = Some (Ptr h2, w2)" "live w2 = live w1 - heap_own h'"
    "destroyed w2 = destroyed w1 @ log_if (h_elem_destroy h') zs"
    using heap_destroy_ok [OF zs(1), of w1] by blast
  have flag: "h_elem_destroy h' = d" "heap_logs (heap_conf h) = d"
    using r(2) h(3) by (simp_all add: heap_conf_def heap_logs_def)
  have "mset (ds @ zs) = stored (heap_stores (e, cmp, d, c)) ops rcs"
    using hpm.explains_conserves [OF r(5)] h(3) zs(2) by (simp add: ac_simps)
  moreover have "live w2 = live w" using d(2) r(3) h(4) by simp
  ultimately show ?thesis
    using h r d(1,3) flag
    by (intro exI [of _ h] exI [of _ rcs] exI [of _ h'] exI [of _ w1] exI [of _ m] exI [of _ ds]
        exI [of _ "Ptr h2"] exI [of _ w2] exI [of _ zs]) simp
qed

theorem heap_history_witness:
  "\<exists>h rcs h' w1 m ds p w2 zs. heap_init (Ptr raw_heap) 4 (Ptr (\<lambda>a b. a - b)) True None = (0, Ptr h)
    \<and> run heap_exec [HPush 7, HPush 5, HPop, HReserve 9, HPush (8 :: int)] h (script [True, True, False] [])
        = Some (rcs, h', w1) \<and> heap_bag h' m
    \<and> explains (heap_spec (4, \<lambda>a b. a - b, True, None)) [HPush 7, HPush 5, HPop, HReserve 9, HPush 8] rcs {#} m ds
    \<and> destroyed w1 = destroyed (script [True, True, False] [] :: int world) @ log_if True ds
    \<and> heap_destroy (Ptr h') w1 = Some (p, w2)
    \<and> destroyed w2 = destroyed (script [True, True, False] [] :: int world) @ log_if True (ds @ zs)
    \<and> mset (ds @ zs) = stored (heap_stores (4, \<lambda>a b. a - b, True, None))
        [HPush 7, HPush 5, HPop, HReserve 9, HPush 8] rcs
    \<and> live w2 = live (script [True, True, False] [] :: int world)"
  by (rule heap_history) (simp_all add: PTRDIFF_MAX_def SIZE_MAX_def heap_legal_def int_cmp_ok)

text \<open>The client that reads \<open>heap_top\<close> and pops, \<open>n\<close> times, and the one that pushes a list.\<close>

fun heap_drain ::
    "nat \<Rightarrow> 'a heap \<Rightarrow> ('a, 'b) world_scheme \<Rightarrow> ('a list \<times> 'a heap \<times> ('a, 'b) world_scheme) option" where
  "heap_drain 0 h w = Some ([], h, w)"
| "heap_drain (Suc n) h w = do {
     x \<leftarrow> heap_deref h (heap_top (Ptr h));
     (rc, p, w1) \<leftarrow> heap_pop (Ptr h) w;
     (xs, h2, w2) \<leftarrow> heap_drain n (pt p) w1;
     Some (x # xs, h2, w2) }"

lemma heap_drain_ok:
  assumes "heap_bag h m" and "size m = n"
  shows "\<exists>xs h' w'. heap_drain n h w = Some (xs, h', w') \<and> mset xs = m \<and> heap_bag h' {#}
    \<and> sorted_wrt (\<lambda>a b. h_elem_compare h b a \<le> 0) xs"
  using assms
proof (induction n arbitrary: h m w)
  case (Suc n)
  then obtain x xs where h: "heap_rel h (x # xs)" and m: "m = add_mset x (mset xs)"
    by (auto simp: heap_bag_def length_Suc_conv)
  obtain h1 w1 where p: "heap_pop (Ptr h) w = Some (0, Ptr h1, w1)" "heap_conf h1 = heap_conf h"
    "heap_bag h1 (mset xs)"
    using heap_pop_ok [OF h, of w] by auto
  have "size (mset xs) = n" using Suc.prems(2) m by simp
  from Suc.IH [OF p(3) this, of w1] obtain ys h2 w2 where d: "heap_drain n h1 w1 = Some (ys, h2, w2)"
    "mset ys = mset xs" "heap_bag h2 {#}" "sorted_wrt (\<lambda>a b. h_elem_compare h1 b a \<le> 0) ys"
    by blast
  have "set ys = set xs" using d(2) by (metis set_mset_mset)
  then have "\<forall>y \<in> set ys. h_elem_compare h y x \<le> 0" using heap_top_ok(3) [OF h] by simp
  moreover have "heap_drain (Suc n) h w = Some (x # ys, h2, w2)"
    using heap_top_ok(1) [OF h] p(1) d(1) by simp
  ultimately show ?case
    using m d p(2) by (intro exI [of _ "x # ys"] exI [of _ h2] exI [of _ w2]) simp
qed simp

lemma heap_exec_push: "heap_exec (HPush x) h w =
    do { (rc, p, w1) \<leftarrow> heap_push (Ptr h) (Ptr x) w; Some (rc, pt p, w1) }"
  by (simp add: heap_exec_def)

lemma heap_fill_ok:
  assumes "heap_bag h m" and "no_fail w" and "heap_room h (length xs)"
  shows "\<exists>rcs h' w'. run heap_exec (map HPush xs) h w = Some (rcs, h', w') \<and> set rcs \<subseteq> {0}
    \<and> heap_conf h' = heap_conf h \<and> heap_bag h' (m + image_mset (copied (h_elem_copy h)) (mset xs))"
  using assms
proof (induction xs arbitrary: h m w)
  case (Cons x xs)
  then obtain ys where h: "heap_rel h ys" and m: "m = mset ys" by (auto simp: heap_bag_def)
  obtain h1 w1 where p: "heap_push (Ptr h) (Ptr x) w = Some (0, Ptr h1, w1)" "heap_conf h1 = heap_conf h"
    "no_fail w1" "heap_room h1 (length xs)" "heap_bag h1 (add_mset (copied (h_elem_copy h) x) m)"
    using heap_push_ok [OF h, of x w] Cons.prems(2,3) unfolding m by auto
  from Cons.IH [OF p(5,3,4)] obtain rcs h' w' where "run heap_exec (map HPush xs) h1 w1 = Some (rcs, h', w')"
    "set rcs \<subseteq> {0}" "heap_conf h' = heap_conf h1"
    "heap_bag h' (add_mset (copied (h_elem_copy h) x) m + image_mset (copied (h_elem_copy h1)) (mset xs))"
    by blast
  with p show ?case
    by (intro exI [of _ "0 # rcs"] exI [of _ h'] exI [of _ w']) (simp add: heap_exec_push ac_simps)
qed (auto intro!: exI [of _ "[]"])

text \<open>C7: pushing a list on an empty heap, with memory enough and no failing callback, accepts
  every element, and reading the top and popping as often returns the copies of all of them in
  descending order: the heap sorts.\<close>

theorem heap_sorts:
  assumes "heap_rel h []" and "no_fail w" and "(2 * length xs + 8) * h_elem_size h \<le> PTRDIFF_MAX"
  shows "\<exists>rcs h1 w1 ys h2 w2. run heap_exec (map HPush xs) h w = Some (rcs, h1, w1) \<and> set rcs \<subseteq> {0}
    \<and> heap_drain (length xs) h1 w1 = Some (ys, h2, w2) \<and> heap_rel h2 []
    \<and> mset ys = image_mset (copied (h_elem_copy h)) (mset xs)
    \<and> sorted_wrt (\<lambda>a b. h_elem_compare h b a \<le> 0) ys"
proof -
  have "heap_bag h {#}" "heap_room h (length xs)"
    using assms(1,3) heap_relD(2) [OF assms(1)] by (simp_all add: heap_bag_empty heap_room_def)
  then obtain rcs h1 w1 where f: "run heap_exec (map HPush xs) h w = Some (rcs, h1, w1)" "set rcs \<subseteq> {0}"
    "heap_conf h1 = heap_conf h" "heap_bag h1 (image_mset (copied (h_elem_copy h)) (mset xs))"
    using heap_fill_ok [of h "{#}" w xs] assms(2) by auto
  moreover have "size (image_mset (copied (h_elem_copy h)) (mset xs)) = length xs" by simp
  ultimately obtain ys h2 w2 where "heap_drain (length xs) h1 w1 = Some (ys, h2, w2)"
    "mset ys = image_mset (copied (h_elem_copy h)) (mset xs)" "heap_bag h2 {#}"
    "sorted_wrt (\<lambda>a b. h_elem_compare h1 b a \<le> 0) ys"
    using heap_drain_ok by blast
  with f show ?thesis by (auto simp: heap_bag_empty)
qed

definition heap_example :: "int heap" where
  "heap_example = \<lparr>h_capacity = 0, h_size = 0, h_elem_size = 4, h_elem_compare = (\<lambda>a b. a - b),
     h_elem_destroy = False, h_elem_copy = None, h_data = NULL\<rparr>"

lemma heap_example_rel: "heap_rel heap_example []"
  by (simp add: heap_example_def heap_rel_def holds_def PTRDIFF_MAX_def int_cmp_ok)

theorem heap_sorts_witness:
  "\<exists>rcs h1 w1 ys h2 w2. run heap_exec (map HPush [3, 9, 4]) heap_example (script [] []) = Some (rcs, h1, w1)
    \<and> set rcs \<subseteq> {0} \<and> heap_drain (length [3, 9, 4 :: int]) h1 w1 = Some (ys, h2, w2) \<and> heap_rel h2 []
    \<and> mset ys = image_mset (copied (h_elem_copy heap_example)) (mset [3, 9, 4])
    \<and> sorted_wrt (\<lambda>a b. h_elem_compare heap_example b a \<le> 0) ys"
  by (rule heap_sorts [OF heap_example_rel]) (simp_all add: heap_example_def PTRDIFF_MAX_def no_fail_def script_def)

text \<open>\<open>heap_copy\<close> rebuilds the heap by pushing: it returns \<open>0\<close> with a valid heap of the
  copies of all elements of the source, or \<open>- 1\<close> with an empty heap and its partial copies destroyed;
  the old contents of the destination are destroyed first, no block leaks, and it fails only when
  the allocator or the copy callback does.\<close>

theorem heap_copy_deep:
  assumes "heap_rel d ys" and "heap_rel s xs"
  shows "\<exists>rc d' w' zs n. heap_copy False (Ptr d) (Ptr s) w = Some (rc, Ptr d', w')
    \<and> heap_conf d' = heap_conf s \<and> live w' - heap_own d' = live w - heap_own d
    \<and> destroyed w' = destroyed w @ log_if (h_elem_destroy d) ys @ log_if (h_elem_destroy s) zs
    \<and> (no_fail w \<longrightarrow> rc = 0)
    \<and> (rc = 0 \<and> heap_bag d' (image_mset (copied (h_elem_copy s)) (mset xs)) \<and> zs = []
       \<or> rc = - 1 \<and> heap_bag d' {#} \<and> mset zs = mset (map (copied (h_elem_copy s)) (take n xs)))"
  by (rule heap_copy_ok [OF assms])

theorem heap_copy_deep_witness:
  "\<exists>rc d' w' zs n. heap_copy False (Ptr heap_example) (Ptr heap_example) (script [] []) = Some (rc, Ptr d', w')
    \<and> heap_conf d' = heap_conf heap_example
    \<and> live w' - heap_own d' = live (script [] [] :: int world) - heap_own heap_example
    \<and> destroyed w' = destroyed (script [] [] :: int world) @ log_if (h_elem_destroy heap_example) []
        @ log_if (h_elem_destroy heap_example) zs
    \<and> (no_fail (script [] [] :: int world) \<longrightarrow> rc = 0)
    \<and> (rc = 0 \<and> heap_bag d' (image_mset (copied (h_elem_copy heap_example)) (mset [])) \<and> zs = []
       \<or> rc = - 1 \<and> heap_bag d' {#} \<and> mset zs = mset (map (copied (h_elem_copy heap_example)) (take n [])))"
  by (rule heap_copy_deep [OF heap_example_rel heap_example_rel])

end
