(* ===== verification/Unionfind.thy ===== *)
theory Unionfind
  imports Prelude
begin

text \<open>
  \<open>src/unionfind.c\<close>: disjoint sets with union by size and path compression. Every function of
  the file is a definition of the same name. The two pointer-chasing loops are partial functions:
  \<open>None\<close> stands for an access outside the arrays as well as for a loop that does not end.
  \<open>uf_rel u ps szs\<close> says that the arrays hold the forest \<open>ps\<close> and the set sizes \<open>szs\<close>;
  \<open>uf_classes ps\<close> is the equivalence relation that the forest stands for.
\<close>

section \<open>Model\<close>

record unionfind =
  u_size :: size_t
  u_set_count :: size_t
  u_parents :: "nat buf"
  u_sizes :: "nat buf"

definition UNIONFIND_INVALID :: size_t where
  "UNIONFIND_INVALID = SIZE_MAX"

definition unionfind_resize ::
    "unionfind \<Rightarrow> size_t \<Rightarrow> ('a, 'b) world_scheme \<Rightarrow> int \<times> unionfind \<times> ('a, 'b) world_scheme" where
  "unionfind_resize u sz w =
     (if sz = 0
      then (0, u\<lparr>u_parents := NULL, u_sizes := NULL, u_size := sz, u_set_count := sz\<rparr>,
        free_ptr (u_sizes u) (free_ptr (u_parents u) w))
      else let bytes = sz_mul sz 8; (ok, w1) = malloc bytes w in
        if \<not> ok then (- 1, u, w1)
        else let (ok2, w2) = malloc bytes w1 in
          if \<not> ok2 then (- 1, u, free_block w2)
          else (0, u\<lparr>u_parents := buf_new (bytes div 8), u_sizes := buf_new (bytes div 8),
                     u_size := sz, u_set_count := sz\<rparr>,
            free_ptr (u_sizes u) (free_ptr (u_parents u) w2)))"

fun unionfind_reset_loop :: "nat list \<Rightarrow> nat buf \<Rightarrow> nat buf \<Rightarrow> (nat buf \<times> nat buf) option" where
  "unionfind_reset_loop [] p s = Some (p, s)"
| "unionfind_reset_loop (i # is) p s = do {
     p1 \<leftarrow> buf_put p i (Some i);
     s1 \<leftarrow> buf_put s i (Some 1);
     unionfind_reset_loop is p1 s1 }"

definition unionfind_reset :: "unionfind ptr \<Rightarrow> (int \<times> unionfind ptr) option" where
  "unionfind_reset p = (case p of NULL \<Rightarrow> Some (- 1, NULL) | Ptr u \<Rightarrow> do {
     (ps, szs) \<leftarrow> unionfind_reset_loop [0..<u_size u] (u_parents u) (u_sizes u);
     Some (0, Ptr (u\<lparr>u_parents := ps, u_sizes := szs, u_set_count := u_size u\<rparr>)) })"

definition unionfind_init ::
    "unionfind ptr \<Rightarrow> size_t \<Rightarrow> ('a, 'b) world_scheme
     \<Rightarrow> (int \<times> unionfind ptr \<times> ('a, 'b) world_scheme) option" where
  "unionfind_init p sz w = (case p of NULL \<Rightarrow> Some (- 1, NULL, w) | Ptr _ \<Rightarrow>
     let u = \<lparr>u_size = 0, u_set_count = 0, u_parents = NULL, u_sizes = NULL\<rparr>;
         (rc, u1, w1) = unionfind_resize u sz w in
     if rc \<noteq> 0 then Some (- 1, Ptr u1, w1)
     else do { (rc2, q) \<leftarrow> unionfind_reset (Ptr u1); Some (rc2, q, w1) })"

definition unionfind_destroy ::
    "unionfind ptr \<Rightarrow> ('a, 'b) world_scheme \<Rightarrow> unionfind ptr \<times> ('a, 'b) world_scheme" where
  "unionfind_destroy p w = (case p of NULL \<Rightarrow> (NULL, w) | Ptr u \<Rightarrow>
     (Ptr \<lparr>u_size = 0, u_set_count = 0, u_parents = NULL, u_sizes = NULL\<rparr>,
      free_ptr (u_sizes u) (free_ptr (u_parents u) w)))"

definition unionfind_new ::
    "size_t \<Rightarrow> ('a, 'b) world_scheme \<Rightarrow> (unionfind ptr \<times> ('a, 'b) world_scheme) option" where
  "unionfind_new sz w =
     (let (ok, w1) = malloc 32 w in
      if \<not> ok then Some (NULL, w1)
      else do {
        (rc, p, w2) \<leftarrow> unionfind_init
          (Ptr \<lparr>u_size = 0, u_set_count = 0, u_parents = NULL, u_sizes = NULL\<rparr>) sz w1;
        if rc \<noteq> 0 then Some (NULL, free_block w2) else Some (p, w2) })"

definition unionfind_free ::
    "unionfind ptr \<Rightarrow> ('a, 'b) world_scheme \<Rightarrow> ('a, 'b) world_scheme" where
  "unionfind_free p w = (case p of NULL \<Rightarrow> w | Ptr _ \<Rightarrow> free_block (snd (unionfind_destroy p w)))"

text \<open>\<open>memcpy\<close> of the first \<open>n\<close> slots of a block into a block of at least \<open>n\<close> slots.\<close>

definition buf_copy :: "nat buf \<Rightarrow> nat buf \<Rightarrow> nat \<Rightarrow> nat buf option" where
  "buf_copy dst src n =
     (if n \<le> length (slots dst) \<and> n \<le> length (slots src)
      then Some (Ptr (take n (slots src) @ drop n (slots dst))) else None)"

definition unionfind_copy ::
    "bool \<Rightarrow> unionfind ptr \<Rightarrow> unionfind ptr \<Rightarrow> ('a, 'b) world_scheme
     \<Rightarrow> (int \<times> unionfind ptr \<times> ('a, 'b) world_scheme) option" where
  "unionfind_copy same dst src w =
     (if dst = NULL \<or> src = NULL then Some (- 1, dst, w)
      else if same then Some (0, dst, w)
      else let s = pt src; (rc, u, w1) = unionfind_resize (pt dst) (u_size s) w in
        if rc \<noteq> 0 then Some (- 1, Ptr u, w1)
        else do {
          u1 \<leftarrow> (if u_size s \<noteq> 0 then do {
                  ps \<leftarrow> buf_copy (u_parents u) (u_parents s) (u_size s);
                  szs \<leftarrow> buf_copy (u_sizes u) (u_sizes s) (u_size s);
                  Some (u\<lparr>u_parents := ps, u_sizes := szs\<rparr>) }
                else Some u);
          Some (0, Ptr (u1\<lparr>u_set_count := u_set_count s\<rparr>), w1) })"

definition unionfind_clone ::
    "unionfind ptr \<Rightarrow> ('a, 'b) world_scheme \<Rightarrow> (unionfind ptr \<times> ('a, 'b) world_scheme) option" where
  "unionfind_clone src w = (case src of NULL \<Rightarrow> Some (NULL, w) | Ptr s \<Rightarrow> do {
     (copy, w1) \<leftarrow> unionfind_new (u_size s) w;
     if copy = NULL then Some (NULL, w1)
     else do {
       (rc, copy1, w2) \<leftarrow> unionfind_copy False copy src w1;
       if rc \<noteq> 0 then Some (NULL, unionfind_free copy1 w2) else Some (copy1, w2) } })"

text \<open>The two loops of \<open>unionfind_find\<close>.\<close>

partial_function (option) find_root :: "nat buf \<Rightarrow> nat \<Rightarrow> nat option" where
  "find_root b root = do {
     p \<leftarrow> buf_get b root;
     if p \<noteq> root then find_root b p else Some root }"

partial_function (option) compress :: "nat buf \<Rightarrow> nat \<Rightarrow> nat \<Rightarrow> nat buf option" where
  "compress b root x = do {
     p \<leftarrow> buf_get b x;
     if p \<noteq> x then do { b1 \<leftarrow> buf_put b x (Some root); compress b1 root p } else Some b }"

definition unionfind_find :: "unionfind ptr \<Rightarrow> size_t \<Rightarrow> (size_t \<times> unionfind ptr) option" where
  "unionfind_find p x =
     (if p = NULL \<or> u_size (pt p) \<le> x then Some (UNIONFIND_INVALID, p)
      else do {
        root \<leftarrow> find_root (u_parents (pt p)) x;
        b \<leftarrow> compress (u_parents (pt p)) root x;
        Some (root, Ptr ((pt p)\<lparr>u_parents := b\<rparr>)) })"

definition unionfind_find_const :: "unionfind ptr \<Rightarrow> size_t \<Rightarrow> size_t option" where
  "unionfind_find_const p x =
     (if p = NULL \<or> u_size (pt p) \<le> x then Some UNIONFIND_INVALID
      else find_root (u_parents (pt p)) x)"

text \<open>The part of \<open>unionfind_union\<close> after the roots are ordered by size.\<close>

definition unionfind_link :: "unionfind \<Rightarrow> nat \<Rightarrow> nat \<Rightarrow> unionfind option" where
  "unionfind_link u root_a root_b = do {
     ps \<leftarrow> buf_put (u_parents u) root_b (Some root_a);
     n \<leftarrow> buf_get (u_sizes u) root_a;
     k \<leftarrow> buf_get (u_sizes u) root_b;
     szs \<leftarrow> buf_put (u_sizes u) root_a (Some (sz_add n k));
     szs1 \<leftarrow> buf_put szs root_b (Some 0);
     Some (u\<lparr>u_parents := ps, u_sizes := szs1, u_set_count := sz_sub (u_set_count u) 1\<rparr>) }"

definition unionfind_union ::
    "unionfind ptr \<Rightarrow> size_t \<Rightarrow> size_t \<Rightarrow> (int \<times> unionfind ptr) option" where
  "unionfind_union p a b =
     (if p = NULL \<or> u_size (pt p) \<le> a \<or> u_size (pt p) \<le> b then Some (- 1, p)
      else do {
        (root_a, p1) \<leftarrow> unionfind_find p a;
        (root_b, p2) \<leftarrow> unionfind_find p1 b;
        if root_a = root_b then Some (0, p2)
        else do {
          n \<leftarrow> buf_get (u_sizes (pt p2)) root_a;
          k \<leftarrow> buf_get (u_sizes (pt p2)) root_b;
          u \<leftarrow> (if n < k then unionfind_link (pt p2) root_b root_a
                else unionfind_link (pt p2) root_a root_b);
          Some (1, Ptr u) } })"

definition unionfind_same ::
    "unionfind ptr \<Rightarrow> size_t \<Rightarrow> size_t \<Rightarrow> (int \<times> unionfind ptr) option" where
  "unionfind_same p a b =
     (if p = NULL \<or> u_size (pt p) \<le> a \<or> u_size (pt p) \<le> b then Some (- 1, p)
      else do {
        (root_a, p1) \<leftarrow> unionfind_find p a;
        (root_b, p2) \<leftarrow> unionfind_find p1 b;
        Some (if root_a = root_b then 1 else 0, p2) })"

definition unionfind_set_size :: "unionfind ptr \<Rightarrow> size_t \<Rightarrow> (size_t \<times> unionfind ptr) option" where
  "unionfind_set_size p x =
     (if p = NULL \<or> u_size (pt p) \<le> x then Some (0, p)
      else do {
        (root, p1) \<leftarrow> unionfind_find p x;
        n \<leftarrow> buf_get (u_sizes (pt p1)) root;
        Some (n, p1) })"

section \<open>Forests\<close>

text \<open>\<open>climb ps x d r\<close>: following the parent links from \<open>x\<close> reaches the root \<open>r\<close> in
  \<open>d\<close> steps.\<close>

inductive climb :: "nat list \<Rightarrow> nat \<Rightarrow> nat \<Rightarrow> nat \<Rightarrow> bool" for ps where
  at_root: "x < length ps \<Longrightarrow> ps ! x = x \<Longrightarrow> climb ps x 0 x"
| up: "x < length ps \<Longrightarrow> ps ! x \<noteq> x \<Longrightarrow> climb ps (ps ! x) d r \<Longrightarrow> climb ps x (Suc d) r"

inductive_cases climbE: "climb ps x d r"
inductive_cases climb_SucE: "climb ps x (Suc d) r"

lemma climb_det: "climb ps x d r \<Longrightarrow> climb ps x e s \<Longrightarrow> d = e \<and> r = s"
proof (induction arbitrary: e s rule: climb.induct)
  case (at_root x)
  from at_root.prems show ?case by (rule climbE) (use at_root.hyps in simp_all)
next
  case (up x d r)
  from up.prems show ?case
  proof (rule climbE)
    fix e' assume "e = Suc e'" "climb ps (ps ! x) e' s"
    with up.IH [of e' s] show ?thesis by simp
  qed (use up.hyps in simp)
qed

lemma climb_root: "climb ps x d r \<Longrightarrow> r < length ps \<and> ps ! r = r"
  by (induction rule: climb.induct) auto

lemma climb_less: "climb ps x d r \<Longrightarrow> x < length ps"
  by (cases rule: climb.cases) auto

lemma climb_at_root: "ps ! r = r \<Longrightarrow> r < length ps \<Longrightarrow> climb ps r d s \<longleftrightarrow> d = 0 \<and> s = r"
  by (auto intro: climb.intros dest: climb_det [OF at_root])

text \<open>Path compression: pointing \<open>x\<close> at its root shortens paths and keeps every root.\<close>

lemma climb_compress:
  assumes x: "climb ps x (Suc k) r" and y: "climb ps y d s"
  shows "\<exists>e \<le> d. climb (ps[x := r]) y e s"
  using y
proof (induction rule: climb.induct)
  case (at_root y)
  have "y \<noteq> x" using at_root x climb_at_root [of ps y "Suc k" r] by auto
  with at_root have "climb (ps[x := r]) y 0 y" by (intro climb.at_root) auto
  then show ?case by auto
next
  case (up y d s)
  show ?case
  proof (cases "y = x")
    case True
    have "climb ps y (Suc d) s" using up by (blast intro: climb.up)
    with x True have s: "s = r" using climb_det by blast
    note r = climb_root [OF x]
    have "r \<noteq> x" using r x climb_at_root [of ps r "Suc k" r] by auto
    then have "climb (ps[x := r]) r 0 r" using r by (intro climb.at_root) auto
    then have "climb (ps[x := r]) x (Suc 0) r"
      using climb_less [OF x] \<open>r \<noteq> x\<close> by (intro climb.up) auto
    then show ?thesis using True s by auto
  next
    case False
    from up obtain e where "e \<le> d" "climb (ps[x := r]) (ps ! y) e s" by blast
    then show ?thesis using up(1,2) False by (intro exI [of _ "Suc e"]) (auto intro: climb.up)
  qed
qed

text \<open>Linking the root \<open>b\<close> below the root \<open>a\<close>.\<close>

lemma climb_link:
  assumes "a < length ps" "ps ! a = a" "b < length ps" "ps ! b = b" "a \<noteq> b" and "climb ps y d s"
  shows "climb (ps[b := a]) y (if s = b then Suc d else d) (if s = b then a else s)"
  using assms(6)
proof (induction rule: climb.induct)
  case (at_root y)
  have a: "climb (ps[b := a]) a 0 a" using assms(1,2,5) by (intro climb.at_root) auto
  show ?case
  proof (cases "y = b")
    case True
    then have "climb (ps[b := a]) y (Suc 0) a" using a assms(3,5) by (intro climb.up) auto
    with True show ?thesis by simp
  next
    case False
    with at_root have "climb (ps[b := a]) y 0 y" by (intro climb.at_root) auto
    with False show ?thesis by simp
  qed
next
  case (up y d s)
  then have "y \<noteq> b" using assms(4) by auto
  with up show ?case by (auto intro: climb.up)
qed

definition root_of :: "nat list \<Rightarrow> nat \<Rightarrow> nat \<Rightarrow> bool" where
  "root_of ps x r \<longleftrightarrow> (\<exists>d. climb ps x d r)"

definition uf_classes :: "nat list \<Rightarrow> (nat \<times> nat) set" where
  "uf_classes ps = {(x, y). \<exists>r. root_of ps x r \<and> root_of ps y r}"

lemma root_of_det: "root_of ps x r \<Longrightarrow> root_of ps x s \<Longrightarrow> r = s"
  by (auto simp: root_of_def dest: climb_det)

lemma root_of_self: "r < length ps \<Longrightarrow> ps ! r = r \<longleftrightarrow> root_of ps r r"
  using climb_root by (auto simp: root_of_def intro: climb.at_root)

lemma root_ofD: "root_of ps x r \<Longrightarrow> x < length ps \<and> r < length ps \<and> ps ! r = r"
  using climb_less climb_root by (auto simp: root_of_def)

definition total :: "nat list \<Rightarrow> bool" where
  "total ps \<longleftrightarrow> (\<forall>x < length ps. \<exists>r. root_of ps x r)"

text \<open>\<open>shorter ps ps'\<close>: \<open>ps'\<close> is the same forest with paths that are at most as long.\<close>

definition shorter :: "nat list \<Rightarrow> nat list \<Rightarrow> bool" where
  "shorter ps ps' \<longleftrightarrow> length ps' = length ps
     \<and> (\<forall>y d s. climb ps y d s \<longrightarrow> (\<exists>e \<le> d. climb ps' y e s))"

lemma shorterD: "shorter ps ps' \<Longrightarrow> climb ps y d s \<Longrightarrow> \<exists>e \<le> d. climb ps' y e s"
  by (simp add: shorter_def)

lemma shorter_refl: "shorter ps ps"
  by (auto simp: shorter_def)

lemma shorter_trans:
  assumes "shorter ps qs" and "shorter qs rs"
  shows "shorter ps rs"
  unfolding shorter_def
proof (intro conjI allI impI)
  fix y d s assume "climb ps y d s"
  from shorterD [OF assms(1) this] obtain e where e: "e \<le> d" "climb qs y e s" by blast
  from shorterD [OF assms(2) e(2)] e(1) show "\<exists>e \<le> d. climb rs y e s" by (meson le_trans)
qed (use assms in \<open>simp add: shorter_def\<close>)

lemma shorter_root_of:
  assumes "shorter ps ps'" and "total ps"
  shows "root_of ps' = root_of ps"
proof (intro ext iffI)
  have fwd: "root_of ps x r \<Longrightarrow> root_of ps' x r" for x r
    using shorterD [OF assms(1)] by (fastforce simp: root_of_def)
  fix x r assume "root_of ps' x r"
  moreover from this obtain s where "root_of ps x s"
    using assms root_ofD [of ps' x r] by (auto simp: total_def shorter_def)
  ultimately show "root_of ps x r" using fwd root_of_det by blast
qed (use shorterD [OF assms(1)] in \<open>fastforce simp: root_of_def\<close>)

section \<open>The loops\<close>

lemma find_root_ok:
  assumes "climb ps x d r" and "holds b ps"
  shows "find_root b x = Some r"
  using assms(1)
proof (induction rule: climb.induct)
  case (at_root x)
  then show ?case using holds_get [OF assms(2)] by (subst find_root.simps) simp
next
  case (up x d r)
  then show ?case using holds_get [OF assms(2)] by (subst find_root.simps) simp
qed

lemma compress_ok:
  assumes "climb ps x d r" and "holds b ps" and "b \<noteq> NULL"
  shows "\<exists>b' ps'. compress b r x = Some b' \<and> holds b' ps' \<and> b' \<noteq> NULL \<and> shorter ps ps'
    \<and> (\<exists>e \<le> 1. climb ps' x e r)"
  using assms
proof (induction d arbitrary: ps x b rule: less_induct)
  case (less d)
  from less.prems(1) show ?case
  proof (cases rule: climb.cases)
    case at_root
    then have "compress b r x = Some b"
      using holds_get [OF less.prems(2)] by (subst compress.simps) simp
    moreover have "climb ps x 0 r" using less.prems(1) at_root by simp
    ultimately show ?thesis using less.prems shorter_refl by fastforce
  next
    case (up k)
    have ps1: "shorter ps (ps[x := r])"
      using climb_compress less.prems(1) up(1) by (auto simp: shorter_def)
    obtain b1 where b1: "buf_put b x (Some r) = Some b1" "holds b1 (ps[x := r])" "b1 \<noteq> NULL"
      using holds_put_old [OF less.prems(2) up(2), of r] by blast
    have step: "compress b r x = compress b1 r (ps ! x)"
      using up holds_get [OF less.prems(2) up(2)] b1(1) by (subst compress.simps) simp
    obtain e where e: "e \<le> k" "climb (ps[x := r]) (ps ! x) e r" using shorterD [OF ps1 up(4)] by blast
    have "e < d" using e(1) up(1) by simp
    from less.IH [OF this e(2) b1(2,3)] obtain b' ps' where c: "compress b1 r (ps ! x) = Some b'"
      "holds b' ps'" "b' \<noteq> NULL" "shorter (ps[x := r]) ps'" by blast
    have r: "r < length ps" "ps ! r = r" using climb_root [OF less.prems(1)] by simp_all
    then have "r \<noteq> x" using up(3) by auto
    with r up(2) have "climb (ps[x := r]) x (Suc 0) r"
      by (intro climb.up) (auto intro: climb.at_root)
    then have "\<exists>e \<le> 1. climb ps' x e r" using shorterD [OF c(4)] by fastforce
    with c step show ?thesis using shorter_trans [OF ps1 c(4)] by auto
  qed
qed

section \<open>Invariant\<close>

text \<open>
  Every element reaches a root, by a path of length \<open>d\<close> with \<open>2 ^ d\<close> at most the size of its
  set; the size entry of a root is the size of its set, that of any other element is 0; and
  \<open>set_count\<close> counts the roots.
\<close>

definition uf_rel :: "unionfind \<Rightarrow> nat list \<Rightarrow> nat list \<Rightarrow> bool" where
  "uf_rel u ps szs \<longleftrightarrow> holds (u_parents u) ps \<and> holds (u_sizes u) szs
     \<and> length ps = u_size u \<and> length szs = u_size u
     \<and> (u_parents u = NULL \<longleftrightarrow> u_size u = 0) \<and> (u_sizes u = NULL \<longleftrightarrow> u_size u = 0)
     \<and> u_size u * 8 \<le> PTRDIFF_MAX
     \<and> (\<forall>x < length ps. \<exists>d r. climb ps x d r \<and> 2 ^ d \<le> szs ! r)
     \<and> (\<forall>r < length ps. szs ! r = card {x. root_of ps x r})
     \<and> u_set_count u = card {r. r < length ps \<and> ps ! r = r}"

definition uf_own :: "unionfind \<Rightarrow> int" where
  "uf_own u = blocks (u_parents u) + blocks (u_sizes u)"

lemma uf_relD:
  assumes "uf_rel u ps szs"
  shows "holds (u_parents u) ps" "holds (u_sizes u) szs" "length ps = u_size u" "length szs = u_size u"
    "u_parents u = NULL \<longleftrightarrow> u_size u = 0" "u_sizes u = NULL \<longleftrightarrow> u_size u = 0"
    "u_size u * 8 \<le> PTRDIFF_MAX" "\<And>x. x < length ps \<Longrightarrow> \<exists>d r. climb ps x d r \<and> 2 ^ d \<le> szs ! r"
    "\<And>r. r < length ps \<Longrightarrow> szs ! r = card {x. root_of ps x r}"
    "u_set_count u = card {r. r < length ps \<and> ps ! r = r}"
  using assms unfolding uf_rel_def by blast+

lemma uf_rel_total: "uf_rel u ps szs \<Longrightarrow> total ps"
  using uf_relD(8) unfolding total_def root_of_def by blast

lemma uf_rel_shorter:
  assumes u: "uf_rel u ps szs" and s: "shorter ps ps'" and b: "holds b ps'" "b = NULL \<longleftrightarrow> u_size u = 0"
  shows "uf_rel (u\<lparr>u_parents := b\<rparr>) ps' szs"
proof -
  note D = uf_relD [OF u]
  have len: "length ps' = length ps" using s by (simp add: shorter_def)
  have roots: "root_of ps' = root_of ps" using shorter_root_of [OF s uf_rel_total [OF u]] .
  have "\<exists>d r. climb ps' x d r \<and> 2 ^ d \<le> szs ! r" if x: "x < length ps" for x
  proof -
    obtain d r where d: "climb ps x d r" "2 ^ d \<le> szs ! r" using D(8) [OF x] by blast
    then obtain e where e: "e \<le> d" "climb ps' x e r" using shorterD [OF s] by blast
    have "(2 :: nat) ^ e \<le> 2 ^ d" using e(1) by (simp add: power_increasing)
    with d e show ?thesis using le_trans by blast
  qed
  moreover have "{r. r < length ps' \<and> ps' ! r = r} = {r. r < length ps \<and> ps ! r = r}"
    using root_of_self [of _ ps'] root_of_self [of _ ps] len roots by auto
  ultimately show ?thesis using D b len roots by (simp add: uf_rel_def)
qed

section \<open>Operations\<close>

lemma unionfind_find_ok:
  assumes u: "uf_rel u ps szs" and x: "x < u_size u"
  shows "\<exists>r b ps'. unionfind_find (Ptr u) x = Some (r, Ptr (u\<lparr>u_parents := b\<rparr>)) \<and> root_of ps x r
    \<and> uf_rel (u\<lparr>u_parents := b\<rparr>) ps' szs \<and> root_of ps' = root_of ps
    \<and> (\<exists>e \<le> 1. climb ps' x e r) \<and> unionfind_find_const (Ptr u) x = Some r"
proof -
  note D = uf_relD [OF u]
  obtain d r where c: "climb ps x d r" using D(8) [of x] x D(3) by auto
  have nn: "u_parents u \<noteq> NULL" using D(5) x by simp
  from compress_ok [OF c D(1) nn] obtain b ps' where p: "compress (u_parents u) r x = Some b"
    "holds b ps'" "b \<noteq> NULL" "shorter ps ps'" "\<exists>e \<le> 1. climb ps' x e r" by blast
  have "uf_rel (u\<lparr>u_parents := b\<rparr>) ps' szs" using uf_rel_shorter [OF u p(4,2)] p(3) x by simp
  moreover have "root_of ps' = root_of ps" by (rule shorter_root_of [OF p(4) uf_rel_total [OF u]])
  moreover have "root_of ps x r" using c by (auto simp: root_of_def)
  moreover have "unionfind_find (Ptr u) x = Some (r, Ptr (u\<lparr>u_parents := b\<rparr>))"
    "unionfind_find_const (Ptr u) x = Some r"
    using find_root_ok [OF c D(1)] p(1) x by (simp_all add: unionfind_find_def unionfind_find_const_def)
  ultimately show ?thesis
    using p(5) by blast
qed

lemma root_of_link:
  assumes ab: "a < length ps" "ps ! a = a" "b < length ps" "ps ! b = b" "a \<noteq> b" and t: "total ps"
  shows "root_of (ps[b := a]) y s \<longleftrightarrow> (if root_of ps y b then s = a else root_of ps y s)"
proof -
  have fwd: "root_of (ps[b := a]) y (if s = b then a else s)" if "root_of ps y s" for s
    using climb_link [OF ab] that by (fastforce simp: root_of_def)
  show ?thesis
  proof (cases "y < length ps")
    case True
    then obtain r where r: "root_of ps y r" using t by (auto simp: total_def)
    with fwd [OF r] show ?thesis using root_of_det by (smt (verit, best))
  next
    case False
    then show ?thesis using root_ofD by (metis length_list_update)
  qed
qed

lemma finite_root_of [simp]: "finite {x. root_of ps x r}"
  by (rule finite_subset [of _ "{..<length ps}"]) (auto dest: root_ofD)

lemma unionfind_link_ok:
  assumes u: "uf_rel u ps szs" and ab: "a < length ps" "ps ! a = a" "b < length ps" "ps ! b = b" "a \<noteq> b"
    and le: "szs ! b \<le> szs ! a"
  shows "\<exists>u'. unionfind_link u a b = Some u' \<and> u_size u' = u_size u \<and> uf_own u' = uf_own u
    \<and> uf_rel u' (ps[b := a]) (szs[a := szs ! a + szs ! b, b := 0]) \<and> Suc (u_set_count u') = u_set_count u"
proof -
  note D = uf_relD [OF u]
  let ?ps = "ps[b := a]" and ?szs = "szs[a := szs ! a + szs ! b, b := 0]"
  have ab': "a < length szs" "b < length szs" using ab D(3,4) by simp_all
  have n: "u_size u \<le> SIZE_MAX" using D(7) SIZE_MAX_PTRDIFF_MAX by linarith
  note link = root_of_link [OF ab uf_rel_total [OF u]]
  have ra: "root_of ps a a" "root_of ps b b" using ab root_of_self by auto
  have disj: "{x. root_of ps x a} \<inter> {x. root_of ps x b} = {}" using root_of_det ab(5) by auto
  have union: "{x. root_of ?ps x a} = {x. root_of ps x a} \<union> {x. root_of ps x b}"
    using link root_of_det ab(5) by auto
  then have sum: "card {x. root_of ?ps x a} = szs ! a + szs ! b"
    using D(9) ab disj by (simp add: card_Un_disjoint)
  have "{x. root_of ?ps x a} \<subseteq> {..<length ps}" using root_ofD by fastforce
  from card_mono [OF finite_lessThan this] have "szs ! a + szs ! b \<le> length ps" using sum by simp
  then have add: "sz_add (szs ! a) (szs ! b) = szs ! a + szs ! b" using n D(3) by simp
  let ?R = "{r. r < length ps \<and> ps ! r = r}"
  have "r < length ?ps \<and> ?ps ! r = r \<longleftrightarrow> r \<in> ?R - {b}" for r
    using ab(3,5) by (cases "r = b") simp_all
  then have "{r. r < length ?ps \<and> ?ps ! r = r} = ?R - {b}" by (intro set_eqI) (simp only: mem_Collect_eq)
  then have R: "finite ?R" "b \<in> ?R" "{r. r < length ?ps \<and> ?ps ! r = r} = ?R - {b}"
    using ab(3,4) by simp_all
  have "?R \<subseteq> {..<length ps}" by auto
  from card_mono [OF finite_lessThan this] have "card ?R \<le> length ps" by simp
  then have cnt: "sz_sub (u_set_count u) 1 = card ?R - 1" "0 < card ?R"
    using D(3,10) n R(1,2) card_gt_0_iff [of ?R] by (auto simp: Suc_le_eq)
  obtain b1 where b1: "buf_put (u_parents u) b (Some a) = Some b1" "holds b1 ?ps" "b1 \<noteq> NULL"
    using holds_put_old [OF D(1) ab(3), of a] by blast
  obtain s1 where s1: "buf_put (u_sizes u) a (Some (szs ! a + szs ! b)) = Some s1"
    "holds s1 (szs[a := szs ! a + szs ! b])"
    using holds_put_old [OF D(2) ab'(1), of "szs ! a + szs ! b"] by blast
  obtain s2 where s2: "buf_put s1 b (Some 0) = Some s2" "holds s2 ?szs" "s2 \<noteq> NULL"
    using holds_put_old [OF s1(2), of b 0] ab' by auto
  let ?u = "u\<lparr>u_parents := b1, u_sizes := s2, u_set_count := card ?R - 1\<rparr>"
  have eq: "unionfind_link u a b = Some ?u"
    using b1(1) s1(1) s2(1) holds_get [OF D(2)] ab' add cnt(1) by (simp add: unionfind_link_def)
  have depth: "\<exists>d r. climb ?ps x d r \<and> 2 ^ d \<le> ?szs ! r" if x: "x < length ?ps" for x
  proof -
    obtain d r where d: "climb ps x d r" "2 ^ d \<le> szs ! r" using D(8) [of x] x by auto
    note c = climb_link [OF ab d(1)]
    have "2 ^ (if r = b then Suc d else d) \<le> ?szs ! (if r = b then a else r)"
      using d(2) le ab' ab(5) by (auto simp: nth_list_update)
    with c show ?thesis by blast
  qed
  have sizes: "?szs ! r = card {x. root_of ?ps x r}" if r: "r < length ?ps" for r
  proof -
    consider "r = a" | "r = b" | "r \<noteq> a" "r \<noteq> b" by blast
    then show ?thesis
    proof cases
      case 1
      then show ?thesis using sum ab' ab(5) by simp
    next
      case 2
      then have "{x. root_of ?ps x r} = {}" using link root_of_det ab(5) by auto
      then show ?thesis using 2 ab' by simp
    next
      case 3
      then have "{x. root_of ?ps x r} = {x. root_of ps x r}" using link root_of_det by auto
      then show ?thesis using 3 D(9) r by simp
    qed
  qed
  have "uf_rel ?u ?ps ?szs"
    unfolding uf_rel_def using D b1 s2 depth sizes R ab by (simp add: uf_rel_def)
  moreover have "u_size u \<noteq> 0" using ab(1) D(3) by auto
  ultimately show ?thesis
    using eq b1(3) s2(3) D(5,6,10) cnt by (auto simp: uf_own_def blocks_def split: ptr.splits)
qed

section \<open>The equivalence relation\<close>

definition merge_classes :: "(nat \<times> nat) set \<Rightarrow> nat \<Rightarrow> nat \<Rightarrow> (nat \<times> nat) set" where
  "merge_classes E a b = E \<union> {(x, y). (x, a) \<in> E \<and> (b, y) \<in> E \<or> (x, b) \<in> E \<and> (a, y) \<in> E}"

lemma root_of_eq: "root_of ps x r \<Longrightarrow> root_of ps x s \<longleftrightarrow> s = r"
  using root_of_det by blast

lemma uf_classes_root: "root_of ps a r \<Longrightarrow> (x, a) \<in> uf_classes ps \<longleftrightarrow> root_of ps x r"
  by (simp add: uf_classes_def root_of_eq [of ps a r])

lemma uf_classes_image: "root_of ps a r \<Longrightarrow> uf_classes ps `` {a} = {y. root_of ps y r}"
  by (auto simp: uf_classes_def root_of_eq [of ps a r])

lemma uf_classes_same: "root_of ps a r \<Longrightarrow> root_of ps b s \<Longrightarrow> (a, b) \<in> uf_classes ps \<longleftrightarrow> r = s"
  using uf_classes_root [of ps b s a] root_of_eq [of ps a r s] by auto

lemma uf_classes_sym: "(x, y) \<in> uf_classes ps \<longleftrightarrow> (y, x) \<in> uf_classes ps"
  by (auto simp: uf_classes_def)

lemma uf_classes_trans: "(x, y) \<in> uf_classes ps \<Longrightarrow> (y, z) \<in> uf_classes ps \<Longrightarrow> (x, z) \<in> uf_classes ps"
  using root_of_det by (auto simp: uf_classes_def) blast

lemma merge_classes_sym: "merge_classes E a b = merge_classes E b a"
  by (auto simp: merge_classes_def)

lemma uf_classes_link:
  assumes ab: "a < length ps" "ps ! a = a" "b < length ps" "ps ! b = b" "a \<noteq> b" and t: "total ps"
    and x: "root_of ps x a" and y: "root_of ps y b"
  shows "uf_classes (ps[b := a]) = merge_classes (uf_classes ps) x y"
proof -
  note link = root_of_link [OF ab t]
  have "(v, z) \<in> uf_classes (ps[b := a]) \<longleftrightarrow> (v, z) \<in> merge_classes (uf_classes ps) x y" for v z
  proof (cases "v < length ps \<and> z < length ps")
    case True
    then obtain r s where r: "root_of ps v r" and s: "root_of ps z s"
      using t unfolding total_def by blast
    have r': "root_of (ps[b := a]) v (if r = b then a else r)"
      and s': "root_of (ps[b := a]) z (if s = b then a else s)"
      using link r s root_of_eq [OF r] root_of_eq [OF s] by auto
    show ?thesis
      using ab(5) uf_classes_same [OF r' s'] uf_classes_same [OF r s] uf_classes_same [OF r x]
        uf_classes_same [OF y s] uf_classes_same [OF r y] uf_classes_same [OF x s]
      by (auto simp: merge_classes_def)
  next
    case False
    then have "\<not> (root_of ps v c \<and> root_of ps z c)"
      "\<not> (root_of (ps[b := a]) v c \<and> root_of (ps[b := a]) z c)" for c
      using root_ofD [of ps v c] root_ofD [of ps z c] root_ofD [of "ps[b := a]" v c]
        root_ofD [of "ps[b := a]" z c] by auto
    moreover have "\<not> (\<exists>c. root_of ps v c) \<or> \<not> (\<exists>c. root_of ps z c)"
      using False root_ofD by blast
    ultimately show ?thesis by (auto simp: merge_classes_def uf_classes_def)
  qed
  then show ?thesis by auto
qed

lemma uf_classes_card:
  assumes "total ps"
  shows "card {r. r < length ps \<and> ps ! r = r} = card ({..<length ps} // uf_classes ps)"
proof (rule bij_betw_same_card [of "\<lambda>r. uf_classes ps `` {r}"], rule bij_betw_imageI)
  let ?R = "{r. r < length ps \<and> ps ! r = r}"
  note cls = uf_classes_image
  show "inj_on (\<lambda>r. uf_classes ps `` {r}) ?R"
  proof (rule inj_onI)
    fix r s assume rs: "r \<in> ?R" "s \<in> ?R" and eq: "uf_classes ps `` {r} = uf_classes ps `` {s}"
    from rs have r: "root_of ps r r" and s: "root_of ps s s" using root_of_self by auto
    from r have "r \<in> uf_classes ps `` {s}" unfolding eq [symmetric] cls [OF r] by simp
    then have "root_of ps r s" unfolding cls [OF s] by simp
    with r show "r = s" by (rule root_of_det)
  qed
  show "(\<lambda>r. uf_classes ps `` {r}) ` ?R = {..<length ps} // uf_classes ps"
  proof (intro equalityI subsetI)
    fix X assume "X \<in> {..<length ps} // uf_classes ps"
    then obtain x where x: "x < length ps" "X = uf_classes ps `` {x}" by (auto simp: quotient_def)
    then obtain r where r: "root_of ps x r" using assms by (auto simp: total_def)
    then have rr: "root_of ps r r" "r \<in> ?R" using root_ofD [OF r] root_of_self by auto
    have "X = uf_classes ps `` {r}" unfolding x(2) cls [OF r] cls [OF rr(1)] by simp
    with rr(2) show "X \<in> (\<lambda>r. uf_classes ps `` {r}) ` ?R" by blast
  qed (auto simp: quotient_def)
qed

section \<open>Queries and unions\<close>

lemma unionfind_find2_ok:
  assumes u: "uf_rel u ps szs" and a: "a < u_size u" and b: "b < u_size u"
  shows "\<exists>ra rb p1 v qs. unionfind_find (Ptr u) a = Some (ra, p1) \<and> unionfind_find p1 b = Some (rb, Ptr v)
    \<and> root_of ps a ra \<and> root_of ps b rb \<and> uf_rel v qs szs \<and> root_of qs = root_of ps
    \<and> u_size v = u_size u \<and> u_set_count v = u_set_count u \<and> u_sizes v = u_sizes u"
proof -
  obtain ra b1 ps1 where 1: "unionfind_find (Ptr u) a = Some (ra, Ptr (u\<lparr>u_parents := b1\<rparr>))" "root_of ps a ra"
    "uf_rel (u\<lparr>u_parents := b1\<rparr>) ps1 szs" "root_of ps1 = root_of ps"
    using unionfind_find_ok [OF u a] by blast
  have "b < u_size (u\<lparr>u_parents := b1\<rparr>)" using b by simp
  from unionfind_find_ok [OF 1(3) this] obtain rb b2 ps2 where
    "unionfind_find (Ptr (u\<lparr>u_parents := b1\<rparr>)) b = Some (rb, Ptr (u\<lparr>u_parents := b1, u_parents := b2\<rparr>))"
    "root_of ps1 b rb" "uf_rel (u\<lparr>u_parents := b1, u_parents := b2\<rparr>) ps2 szs" "root_of ps2 = root_of ps1"
    by blast
  with 1 show ?thesis
    by (intro exI [of _ ra] exI [of _ rb] exI [of _ "Ptr (u\<lparr>u_parents := b1\<rparr>)"]
        exI [of _ "u\<lparr>u_parents := b2\<rparr>"] exI [of _ ps2]) simp
qed

lemma uf_classes_cong: "root_of qs = root_of ps \<Longrightarrow> uf_classes qs = uf_classes ps"
  by (simp add: uf_classes_def)

lemma unionfind_same_ok:
  assumes u: "uf_rel u ps szs" and "a < u_size u" and "b < u_size u"
  shows "\<exists>v qs. unionfind_same (Ptr u) a b = Some (if (a, b) \<in> uf_classes ps then 1 else 0, Ptr v)
    \<and> uf_rel v qs szs \<and> uf_classes qs = uf_classes ps \<and> u_size v = u_size u"
proof -
  obtain ra rb p1 v qs where f: "unionfind_find (Ptr u) a = Some (ra, p1)" "unionfind_find p1 b = Some (rb, Ptr v)"
    "root_of ps a ra" "root_of ps b rb" "uf_rel v qs szs" "root_of qs = root_of ps" "u_size v = u_size u"
    using unionfind_find2_ok [OF assms] by blast
  have "ra = rb \<longleftrightarrow> (a, b) \<in> uf_classes ps" using uf_classes_same [OF f(3,4)] by simp
  then have "unionfind_same (Ptr u) a b = Some (if (a, b) \<in> uf_classes ps then 1 else 0, Ptr v)"
    using f(1,2) assms(2,3) by (simp add: unionfind_same_def)
  with f(5,7) uf_classes_cong [OF f(6)] show ?thesis by blast
qed

lemma unionfind_set_size_ok:
  assumes u: "uf_rel u ps szs" and x: "x < u_size u"
  shows "\<exists>v qs. unionfind_set_size (Ptr u) x = Some (card (uf_classes ps `` {x}), Ptr v)
    \<and> uf_rel v qs szs \<and> uf_classes qs = uf_classes ps \<and> u_size v = u_size u"
proof -
  obtain r b qs where f: "unionfind_find (Ptr u) x = Some (r, Ptr (u\<lparr>u_parents := b\<rparr>))" "root_of ps x r"
    "uf_rel (u\<lparr>u_parents := b\<rparr>) qs szs" "root_of qs = root_of ps"
    using unionfind_find_ok [OF u x] by blast
  note D = uf_relD [OF u]
  have r: "r < length ps" using root_ofD [OF f(2)] by simp
  have "szs ! r = card (uf_classes ps `` {x})" using D(9) [OF r] uf_classes_image [OF f(2)] by simp
  moreover have "buf_get (u_sizes u) r = Some (szs ! r)" using holds_get [OF D(2)] r D(3,4) by simp
  ultimately have "unionfind_set_size (Ptr u) x
      = Some (card (uf_classes ps `` {x}), Ptr (u\<lparr>u_parents := b\<rparr>))"
    using f(1) x by (simp add: unionfind_set_size_def)
  then show ?thesis using f(3) uf_classes_cong [OF f(4)] by auto
qed

lemma unionfind_union_ok:
  assumes u: "uf_rel u ps szs" and a: "a < u_size u" and b: "b < u_size u"
  shows "\<exists>rc v qs szs'. unionfind_union (Ptr u) a b = Some (rc, Ptr v) \<and> uf_rel v qs szs'
    \<and> u_size v = u_size u \<and> uf_classes qs = merge_classes (uf_classes ps) a b
    \<and> ((a, b) \<in> uf_classes ps \<and> rc = 0 \<and> u_set_count v = u_set_count u
       \<or> (a, b) \<notin> uf_classes ps \<and> rc = 1 \<and> Suc (u_set_count v) = u_set_count u)"
proof -
  obtain ra rb p1 v qs where f: "unionfind_find (Ptr u) a = Some (ra, p1)" "unionfind_find p1 b = Some (rb, Ptr v)"
    "root_of ps a ra" "root_of ps b rb" "uf_rel v qs szs" "root_of qs = root_of ps" "u_size v = u_size u"
    "u_set_count v = u_set_count u" "u_sizes v = u_sizes u"
    using unionfind_find2_ok [OF assms] by blast
  note D = uf_relD [OF f(5)] and total = uf_rel_total [OF f(5)]
  have q: "root_of qs a ra" "root_of qs b rb" using f(3,4,6) by simp_all
  note R = root_ofD [OF q(1)] root_ofD [OF q(2)]
  have same: "ra = rb \<longleftrightarrow> (a, b) \<in> uf_classes ps" using uf_classes_same [OF f(3,4)] by simp
  have get: "buf_get (u_sizes v) ra = Some (szs ! ra)" "buf_get (u_sizes v) rb = Some (szs ! rb)"
    using holds_get [OF D(2)] R D(3,4) by simp_all
  have cls: "uf_classes qs = uf_classes ps" using f(6) by (rule uf_classes_cong)
  show ?thesis
  proof (cases "ra = rb")
    case True
    with same have ab: "(a, b) \<in> uf_classes ps" "(b, a) \<in> uf_classes ps"
      using uf_classes_sym by blast+
    have "merge_classes (uf_classes ps) a b = uf_classes ps"
      unfolding merge_classes_def using ab uf_classes_trans by blast
    then show ?thesis
      using True same f(1,2,5,7,8) a b cls by (auto simp: unionfind_union_def)
  next
    case False
    define x y where "x = (if szs ! ra < szs ! rb then rb else ra)" and "y = (if szs ! ra < szs ! rb then ra else rb)"
    have xy: "x < length qs" "qs ! x = x" "y < length qs" "qs ! y = y" "x \<noteq> y" "szs ! y \<le> szs ! x"
      using R False by (auto simp: x_def y_def)
    obtain v' where l: "unionfind_link v x y = Some v'" "u_size v' = u_size v"
      "uf_rel v' (qs[y := x]) (szs[x := szs ! x + szs ! y, y := 0])" "Suc (u_set_count v') = u_set_count v"
      using unionfind_link_ok [OF f(5) xy] by blast
    have "uf_classes (qs[y := x]) = merge_classes (uf_classes qs) a b"
    proof (cases "szs ! ra < szs ! rb")
      case True
      then have "x = rb" "y = ra" by (simp_all add: x_def y_def)
      with uf_classes_link [OF xy(1-5) total, of b a] q show ?thesis by (simp add: merge_classes_sym)
    next
      case False
      then have "x = ra" "y = rb" by (simp_all add: x_def y_def)
      with uf_classes_link [OF xy(1-5) total, of a b] q show ?thesis by simp
    qed
    moreover have "unionfind_union (Ptr u) a b = Some (1, Ptr v')"
      using a b f(1,2) False get l(1) by (auto simp: unionfind_union_def x_def y_def)
    ultimately show ?thesis using l same False f(7,8) cls by auto
  qed
qed

section \<open>Construction and copying\<close>

lemma unionfind_reset_loop_ok:
  assumes "holds p (take i [0..<n])" and "holds s (replicate i 1)" and "i \<le> n"
    and "n \<le> length (slots p)" and "n \<le> length (slots s)"
  shows "\<exists>p' s'. unionfind_reset_loop [i..<n] p s = Some (p', s') \<and> holds p' [0..<n]
    \<and> holds s' (replicate n 1) \<and> (p' = NULL \<longleftrightarrow> p = NULL) \<and> (s' = NULL \<longleftrightarrow> s = NULL)"
  using assms
proof (induction "n - i" arbitrary: i p s)
  case (Suc k)
  then have i: "i < n" by simp
  have len: "length (take i [0..<n]) = i" "length (replicate i (1 :: nat)) = i" using i by simp_all
  have lt: "i < length (slots p)" "i < length (slots s)" using i Suc.prems by simp_all
  obtain p1 where p1: "buf_put p i (Some i) = Some p1" "holds p1 (take i [0..<n] @ [i])"
    "length (slots p1) = length (slots p)" "p1 \<noteq> NULL"
    using holds_put_new [OF Suc.prems(1), of i] unfolding len using lt by blast
  obtain s1 where s1: "buf_put s i (Some 1) = Some s1" "holds s1 (replicate i 1 @ [1])"
    "length (slots s1) = length (slots s)" "s1 \<noteq> NULL"
    using holds_put_new [OF Suc.prems(2), of 1] unfolding len using lt by blast
  have "take (Suc i) [0..<n] = take i [0..<n] @ [i]" using i by (simp add: take_Suc_conv_app_nth)
  then have h: "holds p1 (take (Suc i) [0..<n])" "holds s1 (replicate (Suc i) 1)"
    using p1(2) s1(2) by (simp_all add: replicate_append_same)
  have ih: "k = n - Suc i" "Suc i \<le> n" "n \<le> length (slots p1)" "n \<le> length (slots s1)"
    using Suc.hyps(2) Suc.prems(4,5) p1(3) s1(3) i by simp_all
  have "p \<noteq> NULL" "s \<noteq> NULL" using lt by auto
  then show ?case
    using Suc.hyps(1) [OF ih(1) h ih(2-4)] p1(1,4) s1(1,4) i
    by (auto simp: upt_conv_Cons simp del: upt_Suc)
qed simp

lemma root_of_identity: "root_of [0..<n] x r \<longleftrightarrow> x < n \<and> r = x"
proof
  assume "root_of [0..<n] x r"
  then have "x < n" using root_ofD by fastforce
  then have "climb [0..<n] x 0 x" by (intro climb.at_root) auto
  with \<open>root_of [0..<n] x r\<close> \<open>x < n\<close> show "x < n \<and> r = x"
    using climb_det unfolding root_of_def by blast
qed (auto simp: root_of_def intro!: exI [of _ 0] climb.at_root)

lemma uf_rel_identity:
  assumes "holds (u_parents u) [0..<n]" "holds (u_sizes u) (replicate n 1)" "u_size u = n" "u_set_count u = n"
    and "u_parents u = NULL \<longleftrightarrow> n = 0" "u_sizes u = NULL \<longleftrightarrow> n = 0" "n * 8 \<le> PTRDIFF_MAX"
  shows "uf_rel u [0..<n] (replicate n 1)"
proof -
  have "\<exists>d r. climb [0..<n] x d r \<and> 2 ^ d \<le> replicate n (1 :: nat) ! r" if "x < n" for x
    using that by (intro exI [of _ 0] exI [of _ x]) (auto intro: climb.at_root)
  moreover have "replicate n (1 :: nat) ! r = card {x. root_of [0..<n] x r}" if "r < n" for r
  proof -
    have "{x. root_of [0..<n] x r} = {r}" using that by (auto simp: root_of_identity)
    then show ?thesis using that by simp
  qed
  moreover have "{r. r < n \<and> [0..<n] ! r = r} = {..<n}" by auto
  ultimately show ?thesis using assms by (simp add: uf_rel_def)
qed

lemma unionfind_reset_ok:
  assumes "u_size u \<le> length (slots (u_parents u))" "u_size u \<le> length (slots (u_sizes u))"
    and "u_parents u = NULL \<longleftrightarrow> u_size u = 0" "u_sizes u = NULL \<longleftrightarrow> u_size u = 0"
    and "u_size u * 8 \<le> PTRDIFF_MAX"
  shows "\<exists>v. unionfind_reset (Ptr u) = Some (0, Ptr v) \<and> uf_rel v [0..<u_size u] (replicate (u_size u) 1)
    \<and> uf_own v = uf_own u \<and> u_size v = u_size u"
proof -
  have "holds (u_parents u) (take 0 [0..<u_size u])" "holds (u_sizes u) (replicate 0 1)" by simp_all
  from unionfind_reset_loop_ok [OF this _ assms(1,2)] obtain p s where
    l: "unionfind_reset_loop [0..<u_size u] (u_parents u) (u_sizes u) = Some (p, s)"
    "holds p [0..<u_size u]" "holds s (replicate (u_size u) 1)"
    "p = NULL \<longleftrightarrow> u_parents u = NULL" "s = NULL \<longleftrightarrow> u_sizes u = NULL" by blast
  let ?v = "u\<lparr>u_parents := p, u_sizes := s, u_set_count := u_size u\<rparr>"
  have "uf_rel ?v [0..<u_size u] (replicate (u_size u) 1)"
    by (rule uf_rel_identity) (use l assms in simp_all)
  moreover have "blocks p = blocks (u_parents u)" "blocks s = blocks (u_sizes u)"
    using l(4,5) by (auto simp: blocks_def split: ptr.splits)
  ultimately show ?thesis using l(1) by (simp add: unionfind_reset_def uf_own_def)
qed

lemma unionfind_resize_ok:
  assumes r: "unionfind_resize u n w = (rc, v, w')" and n: "n * 8 \<le> SIZE_MAX"
  shows "live w' - uf_own v = live w - uf_own u \<and> destroyed w' = destroyed w
    \<and> (no_fail w \<longrightarrow> no_fail w' \<and> (n * 8 \<le> PTRDIFF_MAX \<longrightarrow> rc = 0))
    \<and> (rc = - 1 \<and> v = u
       \<or> rc = 0 \<and> n * 8 \<le> PTRDIFF_MAX \<and> u_size v = n \<and> u_set_count v = n
         \<and> u_parents v = (if n = 0 then NULL else buf_new n)
         \<and> u_sizes v = (if n = 0 then NULL else buf_new n))"
proof (cases "n = 0")
  case True
  with r show ?thesis by (auto simp: unionfind_resize_def uf_own_def)
next
  case False
  obtain ok w1 where m: "malloc (n * 8) w = (ok, w1)" by fastforce
  obtain ok2 w2 where m2: "malloc (n * 8) w1 = (ok2, w2)" by fastforce
  note M = malloc_effect [OF m] and M2 = malloc_effect [OF m2]
  show ?thesis
  proof (cases "ok \<and> ok2")
    case True
    with r False m m2 n have "rc = 0" "v = u\<lparr>u_parents := buf_new n, u_sizes := buf_new n,
        u_size := n, u_set_count := n\<rparr>" "w' = free_ptr (u_sizes u) (free_ptr (u_parents u) w2)"
      by (simp_all add: unionfind_resize_def)
    then show ?thesis
      using M(1,3,4,5) M2(1,3,5) True False by (auto simp: uf_own_def buf_new_def)
  next
    case bad: False
    with r False m m2 n have "rc = - 1" "v = u" "w' = (if ok then free_block w2 else w1)"
      by (cases ok; cases ok2; simp add: unionfind_resize_def)+
    moreover have "\<not> (no_fail w \<and> n * 8 \<le> PTRDIFF_MAX)" using bad M(5,6) M2(6) by blast
    ultimately show ?thesis using M(1,3,5) M2(1,3,5) bad by auto
  qed
qed

lemma unionfind_init_ok:
  assumes n: "n * 8 \<le> SIZE_MAX"
  shows "\<exists>rc u w'. unionfind_init (Ptr u0) n w = Some (rc, Ptr u, w') \<and> destroyed w' = destroyed w
    \<and> live w' - uf_own u = live w \<and> (no_fail w \<longrightarrow> no_fail w' \<and> (n * 8 \<le> PTRDIFF_MAX \<longrightarrow> rc = 0))
    \<and> (rc = 0 \<and> u_size u = n \<and> uf_rel u [0..<n] (replicate n 1)
       \<or> rc = - 1 \<and> u_size u = 0 \<and> uf_rel u [] [])"
proof -
  let ?u0 = "\<lparr>u_size = 0, u_set_count = 0, u_parents = NULL, u_sizes = NULL\<rparr>"
  obtain rc u1 w1 where r: "unionfind_resize ?u0 n w = (rc, u1, w1)" by (metis prod_cases3)
  note R = unionfind_resize_ok [OF r n]
  have own0: "uf_own ?u0 = 0" by (simp add: uf_own_def)
  show ?thesis
  proof (cases "rc = 0")
    case False
    then have "unionfind_init (Ptr u0) n w = Some (- 1, Ptr ?u0, w1)"
      using r R by (simp add: unionfind_init_def)
    moreover have "uf_rel ?u0 [] []" by (simp add: uf_rel_def)
    ultimately show ?thesis using R False own0
      by (intro exI [of _ "- 1"] exI [of _ ?u0] exI [of _ w1]) auto
  next
    case True
    with R have u1: "n * 8 \<le> PTRDIFF_MAX" "u_size u1 = n" "u_parents u1 = (if n = 0 then NULL else buf_new n)"
      "u_sizes u1 = (if n = 0 then NULL else buf_new n)" by auto
    have "\<exists>v. unionfind_reset (Ptr u1) = Some (0, Ptr v) \<and> uf_rel v [0..<u_size u1] (replicate (u_size u1) 1)
        \<and> uf_own v = uf_own u1 \<and> u_size v = u_size u1"
      by (rule unionfind_reset_ok) (use u1 in \<open>simp_all add: buf_new_def\<close>)
    then obtain v where v: "unionfind_reset (Ptr u1) = Some (0, Ptr v)" "u_size v = u_size u1"
      "uf_rel v [0..<u_size u1] (replicate (u_size u1) 1)" "uf_own v = uf_own u1" by blast
    then have "unionfind_init (Ptr u0) n w = Some (0, Ptr v, w1)"
      using r True by (simp add: unionfind_init_def)
    then show ?thesis using R True own0 v u1
      by (intro exI [of _ 0] exI [of _ v] exI [of _ w1]) auto
  qed
qed

lemma buf_copy_new:
  assumes "holds s xs" and "length xs = n"
  shows "\<exists>b. buf_copy (buf_new n) s n = Some b \<and> holds b xs \<and> b \<noteq> NULL"
  using assms by (auto simp: buf_copy_def buf_new_def holds_def)

lemma unionfind_copy_ok:
  assumes s: "uf_rel s ps szs"
  shows "\<exists>rc v w'. unionfind_copy False (Ptr d) (Ptr s) w = Some (rc, Ptr v, w')
    \<and> live w' - uf_own v = live w - uf_own d \<and> destroyed w' = destroyed w
    \<and> (no_fail w \<longrightarrow> no_fail w' \<and> rc = 0) \<and> (rc = 0 \<and> uf_rel v ps szs \<or> rc = - 1 \<and> v = d)"
proof -
  note D = uf_relD [OF s]
  let ?n = "u_size s"
  have n: "?n * 8 \<le> SIZE_MAX" using D(7) SIZE_MAX_PTRDIFF_MAX by linarith
  obtain rc u1 w1 where r: "unionfind_resize d ?n w = (rc, u1, w1)" by (metis prod_cases3)
  note R = unionfind_resize_ok [OF r n]
  consider "rc = - 1" | "rc = 0" "?n = 0" | "rc = 0" "?n \<noteq> 0" using R by auto
  then show ?thesis
  proof cases
    case 1
    then have "unionfind_copy False (Ptr d) (Ptr s) w = Some (- 1, Ptr d, w1)"
      using r R by (simp add: unionfind_copy_def)
    then show ?thesis using R 1 D(7) by (intro exI [of _ "- 1"] exI [of _ d] exI [of _ w1]) auto
  next
    case 2
    let ?v = "u1\<lparr>u_set_count := u_set_count s\<rparr>"
    have "unionfind_copy False (Ptr d) (Ptr s) w = Some (0, Ptr ?v, w1)"
      using r 2 by (simp add: unionfind_copy_def)
    moreover have "uf_rel ?v ps szs" using R 2 s by (auto simp: uf_rel_def)
    ultimately show ?thesis using R 2
      by (intro exI [of _ 0] exI [of _ ?v] exI [of _ w1]) (auto simp: uf_own_def)
  next
    case 3
    obtain p where p: "buf_copy (buf_new ?n) (u_parents s) ?n = Some p" "holds p ps" "p \<noteq> NULL"
      using buf_copy_new [OF D(1,3)] by blast
    obtain z where z: "buf_copy (buf_new ?n) (u_sizes s) ?n = Some z" "holds z szs" "z \<noteq> NULL"
      using buf_copy_new [OF D(2,4)] by blast
    have u1: "u_size u1 = ?n" "u_parents u1 = buf_new ?n" "u_sizes u1 = buf_new ?n" using R 3 by auto
    let ?v = "u1\<lparr>u_parents := p, u_sizes := z, u_set_count := u_set_count s\<rparr>"
    have "unionfind_copy False (Ptr d) (Ptr s) w = Some (0, Ptr ?v, w1)"
      using r 3 p(1) z(1) u1 by (simp add: unionfind_copy_def)
    moreover have "uf_rel ?v ps szs" using D p z u1 s 3 by (simp add: uf_rel_def)
    moreover have "uf_own ?v = uf_own u1" using p(3) z(3) u1
      by (cases p; cases z) (simp_all add: uf_own_def buf_new_def)
    ultimately show ?thesis using R 3
      by (intro exI [of _ 0] exI [of _ ?v] exI [of _ w1]) auto
  qed
qed

lemma unionfind_destroy_ok:
  "\<exists>v w'. unionfind_destroy (Ptr u) w = (Ptr v, w') \<and> uf_rel v [] [] \<and> uf_own v = 0
    \<and> live w' = live w - uf_own u \<and> destroyed w' = destroyed w \<and> no_fail w' = no_fail w"
  by (simp add: unionfind_destroy_def uf_rel_def uf_own_def)

section \<open>Sequences of unions\<close>

text \<open>The connectivity relation of a list of edges on the elements below \<open>n\<close>.\<close>

definition connected :: "nat \<Rightarrow> (nat \<times> nat) list \<Rightarrow> (nat \<times> nat) set" where
  "connected n es = {(x, y). x < n \<and> y < n \<and> (x, y) \<in> (set es \<union> (set es)\<inverse>)\<^sup>*}"

lemma uf_classes_identity: "uf_classes [0..<n] = connected n []"
  by (auto simp: uf_classes_def connected_def root_of_identity)

lemma merge_connected:
  assumes "a < n" and "b < n"
  shows "merge_classes (connected n es) a b = connected n (es @ [(a, b)])"
proof -
  let ?T = "set es \<union> (set es)\<inverse>"
  have T: "set (es @ [(a, b)]) \<union> (set (es @ [(a, b)]))\<inverse> = insert (a, b) (insert (b, a) ?T)" by auto
  have trans: "(x, y) \<in> ?T\<^sup>* \<Longrightarrow> (y, z) \<in> ?T\<^sup>* \<Longrightarrow> (x, z) \<in> ?T\<^sup>*" for x y z
    by (rule rtrancl_trans)
  have "(x, y) \<in> (insert (a, b) (insert (b, a) ?T))\<^sup>* \<longleftrightarrow>
      (x, y) \<in> ?T\<^sup>* \<or> (x, a) \<in> ?T\<^sup>* \<and> (b, y) \<in> ?T\<^sup>* \<or> (x, b) \<in> ?T\<^sup>* \<and> (a, y) \<in> ?T\<^sup>*" for x y
    unfolding rtrancl_insert by (auto intro: trans)
  then show ?thesis
    unfolding connected_def merge_classes_def T using assms by auto
qed

fun union_all :: "(nat \<times> nat) list \<Rightarrow> unionfind \<Rightarrow> (int list \<times> unionfind) option" where
  "union_all [] u = Some ([], u)"
| "union_all ((a, b) # es) u = do {
     (rc, p) \<leftarrow> unionfind_union (Ptr u) a b;
     (rcs, v) \<leftarrow> union_all es (pt p);
     Some (rc # rcs, v) }"

lemma union_all_ok:
  assumes "uf_rel u ps szs" and "uf_classes ps = connected (u_size u) done_es"
    and "\<forall>(a, b) \<in> set es. a < u_size u \<and> b < u_size u"
  shows "\<exists>rcs v qs szs'. union_all es u = Some (rcs, v) \<and> uf_rel v qs szs' \<and> u_size v = u_size u
    \<and> uf_classes qs = connected (u_size u) (done_es @ es)"
  using assms
proof (induction es arbitrary: u ps szs done_es)
  case (Cons e es)
  obtain a b where e: "e = (a, b)" by fastforce
  with Cons.prems(3) have ab: "a < u_size u" "b < u_size u" by auto
  obtain rc v qs szs' where s: "unionfind_union (Ptr u) a b = Some (rc, Ptr v)" "uf_rel v qs szs'"
    "u_size v = u_size u" "uf_classes qs = merge_classes (uf_classes ps) a b"
    using unionfind_union_ok [OF Cons.prems(1) ab] by blast
  have cls: "uf_classes qs = connected (u_size v) (done_es @ [(a, b)])"
    using s(3,4) Cons.prems(2) merge_connected [OF ab] by simp
  have "\<forall>(a, b) \<in> set es. a < u_size v \<and> b < u_size v" using Cons.prems(3) s(3) by simp
  from Cons.IH [OF s(2) cls this] obtain rcs v' qs' szs'' where
    "union_all es v = Some (rcs, v')" "uf_rel v' qs' szs''" "u_size v' = u_size v"
    "uf_classes qs' = connected (u_size v) ((done_es @ [(a, b)]) @ es)"
    by (elim exE conjE) (rule that)
  with s show ?case
    by (intro exI [of _ "rc # rcs"] exI [of _ v'] exI [of _ qs'] exI [of _ szs'']) (simp add: e)
qed auto

lemma uf_set_count: "uf_rel u ps szs \<Longrightarrow> u_set_count u = card ({..<u_size u} // uf_classes ps)"
  using uf_relD(3,10) [of u ps szs] uf_classes_card [OF uf_rel_total] by metis

section \<open>Properties\<close>

text \<open>The abstract machine: an equivalence relation \<open>E\<close> on the elements below \<open>n\<close>.\<close>

datatype uf_op = UFind size_t | UUnion size_t size_t | USame size_t size_t | USetSize size_t | UReset

definition uf_exec :: "uf_op \<Rightarrow> unionfind \<Rightarrow> (int \<times> unionfind ptr) option" where
  "uf_exec op u = (case op of
       UFind x \<Rightarrow> map_option (\<lambda>(r, p). (int r, p)) (unionfind_find (Ptr u) x)
     | UUnion a b \<Rightarrow> unionfind_union (Ptr u) a b
     | USame a b \<Rightarrow> unionfind_same (Ptr u) a b
     | USetSize x \<Rightarrow> map_option (\<lambda>(r, p). (int r, p)) (unionfind_set_size (Ptr u) x)
     | UReset \<Rightarrow> unionfind_reset (Ptr u))"

fun uf_spec :: "nat \<Rightarrow> uf_op \<Rightarrow> (nat \<times> nat) set \<Rightarrow> int \<Rightarrow> (nat \<times> nat) set \<Rightarrow> bool" where
  "uf_spec n (UFind x) E rc E' \<longleftrightarrow> E' = E
     \<and> (if x < n then 0 \<le> rc \<and> (x, nat rc) \<in> E else rc = int UNIONFIND_INVALID)"
| "uf_spec n (UUnion a b) E rc E' \<longleftrightarrow>
     (if a < n \<and> b < n then E' = merge_classes E a b \<and> rc = (if (a, b) \<in> E then 0 else 1)
      else E' = E \<and> rc = - 1)"
| "uf_spec n (USame a b) E rc E' \<longleftrightarrow> E' = E
     \<and> rc = (if a < n \<and> b < n then if (a, b) \<in> E then 1 else 0 else - 1)"
| "uf_spec n (USetSize x) E rc E' \<longleftrightarrow> E' = E \<and> rc = (if x < n then int (card (E `` {x})) else 0)"
| "uf_spec n UReset E rc E' \<longleftrightarrow> E' = Id_on {..<n} \<and> rc = 0"

text \<open>each call of the union-find refines the abstract machine on equivalence relations: it
  returns (so both pointer-chasing loops end and stay inside the arrays), its result is the one the
  relation determines, for valid and invalid ids, path compression does not change the relation, and
  \<open>set_count\<close> is the number of equivalence classes afterwards.\<close>

theorem unionfind_refines:
  assumes u: "uf_rel u ps szs"
  shows "\<exists>rc v qs szs'. uf_exec op u = Some (rc, Ptr v) \<and> uf_rel v qs szs' \<and> u_size v = u_size u
    \<and> uf_spec (u_size u) op (uf_classes ps) rc (uf_classes qs)
    \<and> u_set_count v = card ({..<u_size u} // uf_classes qs)"
proof -
  have stay: "?thesis" if "uf_exec op u = Some (rc, Ptr u)"
    "uf_spec (u_size u) op (uf_classes ps) rc (uf_classes ps)" for rc
    using that u uf_set_count [OF u] by blast
  have move: "?thesis" if "uf_exec op u = Some (rc, Ptr v)" "uf_rel v qs szs'" "u_size v = u_size u"
    "uf_spec (u_size u) op (uf_classes ps) rc (uf_classes qs)" for rc v qs szs'
    using that uf_set_count [OF that(2)] by auto
  show ?thesis
  proof (cases op)
    case (UFind x)
    show ?thesis
    proof (cases "x < u_size u")
      case True
      obtain r b qs where f: "unionfind_find (Ptr u) x = Some (r, Ptr (u\<lparr>u_parents := b\<rparr>))" "root_of ps x r"
        "uf_rel (u\<lparr>u_parents := b\<rparr>) qs szs" "root_of qs = root_of ps"
        using unionfind_find_ok [OF u True] by blast
      have "root_of ps r r" using root_ofD [OF f(2)] root_of_self by auto
      with f(2) have "(x, r) \<in> uf_classes ps" using uf_classes_same by blast
      then show ?thesis
        using f UFind True uf_classes_cong [OF f(4)]
        by (intro move [of "int r" "u\<lparr>u_parents := b\<rparr>" qs szs]) (simp_all add: uf_exec_def)
    qed (use UFind in \<open>intro stay [of "int UNIONFIND_INVALID"], simp_all add: uf_exec_def unionfind_find_def\<close>)
  next
    case (UUnion a b)
    show ?thesis
    proof (cases "a < u_size u \<and> b < u_size u")
      case True
      then obtain rc v qs szs' where "unionfind_union (Ptr u) a b = Some (rc, Ptr v)" "uf_rel v qs szs'"
        "u_size v = u_size u" "uf_classes qs = merge_classes (uf_classes ps) a b"
        "(a, b) \<in> uf_classes ps \<and> rc = 0 \<and> u_set_count v = u_set_count u
          \<or> (a, b) \<notin> uf_classes ps \<and> rc = 1 \<and> Suc (u_set_count v) = u_set_count u"
        using unionfind_union_ok [OF u, of a b] by blast
      with True UUnion show ?thesis
        by (intro move [of rc v qs szs']) (auto simp: uf_exec_def)
    qed (use UUnion in \<open>intro stay [of "- 1"], auto simp: uf_exec_def unionfind_union_def\<close>)
  next
    case (USame a b)
    show ?thesis
    proof (cases "a < u_size u \<and> b < u_size u")
      case True
      then obtain v qs where "unionfind_same (Ptr u) a b = Some (if (a, b) \<in> uf_classes ps then 1 else 0, Ptr v)"
        "uf_rel v qs szs" "uf_classes qs = uf_classes ps" "u_size v = u_size u"
        using unionfind_same_ok [OF u, of a b] by blast
      with True USame show ?thesis
        by (intro move [of "if (a, b) \<in> uf_classes ps then 1 else 0" v qs szs]) (simp_all add: uf_exec_def)
    qed (use USame in \<open>intro stay [of "- 1"], auto simp: uf_exec_def unionfind_same_def\<close>)
  next
    case (USetSize x)
    show ?thesis
    proof (cases "x < u_size u")
      case True
      then obtain v qs where "unionfind_set_size (Ptr u) x = Some (card (uf_classes ps `` {x}), Ptr v)"
        "uf_rel v qs szs" "uf_classes qs = uf_classes ps" "u_size v = u_size u"
        using unionfind_set_size_ok [OF u True] by blast
      with True USetSize show ?thesis
        by (intro move [of "int (card (uf_classes ps `` {x}))" v qs szs]) (simp_all add: uf_exec_def)
    qed (use USetSize in \<open>intro stay [of 0], simp_all add: uf_exec_def unionfind_set_size_def\<close>)
  next
    case UReset
    note D = uf_relD [OF u]
    have "uf_classes [0..<u_size u] = Id_on {..<u_size u}"
      by (auto simp: uf_classes_def root_of_identity)
    moreover obtain v where "unionfind_reset (Ptr u) = Some (0, Ptr v)" "u_size v = u_size u"
      "uf_rel v [0..<u_size u] (replicate (u_size u) 1)"
      using unionfind_reset_ok [of u] D(1-7) by (auto simp: holds_def)
    ultimately show ?thesis
      using UReset by (intro move [of 0 v]) (simp_all add: uf_exec_def)
  qed
qed

definition uf_example :: unionfind where
  "uf_example = \<lparr>u_size = 4, u_set_count = 2, u_parents = Ptr [Some 0, Some 0, Some 0, Some 3],
     u_sizes = Ptr [Some 3, Some 0, Some 0, Some 1]\<rparr>"

lemma uf_example_rel: "uf_rel uf_example [0, 0, 0, 3] [3, 0, 0, 1]"
proof -
  let ?ps = "[0, 0, 0, 3] :: nat list"
  have root: "climb ?ps 0 0 0" "climb ?ps 3 0 3" by (intro climb.at_root; simp)+
  have kid: "climb ?ps 1 1 0" "climb ?ps 2 1 0"
    using climb.up [of 1 ?ps 0 0] climb.up [of 2 ?ps 0 0] root by simp_all
  have four: "x = 0 \<or> x = 1 \<or> x = 2 \<or> x = 3" if "x < 4" for x :: nat
    using that by linarith
  have roots: "root_of ?ps x r \<longleftrightarrow> x = 3 \<and> r = 3 \<or> x < 3 \<and> r = 0" for x r
  proof
    assume x: "root_of ?ps x r"
    then have "x < 4" using root_ofD by fastforce
    with four have "root_of ?ps x (if x = 3 then 3 else 0)"
      using root kid by (auto simp: root_of_def)
    with x have "r = (if x = 3 then 3 else 0)" by (rule root_of_det)
    with \<open>x < 4\<close> show "x = 3 \<and> r = 3 \<or> x < 3 \<and> r = 0" by auto
  next
    assume "x = 3 \<and> r = 3 \<or> x < 3 \<and> r = 0"
    then have "x = 3 \<and> r = 3 \<or> x = 0 \<and> r = 0 \<or> x = 1 \<and> r = 0 \<or> x = 2 \<and> r = 0" by linarith
    then show "root_of ?ps x r" using root kid by (auto simp: root_of_def)
  qed
  have "{x. root_of ?ps x 0} = {0, 1, 2}" "{x. root_of ?ps x 1} = {}" "{x. root_of ?ps x 2} = {}"
    "{x. root_of ?ps x 3} = {3}"
    unfolding roots by auto
  then have "[3, 0, 0, 1] ! r = card {x. root_of ?ps x r}" if "r < 4" for r
    using four [OF that] by auto
  moreover have "\<exists>d r. climb ?ps x d r \<and> 2 ^ d \<le> [3, 0, 0, 1 :: nat] ! r" if "x < 4" for x
    using four [OF that] root kid by (elim disjE) (force intro: exI [of _ 0] exI [of _ 1])+
  moreover have "{r. r < length ?ps \<and> ?ps ! r = r} = {0, 3}"
    by (auto simp: less_Suc_eq)
  then have "card {r. r < length ?ps \<and> ?ps ! r = r} = 2" by simp
  ultimately show ?thesis
    by (simp add: uf_rel_def uf_example_def holds_def PTRDIFF_MAX_def)
qed

theorem unionfind_refines_witness:
  "\<exists>rc v qs szs'. uf_exec (UUnion 1 3) uf_example = Some (rc, Ptr v) \<and> uf_rel v qs szs'
    \<and> u_size v = u_size uf_example
    \<and> uf_spec (u_size uf_example) (UUnion 1 3) (uf_classes [0, 0, 0, 3]) rc (uf_classes qs)
    \<and> u_set_count v = card ({..<u_size uf_example} // uf_classes qs)"
  by (rule unionfind_refines [OF uf_example_rel])

text \<open>C32: connectivity. After initialising \<open>n\<close> elements and uniting the ends of a list of edges,
  two elements are reported to be in the same set exactly when the edges connect them, and the set
  count is the number of connected components.\<close>

theorem unionfind_connectivity:
  assumes "n * 8 \<le> PTRDIFF_MAX" and "no_fail w"
    and "\<forall>(a, b) \<in> set es. a < n \<and> b < n" and "x < n" and "y < n"
  shows "\<exists>u w' rcs v p. unionfind_init (Ptr u0) n w = Some (0, Ptr u, w')
    \<and> union_all es u = Some (rcs, v)
    \<and> u_set_count v = card ({..<n} // connected n es)
    \<and> unionfind_same (Ptr v) x y = Some (if (x, y) \<in> connected n es then 1 else 0, p)"
proof -
  have "n * 8 \<le> SIZE_MAX" using assms(1) SIZE_MAX_PTRDIFF_MAX by linarith
  from unionfind_init_ok [OF this, of u0 w] assms(1,2) obtain u w' where
    u: "unionfind_init (Ptr u0) n w = Some (0, Ptr u, w')" "u_size u = n" "uf_rel u [0..<n] (replicate n 1)"
    by auto
  have cls: "uf_classes [0..<n] = connected (u_size u) []"
    unfolding u(2) by (rule uf_classes_identity)
  have es: "\<forall>(a, b) \<in> set es. a < u_size u \<and> b < u_size u" using assms(3) u(2) by simp
  obtain rcs v qs szs' where v: "union_all es u = Some (rcs, v)" "uf_rel v qs szs'" "u_size v = n"
    "uf_classes qs = connected n es"
    using union_all_ok [OF u(3) cls es] u(2) by auto
  have "x < u_size v" "y < u_size v" using assms(4,5) v(3) by simp_all
  from unionfind_same_ok [OF v(2) this] obtain v' where
    "unionfind_same (Ptr v) x y = Some (if (x, y) \<in> connected n es then 1 else 0, Ptr v')"
    unfolding v(4) by blast
  with u(1) v(1) uf_set_count [OF v(2)] v(3,4) show ?thesis by metis
qed

theorem unionfind_connectivity_witness:
  "\<exists>u w' rcs v p. unionfind_init (Ptr uf_example) 5 (script [] []) = Some (0, Ptr u, w')
    \<and> union_all [(0, 1), (3, 4), (1, 0)] u = Some (rcs, v)
    \<and> u_set_count v = card ({..<5} // connected 5 [(0, 1), (3, 4), (1, 0)])
    \<and> unionfind_same (Ptr v) 4 3 = Some (if (4, 3) \<in> connected 5 [(0, 1), (3, 4), (1, 0)] then 1 else 0, p)"
  by (rule unionfind_connectivity) (simp_all add: PTRDIFF_MAX_def no_fail_def script_def)

text \<open>One call of \<open>unionfind_find\<close>: the distance to the root is logarithmic in the size of the set
  by the invariant, and at most 1 after the call.\<close>

lemma unionfind_find_depth:
  assumes u: "uf_rel u ps szs" and x: "x < u_size u"
  shows "\<exists>d e r v qs. climb ps x d r \<and> 2 ^ d \<le> card (uf_classes ps `` {x})
    \<and> card (uf_classes ps `` {x}) \<le> u_size u
    \<and> unionfind_find (Ptr u) x = Some (r, Ptr v) \<and> unionfind_find_const (Ptr u) x = Some r
    \<and> uf_rel v qs szs \<and> root_of qs = root_of ps \<and> v = u\<lparr>u_parents := u_parents v\<rparr>
    \<and> climb qs x e r \<and> e \<le> 1"
proof -
  note D = uf_relD [OF u]
  obtain r b qs e where f: "unionfind_find (Ptr u) x = Some (r, Ptr (u\<lparr>u_parents := b\<rparr>))" "root_of ps x r"
    "uf_rel (u\<lparr>u_parents := b\<rparr>) qs szs" "root_of qs = root_of ps" "e \<le> 1" "climb qs x e r"
    "unionfind_find_const (Ptr u) x = Some r"
    using unionfind_find_ok [OF u x] by blast
  obtain d s where d: "climb ps x d s" "2 ^ d \<le> szs ! s" using D(8) [of x] x D(3) by auto
  then have "root_of ps x s" by (auto simp: root_of_def)
  then have s: "s = r" using f(2) by (rule root_of_det)
  have r: "r < length ps" using root_ofD [OF f(2)] by simp
  have img: "uf_classes ps `` {x} = {y. root_of ps y r}" by (rule uf_classes_image [OF f(2)])
  then have "2 ^ d \<le> card (uf_classes ps `` {x})" using d(2) s D(9) [OF r] by simp
  moreover have "uf_classes ps `` {x} \<subseteq> {..<u_size u}" unfolding img using root_ofD D(3) by fastforce
  from card_mono [OF finite_lessThan this] have "card (uf_classes ps `` {x}) \<le> u_size u" by simp
  ultimately show ?thesis
    using d(1) f s by (intro exI [of _ d] exI [of _ e] exI [of _ r] exI [of _ "u\<lparr>u_parents := b\<rparr>"]
        exI [of _ qs]) simp
qed

text \<open>C33: the loops of \<open>unionfind_find\<close> are short. After initialising \<open>n\<close> elements and uniting the ends
  of any list of edges, the parent array leads from every element \<open>x\<close> to its root in \<open>d\<close> steps, where
  \<open>2 ^ d\<close> is at most the number of elements that the edges connect to \<open>x\<close> and so at most \<open>n\<close>: this is what
  union by size achieves. \<open>unionfind_find_const\<close> and \<open>unionfind_find\<close> return that root, and the path
  compression of \<open>unionfind_find\<close> leaves \<open>x\<close> at most one step from it, with the roots of all elements, the
  sizes and the set count as they were.\<close>

theorem unionfind_depth:
  assumes "n * 8 \<le> PTRDIFF_MAX" and "no_fail w"
    and "\<forall>(a, b) \<in> set es. a < n \<and> b < n" and "x < n"
  shows "\<exists>u w' rcs v ps d r v' qs e. unionfind_init (Ptr u0) n w = Some (0, Ptr u, w')
    \<and> union_all es u = Some (rcs, v)
    \<and> holds (u_parents v) ps \<and> length ps = n \<and> climb ps x d r
    \<and> 2 ^ d \<le> card (connected n es `` {x}) \<and> card (connected n es `` {x}) \<le> n
    \<and> unionfind_find_const (Ptr v) x = Some r \<and> unionfind_find (Ptr v) x = Some (r, Ptr v')
    \<and> holds (u_parents v') qs \<and> length qs = n \<and> climb qs x e r \<and> e \<le> 1
    \<and> root_of qs = root_of ps \<and> u_sizes v' = u_sizes v \<and> u_set_count v' = u_set_count v"
proof -
  have "n * 8 \<le> SIZE_MAX" using assms(1) SIZE_MAX_PTRDIFF_MAX by linarith
  from unionfind_init_ok [OF this, of u0 w] assms(1,2) obtain u w' where
    u: "unionfind_init (Ptr u0) n w = Some (0, Ptr u, w')" "u_size u = n" "uf_rel u [0..<n] (replicate n 1)"
    by auto
  have cls: "uf_classes [0..<n] = connected (u_size u) []"
    unfolding u(2) by (rule uf_classes_identity)
  have es: "\<forall>(a, b) \<in> set es. a < u_size u \<and> b < u_size u" using assms(3) u(2) by simp
  obtain rcs v ps szs where v: "union_all es u = Some (rcs, v)" "uf_rel v ps szs" "u_size v = n"
    "uf_classes ps = connected n es"
    using union_all_ok [OF u(3) cls es] u(2) by auto
  have "x < u_size v" using assms(4) v(3) by simp
  from unionfind_find_depth [OF v(2) this] obtain d e r v' qs where
    f: "climb ps x d r" "2 ^ d \<le> card (uf_classes ps `` {x})" "card (uf_classes ps `` {x}) \<le> u_size v"
      "unionfind_find (Ptr v) x = Some (r, Ptr v')" "unionfind_find_const (Ptr v) x = Some r"
      "uf_rel v' qs szs" "root_of qs = root_of ps" "v' = v\<lparr>u_parents := u_parents v'\<rparr>" "climb qs x e r" "e \<le> 1"
    by (elim exE conjE) (rule that)
  have same: "u_sizes v' = u_sizes v" "u_set_count v' = u_set_count v" "u_size v' = n"
    by (subst f(8), simp add: v(3))+
  show ?thesis
    using u(1) v(1) f(1-5,7,9,10) same uf_relD(1,3) [OF v(2)] uf_relD(1,3) [OF f(6)]
    unfolding v(3,4) same(3)
    by (intro exI [of _ u] exI [of _ w'] exI [of _ rcs] exI [of _ v] exI [of _ ps] exI [of _ d] exI [of _ r]
        exI [of _ v'] exI [of _ qs] exI [of _ e] conjI)
qed

theorem unionfind_depth_witness:
  "\<exists>u w' rcs v ps d r v' qs e. unionfind_init (Ptr uf_example) 5 (script [] []) = Some (0, Ptr u, w')
    \<and> union_all [(0, 1), (3, 4), (1, 4)] u = Some (rcs, v)
    \<and> holds (u_parents v) ps \<and> length ps = 5 \<and> climb ps 4 d r
    \<and> 2 ^ d \<le> card (connected 5 [(0, 1), (3, 4), (1, 4)] `` {4}) \<and> card (connected 5 [(0, 1), (3, 4), (1, 4)] `` {4}) \<le> 5
    \<and> unionfind_find_const (Ptr v) 4 = Some r \<and> unionfind_find (Ptr v) 4 = Some (r, Ptr v')
    \<and> holds (u_parents v') qs \<and> length qs = 5 \<and> climb qs 4 e r \<and> e \<le> 1
    \<and> root_of qs = root_of ps \<and> u_sizes v' = u_sizes v \<and> u_set_count v' = u_set_count v"
  by (rule unionfind_depth) (simp_all add: PTRDIFF_MAX_def no_fail_def script_def)

lemma unionfind_reset_loop_overrun:
  assumes "i \<le> length (slots p)" and "length (slots p) < n"
  shows "unionfind_reset_loop [i..<n] p s = None"
  using assms
proof (induction "length (slots p) - i" arbitrary: i p s)
  case 0
  then show ?case by (simp add: upt_conv_Cons buf_put_def)
next
  case (Suc k)
  then have "unionfind_reset_loop [Suc i..<n] (Ptr ((slots p)[i := Some i])) s1 = None" for s1
    by (intro Suc.hyps(1)) simp_all
  moreover have "i < n" "buf_put p i (Some i) = Some (Ptr ((slots p)[i := Some i]))"
    using Suc.hyps(2) Suc.prems by (simp_all add: buf_put_def)
  ultimately show ?case
    by (cases "buf_put s i (Some 1)") (simp_all add: upt_conv_Cons)
qed

text \<open>\<open>unionfind_init\<close> does not check the byte count \<open>size * sizeof(size_t)\<close>: when it wraps
  around to a number that the allocator grants, both arrays are too short and the reset loop writes
  behind them. From \<open>2 ^ 61\<close> elements on the call is undefined behaviour, not the error \<open>- 1\<close>.\<close>

lemma unionfind_init_wraps:
  assumes "SIZE_MAX < n * 8" and "sz_mul n 8 \<le> PTRDIFF_MAX" and "no_fail w"
  shows "unionfind_init (Ptr u0) n w = None"
proof -
  have n: "n \<noteq> 0" using assms(1) by auto
  obtain ok w1 where m: "malloc (sz_mul n 8) w = (ok, w1)" by fastforce
  obtain ok2 w2 where m2: "malloc (sz_mul n 8) w1 = (ok2, w2)" by fastforce
  note M = malloc_effect [OF m] and M2 = malloc_effect [OF m2]
  have ok: ok and ok2: ok2 using M(5,6) M2(6) assms(2,3) by blast+
  let ?b = "buf_new (sz_mul n 8 div 8) :: nat buf"
  have "sz_mul n 8 < n * 8" using assms(1) sz_mul_bound [of n 8] by linarith
  then have "sz_mul n 8 div 8 < n" by (simp add: less_mult_imp_div_less)
  then have "unionfind_reset_loop [0..<n] ?b ?b = None"
    by (intro unionfind_reset_loop_overrun) (simp_all add: buf_new_def)
  then show ?thesis
    using n m m2 ok ok2 by (simp add: unionfind_init_def unionfind_resize_def unionfind_reset_def Let_def)
qed

end
