(* ===== verification/Bitree.thy ===== *)
theory Bitree
  imports Prelude "HOL-Library.Word"
begin

text \<open>
  \<open>src/bitree.c\<close>: the Fenwick tree of 64-bit sums. Every function of the file is a definition
  of the same name. The C code adds \<open>int64_t\<close> values, where overflow is undefined behaviour:
  \<open>i64\<close> makes it \<open>None\<close>, and so does a failed \<open>assert\<close>. \<open>bit_rel t vs\<close> says that the
  tree \<open>t\<close> stores the values \<open>vs\<close>.
\<close>

section \<open>Model\<close>

record bitree =
  b_size :: size_t
  b_nodes :: "int buf"

definition i64 :: "int \<Rightarrow> int option" where
  "i64 x = (if - 9223372036854775808 \<le> x \<and> x \<le> 9223372036854775807 then Some x else None)"

text \<open>\<open>i & (~i + 1)\<close> on 64-bit words; \<open>assert(i > 0)\<close>.\<close>

definition lowbit :: "size_t \<Rightarrow> size_t" where
  "lowbit i = unat (and (word_of_nat i) (not (word_of_nat i) + 1) :: 64 word)"

definition bitree_lowbit :: "size_t \<Rightarrow> size_t option" where
  "bitree_lowbit i = (if 0 < i then Some (lowbit i) else None)"

partial_function (option) prefix_loop :: "int buf \<Rightarrow> size_t \<Rightarrow> int \<Rightarrow> int option" where
  "prefix_loop nodes cnt acc =
     (if 0 < cnt then do {
        x \<leftarrow> buf_get nodes cnt;
        sum1 \<leftarrow> i64 (acc + x);
        low \<leftarrow> bitree_lowbit cnt;
        prefix_loop nodes (sz_sub cnt low) sum1 }
      else Some acc)"

definition bitree_prefix_sum :: "bitree \<Rightarrow> size_t \<Rightarrow> int option" where
  "bitree_prefix_sum bt cnt = prefix_loop (b_nodes bt) cnt 0"

text \<open>\<open>size + 1\<close> wraps before the call of \<open>calloc\<close>.\<close>

definition bitree_init ::
    "bitree ptr \<Rightarrow> size_t \<Rightarrow> ('a, 'b) world_scheme \<Rightarrow> int \<times> bitree ptr \<times> ('a, 'b) world_scheme" where
  "bitree_init p n w = (case p of NULL \<Rightarrow> (- 1, NULL, w) | Ptr _ \<Rightarrow>
     let (ok, w1) = calloc (sz_add n 1) 8 w in
     if \<not> ok then (- 1, Ptr \<lparr>b_size = 0, b_nodes = NULL\<rparr>, w1)
     else (0, Ptr \<lparr>b_size = n, b_nodes = Ptr (replicate (sz_add n 1) (Some 0))\<rparr>, w1))"

definition bitree_destroy ::
    "bitree ptr \<Rightarrow> ('a, 'b) world_scheme \<Rightarrow> bitree ptr \<times> ('a, 'b) world_scheme" where
  "bitree_destroy p w = (case p of NULL \<Rightarrow> (NULL, w) | Ptr bt \<Rightarrow>
     (Ptr \<lparr>b_size = 0, b_nodes = NULL\<rparr>, free_ptr (b_nodes bt) w))"

definition bitree_new :: "size_t \<Rightarrow> ('a, 'b) world_scheme \<Rightarrow> bitree ptr \<times> ('a, 'b) world_scheme" where
  "bitree_new n w =
     (let (ok, w1) = malloc 16 w in
      if \<not> ok then (NULL, w1)
      else let (rc, p, w2) = bitree_init (Ptr \<lparr>b_size = 0, b_nodes = NULL\<rparr>) n w1 in
        if rc \<noteq> 0 then (NULL, free_block w2) else (p, w2))"

definition bitree_free :: "bitree ptr \<Rightarrow> ('a, 'b) world_scheme \<Rightarrow> ('a, 'b) world_scheme" where
  "bitree_free p w = (case p of NULL \<Rightarrow> w | Ptr _ \<Rightarrow> free_block (snd (bitree_destroy p w)))"

text \<open>\<open>memcpy\<close> and \<open>memset\<close> of the node array.\<close>

definition nodes_copy :: "int buf \<Rightarrow> int buf \<Rightarrow> nat \<Rightarrow> int buf option" where
  "nodes_copy dst src n =
     (if dst \<noteq> NULL \<and> src \<noteq> NULL \<and> n \<le> length (slots dst) \<and> n \<le> length (slots src)
      then Some (Ptr (take n (slots src) @ drop n (slots dst))) else None)"

definition nodes_zero :: "int buf \<Rightarrow> nat \<Rightarrow> int buf option" where
  "nodes_zero b n = (if b \<noteq> NULL \<and> n \<le> length (slots b)
     then Some (Ptr (replicate n (Some 0) @ drop n (slots b))) else None)"

definition bitree_copy ::
    "bool \<Rightarrow> bitree ptr \<Rightarrow> bitree ptr \<Rightarrow> ('a, 'b) world_scheme
     \<Rightarrow> (int \<times> bitree ptr \<times> ('a, 'b) world_scheme) option" where
  "bitree_copy same dst src w =
     (if dst = NULL \<or> src = NULL then Some (- 1, dst, w)
      else if same then Some (0, dst, w)
      else let (dst1, w1) = bitree_destroy dst w; s = pt src;
               (rc, dst2, w2) = bitree_init dst1 (b_size s) w1 in
        if rc \<noteq> 0 then Some (- 1, dst2, w2)
        else do {
          b \<leftarrow> nodes_copy (b_nodes (pt dst2)) (b_nodes s) (sz_add (b_size s) 1);
          Some (0, Ptr ((pt dst2)\<lparr>b_nodes := b\<rparr>), w2) })"

definition bitree_clone ::
    "bitree ptr \<Rightarrow> ('a, 'b) world_scheme \<Rightarrow> (bitree ptr \<times> ('a, 'b) world_scheme) option" where
  "bitree_clone src w = (case src of NULL \<Rightarrow> Some (NULL, w) | Ptr s \<Rightarrow>
     let (copy, w1) = bitree_new (b_size s) w in
     if copy = NULL then Some (NULL, w1)
     else do {
       (rc, copy1, w2) \<leftarrow> bitree_copy False copy src w1;
       if rc \<noteq> 0 then Some (NULL, bitree_free copy1 w2) else Some (copy1, w2) })"

definition bitree_reset :: "bitree ptr \<Rightarrow> (int \<times> bitree ptr) option" where
  "bitree_reset p = (case p of NULL \<Rightarrow> Some (- 1, NULL) | Ptr bt \<Rightarrow> do {
     b \<leftarrow> nodes_zero (b_nodes bt) (sz_add (b_size bt) 1);
     Some (0, Ptr (bt\<lparr>b_nodes := b\<rparr>)) })"

partial_function (option) add_loop :: "int buf \<Rightarrow> size_t \<Rightarrow> size_t \<Rightarrow> int \<Rightarrow> int buf option" where
  "add_loop nodes n i delta =
     (if i \<le> n then do {
        x \<leftarrow> buf_get nodes i;
        y \<leftarrow> i64 (x + delta);
        nodes1 \<leftarrow> buf_put nodes i (Some y);
        low \<leftarrow> bitree_lowbit i;
        add_loop nodes1 n (sz_add i low) delta }
      else Some nodes)"

definition bitree_add :: "bitree ptr \<Rightarrow> size_t \<Rightarrow> int \<Rightarrow> (int \<times> bitree ptr) option" where
  "bitree_add p index delta =
     (if p = NULL \<or> b_size (pt p) \<le> index then Some (- 1, p)
      else do {
        b \<leftarrow> add_loop (b_nodes (pt p)) (b_size (pt p)) (sz_add index 1) delta;
        Some (0, Ptr ((pt p)\<lparr>b_nodes := b\<rparr>)) })"

definition bitree_prefix :: "bitree ptr \<Rightarrow> size_t \<Rightarrow> int option" where
  "bitree_prefix p cnt =
     (if p \<noteq> NULL \<and> cnt \<le> b_size (pt p) then bitree_prefix_sum (pt p) cnt else None)"

definition bitree_range :: "bitree ptr \<Rightarrow> size_t \<Rightarrow> size_t \<Rightarrow> int option" where
  "bitree_range p start stop =
     (if p \<noteq> NULL \<and> start \<le> stop \<and> stop \<le> b_size (pt p) then do {
        x \<leftarrow> bitree_prefix_sum (pt p) stop;
        y \<leftarrow> bitree_prefix_sum (pt p) start;
        i64 (x - y) }
      else None)"

definition bitree_get :: "bitree ptr \<Rightarrow> size_t \<Rightarrow> int option" where
  "bitree_get p index = bitree_range p index (sz_add index 1)"

definition bitree_set :: "bitree ptr \<Rightarrow> size_t \<Rightarrow> int \<Rightarrow> (int \<times> bitree ptr) option" where
  "bitree_set p index value =
     (if p = NULL \<or> b_size (pt p) \<le> index then Some (- 1, p)
      else do {
        current \<leftarrow> bitree_get p index;
        delta \<leftarrow> i64 (value - current);
        bitree_add p index delta })"

section \<open>The lowest set bit\<close>

fun lb :: "nat \<Rightarrow> nat" where
  "lb i = (if i = 0 then 0 else if odd i then 1 else 2 * lb (i div 2))"

declare lb.simps [simp del]

lemma lb_0 [simp]: "lb 0 = 0"
  by (simp add: lb.simps)

lemma lb_odd [simp]: "odd i \<Longrightarrow> lb i = 1"
  by (subst lb.simps) (auto simp: odd_pos)

lemma lb_double [simp]: "lb (2 * i) = 2 * lb i"
  by (cases "i = 0") (simp_all add: lb.simps [of "2 * i"])

lemma lb_pos: "0 < i \<Longrightarrow> 0 < lb i"
proof (induction i rule: lb.induct)
  case (1 i)
  then show ?case by (subst lb.simps) (auto elim: evenE)
qed

lemma lb_le: "lb i \<le> i"
proof (induction i rule: lb.induct)
  case (1 i)
  then show ?case by (subst lb.simps) auto
qed

lemma lb_between: "0 < m \<Longrightarrow> m < lb i \<Longrightarrow> lb (i + m) = lb m"
proof (induction i arbitrary: m rule: lb.induct)
  case (1 i)
  show ?case
  proof (cases "odd i \<or> i = 0")
    case True
    with 1 show ?thesis by (cases "i = 0") auto
  next
    case False
    then obtain a where a: "i = 2 * a" by (auto elim: evenE)
    show ?thesis
    proof (cases "odd m")
      case False
      then obtain b where b: "m = 2 * b" by (auto elim: evenE)
      have "lb (a + b) = lb b"
        using 1(1) [of b] 1(2,3) \<open>\<not> (odd i \<or> i = 0)\<close> by (simp add: a b)
      then show ?thesis using lb_double [of "a + b"] by (simp add: a b)
    qed (simp add: a)
  qed
qed

lemma lb_carry: "0 < i \<Longrightarrow> 2 * lb i \<le> lb (i + lb i)"
proof (induction i rule: lb.induct)
  case (1 i)
  show ?case
  proof (cases "odd i")
    case True
    then obtain a where "i = 2 * a + 1" by (auto elim: oddE)
    then have "i + lb i = 2 * (a + 1)" by simp
    then show ?thesis using True lb_pos [of "a + 1"] lb_double [of "a + 1"] by simp
  next
    case False
    then obtain a where a: "i = 2 * a" by (auto elim: evenE)
    have "2 * lb a \<le> lb (a + lb a)" using 1 False by (simp add: a)
    moreover have "i + lb i = 2 * (a + lb a)" by (simp add: a)
    ultimately show ?thesis using lb_double [of "a + lb a"] by (simp add: a)
  qed
qed

lemma and_neg_lb: "and (int i) (- int i) = int (lb i)"
proof (induction i rule: lb.induct)
  case (1 i)
  show ?case
  proof (cases "odd i")
    case True
    then obtain a where a: "i = 2 * a + 1" by (auto elim: oddE)
    have n: "- int i = 1 + 2 * not (int a)" by (simp add: a not_int_def)
    have "and (int i) (- int i) = 1"
      unfolding n by (simp add: a and_rec [of "1 + 2 * int a"])
    then show ?thesis using True by simp
  next
    case False
    then obtain a where a: "i = 2 * a" by (auto elim: evenE)
    show ?thesis
    proof (cases "a = 0")
      case True
      then show ?thesis by (simp add: a)
    next
      case False
      with 1 have "and (int a) (- int a) = int (lb a)" by (simp add: a)
      moreover have "- (2 * int a) div 2 = - int a" by simp
      ultimately show ?thesis by (simp only: a of_nat_mult of_nat_numeral)
          (simp add: and_rec [of "2 * int a"])
    qed
  qed
qed

lemma word_and_of_int: "and (word_of_int a) (word_of_int b) = (word_of_int (and a b) :: 64 word)"
  by (rule bit_word_eqI) (simp add: bit_simps)

lemma lowbit_lb:
  assumes "i \<le> SIZE_MAX"
  shows "lowbit i = lb i"
proof -
  have "not (word_of_nat i :: 64 word) + 1 = word_of_int (- int i)"
    by (simp add: not_eq_complement)
  then have "lowbit i = unat (and (word_of_int (int i)) (word_of_int (- int i)) :: 64 word)"
    by (simp add: lowbit_def)
  also have "\<dots> = unat (word_of_int (and (int i) (- int i)) :: 64 word)"
    by (simp only: word_and_of_int)
  also have "\<dots> = lb i"
    using assms lb_le [of i] by (simp add: and_neg_lb unat_of_nat SIZE_MAX_def)
  finally show ?thesis .
qed

section \<open>Invariant\<close>

definition rsum :: "int list \<Rightarrow> nat \<Rightarrow> nat \<Rightarrow> int" where
  "rsum vs a b = (\<Sum>k = a..<b. vs ! k)"

definition fits :: "int \<Rightarrow> bool" where
  "fits x \<longleftrightarrow> - 9223372036854775808 \<le> x \<and> x \<le> 9223372036854775807"

text \<open>Every sum of consecutive values is representable.\<close>

definition safe :: "int list \<Rightarrow> bool" where
  "safe vs \<longleftrightarrow> (\<forall>b \<le> length vs. \<forall>a \<le> b. fits (rsum vs a b))"

text \<open>Node \<open>i\<close> holds the sum of the last \<open>lb i\<close> values that end at \<open>i\<close>.\<close>

definition fenwick :: "int list \<Rightarrow> int list \<Rightarrow> bool" where
  "fenwick ns vs \<longleftrightarrow> length ns = length vs + 1
     \<and> (\<forall>i \<le> length vs. 0 < i \<longrightarrow> ns ! i = rsum vs (i - lb i) i)"

definition bit_rel :: "bitree \<Rightarrow> int list \<Rightarrow> bool" where
  "bit_rel t vs \<longleftrightarrow> b_size t = length vs \<and> (length vs + 1) * 8 \<le> PTRDIFF_MAX
     \<and> (\<exists>ns. holds (b_nodes t) ns \<and> fenwick ns vs)"

lemma i64_fits: "i64 x = (if fits x then Some x else None)"
  by (simp add: i64_def fits_def)

lemma rsum_split: "a \<le> b \<Longrightarrow> b \<le> c \<Longrightarrow> rsum vs a b + rsum vs b c = rsum vs a c"
  unfolding rsum_def by (rule sum.atLeastLessThan_concat)

lemma rsum_empty [simp]: "rsum vs a a = 0"
  by (simp add: rsum_def)

lemma rsum_one [simp]: "rsum vs a (Suc a) = vs ! a"
  by (simp add: rsum_def)

lemma rsum_update:
  assumes "k < length vs"
  shows "rsum (vs[k := vs ! k + d]) a b = rsum vs a b + (if a \<le> k \<and> k < b then d else 0)"
proof -
  have "vs[k := vs ! k + d] ! j = vs ! j + (if j = k then d else 0)" for j
    using assms by (simp add: nth_list_update)
  then have "rsum (vs[k := vs ! k + d]) a b = (\<Sum>j = a..<b. vs ! j + (if j = k then d else 0))"
    by (simp add: rsum_def)
  also have "\<dots> = rsum vs a b + (\<Sum>j = a..<b. if j = k then d else 0)"
    by (simp add: rsum_def sum.distrib)
  also have "(\<Sum>j = a..<b. if j = k then d else 0) = (if a \<le> k \<and> k < b then d else 0)"
    by (subst sum.delta) auto
  finally show ?thesis .
qed

section \<open>The loops\<close>

lemma prefix_loop_ok:
  assumes b: "holds b ns" and ns: "fenwick ns vs" and small: "length vs \<le> SIZE_MAX" and safe: "safe vs"
    and "i \<le> c" and "c \<le> length vs"
  shows "prefix_loop b i (rsum vs i c) = Some (rsum vs 0 c)"
  using assms(5)
proof (induction i rule: less_induct)
  case (less i)
  show ?case
  proof (cases "i = 0")
    case True
    then show ?thesis by (subst prefix_loop.simps) simp
  next
    case False
    have i: "i \<le> length vs" "i - lb i \<le> i" "lb i \<le> i" using less.prems assms(6) lb_le by auto
    have low: "bitree_lowbit i = Some (lb i)" "sz_sub i (lb i) = i - lb i"
      using False i small lowbit_lb by (simp_all add: bitree_lowbit_def)
    have get: "buf_get b i = Some (rsum vs (i - lb i) i)"
      using holds_get [OF b, of i] ns i False by (simp add: fenwick_def)
    have s: "rsum vs i c + rsum vs (i - lb i) i = rsum vs (i - lb i) c"
      using rsum_split [OF i(2) less.prems, of vs] by simp
    have "fits (rsum vs (i - lb i) c)" using safe assms(6) less.prems by (simp add: safe_def)
    then have "prefix_loop b i (rsum vs i c) = prefix_loop b (i - lb i) (rsum vs (i - lb i) c)"
      using False get low s by (subst prefix_loop.simps) (simp add: i64_fits)
    moreover have "i - lb i < i" using False lb_pos [of i] by simp
    ultimately show ?thesis using less.IH [of "i - lb i"] less.prems by simp
  qed
qed

text \<open>The nodes that cover index \<open>k\<close> are the chain of \<open>add_loop\<close>.\<close>

definition covers :: "nat \<Rightarrow> nat \<Rightarrow> bool" where
  "covers i k \<longleftrightarrow> i - lb i \<le> k \<and> k < i"

lemma covers_next:
  assumes "covers i k"
  shows "covers (i + lb i) k"
proof -
  have i: "0 < i" "lb i \<le> i" using assms lb_le by (auto simp: covers_def)
  have "i + lb i - lb (i + lb i) \<le> i - lb i" using lb_carry [OF i(1)] i(2) by linarith
  then show ?thesis using assms by (simp add: covers_def)
qed

lemma covers_gap:
  assumes "covers i k" and "i < j" and "j < i + lb i"
  shows "\<not> covers j k"
proof -
  let ?m = "j - i"
  have m: "0 < ?m" "?m < lb i" "j = i + ?m" using assms(2,3) by simp_all
  have "lb j = lb ?m" using lb_between [OF m(1,2)] m(3) by simp
  then have "i \<le> j - lb j" using lb_le [of ?m] m(3) by simp
  then show ?thesis using assms(1) by (simp add: covers_def)
qed

lemma covers_first: "covers (Suc k) k" "j \<le> k \<Longrightarrow> \<not> covers j k"
  using lb_pos [of "Suc k"] by (simp_all add: covers_def)

lemma add_loop_ok:
  assumes k: "k < length vs" and vs': "vs' = vs[k := vs ! k + d]" and safe: "safe vs'"
    and small: "2 * length vs \<le> SIZE_MAX"
    and "covers i k" and "holds b ns" and "length ns = length vs + 1"
    and "\<And>j. j \<le> length vs \<Longrightarrow> 0 < j \<Longrightarrow> ns ! j = rsum (if j < i then vs' else vs) (j - lb j) j"
  shows "\<exists>b' ns'. add_loop b (length vs) i d = Some b' \<and> holds b' ns' \<and> fenwick ns' vs'
    \<and> (b' = NULL \<longleftrightarrow> b = NULL)"
  using assms(5-8)
proof (induction "Suc (length vs) - i" arbitrary: i b ns rule: less_induct)
  case less
  have len: "length vs' = length vs" by (simp add: vs')
  have upd: "rsum vs' (j - lb j) j = rsum vs (j - lb j) j + (if covers j k then d else 0)" for j
    unfolding vs' covers_def by (rule rsum_update [OF k])
  have i: "0 < i" "lb i \<le> i" using less.prems(1) lb_le by (auto simp: covers_def)
  show ?case
  proof (cases "i \<le> length vs")
    case False
    then have "add_loop b (length vs) i d = Some b" by (subst add_loop.simps) simp
    moreover have "fenwick ns vs'" using less.prems(3,4) False len by (simp add: fenwick_def)
    ultimately show ?thesis using less.prems(2) by blast
  next
    case True
    have low: "bitree_lowbit i = Some (lb i)" "sz_add i (lb i) = i + lb i"
      using i small True lowbit_lb [of i] by (simp_all add: bitree_lowbit_def)
    let ?y = "rsum vs' (i - lb i) i"
    have get: "buf_get b i = Some (rsum vs (i - lb i) i)"
      using holds_get [OF less.prems(2), of i] less.prems(3,4) i True by simp
    have y: "rsum vs (i - lb i) i + d = ?y" using upd less.prems(1) by simp
    have fit: "fits ?y" using safe True len by (simp add: safe_def)
    obtain b1 where b1: "buf_put b i (Some ?y) = Some b1" "holds b1 (ns[i := ?y])" "b1 \<noteq> NULL"
      using holds_put_old [OF less.prems(2), of i ?y] less.prems(3) True by auto
    have step: "add_loop b (length vs) i d = add_loop b1 (length vs) (i + lb i) d"
      using True get y fit b1(1) low by (subst add_loop.simps) (simp add: i64_fits)
    have nn: "b \<noteq> NULL" using get by (auto simp: buf_get_def)
    have nodes: "ns[i := ?y] ! j = rsum (if j < i + lb i then vs' else vs) (j - lb j) j"
      if j: "j \<le> length vs" "0 < j" for j
    proof -
      consider "j < i" | "j = i" | "i < j" "j < i + lb i" | "i < j" "i + lb i \<le> j" by linarith
      then show ?thesis
      proof cases
        case 3
        then show ?thesis using less.prems(4) [OF j] upd [of j] covers_gap [OF less.prems(1) 3] by simp
      qed (use less.prems(4) [OF j] lb_pos [OF i(1)] True less.prems(3) in auto)
    qed
    have "Suc (length vs) - (i + lb i) < Suc (length vs) - i" using True lb_pos [OF i(1)] by linarith
    moreover have "length (ns[i := ?y]) = length vs + 1" using less.prems(3) by simp
    ultimately show ?thesis
      using less.hyps [OF _ covers_next [OF less.prems(1)] b1(2) _ nodes] step nn b1(3) by simp
  qed
qed

section \<open>Operations\<close>

lemma bit_relE:
  assumes "bit_rel t vs"
  obtains ns where "b_size t = length vs" "2 * length vs + 2 \<le> SIZE_MAX"
    "holds (b_nodes t) ns" "fenwick ns vs" "length ns = length vs + 1" "b_nodes t \<noteq> NULL"
proof -
  obtain ns where "holds (b_nodes t) ns" "fenwick ns vs" using assms by (auto simp: bit_rel_def)
  moreover from this have "length ns = length vs + 1" by (simp add: fenwick_def)
  moreover from calculation have "b_nodes t \<noteq> NULL" by (auto simp: holds_def)
  moreover have "2 * length vs + 2 \<le> SIZE_MAX"
    using assms SIZE_MAX_PTRDIFF_MAX by (simp add: bit_rel_def)
  ultimately show thesis using that assms by (simp add: bit_rel_def)
qed

lemma bitree_prefix_ok:
  assumes t: "bit_rel t vs" and safe: "safe vs"
  shows "bitree_prefix (Ptr t) c = (if c \<le> length vs then Some (rsum vs 0 c) else None)"
proof -
  obtain ns where N: "b_size t = length vs" "2 * length vs + 2 \<le> SIZE_MAX" "holds (b_nodes t) ns" "fenwick ns vs"
    using t by (rule bit_relE)
  then have small: "length vs \<le> SIZE_MAX" by linarith
  show ?thesis
  proof (cases "c \<le> length vs")
    case True
    with prefix_loop_ok [OF N(3,4) small safe order_refl True] N(1) show ?thesis
      by (simp add: bitree_prefix_def bitree_prefix_sum_def)
  qed (simp add: bitree_prefix_def N(1))
qed

lemma bitree_range_ok:
  assumes t: "bit_rel t vs" and safe: "safe vs"
  shows "bitree_range (Ptr t) a b = (if a \<le> b \<and> b \<le> length vs then Some (rsum vs a b) else None)"
proof (cases "a \<le> b \<and> b \<le> length vs")
  case True
  have n: "b_size t = length vs" using t by (simp add: bit_rel_def)
  have p: "bitree_prefix_sum t c = Some (rsum vs 0 c)" if "c \<le> length vs" for c
    using bitree_prefix_ok [OF t safe, of c] that n by (simp add: bitree_prefix_def)
  have "rsum vs 0 b - rsum vs 0 a = rsum vs a b" using rsum_split [of 0 a b vs] True by simp
  moreover have "fits (rsum vs a b)" using safe True by (simp add: safe_def)
  ultimately show ?thesis using True p n by (simp add: bitree_range_def i64_fits)
next
  case False
  then show ?thesis using t by (auto simp: bitree_range_def bit_rel_def)
qed

lemma bitree_get_ok:
  assumes t: "bit_rel t vs" and safe: "safe vs" and i: "i < length vs"
  shows "bitree_get (Ptr t) i = Some (vs ! i)"
proof -
  have "sz_add i 1 = Suc i" using t i by (elim bit_relE) simp
  then show ?thesis using bitree_range_ok [OF t safe, of i "Suc i"] i by (simp add: bitree_get_def)
qed

lemma bitree_add_ok:
  assumes t: "bit_rel t vs" and safe: "safe (vs[i := vs ! i + d])" and i: "i < length vs"
  shows "\<exists>t'. bitree_add (Ptr t) i d = Some (0, Ptr t') \<and> bit_rel t' (vs[i := vs ! i + d])
    \<and> blocks (b_nodes t') = blocks (b_nodes t)"
proof -
  obtain ns where N: "b_size t = length vs" "2 * length vs + 2 \<le> SIZE_MAX" "holds (b_nodes t) ns" "fenwick ns vs"
    "length ns = length vs + 1" "b_nodes t \<noteq> NULL"
    using t by (rule bit_relE)
  have small: "2 * length vs \<le> SIZE_MAX" using N(2) by simp
  have nodes: "ns ! j = rsum (if j < Suc i then vs[i := vs ! i + d] else vs) (j - lb j) j"
    if j: "j \<le> length vs" "0 < j" for j
    using N(4) j rsum_update [OF i, of d "j - lb j" j] by (simp add: fenwick_def)
  obtain b ns' where "add_loop (b_nodes t) (length vs) (Suc i) d = Some b" "holds b ns'"
    "fenwick ns' (vs[i := vs ! i + d])" "b \<noteq> NULL"
    using add_loop_ok [OF i refl safe small covers_first(1) N(3,5) nodes] N(6) by blast
  moreover have "sz_add i 1 = Suc i" using i N(2) by simp
  ultimately show ?thesis
    using N(1,6) i t by (auto simp: bitree_add_def bit_rel_def blocks_def split: ptr.splits)
qed

lemma bitree_set_ok:
  assumes t: "bit_rel t vs" and safe: "safe vs" "safe (vs[i := x])" "fits (x - vs ! i)" and i: "i < length vs"
  shows "\<exists>t'. bitree_set (Ptr t) i x = Some (0, Ptr t') \<and> bit_rel t' (vs[i := x])
    \<and> blocks (b_nodes t') = blocks (b_nodes t)"
proof -
  have "vs ! i + (x - vs ! i) = x" by simp
  with bitree_add_ok [OF t _ i, of "x - vs ! i"] safe(2) obtain t' where
    "bitree_add (Ptr t) i (x - vs ! i) = Some (0, Ptr t')" "bit_rel t' (vs[i := x])"
    "blocks (b_nodes t') = blocks (b_nodes t)" by auto
  moreover have "b_size t = length vs" using t by (simp add: bit_rel_def)
  ultimately show ?thesis
    using bitree_get_ok [OF t safe(1) i] i safe(3) by (simp add: bitree_set_def i64_fits)
qed

lemma fenwick_zero: "fenwick (replicate (n + 1) 0) (replicate n 0)"
proof -
  have "rsum (replicate n 0) a b = 0" if "b \<le> n" for a b
    using that by (simp add: rsum_def)
  then show ?thesis by (simp add: fenwick_def)
qed

lemma bitree_init_ok:
  assumes "n < SIZE_MAX"
  shows "\<exists>rc t w'. bitree_init (Ptr u) n w = (rc, Ptr t, w') \<and> destroyed w' = destroyed w
    \<and> live w' - blocks (b_nodes t) = live w
    \<and> (no_fail w \<longrightarrow> no_fail w' \<and> ((n + 1) * 8 \<le> PTRDIFF_MAX \<longrightarrow> rc = 0))
    \<and> (rc = 0 \<and> bit_rel t (replicate n 0) \<or> rc = - 1 \<and> t = \<lparr>b_size = 0, b_nodes = NULL\<rparr>)"
proof -
  have n: "sz_add n 1 = n + 1" using assms by (simp add: Suc_le_eq)
  obtain ok w1 where m: "malloc ((n + 1) * 8) w = (ok, w1)" by fastforce
  note M = malloc_effect [OF m]
  let ?t = "\<lparr>b_size = n, b_nodes = Ptr (replicate (n + 1) (Some 0))\<rparr>"
  have "holds (Ptr (replicate (n + 1) (Some 0))) (replicate (n + 1) 0)" by (simp add: holds_def)
  then have rel: "bit_rel ?t (replicate n 0)" if ok
    using fenwick_zero [of n] M(4) [OF that] by (auto simp: bit_rel_def)
  show ?thesis
  proof (cases ok)
    case True
    then have "bitree_init (Ptr u) n w = (0, Ptr ?t, w1)"
      using m by (simp add: bitree_init_def calloc_def n [simplified])
    then show ?thesis using M(1,3,5) True rel by simp
  next
    case False
    then have "bitree_init (Ptr u) n w = (- 1, Ptr \<lparr>b_size = 0, b_nodes = NULL\<rparr>, w1)"
      using m by (simp add: bitree_init_def calloc_def n [simplified])
    then show ?thesis using M(1,3,5,6) False by auto
  qed
qed

lemma bitree_reset_ok:
  assumes t: "bit_rel t vs"
  shows "\<exists>t'. bitree_reset (Ptr t) = Some (0, Ptr t') \<and> bit_rel t' (replicate (length vs) 0)
    \<and> blocks (b_nodes t') = blocks (b_nodes t)"
proof -
  obtain ns where N: "b_size t = length vs" "2 * length vs + 2 \<le> SIZE_MAX" "holds (b_nodes t) ns"
    "length ns = length vs + 1" "b_nodes t \<noteq> NULL"
    using t by (rule bit_relE)
  let ?b = "Ptr (replicate (length vs + 1) (Some 0) @ drop (length vs + 1) (slots (b_nodes t)))"
  have "sz_add (b_size t) 1 = length vs + 1" using N(1,2) by simp
  moreover have "length vs + 1 \<le> length (slots (b_nodes t))" using N(3,4) by (simp add: holds_def)
  ultimately have "bitree_reset (Ptr t) = Some (0, Ptr (t\<lparr>b_nodes := ?b\<rparr>))"
    using N(5) by (simp add: bitree_reset_def nodes_zero_def)
  moreover have "holds ?b (replicate (length vs + 1) 0)" by (simp add: holds_def)
  then have "bit_rel (t\<lparr>b_nodes := ?b\<rparr>) (replicate (length vs) 0)"
    using t fenwick_zero [of "length vs"] N(1) by (auto simp: bit_rel_def)
  ultimately show ?thesis using N(5) by (auto simp: blocks_def split: ptr.splits)
qed

lemma bitree_copy_ok:
  assumes s: "bit_rel s vs"
  shows "\<exists>rc t w'. bitree_copy False (Ptr d) (Ptr s) w = Some (rc, Ptr t, w') \<and> destroyed w' = destroyed w
    \<and> live w' - blocks (b_nodes t) = live w - blocks (b_nodes d) \<and> (no_fail w \<longrightarrow> rc = 0)
    \<and> (rc = 0 \<and> bit_rel t vs \<or> rc = - 1 \<and> t = \<lparr>b_size = 0, b_nodes = NULL\<rparr>)"
proof -
  obtain ns where N: "b_size s = length vs" "2 * length vs + 2 \<le> SIZE_MAX" "holds (b_nodes s) ns" "fenwick ns vs"
    "length ns = length vs + 1" "b_nodes s \<noteq> NULL"
    using s by (rule bit_relE)
  let ?n = "length vs + 1"
  have n: "sz_add (length vs) 1 = ?n" "?n * 8 \<le> PTRDIFF_MAX" "length vs < SIZE_MAX"
    using N(2) s by (simp_all add: bit_rel_def)
  let ?w = "free_ptr (b_nodes d) w"
  obtain rc t w1 where i: "bitree_init (Ptr \<lparr>b_size = 0, b_nodes = NULL\<rparr>) (length vs) ?w = (rc, Ptr t, w1)"
    "destroyed w1 = destroyed w" "live w1 - blocks (b_nodes t) = live ?w" "no_fail w \<longrightarrow> rc = 0"
    "rc = 0 \<and> bit_rel t (replicate (length vs) 0) \<or> rc = - 1 \<and> t = \<lparr>b_size = 0, b_nodes = NULL\<rparr>"
    using bitree_init_ok [OF n(3), of _ ?w] n(2) by (metis free_simps(1,3))
  show ?thesis
  proof (cases "rc = 0")
    case False
    then have "bitree_copy False (Ptr d) (Ptr s) w = Some (- 1, Ptr t, w1)"
      using i(1) N(1) by (simp add: bitree_copy_def bitree_destroy_def)
    then show ?thesis using i False by auto
  next
    case True
    with i(5) have t: "bit_rel t (replicate (length vs) 0)" by simp
    then obtain zs where z: "b_size t = length vs" "holds (b_nodes t) zs" "length zs = ?n" "b_nodes t \<noteq> NULL"
      by (rule bit_relE) simp
    let ?b = "Ptr (take ?n (slots (b_nodes s)) @ drop ?n (slots (b_nodes t)))"
    have len: "?n \<le> length (slots (b_nodes s))" "?n \<le> length (slots (b_nodes t))"
      using N(3,5) z(2,3) by (simp_all add: holds_def)
    then have "nodes_copy (b_nodes t) (b_nodes s) ?n = Some ?b"
      using N(6) z(4) by (simp add: nodes_copy_def)
    then have "bitree_copy False (Ptr d) (Ptr s) w = Some (0, Ptr (t\<lparr>b_nodes := ?b\<rparr>), w1)"
      using i(1) N(1) n(1) True by (simp add: bitree_copy_def bitree_destroy_def)
    moreover have "holds ?b ns" using N(3,5) len by (simp add: holds_def)
    then have "bit_rel (t\<lparr>b_nodes := ?b\<rparr>) vs" using N(4) z(1) n(2) by (auto simp: bit_rel_def)
    moreover have "blocks (b_nodes t) = 1" using z(4) by (simp add: blocks_def split: ptr.splits)
    ultimately show ?thesis using i True
      by (intro exI [of _ 0] exI [of _ "t\<lparr>b_nodes := ?b\<rparr>"] exI [of _ w1]) auto
  qed
qed

section \<open>Sequences of additions\<close>

fun add_all :: "(nat \<times> int) list \<Rightarrow> bitree \<Rightarrow> bitree option" where
  "add_all [] t = Some t"
| "add_all ((i, d) # es) t = do { (rc, p) \<leftarrow> bitree_add (Ptr t) i d; add_all es (pt p) }"

definition total_in :: "(nat \<times> int) list \<Rightarrow> nat \<Rightarrow> nat \<Rightarrow> int" where
  "total_in es a b = sum_list (map (\<lambda>(i, d). if a \<le> i \<and> i < b then d else 0) es)"

definition magnitude :: "(nat \<times> int) list \<Rightarrow> int" where
  "magnitude es = sum_list (map (\<lambda>(i, d). \<bar>d\<bar>) es)"

lemma magnitude_append: "magnitude (es @ fs) = magnitude es + magnitude fs"
  by (simp add: magnitude_def)

lemma magnitude_nonneg: "0 \<le> magnitude es"
  by (induction es) (auto simp: magnitude_def)

lemma total_in_bound: "\<bar>total_in es a b\<bar> \<le> magnitude es"
  by (induction es) (auto simp: total_in_def magnitude_def)

lemma add_all_ok:
  assumes "bit_rel t vs" and "length vs = n" and "\<forall>(i, d) \<in> set es. i < n"
    and "\<And>a b. b \<le> n \<Longrightarrow> rsum vs a b = total_in old a b" and "magnitude (old @ es) \<le> 9223372036854775807"
  shows "\<exists>t' vs'. add_all es t = Some t' \<and> bit_rel t' vs' \<and> length vs' = n \<and> safe vs'
    \<and> (\<forall>a b. b \<le> n \<longrightarrow> rsum vs' a b = total_in (old @ es) a b)"
  using assms
proof (induction es arbitrary: t vs old)
  case Nil
  have "fits (rsum vs a b)" if "b \<le> n" for a b
    using that Nil.prems(4) [of b a] Nil.prems(5) total_in_bound [of old a b]
    by (simp add: fits_def abs_le_iff)
  then show ?case using Nil.prems by (auto simp: safe_def)
next
  case (Cons e es)
  obtain i d where e: "e = (i, d)" by fastforce
  with Cons.prems(2,3) have i: "i < length vs" by auto
  let ?vs = "vs[i := vs ! i + d]"
  have sums: "rsum ?vs a b = total_in (old @ [(i, d)]) a b" if "b \<le> n" for a b
    using that rsum_update [OF i] Cons.prems(4) by (simp add: total_in_def)
  have mag: "magnitude (old @ [(i, d)]) \<le> 9223372036854775807"
    using Cons.prems(5) magnitude_nonneg [of es] magnitude_append [of "old @ [(i, d)]" es] by (simp add: e)
  have "fits (rsum ?vs a b)" if "b \<le> n" for a b
    using that sums mag total_in_bound [of "old @ [(i, d)]" a b] by (simp add: fits_def abs_le_iff)
  then have "safe ?vs" using Cons.prems(2) by (simp add: safe_def)
  from bitree_add_ok [OF Cons.prems(1) this i] obtain t' where t': "bitree_add (Ptr t) i d = Some (0, Ptr t')"
    "bit_rel t' ?vs" by blast
  have len: "length ?vs = n" and es: "\<forall>(i, d) \<in> set es. i < n"
    and mag': "magnitude ((old @ [(i, d)]) @ es) \<le> 9223372036854775807"
    using Cons.prems(2,3,5) by (simp_all add: e)
  from Cons.IH [OF t'(2) len es sums mag'] t'(1) show ?case by (simp add: e)
qed

section \<open>Properties\<close>

text \<open>C34: after initialising a tree of \<open>n\<close> values and any valid additions whose magnitudes sum to
  at most \<open>INT64_MAX\<close>, no addition overflows, no assertion fails, every loop ends, and
  \<open>bitree_range\<close> and \<open>bitree_prefix\<close> return for every range inside the tree exactly the sum of the
  deltas that were added in it, while a range outside fails its assertion.\<close>

theorem bitree_sums:
  assumes "(n + 1) * 8 \<le> PTRDIFF_MAX" and "no_fail w" and "\<forall>(i, d) \<in> set es. i < n"
    and "magnitude es \<le> 9223372036854775807"
  shows "\<exists>t w' t'. bitree_init (Ptr u) n w = (0, Ptr t, w') \<and> add_all es t = Some t'
    \<and> bitree_range (Ptr t') a b = (if a \<le> b \<and> b \<le> n then Some (total_in es a b) else None)
    \<and> bitree_prefix (Ptr t') b = (if b \<le> n then Some (total_in es 0 b) else None)"
proof -
  have "n < SIZE_MAX" using assms(1) by (simp add: SIZE_MAX_def PTRDIFF_MAX_def)
  from bitree_init_ok [OF this, of u w] assms(1,2) obtain t w' where
    t: "bitree_init (Ptr u) n w = (0, Ptr t, w')" "bit_rel t (replicate n 0)" by auto
  have zero: "rsum (replicate n 0) a b = total_in [] a b" if "b \<le> n" for a b
    using that by (simp add: rsum_def total_in_def)
  obtain t' vs' where v: "add_all es t = Some t'" "bit_rel t' vs'" "length vs' = n" "safe vs'"
    "\<forall>a b. b \<le> n \<longrightarrow> rsum vs' a b = total_in ([] @ es) a b"
    using add_all_ok [OF t(2) _ assms(3) zero] assms(4) by auto
  have "total_in es 0 b = rsum vs' 0 b" "total_in es a b = rsum vs' a b" if "b \<le> n"
    using v(5) that by simp_all
  with bitree_prefix_ok [OF v(2,4), of b] bitree_range_ok [OF v(2,4), of a b] t(1) v(1,3)
  show ?thesis by (intro exI [of _ t] exI [of _ w'] exI [of _ t']) auto
qed

theorem bitree_sums_witness:
  "\<exists>t w' t'. bitree_init (Ptr \<lparr>b_size = 0, b_nodes = NULL\<rparr>) 8 (script [] []) = (0, Ptr t, w')
    \<and> add_all [(0, 3), (2, 5), (2, - 1)] t = Some t'
    \<and> bitree_range (Ptr t') 0 3
        = (if (0 :: nat) \<le> 3 \<and> 3 \<le> (8 :: nat) then Some (total_in [(0, 3), (2, 5), (2, - 1)] 0 3) else None)
    \<and> bitree_prefix (Ptr t') 3
        = (if 3 \<le> (8 :: nat) then Some (total_in [(0, 3), (2, 5), (2, - 1)] 0 3) else None)"
  by (rule bitree_sums) (simp_all add: PTRDIFF_MAX_def no_fail_def script_def magnitude_def)

text \<open>point updates. On a tree of representable values, \<open>bitree_add\<close> and \<open>bitree_set\<close> change
  exactly the value at their index when the new sums are representable (and, for \<open>bitree_set\<close>, the
  difference of the new and the old value is); \<open>bitree_get\<close> reads a value back; an index outside the
  tree is refused with \<open>- 1\<close>; \<open>bitree_reset\<close> makes every value 0.\<close>

theorem bitree_updates:
  assumes t: "bit_rel t vs" and safe: "safe vs" and i: "i < length vs"
    and new: "safe (vs[i := x])" "fits (x - vs ! i)" and out: "length vs \<le> k" "k \<le> SIZE_MAX"
  shows "\<exists>t1 t2 t3. bitree_get (Ptr t) i = Some (vs ! i)
    \<and> bitree_set (Ptr t) i x = Some (0, Ptr t1) \<and> bit_rel t1 (vs[i := x])
    \<and> bitree_get (Ptr t1) i = Some x
    \<and> bitree_add (Ptr t) i (x - vs ! i) = Some (0, Ptr t2) \<and> bit_rel t2 (vs[i := x])
    \<and> bitree_add (Ptr t) k d = Some (- 1, Ptr t) \<and> bitree_set (Ptr t) k d = Some (- 1, Ptr t)
    \<and> bitree_get (Ptr t) k = None
    \<and> bitree_reset (Ptr t) = Some (0, Ptr t3) \<and> bit_rel t3 (replicate (length vs) 0)"
proof -
  have x: "vs ! i + (x - vs ! i) = x" by simp
  obtain t1 where t1: "bitree_set (Ptr t) i x = Some (0, Ptr t1)" "bit_rel t1 (vs[i := x])"
    using bitree_set_ok [OF t safe new i] by blast
  have "safe (vs[i := vs ! i + (x - vs ! i)])" using new(1) unfolding x .
  from bitree_add_ok [OF t this i] obtain t2 where
    t2: "bitree_add (Ptr t) i (x - vs ! i) = Some (0, Ptr t2)" "bit_rel t2 (vs[i := x])"
    unfolding x by blast
  obtain t3 where t3: "bitree_reset (Ptr t) = Some (0, Ptr t3)" "bit_rel t3 (replicate (length vs) 0)"
    using bitree_reset_ok [OF t] by blast
  have n: "b_size t = length vs" using t by (simp add: bit_rel_def)
  have "bitree_get (Ptr t1) i = Some x" using bitree_get_ok [OF t1(2) new(1), of i] i by simp
  moreover have "k \<le> sz_add k 1 \<longrightarrow> length vs < sz_add k 1"
    using out by (cases "k = SIZE_MAX") (simp_all add: sz_add_def SIZE_MAX_def)
  then have "bitree_get (Ptr t) k = None"
    using bitree_range_ok [OF t safe, of k "sz_add k 1"] by (auto simp: bitree_get_def)
  ultimately show ?thesis
    using bitree_get_ok [OF t safe i] t1 t2 t3 out n
    by (intro exI [of _ t1] exI [of _ t2] exI [of _ t3]) (simp add: bitree_add_def bitree_set_def)
qed

definition bit_example :: bitree where
  "bit_example = \<lparr>b_size = 3, b_nodes = Ptr [Some 0, Some (- 1), Some 4, Some 2]\<rparr>"

lemma bit_example_rel: "bit_rel bit_example [- 1, 5, 2]"
proof -
  have "fenwick [0, - 1, 4, 2] [- 1, 5, 2]"
    unfolding fenwick_def
  proof (intro conjI allI impI)
    fix i :: nat assume "i \<le> length [- 1, 5, 2 :: int]" "0 < i"
    then have "i = 1 \<or> i = 2 \<or> i = 3" by (simp; linarith)
    moreover have "lb 2 = 2" "lb 3 = 1" by (simp_all add: lb.simps)
    moreover have "rsum vs 0 2 = vs ! 0 + vs ! 1" for vs
      using rsum_split [of 0 1 2 vs] rsum_one [of vs 0] rsum_one [of vs 1] by (simp add: numeral_2_eq_2)
    moreover have "rsum vs 2 3 = vs ! 2" for vs
      using rsum_one [of vs 2] by (simp add: numeral_eq_Suc)
    ultimately show "[0, - 1, 4, 2] ! i = rsum [- 1, 5, 2] (i - lb i) i"
      using rsum_one [of "[- 1, 5, 2]" 0] by (elim disjE) simp_all
  qed simp
  then show ?thesis
    unfolding bit_rel_def by (intro conjI exI [of _ "[0, - 1, 4, 2]"])
      (simp_all add: bit_example_def holds_def PTRDIFF_MAX_def)
qed

lemma safe3: "safe [a, b, c] \<longleftrightarrow> fits a \<and> fits b \<and> fits c \<and> fits (a + b) \<and> fits (b + c) \<and> fits (a + b + c)"
  by (auto simp: safe_def le_Suc_eq rsum_def fits_def numeral_eq_Suc)

theorem bitree_updates_witness:
  "\<exists>t1 t2 t3. bitree_get (Ptr bit_example) 1 = Some ([- 1, 5, 2] ! 1)
    \<and> bitree_set (Ptr bit_example) 1 9 = Some (0, Ptr t1) \<and> bit_rel t1 ([- 1, 5, 2][1 := 9])
    \<and> bitree_get (Ptr t1) 1 = Some 9
    \<and> bitree_add (Ptr bit_example) 1 (9 - [- 1, 5, 2] ! 1) = Some (0, Ptr t2) \<and> bit_rel t2 ([- 1, 5, 2][1 := 9])
    \<and> bitree_add (Ptr bit_example) 3 7 = Some (- 1, Ptr bit_example)
    \<and> bitree_set (Ptr bit_example) 3 7 = Some (- 1, Ptr bit_example)
    \<and> bitree_get (Ptr bit_example) 3 = None
    \<and> bitree_reset (Ptr bit_example) = Some (0, Ptr t3) \<and> bit_rel t3 (replicate (length [- 1, 5, 2 :: int]) 0)"
  by (rule bitree_updates [OF bit_example_rel]) (simp_all add: safe3 fits_def SIZE_MAX_def)

text \<open>\<open>bitree_set\<close> computes \<open>value - current\<close> in \<open>int64_t\<close>: when that difference is not
  representable the call is undefined behaviour, even if every sum of the new values is
  representable.\<close>

theorem bitree_set_overflows:
  assumes "bit_rel t vs" and "safe vs" and "i < length vs" and "\<not> fits (x - vs ! i)"
  shows "bitree_set (Ptr t) i x = None"
  using bitree_get_ok [OF assms(1-3)] assms by (simp add: bitree_set_def i64_fits bit_rel_def)

theorem bitree_set_overflows_witness:
  "bitree_set (Ptr bit_example) 0 9223372036854775807 = None"
  by (rule bitree_set_overflows [OF bit_example_rel]) (simp_all add: safe3 fits_def)

text \<open>\<open>bitree_init\<close> computes \<open>size + 1\<close> without a check: for \<open>SIZE_MAX\<close> values it wraps to
  0, the call returns \<open>0\<close> with a tree that has no node at all, and the first addition writes
  outside the block.\<close>

lemma bitree_init_wraps:
  assumes "no_fail w"
  shows "\<exists>t w'. bitree_init (Ptr u) SIZE_MAX w = (0, Ptr t, w') \<and> b_size t = SIZE_MAX
    \<and> slots (b_nodes t) = [] \<and> bitree_add (Ptr t) 0 d = None"
proof -
  obtain ok w1 where m: "malloc 0 w = (ok, w1)" by fastforce
  have ok using malloc_effect(6) [OF m assms] by simp
  have z: "sz_add SIZE_MAX 1 = 0" "sz_add 0 1 = 1" by (simp_all add: sz_add_def SIZE_MAX_def)
  let ?t = "\<lparr>b_size = SIZE_MAX, b_nodes = Ptr []\<rparr>"
  have "bitree_init (Ptr u) SIZE_MAX w = (0, Ptr ?t, w1)"
    using m \<open>ok\<close> z(1) by (simp add: bitree_init_def calloc_def)
  moreover have "add_loop (Ptr []) SIZE_MAX 1 d = None"
    by (subst add_loop.simps) (simp add: buf_get_def SIZE_MAX_def)
  then have "bitree_add (Ptr ?t) 0 d = None"
    using z(2) by (simp add: bitree_add_def SIZE_MAX_def)
  ultimately show ?thesis by simp
qed

end
