(* ===== verification/Segtree.thy ===== *)
theory Segtree
  imports Prelude
begin

text \<open>
  \<open>src/segtree.c\<close>: the segment tree over an associative merge callback with a neutral element.
  Every function of the file is a definition of the same name. A merge callback may fail: its
  outcomes are the script \<open>copies\<close> of the world, and a node that a failed merge was to write
  counts as unwritten. \<open>seg_rel st vs\<close> says that \<open>st\<close> is a consistent tree of the values
  \<open>vs\<close>, \<open>seg_shape st\<close> only that its arrays have the right size.
\<close>

section \<open>Model\<close>

record 'a segtree =
  t_size :: size_t
  t_capacity :: size_t
  t_elem_size :: size_t
  t_merge :: "('a \<Rightarrow> 'a \<Rightarrow> 'a) ptr"
  t_identity :: "'a ptr"
  t_nodes :: "'a buf"

definition merge_elements ::
    "('a \<Rightarrow> 'a \<Rightarrow> 'a) \<Rightarrow> 'a \<Rightarrow> 'a \<Rightarrow> ('a, 'b) world_scheme \<Rightarrow> 'a option \<times> ('a, 'b) world_scheme" where
  "merge_elements f x y w =
     (let (ok, rest) = next_outcome (copies w) in
      (if ok then Some (f x y) else None, w\<lparr>copies := rest\<rparr>))"

definition segtree_node_count :: "'a segtree \<Rightarrow> size_t" where
  "segtree_node_count st = sz_mul (t_capacity st) 2"

text \<open>The loop doubles \<open>value\<close>; the result code is \<open>- 1\<close> when the next power of two does not fit.\<close>

partial_function (option) next_capacity_loop :: "size_t \<Rightarrow> size_t \<Rightarrow> (int \<times> size_t) option" where
  "next_capacity_loop n value =
     (if value < n then
        if SIZE_MAX div 2 < value then Some (- 1, 0)
        else next_capacity_loop n (sz_mul value 2)
      else Some (0, value))"

definition segtree_next_capacity :: "size_t \<Rightarrow> (int \<times> size_t) option" where
  "segtree_next_capacity n = next_capacity_loop n 1"

definition at_least_one :: "size_t \<Rightarrow> size_t" where
  "at_least_one n = (if 0 < n then n else 1)"

text \<open>Writes the identity to the nodes of a list of indices.\<close>

fun fill_nodes :: "'a \<Rightarrow> nat list \<Rightarrow> 'a buf \<Rightarrow> 'a buf option" where
  "fill_nodes e [] b = Some b"
| "fill_nodes e (i # is) b = do { b1 \<leftarrow> buf_put b i (Some e); fill_nodes e is b1 }"

definition dead_segtree :: "'a segtree" where
  "dead_segtree = \<lparr>t_size = 0, t_capacity = 0, t_elem_size = 0, t_merge = NULL, t_identity = NULL,
     t_nodes = NULL\<rparr>"

definition segtree_init ::
    "'a segtree ptr \<Rightarrow> size_t \<Rightarrow> size_t \<Rightarrow> 'a ptr \<Rightarrow> ('a \<Rightarrow> 'a \<Rightarrow> 'a) ptr \<Rightarrow> ('a, 'b) world_scheme
     \<Rightarrow> (int \<times> 'a segtree ptr \<times> ('a, 'b) world_scheme) option" where
  "segtree_init p n elem_size ident merge w =
     (if p = NULL \<or> elem_size = 0 \<or> ident = NULL \<or> merge = NULL then Some (- 1, p, w)
      else do {
        (rc, capacity) \<leftarrow> segtree_next_capacity (at_least_one n);
        if rc \<noteq> 0 then Some (- 1, p, w)
        else if SIZE_MAX div 2 < capacity then Some (- 1, p, w)
        else let (ok, w1) = malloc elem_size w in
          if \<not> ok then Some (- 1, Ptr dead_segtree, w1)
          else let node_count = sz_mul capacity 2; bytes = sz_mul node_count elem_size;
                   (ok2, w2) = malloc bytes w1 in
            if \<not> ok2 then Some (- 1, Ptr dead_segtree, free_block w2)
            else do {
              b \<leftarrow> fill_nodes (pt ident) [0..<node_count] (buf_new (bytes div elem_size));
              Some (0, Ptr \<lparr>t_size = n, t_capacity = capacity, t_elem_size = elem_size, t_merge = merge,
                t_identity = ident, t_nodes = b\<rparr>, w2) } })"

definition segtree_destroy ::
    "'a segtree ptr \<Rightarrow> ('a, 'b) world_scheme \<Rightarrow> 'a segtree ptr \<times> ('a, 'b) world_scheme" where
  "segtree_destroy p w = (case p of NULL \<Rightarrow> (NULL, w) | Ptr st \<Rightarrow>
     (Ptr dead_segtree, free_ptr (t_nodes st) (free_ptr (t_identity st) w)))"

definition segtree_new ::
    "size_t \<Rightarrow> size_t \<Rightarrow> 'a ptr \<Rightarrow> ('a \<Rightarrow> 'a \<Rightarrow> 'a) ptr \<Rightarrow> ('a, 'b) world_scheme
     \<Rightarrow> ('a segtree ptr \<times> ('a, 'b) world_scheme) option" where
  "segtree_new n elem_size ident merge w =
     (let (ok, w1) = malloc 48 w in
      if \<not> ok then Some (NULL, w1)
      else do {
        (rc, p, w2) \<leftarrow> segtree_init (Ptr dead_segtree) n elem_size ident merge w1;
        if rc \<noteq> 0 then Some (NULL, free_block w2) else Some (p, w2) })"

definition segtree_free ::
    "'a segtree ptr \<Rightarrow> ('a, 'b) world_scheme \<Rightarrow> ('a, 'b) world_scheme" where
  "segtree_free p w = (case p of NULL \<Rightarrow> w | Ptr _ \<Rightarrow> free_block (snd (segtree_destroy p w)))"

definition segtree_copy ::
    "bool \<Rightarrow> 'a segtree ptr \<Rightarrow> 'a segtree ptr \<Rightarrow> ('a, 'b) world_scheme
     \<Rightarrow> (int \<times> 'a segtree ptr \<times> ('a, 'b) world_scheme) option" where
  "segtree_copy same dst src w =
     (if dst = NULL \<or> src = NULL then Some (- 1, dst, w)
      else if same then Some (0, dst, w)
      else let (dst1, w1) = segtree_destroy dst w; s = pt src in do {
        (rc, dst2, w2) \<leftarrow> segtree_init dst1 (t_size s) (t_elem_size s) (t_identity s) (t_merge s) w1;
        if rc \<noteq> 0 then Some (- 1, dst2, w2)
        else let n = segtree_node_count s in
          if n \<le> length (slots (t_nodes (pt dst2))) \<and> n \<le> length (slots (t_nodes s))
          then Some (0, Ptr ((pt dst2)\<lparr>t_nodes := Ptr (take n (slots (t_nodes s))
                 @ drop n (slots (t_nodes (pt dst2))))\<rparr>), w2)
          else None })"

definition segtree_clone ::
    "'a segtree ptr \<Rightarrow> ('a, 'b) world_scheme \<Rightarrow> ('a segtree ptr \<times> ('a, 'b) world_scheme) option" where
  "segtree_clone src w = (case src of NULL \<Rightarrow> Some (NULL, w) | Ptr s \<Rightarrow> do {
     (copy, w1) \<leftarrow> segtree_new (t_size s) (t_elem_size s) (t_identity s) (t_merge s) w;
     if copy = NULL then Some (NULL, w1)
     else do {
       (rc, copy1, w2) \<leftarrow> segtree_copy False copy src w1;
       if rc \<noteq> 0 then Some (NULL, segtree_free copy1 w2) else Some (copy1, w2) } })"

definition segtree_reset :: "'a segtree ptr \<Rightarrow> (int \<times> 'a segtree ptr) option" where
  "segtree_reset p =
     (if p = NULL \<or> t_identity (pt p) = NULL \<or> t_nodes (pt p) = NULL then Some (- 1, p)
      else let st = pt p in do {
        b \<leftarrow> fill_nodes (pt (t_identity st)) [0..<segtree_node_count st] (t_nodes st);
        Some (0, Ptr (st\<lparr>t_nodes := b\<rparr>)) })"

text \<open>The callback writes the node, or fails and leaves it unspecified. A NULL callback is
  undefined behaviour.\<close>

definition segtree_rebuild_node ::
    "'a segtree \<Rightarrow> nat \<Rightarrow> ('a, 'b) world_scheme \<Rightarrow> (int \<times> 'a segtree \<times> ('a, 'b) world_scheme) option" where
  "segtree_rebuild_node st i w = (case t_merge st of NULL \<Rightarrow> None | Ptr f \<Rightarrow> do {
     x \<leftarrow> buf_get (t_nodes st) (i * 2);
     y \<leftarrow> buf_get (t_nodes st) (i * 2 + 1);
     let (r, w1) = merge_elements f x y w in do {
     b \<leftarrow> buf_put (t_nodes st) i r;
     Some (if r = None then - 1 else 0, st\<lparr>t_nodes := b\<rparr>, w1) } })"

fun load_leaves :: "'a list \<Rightarrow> nat \<Rightarrow> nat list \<Rightarrow> 'a buf \<Rightarrow> 'a buf option" where
  "load_leaves values capacity [] b = Some b"
| "load_leaves values capacity (i # is) b =
     (if i < length values then do {
        b1 \<leftarrow> buf_put b (sz_add capacity i) (Some (values ! i));
        load_leaves values capacity is b1 }
      else None)"

fun rebuild_nodes ::
    "nat list \<Rightarrow> 'a segtree \<Rightarrow> ('a, 'b) world_scheme \<Rightarrow> (int \<times> 'a segtree \<times> ('a, 'b) world_scheme) option" where
  "rebuild_nodes [] st w = Some (0, st, w)"
| "rebuild_nodes (i # is) st w = do {
     (rc, st1, w1) \<leftarrow> segtree_rebuild_node st i w;
     if rc \<noteq> 0 then Some (- 1, st1, w1) else rebuild_nodes is st1 w1 }"

definition segtree_build ::
    "'a segtree ptr \<Rightarrow> 'a list ptr \<Rightarrow> ('a, 'b) world_scheme
     \<Rightarrow> (int \<times> 'a segtree ptr \<times> ('a, 'b) world_scheme) option" where
  "segtree_build p elems w =
     (if p = NULL \<or> 0 < t_size (pt p) \<and> elems = NULL then Some (- 1, p, w)
      else do {
        (rc, q) \<leftarrow> segtree_reset p;
        if rc \<noteq> 0 then Some (- 1, q, w)
        else let st = pt q in do {
          b \<leftarrow> (if t_size st = 0 then Some (t_nodes st)
               else load_leaves (pt elems) (t_capacity st) [0..<t_size st] (t_nodes st));
          (rc1, st1, w1) \<leftarrow> rebuild_nodes (rev [1..<t_capacity st]) (st\<lparr>t_nodes := b\<rparr>) w;
          Some (rc1, Ptr st1, w1) } })"

function rebuild_path ::
    "nat \<Rightarrow> 'a segtree \<Rightarrow> ('a, 'b) world_scheme \<Rightarrow> (int \<times> 'a segtree \<times> ('a, 'b) world_scheme) option" where
  "rebuild_path node_index st w =
     (if 1 < node_index then do {
        (rc, st1, w1) \<leftarrow> segtree_rebuild_node st (node_index div 2) w;
        if rc \<noteq> 0 then Some (- 1, st1, w1) else rebuild_path (node_index div 2) st1 w1 }
      else Some (0, st, w))"
  by pat_completeness auto
termination
  by (relation "measure (\<lambda>(i, st, w). i)") auto

declare rebuild_path.simps [simp del]

definition segtree_set ::
    "'a segtree ptr \<Rightarrow> size_t \<Rightarrow> 'a ptr \<Rightarrow> ('a, 'b) world_scheme
     \<Rightarrow> (int \<times> 'a segtree ptr \<times> ('a, 'b) world_scheme) option" where
  "segtree_set p index elem w =
     (if p = NULL \<or> elem = NULL \<or> t_size (pt p) \<le> index then Some (- 1, p, w)
      else let st = pt p; node_index = sz_add (t_capacity st) index in do {
        b \<leftarrow> buf_put (t_nodes st) node_index (Some (pt elem));
        (rc, st1, w1) \<leftarrow> rebuild_path node_index (st\<lparr>t_nodes := b\<rparr>) w;
        Some (rc, Ptr st1, w1) })"

text \<open>\<open>get\<close> and \<open>query\<close> return the value written through \<open>out\<close>, if any; \<open>out\<close> says
  whether the pointer is not NULL.\<close>

definition segtree_get :: "'a segtree ptr \<Rightarrow> size_t \<Rightarrow> bool \<Rightarrow> (int \<times> 'a option) option" where
  "segtree_get p index out =
     (if p = NULL \<or> \<not> out \<or> t_size (pt p) \<le> index then Some (- 1, None)
      else do {
        x \<leftarrow> buf_get (t_nodes (pt p)) (sz_add (t_capacity (pt p)) index);
        Some (0, Some x) })"

text \<open>The two halves of the loop body of \<open>segtree_query\<close>: a boundary that is a right child on
  the left side (a left child on the right side) is merged and passed.\<close>

definition query_left ::
    "('a \<Rightarrow> 'a \<Rightarrow> 'a) \<Rightarrow> 'a buf \<Rightarrow> nat \<Rightarrow> 'a \<Rightarrow> ('a, 'b) world_scheme
     \<Rightarrow> ('a option \<times> nat \<times> ('a, 'b) world_scheme) option" where
  "query_left f b left lv w =
     (if odd left then do {
        x \<leftarrow> buf_get b left;
        let (r, w1) = merge_elements f lv x w in Some (r, sz_add left 1, w1) }
      else Some (Some lv, left, w))"

definition query_right ::
    "('a \<Rightarrow> 'a \<Rightarrow> 'a) \<Rightarrow> 'a buf \<Rightarrow> nat \<Rightarrow> 'a \<Rightarrow> ('a, 'b) world_scheme
     \<Rightarrow> ('a option \<times> nat \<times> ('a, 'b) world_scheme) option" where
  "query_right f b right rv w =
     (if odd right then do {
        x \<leftarrow> buf_get b (right - 1);
        let (r, w1) = merge_elements f x rv w in Some (r, right - 1, w1) }
      else Some (Some rv, right, w))"

text \<open>The loop of \<open>segtree_query\<close>; \<open>Inl\<close> is the early return after a failed merge, \<open>Inr\<close>
  holds the final left and right values.\<close>

partial_function (option) query_loop ::
    "('a \<Rightarrow> 'a \<Rightarrow> 'a) \<Rightarrow> 'a buf \<Rightarrow> nat \<Rightarrow> nat \<Rightarrow> 'a \<Rightarrow> 'a \<Rightarrow> ('a, 'b) world_scheme
     \<Rightarrow> ((unit + 'a \<times> 'a) \<times> ('a, 'b) world_scheme) option" where
  "query_loop f b left right lv rv w =
     (if left < right then do {
        (l, left1, w1) \<leftarrow> query_left f b left lv w;
        case l of None \<Rightarrow> Some (Inl (), w1) | Some lv1 \<Rightarrow> do {
        (r, right1, w2) \<leftarrow> query_right f b right rv w1;
        case r of None \<Rightarrow> Some (Inl (), w2)
        | Some rv1 \<Rightarrow> query_loop f b (left1 div 2) (right1 div 2) lv1 rv1 w2 } }
      else Some (Inr (lv, rv), w))"

definition segtree_query ::
    "'a segtree ptr \<Rightarrow> size_t \<Rightarrow> size_t \<Rightarrow> bool \<Rightarrow> ('a, 'b) world_scheme
     \<Rightarrow> (int \<times> 'a option \<times> ('a, 'b) world_scheme) option" where
  "segtree_query p start stop out w =
     (if p = NULL \<or> \<not> out \<or> stop < start \<or> t_size (pt p) < stop then Some (- 1, None, w)
      else let st = pt p in
        case t_identity st of NULL \<Rightarrow> None | Ptr e \<Rightarrow>
        if start = stop then Some (0, Some e, w)
        else let (ok1, w1) = malloc (t_elem_size st) w;
                 (ok2, w2) = malloc (t_elem_size st) w1;
                 (ok3, w3) = malloc (t_elem_size st) w2;
                 release = (\<lambda>w. w\<lparr>live := live w - of_bool ok1 - of_bool ok2 - of_bool ok3\<rparr>) in
          if \<not> (ok1 \<and> ok2 \<and> ok3) then Some (- 1, None, release w3)
          else case t_merge st of NULL \<Rightarrow> None | Ptr f \<Rightarrow> do {
            (res, w4) \<leftarrow> query_loop f (t_nodes st) (sz_add start (t_capacity st))
                (sz_add stop (t_capacity st)) e e w3;
            case res of Inl _ \<Rightarrow> Some (- 1, None, release w4)
            | Inr (lv, rv) \<Rightarrow> let (r, w5) = merge_elements f lv rv w4 in
                Some (if r = None then - 1 else 0, r, release w5) })"

section \<open>Invariant\<close>

definition seg_shape :: "'a segtree \<Rightarrow> ('a \<Rightarrow> 'a \<Rightarrow> 'a) \<Rightarrow> 'a \<Rightarrow> bool" where
  "seg_shape st f e \<longleftrightarrow> 0 < t_capacity st \<and> t_size st \<le> t_capacity st
     \<and> segtree_next_capacity (at_least_one (t_size st)) = Some (0, t_capacity st)
     \<and> 0 < t_elem_size st \<and> t_capacity st * 2 * t_elem_size st \<le> PTRDIFF_MAX
     \<and> t_merge st = Ptr f \<and> t_identity st = Ptr e
     \<and> length (slots (t_nodes st)) = t_capacity st * 2"

definition node_ok :: "('a \<Rightarrow> 'a \<Rightarrow> 'a) \<Rightarrow> 'a list \<Rightarrow> nat \<Rightarrow> bool" where
  "node_ok f ns i \<longleftrightarrow> ns ! i = f (ns ! (i * 2)) (ns ! (i * 2 + 1))"

definition leaves :: "'a \<Rightarrow> 'a list \<Rightarrow> nat \<Rightarrow> 'a list" where
  "leaves e vs c = vs @ replicate (c - length vs) e"

definition seg_rel :: "'a segtree \<Rightarrow> ('a \<Rightarrow> 'a \<Rightarrow> 'a) \<Rightarrow> 'a \<Rightarrow> 'a list \<Rightarrow> bool" where
  "seg_rel st f e vs \<longleftrightarrow> seg_shape st f e \<and> t_size st = length vs
     \<and> (\<exists>ns. holds (t_nodes st) ns \<and> length ns = t_capacity st * 2
          \<and> drop (t_capacity st) ns = leaves e vs (t_capacity st)
          \<and> (\<forall>i < t_capacity st. 0 < i \<longrightarrow> node_ok f ns i))"

definition seg_own :: "'a segtree \<Rightarrow> int" where
  "seg_own st = blocks (t_identity st) + blocks (t_nodes st)"

lemma seg_shapeD:
  assumes "seg_shape st f e"
  shows "0 < t_capacity st" "t_size st \<le> t_capacity st" "0 < t_elem_size st" "t_capacity st * 2 \<le> PTRDIFF_MAX"
    "t_merge st = Ptr f" "t_identity st = Ptr e" "length (slots (t_nodes st)) = t_capacity st * 2"
    "t_nodes st \<noteq> NULL" "segtree_node_count st = t_capacity st * 2" "t_elem_size st \<le> PTRDIFF_MAX"
proof -
  show 1: "0 < t_capacity st" using assms by (auto simp: seg_shape_def)
  show "t_size st \<le> t_capacity st" "0 < t_elem_size st" "t_merge st = Ptr f" "t_identity st = Ptr e"
    and len: "length (slots (t_nodes st)) = t_capacity st * 2"
    using assms by (simp_all add: seg_shape_def)
  show 2: "t_capacity st * 2 \<le> PTRDIFF_MAX"
    using assms mult_le_PTRDIFF [of "t_capacity st * 2" "t_elem_size st"] by (simp add: seg_shape_def)
  show "t_nodes st \<noteq> NULL" using len 1 by auto
  show "segtree_node_count st = t_capacity st * 2"
    using 2 SIZE_MAX_PTRDIFF_MAX by (simp add: segtree_node_count_def)
  have "1 * t_elem_size st \<le> t_capacity st * 2 * t_elem_size st" using 1 by (intro mult_le_mono1) simp
  also have "\<dots> \<le> PTRDIFF_MAX" using assms by (simp add: seg_shape_def)
  finally show "t_elem_size st \<le> PTRDIFF_MAX" by simp
qed

lemma seg_shape_nodes:
  "seg_shape st f e \<Longrightarrow> length (slots b) = t_capacity st * 2 \<Longrightarrow> seg_shape (st\<lparr>t_nodes := b\<rparr>) f e"
  by (simp add: seg_shape_def)

lemma merge_effect:
  assumes "merge_elements f x y w = (r, w')"
  shows "destroyed w' = destroyed w" "live w' = live w" "r = Some z \<Longrightarrow> z = f x y"
    "no_fail w \<Longrightarrow> no_fail w'" "no_fail w \<Longrightarrow> r = Some (f x y)"
proof -
  obtain b cs where o: "next_outcome (copies w) = (b, cs)" by fastforce
  with assms show "destroyed w' = destroyed w" "live w' = live w" "r = Some z \<Longrightarrow> z = f x y"
    by (auto simp: merge_elements_def split: if_splits)
  show "no_fail w \<Longrightarrow> no_fail w'" "no_fail w \<Longrightarrow> r = Some (f x y)"
    using assms o next_outcome_all [OF o]
    by (auto simp: merge_elements_def no_fail_def split: if_splits)
qed

section \<open>Filling and rebuilding\<close>

lemma fill_nodes_ok:
  assumes "\<forall>i \<in> set is. i < length (slots b)" and "b \<noteq> NULL"
  shows "\<exists>b'. fill_nodes e is b = Some b' \<and> length (slots b') = length (slots b) \<and> b' \<noteq> NULL
    \<and> (\<forall>i < length (slots b). slots b' ! i = (if i \<in> set is then Some e else slots b ! i))"
  using assms
proof (induction "is" arbitrary: b)
  case (Cons i is')
  then obtain b1 where b1: "buf_put b i (Some e) = Some b1" "b1 \<noteq> NULL"
    and s1: "slots b1 = (slots b)[i := Some e]"
    by (auto simp: buf_put_def)
  from Cons.IH [of b1] Cons.prems(1) b1 s1 show ?case
    by (auto simp: nth_list_update)
qed simp

lemma fill_all_ok:
  assumes "length (slots b) = n" and "b \<noteq> NULL"
  shows "\<exists>b'. fill_nodes e [0..<n] b = Some b' \<and> slots b' = replicate n (Some e) \<and> b' \<noteq> NULL"
proof -
  obtain b' where "fill_nodes e [0..<n] b = Some b'" "length (slots b') = n" "b' \<noteq> NULL"
    "\<forall>i < n. slots b' ! i = Some e"
    using fill_nodes_ok [of "[0..<n]" b e] assms by auto
  then show ?thesis by (auto intro: nth_equalityI)
qed

lemma rebuild_node_ok:
  assumes s: "seg_shape st f e" and ns: "holds (t_nodes st) ns" "length ns = t_capacity st * 2"
    and i: "0 < i" "i < t_capacity st"
  shows "\<exists>rc b w'. segtree_rebuild_node st i w = Some (rc, st\<lparr>t_nodes := b\<rparr>, w')
    \<and> length (slots b) = t_capacity st * 2 \<and> destroyed w' = destroyed w \<and> live w' = live w
    \<and> (no_fail w \<longrightarrow> no_fail w' \<and> rc = 0)
    \<and> (rc = 0 \<and> holds b (ns[i := f (ns ! (i * 2)) (ns ! (i * 2 + 1))]) \<or> rc = - 1)"
proof -
  note S = seg_shapeD [OF s]
  let ?x = "ns ! (i * 2)" and ?y = "ns ! (i * 2 + 1)"
  obtain r w1 where m: "merge_elements f ?x ?y w = (r, w1)" by fastforce
  note M = merge_effect [OF m]
  have get: "buf_get (t_nodes st) (i * 2) = Some ?x" "buf_get (t_nodes st) (i * 2 + 1) = Some ?y"
    using holds_get [OF ns(1)] ns(2) i by simp_all
  obtain b where b: "buf_put (t_nodes st) i r = Some b" "length (slots b) = t_capacity st * 2"
    using buf_put_ok [of i "t_nodes st" r] S(7) i by auto
  have eq: "segtree_rebuild_node st i w = Some (if r = None then - 1 else 0, st\<lparr>t_nodes := b\<rparr>, w1)"
    using S(5) get m b(1) by (simp add: segtree_rebuild_node_def)
  have "holds b (ns[i := f ?x ?y])" if "r \<noteq> None"
    using that M(3) holds_put_old [OF ns(1), of i "f ?x ?y"] b(1) ns(2) i by fastforce
  with eq b(2) M(1,2,4,5) show ?thesis
    by (intro exI [of _ "if r = None then - 1 else 0"] exI [of _ b] exI [of _ w1]) auto
qed

text \<open>The nodes above \<open>j\<close>, which a change of node \<open>j\<close> may invalidate.\<close>

fun above :: "nat \<Rightarrow> nat set" where
  "above j = (if 1 < j then insert (j div 2) (above (j div 2)) else {})"

declare above.simps [simp del]

lemma above_less: "i \<in> above j \<Longrightarrow> 0 < i \<and> i < j"
proof (induction j rule: above.induct)
  case (1 j)
  then show ?case
    by (subst (asm) (2) above.simps) (fastforce split: if_splits)
qed

lemma rebuild_path_ok:
  assumes "seg_shape st f e" and "holds (t_nodes st) ns" and "length ns = t_capacity st * 2"
    and "0 < j" and "j < t_capacity st * 2"
    and "\<forall>i < t_capacity st. 0 < i \<longrightarrow> i \<notin> above j \<longrightarrow> node_ok f ns i"
  shows "\<exists>rc b ns' w'. rebuild_path j st w = Some (rc, st\<lparr>t_nodes := b\<rparr>, w')
    \<and> length (slots b) = t_capacity st * 2 \<and> destroyed w' = destroyed w \<and> live w' = live w
    \<and> (no_fail w \<longrightarrow> no_fail w' \<and> rc = 0)
    \<and> (rc = 0 \<and> holds b ns' \<and> length ns' = length ns \<and> drop (t_capacity st) ns' = drop (t_capacity st) ns
         \<and> (\<forall>i < t_capacity st. 0 < i \<longrightarrow> node_ok f ns' i) \<or> rc = - 1)"
  using assms
proof (induction j arbitrary: st ns w rule: less_induct)
  case (less j)
  note S = seg_shapeD [OF less.prems(1)]
  show ?case
  proof (cases "1 < j")
    case False
    then have "above j = {}" by (subst above.simps) simp
    moreover have "rebuild_path j st w = Some (0, st\<lparr>t_nodes := t_nodes st\<rparr>, w)"
      using False by (subst rebuild_path.simps) simp
    ultimately show ?thesis using less.prems S(7) by blast
  next
    case True
    let ?p = "j div 2" and ?x = "f (ns ! (j div 2 * 2)) (ns ! (j div 2 * 2 + 1))"
    have p: "0 < ?p" "?p < t_capacity st" "?p < j" using True less.prems(5) by auto
    obtain rc b w1 where r: "segtree_rebuild_node st ?p w = Some (rc, st\<lparr>t_nodes := b\<rparr>, w1)"
      "length (slots b) = t_capacity st * 2" "destroyed w1 = destroyed w" "live w1 = live w"
      "no_fail w \<longrightarrow> no_fail w1 \<and> rc = 0" "rc = 0 \<and> holds b (ns[?p := ?x]) \<or> rc = - 1"
      using rebuild_node_ok [OF less.prems(1-3) p(1,2), of w] by (elim exE conjE) (rule that)
    show ?thesis
    proof (cases "rc = 0")
      case False
      then have "rebuild_path j st w = Some (- 1, st\<lparr>t_nodes := b\<rparr>, w1)"
        using True r(1) by (subst rebuild_path.simps) simp
      then show ?thesis using r False by auto
    next
      case ok: True
      let ?st = "st\<lparr>t_nodes := b\<rparr>" and ?ns = "ns[?p := ?x]"
      have shape: "seg_shape ?st f e" using less.prems(1) r(2) by (rule seg_shape_nodes)
      have ab: "above j = insert ?p (above ?p)" using True by (subst above.simps) simp
      have nodes: "\<forall>i < t_capacity ?st. 0 < i \<longrightarrow> i \<notin> above ?p \<longrightarrow> node_ok f ?ns i"
      proof (intro allI impI)
        fix i assume i: "i < t_capacity ?st" "0 < i" "i \<notin> above ?p"
        have kids: "i * 2 \<noteq> ?p" "i * 2 + 1 \<noteq> ?p"
        proof -
          have "?p \<noteq> i * 2 \<and> ?p \<noteq> i * 2 + 1"
          proof (rule ccontr)
            assume "\<not> (?p \<noteq> i * 2 \<and> ?p \<noteq> i * 2 + 1)"
            then have "?p div 2 = i" "1 < ?p" using i(2) by auto
            then have "i \<in> above ?p" by (subst above.simps) simp
            with i(3) show False by simp
          qed
          then show "i * 2 \<noteq> ?p" "i * 2 + 1 \<noteq> ?p" by auto
        qed
        show "node_ok f ?ns i"
        proof (cases "i = ?p")
          case True
          have "?p < length ns" using p less.prems(3) by simp
          then show ?thesis unfolding node_ok_def True using p(1) by simp
        next
          case False
          with less.prems(6) i ab have "node_ok f ns i" by simp
          then show ?thesis using False kids by (simp add: node_ok_def)
        qed
      qed
      have hb: "holds (t_nodes ?st) ?ns" "length ?ns = t_capacity ?st * 2" "?p < t_capacity ?st * 2"
        using r(6) ok less.prems(3) p by simp_all
      obtain rc' b' ns' w' where q: "rebuild_path ?p ?st w1 = Some (rc', ?st\<lparr>t_nodes := b'\<rparr>, w')"
        "length (slots b') = t_capacity ?st * 2" "destroyed w' = destroyed w1" "live w' = live w1"
        "no_fail w1 \<longrightarrow> no_fail w' \<and> rc' = 0"
        "rc' = 0 \<and> holds b' ns' \<and> length ns' = length ?ns \<and> drop (t_capacity ?st) ns' = drop (t_capacity ?st) ?ns
          \<and> (\<forall>i < t_capacity ?st. 0 < i \<longrightarrow> node_ok f ns' i) \<or> rc' = - 1"
        using less.IH [OF p(3) shape hb(1,2) p(1) hb(3) nodes, of w1] by (elim exE conjE) (rule that)
      have "rebuild_path j st w = Some (rc', st\<lparr>t_nodes := b'\<rparr>, w')"
        using True ok r(1) q(1) by (subst rebuild_path.simps) simp
      moreover have "drop (t_capacity st) ?ns = drop (t_capacity st) ns" using p(2) by simp
      ultimately show ?thesis
        using r q by (intro exI [of _ rc'] exI [of _ b'] exI [of _ ns'] exI [of _ w']) auto
    qed
  qed
qed

section \<open>Operations\<close>

lemma leaves_length: "length vs \<le> c \<Longrightarrow> length (leaves e vs c) = c"
  by (simp add: leaves_def)

lemma seg_relE:
  assumes "seg_rel st f e vs"
  obtains ns where "seg_shape st f e" "t_size st = length vs" "holds (t_nodes st) ns"
    "length ns = t_capacity st * 2" "drop (t_capacity st) ns = leaves e vs (t_capacity st)"
    "\<forall>i < t_capacity st. 0 < i \<longrightarrow> node_ok f ns i"
  using assms by (auto simp: seg_rel_def)

lemma leaf_get:
  assumes "drop c ns = leaves e vs c" and "length vs \<le> c" and "i < length vs" and "length ns = c * 2"
  shows "ns ! (c + i) = vs ! i"
proof -
  have "ns ! (c + i) = drop c ns ! i" by (rule nth_drop [symmetric]) (use assms in simp)
  also have "\<dots> = vs ! i" using assms(3) unfolding assms(1) leaves_def by (simp add: nth_append)
  finally show ?thesis .
qed

lemma segtree_get_ok:
  assumes "seg_rel st f e vs"
  shows "segtree_get (Ptr st) i True = Some (if i < length vs then (0, Some (vs ! i)) else (- 1, None))"
proof -
  obtain ns where N: "seg_shape st f e" "t_size st = length vs" "holds (t_nodes st) ns"
    "length ns = t_capacity st * 2" "drop (t_capacity st) ns = leaves e vs (t_capacity st)"
    using assms by (rule seg_relE)
  note S = seg_shapeD [OF N(1)]
  have "segtree_get (Ptr st) i True = Some (0, Some (vs ! i))" if i: "i < length vs"
  proof -
    have "sz_add (t_capacity st) i = t_capacity st + i"
      using i S(2,4) N(2) SIZE_MAX_PTRDIFF_MAX by simp
    moreover have "ns ! (t_capacity st + i) = vs ! i"
      using leaf_get [OF N(5) _ i N(4)] S(2) N(2) by simp
    moreover have "t_capacity st + i < length ns" using i S(2) N(2,4) by simp
    ultimately show ?thesis using holds_get [OF N(3)] i N(2) by (simp add: segtree_get_def)
  qed
  then show ?thesis using N(2) by (simp add: segtree_get_def)
qed

lemma segtree_set_ok:
  assumes st: "seg_rel st f e vs" and i: "i < length vs"
  shows "\<exists>rc b w'. segtree_set (Ptr st) i (Ptr x) w = Some (rc, Ptr (st\<lparr>t_nodes := b\<rparr>), w')
    \<and> seg_shape (st\<lparr>t_nodes := b\<rparr>) f e \<and> destroyed w' = destroyed w \<and> live w' = live w
    \<and> (no_fail w \<longrightarrow> no_fail w' \<and> rc = 0)
    \<and> (rc = 0 \<and> seg_rel (st\<lparr>t_nodes := b\<rparr>) f e (vs[i := x]) \<or> rc = - 1)"
proof -
  obtain ns where N: "seg_shape st f e" "t_size st = length vs" "holds (t_nodes st) ns"
    "length ns = t_capacity st * 2" "drop (t_capacity st) ns = leaves e vs (t_capacity st)"
    "\<forall>i < t_capacity st. 0 < i \<longrightarrow> node_ok f ns i"
    using st by (rule seg_relE)
  note S = seg_shapeD [OF N(1)]
  let ?j = "t_capacity st + i"
  have j: "sz_add (t_capacity st) i = ?j" "0 < ?j" "?j < t_capacity st * 2"
    using i S(1,2,4) N(2) SIZE_MAX_PTRDIFF_MAX by simp_all
  obtain b where b: "buf_put (t_nodes st) ?j (Some x) = Some b" "holds b (ns[?j := x])"
    "length (slots b) = t_capacity st * 2"
    using holds_put_old [OF N(3), of ?j x] j(3) N(4) S(7) by auto
  let ?st = "st\<lparr>t_nodes := b\<rparr>"
  have shape: "seg_shape ?st f e" using N(1) b(3) by (rule seg_shape_nodes)
  have nodes: "\<forall>m < t_capacity ?st. 0 < m \<longrightarrow> m \<notin> above ?j \<longrightarrow> node_ok f (ns[?j := x]) m"
  proof (intro allI impI)
    fix m assume m: "m < t_capacity ?st" "0 < m" "m \<notin> above ?j"
    have "?j \<noteq> m * 2 \<and> ?j \<noteq> m * 2 + 1"
    proof (rule ccontr)
      assume "\<not> (?j \<noteq> m * 2 \<and> ?j \<noteq> m * 2 + 1)"
      then have "?j div 2 = m" "1 < ?j" using m(2) by auto
      then have "m \<in> above ?j" by (subst above.simps) simp
      with m(3) show False by simp
    qed
    then show "node_ok f (ns[?j := x]) m"
      using N(6) m by (simp add: node_ok_def)
  qed
  have hyps: "holds (t_nodes ?st) (ns[?j := x])" "length (ns[?j := x]) = t_capacity ?st * 2"
    "?j < t_capacity ?st * 2"
    using b(2) N(4) j(3) by simp_all
  obtain rc b' ns' w' where p: "rebuild_path ?j ?st w = Some (rc, ?st\<lparr>t_nodes := b'\<rparr>, w')"
    "length (slots b') = t_capacity ?st * 2" "destroyed w' = destroyed w" "live w' = live w"
    "no_fail w \<longrightarrow> no_fail w' \<and> rc = 0"
    "rc = 0 \<and> holds b' ns' \<and> length ns' = length (ns[?j := x])
      \<and> drop (t_capacity ?st) ns' = drop (t_capacity ?st) (ns[?j := x])
      \<and> (\<forall>i < t_capacity ?st. 0 < i \<longrightarrow> node_ok f ns' i) \<or> rc = - 1"
    using rebuild_path_ok [OF shape hyps(1,2) j(2) hyps(3) nodes, of w] by (elim exE conjE) (rule that)
  have shape': "seg_shape (st\<lparr>t_nodes := b'\<rparr>) f e" using N(1) p(2) by (simp add: seg_shape_nodes)
  have "drop (t_capacity st) (ns[?j := x]) = leaves e (vs[i := x]) (t_capacity st)"
    using i by (simp add: drop_update_swap N(5) leaves_def list_update_append)
  then have "seg_rel (st\<lparr>t_nodes := b'\<rparr>) f e (vs[i := x])" if "rc = 0"
    using p(6) that shape' N(2,4) by (auto simp: seg_rel_def)
  moreover have "segtree_set (Ptr st) i (Ptr x) w = Some (rc, Ptr (st\<lparr>t_nodes := b'\<rparr>), w')"
    using i N(2) j(1) b(1) p(1) by (simp add: segtree_set_def)
  ultimately show ?thesis
    using p(3-6) shape' by (intro exI [of _ rc] exI [of _ b'] exI [of _ w']) auto
qed

lemma segtree_reset_ok:
  assumes s: "seg_shape st f e"
  shows "\<exists>b. segtree_reset (Ptr st) = Some (0, Ptr (st\<lparr>t_nodes := b\<rparr>))
    \<and> seg_shape (st\<lparr>t_nodes := b\<rparr>) f e \<and> holds b (replicate (t_capacity st * 2) e)"
proof -
  note S = seg_shapeD [OF s]
  obtain b where b: "fill_nodes e [0..<t_capacity st * 2] (t_nodes st) = Some b"
    "slots b = replicate (t_capacity st * 2) (Some e)"
    using fill_all_ok [OF S(7,8)] by blast
  then have "segtree_reset (Ptr st) = Some (0, Ptr (st\<lparr>t_nodes := b\<rparr>))"
    using S(6,8,9) by (simp add: segtree_reset_def)
  moreover have "holds b (replicate (t_capacity st * 2) e)" using b(2) by (simp add: holds_def)
  ultimately show ?thesis using seg_shape_nodes [OF s, of b] b(2) by auto
qed

lemma seg_rel_fresh:
  assumes "seg_shape st f e" and "holds (t_nodes st) (replicate (t_capacity st * 2) e)" and "f e e = e"
  shows "seg_rel st f e (replicate (t_size st) e)"
  unfolding seg_rel_def
proof (intro conjI exI [of _ "replicate (t_capacity st * 2) e"])
  show "drop (t_capacity st) (replicate (t_capacity st * 2) e)
      = leaves e (replicate (t_size st) e) (t_capacity st)"
    using seg_shapeD(2) [OF assms(1)] by (simp add: leaves_def flip: replicate_add)
  show "\<forall>i < t_capacity st. 0 < i \<longrightarrow> node_ok f (replicate (t_capacity st * 2) e) i"
    using assms(3) by (auto simp: node_ok_def)
qed (use assms in simp_all)

lemma load_leaves_ok:
  assumes "holds b ns" and "length ns = c * 2" and "length vs \<le> c" and "c * 2 \<le> SIZE_MAX"
    and "i \<le> length vs" and "take i (drop c ns) = take i vs"
  shows "\<exists>b' ns'. load_leaves vs c [i..<length vs] b = Some b' \<and> holds b' ns' \<and> length ns' = length ns
    \<and> length (slots b') = length (slots b) \<and> drop c ns' = vs @ drop (length vs) (drop c ns)"
  using assms
proof (induction "length vs - i" arbitrary: i b ns)
  case 0
  then have "i = length vs" by simp
  with 0 have "load_leaves vs c [i..<length vs] b = Some b" "drop c ns = vs @ drop (length vs) (drop c ns)"
    using append_take_drop_id [of "length vs" "drop c ns"] by simp_all
  with 0 show ?case by blast
next
  case (Suc k)
  then have i: "i < length vs" "c + i < length ns" by simp_all
  have j: "sz_add c i = c + i" using Suc.prems i by simp
  obtain b1 where b1: "buf_put b (c + i) (Some (vs ! i)) = Some b1" "holds b1 (ns[c + i := vs ! i])"
    "length (slots b1) = length (slots b)"
    using holds_put_old [OF Suc.prems(1) i(2)] by blast
  let ?ns = "ns[c + i := vs ! i]"
  have d: "drop c ?ns = (drop c ns)[i := vs ! i]" by (simp add: drop_update_swap)
  have "take (Suc i) (drop c ?ns) = take (Suc i) vs"
    unfolding d using Suc.prems(6) i by (simp add: take_Suc_conv_app_nth)
  moreover have "k = length vs - Suc i" "Suc i \<le> length vs" "length ?ns = c * 2"
    using Suc.hyps(2) i Suc.prems(2) by simp_all
  ultimately obtain b' ns' where r: "load_leaves vs c [Suc i..<length vs] b1 = Some b'" "holds b' ns'"
    "length ns' = length ?ns" "length (slots b') = length (slots b1)"
    "drop c ns' = vs @ drop (length vs) (drop c ?ns)"
    using Suc.hyps(1) [OF _ b1(2) _ Suc.prems(3,4)] by blast
  have "drop (length vs) (drop c ?ns) = drop (length vs) (drop c ns)"
    unfolding d using i by (simp add: drop_update_cancel)
  then show ?case using r b1 i j by (auto simp: upt_conv_Cons)
qed

lemma rebuild_nodes_ok:
  assumes "seg_shape st f e" and "holds (t_nodes st) ns" and "length ns = t_capacity st * 2"
    and "Suc k \<le> t_capacity st" and "\<forall>i < t_capacity st. k < i \<longrightarrow> node_ok f ns i"
  shows "\<exists>rc b ns' w'. rebuild_nodes (rev [1..<Suc k]) st w = Some (rc, st\<lparr>t_nodes := b\<rparr>, w')
    \<and> length (slots b) = t_capacity st * 2 \<and> destroyed w' = destroyed w \<and> live w' = live w
    \<and> (no_fail w \<longrightarrow> no_fail w' \<and> rc = 0)
    \<and> (rc = 0 \<and> holds b ns' \<and> length ns' = length ns \<and> drop (t_capacity st) ns' = drop (t_capacity st) ns
         \<and> (\<forall>i < t_capacity st. 0 < i \<longrightarrow> node_ok f ns' i) \<or> rc = - 1)"
  using assms
proof (induction k arbitrary: st ns w)
  case 0
  have "rebuild_nodes (rev [1..<Suc 0]) st w = Some (0, st\<lparr>t_nodes := t_nodes st\<rparr>, w)" by simp
  then show ?case using 0 seg_shapeD(7) [OF 0(1)] by blast
next
  case (Suc k)
  let ?p = "Suc k" and ?x = "f (ns ! (Suc k * 2)) (ns ! (Suc k * 2 + 1))"
  have p: "0 < ?p" "?p < t_capacity st" using Suc.prems(4) by simp_all
  obtain rc b w1 where r: "segtree_rebuild_node st ?p w = Some (rc, st\<lparr>t_nodes := b\<rparr>, w1)"
    "length (slots b) = t_capacity st * 2" "destroyed w1 = destroyed w" "live w1 = live w"
    "no_fail w \<longrightarrow> no_fail w1 \<and> rc = 0" "rc = 0 \<and> holds b (ns[?p := ?x]) \<or> rc = - 1"
    using rebuild_node_ok [OF Suc.prems(1-3) p, of w] by (elim exE conjE) (rule that)
  have list: "rev [1..<Suc ?p] = ?p # rev [1..<Suc k]" by simp
  show ?case
  proof (cases "rc = 0")
    case False
    then have "rebuild_nodes (rev [1..<Suc ?p]) st w = Some (- 1, st\<lparr>t_nodes := b\<rparr>, w1)"
      unfolding list using r(1) by simp
    then show ?thesis using r False by (intro exI [of _ "- 1"] exI [of _ b] exI [of _ ns] exI [of _ w1]) auto
  next
    case ok: True
    let ?st = "st\<lparr>t_nodes := b\<rparr>" and ?ns = "ns[?p := ?x]"
    have shape: "seg_shape ?st f e" using Suc.prems(1) r(2) by (rule seg_shape_nodes)
    have nodes: "\<forall>i < t_capacity ?st. k < i \<longrightarrow> node_ok f ?ns i"
    proof (intro allI impI)
      fix i assume i: "i < t_capacity ?st" "k < i"
      show "node_ok f ?ns i"
      proof (cases "i = ?p")
        case True
        have "?p < length ns" using p Suc.prems(3) by simp
        then show ?thesis unfolding node_ok_def True by simp
      next
        case False
        with Suc.prems(5) i have "node_ok f ns i" by simp
        then show ?thesis using False i(2) by (simp add: node_ok_def)
      qed
    qed
    have hb: "holds (t_nodes ?st) ?ns" "length ?ns = t_capacity ?st * 2" "Suc k \<le> t_capacity ?st"
      using r(6) ok Suc.prems(3,4) by simp_all
    obtain rc' b' ns' w' where q: "rebuild_nodes (rev [1..<Suc k]) ?st w1 = Some (rc', ?st\<lparr>t_nodes := b'\<rparr>, w')"
      "length (slots b') = t_capacity ?st * 2" "destroyed w' = destroyed w1" "live w' = live w1"
      "no_fail w1 \<longrightarrow> no_fail w' \<and> rc' = 0"
      "rc' = 0 \<and> holds b' ns' \<and> length ns' = length ?ns \<and> drop (t_capacity ?st) ns' = drop (t_capacity ?st) ?ns
        \<and> (\<forall>i < t_capacity ?st. 0 < i \<longrightarrow> node_ok f ns' i) \<or> rc' = - 1"
      using Suc.IH [OF shape hb nodes, of w1] by (elim exE conjE) (rule that)
    have "rebuild_nodes (rev [1..<Suc ?p]) st w = Some (rc', st\<lparr>t_nodes := b'\<rparr>, w')"
      unfolding list using ok r(1) q(1) by simp
    moreover have "drop (t_capacity st) ?ns = drop (t_capacity st) ns" using p(2) by simp
    ultimately show ?thesis
      using r q by (intro exI [of _ rc'] exI [of _ b'] exI [of _ ns'] exI [of _ w']) auto
  qed
qed

lemma segtree_build_ok:
  assumes s: "seg_shape st f e" and vs: "length vs = t_size st"
  shows "\<exists>rc b w'. segtree_build (Ptr st) (Ptr vs) w = Some (rc, Ptr (st\<lparr>t_nodes := b\<rparr>), w')
    \<and> seg_shape (st\<lparr>t_nodes := b\<rparr>) f e \<and> destroyed w' = destroyed w \<and> live w' = live w
    \<and> (no_fail w \<longrightarrow> no_fail w' \<and> rc = 0)
    \<and> (rc = 0 \<and> seg_rel (st\<lparr>t_nodes := b\<rparr>) f e vs \<or> rc = - 1)"
proof -
  note S = seg_shapeD [OF s]
  let ?c = "t_capacity st"
  obtain b0 where b0: "segtree_reset (Ptr st) = Some (0, Ptr (st\<lparr>t_nodes := b0\<rparr>))"
    "seg_shape (st\<lparr>t_nodes := b0\<rparr>) f e" "holds b0 (replicate (?c * 2) e)"
    using segtree_reset_ok [OF s] by blast
  have len0: "length (slots b0) = ?c * 2" using seg_shapeD(7) [OF b0(2)] by simp
  have small: "length vs \<le> ?c" "?c * 2 \<le> SIZE_MAX" using S(2,4) vs SIZE_MAX_PTRDIFF_MAX by simp_all
  obtain b1 ns1 where b1: "load_leaves vs ?c [0..<length vs] b0 = Some b1" "holds b1 ns1"
    "length ns1 = ?c * 2" "length (slots b1) = ?c * 2"
    "drop ?c ns1 = vs @ drop (length vs) (drop ?c (replicate (?c * 2) e))"
    using load_leaves_ok [OF b0(3) _ small, of 0] len0 by auto
  have load: "(if t_size st = 0 then Some b0 else load_leaves vs ?c [0..<t_size st] b0) = Some b1"
    using b1(1) vs by (cases "t_size st = 0") simp_all
  have lv: "drop ?c ns1 = leaves e vs ?c" using b1(5) by (simp add: leaves_def)
  let ?st = "st\<lparr>t_nodes := b1\<rparr>"
  have shape: "seg_shape ?st f e" using s b1(4) by (rule seg_shape_nodes)
  have k: "Suc (?c - 1) = ?c" using S(1) by simp
  have hyps: "holds (t_nodes ?st) ns1" "length ns1 = t_capacity ?st * 2" "Suc (?c - 1) \<le> t_capacity ?st"
    "\<forall>i < t_capacity ?st. ?c - 1 < i \<longrightarrow> node_ok f ns1 i"
    using b1 k by auto
  obtain rc b2 ns2 w' where r: "rebuild_nodes (rev [1..<?c]) ?st w = Some (rc, ?st\<lparr>t_nodes := b2\<rparr>, w')"
    "length (slots b2) = t_capacity ?st * 2" "destroyed w' = destroyed w" "live w' = live w"
    "no_fail w \<longrightarrow> no_fail w' \<and> rc = 0"
    "rc = 0 \<and> holds b2 ns2 \<and> length ns2 = length ns1
      \<and> drop (t_capacity ?st) ns2 = drop (t_capacity ?st) ns1
      \<and> (\<forall>i < t_capacity ?st. 0 < i \<longrightarrow> node_ok f ns2 i) \<or> rc = - 1"
    using rebuild_nodes_ok [OF shape hyps, of w] unfolding k by (elim exE conjE) (rule that)
  have shape2: "seg_shape (st\<lparr>t_nodes := b2\<rparr>) f e" using s r(2) by (simp add: seg_shape_nodes)
  have "segtree_build (Ptr st) (Ptr vs) w = Some (rc, Ptr (st\<lparr>t_nodes := b2\<rparr>), w')"
    using b0(1) load r(1) by (cases "t_size st = 0") (simp_all add: segtree_build_def Let_def)
  moreover have "seg_rel (st\<lparr>t_nodes := b2\<rparr>) f e vs" if "rc = 0"
    using r(6) that shape2 lv vs b1(3) by (auto simp: seg_rel_def)
  ultimately show ?thesis
    using r(3-6) shape2 by (intro exI [of _ rc] exI [of _ b2] exI [of _ w']) auto
qed

section \<open>Queries\<close>

text \<open>The contract of a merge callback: associative, with the identity as neutral element.\<close>

definition merge_ok :: "('a \<Rightarrow> 'a \<Rightarrow> 'a) \<Rightarrow> 'a \<Rightarrow> bool" where
  "merge_ok f e \<longleftrightarrow> (\<forall>x y z. f (f x y) z = f x (f y z)) \<and> (\<forall>x. f e x = x \<and> f x e = x)"

definition mfold :: "('a \<Rightarrow> 'a \<Rightarrow> 'a) \<Rightarrow> 'a \<Rightarrow> 'a list \<Rightarrow> 'a" where
  "mfold f e xs = foldr f xs e"

lemma mfold_simps [simp]: "mfold f e [] = e" "mfold f e (x # xs) = f x (mfold f e xs)"
  by (simp_all add: mfold_def)

lemma merge_okD:
  assumes "merge_ok f e"
  shows "f (f x y) z = f x (f y z)" "f e x = x" "f x e = x"
  using assms by (auto simp: merge_ok_def)

lemma mfold_append: "merge_ok f e \<Longrightarrow> mfold f e (xs @ ys) = f (mfold f e xs) (mfold f e ys)"
  by (induction xs) (simp_all add: merge_okD)

text \<open>The merge of the nodes from \<open>l\<close> below \<open>r\<close>.\<close>

definition seg_fold :: "('a \<Rightarrow> 'a \<Rightarrow> 'a) \<Rightarrow> 'a \<Rightarrow> 'a list \<Rightarrow> nat \<Rightarrow> nat \<Rightarrow> 'a" where
  "seg_fold f e ns l r = mfold f e (map ((!) ns) [l..<r])"

lemma seg_fold_left: "l < r \<Longrightarrow> seg_fold f e ns l r = f (ns ! l) (seg_fold f e ns (Suc l) r)"
  by (simp add: seg_fold_def upt_conv_Cons)

lemma seg_fold_right:
  assumes "merge_ok f e" and "l \<le> r"
  shows "seg_fold f e ns l (Suc r) = f (seg_fold f e ns l r) (ns ! r)"
  using assms by (simp add: seg_fold_def mfold_append merge_okD)

lemma seg_fold_empty [simp]: "r \<le> l \<Longrightarrow> seg_fold f e ns l r = e"
  by (simp add: seg_fold_def)

text \<open>A row of complete pairs of siblings has the same merge as the row of their parents.\<close>

lemma seg_fold_parents:
  assumes "merge_ok f e" and "\<forall>i. a \<le> i \<longrightarrow> i < b \<longrightarrow> node_ok f ns i"
  shows "seg_fold f e ns (a * 2) (b * 2) = seg_fold f e ns a b"
  using assms(2)
proof (induction "b - a" arbitrary: a)
  case (Suc k)
  then have ab: "a < b" by simp
  have ih: "seg_fold f e ns (Suc a * 2) (b * 2) = seg_fold f e ns (Suc a) b"
    using Suc.hyps Suc.prems by (intro Suc.hyps(1)) auto
  have "seg_fold f e ns (a * 2) (b * 2)
      = f (ns ! (a * 2)) (f (ns ! (a * 2 + 1)) (seg_fold f e ns (Suc a * 2) (b * 2)))"
    using ab by (simp add: seg_fold_left)
  also have "\<dots> = f (ns ! a) (seg_fold f e ns (Suc a * 2) (b * 2))"
    using Suc.prems ab by (simp add: node_ok_def merge_okD(1) [OF assms(1)])
  also have "\<dots> = seg_fold f e ns a b"
    by (simp only: ih seg_fold_left [OF ab])
  finally show ?case .
qed simp

lemma query_loop_ok:
  assumes f: "merge_ok f e" and ns: "holds b ns" "length ns = c * 2"
    and nodes: "\<forall>i < c. 0 < i \<longrightarrow> node_ok f ns i" and small: "c * 2 \<le> SIZE_MAX"
    and "0 < l" and "r \<le> c * 2"
  shows "\<exists>res w'. query_loop f b l r lv rv w = Some (res, w') \<and> destroyed w' = destroyed w
    \<and> live w' = live w \<and> (no_fail w \<longrightarrow> no_fail w' \<and> res \<noteq> Inl ())
    \<and> (res = Inl () \<or> (\<exists>lv' rv'. res = Inr (lv', rv') \<and> f lv' rv' = f lv (f (seg_fold f e ns l r) rv)))"
  using assms(6,7)
proof (induction "r - l" arbitrary: l r lv rv w rule: less_induct)
  case less
  note F = merge_okD [OF f]
  show ?case
  proof (cases "l < r")
    case False
    then have "query_loop f b l r lv rv w = Some (Inr (lv, rv), w)" by (subst query_loop.simps) simp
    then show ?thesis using False F by auto
  next
    case True
    define l1 where "l1 = (if odd l then Suc l else l)"
    define r1 where "r1 = (if odd r then r - 1 else r)"
    define lv1 where "lv1 = (if odd l then f lv (ns ! l) else lv)"
    define rv1 where "rv1 = (if odd r then f (ns ! (r - 1)) rv else rv)"
    have lr: "l1 \<le> r1" "even l1" "even r1" "2 \<le> l1" "r1 \<le> c * 2"
      using True less.prems by (auto simp: l1_def r1_def elim!: oddE evenE)
    have total: "f lv1 (f (seg_fold f e ns l1 r1) rv1) = f lv (f (seg_fold f e ns l r) rv)"
    proof -
      have "f lv1 (seg_fold f e ns l1 r) = f lv (seg_fold f e ns l r)"
        using True by (simp add: l1_def lv1_def seg_fold_left [of l] F)
      moreover have "f (seg_fold f e ns l1 r1) rv1 = f (seg_fold f e ns l1 r) rv"
      proof (cases "odd r")
        case True
        with lr(1) have "l1 \<le> r - 1" by (simp add: r1_def)
        from seg_fold_right [OF f this, of ns] True show ?thesis by (simp add: r1_def rv1_def F)
      qed (simp add: r1_def rv1_def)
      ultimately show ?thesis using F(1) [of lv1] F(1) [of lv] by metis
    qed
    obtain w1 lo where left: "query_left f b l lv w = Some (lo, l1, w1)" "lo = None \<or> lo = Some lv1"
      "destroyed w1 = destroyed w" "live w1 = live w" "no_fail w \<longrightarrow> no_fail w1 \<and> lo \<noteq> None"
    proof (cases "odd l")
      case odd: True
      obtain ro w1 where m: "merge_elements f lv (ns ! l) w = (ro, w1)" by fastforce
      note M = merge_effect [OF m]
      have "sz_add l 1 = Suc l" using True less.prems small by simp
      moreover have "buf_get b l = Some (ns ! l)" using holds_get [OF ns(1)] ns(2) True less.prems by simp
      moreover have "ro = None \<or> ro = Some lv1" using M(3) odd by (cases ro) (auto simp: lv1_def)
      ultimately show thesis using that [of ro w1] m M(1,2,4,5) odd
        by (simp add: l1_def query_left_def)
    qed (use that [of "Some lv" w] in \<open>simp add: l1_def lv1_def query_left_def\<close>)
    obtain w2 ro where right: "query_right f b r rv w1 = Some (ro, r1, w2)" "ro = None \<or> ro = Some rv1"
      "destroyed w2 = destroyed w1" "live w2 = live w1" "no_fail w1 \<longrightarrow> no_fail w2 \<and> ro \<noteq> None"
    proof (cases "odd r")
      case odd: True
      obtain so w2 where m: "merge_elements f (ns ! (r - 1)) rv w1 = (so, w2)" by fastforce
      note M = merge_effect [OF m]
      have "buf_get b (r - 1) = Some (ns ! (r - 1))"
        using holds_get [OF ns(1)] ns(2) True less.prems by simp
      moreover have "so = None \<or> so = Some rv1" using M(3) odd by (cases so) (auto simp: rv1_def)
      ultimately show thesis using that [of so w2] m M(1,2,4,5) odd
        by (simp add: r1_def query_right_def)
    qed (use that [of "Some rv" w1] in \<open>simp add: r1_def rv1_def query_right_def\<close>)
    have step: "query_loop f b l r lv rv w = (case lo of None \<Rightarrow> Some (Inl (), w1)
        | Some _ \<Rightarrow> case ro of None \<Rightarrow> Some (Inl (), w2)
        | Some _ \<Rightarrow> query_loop f b (l1 div 2) (r1 div 2) lv1 rv1 w2)"
      using True left(2) right(2)
      by (subst query_loop.simps) (auto simp: left(1) right(1))
    show ?thesis
    proof (cases "lo = None \<or> ro = None")
      case True
      then have "query_loop f b l r lv rv w = Some (Inl (), if lo = None then w1 else w2)"
        using step by (auto split: option.splits)
      then show ?thesis using True left(3-5) right(3-5) by auto
    next
      case ok: False
      have dec: "r1 div 2 - l1 div 2 < r - l"
        using lr True by (auto simp: l1_def r1_def elim!: oddE evenE split: if_splits)
      have half: "0 < l1 div 2" "r1 div 2 \<le> c * 2" using lr(4,5) by auto
      have "\<forall>i. l1 div 2 \<le> i \<longrightarrow> i < r1 div 2 \<longrightarrow> node_ok f ns i"
        using nodes half(1) lr(5) by auto
      from seg_fold_parents [OF f this] have par: "seg_fold f e ns l1 r1 = seg_fold f e ns (l1 div 2) (r1 div 2)"
        using lr(2,3) by simp
      from less.hyps [OF dec half, of lv1 rv1 w2] show ?thesis
        using step ok left(3-5) right(3-5) unfolding total [symmetric] par by (auto split: option.splits)
    qed
  qed
qed

lemma seg_fold_leaves:
  assumes "drop c ns = leaves e vs c" and "length vs \<le> c" and "length ns = c * 2" and "a \<le> b" and "b \<le> length vs"
  shows "seg_fold f e ns (a + c) (b + c) = mfold f e (take (b - a) (drop a vs))"
proof -
  have "map ((!) ns) [a + c..<b + c] = take (b - a) (drop a vs)"
  proof (rule nth_equalityI)
    fix i assume "i < length (map ((!) ns) [a + c..<b + c])"
    then have i: "i < b - a" by simp
    then have "a + i < length vs" using assms(4,5) by simp
    from leaf_get [OF assms(1,2) this assms(3)] i assms(4,5)
    show "map ((!) ns) [a + c..<b + c] ! i = take (b - a) (drop a vs) ! i" by (simp add: ac_simps)
  qed (use assms in simp)
  then show ?thesis by (simp add: seg_fold_def)
qed

lemma segtree_query_ok:
  assumes st: "seg_rel st f e vs" and f: "merge_ok f e" and ab: "a \<le> b" "b \<le> length vs"
  shows "\<exists>rc out w'. segtree_query (Ptr st) a b True w = Some (rc, out, w') \<and> destroyed w' = destroyed w
    \<and> live w' = live w \<and> (no_fail w \<longrightarrow> rc = 0)
    \<and> (rc = 0 \<and> out = Some (mfold f e (take (b - a) (drop a vs))) \<or> rc = - 1 \<and> out = None)"
proof -
  obtain ns where N: "seg_shape st f e" "t_size st = length vs" "holds (t_nodes st) ns"
    "length ns = t_capacity st * 2" "drop (t_capacity st) ns = leaves e vs (t_capacity st)"
    "\<forall>i < t_capacity st. 0 < i \<longrightarrow> node_ok f ns i"
    using st by (rule seg_relE)
  note S = seg_shapeD [OF N(1)] and F = merge_okD [OF f]
  show ?thesis
  proof (cases "a = b")
    case True
    then show ?thesis using ab N(2) S(6) by (simp add: segtree_query_def)
  next
    case False
    obtain o1 w1 where m1: "malloc (t_elem_size st) w = (o1, w1)" by fastforce
    obtain o2 w2 where m2: "malloc (t_elem_size st) w1 = (o2, w2)" by fastforce
    obtain o3 w3 where m3: "malloc (t_elem_size st) w2 = (o3, w3)" by fastforce
    note M = malloc_effect [OF m1] malloc_effect [OF m2] malloc_effect [OF m3]
    let ?rel = "\<lambda>w :: ('a, 'b) world_scheme. w\<lparr>live := live w - of_bool o1 - of_bool o2 - of_bool o3\<rparr>"
    have lv: "live w3 - of_bool o1 - of_bool o2 - of_bool o3 = live w"
      using M(3) M(10) M(17) by (cases o1; cases o2; cases o3) simp_all
    have ds: "destroyed w3 = destroyed w" using M(1) M(8) M(15) by simp
    have nf: "no_fail w \<Longrightarrow> no_fail w3 \<and> o1 \<and> o2 \<and> o3"
      using malloc_effect(5,6) [OF m1] malloc_effect(5,6) [OF m2] malloc_effect(5,6) [OF m3] S(10) by blast
    show ?thesis
    proof (cases "o1 \<and> o2 \<and> o3")
      case bad: False
      then have "segtree_query (Ptr st) a b True w = Some (- 1, None, ?rel w3)"
        using False ab N(2) S(6) m1 m2 m3 by (auto simp: segtree_query_def)
      then show ?thesis using bad nf lv ds by auto
    next
      case ok: True
      have small: "t_capacity st * 2 \<le> SIZE_MAX" using S(4) SIZE_MAX_PTRDIFF_MAX by linarith
      have idx: "sz_add a (t_capacity st) = a + t_capacity st" "sz_add b (t_capacity st) = b + t_capacity st"
        "0 < a + t_capacity st" "b + t_capacity st \<le> t_capacity st * 2"
        using ab N(2) S(1,2) small by simp_all
      obtain res w4 where q: "query_loop f (t_nodes st) (a + t_capacity st) (b + t_capacity st) e e w3 = Some (res, w4)"
        "destroyed w4 = destroyed w3" "live w4 = live w3" "no_fail w3 \<longrightarrow> no_fail w4 \<and> res \<noteq> Inl ()"
        "res = Inl () \<or> (\<exists>lv rv. res = Inr (lv, rv)
          \<and> f lv rv = f e (f (seg_fold f e ns (a + t_capacity st) (b + t_capacity st)) e))"
        using query_loop_ok [OF f N(3,4,6) small idx(3,4), of e e w3] by (elim exE conjE) (rule that)
      have query: "segtree_query (Ptr st) a b True w = (case res of Inl _ \<Rightarrow> Some (- 1, None, ?rel w4)
          | Inr (lv, rv) \<Rightarrow> let (r, w5) = merge_elements f lv rv w4 in
              Some (if r = None then - 1 else 0, r, ?rel w5))"
        using False ab N(2) S(5,6) m1 m2 m3 ok idx q(1) by (simp add: segtree_query_def)
      show ?thesis
      proof (cases res)
        case (Inl u)
        then show ?thesis using query q nf lv ds by auto
      next
        case (Inr p)
        obtain lv' rv' where p: "p = (lv', rv')" by fastforce
        obtain r w5 where m: "merge_elements f lv' rv' w4 = (r, w5)" by fastforce
        note M = merge_effect [OF m]
        have val: "f lv' rv' = mfold f e (take (b - a) (drop a vs))"
          using q(5) Inr p F seg_fold_leaves [OF N(5) _ N(4) ab, of f] S(2) N(2) by simp
        have "segtree_query (Ptr st) a b True w = Some (if r = None then - 1 else 0, r, ?rel w5)"
          using query Inr p m by simp
        moreover have "r = None \<or> r = Some (mfold f e (take (b - a) (drop a vs)))"
          using M(3) val by (cases r) auto
        ultimately show ?thesis
          using M(1,2,5) q(2-4) nf lv ds val by (intro exI [of _ "if r = None then - 1 else 0"]
              exI [of _ r] exI [of _ "?rel w5"]) auto
      qed
    qed
  qed
qed

section \<open>Construction and copying\<close>

lemma next_capacity_loop_ok:
  assumes "k \<le> 63"
  shows "if n \<le> 2 ^ 63
    then \<exists>m. next_capacity_loop n (2 ^ k) = Some (0, 2 ^ m) \<and> m \<le> 63 \<and> n \<le> 2 ^ m \<and> (m = k \<or> 2 ^ m < 2 * n)
    else next_capacity_loop n (2 ^ k) = Some (- 1, 0)"
  using assms
proof (induction "63 - k" arbitrary: k)
  case 0
  then have k: "k = 63" by simp
  have big: "SIZE_MAX div 2 < (2 :: nat) ^ 63" by (simp add: SIZE_MAX_def)
  show ?case
  proof (cases "n \<le> 2 ^ 63")
    case True
    then show ?thesis unfolding k by (subst next_capacity_loop.simps) (auto intro: exI [of _ 63])
  next
    case False
    with big show ?thesis unfolding k by (subst next_capacity_loop.simps) (simp del: power_numeral)
  qed
next
  case (Suc d)
  then have k: "k < 63" by simp
  then have "(2 :: nat) ^ k \<le> 2 ^ 62" by (intro power_increasing) simp_all
  then have small: "\<not> SIZE_MAX div 2 < (2 :: nat) ^ k" and mul: "sz_mul (2 ^ k) 2 = 2 ^ Suc k"
    by (simp_all add: SIZE_MAX_def sz_mul_def)
  have step: "next_capacity_loop n (2 ^ k) =
      (if 2 ^ k < n then next_capacity_loop n (2 ^ Suc k) else Some (0, 2 ^ k))"
    using small by (subst next_capacity_loop.simps) (simp only: mul if_False)
  have pow: "(2 :: nat) ^ k \<le> 2 ^ 63" using k by (intro power_increasing) simp_all
  show ?case
  proof (cases "2 ^ k < n")
    case False
    then show ?thesis using step k pow by auto
  next
    case True
    have d: "d = 63 - Suc k" "Suc k \<le> 63" using Suc.hyps(2) k by simp_all
    show ?thesis
    proof (cases "n \<le> 2 ^ 63")
      case le: True
      then obtain m where "next_capacity_loop n (2 ^ Suc k) = Some (0, 2 ^ m)" "m \<le> 63" "n \<le> 2 ^ m"
        "m = Suc k \<or> 2 ^ m < 2 * n"
        using Suc.hyps(1) [OF d] by auto
      with step True le show ?thesis by (auto intro: exI [of _ m])
    next
      case False
      then show ?thesis
        using Suc.hyps(1) [OF d] step True by simp
    qed
  qed
qed

text \<open>The capacity is a power of two that holds the values, and less than twice as many.\<close>

lemma segtree_next_capacity_ok:
  assumes "0 < n" and "n \<le> 2 ^ 62"
  shows "\<exists>m. segtree_next_capacity n = Some (0, 2 ^ m) \<and> n \<le> 2 ^ m \<and> 2 ^ m < 2 * n"
proof -
  have "n \<le> 2 ^ 63" using assms(2) by simp
  then obtain m where "next_capacity_loop n (2 ^ 0) = Some (0, 2 ^ m)" "n \<le> 2 ^ m" "m = 0 \<or> 2 ^ m < 2 * n"
    using next_capacity_loop_ok [of 0 n] by auto
  then show ?thesis using assms(1) by (auto simp: segtree_next_capacity_def)
qed

lemma segtree_init_alloc:
  assumes c: "segtree_next_capacity (at_least_one n) = Some (0, c)" and "0 < c" and "n \<le> c"
    and es: "0 < es" "c * 2 * es \<le> SIZE_MAX"
  shows "\<exists>rc st w'. segtree_init (Ptr u) n es (Ptr e) (Ptr f) w = Some (rc, Ptr st, w')
    \<and> destroyed w' = destroyed w \<and> live w' - seg_own st = live w
    \<and> (no_fail w \<longrightarrow> no_fail w' \<and> (c * 2 * es \<le> PTRDIFF_MAX \<longrightarrow> rc = 0))
    \<and> (rc = 0 \<and> t_size st = n \<and> t_capacity st = c \<and> t_elem_size st = es \<and> seg_shape st f e
         \<and> holds (t_nodes st) (replicate (c * 2) e)
       \<or> rc = - 1 \<and> st = dead_segtree)"
proof -
  have dead: "seg_own dead_segtree = 0" by (simp add: seg_own_def dead_segtree_def)
  have le: "c * 2 \<le> c * 2 * es" "es \<le> c * 2 * es" using es(1) assms(2) by simp_all
  have c2: "c * 2 \<le> SIZE_MAX" using le(1) es(2) by (rule le_trans)
  then have small: "\<not> SIZE_MAX div 2 < c" "sz_mul c 2 = c * 2" "sz_mul (c * 2) es = c * 2 * es"
    using es(2) by (linarith, simp_all)
  obtain o1 w1 where m1: "malloc es w = (o1, w1)" by fastforce
  obtain o2 w2 where m2: "malloc (c * 2 * es) w1 = (o2, w2)" by fastforce
  note M1 = malloc_effect [OF m1] and M2 = malloc_effect [OF m2]
  show ?thesis
  proof (cases "o1 \<and> o2")
    case False
    let ?w = "if o1 then free_block w2 else w1"
    have "segtree_init (Ptr u) n es (Ptr e) (Ptr f) w = Some (- 1, Ptr dead_segtree, ?w)"
      using c es(1) small m1 m2 False by (cases o1) (simp_all add: segtree_init_def)
    moreover have "\<not> (no_fail w \<and> c * 2 * es \<le> PTRDIFF_MAX)" using False M1(5,6) M2(6) le(2) le_trans by blast
    ultimately show ?thesis
      using M1(1,3,5) M2(1,3,5) False dead by (intro exI [of _ "- 1"] exI [of _ dead_segtree] exI [of _ ?w]) auto
  next
    case True
    have div: "c * 2 * es div es = c * 2" using es(1) by simp
    obtain b where b: "fill_nodes e [0..<c * 2] (buf_new (c * 2)) = Some b"
      "slots b = replicate (c * 2) (Some e)" "b \<noteq> NULL"
      using fill_all_ok [of "buf_new (c * 2)" "c * 2" e] by (auto simp: buf_new_def)
    let ?st = "\<lparr>t_size = n, t_capacity = c, t_elem_size = es, t_merge = Ptr f, t_identity = Ptr e, t_nodes = b\<rparr>"
    have eq: "segtree_init (Ptr u) n es (Ptr e) (Ptr f) w = Some (0, Ptr ?st, w2)"
      using c es(1) small m1 m2 True b(1) div by (simp add: segtree_init_def)
    have shape: "seg_shape ?st f e"
      using c assms(2,3) es(1) M2(4) True b(2) by (simp add: seg_shape_def)
    have "holds b (replicate (c * 2) e)" using b(2) by (simp add: holds_def)
    then show ?thesis
      using eq shape M1(1,3,5) M2(1,3,5) True b(3)
      by (intro exI [of _ 0] exI [of _ ?st] exI [of _ w2]) (auto simp: seg_own_def blocks_def split: ptr.splits)
  qed
qed

lemma segtree_init_ok:
  assumes "0 < es" and "4 * (n + 1) * es \<le> PTRDIFF_MAX" and "f e e = e"
  shows "\<exists>rc st w'. segtree_init (Ptr u) n es (Ptr e) (Ptr f) w = Some (rc, Ptr st, w')
    \<and> destroyed w' = destroyed w \<and> live w' - seg_own st = live w \<and> (no_fail w \<longrightarrow> no_fail w' \<and> rc = 0)
    \<and> (rc = 0 \<and> seg_rel st f e (replicate n e) \<or> rc = - 1 \<and> st = dead_segtree)"
proof -
  have "4 * (n + 1) \<le> PTRDIFF_MAX" using assms(1,2) mult_le_PTRDIFF [of "4 * (n + 1)" es] by simp
  then have "at_least_one n \<le> 2 ^ 62" "0 < at_least_one n" by (simp_all add: PTRDIFF_MAX_def at_least_one_def)
  from segtree_next_capacity_ok [OF this(2,1)] obtain m where m0:
    "segtree_next_capacity (at_least_one n) = Some (0, 2 ^ m)" "at_least_one n \<le> 2 ^ m"
    "2 ^ m < 2 * at_least_one n"
    by auto
  then have m: "segtree_next_capacity (at_least_one n) = Some (0, 2 ^ m)" "n \<le> 2 ^ m" "2 ^ m \<le> 2 * (n + 1)"
    by (simp_all add: at_least_one_def split: if_splits)
  have "2 ^ m * 2 * es \<le> 4 * (n + 1) * es" using m(3) by (intro mult_le_mono1) simp
  with assms(2) have fits: "2 ^ m * 2 * es \<le> PTRDIFF_MAX" "2 ^ m * 2 * es \<le> SIZE_MAX"
    using SIZE_MAX_PTRDIFF_MAX by linarith+
  from segtree_init_alloc [OF m(1) _ m(2) assms(1) fits(2), of u e f w]
  obtain rc st w' where i: "segtree_init (Ptr u) n es (Ptr e) (Ptr f) w = Some (rc, Ptr st, w')"
    "destroyed w' = destroyed w" "live w' - seg_own st = live w"
    "no_fail w \<longrightarrow> no_fail w' \<and> (2 ^ m * 2 * es \<le> PTRDIFF_MAX \<longrightarrow> rc = 0)"
    "rc = 0 \<and> t_size st = n \<and> t_capacity st = 2 ^ m \<and> t_elem_size st = es \<and> seg_shape st f e
         \<and> holds (t_nodes st) (replicate (2 ^ m * 2) e) \<or> rc = - 1 \<and> st = dead_segtree"
    by auto
  have "seg_rel st f e (replicate n e)" if "rc = 0"
    using seg_rel_fresh [of st f e] i(5) that assms(3) by auto
  with i fits(1) show ?thesis by (intro exI [of _ rc] exI [of _ st] exI [of _ w']) auto
qed

lemma segtree_copy_ok:
  assumes s: "seg_rel s f e vs"
  shows "\<exists>rc t w'. segtree_copy False (Ptr d) (Ptr s) w = Some (rc, Ptr t, w') \<and> destroyed w' = destroyed w
    \<and> live w' - seg_own t = live w - seg_own d \<and> (no_fail w \<longrightarrow> rc = 0)
    \<and> (rc = 0 \<and> seg_rel t f e vs \<or> rc = - 1 \<and> t = dead_segtree)"
proof -
  obtain ns where N: "seg_shape s f e" "t_size s = length vs" "holds (t_nodes s) ns"
    "length ns = t_capacity s * 2" "drop (t_capacity s) ns = leaves e vs (t_capacity s)"
    "\<forall>i < t_capacity s. 0 < i \<longrightarrow> node_ok f ns i"
    using s by (rule seg_relE)
  note S = seg_shapeD [OF N(1)]
  let ?c = "t_capacity s" and ?w = "free_ptr (t_nodes d) (free_ptr (t_identity d) w)"
  have fits: "?c * 2 * t_elem_size s \<le> PTRDIFF_MAX"
    and cap: "segtree_next_capacity (at_least_one (t_size s)) = Some (0, ?c)"
    using N(1) by (simp_all add: seg_shape_def)
  then have "?c * 2 * t_elem_size s \<le> SIZE_MAX" using SIZE_MAX_PTRDIFF_MAX by linarith
  from segtree_init_alloc [OF cap S(1,2,3) this, of dead_segtree e f ?w] obtain rc t w1 where
    i: "segtree_init (Ptr dead_segtree) (t_size s) (t_elem_size s) (Ptr e) (Ptr f) ?w = Some (rc, Ptr t, w1)"
    "destroyed w1 = destroyed w" "live w1 - seg_own t = live w - seg_own d" "no_fail w \<longrightarrow> rc = 0"
    "rc = 0 \<and> t_size t = t_size s \<and> t_capacity t = ?c \<and> t_elem_size t = t_elem_size s \<and> seg_shape t f e
      \<or> rc = - 1 \<and> t = dead_segtree"
    using fits by (auto simp: seg_own_def)
  show ?thesis
  proof (cases "rc = 0")
    case False
    then have "segtree_copy False (Ptr d) (Ptr s) w = Some (- 1, Ptr t, w1)"
      using i(1) S(5,6) by (simp add: segtree_copy_def segtree_destroy_def)
    then show ?thesis using i False by auto
  next
    case True
    with i(5) have t: "t_size t = t_size s" "t_capacity t = ?c" "seg_shape t f e" by auto
    note T = seg_shapeD [OF t(3)]
    let ?b = "Ptr (take (?c * 2) (slots (t_nodes s)) @ drop (?c * 2) (slots (t_nodes t)))"
    have "segtree_copy False (Ptr d) (Ptr s) w = Some (0, Ptr (t\<lparr>t_nodes := ?b\<rparr>), w1)"
      using i(1) S(5-7,9) T(7) t(2) True by (simp add: segtree_copy_def segtree_destroy_def)
    moreover have "holds ?b ns" "length (slots ?b) = ?c * 2"
      using N(3,4) S(7) T(7) t(2) by (simp_all add: holds_def)
    then have "seg_rel (t\<lparr>t_nodes := ?b\<rparr>) f e vs"
      using N t seg_shape_nodes [OF t(3), of ?b] by (auto simp: seg_rel_def)
    moreover have "seg_own (t\<lparr>t_nodes := ?b\<rparr>) = seg_own t"
      using T(8) by (simp add: seg_own_def blocks_def split: ptr.splits)
    ultimately show ?thesis using i True
      by (intro exI [of _ 0] exI [of _ "t\<lparr>t_nodes := ?b\<rparr>"] exI [of _ w1]) auto
  qed
qed

section \<open>Properties\<close>

fun set_all ::
    "(nat \<times> 'a) list \<Rightarrow> 'a segtree \<Rightarrow> ('a, 'b) world_scheme \<Rightarrow> (int list \<times> 'a segtree \<times> ('a, 'b) world_scheme) option" where
  "set_all [] st w = Some ([], st, w)"
| "set_all ((i, x) # us) st w = do {
     (rc, p, w1) \<leftarrow> segtree_set (Ptr st) i (Ptr x) w;
     (rcs, st2, w2) \<leftarrow> set_all us (pt p) w1;
     Some (rc # rcs, st2, w2) }"

definition updated :: "(nat \<times> 'a) list \<Rightarrow> 'a list \<Rightarrow> 'a list" where
  "updated us vs = fold (\<lambda>(i, x) vs. vs[i := x]) us vs"

lemma updated_Cons [simp]: "updated ((i, x) # us) vs = updated us (vs[i := x])"
  by (simp add: updated_def)

lemma length_updated [simp]: "length (updated us vs) = length vs"
  by (induction us arbitrary: vs) (auto simp: updated_def)

lemma set_all_ok:
  assumes "seg_rel st f e vs" and "no_fail w" and "\<forall>(i, x) \<in> set us. i < length vs"
  shows "\<exists>st' w'. set_all us st w = Some (replicate (length us) 0, st', w') \<and> seg_rel st' f e (updated us vs)
    \<and> no_fail w' \<and> destroyed w' = destroyed w \<and> live w' - seg_own st' = live w - seg_own st"
  using assms
proof (induction us arbitrary: st vs w)
  case Nil
  then show ?case by (simp add: updated_def)
next
  case (Cons u us)
  obtain i x where u: "u = (i, x)" by fastforce
  with Cons.prems(3) have i: "i < length vs" by simp
  obtain b w1 where s: "segtree_set (Ptr st) i (Ptr x) w = Some (0, Ptr (st\<lparr>t_nodes := b\<rparr>), w1)"
    "seg_rel (st\<lparr>t_nodes := b\<rparr>) f e (vs[i := x])" "no_fail w1" "destroyed w1 = destroyed w" "live w1 = live w"
    using segtree_set_ok [OF Cons.prems(1) i, of x w] Cons.prems(2) by auto
  have "seg_own (st\<lparr>t_nodes := b\<rparr>) = seg_own st"
    using seg_shapeD(8) [of st f e] seg_shapeD(8) [of "st\<lparr>t_nodes := b\<rparr>" f e] Cons.prems(1) s(2)
    by (auto simp: seg_rel_def seg_own_def blocks_def split: ptr.splits)
  moreover have "\<forall>(i, y) \<in> set us. i < length (vs[i := x])" using Cons.prems(3) by auto
  ultimately show ?case using Cons.IH [OF s(2,3)] s Cons.prems(3) by (fastforce simp: u)
qed

text \<open>C35: with an associative merge callback and its neutral element, and no failures: after
  initialising a tree, building it from \<open>n\<close> values and any valid updates, every call has returned
  \<open>0\<close>, a query of any valid range returns the left-to-right merge of exactly the current values in
  the range (also for a merge that is not commutative), \<open>segtree_get\<close> reads each value, and
  destroying the tree frees every block.\<close>

theorem segtree_history:
  assumes f: "merge_ok f e" and es: "0 < es" "4 * (n + 1) * es \<le> PTRDIFF_MAX" and w: "no_fail w"
    and vs: "length vs = n" and us: "\<forall>(i, x) \<in> set us. i < n" and ab: "a \<le> b" "b \<le> n" and k: "k < n"
  shows "\<exists>st w1 st1 w2 st2 w3 w4. segtree_init (Ptr u) n es (Ptr e) (Ptr f) w = Some (0, Ptr st, w1)
    \<and> segtree_build (Ptr st) (Ptr vs) w1 = Some (0, Ptr st1, w2)
    \<and> set_all us st1 w2 = Some (replicate (length us) 0, st2, w3)
    \<and> segtree_query (Ptr st2) a b True w3
        = Some (0, Some (mfold f e (take (b - a) (drop a (updated us vs)))), w4)
    \<and> segtree_get (Ptr st2) k True = Some (0, Some (updated us vs ! k))
    \<and> live (snd (segtree_destroy (Ptr st2) w4)) = live w"
proof -
  have "f e e = e" using f by (simp add: merge_ok_def)
  from segtree_init_ok [where f = f and e = e and n = n, OF es this, of u w] w obtain st w1 where
    i: "segtree_init (Ptr u) n es (Ptr e) (Ptr f) w = Some (0, Ptr st, w1)" "no_fail w1"
    "seg_rel st f e (replicate n e)" "live w1 - seg_own st = live w" by auto
  then have shape: "seg_shape st f e" "t_size st = n" by (simp_all add: seg_rel_def)
  obtain b1 w2 where bd: "segtree_build (Ptr st) (Ptr vs) w1 = Some (0, Ptr (st\<lparr>t_nodes := b1\<rparr>), w2)"
    "no_fail w2" "seg_rel (st\<lparr>t_nodes := b1\<rparr>) f e vs" "live w2 = live w1"
    using segtree_build_ok [OF shape(1), of vs w1] vs shape(2) i(2) by auto
  have own: "seg_own (st\<lparr>t_nodes := b1\<rparr>) = seg_own st"
    using seg_shapeD(8) [OF shape(1)] seg_shapeD(8) [of "st\<lparr>t_nodes := b1\<rparr>" f e] bd(3)
    by (auto simp: seg_rel_def seg_own_def blocks_def split: ptr.splits)
  have "\<forall>(i, x) \<in> set us. i < length vs" using us vs by simp
  from set_all_ok [OF bd(3,2) this] obtain st2 w3 where
    s: "set_all us (st\<lparr>t_nodes := b1\<rparr>) w2 = Some (replicate (length us) 0, st2, w3)"
    "seg_rel st2 f e (updated us vs)" "no_fail w3" "live w3 - seg_own st2 = live w2 - seg_own (st\<lparr>t_nodes := b1\<rparr>)"
    by blast
  have "b \<le> length (updated us vs)" using ab(2) vs by simp
  from segtree_query_ok [OF s(2) f ab(1) this, of w3] s(3) obtain w4 where
    q: "segtree_query (Ptr st2) a b True w3
        = Some (0, Some (mfold f e (take (b - a) (drop a (updated us vs)))), w4)" "live w4 = live w3" by auto
  have "live (snd (segtree_destroy (Ptr st2) w4)) = live w"
    using q(2) s(4) own bd(4) i(4) by (simp add: segtree_destroy_def seg_own_def)
  then show ?thesis
    using i(1) bd(1) s(1) q(1) segtree_get_ok [OF s(2), of k] k vs
    by (intro exI [of _ st] exI [of _ w1] exI [of _ "st\<lparr>t_nodes := b1\<rparr>"] exI [of _ w2] exI [of _ st2]
        exI [of _ w3] exI [of _ w4]) simp
qed

theorem segtree_history_witness:
  "\<exists>st w1 st1 w2 st2 w3 w4.
      segtree_init (Ptr dead_segtree) 3 4 (Ptr []) (Ptr (@)) (script [] []) = Some (0, Ptr st, w1)
    \<and> segtree_build (Ptr st) (Ptr [[1], [2], [3 :: int]]) w1 = Some (0, Ptr st1, w2)
    \<and> set_all [(1, [7])] st1 w2 = Some (replicate (length [(1 :: nat, [7 :: int])]) 0, st2, w3)
    \<and> segtree_query (Ptr st2) 0 2 True w3
        = Some (0, Some (mfold (@) [] (take (2 - 0) (drop 0 (updated [(1, [7])] [[1], [2], [3]])))), w4)
    \<and> segtree_get (Ptr st2) 2 True = Some (0, Some (updated [(1, [7])] [[1], [2], [3]] ! 2))
    \<and> live (snd (segtree_destroy (Ptr st2) w4)) = live (script [] [] :: int list world)"
  by (rule segtree_history) (simp_all add: merge_ok_def PTRDIFF_MAX_def no_fail_def script_def)

text \<open>C36: failures. An update or a query of a consistent tree returns \<open>- 1\<close> only if the allocator
  or the merge callback failed; a failed query leaves the tree alone and frees its scratch blocks; a
  failed update or build leaves a tree from which \<open>segtree_build\<close> and \<open>segtree_reset\<close>
  restore consistency. Invalid indices and ranges are refused without any effect.\<close>

theorem segtree_recovers:
  assumes st: "seg_rel st f e vs" and f: "merge_ok f e" and i: "i < length vs" and ab: "a \<le> b" "b \<le> length vs"
    and out: "length vs \<le> k"
  shows "\<exists>rc st1 w1 rc2 st2 w2 st3 rc4 q w4. segtree_set (Ptr st) i (Ptr x) w = Some (rc, Ptr st1, w1)
    \<and> (no_fail w \<longrightarrow> rc = 0) \<and> (rc = 0 \<and> seg_rel st1 f e (vs[i := x]) \<or> rc = - 1)
    \<and> segtree_build (Ptr st1) (Ptr vs) w1 = Some (rc2, Ptr st2, w2) \<and> (no_fail w1 \<longrightarrow> rc2 = 0)
    \<and> (rc2 = 0 \<and> seg_rel st2 f e vs \<or> rc2 = - 1)
    \<and> segtree_reset (Ptr st2) = Some (0, Ptr st3) \<and> seg_rel st3 f e (replicate (length vs) e)
    \<and> segtree_query (Ptr st) a b True w = Some (rc4, q, w4) \<and> live w4 = live w \<and> (no_fail w \<longrightarrow> rc4 = 0)
    \<and> (rc4 = 0 \<and> q = Some (mfold f e (take (b - a) (drop a vs))) \<or> rc4 = - 1 \<and> q = None)
    \<and> segtree_set (Ptr st) k (Ptr x) w = Some (- 1, Ptr st, w)
    \<and> segtree_get (Ptr st) k True = Some (- 1, None)
    \<and> segtree_query (Ptr st) a (Suc k) True w = Some (- 1, None, w)"
proof -
  obtain rc b1 w1 where s: "segtree_set (Ptr st) i (Ptr x) w = Some (rc, Ptr (st\<lparr>t_nodes := b1\<rparr>), w1)"
    "seg_shape (st\<lparr>t_nodes := b1\<rparr>) f e" "no_fail w \<longrightarrow> rc = 0"
    "rc = 0 \<and> seg_rel (st\<lparr>t_nodes := b1\<rparr>) f e (vs[i := x]) \<or> rc = - 1"
    using segtree_set_ok [OF st i, of x w] by auto
  let ?st1 = "st\<lparr>t_nodes := b1\<rparr>"
  have n: "length vs = t_size ?st1" "t_size st = length vs" using st by (simp_all add: seg_rel_def)
  obtain rc2 b2 w2 where b: "segtree_build (Ptr ?st1) (Ptr vs) w1 = Some (rc2, Ptr (?st1\<lparr>t_nodes := b2\<rparr>), w2)"
    "seg_shape (?st1\<lparr>t_nodes := b2\<rparr>) f e" "no_fail w1 \<longrightarrow> rc2 = 0"
    "rc2 = 0 \<and> seg_rel (?st1\<lparr>t_nodes := b2\<rparr>) f e vs \<or> rc2 = - 1"
    using segtree_build_ok [OF s(2) n(1), of w1] by (elim exE conjE) (rule that, simp_all)
  let ?st2 = "?st1\<lparr>t_nodes := b2\<rparr>"
  obtain b3 where r: "segtree_reset (Ptr ?st2) = Some (0, Ptr (?st2\<lparr>t_nodes := b3\<rparr>))"
    "seg_shape (?st2\<lparr>t_nodes := b3\<rparr>) f e" "holds b3 (replicate (t_capacity ?st2 * 2) e)"
    using segtree_reset_ok [OF b(2)] by blast
  have "seg_rel (?st2\<lparr>t_nodes := b3\<rparr>) f e (replicate (length vs) e)"
    using seg_rel_fresh [OF r(2)] r(3) merge_okD(2) [OF f] n(2) by simp
  moreover obtain rc4 q w4 where "segtree_query (Ptr st) a b True w = Some (rc4, q, w4)" "live w4 = live w"
    "no_fail w \<longrightarrow> rc4 = 0" "rc4 = 0 \<and> q = Some (mfold f e (take (b - a) (drop a vs))) \<or> rc4 = - 1 \<and> q = None"
    using segtree_query_ok [OF st f ab, of w] by (elim exE conjE) (rule that)
  moreover have "segtree_set (Ptr st) k (Ptr x) w = Some (- 1, Ptr st, w)"
    "segtree_query (Ptr st) a (Suc k) True w = Some (- 1, None, w)"
    using out n(2) by (simp_all add: segtree_set_def segtree_query_def)
  ultimately show ?thesis
    using s(1,3,4) b(1,3,4) r(1) segtree_get_ok [OF st, of k] out
    by (intro exI [of _ rc] exI [of _ ?st1] exI [of _ w1] exI [of _ rc2] exI [of _ ?st2] exI [of _ w2]
        exI [of _ "?st2\<lparr>t_nodes := b3\<rparr>"] exI [of _ rc4] exI [of _ q] exI [of _ w4]) simp
qed

definition seg_example :: "int segtree" where
  "seg_example = \<lparr>t_size = 2, t_capacity = 2, t_elem_size = 4, t_merge = Ptr (+), t_identity = Ptr 0,
     t_nodes = Ptr [Some 0, Some 12, Some 5, Some 7]\<rparr>"

lemma seg_example_rel: "seg_rel seg_example (+) 0 [5, 7]"
proof -
  have "next_capacity_loop 2 1 = Some (0, 2)"
    by (subst next_capacity_loop.simps, subst next_capacity_loop.simps)
      (simp add: SIZE_MAX_def sz_mul_def)
  then have "seg_shape seg_example (+) 0"
    by (simp add: seg_shape_def seg_example_def at_least_one_def segtree_next_capacity_def PTRDIFF_MAX_def)
  moreover have "node_ok (+) [0, 12, 5, 7 :: int] i" if "0 < i" "i < 2" for i
  proof -
    have "i = 1" using that by simp
    then show ?thesis by (simp add: node_ok_def)
  qed
  ultimately show ?thesis
    unfolding seg_rel_def
    by (intro conjI exI [of _ "[0, 12, 5, 7]"]) (simp_all add: seg_example_def holds_def leaves_def)
qed

theorem segtree_recovers_witness:
  "\<exists>rc st1 w1 rc2 st2 w2 st3 rc4 q w4.
      segtree_set (Ptr seg_example) 1 (Ptr 9) (script [] [False]) = Some (rc, Ptr st1, w1)
    \<and> (no_fail (script [] [False] :: int world) \<longrightarrow> rc = 0)
    \<and> (rc = 0 \<and> seg_rel st1 (+) 0 ([5, 7][1 := 9]) \<or> rc = - 1)
    \<and> segtree_build (Ptr st1) (Ptr [5, 7]) w1 = Some (rc2, Ptr st2, w2) \<and> (no_fail w1 \<longrightarrow> rc2 = 0)
    \<and> (rc2 = 0 \<and> seg_rel st2 (+) 0 [5, 7] \<or> rc2 = - 1)
    \<and> segtree_reset (Ptr st2) = Some (0, Ptr st3) \<and> seg_rel st3 (+) 0 (replicate (length [5, 7 :: int]) 0)
    \<and> segtree_query (Ptr seg_example) 0 2 True (script [] [False]) = Some (rc4, q, w4)
    \<and> live w4 = live (script [] [False] :: int world)
    \<and> (no_fail (script [] [False] :: int world) \<longrightarrow> rc4 = 0)
    \<and> (rc4 = 0 \<and> q = Some (mfold (+) 0 (take (2 - 0) (drop 0 [5, 7]))) \<or> rc4 = - 1 \<and> q = None)
    \<and> segtree_set (Ptr seg_example) 2 (Ptr 9) (script [] [False]) = Some (- 1, Ptr seg_example, script [] [False])
    \<and> segtree_get (Ptr seg_example) 2 True = Some (- 1, None)
    \<and> segtree_query (Ptr seg_example) 0 (Suc 2) True (script [] [False]) = Some (- 1, None, script [] [False])"
  by (rule segtree_recovers [OF seg_example_rel]) (simp_all add: merge_ok_def)

text \<open>\<open>segtree_init\<close> checks that \<open>capacity * 2\<close> does not wrap, but not the byte count
  \<open>node_count * elem_size\<close>: with \<open>2 ^ 61\<close> values of 4 bytes it wraps to 0, the allocation
  succeeds, and the loop that writes the identity to every node overruns the block.\<close>

lemma segtree_init_wraps:
  assumes "no_fail w"
  shows "segtree_init (Ptr u) (2 ^ 61) 4 (Ptr e) (Ptr f) w = None"
proof -
  obtain m where m: "segtree_next_capacity (2 ^ 61) = Some (0, 2 ^ m)" "(2 :: nat) ^ 61 \<le> 2 ^ m"
    "(2 :: nat) ^ m < 2 * 2 ^ 61"
    using segtree_next_capacity_ok [of "2 ^ 61"] by auto
  have "(2 :: nat) ^ m < 2 ^ 62" using m(3) by simp
  then have "m < 62" by (rule power_less_imp_less_exp [rotated]) simp
  moreover have "61 \<le> m" using m(2) by (rule power_le_imp_le_exp [rotated]) simp
  ultimately have "m = 61" by simp
  then have cap: "segtree_next_capacity (at_least_one (2 ^ 61)) = Some (0, 2 ^ 61)"
    using m(1) by (simp add: at_least_one_def)
  have wrap: "sz_mul 2305843009213693952 2 = 4611686018427387904" "sz_mul 4611686018427387904 4 = 0"
    "\<not> SIZE_MAX div 2 < 2305843009213693952"
    by (simp_all add: sz_mul_def SIZE_MAX_def)
  obtain o1 w1 where m1: "malloc 4 w = (o1, w1)" by fastforce
  obtain o2 w2 where m2: "malloc 0 w1 = (o2, w2)" by fastforce
  have o1: o1 and o2: o2
    using malloc_effect(5,6) [OF m1] malloc_effect(6) [OF m2] assms by (simp_all add: PTRDIFF_MAX_def)
  have "[0..<(2 :: nat) ^ 62] = 0 # [Suc 0..<2 ^ 62]" by (rule upt_conv_Cons) simp
  then have "fill_nodes e [0..<2 ^ 62] (buf_new (0 div 4)) = None"
    by (simp only: fill_nodes.simps) (simp add: buf_put_def buf_new_def)
  then show ?thesis
    using m1 m2 o1 o2 unfolding segtree_init_def cap by (simp add: wrap)
qed

text \<open>\<open>segtree_copy\<close> makes the destination a tree of the values of the source, or returns
  \<open>- 1\<close> with a destroyed destination; it fails only when the allocator does, calls no merge, and
  the old blocks of the destination are freed.\<close>

theorem segtree_copy_same:
  assumes "seg_rel s f e vs"
  shows "\<exists>rc t w'. segtree_copy False (Ptr d) (Ptr s) w = Some (rc, Ptr t, w') \<and> destroyed w' = destroyed w
    \<and> live w' - seg_own t = live w - seg_own d \<and> (no_fail w \<longrightarrow> rc = 0)
    \<and> (rc = 0 \<and> seg_rel t f e vs \<or> rc = - 1 \<and> t = dead_segtree)"
  by (rule segtree_copy_ok [OF assms])

theorem segtree_copy_same_witness:
  "\<exists>rc t w'. segtree_copy False (Ptr dead_segtree) (Ptr seg_example) (script [True, False] []) = Some (rc, Ptr t, w')
    \<and> destroyed w' = destroyed (script [True, False] [] :: int world)
    \<and> live w' - seg_own t = live (script [True, False] [] :: int world) - seg_own (dead_segtree :: int segtree)
    \<and> (no_fail (script [True, False] [] :: int world) \<longrightarrow> rc = 0)
    \<and> (rc = 0 \<and> seg_rel t (+) 0 [5, 7] \<or> rc = - 1 \<and> t = dead_segtree)"
  by (rule segtree_copy_same [OF seg_example_rel])

end
