(* ===== verification/Bitset.thy ===== *)
theory Bitset
  imports Prelude "HOL-Library.Word"
begin

text \<open>
  \<open>src/bitset.c\<close>: the packed bit set. Every function of the file is a definition of the same
  name. Bytes are \<open>8 word\<close>, a storage block is a buffer of bytes, and a failed \<open>assert\<close> or an
  access outside the block is \<open>None\<close>. \<open>memset\<close>, \<open>memcpy\<close> and \<open>memcmp\<close> of zero bytes do
  nothing, also on \<open>NULL\<close>. \<open>bits_rel bs vs\<close> says that \<open>bs\<close> stores the bits \<open>vs\<close> in
  canonical form: the unused bits of the last byte are 0.
\<close>

section \<open>Model\<close>

record bitset =
  bs_size :: size_t
  bs_bits :: "8 word buf"

definition BITSET_NPOS :: size_t where
  "BITSET_NPOS = SIZE_MAX"

definition bitset_num_bytes :: "size_t \<Rightarrow> size_t" where
  "bitset_num_bytes num_bits = (if num_bits = 0 then 0 else sz_sub (sz_add num_bits 8) 1 div 8)"

definition bitset_byte_index :: "size_t \<Rightarrow> size_t" where
  "bitset_byte_index pos = pos div 8"

definition bitset_bit_mask :: "size_t \<Rightarrow> 8 word" where
  "bitset_bit_mask pos = ucast (push_bit (pos mod 8) (1 :: 64 word))"

definition bitset_last_byte_mask :: "size_t \<Rightarrow> 8 word" where
  "bitset_last_byte_mask n =
     (let used_bits = n mod 8 in
      if used_bits = 0 then 255 else ucast (push_bit used_bits (1 :: 64 word) - 1))"

text \<open>\<open>bits[i] = f(bits[i])\<close>.\<close>

definition update_byte :: "8 word buf \<Rightarrow> nat \<Rightarrow> (8 word \<Rightarrow> 8 word) \<Rightarrow> 8 word buf option" where
  "update_byte b i f = do { x \<leftarrow> buf_get b i; buf_put b i (Some (f x)) }"

definition bitset_clear_unused_tail_bits :: "bitset \<Rightarrow> bitset option" where
  "bitset_clear_unused_tail_bits bs =
     (let num_bytes = bitset_num_bytes (bs_size bs) in
      if num_bytes = 0 \<or> bs_size bs mod 8 = 0 then Some bs
      else do {
        b \<leftarrow> update_byte (bs_bits bs) (num_bytes - 1) (\<lambda>x. and x (bitset_last_byte_mask (bs_size bs)));
        Some (bs\<lparr>bs_bits := b\<rparr>) })"

function popcount_loop :: "8 word \<Rightarrow> size_t \<Rightarrow> size_t" where
  "popcount_loop byte n = (if byte \<noteq> 0 then popcount_loop (and byte (byte - 1)) (sz_add n 1) else n)"
  by pat_completeness auto

definition bitset_popcount_byte :: "8 word \<Rightarrow> size_t" where
  "bitset_popcount_byte byte = popcount_loop byte 0"

text \<open>\<open>memset(b + i, x, n)\<close>.\<close>

definition set_bytes :: "8 word buf \<Rightarrow> nat \<Rightarrow> 8 word \<Rightarrow> nat \<Rightarrow> 8 word buf option" where
  "set_bytes b i x n =
     (if n = 0 then Some b
      else if i + n \<le> length (slots b)
      then Some (Ptr (take i (slots b) @ replicate n (Some x) @ drop (i + n) (slots b)))
      else None)"

definition bitset_resize ::
    "bitset \<Rightarrow> size_t \<Rightarrow> ('a, 'b) world_scheme \<Rightarrow> (int \<times> bitset \<times> ('a, 'b) world_scheme) option" where
  "bitset_resize bs num_bits w =
     (let num_bytes = bitset_num_bytes num_bits;
          old_num_bytes = bitset_num_bytes (bs_size bs) in
      if num_bytes \<noteq> 0 then
        (let (ok, w1) = realloc (bs_bits bs \<noteq> NULL) num_bytes w in
         if \<not> ok then Some (- 1, bs, w1)
         else do {
           new_bits \<leftarrow> (if old_num_bytes < num_bytes
             then set_bytes (buf_resize num_bytes (bs_bits bs)) old_num_bytes 0 (num_bytes - old_num_bytes)
             else Some (buf_resize num_bytes (bs_bits bs)));
           bs1 \<leftarrow> bitset_clear_unused_tail_bits (bs\<lparr>bs_bits := new_bits, bs_size := num_bits\<rparr>);
           Some (0, bs1, w1) })
      else do {
        bs1 \<leftarrow> bitset_clear_unused_tail_bits (bs\<lparr>bs_bits := NULL, bs_size := num_bits\<rparr>);
        Some (0, bs1, free_ptr (bs_bits bs) w) })"

definition bitset_get :: "bitset ptr \<Rightarrow> size_t \<Rightarrow> bool option" where
  "bitset_get p pos =
     (if p \<noteq> NULL \<and> pos < bs_size (pt p) then do {
        x \<leftarrow> buf_get (bs_bits (pt p)) (bitset_byte_index pos);
        Some (and x (bitset_bit_mask pos) \<noteq> 0) }
      else None)"

fun find_loop :: "bitset ptr \<Rightarrow> bool \<Rightarrow> nat list \<Rightarrow> size_t option" where
  "find_loop p value [] = Some BITSET_NPOS"
| "find_loop p value (i # is) = do {
     x \<leftarrow> bitset_get p i;
     if x = value then Some i else find_loop p value is }"

definition bitset_find_from :: "bitset ptr \<Rightarrow> size_t \<Rightarrow> bool \<Rightarrow> size_t option" where
  "bitset_find_from p start value =
     (if bs_size (pt p) \<le> start then Some BITSET_NPOS
      else find_loop p value [start..<bs_size (pt p)])"

text \<open>A structure that holds nothing, as \<open>bitset_destroy\<close> leaves it.\<close>

definition empty_bitset :: bitset where
  "empty_bitset = \<lparr>bs_size = 0, bs_bits = NULL\<rparr>"

definition bitset_init ::
    "bitset ptr \<Rightarrow> size_t \<Rightarrow> ('a, 'b) world_scheme \<Rightarrow> (int \<times> bitset ptr \<times> ('a, 'b) world_scheme) option" where
  "bitset_init p num_bits w = (case p of NULL \<Rightarrow> Some (- 1, NULL, w) | Ptr _ \<Rightarrow> do {
     (rc, bs, w1) \<leftarrow> bitset_resize empty_bitset num_bits w;
     Some (rc, Ptr bs, w1) })"

definition bitset_destroy ::
    "bitset ptr \<Rightarrow> ('a, 'b) world_scheme \<Rightarrow> bitset ptr \<times> ('a, 'b) world_scheme" where
  "bitset_destroy p w = (case p of NULL \<Rightarrow> (NULL, w) | Ptr bs \<Rightarrow>
     (Ptr empty_bitset, free_ptr (bs_bits bs) w))"

definition bitset_new ::
    "size_t \<Rightarrow> ('a, 'b) world_scheme \<Rightarrow> (bitset ptr \<times> ('a, 'b) world_scheme) option" where
  "bitset_new num_bits w =
     (let (ok, w1) = malloc 16 w in
      if \<not> ok then Some (NULL, w1)
      else do {
        (rc, p, w2) \<leftarrow> bitset_init (Ptr empty_bitset) num_bits w1;
        if rc \<noteq> 0 then Some (NULL, free_block w2) else Some (p, w2) })"

definition bitset_free :: "bitset ptr \<Rightarrow> ('a, 'b) world_scheme \<Rightarrow> ('a, 'b) world_scheme" where
  "bitset_free p w = (case p of NULL \<Rightarrow> w | Ptr _ \<Rightarrow> free_block (snd (bitset_destroy p w)))"

text \<open>\<open>bits[pos / 8] = f(bits[pos / 8])\<close> after the assertion on \<open>pos\<close>.\<close>

definition update_bit :: "bitset ptr \<Rightarrow> size_t \<Rightarrow> (8 word \<Rightarrow> 8 word) \<Rightarrow> bitset ptr option" where
  "update_bit p pos f =
     (if p \<noteq> NULL \<and> pos < bs_size (pt p) then do {
        b \<leftarrow> update_byte (bs_bits (pt p)) (bitset_byte_index pos) f;
        Some (Ptr ((pt p)\<lparr>bs_bits := b\<rparr>)) }
      else None)"

definition bitset_set :: "bitset ptr \<Rightarrow> size_t \<Rightarrow> bool \<Rightarrow> bitset ptr option" where
  "bitset_set p pos value =
     (if value then update_bit p pos (\<lambda>x. or x (bitset_bit_mask pos))
      else update_bit p pos (\<lambda>x. and x (not (bitset_bit_mask pos))))"

definition bitset_reset :: "bitset ptr \<Rightarrow> size_t \<Rightarrow> bitset ptr option" where
  "bitset_reset p pos = update_bit p pos (\<lambda>x. and x (not (bitset_bit_mask pos)))"

text \<open>Overwriting the storage, then the canonical tail.\<close>

definition bitset_set_all :: "bitset ptr \<Rightarrow> bitset ptr option" where
  "bitset_set_all p = (case p of NULL \<Rightarrow> None | Ptr bs \<Rightarrow> do {
     b \<leftarrow> set_bytes (bs_bits bs) 0 255 (bitset_num_bytes (bs_size bs));
     bs1 \<leftarrow> bitset_clear_unused_tail_bits (bs\<lparr>bs_bits := b\<rparr>);
     Some (Ptr bs1) })"

definition bitset_reset_all :: "bitset ptr \<Rightarrow> bitset ptr option" where
  "bitset_reset_all p = (case p of NULL \<Rightarrow> None | Ptr bs \<Rightarrow> do {
     b \<leftarrow> set_bytes (bs_bits bs) 0 0 (bitset_num_bytes (bs_size bs));
     Some (Ptr (bs\<lparr>bs_bits := b\<rparr>)) })"

definition bitset_clear :: "bitset ptr \<Rightarrow> bitset ptr option" where
  "bitset_clear p = bitset_reset_all p"

definition bitset_flip :: "bitset ptr \<Rightarrow> size_t \<Rightarrow> bitset ptr option" where
  "bitset_flip p pos = update_bit p pos (\<lambda>x. xor x (bitset_bit_mask pos))"

fun complement_bytes :: "8 word buf \<Rightarrow> nat list \<Rightarrow> 8 word buf option" where
  "complement_bytes b [] = Some b"
| "complement_bytes b (i # is) = do { b1 \<leftarrow> update_byte b i not; complement_bytes b1 is }"

definition bitset_flip_all :: "bitset ptr \<Rightarrow> bitset ptr option" where
  "bitset_flip_all p = (case p of NULL \<Rightarrow> None | Ptr bs \<Rightarrow> do {
     b \<leftarrow> complement_bytes (bs_bits bs) [0..<bitset_num_bytes (bs_size bs)];
     bs1 \<leftarrow> bitset_clear_unused_tail_bits (bs\<lparr>bs_bits := b\<rparr>);
     Some (Ptr bs1) })"

text \<open>
  The loop of the three binary operators. It reads byte \<open>i\<close> of the source before it writes
  byte \<open>i\<close> of the destination, so a call on one and the same set is covered as well.
\<close>

fun combine_bytes ::
    "(8 word \<Rightarrow> 8 word \<Rightarrow> 8 word) \<Rightarrow> 8 word buf \<Rightarrow> 8 word buf \<Rightarrow> nat list \<Rightarrow> 8 word buf option" where
  "combine_bytes f dst src [] = Some dst"
| "combine_bytes f dst src (i # is) = do {
     y \<leftarrow> buf_get src i;
     dst1 \<leftarrow> update_byte dst i (\<lambda>x. f x y);
     combine_bytes f dst1 src is }"

definition combine_bits ::
    "(8 word \<Rightarrow> 8 word \<Rightarrow> 8 word) \<Rightarrow> bitset ptr \<Rightarrow> bitset ptr \<Rightarrow> bitset ptr option" where
  "combine_bits f dst src =
     (if dst \<noteq> NULL \<and> src \<noteq> NULL \<and> bs_size (pt dst) = bs_size (pt src) then do {
        b \<leftarrow> combine_bytes f (bs_bits (pt dst)) (bs_bits (pt src)) [0..<bitset_num_bytes (bs_size (pt dst))];
        bs1 \<leftarrow> bitset_clear_unused_tail_bits ((pt dst)\<lparr>bs_bits := b\<rparr>);
        Some (Ptr bs1) }
      else None)"

definition bitset_and :: "bitset ptr \<Rightarrow> bitset ptr \<Rightarrow> bitset ptr option" where
  "bitset_and dst src = combine_bits and dst src"

definition bitset_or :: "bitset ptr \<Rightarrow> bitset ptr \<Rightarrow> bitset ptr option" where
  "bitset_or dst src = combine_bits or dst src"

definition bitset_xor :: "bitset ptr \<Rightarrow> bitset ptr \<Rightarrow> bitset ptr option" where
  "bitset_xor dst src = combine_bits xor dst src"

text \<open>The first \<open>n\<close> bytes of a block, which \<open>memcmp\<close> and \<open>memcpy\<close> read.\<close>

definition read_bytes :: "8 word buf \<Rightarrow> nat \<Rightarrow> 8 word list option" where
  "read_bytes b n = those (map (buf_get b) [0..<n])"

definition bitset_equal :: "bitset ptr \<Rightarrow> bitset ptr \<Rightarrow> bool option" where
  "bitset_equal a b =
     (if a = NULL \<or> b = NULL then None
      else if bs_size (pt a) \<noteq> bs_size (pt b) then Some False
      else do {
        xs \<leftarrow> read_bytes (bs_bits (pt a)) (bitset_num_bytes (bs_size (pt a)));
        ys \<leftarrow> read_bytes (bs_bits (pt b)) (bitset_num_bytes (bs_size (pt a)));
        Some (xs = ys) })"

definition write_bytes :: "8 word buf \<Rightarrow> 8 word list \<Rightarrow> 8 word buf option" where
  "write_bytes b xs =
     (if xs = [] then Some b
      else if length xs \<le> length (slots b) then Some (Ptr (map Some xs @ drop (length xs) (slots b)))
      else None)"

definition bitset_copy ::
    "bool \<Rightarrow> bitset ptr \<Rightarrow> bitset ptr \<Rightarrow> ('a, 'b) world_scheme
     \<Rightarrow> (int \<times> bitset ptr \<times> ('a, 'b) world_scheme) option" where
  "bitset_copy same dst src w =
     (if dst = NULL \<or> src = NULL then Some (- 1, dst, w)
      else if same then Some (0, dst, w)
      else do {
        (rc, bs, w1) \<leftarrow> bitset_resize (pt dst) (bs_size (pt src)) w;
        if rc \<noteq> 0 then Some (- 1, Ptr bs, w1)
        else do {
          xs \<leftarrow> read_bytes (bs_bits (pt src)) (bitset_num_bytes (bs_size (pt src)));
          b \<leftarrow> write_bytes (bs_bits bs) xs;
          Some (0, Ptr (bs\<lparr>bs_bits := b\<rparr>), w1) } })"

definition bitset_clone ::
    "bitset ptr \<Rightarrow> ('a, 'b) world_scheme \<Rightarrow> (bitset ptr \<times> ('a, 'b) world_scheme) option" where
  "bitset_clone src w = (case src of NULL \<Rightarrow> Some (NULL, w) | Ptr s \<Rightarrow> do {
     (copy, w1) \<leftarrow> bitset_new (bs_size s) w;
     case copy of NULL \<Rightarrow> Some (NULL, w1) | Ptr bs \<Rightarrow> do {
       xs \<leftarrow> read_bytes (bs_bits s) (bitset_num_bytes (bs_size s));
       b \<leftarrow> write_bytes (bs_bits bs) xs;
       Some (Ptr (bs\<lparr>bs_bits := b\<rparr>), w1) } })"

text \<open>The loops over the full bytes of \<open>bitset_all\<close>, \<open>bitset_any\<close> and \<open>bitset_count\<close>.\<close>

fun every_byte :: "8 word \<Rightarrow> 8 word buf \<Rightarrow> nat list \<Rightarrow> bool option" where
  "every_byte x b [] = Some True"
| "every_byte x b (i # is) = do {
     y \<leftarrow> buf_get b i;
     if y \<noteq> x then Some False else every_byte x b is }"

definition bitset_all :: "bitset ptr \<Rightarrow> bool option" where
  "bitset_all p = (case p of NULL \<Rightarrow> None | Ptr bs \<Rightarrow>
     let full_bytes = bs_size bs div 8; num_bytes = bitset_num_bytes (bs_size bs) in do {
       full \<leftarrow> every_byte 255 (bs_bits bs) [0..<full_bytes];
       if \<not> full then Some False
       else if num_bytes = full_bytes then Some True
       else do {
         x \<leftarrow> buf_get (bs_bits bs) (sz_sub num_bytes 1);
         Some (and x (bitset_last_byte_mask (bs_size bs)) = bitset_last_byte_mask (bs_size bs)) } })"

definition bitset_any :: "bitset ptr \<Rightarrow> bool option" where
  "bitset_any p = (case p of NULL \<Rightarrow> None | Ptr bs \<Rightarrow>
     let full_bytes = bs_size bs div 8; num_bytes = bitset_num_bytes (bs_size bs) in do {
       zero \<leftarrow> every_byte 0 (bs_bits bs) [0..<full_bytes];
       if \<not> zero then Some True
       else if num_bytes = full_bytes then Some False
       else do {
         x \<leftarrow> buf_get (bs_bits bs) (sz_sub num_bytes 1);
         Some (and x (bitset_last_byte_mask (bs_size bs)) \<noteq> 0) } })"

definition bitset_none :: "bitset ptr \<Rightarrow> bool option" where
  "bitset_none p = map_option Not (bitset_any p)"

fun count_bytes :: "8 word buf \<Rightarrow> nat list \<Rightarrow> size_t \<Rightarrow> size_t option" where
  "count_bytes b [] n = Some n"
| "count_bytes b (i # is) n = do {
     x \<leftarrow> buf_get b i;
     count_bytes b is (sz_add n (bitset_popcount_byte x)) }"

definition bitset_count :: "bitset ptr \<Rightarrow> size_t option" where
  "bitset_count p = (case p of NULL \<Rightarrow> None | Ptr bs \<Rightarrow>
     let full_bytes = bs_size bs div 8; num_bytes = bitset_num_bytes (bs_size bs) in do {
       n \<leftarrow> count_bytes (bs_bits bs) [0..<full_bytes] 0;
       if num_bytes \<noteq> full_bytes then do {
         x \<leftarrow> buf_get (bs_bits bs) (sz_sub num_bytes 1);
         Some (sz_add n (bitset_popcount_byte (and x (bitset_last_byte_mask (bs_size bs))))) }
       else Some n })"

definition bitset_find_first_set :: "bitset ptr \<Rightarrow> size_t option" where
  "bitset_find_first_set p = (if p = NULL then None else bitset_find_from p 0 True)"

definition bitset_find_next_set :: "bitset ptr \<Rightarrow> size_t \<Rightarrow> size_t option" where
  "bitset_find_next_set p pos =
     (if p = NULL then None
      else if bs_size (pt p) \<le> pos then Some BITSET_NPOS
      else bitset_find_from p (sz_add pos 1) True)"

definition bitset_find_first_reset :: "bitset ptr \<Rightarrow> size_t option" where
  "bitset_find_first_reset p = (if p = NULL then None else bitset_find_from p 0 False)"

definition bitset_find_next_reset :: "bitset ptr \<Rightarrow> size_t \<Rightarrow> size_t option" where
  "bitset_find_next_reset p pos =
     (if p = NULL then None
      else if bs_size (pt p) \<le> pos then Some BITSET_NPOS
      else bitset_find_from p (sz_add pos 1) False)"

text \<open>
  \<open>bitset_to_string\<close> writes to a buffer of the caller, given as its \<open>char\<close> slots, and
  \<open>bitset_from_string\<close> reads a C string, given as the characters before its terminator.
\<close>

fun print_loop :: "bitset \<Rightarrow> nat list \<Rightarrow> char buf \<Rightarrow> char buf option" where
  "print_loop bs [] buf = Some buf"
| "print_loop bs (i # is) buf = do {
     x \<leftarrow> buf_get (bs_bits bs) (bitset_byte_index i);
     buf1 \<leftarrow> buf_put buf (sz_sub (sz_sub (bs_size bs) 1) i)
       (Some (if and x (bitset_bit_mask i) \<noteq> 0 then CHR ''1'' else CHR ''0''));
     print_loop bs is buf1 }"

definition bitset_to_string :: "bitset ptr \<Rightarrow> char buf \<Rightarrow> size_t \<Rightarrow> char buf option" where
  "bitset_to_string p buf n =
     (if p \<noteq> NULL \<and> bs_size (pt p) < n then do {
        buf1 \<leftarrow> print_loop (pt p) [0..<bs_size (pt p)] buf;
        buf_put buf1 (bs_size (pt p)) (Some (CHR 0x00)) }
      else None)"

fun parse_loop :: "string \<Rightarrow> nat list \<Rightarrow> 8 word buf \<Rightarrow> 8 word buf option" where
  "parse_loop str [] b = Some b"
| "parse_loop str (i # is) b =
     (if str ! i = CHR ''1'' then do {
        let pos = sz_sub (sz_sub (length str) 1) i;
        b1 \<leftarrow> update_byte b (bitset_byte_index pos) (\<lambda>x. or x (bitset_bit_mask pos));
        parse_loop str is b1 }
      else parse_loop str is b)"

definition bitset_from_string :: "bitset ptr \<Rightarrow> string ptr \<Rightarrow> (int \<times> bitset ptr) option" where
  "bitset_from_string p s =
     (if p = NULL \<or> s = NULL then Some (- 1, p)
      else let str = pt s in
        if length str \<noteq> bs_size (pt p) then Some (- 1, p)
        else if \<exists>c \<in> set str. c \<noteq> CHR ''0'' \<and> c \<noteq> CHR ''1'' then Some (- 1, p)
        else do {
          p1 \<leftarrow> bitset_reset_all p;
          b \<leftarrow> parse_loop str [0..<length str] (bs_bits (pt p1));
          Some (0, Ptr ((pt p1)\<lparr>bs_bits := b\<rparr>)) })"

section \<open>Bytes and masks\<close>

lemma popcount_smaller: "(x :: 8 word) \<noteq> 0 \<Longrightarrow> unat (and x (x - 1)) < unat x"
proof -
  assume x: "x \<noteq> 0"
  have "and x (x - 1) \<le> x - 1" by (rule word_and_le1)
  then have "unat (and x (x - 1)) \<le> unat (x - 1)" by (simp only: word_le_nat_alt)
  also have "\<dots> < unat x" using x by (simp add: unat_minus_one unat_gt_0)
  finally show ?thesis .
qed

termination popcount_loop
  by (relation "measure (\<lambda>(x, n). unat x)") (auto simp: popcount_smaller)

definition nbytes :: "nat \<Rightarrow> nat" where
  "nbytes n = (n + 7) div 8"

lemma num_bytes_eq [simp]: "n + 7 \<le> SIZE_MAX \<Longrightarrow> bitset_num_bytes n = nbytes n"
proof -
  assume n: "n + 7 \<le> SIZE_MAX"
  have "sz_sub (sz_add n 8) 1 = n + 7"
  proof (cases "n + 7 = SIZE_MAX")
    case True
    then have "n + 8 = SIZE_MAX + 1" by simp
    then have "sz_add n 8 = 0" by (simp only: sz_add_def mod_self)
    then show ?thesis using True by (simp add: sz_sub_def)
  next
    case False
    with n show ?thesis by simp
  qed
  then show ?thesis by (simp add: bitset_num_bytes_def nbytes_def)
qed

lemma nbytes_0 [simp]: "nbytes 0 = 0" and nbytes_pos [simp]: "0 < nbytes n \<longleftrightarrow> 0 < n"
  by (auto simp: nbytes_def)

lemma nbytes_eq_0 [simp]: "nbytes n = 0 \<longleftrightarrow> n = 0"
  by (metis nbytes_pos neq0_conv)

lemma nbytes_index: "i < n \<Longrightarrow> i div 8 < nbytes n"
  by (simp add: nbytes_def)

text \<open>The last byte: \<open>nbytes n - 1\<close> full bytes precede it.\<close>

lemma nbytes_last:
  assumes "n mod 8 \<noteq> 0"
  shows "nbytes n - 1 = n div 8" "nbytes n = Suc (n div 8)" "n = 8 * (n div 8) + n mod 8"
proof -
  show n: "n = 8 * (n div 8) + n mod 8" by simp
  have "(8 * q + r + 7) div 8 = Suc q" if "r < 8" "r \<noteq> 0" for q r :: nat
    using that by presburger
  from this [of "n mod 8" "n div 8"] assms n show "nbytes n = Suc (n div 8)"
    unfolding nbytes_def by simp
  then show "nbytes n - 1 = n div 8" by simp
qed

lemma nbytes_full: "n mod 8 = 0 \<Longrightarrow> nbytes n = n div 8 \<and> n = 8 * nbytes n"
  by (auto simp: nbytes_def elim!: dvdE simp flip: dvd_eq_mod_eq_0)

lemma bit_mask_exp: "bitset_bit_mask pos = 2 ^ (pos mod 8)"
proof -
  have "bitset_bit_mask (8 * q + r) = 2 ^ ((8 * q + r) mod 8)" if "r < 8" for q r
  proof -
    have "r \<in> {0, 1, 2, 3, 4, 5, 6, 7}" using that by auto
    then show ?thesis by (auto simp: bitset_bit_mask_def push_bit_eq_mult)
  qed
  from this [of "pos mod 8" "pos div 8"] show ?thesis by simp
qed

lemma bit_bit_mask: "k < 8 \<Longrightarrow> bit (bitset_bit_mask pos) k \<longleftrightarrow> k = pos mod 8"
  by (auto simp: bit_mask_exp bit_exp_iff)

lemma and_bit_mask: "and x (bitset_bit_mask pos) \<noteq> 0 \<longleftrightarrow> bit x (pos mod 8)"
  by (simp add: bit_mask_exp and_exp_eq_0_iff_not_bit)

lemma last_byte_mask_eq:
  "bitset_last_byte_mask n = (if n mod 8 = 0 then - 1 else mask (n mod 8))"
proof -
  have "bitset_last_byte_mask (8 * q + r) = (if r = 0 then - 1 else mask r)" if "r < 8" for q r
  proof -
    have "r \<in> {0, 1, 2, 3, 4, 5, 6, 7}" using that by auto
    then show ?thesis by (auto simp: bitset_last_byte_mask_def push_bit_eq_mult mask_eq_exp_minus_1)
  qed
  from this [of "n mod 8" "n div 8"] show ?thesis by simp
qed

lemma bit_last_byte_mask: "k < 8 \<Longrightarrow> bit (bitset_last_byte_mask n) k \<longleftrightarrow> n mod 8 = 0 \<or> k < n mod 8"
  by (auto simp: last_byte_mask_eq bit_mask_iff)

section \<open>The canonical storage of a list of bits\<close>

definition byte_of :: "bool list \<Rightarrow> nat \<Rightarrow> 8 word" where
  "byte_of vs i = horner_sum of_bool 2 (map (\<lambda>k. 8 * i + k < length vs \<and> vs ! (8 * i + k)) [0..<8])"

definition pack :: "bool list \<Rightarrow> 8 word list" where
  "pack vs = map (byte_of vs) [0..<nbytes (length vs)]"

definition storage :: "8 word list \<Rightarrow> 8 word buf" where
  "storage xs = (if xs = [] then NULL else Ptr (map Some xs))"

definition packed :: "bool list \<Rightarrow> bitset" where
  "packed vs = \<lparr>bs_size = length vs, bs_bits = storage (pack vs)\<rparr>"

definition bits_rel :: "bitset \<Rightarrow> bool list \<Rightarrow> bool" where
  "bits_rel bs vs \<longleftrightarrow> bs = packed vs \<and> length vs + 7 \<le> SIZE_MAX"

lemma bit_byte_of: "bit (byte_of vs i) k \<longleftrightarrow> k < 8 \<and> 8 * i + k < length vs \<and> vs ! (8 * i + k)"
  by (auto simp: byte_of_def bit_horner_sum_bit_iff)

lemma length_pack [simp]: "length (pack vs) = nbytes (length vs)"
  by (simp add: pack_def)

lemma pack_nth: "i < nbytes (length vs) \<Longrightarrow> pack vs ! i = byte_of vs i"
  by (simp add: pack_def)

lemma packed_simps [simp]: "bs_size (packed vs) = length vs" "bs_bits (packed vs) = storage (pack vs)"
  by (simp_all add: packed_def)

lemma bit_pack: "i < length vs \<Longrightarrow> bit (pack vs ! (i div 8)) (i mod 8) = vs ! i"
  by (simp add: pack_nth nbytes_index bit_byte_of)

lemma slots_storage [simp]: "slots (storage xs) = map Some xs"
  by (simp add: storage_def)

lemma buf_get_storage: "buf_get (storage xs) i = (if i < length xs then Some (xs ! i) else None)"
  by (simp add: buf_get_def)

lemma update_byte_storage:
  "i < length xs \<Longrightarrow> update_byte (storage xs) i f = Some (storage (xs[i := f (xs ! i)]))"
  by (auto simp: update_byte_def buf_get_def buf_put_def storage_def map_update)

text \<open>Bytes that agree with \<open>vs\<close> on its positions become the canonical storage of \<open>vs\<close>.\<close>

lemma pack_eqI:
  assumes "length ys = nbytes (length vs)"
    and "\<And>j k. j < nbytes (length vs) \<Longrightarrow> k < 8 \<Longrightarrow>
      bit (ys ! j) k \<longleftrightarrow> 8 * j + k < length vs \<and> vs ! (8 * j + k)"
  shows "ys = pack vs"
proof (rule nth_equalityI)
  show "length ys = length (pack vs)" using assms(1) by simp
  show "ys ! j = pack vs ! j" if "j < length ys" for j
    using that assms by (auto intro!: bit_word_eqI simp: pack_nth bit_byte_of)
qed

lemma clear_tail_packed:
  assumes len: "length xs = nbytes (length vs)" "length vs + 7 \<le> SIZE_MAX"
    and agree: "\<And>i. i < length vs \<Longrightarrow> bit (xs ! (i div 8)) (i mod 8) = vs ! i"
  shows "bitset_clear_unused_tail_bits \<lparr>bs_size = length vs, bs_bits = storage xs\<rparr> = Some (packed vs)"
proof -
  let ?n = "length vs"
  have bits: "bit (xs ! j) k = vs ! (8 * j + k)" if "8 * j + k < ?n" "k < 8" for j k
    using agree [OF that(1)] that(2) by simp
  show ?thesis
  proof (cases "?n mod 8 = 0")
    case True
    then have "8 * nbytes ?n = ?n" using nbytes_full [of ?n] by metis
    then have "8 * j + k < ?n" if "j < nbytes ?n" "k < 8" for j k
      using that by linarith
    then have "xs = pack vs" using len bits by (intro pack_eqI) auto
    then show ?thesis using True by (simp add: bitset_clear_unused_tail_bits_def packed_def)
  next
    case False
    note last = nbytes_last [OF False]
    let ?m = "?n div 8"
    define ys where "ys = xs[?m := and (xs ! ?m) (bitset_last_byte_mask ?n)]"
    have m: "?m < length xs" using len last by simp
    have "ys = pack vs"
    proof (rule pack_eqI)
      show "length ys = nbytes ?n" using len by (simp add: ys_def)
      fix j k :: nat
      assume j: "j < nbytes ?n" and k: "k < 8"
      show "bit (ys ! j) k \<longleftrightarrow> 8 * j + k < ?n \<and> vs ! (8 * j + k)"
      proof (cases "j = ?m")
        case True
        have "k < ?n mod 8 \<longleftrightarrow> 8 * j + k < ?n" using True last(3) by linarith
        then show ?thesis
          using True m k False bits [of j k] by (auto simp: ys_def bit_and_iff bit_last_byte_mask)
      next
        case False
        then have "8 * j + k < ?n" using j k last by linarith
        then show ?thesis using False bits k by (simp add: ys_def)
      qed
    qed
    moreover have "bitset_clear_unused_tail_bits \<lparr>bs_size = ?n, bs_bits = storage xs\<rparr>
        = Some \<lparr>bs_size = ?n, bs_bits = storage ys\<rparr>"
      using False len last m
      by (auto simp: bitset_clear_unused_tail_bits_def update_byte_storage ys_def)
    ultimately show ?thesis by (simp add: packed_def)
  qed
qed

lemma update_byte_packed:
  assumes "pos < length vs"
    and "\<And>x k. k < 8 \<Longrightarrow> bit x (pos mod 8) = vs ! pos \<Longrightarrow> bit (f x) k \<longleftrightarrow> (if k = pos mod 8 then v else bit x k)"
  shows "update_byte (storage (pack vs)) (bitset_byte_index pos) f = Some (storage (pack (vs[pos := v])))"
proof -
  let ?b = "pos div 8" and ?xs = "pack vs"
  have b: "?b < nbytes (length vs)" by (rule nbytes_index [OF assms(1)])
  have "?xs[?b := f (?xs ! ?b)] = pack (vs[pos := v])"
  proof (rule pack_eqI)
    show "length (?xs[?b := f (?xs ! ?b)]) = nbytes (length (vs[pos := v]))" by simp
    fix j k :: nat
    assume j: "j < nbytes (length (vs[pos := v]))" and k: "k < 8"
    have *: "8 * j + k = pos \<longleftrightarrow> j = ?b \<and> k = pos mod 8" using k by auto
    show "bit (?xs[?b := f (?xs ! ?b)] ! j) k
        \<longleftrightarrow> 8 * j + k < length (vs[pos := v]) \<and> vs[pos := v] ! (8 * j + k)"
    proof (cases "j = ?b")
      case True
      have "bit (f (?xs ! ?b)) k \<longleftrightarrow> (if k = pos mod 8 then v else bit (?xs ! ?b) k)"
        using assms(2) [OF k] bit_pack [OF assms(1)] by blast
      then show ?thesis
        using True b assms(1) k * by (auto simp: nth_list_update pack_nth bit_byte_of)
    next
      case False
      then have "8 * j + k \<noteq> pos" using * by simp
      then show ?thesis using False j k by (simp add: pack_nth bit_byte_of)
    qed
  qed
  then show ?thesis
    using b by (simp add: bitset_byte_index_def update_byte_storage)
qed

lemma update_bit_packed:
  assumes "pos < length vs"
    and "\<And>x k. k < 8 \<Longrightarrow> bit x (pos mod 8) = vs ! pos \<Longrightarrow> bit (f x) k \<longleftrightarrow> (if k = pos mod 8 then v else bit x k)"
  shows "update_bit (Ptr (packed vs)) pos f = Some (Ptr (packed (vs[pos := v])))"
  using assms(1) update_byte_packed [OF assms] by (simp add: update_bit_def packed_def)

section \<open>Changing bits\<close>

lemma set_bytes_storage:
  assumes "length xs = n"
  shows "set_bytes (storage xs) 0 x n = Some (storage (replicate n x))"
  using assms by (auto simp: set_bytes_def storage_def)

lemma bitset_set_packed:
  assumes "pos < length vs"
  shows "bitset_set (Ptr (packed vs)) pos v = Some (Ptr (packed (vs[pos := v])))"
proof (cases v)
  case True
  have "update_bit (Ptr (packed vs)) pos (\<lambda>x. or x (bitset_bit_mask pos)) = Some (Ptr (packed (vs[pos := True])))"
    by (rule update_bit_packed [OF assms]) (auto simp: bit_or_iff bit_bit_mask)
  with True show ?thesis by (simp add: bitset_set_def)
next
  case False
  have "update_bit (Ptr (packed vs)) pos (\<lambda>x. and x (not (bitset_bit_mask pos))) = Some (Ptr (packed (vs[pos := False])))"
    by (rule update_bit_packed [OF assms]) (auto simp: bit_and_iff bit_not_iff bit_bit_mask)
  with False show ?thesis by (simp add: bitset_set_def)
qed

lemma bitset_reset_packed:
  "pos < length vs \<Longrightarrow> bitset_reset (Ptr (packed vs)) pos = Some (Ptr (packed (vs[pos := False])))"
  using bitset_set_packed [of pos vs False] by (simp add: bitset_set_def bitset_reset_def)

lemma bitset_flip_packed:
  assumes "pos < length vs"
  shows "bitset_flip (Ptr (packed vs)) pos = Some (Ptr (packed (vs[pos := \<not> vs ! pos])))"
  unfolding bitset_flip_def
  by (rule update_bit_packed [OF assms]) (auto simp: bit_xor_iff bit_bit_mask)

lemma bitset_out_of_range:
  assumes "length vs \<le> pos"
  shows "bitset_set (Ptr (packed vs)) pos v = None" "bitset_reset (Ptr (packed vs)) pos = None"
    "bitset_flip (Ptr (packed vs)) pos = None" "bitset_get (Ptr (packed vs)) pos = None"
  using assms
  by (simp_all add: bitset_set_def bitset_reset_def bitset_flip_def update_bit_def bitset_get_def)

lemma update_storage: "(packed vs)\<lparr>bs_bits := b\<rparr> = \<lparr>bs_size = length vs, bs_bits = b\<rparr>"
  by (simp add: packed_def)

lemma bitset_set_all_packed:
  assumes "length vs + 7 \<le> SIZE_MAX"
  shows "bitset_set_all (Ptr (packed vs)) = Some (Ptr (packed (replicate (length vs) True)))"
proof -
  let ?n = "length vs"
  have "bit (replicate (nbytes ?n) (255 :: 8 word) ! (i div 8)) (i mod 8)" if "i < ?n" for i
  proof -
    have "bit (- 1 :: 8 word) (i mod 8)" by simp
    moreover have "(255 :: 8 word) = - 1" by simp
    ultimately show ?thesis using nbytes_index [OF that] by (simp only: nth_replicate)
  qed
  then have "bitset_clear_unused_tail_bits \<lparr>bs_size = ?n, bs_bits = storage (replicate (nbytes ?n) 255)\<rparr>
      = Some (packed (replicate ?n True))"
    using clear_tail_packed [of "replicate (nbytes ?n) 255" "replicate ?n True"] assms by simp
  then show ?thesis
    using assms by (simp add: bitset_set_all_def set_bytes_storage update_storage)
qed

lemma pack_zero: "replicate (nbytes n) 0 = pack (replicate n False)"
  by (rule pack_eqI) auto

lemma bitset_reset_all_packed:
  assumes "length vs + 7 \<le> SIZE_MAX"
  shows "bitset_reset_all (Ptr (packed vs)) = Some (Ptr (packed (replicate (length vs) False)))"
  using assms
  by (simp add: bitset_reset_all_def set_bytes_storage update_storage pack_zero packed_def)

text \<open>The byte loops, over any list of distinct indices.\<close>

lemma complement_bytes_ok:
  assumes "distinct is" and "\<forall>i \<in> set is. i < length xs"
  shows "\<exists>ys. complement_bytes (storage xs) is = Some (storage ys) \<and> length ys = length xs
    \<and> (\<forall>j < length xs. ys ! j = (if j \<in> set is then not (xs ! j) else xs ! j))"
  using assms
proof (induction "is" arbitrary: xs)
  case (Cons i is')
  from Cons.IH [of "xs[i := not (xs ! i)]"] Cons.prems show ?case
    by (auto simp: update_byte_storage nth_list_update)
qed auto

lemma combine_bytes_ok:
  assumes "distinct is" and "\<forall>i \<in> set is. i < length xs \<and> i < length zs"
  shows "\<exists>ys. combine_bytes f (storage xs) (storage zs) is = Some (storage ys) \<and> length ys = length xs
    \<and> (\<forall>j < length xs. ys ! j = (if j \<in> set is then f (xs ! j) (zs ! j) else xs ! j))"
  using assms
proof (induction "is" arbitrary: xs)
  case (Cons i is')
  from Cons.IH [of "xs[i := f (xs ! i) (zs ! i)]"] Cons.prems show ?case
    by (auto simp: update_byte_storage buf_get_storage nth_list_update)
qed auto

lemma bitset_flip_all_packed:
  assumes "length vs + 7 \<le> SIZE_MAX"
  shows "bitset_flip_all (Ptr (packed vs)) = Some (Ptr (packed (map Not vs)))"
proof -
  let ?n = "nbytes (length vs)"
  obtain ys where ys: "complement_bytes (storage (pack vs)) [0..<?n] = Some (storage ys)" "length ys = ?n"
    "\<forall>j < ?n. ys ! j = not (pack vs ! j)"
    using complement_bytes_ok [of "[0..<?n]" "pack vs"] by auto
  have "bit (ys ! (i div 8)) (i mod 8) = map Not vs ! i" if "i < length vs" for i
    using ys(3) nbytes_index [OF that] bit_pack [OF that] that by (simp add: bit_not_iff)
  then have "bitset_clear_unused_tail_bits \<lparr>bs_size = length vs, bs_bits = storage ys\<rparr> = Some (packed (map Not vs))"
    using clear_tail_packed [of ys "map Not vs"] ys(2) assms by simp
  then show ?thesis
    using assms ys(1) by (simp add: bitset_flip_all_def update_storage)
qed

text \<open>The three binary operators act bit by bit.\<close>

lemma combine_bits_packed:
  assumes len: "length us = length vs" "length vs + 7 \<le> SIZE_MAX"
    and f: "\<And>x y k. k < 8 \<Longrightarrow> bit (f x y) k \<longleftrightarrow> g (bit x k) (bit y k)"
  shows "combine_bits f (Ptr (packed us)) (Ptr (packed vs)) = Some (Ptr (packed (map2 g us vs)))"
proof -
  let ?n = "nbytes (length vs)"
  obtain ys where ys: "combine_bytes f (storage (pack us)) (storage (pack vs)) [0..<?n] = Some (storage ys)"
    "length ys = ?n" "\<forall>j < ?n. ys ! j = f (pack us ! j) (pack vs ! j)"
    using combine_bytes_ok [of "[0..<?n]" "pack us" "pack vs" f] len(1) by auto
  have "bit (ys ! (i div 8)) (i mod 8) = map2 g us vs ! i" if "i < length vs" for i
    using ys(3) nbytes_index [OF that] bit_pack [OF that] bit_pack [of i us] that len(1) by (simp add: f)
  then have "bitset_clear_unused_tail_bits \<lparr>bs_size = length vs, bs_bits = storage ys\<rparr> = Some (packed (map2 g us vs))"
    using clear_tail_packed [of ys "map2 g us vs"] ys(2) len by simp
  then show ?thesis
    using len ys(1) by (simp add: combine_bits_def update_storage)
qed

lemma bitset_binary_packed:
  assumes "length us = length vs" "length vs + 7 \<le> SIZE_MAX"
  shows "bitset_and (Ptr (packed us)) (Ptr (packed vs)) = Some (Ptr (packed (map2 (\<and>) us vs)))"
    "bitset_or (Ptr (packed us)) (Ptr (packed vs)) = Some (Ptr (packed (map2 (\<or>) us vs)))"
    "bitset_xor (Ptr (packed us)) (Ptr (packed vs)) = Some (Ptr (packed (map2 (\<noteq>) us vs)))"
  unfolding bitset_and_def bitset_or_def bitset_xor_def
  by (rule combine_bits_packed [OF assms], simp add: bit_and_iff bit_or_iff bit_xor_iff)+

section \<open>Creating, resizing and copying\<close>

text \<open>The bits after a resize.\<close>

definition resized :: "nat \<Rightarrow> bool list \<Rightarrow> bool list" where
  "resized n vs = take n vs @ replicate (n - length vs) False"

lemma length_resized [simp]: "length (resized n vs) = n"
  by (simp add: resized_def)

lemma resized_simps [simp]: "resized 0 vs = []" "resized n [] = replicate n False"
  by (simp_all add: resized_def)

lemma bs_bits_packed_NULL: "storage (pack vs) = NULL \<longleftrightarrow> vs = []"
  by (auto simp: storage_def pack_def)

lemma blocks_packed: "blocks (storage (pack vs)) = (if vs = [] then 0 else 1)"
  using bs_bits_packed_NULL [of vs] by (auto simp: blocks_def split: ptr.splits)

lemma resized_Nil [simp]: "resized n vs = [] \<longleftrightarrow> n = 0"
  by (metis length_resized length_0_conv)

lemma resize_bytes:
  assumes "0 < m"
  shows "(if length xs < m then set_bytes (buf_resize m (storage xs)) (length xs) 0 (m - length xs)
      else Some (buf_resize m (storage xs))) = Some (storage (take m xs @ replicate (m - length xs) 0))"
  using assms by (auto simp: set_bytes_def buf_resize_def storage_def map_replicate take_map)

lemma bitset_resize_ok:
  assumes "length us + 7 \<le> SIZE_MAX" and "n + 7 \<le> SIZE_MAX"
  shows "\<exists>rc bs w'. bitset_resize (packed us) n w = Some (rc, bs, w') \<and> destroyed w' = destroyed w
    \<and> live w' - blocks (bs_bits bs) = live w - blocks (storage (pack us))
    \<and> (no_fail w \<longrightarrow> no_fail w' \<and> rc = 0)
    \<and> (rc = 0 \<and> bs = packed (resized n us) \<or> rc = - 1 \<and> bs = packed us)"
proof (cases "n = 0")
  case True
  have none: "storage (pack []) = NULL" by (simp add: bs_bits_packed_NULL)
  have clear: "bitset_clear_unused_tail_bits \<lparr>bs_size = 0, bs_bits = NULL\<rparr> = Some \<lparr>bs_size = 0, bs_bits = NULL\<rparr>"
    by (simp add: bitset_clear_unused_tail_bits_def bitset_num_bytes_def)
  have "bitset_resize (packed us) n w = Some (0, packed (resized n us), free_ptr (storage (pack us)) w)"
    using True none clear by (simp add: bitset_resize_def packed_def bitset_num_bytes_def)
  then show ?thesis using True none by simp
next
  case False
  let ?m = "nbytes n" and ?xs = "pack us"
  obtain ok w1 where r: "realloc (storage ?xs \<noteq> NULL) ?m w = (ok, w1)" by fastforce
  note e = realloc_effect [OF r]
  have m: "0 < ?m" "?m \<le> PTRDIFF_MAX"
    using False assms(2) by (simp_all add: nbytes_def PTRDIFF_MAX_def SIZE_MAX_def)
  let ?ys = "take ?m ?xs @ replicate (?m - length ?xs) 0"
  have "bit (?ys ! (i div 8)) (i mod 8) = resized n us ! i" if i: "i < n" for i
  proof (cases "i < length us")
    case True
    then show ?thesis
      using bit_pack [OF True] nbytes_index [OF True] nbytes_index [OF i] i by (simp add: resized_def nth_append)
  next
    case False
    have "bit (?xs ! (i div 8)) (i mod 8) = False" if "i div 8 < nbytes (length us)"
      using that False by (simp add: pack_nth bit_byte_of)
    then show ?thesis
      using False nbytes_index [OF i] i by (simp add: resized_def nth_append)
  qed
  then have tail: "bitset_clear_unused_tail_bits \<lparr>bs_size = n, bs_bits = storage ?ys\<rparr> = Some (packed (resized n us))"
    using clear_tail_packed [of ?ys "resized n us"] assms(2) by simp
  have "bitset_resize (packed us) n w = (if \<not> ok then Some (- 1, packed us, w1)
      else Some (0, packed (resized n us), w1))"
    using False assms r resize_bytes [OF m(1), of ?xs, unfolded length_pack] tail
    by (cases "nbytes (length us) < nbytes n") (simp_all add: bitset_resize_def packed_def)
  then show ?thesis
    using e(1,3,5,6) m(2) False by (cases ok) (auto simp: blocks_packed bs_bits_packed_NULL)
qed

lemma empty_packed: "empty_bitset = packed []"
  by (simp add: empty_bitset_def packed_def storage_def pack_def)

lemma bitset_init_ok:
  assumes "n + 7 \<le> SIZE_MAX"
  shows "\<exists>rc bs w'. bitset_init (Ptr u) n w = Some (rc, Ptr bs, w') \<and> destroyed w' = destroyed w
    \<and> live w' - blocks (bs_bits bs) = live w \<and> (no_fail w \<longrightarrow> no_fail w' \<and> rc = 0)
    \<and> (rc = 0 \<and> bs = packed (replicate n False) \<or> rc = - 1 \<and> bs = empty_bitset)"
proof -
  have "storage (pack []) = NULL" by (simp add: bs_bits_packed_NULL)
  then show ?thesis
    using bitset_resize_ok [of "[]" n w] assms by (auto simp: bitset_init_def empty_packed)
qed

lemma read_bytes_storage [simp]: "read_bytes (storage xs) (length xs) = Some xs"
proof -
  have "map (buf_get (storage xs)) [0..<length xs] = map Some xs"
    by (rule nth_equalityI) (simp_all add: buf_get_storage)
  moreover have "those (map Some xs) = Some xs" by (induction xs) simp_all
  ultimately show ?thesis by (simp add: read_bytes_def)
qed

lemma read_bytes_pack [simp]:
  "length us = length vs \<Longrightarrow> read_bytes (storage (pack vs)) (nbytes (length us)) = Some (pack vs)"
  using read_bytes_storage [of "pack vs"] by simp

lemma write_bytes_storage: "length ys = length xs \<Longrightarrow> write_bytes (storage ys) xs = Some (storage xs)"
  by (auto simp: write_bytes_def storage_def)

lemma bitset_copy_packed:
  assumes "length us + 7 \<le> SIZE_MAX" and "length vs + 7 \<le> SIZE_MAX"
  shows "\<exists>rc bs w'. bitset_copy False (Ptr (packed us)) (Ptr (packed vs)) w = Some (rc, Ptr bs, w')
    \<and> destroyed w' = destroyed w \<and> live w' - blocks (bs_bits bs) = live w - blocks (storage (pack us))
    \<and> (no_fail w \<longrightarrow> rc = 0) \<and> (rc = 0 \<and> bs = packed vs \<or> rc = - 1 \<and> bs = packed us)"
proof -
  obtain rc bs w' where r: "bitset_resize (packed us) (length vs) w = Some (rc, bs, w')"
    "destroyed w' = destroyed w" "live w' - blocks (bs_bits bs) = live w - blocks (storage (pack us))"
    "no_fail w \<longrightarrow> no_fail w' \<and> rc = 0"
    "rc = 0 \<and> bs = packed (resized (length vs) us) \<or> rc = - 1 \<and> bs = packed us"
    using bitset_resize_ok [OF assms, of w] by (elim exE conjE) (rule that)
  have w: "write_bytes (storage (pack (resized (length vs) us))) (pack vs) = Some (storage (pack vs))"
    by (rule write_bytes_storage) simp
  have bl: "blocks (storage (pack (resized (length vs) us))) = blocks (storage (pack vs))"
    by (simp add: blocks_packed)
  from r(5) show ?thesis
  proof
    assume "rc = 0 \<and> bs = packed (resized (length vs) us)"
    then show ?thesis
      using r(1-4) w bl assms by (simp add: bitset_copy_def packed_def)
  next
    assume "rc = - 1 \<and> bs = packed us"
    then show ?thesis using r(1-4) by (simp add: bitset_copy_def)
  qed
qed

lemma bitset_new_ok:
  assumes "n + 7 \<le> SIZE_MAX"
  shows "\<exists>p w'. bitset_new n w = Some (p, w') \<and> destroyed w' = destroyed w \<and> (no_fail w \<longrightarrow> no_fail w' \<and> p \<noteq> NULL)
    \<and> (p = NULL \<and> live w' = live w
       \<or> p = Ptr (packed (replicate n False)) \<and> live w' = live w + 1 + blocks (storage (pack (replicate n False))))"
proof -
  obtain ok w1 where m: "malloc 16 w = (ok, w1)" by fastforce
  note e = malloc_effect [OF m]
  obtain rc bs w2 where i: "bitset_init (Ptr empty_bitset) n w1 = Some (rc, Ptr bs, w2)"
    "destroyed w2 = destroyed w1" "live w2 - blocks (bs_bits bs) = live w1" "no_fail w1 \<longrightarrow> no_fail w2 \<and> rc = 0"
    "rc = 0 \<and> bs = packed (replicate n False) \<or> rc = - 1 \<and> bs = empty_bitset"
    using bitset_init_ok [OF assms, of empty_bitset w1] by (elim exE conjE) (rule that)
  have "(16 :: nat) \<le> PTRDIFF_MAX" by (simp add: PTRDIFF_MAX_def)
  with m i e(1,3,5,6) show ?thesis
    by (cases ok) (auto simp: bitset_new_def empty_bitset_def)
qed

lemma bitset_clone_packed:
  assumes "length vs + 7 \<le> SIZE_MAX"
  shows "\<exists>p w'. bitset_clone (Ptr (packed vs)) w = Some (p, w') \<and> destroyed w' = destroyed w
    \<and> (no_fail w \<longrightarrow> p \<noteq> NULL)
    \<and> (p = NULL \<and> live w' = live w \<or> p = Ptr (packed vs) \<and> live (bitset_free p w') = live w)"
proof -
  obtain p w1 where n: "bitset_new (length vs) w = Some (p, w1)" "destroyed w1 = destroyed w"
    "no_fail w \<longrightarrow> no_fail w1 \<and> p \<noteq> NULL"
    "p = NULL \<and> live w1 = live w
     \<or> p = Ptr (packed (replicate (length vs) False))
       \<and> live w1 = live w + 1 + blocks (storage (pack (replicate (length vs) False)))"
    using bitset_new_ok [OF assms, of w] by (elim exE conjE) (rule that)
  have w: "write_bytes (storage (pack (replicate (length vs) False))) (pack vs) = Some (storage (pack vs))"
    by (rule write_bytes_storage) simp
  have bl: "blocks (storage (pack (replicate (length vs) False))) = blocks (storage (pack vs))"
    by (simp add: blocks_packed)
  from n(4) show ?thesis
  proof
    assume "p = NULL \<and> live w1 = live w"
    then show ?thesis using n(1-3) by (simp add: bitset_clone_def)
  next
    assume "p = Ptr (packed (replicate (length vs) False))
       \<and> live w1 = live w + 1 + blocks (storage (pack (replicate (length vs) False)))"
    then show ?thesis
      using n(1-3) w bl assms
      by (simp add: bitset_clone_def) (simp add: packed_def bitset_free_def bitset_destroy_def)
  qed
qed

lemma pack_inj: "length us = length vs \<Longrightarrow> pack us = pack vs \<longleftrightarrow> us = vs"
  using bit_pack [of _ us] bit_pack [of _ vs] by (auto intro: nth_equalityI)

lemma bitset_equal_packed:
  assumes "length us + 7 \<le> SIZE_MAX"
  shows "bitset_equal (Ptr (packed us)) (Ptr (packed vs)) = Some (us = vs)"
  using assms by (auto simp: bitset_equal_def pack_inj)

section \<open>Reading bits\<close>

lemma bitset_get_packed: "i < length vs \<Longrightarrow> bitset_get (Ptr (packed vs)) i = Some (vs ! i)"
  using nbytes_index [of i "length vs"] bit_pack [of i vs]
  by (simp add: bitset_get_def bitset_byte_index_def buf_get_storage and_bit_mask)

text \<open>The first position of a list of positions that holds a value, or \<open>BITSET_NPOS\<close>.\<close>

definition first_at :: "bool list \<Rightarrow> bool \<Rightarrow> nat list \<Rightarrow> nat" where
  "first_at vs v is = (case find (\<lambda>i. vs ! i = v) is of None \<Rightarrow> BITSET_NPOS | Some i \<Rightarrow> i)"

lemma find_loop_packed:
  "\<forall>i \<in> set is. i < length vs \<Longrightarrow> find_loop (Ptr (packed vs)) v is = Some (first_at vs v is)"
  by (induction "is") (auto simp: first_at_def bitset_get_packed)

lemma bitset_find_packed:
  assumes "length vs + 7 \<le> SIZE_MAX"
  shows "bitset_find_first_set (Ptr (packed vs)) = Some (first_at vs True [0..<length vs])"
    "bitset_find_first_reset (Ptr (packed vs)) = Some (first_at vs False [0..<length vs])"
    "bitset_find_next_set (Ptr (packed vs)) k = Some (first_at vs True [Suc k..<length vs])"
    "bitset_find_next_reset (Ptr (packed vs)) k = Some (first_at vs False [Suc k..<length vs])"
proof -
  have from_k: "bitset_find_from (Ptr (packed vs)) j v = Some (first_at vs v [j..<length vs])" for j v
    by (auto simp: bitset_find_from_def find_loop_packed first_at_def)
  show "bitset_find_first_set (Ptr (packed vs)) = Some (first_at vs True [0..<length vs])"
    "bitset_find_first_reset (Ptr (packed vs)) = Some (first_at vs False [0..<length vs])"
    by (simp_all add: bitset_find_first_set_def bitset_find_first_reset_def from_k)
  have "bitset_find_from (Ptr (packed vs)) (sz_add k 1) v = Some (first_at vs v [Suc k..<length vs])"
    if "k < length vs" for v
    using that assms by (simp add: from_k)
  then show "bitset_find_next_set (Ptr (packed vs)) k = Some (first_at vs True [Suc k..<length vs])"
    "bitset_find_next_reset (Ptr (packed vs)) k = Some (first_at vs False [Suc k..<length vs])"
    by (auto simp: bitset_find_next_set_def bitset_find_next_reset_def first_at_def)
qed

lemma first_at_iff:
  "first_at vs v [k..<length vs] = i \<and> i < length vs
    \<longleftrightarrow> k \<le> i \<and> i < length vs \<and> vs ! i = v \<and> (\<forall>j. k \<le> j \<and> j < i \<longrightarrow> vs ! j \<noteq> v)"
  if "length vs \<le> BITSET_NPOS"
proof (induction "length vs - k" arbitrary: k)
  case 0
  then show ?case using that by (auto simp: first_at_def)
next
  case (Suc m)
  then have k: "[k..<length vs] = k # [Suc k..<length vs]" "k < length vs" "m = length vs - Suc k"
    by (simp_all add: upt_conv_Cons)
  show ?case
  proof (cases "vs ! k = v")
    case True
    have "i = k \<longleftrightarrow> k \<le> i \<and> (\<forall>j. k \<le> j \<and> j < i \<longrightarrow> vs ! j \<noteq> v)" if "vs ! i = v"
      using True by (metis le_neq_implies_less order_refl not_less)
    then show ?thesis using True k by (auto simp: first_at_def)
  next
    case False
    then have "first_at vs v [k..<length vs] = first_at vs v [Suc k..<length vs]"
      by (simp add: first_at_def k(1))
    moreover have "k \<le> i \<and> vs ! i = v \<and> (\<forall>j. k \<le> j \<and> j < i \<longrightarrow> vs ! j \<noteq> v)
        \<longleftrightarrow> Suc k \<le> i \<and> vs ! i = v \<and> (\<forall>j. Suc k \<le> j \<and> j < i \<longrightarrow> vs ! j \<noteq> v)"
      using False by (metis Suc_leD Suc_leI le_neq_implies_less)
    ultimately show ?thesis using Suc.hyps(1) [OF k(3)] by (metis (no_types, lifting))
  qed
qed

subsection \<open>Counting\<close>

fun pop :: "nat \<Rightarrow> nat" where
  "pop n = (if n = 0 then 0 else n mod 2 + pop (n div 2))"

declare pop.simps [simp del]

lemma pop_double: "pop (2 * n) = pop n"
  by (cases "n = 0") (simp_all add: pop.simps [of "2 * n"] pop.simps [of 0])

lemma pop_clear_lowest: "n \<noteq> 0 \<Longrightarrow> pop n = Suc (pop (and n (n - 1)))"
proof (induction n rule: less_induct)
  case (less n)
  have r: "and n (n - 1) = of_bool (odd n \<and> odd (n - 1)) + 2 * and (n div 2) ((n - 1) div 2)"
    by (rule and_rec)
  show ?case
  proof (cases "odd n")
    case True
    then obtain m where m: "n = 2 * m + 1" by (elim oddE)
    then have "and n (n - 1) = 2 * m" unfolding r by simp
    then show ?thesis using m by (simp add: pop.simps [of "Suc (2 * m)"] pop_double)
  next
    case False
    then have m: "n div 2 \<noteq> 0" "n div 2 < n" "(n - 1) div 2 = n div 2 - 1" using less(2) by auto
    then have "and n (n - 1) = 2 * and (n div 2) (n div 2 - 1)" using r False by simp
    then show ?thesis
      using less(1) [OF m(2,1)] False less(2) by (simp add: pop.simps [of n] pop_double even_iff_mod_2_eq_zero)
  qed
qed

lemma pop_bits: "n < 2 ^ m \<Longrightarrow> pop n = (\<Sum>k < m. of_bool (bit n k))"
proof (induction m arbitrary: n)
  case 0
  then show ?case by (simp add: pop.simps)
next
  case (Suc m)
  have "pop n = n mod 2 + pop (n div 2)" by (simp add: pop.simps [of n] pop.simps [of 0])
  also have "pop (n div 2) = (\<Sum>k < m. of_bool (bit (n div 2) k))" using Suc by simp
  finally show ?case
    by (simp add: sum.lessThan_Suc_shift bit_0 bit_Suc mod_2_eq_odd del: sum.lessThan_Suc)
qed

lemma pop_le: "pop n \<le> n"
  by (induction n rule: pop.induct) (subst pop.simps, auto)

lemma popcount_loop_ok: "n + pop (unat x) \<le> SIZE_MAX \<Longrightarrow> popcount_loop x n = n + pop (unat x)"
proof (induction x n rule: popcount_loop.induct)
  case (1 x n)
  show ?case
  proof (cases "x = 0")
    case True
    then show ?thesis by (simp add: pop.simps)
  next
    case False
    then have "unat (and x (x - 1)) = and (unat x) (unat x - 1)"
      by (simp add: unsigned_and_eq unat_minus_one)
    moreover have "unat x \<noteq> 0" using False by (simp add: unat_eq_0)
    ultimately have "pop (unat x) = Suc (pop (unat (and x (x - 1))))"
      using pop_clear_lowest [of "unat x"] by simp
    then show ?thesis using 1 False by (subst popcount_loop.simps) simp
  qed
qed

definition ones :: "8 word \<Rightarrow> nat" where
  "ones x = (\<Sum>k < 8. of_bool (bit x k))"

lemma ones_le: "ones x \<le> 8"
proof -
  have "ones x \<le> (\<Sum>k < (8 :: nat). 1)" unfolding ones_def by (rule sum_mono) simp
  then show ?thesis by simp
qed

lemma bitset_popcount_byte_ones: "bitset_popcount_byte x = ones x"
proof -
  have "unat x < 2 ^ 8" using unsigned_less [of x] by simp
  then have p: "pop (unat x) = ones x"
    using pop_bits [of "unat x" 8] by (simp add: ones_def bit_unsigned_iff)
  have "(8 :: nat) \<le> SIZE_MAX" by (simp add: SIZE_MAX_def)
  then have "pop (unat x) \<le> SIZE_MAX" using p ones_le [of x] by linarith
  then show ?thesis
    using popcount_loop_ok [of 0 x] p by (simp add: bitset_popcount_byte_def)
qed

lemma count_bytes_ok:
  "\<forall>i \<in> set is. i < length xs \<Longrightarrow> n + (\<Sum>i\<leftarrow>is. ones (xs ! i)) \<le> SIZE_MAX \<Longrightarrow>
   count_bytes (storage xs) is n = Some (n + (\<Sum>i\<leftarrow>is. ones (xs ! i)))"
  by (induction "is" arbitrary: n) (simp_all add: buf_get_storage bitset_popcount_byte_ones)

lemma ones_byte_of:
  "ones (byte_of vs i) = (\<Sum>j \<in> {i * 8..<i * 8 + 8}. of_bool (j < length vs \<and> vs ! j))"
proof -
  have "(\<Sum>j \<in> {i * 8..<i * 8 + 8}. of_bool (j < length vs \<and> vs ! j) :: nat)
      = (\<Sum>k < 8. of_bool (8 * i + k < length vs \<and> vs ! (8 * i + k)))"
    using sum.shift_bounds_nat_ivl [of "\<lambda>j. of_bool (j < length vs \<and> vs ! j) :: nat" 0 "i * 8" 8]
    by (simp add: ac_simps atLeast0LessThan)
  then show ?thesis by (simp add: ones_def bit_byte_of)
qed

lemma ones_total: "(\<Sum>i < nbytes (length vs). ones (byte_of vs i)) = length (filter id vs)"
proof -
  let ?f = "\<lambda>j. of_bool (j < length vs \<and> vs ! j) :: nat"
  have "(\<Sum>i < nbytes (length vs). ones (byte_of vs i)) = (\<Sum>j < nbytes (length vs) * 8. ?f j)"
    unfolding ones_byte_of by (rule sum.nat_group)
  also have "\<dots> = (\<Sum>j < length vs. ?f j)"
    by (rule sum.mono_neutral_right) (auto simp: nbytes_def)
  also have "\<dots> = (\<Sum>j < length vs. of_bool (vs ! j))" by simp
  also have "\<dots> = card {j. j < length vs \<and> vs ! j}"
    by (simp add: of_bool_def sum.If_cases Int_def lessThan_def)
  finally show ?thesis by (simp add: length_filter_conv_card)
qed

lemma last_byte_canonical:
  assumes "length vs mod 8 \<noteq> 0"
  shows "and (byte_of vs (length vs div 8)) (bitset_last_byte_mask (length vs)) = byte_of vs (length vs div 8)"
proof (rule bit_word_eqI)
  fix k :: nat
  assume "k < LENGTH(8)"
  moreover have "k < length vs mod 8" if "8 * (length vs div 8) + k < length vs"
    using that nbytes_last(3) [OF assms] by linarith
  ultimately show "bit (and (byte_of vs (length vs div 8)) (bitset_last_byte_mask (length vs))) k
      \<longleftrightarrow> bit (byte_of vs (length vs div 8)) k"
    using assms by (auto simp: bit_and_iff bit_byte_of bit_last_byte_mask)
qed

lemma bitset_count_packed:
  assumes "length vs + 7 \<le> SIZE_MAX"
  shows "bitset_count (Ptr (packed vs)) = Some (length (filter id vs))"
proof -
  let ?n = "length vs" and ?q = "length vs div 8"
  have s: "(\<Sum>i\<leftarrow>[0..<q]. ones (pack vs ! i)) = (\<Sum>i < q. ones (byte_of vs i))" if "q \<le> nbytes ?n" for q
    using that by (simp add: sum_list_distinct_conv_sum_set atLeast0LessThan pack_nth)
  have le: "length (filter id vs) \<le> SIZE_MAX" using assms length_filter_le [of id vs] by linarith
  show ?thesis
  proof (cases "?n mod 8 = 0")
    case True
    then have "nbytes ?n = ?q" using nbytes_full by simp
    then show ?thesis
      using count_bytes_ok [of "[0..<?q]" "pack vs" 0] s [of ?q] ones_total [of vs] le assms
      by (simp add: bitset_count_def)
  next
    case False
    note last = nbytes_last [OF False]
    let ?t = "ones (byte_of vs ?q)"
    have total: "(\<Sum>i < ?q. ones (byte_of vs i)) + ?t = length (filter id vs)"
      using ones_total [of vs] last(2) by simp
    have "count_bytes (storage (pack vs)) [0..<?q] 0 = Some (\<Sum>i < ?q. ones (byte_of vs i))"
      using count_bytes_ok [of "[0..<?q]" "pack vs" 0] s [of ?q] total le last(2) by simp
    moreover have "sz_sub (nbytes ?n) 1 = ?q" using last assms by simp
    moreover have "buf_get (storage (pack vs)) ?q = Some (byte_of vs ?q)"
      using last by (simp add: buf_get_storage pack_nth)
    ultimately show ?thesis
      using assms last(2) total le last_byte_canonical [OF False]
      by (simp add: bitset_count_def bitset_popcount_byte_ones)
  qed
qed

subsection \<open>All, any, none\<close>

lemma every_byte_ok:
  "\<forall>i \<in> set is. i < length xs \<Longrightarrow> every_byte x (storage xs) is = Some (\<forall>i \<in> set is. xs ! i = x)"
  by (induction "is") (auto simp: buf_get_storage)

lemma all_bits_split:
  "(\<forall>i < n. P i) \<longleftrightarrow> (\<forall>j < n div 8. \<forall>k < 8. P (8 * j + k)) \<and> (\<forall>k < n mod 8. P (8 * (n div 8) + k))"
  for n :: nat
proof
  assume a: "\<forall>i < n. P i"
  have "8 * j + k < n" if "j < n div 8" "k < 8" for j k using that by linarith
  moreover have "8 * (n div 8) + k < n" if "k < n mod 8" for k
    using that mult_div_mod_eq [of 8 n] by linarith
  ultimately show "(\<forall>j < n div 8. \<forall>k < 8. P (8 * j + k)) \<and> (\<forall>k < n mod 8. P (8 * (n div 8) + k))"
    using a by blast
next
  assume a: "(\<forall>j < n div 8. \<forall>k < 8. P (8 * j + k)) \<and> (\<forall>k < n mod 8. P (8 * (n div 8) + k))"
  show "\<forall>i < n. P i"
  proof (intro allI impI)
    fix i
    assume i: "i < n"
    have e: "8 * (i div 8) + i mod 8 = i" by simp
    show "P i"
    proof (cases "i div 8 < n div 8")
      case True
      then have "P (8 * (i div 8) + i mod 8)" using a by (metis mod_less_divisor zero_less_numeral)
      then show ?thesis by simp
    next
      case False
      then have "i div 8 = n div 8" using i div_le_mono [of i n 8] by simp
      then have "i mod 8 < n mod 8" "P (8 * (n div 8) + i mod 8)" if "i mod 8 < n mod 8"
        using that a by simp_all
      moreover have "i mod 8 < n mod 8"
        using i \<open>i div 8 = n div 8\<close> e mult_div_mod_eq [of 8 n] by linarith
      ultimately show ?thesis using \<open>i div 8 = n div 8\<close> e by simp
    qed
  qed
qed

lemma byte_of_full:
  assumes "j < length vs div 8"
  shows "byte_of vs j = 255 \<longleftrightarrow> (\<forall>k < 8. vs ! (8 * j + k))" "byte_of vs j = 0 \<longleftrightarrow> (\<forall>k < 8. \<not> vs ! (8 * j + k))"
proof -
  have i: "8 * j + k < length vs" if "k < 8" for k using that assms by linarith
  have m: "(255 :: 8 word) = - 1" by simp
  show "byte_of vs j = 255 \<longleftrightarrow> (\<forall>k < 8. vs ! (8 * j + k))"
    unfolding m by (auto simp: bit_eq_iff bit_byte_of i)
  show "byte_of vs j = 0 \<longleftrightarrow> (\<forall>k < 8. \<not> vs ! (8 * j + k))"
    by (auto simp: bit_eq_iff bit_byte_of i)
qed

lemma byte_of_tail:
  assumes "length vs mod 8 \<noteq> 0"
  defines "x \<equiv> byte_of vs (length vs div 8)" and "m \<equiv> bitset_last_byte_mask (length vs)"
  shows "and x m = m \<longleftrightarrow> (\<forall>k < length vs mod 8. vs ! (8 * (length vs div 8) + k))"
    "and x m \<noteq> 0 \<longleftrightarrow> \<not> (\<forall>k < length vs mod 8. \<not> vs ! (8 * (length vs div 8) + k))"
proof -
  have i: "8 * (length vs div 8) + k < length vs \<longleftrightarrow> k < length vs mod 8" for k
    using nbytes_last(3) [OF assms(1)] by linarith
  have k: "k < length vs mod 8 \<Longrightarrow> k < 8" for k
    using mod_less_divisor [of 8 "length vs"] by linarith
  have mk: "bit m k \<longleftrightarrow> k < length vs mod 8" for k
  proof (cases "k < 8")
    case True
    then show ?thesis using assms(1) by (simp add: m_def bit_last_byte_mask)
  next
    case False
    then have "\<not> bit m k" using bit_imp_le_length [of m k] by auto
    then show ?thesis using False k by auto
  qed
  have x: "bit x j \<longleftrightarrow> j < length vs mod 8 \<and> vs ! (8 * (length vs div 8) + j)" for j
    using i k by (auto simp: x_def bit_byte_of)
  show "and x m = m \<longleftrightarrow> (\<forall>k < length vs mod 8. vs ! (8 * (length vs div 8) + k))"
    using k by (auto simp: bit_eq_iff bit_and_iff x mk)
  show "and x m \<noteq> 0 \<longleftrightarrow> \<not> (\<forall>k < length vs mod 8. \<not> vs ! (8 * (length vs div 8) + k))"
    using k by (auto simp: bit_eq_iff bit_and_iff x mk)
qed

lemma bitset_all_any_packed:
  assumes "length vs + 7 \<le> SIZE_MAX"
  shows "bitset_all (Ptr (packed vs)) = Some (\<forall>i < length vs. vs ! i)"
    "bitset_any (Ptr (packed vs)) = Some (\<not> (\<forall>i < length vs. \<not> vs ! i))"
proof -
  let ?n = "length vs" and ?q = "length vs div 8"
  have q: "?q \<le> nbytes ?n" by (simp add: nbytes_def div_le_mono)
  have full: "every_byte 255 (storage (pack vs)) [0..<?q] = Some (\<forall>j < ?q. \<forall>k < 8. vs ! (8 * j + k))"
    "every_byte 0 (storage (pack vs)) [0..<?q] = Some (\<forall>j < ?q. \<forall>k < 8. \<not> vs ! (8 * j + k))"
    using q byte_of_full [of _ vs] by (auto simp: every_byte_ok pack_nth)
  note split = all_bits_split [of ?n "\<lambda>i. vs ! i"] all_bits_split [of ?n "\<lambda>i. \<not> vs ! i"]
  show "bitset_all (Ptr (packed vs)) = Some (\<forall>i < ?n. vs ! i)"
    "bitset_any (Ptr (packed vs)) = Some (\<not> (\<forall>i < ?n. \<not> vs ! i))"
  proof -
    have tail: "sz_sub (nbytes ?n) 1 = ?q" "nbytes ?n = Suc ?q"
      "buf_get (storage (pack vs)) ?q = Some (byte_of vs ?q)" if "?n mod 8 \<noteq> 0"
      using nbytes_last [OF that] assms by (simp_all add: buf_get_storage pack_nth)
    have none: "nbytes ?n = ?q" if "?n mod 8 = 0" using nbytes_full [OF that] by simp
    show "bitset_all (Ptr (packed vs)) = Some (\<forall>i < ?n. vs ! i)"
      using assms full(1) tail none byte_of_tail(1) [of vs] unfolding split(1)
      by (cases "?n mod 8 = 0") (simp_all add: bitset_all_def Let_def)
    show "bitset_any (Ptr (packed vs)) = Some (\<not> (\<forall>i < ?n. \<not> vs ! i))"
      using assms full(2) tail none byte_of_tail(2) [of vs] unfolding split(2)
      by (cases "?n mod 8 = 0") (simp_all add: bitset_any_def Let_def, blast?)
  qed
qed

section \<open>Strings\<close>

text \<open>The text of a bit set: the highest position first.\<close>

definition digit :: "bool \<Rightarrow> char" where
  "digit v = (if v then CHR ''1'' else CHR ''0'')"

definition text_of :: "bool list \<Rightarrow> string" where
  "text_of vs = map digit (rev vs)"

definition bits_of :: "string \<Rightarrow> bool list" where
  "bits_of s = map (\<lambda>c. c = CHR ''1'') (rev s)"

definition well_formed :: "string \<Rightarrow> bool" where
  "well_formed s \<longleftrightarrow> set s \<subseteq> {CHR ''0'', CHR ''1''}"

lemma text_bits: "bits_of (text_of vs) = vs" and bits_text: "well_formed s \<Longrightarrow> text_of (bits_of s) = s"
proof -
  show "bits_of (text_of vs) = vs"
    by (simp add: bits_of_def text_of_def rev_map digit_def comp_def cong: if_cong)
  assume "well_formed s"
  then have "map (\<lambda>c. digit (c = CHR ''1'')) s = map id s"
    by (intro map_cong) (auto simp: well_formed_def digit_def)
  then show "text_of (bits_of s) = s" by (simp add: bits_of_def text_of_def rev_map comp_def)
qed

lemma mirror_index:
  "i < n \<Longrightarrow> n \<le> SIZE_MAX \<Longrightarrow> sz_sub (sz_sub n 1) i = n - 1 - i"
  "i < n \<Longrightarrow> n - 1 - i < n" "i < n \<Longrightarrow> n - 1 - (n - 1 - i) = i" for n :: nat
proof -
  assume "i < n" "n \<le> SIZE_MAX"
  moreover from this have "sz_sub n 1 = n - 1" "i \<le> n - 1" "n - 1 \<le> SIZE_MAX" by simp_all
  ultimately show "sz_sub (sz_sub n 1) i = n - 1 - i" by simp
qed auto

lemma print_loop_ok:
  assumes "\<forall>i \<in> set is. i < length vs" and "distinct is" and "length vs \<le> length (slots buf)"
    and "length vs + 7 \<le> SIZE_MAX" and "buf \<noteq> NULL"
  shows "\<exists>buf'. print_loop (packed vs) is buf = Some buf' \<and> length (slots buf') = length (slots buf) \<and> buf' \<noteq> NULL
    \<and> (\<forall>j < length vs. slots buf' ! j =
        (if length vs - 1 - j \<in> set is then Some (digit (vs ! (length vs - 1 - j))) else slots buf ! j))"
  using assms
proof (induction "is" arbitrary: buf)
  case (Cons i is')
  let ?n = "length vs"
  have i: "i < ?n" "sz_sub (sz_sub ?n 1) i = ?n - 1 - i" "?n - 1 - i < length (slots buf)"
    using Cons.prems mirror_index(1,2) [of i ?n] by auto
  have x: "\<exists>x. buf_get (storage (pack vs)) (bitset_byte_index i) = Some x
      \<and> (and x (bitset_bit_mask i) \<noteq> 0 \<longleftrightarrow> vs ! i)"
    using nbytes_index [OF i(1)] bit_pack [OF i(1)]
    by (simp add: bitset_byte_index_def buf_get_storage and_bit_mask)
  let ?b = "Ptr ((slots buf)[?n - 1 - i := Some (digit (vs ! i))])"
  have step: "print_loop (packed vs) (i # is') buf = print_loop (packed vs) is' ?b"
    using x i(2,3) by (auto simp: buf_put_def digit_def)
  have idx: "j = ?n - 1 - i \<longleftrightarrow> ?n - 1 - j = i" if "j < ?n" for j using that i(1) by linarith
  from Cons.IH [of ?b] Cons.prems obtain buf' where b: "print_loop (packed vs) is' ?b = Some buf'"
    "length (slots buf') = length (slots buf)" "buf' \<noteq> NULL"
    "\<forall>j < ?n. slots buf' ! j = (if ?n - 1 - j \<in> set is' then Some (digit (vs ! (?n - 1 - j))) else slots ?b ! j)"
    by auto
  have "slots buf' ! j = (if ?n - 1 - j \<in> set (i # is') then Some (digit (vs ! (?n - 1 - j))) else slots buf ! j)"
    if "j < ?n" for j
    using b(4) that idx [OF that] i Cons.prems(2,3) by (auto simp: nth_list_update)
  then show ?case using step b(1-3) by auto
qed auto

lemma bitset_to_string_packed:
  assumes "length vs + 7 \<le> SIZE_MAX" and "length vs < n" and "n \<le> length (slots buf)"
  shows "\<exists>buf'. bitset_to_string (Ptr (packed vs)) buf n = Some buf' \<and> holds buf' (text_of vs @ [CHR 0x00])
    \<and> length (slots buf') = length (slots buf)"
proof -
  have "buf \<noteq> NULL" using assms(2,3) by (cases buf) auto
  moreover have "length vs \<le> length (slots buf)" using assms(2,3) by simp
  moreover have "\<forall>i \<in> set [0..<length vs]. i < length vs" "distinct [0..<length vs]" by simp_all
  ultimately obtain b where b: "print_loop (packed vs) [0..<length vs] buf = Some b"
    "length (slots b) = length (slots buf)"
    "\<forall>j < length vs. slots b ! j = (if length vs - 1 - j \<in> set [0..<length vs]
      then Some (digit (vs ! (length vs - 1 - j))) else slots buf ! j)"
    using print_loop_ok [of "[0..<length vs]" vs buf] assms(1) by blast
  have "slots b ! j = Some (digit (vs ! (length vs - 1 - j)))" if "j < length vs" for j
    using b(3) that mirror_index(2) [OF that] by (simp del: One_nat_def)
  then have "holds b (text_of vs)"
    using b(2) assms(2,3) by (simp add: holds_iff text_of_def rev_nth)
  moreover have len: "length (text_of vs) = length vs" by (simp add: text_of_def)
  moreover have "length vs < length (slots b)" using assms(2,3) b(2) by simp
  ultimately obtain b' where b': "buf_put b (length vs) (Some (CHR 0x00)) = Some b'"
    "holds b' (text_of vs @ [CHR 0x00])" "length (slots b') = length (slots b)"
    using holds_put_new [of b "text_of vs" "CHR 0x00"] by auto
  have "bitset_to_string (Ptr (packed vs)) buf n = Some b'"
    using b(1) b'(1) assms(2) by (simp add: bitset_to_string_def)
  then show ?thesis using b(2) b'(2,3) by auto
qed

lemma parse_loop_ok:
  assumes "\<forall>i \<in> set is. i < length str" and "length vs = length str" and "length str + 7 \<le> SIZE_MAX"
  shows "\<exists>us. parse_loop str is (storage (pack vs)) = Some (storage (pack us)) \<and> length us = length vs
    \<and> (\<forall>j < length vs. us ! j \<longleftrightarrow> vs ! j \<or> length str - 1 - j \<in> set is \<and> str ! (length str - 1 - j) = CHR ''1'')"
  using assms
proof (induction "is" arbitrary: vs)
  case (Cons i is')
  show ?case
  proof (cases "str ! i = CHR ''1''")
    case False
    then show ?thesis using Cons.IH [of vs] Cons.prems by auto
  next
    case True
    let ?p = "length str - 1 - i"
    have p: "sz_sub (sz_sub (length str) 1) i = ?p" "?p < length vs"
      using Cons.prems mirror_index(1,2) [of i "length str"] by auto
    have u: "update_byte (storage (pack vs)) (bitset_byte_index ?p) (\<lambda>x. or x (bitset_bit_mask ?p))
        = Some (storage (pack (vs[?p := True])))"
      by (rule update_byte_packed [OF p(2)]) (auto simp: bit_or_iff bit_bit_mask)
    have idx: "j = ?p \<longleftrightarrow> length str - 1 - j = i" if "j < length str" for j
      using that Cons.prems(1) by auto
    from Cons.IH [of "vs[?p := True]"] Cons.prems obtain us where us:
      "parse_loop str is' (storage (pack (vs[?p := True]))) = Some (storage (pack us))" "length us = length vs"
      "\<forall>j < length vs. us ! j \<longleftrightarrow> vs[?p := True] ! j
        \<or> length str - 1 - j \<in> set is' \<and> str ! (length str - 1 - j) = CHR ''1''"
      by auto
    have "us ! j \<longleftrightarrow> vs ! j \<or> length str - 1 - j \<in> set (i # is') \<and> str ! (length str - 1 - j) = CHR ''1''"
      if "j < length vs" for j
      using us(3) that idx [of j] True Cons.prems(2) by (auto simp: nth_list_update)
    then show ?thesis using us(1,2) u p(1) True by auto
  qed
qed auto

lemma bitset_from_string_packed:
  assumes "length vs + 7 \<le> SIZE_MAX"
  shows "bitset_from_string (Ptr (packed vs)) (Ptr s) =
    (if length s = length vs \<and> well_formed s then Some (0, Ptr (packed (bits_of s)))
     else Some (- 1, Ptr (packed vs)))"
proof (cases "length s = length vs \<and> well_formed s")
  case True
  let ?zero = "replicate (length vs) False"
  obtain us where us: "parse_loop s [0..<length s] (storage (pack ?zero)) = Some (storage (pack us))"
    "length us = length vs" "\<forall>j < length vs. us ! j \<longleftrightarrow> s ! (length vs - 1 - j) = CHR ''1''"
    using parse_loop_ok [of "[0..<length s]" s ?zero] True assms mirror_index(2) [of _ "length vs"]
    by (auto simp del: One_nat_def)
  have "us = bits_of s"
    using us(2,3) True by (intro nth_equalityI) (simp_all add: bits_of_def rev_nth)
  moreover have "\<not> (\<exists>c \<in> set s. c \<noteq> CHR ''0'' \<and> c \<noteq> CHR ''1'')" using True by (auto simp: well_formed_def)
  moreover have "length (bits_of s) = length vs" using True by (simp add: bits_of_def)
  ultimately show ?thesis
    using True us(1,2) bitset_reset_all_packed [OF assms]
    by (simp add: bitset_from_string_def packed_def)
next
  case False
  then show ?thesis by (auto simp: bitset_from_string_def well_formed_def)
qed

section \<open>Histories\<close>

text \<open>The calls that change bits. The second operand of a binary operator is any canonical set.\<close>

datatype bit_op = Set_bit nat bool | Reset_bit nat | Flip_bit nat | Set_all | Reset_all | Clear_all | Flip_all
  | And_with "bool list" | Or_with "bool list" | Xor_with "bool list"

fun exec_bit :: "bit_op \<Rightarrow> bitset ptr \<Rightarrow> bitset ptr option" where
  "exec_bit (Set_bit i v) p = bitset_set p i v"
| "exec_bit (Reset_bit i) p = bitset_reset p i"
| "exec_bit (Flip_bit i) p = bitset_flip p i"
| "exec_bit Set_all p = bitset_set_all p"
| "exec_bit Reset_all p = bitset_reset_all p"
| "exec_bit Clear_all p = bitset_clear p"
| "exec_bit Flip_all p = bitset_flip_all p"
| "exec_bit (And_with us) p = bitset_and p (Ptr (packed us))"
| "exec_bit (Or_with us) p = bitset_or p (Ptr (packed us))"
| "exec_bit (Xor_with us) p = bitset_xor p (Ptr (packed us))"

fun exec_bits :: "bit_op list \<Rightarrow> bitset ptr \<Rightarrow> bitset ptr option" where
  "exec_bits [] p = Some p"
| "exec_bits (op # ops) p = do { p1 \<leftarrow> exec_bit op p; exec_bits ops p1 }"

fun apply_bit :: "bool list \<Rightarrow> bit_op \<Rightarrow> bool list" where
  "apply_bit vs (Set_bit i v) = vs[i := v]"
| "apply_bit vs (Reset_bit i) = vs[i := False]"
| "apply_bit vs (Flip_bit i) = vs[i := \<not> vs ! i]"
| "apply_bit vs Set_all = map (\<lambda>_. True) vs"
| "apply_bit vs Reset_all = map (\<lambda>_. False) vs"
| "apply_bit vs Clear_all = map (\<lambda>_. False) vs"
| "apply_bit vs Flip_all = map Not vs"
| "apply_bit vs (And_with us) = map2 (\<and>) vs us"
| "apply_bit vs (Or_with us) = map2 (\<or>) vs us"
| "apply_bit vs (Xor_with us) = map2 (\<noteq>) vs us"

fun legal_bit :: "nat \<Rightarrow> bit_op \<Rightarrow> bool" where
  "legal_bit n (Set_bit i v) = (i < n)"
| "legal_bit n (Reset_bit i) = (i < n)"
| "legal_bit n (Flip_bit i) = (i < n)"
| "legal_bit n (And_with us) = (length us = n)"
| "legal_bit n (Or_with us) = (length us = n)"
| "legal_bit n (Xor_with us) = (length us = n)"
| "legal_bit n _ = True"

lemma map_const_replicate: "map (\<lambda>_. c) vs = replicate (length vs) c"
  by (induction vs) auto

lemma exec_bit_packed:
  assumes "length vs + 7 \<le> SIZE_MAX" and "legal_bit (length vs) op"
  shows "exec_bit op (Ptr (packed vs)) = Some (Ptr (packed (apply_bit vs op)))
    \<and> length (apply_bit vs op) = length vs"
  using assms
  by (cases op) (simp_all add: bitset_set_packed bitset_reset_packed bitset_flip_packed
      bitset_set_all_packed bitset_reset_all_packed bitset_clear_def bitset_flip_all_packed
      bitset_binary_packed map_const_replicate)

lemma exec_bits_packed:
  assumes "length vs + 7 \<le> SIZE_MAX" and "\<forall>op \<in> set ops. legal_bit (length vs) op"
  shows "exec_bits ops (Ptr (packed vs)) = Some (Ptr (packed (foldl apply_bit vs ops)))
    \<and> length (foldl apply_bit vs ops) = length vs"
  using assms
proof (induction ops arbitrary: vs)
  case (Cons op ops)
  then have "legal_bit (length vs) op" by simp
  note e = exec_bit_packed [OF Cons.prems(1) this]
  then show ?case using Cons.IH [of "apply_bit vs op"] Cons.prems by simp
qed simp

section \<open>Properties\<close>

text \<open>C37: a bit set is memory safe and refines a list of bits. Starting from \<open>bitset_init\<close>, any
  sequence of the operations that change bits, with positions in range and operands of the same size,
  runs without a fault and leaves the canonical storage of the list that the sequence describes
  (unused bits are 0); destroying the set returns its block.\<close>

theorem bitset_history:
  assumes n: "n + 7 \<le> SIZE_MAX" and w: "no_fail w" and ops: "\<forall>op \<in> set ops. legal_bit n op"
  shows "\<exists>bs bs' w'. bitset_init (Ptr u) n w = Some (0, Ptr bs, w') \<and> exec_bits ops (Ptr bs) = Some (Ptr bs')
    \<and> bits_rel bs' (foldl apply_bit (replicate n False) ops)
    \<and> fst (bitset_destroy (Ptr bs') w') = Ptr empty_bitset \<and> live (snd (bitset_destroy (Ptr bs') w')) = live w"
proof -
  let ?vs = "replicate n False"
  obtain w' where i: "bitset_init (Ptr u) n w = Some (0, Ptr (packed ?vs), w')"
    "live w' - blocks (bs_bits (packed ?vs)) = live w"
    using bitset_init_ok [OF n, of u w] w by auto
  have e: "exec_bits ops (Ptr (packed ?vs)) = Some (Ptr (packed (foldl apply_bit ?vs ops)))"
    "length (foldl apply_bit ?vs ops) = n"
    using exec_bits_packed [of ?vs ops] n ops by simp_all
  moreover have "foldl apply_bit ?vs ops = [] \<longleftrightarrow> n = 0"
    using e(2) by (metis length_0_conv)
  then have "blocks (storage (pack (foldl apply_bit ?vs ops))) = blocks (storage (pack ?vs))"
    by (simp add: blocks_packed)
  ultimately show ?thesis
    using i n by (simp add: bits_rel_def bitset_destroy_def)
qed

theorem bitset_history_witness:
  "\<exists>bs bs' w'. bitset_init (Ptr empty_bitset) 11 (script [] [] :: unit world) = Some (0, Ptr bs, w')
    \<and> exec_bits [Set_bit 9 True, Flip_all, Xor_with (replicate 11 True), Flip_bit 0] (Ptr bs) = Some (Ptr bs')
    \<and> bits_rel bs' (foldl apply_bit (replicate 11 False)
        [Set_bit 9 True, Flip_all, Xor_with (replicate 11 True), Flip_bit 0])
    \<and> fst (bitset_destroy (Ptr bs') w') = Ptr empty_bitset
    \<and> live (snd (bitset_destroy (Ptr bs') w')) = live (script [] [] :: unit world)"
  by (rule bitset_history) (simp_all add: SIZE_MAX_def no_fail_def script_def)

text \<open>C38: every query of a canonical bit set answers for the list of bits it represents: single bits,
  the number of set bits (through the \<open>byte & (byte - 1)\<close> loop), all, any and none, equality of
  two sets, and the first and the next set or reset bit, where \<open>BITSET_NPOS\<close> means that there is
  none; positions out of range fail the assertion of the accessors.\<close>

definition finds :: "bool list \<Rightarrow> bool \<Rightarrow> nat \<Rightarrow> size_t option \<Rightarrow> bool" where
  "finds vs v k r \<longleftrightarrow> (\<exists>i. r = Some i
     \<and> (i < length vs \<and> k \<le> i \<and> vs ! i = v \<and> (\<forall>j. k \<le> j \<and> j < i \<longrightarrow> vs ! j \<noteq> v)
       \<or> i = BITSET_NPOS \<and> (\<forall>j. k \<le> j \<and> j < length vs \<longrightarrow> vs ! j \<noteq> v)))"

lemma finds_first_at:
  assumes "length vs + 7 \<le> SIZE_MAX"
  shows "finds vs v k (Some (first_at vs v [k..<length vs]))"
proof (cases "find (\<lambda>i. vs ! i = v) [k..<length vs]")
  case None
  then have "first_at vs v [k..<length vs] = BITSET_NPOS" "\<forall>j. k \<le> j \<and> j < length vs \<longrightarrow> vs ! j \<noteq> v"
    by (simp add: first_at_def, auto simp: find_None_iff)
  then show ?thesis by (auto simp: finds_def)
next
  case (Some i)
  then have "first_at vs v [k..<length vs] = i" "i < length vs"
    by (simp add: first_at_def, auto simp: find_Some_iff)
  then show ?thesis
    using first_at_iff [of vs v k i] assms by (auto simp: finds_def BITSET_NPOS_def)
qed

theorem bitset_queries:
  assumes vs: "bits_rel bs vs" and us: "bits_rel cs us" and i: "i < length vs" and out: "length vs \<le> j"
  shows "bitset_get (Ptr bs) i = Some (vs ! i) \<and> bitset_get (Ptr bs) j = None \<and> bitset_set (Ptr bs) j v = None
    \<and> bitset_count (Ptr bs) = Some (length (filter id vs))
    \<and> bitset_all (Ptr bs) = Some (False \<notin> set vs) \<and> bitset_any (Ptr bs) = Some (True \<in> set vs)
    \<and> bitset_none (Ptr bs) = Some (True \<notin> set vs) \<and> bitset_equal (Ptr bs) (Ptr cs) = Some (vs = us)
    \<and> finds vs True 0 (bitset_find_first_set (Ptr bs)) \<and> finds vs False 0 (bitset_find_first_reset (Ptr bs))
    \<and> finds vs True (Suc k) (bitset_find_next_set (Ptr bs) k)
    \<and> finds vs False (Suc k) (bitset_find_next_reset (Ptr bs) k)"
proof -
  have n: "length vs + 7 \<le> SIZE_MAX" and bs: "bs = packed vs" "cs = packed us"
    using vs us by (simp_all add: bits_rel_def)
  have "(\<forall>i < length vs. vs ! i) \<longleftrightarrow> False \<notin> set vs" "(\<forall>i < length vs. \<not> vs ! i) \<longleftrightarrow> True \<notin> set vs"
    by (auto simp: in_set_conv_nth)
  then show ?thesis
    using i out unfolding bs
    by (simp add: bitset_get_packed bitset_out_of_range bitset_count_packed [OF n] bitset_all_any_packed [OF n]
        bitset_none_def bitset_equal_packed [OF n] bitset_find_packed [OF n] finds_first_at [OF n])
qed

theorem bitset_queries_witness:
  "bitset_get (Ptr (packed [True, False, True])) 2 = Some ([True, False, True] ! 2)
    \<and> bitset_get (Ptr (packed [True, False, True])) 3 = None
    \<and> bitset_set (Ptr (packed [True, False, True])) 3 True = None
    \<and> bitset_count (Ptr (packed [True, False, True])) = Some (length (filter id [True, False, True]))
    \<and> bitset_all (Ptr (packed [True, False, True])) = Some (False \<notin> set [True, False, True])
    \<and> bitset_any (Ptr (packed [True, False, True])) = Some (True \<in> set [True, False, True])
    \<and> bitset_none (Ptr (packed [True, False, True])) = Some (True \<notin> set [True, False, True])
    \<and> bitset_equal (Ptr (packed [True, False, True])) (Ptr (packed [True])) = Some ([True, False, True] = [True])
    \<and> finds [True, False, True] True 0 (bitset_find_first_set (Ptr (packed [True, False, True])))
    \<and> finds [True, False, True] False 0 (bitset_find_first_reset (Ptr (packed [True, False, True])))
    \<and> finds [True, False, True] True (Suc 0) (bitset_find_next_set (Ptr (packed [True, False, True])) 0)
    \<and> finds [True, False, True] False (Suc 0) (bitset_find_next_reset (Ptr (packed [True, False, True])) 0)"
  by (rule bitset_queries [where cs = "packed [True]"]) (simp_all add: bits_rel_def SIZE_MAX_def)

text \<open>C39: strings. \<open>bitset_to_string\<close> writes the digits from the highest position down and the
  terminator, inside the buffer; \<open>bitset_from_string\<close> accepts exactly the strings of \<open>0\<close> and
  \<open>1\<close> of the right length, leaves the set alone when it refuses, and inverts
  \<open>bitset_to_string\<close> in both directions.\<close>

theorem bitset_strings:
  assumes vs: "bits_rel bs vs" and us: "bits_rel cs us" and len: "length us = length vs"
    and buf: "length vs < n" "n \<le> length (slots buf)"
  shows "\<exists>buf'. bitset_to_string (Ptr bs) buf n = Some buf' \<and> holds buf' (text_of vs @ [CHR 0x00])
    \<and> length (slots buf') = length (slots buf)
    \<and> bitset_from_string (Ptr cs) (Ptr (text_of vs)) = Some (0, Ptr bs)
    \<and> (if length s = length vs \<and> well_formed s
       then \<exists>ds. bitset_from_string (Ptr bs) (Ptr s) = Some (0, Ptr ds) \<and> bits_rel ds (bits_of s) \<and> text_of (bits_of s) = s
       else bitset_from_string (Ptr bs) (Ptr s) = Some (- 1, Ptr bs))"
proof -
  have n: "length vs + 7 \<le> SIZE_MAX" "length us + 7 \<le> SIZE_MAX" and bs: "bs = packed vs" "cs = packed us"
    using vs us by (simp_all add: bits_rel_def)
  obtain buf' where b: "bitset_to_string (Ptr (packed vs)) buf n = Some buf'"
    "holds buf' (text_of vs @ [CHR 0x00])" "length (slots buf') = length (slots buf)"
    using bitset_to_string_packed [OF n(1) buf] by blast
  have "length (text_of vs) = length vs" "well_formed (text_of vs)" "length (bits_of s) = length s"
    by (auto simp: text_of_def well_formed_def digit_def bits_of_def)
  then show ?thesis
    using b len n unfolding bs
    by (simp add: bitset_from_string_packed text_bits bits_text bits_rel_def)
qed

theorem bitset_strings_witness:
  "\<exists>buf'. bitset_to_string (Ptr (packed [True, False])) (Ptr [None, None, None, None]) 3 = Some buf'
    \<and> holds buf' (text_of [True, False] @ [CHR 0x00])
    \<and> length (slots buf') = length (slots (Ptr [None, None, None, None] :: char buf))
    \<and> bitset_from_string (Ptr (packed [True, True])) (Ptr (text_of [True, False])) = Some (0, Ptr (packed [True, False]))
    \<and> (if length ''1x'' = length [True, False] \<and> well_formed ''1x''
       then \<exists>ds. bitset_from_string (Ptr (packed [True, False])) (Ptr ''1x'') = Some (0, Ptr ds)
         \<and> bits_rel ds (bits_of ''1x'') \<and> text_of (bits_of ''1x'') = ''1x''
       else bitset_from_string (Ptr (packed [True, False])) (Ptr ''1x'') = Some (- 1, Ptr (packed [True, False])))"
  by (rule bitset_strings [where us = "[True, True]"]) (simp_all add: bits_rel_def SIZE_MAX_def)

text \<open>\<open>bitset_copy\<close> makes the destination, of whatever size, an exact copy of the source
  or leaves it unchanged and returns \<open>- 1\<close>; \<open>bitset_clone\<close> returns an equal set or
  \<open>NULL\<close>. Both fail only when the allocator does and leak no block.\<close>

theorem bitset_copy_same:
  assumes "bits_rel d us" and "bits_rel s vs"
  shows "\<exists>rc t w1 p w2. bitset_copy False (Ptr d) (Ptr s) w = Some (rc, Ptr t, w1)
    \<and> live w1 - blocks (bs_bits t) = live w - blocks (bs_bits d) \<and> (no_fail w \<longrightarrow> rc = 0)
    \<and> (rc = 0 \<and> t = s \<or> rc = - 1 \<and> t = d)
    \<and> bitset_clone (Ptr s) w = Some (p, w2) \<and> (no_fail w \<longrightarrow> p \<noteq> NULL)
    \<and> (p = NULL \<and> live w2 = live w \<or> p = Ptr s \<and> live (bitset_free p w2) = live w)"
proof -
  have n: "length us + 7 \<le> SIZE_MAX" "length vs + 7 \<le> SIZE_MAX" and bs: "d = packed us" "s = packed vs"
    using assms by (simp_all add: bits_rel_def)
  obtain rc t w1 where "bitset_copy False (Ptr (packed us)) (Ptr (packed vs)) w = Some (rc, Ptr t, w1)"
    "live w1 - blocks (bs_bits t) = live w - blocks (storage (pack us))" "no_fail w \<longrightarrow> rc = 0"
    "rc = 0 \<and> t = packed vs \<or> rc = - 1 \<and> t = packed us"
    using bitset_copy_packed [OF n, of w] by (elim exE conjE) (rule that)
  moreover obtain p w2 where "bitset_clone (Ptr (packed vs)) w = Some (p, w2)" "no_fail w \<longrightarrow> p \<noteq> NULL"
    "p = NULL \<and> live w2 = live w \<or> p = Ptr (packed vs) \<and> live (bitset_free p w2) = live w"
    using bitset_clone_packed [OF n(2), of w] by (elim exE conjE) (rule that)
  ultimately show ?thesis
    unfolding bs by (intro exI [of _ rc] exI [of _ t] exI [of _ w1] exI [of _ p] exI [of _ w2]) simp
qed

theorem bitset_copy_same_witness:
  "\<exists>rc t w1 p w2. bitset_copy False (Ptr (packed [])) (Ptr (packed [True])) (script [False] [] :: unit world) = Some (rc, Ptr t, w1)
    \<and> live w1 - blocks (bs_bits t) = live (script [False] [] :: unit world) - blocks (bs_bits (packed []))
    \<and> (no_fail (script [False] [] :: unit world) \<longrightarrow> rc = 0)
    \<and> (rc = 0 \<and> t = packed [True] \<or> rc = - 1 \<and> t = packed [])
    \<and> bitset_clone (Ptr (packed [True])) (script [False] [] :: unit world) = Some (p, w2)
    \<and> (no_fail (script [False] [] :: unit world) \<longrightarrow> p \<noteq> NULL)
    \<and> (p = NULL \<and> live w2 = live (script [False] [] :: unit world)
       \<or> p = Ptr (packed [True]) \<and> live (bitset_free p w2) = live (script [False] [] :: unit world))"
  by (rule bitset_copy_same [where us = "[]" and vs = "[True]"]) (simp_all add: bits_rel_def SIZE_MAX_def)

text \<open>the byte count of \<open>bitset_num_bytes\<close> wraps for the seven largest sizes:
  \<open>bitset_init\<close> succeeds with such a size and no storage, and the first access to a bit, which
  passes the assertion on the position, is out of bounds.\<close>

lemma bitset_init_wraps:
  assumes "SIZE_MAX < n + 7" and "n \<le> SIZE_MAX" and "pos < n"
  shows "bitset_init (Ptr u) n w = Some (0, Ptr \<lparr>bs_size = n, bs_bits = NULL\<rparr>, w)
    \<and> bitset_get (Ptr \<lparr>bs_size = n, bs_bits = NULL\<rparr>) pos = None
    \<and> bitset_set (Ptr \<lparr>bs_size = n, bs_bits = NULL\<rparr>) pos v = None"
proof -
  let ?r = "n + 8 - (SIZE_MAX + 1)"
  have r: "n + 8 = ?r + (SIZE_MAX + 1)" "1 \<le> ?r" "?r \<le> 7" using assms by simp_all
  have "sz_add n 8 = ?r mod (SIZE_MAX + 1)" unfolding sz_add_def by (subst r(1)) (simp only: mod_add_self2)
  then have "sz_add n 8 = ?r" using r(3) by (simp add: SIZE_MAX_def)
  moreover have "sz_sub ?r 1 = ?r - 1" using r(2,3) by (intro sz_sub_exact) (simp_all add: SIZE_MAX_def)
  ultimately have "bitset_num_bytes n = 0" using r(3) by (simp add: bitset_num_bytes_def)
  then show ?thesis
    using assms(3)
    by (simp add: bitset_init_def bitset_resize_def empty_bitset_def bitset_clear_unused_tail_bits_def free_ptr_def
        bitset_get_def bitset_set_def update_bit_def update_byte_def buf_get_def)
qed

end
