(* ===== verification/Cstring.thy ===== *)
theory Cstring
  imports Prelude "HOL-Library.Word"
begin

text \<open>
  Strings and byte regions, as \<open>radixmap.c\<close>, \<open>sds.c\<close> and the keyed containers use them. A string is
  the list of its characters before the terminator; a region of memory that an argument points to is
  the list of its bytes; a block that the program fills is a list of slots, some of them not written yet.
\<close>

section \<open>Strings\<close>

type_synonym bytes = "8 word list"

definition char_at :: "bytes \<Rightarrow> nat \<Rightarrow> 8 word option" where
  "char_at s i = (if i < length s then Some (s ! i) else if i = length s then Some 0 else None)"

definition strlen :: "bytes \<Rightarrow> nat" where
  "strlen s = length (takeWhile (\<lambda>c. c \<noteq> 0) s)"

text \<open>\<open>strchr\<close> also finds the terminator.\<close>

definition strchr :: "bytes \<Rightarrow> 8 word \<Rightarrow> bool" where
  "strchr s c \<longleftrightarrow> c = 0 \<or> c \<in> set (takeWhile (\<lambda>c. c \<noteq> 0) s)"

lemma char_at_0 [simp]: "char_at [] 0 = Some 0" "k \<noteq> [] \<Longrightarrow> char_at k 0 = Some (hd k)"
  by (simp_all add: char_at_def hd_conv_nth)

lemma strlen_ok: "0 \<notin> set k \<Longrightarrow> strlen k = length k"
proof -
  assume "0 \<notin> set k"
  then have "takeWhile (\<lambda>c. c \<noteq> 0) k = k" by (intro takeWhile_eq_all_conv [THEN iffD2]) auto
  then show ?thesis unfolding strlen_def by (rule arg_cong)
qed

lemma strlen_le: "strlen k \<le> length k"
  by (simp add: strlen_def length_takeWhile_le)

section \<open>Regions\<close>

text \<open>Reading the first \<open>n\<close> bytes of a region, and comparing two regions as \<open>memcmp\<close> does. Only
  the sign of the result of \<open>memcmp\<close> is specified; it is that of the first difference.\<close>

definition region_read :: "bytes \<Rightarrow> size_t \<Rightarrow> bytes option" where
  "region_read t n = (if n \<le> length t then Some (take n t) else None)"

fun memcmp :: "bytes \<Rightarrow> bytes \<Rightarrow> int" where
  "memcmp (x # xs) (y # ys) = (if x < y then - 1 else if y < x then 1 else memcmp xs ys)"
| "memcmp _ _ = 0"

lemma region_read_ok [simp]: "n \<le> length t \<Longrightarrow> region_read t n = Some (take n t)"
  by (simp add: region_read_def)

lemma memcmp_eq: "length xs = length ys \<Longrightarrow> memcmp xs ys = 0 \<longleftrightarrow> xs = ys"
  by (induction xs ys rule: memcmp.induct) auto

section \<open>Blocks of slots\<close>

definition mem_read :: "'a option list \<Rightarrow> nat \<Rightarrow> size_t \<Rightarrow> 'a list option" where
  "mem_read b i n = (if i + n \<le> length b \<and> None \<notin> set (take n (drop i b)) then Some (map the (take n (drop i b))) else None)"

definition mem_write :: "'a option list \<Rightarrow> nat \<Rightarrow> 'a list \<Rightarrow> 'a option list option" where
  "mem_write b i xs = (if i + length xs \<le> length b then Some (take i b @ map Some xs @ drop (i + length xs) b) else None)"

lemma mem_write_length: "mem_write b i xs = Some c \<Longrightarrow> length c = length b"
  by (auto simp: mem_write_def split: if_splits)

text \<open>The beginning of a block, up to which it has been written.\<close>

definition starts :: "'a option list \<Rightarrow> 'a list \<Rightarrow> bool" where
  "starts b xs \<longleftrightarrow> (\<exists>rest. b = map Some xs @ rest)"

lemma starts_Nil [simp]: "starts b []"
  by (simp add: starts_def)

lemma starts_length: "starts b xs \<Longrightarrow> length xs \<le> length b"
  by (auto simp: starts_def)

lemma starts_prefix: "starts b (xs @ ys) \<Longrightarrow> starts b xs"
  by (auto simp: starts_def)

lemma starts_append: "starts b xs \<Longrightarrow> starts (b @ c) xs"
  by (auto simp: starts_def)

lemma starts_take: "starts b xs \<Longrightarrow> length xs \<le> n \<Longrightarrow> starts (take n b) xs"
  by (auto simp: starts_def)

lemma starts_read:
  assumes "starts b (xs @ ys @ zs)"
  shows "mem_read b (length xs) (length ys) = Some ys"
  using assms by (auto simp: starts_def mem_read_def)

lemma starts_read0: "starts b ys \<Longrightarrow> mem_read b 0 (length ys) = Some ys"
  using starts_read [of b "[]" ys "[]"] by simp

lemma starts_write:
  assumes "starts b xs" and "length xs + length ys \<le> length b"
  shows "\<exists>c. mem_write b (length xs) ys = Some c \<and> starts c (xs @ ys) \<and> length c = length b"
proof -
  from assms(1) obtain rest where b: "b = map Some xs @ rest" by (auto simp: starts_def)
  let ?c = "map Some (xs @ ys) @ drop (length ys) rest"
  have "mem_write b (length xs) ys = Some ?c" using assms(2) by (simp add: b mem_write_def)
  moreover have "starts ?c (xs @ ys)" unfolding starts_def by blast
  moreover have "length ?c = length b" using assms(2) by (simp add: b)
  ultimately show ?thesis by blast
qed

lemma starts_write0: "length ys \<le> length b \<Longrightarrow> \<exists>c. mem_write b 0 ys = Some c \<and> starts c ys \<and> length c = length b"
  using starts_write [of b "[]" ys] by simp

end
