(* ===== verification/Maps.thy ===== *)
theory Maps
  imports Machine Cstring
begin

text \<open>
  What the keyed containers share: keys in memory and who owns them (\<open>hashmap.c\<close> and
  \<open>treemap.c\<close> have the same code for it), the abstract machine of a map, and the interface
  through which the set wrappers (\<open>hashset.c\<close>, \<open>treeset.c\<close>, \<open>radix.c\<close>) use a map.
\<close>

section \<open>Keys\<close>

text \<open>
  The contents of a memory cell that holds a key: the bytes of a scalar, or a \<open>char *\<close> that is
  \<open>NULL\<close> or points to a string, given as its characters before the terminator. Reading a cell
  of the other kind is a fault.
\<close>

datatype cell = Bytes bytes | Str "bytes ptr"

definition KEY_SCALAR :: int where "KEY_SCALAR = 0"
definition KEY_CSTR :: int where "KEY_CSTR = 1"

lemma key_kinds [simp]: "KEY_SCALAR \<noteq> KEY_CSTR" "KEY_CSTR \<noteq> KEY_SCALAR"
  by (simp_all add: KEY_SCALAR_def KEY_CSTR_def)

definition key_is_valid :: "int \<Rightarrow> cell ptr \<Rightarrow> bool option" where
  "key_is_valid kind key = (case key of NULL \<Rightarrow> Some False | Ptr c \<Rightarrow>
     if kind = KEY_CSTR then (case c of Str s \<Rightarrow> Some (s \<noteq> NULL) | Bytes _ \<Rightarrow> None)
     else Some True)"

text \<open>The result holds the copied cell, or \<open>None\<close> when the copy of the string failed.\<close>

definition copy_key ::
    "int \<Rightarrow> size_t \<Rightarrow> cell \<Rightarrow> ('a, 'b) world_scheme \<Rightarrow> (cell option \<times> ('a, 'b) world_scheme) option" where
  "copy_key kind key_size src w =
     (if kind = KEY_CSTR then
        (case src of Str (Ptr s) \<Rightarrow>
           (let (ok, w1) = malloc (sz_add (length s) 1) w in
            Some (if ok then Some (Str (Ptr s)) else None, w1))
         | _ \<Rightarrow> None)
      else (case src of Bytes b \<Rightarrow> if length b = key_size then Some (Some (Bytes b), w) else None
            | Str _ \<Rightarrow> None))"

definition destroy_key :: "int \<Rightarrow> cell \<Rightarrow> ('a, 'b) world_scheme \<Rightarrow> ('a, 'b) world_scheme option" where
  "destroy_key kind c w =
     (if kind = KEY_CSTR then (case c of Str s \<Rightarrow> Some (free_ptr s w) | Bytes _ \<Rightarrow> None) else Some w)"

text \<open>A cell that is a key of the given kind and size. Strings are objects of the program.\<close>

definition key_ok :: "int \<Rightarrow> size_t \<Rightarrow> cell \<Rightarrow> bool" where
  "key_ok kind key_size c \<longleftrightarrow>
     (if kind = KEY_CSTR then (case c of Str (Ptr s) \<Rightarrow> length s < PTRDIFF_MAX | _ \<Rightarrow> False)
      else (case c of Bytes b \<Rightarrow> length b = key_size | Str _ \<Rightarrow> False))"

text \<open>The blocks that a stored key owns.\<close>

definition key_blocks :: "int \<Rightarrow> int" where
  "key_blocks kind = (if kind = KEY_CSTR then 1 else 0)"

lemma key_okE:
  assumes "key_ok kind n c"
  obtains s where "kind = KEY_CSTR" "c = Str (Ptr s)" "length s < PTRDIFF_MAX"
  | b where "kind \<noteq> KEY_CSTR" "c = Bytes b" "length b = n"
  using assms by (auto simp: key_ok_def split: if_splits cell.splits ptr.splits)

lemma key_ok_valid: "key_ok kind n c \<Longrightarrow> key_is_valid kind (Ptr c) = Some True"
  by (erule key_okE) (simp_all add: key_is_valid_def)

lemma key_is_valid_NULL [simp]: "key_is_valid kind NULL = Some False"
  by (simp add: key_is_valid_def)

lemma copy_key_ok:
  assumes "key_ok kind n c"
  shows "\<exists>r w'. copy_key kind n c w = Some (r, w') \<and> destroyed w' = destroyed w \<and> copies w' = copies w
    \<and> (no_fail w \<longrightarrow> no_fail w' \<and> r = Some c)
    \<and> (r = Some c \<and> live w' = live w + key_blocks kind \<or> r = None \<and> live w' = live w)"
  using assms
proof (cases rule: key_okE)
  case (1 s)
  obtain ok w1 where m: "malloc (sz_add (length s) 1) w = (ok, w1)" by fastforce
  have "sz_add (length s) 1 \<le> PTRDIFF_MAX" using 1(3) SIZE_MAX_PTRDIFF_MAX by simp
  then show ?thesis
    using malloc_effect(1,2,3,5,6) [OF m] m 1 by (cases ok) (auto simp: copy_key_def key_blocks_def)
next
  case (2 b)
  then show ?thesis by (simp add: copy_key_def key_blocks_def)
qed

lemma destroy_key_ok:
  assumes "key_ok kind n c"
  shows "\<exists>w'. destroy_key kind c w = Some w' \<and> destroyed w' = destroyed w \<and> copies w' = copies w
    \<and> no_fail w' = no_fail w \<and> live w' = live w - key_blocks kind"
  using assms by (cases rule: key_okE) (auto simp: destroy_key_def key_blocks_def free_ptr_def no_fail_def)

section \<open>The machine of a map\<close>

datatype ('k, 'v) map_op = Put 'k 'v | Remove 'k | Wipe | Reserve nat

definition range_mset :: "('k \<rightharpoonup> 'v) \<Rightarrow> 'v multiset" where
  "range_mset M = image_mset (\<lambda>k. the (M k)) (mset_set (dom M))"

definition map_spec ::
    "('v \<Rightarrow> 'v) option \<Rightarrow> ('k, 'v) map_op \<Rightarrow> ('k \<rightharpoonup> 'v) \<Rightarrow> int \<Rightarrow> ('k \<rightharpoonup> 'v) \<Rightarrow> 'v list \<Rightarrow> bool" where
  "map_spec f op M rc M' ds \<longleftrightarrow> finite (dom M) \<and> rc = 0 \<and> (case op of
       Put k v \<Rightarrow> M' = M(k \<mapsto> copied f v) \<and> ds = (case M k of None \<Rightarrow> [] | Some u \<Rightarrow> [u])
     | Remove k \<Rightarrow> M' = M(k := None) \<and> M k = Some (hd ds) \<and> length ds = 1
     | Wipe \<Rightarrow> M' = Map.empty \<and> mset ds = range_mset M
     | Reserve n \<Rightarrow> M' = M \<and> ds = [])"

definition map_stores :: "('v \<Rightarrow> 'v) option \<Rightarrow> ('k, 'v) map_op \<Rightarrow> 'v multiset" where
  "map_stores f op = (case op of Put k v \<Rightarrow> {#copied f v#} | _ \<Rightarrow> {#})"

text \<open>The exact behaviour of a map whose allocator and callbacks do not fail.\<close>

fun map_ideal :: "('v \<Rightarrow> 'v) option \<Rightarrow> ('k, 'v) map_op \<Rightarrow> ('k \<rightharpoonup> 'v) \<Rightarrow> int \<times> ('k \<rightharpoonup> 'v)" where
  "map_ideal f (Put k v) M = (0, M(k \<mapsto> copied f v))"
| "map_ideal f (Remove k) M = (if M k = None then - 1 else 0, M(k := None))"
| "map_ideal f Wipe M = (0, Map.empty)"
| "map_ideal f (Reserve n) M = (0, M)"

fun ideal_run :: "('v \<Rightarrow> 'v) option \<Rightarrow> ('k, 'v) map_op list \<Rightarrow> ('k \<rightharpoonup> 'v) \<Rightarrow> int list \<times> ('k \<rightharpoonup> 'v)" where
  "ideal_run f [] M = ([], M)"
| "ideal_run f (op # ops) M =
     (let (rc, M1) = map_ideal f op M; (rcs, M2) = ideal_run f ops M1 in (rc # rcs, M2))"

lemma range_mset_empty [simp]: "range_mset Map.empty = {#}"
  by (simp add: range_mset_def)

lemma range_mset_new:
  assumes "finite (dom M)" and "M k = None"
  shows "range_mset (M(k \<mapsto> v)) = add_mset v (range_mset M)"
proof -
  have "k \<notin> dom M" using assms(2) by auto
  moreover have "image_mset (\<lambda>j. the ((M(k \<mapsto> v)) j)) (mset_set (dom M)) = image_mset (\<lambda>j. the (M j)) (mset_set (dom M))"
    by (rule image_mset_cong) (use assms in auto)
  ultimately show ?thesis using assms(1) by (simp add: range_mset_def)
qed

lemma range_mset_drop:
  assumes "finite (dom M)" and "M k = Some u"
  shows "range_mset M = add_mset u (range_mset (M(k := None)))"
proof -
  have "range_mset ((M(k := None))(k \<mapsto> u)) = add_mset u (range_mset (M(k := None)))"
    by (rule range_mset_new) (use assms in auto)
  moreover have "(M(k := None))(k \<mapsto> u) = M" using assms(2) by auto
  ultimately show ?thesis by simp
qed

lemma map_spec_conserves:
  assumes "map_spec f op M rc M' ds"
  shows "range_mset M + (if rc = 0 then map_stores f op else {#}) = range_mset M' + mset ds"
proof (cases op)
  case (Put k v)
  show ?thesis
  proof (cases "M k")
    case None
    then show ?thesis using assms Put by (simp add: map_spec_def map_stores_def range_mset_new)
  next
    case (Some u)
    have "range_mset ((M(k := None))(k \<mapsto> copied f v)) = add_mset (copied f v) (range_mset (M(k := None)))"
      by (rule range_mset_new) (use assms in \<open>auto simp: map_spec_def\<close>)
    then show ?thesis
      using assms Put Some range_mset_drop [of M k u] by (simp add: map_spec_def map_stores_def)
  qed
next
  case (Remove k)
  then obtain u where "ds = [u]" "M k = Some u"
    using assms by (cases ds) (auto simp: map_spec_def)
  then show ?thesis
    using assms Remove range_mset_drop [of M k u] by (simp add: map_spec_def map_stores_def)
qed (use assms in \<open>auto simp: map_spec_def map_stores_def\<close>)

lemma map_spec_finite: "map_spec f op M rc M' ds \<Longrightarrow> finite (dom M')"
  by (cases op) (auto simp: map_spec_def)

lemma range_mset_map_of:
  assumes "distinct (map fst kvs)"
  shows "range_mset (map_of kvs) = mset (map snd kvs)"
  using assms
proof (induction kvs)
  case (Cons kv kvs)
  then have "map_of kvs (fst kv) = None" by (simp add: map_of_eq_None_iff)
  then have "range_mset ((map_of kvs)(fst kv \<mapsto> snd kv)) = add_mset (snd kv) (range_mset (map_of kvs))"
    by (intro range_mset_new) (simp_all add: finite_dom_map_of)
  moreover have "map_of (kv # kvs) = (map_of kvs)(fst kv \<mapsto> snd kv)" by (cases kv) (auto simp: fun_eq_iff)
  ultimately have "range_mset (map_of (kv # kvs)) = add_mset (snd kv) (range_mset (map_of kvs))"
    by (simp only:)
  then show ?case by (rule trans) (use Cons in simp)
qed simp

section \<open>Sets that wrap a map\<close>

datatype 'k set_op = Add 'k | Drop 'k | Empty | Room nat

text \<open>A set is a map that gives every member the byte 1.\<close>

fun as_map_op :: "'k set_op \<Rightarrow> ('k, 8 word) map_op" where
  "as_map_op (Add k) = Put k 1"
| "as_map_op (Drop k) = Remove k"
| "as_map_op Empty = Wipe"
| "as_map_op (Room n) = Reserve n"

definition set_spec :: "'k set_op \<Rightarrow> 'k set \<Rightarrow> int \<Rightarrow> 'k set \<Rightarrow> 8 word list \<Rightarrow> bool" where
  "set_spec op S rc S' ds \<longleftrightarrow> rc = 0 \<and> ds = [] \<and> (case op of
       Add k \<Rightarrow> S' = insert k S
     | Drop k \<Rightarrow> k \<in> S \<and> S' = S - {k}
     | Empty \<Rightarrow> S' = {}
     | Room n \<Rightarrow> S' = S)"

lemma map_spec_set:
  assumes "map_spec f (as_map_op op) M rc M' ds"
  shows "set_spec op (dom M) rc (dom M') []"
  using assms by (cases op) (auto simp: map_spec_def set_spec_def dom_def)

text \<open>
  The interface: any map machine without callbacks, and set operations that call it on the map
  inside the set. The set machine and all facts about its histories follow.
\<close>

locale set_wrapper = map: spec_machine exec "\<lambda>c. map_spec (cc c)" legal rel conf logs own range_mset "\<lambda>c. map_stores (cc c)"
  for exec :: "('k, 8 word) map_op \<Rightarrow> 'c \<Rightarrow> (8 word, 'b) world_scheme \<Rightarrow> (int \<times> 'c \<times> (8 word, 'b) world_scheme) option"
    and cc :: "'conf \<Rightarrow> (8 word \<Rightarrow> 8 word) option"
    and legal :: "'conf \<Rightarrow> ('k, 8 word) map_op \<Rightarrow> bool"
    and rel :: "'c \<Rightarrow> (8 word, 'b) world_scheme \<Rightarrow> ('k \<rightharpoonup> 8 word) \<Rightarrow> bool"
    and conf :: "'c \<Rightarrow> 'conf"
    and logs :: "'conf \<Rightarrow> bool"
    and own :: "'c \<Rightarrow> (8 word, 'b) world_scheme \<Rightarrow> int" +
  fixes set_exec :: "'k set_op \<Rightarrow> 's \<Rightarrow> (8 word, 'b) world_scheme \<Rightarrow> (int \<times> 's \<times> (8 word, 'b) world_scheme) option"
    and inner :: "'s \<Rightarrow> 'c"
    and outer :: "'c \<Rightarrow> 's"
  assumes set_exec_law: "set_exec op s w = map_option (\<lambda>(rc, c, w'). (rc, outer c, w')) (exec (as_map_op op) (inner s) w)"
    and inner_outer: "inner (outer c) = c"
begin

definition set_rel :: "'s \<Rightarrow> (8 word, 'b) world_scheme \<Rightarrow> 'k set \<Rightarrow> bool" where
  "set_rel s w S \<longleftrightarrow> \<not> logs (conf (inner s)) \<and> (\<exists>M. rel (inner s) w M \<and> dom M = S)"

lemma set_step:
  assumes "set_rel s w S" and "legal (conf (inner s)) (as_map_op op)"
  shows "\<exists>rc s' w'. set_exec op s w = Some (rc, s', w') \<and> conf (inner s') = conf (inner s)
    \<and> live w' - own (inner s') w' = live w - own (inner s) w
    \<and> ((\<exists>S' ds. set_spec op S rc S' ds \<and> set_rel s' w' S' \<and> destroyed w' = destroyed w @ log_if False ds)
       \<or> rc = - 1 \<and> set_rel s' w' S \<and> destroyed w' = destroyed w)"
proof -
  obtain M where M: "rel (inner s) w M" "dom M = S" and nl: "\<not> logs (conf (inner s))"
    using assms(1) by (auto simp: set_rel_def)
  from map.exec_law [OF M(1) assms(2)] obtain rc c w' where
    e: "exec (as_map_op op) (inner s) w = Some (rc, c, w')" "conf c = conf (inner s)"
    "live w' - own c w' = live w - own (inner s) w"
    and res: "(\<exists>M' ds. map_spec (cc (conf (inner s))) (as_map_op op) M rc M' ds \<and> rel c w' M'
         \<and> destroyed w' = destroyed w @ log_if (logs (conf (inner s))) ds)
       \<or> rc = - 1 \<and> rel c w' M \<and> destroyed w' = destroyed w"
    by (elim exE conjE) (rule that)
  have run: "set_exec op s w = Some (rc, outer c, w')" using e(1) by (simp add: set_exec_law)
  have "(\<exists>S' ds. set_spec op S rc S' ds \<and> set_rel (outer c) w' S' \<and> destroyed w' = destroyed w @ log_if False ds)
       \<or> rc = - 1 \<and> set_rel (outer c) w' S \<and> destroyed w' = destroyed w"
    using res
  proof
    assume "\<exists>M' ds. map_spec (cc (conf (inner s))) (as_map_op op) M rc M' ds \<and> rel c w' M'
         \<and> destroyed w' = destroyed w @ log_if (logs (conf (inner s))) ds"
    then obtain M' ds where M': "map_spec (cc (conf (inner s))) (as_map_op op) M rc M' ds" "rel c w' M'"
      "destroyed w' = destroyed w @ log_if (logs (conf (inner s))) ds"
      by (elim exE conjE) (rule that)
    have "set_rel (outer c) w' (dom M')" using M'(2) nl e(2) by (auto simp: set_rel_def inner_outer)
    then show ?thesis using map_spec_set [OF M'(1)] M'(3) nl M(2) by auto
  next
    assume "rc = - 1 \<and> rel c w' M \<and> destroyed w' = destroyed w"
    then show ?thesis using nl e(2) M(2) by (auto simp: set_rel_def inner_outer)
  qed
  then show ?thesis using run e(2,3) by (intro exI [of _ rc] exI [of _ "outer c"] exI [of _ w']) (simp add: inner_outer)
qed

sublocale sets: spec_machine set_exec "\<lambda>c. set_spec" "\<lambda>c op. legal c (as_map_op op)" set_rel "\<lambda>s. conf (inner s)"
  "\<lambda>c. False" "\<lambda>s w. own (inner s) w" "\<lambda>S. {#}" "\<lambda>c op. {#}"
  by unfold_locales (rule set_step, assumption+, simp add: set_spec_def)

end

end
