(* ===== verification/Probe.thy ===== *)
theory Probe
  imports Prelude
begin

text \<open>
  Open addressing with linear probing and tombstones, on the level of a list of slots: what the
  slots of a hash table mean, when a table is consistent with a hash function, where a probe
  sequence stops, and how the operations of the table keep it consistent. \<open>Hashmap\<close> connects the
  byte arrays of \<open>src/hashmap.c\<close> to these lists.
\<close>

section \<open>Slots and entries\<close>

datatype ('k, 'v) slot = Free | Dead | Full 'k 'v

fun entries :: "('k, 'v) slot list \<Rightarrow> ('k \<times> 'v) list" where
  "entries [] = []"
| "entries (Full k v # ts) = (k, v) # entries ts"
| "entries (_ # ts) = entries ts"

definition is_full :: "('k, 'v) slot \<Rightarrow> bool" where
  "is_full s \<longleftrightarrow> (\<exists>k v. s = Full k v)"

definition content :: "('k, 'v) slot list \<Rightarrow> 'k \<rightharpoonup> 'v" where
  "content ts = map_of (entries ts)"

definition dead :: "('k, 'v) slot list \<Rightarrow> nat" where
  "dead ts = length (filter (\<lambda>s. s = Dead) ts)"

lemma is_full_simps [simp]: "is_full (Full k v)" "\<not> is_full Free" "\<not> is_full Dead"
  by (simp_all add: is_full_def)

lemma entries_append [simp]: "entries (ts @ us) = entries ts @ entries us"
  by (induction ts rule: entries.induct) simp_all

lemma in_entries [simp]: "(k, v) \<in> set (entries ts) \<longleftrightarrow> Full k v \<in> set ts"
  by (induction ts rule: entries.induct) auto

lemma key_in_entries: "k \<in> fst ` set (entries ts) \<longleftrightarrow> (\<exists>v. Full k v \<in> set ts)"
proof -
  have "k \<in> fst ` set (entries ts) \<longleftrightarrow> (\<exists>v. (k, v) \<in> set (entries ts))"
    by (simp add: Domain_fst [symmetric] Domain_iff)
  then show ?thesis by simp
qed

lemma entries_replicate_Free [simp]: "entries (replicate n Free) = []"
  by (induction n) simp_all

lemma dead_replicate_Free [simp]: "dead (replicate n Free) = 0"
  by (simp add: dead_def)

lemma entries_length: "length (entries ts) + dead ts \<le> length ts"
  by (induction ts rule: entries.induct) (simp_all add: dead_def)

lemma free_exists: "length (entries ts) + dead ts < length ts \<Longrightarrow> Free \<in> set ts"
  by (induction ts rule: entries.induct) (simp_all add: dead_def)

text \<open>The slots before and behind one of them.\<close>

lemma entries_split:
  assumes "i < length ts"
  shows "entries ts = entries (take i ts) @ entries [ts ! i] @ entries (drop (Suc i) ts)"
    "entries (ts[i := s]) = entries (take i ts) @ entries [s] @ entries (drop (Suc i) ts)"
proof -
  have "ts = take i ts @ [ts ! i] @ drop (Suc i) ts" using assms by (simp add: Cons_nth_drop_Suc)
  then show "entries ts = entries (take i ts) @ entries [ts ! i] @ entries (drop (Suc i) ts)"
    by (metis entries_append)
  show "entries (ts[i := s]) = entries (take i ts) @ entries [s] @ entries (drop (Suc i) ts)"
    using assms entries_append [of "[s]" "drop (Suc i) ts"] by (simp add: upd_conv_take_nth_drop)
qed

lemma dead_update: "i < length ts \<Longrightarrow>
    dead (ts[i := s]) + of_bool (ts ! i = Dead) = dead ts + of_bool (s = Dead)"
proof (induction ts arbitrary: i)
  case (Cons t ts)
  then show ?case by (cases i) (auto simp: dead_def split: if_splits)
qed simp

text \<open>The load factor: a table that is at most three quarters full has a free slot.\<close>

lemma load_factor: "4 * (n + m) \<le> 3 * c \<Longrightarrow> 0 < c \<Longrightarrow> n + m < c" for n m c :: nat
  by presburger

section \<open>Consistent tables\<close>

text \<open>The slot after \<open>d\<close> steps of the probe sequence that starts at \<open>h\<close>.\<close>

definition step_slot :: "'s list \<Rightarrow> nat \<Rightarrow> nat \<Rightarrow> nat" where
  "step_slot ts h d = (h + d) mod length ts"

definition reach :: "('k, 'v) slot list \<Rightarrow> nat \<Rightarrow> nat \<Rightarrow> bool" where
  "reach ts h i \<longleftrightarrow> (\<exists>d < length ts. step_slot ts h d = i \<and> (\<forall>c < d. ts ! step_slot ts h c \<noteq> Free))"

definition table_ok :: "('k \<Rightarrow> nat) \<Rightarrow> ('k, 'v) slot list \<Rightarrow> bool" where
  "table_ok H ts \<longleftrightarrow> distinct (map fst (entries ts))
     \<and> (\<forall>i < length ts. \<forall>k v. ts ! i = Full k v \<longrightarrow> reach ts (H k) i)"

lemma step_slot_less [simp]: "0 < length ts \<Longrightarrow> step_slot ts h d < length ts"
  by (simp add: step_slot_def)

lemma step_slot_update [simp]: "step_slot (ts[i := s]) h d = step_slot ts h d"
  by (simp add: step_slot_def)

lemma step_slot_next: "0 < length ts \<Longrightarrow> (step_slot ts h d + 1) mod length ts = step_slot ts h (Suc d)"
  by (simp add: step_slot_def mod_simps)

lemma step_slot_0: "step_slot ts h 0 = h mod length ts"
  by (simp add: step_slot_def)

text \<open>Every slot lies on every probe sequence.\<close>

lemma step_slot_onto:
  assumes "i < length ts"
  shows "\<exists>d < length ts. step_slot ts h d = i"
proof -
  let ?n = "length ts" and ?r = "h mod length ts"
  have r: "?r < ?n" using assms by (intro mod_less_divisor) auto
  show ?thesis
  proof (cases "?r \<le> i")
    case True
    have "(h + (i - ?r)) mod ?n = (?r + (i - ?r)) mod ?n" by (simp add: mod_simps)
    then have "step_slot ts h (i - ?r) = i" using True assms by (simp add: step_slot_def)
    then show ?thesis using assms by (intro exI [of _ "i - ?r"]) simp
  next
    case False
    have "(h + (?n - ?r + i)) mod ?n = (?r + (?n - ?r + i)) mod ?n" by (simp add: mod_simps)
    also have "?r + (?n - ?r + i) = i + ?n" using r by simp
    finally have "step_slot ts h (?n - ?r + i) = i" using assms by (simp add: step_slot_def)
    moreover have "?n - ?r + i < ?n" using False r by simp
    ultimately show ?thesis by blast
  qed
qed

lemma content_iff:
  assumes "table_ok H ts"
  shows "content ts k = Some v \<longleftrightarrow> Full k v \<in> set ts"
  using assms map_of_eq_Some_iff [of "entries ts" k v] by (simp add: table_ok_def content_def)

lemma content_None_iff: "content ts k = None \<longleftrightarrow> (\<forall>v. Full k v \<notin> set ts)"
  using key_in_entries [of k ts] by (simp add: content_def map_of_eq_None_iff)

lemma content_replicate_Free [simp]: "content (replicate n Free) = Map.empty"
  by (simp add: content_def)

lemma dom_content: "dom (content ts) = fst ` set (entries ts)" and finite_content: "finite (dom (content ts))"
  by (simp_all add: content_def dom_map_of_conv_image_fst)

lemma card_content: "table_ok H ts \<Longrightarrow> card (dom (content ts)) = length (entries ts)"
  using distinct_card [of "map fst (entries ts)"] by (simp add: table_ok_def dom_content)

lemma table_ok_empty: "table_ok H (replicate n Free)"
  by (simp add: table_ok_def)

text \<open>A slot that is not free hides nothing when it changes to another that is not free.\<close>

lemma reach_update:
  assumes "reach ts h j" and "i < length ts" and "s \<noteq> Free \<or> ts ! i = Free"
  shows "reach (ts[i := s]) h j"
proof -
  obtain d where d: "d < length ts" "step_slot ts h d = j" "\<forall>c < d. ts ! step_slot ts h c \<noteq> Free"
    using assms(1) by (auto simp: reach_def)
  have "ts[i := s] ! step_slot ts h c \<noteq> Free" if "c < d" for c
    using d(3) that assms(2,3) by (cases "step_slot ts h c = i") auto
  then show ?thesis using d by (auto simp: reach_def)
qed

lemma unique_index:
  assumes "distinct (map fst (entries ts))" and "i < length ts" "j < length ts"
    and "ts ! i = Full k v" "ts ! j = Full k u"
  shows "i = j"
  using assms
proof (induction ts arbitrary: i j)
  case (Cons t ts)
  have dist: "distinct (map fst (entries ts))" using Cons.prems(1) by (cases t) simp_all
  have hd: False if "t = Full k x" "m < length ts" "ts ! m = Full k y" for m x y
    using Cons.prems(1) that nth_mem [OF that(2)] key_in_entries [of k ts] by (auto simp: image_iff)
  show ?case
  proof (cases i)
    case 0
    then show ?thesis using Cons.prems hd by (cases j) auto
  next
    case i: (Suc i')
    then show ?thesis using Cons.prems hd Cons.IH [OF dist] by (cases j) auto
  qed
qed simp

lemma stored_index:
  assumes "table_ok H ts" and "i < length ts" "ts ! i = Full k v" and "Full k u \<in> set ts"
  shows "u = v"
  using assms unique_index [of ts i _ k v u] by (auto simp: table_ok_def in_set_conv_nth)

section \<open>Where a search stops\<close>

text \<open>\<open>stops ts k h d\<close>: after \<open>d\<close> steps a search for \<open>k\<close> reaches a free slot or the entry of
  \<open>k\<close>, for the first time.\<close>

definition ends :: "'k \<Rightarrow> ('k, 'v) slot \<Rightarrow> bool" where
  "ends k s \<longleftrightarrow> s = Free \<or> (\<exists>v. s = Full k v)"

definition stops :: "('k, 'v) slot list \<Rightarrow> 'k \<Rightarrow> nat \<Rightarrow> nat \<Rightarrow> bool" where
  "stops ts k h d \<longleftrightarrow> d < length ts \<and> ends k (ts ! step_slot ts h d) \<and> (\<forall>c < d. \<not> ends k (ts ! step_slot ts h c))"

lemma stops_exists:
  assumes "Free \<in> set ts"
  shows "\<exists>d. stops ts k h d"
proof -
  obtain i where i: "i < length ts" "ts ! i = Free" using assms by (auto simp: in_set_conv_nth)
  then obtain d where "d < length ts" "step_slot ts h d = i" using step_slot_onto by blast
  then have d: "d < length ts \<and> ends k (ts ! step_slot ts h d)" using i by (simp add: ends_def)
  define e where "e = (LEAST d. d < length ts \<and> ends k (ts ! step_slot ts h d))"
  have e: "e < length ts \<and> ends k (ts ! step_slot ts h e)"
    unfolding e_def by (rule LeastI [of _ d]) (rule d)
  moreover have "\<not> ends k (ts ! step_slot ts h c)" if "c < e" for c
    using that e not_less_Least [of c "\<lambda>d. d < length ts \<and> ends k (ts ! step_slot ts h d)"]
    by (auto simp: e_def)
  ultimately show ?thesis by (auto simp: stops_def)
qed

text \<open>In a consistent table the search for a stored key stops at its entry.\<close>

lemma stops_stored:
  assumes ok: "table_ok H ts" and st: "stops ts k (H k) d" and "content ts k = Some v"
  shows "ts ! step_slot ts (H k) d = Full k v"
proof -
  obtain i where i: "i < length ts" "ts ! i = Full k v"
    using assms(3) content_iff [OF ok] by (auto simp: in_set_conv_nth)
  then have "reach ts (H k) i" using ok by (auto simp: table_ok_def)
  then obtain e where e: "e < length ts" "step_slot ts (H k) e = i" "\<forall>c < e. ts ! step_slot ts (H k) c \<noteq> Free"
    by (auto simp: reach_def)
  have "ends k (ts ! step_slot ts (H k) e)" using e(2) i(2) by (simp add: ends_def)
  then have "d \<le> e" using st by (auto simp: stops_def not_less [symmetric])
  have "ts ! step_slot ts (H k) d \<noteq> Free"
  proof (cases "d = e")
    case True
    then show ?thesis using e(2) i(2) by simp
  next
    case False
    then show ?thesis using e(3) \<open>d \<le> e\<close> by simp
  qed
  then obtain u where u: "ts ! step_slot ts (H k) d = Full k u" using st by (auto simp: stops_def ends_def)
  have "step_slot ts (H k) d < length ts" using st by (intro step_slot_less) (auto simp: stops_def)
  with u have "Full k u \<in> set ts" by (metis nth_mem)
  then show ?thesis using stored_index [OF ok i] u by simp
qed

lemma stops_missing:
  assumes "stops ts k h d" and "content ts k = None"
  shows "ts ! step_slot ts h d = Free"
proof -
  have "step_slot ts h d < length ts" using assms(1) by (intro step_slot_less) (auto simp: stops_def)
  then have "ts ! step_slot ts h d \<in> set ts" by (rule nth_mem)
  then show ?thesis using assms by (auto simp: stops_def ends_def content_None_iff)
qed

text \<open>Up to where a search stops, no slot is free.\<close>

lemma stops_reach: "stops ts k h d \<Longrightarrow> c \<le> d \<Longrightarrow> reach ts h (step_slot ts h c)"
  by (auto simp: stops_def reach_def ends_def intro!: exI [of _ c])

section \<open>The operations of a table\<close>

lemma table_insert:
  assumes ok: "table_ok H ts" and none: "content ts k = None"
    and i: "i < length ts" "\<not> is_full (ts ! i)" and r: "reach ts (H k) i"
  shows "table_ok H (ts[i := Full k v])" "content (ts[i := Full k v]) = (content ts)(k \<mapsto> v)"
    "length (entries (ts[i := Full k v])) = Suc (length (entries ts))"
proof -
  let ?a = "entries (take i ts)" and ?b = "entries (drop (Suc i) ts)"
  have e: "entries ts = ?a @ ?b" "entries (ts[i := Full k v]) = ?a @ (k, v) # ?b"
    using entries_split [OF i(1)] i(2) by (cases "ts ! i"; simp add: is_full_def)+
  have fresh: "k \<notin> fst ` set (entries ts)"
    using none by (simp add: content_def map_of_eq_None_iff)
  have nr: "reach (ts[i := Full k v]) (H k') j" if "reach ts (H k') j" for k' j
    by (rule reach_update [OF that i(1)]) simp
  show "table_ok H (ts[i := Full k v])"
    unfolding table_ok_def
  proof (intro conjI allI impI)
    show "distinct (map fst (entries (ts[i := Full k v])))"
      using ok fresh unfolding e by (auto simp: table_ok_def e(1))
    fix j k' v'
    assume j: "j < length (ts[i := Full k v])" "ts[i := Full k v] ! j = Full k' v'"
    show "reach (ts[i := Full k v]) (H k') j"
      using ok r nr j by (cases "j = i") (auto simp: table_ok_def)
  qed
  have "map_of ?a k = None" using fresh by (simp add: e(1) map_of_eq_None_iff image_Un)
  then show "content (ts[i := Full k v]) = (content ts)(k \<mapsto> v)"
    unfolding content_def e by (auto simp: map_add_def fun_eq_iff split: option.splits)
  show "length (entries (ts[i := Full k v])) = Suc (length (entries ts))"
    unfolding e by simp
qed

lemma table_replace:
  assumes ok: "table_ok H ts" and i: "i < length ts" "ts ! i = Full k u"
  shows "table_ok H (ts[i := Full k v])" "content (ts[i := Full k v]) = (content ts)(k \<mapsto> v)"
    "length (entries (ts[i := Full k v])) = length (entries ts)"
proof -
  let ?a = "entries (take i ts)" and ?b = "entries (drop (Suc i) ts)"
  have e: "entries ts = ?a @ (k, u) # ?b" "entries (ts[i := Full k v]) = ?a @ (k, v) # ?b"
    using entries_split(1) [OF i(1)] entries_split(2) [OF i(1), of "Full k v"] i(2) by simp_all
  have nr: "reach (ts[i := Full k v]) (H k') j" if "reach ts (H k') j" for k' j
    by (rule reach_update [OF that i(1)]) simp
  show "table_ok H (ts[i := Full k v])"
    unfolding table_ok_def
  proof (intro conjI allI impI)
    show "distinct (map fst (entries (ts[i := Full k v])))"
      using ok unfolding e by (auto simp: table_ok_def e(1))
    fix j k' v'
    assume j: "j < length (ts[i := Full k v])" "ts[i := Full k v] ! j = Full k' v'"
    show "reach (ts[i := Full k v]) (H k') j"
      using ok nr j i by (cases "j = i") (auto simp: table_ok_def)
  qed
  have "k \<notin> fst ` set ?a" using ok by (auto simp: table_ok_def e(1))
  then have "map_of ?a k = None" by (simp add: map_of_eq_None_iff)
  then show "content (ts[i := Full k v]) = (content ts)(k \<mapsto> v)"
    unfolding content_def e by (auto simp: map_add_def fun_eq_iff split: option.splits)
  show "length (entries (ts[i := Full k v])) = length (entries ts)" unfolding e by simp
qed

lemma table_delete:
  assumes ok: "table_ok H ts" and i: "i < length ts" "ts ! i = Full k u"
  shows "table_ok H (ts[i := Dead])" "content (ts[i := Dead]) = (content ts)(k := None)"
    "Suc (length (entries (ts[i := Dead]))) = length (entries ts)"
proof -
  let ?a = "entries (take i ts)" and ?b = "entries (drop (Suc i) ts)"
  have e: "entries ts = ?a @ (k, u) # ?b" "entries (ts[i := Dead]) = ?a @ ?b"
    using entries_split(1) [OF i(1)] entries_split(2) [OF i(1), of Dead] i(2) by simp_all
  have nr: "reach (ts[i := Dead]) (H k') j" if "reach ts (H k') j" for k' j
    by (rule reach_update [OF that i(1)]) simp
  show "table_ok H (ts[i := Dead])"
    unfolding table_ok_def
  proof (intro conjI allI impI)
    show "distinct (map fst (entries (ts[i := Dead])))"
      using ok unfolding e by (auto simp: table_ok_def e(1))
    fix j k' v'
    assume j: "j < length (ts[i := Dead])" "ts[i := Dead] ! j = Full k' v'"
    then show "reach (ts[i := Dead]) (H k') j"
      using ok nr i by (cases "j = i") (auto simp: table_ok_def)
  qed
  have "k \<notin> fst ` set ?a" "k \<notin> fst ` set ?b" using ok by (auto simp: table_ok_def e(1))
  then have "map_of ?a k = None" "map_of ?b k = None" by (simp_all add: map_of_eq_None_iff)
  then show "content (ts[i := Dead]) = (content ts)(k := None)"
    unfolding content_def e by (auto simp: map_add_def fun_eq_iff split: option.splits)
  show "Suc (length (entries (ts[i := Dead]))) = length (entries ts)" unfolding e by simp
qed

text \<open>Without entries, a table of dead slots may be reset.\<close>

lemma content_empty_iff: "content ts = Map.empty \<longleftrightarrow> entries ts = []"
  by (simp add: content_def)

end
