(* ===== verification/Hashmap.thy ===== *)
theory Hashmap
  imports Maps Probe
begin

text \<open>
  \<open>src/hashmap.c\<close>: the hash map with open addressing and tombstones. Every function of the file
  is a definition of the same name. The three arrays of the map are buffers of \<open>capacity\<close> slots.
  The address of a stored key or value is its slot index. \<open>hm_rel m ts\<close> says that the arrays of
  \<open>m\<close> hold the consistent table \<open>ts\<close> of \<open>Probe\<close>.
\<close>

section \<open>Model\<close>

datatype entry_state = EMPTY | OCCUPIED | DELETED

record 'v hashmap =
  m_capacity :: size_t
  m_size :: size_t
  m_tombstones :: size_t
  m_key_size :: size_t
  m_value_size :: size_t
  m_key_kind :: int
  m_value_destroy :: bool
  m_value_copy :: "('v \<Rightarrow> 'v) option"
  m_states :: "entry_state buf"
  m_keys :: "cell buf"
  m_values :: "'v buf"

definition HASHMAP_INIT_CAPACITY :: size_t where "HASHMAP_INIT_CAPACITY = 8"
definition HASHMAP_NPOS :: size_t where "HASHMAP_NPOS = SIZE_MAX"

subsection \<open>Hash functions\<close>

fun hash_scalar_loop :: "bytes \<Rightarrow> 64 word \<Rightarrow> 64 word" where
  "hash_scalar_loop [] hash = hash"
| "hash_scalar_loop (b # bs) hash = hash_scalar_loop bs (xor hash (ucast b) * 1099511628211)"

definition hashmap_hash_scalar_bytes :: "bytes \<Rightarrow> size_t" where
  "hashmap_hash_scalar_bytes bs = unat (hash_scalar_loop bs 1469598103934665603)"

fun hash_cstr_loop :: "bytes \<Rightarrow> 64 word \<Rightarrow> 64 word" where
  "hash_cstr_loop [] hash = hash"
| "hash_cstr_loop (c # cs) hash = hash_cstr_loop cs ((push_bit 5 hash + hash) + ucast c)"

definition hashmap_hash_cstr_value :: "bytes \<Rightarrow> size_t" where
  "hashmap_hash_cstr_value s = unat (hash_cstr_loop s 5381)"

definition hashmap_hash_key :: "'v hashmap \<Rightarrow> cell \<Rightarrow> size_t option" where
  "hashmap_hash_key m key =
     (if m_key_kind m = KEY_CSTR then
        (case key of Str (Ptr s) \<Rightarrow> Some (hashmap_hash_cstr_value s) | _ \<Rightarrow> None)
      else (case key of Bytes b \<Rightarrow> if length b = m_key_size m then Some (hashmap_hash_scalar_bytes b) else None
            | Str _ \<Rightarrow> None))"

definition hashmap_keys_equal :: "'v hashmap \<Rightarrow> cell \<Rightarrow> cell \<Rightarrow> bool option" where
  "hashmap_keys_equal m a b =
     (if m_key_kind m = KEY_CSTR then
        (case (a, b) of (Str (Ptr s), Str (Ptr t)) \<Rightarrow> Some (s = t) | _ \<Rightarrow> None)
      else (case (a, b) of (Bytes x, Bytes y) \<Rightarrow>
              if length x = m_key_size m \<and> length y = m_key_size m then Some (x = y) else None
            | _ \<Rightarrow> None))"

definition hashmap_copy_element ::
    "('v \<Rightarrow> 'v) option \<Rightarrow> 'v \<Rightarrow> ('v, 'b) world_scheme \<Rightarrow> 'v option \<times> ('v, 'b) world_scheme" where
  "hashmap_copy_element f x w = copy_element f x w"

definition hashmap_destroy_element ::
    "bool \<Rightarrow> 'v \<Rightarrow> ('v, 'b) world_scheme \<Rightarrow> ('v, 'b) world_scheme" where
  "hashmap_destroy_element d x w = destroy_element d x w"

definition hashmap_copy_key ::
    "'v hashmap \<Rightarrow> cell \<Rightarrow> ('v, 'b) world_scheme \<Rightarrow> (cell option \<times> ('v, 'b) world_scheme) option" where
  "hashmap_copy_key m src w = copy_key (m_key_kind m) (m_key_size m) src w"

definition hashmap_destroy_key ::
    "'v hashmap \<Rightarrow> cell \<Rightarrow> ('v, 'b) world_scheme \<Rightarrow> ('v, 'b) world_scheme option" where
  "hashmap_destroy_key m c w = destroy_key (m_key_kind m) c w"

definition hashmap_key_is_valid :: "'v hashmap \<Rightarrow> cell ptr \<Rightarrow> bool option" where
  "hashmap_key_is_valid m key = key_is_valid (m_key_kind m) key"

subsection \<open>Capacity\<close>

text \<open>The loop does not return when \<open>buckets\<close> wraps to 0; not returning is \<open>None\<close>.\<close>

partial_function (option) bucket_loop :: "size_t \<Rightarrow> size_t \<Rightarrow> size_t option" where
  "bucket_loop entry_capacity buckets =
     (if sz_mul buckets 3 < sz_mul entry_capacity 4
      then bucket_loop entry_capacity (sz_mul buckets 2) else Some buckets)"

definition hashmap_bucket_capacity_for_entries :: "size_t \<Rightarrow> size_t option" where
  "hashmap_bucket_capacity_for_entries entry_capacity =
     (if entry_capacity = 0 then Some 0 else bucket_loop entry_capacity HASHMAP_INIT_CAPACITY)"

subsection \<open>Searching\<close>

text \<open>\<open>(index + 1) & mask\<close>; the bitwise operation on \<open>nat\<close> agrees with the one on words.\<close>

definition next_index :: "size_t \<Rightarrow> size_t \<Rightarrow> size_t" where
  "next_index index msk = and (sz_add index 1) msk"

partial_function (option) raw_loop ::
    "'v hashmap \<Rightarrow> entry_state buf \<Rightarrow> cell buf \<Rightarrow> size_t \<Rightarrow> cell \<Rightarrow> size_t \<Rightarrow> size_t option" where
  "raw_loop m states keys msk key index = do {
     s \<leftarrow> buf_get states index;
     if s = OCCUPIED then do {
       slot \<leftarrow> buf_get keys index;
       same \<leftarrow> hashmap_keys_equal m slot key;
       if same then Some index else raw_loop m states keys msk key (next_index index msk) }
     else Some index }"

definition hashmap_find_slot_in_raw_table ::
    "'v hashmap \<Rightarrow> entry_state buf \<Rightarrow> cell buf \<Rightarrow> size_t \<Rightarrow> cell \<Rightarrow> size_t \<Rightarrow> size_t option" where
  "hashmap_find_slot_in_raw_table m states keys capacity key hash =
     (let msk = sz_sub capacity 1 in raw_loop m states keys msk key (and hash msk))"

fun occupied_loop :: "'v hashmap \<Rightarrow> nat list \<Rightarrow> size_t option" where
  "occupied_loop m [] = Some HASHMAP_NPOS"
| "occupied_loop m (i # is) = do {
     s \<leftarrow> buf_get (m_states m) i;
     if s = OCCUPIED then Some i else occupied_loop m is }"

definition hashmap_find_occupied_from :: "'v hashmap ptr \<Rightarrow> size_t \<Rightarrow> size_t option" where
  "hashmap_find_occupied_from p start =
     (if p = NULL \<or> m_capacity (pt p) \<le> start then Some HASHMAP_NPOS
      else occupied_loop (pt p) [start..<m_capacity (pt p)])"

text \<open>The loop of \<open>hashmap_find_slot\<close>; the result is \<open>(found, index)\<close>.\<close>

partial_function (option) find_slot_loop ::
    "'v hashmap \<Rightarrow> cell \<Rightarrow> size_t \<Rightarrow> size_t \<Rightarrow> size_t \<Rightarrow> (int \<times> size_t) option" where
  "find_slot_loop m key msk index first_deleted = do {
     state \<leftarrow> buf_get (m_states m) index;
     if state = EMPTY then Some (0, if first_deleted \<noteq> SIZE_MAX then first_deleted else index)
     else do {
       hit \<leftarrow> (if state = OCCUPIED then do {
                 slot \<leftarrow> buf_get (m_keys m) index;
                 hashmap_keys_equal m slot key }
               else Some False);
       if hit then Some (1, index)
       else find_slot_loop m key msk (next_index index msk)
         (if state = DELETED \<and> first_deleted = SIZE_MAX then index else first_deleted) } }"

definition hashmap_find_slot :: "'v hashmap \<Rightarrow> cell \<Rightarrow> size_t \<Rightarrow> (int \<times> size_t) option" where
  "hashmap_find_slot m key hash =
     (let msk = sz_sub (m_capacity m) 1 in find_slot_loop m key msk (and hash msk) SIZE_MAX)"

subsection \<open>Rehashing\<close>

fun rehash_loop ::
    "'v hashmap \<Rightarrow> size_t \<Rightarrow> nat list \<Rightarrow> entry_state buf \<times> cell buf \<times> 'v buf
     \<Rightarrow> (entry_state buf \<times> cell buf \<times> 'v buf) option" where
  "rehash_loop m new_capacity [] t = Some t"
| "rehash_loop m new_capacity (i # is) (states, keys, vals) = do {
     s \<leftarrow> buf_get (m_states m) i;
     if s \<noteq> OCCUPIED then rehash_loop m new_capacity is (states, keys, vals)
     else do {
       old_key \<leftarrow> buf_get (m_keys m) i;
       hash \<leftarrow> hashmap_hash_key m old_key;
       target \<leftarrow> hashmap_find_slot_in_raw_table m states keys new_capacity old_key hash;
       states1 \<leftarrow> buf_put states target (Some OCCUPIED);
       keys1 \<leftarrow> buf_put keys target (Some old_key);
       v \<leftarrow> buf_get (m_values m) i;
       vals1 \<leftarrow> buf_put vals target (Some v);
       rehash_loop m new_capacity is (states1, keys1, vals1) } }"

definition hashmap_rehash ::
    "'v hashmap \<Rightarrow> size_t \<Rightarrow> ('v, 'b) world_scheme \<Rightarrow> (int \<times> 'v hashmap \<times> ('v, 'b) world_scheme) option" where
  "hashmap_rehash m new_bucket_capacity w =
     (let (ok1, w1) = calloc new_bucket_capacity 1 w;
          key_bytes = sz_mul new_bucket_capacity (m_key_size m);
          (ok2, w2) = malloc key_bytes w1;
          value_bytes = sz_mul new_bucket_capacity (m_value_size m);
          (ok3, w3) = malloc value_bytes w2 in
      if \<not> (ok1 \<and> ok2 \<and> ok3) then Some (- 1, m, w3\<lparr>live := live w3 - of_bool ok1 - of_bool ok2 - of_bool ok3\<rparr>)
      else do {
        (states, keys, vals) \<leftarrow> rehash_loop m new_bucket_capacity [0..<m_capacity m]
          (Ptr (replicate new_bucket_capacity (Some EMPTY)), buf_new (key_bytes div m_key_size m),
           buf_new (value_bytes div m_value_size m));
        Some (0, m\<lparr>m_states := states, m_keys := keys, m_values := vals,
                   m_capacity := new_bucket_capacity, m_tombstones := 0\<rparr>,
              free_ptr (m_values m) (free_ptr (m_keys m) (free_ptr (m_states m) w3))) })"

definition hashmap_prepare_insert ::
    "'v hashmap \<Rightarrow> ('v, 'b) world_scheme \<Rightarrow> (int \<times> 'v hashmap \<times> ('v, 'b) world_scheme) option" where
  "hashmap_prepare_insert m w =
     (if m_capacity m = 0 then hashmap_rehash m HASHMAP_INIT_CAPACITY w
      else if sz_mul (sz_add (sz_add (m_size m) (m_tombstones m)) 1) 4 \<le> sz_mul (m_capacity m) 3
      then Some (0, m, w)
      else hashmap_rehash m (sz_mul (m_capacity m) 2) w)"

subsection \<open>Creating and clearing\<close>

definition hashmap_init ::
    "'v hashmap ptr \<Rightarrow> int \<Rightarrow> size_t \<Rightarrow> size_t \<Rightarrow> bool \<Rightarrow> ('v \<Rightarrow> 'v) option \<Rightarrow> int \<times> 'v hashmap ptr" where
  "hashmap_init p key_kind key_size value_size value_destroy value_copy =
     (if p = NULL \<or> key_size = 0 \<or> value_size = 0 then (- 1, p)
      else if key_kind \<noteq> KEY_SCALAR \<and> key_kind \<noteq> KEY_CSTR then (- 1, p)
      else if key_kind = KEY_CSTR \<and> key_size \<noteq> 8 then (- 1, p)
      else (0, Ptr \<lparr>m_capacity = 0, m_size = 0, m_tombstones = 0, m_key_size = key_size,
               m_value_size = value_size, m_key_kind = key_kind, m_value_destroy = value_destroy,
               m_value_copy = value_copy, m_states = NULL, m_keys = NULL, m_values = NULL\<rparr>))"

fun hash_clear_loop :: "'v hashmap \<Rightarrow> nat list \<Rightarrow> ('v, 'b) world_scheme \<Rightarrow> ('v, 'b) world_scheme option" where
  "hash_clear_loop m [] w = Some w"
| "hash_clear_loop m (i # is) w = do {
     s \<leftarrow> buf_get (m_states m) i;
     if s \<noteq> OCCUPIED then hash_clear_loop m is w
     else do {
       k \<leftarrow> buf_get (m_keys m) i;
       w1 \<leftarrow> hashmap_destroy_key m k w;
       v \<leftarrow> buf_get (m_values m) i;
       hash_clear_loop m is (hashmap_destroy_element (m_value_destroy m) v w1) } }"

text \<open>\<open>memset(states, EMPTY, n)\<close>.\<close>

definition reset_states :: "entry_state buf \<Rightarrow> nat \<Rightarrow> entry_state buf option" where
  "reset_states b n = (if n \<le> length (slots b)
     then Some (Ptr (replicate n (Some EMPTY) @ drop n (slots b))) else None)"

definition hashmap_clear ::
    "'v hashmap ptr \<Rightarrow> ('v, 'b) world_scheme \<Rightarrow> ('v hashmap ptr \<times> ('v, 'b) world_scheme) option" where
  "hashmap_clear p w = (case p of NULL \<Rightarrow> Some (NULL, w) | Ptr m \<Rightarrow> do {
     w1 \<leftarrow> hash_clear_loop m [0..<m_capacity m] w;
     states \<leftarrow> (if m_states m \<noteq> NULL then reset_states (m_states m) (m_capacity m) else Some NULL);
     Some (Ptr (m\<lparr>m_states := states, m_size := 0, m_tombstones := 0\<rparr>), w1) })"

definition hashmap_destroy ::
    "'v hashmap ptr \<Rightarrow> ('v, 'b) world_scheme \<Rightarrow> ('v hashmap ptr \<times> ('v, 'b) world_scheme) option" where
  "hashmap_destroy p w = (case p of NULL \<Rightarrow> Some (NULL, w) | Ptr _ \<Rightarrow> do {
     (q, w1) \<leftarrow> hashmap_clear p w;
     let m = pt q;
     Some (Ptr (m\<lparr>m_states := NULL, m_keys := NULL, m_values := NULL, m_capacity := 0, m_tombstones := 0\<rparr>),
           free_ptr (m_values m) (free_ptr (m_keys m) (free_ptr (m_states m) w1))) })"

text \<open>A structure with arbitrary contents, as \<open>malloc\<close> returns it.\<close>

definition raw_hashmap :: "'v hashmap" where
  "raw_hashmap = \<lparr>m_capacity = 0, m_size = 0, m_tombstones = 0, m_key_size = 0, m_value_size = 0,
     m_key_kind = 0, m_value_destroy = False, m_value_copy = None, m_states = NULL, m_keys = NULL,
     m_values = NULL\<rparr>"

definition hashmap_new ::
    "int \<Rightarrow> size_t \<Rightarrow> size_t \<Rightarrow> bool \<Rightarrow> ('v \<Rightarrow> 'v) option \<Rightarrow> ('v, 'b) world_scheme
     \<Rightarrow> 'v hashmap ptr \<times> ('v, 'b) world_scheme" where
  "hashmap_new key_kind key_size value_size value_destroy value_copy w =
     (let (ok, w1) = malloc 88 w in
      if \<not> ok then (NULL, w1)
      else let (rc, p) = hashmap_init (Ptr raw_hashmap) key_kind key_size value_size value_destroy value_copy in
        if rc \<noteq> 0 then (NULL, free_block w1) else (p, w1))"

definition hashmap_free ::
    "'v hashmap ptr \<Rightarrow> ('v, 'b) world_scheme \<Rightarrow> ('v, 'b) world_scheme option" where
  "hashmap_free p w = (case p of NULL \<Rightarrow> Some w | Ptr _ \<Rightarrow> do {
     (_, w1) \<leftarrow> hashmap_destroy p w; Some (free_block w1) })"

definition hashmap_reserve ::
    "'v hashmap ptr \<Rightarrow> size_t \<Rightarrow> ('v, 'b) world_scheme \<Rightarrow> (int \<times> 'v hashmap ptr \<times> ('v, 'b) world_scheme) option" where
  "hashmap_reserve p capacity w = (case p of NULL \<Rightarrow> Some (- 1, NULL, w) | Ptr m \<Rightarrow>
     if capacity = 0 then Some (0, p, w)
     else do {
       buckets \<leftarrow> hashmap_bucket_capacity_for_entries capacity;
       let bucket_capacity = (if buckets < m_capacity m then m_capacity m else buckets);
       if bucket_capacity = m_capacity m \<and> m_tombstones m = 0 then Some (0, p, w)
       else do {
         (rc, m1, w1) \<leftarrow> hashmap_rehash m bucket_capacity w;
         Some (rc, Ptr m1, w1) } })"

subsection \<open>Access\<close>

text \<open>A copy of a value in a block of its own; \<open>None\<close> when there is no block or the copy failed.\<close>

definition stage_value ::
    "'v hashmap \<Rightarrow> 'v \<Rightarrow> ('v, 'b) world_scheme \<Rightarrow> 'v option \<times> ('v, 'b) world_scheme" where
  "stage_value m x w =
     (let (ok, w1) = malloc (m_value_size m) w in
      if \<not> ok then (None, w1)
      else case hashmap_copy_element (m_value_copy m) x w1 of
        (None, w2) \<Rightarrow> (None, free_block w2)
      | (Some v, w2) \<Rightarrow> (Some v, w2))"

text \<open>The branch of \<open>hashmap_set\<close> that replaces the value in slot \<open>index\<close>.\<close>

definition replace_value ::
    "'v hashmap \<Rightarrow> size_t \<Rightarrow> 'v \<Rightarrow> ('v, 'b) world_scheme \<Rightarrow> (int \<times> 'v hashmap ptr \<times> ('v, 'b) world_scheme) option" where
  "replace_value m index x w = (case stage_value m x w of
       (None, w1) \<Rightarrow> Some (- 1, Ptr m, w1)
     | (Some v, w1) \<Rightarrow> do {
         old \<leftarrow> buf_get (m_values m) index;
         let w2 = hashmap_destroy_element (m_value_destroy m) old w1;
         vals \<leftarrow> buf_put (m_values m) index (Some v);
         Some (0, Ptr (m\<lparr>m_values := vals\<rparr>), free_block w2) })"

text \<open>The branch of \<open>hashmap_set\<close> that stores a new entry in slot \<open>index\<close>.\<close>

definition insert_entry ::
    "'v hashmap \<Rightarrow> size_t \<Rightarrow> cell \<Rightarrow> 'v \<Rightarrow> ('v, 'b) world_scheme
     \<Rightarrow> (int \<times> 'v hashmap ptr \<times> ('v, 'b) world_scheme) option" where
  "insert_entry m index key x w =
     (let (ok, w1) = malloc (m_key_size m) w in
      if \<not> ok then Some (- 1, Ptr m, w1)
      else do {
        (k, w2) \<leftarrow> hashmap_copy_key m key w1;
        case k of None \<Rightarrow> Some (- 1, Ptr m, free_block w2)
        | Some staged_key \<Rightarrow> (case stage_value m x w2 of
            (None, w3) \<Rightarrow> do {
              w4 \<leftarrow> hashmap_destroy_key m staged_key w3;
              Some (- 1, Ptr m, free_block w4) }
          | (Some v, w3) \<Rightarrow> do {
              s \<leftarrow> buf_get (m_states m) index;
              let tombstones = (if s = DELETED then sz_sub (m_tombstones m) 1 else m_tombstones m);
              keys \<leftarrow> buf_put (m_keys m) index (Some staged_key);
              vals \<leftarrow> buf_put (m_values m) index (Some v);
              states \<leftarrow> buf_put (m_states m) index (Some OCCUPIED);
              Some (0, Ptr (m\<lparr>m_tombstones := tombstones, m_keys := keys, m_values := vals,
                m_states := states, m_size := sz_add (m_size m) 1\<rparr>), free_block (free_block w3)) }) })"

definition hashmap_set ::
    "'v hashmap ptr \<Rightarrow> cell ptr \<Rightarrow> 'v ptr \<Rightarrow> ('v, 'b) world_scheme
     \<Rightarrow> (int \<times> 'v hashmap ptr \<times> ('v, 'b) world_scheme) option" where
  "hashmap_set p key value w = (case p of NULL \<Rightarrow> Some (- 1, NULL, w) | Ptr m \<Rightarrow> do {
     valid \<leftarrow> hashmap_key_is_valid m key;
     if \<not> valid \<or> value = NULL then Some (- 1, p, w)
     else do {
       (rc, m1, w1) \<leftarrow> hashmap_prepare_insert m w;
       if rc \<noteq> 0 then Some (- 1, Ptr m1, w1)
       else do {
         hash \<leftarrow> hashmap_hash_key m1 (pt key);
         (found, index) \<leftarrow> hashmap_find_slot m1 (pt key) hash;
         if found \<noteq> 0 then replace_value m1 index (pt value) w1
         else insert_entry m1 index (pt key) (pt value) w1 } } })"

text \<open>The common start of the lookups: \<open>None\<close> for an absent map, key or table.\<close>

definition lookup_slot :: "'v hashmap ptr \<Rightarrow> cell ptr \<Rightarrow> (int \<times> size_t) option option" where
  "lookup_slot p key = (case p of NULL \<Rightarrow> Some None | Ptr m \<Rightarrow> do {
     valid \<leftarrow> hashmap_key_is_valid m key;
     if \<not> valid \<or> m_capacity m = 0 then Some None
     else do {
       hash \<leftarrow> hashmap_hash_key m (pt key);
       r \<leftarrow> hashmap_find_slot m (pt key) hash;
       Some (Some r) } })"

definition hashmap_contains :: "'v hashmap ptr \<Rightarrow> cell ptr \<Rightarrow> int option" where
  "hashmap_contains p key = do {
     r \<leftarrow> lookup_slot p key;
     Some (case r of None \<Rightarrow> 0 | Some (found, index) \<Rightarrow> found) }"

definition hashmap_delete ::
    "'v hashmap ptr \<Rightarrow> cell ptr \<Rightarrow> ('v, 'b) world_scheme
     \<Rightarrow> (int \<times> 'v hashmap ptr \<times> ('v, 'b) world_scheme) option" where
  "hashmap_delete p key w = do {
     r \<leftarrow> lookup_slot p key;
     case r of None \<Rightarrow> Some (- 1, p, w)
     | Some (found, index) \<Rightarrow>
         if found = 0 then Some (- 1, p, w)
         else let m = pt p in do {
           k \<leftarrow> buf_get (m_keys m) index;
           w1 \<leftarrow> hashmap_destroy_key m k w;
           v \<leftarrow> buf_get (m_values m) index;
           let w2 = hashmap_destroy_element (m_value_destroy m) v w1;
           states \<leftarrow> buf_put (m_states m) index (Some DELETED);
           let m1 = m\<lparr>m_states := states, m_size := sz_sub (m_size m) 1,
                      m_tombstones := sz_add (m_tombstones m) 1\<rparr>;
           if m_size m1 = 0 then do {
             states1 \<leftarrow> reset_states (m_states m1) (m_capacity m1);
             Some (0, Ptr (m1\<lparr>m_states := states1, m_tombstones := 0\<rparr>), w2) }
           else Some (0, Ptr m1, w2) } }"

definition hashmap_at :: "'v hashmap ptr \<Rightarrow> cell ptr \<Rightarrow> size_t ptr option" where
  "hashmap_at p key = do {
     r \<leftarrow> lookup_slot p key;
     Some (case r of None \<Rightarrow> NULL | Some (found, index) \<Rightarrow> if found = 0 then NULL else Ptr index) }"

definition hashmap_at_const :: "'v hashmap ptr \<Rightarrow> cell ptr \<Rightarrow> size_t ptr option" where
  "hashmap_at_const p key = hashmap_at p key"

text \<open>Reading the value behind an address that \<open>hashmap_at\<close> returned.\<close>

definition hashmap_get_as :: "'v hashmap ptr \<Rightarrow> cell ptr \<Rightarrow> 'v ptr option" where
  "hashmap_get_as p key = do {
     a \<leftarrow> hashmap_at p key;
     case a of NULL \<Rightarrow> Some NULL | Ptr i \<Rightarrow> do { v \<leftarrow> buf_get (m_values (pt p)) i; Some (Ptr v) } }"

subsection \<open>Iteration\<close>

definition hashmap_first :: "'v hashmap ptr \<Rightarrow> size_t option" where
  "hashmap_first p = hashmap_find_occupied_from p 0"

definition hashmap_next :: "'v hashmap ptr \<Rightarrow> size_t \<Rightarrow> size_t option" where
  "hashmap_next p index =
     (if p = NULL \<or> m_capacity (pt p) \<le> index then Some HASHMAP_NPOS
      else hashmap_find_occupied_from p (sz_add index 1))"

text \<open>The guard of the entry accessors, and the contents of the addressed slots.\<close>

definition entry_there :: "'v hashmap ptr \<Rightarrow> size_t \<Rightarrow> bool option" where
  "entry_there p index =
     (if p = NULL \<or> m_capacity (pt p) \<le> index then Some False
      else do { s \<leftarrow> buf_get (m_states (pt p)) index; Some (s = OCCUPIED) })"

definition hashmap_entry_key :: "'v hashmap ptr \<Rightarrow> size_t \<Rightarrow> cell ptr option" where
  "hashmap_entry_key p index = do {
     there \<leftarrow> entry_there p index;
     if \<not> there then Some NULL else do { k \<leftarrow> buf_get (m_keys (pt p)) index; Some (Ptr k) } }"

definition hashmap_entry_key_const :: "'v hashmap ptr \<Rightarrow> size_t \<Rightarrow> cell ptr option" where
  "hashmap_entry_key_const p index = hashmap_entry_key p index"

definition hashmap_entry_value :: "'v hashmap ptr \<Rightarrow> size_t \<Rightarrow> 'v ptr option" where
  "hashmap_entry_value p index = do {
     there \<leftarrow> entry_there p index;
     if \<not> there then Some NULL else do { v \<leftarrow> buf_get (m_values (pt p)) index; Some (Ptr v) } }"

definition hashmap_entry_value_const :: "'v hashmap ptr \<Rightarrow> size_t \<Rightarrow> 'v ptr option" where
  "hashmap_entry_value_const p index = hashmap_entry_value p index"

subsection \<open>Copying\<close>

partial_function (option) hash_copy_loop ::
    "'v hashmap ptr \<Rightarrow> size_t \<Rightarrow> 'v hashmap ptr \<Rightarrow> ('v, 'b) world_scheme
     \<Rightarrow> (int \<times> 'v hashmap ptr \<times> ('v, 'b) world_scheme) option" where
  "hash_copy_loop src i dst w =
     (if i = HASHMAP_NPOS then Some (0, dst, w)
      else do {
        k \<leftarrow> hashmap_entry_key_const src i;
        v \<leftarrow> hashmap_entry_value_const src i;
        (rc, dst1, w1) \<leftarrow> hashmap_set dst k v w;
        if rc \<noteq> 0 then do { (dst2, w2) \<leftarrow> hashmap_clear dst1 w1; Some (- 1, dst2, w2) }
        else do {
          j \<leftarrow> hashmap_next src i;
          hash_copy_loop src j dst1 w1 } })"

definition hashmap_copy ::
    "bool \<Rightarrow> 'v hashmap ptr \<Rightarrow> 'v hashmap ptr \<Rightarrow> ('v, 'b) world_scheme
     \<Rightarrow> (int \<times> 'v hashmap ptr \<times> ('v, 'b) world_scheme) option" where
  "hashmap_copy same dst src w =
     (if dst = NULL \<or> src = NULL then Some (- 1, dst, w)
      else if same then Some (0, dst, w)
      else do {
        (dst1, w1) \<leftarrow> hashmap_destroy dst w;
        let s = pt src;
        let (rc, dst2) = hashmap_init dst1 (m_key_kind s) (m_key_size s) (m_value_size s)
              (m_value_destroy s) (m_value_copy s);
        if rc \<noteq> 0 then Some (- 1, dst2, w1)
        else do {
          (rc1, dst3, w2) \<leftarrow> hashmap_reserve dst2 (m_size s) w1;
          if rc1 \<noteq> 0 then do { (dst4, w3) \<leftarrow> hashmap_clear dst3 w2; Some (- 1, dst4, w3) }
          else do {
            i \<leftarrow> hashmap_first src;
            hash_copy_loop src i dst3 w2 } } })"

definition hashmap_clone ::
    "'v hashmap ptr \<Rightarrow> ('v, 'b) world_scheme \<Rightarrow> ('v hashmap ptr \<times> ('v, 'b) world_scheme) option" where
  "hashmap_clone src w = (case src of NULL \<Rightarrow> Some (NULL, w) | Ptr s \<Rightarrow>
     let (copy, w1) = hashmap_new (m_key_kind s) (m_key_size s) (m_value_size s) (m_value_destroy s)
           (m_value_copy s) w in
     if copy = NULL then Some (NULL, w1)
     else do {
       (rc, copy1, w2) \<leftarrow> hashmap_copy False copy src w1;
       if rc \<noteq> 0 then do { w3 \<leftarrow> hashmap_free copy1 w2; Some (NULL, w3) } else Some (copy1, w2) })"

section \<open>Tables in memory\<close>

fun state_of :: "('k, 'v) slot \<Rightarrow> entry_state" where
  "state_of Free = EMPTY"
| "state_of Dead = DELETED"
| "state_of (Full k v) = OCCUPIED"

lemma state_of_iff [simp]:
  "state_of s = EMPTY \<longleftrightarrow> s = Free" "state_of s = DELETED \<longleftrightarrow> s = Dead"
  "state_of s = OCCUPIED \<longleftrightarrow> is_full s"
  by (cases s; simp add: is_full_def)+

definition arrays :: "entry_state buf \<Rightarrow> cell buf \<Rightarrow> 'v buf \<Rightarrow> (cell, 'v) slot list \<Rightarrow> bool" where
  "arrays states keys vals ts \<longleftrightarrow> slots states = map (\<lambda>s. Some (state_of s)) ts
     \<and> length (slots keys) = length ts \<and> length (slots vals) = length ts
     \<and> (\<forall>i < length ts. \<forall>k v. ts ! i = Full k v \<longrightarrow> slots keys ! i = Some k \<and> slots vals ! i = Some v)"

definition hash_of :: "int \<Rightarrow> cell \<Rightarrow> nat" where
  "hash_of kind c = (if kind = KEY_CSTR
     then (case c of Str (Ptr s) \<Rightarrow> hashmap_hash_cstr_value s | _ \<Rightarrow> 0)
     else (case c of Bytes b \<Rightarrow> hashmap_hash_scalar_bytes b | _ \<Rightarrow> 0))"

definition keys_ok :: "int \<Rightarrow> size_t \<Rightarrow> (cell, 'v) slot list \<Rightarrow> bool" where
  "keys_ok kind key_size ts \<longleftrightarrow> (\<forall>k v. Full k v \<in> set ts \<longrightarrow> key_ok kind key_size k)"

text \<open>The number of buckets: a power of two that the allocator can serve.\<close>

definition buckets_ok :: "'v hashmap \<Rightarrow> nat \<Rightarrow> bool" where
  "buckets_ok m n \<longleftrightarrow> (\<exists>b. n = 2 ^ b) \<and> 8 \<le> n \<and> n \<le> PTRDIFF_MAX
     \<and> n * m_key_size m \<le> PTRDIFF_MAX \<and> n * m_value_size m \<le> PTRDIFF_MAX"

definition hm_shape :: "'v hashmap \<Rightarrow> (cell, 'v) slot list \<Rightarrow> bool" where
  "hm_shape m ts \<longleftrightarrow>
     (if ts = [] then m_states m = NULL \<and> m_keys m = NULL \<and> m_values m = NULL
      else m_states m \<noteq> NULL \<and> m_keys m \<noteq> NULL \<and> m_values m \<noteq> NULL \<and> buckets_ok m (length ts))
     \<and> 0 < m_key_size m \<and> 0 < m_value_size m
     \<and> 8 * m_key_size m \<le> PTRDIFF_MAX \<and> 8 * m_value_size m \<le> PTRDIFF_MAX"

definition hm_rel :: "'v hashmap \<Rightarrow> (cell, 'v) slot list \<Rightarrow> bool" where
  "hm_rel m ts \<longleftrightarrow> arrays (m_states m) (m_keys m) (m_values m) ts \<and> hm_shape m ts
     \<and> m_capacity m = length ts \<and> m_size m = length (entries ts) \<and> m_tombstones m = dead ts
     \<and> table_ok (hash_of (m_key_kind m)) ts \<and> keys_ok (m_key_kind m) (m_key_size m) ts
     \<and> 4 * (length (entries ts) + dead ts) \<le> 3 * length ts"

lemma hash_key_ok: "key_ok (m_key_kind m) (m_key_size m) c \<Longrightarrow>
    hashmap_hash_key m c = Some (hash_of (m_key_kind m) c)"
  by (erule key_okE) (simp_all add: hashmap_hash_key_def hash_of_def)

lemma keys_equal_ok: "key_ok (m_key_kind m) (m_key_size m) a \<Longrightarrow> key_ok (m_key_kind m) (m_key_size m) b \<Longrightarrow>
    hashmap_keys_equal m a b = Some (a = b)"
  by (erule key_okE; erule key_okE) (simp_all add: hashmap_keys_equal_def)

lemma arrays_state: "arrays st ks vs ts \<Longrightarrow> i < length ts \<Longrightarrow> buf_get st i = Some (state_of (ts ! i))"
  by (simp add: arrays_def buf_get_def)

lemma arrays_entry: "arrays st ks vs ts \<Longrightarrow> i < length ts \<Longrightarrow> ts ! i = Full k v \<Longrightarrow>
    buf_get ks i = Some k \<and> buf_get vs i = Some v"
  by (simp add: arrays_def buf_get_def)

lemma arrays_length: "arrays st ks vs ts \<Longrightarrow> length (slots st) = length ts \<and> length (slots ks) = length ts
    \<and> length (slots vs) = length ts"
  by (simp add: arrays_def)

lemma keys_ok_nth: "keys_ok kind n ts \<Longrightarrow> i < length ts \<Longrightarrow> ts ! i = Full k v \<Longrightarrow> key_ok kind n k"
  unfolding keys_ok_def by (metis nth_mem)

text \<open>Storing an entry in all three arrays.\<close>

lemma arrays_put:
  assumes "arrays st ks vs ts" and "i < length ts"
  shows "\<exists>st' ks' vs'. buf_put st i (Some OCCUPIED) = Some st' \<and> buf_put ks i (Some k) = Some ks'
    \<and> buf_put vs i (Some v) = Some vs' \<and> arrays st' ks' vs' (ts[i := Full k v])
    \<and> st' \<noteq> NULL \<and> ks' \<noteq> NULL \<and> vs' \<noteq> NULL"
  using assms by (auto simp: arrays_def buf_put_def nth_list_update map_update)

lemma arrays_put_value:
  assumes "arrays st ks vs ts" and "i < length ts" and "ts ! i = Full k u"
  shows "\<exists>vs'. buf_put vs i (Some v) = Some vs' \<and> arrays st ks vs' (ts[i := Full k v]) \<and> vs' \<noteq> NULL"
  using assms by (auto simp: arrays_def buf_put_def nth_list_update map_update intro!: nth_equalityI)

lemma arrays_put_dead:
  assumes "arrays st ks vs ts" and "i < length ts"
  shows "\<exists>st'. buf_put st i (Some DELETED) = Some st' \<and> arrays st' ks vs (ts[i := Dead]) \<and> st' \<noteq> NULL"
  using assms by (auto simp: arrays_def buf_put_def nth_list_update map_update)

section \<open>Searching\<close>

lemma and_mask_nat: "and (h :: nat) (2 ^ b - 1) = h mod 2 ^ b"
  by (metis mask_eq_exp_minus_1 take_bit_eq_mask take_bit_eq_mod)

lemma next_index_step:
  assumes "length ts = 2 ^ b" and "length ts \<le> PTRDIFF_MAX"
  shows "next_index (step_slot ts h d) (length ts - 1) = step_slot ts h (Suc d)"
proof -
  have n: "0 < length ts" using assms(1) by simp
  have "step_slot ts h d < length ts" by (rule step_slot_less [OF n])
  then have "sz_add (step_slot ts h d) 1 = step_slot ts h d + 1"
    using assms(2) SIZE_MAX_PTRDIFF_MAX by simp
  then show ?thesis
    using step_slot_next [OF n, of h d] and_mask_nat [of "step_slot ts h d + 1" b] assms(1)
    by (simp add: next_index_def)
qed

lemma first_index:
  assumes "length ts = 2 ^ b" and "length ts \<le> PTRDIFF_MAX"
  shows "and h (sz_sub (length ts) 1) = step_slot ts h 0" "sz_sub (length ts) 1 = length ts - 1"
proof -
  show "sz_sub (length ts) 1 = length ts - 1" using assms SIZE_MAX_PTRDIFF_MAX by simp
  then show "and h (sz_sub (length ts) 1) = step_slot ts h 0"
    using and_mask_nat [of h b] assms(1) by (simp add: step_slot_0)
qed

lemma raw_loop_ok:
  assumes arr: "arrays st ks vs ts" and ok: "keys_ok (m_key_kind m) (m_key_size m) ts"
    and key: "key_ok (m_key_kind m) (m_key_size m) key" and n: "length ts = 2 ^ b" "length ts \<le> PTRDIFF_MAX"
    and alive: "dead ts = 0" and st: "stops ts key h d" and j: "j \<le> d"
  shows "raw_loop m st ks (length ts - 1) key (step_slot ts h j) = Some (step_slot ts h d)"
  using j
proof (induction "d - j" arbitrary: j)
  case 0
  let ?i = "step_slot ts h d"
  have i: "?i < length ts" by (rule step_slot_less) (simp add: n(1))
  have "ts ! ?i = Free \<or> (\<exists>v. ts ! ?i = Full key v)" using st by (simp add: stops_def ends_def)
  moreover have "j = d" using 0 by simp
  ultimately show ?case
    using arrays_state [OF arr i] arrays_entry [OF arr i] keys_equal_ok [OF key key]
    by (subst raw_loop.simps) (auto simp: is_full_def)
next
  case (Suc e)
  let ?i = "step_slot ts h j"
  have i: "?i < length ts" by (rule step_slot_less) (simp add: n(1))
  have "\<not> ends key (ts ! ?i)" using st Suc.hyps(2) by (simp add: stops_def)
  moreover have "ts ! ?i \<noteq> Dead" using alive nth_mem [OF i] by (auto simp: dead_def filter_empty_conv)
  ultimately obtain k v where f: "ts ! ?i = Full k v" "k \<noteq> key"
    by (cases "ts ! ?i") (auto simp: ends_def)
  have "raw_loop m st ks (length ts - 1) key ?i = raw_loop m st ks (length ts - 1) key (step_slot ts h (Suc j))"
    using arrays_state [OF arr i] arrays_entry [OF arr i f(1)] f
      keys_equal_ok [OF keys_ok_nth [OF ok i f(1)] key] next_index_step [OF n, of h j]
    by (subst raw_loop.simps) simp
  then show ?case using Suc.hyps(1) [of "Suc j"] Suc.hyps(2) by simp
qed

text \<open>
  The search with tombstones: at the entry of the key, or at a slot where the key can be stored,
  the first tombstone on the way or the free slot at its end.
\<close>

lemma find_slot_loop_ok:
  assumes arr: "arrays (m_states m) (m_keys m) vs ts" and ok: "keys_ok (m_key_kind m) (m_key_size m) ts"
    and key: "key_ok (m_key_kind m) (m_key_size m) key" and n: "length ts = 2 ^ b" "length ts \<le> PTRDIFF_MAX"
    and st: "stops ts key h d" and j: "j \<le> d"
    and fd: "fd = SIZE_MAX \<or> (\<exists>c < j. fd = step_slot ts h c \<and> ts ! fd = Dead)"
  shows "if ts ! step_slot ts h d = Free
    then \<exists>c \<le> d. find_slot_loop m key (length ts - 1) (step_slot ts h j) fd = Some (0, step_slot ts h c)
      \<and> \<not> is_full (ts ! step_slot ts h c)
    else find_slot_loop m key (length ts - 1) (step_slot ts h j) fd = Some (1, step_slot ts h d)"
  using j fd
proof (induction "d - j" arbitrary: j fd)
  case 0
  let ?i = "step_slot ts h d"
  have i: "?i < length ts" by (rule step_slot_less) (simp add: n(1))
  have jd: "j = d" using 0 by simp
  show ?case
  proof (cases "ts ! ?i = Free")
    case True
    then have r: "find_slot_loop m key (length ts - 1) (step_slot ts h j) fd
        = Some (0, if fd \<noteq> SIZE_MAX then fd else ?i)"
      using arrays_state [OF arr i] jd by (subst find_slot_loop.simps) simp
    show ?thesis
    proof (cases "fd = SIZE_MAX")
      case True
      then show ?thesis using r \<open>ts ! ?i = Free\<close> by (auto simp: is_full_def)
    next
      case False
      then obtain c where "c < j" "fd = step_slot ts h c" "ts ! fd = Dead" using 0(3) by blast
      then show ?thesis using r False \<open>ts ! ?i = Free\<close> jd by (auto simp: is_full_def intro!: exI [of _ c])
    qed
  next
    case False
    then obtain v where "ts ! ?i = Full key v" using st by (auto simp: stops_def ends_def)
    then show ?thesis
      using arrays_state [OF arr i] arrays_entry [OF arr i] keys_equal_ok [OF key key] jd False
      by (subst find_slot_loop.simps) (simp add: is_full_def)
  qed
next
  case (Suc e)
  let ?i = "step_slot ts h j"
  have i: "?i < length ts" by (rule step_slot_less) (simp add: n(1))
  have ne: "\<not> ends key (ts ! ?i)" using st Suc.hyps(2) by (simp add: stops_def)
  define fd' where "fd' = (if state_of (ts ! ?i) = DELETED \<and> fd = SIZE_MAX then ?i else fd)"
  have "find_slot_loop m key (length ts - 1) ?i fd
      = find_slot_loop m key (length ts - 1) (step_slot ts h (Suc j)) fd'"
  proof (cases "ts ! ?i")
    case (Full k v)
    then have "k \<noteq> key" using ne by (auto simp: ends_def)
    then show ?thesis
      using arrays_state [OF arr i] arrays_entry [OF arr i Full] Full
        keys_equal_ok [OF keys_ok_nth [OF ok i Full] key] next_index_step [OF n, of h j]
      by (subst find_slot_loop.simps) (simp add: fd'_def)
  next
    case Dead
    then show ?thesis
      using arrays_state [OF arr i] next_index_step [OF n, of h j]
      by (subst find_slot_loop.simps) (simp add: fd'_def)
  next
    case Free
    then show ?thesis using ne by (simp add: ends_def)
  qed
  moreover have "fd' = SIZE_MAX \<or> (\<exists>c < Suc j. fd' = step_slot ts h c \<and> ts ! fd' = Dead)"
    using Suc.prems(2) by (auto simp: fd'_def intro: less_SucI)
  ultimately show ?case using Suc.hyps(1) [of "Suc j" fd'] Suc.hyps(2) Suc.prems(1)
    by (simp del: One_nat_def)
qed

text \<open>\<open>hashmap_find_slot\<close> decides whether a key is stored.\<close>

lemma hashmap_find_slot_ok:
  assumes m: "hm_rel m ts" "ts \<noteq> []" and key: "key_ok (m_key_kind m) (m_key_size m) key"
  defines "h \<equiv> hash_of (m_key_kind m) key"
  shows "case content ts key of
      Some v \<Rightarrow> \<exists>i < length ts. hashmap_find_slot m key h = Some (1, i) \<and> ts ! i = Full key v
    | None \<Rightarrow> \<exists>i < length ts. hashmap_find_slot m key h = Some (0, i) \<and> \<not> is_full (ts ! i) \<and> reach ts h i"
proof -
  have arr: "arrays (m_states m) (m_keys m) (m_values m) ts" and ok: "keys_ok (m_key_kind m) (m_key_size m) ts"
    and t: "table_ok (hash_of (m_key_kind m)) ts" and cap: "m_capacity m = length ts"
    using m(1) by (simp_all add: hm_rel_def)
  obtain b where n: "length ts = 2 ^ b" "length ts \<le> PTRDIFF_MAX"
    using m by (auto simp: hm_rel_def hm_shape_def buckets_ok_def)
  have "4 * (length (entries ts) + dead ts) \<le> 3 * length ts" using m(1) by (simp add: hm_rel_def)
  moreover have "0 < length ts" using m(2) by simp
  ultimately have "length (entries ts) + dead ts < length ts" by (rule load_factor)
  then have "Free \<in> set ts" by (rule free_exists)
  from stops_exists [OF this, of key h] obtain d where d: "stops ts key h d" by (elim exE)
  have f: "hashmap_find_slot m key h = find_slot_loop m key (length ts - 1) (step_slot ts h 0) SIZE_MAX"
    using first_index(1) [OF n, of h] first_index(2) [OF n] by (simp add: hashmap_find_slot_def cap)
  have lt: "step_slot ts h c < length ts" for c by (rule step_slot_less) (simp add: n(1))
  note run = find_slot_loop_ok [OF arr ok key n d le0, of SIZE_MAX, folded f]
  show ?thesis
  proof (cases "content ts key")
    case (Some v)
    then have "ts ! step_slot ts h d = Full key v" using stops_stored [OF t _ Some] d by (simp add: h_def)
    then show ?thesis using run Some lt by auto
  next
    case None
    then have free: "ts ! step_slot ts h d = Free" using stops_missing [OF d] by simp
    then obtain c where c: "c \<le> d" "hashmap_find_slot m key h = Some (0, step_slot ts h c)"
      "\<not> is_full (ts ! step_slot ts h c)" using run by auto
    have "reach ts h (step_slot ts h c)" by (rule stops_reach [OF d c(1)])
    then show ?thesis using None c lt by auto
  qed
qed

section \<open>Rehashing\<close>

lemma content_snoc:
  assumes "distinct (map fst (entries ts))" and "i < length ts"
  shows "ts ! i = Full k v \<Longrightarrow> content (take i ts) k = None
      \<and> content (take (Suc i) ts) = (content (take i ts))(k \<mapsto> v)
      \<and> length (entries (take (Suc i) ts)) = Suc (length (entries (take i ts)))"
    "\<not> is_full (ts ! i) \<Longrightarrow> entries (take (Suc i) ts) = entries (take i ts)"
proof -
  have t: "take (Suc i) ts = take i ts @ [ts ! i]" using assms(2) by (rule take_Suc_conv_app_nth)
  show "entries (take (Suc i) ts) = entries (take i ts)" if "\<not> is_full (ts ! i)"
    using that by (cases "ts ! i") (simp_all add: t)
  assume f: "ts ! i = Full k v"
  have "k \<notin> fst ` set (entries (take i ts))"
    using assms(1) entries_split(1) [OF assms(2)] f by auto
  then have "map_of (entries (take i ts)) k = None" by (simp add: map_of_eq_None_iff)
  then show "content (take i ts) k = None
      \<and> content (take (Suc i) ts) = (content (take i ts))(k \<mapsto> v)
      \<and> length (entries (take (Suc i) ts)) = Suc (length (entries (take i ts)))"
    using f by (auto simp: t content_def map_add_def fun_eq_iff split: option.splits)
qed

lemma dead_zero: "dead ts = 0 \<longleftrightarrow> Dead \<notin> set ts"
  by (auto simp: dead_def filter_empty_conv)

lemma keys_ok_update: "keys_ok kind n ts \<Longrightarrow> key_ok kind n k \<Longrightarrow> keys_ok kind n (ts[i := Full k v])"
  using set_update_subset_insert [of ts i "Full k v"] unfolding keys_ok_def by blast

text \<open>A new table under construction.\<close>

definition fresh_table :: "'v hashmap \<Rightarrow> entry_state buf \<times> cell buf \<times> 'v buf \<Rightarrow> (cell, 'v) slot list \<Rightarrow> bool" where
  "fresh_table m t us \<longleftrightarrow> (case t of (st, ks, vs) \<Rightarrow> arrays st ks vs us \<and> st \<noteq> NULL \<and> ks \<noteq> NULL \<and> vs \<noteq> NULL)
     \<and> table_ok (hash_of (m_key_kind m)) us \<and> dead us = 0 \<and> keys_ok (m_key_kind m) (m_key_size m) us"

lemma rehash_store:
  assumes f: "fresh_table m (st, ks, vs) us" and n: "length us = 2 ^ b" "length us \<le> PTRDIFF_MAX"
    and room: "length (entries us) < length us" and key: "key_ok (m_key_kind m) (m_key_size m) k"
    and new: "content us k = None"
  shows "\<exists>target st1 ks1 vs1.
      hashmap_find_slot_in_raw_table m st ks (length us) k (hash_of (m_key_kind m) k) = Some target
    \<and> buf_put st target (Some OCCUPIED) = Some st1 \<and> buf_put ks target (Some k) = Some ks1
    \<and> buf_put vs target (Some v) = Some vs1 \<and> fresh_table m (st1, ks1, vs1) (us[target := Full k v])
    \<and> content (us[target := Full k v]) = (content us)(k \<mapsto> v)
    \<and> length (entries (us[target := Full k v])) = Suc (length (entries us))"
proof -
  let ?h = "hash_of (m_key_kind m) k"
  have arr: "arrays st ks vs us" and t: "table_ok (hash_of (m_key_kind m)) us" and dd: "dead us = 0"
    and ok: "keys_ok (m_key_kind m) (m_key_size m) us"
    using f by (simp_all add: fresh_table_def)
  have "Free \<in> set us" using room dd by (intro free_exists) simp
  from stops_exists [OF this, of k ?h] obtain d where d: "stops us k ?h d" by (elim exE)
  let ?i = "step_slot us ?h d"
  have i: "?i < length us" by (rule step_slot_less) (simp add: n(1))
  have free: "us ! ?i = Free" by (rule stops_missing [OF d new])
  have find: "hashmap_find_slot_in_raw_table m st ks (length us) k ?h = Some ?i"
    using raw_loop_ok [OF arr ok key n dd d le0] first_index(1) [OF n, of ?h] first_index(2) [OF n]
    by (simp add: hashmap_find_slot_in_raw_table_def)
  obtain st1 ks1 vs1 where p: "buf_put st ?i (Some OCCUPIED) = Some st1" "buf_put ks ?i (Some k) = Some ks1"
    "buf_put vs ?i (Some v) = Some vs1" "arrays st1 ks1 vs1 (us[?i := Full k v])"
    "st1 \<noteq> NULL" "ks1 \<noteq> NULL" "vs1 \<noteq> NULL"
    using arrays_put [OF arr i, of k v] by (elim exE conjE) (rule that)
  have nf: "\<not> is_full (us ! ?i)" using free by simp
  note ins = table_insert [OF t new i nf stops_reach [OF d order_refl], of v]
  have "dead (us[?i := Full k v]) = 0" using dead_update [OF i, of "Full k v"] dd free by simp
  then have "fresh_table m (st1, ks1, vs1) (us[?i := Full k v])"
    using p ins(1) keys_ok_update [OF ok key] by (simp add: fresh_table_def)
  with find p ins(2,3) show ?thesis by blast
qed

lemma rehash_loop_ok:
  assumes src: "arrays (m_states m) (m_keys m) (m_values m) ts" "keys_ok (m_key_kind m) (m_key_size m) ts"
      "distinct (map fst (entries ts))"
    and n: "length us = 2 ^ b" "length us \<le> PTRDIFF_MAX" and room: "length (entries ts) < length us"
    and i: "i \<le> length ts" and f: "fresh_table m t us" and c: "content us = content (take i ts)"
      "length (entries us) = length (entries (take i ts))"
  shows "\<exists>t' us'. rehash_loop m (length us) [i..<length ts] t = Some t' \<and> fresh_table m t' us'
    \<and> length us' = length us \<and> content us' = content ts \<and> length (entries us') = length (entries ts)"
  using n room i f c
proof (induction "length ts - i" arbitrary: i t us)
  case 0
  then have "i = length ts" by simp
  then show ?case using 0 by (cases t) auto
next
  case (Suc e)
  obtain st ks vs where t: "t = (st, ks, vs)" by (cases t)
  from Suc.hyps(2) have i: "i < length ts" by simp
  then have up: "[i..<length ts] = i # [Suc i..<length ts]" by (simp add: upt_conv_Cons)
  note state = arrays_state [OF src(1) i]
  show ?case
  proof (cases "ts ! i")
    case (Full k v)
    note sn = content_snoc(1) [OF src(3) i Full]
    have "Suc (length (entries (take i ts))) \<le> length (entries ts)"
      using entries_split(1) [OF i] Full by simp
    then have r: "length (entries us) < length us" using Suc.prems(3,7) by simp
    have key: "key_ok (m_key_kind m) (m_key_size m) k" by (rule keys_ok_nth [OF src(2) i Full])
    have new: "content us k = None" using Suc.prems(6) sn by simp
    obtain target st1 ks1 vs1 where s:
      "hashmap_find_slot_in_raw_table m st ks (length us) k (hash_of (m_key_kind m) k) = Some target"
      "buf_put st target (Some OCCUPIED) = Some st1" "buf_put ks target (Some k) = Some ks1"
      "buf_put vs target (Some v) = Some vs1" "fresh_table m (st1, ks1, vs1) (us[target := Full k v])"
      "content (us[target := Full k v]) = (content us)(k \<mapsto> v)"
      "length (entries (us[target := Full k v])) = Suc (length (entries us))"
      using rehash_store [OF Suc.prems(5)[unfolded t] Suc.prems(1,2) r key new, of v] by (elim exE conjE) (rule that)
    have "rehash_loop m (length us) [i..<length ts] t
        = rehash_loop m (length us) [Suc i..<length ts] (st1, ks1, vs1)"
      using state arrays_entry [OF src(1) i Full] Full hash_key_ok [OF key] s(1-4)
      by (simp add: up t)
    moreover have "content (us[target := Full k v]) = content (take (Suc i) ts)"
      "length (entries (us[target := Full k v])) = length (entries (take (Suc i) ts))"
      using s(6,7) sn Suc.prems(6,7) by simp_all
    moreover have "e = length ts - Suc i" "Suc i \<le> length ts" using Suc.hyps(2) i by simp_all
    ultimately show ?thesis
      using Suc.hyps(1) [of "Suc i" "us[target := Full k v]" "(st1, ks1, vs1)"] Suc.prems(1-3) s(5) by simp
  next
    case Free
    then have "rehash_loop m (length us) [i..<length ts] t = rehash_loop m (length us) [Suc i..<length ts] t"
      using state by (simp add: up t)
    moreover have "entries (take (Suc i) ts) = entries (take i ts)"
      using content_snoc(2) [OF src(3) i] Free by simp
    moreover have "e = length ts - Suc i" "Suc i \<le> length ts" using Suc.hyps(2) i by simp_all
    ultimately show ?thesis
      using Suc.hyps(1) [of "Suc i" us t] Suc.prems by (simp add: content_def)
  next
    case Dead
    then have "rehash_loop m (length us) [i..<length ts] t = rehash_loop m (length us) [Suc i..<length ts] t"
      using state by (simp add: up t)
    moreover have "entries (take (Suc i) ts) = entries (take i ts)"
      using content_snoc(2) [OF src(3) i] Dead by simp
    moreover have "e = length ts - Suc i" "Suc i \<le> length ts" using Suc.hyps(2) i by simp_all
    ultimately show ?thesis
      using Suc.hyps(1) [of "Suc i" us t] Suc.prems by (simp add: content_def)
  qed
qed

text \<open>The part of the structure that no operation changes, and the blocks it owns.\<close>

definition hm_conf :: "'v hashmap \<Rightarrow> int \<times> size_t \<times> size_t \<times> bool \<times> ('v \<Rightarrow> 'v) option" where
  "hm_conf m = (m_key_kind m, m_key_size m, m_value_size m, m_value_destroy m, m_value_copy m)"

definition hm_own :: "'v hashmap \<Rightarrow> int" where
  "hm_own m = blocks (m_states m) + blocks (m_keys m) + blocks (m_values m)
     + key_blocks (m_key_kind m) * int (m_size m)"

lemma fresh_table_empty:
  "fresh_table m (Ptr (replicate n (Some EMPTY)), buf_new n, buf_new n) (replicate n Free)"
  by (simp add: fresh_table_def arrays_def table_ok_empty keys_ok_def)

lemma hashmap_rehash_ok:
  assumes m: "hm_rel m ts" and n: "\<exists>b. n = 2 ^ b" "8 \<le> n" "n * m_key_size m \<le> SIZE_MAX"
    "n * m_value_size m \<le> SIZE_MAX" and room: "4 * length (entries ts) \<le> 3 * n"
  shows "\<exists>rc m' w'. hashmap_rehash m n w = Some (rc, m', w') \<and> hm_conf m' = hm_conf m
    \<and> destroyed w' = destroyed w \<and> live w' - hm_own m' = live w - hm_own m
    \<and> (no_fail w \<longrightarrow> no_fail w' \<and> (buckets_ok m n \<longrightarrow> rc = 0))
    \<and> (rc = 0 \<and> (\<exists>us. hm_rel m' us \<and> length us = n \<and> content us = content ts \<and> dead us = 0
           \<and> length (entries us) = length (entries ts))
       \<or> rc = - 1 \<and> m' = m)"
proof -
  let ?kb = "n * m_key_size m" and ?vb = "n * m_value_size m"
  have pos: "0 < m_key_size m" "0 < m_value_size m" "8 * m_key_size m \<le> PTRDIFF_MAX" "8 * m_value_size m \<le> PTRDIFF_MAX"
    using m by (simp_all add: hm_rel_def hm_shape_def)
  obtain ok1 w1 where a1: "malloc n w = (ok1, w1)" by fastforce
  obtain ok2 w2 where a2: "malloc ?kb w1 = (ok2, w2)" by fastforce
  obtain ok3 w3 where a3: "malloc ?vb w2 = (ok3, w3)" by fastforce
  note e1 = malloc_effect [OF a1] and e2 = malloc_effect [OF a2] and e3 = malloc_effect [OF a3]
  have d: "destroyed w3 = destroyed w" "live w3 = live w + of_bool ok1 + of_bool ok2 + of_bool ok3"
    using e1(1,3) e2(1,3) e3(1,3) by (simp_all)
  have nf: "no_fail w \<Longrightarrow> no_fail w3" using e1(5) e2(5) e3(5) by blast
  have good: "no_fail w \<Longrightarrow> buckets_ok m n \<Longrightarrow> ok1 \<and> ok2 \<and> ok3"
    using e1(5,6) e2(5,6) e3(6) unfolding buckets_ok_def by blast
  show ?thesis
  proof (cases "ok1 \<and> ok2 \<and> ok3")
    case False
    then have "hashmap_rehash m n w
        = Some (- 1, m, w3\<lparr>live := live w3 - of_bool ok1 - of_bool ok2 - of_bool ok3\<rparr>)"
      using a1 a2 a3 n by (simp add: hashmap_rehash_def calloc_def Let_def)
    then show ?thesis using d nf good False by (auto simp: no_fail_def)
  next
    case True
    then have fit: "n \<le> PTRDIFF_MAX" "?kb \<le> PTRDIFF_MAX" "?vb \<le> PTRDIFF_MAX"
      using e1(4) e2(4) e3(4) by simp_all
    let ?t0 = "(Ptr (replicate n (Some EMPTY)), buf_new n, buf_new n) :: entry_state buf \<times> cell buf \<times> 'a buf"
    let ?u0 = "replicate n Free :: (cell, 'a) slot list"
    obtain b where b: "length ?u0 = 2 ^ b" using n(1) by auto
    have "4 * (length (entries ts) + 0) \<le> 3 * n" "0 < n" using room n(2) by simp_all
    from load_factor [OF this] have r: "length (entries ts) < length ?u0" by simp
    have src: "arrays (m_states m) (m_keys m) (m_values m) ts" "keys_ok (m_key_kind m) (m_key_size m) ts"
      "distinct (map fst (entries ts))"
      using m by (simp_all add: hm_rel_def table_ok_def)
    have p: "length ?u0 \<le> PTRDIFF_MAX" using fit by simp
    obtain t' us' where loop: "rehash_loop m (length ?u0) [0..<length ts] ?t0 = Some t'" "fresh_table m t' us'"
      "length us' = length ?u0" "content us' = content ts" "length (entries us') = length (entries ts)"
      using rehash_loop_ok [OF src b p r le0 fresh_table_empty] by (auto simp: content_def)
    obtain st ks vs where t': "t' = (st, ks, vs)" by (cases t')
    let ?m' = "m\<lparr>m_states := st, m_keys := ks, m_values := vs, m_capacity := n, m_tombstones := 0\<rparr>"
    have "m_capacity m = length ts" using m by (simp add: hm_rel_def)
    then have run: "hashmap_rehash m n w
        = Some (0, ?m', free_ptr (m_values m) (free_ptr (m_keys m) (free_ptr (m_states m) w3)))"
      using a1 a2 a3 n True loop(1) pos t' by (simp add: hashmap_rehash_def calloc_def Let_def)
    have bk: "buckets_ok m n" using n(1,2) fit by (simp add: buckets_ok_def)
    then have "hm_rel ?m' us'"
      using loop pos m room n(2) unfolding t'
      by (auto simp: hm_rel_def fresh_table_def hm_shape_def buckets_ok_def)
    moreover have "blocks st = 1" "blocks ks = 1" "blocks vs = 1"
      using loop(2) unfolding t' by (simp_all add: fresh_table_def)
    ultimately show ?thesis
      using run d nf True loop(2-5) unfolding t'
      by (intro exI [of _ 0] exI [of _ ?m'] exI [of _ "free_ptr (m_values m) (free_ptr (m_keys m) (free_ptr (m_states m) w3))"])
        (auto simp: hm_conf_def hm_own_def fresh_table_def)
  qed
qed

section \<open>Growing\<close>

lemma hm_relD:
  assumes "hm_rel m ts"
  shows "arrays (m_states m) (m_keys m) (m_values m) ts" "hm_shape m ts" "m_capacity m = length ts"
    "m_size m = length (entries ts)" "m_tombstones m = dead ts" "table_ok (hash_of (m_key_kind m)) ts"
    "keys_ok (m_key_kind m) (m_key_size m) ts" "4 * (length (entries ts) + dead ts) \<le> 3 * length ts"
    "0 < m_key_size m" "0 < m_value_size m"
    "8 * m_key_size m \<le> PTRDIFF_MAX" "8 * m_value_size m \<le> PTRDIFF_MAX"
  using assms by (simp_all add: hm_rel_def hm_shape_def)

lemma hm_rel_buckets: "hm_rel m ts \<Longrightarrow> ts \<noteq> [] \<Longrightarrow> buckets_ok m (length ts)"
  by (simp add: hm_rel_def hm_shape_def)

lemma bucket_loop_ok:
  assumes "b = 8 \<or> 3 * b \<le> 8 * n" and "0 < n" and "8 * n \<le> SIZE_MAX" and "\<exists>e. b = 2 ^ e"
  shows "\<exists>c. bucket_loop n b = Some c \<and> b \<le> c \<and> c \<le> 8 * n \<and> 4 * n \<le> 3 * c \<and> (\<exists>e. c = 2 ^ e)"
  using assms
proof (induction "8 * n - b" arbitrary: b rule: less_induct)
  case less
  have ex: "sz_mul n 4 = n * 4" using less.prems(3) by simp
  have "3 * b \<le> SIZE_MAX" "2 * b \<le> SIZE_MAX" using less.prems by (auto simp: SIZE_MAX_def)
  then have ex2: "sz_mul b 3 = b * 3" "sz_mul b 2 = b * 2" by (simp_all add: mult.commute)
  have pos: "0 < b" using less.prems(4) by auto
  show ?case
  proof (cases "b * 3 < n * 4")
    case True
    have "\<exists>e. b * 2 = 2 ^ e" using less.prems(4) by (metis power_Suc2)
    moreover have "8 * n - b * 2 < 8 * n - b" "3 * (b * 2) \<le> 8 * n" using True pos by simp_all
    ultimately obtain c where "bucket_loop n (b * 2) = Some c" "b * 2 \<le> c" "c \<le> 8 * n" "4 * n \<le> 3 * c" "\<exists>e. c = 2 ^ e"
      using less.hyps [of "b * 2"] less.prems(2,3) by auto
    then show ?thesis using ex ex2 True by (subst bucket_loop.simps) auto
  next
    case False
    moreover have "b \<le> 8 * n" using less.prems(1,2) by auto
    ultimately show ?thesis using ex ex2 less.prems(4) by (subst bucket_loop.simps) auto
  qed
qed

lemma bucket_capacity_ok:
  assumes "0 < n" and "8 * n \<le> SIZE_MAX"
  shows "\<exists>c. hashmap_bucket_capacity_for_entries n = Some c \<and> 8 \<le> c \<and> c \<le> 8 * n \<and> 4 * n \<le> 3 * c
    \<and> (\<exists>e. c = 2 ^ e)"
proof -
  have "\<exists>e. 8 = (2 :: nat) ^ e" by (rule exI [of _ 3]) simp
  then show ?thesis
    using bucket_loop_ok [of 8 n] assms
    by (simp add: hashmap_bucket_capacity_for_entries_def HASHMAP_INIT_CAPACITY_def)
qed

text \<open>The load comparison of \<open>hashmap_prepare_insert\<close> does not wrap.\<close>

lemma buckets_small:
  assumes "buckets_ok m n"
  shows "3 * n + 4 \<le> SIZE_MAX" "2 * n \<le> SIZE_MAX" "n * 2 * m_key_size m \<le> SIZE_MAX"
    "n * 2 * m_value_size m \<le> SIZE_MAX"
proof -
  obtain b where b: "n = 2 ^ b" "n \<le> PTRDIFF_MAX" using assms by (auto simp: buckets_ok_def)
  then have "(2 :: nat) ^ b < 2 ^ 63" by (simp add: PTRDIFF_MAX_def)
  then have "b < 63" by (rule power_less_imp_less_exp [rotated]) simp
  then have "n \<le> 2 ^ 62" unfolding b(1) by (intro power_increasing) simp_all
  then show "3 * n + 4 \<le> SIZE_MAX" "2 * n \<le> SIZE_MAX" by (simp_all add: SIZE_MAX_def)
  show "n * 2 * m_key_size m \<le> SIZE_MAX" "n * 2 * m_value_size m \<le> SIZE_MAX"
    using assms SIZE_MAX_PTRDIFF_MAX by (simp_all add: buckets_ok_def)
qed

lemma buckets_double: "buckets_ok m n \<Longrightarrow> \<exists>b. n * 2 = 2 ^ b"
  unfolding buckets_ok_def by (metis power_Suc2)

text \<open>The next capacity when the table has to grow.\<close>

definition grown :: "'v hashmap \<Rightarrow> nat" where
  "grown m = (if m_capacity m = 0 then 8
     else if 4 * (m_size m + m_tombstones m + 1) \<le> 3 * m_capacity m then m_capacity m else 2 * m_capacity m)"

lemma hashmap_prepare_insert_ok:
  assumes m: "hm_rel m ts"
  shows "\<exists>rc m' w'. hashmap_prepare_insert m w = Some (rc, m', w') \<and> hm_conf m' = hm_conf m
    \<and> destroyed w' = destroyed w \<and> live w' - hm_own m' = live w - hm_own m
    \<and> (no_fail w \<longrightarrow> no_fail w' \<and> (buckets_ok m (grown m) \<longrightarrow> rc = 0))
    \<and> (rc = 0 \<and> (\<exists>us. hm_rel m' us \<and> length us = grown m \<and> content us = content ts \<and> us \<noteq> []
           \<and> 4 * (length (entries us) + dead us + 1) \<le> 3 * length us
           \<and> length (entries us) + dead us \<le> length (entries ts) + dead ts)
       \<or> rc = - 1 \<and> m' = m)"
proof -
  note r = hm_relD [OF m]
  have pow8: "\<exists>b. 8 = (2 :: nat) ^ b" by (rule exI [of _ 3]) simp
  consider (none) "ts = []" | (room) "ts \<noteq> []" "4 * (m_size m + m_tombstones m + 1) \<le> 3 * m_capacity m"
    | (full) "ts \<noteq> []" "\<not> 4 * (m_size m + m_tombstones m + 1) \<le> 3 * m_capacity m" by blast
  then show ?thesis
  proof cases
    case none
    have "8 * m_key_size m \<le> SIZE_MAX" "8 * m_value_size m \<le> SIZE_MAX"
      using r(11,12) SIZE_MAX_PTRDIFF_MAX by simp_all
    moreover have "hashmap_prepare_insert m w = hashmap_rehash m 8 w" "grown m = 8"
      using none r(3) by (simp_all add: hashmap_prepare_insert_def HASHMAP_INIT_CAPACITY_def grown_def)
    ultimately obtain rc m' w' where h: "hashmap_prepare_insert m w = Some (rc, m', w')" "hm_conf m' = hm_conf m"
      "destroyed w' = destroyed w" "live w' - hm_own m' = live w - hm_own m"
      "no_fail w \<longrightarrow> no_fail w' \<and> (buckets_ok m (grown m) \<longrightarrow> rc = 0)"
      "rc = 0 \<and> (\<exists>us. hm_rel m' us \<and> length us = grown m \<and> content us = content ts \<and> dead us = 0
           \<and> length (entries us) = length (entries ts)) \<or> rc = - 1 \<and> m' = m"
      using hashmap_rehash_ok [OF m pow8 order_refl, of w] none by auto
    have "rc = 0 \<and> (\<exists>us. hm_rel m' us \<and> length us = grown m \<and> content us = content ts \<and> us \<noteq> []
           \<and> 4 * (length (entries us) + dead us + 1) \<le> 3 * length us
           \<and> length (entries us) + dead us \<le> length (entries ts) + dead ts)
       \<or> rc = - 1 \<and> m' = m"
      using h(6) none \<open>grown m = 8\<close> by fastforce
    then show ?thesis using h(1-5) by blast
  next
    case room
    note bs = buckets_small [OF hm_rel_buckets [OF m room(1)]]
    have "hashmap_prepare_insert m w = Some (0, m, w)" "grown m = length ts"
      using room bs r(3,4,5) by (simp_all add: hashmap_prepare_insert_def grown_def)
    then show ?thesis using m room r(3-5) by auto
  next
    case full
    note bok = hm_rel_buckets [OF m full(1)]
    note bs = buckets_small [OF bok]
    have p: "8 \<le> length ts * 2" "4 * length (entries ts) \<le> 3 * (length ts * 2)"
      using bok r(8) by (simp_all add: buckets_ok_def)
    have h0: "hashmap_prepare_insert m w = hashmap_rehash m (length ts * 2) w" "grown m = length ts * 2"
      using full bs r(3-5,8) by (simp_all add: hashmap_prepare_insert_def grown_def mult.commute)
    from hashmap_rehash_ok [OF m buckets_double [OF bok] p(1) bs(3,4) p(2), of w]
    obtain rc m' w' where h': "hashmap_rehash m (length ts * 2) w = Some (rc, m', w')" "hm_conf m' = hm_conf m"
      "destroyed w' = destroyed w" "live w' - hm_own m' = live w - hm_own m"
      "no_fail w \<longrightarrow> no_fail w' \<and> (buckets_ok m (length ts * 2) \<longrightarrow> rc = 0)"
      "rc = 0 \<and> (\<exists>us. hm_rel m' us \<and> length us = length ts * 2 \<and> content us = content ts \<and> dead us = 0
           \<and> length (entries us) = length (entries ts)) \<or> rc = - 1 \<and> m' = m"
      by (elim exE conjE) (rule that)
    note h = h' [folded h0]
    have "4 * (length (entries ts) + 1) \<le> 3 * (length ts * 2)"
      using r(8) bok by (simp add: buckets_ok_def)
    then have "rc = 0 \<and> (\<exists>us. hm_rel m' us \<and> length us = grown m \<and> content us = content ts \<and> us \<noteq> []
           \<and> 4 * (length (entries us) + dead us + 1) \<le> 3 * length us
           \<and> length (entries us) + dead us \<le> length (entries ts) + dead ts)
       \<or> rc = - 1 \<and> m' = m"
      using h(6) h0(2) full(1) by fastforce
    then show ?thesis using h(1-5) by blast
  qed
qed

lemma bucket_loop_le:
  assumes "b \<le> p" and "\<exists>e. b = 2 ^ e" and "\<exists>e. p = 2 ^ e" and "4 * n \<le> 3 * p" and "3 * p \<le> SIZE_MAX"
  shows "\<exists>c. bucket_loop n b = Some c \<and> b \<le> c \<and> c \<le> p \<and> 4 * n \<le> 3 * c \<and> (\<exists>e. c = 2 ^ e)"
  using assms
proof (induction "p - b" arbitrary: b rule: less_induct)
  case less
  have ex: "sz_mul n 4 = n * 4" "sz_mul b 3 = b * 3" "sz_mul b 2 = b * 2" using less.prems by simp_all
  have pos: "0 < b" using less.prems(2) by auto
  show ?case
  proof (cases "b * 3 < n * 4")
    case True
    then have lt: "b < p" using less.prems(4) by simp
    obtain d e where de: "b = 2 ^ d" "p = 2 ^ e" using less.prems(2,3) by blast
    with lt have "Suc d \<le> e" using power_less_imp_less_exp [of 2 d e] by simp
    then have "2 ^ Suc d \<le> (2 :: nat) ^ e" by (intro power_increasing) simp_all
    then have two: "b * 2 \<le> p" using de by simp
    moreover have "\<exists>e. b * 2 = 2 ^ e" using less.prems(2) by (metis power_Suc2)
    moreover have "p - b * 2 < p - b" using lt pos by simp
    ultimately obtain c where "bucket_loop n (b * 2) = Some c" "b * 2 \<le> c" "c \<le> p" "4 * n \<le> 3 * c" "\<exists>e. c = 2 ^ e"
      using less.hyps [of "b * 2"] less.prems(3-5) by auto
    then show ?thesis using ex True by (subst bucket_loop.simps) auto
  next
    case False
    then show ?thesis using ex less.prems by (subst bucket_loop.simps) auto
  qed
qed

text \<open>Reserving when the capacity for the requested number of entries is known.\<close>

lemma hashmap_reserve_to:
  assumes m: "hm_rel m ts" and c: "hashmap_bucket_capacity_for_entries n = Some c" "8 \<le> c" "4 * n \<le> 3 * c"
    "\<exists>e. c = 2 ^ e" and sz: "c * m_key_size m \<le> SIZE_MAX" "c * m_value_size m \<le> SIZE_MAX"
  shows "\<exists>rc m' w'. hashmap_reserve (Ptr m) n w = Some (rc, Ptr m', w') \<and> hm_conf m' = hm_conf m
    \<and> destroyed w' = destroyed w \<and> live w' - hm_own m' = live w - hm_own m
    \<and> (no_fail w \<longrightarrow> no_fail w' \<and> (buckets_ok m c \<longrightarrow> rc = 0))
    \<and> (rc = 0 \<and> (\<exists>us. hm_rel m' us \<and> content us = content ts \<and> 4 * n \<le> 3 * length us
           \<and> length us \<le> max (length ts) c \<and> length (entries us) + dead us \<le> length (entries ts) + dead ts)
       \<or> rc = - 1 \<and> m' = m)"
proof (cases "n = 0")
  case True
  then show ?thesis using m by (auto simp: hashmap_reserve_def)
next
  case False
  note r = hm_relD [OF m]
  let ?c = "if c < length ts then length ts else c"
  have cap: "m_capacity m = length ts" by (rule r(3))
  show ?thesis
  proof (cases "?c = length ts \<and> dead ts = 0")
    case True
    then have "hashmap_reserve (Ptr m) n w = Some (0, Ptr m, w)"
      using False c(1) cap r(5) by (auto simp: hashmap_reserve_def Let_def split: if_splits)
    moreover have "4 * n \<le> 3 * length ts" using True c(3) by (auto split: if_splits)
    ultimately show ?thesis using m by auto
  next
    case rehash: False
    have run: "hashmap_reserve (Ptr m) n w = (case hashmap_rehash m ?c w of None \<Rightarrow> None
        | Some (rc, m1, w1) \<Rightarrow> Some (rc, Ptr m1, w1))"
      using False c(1) cap r(5) rehash by (auto simp: hashmap_reserve_def Let_def split: option.splits)
    have ts: "buckets_ok m (length ts)" if "c < length ts"
      using hm_rel_buckets [OF m] that by (cases ts) auto
    have pow: "\<exists>e. ?c = 2 ^ e" using c(4) ts by (auto simp: buckets_ok_def)
    have pre: "8 \<le> ?c" "?c * m_key_size m \<le> SIZE_MAX" "?c * m_value_size m \<le> SIZE_MAX"
      using c(2) ts sz SIZE_MAX_PTRDIFF_MAX by (auto simp: buckets_ok_def)
    have room: "4 * length (entries ts) \<le> 3 * ?c" using r(8) by auto
    have bk: "buckets_ok m c \<longrightarrow> buckets_ok m ?c" using ts by simp
    have mx: "?c \<le> max (length ts) c" "4 * n \<le> 3 * ?c" using c(3) by auto
    from hashmap_rehash_ok [OF m pow pre room, of w] obtain rc m' w' where
      h: "hashmap_rehash m ?c w = Some (rc, m', w')" "hm_conf m' = hm_conf m"
      "destroyed w' = destroyed w" "live w' - hm_own m' = live w - hm_own m"
      "no_fail w \<longrightarrow> no_fail w' \<and> (buckets_ok m ?c \<longrightarrow> rc = 0)"
      and res: "rc = 0 \<and> (\<exists>us. hm_rel m' us \<and> length us = ?c \<and> content us = content ts \<and> dead us = 0
           \<and> length (entries us) = length (entries ts)) \<or> rc = - 1 \<and> m' = m"
      by (elim exE conjE) (rule that)
    have "hashmap_reserve (Ptr m) n w = Some (rc, Ptr m', w')" using run h(1) by simp
    moreover have "rc = 0 \<and> (\<exists>us. hm_rel m' us \<and> content us = content ts \<and> 4 * n \<le> 3 * length us
           \<and> length us \<le> max (length ts) c \<and> length (entries us) + dead us \<le> length (entries ts) + dead ts)
       \<or> rc = - 1 \<and> m' = m"
      using res
    proof
      assume "rc = 0 \<and> (\<exists>us. hm_rel m' us \<and> length us = ?c \<and> content us = content ts \<and> dead us = 0
           \<and> length (entries us) = length (entries ts))"
      then obtain us where "rc = 0" "hm_rel m' us" "length us = ?c" "content us = content ts" "dead us = 0"
        "length (entries us) = length (entries ts)" by blast
      then show ?thesis using mx by (intro disjI1 conjI exI [of _ us]) simp_all
    qed simp
    ultimately show ?thesis using h(2-5) bk
      by (intro exI [of _ rc] exI [of _ m'] exI [of _ w']) (simp split del: if_split)
  qed
qed

lemma hashmap_reserve_ok:
  assumes m: "hm_rel m ts" and n: "8 * n * m_key_size m \<le> SIZE_MAX" "8 * n * m_value_size m \<le> SIZE_MAX"
  shows "\<exists>rc m' w'. hashmap_reserve (Ptr m) n w = Some (rc, Ptr m', w') \<and> hm_conf m' = hm_conf m
    \<and> destroyed w' = destroyed w \<and> live w' - hm_own m' = live w - hm_own m
    \<and> (no_fail w \<longrightarrow> no_fail w' \<and> (8 * n * m_key_size m \<le> PTRDIFF_MAX \<and> 8 * n * m_value_size m \<le> PTRDIFF_MAX \<longrightarrow> rc = 0))
    \<and> (rc = 0 \<and> (\<exists>us. hm_rel m' us \<and> content us = content ts \<and> 4 * n \<le> 3 * length us
           \<and> length us \<le> max (length ts) (8 * n) \<and> length (entries us) + dead us \<le> length (entries ts) + dead ts)
       \<or> rc = - 1 \<and> m' = m)"
proof (cases "n = 0")
  case True
  then show ?thesis using m by (auto simp: hashmap_reserve_def)
next
  case False
  note r = hm_relD [OF m]
  have n8: "8 * n \<le> SIZE_MAX" using n(1) r(9) by (cases "m_key_size m") auto
  obtain c where c: "hashmap_bucket_capacity_for_entries n = Some c" "8 \<le> c" "c \<le> 8 * n" "4 * n \<le> 3 * c" "\<exists>e. c = 2 ^ e"
    using bucket_capacity_ok [OF _ n8] False by auto
  have mul: "c * m_key_size m \<le> 8 * n * m_key_size m" "c * m_value_size m \<le> 8 * n * m_value_size m"
    using c(3) by simp_all
  have bk: "buckets_ok m c" if "8 * n * m_key_size m \<le> PTRDIFF_MAX" "8 * n * m_value_size m \<le> PTRDIFF_MAX"
  proof -
    have "8 * n \<le> PTRDIFF_MAX" by (rule mult_le_PTRDIFF [OF that(1) r(9)])
    then have "c \<le> PTRDIFF_MAX" using c(3) by simp
    moreover have "c * m_key_size m \<le> PTRDIFF_MAX" "c * m_value_size m \<le> PTRDIFF_MAX"
      by (rule order_trans [OF mul(1) that(1)], rule order_trans [OF mul(2) that(2)])
    ultimately show ?thesis using c(2,5) by (simp add: buckets_ok_def)
  qed
  have mx: "max (length ts) c \<le> max (length ts) (8 * n)" using c(3) by simp
  from hashmap_reserve_to [OF m c(1,2,4,5) order_trans [OF mul(1) n(1)] order_trans [OF mul(2) n(2)], of w]
  obtain rc m' w' where
      h: "hashmap_reserve (Ptr m) n w = Some (rc, Ptr m', w')" "hm_conf m' = hm_conf m"
      "destroyed w' = destroyed w" "live w' - hm_own m' = live w - hm_own m"
      "no_fail w \<longrightarrow> no_fail w' \<and> (buckets_ok m c \<longrightarrow> rc = 0)"
      and res: "rc = 0 \<and> (\<exists>us. hm_rel m' us \<and> content us = content ts \<and> 4 * n \<le> 3 * length us
           \<and> length us \<le> max (length ts) c \<and> length (entries us) + dead us \<le> length (entries ts) + dead ts)
       \<or> rc = - 1 \<and> m' = m"
    by (elim exE conjE) (rule that)
  have "rc = 0 \<and> (\<exists>us. hm_rel m' us \<and> content us = content ts \<and> 4 * n \<le> 3 * length us
           \<and> length us \<le> max (length ts) (8 * n) \<and> length (entries us) + dead us \<le> length (entries ts) + dead ts)
       \<or> rc = - 1 \<and> m' = m"
    using res mx by (elim disjE) (meson order_trans, simp)
  then show ?thesis using h bk by (intro exI [of _ rc] exI [of _ m'] exI [of _ w']) simp
qed

section \<open>Lookup\<close>

lemma lookup_slot_ok:
  assumes m: "hm_rel m ts" and key: "key_ok (m_key_kind m) (m_key_size m) key"
  shows "case content ts key of
      Some v \<Rightarrow> \<exists>i < length ts. lookup_slot (Ptr m) (Ptr key) = Some (Some (1, i)) \<and> ts ! i = Full key v
    | None \<Rightarrow> lookup_slot (Ptr m) (Ptr key) = Some None \<or> (\<exists>i. lookup_slot (Ptr m) (Ptr key) = Some (Some (0, i)))"
proof (cases "ts = []")
  case True
  then show ?thesis
    using key_ok_valid [OF key] hm_relD(3) [OF m]
    by (simp add: lookup_slot_def hashmap_key_is_valid_def content_def)
next
  case False
  then have "lookup_slot (Ptr m) (Ptr key) = map_option Some (hashmap_find_slot m key (hash_of (m_key_kind m) key))"
    using key_ok_valid [OF key] hm_relD(3) [OF m] hash_key_ok [OF key]
    by (simp add: lookup_slot_def hashmap_key_is_valid_def map_option_case bind_split split: option.splits)
  then show ?thesis
    using hashmap_find_slot_ok [OF m False key] by (auto split: option.splits)
qed

lemma hashmap_reads_ok:
  assumes m: "hm_rel m ts" and key: "key_ok (m_key_kind m) (m_key_size m) key"
  shows "hashmap_contains (Ptr m) (Ptr key) = Some (if key \<in> dom (content ts) then 1 else 0)"
    "hashmap_get_as (Ptr m) (Ptr key) = Some (case content ts key of None \<Rightarrow> NULL | Some v \<Rightarrow> Ptr v)"
    "hashmap_at (Ptr m) (Ptr key) = Some NULL \<longleftrightarrow> content ts key = None"
proof -
  note l = lookup_slot_ok [OF m key] and arr = hm_relD(1) [OF m]
  show "hashmap_contains (Ptr m) (Ptr key) = Some (if key \<in> dom (content ts) then 1 else 0)"
    using l by (auto simp: hashmap_contains_def split: option.splits)
  show "hashmap_at (Ptr m) (Ptr key) = Some NULL \<longleftrightarrow> content ts key = None"
    using l by (auto simp: hashmap_at_def split: option.splits)
  show "hashmap_get_as (Ptr m) (Ptr key) = Some (case content ts key of None \<Rightarrow> NULL | Some v \<Rightarrow> Ptr v)"
  proof (cases "content ts key")
    case None
    then show ?thesis using l by (auto simp: hashmap_get_as_def hashmap_at_def)
  next
    case (Some v)
    then obtain i where i: "i < length ts" "lookup_slot (Ptr m) (Ptr key) = Some (Some (1, i))" "ts ! i = Full key v"
      using l by auto
    then show ?thesis
      using arrays_entry [OF arr i(1,3)] Some by (simp add: hashmap_get_as_def hashmap_at_def)
  qed
qed

section \<open>Storing\<close>

lemma stage_value_ok:
  assumes "m_value_size m \<le> PTRDIFF_MAX"
  shows "\<exists>r w'. stage_value m x w = (r, w') \<and> destroyed w' = destroyed w
    \<and> (no_fail w \<longrightarrow> no_fail w' \<and> r \<noteq> None)
    \<and> (r = Some (copied (m_value_copy m) x) \<and> live w' = live w + 1 \<or> r = None \<and> live w' = live w)"
proof -
  obtain ok w1 where a: "malloc (m_value_size m) w = (ok, w1)" by fastforce
  obtain r w2 where c: "copy_element (m_value_copy m) x w1 = (r, w2)" by fastforce
  note ea = malloc_effect [OF a] and ec = copy_element_effect [OF c]
  show ?thesis
  proof (cases ok)
    case False
    then show ?thesis using a ea(1,3,5,6) assms by (auto simp: stage_value_def)
  next
    case True
    then show ?thesis
      using a c ea(1,3,5) ec(1,2,4,5) ec(3) [of "the r"]
      by (cases r) (auto simp: stage_value_def hashmap_copy_element_def)
  qed
qed

lemma hm_conf_simps [simp]:
  "hm_conf (m\<lparr>m_values := v\<rparr>) = hm_conf m"
  "hm_conf (m\<lparr>m_tombstones := t, m_keys := k, m_values := v, m_states := s, m_size := n\<rparr>) = hm_conf m"
  "hm_conf (m\<lparr>m_states := s, m_size := n, m_tombstones := t\<rparr>) = hm_conf m"
  by (simp_all add: hm_conf_def)

lemma hm_confD: "hm_conf m' = hm_conf m \<Longrightarrow> m_key_kind m' = m_key_kind m \<and> m_key_size m' = m_key_size m
    \<and> m_value_size m' = m_value_size m \<and> m_value_destroy m' = m_value_destroy m \<and> m_value_copy m' = m_value_copy m"
  by (simp add: hm_conf_def)

lemma hm_rel_blocks:
  assumes "hm_rel m ts" and "ts \<noteq> []"
  shows "m_states m \<noteq> NULL" "m_keys m \<noteq> NULL" "m_values m \<noteq> NULL"
  using assms by (simp_all add: hm_rel_def hm_shape_def)

lemma keys_ok_Dead: "keys_ok kind n ts \<Longrightarrow> keys_ok kind n (ts[i := Dead])"
  using set_update_subset_insert [of ts i Dead] unfolding keys_ok_def by blast

lemma replace_value_ok:
  assumes m: "hm_rel m ts" and i: "i < length ts" "ts ! i = Full key u"
  shows "\<exists>rc m' w'. replace_value m i x w = Some (rc, Ptr m', w') \<and> hm_conf m' = hm_conf m
    \<and> live w' - hm_own m' = live w - hm_own m \<and> (no_fail w \<longrightarrow> no_fail w' \<and> rc = 0)
    \<and> (rc = 0 \<and> (\<exists>us. hm_rel m' us \<and> content us = (content ts)(key \<mapsto> copied (m_value_copy m) x)
           \<and> length us = length ts \<and> length (entries us) + dead us = length (entries ts) + dead ts)
         \<and> destroyed w' = destroyed w @ log_if (m_value_destroy m) [u]
       \<or> rc = - 1 \<and> m' = m \<and> destroyed w' = destroyed w)"
proof -
  note d = hm_relD [OF m]
  have ne: "ts \<noteq> []" using i(1) by auto
  have "m_value_size m \<le> PTRDIFF_MAX" using d(12) by simp
  from stage_value_ok [OF this, of x w] obtain r w1 where s: "stage_value m x w = (r, w1)" "destroyed w1 = destroyed w"
    "no_fail w \<longrightarrow> no_fail w1 \<and> r \<noteq> None"
    "r = Some (copied (m_value_copy m) x) \<and> live w1 = live w + 1 \<or> r = None \<and> live w1 = live w"
    by (elim exE conjE) (rule that)
  from s(4) show ?thesis
  proof
    assume "r = None \<and> live w1 = live w"
    then show ?thesis using s(1-3)
      by (intro exI [of _ "- 1"] exI [of _ m] exI [of _ w1]) (auto simp: replace_value_def)
  next
    assume ok: "r = Some (copied (m_value_copy m) x) \<and> live w1 = live w + 1"
    let ?v = "copied (m_value_copy m) x"
    obtain vs where p: "buf_put (m_values m) i (Some ?v) = Some vs"
      "arrays (m_states m) (m_keys m) vs (ts[i := Full key ?v])" "vs \<noteq> NULL"
      using arrays_put_value [OF d(1) i] by blast
    note t = table_replace [OF d(6) i, of ?v]
    have "dead (ts[i := Full key ?v]) = dead ts" using dead_update [OF i(1), of "Full key ?v"] i(2) by simp
    then have rel: "hm_rel (m\<lparr>m_values := vs\<rparr>) (ts[i := Full key ?v])"
      using m ne p t keys_ok_update [OF d(7) keys_ok_nth [OF d(7) i]]
      by (simp add: hm_rel_def hm_shape_def buckets_ok_def)
    have "replace_value m i x w = Some (0, Ptr (m\<lparr>m_values := vs\<rparr>),
        free_block (destroy_element (m_value_destroy m) u w1))"
      using s(1) ok arrays_entry [OF d(1) i] p(1)
      by (simp add: replace_value_def hashmap_destroy_element_def)
    moreover have "hm_own (m\<lparr>m_values := vs\<rparr>) = hm_own m"
      using p(3) hm_rel_blocks [OF m ne] by (simp add: hm_own_def)
    ultimately show ?thesis
      using rel s(2,3) ok t(2,3) \<open>dead (ts[i := Full key ?v]) = dead ts\<close>
      by (intro exI [of _ 0] exI [of _ "m\<lparr>m_values := vs\<rparr>"]
          exI [of _ "free_block (destroy_element (m_value_destroy m) u w1)"])
        (auto simp: log_if_def intro!: exI [of _ "ts[i := Full key ?v]"])
  qed
qed

lemma insert_entry_ok:
  assumes m: "hm_rel m ts" and i: "i < length ts" "\<not> is_full (ts ! i)" and r: "reach ts (hash_of (m_key_kind m) key) i"
    and key: "key_ok (m_key_kind m) (m_key_size m) key" and new: "content ts key = None"
    and room: "4 * (length (entries ts) + dead ts + 1) \<le> 3 * length ts"
  shows "\<exists>rc m' w'. insert_entry m i key x w = Some (rc, Ptr m', w') \<and> hm_conf m' = hm_conf m
    \<and> live w' - hm_own m' = live w - hm_own m \<and> destroyed w' = destroyed w
    \<and> (no_fail w \<longrightarrow> no_fail w' \<and> rc = 0)
    \<and> (rc = 0 \<and> (\<exists>us. hm_rel m' us \<and> content us = (content ts)(key \<mapsto> copied (m_value_copy m) x)
           \<and> length us = length ts \<and> length (entries us) + dead us \<le> length (entries ts) + dead ts + 1)
       \<or> rc = - 1 \<and> m' = m)"
proof -
  note d = hm_relD [OF m]
  have ne: "ts \<noteq> []" using i(1) by auto
  have sizes: "m_value_size m \<le> PTRDIFF_MAX" "m_key_size m \<le> PTRDIFF_MAX" using d(11,12) by simp_all
  obtain ok w1 where a: "malloc (m_key_size m) w = (ok, w1)" by fastforce
  note ea = malloc_effect [OF a]
  obtain kr w2 where k: "copy_key (m_key_kind m) (m_key_size m) key w1 = Some (kr, w2)" "destroyed w2 = destroyed w1"
    "no_fail w1 \<longrightarrow> no_fail w2 \<and> kr = Some key"
    "kr = Some key \<and> live w2 = live w1 + key_blocks (m_key_kind m) \<or> kr = None \<and> live w2 = live w1"
    using copy_key_ok [OF key, of w1] by (elim exE conjE) (rule that)
  obtain vr w3 where s: "stage_value m x w2 = (vr, w3)" "destroyed w3 = destroyed w2"
    "no_fail w2 \<longrightarrow> no_fail w3 \<and> vr \<noteq> None"
    "vr = Some (copied (m_value_copy m) x) \<and> live w3 = live w2 + 1 \<or> vr = None \<and> live w3 = live w2"
    using stage_value_ok [OF sizes(1), of x w2] by (elim exE conjE) (rule that)
  consider (nomem) "\<not> ok" | (nokey) ok "kr = None" "live w2 = live w1"
    | (noval) ok "kr = Some key" "live w2 = live w1 + key_blocks (m_key_kind m)" "vr = None" "live w3 = live w2"
    | (stored) ok "kr = Some key" "live w2 = live w1 + key_blocks (m_key_kind m)"
      "vr = Some (copied (m_value_copy m) x)" "live w3 = live w2 + 1"
    using k(4) s(4) by blast
  then show ?thesis
  proof cases
    case nomem
    then show ?thesis using a ea(1,3,5,6) sizes
      by (intro exI [of _ "- 1"] exI [of _ m] exI [of _ w1]) (auto simp: insert_entry_def)
  next
    case nokey
    then show ?thesis using a ea(1,3,5,6) k(1-3)
      by (intro exI [of _ "- 1"] exI [of _ m] exI [of _ "free_block w2"])
        (auto simp: insert_entry_def hashmap_copy_key_def)
  next
    case noval
    obtain w4 where "destroy_key (m_key_kind m) key w3 = Some w4" "destroyed w4 = destroyed w3"
      "no_fail w4 = no_fail w3" "live w4 = live w3 - key_blocks (m_key_kind m)"
      using destroy_key_ok [OF key, of w3] by blast
    then show ?thesis
      using a ea(1,3,5,6) k(1-3) s(1-3) noval
      by (intro exI [of _ "- 1"] exI [of _ m] exI [of _ "free_block w4"]) (auto simp: insert_entry_def hashmap_copy_key_def hashmap_destroy_key_def)
  next
    case stored
    let ?v = "copied (m_value_copy m) x" and ?us = "ts[i := Full key (copied (m_value_copy m) x)]"
    obtain st ks vs where p: "buf_put (m_states m) i (Some OCCUPIED) = Some st" "buf_put (m_keys m) i (Some key) = Some ks"
      "buf_put (m_values m) i (Some ?v) = Some vs" "arrays st ks vs ?us" "st \<noteq> NULL" "ks \<noteq> NULL" "vs \<noteq> NULL"
      using arrays_put [OF d(1) i(1), of key ?v] by (elim exE conjE) (rule that)
    note t = table_insert [OF d(6) new i r, of ?v]
    have dd: "dead ?us + of_bool (ts ! i = Dead) = dead ts" using dead_update [OF i(1), of "Full key ?v"] by simp
    let ?tb = "if ts ! i = Dead then sz_sub (m_tombstones m) 1 else m_tombstones m"
    let ?m' = "m\<lparr>m_tombstones := ?tb, m_keys := ks, m_values := vs, m_states := st, m_size := sz_add (m_size m) 1\<rparr>"
    have small: "dead ts \<le> SIZE_MAX" "length (entries ts) + 1 \<le> SIZE_MAX"
      using buckets_small(1) [OF hm_rel_buckets [OF m ne]] room by simp_all
    have tb: "?tb = dead ?us"
      using dd d(5) small(1) by (auto split: if_splits)
    have sz: "sz_add (m_size m) 1 = length (entries ?us)" using d(4) t(3) small(2) by simp
    have rel: "hm_rel ?m' ?us"
      using m ne p t tb sz room dd keys_ok_update [OF d(7) key]
      by (simp add: hm_rel_def hm_shape_def buckets_ok_def)
    have run: "insert_entry m i key x w = Some (0, Ptr ?m', free_block (free_block w3))"
      using a stored k(1) s(1) p(1-3) arrays_state [OF d(1) i(1)]
      by (simp add: insert_entry_def hashmap_copy_key_def)
    have own: "hm_own ?m' = hm_own m + key_blocks (m_key_kind m)"
      using p(5-7) hm_rel_blocks [OF m ne] sz t(3) d(4) by (simp add: hm_own_def algebra_simps)
    have "live (free_block (free_block w3)) - hm_own ?m' = live w - hm_own m"
      using stored ea(3) own by simp
    moreover have "destroyed (free_block (free_block w3)) = destroyed w" using s(2) k(2) ea(1) by simp
    moreover have "no_fail w \<longrightarrow> no_fail (free_block (free_block w3))" using ea(5) k(3) s(3) by simp
    moreover have "length (entries ?us) + dead ?us \<le> length (entries ts) + dead ts + 1" using t(3) dd by simp
    ultimately show ?thesis
      using run rel t(2)
      by (intro exI [of _ 0] exI [of _ ?m'] exI [of _ "free_block (free_block w3)"])
        (auto intro!: exI [of _ ?us])
  qed
qed

abbreviation load :: "('k, 'v) slot list \<Rightarrow> nat" where
  "load ts \<equiv> length (entries ts) + dead ts"

text \<open>The contract of \<open>hashmap_set\<close>: the table may have grown even when the call fails.\<close>

lemma hashmap_set_ok:
  assumes m: "hm_rel m ts" and key: "key_ok (m_key_kind m) (m_key_size m) key"
  shows "\<exists>rc m' w'. hashmap_set (Ptr m) (Ptr key) (Ptr x) w = Some (rc, Ptr m', w') \<and> hm_conf m' = hm_conf m
    \<and> live w' - hm_own m' = live w - hm_own m
    \<and> (no_fail w \<longrightarrow> no_fail w' \<and> (buckets_ok m (grown m) \<longrightarrow> rc = 0))
    \<and> (rc = 0 \<and> (\<exists>us. hm_rel m' us \<and> content us = (content ts)(key \<mapsto> copied (m_value_copy m) x)
           \<and> length us = grown m \<and> load us \<le> load ts + 1)
         \<and> destroyed w' = destroyed w
             @ log_if (m_value_destroy m) (case content ts key of None \<Rightarrow> [] | Some u \<Rightarrow> [u])
       \<or> rc = - 1 \<and> (\<exists>us. hm_rel m' us \<and> content us = content ts) \<and> destroyed w' = destroyed w)"
proof -
  from hashmap_prepare_insert_ok [OF m, of w] obtain rc0 m1 w1 where
    p: "hashmap_prepare_insert m w = Some (rc0, m1, w1)" "hm_conf m1 = hm_conf m"
    "destroyed w1 = destroyed w" "live w1 - hm_own m1 = live w - hm_own m"
    "no_fail w \<longrightarrow> no_fail w1 \<and> (buckets_ok m (grown m) \<longrightarrow> rc0 = 0)"
    and res: "rc0 = 0 \<and> (\<exists>us. hm_rel m1 us \<and> length us = grown m \<and> content us = content ts \<and> us \<noteq> []
           \<and> 4 * (length (entries us) + dead us + 1) \<le> 3 * length us
           \<and> length (entries us) + dead us \<le> length (entries ts) + dead ts)
       \<or> rc0 = - 1 \<and> m1 = m"
    by (elim exE conjE) (rule that)
  note valid = key_ok_valid [OF key]
  from res show ?thesis
  proof
    assume "rc0 = - 1 \<and> m1 = m"
    then have "hashmap_set (Ptr m) (Ptr key) (Ptr x) w = Some (- 1, Ptr m, w1)"
      using p(1) valid by (simp add: hashmap_set_def hashmap_key_is_valid_def)
    then show ?thesis
      using p(2-5) m \<open>rc0 = - 1 \<and> m1 = m\<close> by (intro exI [of _ "- 1"] exI [of _ m] exI [of _ w1]) auto
  next
    assume "rc0 = 0 \<and> (\<exists>us. hm_rel m1 us \<and> length us = grown m \<and> content us = content ts \<and> us \<noteq> []
           \<and> 4 * (length (entries us) + dead us + 1) \<le> 3 * length us
           \<and> length (entries us) + dead us \<le> length (entries ts) + dead ts)"
    then obtain us where rc0: "rc0 = 0" and us: "hm_rel m1 us" "length us = grown m" "content us = content ts" "us \<noteq> []"
      "4 * (load us + 1) \<le> 3 * length us" "load us \<le> load ts" by blast
    note cf = hm_confD [OF p(2)]
    have key1: "key_ok (m_key_kind m1) (m_key_size m1) key" using key cf by simp
    let ?h = "hash_of (m_key_kind m1) key"
    have run: "hashmap_set (Ptr m) (Ptr key) (Ptr x) w = (case hashmap_find_slot m1 key ?h of None \<Rightarrow> None
      | Some (found, i) \<Rightarrow> if found \<noteq> 0 then replace_value m1 i x w1 else insert_entry m1 i key x w1)"
      using p(1) rc0 valid hash_key_ok [OF key1]
      by (simp add: hashmap_set_def hashmap_key_is_valid_def bind_split split: option.splits)
    note find = hashmap_find_slot_ok [OF us(1,4) key1]
    show ?thesis
    proof (cases "content ts key")
      case (Some u)
      then obtain i where i: "i < length us" "hashmap_find_slot m1 key ?h = Some (1, i)" "us ! i = Full key u"
        using find us(3) by auto
      from replace_value_ok [OF us(1) i(1,3), of x w1] obtain rc m' w' where
        q: "replace_value m1 i x w1 = Some (rc, Ptr m', w')" "hm_conf m' = hm_conf m1"
        "live w' - hm_own m' = live w1 - hm_own m1" "no_fail w1 \<longrightarrow> no_fail w' \<and> rc = 0"
        and r: "rc = 0 \<and> (\<exists>vs. hm_rel m' vs \<and> content vs = (content us)(key \<mapsto> copied (m_value_copy m1) x)
           \<and> length vs = length us \<and> length (entries vs) + dead vs = length (entries us) + dead us)
         \<and> destroyed w' = destroyed w1 @ log_if (m_value_destroy m1) [u]
       \<or> rc = - 1 \<and> m' = m1 \<and> destroyed w' = destroyed w1"
        by (elim exE conjE) (rule that)
      have "hashmap_set (Ptr m) (Ptr key) (Ptr x) w = Some (rc, Ptr m', w')" using run i(2) q(1) by simp
      moreover have "hm_conf m' = hm_conf m" "live w' - hm_own m' = live w - hm_own m"
        "no_fail w \<longrightarrow> no_fail w' \<and> (buckets_ok m (grown m) \<longrightarrow> rc = 0)"
        using q(2-4) p(2,4,5) by simp_all
      moreover have "rc = 0 \<and> (\<exists>vs. hm_rel m' vs \<and> content vs = (content ts)(key \<mapsto> copied (m_value_copy m) x)
           \<and> length vs = grown m \<and> load vs \<le> load ts + 1)
         \<and> destroyed w' = destroyed w
             @ log_if (m_value_destroy m) (case content ts key of None \<Rightarrow> [] | Some u \<Rightarrow> [u])
       \<or> rc = - 1 \<and> (\<exists>vs. hm_rel m' vs \<and> content vs = content ts) \<and> destroyed w' = destroyed w"
        using r us cf p(3) Some by (elim disjE) (fastforce, fastforce)
      ultimately show ?thesis by (intro exI [of _ rc] exI [of _ m'] exI [of _ w'] conjI)
    next
      case None
      then obtain i where i: "i < length us" "hashmap_find_slot m1 key ?h = Some (0, i)" "\<not> is_full (us ! i)"
        "reach us ?h i"
        using find us(3) by auto
      have new: "content us key = None" using None us(3) by simp
      have room: "4 * (length (entries us) + dead us + 1) \<le> 3 * length us" using us(5) by simp
      from insert_entry_ok [OF us(1) i(1,3,4) key1 new room, of x w1] obtain rc m' w' where
        q: "insert_entry m1 i key x w1 = Some (rc, Ptr m', w')" "hm_conf m' = hm_conf m1"
        "live w' - hm_own m' = live w1 - hm_own m1" "destroyed w' = destroyed w1" "no_fail w1 \<longrightarrow> no_fail w' \<and> rc = 0"
        and r: "rc = 0 \<and> (\<exists>vs. hm_rel m' vs \<and> content vs = (content us)(key \<mapsto> copied (m_value_copy m1) x)
           \<and> length vs = length us \<and> length (entries vs) + dead vs \<le> length (entries us) + dead us + 1)
       \<or> rc = - 1 \<and> m' = m1"
        by (elim exE conjE) (rule that)
      have "hashmap_set (Ptr m) (Ptr key) (Ptr x) w = Some (rc, Ptr m', w')" using run i(2) q(1) by simp
      moreover have "hm_conf m' = hm_conf m" "live w' - hm_own m' = live w - hm_own m"
        "no_fail w \<longrightarrow> no_fail w' \<and> (buckets_ok m (grown m) \<longrightarrow> rc = 0)"
        using q(2,3,5) p(2,4,5) by simp_all
      moreover have "rc = 0 \<and> (\<exists>vs. hm_rel m' vs \<and> content vs = (content ts)(key \<mapsto> copied (m_value_copy m) x)
           \<and> length vs = grown m \<and> load vs \<le> load ts + 1)
         \<and> destroyed w' = destroyed w
             @ log_if (m_value_destroy m) (case content ts key of None \<Rightarrow> [] | Some u \<Rightarrow> [u])
       \<or> rc = - 1 \<and> (\<exists>vs. hm_rel m' vs \<and> content vs = content ts) \<and> destroyed w' = destroyed w"
        using r us cf p(3) q(4) None by (elim disjE) (fastforce, fastforce)
      ultimately show ?thesis by (intro exI [of _ rc] exI [of _ m'] exI [of _ w'] conjI)
    qed
  qed
qed

section \<open>Deleting\<close>

lemma arrays_reset:
  assumes "arrays st ks vs ts" and "ts \<noteq> []"
  shows "\<exists>st'. reset_states st (length ts) = Some st' \<and> st' \<noteq> NULL \<and> arrays st' ks vs (replicate (length ts) Free)"
  using assms by (auto simp: reset_states_def arrays_def)

lemma hm_rel_emptied:
  assumes m: "hm_rel m ts" and st: "arrays st (m_keys m) (m_values m) (replicate (length ts) Free)" "st \<noteq> NULL"
    and ne: "ts \<noteq> []"
  shows "hm_rel (m\<lparr>m_states := st, m_size := 0, m_tombstones := 0\<rparr>) (replicate (length ts) Free)"
  using m st ne by (simp add: hm_rel_def hm_shape_def buckets_ok_def table_ok_empty keys_ok_def)

lemma hashmap_delete_ok:
  assumes m: "hm_rel m ts" and key: "key_ok (m_key_kind m) (m_key_size m) key"
  shows "case content ts key of
      None \<Rightarrow> hashmap_delete (Ptr m) (Ptr key) w = Some (- 1, Ptr m, w)
    | Some u \<Rightarrow> \<exists>m' w' us. hashmap_delete (Ptr m) (Ptr key) w = Some (0, Ptr m', w') \<and> hm_conf m' = hm_conf m
        \<and> live w' - hm_own m' = live w - hm_own m \<and> no_fail w' = no_fail w
        \<and> hm_rel m' us \<and> content us = (content ts)(key := None) \<and> length us = length ts \<and> load us \<le> load ts
        \<and> destroyed w' = destroyed w @ log_if (m_value_destroy m) [u]"
proof (cases "content ts key")
  case None
  then show ?thesis using lookup_slot_ok [OF m key] by (auto simp: hashmap_delete_def)
next
  case (Some u)
  note d = hm_relD [OF m]
  obtain i where i: "i < length ts" "lookup_slot (Ptr m) (Ptr key) = Some (Some (1, i))" "ts ! i = Full key u"
    using lookup_slot_ok [OF m key] Some by auto
  have ne: "ts \<noteq> []" using i(1) by auto
  obtain w1 where w1: "destroy_key (m_key_kind m) key w = Some w1" "destroyed w1 = destroyed w"
    "no_fail w1 = no_fail w" "live w1 = live w - key_blocks (m_key_kind m)"
    using destroy_key_ok [OF key, of w] by (elim exE conjE) (rule that)
  let ?w2 = "destroy_element (m_value_destroy m) u w1"
  obtain st where p: "buf_put (m_states m) i (Some DELETED) = Some st"
    "arrays st (m_keys m) (m_values m) (ts[i := Dead])" "st \<noteq> NULL"
    using arrays_put_dead [OF d(1) i(1)] by blast
  note t = table_delete [OF d(6) i(1,3)]
  have dd: "dead (ts[i := Dead]) = Suc (dead ts)" using dead_update [OF i(1), of Dead] i(3) by simp
  have small: "length (entries ts) \<le> SIZE_MAX" "dead ts + 1 \<le> SIZE_MAX"
    using buckets_small(1) [OF hm_rel_buckets [OF m ne]] d(8) by simp_all
  let ?m1 = "m\<lparr>m_states := st, m_size := sz_sub (m_size m) 1, m_tombstones := sz_add (m_tombstones m) 1\<rparr>"
  have sz: "sz_sub (m_size m) 1 = length (entries (ts[i := Dead]))" "sz_add (m_tombstones m) 1 = dead (ts[i := Dead])"
    using d(4,5) t(3) small dd by simp_all
  have load: "load (ts[i := Dead]) = load ts" using t(3) dd by simp
  have rel: "hm_rel ?m1 (ts[i := Dead])"
    using m ne p t(1) sz load d(8) keys_ok_Dead [OF d(7)]
    by (simp add: hm_rel_def hm_shape_def buckets_ok_def)
  have own: "hm_own ?m1 = hm_own m - key_blocks (m_key_kind m)"
    using p(3) hm_rel_blocks [OF m ne] sz t(3) [symmetric] d(4) by (simp add: hm_own_def algebra_simps)
  have run: "hashmap_delete (Ptr m) (Ptr key) w = (if m_size ?m1 = 0
      then (case reset_states st (length ts) of None \<Rightarrow> None
        | Some st1 \<Rightarrow> Some (0, Ptr (?m1\<lparr>m_states := st1, m_tombstones := 0\<rparr>), ?w2))
      else Some (0, Ptr ?m1, ?w2))"
    using i(2) arrays_entry [OF d(1) i(1,3)] w1(1) p(1) d(3)
    by (simp add: hashmap_delete_def hashmap_destroy_key_def hashmap_destroy_element_def Let_def bind_split
        split: option.splits)
  have w2: "destroyed ?w2 = destroyed w @ log_if (m_value_destroy m) [u]" "no_fail ?w2 = no_fail w"
    "live ?w2 = live w - key_blocks (m_key_kind m)"
    using w1 by (simp_all add: log_if_def)
  show ?thesis
  proof (cases "m_size ?m1 = 0")
    case False
    then have "hashmap_delete (Ptr m) (Ptr key) w = Some (0, Ptr ?m1, ?w2)" using run by simp
    then show ?thesis
      using rel w2 own t(2) load Some
      by (auto intro!: exI [of _ ?m1] exI [of _ ?w2] exI [of _ "ts[i := Dead]"])
  next
    case True
    obtain st1 where s1: "reset_states st (length ts) = Some st1" "st1 \<noteq> NULL"
      "arrays st1 (m_keys m) (m_values m) (replicate (length ts) Free)"
      using arrays_reset [OF p(2)] ne by auto
    let ?m2 = "?m1\<lparr>m_states := st1, m_tombstones := 0\<rparr>"
    have eq: "?m2 = m\<lparr>m_states := st1, m_size := 0, m_tombstones := 0\<rparr>" using True by simp
    have "hm_rel ?m2 (replicate (length ts) Free)"
      unfolding eq by (rule hm_rel_emptied [OF m s1(3,2) ne])
    moreover have "content (replicate (length ts) Free) = (content ts)(key := None)"
      using True sz(1) t(2) content_empty_iff [of "ts[i := Dead]"] by simp
    moreover have "hm_own ?m2 = hm_own m - key_blocks (m_key_kind m)" "hm_conf ?m2 = hm_conf m"
      using own s1(2) p(3) by (simp_all add: hm_own_def hm_conf_def)
    moreover have "hashmap_delete (Ptr m) (Ptr key) w = Some (0, Ptr ?m2, ?w2)" using run True s1(1) by simp
    ultimately show ?thesis
      using w2 Some by (auto intro!: exI [of _ ?m2] exI [of _ ?w2] exI [of _ "replicate (length ts) Free"])
  qed
qed

section \<open>Clearing and destroying\<close>

lemma hash_clear_loop_ok:
  assumes arr: "arrays (m_states m) (m_keys m) (m_values m) ts" and ok: "keys_ok (m_key_kind m) (m_key_size m) ts"
    and "\<forall>i \<in> set is. i < length ts"
  shows "\<exists>w'. hash_clear_loop m is w = Some w' \<and> no_fail w' = no_fail w
    \<and> destroyed w' = destroyed w @ log_if (m_value_destroy m) (map snd (entries (map ((!) ts) is)))
    \<and> live w' = live w - key_blocks (m_key_kind m) * int (length (entries (map ((!) ts) is)))"
  using assms(3)
proof (induction "is" arbitrary: w)
  case (Cons i is')
  then have i: "i < length ts" by simp
  note st = arrays_state [OF arr i]
  show ?case
  proof (cases "ts ! i")
    case (Full k v)
    obtain w1 where w1: "destroy_key (m_key_kind m) k w = Some w1" "destroyed w1 = destroyed w"
      "no_fail w1 = no_fail w" "live w1 = live w - key_blocks (m_key_kind m)"
      using destroy_key_ok [OF keys_ok_nth [OF ok i Full], of w] by (elim exE conjE) (rule that)
    have "hash_clear_loop m (i # is') w = hash_clear_loop m is' (destroy_element (m_value_destroy m) v w1)"
      using st arrays_entry [OF arr i Full] w1(1) Full
      by (simp add: hashmap_destroy_key_def hashmap_destroy_element_def)
    then show ?thesis
      using Cons.IH [of "destroy_element (m_value_destroy m) v w1"] Cons.prems w1 Full
      by (auto simp: log_if_def algebra_simps)
  qed (use Cons st in auto)
qed simp

lemma map_nth_upt: "map ((!) ts) [0..<length ts] = ts"
  by (rule nth_equalityI) simp_all

lemma hashmap_clear_ok:
  assumes m: "hm_rel m ts"
  shows "\<exists>m' w'. hashmap_clear (Ptr m) w = Some (Ptr m', w') \<and> hm_conf m' = hm_conf m
    \<and> live w' - hm_own m' = live w - hm_own m \<and> no_fail w' = no_fail w
    \<and> hm_rel m' (replicate (length ts) Free)
    \<and> destroyed w' = destroyed w @ log_if (m_value_destroy m) (map snd (entries ts))"
proof -
  note d = hm_relD [OF m]
  obtain w1 where w1: "hash_clear_loop m [0..<length ts] w = Some w1" "no_fail w1 = no_fail w"
    "destroyed w1 = destroyed w @ log_if (m_value_destroy m) (map snd (entries ts))"
    "live w1 = live w - key_blocks (m_key_kind m) * int (length (entries ts))"
    using hash_clear_loop_ok [OF d(1,7), of "[0..<length ts]" w, unfolded map_nth_upt] by auto
  show ?thesis
  proof (cases "ts = []")
    case True
    then have "m_states m = NULL" using d(2) by (simp add: hm_shape_def)
    then have "hashmap_clear (Ptr m) w = Some (Ptr m, w)"
      using True d(3,4,5) by (simp add: hashmap_clear_def dead_def)
    then show ?thesis using True m by (simp add: log_if_def)
  next
    case False
    obtain st where st: "reset_states (m_states m) (length ts) = Some st" "st \<noteq> NULL"
      "arrays st (m_keys m) (m_values m) (replicate (length ts) Free)"
      using arrays_reset [OF d(1) False] by auto
    let ?m' = "m\<lparr>m_states := st, m_size := 0, m_tombstones := 0\<rparr>"
    have "hashmap_clear (Ptr m) w = Some (Ptr ?m', w1)"
      using w1(1) st(1) hm_rel_blocks [OF m False] d(3) by (simp add: hashmap_clear_def)
    moreover have "hm_rel ?m' (replicate (length ts) Free)" by (rule hm_rel_emptied [OF m st(3,2) False])
    moreover have "live w1 - hm_own ?m' = live w - hm_own m"
      using w1(4) st(2) hm_rel_blocks [OF m False] d(4) by (simp add: hm_own_def)
    ultimately show ?thesis using w1(2,3) by auto
  qed
qed

lemma hashmap_destroy_ok:
  assumes m: "hm_rel m ts"
  shows "\<exists>m' w'. hashmap_destroy (Ptr m) w = Some (Ptr m', w') \<and> hm_conf m' = hm_conf m
    \<and> live w' = live w - hm_own m \<and> no_fail w' = no_fail w \<and> hm_rel m' [] \<and> hm_own m' = 0
    \<and> destroyed w' = destroyed w @ log_if (m_value_destroy m) (map snd (entries ts))"
proof -
  obtain m1 w1 where c: "hashmap_clear (Ptr m) w = Some (Ptr m1, w1)" "hm_conf m1 = hm_conf m"
    "live w1 - hm_own m1 = live w - hm_own m" "no_fail w1 = no_fail w"
    "hm_rel m1 (replicate (length ts) Free)"
    "destroyed w1 = destroyed w @ log_if (m_value_destroy m) (map snd (entries ts))"
    using hashmap_clear_ok [OF m, of w] by (elim exE conjE) (rule that)
  have sz: "m_size m1 = 0" using hm_relD(4) [OF c(5)] by simp
  let ?m' = "m1\<lparr>m_states := NULL, m_keys := NULL, m_values := NULL, m_capacity := 0, m_tombstones := 0\<rparr>"
  let ?w' = "free_ptr (m_values m1) (free_ptr (m_keys m1) (free_ptr (m_states m1) w1))"
  have "hashmap_destroy (Ptr m) w = Some (Ptr ?m', ?w')"
    using c(1) by (simp add: hashmap_destroy_def Let_def)
  moreover have "hm_rel ?m' []"
    using hm_relD(9-12) [OF c(5)] sz
    by (simp add: hm_rel_def hm_shape_def arrays_def dead_def table_ok_def keys_ok_def)
  moreover have "live ?w' = live w - hm_own m" "hm_own ?m' = 0" using c(3) sz by (simp_all add: hm_own_def)
  moreover have "hm_conf ?m' = hm_conf m" using c(2) by (simp add: hm_conf_def)
  ultimately show ?thesis using c(4,6) by auto
qed

lemma hashmap_init_ok:
  assumes "kind = KEY_SCALAR \<or> kind = KEY_CSTR \<and> ks = 8" and "0 < ks" "0 < vs" "8 * ks \<le> PTRDIFF_MAX" "8 * vs \<le> PTRDIFF_MAX"
  shows "\<exists>m. hashmap_init (Ptr u) kind ks vs d f = (0, Ptr m) \<and> hm_conf m = (kind, ks, vs, d, f)
    \<and> hm_rel m [] \<and> hm_own m = 0"
  using assms
  by (auto simp: hashmap_init_def hm_conf_def hm_rel_def hm_shape_def arrays_def dead_def table_ok_def keys_ok_def hm_own_def)

section \<open>The machine\<close>

definition hash_exec ::
    "(cell, 'v) map_op \<Rightarrow> 'v hashmap \<Rightarrow> ('v, 'b) world_scheme \<Rightarrow> (int \<times> 'v hashmap \<times> ('v, 'b) world_scheme) option" where
  "hash_exec op m w = (case op of
       Put k v \<Rightarrow> (case hashmap_set (Ptr m) (Ptr k) (Ptr v) w of None \<Rightarrow> None | Some (rc, p, w1) \<Rightarrow> Some (rc, pt p, w1))
     | Remove k \<Rightarrow> (case hashmap_delete (Ptr m) (Ptr k) w of None \<Rightarrow> None | Some (rc, p, w1) \<Rightarrow> Some (rc, pt p, w1))
     | Wipe \<Rightarrow> (case hashmap_clear (Ptr m) w of None \<Rightarrow> None | Some (p, w1) \<Rightarrow> Some (0, pt p, w1))
     | Reserve n \<Rightarrow> (case hashmap_reserve (Ptr m) n w of None \<Rightarrow> None | Some (rc, p, w1) \<Rightarrow> Some (rc, pt p, w1)))"

type_synonym 'v hash_conf = "int \<times> size_t \<times> size_t \<times> bool \<times> ('v \<Rightarrow> 'v) option"

definition hash_legal :: "'v hash_conf \<Rightarrow> (cell, 'v) map_op \<Rightarrow> bool" where
  "hash_legal c op \<longleftrightarrow> (case c of (kind, ks, vs, _) \<Rightarrow> (case op of
       Put k v \<Rightarrow> key_ok kind ks k
     | Remove k \<Rightarrow> key_ok kind ks k
     | Wipe \<Rightarrow> True
     | Reserve n \<Rightarrow> 8 * n * ks \<le> SIZE_MAX \<and> 8 * n * vs \<le> SIZE_MAX))"

definition conf_copy :: "'v hash_conf \<Rightarrow> ('v \<Rightarrow> 'v) option" where
  "conf_copy c = snd (snd (snd (snd c)))"

definition conf_destroy :: "'v hash_conf \<Rightarrow> bool" where
  "conf_destroy c = fst (snd (snd (snd c)))"

lemma conf_simps [simp]:
  "conf_copy (hm_conf m) = m_value_copy m" "conf_destroy (hm_conf m) = m_value_destroy m"
  "conf_copy (a, b, c, d, f) = f" "conf_destroy (a, b, c, d, f) = d"
  by (simp_all add: conf_copy_def conf_destroy_def hm_conf_def)

definition hash_holds :: "'v hashmap \<Rightarrow> (cell \<rightharpoonup> 'v) \<Rightarrow> bool" where
  "hash_holds m M \<longleftrightarrow> (\<exists>ts. hm_rel m ts \<and> content ts = M)"

lemma hash_exec_law:
  assumes "hash_holds m M" and "hash_legal (hm_conf m) op"
  shows "\<exists>rc m' w'. hash_exec op m w = Some (rc, m', w') \<and> hm_conf m' = hm_conf m
    \<and> live w' - hm_own m' = live w - hm_own m
    \<and> ((\<exists>M' ds. map_spec (conf_copy (hm_conf m)) op M rc M' ds \<and> hash_holds m' M'
          \<and> destroyed w' = destroyed w @ log_if (conf_destroy (hm_conf m)) ds)
       \<or> rc = - 1 \<and> hash_holds m' M \<and> destroyed w' = destroyed w)"
proof -
  obtain ts where m: "hm_rel m ts" "content ts = M" using assms(1) by (auto simp: hash_holds_def)
  have fin: "finite (dom M)" using finite_content [of ts] m(2) by simp
  show ?thesis
  proof (cases op)
    case (Put k v)
    then have key: "key_ok (m_key_kind m) (m_key_size m) k" using assms(2) by (simp add: hash_legal_def hm_conf_def)
    from hashmap_set_ok [OF m(1) key, of v w] obtain rc m' w' where
      h: "hashmap_set (Ptr m) (Ptr k) (Ptr v) w = Some (rc, Ptr m', w')" "hm_conf m' = hm_conf m"
      "live w' - hm_own m' = live w - hm_own m"
      and res: "rc = 0 \<and> (\<exists>us. hm_rel m' us \<and> content us = (content ts)(k \<mapsto> copied (m_value_copy m) v)
           \<and> length us = grown m \<and> load us \<le> load ts + 1)
         \<and> destroyed w' = destroyed w
             @ log_if (m_value_destroy m) (case content ts k of None \<Rightarrow> [] | Some u \<Rightarrow> [u])
       \<or> rc = - 1 \<and> (\<exists>us. hm_rel m' us \<and> content us = content ts) \<and> destroyed w' = destroyed w"
      by (elim exE conjE) (rule that)
    have e: "hash_exec op m w = Some (rc, m', w')" using h(1) Put by (simp add: hash_exec_def)
    from res have "(\<exists>M' ds. map_spec (m_value_copy m) op M rc M' ds \<and> hash_holds m' M'
          \<and> destroyed w' = destroyed w @ log_if (m_value_destroy m) ds)
       \<or> rc = - 1 \<and> hash_holds m' M \<and> destroyed w' = destroyed w"
      using fin Put m(2) unfolding map_spec_def hash_holds_def by (elim disjE) (auto 0 3)
    then show ?thesis using e h(2,3) by simp
  next
    case (Remove k)
    then have key: "key_ok (m_key_kind m) (m_key_size m) k" using assms(2) by (simp add: hash_legal_def hm_conf_def)
    note h = hashmap_delete_ok [OF m(1) key, of w]
    show ?thesis
    proof (cases "content ts k")
      case None
      then show ?thesis using h Remove assms(1) by (simp add: hash_exec_def)
    next
      case (Some u)
      then obtain m' w' us where "hashmap_delete (Ptr m) (Ptr k) w = Some (0, Ptr m', w')" "hm_conf m' = hm_conf m"
        "live w' - hm_own m' = live w - hm_own m" "hm_rel m' us" "content us = (content ts)(k := None)"
        "destroyed w' = destroyed w @ log_if (m_value_destroy m) [u]"
        using h by auto
      then show ?thesis
        using Remove Some fin m(2)
        by (intro exI [of _ 0] exI [of _ m'] exI [of _ w'])
          (auto simp: hash_exec_def map_spec_def hash_holds_def intro!: exI [of _ "[u]"])
    qed
  next
    case Wipe
    obtain m' w' where "hashmap_clear (Ptr m) w = Some (Ptr m', w')" "hm_conf m' = hm_conf m"
      "live w' - hm_own m' = live w - hm_own m" "hm_rel m' (replicate (length ts) Free)"
      "destroyed w' = destroyed w @ log_if (m_value_destroy m) (map snd (entries ts))"
      using hashmap_clear_ok [OF m(1), of w] by blast
    moreover have "mset (map snd (entries ts)) = range_mset M"
      using range_mset_map_of [of "entries ts"] hm_relD(6) [OF m(1)] m(2) by (simp add: table_ok_def content_def)
    ultimately show ?thesis
      using Wipe fin
      by (intro exI [of _ 0] exI [of _ m'] exI [of _ w'])
        (auto simp: hash_exec_def map_spec_def hash_holds_def intro!: exI [of _ "map snd (entries ts)"])
  next
    case (Reserve n)
    have leg: "8 * n * m_key_size m \<le> SIZE_MAX" "8 * n * m_value_size m \<le> SIZE_MAX"
      using assms(2) Reserve by (simp_all add: hash_legal_def hm_conf_def)
    from hashmap_reserve_ok [OF m(1) leg, of w] obtain rc m' w' where
      h: "hashmap_reserve (Ptr m) n w = Some (rc, Ptr m', w')" "hm_conf m' = hm_conf m"
      "destroyed w' = destroyed w" "live w' - hm_own m' = live w - hm_own m"
      and res: "rc = 0 \<and> (\<exists>us. hm_rel m' us \<and> content us = content ts \<and> 4 * n \<le> 3 * length us
           \<and> length us \<le> max (length ts) (8 * n) \<and> length (entries us) + dead us \<le> length (entries ts) + dead ts)
       \<or> rc = - 1 \<and> m' = m"
      by (elim exE conjE) (rule that)
    have "(\<exists>M' ds. map_spec (m_value_copy m) op M rc M' ds \<and> hash_holds m' M'
          \<and> destroyed w' = destroyed w @ log_if (m_value_destroy m) ds)
       \<or> rc = - 1 \<and> hash_holds m' M \<and> destroyed w' = destroyed w"
      using res fin Reserve m h(3) assms(1) unfolding map_spec_def hash_holds_def by (elim disjE) auto
    then show ?thesis using h Reserve by (simp add: hash_exec_def)
  qed
qed

interpretation hashm: spec_machine hash_exec "\<lambda>c. map_spec (conf_copy c)" hash_legal "\<lambda>m w. hash_holds m" hm_conf
  conf_destroy "\<lambda>m w. hm_own m" range_mset "\<lambda>c. map_stores (conf_copy c)"
  by unfold_locales (rule hash_exec_law, assumption+, rule map_spec_conserves)

end
