(* ===== verification/Hashmap_Props.thy ===== *)
theory Hashmap_Props
  imports Hashmap
begin

text \<open>
  The hash map of \<open>Hashmap\<close> seen by its clients: iteration, deep copies, and the properties of
  whole histories of operations.
\<close>

section \<open>Iteration\<close>

text \<open>The next occupied slot from \<open>s\<close> on.\<close>

definition next_full :: "('k, 'v) slot list \<Rightarrow> nat \<Rightarrow> size_t" where
  "next_full ts s = (case find (\<lambda>i. is_full (ts ! i)) [s..<length ts] of None \<Rightarrow> HASHMAP_NPOS | Some i \<Rightarrow> i)"

lemma next_full_simps:
  "length ts \<le> s \<Longrightarrow> next_full ts s = HASHMAP_NPOS"
  "s < length ts \<Longrightarrow> is_full (ts ! s) \<Longrightarrow> next_full ts s = s"
  "s < length ts \<Longrightarrow> \<not> is_full (ts ! s) \<Longrightarrow> next_full ts s = next_full ts (Suc s)"
  by (simp_all add: next_full_def upt_conv_Cons)

lemma occupied_loop_ok:
  "arrays (m_states m) ks vs ts \<Longrightarrow> \<forall>i \<in> set is. i < length ts \<Longrightarrow>
    occupied_loop m is = Some (case find (\<lambda>i. is_full (ts ! i)) is of None \<Rightarrow> HASHMAP_NPOS | Some i \<Rightarrow> i)"
  by (induction "is") (auto simp: arrays_state)

lemma hashmap_first_next_ok:
  assumes m: "hm_rel m ts"
  shows "hashmap_first (Ptr m) = Some (next_full ts 0)" "hashmap_next (Ptr m) i = Some (next_full ts (Suc i))"
proof -
  note d = hm_relD [OF m]
  have "length ts \<le> PTRDIFF_MAX" using hm_rel_buckets [OF m] by (cases ts) (auto simp: buckets_ok_def)
  then have n: "length ts \<le> SIZE_MAX" using SIZE_MAX_PTRDIFF_MAX by simp
  have from_s: "hashmap_find_occupied_from (Ptr m) s = Some (next_full ts s)" for s
    using occupied_loop_ok [OF d(1), of "[s..<length ts]"] d(3) next_full_simps(1) [of ts s]
    by (simp add: hashmap_find_occupied_from_def next_full_def)
  show "hashmap_first (Ptr m) = Some (next_full ts 0)" by (simp add: hashmap_first_def from_s)
  show "hashmap_next (Ptr m) i = Some (next_full ts (Suc i))"
    using d(3) n from_s next_full_simps(1) [of ts "Suc i"] by (auto simp: hashmap_next_def)
qed

lemma entry_ok:
  assumes m: "hm_rel m ts" and i: "i < length ts" "ts ! i = Full k v"
  shows "hashmap_entry_key (Ptr m) i = Some (Ptr k)" "hashmap_entry_value (Ptr m) i = Some (Ptr v)"
  using hm_relD(3) [OF m] i arrays_state [OF hm_relD(1) [OF m] i(1)] arrays_entry [OF hm_relD(1) [OF m] i]
  by (simp_all add: hashmap_entry_key_def hashmap_entry_value_def entry_there_def)

lemma NPOS_not_index: "hm_rel m ts \<Longrightarrow> i < length ts \<Longrightarrow> i \<noteq> HASHMAP_NPOS"
  using hm_rel_buckets [of m ts] SIZE_MAX_PTRDIFF_MAX
  by (cases ts) (auto simp: buckets_ok_def HASHMAP_NPOS_def)

text \<open>A client that walks over a map and collects its entries.\<close>

partial_function (option) hash_walk :: "'v hashmap ptr \<Rightarrow> size_t \<Rightarrow> (cell \<times> 'v) list option" where
  "hash_walk p i =
     (if i = HASHMAP_NPOS then Some []
      else do {
        k \<leftarrow> hashmap_entry_key p i;
        v \<leftarrow> hashmap_entry_value p i;
        j \<leftarrow> hashmap_next p i;
        rest \<leftarrow> hash_walk p j;
        if k = NULL \<or> v = NULL then None else Some ((pt k, pt v) # rest) })"

lemma hash_walk_ok:
  assumes m: "hm_rel m ts"
  shows "hash_walk (Ptr m) (next_full ts s) = Some (entries (drop s ts))"
proof (induction "length ts - s" arbitrary: s)
  case 0
  then show ?case by (subst hash_walk.simps) (simp add: next_full_simps)
next
  case (Suc n)
  then have s: "s < length ts" "n = length ts - Suc s" by simp_all
  then have dr: "drop s ts = ts ! s # drop (Suc s) ts" by (simp add: Cons_nth_drop_Suc)
  show ?case
  proof (cases "ts ! s")
    case (Full k v)
    then show ?thesis
      using Suc.hyps(1) [OF s(2)] entry_ok [OF m s(1) Full] hashmap_first_next_ok(2) [OF m, of s]
        NPOS_not_index [OF m s(1)] next_full_simps(2) [OF s(1)]
      by (subst hash_walk.simps) (simp add: dr)
  qed (use Suc.hyps(1) [OF s(2)] next_full_simps(3) [OF s(1)] dr in simp_all)
qed

section \<open>Copying\<close>

text \<open>The outcome of a copy after \<open>log\<close>: the copied values under the same keys, or an empty map
  and the values that had been copied destroyed again.\<close>

definition copy_outcome ::
    "'v hashmap \<Rightarrow> (cell, 'v) slot list \<Rightarrow> 'v list \<Rightarrow> int \<Rightarrow> 'v hashmap \<Rightarrow> ('v, 'b) world_scheme \<Rightarrow> bool" where
  "copy_outcome m ts log rc d w \<longleftrightarrow>
     rc = 0 \<and> hash_holds d (map_option (copied (m_value_copy m)) \<circ> content ts) \<and> destroyed w = log
   \<or> rc = - 1 \<and> hash_holds d Map.empty
     \<and> (\<exists>t. set t \<subseteq> dom (content ts) \<and> distinct t \<and> destroyed w = log
          @ log_if (m_value_destroy m) (map (copied (m_value_copy m) \<circ> the \<circ> content ts) t))"

lemma copy_outcome_failed:
  assumes "hash_holds d Map.empty" and "set t \<subseteq> dom (content ts)" "distinct t"
    and "destroyed w = log @ log_if (m_value_destroy m) (map (copied (m_value_copy m) \<circ> the \<circ> content ts) t)"
  shows "copy_outcome m ts log (- 1) d w"
  unfolding copy_outcome_def using assms by blast

lemma hash_copy_loop_ok:
  assumes src: "hm_rel m ts" and s: "s \<le> length ts" and d: "hm_rel d us" "hm_conf d = hm_conf m"
    and c: "content us = map_option (copied (m_value_copy m)) \<circ> content (take s ts)"
    and room: "load us \<le> length (entries (take s ts))" "4 * length (entries ts) \<le> 3 * length us"
  shows "\<exists>rc d' w'. hash_copy_loop (Ptr m) (next_full ts s) (Ptr d) w = Some (rc, Ptr d', w') \<and> hm_conf d' = hm_conf m
    \<and> live w' - hm_own d' = live w - hm_own d \<and> (no_fail w \<longrightarrow> rc = 0)
    \<and> copy_outcome m ts (destroyed w) rc d' w'"
  using s d c room
proof (induction "length ts - s" arbitrary: s d us w)
  case 0
  then have nf: "next_full ts s = HASHMAP_NPOS" and tk: "take s ts = ts" by (simp_all add: next_full_simps)
  have "hash_holds d (map_option (copied (m_value_copy m)) \<circ> content ts)"
    using 0(3,5) unfolding hash_holds_def tk by blast
  then show ?case using nf 0(4) by (subst hash_copy_loop.simps) (auto simp: copy_outcome_def)
next
  case (Suc n)
  then have s: "s < length ts" "n = length ts - Suc s" "Suc s \<le> length ts" by simp_all
  have dist: "distinct (map fst (entries ts))" using hm_relD(6) [OF src] by (simp add: table_ok_def)
  let ?g = "copied (m_value_copy m)"
  show ?case
  proof (cases "ts ! s")
    case (Full k v)
    note cf = hm_confD [OF Suc.prems(3)]
    note sn = content_snoc(1) [OF dist s(1) Full]
    have key: "key_ok (m_key_kind d) (m_key_size d) k"
      using keys_ok_nth [OF hm_relD(7) [OF src] s(1) Full] cf by simp
    have e1: "Suc (length (entries (take s ts))) \<le> length (entries ts)"
      using entries_split(1) [OF s(1)] Full by simp
    have ne: "us \<noteq> []" using Suc.prems(6) e1 by auto
    have gr: "grown d = length us" and bk: "buckets_ok d (length us)"
      using hm_relD(3-5) [OF Suc.prems(2)] ne Suc.prems(5,6) e1 hm_rel_buckets [OF Suc.prems(2) ne]
      by (simp_all add: grown_def)
    have new: "content us k = None" using Suc.prems(4) sn by simp
    from hashmap_set_ok [OF Suc.prems(2) key, of v w, unfolded gr new option.case] obtain rc d1 w1 where
      h: "hashmap_set (Ptr d) (Ptr k) (Ptr v) w = Some (rc, Ptr d1, w1)" "hm_conf d1 = hm_conf d"
      "live w1 - hm_own d1 = live w - hm_own d" "no_fail w \<longrightarrow> no_fail w1 \<and> (buckets_ok d (length us) \<longrightarrow> rc = 0)"
      and res0: "rc = 0 \<and> (\<exists>vs. hm_rel d1 vs \<and> content vs = (content us)(k \<mapsto> copied (m_value_copy d) v)
           \<and> length vs = length us \<and> load vs \<le> load us + 1)
         \<and> destroyed w1 = destroyed w @ log_if (m_value_destroy d) []
       \<or> rc = - 1 \<and> (\<exists>vs. hm_rel d1 vs \<and> content vs = content us) \<and> destroyed w1 = destroyed w"
      by (elim exE conjE) (rule that)
    have res: "rc = 0 \<and> (\<exists>vs. hm_rel d1 vs \<and> content vs = (content us)(k \<mapsto> ?g v) \<and> length vs = length us
           \<and> load vs \<le> load us + 1)
       \<or> rc = - 1 \<and> (\<exists>vs. hm_rel d1 vs \<and> content vs = content us)" and "destroyed w1 = destroyed w"
      using res0 cf by (elim disjE; simp)+
    moreover have "no_fail w \<longrightarrow> no_fail w1 \<and> rc = 0" using h(4) bk by blast
    ultimately have h4: "no_fail w \<longrightarrow> no_fail w1 \<and> rc = 0" "destroyed w1 = destroyed w" by blast+
    have loop: "hash_copy_loop (Ptr m) (next_full ts s) (Ptr d) w =
      (if rc \<noteq> 0 then (case hashmap_clear (Ptr d1) w1 of None \<Rightarrow> None | Some (p, w2) \<Rightarrow> Some (- 1, p, w2))
       else hash_copy_loop (Ptr m) (next_full ts (Suc s)) (Ptr d1) w1)"
      using h(1) entry_ok [OF src s(1) Full] hashmap_first_next_ok(2) [OF src, of s]
        NPOS_not_index [OF src s(1)] next_full_simps(2) [OF s(1)] Full
      by (subst hash_copy_loop.simps)
        (simp add: hashmap_entry_key_const_def hashmap_entry_value_const_def bind_split split: option.splits)
    from res show ?thesis
    proof
      assume "rc = 0 \<and> (\<exists>vs. hm_rel d1 vs \<and> content vs = (content us)(k \<mapsto> ?g v) \<and> length vs = length us
           \<and> load vs \<le> load us + 1)"
      then obtain vs where vs: "rc = 0" "hm_rel d1 vs" "content vs = (content us)(k \<mapsto> ?g v)" "length vs = length us"
        "load vs \<le> load us + 1" by blast
      have "content vs = map_option ?g \<circ> content (take (Suc s) ts)"
        using vs(3) Suc.prems(4) sn by (auto simp: fun_eq_iff)
      moreover have "load vs \<le> length (entries (take (Suc s) ts))" using vs(5) Suc.prems(5) sn by simp
      moreover have "4 * length (entries ts) \<le> 3 * length vs" using vs(4) Suc.prems(6) by simp
      moreover have "hm_conf d1 = hm_conf m" using h(2) Suc.prems(3) by simp
      ultimately obtain rc' d' w' where
        "hash_copy_loop (Ptr m) (next_full ts (Suc s)) (Ptr d1) w1 = Some (rc', Ptr d', w')" "hm_conf d' = hm_conf m"
        "live w' - hm_own d' = live w1 - hm_own d1" "no_fail w1 \<longrightarrow> rc' = 0" "copy_outcome m ts (destroyed w1) rc' d' w'"
        using Suc.hyps(1) [OF s(2,3) vs(2)] by blast
      then show ?thesis
        using loop vs(1) h(3) h4 by (intro exI [of _ rc'] exI [of _ d'] exI [of _ w']) simp
    next
      assume "rc = - 1 \<and> (\<exists>vs. hm_rel d1 vs \<and> content vs = content us)"
      then obtain vs where vs: "rc = - 1" "hm_rel d1 vs" "content vs = content us" by blast
      from hashmap_clear_ok [OF vs(2), of w1] obtain d2 w2 where cl: "hashmap_clear (Ptr d1) w1 = Some (Ptr d2, w2)" "hm_conf d2 = hm_conf d1"
        "live w2 - hm_own d2 = live w1 - hm_own d1" "no_fail w2 = no_fail w1" "hm_rel d2 (replicate (length vs) Free)"
        "destroyed w2 = destroyed w1 @ log_if (m_value_destroy d1) (map snd (entries vs))"
        by (elim exE conjE) (rule that)
      let ?t = "map fst (entries vs)"
      have dv: "distinct ?t" using hm_relD(6) [OF vs(2)] by (simp add: table_ok_def)
      have cts: "content (take s ts) k = Some v \<Longrightarrow> content ts k = Some v" for k v
        using content_iff [OF hm_relD(6) [OF src], of k v] in_set_takeD [of "Full k v" s ts]
          map_of_SomeD [of "entries (take s ts)" k v] by (simp add: content_def)
      have val: "content ts k \<noteq> None \<and> ?g (the (content ts k)) = v" if "(k, v) \<in> set (entries vs)" for k v
      proof -
        have "content vs k = Some v" using that content_iff [OF hm_relD(6) [OF vs(2)]] by simp
        then obtain u where "content (take s ts) k = Some u" "v = ?g u" using vs(3) Suc.prems(4) by auto
        then show ?thesis using cts by auto
      qed
      then have t: "set ?t \<subseteq> dom (content ts)" "map (?g \<circ> the \<circ> content ts) ?t = map snd (entries vs)"
        by force+
      have emp: "hash_holds d2 Map.empty"
        unfolding hash_holds_def using cl(5) by (intro exI [of _ "replicate (length vs) Free"]) simp
      have conf: "hm_conf d2 = hm_conf m" "m_value_destroy d1 = m_value_destroy m"
        using cl(2) h(2) Suc.prems(3) hm_confD [of d1 m] by simp_all
      have log: "destroyed w2 = destroyed w @ log_if (m_value_destroy m) (map (?g \<circ> the \<circ> content ts) ?t)"
        unfolding t(2) using cl(6) h4(2) conf(2) by simp
      have run: "hash_copy_loop (Ptr m) (next_full ts s) (Ptr d) w = Some (- 1, Ptr d2, w2)"
        using loop vs(1) cl(1) by simp
      have lv: "live w2 - hm_own d2 = live w - hm_own d" using cl(3) h(3) by simp
      have nf: "no_fail w \<longrightarrow> (- 1 :: int) = 0" using h4(1) vs(1) by simp
      show ?thesis
        by (intro exI [of _ "- 1"] exI [of _ d2] exI [of _ w2] conjI run conf(1) lv nf
            copy_outcome_failed [OF emp t(1) dv log])
    qed
  next
    case Free
    then show ?thesis
      using Suc.hyps(1) [OF s(2,3) Suc.prems(2,3), of w] Suc.prems(4-6) next_full_simps(3) [OF s(1)]
        content_snoc(2) [OF dist s(1)] by (simp add: content_def)
  next
    case Dead
    then show ?thesis
      using Suc.hyps(1) [OF s(2,3) Suc.prems(2,3), of w] Suc.prems(4-6) next_full_simps(3) [OF s(1)]
        content_snoc(2) [OF dist s(1)] by (simp add: content_def)
  qed
qed

text \<open>Reserving room for the entries of another map with the same configuration.\<close>

lemma reserve_for_copy:
  assumes src: "hm_rel m ts" and d: "hm_rel d []" "hm_conf d = hm_conf m"
  shows "\<exists>rc d' w'. hashmap_reserve (Ptr d) (m_size m) w = Some (rc, Ptr d', w') \<and> hm_conf d' = hm_conf m
    \<and> destroyed w' = destroyed w \<and> live w' - hm_own d' = live w - hm_own d
    \<and> (no_fail w \<longrightarrow> no_fail w' \<and> rc = 0)
    \<and> (rc = 0 \<and> (\<exists>us. hm_rel d' us \<and> content us = Map.empty \<and> 4 * length (entries ts) \<le> 3 * length us \<and> load us = 0)
       \<or> rc = - 1 \<and> hash_holds d' Map.empty)"
proof (cases "ts = []")
  case True
  then have "hashmap_reserve (Ptr d) (m_size m) w = Some (0, Ptr d, w)"
    using hm_relD(4) [OF src] by (simp add: hashmap_reserve_def)
  then show ?thesis using True d by (auto simp: content_def dead_def intro!: exI [of _ "[]"])
next
  case False
  note bk = hm_rel_buckets [OF src False] and cf = hm_confD [OF d(2)]
  note r = hm_relD [OF src]
  show ?thesis
  proof (cases "m_size m = 0")
    case True
    then have "hashmap_reserve (Ptr d) (m_size m) w = Some (0, Ptr d, w)" by (simp add: hashmap_reserve_def)
    then show ?thesis using True d r(4) by (auto simp: content_def dead_def intro!: exI [of _ "[]"])
  next
    case False
    have "8 \<le> length ts" "\<exists>e. length ts = 2 ^ e" "3 * length ts \<le> SIZE_MAX" "4 * m_size m \<le> 3 * length ts"
      using bk buckets_small(1) [OF bk] r(4,8) by (simp_all add: buckets_ok_def)
    moreover have "\<exists>e. 8 = (2 :: nat) ^ e" by (rule exI [of _ 3]) simp
    ultimately obtain c where c: "hashmap_bucket_capacity_for_entries (m_size m) = Some c" "8 \<le> c" "c \<le> length ts"
      "4 * m_size m \<le> 3 * c" "\<exists>e. c = 2 ^ e"
      using bucket_loop_le [of 8 "length ts" "m_size m"] False
      by (auto simp: hashmap_bucket_capacity_for_entries_def HASHMAP_INIT_CAPACITY_def)
    have le: "c * m_key_size d \<le> length ts * m_key_size m" "c * m_value_size d \<le> length ts * m_value_size m"
      using c(3) cf by simp_all
    have fit: "length ts * m_key_size m \<le> PTRDIFF_MAX" "length ts * m_value_size m \<le> PTRDIFF_MAX" "length ts \<le> PTRDIFF_MAX"
      using bk by (simp_all add: buckets_ok_def)
    have fit': "c * m_key_size d \<le> PTRDIFF_MAX" "c * m_value_size d \<le> PTRDIFF_MAX"
      by (rule order_trans [OF le(1) fit(1)], rule order_trans [OF le(2) fit(2)])
    have sm: "c * m_key_size d \<le> SIZE_MAX" "c * m_value_size d \<le> SIZE_MAX"
      using fit' SIZE_MAX_PTRDIFF_MAX by linarith+
    have "buckets_ok d c" using c(2,3,5) fit' fit(3) by (simp add: buckets_ok_def)
    moreover from hashmap_reserve_to [OF d(1) c(1,2,4,5) sm, of w] obtain rc d' w' where
      h: "hashmap_reserve (Ptr d) (m_size m) w = Some (rc, Ptr d', w')" "hm_conf d' = hm_conf d"
      "destroyed w' = destroyed w" "live w' - hm_own d' = live w - hm_own d"
      "no_fail w \<longrightarrow> no_fail w' \<and> (buckets_ok d c \<longrightarrow> rc = 0)"
      and res: "rc = 0 \<and> (\<exists>us. hm_rel d' us \<and> content us = content [] \<and> 4 * m_size m \<le> 3 * length us
           \<and> length us \<le> max (length ([] :: (cell, 'a) slot list)) c
           \<and> load us \<le> load ([] :: (cell, 'a) slot list))
       \<or> rc = - 1 \<and> d' = d"
      by (elim exE conjE) (rule that)
    moreover have "rc = 0 \<and> (\<exists>us. hm_rel d' us \<and> content us = Map.empty \<and> 4 * length (entries ts) \<le> 3 * length us \<and> load us = 0)
       \<or> rc = - 1 \<and> hash_holds d' Map.empty"
      using res r(4) d(1) by (auto simp: content_def dead_def hash_holds_def)
    ultimately show ?thesis using d(2) by (intro exI [of _ rc] exI [of _ d'] exI [of _ w']) simp
  qed
qed

lemma hm_conf_legal:
  assumes "hm_rel m ts"
  shows "0 < m_key_size m" "0 < m_value_size m" "8 * m_key_size m \<le> PTRDIFF_MAX" "8 * m_value_size m \<le> PTRDIFF_MAX"
  using hm_relD(9-12) [OF assms] by simp_all

definition kind_ok :: "'v hashmap \<Rightarrow> bool" where
  "kind_ok m \<longleftrightarrow> m_key_kind m = KEY_SCALAR \<or> m_key_kind m = KEY_CSTR \<and> m_key_size m = 8"

lemma hashmap_copy_ok:
  assumes src: "hm_rel m ts" "kind_ok m" and dst: "hm_rel d us"
  shows "\<exists>rc d' w'. hashmap_copy False (Ptr d) (Ptr m) w = Some (rc, Ptr d', w') \<and> hm_conf d' = hm_conf m
    \<and> live w' - hm_own d' = live w - hm_own d \<and> (no_fail w \<longrightarrow> rc = 0)
    \<and> copy_outcome m ts (destroyed w @ log_if (m_value_destroy d) (map snd (entries us))) rc d' w'"
proof -
  from hashmap_destroy_ok [OF dst, of w] obtain d1 w1 where k: "hashmap_destroy (Ptr d) w = Some (Ptr d1, w1)"
    "hm_conf d1 = hm_conf d" "live w1 = live w - hm_own d" "no_fail w1 = no_fail w" "hm_rel d1 []" "hm_own d1 = 0"
    "destroyed w1 = destroyed w @ log_if (m_value_destroy d) (map snd (entries us))"
    by (elim exE conjE) (rule that)
  have kd: "m_key_kind m = KEY_SCALAR \<or> m_key_kind m = KEY_CSTR \<and> m_key_size m = 8"
    using src(2) by (simp add: kind_ok_def)
  obtain d2 where i: "hashmap_init (Ptr d1) (m_key_kind m) (m_key_size m) (m_value_size m) (m_value_destroy m)
      (m_value_copy m) = (0, Ptr d2)" "hm_conf d2 = hm_conf m" "hm_rel d2 []" "hm_own d2 = 0"
    using hashmap_init_ok [OF kd hm_conf_legal [OF src(1)], of d1 "m_value_destroy m" "m_value_copy m"]
    by (auto simp: hm_conf_def)
  from reserve_for_copy [OF src(1) i(3,2), of w1] obtain rc d3 w2 where
    r: "hashmap_reserve (Ptr d2) (m_size m) w1 = Some (rc, Ptr d3, w2)" "hm_conf d3 = hm_conf m"
    "destroyed w2 = destroyed w1" "live w2 - hm_own d3 = live w1 - hm_own d2" "no_fail w1 \<longrightarrow> no_fail w2 \<and> rc = 0"
    and res: "rc = 0 \<and> (\<exists>us. hm_rel d3 us \<and> content us = Map.empty \<and> 4 * length (entries ts) \<le> 3 * length us \<and> load us = 0)
       \<or> rc = - 1 \<and> hash_holds d3 Map.empty"
    by (elim exE conjE) (rule that)
  have run: "hashmap_copy False (Ptr d) (Ptr m) w =
    (if rc \<noteq> 0 then (case hashmap_clear (Ptr d3) w2 of None \<Rightarrow> None | Some (p, w3) \<Rightarrow> Some (- 1, p, w3))
     else hash_copy_loop (Ptr m) (next_full ts 0) (Ptr d3) w2)"
    using k(1) i(1) r(1) hashmap_first_next_ok(1) [OF src(1)]
    by (simp add: hashmap_copy_def bind_split split: option.splits)
  from res show ?thesis
  proof
    assume "rc = - 1 \<and> hash_holds d3 Map.empty"
    then obtain vs where vs: "rc = - 1" "hm_rel d3 vs" "content vs = Map.empty" by (auto simp: hash_holds_def)
    from hashmap_clear_ok [OF vs(2), of w2] obtain d4 w3 where cl: "hashmap_clear (Ptr d3) w2 = Some (Ptr d4, w3)"
      "hm_conf d4 = hm_conf d3" "live w3 - hm_own d4 = live w2 - hm_own d3" "no_fail w3 = no_fail w2"
      "hm_rel d4 (replicate (length vs) Free)"
      "destroyed w3 = destroyed w2 @ log_if (m_value_destroy d3) (map snd (entries vs))"
      by (elim exE conjE) (rule that)
    have emp: "hash_holds d4 Map.empty"
      unfolding hash_holds_def using cl(5) by (intro exI [of _ "replicate (length vs) Free"]) simp
    have "entries vs = []" using vs(3) content_empty_iff [of vs] by simp
    then have log: "destroyed w3 = (destroyed w @ log_if (m_value_destroy d) (map snd (entries us)))
        @ log_if (m_value_destroy m) (map (copied (m_value_copy m) \<circ> the \<circ> content ts) [])"
      using cl(6) k(7) r(3) by simp
    have conf: "hm_conf d4 = hm_conf m" and lv: "live w3 - hm_own d4 = live w - hm_own d"
      and nf: "no_fail w \<longrightarrow> (- 1 :: int) = 0"
      using cl(2,3) r(2,4,5) k(3,4) i(4) vs(1) by simp_all
    have res: "hashmap_copy False (Ptr d) (Ptr m) w = Some (- 1, Ptr d4, w3)" using run vs(1) cl(1) by simp
    have out: "copy_outcome m ts (destroyed w @ log_if (m_value_destroy d) (map snd (entries us))) (- 1) d4 w3"
      by (rule copy_outcome_failed [OF emp _ _ log]) simp_all
    show ?thesis
      by (intro exI [of _ "- 1"] exI [of _ d4] exI [of _ w3] conjI res conf lv nf out)
  next
    assume "rc = 0 \<and> (\<exists>us. hm_rel d3 us \<and> content us = Map.empty \<and> 4 * length (entries ts) \<le> 3 * length us \<and> load us = 0)"
    then obtain vs where vs: "rc = 0" "hm_rel d3 vs" "content vs = Map.empty" "4 * length (entries ts) \<le> 3 * length vs"
      "load vs = 0" by (elim exE conjE) (rule that)
    have "content vs = map_option (copied (m_value_copy m)) \<circ> content (take 0 ts)"
      using vs(3) by (simp add: content_def fun_eq_iff)
    moreover have "load vs \<le> length (entries (take 0 ts))" using vs(5) by simp
    ultimately have "\<exists>rc d' w'. hash_copy_loop (Ptr m) (next_full ts 0) (Ptr d3) w2 = Some (rc, Ptr d', w')
        \<and> hm_conf d' = hm_conf m \<and> live w' - hm_own d' = live w2 - hm_own d3 \<and> (no_fail w2 \<longrightarrow> rc = 0)
        \<and> copy_outcome m ts (destroyed w2) rc d' w'"
      by (rule hash_copy_loop_ok [OF src(1) le0 vs(2) r(2) _ _ vs(4)])
    then obtain rc' d' w' where c: "hash_copy_loop (Ptr m) (next_full ts 0) (Ptr d3) w2 = Some (rc', Ptr d', w')"
      "hm_conf d' = hm_conf m" "live w' - hm_own d' = live w2 - hm_own d3" "no_fail w2 \<longrightarrow> rc' = 0"
      "copy_outcome m ts (destroyed w2) rc' d' w'"
      by (elim exE conjE) (rule that)
    have res: "hashmap_copy False (Ptr d) (Ptr m) w = Some (rc', Ptr d', w')" using run vs(1) c(1) by simp
    have lv: "live w' - hm_own d' = live w - hm_own d" and nf: "no_fail w \<longrightarrow> rc' = 0"
      using c(3,4) r(4,5) k(3,4) i(4) by simp_all
    have out: "copy_outcome m ts (destroyed w @ log_if (m_value_destroy d) (map snd (entries us))) rc' d' w'"
      using c(5) r(3) k(7) by simp
    show ?thesis
      by (intro exI [of _ rc'] exI [of _ d'] exI [of _ w'] conjI res c(2) lv nf out)
  qed
qed

section \<open>Exact behaviour without failures\<close>

text \<open>The bytes of a table for up to \<open>n\<close> entries stay within what the allocator serves.\<close>

definition table_fits :: "'v hashmap \<Rightarrow> nat \<Rightarrow> bool" where
  "table_fits m n \<longleftrightarrow> 8 * (n + 1) * m_key_size m \<le> PTRDIFF_MAX \<and> 8 * (n + 1) * m_value_size m \<le> PTRDIFF_MAX"

lemma table_fits_conf: "table_fits m n \<Longrightarrow> hm_conf m' = hm_conf m \<Longrightarrow> table_fits m' n"
  using hm_confD [of m' m] by (simp add: table_fits_def)

lemma table_fits_le:
  assumes "table_fits m n" and "c \<le> 8 * (n + 1)"
  shows "c * m_key_size m \<le> PTRDIFF_MAX" "c * m_value_size m \<le> PTRDIFF_MAX"
  using assms(1) mult_le_mono1 [OF assms(2), of "m_key_size m"] mult_le_mono1 [OF assms(2), of "m_value_size m"]
  unfolding table_fits_def by linarith+

lemma grown_fits:
  assumes m: "hm_rel m ts" and n: "table_fits m n" "length ts \<le> 8 * (n + 1)" "load ts < n"
  shows "buckets_ok m (grown m)" "grown m \<le> 8 * (n + 1)"
proof -
  note d = hm_relD [OF m]
  show le: "grown m \<le> 8 * (n + 1)" using n(2,3) d(3-5) by (simp add: grown_def)
  have "\<exists>b. grown m = 2 ^ b" "8 \<le> grown m"
  proof -
    have "\<exists>b. 8 = (2 :: nat) ^ b" by (rule exI [of _ 3]) simp
    moreover have "\<exists>b. 2 * length ts = 2 ^ b" if "ts \<noteq> []"
      using buckets_double [OF hm_rel_buckets [OF m that]] by (simp add: mult.commute)
    moreover have "(\<exists>b. length ts = 2 ^ b) \<and> 8 \<le> length ts" if "ts \<noteq> []"
      using hm_rel_buckets [OF m that] by (simp add: buckets_ok_def)
    ultimately show "\<exists>b. grown m = 2 ^ b" "8 \<le> grown m"
      using d(3) by (cases "ts = []"; force simp: grown_def)+
  qed
  moreover have "grown m \<le> PTRDIFF_MAX" by (rule mult_le_PTRDIFF [OF table_fits_le(1) [OF n(1) le] d(9)])
  ultimately show "buckets_ok m (grown m)" using table_fits_le [OF n(1) le] by (simp add: buckets_ok_def)
qed

definition modest :: "nat \<Rightarrow> (cell, 'v) map_op \<Rightarrow> bool" where
  "modest n op \<longleftrightarrow> (case op of Reserve r \<Rightarrow> r \<le> n | _ \<Rightarrow> True)"

lemma hash_step_exact:
  assumes m: "hm_rel m ts" and leg: "hash_legal (hm_conf m) op" "modest n op" and w: "no_fail w"
    and n: "table_fits m n" "length ts \<le> 8 * (n + 1)" "load ts < n"
  shows "\<exists>m' w' us. hash_exec op m w = Some (fst (map_ideal (m_value_copy m) op (content ts)), m', w')
    \<and> hm_conf m' = hm_conf m \<and> no_fail w' \<and> hm_rel m' us
    \<and> content us = snd (map_ideal (m_value_copy m) op (content ts))
    \<and> length us \<le> 8 * (n + 1) \<and> load us \<le> load ts + 1"
proof (cases op)
  case (Put k v)
  then have key: "key_ok (m_key_kind m) (m_key_size m) k" using leg(1) by (simp add: hash_legal_def hm_conf_def)
  from hashmap_set_ok [OF m key, of v w] obtain rc m' w' where
    h: "hashmap_set (Ptr m) (Ptr k) (Ptr v) w = Some (rc, Ptr m', w')" "hm_conf m' = hm_conf m"
    "live w' - hm_own m' = live w - hm_own m" "no_fail w \<longrightarrow> no_fail w' \<and> (buckets_ok m (grown m) \<longrightarrow> rc = 0)"
    and res: "rc = 0 \<and> (\<exists>us. hm_rel m' us \<and> content us = (content ts)(k \<mapsto> copied (m_value_copy m) v)
         \<and> length us = grown m \<and> load us \<le> load ts + 1)
       \<and> destroyed w' = destroyed w
           @ log_if (m_value_destroy m) (case content ts k of None \<Rightarrow> [] | Some u \<Rightarrow> [u])
     \<or> rc = - 1 \<and> (\<exists>us. hm_rel m' us \<and> content us = content ts) \<and> destroyed w' = destroyed w"
    by (elim exE conjE) (rule that)
  have rc: "rc = 0" "no_fail w'" using h(4) w grown_fits(1) [OF m n] by blast+
  with res obtain us where us: "hm_rel m' us" "content us = (content ts)(k \<mapsto> copied (m_value_copy m) v)"
    "length us = grown m" "load us \<le> load ts + 1"
    by (elim disjE conjE exE) (rule that, simp_all)
  have "hash_exec op m w = Some (0, m', w')" using h(1) rc(1) Put by (simp add: hash_exec_def)
  then show ?thesis
    using h(2) rc(2) us Put grown_fits(2) [OF m n]
    by (intro exI [of _ m'] exI [of _ w'] exI [of _ us]) simp
next
  case (Remove k)
  then have key: "key_ok (m_key_kind m) (m_key_size m) k" using leg(1) by (simp add: hash_legal_def hm_conf_def)
  note h = hashmap_delete_ok [OF m key, of w]
  show ?thesis
  proof (cases "content ts k")
    case None
    then have "hash_exec op m w = Some (- 1, m, w)" using h Remove by (simp add: hash_exec_def)
    then show ?thesis
      using m w n(2) None Remove
      by (intro exI [of _ m] exI [of _ w] exI [of _ ts]) (simp add: fun_upd_idem)
  next
    case (Some u)
    from h [unfolded Some option.case] obtain m' w' us where
      d: "hashmap_delete (Ptr m) (Ptr k) w = Some (0, Ptr m', w')" "hm_conf m' = hm_conf m"
      "live w' - hm_own m' = live w - hm_own m" "no_fail w' = no_fail w" "hm_rel m' us"
      "content us = (content ts)(k := None)" "length us = length ts" "load us \<le> load ts"
      "destroyed w' = destroyed w @ log_if (m_value_destroy m) [u]"
      by (elim exE conjE) (rule that)
    have "hash_exec op m w = Some (0, m', w')" using d(1) Remove by (simp add: hash_exec_def)
    then show ?thesis
      using d(2,4-8) w n(2) Some Remove by (intro exI [of _ m'] exI [of _ w'] exI [of _ us]) simp
  qed
next
  case Wipe
  from hashmap_clear_ok [OF m, of w] obtain m' w' where
    c: "hashmap_clear (Ptr m) w = Some (Ptr m', w')" "hm_conf m' = hm_conf m"
    "live w' - hm_own m' = live w - hm_own m" "no_fail w' = no_fail w" "hm_rel m' (replicate (length ts) Free)"
    "destroyed w' = destroyed w @ log_if (m_value_destroy m) (map snd (entries ts))"
    by (elim exE conjE) (rule that)
  have "hash_exec op m w = Some (0, m', w')" using c(1) Wipe by (simp add: hash_exec_def)
  then show ?thesis
    using c(2,4,5) w n(2) Wipe
    by (intro exI [of _ m'] exI [of _ w'] exI [of _ "replicate (length ts) Free"]) simp
next
  case (Reserve r)
  have r: "r \<le> n" using leg(2) Reserve by (simp add: modest_def)
  then have r8: "8 * r \<le> 8 * (n + 1)" by simp
  note fit = table_fits_le [OF n(1) r8]
  have "8 * r * m_key_size m \<le> SIZE_MAX" "8 * r * m_value_size m \<le> SIZE_MAX"
    using fit SIZE_MAX_PTRDIFF_MAX by linarith+
  from hashmap_reserve_ok [OF m this, of w] obtain rc m' w' where
    h: "hashmap_reserve (Ptr m) r w = Some (rc, Ptr m', w')" "hm_conf m' = hm_conf m"
    "destroyed w' = destroyed w" "live w' - hm_own m' = live w - hm_own m"
    "no_fail w \<longrightarrow> no_fail w' \<and> (8 * r * m_key_size m \<le> PTRDIFF_MAX \<and> 8 * r * m_value_size m \<le> PTRDIFF_MAX \<longrightarrow> rc = 0)"
    and res: "rc = 0 \<and> (\<exists>us. hm_rel m' us \<and> content us = content ts \<and> 4 * r \<le> 3 * length us
         \<and> length us \<le> max (length ts) (8 * r) \<and> length (entries us) + dead us \<le> length (entries ts) + dead ts)
     \<or> rc = - 1 \<and> m' = m"
    by (elim exE conjE) (rule that)
  have rc: "rc = 0" "no_fail w'" using h(5) w fit by blast+
  with res obtain us where us: "hm_rel m' us" "content us = content ts" "length us \<le> max (length ts) (8 * r)"
    "length (entries us) + dead us \<le> length (entries ts) + dead ts"
    by (elim disjE conjE exE) (rule that, simp_all)
  have "hash_exec op m w = Some (0, m', w')" using h(1) rc(1) Reserve by (simp add: hash_exec_def)
  then show ?thesis
    using h(2) rc(2) us n(2) r8 Reserve
    by (intro exI [of _ m'] exI [of _ w'] exI [of _ us]) simp
qed

lemma hash_run_exact:
  assumes "hm_rel m ts" and "\<forall>op \<in> set ops. hash_legal (hm_conf m) op \<and> modest n op" and "no_fail w"
    and "table_fits m n" "length ts \<le> 8 * (n + 1)" "load ts + length ops \<le> n"
  shows "\<exists>m' w' us. run hash_exec ops m w = Some (fst (ideal_run (m_value_copy m) ops (content ts)), m', w')
    \<and> hm_conf m' = hm_conf m \<and> hm_rel m' us
    \<and> content us = snd (ideal_run (m_value_copy m) ops (content ts)) \<and> length us \<le> 8 * (n + 1)"
  using assms
proof (induction ops arbitrary: m ts w)
  case Nil
  then show ?case by auto
next
  case (Cons op ops)
  have leg: "hash_legal (hm_conf m) op" "modest n op" "load ts < n" using Cons.prems(2,6) by simp_all
  from hash_step_exact [OF Cons.prems(1) leg(1,2) Cons.prems(3-5) leg(3)] obtain m1 w1 us where
    e: "hash_exec op m w = Some (fst (map_ideal (m_value_copy m) op (content ts)), m1, w1)"
    "hm_conf m1 = hm_conf m" "no_fail w1" "hm_rel m1 us"
    "content us = snd (map_ideal (m_value_copy m) op (content ts))" "length us \<le> 8 * (n + 1)" "load us \<le> load ts + 1"
    by (elim exE conjE) (rule that)
  have f: "m_value_copy m1 = m_value_copy m" using hm_confD [OF e(2)] by simp
  have "\<forall>op \<in> set ops. hash_legal (hm_conf m1) op \<and> modest n op" "load us + length ops \<le> n"
    using Cons.prems(2,6) e(2,7) by simp_all
  from Cons.IH [OF e(4) this(1) e(3) table_fits_conf [OF Cons.prems(4) e(2)] e(6) this(2), unfolded f] obtain m2 w2 vs where
    r: "run hash_exec ops m1 w1 = Some (fst (ideal_run (m_value_copy m) ops (content us)), m2, w2)"
    "hm_conf m2 = hm_conf m1" "hm_rel m2 vs" "content vs = snd (ideal_run (m_value_copy m) ops (content us))"
    "length vs \<le> 8 * (n + 1)"
    by (elim exE conjE) (rule that)
  show ?case
    using e(1,2,5) r
    by (intro exI [of _ m2] exI [of _ w2] exI [of _ vs]) (simp add: split_beta)
qed

section \<open>The capacity loop when its products wrap\<close>

lemma bucket_loop_returns: "bucket_loop n b = Some c \<Longrightarrow> b = 0 \<longrightarrow> sz_mul n 4 = 0"
  by (rule bucket_loop.raw_induct [where P = "\<lambda>n b c. b = 0 \<longrightarrow> sz_mul n 4 = 0"])
    (auto simp: sz_mul_def split: if_splits)

lemma bucket_loop_zero: "0 < sz_mul n 4 \<Longrightarrow> bucket_loop n 0 = None"
  using bucket_loop_returns [of n 0] by (cases "bucket_loop n 0") auto

lemma bucket_loop_hangs:
  assumes n: "3 * 2 ^ 62 < 4 * n" "4 * n \<le> SIZE_MAX" and b: "b = 2 ^ e" "e \<le> 63"
  shows "bucket_loop n b = None"
  using b
proof (induction "63 - e" arbitrary: b e)
  case 0
  then have "b = 2 ^ 63" by simp
  then have "sz_mul b 3 = 2 ^ 63" "sz_mul b 2 = 0" by (simp_all add: sz_mul_def SIZE_MAX_def)
  moreover have "sz_mul n 4 = 4 * n" using n(2) by simp
  ultimately show ?case using n(1) bucket_loop_zero [of n] by (subst bucket_loop.simps) simp
next
  case (Suc j)
  then have e: "e \<le> 62" "j = 63 - Suc e" "Suc e \<le> 63" by simp_all
  have "b \<le> 2 ^ 62" unfolding Suc.prems(1) by (rule power_increasing [OF e(1)]) simp
  then have "sz_mul b 3 = 3 * b" "sz_mul b 2 = 2 ^ Suc e" "3 * b < sz_mul n 4"
    using n Suc.prems(1) by (simp_all add: SIZE_MAX_def)
  then show ?case using Suc.hyps(1) [OF e(2) refl e(3)] by (subst bucket_loop.simps) simp
qed

section \<open>Properties\<close>

text \<open>C8: every history of \<open>hashmap_set\<close>, \<open>hashmap_delete\<close>, \<open>hashmap_clear\<close> and
  \<open>hashmap_reserve\<close> on a freshly initialised map runs to its end without undefined behaviour under
  any failures of the allocator and the copy callback, and behaves like the finite map: each call
  has the effect of the operation or returns \<open>- 1\<close> and leaves the contents alone, through every
  rehash and every reuse of a tombstone. Lookups then read that finite map. Destroying the map
  releases what is left: with a destroy callback every value that a successful call stored has
  been destroyed exactly once, and no block stays allocated, keys and strings included.\<close>

theorem hashmap_history:
  assumes "kind = KEY_SCALAR \<or> kind = KEY_CSTR \<and> ks = 8" and "0 < ks" "0 < vs"
    and "8 * ks \<le> PTRDIFF_MAX" "8 * vs \<le> PTRDIFF_MAX"
    and legal: "\<forall>op \<in> set ops. hash_legal (kind, ks, vs, d, f) op"
  shows "\<exists>m rcs m' w1 M ds zs p w2. hashmap_init (Ptr raw_hashmap) kind ks vs d f = (0, Ptr m)
    \<and> run hash_exec ops m w = Some (rcs, m', w1)
    \<and> explains (map_spec f) ops rcs Map.empty M ds \<and> destroyed w1 = destroyed w @ log_if d ds
    \<and> (\<forall>k. key_ok kind ks k \<longrightarrow>
         hashmap_contains (Ptr m') (Ptr k) = Some (if k \<in> dom M then 1 else 0)
         \<and> hashmap_get_as (Ptr m') (Ptr k) = Some (case M k of None \<Rightarrow> NULL | Some v \<Rightarrow> Ptr v))
    \<and> hashmap_destroy (Ptr m') w1 = Some (p, w2) \<and> destroyed w2 = destroyed w @ log_if d (ds @ zs)
    \<and> mset zs = range_mset M \<and> mset (ds @ zs) = stored (map_stores f) ops rcs \<and> live w2 = live w"
proof -
  from hashmap_init_ok [OF assms(1-5), of raw_hashmap d f] obtain m where
    i: "hashmap_init (Ptr raw_hashmap) kind ks vs d f = (0, Ptr m)" "hm_conf m = (kind, ks, vs, d, f)"
    "hm_rel m []" "hm_own m = 0"
    by (elim exE conjE) (rule that)
  have hold: "hash_holds m Map.empty"
    unfolding hash_holds_def using i(3) by (intro exI [of _ "[]"]) (simp add: content_def)
  have lg: "\<forall>op \<in> set ops. hash_legal (hm_conf m) op" using legal i(2) by simp
  from hashm.run_explained [OF hold lg, of w] obtain rcs m' w1 M ds where
    r: "run hash_exec ops m w = Some (rcs, m', w1)" "hm_conf m' = hm_conf m"
    "live w1 - hm_own m' = live w - hm_own m" "hash_holds m' M"
    "explains (map_spec (conf_copy (hm_conf m))) ops rcs Map.empty M ds"
    "destroyed w1 = destroyed w @ log_if (conf_destroy (hm_conf m)) ds"
    by (elim exE conjE) (rule that)
  obtain ts where ts: "hm_rel m' ts" "content ts = M" using r(4) by (auto simp: hash_holds_def)
  from hashmap_destroy_ok [OF ts(1), of w1] obtain m2 w2 where
    d: "hashmap_destroy (Ptr m') w1 = Some (Ptr m2, w2)" "hm_conf m2 = hm_conf m'"
    "live w2 = live w1 - hm_own m'" "no_fail w2 = no_fail w1" "hm_rel m2 []" "hm_own m2 = 0"
    "destroyed w2 = destroyed w1 @ log_if (m_value_destroy m') (map snd (entries ts))"
    by (elim exE conjE) (rule that)
  let ?zs = "map snd (entries ts)"
  have cf: "m_key_kind m' = kind" "m_key_size m' = ks" "m_value_destroy m' = d"
    using r(2) i(2) by (simp_all add: hm_conf_def)
  have zs: "mset ?zs = range_mset M"
    using range_mset_map_of [of "entries ts"] hm_relD(6) [OF ts(1)] ts(2) by (simp add: table_ok_def content_def)
  have st: "mset (ds @ ?zs) = stored (map_stores f) ops rcs"
    using hashm.explains_conserves [OF r(5)] i(2) zs by (simp add: ac_simps)
  have ex: "explains (map_spec f) ops rcs Map.empty M ds" "destroyed w1 = destroyed w @ log_if d ds"
    using r(5,6) i(2) by simp_all
  have d2: "destroyed w2 = destroyed w @ log_if d (ds @ ?zs)" "live w2 = live w"
    using d(3,7) ex(2) cf(3) r(3) i(4) by simp_all
  have reads: "\<forall>k. key_ok kind ks k \<longrightarrow>
      hashmap_contains (Ptr m') (Ptr k) = Some (if k \<in> dom M then 1 else 0)
      \<and> hashmap_get_as (Ptr m') (Ptr k) = Some (case M k of None \<Rightarrow> NULL | Some v \<Rightarrow> Ptr v)"
    using hashmap_reads_ok(1,2) [OF ts(1), unfolded cf ts(2)] by simp
  show ?thesis
    by (intro exI [of _ m] exI [of _ rcs] exI [of _ m'] exI [of _ w1] exI [of _ M] exI [of _ ds] exI [of _ ?zs]
        exI [of _ "Ptr m2"] exI [of _ w2] conjI i(1) r(1) ex reads d(1) d2 zs st)
qed

definition hash_example_ops :: "(cell, int) map_op list" where
  "hash_example_ops = [Put (Str (Ptr [97])) 4, Put (Str (Ptr [98, 99])) 5, Reserve 9,
     Remove (Str (Ptr [97])), Put (Str (Ptr [98, 99])) 6]"

lemma hash_example_legal: "\<forall>op \<in> set hash_example_ops. hash_legal (KEY_CSTR, 8, 4, True, None) op"
  by (simp add: hash_example_ops_def hash_legal_def key_ok_def PTRDIFF_MAX_def SIZE_MAX_def)

theorem hashmap_history_witness:
  "\<exists>m rcs m' w1 M ds zs p w2. hashmap_init (Ptr raw_hashmap) KEY_CSTR 8 4 True None = (0, Ptr m)
    \<and> run hash_exec hash_example_ops m (script [True, True, True, False] []) = Some (rcs, m', w1)
    \<and> explains (map_spec None) hash_example_ops rcs Map.empty M ds
    \<and> destroyed w1 = destroyed (script [True, True, True, False] [] :: int world) @ log_if True ds
    \<and> (\<forall>k. key_ok KEY_CSTR 8 k \<longrightarrow>
         hashmap_contains (Ptr m') (Ptr k) = Some (if k \<in> dom M then 1 else 0)
         \<and> hashmap_get_as (Ptr m') (Ptr k) = Some (case M k of None \<Rightarrow> NULL | Some v \<Rightarrow> Ptr v))
    \<and> hashmap_destroy (Ptr m') w1 = Some (p, w2)
    \<and> destroyed w2 = destroyed (script [True, True, True, False] [] :: int world) @ log_if True (ds @ zs)
    \<and> mset zs = range_mset M \<and> mset (ds @ zs) = stored (map_stores None) hash_example_ops rcs
    \<and> live w2 = live (script [True, True, True, False] [] :: int world)"
  by (rule hashmap_history [OF _ _ _ _ _ hash_example_legal]) (simp_all add: PTRDIFF_MAX_def)

text \<open>C9: when no allocation and no copy fails, a history of at most \<open>n\<close> operations, whose tables
  the allocator can serve, has exactly the results of the finite map: every \<open>hashmap_set\<close>,
  \<open>hashmap_clear\<close> and \<open>hashmap_reserve\<close> returns \<open>0\<close>, \<open>hashmap_delete\<close> returns \<open>0\<close> when the
  key was there and \<open>- 1\<close> otherwise, lookups and the size agree with the resulting finite map,
  and the table never has more than \<open>8 (n + 1)\<close> slots.\<close>

theorem hashmap_exact:
  assumes "kind = KEY_SCALAR \<or> kind = KEY_CSTR \<and> ks = 8" and "0 < ks" "0 < vs"
    and "8 * (n + 1) * ks \<le> PTRDIFF_MAX" "8 * (n + 1) * vs \<le> PTRDIFF_MAX"
    and ops: "\<forall>op \<in> set ops. hash_legal (kind, ks, vs, d, f) op \<and> modest n op" "length ops \<le> n"
    and "no_fail w"
  shows "\<exists>m m' w' M. hashmap_init (Ptr raw_hashmap) kind ks vs d f = (0, Ptr m)
    \<and> run hash_exec ops m w = Some (fst (ideal_run f ops Map.empty), m', w')
    \<and> M = snd (ideal_run f ops Map.empty)
    \<and> (\<forall>k. key_ok kind ks k \<longrightarrow>
         hashmap_contains (Ptr m') (Ptr k) = Some (if k \<in> dom M then 1 else 0)
         \<and> hashmap_get_as (Ptr m') (Ptr k) = Some (case M k of None \<Rightarrow> NULL | Some v \<Rightarrow> Ptr v))
    \<and> m_size m' = card (dom M) \<and> m_capacity m' \<le> 8 * (n + 1)"
proof -
  have "8 * ks \<le> 8 * (n + 1) * ks" "8 * vs \<le> 8 * (n + 1) * vs" by simp_all
  then have "8 * ks \<le> PTRDIFF_MAX" "8 * vs \<le> PTRDIFF_MAX" using assms(4,5) by linarith+
  from hashmap_init_ok [OF assms(1-3) this, of raw_hashmap d f] obtain m where
    i: "hashmap_init (Ptr raw_hashmap) kind ks vs d f = (0, Ptr m)" "hm_conf m = (kind, ks, vs, d, f)"
    "hm_rel m []" "hm_own m = 0"
    by (elim exE conjE) (rule that)
  have cf: "m_key_kind m = kind" "m_key_size m = ks" "m_value_size m = vs" "m_value_copy m = f"
    using i(2) by (simp_all add: hm_conf_def)
  have fit: "table_fits m n" using assms(4,5) cf by (simp add: table_fits_def)
  have leg: "\<forall>op \<in> set ops. hash_legal (hm_conf m) op \<and> modest n op" using ops(1) i(2) by simp
  have none: "content ([] :: (cell, 'a) slot list) = Map.empty" by (simp add: content_def)
  have size: "length ([] :: (cell, 'a) slot list) \<le> 8 * (n + 1)" "load ([] :: (cell, 'a) slot list) + length ops \<le> n"
    using ops(2) by (simp_all add: dead_def)
  from hash_run_exact [OF i(3) leg assms(8) fit size, unfolded none cf] obtain m' w' us where
    r: "run hash_exec ops m w = Some (fst (ideal_run f ops Map.empty), m', w')" "hm_conf m' = hm_conf m"
    "hm_rel m' us" "content us = snd (ideal_run f ops Map.empty)" "length us \<le> 8 * (n + 1)"
    by (elim exE conjE) (rule that)
  have cf': "m_key_kind m' = kind" "m_key_size m' = ks" using r(2) cf by (simp_all add: hm_conf_def)
  have sz: "m_size m' = card (dom (snd (ideal_run f ops Map.empty)))" "m_capacity m' \<le> 8 * (n + 1)"
    using hm_relD(3,4,6) [OF r(3)] r(4,5) card_content [OF hm_relD(6) [OF r(3)]] by simp_all
  show ?thesis
    using i(1) r(1) sz hashmap_reads_ok(1,2) [OF r(3), unfolded cf' r(4)]
    by (intro exI [of _ m] exI [of _ m'] exI [of _ w'] exI [of _ "snd (ideal_run f ops Map.empty)"]) simp
qed

theorem hashmap_exact_witness:
  "\<exists>m m' w' M. hashmap_init (Ptr raw_hashmap) KEY_CSTR 8 4 True None = (0, Ptr m)
    \<and> run hash_exec hash_example_ops m (script [] []) = Some (fst (ideal_run None hash_example_ops Map.empty), m', w')
    \<and> M = snd (ideal_run None hash_example_ops Map.empty)
    \<and> (\<forall>k. key_ok KEY_CSTR 8 k \<longrightarrow>
         hashmap_contains (Ptr m') (Ptr k) = Some (if k \<in> dom M then 1 else 0)
         \<and> hashmap_get_as (Ptr m') (Ptr k) = Some (case M k of None \<Rightarrow> NULL | Some v \<Rightarrow> Ptr v))
    \<and> m_size m' = card (dom M) \<and> m_capacity m' \<le> 8 * (9 + 1)"
  by (rule hashmap_exact)
    (use hash_example_legal in \<open>auto simp: PTRDIFF_MAX_def no_fail_def script_def modest_def hash_example_ops_def\<close>)

text \<open>\<open>hashmap_copy\<close> destroys the contents of an initialised destination and gives it a deep copy
  of the source, configuration included. When the allocator or the copy callback fails it returns
  \<open>- 1\<close> with an empty destination, and the values it had copied, of distinct keys of the source,
  have been destroyed. No block leaks, and without failures the copy succeeds.\<close>

theorem hashmap_copy_deep:
  assumes "hm_rel m ts" "kind_ok m" and "hm_rel d us"
  shows "\<exists>rc d' w'. hashmap_copy False (Ptr d) (Ptr m) w = Some (rc, Ptr d', w') \<and> hm_conf d' = hm_conf m
    \<and> live w' - hm_own d' = live w - hm_own d \<and> (no_fail w \<longrightarrow> rc = 0)
    \<and> copy_outcome m ts (destroyed w @ log_if (m_value_destroy d) (map snd (entries us))) rc d' w'"
  by (rule hashmap_copy_ok [OF assms])

text \<open>A map with one entry, one tombstone and six free slots.\<close>

definition example_map :: "bool \<Rightarrow> 'v \<Rightarrow> 'v \<Rightarrow> 'v hashmap" where
  "example_map d x y = \<lparr>m_capacity = 8, m_size = 1, m_tombstones = 1, m_key_size = 1, m_value_size = 1,
     m_key_kind = KEY_SCALAR, m_value_destroy = d, m_value_copy = None,
     m_states = Ptr (map Some [EMPTY, EMPTY, EMPTY, EMPTY, EMPTY, EMPTY, OCCUPIED, DELETED]),
     m_keys = Ptr [None, None, None, None, None, None, Some (Bytes [1]), Some (Bytes [9])],
     m_values = Ptr [None, None, None, None, None, None, Some x, Some y]\<rparr>"

definition example_table :: "'v \<Rightarrow> (cell, 'v) slot list" where
  "example_table x = [Free, Free, Free, Free, Free, Free, Full (Bytes [1]) x, Dead]"

lemma hash_example_hash: "hash_of KEY_SCALAR (Bytes [1]) mod 8 = 6"
  by (simp add: hash_of_def hashmap_hash_scalar_bytes_def)

lemma example_map_rel: "hm_rel (example_map d x y) (example_table x)" "kind_ok (example_map d x y)"
proof -
  have arr: "arrays (m_states (example_map d x y)) (m_keys (example_map d x y)) (m_values (example_map d x y)) (example_table x)"
    by (auto simp: arrays_def example_map_def example_table_def nth_Cons' split: if_splits)
  have "buckets_ok (example_map d x y) (length (example_table x))"
    by (auto simp: buckets_ok_def example_map_def example_table_def PTRDIFF_MAX_def intro!: exI [of _ 3])
  then have shape: "hm_shape (example_map d x y) (example_table x)"
    by (simp add: hm_shape_def example_map_def example_table_def PTRDIFF_MAX_def)
  have "reach (example_table x) (hash_of KEY_SCALAR (Bytes [1])) 6"
    using hash_example_hash
    by (auto simp: reach_def step_slot_def example_table_def intro!: exI [of _ 0])
  moreover have "i = 6 \<and> k = Bytes [1]"
    if "i < length (example_table x)" "(example_table x) ! i = Full k v" for i k v
    using that by (auto simp: example_table_def nth_Cons' split: if_splits)
  ultimately have "table_ok (hash_of KEY_SCALAR) (example_table x)"
    by (auto simp: table_ok_def) (auto simp: example_table_def)
  moreover have "keys_ok KEY_SCALAR 1 (example_table x)"
    by (auto simp: keys_ok_def example_table_def key_ok_def)
  ultimately show "hm_rel (example_map d x y) (example_table x)"
    using arr shape by (simp add: hm_rel_def) (simp add: example_map_def example_table_def dead_def)
  show "kind_ok (example_map d x y)" by (simp add: kind_ok_def example_map_def)
qed

definition hash_example :: "int hashmap" where
  "hash_example = example_map True 70 80"

lemma hash_example_rel: "hm_rel hash_example (example_table 70)" "kind_ok hash_example"
  by (simp_all add: hash_example_def example_map_rel)

theorem hashmap_copy_deep_witness:
  "\<exists>rc d' w'. hashmap_copy False (Ptr hash_example) (Ptr hash_example) (script [True, False] [])
      = Some (rc, Ptr d', w') \<and> hm_conf d' = hm_conf hash_example
    \<and> live w' - hm_own d' = live (script [True, False] [] :: int world) - hm_own hash_example
    \<and> (no_fail (script [True, False] [] :: int world) \<longrightarrow> rc = 0)
    \<and> copy_outcome hash_example (example_table 70) (destroyed (script [True, False] [] :: int world)
        @ log_if (m_value_destroy hash_example) (map snd (entries (example_table 70)))) rc d' w'"
  by (rule hashmap_copy_deep [OF hash_example_rel hash_example_rel(1)])

text \<open>C10: walking over a map with \<open>hashmap_first\<close> and \<open>hashmap_next\<close> ends and visits every entry
  exactly once: the keys and values that \<open>hashmap_entry_key\<close> and \<open>hashmap_entry_value\<close> give on
  the way are \<open>m_size\<close> entries with distinct keys, and together they are the finite map that the
  lookups read.\<close>

theorem hashmap_iterates:
  assumes "hm_rel m ts"
  shows "\<exists>i kvs. hashmap_first (Ptr m) = Some i \<and> hash_walk (Ptr m) i = Some kvs
    \<and> length kvs = m_size m \<and> distinct (map fst kvs) \<and> map_of kvs = content ts
    \<and> (\<forall>(k, v) \<in> set kvs. hashmap_get_as (Ptr m) (Ptr k) = Some (Ptr v))"
proof -
  note d = hm_relD [OF assms]
  have dist: "distinct (map fst (entries ts))" using d(6) by (simp add: table_ok_def)
  have "hashmap_get_as (Ptr m) (Ptr k) = Some (Ptr v)" if "(k, v) \<in> set (entries ts)" for k v
  proof -
    have "key_ok (m_key_kind m) (m_key_size m) k" using that d(7) unfolding keys_ok_def in_entries by blast
    moreover have "content ts k = Some v" using map_of_is_SomeI [OF dist that] by (simp add: content_def)
    ultimately show ?thesis using hashmap_reads_ok(2) [OF assms] by simp
  qed
  then show ?thesis
    using hashmap_first_next_ok(1) [OF assms] hash_walk_ok [OF assms, of 0] d(4) dist
    by (intro exI [of _ "next_full ts 0"] exI [of _ "entries ts"]) (auto simp: content_def)
qed

theorem hashmap_iterates_witness:
  "\<exists>i kvs. hashmap_first (Ptr hash_example) = Some i \<and> hash_walk (Ptr hash_example) i = Some kvs
    \<and> length kvs = m_size hash_example \<and> distinct (map fst kvs) \<and> map_of kvs = content (example_table 70)
    \<and> (\<forall>(k, v) \<in> set kvs. hashmap_get_as (Ptr hash_example) (Ptr k) = Some (Ptr v))"
  by (rule hashmap_iterates [OF hash_example_rel(1)])

text \<open>C11: \<open>hashmap_reserve\<close> does not return for \<open>n\<close> entries with \<open>3 * 2 ^ 60 < n < 2 ^ 62\<close>: the
  bucket count doubles until it wraps to 0 and stays there. For \<open>n = 2 ^ 62\<close> the product
  \<open>n * 4\<close> itself wraps, and eight buckets are taken to be enough.\<close>

theorem hashmap_reserve_hangs:
  assumes "3 * 2 ^ 60 < n" and "n < 2 ^ 62"
  shows "hashmap_reserve (Ptr m) n w = None \<and> hashmap_bucket_capacity_for_entries (2 ^ 62) = Some 8"
proof -
  have "3 * 2 ^ 62 < 4 * n" "4 * n \<le> SIZE_MAX" using assms by (simp_all add: SIZE_MAX_def)
  then have "bucket_loop n 8 = None" by (rule bucket_loop_hangs [of n 8 3]) simp_all
  then have "hashmap_reserve (Ptr m) n w = None"
    using assms(1) by (simp add: hashmap_reserve_def hashmap_bucket_capacity_for_entries_def HASHMAP_INIT_CAPACITY_def)
  moreover have "hashmap_bucket_capacity_for_entries (2 ^ 62) = Some 8"
    by (simp add: hashmap_bucket_capacity_for_entries_def HASHMAP_INIT_CAPACITY_def bucket_loop.simps sz_mul_def SIZE_MAX_def)
  ultimately show ?thesis by blast
qed

theorem hashmap_reserve_hangs_witness:
  "hashmap_reserve (Ptr hash_example) (2 ^ 62 - 1) (script [] []) = None
    \<and> hashmap_bucket_capacity_for_entries (2 ^ 62) = Some 8"
  using hashmap_reserve_hangs [where n = "2 ^ 62 - 1"] by simp

end
