(* ===== verification/Hashset.thy ===== *)
theory Hashset
  imports Hashmap_Props
begin

text \<open>
  \<open>src/hashset.c\<close>: the set of keys, a hash map that stores the byte 1 for every member. Every
  function of the file is a definition of the same name. What is proved of a history of set
  operations comes from the interface \<open>set_wrapper\<close> of \<open>Maps\<close>, interpreted on the hash map.
\<close>

section \<open>Model\<close>

record hashset =
  hs_map :: "8 word hashmap"

definition hashset_init :: "hashset ptr \<Rightarrow> int \<Rightarrow> size_t \<Rightarrow> int \<times> hashset ptr" where
  "hashset_init p key_kind key_size = (case p of NULL \<Rightarrow> (- 1, NULL) | Ptr s \<Rightarrow>
     let (rc, q) = hashmap_init (Ptr (hs_map s)) key_kind key_size 1 False None in
     (rc, Ptr (s\<lparr>hs_map := pt q\<rparr>)))"

definition hashset_destroy ::
    "hashset ptr \<Rightarrow> (8 word, 'b) world_scheme \<Rightarrow> (hashset ptr \<times> (8 word, 'b) world_scheme) option" where
  "hashset_destroy p w = (case p of NULL \<Rightarrow> Some (NULL, w) | Ptr s \<Rightarrow> do {
     (q, w1) \<leftarrow> hashmap_destroy (Ptr (hs_map s)) w;
     Some (Ptr (s\<lparr>hs_map := pt q\<rparr>), w1) })"

definition raw_hashset :: hashset where
  "raw_hashset = \<lparr>hs_map = raw_hashmap\<rparr>"

definition hashset_new ::
    "int \<Rightarrow> size_t \<Rightarrow> (8 word, 'b) world_scheme \<Rightarrow> hashset ptr \<times> (8 word, 'b) world_scheme" where
  "hashset_new key_kind key_size w =
     (let (ok, w1) = malloc 88 w in
      if \<not> ok then (NULL, w1)
      else let (rc, p) = hashset_init (Ptr raw_hashset) key_kind key_size in
        if rc \<noteq> 0 then (NULL, free_block w1) else (p, w1))"

definition hashset_free ::
    "hashset ptr \<Rightarrow> (8 word, 'b) world_scheme \<Rightarrow> (8 word, 'b) world_scheme option" where
  "hashset_free p w = (case p of NULL \<Rightarrow> Some w | Ptr _ \<Rightarrow> do {
     (_, w1) \<leftarrow> hashset_destroy p w; Some (free_block w1) })"

definition hashset_copy ::
    "bool \<Rightarrow> hashset ptr \<Rightarrow> hashset ptr \<Rightarrow> (8 word, 'b) world_scheme
     \<Rightarrow> (int \<times> hashset ptr \<times> (8 word, 'b) world_scheme) option" where
  "hashset_copy same dst src w =
     (if dst = NULL \<or> src = NULL then Some (- 1, dst, w)
      else do {
        (rc, q, w1) \<leftarrow> hashmap_copy same (Ptr (hs_map (pt dst))) (Ptr (hs_map (pt src))) w;
        Some (rc, Ptr ((pt dst)\<lparr>hs_map := pt q\<rparr>), w1) })"

definition hashset_clone ::
    "hashset ptr \<Rightarrow> (8 word, 'b) world_scheme \<Rightarrow> (hashset ptr \<times> (8 word, 'b) world_scheme) option" where
  "hashset_clone src w = (case src of NULL \<Rightarrow> Some (NULL, w) | Ptr s \<Rightarrow>
     let (copy, w1) = hashset_new (m_key_kind (hs_map s)) (m_key_size (hs_map s)) w in
     if copy = NULL then Some (NULL, w1)
     else do {
       (rc, copy1, w2) \<leftarrow> hashset_copy False copy src w1;
       if rc \<noteq> 0 then do { w3 \<leftarrow> hashset_free copy1 w2; Some (NULL, w3) } else Some (copy1, w2) })"

definition hashset_reserve ::
    "hashset ptr \<Rightarrow> size_t \<Rightarrow> (8 word, 'b) world_scheme \<Rightarrow> (int \<times> hashset ptr \<times> (8 word, 'b) world_scheme) option" where
  "hashset_reserve p capacity w = (case p of NULL \<Rightarrow> Some (- 1, NULL, w) | Ptr s \<Rightarrow> do {
     (rc, q, w1) \<leftarrow> hashmap_reserve (Ptr (hs_map s)) capacity w;
     Some (rc, Ptr (s\<lparr>hs_map := pt q\<rparr>), w1) })"

definition hashset_add ::
    "hashset ptr \<Rightarrow> cell ptr \<Rightarrow> (8 word, 'b) world_scheme \<Rightarrow> (int \<times> hashset ptr \<times> (8 word, 'b) world_scheme) option" where
  "hashset_add p key w = (case p of NULL \<Rightarrow> Some (- 1, NULL, w) | Ptr s \<Rightarrow> do {
     (rc, q, w1) \<leftarrow> hashmap_set (Ptr (hs_map s)) key (Ptr 1) w;
     Some (rc, Ptr (s\<lparr>hs_map := pt q\<rparr>), w1) })"

definition hashset_contains :: "hashset ptr \<Rightarrow> cell ptr \<Rightarrow> int option" where
  "hashset_contains p key = (case p of NULL \<Rightarrow> Some 0 | Ptr s \<Rightarrow> hashmap_contains (Ptr (hs_map s)) key)"

definition hashset_delete ::
    "hashset ptr \<Rightarrow> cell ptr \<Rightarrow> (8 word, 'b) world_scheme \<Rightarrow> (int \<times> hashset ptr \<times> (8 word, 'b) world_scheme) option" where
  "hashset_delete p key w = (case p of NULL \<Rightarrow> Some (- 1, NULL, w) | Ptr s \<Rightarrow> do {
     (rc, q, w1) \<leftarrow> hashmap_delete (Ptr (hs_map s)) key w;
     Some (rc, Ptr (s\<lparr>hs_map := pt q\<rparr>), w1) })"

definition hashset_clear ::
    "hashset ptr \<Rightarrow> (8 word, 'b) world_scheme \<Rightarrow> (hashset ptr \<times> (8 word, 'b) world_scheme) option" where
  "hashset_clear p w = (case p of NULL \<Rightarrow> Some (NULL, w) | Ptr s \<Rightarrow> do {
     (q, w1) \<leftarrow> hashmap_clear (Ptr (hs_map s)) w;
     Some (Ptr (s\<lparr>hs_map := pt q\<rparr>), w1) })"

definition HASHSET_NPOS :: size_t where "HASHSET_NPOS = HASHMAP_NPOS"

definition hashset_first :: "hashset ptr \<Rightarrow> size_t option" where
  "hashset_first p = (case p of NULL \<Rightarrow> Some HASHSET_NPOS | Ptr s \<Rightarrow> hashmap_first (Ptr (hs_map s)))"

definition hashset_next :: "hashset ptr \<Rightarrow> size_t \<Rightarrow> size_t option" where
  "hashset_next p index = (case p of NULL \<Rightarrow> Some HASHSET_NPOS | Ptr s \<Rightarrow> hashmap_next (Ptr (hs_map s)) index)"

definition hashset_entry_key :: "hashset ptr \<Rightarrow> size_t \<Rightarrow> cell ptr option" where
  "hashset_entry_key p index = (case p of NULL \<Rightarrow> Some NULL | Ptr s \<Rightarrow> hashmap_entry_key (Ptr (hs_map s)) index)"

definition hashset_entry_key_const :: "hashset ptr \<Rightarrow> size_t \<Rightarrow> cell ptr option" where
  "hashset_entry_key_const p index =
     (case p of NULL \<Rightarrow> Some NULL | Ptr s \<Rightarrow> hashmap_entry_key_const (Ptr (hs_map s)) index)"

section \<open>The machine\<close>

definition hashset_exec ::
    "cell set_op \<Rightarrow> hashset \<Rightarrow> (8 word, 'b) world_scheme \<Rightarrow> (int \<times> hashset \<times> (8 word, 'b) world_scheme) option" where
  "hashset_exec op s w = (case op of
       Add k \<Rightarrow> map_option (\<lambda>(rc, p, w1). (rc, pt p, w1)) (hashset_add (Ptr s) (Ptr k) w)
     | Drop k \<Rightarrow> map_option (\<lambda>(rc, p, w1). (rc, pt p, w1)) (hashset_delete (Ptr s) (Ptr k) w)
     | Empty \<Rightarrow> map_option (\<lambda>(p, w1). (0, pt p, w1)) (hashset_clear (Ptr s) w)
     | Room n \<Rightarrow> map_option (\<lambda>(rc, p, w1). (rc, pt p, w1)) (hashset_reserve (Ptr s) n w))"

interpretation hset: set_wrapper hash_exec conf_copy hash_legal "\<lambda>m w. hash_holds m" hm_conf conf_destroy "\<lambda>m w. hm_own m"
  hashset_exec hs_map hashset.make
proof (unfold_locales, goal_cases)
  case (1 op s w)
  show ?case
    by (cases op) (auto simp: hashset_exec_def hash_exec_def hashset_add_def hashset_delete_def hashset_clear_def
        hashset_reserve_def hashset.make_def bind_split split: option.splits)
next
  case (2 c)
  show ?case by (simp add: hashset.make_def)
qed

text \<open>The members of a set are the keys of its map.\<close>

definition set_holds :: "hashset \<Rightarrow> cell set \<Rightarrow> bool" where
  "set_holds s S \<longleftrightarrow> \<not> m_value_destroy (hs_map s) \<and> (\<exists>M. hash_holds (hs_map s) M \<and> dom M = S)"

lemma set_holds_rel: "hset.set_rel s w S \<longleftrightarrow> set_holds s S"
  by (simp add: hset.set_rel_def set_holds_def)

lemma set_holdsE:
  assumes "set_holds s S"
  obtains ts where "hm_rel (hs_map s) ts" "dom (content ts) = S" "\<not> m_value_destroy (hs_map s)"
  using assms by (auto simp: set_holds_def hash_holds_def)

lemma explains_set_spec: "explains set_spec ops rcs S S' ds \<Longrightarrow> ds = []"
  by (erule explains_no_log) (simp add: set_spec_def)

lemma hashset_init_ok:
  assumes "kind = KEY_SCALAR \<or> kind = KEY_CSTR \<and> ks = 8" and "0 < ks" "8 * ks \<le> PTRDIFF_MAX"
  shows "\<exists>s. hashset_init (Ptr u) kind ks = (0, Ptr s) \<and> hm_conf (hs_map s) = (kind, ks, 1, False, None)
    \<and> hm_rel (hs_map s) [] \<and> hm_own (hs_map s) = 0"
proof -
  have "0 < (1 :: nat)" "8 * 1 \<le> PTRDIFF_MAX" by (simp_all add: PTRDIFF_MAX_def)
  from hashmap_init_ok [OF assms(1,2) this(1) assms(3) this(2), of "hs_map u" False None] obtain m where
    "hashmap_init (Ptr (hs_map u)) kind ks 1 False None = (0, Ptr m)" "hm_conf m = (kind, ks, 1, False, None)"
    "hm_rel m []" "hm_own m = 0"
    by (elim exE conjE) (rule that)
  then show ?thesis by (intro exI [of _ "u\<lparr>hs_map := m\<rparr>"]) (simp add: hashset_init_def)
qed

lemma hashset_contains_ok:
  assumes "set_holds s S" and "key_ok (m_key_kind (hs_map s)) (m_key_size (hs_map s)) k"
  shows "hashset_contains (Ptr s) (Ptr k) = Some (if k \<in> S then 1 else 0)"
  using assms(1) by (rule set_holdsE) (simp add: hashset_contains_def hashmap_reads_ok(1) [OF _ assms(2)])

lemma hashset_destroy_ok:
  assumes "set_holds s S"
  shows "\<exists>s' w'. hashset_destroy (Ptr s) w = Some (Ptr s', w') \<and> live w' = live w - hm_own (hs_map s)
    \<and> destroyed w' = destroyed w \<and> no_fail w' = no_fail w"
  using assms
proof (rule set_holdsE)
  fix ts assume ts: "hm_rel (hs_map s) ts" "dom (content ts) = S" "\<not> m_value_destroy (hs_map s)"
  from hashmap_destroy_ok [OF ts(1), of w] obtain m w' where
    "hashmap_destroy (Ptr (hs_map s)) w = Some (Ptr m, w')" "hm_conf m = hm_conf (hs_map s)"
    "live w' = live w - hm_own (hs_map s)" "no_fail w' = no_fail w" "hm_rel m []" "hm_own m = 0"
    "destroyed w' = destroyed w @ log_if (m_value_destroy (hs_map s)) (map snd (entries ts))"
    by (elim exE conjE) (rule that)
  then show ?thesis
    using ts(3) by (intro exI [of _ "s\<lparr>hs_map := m\<rparr>"] exI [of _ w']) (simp add: hashset_destroy_def)
qed

lemma set_holds_size:
  assumes "set_holds s S"
  shows "m_size (hs_map s) = card S"
  using assms by (rule set_holdsE) (auto simp: hm_relD(4) card_content [OF hm_relD(6)])

section \<open>Walking and cloning\<close>

partial_function (option) set_walk :: "hashset ptr \<Rightarrow> size_t \<Rightarrow> cell list option" where
  "set_walk p i =
     (if i = HASHSET_NPOS then Some []
      else do {
        k \<leftarrow> hashset_entry_key p i;
        j \<leftarrow> hashset_next p i;
        rest \<leftarrow> set_walk p j;
        if k = NULL then None else Some (pt k # rest) })"

lemma set_walk_ok:
  assumes m: "hm_rel (hs_map s) ts"
  shows "set_walk (Ptr s) (next_full ts j) = Some (map fst (entries (drop j ts)))"
proof (induction "length ts - j" arbitrary: j)
  case 0
  then show ?case by (subst set_walk.simps) (simp add: next_full_simps HASHSET_NPOS_def)
next
  case (Suc n)
  then have j: "j < length ts" "n = length ts - Suc j" by simp_all
  then have dr: "drop j ts = ts ! j # drop (Suc j) ts" by (simp add: Cons_nth_drop_Suc)
  show ?case
  proof (cases "ts ! j")
    case (Full k v)
    then show ?thesis
      using Suc.hyps(1) [OF j(2)] entry_ok(1) [OF m j(1) Full] hashmap_first_next_ok(2) [OF m, of j]
        NPOS_not_index [OF m j(1)] next_full_simps(2) [OF j(1)]
      by (subst set_walk.simps) (simp add: dr HASHSET_NPOS_def hashset_entry_key_def hashset_next_def)
  qed (use Suc.hyps(1) [OF j(2)] next_full_simps(3) [OF j(1)] dr in simp_all)
qed

lemma hashset_copy_ok:
  assumes "set_holds s S" "kind_ok (hs_map s)" and "hm_rel (hs_map d) us" "\<not> m_value_destroy (hs_map d)"
  shows "\<exists>rc d' w'. hashset_copy False (Ptr d) (Ptr s) w = Some (rc, Ptr d', w')
    \<and> hm_conf (hs_map d') = hm_conf (hs_map s) \<and> destroyed w' = destroyed w
    \<and> live w' - hm_own (hs_map d') = live w - hm_own (hs_map d) \<and> (no_fail w \<longrightarrow> rc = 0)
    \<and> (rc = 0 \<and> set_holds d' S \<or> rc = - 1 \<and> set_holds d' {})"
  using assms(1)
proof (rule set_holdsE)
  fix ts assume ts: "hm_rel (hs_map s) ts" "dom (content ts) = S" "\<not> m_value_destroy (hs_map s)"
  from hashmap_copy_ok [OF ts(1) assms(2,3), of w] obtain rc m w' where
    c: "hashmap_copy False (Ptr (hs_map d)) (Ptr (hs_map s)) w = Some (rc, Ptr m, w')" "hm_conf m = hm_conf (hs_map s)"
    "live w' - hm_own m = live w - hm_own (hs_map d)" "no_fail w \<longrightarrow> rc = 0"
    "copy_outcome (hs_map s) ts (destroyed w @ log_if (m_value_destroy (hs_map d)) (map snd (entries us))) rc m w'"
    by (elim exE conjE) (rule that)
  let ?d = "d\<lparr>hs_map := m\<rparr>"
  have nd: "\<not> m_value_destroy m" using hm_confD [OF c(2)] ts(3) by simp
  have run: "hashset_copy False (Ptr d) (Ptr s) w = Some (rc, Ptr ?d, w')" using c(1) by (simp add: hashset_copy_def)
  have "dom (map_option (copied (m_value_copy (hs_map s))) \<circ> content ts) = S" using ts(2) by auto
  moreover have "set_holds ?d (dom M)" if "hash_holds m M" for M
    unfolding set_holds_def using that nd by (intro conjI exI [of _ M]) simp_all
  ultimately have "(rc = 0 \<and> set_holds ?d S \<or> rc = - 1 \<and> set_holds ?d {}) \<and> destroyed w' = destroyed w"
    using c(5) ts(3) assms(4) unfolding copy_outcome_def by (elim disjE conjE exE) fastforce+
  then show ?thesis using run c(2-4) by (intro exI [of _ rc] exI [of _ ?d] exI [of _ w']) simp
qed

lemma hashset_clone_ok:
  assumes s: "set_holds s S" "kind_ok (hs_map s)"
  shows "\<exists>c w'. hashset_clone (Ptr s) w = Some (c, w') \<and> destroyed w' = destroyed w
    \<and> (no_fail w \<longrightarrow> c \<noteq> NULL)
    \<and> (case c of NULL \<Rightarrow> live w' = live w
       | Ptr t \<Rightarrow> set_holds t S \<and> hm_conf (hs_map t) = hm_conf (hs_map s) \<and> live w' = live w + hm_own (hs_map t) + 1)"
proof -
  obtain ok w1 where al: "malloc 88 w = (ok, w1)" by fastforce
  note e = malloc_effect(1,3,5,6) [OF al]
  have kd: "m_key_kind (hs_map s) = KEY_SCALAR \<or> m_key_kind (hs_map s) = KEY_CSTR \<and> m_key_size (hs_map s) = 8"
    using s(2) by (simp add: kind_ok_def)
  have lim: "0 < m_key_size (hs_map s)" "8 * m_key_size (hs_map s) \<le> PTRDIFF_MAX"
    using s(1) by (rule set_holdsE; simp add: hm_conf_legal)+
  from hashset_init_ok [OF kd lim, of raw_hashset] obtain n where
    i: "hashset_init (Ptr raw_hashset) (m_key_kind (hs_map s)) (m_key_size (hs_map s)) = (0, Ptr n)"
    "hm_conf (hs_map n) = (m_key_kind (hs_map s), m_key_size (hs_map s), 1, False, None)"
    "hm_rel (hs_map n) []" "hm_own (hs_map n) = 0"
    by (elim exE conjE) (rule that)
  show ?thesis
  proof (cases ok)
    case False
    then have "hashset_clone (Ptr s) w = Some (NULL, w1)" using al by (simp add: hashset_clone_def hashset_new_def)
    then show ?thesis using e False by (auto simp: PTRDIFF_MAX_def)
  next
    case True
    then have new: "hashset_new (m_key_kind (hs_map s)) (m_key_size (hs_map s)) w = (Ptr n, w1)"
      using al i(1) by (simp add: hashset_new_def)
    have nd: "\<not> m_value_destroy (hs_map n)" using i(2) by (simp add: hm_conf_def)
    from hashset_copy_ok [OF s i(3) nd, of w1] obtain rc t w2 where
      c: "hashset_copy False (Ptr n) (Ptr s) w1 = Some (rc, Ptr t, w2)" "hm_conf (hs_map t) = hm_conf (hs_map s)"
      "destroyed w2 = destroyed w1" "live w2 - hm_own (hs_map t) = live w1 - hm_own (hs_map n)" "no_fail w1 \<longrightarrow> rc = 0"
      and res: "rc = 0 \<and> set_holds t S \<or> rc = - 1 \<and> set_holds t {}"
      by (elim exE conjE) (rule that)
    show ?thesis
    proof (cases "rc = 0")
      case True
      then have "hashset_clone (Ptr s) w = Some (Ptr t, w2)" using new c(1) by (simp add: hashset_clone_def)
      then show ?thesis
        using True res c(2-4) e \<open>ok\<close> i(4) by (intro exI [of _ "Ptr t"] exI [of _ w2]) simp
    next
      case False
      with res have "set_holds t {}" by simp
      from hashset_destroy_ok [OF this, of w2] obtain t' w3 where
        d: "hashset_destroy (Ptr t) w2 = Some (Ptr t', w3)" "live w3 = live w2 - hm_own (hs_map t)"
        "destroyed w3 = destroyed w2" "no_fail w3 = no_fail w2"
        by (elim exE conjE) (rule that)
      have "hashset_clone (Ptr s) w = Some (NULL, free_block w3)"
        using new c(1) d(1) False by (simp add: hashset_clone_def hashset_free_def)
      moreover have "\<not> no_fail w" using False c(5) e(3) by blast
      ultimately show ?thesis
        using d(2,3) c(3,4) e(1,2) \<open>ok\<close> i(4) by (intro exI [of _ NULL] exI [of _ "free_block w3"]) simp
    qed
  qed
qed

section \<open>Properties\<close>

text \<open>C12: every history of additions, deletions, clears and reservations on a freshly initialised
  hash set runs without undefined behaviour under any allocation failures and behaves like a
  mathematical set, each call having its effect or returning \<open>- 1\<close> without one. Membership tests
  and the size then read that set, and destroying the set leaves no block allocated.\<close>

theorem hashset_history:
  assumes "kind = KEY_SCALAR \<or> kind = KEY_CSTR \<and> ks = 8" and "0 < ks" "8 * ks \<le> PTRDIFF_MAX"
    and legal: "\<forall>op \<in> set ops. hash_legal (kind, ks, 1, False, None) (as_map_op op)"
  shows "\<exists>s rcs s' w1 S p w2. hashset_init (Ptr raw_hashset) kind ks = (0, Ptr s)
    \<and> run hashset_exec ops s w = Some (rcs, s', w1) \<and> explains set_spec ops rcs {} S []
    \<and> (\<forall>k. key_ok kind ks k \<longrightarrow> hashset_contains (Ptr s') (Ptr k) = Some (if k \<in> S then 1 else 0))
    \<and> m_size (hs_map s') = card S
    \<and> hashset_destroy (Ptr s') w1 = Some (p, w2) \<and> live w2 = live w"
proof -
  from hashset_init_ok [OF assms(1-3), of raw_hashset] obtain s where
    i: "hashset_init (Ptr raw_hashset) kind ks = (0, Ptr s)" "hm_conf (hs_map s) = (kind, ks, 1, False, None)"
    "hm_rel (hs_map s) []" "hm_own (hs_map s) = 0"
    by (elim exE conjE) (rule that)
  have "hash_holds (hs_map s) Map.empty"
    unfolding hash_holds_def using i(3) by (intro exI [of _ "[]"]) (simp add: content_def)
  then have "set_holds s {}" using i(2) by (auto simp: set_holds_def hm_conf_def)
  then have hold: "hset.set_rel s w {}" by (simp add: set_holds_rel)
  have lg: "\<forall>op \<in> set ops. hash_legal (hm_conf (hs_map s)) (as_map_op op)" using legal i(2) by simp
  from hset.sets.run_explained [OF hold lg] obtain rcs s' w1 S ds where
    r: "run hashset_exec ops s w = Some (rcs, s', w1)" "hm_conf (hs_map s') = hm_conf (hs_map s)"
    "live w1 - hm_own (hs_map s') = live w - hm_own (hs_map s)" "hset.set_rel s' w1 S"
    "explains set_spec ops rcs {} S ds" "destroyed w1 = destroyed w @ log_if False ds"
    by (elim exE conjE) (rule that)
  have S: "set_holds s' S" using r(4) by (simp add: set_holds_rel)
  from hashset_destroy_ok [OF S, of w1] obtain s2 w2 where
    d: "hashset_destroy (Ptr s') w1 = Some (Ptr s2, w2)" "live w2 = live w1 - hm_own (hs_map s')"
    "destroyed w2 = destroyed w1" "no_fail w2 = no_fail w1"
    by (elim exE conjE) (rule that)
  have cf: "m_key_kind (hs_map s') = kind" "m_key_size (hs_map s') = ks" using r(2) i(2) by (simp_all add: hm_conf_def)
  show ?thesis
    using i(1,4) r(1,3,5) d(1,2) explains_set_spec [OF r(5)] set_holds_size [OF S] hashset_contains_ok [OF S, unfolded cf]
    by (intro exI [of _ s] exI [of _ rcs] exI [of _ s'] exI [of _ w1] exI [of _ S] exI [of _ "Ptr s2"] exI [of _ w2]) simp
qed

theorem hashset_history_witness:
  "\<exists>s rcs s' w1 S p w2. hashset_init (Ptr raw_hashset) KEY_SCALAR 2 = (0, Ptr s)
    \<and> run hashset_exec [Add (Bytes [1, 2]), Room 7, Drop (Bytes [1, 2]), Add (Bytes [3, 4])] s
        (script [True, True, True, True, True, False] []) = Some (rcs, s', w1)
    \<and> explains set_spec [Add (Bytes [1, 2]), Room 7, Drop (Bytes [1, 2]), Add (Bytes [3, 4])] rcs {} S []
    \<and> (\<forall>k. key_ok KEY_SCALAR 2 k \<longrightarrow> hashset_contains (Ptr s') (Ptr k) = Some (if k \<in> S then 1 else 0))
    \<and> m_size (hs_map s') = card S
    \<and> hashset_destroy (Ptr s') w1 = Some (p, w2) \<and> live w2 = live (script [True, True, True, True, True, False] [] :: 8 word world)"
  by (rule hashset_history) (simp_all add: hash_legal_def key_ok_def SIZE_MAX_def PTRDIFF_MAX_def)

text \<open>\<open>hashset_clone\<close> gives a new set with the same members, over which iteration visits every
  member exactly once, or \<open>NULL\<close> with every block it took released; it fails only when the
  allocator does.\<close>

theorem hashset_clone_same:
  assumes "set_holds s S" "kind_ok (hs_map s)"
  shows "\<exists>c w'. hashset_clone (Ptr s) w = Some (c, w') \<and> (no_fail w \<longrightarrow> c \<noteq> NULL)
    \<and> (case c of NULL \<Rightarrow> live w' = live w
       | Ptr t \<Rightarrow> live w' = live w + hm_own (hs_map t) + 1
           \<and> (\<exists>i ks. hashset_first c = Some i \<and> set_walk c i = Some ks \<and> distinct ks \<and> set ks = S)
           \<and> (\<forall>k. key_ok (m_key_kind (hs_map s)) (m_key_size (hs_map s)) k \<longrightarrow>
                hashset_contains c (Ptr k) = Some (if k \<in> S then 1 else 0)))"
proof -
  from hashset_clone_ok [OF assms, of w] obtain c w' where
    c: "hashset_clone (Ptr s) w = Some (c, w')" "destroyed w' = destroyed w" "no_fail w \<longrightarrow> c \<noteq> NULL"
    and res: "case c of NULL \<Rightarrow> live w' = live w
       | Ptr t \<Rightarrow> set_holds t S \<and> hm_conf (hs_map t) = hm_conf (hs_map s) \<and> live w' = live w + hm_own (hs_map t) + 1"
    by (elim exE conjE) (rule that)
  show ?thesis
  proof (cases c)
    case NULL
    then show ?thesis using c(1,3) res by (intro exI [of _ c] exI [of _ w']) simp
  next
    case (Ptr t)
    then have t: "set_holds t S" "hm_conf (hs_map t) = hm_conf (hs_map s)" "live w' = live w + hm_own (hs_map t) + 1"
      using res by simp_all
    obtain ts where ts: "hm_rel (hs_map t) ts" "dom (content ts) = S" using t(1) by (rule set_holdsE)
    have "set_walk c (next_full ts 0) = Some (map fst (entries ts))" "distinct (map fst (entries ts))"
      "set (map fst (entries ts)) = S" "hashset_first c = Some (next_full ts 0)"
      using set_walk_ok [OF ts(1), of 0] hm_relD(6) [OF ts(1)] hashmap_first_next_ok(1) [OF ts(1)] ts(2) Ptr
      by (simp_all add: table_ok_def dom_content hashset_first_def)
    moreover have "hashset_contains c (Ptr k) = Some (if k \<in> S then 1 else 0)"
      if "key_ok (m_key_kind (hs_map s)) (m_key_size (hs_map s)) k" for k
      unfolding Ptr by (rule hashset_contains_ok [OF t(1)]) (use that hm_confD [OF t(2)] in simp)
    ultimately show ?thesis
      using c(1,3) t(3) Ptr by (intro exI [of _ c] exI [of _ w']) auto
  qed
qed

definition set_example :: hashset where
  "set_example = \<lparr>hs_map = example_map False 1 1\<rparr>"

lemma set_example_holds: "set_holds set_example {Bytes [1]}" "kind_ok (hs_map set_example)"
proof -
  have "hash_holds (example_map False 1 1) (content (example_table 1))"
    unfolding hash_holds_def by (intro exI [of _ "example_table 1"] conjI example_map_rel(1) refl)
  moreover have "dom (content (example_table 1)) = {Bytes [1]}" by (simp add: dom_content example_table_def)
  ultimately show "set_holds set_example {Bytes [1]}"
    by (auto simp: set_holds_def set_example_def example_map_def)
  show "kind_ok (hs_map set_example)" by (simp add: set_example_def example_map_rel(2))
qed

theorem hashset_clone_same_witness:
  "\<exists>c w'. hashset_clone (Ptr set_example) (script [True, True, False] []) = Some (c, w')
    \<and> (no_fail (script [True, True, False] [] :: 8 word world) \<longrightarrow> c \<noteq> NULL)
    \<and> (case c of NULL \<Rightarrow> live w' = live (script [True, True, False] [] :: 8 word world)
       | Ptr t \<Rightarrow> live w' = live (script [True, True, False] [] :: 8 word world) + hm_own (hs_map t) + 1
           \<and> (\<exists>i ks. hashset_first c = Some i \<and> set_walk c i = Some ks \<and> distinct ks \<and> set ks = {Bytes [1]})
           \<and> (\<forall>k. key_ok (m_key_kind (hs_map set_example)) (m_key_size (hs_map set_example)) k \<longrightarrow>
                hashset_contains c (Ptr k) = Some (if k \<in> {Bytes [1]} then 1 else 0)))"
  by (rule hashset_clone_same [OF set_example_holds])

end
