(* ===== verification/Graph.thy ===== *)
theory Graph
  imports Vector
begin

text \<open>
  \<open>src/graph.c\<close>: a weighted graph with an array of adjacency vectors, one per vertex, a client of
  \<open>Vector\<close>. Every function of the file is a definition of the same name. \<open>graph_holds g d n E\<close> says
  that \<open>g\<close> represents the multigraph with vertices \<open>0, \<dots>, n - 1\<close> and the multiset \<open>E\<close> of edges.
\<close>

section \<open>Model\<close>

record graph_edge =
  e_to :: size_t
  e_weight :: int

record graph =
  g_vertex_count :: size_t
  g_edge_count :: size_t
  g_directed :: bool
  g_adj_lists :: "graph_edge vector buf"

definition GRAPH_UNDIRECTED :: int where "GRAPH_UNDIRECTED = 0"
definition GRAPH_DIRECTED :: int where "GRAPH_DIRECTED = 1"
definition GRAPH_INVALID_VERTEX :: size_t where "GRAPH_INVALID_VERTEX = SIZE_MAX"
definition GRAPH_EDGE_NOT_FOUND :: size_t where "GRAPH_EDGE_NOT_FOUND = SIZE_MAX"

definition mk_edge :: "size_t \<Rightarrow> int \<Rightarrow> graph_edge" where
  "mk_edge to weight = \<lparr>e_to = to, e_weight = weight\<rparr>"

definition graph_vertex_valid :: "graph ptr \<Rightarrow> size_t \<Rightarrow> bool" where
  "graph_vertex_valid p vertex \<longleftrightarrow> p \<noteq> NULL \<and> vertex < g_vertex_count (pt p)"

text \<open>The vector of vertex \<open>i\<close> after an operation that was given its address.\<close>

definition adj_update :: "graph \<Rightarrow> size_t \<Rightarrow> graph_edge vector ptr \<Rightarrow> graph option" where
  "adj_update g i q = do {
     adj \<leftarrow> buf_put (g_adj_lists g) i (Some (pt q));
     Some (g\<lparr>g_adj_lists := adj\<rparr>) }"

definition graph_add_directed_edge ::
    "graph \<Rightarrow> size_t \<Rightarrow> size_t \<Rightarrow> int \<Rightarrow> (graph_edge, 'b) world_scheme
     \<Rightarrow> (int \<times> graph \<times> (graph_edge, 'b) world_scheme) option" where
  "graph_add_directed_edge g from to weight w = do {
     v \<leftarrow> buf_get (g_adj_lists g) from;
     (rc, q, w1) \<leftarrow> vector_push (Ptr v) (Ptr (mk_edge to weight)) w;
     g1 \<leftarrow> adj_update g from q;
     Some (rc, g1, w1) }"

fun find_edge_loop :: "graph_edge vector \<Rightarrow> size_t \<Rightarrow> int \<Rightarrow> nat list \<Rightarrow> size_t option" where
  "find_edge_loop adj to weight [] = Some GRAPH_EDGE_NOT_FOUND"
| "find_edge_loop adj to weight (i # is) = do {
     edge \<leftarrow> vector_deref adj (vector_at_const (Ptr adj) i);
     if e_to edge = to \<and> e_weight edge = weight then Some i else find_edge_loop adj to weight is }"

definition graph_find_directed_edge ::
    "graph \<Rightarrow> size_t \<Rightarrow> size_t \<Rightarrow> int \<Rightarrow> size_t \<Rightarrow> size_t option" where
  "graph_find_directed_edge g from to weight start = do {
     adj \<leftarrow> buf_get (g_adj_lists g) from;
     find_edge_loop adj to weight [start..<v_size adj] }"

subsection \<open>Creating and destroying\<close>

text \<open>\<open>vector_destroy\<close> on the vectors of the listed vertices.\<close>

fun destroy_lists ::
    "nat list \<Rightarrow> graph_edge vector buf \<Rightarrow> (graph_edge, 'b) world_scheme
     \<Rightarrow> (graph_edge vector buf \<times> (graph_edge, 'b) world_scheme) option" where
  "destroy_lists [] adj w = Some (adj, w)"
| "destroy_lists (i # is) adj w = do {
     v \<leftarrow> buf_get adj i;
     (q, w1) \<leftarrow> vector_destroy (Ptr v) w;
     adj1 \<leftarrow> buf_put adj i (Some (pt q));
     destroy_lists is adj1 w1 }"

fun init_lists ::
    "nat list \<Rightarrow> graph_edge vector buf \<Rightarrow> (graph_edge, 'b) world_scheme
     \<Rightarrow> (int \<times> graph_edge vector buf \<times> (graph_edge, 'b) world_scheme) option" where
  "init_lists [] adj w = Some (0, adj, w)"
| "init_lists (i # is) adj w =
     (let (rc, q) = vector_init (Ptr raw_vector) 16 False None in
      if rc \<noteq> 0 then do { (adj1, w1) \<leftarrow> destroy_lists [0..<i] adj w; Some (- 1, adj1, w1) }
      else do {
        adj1 \<leftarrow> buf_put adj i (Some (pt q));
        init_lists is adj1 w })"

definition graph_init ::
    "graph ptr \<Rightarrow> int \<Rightarrow> size_t \<Rightarrow> (graph_edge, 'b) world_scheme
     \<Rightarrow> (int \<times> graph ptr \<times> (graph_edge, 'b) world_scheme) option" where
  "graph_init p kind vertex_count w =
     (if p = NULL \<or> kind \<noteq> GRAPH_UNDIRECTED \<and> kind \<noteq> GRAPH_DIRECTED then Some (- 1, p, w)
      else let g = \<lparr>g_vertex_count = vertex_count, g_edge_count = 0, g_directed = (kind = GRAPH_DIRECTED),
                    g_adj_lists = NULL\<rparr> in
        if vertex_count = 0 then Some (0, Ptr g, w)
        else let bytes = sz_mul vertex_count 48; (ok, w1) = malloc bytes w in
          if \<not> ok then Some (- 1, Ptr g, w1)
          else do {
            (rc, adj, w2) \<leftarrow> init_lists [0..<vertex_count] (buf_new (bytes div 48)) w1;
            if rc \<noteq> 0 then Some (- 1, Ptr g, free_block w2)
            else Some (0, Ptr (g\<lparr>g_adj_lists := adj\<rparr>), w2) })"

definition graph_destroy ::
    "graph ptr \<Rightarrow> (graph_edge, 'b) world_scheme \<Rightarrow> (graph ptr \<times> (graph_edge, 'b) world_scheme) option" where
  "graph_destroy p w = (case p of NULL \<Rightarrow> Some (NULL, w) | Ptr g \<Rightarrow> do {
     w1 \<leftarrow> (if g_adj_lists g \<noteq> NULL then do {
              (adj, w1) \<leftarrow> destroy_lists [0..<g_vertex_count g] (g_adj_lists g) w;
              Some (free_block w1) }
            else Some w);
     Some (Ptr \<lparr>g_vertex_count = 0, g_edge_count = 0, g_directed = False, g_adj_lists = NULL\<rparr>, w1) })"

definition raw_graph :: graph where
  "raw_graph = \<lparr>g_vertex_count = 0, g_edge_count = 0, g_directed = False, g_adj_lists = NULL\<rparr>"

definition graph_new ::
    "int \<Rightarrow> size_t \<Rightarrow> (graph_edge, 'b) world_scheme \<Rightarrow> (graph ptr \<times> (graph_edge, 'b) world_scheme) option" where
  "graph_new kind vertex_count w =
     (let (ok, w1) = malloc 32 w in
      if \<not> ok then Some (NULL, w1)
      else do {
        (rc, p, w2) \<leftarrow> graph_init (Ptr raw_graph) kind vertex_count w1;
        if rc \<noteq> 0 then Some (NULL, free_block w2) else Some (p, w2) })"

definition graph_free ::
    "graph ptr \<Rightarrow> (graph_edge, 'b) world_scheme \<Rightarrow> (graph_edge, 'b) world_scheme option" where
  "graph_free p w = (case p of NULL \<Rightarrow> Some w | Ptr _ \<Rightarrow> do {
     (_, w1) \<leftarrow> graph_destroy p w; Some (free_block w1) })"

subsection \<open>Copying\<close>

fun copy_lists ::
    "graph_edge vector buf \<Rightarrow> nat list \<Rightarrow> graph_edge vector buf \<Rightarrow> (graph_edge, 'b) world_scheme
     \<Rightarrow> (int \<times> graph_edge vector buf \<times> (graph_edge, 'b) world_scheme) option" where
  "copy_lists src [] adj w = Some (0, adj, w)"
| "copy_lists src (i # is) adj w = do {
     d \<leftarrow> buf_get adj i;
     s \<leftarrow> buf_get src i;
     (rc, q, w1) \<leftarrow> vector_copy False (Ptr d) (Ptr s) w;
     adj1 \<leftarrow> buf_put adj i (Some (pt q));
     if rc \<noteq> 0 then Some (- 1, adj1, w1) else copy_lists src is adj1 w1 }"

definition kind_of :: "graph \<Rightarrow> int" where
  "kind_of g = (if g_directed g then GRAPH_DIRECTED else GRAPH_UNDIRECTED)"

definition graph_copy ::
    "bool \<Rightarrow> graph ptr \<Rightarrow> graph ptr \<Rightarrow> (graph_edge, 'b) world_scheme
     \<Rightarrow> (int \<times> graph ptr \<times> (graph_edge, 'b) world_scheme) option" where
  "graph_copy same dst src w =
     (if dst = NULL \<or> src = NULL then Some (- 1, dst, w)
      else if same then Some (0, dst, w)
      else do {
        let s = pt src;
        (rc, t, w1) \<leftarrow> graph_init (Ptr raw_graph) (kind_of s) (g_vertex_count s) w;
        if rc \<noteq> 0 then Some (- 1, dst, w1)
        else do {
          let temp = (pt t)\<lparr>g_edge_count := g_edge_count s\<rparr>;
          (rc1, adj, w2) \<leftarrow> copy_lists (g_adj_lists s) [0..<g_vertex_count s] (g_adj_lists temp) w1;
          if rc1 \<noteq> 0 then do {
            (_, w3) \<leftarrow> graph_destroy (Ptr (temp\<lparr>g_adj_lists := adj\<rparr>)) w2;
            Some (- 1, dst, w3) }
          else do {
            (_, w3) \<leftarrow> graph_destroy dst w2;
            Some (0, Ptr (temp\<lparr>g_adj_lists := adj\<rparr>), w3) } } })"

definition graph_clone ::
    "graph ptr \<Rightarrow> (graph_edge, 'b) world_scheme \<Rightarrow> (graph ptr \<times> (graph_edge, 'b) world_scheme) option" where
  "graph_clone src w = (case src of NULL \<Rightarrow> Some (NULL, w) | Ptr s \<Rightarrow> do {
     (copy, w1) \<leftarrow> graph_new (kind_of s) (g_vertex_count s) w;
     if copy = NULL then Some (NULL, w1)
     else do {
       (rc, copy1, w2) \<leftarrow> graph_copy False copy src w1;
       if rc \<noteq> 0 then do { w3 \<leftarrow> graph_free copy1 w2; Some (NULL, w3) } else Some (copy1, w2) } })"

subsection \<open>Edges\<close>

definition graph_add_edge ::
    "graph ptr \<Rightarrow> size_t \<Rightarrow> size_t \<Rightarrow> int \<Rightarrow> (graph_edge, 'b) world_scheme
     \<Rightarrow> (int \<times> graph ptr \<times> (graph_edge, 'b) world_scheme) option" where
  "graph_add_edge p from to weight w =
     (if \<not> graph_vertex_valid p from \<or> \<not> graph_vertex_valid p to then Some (- 1, p, w)
      else do {
        (rc, g1, w1) \<leftarrow> graph_add_directed_edge (pt p) from to weight w;
        if rc \<noteq> 0 then Some (- 1, Ptr g1, w1)
        else if g_directed g1 then Some (0, Ptr (g1\<lparr>g_edge_count := sz_add (g_edge_count g1) 1\<rparr>), w1)
        else do {
          (rc2, g2, w2) \<leftarrow> graph_add_directed_edge g1 to from weight w1;
          if rc2 \<noteq> 0 then do {
            v \<leftarrow> buf_get (g_adj_lists g2) from;
            (_, q, w3) \<leftarrow> vector_pop (Ptr v) w2;
            g3 \<leftarrow> adj_update g2 from q;
            Some (- 1, Ptr g3, w3) }
          else Some (0, Ptr (g2\<lparr>g_edge_count := sz_add (g_edge_count g2) 1\<rparr>), w2) } })"

text \<open>\<open>vector_erase\<close> on the vector of vertex \<open>i\<close>.\<close>

definition erase_at ::
    "graph \<Rightarrow> size_t \<Rightarrow> size_t \<Rightarrow> (graph_edge, 'b) world_scheme \<Rightarrow> (graph \<times> (graph_edge, 'b) world_scheme) option" where
  "erase_at g i index w = do {
     v \<leftarrow> buf_get (g_adj_lists g) i;
     (q, w1) \<leftarrow> vector_erase (Ptr v) index w;
     g1 \<leftarrow> adj_update g i q;
     Some (g1, w1) }"

definition graph_delete_edge ::
    "graph ptr \<Rightarrow> size_t \<Rightarrow> size_t \<Rightarrow> int \<Rightarrow> (graph_edge, 'b) world_scheme
     \<Rightarrow> (int \<times> graph ptr \<times> (graph_edge, 'b) world_scheme) option" where
  "graph_delete_edge p from to weight w =
     (if \<not> graph_vertex_valid p from \<or> \<not> graph_vertex_valid p to then Some (- 1, p, w)
      else do {
        let g = pt p;
        from_index \<leftarrow> graph_find_directed_edge g from to weight 0;
        if from_index = GRAPH_EDGE_NOT_FOUND then Some (0, p, w)
        else if g_directed g then do {
          (g1, w1) \<leftarrow> erase_at g from from_index w;
          Some (1, Ptr (g1\<lparr>g_edge_count := sz_sub (g_edge_count g1) 1\<rparr>), w1) }
        else do {
          to_index \<leftarrow> graph_find_directed_edge g to from weight
            (if from = to then sz_add from_index 1 else 0);
          if to_index = GRAPH_EDGE_NOT_FOUND then Some (0, p, w)
          else do {
            (g1, w1) \<leftarrow> (if from = to then erase_at g from to_index w else erase_at g to to_index w);
            (g2, w2) \<leftarrow> erase_at g1 from from_index w1;
            Some (1, Ptr (g2\<lparr>g_edge_count := sz_sub (g_edge_count g2) 1\<rparr>), w2) } } })"

fun has_edge_loop :: "graph_edge vector \<Rightarrow> size_t \<Rightarrow> nat list \<Rightarrow> int option" where
  "has_edge_loop adj to [] = Some 0"
| "has_edge_loop adj to (i # is) = do {
     edge \<leftarrow> vector_deref adj (vector_at_const (Ptr adj) i);
     if e_to edge = to then Some 1 else has_edge_loop adj to is }"

definition graph_has_edge :: "graph ptr \<Rightarrow> size_t \<Rightarrow> size_t \<Rightarrow> int option" where
  "graph_has_edge p from to =
     (if \<not> graph_vertex_valid p from \<or> \<not> graph_vertex_valid p to then Some 0
      else do {
        adj \<leftarrow> buf_get (g_adj_lists (pt p)) from;
        has_edge_loop adj to [0..<v_size adj] })"

fun clear_lists ::
    "nat list \<Rightarrow> graph_edge vector buf \<Rightarrow> (graph_edge, 'b) world_scheme
     \<Rightarrow> (graph_edge vector buf \<times> (graph_edge, 'b) world_scheme) option" where
  "clear_lists [] adj w = Some (adj, w)"
| "clear_lists (i # is) adj w = do {
     v \<leftarrow> buf_get adj i;
     (q, w1) \<leftarrow> vector_clear (Ptr v) w;
     adj1 \<leftarrow> buf_put adj i (Some (pt q));
     clear_lists is adj1 w1 }"

definition graph_clear ::
    "graph ptr \<Rightarrow> (graph_edge, 'b) world_scheme \<Rightarrow> (graph ptr \<times> (graph_edge, 'b) world_scheme) option" where
  "graph_clear p w = (case p of NULL \<Rightarrow> Some (NULL, w) | Ptr g \<Rightarrow> do {
     (adj, w1) \<leftarrow> clear_lists [0..<g_vertex_count g] (g_adj_lists g) w;
     Some (Ptr (g\<lparr>g_adj_lists := adj, g_edge_count := 0\<rparr>), w1) })"

text \<open>The address of an adjacency vector is its index; reading through it is \<open>buf_get\<close>.\<close>

definition graph_adj_list :: "graph ptr \<Rightarrow> size_t \<Rightarrow> nat ptr" where
  "graph_adj_list p vertex = (if \<not> graph_vertex_valid p vertex then NULL else Ptr vertex)"

definition graph_degree :: "graph ptr \<Rightarrow> size_t \<Rightarrow> size_t option" where
  "graph_degree p vertex = (case graph_adj_list p vertex of
       NULL \<Rightarrow> Some GRAPH_INVALID_VERTEX
     | Ptr i \<Rightarrow> do { adj \<leftarrow> buf_get (g_adj_lists (pt p)) i; Some (v_size adj) })"

text \<open>The block of the adjacency vector.\<close>

definition graph_neighbors :: "graph ptr \<Rightarrow> size_t \<Rightarrow> graph_edge buf option" where
  "graph_neighbors p vertex = (case graph_adj_list p vertex of
       NULL \<Rightarrow> Some NULL
     | Ptr i \<Rightarrow> do { adj \<leftarrow> buf_get (g_adj_lists (pt p)) i; Some (v_data adj) })"

section \<open>Adjacency lists in memory\<close>

definition edge_vec :: "graph_edge vector \<Rightarrow> graph_edge list \<Rightarrow> bool" where
  "edge_vec v xs \<longleftrightarrow> vec_rel v xs \<and> vec_conf v = (16, False, None)"

lemma edge_vecD:
  assumes "edge_vec v xs"
  shows "vec_rel v xs" "vec_conf v = (16, False, None)" "\<not> v_elem_destroy v" "v_elem_copy v = None"
  using assms by (simp_all add: edge_vec_def vec_conf_def)

text \<open>The array of vectors as a buffer, and the blocks it owns.\<close>

definition adj_of :: "graph_edge vector list \<Rightarrow> graph_edge vector buf" where
  "adj_of vs = (if vs = [] then NULL else Ptr (map Some vs))"

definition vecs_own :: "graph_edge vector list \<Rightarrow> int" where
  "vecs_own vs = (\<Sum>v \<leftarrow> vs. vec_own v)"

lemma slots_adj_of [simp]: "slots (adj_of vs) = map Some vs"
  by (simp add: adj_of_def)

lemma adj_of_get [simp]: "i < length vs \<Longrightarrow> buf_get (adj_of vs) i = Some (vs ! i)"
  by (simp add: buf_get_def)

lemma adj_of_put [simp]: "i < length vs \<Longrightarrow> buf_put (adj_of vs) i (Some v) = Some (adj_of (vs[i := v]))"
  by (auto simp: buf_put_def adj_of_def map_update)

lemma vecs_own_update: "i < length vs \<Longrightarrow> vecs_own (vs[i := v]) = vecs_own vs - vec_own (vs ! i) + vec_own v"
  by (induction vs arbitrary: i) (auto simp: vecs_own_def split: nat.splits)

definition g_rel :: "graph \<Rightarrow> graph_edge vector list \<Rightarrow> graph_edge list list \<Rightarrow> bool" where
  "g_rel g vs ls \<longleftrightarrow> g_adj_lists g = adj_of vs \<and> g_vertex_count g = length vs \<and> list_all2 edge_vec vs ls
     \<and> length vs * 48 \<le> PTRDIFF_MAX"

definition graph_own :: "graph \<Rightarrow> int" where
  "graph_own g = blocks (g_adj_lists g)
     + (\<Sum>s \<leftarrow> slots (g_adj_lists g). case s of None \<Rightarrow> 0 | Some v \<Rightarrow> vec_own v)"

lemma g_relD:
  assumes "g_rel g vs ls"
  shows "g_adj_lists g = adj_of vs" "g_vertex_count g = length vs" "length ls = length vs"
    "i < length vs \<Longrightarrow> edge_vec (vs ! i) (ls ! i)"
  using assms by (auto simp: g_rel_def list_all2_conv_all_nth)

lemma graph_own_rel: "g_rel g vs ls \<Longrightarrow> graph_own g = blocks (adj_of vs) + vecs_own vs"
  by (simp add: graph_own_def g_rel_def vecs_own_def comp_def)

text \<open>Replacing the vector of one vertex.\<close>

lemma adj_update_ok:
  assumes "g_rel g vs ls" and "i < length vs" and "edge_vec v xs"
  shows "\<exists>g'. adj_update g i (Ptr v) = Some g' \<and> g_rel g' (vs[i := v]) (ls[i := xs])
    \<and> g' = g\<lparr>g_adj_lists := g_adj_lists g'\<rparr> \<and> graph_own g' = graph_own g - vec_own (vs ! i) + vec_own v"
proof -
  let ?g = "g\<lparr>g_adj_lists := adj_of (vs[i := v])\<rparr>"
  have "g_rel ?g (vs[i := v]) (ls[i := xs])"
    using assms by (simp add: g_rel_def list_all2_update_cong)
  moreover have "blocks (adj_of (vs[i := v])) = blocks (adj_of vs)" by (simp add: adj_of_def)
  ultimately show ?thesis
    using assms graph_own_rel [OF assms(1)] graph_own_rel [of ?g] g_relD(1) [OF assms(1)]
    by (intro exI [of _ ?g]) (simp add: adj_update_def vecs_own_update)
qed

lemma add_directed_ok:
  assumes g: "g_rel g vs ls" and i: "i < length vs"
  shows "\<exists>rc g' vs' w'. graph_add_directed_edge g i to weight w = Some (rc, g', w')
    \<and> g' = g\<lparr>g_adj_lists := g_adj_lists g'\<rparr> \<and> destroyed w' = destroyed w
    \<and> live w' - graph_own g' = live w - graph_own g
    \<and> (rc = 0 \<and> g_rel g' vs' (ls[i := ls ! i @ [mk_edge to weight]]) \<or> rc = - 1 \<and> g_rel g' vs' ls)"
proof -
  note e = edge_vecD [OF g_relD(4) [OF g i]]
  from vector_push_ok [OF e(1), of "mk_edge to weight" w] obtain rc v' w' where
    p: "vector_push (Ptr (vs ! i)) (Ptr (mk_edge to weight)) w = Some (rc, Ptr v', w')" "vec_conf v' = vec_conf (vs ! i)"
    "destroyed w' = destroyed w" "live w' - vec_own v' = live w - vec_own (vs ! i)"
    "no_fail w \<longrightarrow> no_fail w' \<and> (\<forall>n. vec_room (vs ! i) (Suc n) \<longrightarrow> rc = 0 \<and> vec_room v' n)"
    and res: "rc = 0 \<and> vec_rel v' (ls ! i @ [copied (v_elem_copy (vs ! i)) (mk_edge to weight)]) \<or> rc = - 1 \<and> vec_rel v' (ls ! i)"
    by (elim exE conjE) (rule that)
  let ?xs = "if rc = 0 then ls ! i @ [mk_edge to weight] else ls ! i"
  have ev: "edge_vec v' ?xs"
    using res p(2) e(2,4) by (auto simp: edge_vec_def copied_def)
  from adj_update_ok [OF g i ev] obtain g' where
    u: "adj_update g i (Ptr v') = Some g'" "g_rel g' (vs[i := v']) (ls[i := ?xs])" "g' = g\<lparr>g_adj_lists := g_adj_lists g'\<rparr>"
    "graph_own g' = graph_own g - vec_own (vs ! i) + vec_own v'"
    by (elim exE conjE) (rule that)
  have run: "graph_add_directed_edge g i to weight w = Some (rc, g', w')"
    using g_relD(1) [OF g] i p(1) u(1) by (simp add: graph_add_directed_edge_def)
  have out: "rc = 0 \<and> g_rel g' (vs[i := v']) (ls[i := ls ! i @ [mk_edge to weight]]) \<or> rc = - 1 \<and> g_rel g' (vs[i := v']) ls"
    using res u(2) by (elim disjE conjE) simp_all
  have lv: "live w' - graph_own g' = live w - graph_own g" using p(4) u(4) by simp
  show ?thesis
    by (intro exI [of _ rc] exI [of _ g'] exI [of _ "vs[i := v']"] exI [of _ w'] conjI run u(3) p(3) lv out)
qed

lemma erase_at_ok:
  assumes g: "g_rel g vs ls" and i: "i < length vs" and j: "j < length (ls ! i)"
  shows "\<exists>g' vs' w'. erase_at g i j w = Some (g', w') \<and> g' = g\<lparr>g_adj_lists := g_adj_lists g'\<rparr>
    \<and> destroyed w' = destroyed w \<and> live w' - graph_own g' = live w - graph_own g
    \<and> length vs' = length vs \<and> g_rel g' vs' (ls[i := take j (ls ! i) @ drop (Suc j) (ls ! i)])"
proof -
  note e = edge_vecD [OF g_relD(4) [OF g i]]
  from vector_erase_ok [OF e(1), of j w] obtain v' w' where
    p: "vector_erase (Ptr (vs ! i)) j w = Some (Ptr v', w')" "vec_conf v' = vec_conf (vs ! i)"
    "live w' - vec_own v' = live w - vec_own (vs ! i)" "no_fail w' = no_fail w"
    and res: "length (ls ! i) \<le> j \<and> v' = vs ! i \<and> w' = w
       \<or> j < length (ls ! i) \<and> vec_rel v' (take j (ls ! i) @ drop (Suc j) (ls ! i))
         \<and> destroyed w' = destroyed w @ log_if (v_elem_destroy (vs ! i)) [ls ! i ! j]"
    by (elim exE conjE) (rule that)
  have ev: "edge_vec v' (take j (ls ! i) @ drop (Suc j) (ls ! i))" and ds: "destroyed w' = destroyed w"
    using res p(2) e(2,3) j by (auto simp: edge_vec_def)
  from adj_update_ok [OF g i ev] obtain g' where
    u: "adj_update g i (Ptr v') = Some g'" "g_rel g' (vs[i := v']) (ls[i := take j (ls ! i) @ drop (Suc j) (ls ! i)])"
    "g' = g\<lparr>g_adj_lists := g_adj_lists g'\<rparr>" "graph_own g' = graph_own g - vec_own (vs ! i) + vec_own v'"
    by (elim exE conjE) (rule that)
  have run: "erase_at g i j w = Some (g', w')"
    using g_relD(1) [OF g] i p(1) u(1) by (simp add: erase_at_def)
  have lv: "live w' - graph_own g' = live w - graph_own g" using p(3) u(4) by simp
  show ?thesis
    by (intro exI [of _ g'] exI [of _ "vs[i := v']"] exI [of _ w'] conjI run u(2,3) ds lv) simp
qed

text \<open>Undoing the last addition to one list.\<close>

lemma pop_at_ok:
  assumes g: "g_rel g vs ls" and i: "i < length vs" and ne: "ls ! i \<noteq> []"
  shows "\<exists>v rc q g' vs' w'. buf_get (g_adj_lists g) i = Some v \<and> vector_pop (Ptr v) w = Some (rc, q, w')
    \<and> adj_update g i q = Some g' \<and> g' = g\<lparr>g_adj_lists := g_adj_lists g'\<rparr>
    \<and> destroyed w' = destroyed w \<and> live w' - graph_own g' = live w - graph_own g
    \<and> g_rel g' vs' (ls[i := butlast (ls ! i)])"
proof -
  note e = edge_vecD [OF g_relD(4) [OF g i]]
  from vector_pop_ok [OF e(1), of w] obtain rc v' w' where
    p: "vector_pop (Ptr (vs ! i)) w = Some (rc, Ptr v', w')" "vec_conf v' = vec_conf (vs ! i)"
    "live w' - vec_own v' = live w - vec_own (vs ! i)" "no_fail w' = no_fail w"
    and res: "ls ! i = [] \<and> rc = - 1 \<and> v' = vs ! i \<and> w' = w
       \<or> ls ! i \<noteq> [] \<and> rc = 0 \<and> vec_rel v' (butlast (ls ! i))
         \<and> destroyed w' = destroyed w @ log_if (v_elem_destroy (vs ! i)) [last (ls ! i)]"
    by (elim exE conjE) (rule that)
  have ev: "edge_vec v' (butlast (ls ! i))" and ds: "destroyed w' = destroyed w"
    using res p(2) e(2,3) ne by (auto simp: edge_vec_def)
  from adj_update_ok [OF g i ev] obtain g' where
    u: "adj_update g i (Ptr v') = Some g'" "g_rel g' (vs[i := v']) (ls[i := butlast (ls ! i)])"
    "g' = g\<lparr>g_adj_lists := g_adj_lists g'\<rparr>" "graph_own g' = graph_own g - vec_own (vs ! i) + vec_own v'"
    by (elim exE conjE) (rule that)
  have get: "buf_get (g_adj_lists g) i = Some (vs ! i)" using g_relD(1) [OF g] i by simp
  have lv: "live w' - graph_own g' = live w - graph_own g" using p(3) u(4) by simp
  show ?thesis
    by (intro exI [of _ "vs ! i"] exI [of _ rc] exI [of _ "Ptr v'"] exI [of _ g'] exI [of _ "vs[i := v']"] exI [of _ w']
        conjI get p(1) u(1-3) ds lv)
qed

section \<open>Searching an adjacency list\<close>

lemma edge_read:
  assumes "edge_vec v xs" and "i < length xs"
  shows "vector_deref v (vector_at_const (Ptr v) i) = Some (xs ! i)"
  using vec_relD [OF edge_vecD(1) [OF assms(1)]] assms(2)
  by (simp add: vector_deref_def vector_at_const_def holds_get)

lemma find_edge_loop_ok:
  "edge_vec v xs \<Longrightarrow> \<forall>i \<in> set is. i < length xs \<Longrightarrow> find_edge_loop v to weight is
    = Some (case find (\<lambda>i. xs ! i = mk_edge to weight) is of None \<Rightarrow> GRAPH_EDGE_NOT_FOUND | Some i \<Rightarrow> i)"
proof (induction "is")
  case (Cons i is')
  have "e_to (xs ! i) = to \<and> e_weight (xs ! i) = weight \<longleftrightarrow> xs ! i = mk_edge to weight"
    by (cases "xs ! i") (simp add: mk_edge_def)
  then show ?case using Cons edge_read [of v xs i] by simp
qed simp

lemma edge_vec_small: "edge_vec v xs \<Longrightarrow> length xs < SIZE_MAX"
  using vec_relD(7,8) [OF edge_vecD(1), of v xs] SIZE_MAX_PTRDIFF_MAX by simp

lemma find_directed_ok:
  assumes g: "g_rel g vs ls" and i: "i < length vs"
  shows "\<exists>r. graph_find_directed_edge g i to weight s = Some r
    \<and> (r = GRAPH_EDGE_NOT_FOUND \<and> mk_edge to weight \<notin> set (drop s (ls ! i))
       \<or> r \<noteq> GRAPH_EDGE_NOT_FOUND \<and> s \<le> r \<and> r < length (ls ! i) \<and> ls ! i ! r = mk_edge to weight
         \<and> mk_edge to weight \<notin> set (drop s (take r (ls ! i))))"
proof -
  note e = g_relD(4) [OF g i]
  let ?xs = "ls ! i" and ?e = "mk_edge to weight"
  have sz: "v_size (vs ! i) = length ?xs" using vec_relD(2) [OF edge_vecD(1) [OF e]] .
  have run: "graph_find_directed_edge g i to weight s
      = Some (case find (\<lambda>i. ?xs ! i = ?e) [s..<length ?xs] of None \<Rightarrow> GRAPH_EDGE_NOT_FOUND | Some i \<Rightarrow> i)"
    using g_relD(1) [OF g] i sz find_edge_loop_ok [OF e, of "[s..<length ?xs]" to weight]
    by (simp add: graph_find_directed_edge_def)
  show ?thesis
  proof (cases "find (\<lambda>i. ?xs ! i = ?e) [s..<length ?xs]")
    case None
    then have "\<forall>k. s \<le> k \<and> k < length ?xs \<longrightarrow> ?xs ! k \<noteq> ?e" by (simp add: find_None_iff)
    then have "?e \<notin> set (drop s ?xs)" by (auto simp: in_set_conv_nth)
    then show ?thesis using run None by simp
  next
    case (Some r)
    then obtain k where k: "k < length [s..<length ?xs]" "r = [s..<length ?xs] ! k" "?xs ! r = ?e"
      "\<forall>j < k. ?xs ! ([s..<length ?xs] ! j) \<noteq> ?e"
      by (auto simp: find_Some_iff)
    then have r: "r = s + k" "r < length ?xs" by simp_all
    have "?e \<notin> set (drop s (take r ?xs))"
      using k(4) r by (auto simp: in_set_conv_nth)
    moreover have "r \<noteq> GRAPH_EDGE_NOT_FOUND" using r(2) edge_vec_small [OF e] by (simp add: GRAPH_EDGE_NOT_FOUND_def)
    ultimately show ?thesis using run Some r k(3) by simp
  qed
qed

section \<open>The multigraph\<close>

text \<open>The entries of the adjacency list of \<open>c\<close> for the edges \<open>E\<close>: an undirected edge is stored at
  both of its ends, a loop twice.\<close>

type_synonym edges = "(nat \<times> nat \<times> int) multiset"

definition neighbours :: "bool \<Rightarrow> edges \<Rightarrow> nat \<Rightarrow> graph_edge multiset" where
  "neighbours d E c = image_mset (\<lambda>(a, b, w). mk_edge b w) (filter_mset (\<lambda>(a, b, w). a = c) E)
     + (if d then {#} else image_mset (\<lambda>(a, b, w). mk_edge a w) (filter_mset (\<lambda>(a, b, w). b = c) E))"

lemma mk_edge_eq [simp]: "mk_edge a w = mk_edge b u \<longleftrightarrow> a = b \<and> w = u"
  by (auto simp: mk_edge_def)

lemma neighbours_empty [simp]: "neighbours d {#} c = {#}"
  by (simp add: neighbours_def)

lemma neighbours_add: "neighbours d (add_mset (a, b, w) E) c = neighbours d E c
    + (if c = a then {#mk_edge b w#} else {#}) + (if \<not> d \<and> c = b then {#mk_edge a w#} else {#})"
  by (auto simp: neighbours_def)

lemma in_neighbours: "mk_edge b w \<in># neighbours d E a \<longleftrightarrow> (a, b, w) \<in># E \<or> \<not> d \<and> (b, a, w) \<in># E"
  by (auto simp: neighbours_def image_iff split: prod.splits)

text \<open>An edge that is stored at \<open>a\<close> can be taken out of the multiset.\<close>

lemma neighbours_take:
  assumes "mk_edge b w \<in># neighbours d E a"
  obtains E' where "E = add_mset (a, b, w) E' \<or> \<not> d \<and> E = add_mset (b, a, w) E'"
    "\<And>c. neighbours d E c = neighbours d E' c
      + (if c = a then {#mk_edge b w#} else {#}) + (if \<not> d \<and> c = b then {#mk_edge a w#} else {#})"
proof (cases "(a, b, w) \<in># E")
  case True
  then obtain E' where "E = add_mset (a, b, w) E'" by (blast dest: multi_member_split)
  then show ?thesis using that [of E'] by (simp add: neighbours_add)
next
  case False
  with assms have "\<not> d" "(b, a, w) \<in># E" by (simp_all add: in_neighbours)
  then obtain E' where "E = add_mset (b, a, w) E'" by (blast dest: multi_member_split)
  then show ?thesis using that [of E'] \<open>\<not> d\<close> by (simp add: neighbours_add)
qed

definition lists_ok :: "bool \<Rightarrow> nat \<Rightarrow> edges \<Rightarrow> graph_edge list list \<Rightarrow> bool" where
  "lists_ok d n E ls \<longleftrightarrow> length ls = n \<and> (\<forall>c < n. mset (ls ! c) = neighbours d E c)"

definition graph_holds :: "graph \<Rightarrow> bool \<Rightarrow> nat \<Rightarrow> edges \<Rightarrow> bool" where
  "graph_holds g d n E \<longleftrightarrow> g_directed g = d \<and> g_edge_count g = size E mod (SIZE_MAX + 1)
     \<and> (\<forall>(a, b, w) \<in># E. a < n \<and> b < n) \<and> (\<exists>vs ls. g_rel g vs ls \<and> lists_ok d n E ls)"

lemma graph_holdsE:
  assumes "graph_holds g d n E"
  obtains vs ls where "g_rel g vs ls" "lists_ok d n E ls" "length vs = n" "length ls = n" "g_vertex_count g = n"
    "g_directed g = d" "\<forall>(a, b, w) \<in># E. a < n \<and> b < n" "g_edge_count g = size E mod (SIZE_MAX + 1)"
proof -
  from assms obtain vs ls where r: "g_rel g vs ls" "lists_ok d n E ls" unfolding graph_holds_def by blast
  have "length ls = n" "length vs = n" "g_vertex_count g = n"
    using g_relD(2,3) [OF r(1)] r(2) by (simp_all add: lists_ok_def)
  then show ?thesis using that [OF r] assms by (simp add: graph_holds_def)
qed

lemma graph_holds_lists:
  "g_rel g vs ls \<Longrightarrow> lists_ok d n E ls \<Longrightarrow> g_directed g = d \<Longrightarrow> \<forall>(a, b, w) \<in># E. a < n \<and> b < n
    \<Longrightarrow> g_edge_count g = size E mod (SIZE_MAX + 1) \<Longrightarrow> graph_holds g d n E"
  unfolding graph_holds_def by blast

lemma g_rel_count [simp]: "g_rel (g\<lparr>g_edge_count := k\<rparr>) vs ls = g_rel g vs ls"
  "graph_own (g\<lparr>g_edge_count := k\<rparr>) = graph_own g"
  by (simp_all add: g_rel_def graph_own_def)

lemma size_count:
  "sz_add (k mod (SIZE_MAX + 1)) 1 = Suc k mod (SIZE_MAX + 1)"
  "sz_sub (Suc k mod (SIZE_MAX + 1)) 1 = k mod (SIZE_MAX + 1)"
proof -
  show "sz_add (k mod (SIZE_MAX + 1)) 1 = Suc k mod (SIZE_MAX + 1)" by (simp add: sz_add_def mod_Suc_eq)
  have "sz_sub (Suc k mod (SIZE_MAX + 1)) 1 = (Suc k + SIZE_MAX) mod (SIZE_MAX + 1)"
    unfolding sz_sub_def by (simp add: mod_add_left_eq)
  also have "\<dots> = k mod (SIZE_MAX + 1)"
    using mod_add_self2 [of k "SIZE_MAX + 1"] by simp
  finally show "sz_sub (Suc k mod (SIZE_MAX + 1)) 1 = k mod (SIZE_MAX + 1)" .
qed

subsection \<open>Adding an edge\<close>

lemma lists_ok_add:
  assumes "lists_ok d n E ls" and "a < n" "b < n"
  shows "d \<Longrightarrow> lists_ok d n (add_mset (a, b, w) E) (ls[a := ls ! a @ [mk_edge b w]])"
    "\<not> d \<Longrightarrow> ms = ls[a := ls ! a @ [mk_edge b w]] \<Longrightarrow>
       lists_ok d n (add_mset (a, b, w) E) (ms[b := ms ! b @ [mk_edge a w]])"
  using assms by (auto simp: lists_ok_def neighbours_add nth_list_update)

lemma graph_add_edge_ok:
  assumes "graph_holds g d n E"
  shows "\<exists>rc g' w'. graph_add_edge (Ptr g) a b wt w = Some (rc, Ptr g', w') \<and> destroyed w' = destroyed w
    \<and> live w' - graph_own g' = live w - graph_own g
    \<and> (rc = 0 \<and> a < n \<and> b < n \<and> graph_holds g' d n (add_mset (a, b, wt) E) \<or> rc = - 1 \<and> graph_holds g' d n E)"
proof (cases "a < n \<and> b < n")
  case False
  have "g_vertex_count g = n" using assms by (rule graph_holdsE)
  then have "graph_add_edge (Ptr g) a b wt w = Some (- 1, Ptr g, w)"
    using False by (auto simp: graph_add_edge_def graph_vertex_valid_def)
  then show ?thesis using assms by simp
next
  case True
  then have ab: "a < n" "b < n" by simp_all
  obtain vs ls where h: "g_rel g vs ls" "lists_ok d n E ls" "length vs = n" "length ls = n" "g_vertex_count g = n"
    "g_directed g = d" "\<forall>(a, b, w) \<in># E. a < n \<and> b < n" "g_edge_count g = size E mod (SIZE_MAX + 1)"
    using assms by (rule graph_holdsE)
  have valid: "graph_vertex_valid (Ptr g) a" "graph_vertex_valid (Ptr g) b"
    using h(5) ab by (simp_all add: graph_vertex_valid_def)
  have E': "\<forall>(x, y, w) \<in># add_mset (a, b, wt) E. x < n \<and> y < n" using h(7) ab by simp
  note cnt = size_count(1) [of "size E"]
  have va: "a < length vs" using ab h(3) by simp
  from add_directed_ok [OF h(1) va, of b wt w] obtain rc g1 us w1 where
    p: "graph_add_directed_edge g a b wt w = Some (rc, g1, w1)" "g1 = g\<lparr>g_adj_lists := g_adj_lists g1\<rparr>"
    "destroyed w1 = destroyed w" "live w1 - graph_own g1 = live w - graph_own g"
    and res: "rc = 0 \<and> g_rel g1 us (ls[a := ls ! a @ [mk_edge b wt]]) \<or> rc = - 1 \<and> g_rel g1 us ls"
    by (elim exE conjE) (rule that)
  have f1: "g_directed g1 = d" "g_edge_count g1 = size E mod (SIZE_MAX + 1)"
    using h(6,8) by (subst p(2), simp)+
  show ?thesis
  proof (cases "rc = 0")
    case False
    with res have r1: "g_rel g1 us ls" by simp
    have "graph_add_edge (Ptr g) a b wt w = Some (- 1, Ptr g1, w1)"
      using valid p(1) False by (simp add: graph_add_edge_def)
    then show ?thesis using graph_holds_lists [OF r1 h(2) f1(1) h(7) f1(2)] p(3,4) by simp
  next
    case True
    let ?ms = "ls[a := ls ! a @ [mk_edge b wt]]"
    have r1: "g_rel g1 us ?ms" using res True by simp
    show ?thesis
    proof (cases d)
      case True
      let ?g = "g1\<lparr>g_edge_count := sz_add (g_edge_count g1) 1\<rparr>"
      have "graph_add_edge (Ptr g) a b wt w = Some (0, Ptr ?g, w1)"
        using valid p(1) \<open>rc = 0\<close> True f1(1) by (simp add: graph_add_edge_def)
      moreover have "graph_holds ?g d n (add_mset (a, b, wt) E)"
        by (rule graph_holds_lists [of _ us ?ms])
          (use r1 lists_ok_add(1) [OF h(2) ab True] f1 E' cnt in simp_all)
      ultimately show ?thesis using p(3,4) ab by simp
    next
      case False
      have vb: "b < length us" using ab g_relD(3) [OF r1] h(4) by simp
      from add_directed_ok [OF r1 vb, of a wt w1] obtain rc2 g2 ts w2 where
        q: "graph_add_directed_edge g1 b a wt w1 = Some (rc2, g2, w2)" "g2 = g1\<lparr>g_adj_lists := g_adj_lists g2\<rparr>"
        "destroyed w2 = destroyed w1" "live w2 - graph_own g2 = live w1 - graph_own g1"
        and res2: "rc2 = 0 \<and> g_rel g2 ts (?ms[b := ?ms ! b @ [mk_edge a wt]]) \<or> rc2 = - 1 \<and> g_rel g2 ts ?ms"
        by (elim exE conjE) (rule that)
      have f2: "g_directed g2 = d" "g_edge_count g2 = size E mod (SIZE_MAX + 1)"
        using f1 by (subst q(2), simp)+
      show ?thesis
      proof (cases "rc2 = 0")
        case True
        let ?g = "g2\<lparr>g_edge_count := sz_add (g_edge_count g2) 1\<rparr>"
        have r2: "g_rel g2 ts (?ms[b := ?ms ! b @ [mk_edge a wt]])" using res2 True by simp
        have "graph_add_edge (Ptr g) a b wt w = Some (0, Ptr ?g, w2)"
          using valid p(1) q(1) \<open>rc = 0\<close> True False f1(1) by (simp add: graph_add_edge_def)
        moreover have "graph_holds ?g d n (add_mset (a, b, wt) E)"
          by (rule graph_holds_lists [of _ ts "?ms[b := ?ms ! b @ [mk_edge a wt]]"])
            (use r2 lists_ok_add(2) [OF h(2) ab False refl] f2 E' cnt in simp_all)
        ultimately show ?thesis using p(3,4) q(3,4) ab by simp
      next
        case rc2: False
        with res2 have r2: "g_rel g2 ts ?ms" by simp
        have ta: "a < length ts" "?ms ! a \<noteq> []" using ab g_relD(3) [OF r2] h(4) by simp_all
        from pop_at_ok [OF r2 ta, of w2] obtain v rc3 q' g3 ss w3 where
          u: "buf_get (g_adj_lists g2) a = Some v" "vector_pop (Ptr v) w2 = Some (rc3, q', w3)"
          "adj_update g2 a q' = Some g3" "g3 = g2\<lparr>g_adj_lists := g_adj_lists g3\<rparr>"
          "destroyed w3 = destroyed w2" "live w3 - graph_own g3 = live w2 - graph_own g2"
          "g_rel g3 ss (?ms[a := butlast (?ms ! a)])"
          by (elim exE conjE) (rule that)
        have f3: "g_directed g3 = d" "g_edge_count g3 = size E mod (SIZE_MAX + 1)"
          using f2 by (subst u(4), simp)+
        have r3: "g_rel g3 ss ls" using u(7) ab h(4) by simp
        have "graph_add_edge (Ptr g) a b wt w = Some (- 1, Ptr g3, w3)"
          using valid p(1) q(1) u(1-3) \<open>rc = 0\<close> rc2 False f1(1) by (simp add: graph_add_edge_def)
        then show ?thesis
          using graph_holds_lists [OF r3 h(2) f3(1) h(7) f3(2)] p(3,4) q(3,4) u(5,6) by simp
      qed
    qed
  qed
qed

subsection \<open>Deleting an edge\<close>

lemma erase_mset: "j < length xs \<Longrightarrow> add_mset (xs ! j) (mset (take j xs @ drop (Suc j) xs)) = mset xs"
  using mset_take_drop_Suc [of j xs] by simp

lemma lists_ok_remove:
  assumes "lists_ok d n E ls" and "length ms = n"
    and "\<And>c. c < n \<Longrightarrow> mset (ms ! c) + (if c = a then {#mk_edge b w#} else {#})
      + (if \<not> d \<and> c = b then {#mk_edge a w#} else {#}) = mset (ls ! c)"
    and "\<And>c. neighbours d E c = neighbours d E' c
      + (if c = a then {#mk_edge b w#} else {#}) + (if \<not> d \<and> c = b then {#mk_edge a w#} else {#})"
  shows "lists_ok d n E' ms"
  unfolding lists_ok_def
proof (intro conjI allI impI)
  fix c assume c: "c < n"
  have "mset (ls ! c) = neighbours d E c" using assms(1) c by (simp add: lists_ok_def)
  then show "mset (ms ! c) = neighbours d E' c" using assms(3) [OF c] assms(4) [of c] by simp
qed (rule assms(2))

text \<open>Erasing both entries of an undirected edge, the later one first when it is a loop.\<close>

lemma erase_both:
  assumes g: "g_rel g vs ls" and len: "length vs = n" "a < n" "b < n"
    and r: "r < length (ls ! a)" "ls ! a ! r = mk_edge b w" and t: "t < length (ls ! b)" "ls ! b ! t = mk_edge a w"
    and loop: "a = b \<longrightarrow> r < t"
  shows "\<exists>g1 w1 g2 w2 us ms. erase_at g b t v = Some (g1, w1) \<and> erase_at g1 a r w1 = Some (g2, w2)
    \<and> g2 = g\<lparr>g_adj_lists := g_adj_lists g2\<rparr> \<and> destroyed w2 = destroyed v \<and> live w2 - graph_own g2 = live v - graph_own g
    \<and> g_rel g2 us ms \<and> length ms = n
    \<and> (\<forall>c < n. mset (ms ! c) + (if c = a then {#mk_edge b w#} else {#}) + (if c = b then {#mk_edge a w#} else {#})
         = mset (ls ! c))"
proof -
  have ln: "length ls = n" using g_relD(3) [OF g] len(1) by simp
  have b: "b < length vs" using len by simp
  from erase_at_ok [OF g b t(1), of v] obtain g1 us w1 where
    1: "erase_at g b t v = Some (g1, w1)" "g1 = g\<lparr>g_adj_lists := g_adj_lists g1\<rparr>" "destroyed w1 = destroyed v"
    "live w1 - graph_own g1 = live v - graph_own g" "length us = length vs"
    "g_rel g1 us (ls[b := take t (ls ! b) @ drop (Suc t) (ls ! b)])"
    by (elim exE conjE) (rule that)
  let ?l1 = "ls[b := take t (ls ! b) @ drop (Suc t) (ls ! b)]"
  have a: "a < length us" using 1(5) len by simp
  have ra: "r < length (?l1 ! a)" "?l1 ! a ! r = mk_edge b w"
    using r t loop ln len by (auto simp: nth_append nth_list_update)
  from erase_at_ok [OF 1(6) a ra(1), of w1] obtain g2 ts w2 where
    2: "erase_at g1 a r w1 = Some (g2, w2)" "g2 = g1\<lparr>g_adj_lists := g_adj_lists g2\<rparr>" "destroyed w2 = destroyed w1"
    "live w2 - graph_own g2 = live w1 - graph_own g1" "length ts = length us"
    "g_rel g2 ts (?l1[a := take r (?l1 ! a) @ drop (Suc r) (?l1 ! a)])"
    by (elim exE conjE) (rule that)
  let ?l2 = "?l1[a := take r (?l1 ! a) @ drop (Suc r) (?l1 ! a)]"
  have m1: "add_mset (mk_edge a w) (mset (?l1 ! b)) = mset (ls ! b)" using erase_mset [OF t(1)] t(2) ln len by simp
  have m2: "add_mset (mk_edge b w) (mset (?l2 ! a)) = mset (?l1 ! a)" using erase_mset [OF ra(1)] ra(2) ln len by simp
  have others: "?l2 ! c = ?l1 ! c" if "c \<noteq> a" for c using that by simp
  have others1: "?l1 ! c = ls ! c" if "c \<noteq> b" for c using that by simp
  have "mset (?l2 ! c) + (if c = a then {#mk_edge b w#} else {#}) + (if c = b then {#mk_edge a w#} else {#})
         = mset (ls ! c)" if c: "c < n" for c
  proof -
    have "mset (?l2 ! c) + (if c = a then {#mk_edge b w#} else {#}) = mset (?l1 ! c)"
      using m2 others [of c] by (cases "c = a") simp_all
    moreover have "mset (?l1 ! c) + (if c = b then {#mk_edge a w#} else {#}) = mset (ls ! c)"
      using m1 others1 [of c] by (cases "c = b") simp_all
    ultimately show ?thesis by simp
  qed
  moreover have "g2 = g\<lparr>g_adj_lists := g_adj_lists g2\<rparr>" by (subst 2(2), subst 1(2), simp)
  moreover have "destroyed w2 = destroyed v" "live w2 - graph_own g2 = live v - graph_own g" "length ?l2 = n"
    using 1(3,4) 2(3,4) ln by simp_all
  ultimately show ?thesis
    by (intro exI [of _ g1] exI [of _ w1] exI [of _ g2] exI [of _ w2] exI [of _ ts] exI [of _ ?l2] conjI 1(1) 2(1,6) allI impI)
qed

lemma graph_delete_edge_ok:
  assumes "graph_holds g d n E" and ab: "a < n" "b < n"
  shows "\<exists>rc g' w'. graph_delete_edge (Ptr g) a b wt w = Some (rc, Ptr g', w') \<and> destroyed w' = destroyed w
    \<and> live w' - graph_own g' = live w - graph_own g
    \<and> (rc = 1 \<and> (\<exists>E'. (E = add_mset (a, b, wt) E' \<or> \<not> d \<and> E = add_mset (b, a, wt) E') \<and> graph_holds g' d n E')
       \<or> rc = 0 \<and> g' = g \<and> w' = w \<and> (a, b, wt) \<notin># E \<and> (d \<or> (b, a, wt) \<notin># E))"
proof -
  obtain vs ls where h: "g_rel g vs ls" "lists_ok d n E ls" "length vs = n" "length ls = n" "g_vertex_count g = n"
    "g_directed g = d" "\<forall>(a, b, w) \<in># E. a < n \<and> b < n" "g_edge_count g = size E mod (SIZE_MAX + 1)"
    using assms(1) by (rule graph_holdsE)
  have valid: "graph_vertex_valid (Ptr g) a" "graph_vertex_valid (Ptr g) b"
    using h(5) ab by (simp_all add: graph_vertex_valid_def)
  have va: "a < length vs" "b < length vs" using ab h(3) by simp_all
  have ma: "mset (ls ! a) = neighbours d E a" "mset (ls ! b) = neighbours d E b"
    using h(2) ab by (simp_all add: lists_ok_def)
  from find_directed_ok [OF h(1) va(1), of b wt 0] obtain r where
    f: "graph_find_directed_edge g a b wt 0 = Some r"
    and fr: "r = GRAPH_EDGE_NOT_FOUND \<and> mk_edge b wt \<notin> set (drop 0 (ls ! a))
       \<or> r \<noteq> GRAPH_EDGE_NOT_FOUND \<and> 0 \<le> r \<and> r < length (ls ! a) \<and> ls ! a ! r = mk_edge b wt
         \<and> mk_edge b wt \<notin> set (drop 0 (take r (ls ! a)))"
    by (elim exE conjE) (rule that)
  show ?thesis
  proof (cases "r = GRAPH_EDGE_NOT_FOUND")
    case True
    then have "mk_edge b wt \<notin># neighbours d E a" using fr ma(1) [symmetric] by simp
    then have "(a, b, wt) \<notin># E \<and> (d \<or> (b, a, wt) \<notin># E)" by (simp add: in_neighbours)
    moreover have "graph_delete_edge (Ptr g) a b wt w = Some (0, Ptr g, w)"
      using valid f True by (simp add: graph_delete_edge_def)
    ultimately show ?thesis by simp
  next
    case False
    with fr have r: "r < length (ls ! a)" "ls ! a ! r = mk_edge b wt" "mk_edge b wt \<notin> set (take r (ls ! a))" by simp_all
    have "mk_edge b wt \<in># neighbours d E a" using r(1,2) ma(1) [symmetric] nth_mem by fastforce
    then obtain E' where E': "E = add_mset (a, b, wt) E' \<or> \<not> d \<and> E = add_mset (b, a, wt) E'"
      "\<And>c. neighbours d E c = neighbours d E' c
        + (if c = a then {#mk_edge b wt#} else {#}) + (if \<not> d \<and> c = b then {#mk_edge a wt#} else {#})"
      by (rule neighbours_take) (rule that)
    have cnt: "g_edge_count g = Suc (size E') mod (SIZE_MAX + 1)" "\<forall>(a, b, w) \<in># E'. a < n \<and> b < n"
      using h(7,8) E'(1) by auto
    note dec = size_count(2) [of "size E'"]
    show ?thesis
    proof (cases d)
      case True
      from erase_at_ok [OF h(1) va(1) r(1), of w] obtain g1 us w1 where
        1: "erase_at g a r w = Some (g1, w1)" "g1 = g\<lparr>g_adj_lists := g_adj_lists g1\<rparr>" "destroyed w1 = destroyed w"
        "live w1 - graph_own g1 = live w - graph_own g" "length us = length vs"
        "g_rel g1 us (ls[a := take r (ls ! a) @ drop (Suc r) (ls ! a)])"
        by (elim exE conjE) (rule that)
      let ?ms = "ls[a := take r (ls ! a) @ drop (Suc r) (ls ! a)]" and ?g = "g1\<lparr>g_edge_count := sz_sub (g_edge_count g1) 1\<rparr>"
      have f1: "g_directed g1 = d" "g_edge_count g1 = Suc (size E') mod (SIZE_MAX + 1)"
        using h(6) cnt(1) by (subst 1(2), simp)+
      have "lists_ok d n E' ?ms"
      proof (rule lists_ok_remove [OF h(2) _ _ E'(2)])
        show "length ?ms = n" using h(4) by simp
        show "mset (?ms ! c) + (if c = a then {#mk_edge b wt#} else {#}) + (if \<not> d \<and> c = b then {#mk_edge a wt#} else {#})
          = mset (ls ! c)" if "c < n" for c
          using that True erase_mset [OF r(1)] r(2) h(4) by (cases "c = a") simp_all
      qed
      then have "graph_holds ?g d n E'"
        by (intro graph_holds_lists [of _ us ?ms]) (use 1(6) f1 cnt(2) dec in simp_all)
      moreover have "graph_delete_edge (Ptr g) a b wt w = Some (1, Ptr ?g, w1)"
        using valid f False h(6) True 1(1) by (simp add: graph_delete_edge_def)
      ultimately show ?thesis using 1(3,4) E'(1)
        by (intro exI [of _ 1] exI [of _ ?g] exI [of _ w1]) (use True in auto)
    next
      case nd: False
      let ?s = "if a = b then sz_add r 1 else 0"
      have rs: "r < SIZE_MAX" using r(1) edge_vec_small [OF g_relD(4) [OF h(1) va(1)]] by simp
      have "mk_edge a wt \<in># neighbours d E b" using E'(2) [of b] nd by simp
      then have inb: "mk_edge a wt \<in># mset (ls ! b)" using ma(2) by simp
      have s: "mk_edge a wt \<in> set (drop ?s (ls ! b))"
      proof (cases "a = b")
        case True
        have "mset (ls ! a) = mset (take r (ls ! a)) + add_mset (mk_edge a wt) (mset (drop (Suc r) (ls ! a)))"
          using mset_take_drop_Suc [OF r(1)] r(2) True by simp
        moreover have "count (mset (ls ! a)) (mk_edge a wt) \<ge> 2" using E'(2) [of a] ma(1) nd True by simp
        moreover have "count (mset (take r (ls ! a))) (mk_edge a wt) = 0"
          using r(3) True by (simp add: count_eq_zero_iff)
        ultimately have "count (mset (drop (Suc r) (ls ! a))) (mk_edge a wt) \<ge> 1" by simp
        then have "mk_edge a wt \<in># mset (drop (Suc r) (ls ! a))" by (simp flip: count_greater_eq_one_iff)
        then show ?thesis using True rs by simp
      qed (use inb in simp)
      from find_directed_ok [OF h(1) va(2), of a wt ?s] obtain t where
        ft: "graph_find_directed_edge g b a wt ?s = Some t"
        and tr: "t = GRAPH_EDGE_NOT_FOUND \<and> mk_edge a wt \<notin> set (drop ?s (ls ! b))
           \<or> t \<noteq> GRAPH_EDGE_NOT_FOUND \<and> ?s \<le> t \<and> t < length (ls ! b) \<and> ls ! b ! t = mk_edge a wt
             \<and> mk_edge a wt \<notin> set (drop ?s (take t (ls ! b)))"
        by (elim exE conjE) (rule that)
      have t: "t \<noteq> GRAPH_EDGE_NOT_FOUND" "t < length (ls ! b)" "ls ! b ! t = mk_edge a wt" "a = b \<longrightarrow> r < t"
        using tr s rs by auto
      from erase_both [OF h(1,3) ab r(1,2) t(2-4), of w] obtain g1 w1 g2 w2 us ms where
        2: "erase_at g b t w = Some (g1, w1)" "erase_at g1 a r w1 = Some (g2, w2)"
        "g2 = g\<lparr>g_adj_lists := g_adj_lists g2\<rparr>" "destroyed w2 = destroyed w" "live w2 - graph_own g2 = live w - graph_own g"
        "g_rel g2 us ms" "length ms = n"
        "\<forall>c < n. mset (ms ! c) + (if c = a then {#mk_edge b wt#} else {#}) + (if c = b then {#mk_edge a wt#} else {#})
         = mset (ls ! c)"
        by (elim exE conjE) (rule that)
      let ?g = "g2\<lparr>g_edge_count := sz_sub (g_edge_count g2) 1\<rparr>"
      have f2: "g_directed g2 = d" "g_edge_count g2 = Suc (size E') mod (SIZE_MAX + 1)"
        using h(6) cnt(1) by (subst 2(3), simp)+
      have "lists_ok d n E' ms" by (rule lists_ok_remove [OF h(2) 2(7) _ E'(2)]) (use 2(8) nd in simp)
      then have "graph_holds ?g d n E'"
        by (intro graph_holds_lists [of _ us ms]) (use 2(6) f2 cnt(2) dec in simp_all)
      moreover have "graph_delete_edge (Ptr g) a b wt w = Some (1, Ptr ?g, w2)"
        using valid f ft t(1) False h(6) nd 2(1,2) by (cases "a = b") (simp_all add: graph_delete_edge_def)
      ultimately show ?thesis using 2(4,5) E'(1) nd
        by (intro exI [of _ 1] exI [of _ ?g] exI [of _ w2]) auto
    qed
  qed
qed

section \<open>Queries\<close>

lemma has_edge_loop_ok:
  "edge_vec v xs \<Longrightarrow> \<forall>i \<in> set is. i < length xs \<Longrightarrow>
    has_edge_loop v to is = Some (if \<exists>i \<in> set is. e_to (xs ! i) = to then 1 else 0)"
  by (induction "is") (simp_all add: edge_read)

lemma edge_to_iff: "(\<exists>e \<in># neighbours d E a. e_to e = b) \<longleftrightarrow> (\<exists>w. (a, b, w) \<in># E \<or> \<not> d \<and> (b, a, w) \<in># E)"
proof -
  have "(\<exists>e \<in># N. e_to e = b) \<longleftrightarrow> (\<exists>w. mk_edge b w \<in># N)" for N
  proof
    assume "\<exists>e \<in># N. e_to e = b"
    then obtain e where e: "e \<in># N" "e_to e = b" by blast
    then have "mk_edge b (e_weight e) \<in># N" by (cases e) (simp add: mk_edge_def)
    then show "\<exists>w. mk_edge b w \<in># N" ..
  qed (force simp: mk_edge_def)
  then show ?thesis by (simp add: in_neighbours)
qed

lemma graph_has_edge_ok:
  assumes "graph_holds g d n E"
  shows "graph_has_edge (Ptr g) a b = Some (if \<exists>w. (a, b, w) \<in># E \<or> \<not> d \<and> (b, a, w) \<in># E then 1 else 0)"
proof -
  obtain vs ls where h: "g_rel g vs ls" "lists_ok d n E ls" "length vs = n" "length ls = n" "g_vertex_count g = n"
    "g_directed g = d" "\<forall>(a, b, w) \<in># E. a < n \<and> b < n" "g_edge_count g = size E mod (SIZE_MAX + 1)"
    using assms by (rule graph_holdsE)
  show ?thesis
  proof (cases "a < n \<and> b < n")
    case True
    then have a: "a < length vs" "mset (ls ! a) = neighbours d E a" using h(2,3) by (simp_all add: lists_ok_def)
    note e = g_relD(4) [OF h(1) a(1)]
    have "graph_has_edge (Ptr g) a b
        = Some (if \<exists>i \<in> set [0..<length (ls ! a)]. e_to (ls ! a ! i) = b then 1 else 0)"
      using True h(5) a(1) g_relD(1) [OF h(1)] vec_relD(2) [OF edge_vecD(1) [OF e]]
        has_edge_loop_ok [OF e, of "[0..<length (ls ! a)]" b]
      by (simp add: graph_has_edge_def graph_vertex_valid_def)
    also have "(\<exists>i \<in> set [0..<length (ls ! a)]. e_to (ls ! a ! i) = b) \<longleftrightarrow> (\<exists>e \<in># mset (ls ! a). e_to e = b)"
      by (auto simp: set_conv_nth)
    finally show ?thesis by (simp add: a(2) edge_to_iff)
  next
    case False
    then have "\<not> (\<exists>w. (a, b, w) \<in># E \<or> \<not> d \<and> (b, a, w) \<in># E)" using h(7) by auto
    then show ?thesis using False h(5) by (auto simp: graph_has_edge_def graph_vertex_valid_def)
  qed
qed

lemma graph_degree_ok:
  assumes "graph_holds g d n E"
  shows "graph_degree (Ptr g) a = Some (if a < n then size (neighbours d E a) else GRAPH_INVALID_VERTEX)"
    and "\<exists>b xs. graph_neighbors (Ptr g) a = Some b \<and> (if a < n then holds b xs \<and> mset xs = neighbours d E a else b = NULL)"
proof -
  obtain vs ls where h: "g_rel g vs ls" "lists_ok d n E ls" "length vs = n" "length ls = n" "g_vertex_count g = n"
    "g_directed g = d" "\<forall>(a, b, w) \<in># E. a < n \<and> b < n" "g_edge_count g = size E mod (SIZE_MAX + 1)"
    using assms by (rule graph_holdsE)
  have v: "v_size (vs ! a) = size (neighbours d E a)" "holds (v_data (vs ! a)) (ls ! a)"
    "mset (ls ! a) = neighbours d E a" if "a < n"
    using vec_relD(1,2) [OF edge_vecD(1) [OF g_relD(4) [OF h(1)]]] that h(2,3)
    by (simp_all add: lists_ok_def flip: size_mset)
  show "graph_degree (Ptr g) a = Some (if a < n then size (neighbours d E a) else GRAPH_INVALID_VERTEX)"
    using g_relD(1) [OF h(1)] h(3,5) v(1)
    by (simp add: graph_degree_def graph_adj_list_def graph_vertex_valid_def)
  show "\<exists>b xs. graph_neighbors (Ptr g) a = Some b \<and> (if a < n then holds b xs \<and> mset xs = neighbours d E a else b = NULL)"
    using g_relD(1) [OF h(1)] h(3,5) v(2,3)
    by (cases "a < n") (auto simp: graph_neighbors_def graph_adj_list_def graph_vertex_valid_def)
qed

section \<open>Loops over all vertices\<close>

lemma fold_update:
  "length (fold (\<lambda>i l. l[i := f i]) is l) = length l"
  "j < length l \<Longrightarrow> fold (\<lambda>i l. l[i := f i]) is l ! j = (if j \<in> set is then f j else l ! j)"
  by (induction "is" arbitrary: l) (auto simp: nth_list_update)

lemma fold_update_all: "length l = n \<Longrightarrow> fold (\<lambda>i l. l[i := f i]) [0..<n] l = map f [0..<n]"
  by (rule nth_equalityI) (simp_all add: fold_update)

lemma clear_lists_ok:
  assumes "list_all2 edge_vec vs ls" and "\<forall>i \<in> set is. i < length vs"
  shows "\<exists>us w'. clear_lists is (adj_of vs) w = Some (adj_of us, w') \<and> length us = length vs
    \<and> list_all2 edge_vec us (fold (\<lambda>i l. l[i := []]) is ls) \<and> destroyed w' = destroyed w
    \<and> live w' - vecs_own us = live w - vecs_own vs \<and> no_fail w' = no_fail w"
  using assms
proof (induction "is" arbitrary: vs ls w)
  case Nil
  then show ?case by (intro exI [of _ vs] exI [of _ w]) simp
next
  case (Cons i is')
  then have i: "i < length vs" "i < length ls" "edge_vec (vs ! i) (ls ! i)" by (auto simp: list_all2_conv_all_nth)
  note e = edge_vecD [OF i(3)]
  let ?v = "(vs ! i)\<lparr>v_size := 0\<rparr>"
  from vector_clear_ok [OF e(1), of w] obtain w1 where
    c: "vector_clear (Ptr (vs ! i)) w = Some (Ptr ?v, w1)" "vec_rel ?v []" "live w1 = live w" "no_fail w1 = no_fail w"
    "destroyed w1 = destroyed w @ log_if (v_elem_destroy (vs ! i)) (ls ! i)"
    by (elim exE conjE) (rule that)
  have "edge_vec ?v []" using c(2) e(2) by (simp add: edge_vec_def vec_conf_def)
  then have l: "list_all2 edge_vec (vs[i := ?v]) (ls[i := []])"
    by (rule list_all2_update_cong [OF Cons.prems(1)])
  have "\<forall>k \<in> set is'. k < length (vs[i := ?v])" using Cons.prems(2) by auto
  from Cons.IH [OF l this, of w1] obtain us w' where r: "clear_lists is' (adj_of (vs[i := ?v])) w1 = Some (adj_of us, w')"
    "length us = length (vs[i := ?v])" "list_all2 edge_vec us (fold (\<lambda>i l. l[i := []]) is' (ls[i := []]))"
    "destroyed w' = destroyed w1" "live w' - vecs_own us = live w1 - vecs_own (vs[i := ?v])" "no_fail w' = no_fail w1"
    by (elim exE conjE) (rule that)
  have "vecs_own (vs[i := ?v]) = vecs_own vs" using vecs_own_update [OF i(1)] by (simp add: vec_own_def)
  then show ?case
    using r i(1) c e(3) by (intro exI [of _ us] exI [of _ w']) simp
qed

lemma destroy_lists_ok:
  assumes "list_all2 edge_vec vs ls" and "\<forall>i \<in> set is. i < length vs"
  shows "\<exists>us w'. destroy_lists is (adj_of vs) w = Some (adj_of us, w') \<and> length us = length vs
    \<and> (\<forall>j < length vs. if j \<in> set is then vec_own (us ! j) = 0 else us ! j = vs ! j) \<and> destroyed w' = destroyed w
    \<and> live w' - vecs_own us = live w - vecs_own vs \<and> no_fail w' = no_fail w"
  using assms
proof (induction "is" arbitrary: vs ls w)
  case Nil
  then show ?case by (intro exI [of _ vs] exI [of _ w]) simp
next
  case (Cons i is')
  then have i: "i < length vs" "i < length ls" "edge_vec (vs ! i) (ls ! i)" by (auto simp: list_all2_conv_all_nth)
  note e = edge_vecD [OF i(3)]
  from vector_destroy_ok [OF e(1), of w] obtain v w1 where
    c: "vector_destroy (Ptr (vs ! i)) w = Some (Ptr v, w1)" "vec_conf v = vec_conf (vs ! i)" "vec_rel v []" "vec_own v = 0"
    "live w1 = live w - vec_own (vs ! i)" "no_fail w1 = no_fail w"
    "destroyed w1 = destroyed w @ log_if (v_elem_destroy (vs ! i)) (ls ! i)"
    by (elim exE conjE) (rule that)
  have "edge_vec v []" using c(2,3) e(2) by (simp add: edge_vec_def vec_conf_def)
  then have l: "list_all2 edge_vec (vs[i := v]) (ls[i := []])"
    by (rule list_all2_update_cong [OF Cons.prems(1)])
  have "\<forall>k \<in> set is'. k < length (vs[i := v])" using Cons.prems(2) by auto
  from Cons.IH [OF l this, of w1] obtain us w' where r: "destroy_lists is' (adj_of (vs[i := v])) w1 = Some (adj_of us, w')"
    "length us = length (vs[i := v])"
    "\<forall>j < length (vs[i := v]). if j \<in> set is' then vec_own (us ! j) = 0 else us ! j = vs[i := v] ! j"
    "destroyed w' = destroyed w1" "live w' - vecs_own us = live w1 - vecs_own (vs[i := v])" "no_fail w' = no_fail w1"
    by (elim exE conjE) (rule that)
  have "\<forall>j < length vs. if j \<in> set (i # is') then vec_own (us ! j) = 0 else us ! j = vs ! j"
    using r(3) c(4) by (auto simp: nth_list_update split: if_splits)
  then show ?case
    using r i(1) c e(3) vecs_own_update [OF i(1), of v] by (intro exI [of _ us] exI [of _ w']) simp
qed

lemma graph_destroy_ok:
  assumes "g_rel g vs ls"
  shows "\<exists>w'. graph_destroy (Ptr g) w = Some (Ptr raw_graph, w') \<and> destroyed w' = destroyed w
    \<and> live w' = live w - graph_own g \<and> no_fail w' = no_fail w"
proof (cases "vs = []")
  case True
  then show ?thesis
    using g_relD(1) [OF assms] by (simp add: graph_destroy_def raw_graph_def adj_of_def graph_own_def)
next
  case False
  have ll: "list_all2 edge_vec vs ls" using assms by (simp add: g_rel_def)
  have "\<forall>i \<in> set [0..<length vs]. i < length vs" by simp
  from destroy_lists_ok [OF ll this, of w] obtain us w' where
    d: "destroy_lists [0..<length vs] (adj_of vs) w = Some (adj_of us, w')" "length us = length vs"
    "\<forall>j < length vs. if j \<in> set [0..<length vs] then vec_own (us ! j) = 0 else us ! j = vs ! j"
    "destroyed w' = destroyed w" "live w' - vecs_own us = live w - vecs_own vs" "no_fail w' = no_fail w"
    by (elim exE conjE) (rule that)
  have "\<forall>v \<in> set us. vec_own v = 0" using d(2,3) by (auto simp: in_set_conv_nth)
  then have "map vec_own us = map (\<lambda>_. 0) us" by (intro map_cong) simp_all
  then have "vecs_own us = 0" unfolding vecs_own_def by (simp only: sum_list_0)
  moreover have "adj_of vs \<noteq> NULL" using False by (simp add: adj_of_def)
  ultimately show ?thesis
    using g_relD(1,2) [OF assms] d(1,4-6) graph_own_rel [OF assms]
    by (simp add: graph_destroy_def raw_graph_def)
qed

lemma graph_clear_ok:
  assumes "graph_holds g d n E"
  shows "\<exists>g' w'. graph_clear (Ptr g) w = Some (Ptr g', w') \<and> destroyed w' = destroyed w \<and> no_fail w' = no_fail w
    \<and> live w' - graph_own g' = live w - graph_own g \<and> graph_holds g' d n {#}"
proof -
  obtain vs ls where h: "g_rel g vs ls" "lists_ok d n E ls" "length vs = n" "length ls = n" "g_vertex_count g = n"
    "g_directed g = d" "\<forall>(a, b, w) \<in># E. a < n \<and> b < n" "g_edge_count g = size E mod (SIZE_MAX + 1)"
    using assms by (rule graph_holdsE)
  have ll: "list_all2 edge_vec vs ls" using h(1) by (simp add: g_rel_def)
  have "\<forall>i \<in> set [0..<n]. i < length vs" using h(3) by simp
  from clear_lists_ok [OF ll this, of w] obtain us w' where
    c: "clear_lists [0..<n] (adj_of vs) w = Some (adj_of us, w')" "length us = length vs"
    "list_all2 edge_vec us (fold (\<lambda>i l. l[i := []]) [0..<n] ls)" "destroyed w' = destroyed w"
    "live w' - vecs_own us = live w - vecs_own vs" "no_fail w' = no_fail w"
    by (elim exE conjE) (rule that)
  let ?g = "g\<lparr>g_adj_lists := adj_of us, g_edge_count := 0\<rparr>" and ?ls = "map (\<lambda>i. []) [0..<n]"
  have rel: "g_rel ?g us ?ls"
    using c(2,3) h(1,3,5) fold_update_all [OF h(4), of "\<lambda>i. []"] by (simp add: g_rel_def)
  have "graph_holds ?g d n {#}"
    by (rule graph_holds_lists [OF rel]) (use h(6) in \<open>simp_all add: lists_ok_def\<close>)
  moreover have "blocks (adj_of us) = blocks (adj_of vs)" using c(2) by (auto simp: adj_of_def)
  then have "live w' - graph_own ?g = live w - graph_own g"
    using graph_own_rel [OF h(1)] graph_own_rel [OF rel] c(5) by simp
  moreover have "graph_clear (Ptr g) w = Some (Ptr ?g, w')"
    using c(1) g_relD(1) [OF h(1)] h(5) by (simp add: graph_clear_def)
  ultimately show ?thesis using c(4,6) by (intro exI [of _ ?g] exI [of _ w']) simp
qed

section \<open>Creating and copying\<close>

definition new_edges :: "graph_edge vector" where
  "new_edges = \<lparr>v_capacity = 0, v_size = 0, v_elem_size = 16, v_elem_destroy = False, v_elem_copy = None, v_data = NULL\<rparr>"

lemma new_edges_ok: "vector_init (Ptr u) 16 False None = (0, Ptr new_edges)" "edge_vec new_edges []" "vec_own new_edges = 0"
  by (simp_all add: vector_init_def new_edges_def edge_vec_def vec_rel_def vec_conf_def vec_own_def PTRDIFF_MAX_def)

lemma init_lists_ok: "k \<le> n \<Longrightarrow>
  init_lists [k..<n] (Ptr (replicate k (Some new_edges) @ replicate (n - k) None)) w
    = Some (0, Ptr (replicate n (Some new_edges)), w)"
proof (induction "n - k" arbitrary: k)
  case (Suc j)
  then have k: "k < n" "j = n - Suc k" "Suc k \<le> n" by simp_all
  let ?b = "Ptr (replicate k (Some new_edges) @ replicate (n - k) None)"
  have "(replicate k (Some new_edges) @ replicate (n - k) None)[k := Some new_edges]
      = replicate (Suc k) (Some new_edges) @ replicate (n - Suc k) None"
    using k(1) by (simp add: list_update_append replicate_app_Cons_same Suc_diff_Suc [symmetric])
  then have "buf_put ?b k (Some new_edges) = Some (Ptr (replicate (Suc k) (Some new_edges) @ replicate (n - Suc k) None))"
    using k(1) by (simp add: buf_put_def)
  then show ?case using Suc.hyps(1) [OF k(2,3)] k(1) by (simp add: upt_conv_Cons new_edges_ok(1))
qed simp

lemma graph_init_ok:
  assumes n: "n * 48 \<le> SIZE_MAX"
  shows "\<exists>rc g w'. graph_init (Ptr u) (if d then GRAPH_DIRECTED else GRAPH_UNDIRECTED) n w = Some (rc, Ptr g, w')
    \<and> destroyed w' = destroyed w \<and> (no_fail w \<longrightarrow> no_fail w' \<and> (n * 48 \<le> PTRDIFF_MAX \<longrightarrow> rc = 0))
    \<and> (rc = 0 \<and> g_directed g = d \<and> g_edge_count g = 0 \<and> g_rel g (replicate n new_edges) (replicate n [])
         \<and> live w' - graph_own g = live w
       \<or> rc = - 1 \<and> live w' = live w)"
proof (cases "n = 0")
  case True
  then show ?thesis
    by (auto simp: graph_init_def GRAPH_DIRECTED_def GRAPH_UNDIRECTED_def g_rel_def adj_of_def graph_own_def)
next
  case False
  obtain ok w1 where m: "malloc (n * 48) w = (ok, w1)" by fastforce
  note e = malloc_effect(1,3-6) [OF m]
  let ?g = "\<lparr>g_vertex_count = n, g_edge_count = 0, g_directed = d, g_adj_lists = NULL\<rparr>"
  let ?g' = "?g\<lparr>g_adj_lists := Ptr (replicate n (Some new_edges))\<rparr>"
  have init: "init_lists [0..<n] (buf_new n) w1 = Some (0, Ptr (replicate n (Some new_edges)), w1)"
    using init_lists_ok [of 0 n w1] by (simp add: buf_new_def)
  show ?thesis
  proof (cases ok)
    case ok: False
    then have "graph_init (Ptr u) (if d then GRAPH_DIRECTED else GRAPH_UNDIRECTED) n w = Some (- 1, Ptr ?g, w1)"
      using False n m by (simp add: graph_init_def GRAPH_DIRECTED_def GRAPH_UNDIRECTED_def)
    then show ?thesis using e ok by auto
  next
    case True
    then have run: "graph_init (Ptr u) (if d then GRAPH_DIRECTED else GRAPH_UNDIRECTED) n w = Some (0, Ptr ?g', w1)"
      using False n m init by (simp add: graph_init_def GRAPH_DIRECTED_def GRAPH_UNDIRECTED_def)
    have ne: "vec_own new_edges = 0" by (rule new_edges_ok(3))
    have "list_all2 edge_vec (replicate n new_edges) (replicate n [])"
      by (simp add: list_all2_conv_all_nth new_edges_ok(2))
    then have "g_rel ?g' (replicate n new_edges) (replicate n [])"
      using False e(3) True by (simp add: g_rel_def adj_of_def map_replicate)
    moreover have "graph_own ?g' = 1" using ne by (simp add: graph_own_def sum_list_replicate)
    ultimately show ?thesis
      using run e True by (intro exI [of _ 0] exI [of _ ?g'] exI [of _ w1]) simp
  qed
qed

lemma copy_lists_ok:
  assumes src: "list_all2 edge_vec vs ls" and "list_all2 edge_vec us ms" "length us = length vs"
    and "\<forall>i \<in> set is. i < length vs"
  shows "\<exists>rc ts ns w'. copy_lists (adj_of vs) is (adj_of us) w = Some (rc, adj_of ts, w') \<and> length ts = length us
    \<and> list_all2 edge_vec ts ns \<and> destroyed w' = destroyed w \<and> live w' - vecs_own ts = live w - vecs_own us
    \<and> (no_fail w \<longrightarrow> no_fail w' \<and> rc = 0)
    \<and> (rc = 0 \<and> ns = fold (\<lambda>i l. l[i := ls ! i]) is ms \<or> rc = - 1)"
  using assms(2-4)
proof (induction "is" arbitrary: us ms w)
  case Nil
  then show ?case by (intro exI [of _ 0] exI [of _ us] exI [of _ ms] exI [of _ w]) simp
next
  case (Cons i is')
  then have i: "i < length vs" "i < length us" by simp_all
  have ds: "edge_vec (us ! i) (ms ! i)" "edge_vec (vs ! i) (ls ! i)"
    using Cons.prems(1) src i by (auto simp: list_all2_conv_all_nth)
  note e = edge_vecD [OF ds(2)] and f = edge_vecD [OF ds(1)]
  from vector_copy_ok [OF f(1) e(1), of w] obtain rc v w1 zs k where
    c: "vector_copy False (Ptr (us ! i)) (Ptr (vs ! i)) w = Some (rc, Ptr v, w1)" "vec_conf v = vec_conf (vs ! i)"
    "live w1 - vec_own v = live w - vec_own (us ! i)"
    "destroyed w1 = destroyed w @ log_if (v_elem_destroy (us ! i)) (ms ! i) @ log_if (v_elem_destroy (vs ! i)) zs"
    "no_fail w \<longrightarrow> rc = 0"
    and res: "rc = 0 \<and> vec_rel v (map (copied (v_elem_copy (vs ! i))) (ls ! i)) \<and> zs = []
       \<or> rc = - 1 \<and> vec_rel v [] \<and> mset zs = mset (map (copied (v_elem_copy (vs ! i))) (take k (ls ! i)))"
    by (elim exE conjE) (rule that)
  have ds1: "destroyed w1 = destroyed w" using c(4) e(3) f(3) by simp
  have nf1: "no_fail w1" if nf: "no_fail w"
    by (rule vector_copy_no_fail [OF f(1) e(1) _ nf]) (use c(1,5) nf in simp)
  let ?x = "if rc = 0 then ls ! i else []"
  have id: "map (copied None) xs = xs" for xs :: "graph_edge list" by (rule map_idI) (simp add: copied_def)
  have ev: "edge_vec v ?x" using res c(2) e(2,4) id by (auto simp: edge_vec_def)
  have l: "list_all2 edge_vec (us[i := v]) (ms[i := ?x])" by (rule list_all2_update_cong [OF Cons.prems(1) ev])
  have own: "vecs_own (us[i := v]) = vecs_own us - vec_own (us ! i) + vec_own v" by (rule vecs_own_update [OF i(2)])
  show ?case
  proof (cases "rc = 0")
    case False
    then have "copy_lists (adj_of vs) (i # is') (adj_of us) w = Some (- 1, adj_of (us[i := v]), w1)"
      using c(1) i by simp
    then show ?thesis
      using l own c(3,5) ds1 False
      by (intro exI [of _ "- 1"] exI [of _ "us[i := v]"] exI [of _ "ms[i := ?x]"] exI [of _ w1]) simp
  next
    case True
    have len: "length (us[i := v]) = length vs" "\<forall>k \<in> set is'. k < length vs" using Cons.prems(2,3) by simp_all
    from Cons.IH [OF l len, of w1] obtain rc' ts ns w' where
      r: "copy_lists (adj_of vs) is' (adj_of (us[i := v])) w1 = Some (rc', adj_of ts, w')"
      "length ts = length (us[i := v])" "list_all2 edge_vec ts ns" "destroyed w' = destroyed w1"
      "live w' - vecs_own ts = live w1 - vecs_own (us[i := v])" "no_fail w1 \<longrightarrow> no_fail w' \<and> rc' = 0"
      "rc' = 0 \<and> ns = fold (\<lambda>i l. l[i := ls ! i]) is' (ms[i := ?x]) \<or> rc' = - 1"
      by (elim exE conjE) (rule that)
    have "copy_lists (adj_of vs) (i # is') (adj_of us) w = Some (rc', adj_of ts, w')"
      using c(1) i True r(1) by simp
    moreover have "rc' = 0 \<and> ns = fold (\<lambda>i l. l[i := ls ! i]) (i # is') ms \<or> rc' = - 1" using r(7) True by simp
    moreover have "live w' - vecs_own ts = live w - vecs_own us" using r(5) own c(3) by simp
    ultimately show ?thesis
      using r(2-4,6) ds1 nf1 by (intro exI [of _ rc'] exI [of _ ts] exI [of _ ns] exI [of _ w']) simp
  qed
qed

lemma graph_copy_ok:
  assumes s: "graph_holds s d n E" and t: "g_rel t vs0 ls0"
  shows "\<exists>rc t' w'. graph_copy False (Ptr t) (Ptr s) w = Some (rc, Ptr t', w') \<and> destroyed w' = destroyed w
    \<and> live w' - graph_own t' = live w - graph_own t \<and> (no_fail w \<longrightarrow> no_fail w' \<and> rc = 0)
    \<and> (rc = 0 \<and> graph_holds t' d n E \<or> rc = - 1 \<and> t' = t)"
proof -
  obtain vs ls where h: "g_rel s vs ls" "lists_ok d n E ls" "length vs = n" "length ls = n" "g_vertex_count s = n"
    "g_directed s = d" "\<forall>(a, b, w) \<in># E. a < n \<and> b < n" "g_edge_count s = size E mod (SIZE_MAX + 1)"
    using s by (rule graph_holdsE)
  have n: "n * 48 \<le> PTRDIFF_MAX" using h(1,3) by (simp add: g_rel_def)
  then have n': "n * 48 \<le> SIZE_MAX" using SIZE_MAX_PTRDIFF_MAX by simp
  have kd: "kind_of s = (if d then GRAPH_DIRECTED else GRAPH_UNDIRECTED)" using h(6) by (simp add: kind_of_def)
  from graph_init_ok [OF n', of raw_graph d w] obtain rc g w1 where
    i: "graph_init (Ptr raw_graph) (if d then GRAPH_DIRECTED else GRAPH_UNDIRECTED) n w = Some (rc, Ptr g, w1)"
    "destroyed w1 = destroyed w" "no_fail w \<longrightarrow> no_fail w1 \<and> (n * 48 \<le> PTRDIFF_MAX \<longrightarrow> rc = 0)"
    and ires: "rc = 0 \<and> g_directed g = d \<and> g_edge_count g = 0 \<and> g_rel g (replicate n new_edges) (replicate n [])
         \<and> live w1 - graph_own g = live w
       \<or> rc = - 1 \<and> live w1 = live w"
    by (elim exE conjE) (rule that)
  show ?thesis
  proof (cases "rc = 0")
    case False
    then have "graph_copy False (Ptr t) (Ptr s) w = Some (- 1, Ptr t, w1)"
      using i(1) h(5) kd by (simp add: graph_copy_def)
    then show ?thesis using i(2,3) ires n False by simp
  next
    case True
    have g: "g_directed g = d" "g_rel g (replicate n new_edges) (replicate n [])" "live w1 - graph_own g = live w"
      using ires True by simp_all
    let ?g = "g\<lparr>g_edge_count := g_edge_count s\<rparr>"
    have ll: "list_all2 edge_vec vs ls" "list_all2 edge_vec (replicate n new_edges) (replicate n [])"
      using h(1) g(2) by (simp_all add: g_rel_def)
    have side: "length (replicate n new_edges) = length vs" "\<forall>i \<in> set [0..<n]. i < length vs" using h(3) by simp_all
    from copy_lists_ok [OF ll side, of w1] obtain rc1 ts ns w2 where
      c: "copy_lists (adj_of vs) [0..<n] (adj_of (replicate n new_edges)) w1 = Some (rc1, adj_of ts, w2)"
      "length ts = length (replicate n new_edges)" "list_all2 edge_vec ts ns" "destroyed w2 = destroyed w1"
      "live w2 - vecs_own ts = live w1 - vecs_own (replicate n new_edges)" "no_fail w1 \<longrightarrow> no_fail w2 \<and> rc1 = 0"
      "rc1 = 0 \<and> ns = fold (\<lambda>i l. l[i := ls ! i]) [0..<n] (replicate n []) \<or> rc1 = - 1"
      by (elim exE conjE) (rule that)
    let ?t = "?g\<lparr>g_adj_lists := adj_of ts\<rparr>"
    have rel: "g_rel ?t ts ns" using g(2) c(2,3) by (simp add: g_rel_def)
    have "blocks (adj_of ts) = blocks (adj_of (replicate n new_edges))"
      using c(2) by (auto simp: adj_of_def)
    then have own: "live w2 - graph_own ?t = live w"
      using graph_own_rel [OF rel] graph_own_rel [OF g(2)] c(5) g(3) by simp
    have adj: "g_adj_lists g = adj_of (replicate n new_edges)" "g_adj_lists s = adj_of vs"
      using g_relD(1) [OF g(2)] g_relD(1) [OF h(1)] by simp_all
    have run: "graph_copy False (Ptr t) (Ptr s) w =
      (if rc1 \<noteq> 0 then (case graph_destroy (Ptr ?t) w2 of None \<Rightarrow> None | Some (q, w3) \<Rightarrow> Some (- 1, Ptr t, w3))
       else (case graph_destroy (Ptr t) w2 of None \<Rightarrow> None | Some (q, w3) \<Rightarrow> Some (0, Ptr ?t, w3)))"
      using i(1) h(5) kd True c(1) adj by (simp add: graph_copy_def bind_split split: option.splits)
    show ?thesis
    proof (cases "rc1 = 0")
      case ok: True
      from graph_destroy_ok [OF t, of w2] obtain w3 where
        d: "graph_destroy (Ptr t) w2 = Some (Ptr raw_graph, w3)" "destroyed w3 = destroyed w2"
        "live w3 = live w2 - graph_own t" "no_fail w3 = no_fail w2"
        by (elim exE conjE) (rule that)
      have "ns = map ((!) ls) [0..<n]" using c(7) ok fold_update_all [of "replicate n []" n] by simp
      then have "ns = ls" using map_nth [of ls] h(4) by simp
      then have "graph_holds ?t d n E"
        using h(2,7,8) g(1) rel by (intro graph_holds_lists [of _ ts ls]) simp_all
      then show ?thesis
        using run ok d i(2,3) c(4,6) own
        by (intro exI [of _ 0] exI [of _ ?t] exI [of _ w3]) simp
    next
      case False
      from graph_destroy_ok [OF rel, of w2] obtain w3 where
        d: "graph_destroy (Ptr ?t) w2 = Some (Ptr raw_graph, w3)" "destroyed w3 = destroyed w2"
        "live w3 = live w2 - graph_own ?t" "no_fail w3 = no_fail w2"
        by (elim exE conjE) (rule that)
      have "no_fail w \<longrightarrow> False" using False i(3) c(6) by blast
      then show ?thesis
        using run False d i(2) c(4) own
        by (intro exI [of _ "- 1"] exI [of _ t] exI [of _ w3]) simp
    qed
  qed
qed

section \<open>The machine\<close>

datatype graph_op = AddEdge nat nat int | DelEdge nat nat int | ClearEdges

definition graph_exec ::
    "graph_op \<Rightarrow> graph \<Rightarrow> (graph_edge, 'b) world_scheme \<Rightarrow> (int \<times> graph \<times> (graph_edge, 'b) world_scheme) option" where
  "graph_exec op g w = (case op of
       AddEdge a b wt \<Rightarrow> map_option (\<lambda>(rc, p, w1). (rc, pt p, w1)) (graph_add_edge (Ptr g) a b wt w)
     | DelEdge a b wt \<Rightarrow> map_option (\<lambda>(rc, p, w1). (rc, pt p, w1)) (graph_delete_edge (Ptr g) a b wt w)
     | ClearEdges \<Rightarrow> map_option (\<lambda>(p, w1). (0, pt p, w1)) (graph_clear (Ptr g) w))"

definition graph_spec ::
    "bool \<times> nat \<Rightarrow> graph_op \<Rightarrow> edges \<Rightarrow> int \<Rightarrow> edges \<Rightarrow> graph_edge list \<Rightarrow> bool" where
  "graph_spec k op E rc E' ds \<longleftrightarrow> ds = [] \<and> (case k of (d, n) \<Rightarrow> (case op of
       AddEdge a b w \<Rightarrow> a < n \<and> b < n \<and> rc = 0 \<and> E' = add_mset (a, b, w) E
     | DelEdge a b w \<Rightarrow> a < n \<and> b < n
         \<and> (rc = 1 \<and> (E = add_mset (a, b, w) E' \<or> \<not> d \<and> E = add_mset (b, a, w) E')
            \<or> rc = 0 \<and> E' = E \<and> (a, b, w) \<notin># E \<and> (d \<or> (b, a, w) \<notin># E))
     | ClearEdges \<Rightarrow> rc = 0 \<and> E' = {#}))"

definition graph_conf :: "graph \<Rightarrow> bool \<times> nat" where
  "graph_conf g = (g_directed g, g_vertex_count g)"

definition graph_state :: "graph \<Rightarrow> edges \<Rightarrow> bool" where
  "graph_state g E \<longleftrightarrow> graph_holds g (g_directed g) (g_vertex_count g) E"

lemma graph_holds_conf: "graph_holds g d n E \<Longrightarrow> graph_conf g = (d, n) \<and> graph_state g E"
  by (frule graph_holdsE) (auto simp: graph_conf_def graph_state_def)

lemma graph_delete_invalid:
  assumes "graph_holds g d n E" and "\<not> (a < n \<and> b < n)"
  shows "graph_delete_edge (Ptr g) a b wt w = Some (- 1, Ptr g, w)"
proof -
  have "g_vertex_count g = n" using assms(1) by (rule graph_holdsE)
  then show ?thesis using assms(2) by (auto simp: graph_delete_edge_def graph_vertex_valid_def)
qed

lemma graph_exec_law:
  assumes h: "graph_holds g d n E"
  shows "\<exists>rc g' w'. graph_exec op g w = Some (rc, g', w') \<and> live w' - graph_own g' = live w - graph_own g
    \<and> destroyed w' = destroyed w
    \<and> ((\<exists>E'. graph_spec (d, n) op E rc E' [] \<and> graph_holds g' d n E') \<or> rc = - 1 \<and> graph_holds g' d n E)"
proof (cases op)
  case (AddEdge a b wt)
  from graph_add_edge_ok [OF h, of a b wt w] show ?thesis
    unfolding AddEdge graph_exec_def graph_spec_def by (elim exE conjE disjE) auto
next
  case (DelEdge a b wt)
  show ?thesis
  proof (cases "a < n \<and> b < n")
    case True
    then have ab: "a < n" "b < n" by simp_all
    from graph_delete_edge_ok [OF h ab, of wt w] show ?thesis
      using h ab unfolding DelEdge graph_exec_def graph_spec_def by (elim exE conjE disjE) auto
  next
    case False
    have "graph_exec op g w = Some (- 1, g, w)"
      using graph_delete_invalid [OF h False, of wt w] by (simp add: DelEdge graph_exec_def)
    then show ?thesis using h by (intro exI [of _ "- 1"] exI [of _ g] exI [of _ w]) simp
  qed
next
  case ClearEdges
  from graph_clear_ok [OF h, of w] show ?thesis
    unfolding ClearEdges graph_exec_def graph_spec_def by (elim exE conjE) auto
qed

interpretation graphm: spec_machine graph_exec graph_spec "\<lambda>k op. True" "\<lambda>g w. graph_state g" graph_conf
  "\<lambda>k. False" "\<lambda>g w. graph_own g" "\<lambda>E. {#}" "\<lambda>k op. {#}"
proof (unfold_locales, goal_cases)
  case (1 g w E op)
  then have h: "graph_holds g (g_directed g) (g_vertex_count g) E" by (simp add: graph_state_def)
  from graph_exec_law [OF h, of op w] obtain rc g' w' where
    e: "graph_exec op g w = Some (rc, g', w')" "live w' - graph_own g' = live w - graph_own g" "destroyed w' = destroyed w"
    and res: "(\<exists>E'. graph_spec (g_directed g, g_vertex_count g) op E rc E' []
        \<and> graph_holds g' (g_directed g) (g_vertex_count g) E')
      \<or> rc = - 1 \<and> graph_holds g' (g_directed g) (g_vertex_count g) E"
    by (elim exE conjE) (rule that)
  have cf: "graph_conf g' = graph_conf g"
    using res graph_holds_conf by (auto simp: graph_conf_def [of g])
  have "(\<exists>E' ds. graph_spec (graph_conf g) op E rc E' ds \<and> graph_state g' E' \<and> destroyed w' = destroyed w @ log_if False ds)
    \<or> rc = - 1 \<and> graph_state g' E \<and> destroyed w' = destroyed w"
    using res e(3) graph_holds_conf unfolding graph_conf_def [of g] by (metis append_Nil2 log_if_simps(1))
  then show ?case using e(1,2) cf by (intro exI [of _ rc] exI [of _ g'] exI [of _ w']) simp
next
  case (2 k op E rc E' ds)
  then show ?case by (simp add: graph_spec_def)
qed

section \<open>Properties\<close>

text \<open>C29: creating a graph succeeds unless the allocator refuses, and every history of edge
  additions, deletions and clears on it, whatever vertices are named and whatever allocations fail,
  runs without undefined behaviour and behaves like a multiset of edges. An addition is either done
  at both ends or, when the second end fails, undone at the first; a deletion removes one edge with
  exactly the given ends and weight and says whether there was one. Destroying the graph leaves no
  block allocated.\<close>

theorem graph_history:
  assumes "n * 48 \<le> PTRDIFF_MAX"
  shows "\<exists>rc g w0. graph_init (Ptr raw_graph) (if d then GRAPH_DIRECTED else GRAPH_UNDIRECTED) n w = Some (rc, Ptr g, w0)
    \<and> (no_fail w \<longrightarrow> rc = 0)
    \<and> (rc = - 1 \<and> live w0 = live w
       \<or> rc = 0 \<and> (\<exists>rcs g' w1 E p w2. run graph_exec ops g w0 = Some (rcs, g', w1)
           \<and> explains (graph_spec (d, n)) ops rcs {#} E [] \<and> graph_holds g' d n E
           \<and> graph_destroy (Ptr g') w1 = Some (p, w2) \<and> live w2 = live w \<and> destroyed w2 = destroyed w))"
proof -
  have n': "n * 48 \<le> SIZE_MAX" using assms SIZE_MAX_PTRDIFF_MAX by simp
  from graph_init_ok [OF n', of raw_graph d w] obtain rc g w0 where
    i: "graph_init (Ptr raw_graph) (if d then GRAPH_DIRECTED else GRAPH_UNDIRECTED) n w = Some (rc, Ptr g, w0)"
    "destroyed w0 = destroyed w" "no_fail w \<longrightarrow> no_fail w0 \<and> (n * 48 \<le> PTRDIFF_MAX \<longrightarrow> rc = 0)"
    and res: "rc = 0 \<and> g_directed g = d \<and> g_edge_count g = 0 \<and> g_rel g (replicate n new_edges) (replicate n [])
         \<and> live w0 - graph_own g = live w
       \<or> rc = - 1 \<and> live w0 = live w"
    by (elim exE conjE) (rule that)
  show ?thesis
  proof (cases "rc = 0")
    case False
    then show ?thesis using i res assms by (intro exI [of _ rc] exI [of _ g] exI [of _ w0]) auto
  next
    case True
    with res have g: "g_directed g = d" "g_edge_count g = 0" "g_rel g (replicate n new_edges) (replicate n [])"
      "live w0 - graph_own g = live w" by simp_all
    have "graph_holds g d n {#}"
      by (rule graph_holds_lists [OF g(3)]) (use g(1,2) in \<open>simp_all add: lists_ok_def\<close>)
    then have st: "graph_state g {#}" "graph_conf g = (d, n)" using graph_holds_conf by blast+
    have all: "\<forall>op \<in> set ops. True" by simp
    from graphm.run_explained [OF st(1) all, of w0] obtain rcs g' w1 E ds where
      r: "run graph_exec ops g w0 = Some (rcs, g', w1)" "graph_conf g' = graph_conf g"
      "live w1 - graph_own g' = live w0 - graph_own g" "graph_state g' E"
      "explains (graph_spec (graph_conf g)) ops rcs {#} E ds" "destroyed w1 = destroyed w0 @ log_if False ds"
      by (elim exE conjE) (rule that)
    have h: "graph_holds g' d n E"
      using r(2,4) st(2) by (simp add: graph_state_def graph_conf_def)
    obtain vs ls where rel: "g_rel g' vs ls" using h by (rule graph_holdsE)
    from graph_destroy_ok [OF rel, of w1] obtain w2 where
      d: "graph_destroy (Ptr g') w1 = Some (Ptr raw_graph, w2)" "destroyed w2 = destroyed w1"
      "live w2 = live w1 - graph_own g'" "no_fail w2 = no_fail w1"
      by (elim exE conjE) (rule that)
    have "ds = []" by (rule explains_no_log [OF r(5)]) (simp add: graph_spec_def)
    then have ex: "explains (graph_spec (d, n)) ops rcs {#} E []" using r(5) st(2) by simp
    have fin: "live w2 = live w" "destroyed w2 = destroyed w" using d(2,3) r(3,6) g(4) i(2) by simp_all
    have "\<exists>rcs g' w1 E p w2. run graph_exec ops g w0 = Some (rcs, g', w1)
           \<and> explains (graph_spec (d, n)) ops rcs {#} E [] \<and> graph_holds g' d n E
           \<and> graph_destroy (Ptr g') w1 = Some (p, w2) \<and> live w2 = live w \<and> destroyed w2 = destroyed w"
      by (intro exI conjI) (rule r(1), rule ex, rule h, rule d(1), rule fin(1), rule fin(2))
    then show ?thesis using i(1) True by blast
  qed
qed

theorem graph_history_witness:
  "\<exists>rc g w0. graph_init (Ptr raw_graph) (if False then GRAPH_DIRECTED else GRAPH_UNDIRECTED) 3
        (script [True, True, False] []) = Some (rc, Ptr g, w0)
    \<and> (no_fail (script [True, True, False] [] :: graph_edge world) \<longrightarrow> rc = 0)
    \<and> (rc = - 1 \<and> live w0 = live (script [True, True, False] [] :: graph_edge world)
       \<or> rc = 0 \<and> (\<exists>rcs g' w1 E p w2.
           run graph_exec [AddEdge 0 1 5, AddEdge 2 2 7, DelEdge 2 2 7, AddEdge 0 9 1] g w0 = Some (rcs, g', w1)
           \<and> explains (graph_spec (False, 3)) [AddEdge 0 1 5, AddEdge 2 2 7, DelEdge 2 2 7, AddEdge 0 9 1] rcs {#} E []
           \<and> graph_holds g' False 3 E
           \<and> graph_destroy (Ptr g') w1 = Some (p, w2) \<and> live w2 = live (script [True, True, False] [] :: graph_edge world)
           \<and> destroyed w2 = destroyed (script [True, True, False] [] :: graph_edge world)))"
  by (rule graph_history) (simp add: PTRDIFF_MAX_def)

text \<open>A triangle with a loop.\<close>

definition graph_example_vec :: "graph_edge list \<Rightarrow> graph_edge vector" where
  "graph_example_vec es = \<lparr>v_capacity = 8, v_size = length es, v_elem_size = 16, v_elem_destroy = False, v_elem_copy = None,
     v_data = Ptr (map Some es @ replicate (8 - length es) None)\<rparr>"

definition graph_example :: graph where
  "graph_example = \<lparr>g_vertex_count = 2, g_edge_count = 2, g_directed = False,
     g_adj_lists = Ptr [Some (graph_example_vec [mk_edge 1 4, mk_edge 0 6, mk_edge 0 6]), Some (graph_example_vec [mk_edge 0 4])]\<rparr>"

definition example_edges :: edges where
  "example_edges = {#(0, 1, 4), (0, 0, 6)#}"

lemma graph_example_holds: "graph_holds graph_example False 2 example_edges"
proof (rule graph_holds_lists)
  have "edge_vec (graph_example_vec es) es" if "length es \<le> 8" for es
    using that by (simp add: edge_vec_def graph_example_vec_def vec_rel_def holds_def vec_conf_def PTRDIFF_MAX_def)
  then show "g_rel graph_example [graph_example_vec [mk_edge 1 4, mk_edge 0 6, mk_edge 0 6], graph_example_vec [mk_edge 0 4]]
      [[mk_edge 1 4, mk_edge 0 6, mk_edge 0 6], [mk_edge 0 4]]"
    by (simp add: g_rel_def graph_example_def adj_of_def PTRDIFF_MAX_def)
  show "lists_ok False 2 example_edges [[mk_edge 1 4, mk_edge 0 6, mk_edge 0 6], [mk_edge 0 4]]"
    by (auto simp: lists_ok_def example_edges_def neighbours_add less_Suc_eq numeral_2_eq_2)
qed (simp_all add: graph_example_def example_edges_def SIZE_MAX_def)

lemma degree_sum:
  "\<forall>(a, b, w) \<in># E. a < n \<and> b < n \<Longrightarrow> (\<Sum>c < n. size (neighbours d E c)) = (if d then size E else 2 * size E)"
proof (induction E)
  case (add e E)
  obtain a b w where e: "e = (a, b, w)" by (cases e)
  have ab: "a < n" "b < n" using add.prems e by simp_all
  have "size (neighbours d (add_mset e E) c) = size (neighbours d E c) + (if c = a then 1 else 0)
      + (if \<not> d \<and> c = b then 1 else 0)" for c
    by (simp add: e neighbours_add)
  then have "(\<Sum>c < n. size (neighbours d (add_mset e E) c))
      = (\<Sum>c < n. size (neighbours d E c)) + 1 + (\<Sum>c < n. if \<not> d \<and> c = b then 1 else 0)"
    using ab by (simp add: sum.distrib)
  also have "(\<Sum>c < n. if \<not> d \<and> c = b then 1 else 0) = (if d then 0 else (1 :: nat))" using ab by simp
  finally show ?case using add by (simp split: if_splits)
qed simp

text \<open>C30: the queries of a graph agree with its multiset of edges: \<open>graph_has_edge\<close> finds an edge in
  the stored direction, in an undirected graph in either; \<open>graph_degree\<close> is the number of entries at
  a vertex and \<open>graph_neighbors\<close> starts a block that holds them; bad vertices give the sentinels; and
  \<open>graph_delete_edge\<close> answers 1, 0 or -1 exactly by whether there is such an edge. The degrees add
  up to the number of edges, twice that number in an undirected graph.\<close>

theorem graph_queries:
  assumes "graph_holds g d n E"
  shows "graph_has_edge (Ptr g) a b = Some (if \<exists>w. (a, b, w) \<in># E \<or> \<not> d \<and> (b, a, w) \<in># E then 1 else 0)
    \<and> graph_degree (Ptr g) a = Some (if a < n then size (neighbours d E a) else GRAPH_INVALID_VERTEX)
    \<and> (\<exists>bl xs. graph_neighbors (Ptr g) a = Some bl
         \<and> (if a < n then holds bl xs \<and> mset xs = neighbours d E a else bl = NULL))
    \<and> (\<exists>q w'. graph_delete_edge (Ptr g) a b wt w = Some (if \<not> (a < n \<and> b < n) then - 1
         else if (a, b, wt) \<in># E \<or> \<not> d \<and> (b, a, wt) \<in># E then 1 else 0, q, w'))
    \<and> (\<Sum>c < n. the (graph_degree (Ptr g) c)) = (if d then size E else 2 * size E)"
proof (intro conjI)
  show "\<exists>q w'. graph_delete_edge (Ptr g) a b wt w = Some (if \<not> (a < n \<and> b < n) then - 1
         else if (a, b, wt) \<in># E \<or> \<not> d \<and> (b, a, wt) \<in># E then 1 else 0, q, w')"
  proof (cases "a < n \<and> b < n")
    case True
    then have ab: "a < n" "b < n" by simp_all
    from graph_delete_edge_ok [OF assms ab, of wt w] show ?thesis using ab by (elim exE conjE disjE) auto
  next
    case False
    then show ?thesis using graph_delete_invalid [OF assms False] by auto
  qed
  have "(\<Sum>c < n. the (graph_degree (Ptr g) c)) = (\<Sum>c < n. size (neighbours d E c))"
    by (rule sum.cong) (simp_all add: graph_degree_ok(1) [OF assms])
  also have "\<dots> = (if d then size E else 2 * size E)"
    by (rule degree_sum) (use assms in \<open>simp add: graph_holds_def\<close>)
  finally show "(\<Sum>c < n. the (graph_degree (Ptr g) c)) = (if d then size E else 2 * size E)" .
qed (rule graph_has_edge_ok [OF assms] graph_degree_ok [OF assms])+

theorem graph_queries_witness:
  "graph_has_edge (Ptr graph_example) 1 0
      = Some (if \<exists>w. (1, 0, w) \<in># example_edges \<or> \<not> False \<and> (0, 1, w) \<in># example_edges then 1 else 0)
    \<and> graph_degree (Ptr graph_example) 1
      = Some (if 1 < (2 :: nat) then size (neighbours False example_edges 1) else GRAPH_INVALID_VERTEX)
    \<and> (\<exists>bl xs. graph_neighbors (Ptr graph_example) 1 = Some bl
         \<and> (if 1 < (2 :: nat) then holds bl xs \<and> mset xs = neighbours False example_edges 1 else bl = NULL))
    \<and> (\<exists>q w'. graph_delete_edge (Ptr graph_example) 1 0 4 (script [] [] :: graph_edge world)
        = Some (if \<not> (1 < (2 :: nat) \<and> 0 < (2 :: nat)) then - 1
           else if (1, 0, 4) \<in># example_edges \<or> \<not> False \<and> (0, 1, 4) \<in># example_edges then 1 else 0, q, w'))
    \<and> (\<Sum>c < 2. the (graph_degree (Ptr graph_example) c))
        = (if False then size example_edges else 2 * size example_edges)"
  by (rule graph_queries [OF graph_example_holds])

text \<open>\<open>graph_copy\<close> builds the copy aside and replaces the destination only when it is complete:
  on success the destination is the same multigraph and its old storage is released, on failure it is
  untouched and the partial copy is released. It fails only when the allocator does.\<close>

theorem graph_copy_same:
  assumes "graph_holds s d n E" and "graph_holds t d0 n0 E0"
  shows "\<exists>rc t' w'. graph_copy False (Ptr t) (Ptr s) w = Some (rc, Ptr t', w') \<and> destroyed w' = destroyed w
    \<and> live w' - graph_own t' = live w - graph_own t \<and> (no_fail w \<longrightarrow> no_fail w' \<and> rc = 0)
    \<and> (rc = 0 \<and> graph_holds t' d n E \<or> rc = - 1 \<and> t' = t)"
proof -
  obtain vs ls where "g_rel t vs ls" using assms(2) by (rule graph_holdsE)
  then show ?thesis by (rule graph_copy_ok [OF assms(1)])
qed

theorem graph_copy_same_witness:
  "\<exists>rc t' w'. graph_copy False (Ptr graph_example) (Ptr graph_example) (script [True, True, False] []) = Some (rc, Ptr t', w')
    \<and> destroyed w' = destroyed (script [True, True, False] [] :: graph_edge world)
    \<and> live w' - graph_own t' = live (script [True, True, False] [] :: graph_edge world) - graph_own graph_example
    \<and> (no_fail (script [True, True, False] [] :: graph_edge world) \<longrightarrow> no_fail w' \<and> rc = 0)
    \<and> (rc = 0 \<and> graph_holds t' False 2 example_edges \<or> rc = - 1 \<and> t' = graph_example)"
  by (rule graph_copy_same [OF graph_example_holds graph_example_holds])

text \<open>\<open>graph_init\<close> multiplies the number of vertices by the 48 bytes of a vector without a check.
  For \<open>2 ^ 60 + 1\<close> vertices the product wraps to 48, the allocation succeeds with room for one vector,
  and the initialisation of the second one writes behind it.\<close>

lemma graph_init_wraps:
  assumes "no_fail w"
  shows "graph_init (Ptr u) GRAPH_DIRECTED (2 ^ 60 + 1) w = None"
proof -
  obtain ok w1 where m: "malloc 48 w = (ok, w1)" by fastforce
  then have ok: ok using malloc_effect(6) [OF m assms] by (simp add: PTRDIFF_MAX_def)
  have wrap: "sz_mul (2 ^ 60 + 1) 48 = 48" by (simp add: sz_mul_def SIZE_MAX_def)
  have "[0..<(2 :: nat) ^ 60 + 1] = 0 # Suc 0 # [Suc (Suc 0)..<2 ^ 60 + 1]"
    using upt_conv_Cons [of 0 "2 ^ 60 + 1"] upt_conv_Cons [of "Suc 0" "2 ^ 60 + 1"] by simp
  then have "init_lists [0..<2 ^ 60 + 1] (buf_new 1) w1 = None"
    by (simp only: init_lists.simps) (simp add: new_edges_ok(1) buf_put_def buf_new_def)
  then show ?thesis using m ok wrap by (simp add: graph_init_def)
qed

end
