(* ===== verification/Store.thy ===== *)
theory Store
  imports Prelude
begin

text \<open>
  Linked structures: the nodes that a component allocates live in a store that extends the world, a
  finite map from addresses to nodes. Reading, writing or freeing an address without a node yields
  \<open>None\<close>. Fresh nodes get addresses that were never used before, so a dangling pointer is always
  caught; there are \<open>SIZE_MAX\<close> of them, and \<open>malloc\<close> fails when they are used up.
\<close>

section \<open>Nodes\<close>

record 'n store =
  cells :: "nat \<Rightarrow> 'n option"
  next_cell :: nat

type_synonym ('a, 'n) nworld = "('a, 'n store) world_scheme"

definition cells_of :: "('a, 'n) nworld \<Rightarrow> nat \<Rightarrow> 'n option" where
  "cells_of w = cells (world.more w)"

definition fresh :: "('a, 'n) nworld \<Rightarrow> nat" where
  "fresh w = next_cell (world.more w)"

definition with_cells :: "(nat \<Rightarrow> 'n option) \<Rightarrow> ('a, 'n) nworld \<Rightarrow> ('a, 'n) nworld" where
  "with_cells C w = world.more_update (cells_update (\<lambda>_. C)) w"

definition new_node :: "size_t \<Rightarrow> 'n \<Rightarrow> ('a, 'n) nworld \<Rightarrow> nat ptr \<times> ('a, 'n) nworld" where
  "new_node bytes n w =
     (if SIZE_MAX \<le> fresh w then (NULL, w)
      else let (ok, w1) = malloc bytes w in
        if \<not> ok then (NULL, w1)
        else (Ptr (fresh w), world.more_update
          (\<lambda>s. s\<lparr>cells := (cells s)(fresh w \<mapsto> n), next_cell := next_cell s + 1\<rparr>) w1))"

definition get_node :: "nat ptr \<Rightarrow> ('a, 'n) nworld \<Rightarrow> 'n option" where
  "get_node p w = (case p of NULL \<Rightarrow> None | Ptr a \<Rightarrow> cells_of w a)"

definition put_node :: "nat ptr \<Rightarrow> 'n \<Rightarrow> ('a, 'n) nworld \<Rightarrow> ('a, 'n) nworld option" where
  "put_node p n w = (case p of NULL \<Rightarrow> None
     | Ptr a \<Rightarrow> if cells_of w a = None then None else Some (with_cells ((cells_of w)(a \<mapsto> n)) w))"

definition free_node :: "nat ptr \<Rightarrow> ('a, 'n) nworld \<Rightarrow> ('a, 'n) nworld option" where
  "free_node p w = (case p of NULL \<Rightarrow> Some w
     | Ptr a \<Rightarrow> if cells_of w a = None then None
         else Some (free_block (with_cells ((cells_of w)(a := None)) w)))"

text \<open>Writing a field of a node; a write through \<open>NULL\<close> or a dangling pointer is a fault.\<close>

definition modify :: "nat ptr \<Rightarrow> ('n \<Rightarrow> 'n) \<Rightarrow> ('v, 'n) nworld \<Rightarrow> ('v, 'n) nworld option" where
  "modify q f w = do { n \<leftarrow> get_node q w; put_node q (f n) w }"

text \<open>Every address in use was handed out before.\<close>

definition store_ok :: "('a, 'n) nworld \<Rightarrow> bool" where
  "store_ok w \<longleftrightarrow> fresh w \<le> SIZE_MAX \<and> (\<forall>a. cells_of w a \<noteq> None \<longrightarrow> a < fresh w)"

section \<open>Effects\<close>

lemma with_cells_simps [simp]:
  "cells_of (with_cells C w) = C" "fresh (with_cells C w) = fresh w" "destroyed (with_cells C w) = destroyed w"
  "live (with_cells C w) = live w" "no_fail (with_cells C w) = no_fail w" "copies (with_cells C w) = copies w"
  "allocs (with_cells C w) = allocs w"
  "with_cells C (with_cells D w) = with_cells C w"
  by (simp_all add: with_cells_def cells_of_def fresh_def no_fail_def comp_def)

lemma with_cells_id [simp]: "with_cells (cells_of w) w = w"
  by (cases w, cases "world.more w") (simp add: with_cells_def cells_of_def)

lemma same_store:
  assumes "world.more w' = world.more w"
  shows "cells_of w' = cells_of w" "fresh w' = fresh w" "store_ok w' = store_ok w"
  using assms by (simp_all add: cells_of_def fresh_def store_ok_def)

lemma store_unchanged [simp]:
  "cells_of (destroy_element d x w) = cells_of w" "fresh (destroy_element d x w) = fresh w"
  "cells_of (free_block w) = cells_of w" "fresh (free_block w) = fresh w"
  "store_ok (destroy_element d x w) = store_ok w" "store_ok (free_block w) = store_ok w"
  using same_store [of "destroy_element d x w" w] same_store [of "free_block w" w] by simp_all

lemma get_node_simps [simp]: "get_node NULL w = None" "get_node (Ptr a) w = cells_of w a"
  by (simp_all add: get_node_def)

lemma put_node_Ptr: "cells_of w a \<noteq> None \<Longrightarrow> put_node (Ptr a) n w = Some (with_cells ((cells_of w)(a \<mapsto> n)) w)"
  by (simp add: put_node_def)

lemma modify_at: "cells_of w a = Some n \<Longrightarrow> modify (Ptr a) f w = Some (with_cells ((cells_of w)(a \<mapsto> f n)) w)"
  by (simp add: modify_def put_node_Ptr)

lemma free_node_Ptr:
  "cells_of w a \<noteq> None \<Longrightarrow> free_node (Ptr a) w = Some (free_block (with_cells ((cells_of w)(a := None)) w))"
  by (simp add: free_node_def)

lemma store_ok_fresh: "store_ok w \<Longrightarrow> cells_of w (fresh w) = None"
  by (auto simp: store_ok_def)

lemma store_ok_with:
  "store_ok w \<Longrightarrow> (\<And>a. C a \<noteq> None \<Longrightarrow> cells_of w a \<noteq> None) \<Longrightarrow> store_ok (with_cells C w)"
  by (auto simp: store_ok_def)

lemma new_node_effect:
  assumes "new_node bytes n w = (p, w')" and "store_ok w"
  shows "destroyed w' = destroyed w" "copies w' = copies w" "store_ok w'"
    "live w' = live w + (if p = NULL then 0 else 1)"
    "no_fail w \<Longrightarrow> no_fail w'" "no_fail w \<Longrightarrow> bytes \<le> PTRDIFF_MAX \<Longrightarrow> fresh w < SIZE_MAX \<Longrightarrow> p \<noteq> NULL"
    "p = NULL \<and> cells_of w' = cells_of w \<and> fresh w' = fresh w
     \<or> p = Ptr (fresh w) \<and> cells_of w' = (cells_of w)(fresh w \<mapsto> n) \<and> fresh w' = Suc (fresh w)"
proof -
  obtain ok w1 where m: "malloc bytes w = (ok, w1)" by fastforce
  note e = malloc_effect [OF m] and s = same_store [OF malloc_effect(7) [OF m]]
  let ?w = "world.more_update (\<lambda>s. s\<lparr>cells := (cells s)(fresh w \<mapsto> n), next_cell := next_cell s + 1\<rparr>) w1"
  have up: "cells_of ?w = (cells_of w1)(fresh w \<mapsto> n)" "fresh ?w = Suc (fresh w1)"
    "destroyed ?w = destroyed w1" "copies ?w = copies w1" "live ?w = live w1" "no_fail ?w = no_fail w1"
    by (simp_all add: cells_of_def fresh_def no_fail_def)
  consider "SIZE_MAX \<le> fresh w" "p = NULL" "w' = w" | "fresh w < SIZE_MAX" "\<not> ok" "p = NULL" "w' = w1"
    | "fresh w < SIZE_MAX" ok "p = Ptr (fresh w)" "w' = ?w"
    using assms(1) m by (auto simp: new_node_def not_le split: if_splits)
  then have all: "destroyed w' = destroyed w \<and> copies w' = copies w \<and> store_ok w'
    \<and> live w' = live w + (if p = NULL then 0 else 1) \<and> (no_fail w \<longrightarrow> no_fail w')
    \<and> (no_fail w \<longrightarrow> bytes \<le> PTRDIFF_MAX \<longrightarrow> fresh w < SIZE_MAX \<longrightarrow> p \<noteq> NULL)
    \<and> (p = NULL \<and> cells_of w' = cells_of w \<and> fresh w' = fresh w
     \<or> p = Ptr (fresh w) \<and> cells_of w' = (cells_of w)(fresh w \<mapsto> n) \<and> fresh w' = Suc (fresh w))"
  proof cases
    case 3
    then show ?thesis using e s up assms(2) by (auto simp: store_ok_def less_Suc_eq)
  qed (use e s assms(2) in auto)
  then show "destroyed w' = destroyed w" "copies w' = copies w" "store_ok w'"
    "live w' = live w + (if p = NULL then 0 else 1)"
    "no_fail w \<Longrightarrow> no_fail w'" "no_fail w \<Longrightarrow> bytes \<le> PTRDIFF_MAX \<Longrightarrow> fresh w < SIZE_MAX \<Longrightarrow> p \<noteq> NULL"
    "p = NULL \<and> cells_of w' = cells_of w \<and> fresh w' = fresh w
     \<or> p = Ptr (fresh w) \<and> cells_of w' = (cells_of w)(fresh w \<mapsto> n) \<and> fresh w' = Suc (fresh w)"
    by blast+
qed

text \<open>A world without nodes, with a plan for the allocator and the copy callback.\<close>

definition lscript :: "bool list \<Rightarrow> bool list \<Rightarrow> ('a, 'n) nworld" where
  "lscript as cs = world.extend (script as cs) \<lparr>cells = Map.empty, next_cell = 0\<rparr>"

lemma lscript_ok [simp]: "store_ok (lscript as cs)"
  by (simp add: store_ok_def lscript_def cells_of_def fresh_def world.defs store.defs)

text \<open>What an operation may do to the nodes outside of its own: nothing.\<close>

definition frame :: "nat set \<Rightarrow> ('a, 'n) nworld \<Rightarrow> ('a, 'n) nworld \<Rightarrow> bool" where
  "frame A w w' \<longleftrightarrow> fresh w \<le> fresh w' \<and> (\<forall>a. a < fresh w \<longrightarrow> a \<notin> A \<longrightarrow> cells_of w' a = cells_of w a)"

lemma frame_refl: "cells_of w' = cells_of w \<Longrightarrow> fresh w' = fresh w \<Longrightarrow> frame A w w'"
  by (simp add: frame_def)

lemma frame_trans: "frame A w w1 \<Longrightarrow> frame B w1 w2 \<Longrightarrow> (\<And>b. b \<in> B \<Longrightarrow> b < fresh w \<Longrightarrow> b \<in> A) \<Longrightarrow> frame A w w2"
  unfolding frame_def by (metis less_le_trans le_trans)

lemma frameD: "frame A w w' \<Longrightarrow> a < fresh w \<Longrightarrow> a \<notin> A \<Longrightarrow> cells_of w' a = cells_of w a"
  by (simp add: frame_def)

lemma frame_fresh: "frame A w w' \<Longrightarrow> fresh w \<le> fresh w'"
  by (simp add: frame_def)

section \<open>What a call does to the world\<close>

text \<open>The cells, the number of blocks and the destroyed values after a call.\<close>

definition becomes ::
    "('v, 'n) nworld \<Rightarrow> ('v, 'n) nworld \<Rightarrow> (nat \<Rightarrow> 'n option) \<Rightarrow> int \<Rightarrow> 'v list \<Rightarrow> bool" where
  "becomes w w' C i ds \<longleftrightarrow> store_ok w' \<and> cells_of w' = C \<and> fresh w \<le> fresh w' \<and> live w' = live w + i
     \<and> destroyed w' = destroyed w @ ds \<and> (no_fail w \<longrightarrow> no_fail w')"

lemma becomesD:
  assumes "becomes w w' C i ds"
  shows "store_ok w'" "cells_of w' = C" "fresh w \<le> fresh w'" "live w' = live w + i" "destroyed w' = destroyed w @ ds"
    "no_fail w \<Longrightarrow> no_fail w'"
  using assms by (simp_all add: becomes_def)

lemma becomes_refl: "store_ok w \<Longrightarrow> becomes w w (cells_of w) 0 []"
  by (simp add: becomes_def)

lemma becomes_trans:
  "becomes w w1 C1 i ds \<Longrightarrow> becomes w1 w2 C2 j es \<Longrightarrow> k = i + j \<Longrightarrow> fs = ds @ es \<Longrightarrow> becomes w w2 C2 k fs"
  by (auto simp: becomes_def)

lemma becomes_modify:
  assumes "store_ok w" "cells_of w a = Some n"
  shows "\<exists>w'. modify (Ptr a) f w = Some w' \<and> becomes w w' ((cells_of w)(a \<mapsto> f n)) 0 [] \<and> fresh w' = fresh w"
  using assms by (auto simp: modify_at becomes_def store_ok_def)

lemma becomes_free_node:
  assumes "store_ok w" "cells_of w a = Some n"
  shows "\<exists>w'. free_node (Ptr a) w = Some w' \<and> becomes w w' ((cells_of w)(a := None)) (- 1) [] \<and> fresh w' = fresh w"
  using assms by (auto simp: free_node_Ptr becomes_def store_ok_def)

lemma becomes_free_block: "store_ok w \<Longrightarrow> becomes w (free_block w) (cells_of w) (- 1) []"
  by (simp add: becomes_def)

lemma becomes_malloc:
  assumes "malloc n w = (ok, w')" "store_ok w"
  shows "becomes w w' (cells_of w) (if ok then 1 else 0) []" "fresh w' = fresh w" "no_fail w \<Longrightarrow> n \<le> PTRDIFF_MAX \<Longrightarrow> ok"
  using malloc_effect [OF assms(1)] same_store [OF malloc_effect(7) [OF assms(1)]] assms(2) by (simp_all add: becomes_def)

lemma becomes_copy:
  assumes "copy_element f x w = (r, w')" "store_ok w"
  shows "becomes w w' (cells_of w) 0 []" "fresh w' = fresh w" "no_fail w \<Longrightarrow> r = Some (copied f x)"
    "r = None \<or> r = Some (copied f x)"
proof -
  note e = copy_element_effect [OF assms(1)] and s = same_store [OF copy_element_effect(6) [OF assms(1)]]
  show "becomes w w' (cells_of w) 0 []" "fresh w' = fresh w" using e(1,2,4) s assms(2) by (simp_all add: becomes_def)
  show "no_fail w \<Longrightarrow> r = Some (copied f x)" by (rule e(5))
  show "r = None \<or> r = Some (copied f x)" using e(3) by (cases r) simp_all
qed

lemma becomes_destroy: "store_ok w \<Longrightarrow> becomes w (destroy_element d x w) (cells_of w) 0 (log_if d [x])"
  by (simp add: becomes_def log_if_def)

lemma becomes_new_node:
  assumes "new_node bytes n w = (p, w')" "store_ok w"
  shows "p = NULL \<and> becomes w w' (cells_of w) 0 [] \<and> fresh w' = fresh w
    \<or> p = Ptr (fresh w) \<and> becomes w w' ((cells_of w)(fresh w \<mapsto> n)) 1 [] \<and> fresh w' = Suc (fresh w)"
    "no_fail w \<Longrightarrow> bytes \<le> PTRDIFF_MAX \<Longrightarrow> fresh w < SIZE_MAX \<Longrightarrow> p \<noteq> NULL"
  using new_node_effect [OF assms] by (auto simp: becomes_def)

lemma becomes_with:
  assumes "becomes w w1 (C(a \<mapsto> r)) i ds"
  shows "becomes w (with_cells (C(a \<mapsto> h)) w1) (C(a \<mapsto> h)) i ds"
  using assms by (auto simp: becomes_def store_ok_def split: if_splits)

lemma world_cells: "cells_of w = C \<Longrightarrow> with_cells C w = w"
  by auto

end
