(* ===== verification/Linkedlist.thy ===== *)
theory Linkedlist
  imports Machine Store
begin

text \<open>
  \<open>src/list.c\<close>: the doubly linked list. Nodes live in the store of the world, every function of the
  file is a definition of the same name, and \<open>list_rel l w ns\<close> says that \<open>l\<close> is a well-formed list
  in \<open>w\<close> whose nodes, from head to tail, have the addresses and hold the values \<open>ns\<close>. The address
  of the data of a node is the address of the node.
\<close>

section \<open>Model\<close>

record 'a list_node =
  n_prev :: "nat ptr"
  n_next :: "nat ptr"
  n_data :: "'a option"

record 'a clist =
  l_size :: size_t
  l_elem_size :: size_t
  l_elem_destroy :: bool
  l_elem_copy :: "('a \<Rightarrow> 'a) option"
  l_head :: "nat ptr"
  l_tail :: "nat ptr"

type_synonym 'a lworld = "('a, 'a list_node) nworld"

definition list_empty :: "'a clist \<Rightarrow> bool" where
  "list_empty l \<longleftrightarrow> l_size l = 0"

definition list_copy_element :: "'a clist \<Rightarrow> 'a \<Rightarrow> 'a lworld \<Rightarrow> 'a option \<times> 'a lworld" where
  "list_copy_element l src w = copy_element (l_elem_copy l) src w"

definition list_destroy_element :: "'a clist \<Rightarrow> 'a \<Rightarrow> 'a lworld \<Rightarrow> 'a lworld" where
  "list_destroy_element l x w = destroy_element (l_elem_destroy l) x w"

text \<open>A node has a header of 16 bytes. When the sum wraps, the data lies outside the block.\<close>

definition list_alloc_node :: "'a clist ptr \<Rightarrow> 'a ptr \<Rightarrow> 'a lworld \<Rightarrow> (nat ptr \<times> 'a lworld) option" where
  "list_alloc_node p elem w =
     (if p = NULL \<or> elem = NULL then Some (NULL, w)
      else let l = pt p; bytes = sz_add 16 (l_elem_size l);
               (node, w1) = new_node bytes \<lparr>n_prev = NULL, n_next = NULL, n_data = None\<rparr> w in
        if node = NULL then Some (NULL, w1)
        else if bytes < 16 + l_elem_size l then None
        else case list_copy_element l (pt elem) w1 of
          (None, w2) \<Rightarrow> do { w3 \<leftarrow> free_node node w2; Some (NULL, w3) }
        | (Some x, w2) \<Rightarrow> do {
            n \<leftarrow> get_node node w2;
            w3 \<leftarrow> put_node node (n\<lparr>n_data := Some x\<rparr>) w2;
            Some (node, w3) })"

text \<open>\<open>q->next = v\<close> or \<open>q->prev = v\<close> when \<open>q\<close> is a node; otherwise the list becomes \<open>l1\<close>.\<close>

definition set_next :: "nat ptr \<Rightarrow> nat ptr \<Rightarrow> 'a clist \<Rightarrow> 'a clist \<Rightarrow> 'a lworld \<Rightarrow> ('a clist \<times> 'a lworld) option" where
  "set_next q v l l1 w =
     (if q \<noteq> NULL then do { b \<leftarrow> get_node q w; w1 \<leftarrow> put_node q (b\<lparr>n_next := v\<rparr>) w; Some (l, w1) }
      else Some (l1, w))"

definition set_prev :: "nat ptr \<Rightarrow> nat ptr \<Rightarrow> 'a clist \<Rightarrow> 'a clist \<Rightarrow> 'a lworld \<Rightarrow> ('a clist \<times> 'a lworld) option" where
  "set_prev q v l l1 w =
     (if q \<noteq> NULL then do { b \<leftarrow> get_node q w; w1 \<leftarrow> put_node q (b\<lparr>n_prev := v\<rparr>) w; Some (l, w1) }
      else Some (l1, w))"

definition list_link_between ::
    "'a clist \<Rightarrow> nat ptr \<Rightarrow> nat ptr \<Rightarrow> nat ptr \<Rightarrow> 'a lworld \<Rightarrow> ('a clist \<times> 'a lworld) option" where
  "list_link_between l node prev next w = do {
     n \<leftarrow> get_node node w;
     w1 \<leftarrow> put_node node (n\<lparr>n_prev := prev, n_next := next\<rparr>) w;
     (l2, w2) \<leftarrow> set_next prev node l (l\<lparr>l_head := node\<rparr>) w1;
     (l3, w3) \<leftarrow> set_prev next node l2 (l2\<lparr>l_tail := node\<rparr>) w2;
     Some (l3\<lparr>l_size := sz_add (l_size l3) 1\<rparr>, w3) }"

definition list_unlink_node :: "'a clist \<Rightarrow> nat ptr \<Rightarrow> 'a lworld \<Rightarrow> ('a clist \<times> 'a lworld) option" where
  "list_unlink_node l node w = do {
     n \<leftarrow> get_node node w;
     (l1, w1) \<leftarrow> set_next (n_prev n) (n_next n) l (l\<lparr>l_head := n_next n\<rparr>) w;
     n1 \<leftarrow> get_node node w1;
     (l2, w2) \<leftarrow> set_prev (n_next n1) (n_prev n1) l1 (l1\<lparr>l_tail := n_prev n1\<rparr>) w1;
     Some (l2\<lparr>l_size := sz_sub (l_size l2) 1\<rparr>, w2) }"

definition list_init ::
    "'a clist ptr \<Rightarrow> size_t \<Rightarrow> bool \<Rightarrow> ('a \<Rightarrow> 'a) option \<Rightarrow> int \<times> 'a clist ptr" where
  "list_init p elem_size elem_destroy elem_copy =
     (if p = NULL \<or> elem_size = 0 then (- 1, p)
      else (0, Ptr \<lparr>l_size = 0, l_elem_size = elem_size, l_elem_destroy = elem_destroy,
        l_elem_copy = elem_copy, l_head = NULL, l_tail = NULL\<rparr>))"

partial_function (option) list_clear_loop :: "'a clist \<Rightarrow> nat ptr \<Rightarrow> 'a lworld \<Rightarrow> 'a lworld option" where
  "list_clear_loop l node w =
     (if node = NULL then Some w
      else do {
        n \<leftarrow> get_node node w;
        x \<leftarrow> n_data n;
        w1 \<leftarrow> free_node node (list_destroy_element l x w);
        list_clear_loop l (n_next n) w1 })"

definition list_clear :: "'a clist ptr \<Rightarrow> 'a lworld \<Rightarrow> ('a clist ptr \<times> 'a lworld) option" where
  "list_clear p w = (case p of NULL \<Rightarrow> Some (NULL, w) | Ptr l \<Rightarrow> do {
     w1 \<leftarrow> list_clear_loop l (l_head l) w;
     Some (Ptr (l\<lparr>l_size := 0, l_head := NULL, l_tail := NULL\<rparr>), w1) })"

definition list_destroy :: "'a clist ptr \<Rightarrow> 'a lworld \<Rightarrow> ('a clist ptr \<times> 'a lworld) option" where
  "list_destroy p w = (case p of NULL \<Rightarrow> Some (NULL, w) | Ptr _ \<Rightarrow> do {
     (q, w1) \<leftarrow> list_clear p w;
     Some (Ptr ((pt q)\<lparr>l_head := NULL, l_tail := NULL\<rparr>), w1) })"

definition raw_list :: "'a clist" where
  "raw_list = \<lparr>l_size = 0, l_elem_size = 0, l_elem_destroy = False, l_elem_copy = None, l_head = NULL, l_tail = NULL\<rparr>"

definition list_new ::
    "size_t \<Rightarrow> bool \<Rightarrow> ('a \<Rightarrow> 'a) option \<Rightarrow> 'a lworld \<Rightarrow> 'a clist ptr \<times> 'a lworld" where
  "list_new elem_size elem_destroy elem_copy w =
     (let (ok, w1) = malloc 48 w in
      if \<not> ok then (NULL, w1)
      else let (rc, p) = list_init (Ptr raw_list) elem_size elem_destroy elem_copy in
        if rc \<noteq> 0 then (NULL, free_block w1) else (p, w1))"

definition list_free :: "'a clist ptr \<Rightarrow> 'a lworld \<Rightarrow> 'a lworld option" where
  "list_free p w = (case p of NULL \<Rightarrow> Some w | Ptr _ \<Rightarrow> do {
     (_, w1) \<leftarrow> list_destroy p w; Some (free_block w1) })"

subsection \<open>Adding and removing\<close>

definition list_push_back :: "'a clist ptr \<Rightarrow> 'a ptr \<Rightarrow> 'a lworld \<Rightarrow> (int \<times> 'a clist ptr \<times> 'a lworld) option" where
  "list_push_back p elem w =
     (if p = NULL \<or> elem = NULL then Some (- 1, p, w)
      else do {
        (node, w1) \<leftarrow> list_alloc_node p elem w;
        if node = NULL then Some (- 1, p, w1)
        else do {
          (l, w2) \<leftarrow> list_link_between (pt p) node (l_tail (pt p)) NULL w1;
          Some (0, Ptr l, w2) } })"

definition list_push_front :: "'a clist ptr \<Rightarrow> 'a ptr \<Rightarrow> 'a lworld \<Rightarrow> (int \<times> 'a clist ptr \<times> 'a lworld) option" where
  "list_push_front p elem w =
     (if p = NULL \<or> elem = NULL then Some (- 1, p, w)
      else do {
        (node, w1) \<leftarrow> list_alloc_node p elem w;
        if node = NULL then Some (- 1, p, w1)
        else do {
          (l, w2) \<leftarrow> list_link_between (pt p) node NULL (l_head (pt p)) w1;
          Some (0, Ptr l, w2) } })"

definition list_erase_node :: "'a clist ptr \<Rightarrow> nat ptr \<Rightarrow> 'a lworld \<Rightarrow> ('a clist ptr \<times> 'a lworld) option" where
  "list_erase_node p node w =
     (if p = NULL \<or> node = NULL then Some (p, w)
      else do {
        (l, w1) \<leftarrow> list_unlink_node (pt p) node w;
        n \<leftarrow> get_node node w1;
        x \<leftarrow> n_data n;
        w2 \<leftarrow> free_node node (list_destroy_element l x w1);
        Some (Ptr l, w2) })"

definition list_pop_back :: "'a clist ptr \<Rightarrow> 'a lworld \<Rightarrow> (int \<times> 'a clist ptr \<times> 'a lworld) option" where
  "list_pop_back p w =
     (if p = NULL \<or> list_empty (pt p) then Some (- 1, p, w)
      else do { (q, w1) \<leftarrow> list_erase_node p (l_tail (pt p)) w; Some (0, q, w1) })"

definition list_pop_front :: "'a clist ptr \<Rightarrow> 'a lworld \<Rightarrow> (int \<times> 'a clist ptr \<times> 'a lworld) option" where
  "list_pop_front p w =
     (if p = NULL \<or> list_empty (pt p) then Some (- 1, p, w)
      else do { (q, w1) \<leftarrow> list_erase_node p (l_head (pt p)) w; Some (0, q, w1) })"

subsection \<open>Positions\<close>

fun follow_next :: "nat \<Rightarrow> nat ptr \<Rightarrow> 'a lworld \<Rightarrow> nat ptr option" where
  "follow_next 0 node w = Some node"
| "follow_next (Suc k) node w = do { n \<leftarrow> get_node node w; follow_next k (n_next n) w }"

fun follow_prev :: "nat \<Rightarrow> nat ptr \<Rightarrow> 'a lworld \<Rightarrow> nat ptr option" where
  "follow_prev 0 node w = Some node"
| "follow_prev (Suc k) node w = do { n \<leftarrow> get_node node w; follow_prev k (n_prev n) w }"

definition list_node_at :: "'a clist ptr \<Rightarrow> size_t \<Rightarrow> 'a lworld \<Rightarrow> nat ptr option" where
  "list_node_at p index w =
     (if p = NULL \<or> l_size (pt p) \<le> index then Some NULL
      else if index \<le> l_size (pt p) div 2 then follow_next index (l_head (pt p)) w
      else follow_prev (l_size (pt p) - 1 - index) (l_tail (pt p)) w)"

definition list_node_at_const :: "'a clist ptr \<Rightarrow> size_t \<Rightarrow> 'a lworld \<Rightarrow> nat ptr option" where
  "list_node_at_const p index w =
     (if p = NULL \<or> l_size (pt p) \<le> index then Some NULL
      else if index \<le> l_size (pt p) div 2 then follow_next index (l_head (pt p)) w
      else follow_prev (l_size (pt p) - 1 - index) (l_tail (pt p)) w)"

definition list_insert_before ::
    "'a clist ptr \<Rightarrow> nat ptr \<Rightarrow> 'a ptr \<Rightarrow> 'a lworld \<Rightarrow> (int \<times> 'a clist ptr \<times> 'a lworld) option" where
  "list_insert_before p node elem w =
     (if p = NULL \<or> node = NULL \<or> elem = NULL then Some (- 1, p, w)
      else do {
        (new, w1) \<leftarrow> list_alloc_node p elem w;
        if new = NULL then Some (- 1, p, w1)
        else do {
          n \<leftarrow> get_node node w1;
          (l, w2) \<leftarrow> list_link_between (pt p) new (n_prev n) node w1;
          Some (0, Ptr l, w2) } })"

definition list_insert_after ::
    "'a clist ptr \<Rightarrow> nat ptr \<Rightarrow> 'a ptr \<Rightarrow> 'a lworld \<Rightarrow> (int \<times> 'a clist ptr \<times> 'a lworld) option" where
  "list_insert_after p node elem w =
     (if p = NULL \<or> node = NULL \<or> elem = NULL then Some (- 1, p, w)
      else do {
        (new, w1) \<leftarrow> list_alloc_node p elem w;
        if new = NULL then Some (- 1, p, w1)
        else do {
          n \<leftarrow> get_node node w1;
          (l, w2) \<leftarrow> list_link_between (pt p) new node (n_next n) w1;
          Some (0, Ptr l, w2) } })"

definition list_insert ::
    "'a clist ptr \<Rightarrow> size_t \<Rightarrow> 'a ptr \<Rightarrow> 'a lworld \<Rightarrow> (int \<times> 'a clist ptr \<times> 'a lworld) option" where
  "list_insert p index elem w =
     (if p = NULL \<or> elem = NULL \<or> l_size (pt p) < index then Some (- 1, p, w)
      else if index = 0 then list_push_front p elem w
      else if index = l_size (pt p) then list_push_back p elem w
      else do {
        node \<leftarrow> list_node_at p index w;
        if node = NULL then Some (- 1, p, w) else list_insert_before p node elem w })"

definition list_set_node ::
    "'a clist ptr \<Rightarrow> nat ptr \<Rightarrow> 'a ptr \<Rightarrow> 'a lworld \<Rightarrow> (int \<times> 'a clist ptr \<times> 'a lworld) option" where
  "list_set_node p node elem w =
     (if p = NULL \<or> node = NULL \<or> elem = NULL then Some (- 1, p, w)
      else let l = pt p; (ok, w1) = malloc (l_elem_size l) w in
        if \<not> ok then Some (- 1, p, w1)
        else case list_copy_element l (pt elem) w1 of
          (None, w2) \<Rightarrow> Some (- 1, p, free_block w2)
        | (Some y, w2) \<Rightarrow> do {
            n \<leftarrow> get_node node w2;
            x \<leftarrow> n_data n;
            w3 \<leftarrow> put_node node (n\<lparr>n_data := Some y\<rparr>) (list_destroy_element l x w2);
            Some (0, p, free_block w3) })"

definition list_set ::
    "'a clist ptr \<Rightarrow> size_t \<Rightarrow> 'a ptr \<Rightarrow> 'a lworld \<Rightarrow> (int \<times> 'a clist ptr \<times> 'a lworld) option" where
  "list_set p index elem w = do {
     node \<leftarrow> list_node_at p index w;
     if node = NULL then Some (- 1, p, w) else list_set_node p node elem w }"

definition list_erase :: "'a clist ptr \<Rightarrow> size_t \<Rightarrow> 'a lworld \<Rightarrow> ('a clist ptr \<times> 'a lworld) option" where
  "list_erase p index w = do {
     node \<leftarrow> list_node_at p index w;
     if node = NULL then Some (p, w) else list_erase_node p node w }"

subsection \<open>Copying\<close>

partial_function (option) list_copy_loop ::
    "nat ptr \<Rightarrow> 'a clist ptr \<Rightarrow> 'a lworld \<Rightarrow> (int \<times> 'a clist ptr \<times> 'a lworld) option" where
  "list_copy_loop node dst w =
     (if node = NULL then Some (0, dst, w)
      else do {
        n \<leftarrow> get_node node w;
        x \<leftarrow> n_data n;
        (rc, dst1, w1) \<leftarrow> list_push_back dst (Ptr x) w;
        if rc \<noteq> 0 then do { (dst2, w2) \<leftarrow> list_clear dst1 w1; Some (- 1, dst2, w2) }
        else do {
          n1 \<leftarrow> get_node node w1;
          list_copy_loop (n_next n1) dst1 w1 } })"

definition list_copy ::
    "bool \<Rightarrow> 'a clist ptr \<Rightarrow> 'a clist ptr \<Rightarrow> 'a lworld \<Rightarrow> (int \<times> 'a clist ptr \<times> 'a lworld) option" where
  "list_copy same dst src w =
     (if dst = NULL \<or> src = NULL then Some (- 1, dst, w)
      else if same then Some (0, dst, w)
      else do {
        (dst1, w1) \<leftarrow> list_destroy dst w;
        let s = pt src;
        let (rc, dst2) = list_init dst1 (l_elem_size s) (l_elem_destroy s) (l_elem_copy s);
        if rc \<noteq> 0 then Some (- 1, dst2, w1)
        else list_copy_loop (l_head s) dst2 w1 })"

definition list_clone :: "'a clist ptr \<Rightarrow> 'a lworld \<Rightarrow> ('a clist ptr \<times> 'a lworld) option" where
  "list_clone src w = (case src of NULL \<Rightarrow> Some (NULL, w) | Ptr s \<Rightarrow>
     let (copy, w1) = list_new (l_elem_size s) (l_elem_destroy s) (l_elem_copy s) w in
     if copy = NULL then Some (NULL, w1)
     else do {
       (rc, copy1, w2) \<leftarrow> list_copy False copy src w1;
       if rc \<noteq> 0 then do { w3 \<leftarrow> list_free copy1 w2; Some (NULL, w3) } else Some (copy1, w2) })"

subsection \<open>Access\<close>

definition list_front_node :: "'a clist ptr \<Rightarrow> nat ptr" where
  "list_front_node p = (if p = NULL then NULL else l_head (pt p))"

definition list_front_node_const :: "'a clist ptr \<Rightarrow> nat ptr" where
  "list_front_node_const p = (if p = NULL then NULL else l_head (pt p))"

definition list_back_node :: "'a clist ptr \<Rightarrow> nat ptr" where
  "list_back_node p = (if p = NULL then NULL else l_tail (pt p))"

definition list_back_node_const :: "'a clist ptr \<Rightarrow> nat ptr" where
  "list_back_node_const p = (if p = NULL then NULL else l_tail (pt p))"

definition list_node_value :: "nat ptr \<Rightarrow> nat ptr" where
  "list_node_value node = (case node of NULL \<Rightarrow> NULL | Ptr a \<Rightarrow> Ptr a)"

definition list_node_value_const :: "nat ptr \<Rightarrow> nat ptr" where
  "list_node_value_const node = (case node of NULL \<Rightarrow> NULL | Ptr a \<Rightarrow> Ptr a)"

definition list_at :: "'a clist ptr \<Rightarrow> size_t \<Rightarrow> 'a lworld \<Rightarrow> nat ptr option" where
  "list_at p index w = do { node \<leftarrow> list_node_at p index w; Some (list_node_value node) }"

definition list_at_const :: "'a clist ptr \<Rightarrow> size_t \<Rightarrow> 'a lworld \<Rightarrow> nat ptr option" where
  "list_at_const p index w = do { node \<leftarrow> list_node_at_const p index w; Some (list_node_value_const node) }"

definition list_front :: "'a clist ptr \<Rightarrow> nat ptr" where
  "list_front p = list_node_value (list_front_node p)"

definition list_front_const :: "'a clist ptr \<Rightarrow> nat ptr" where
  "list_front_const p = list_node_value_const (list_front_node_const p)"

definition list_back :: "'a clist ptr \<Rightarrow> nat ptr" where
  "list_back p = list_node_value (list_back_node p)"

definition list_back_const :: "'a clist ptr \<Rightarrow> nat ptr" where
  "list_back_const p = list_node_value_const (list_back_node_const p)"

text \<open>What \<open>list_get_as\<close> reads through such an address.\<close>

definition list_deref :: "nat ptr \<Rightarrow> 'a lworld \<Rightarrow> 'a option" where
  "list_deref a w = do { n \<leftarrow> get_node a w; n_data n }"

section \<open>Chains of nodes\<close>

text \<open>\<open>seg C p ns n\<close>: the nodes \<open>ns\<close> (address and value) are linked in both directions in the cells
  \<open>C\<close>, with \<open>p\<close> before the first and \<open>n\<close> behind the last.\<close>

fun first :: "(nat \<times> 'a) list \<Rightarrow> nat ptr \<Rightarrow> nat ptr" where
  "first [] n = n"
| "first ((a, x) # ns) n = Ptr a"

definition final :: "nat ptr \<Rightarrow> (nat \<times> 'a) list \<Rightarrow> nat ptr" where
  "final p ns = (if ns = [] then p else Ptr (fst (last ns)))"

fun seg :: "(nat \<Rightarrow> 'a list_node option) \<Rightarrow> nat ptr \<Rightarrow> (nat \<times> 'a) list \<Rightarrow> nat ptr \<Rightarrow> bool" where
  "seg C p [] n \<longleftrightarrow> True"
| "seg C p ((a, x) # ns) n \<longleftrightarrow> C a = Some \<lparr>n_prev = p, n_next = first ns n, n_data = Some x\<rparr> \<and> seg C (Ptr a) ns n"

abbreviation addrs :: "(nat \<times> 'a) list \<Rightarrow> nat set" where
  "addrs ns \<equiv> fst ` set ns"

lemma final_simps [simp]: "final p [] = p" "final p (ns @ [(a, x)]) = Ptr a"
  "final p ((a, x) # ns) = final (Ptr a) ns"
  by (simp_all add: final_def)

lemma first_append [simp]: "first (ms @ ns) n = first ms (first ns n)"
  by (cases ms) auto

lemma final_append [simp]: "final p (ms @ ns) = final (final p ms) ns"
  by (simp add: final_def)

lemma seg_append [simp]: "seg C p (ms @ ns) n \<longleftrightarrow> seg C p ms (first ns n) \<and> seg C (final p ms) ns n"
  by (induction C p ms n rule: seg.induct) auto

lemma seg_cong: "(\<And>a. a \<in> addrs ns \<Longrightarrow> C' a = C a) \<Longrightarrow> seg C' p ns n \<longleftrightarrow> seg C p ns n"
  by (induction ns arbitrary: p) auto

lemma seg_same: "seg C p ns n \<Longrightarrow> (\<And>a. a \<in> addrs ns \<Longrightarrow> C' a = C a) \<Longrightarrow> seg C' p ns n"
  using seg_cong [of ns C' C p n] by blast

lemma seg_used: "seg C p ns n \<Longrightarrow> a \<in> addrs ns \<Longrightarrow> C a \<noteq> None"
  by (induction C p ns n rule: seg.induct) auto

text \<open>Changing the pointer of the last node forward, and of the first node back.\<close>

definition upd_next :: "nat ptr \<Rightarrow> nat ptr \<Rightarrow> (nat \<Rightarrow> 'a list_node option) \<Rightarrow> nat \<Rightarrow> 'a list_node option" where
  "upd_next q v C = (case q of NULL \<Rightarrow> C | Ptr b \<Rightarrow> C(b := map_option (n_next_update (\<lambda>_. v)) (C b)))"

definition upd_prev :: "nat ptr \<Rightarrow> nat ptr \<Rightarrow> (nat \<Rightarrow> 'a list_node option) \<Rightarrow> nat \<Rightarrow> 'a list_node option" where
  "upd_prev q v C = (case q of NULL \<Rightarrow> C | Ptr b \<Rightarrow> C(b := map_option (n_prev_update (\<lambda>_. v)) (C b)))"

lemma upd_other:
  "Ptr a \<noteq> q \<Longrightarrow> upd_next q v C a = C a" "Ptr a \<noteq> q \<Longrightarrow> upd_prev q v C a = C a"
  "upd_next q v C a = None \<longleftrightarrow> C a = None" "upd_prev q v C a = None \<longleftrightarrow> C a = None"
  by (auto simp: upd_next_def upd_prev_def split: ptr.splits)

lemma final_in: "final NULL ns = Ptr b \<Longrightarrow> b \<in> addrs ns"
  by (cases ns rule: rev_cases) (auto simp: final_def)

lemma first_in: "first ns NULL = Ptr b \<Longrightarrow> b \<in> addrs ns"
  by (cases ns) auto

lemma seg_upd_next:
  assumes "seg C p ns n" and "distinct (map fst ns)"
  shows "seg (upd_next (final NULL ns) v C) p ns v"
proof (cases ns rule: rev_cases)
  case (snoc ms m)
  obtain a x where m: "m = (a, x)" by (cases m)
  have "seg (upd_next (Ptr a) v C) p ms (Ptr a) \<longleftrightarrow> seg C p ms (Ptr a)"
    by (rule seg_cong) (use assms(2) snoc m in \<open>auto simp: upd_next_def\<close>)
  then show ?thesis using assms(1) snoc m by (simp add: upd_next_def)
qed simp

lemma seg_upd_prev:
  assumes "seg C p ns n" and "distinct (map fst ns)"
  shows "seg (upd_prev (first ns NULL) v C) v ns n"
proof (cases ns)
  case (Cons m ms)
  obtain a x where m: "m = (a, x)" by (cases m)
  have "seg (upd_prev (Ptr a) v C) (Ptr a) ms n \<longleftrightarrow> seg C (Ptr a) ms n"
    by (rule seg_cong) (use assms(2) Cons m in \<open>auto simp: upd_prev_def\<close>)
  then show ?thesis using assms(1) Cons m by (simp add: upd_prev_def)
qed simp

text \<open>Putting a node between two parts of a chain, and taking one out.\<close>

lemma seg_insert:
  assumes seg: "seg C NULL (ms @ ns) NULL" and dist: "distinct (map fst (ms @ ns))" and new: "a \<notin> addrs (ms @ ns)"
    and C1: "C1 = C(a \<mapsto> \<lparr>n_prev = final NULL ms, n_next = first ns NULL, n_data = Some x\<rparr>)"
  shows "seg (upd_prev (first ns NULL) (Ptr a) (upd_next (final NULL ms) (Ptr a) C1)) NULL (ms @ (a, x) # ns) NULL"
proof -
  let ?C2 = "upd_next (final NULL ms) (Ptr a) C1" and ?f = "first ns NULL"
  have parts: "seg C NULL ms ?f" "seg C (final NULL ms) ns NULL" "distinct (map fst ms)" "distinct (map fst ns)"
    "addrs ms \<inter> addrs ns = {}" "a \<notin> addrs ms" "a \<notin> addrs ns"
    using seg dist new by auto
  have fa: "Ptr b \<noteq> final NULL ms" if "b = a \<or> b \<in> addrs ns" for b using that final_in [of ms b] parts(5,6) by force
  have fi: "Ptr b \<noteq> ?f" if "b = a \<or> b \<in> addrs ms" for b using that first_in [of ns b] parts(5,7) by force
  have "seg C1 NULL ms ?f" by (rule seg_same [OF parts(1)]) (use parts(6) C1 in auto)
  then have "seg ?C2 NULL ms (Ptr a)" using parts(3) by (rule seg_upd_next)
  then have 1: "seg (upd_prev ?f (Ptr a) ?C2) NULL ms (Ptr a)"
    by (rule seg_same) (simp add: upd_other fi)
  have "seg ?C2 (final NULL ms) ns NULL"
    by (rule seg_same [OF parts(2)]) (use parts(7) fa in \<open>auto simp: upd_other C1\<close>)
  then have 2: "seg (upd_prev ?f (Ptr a) ?C2) (Ptr a) ns NULL" using parts(4) by (rule seg_upd_prev)
  have 3: "upd_prev ?f (Ptr a) ?C2 a = Some \<lparr>n_prev = final NULL ms, n_next = ?f, n_data = Some x\<rparr>"
    using fa [of a] fi [of a] by (simp add: upd_other C1)
  show ?thesis using 1 2 3 by simp
qed

lemma seg_remove:
  assumes seg: "seg C NULL (ms @ (a, x) # ns) NULL" and dist: "distinct (map fst (ms @ (a, x) # ns))"
  shows "seg (upd_prev (first ns NULL) (final NULL ms) (upd_next (final NULL ms) (first ns NULL) C)) NULL (ms @ ns) NULL"
    "upd_prev (first ns NULL) (final NULL ms) (upd_next (final NULL ms) (first ns NULL) C) a
       = Some \<lparr>n_prev = final NULL ms, n_next = first ns NULL, n_data = Some x\<rparr>"
proof -
  let ?f = "first ns NULL" and ?l = "final NULL ms"
  let ?C2 = "upd_next ?l ?f C"
  have parts: "seg C NULL ms (Ptr a)" "seg C (Ptr a) ns NULL" "distinct (map fst ms)" "distinct (map fst ns)"
    "addrs ms \<inter> addrs ns = {}" "a \<notin> addrs ms" "a \<notin> addrs ns" "C a = Some \<lparr>n_prev = ?l, n_next = ?f, n_data = Some x\<rparr>"
    using seg dist by auto
  have fa: "Ptr b \<noteq> ?l" if "b = a \<or> b \<in> addrs ns" for b using that final_in [of ms b] parts(5,6) by force
  have fi: "Ptr b \<noteq> ?f" if "b = a \<or> b \<in> addrs ms" for b using that first_in [of ns b] parts(5,7) by force
  have "seg ?C2 NULL ms ?f" using parts(1,3) by (rule seg_upd_next)
  then have 1: "seg (upd_prev ?f ?l ?C2) NULL ms ?f"
    by (rule seg_same) (simp add: upd_other fi)
  have "seg ?C2 (Ptr a) ns NULL"
    by (rule seg_same [OF parts(2)]) (simp add: upd_other fa)
  then have 2: "seg (upd_prev ?f ?l ?C2) ?l ns NULL" using parts(4) by (rule seg_upd_prev)
  show "seg (upd_prev ?f ?l ?C2) NULL (ms @ ns) NULL" using 1 2 by simp
  show "upd_prev ?f ?l ?C2 a = Some \<lparr>n_prev = ?l, n_next = ?f, n_data = Some x\<rparr>"
    using fa [of a] fi [of a] parts(8) by (simp add: upd_other)
qed

section \<open>Invariant\<close>

definition list_rel :: "'a clist \<Rightarrow> 'a lworld \<Rightarrow> (nat \<times> 'a) list \<Rightarrow> bool" where
  "list_rel l w ns \<longleftrightarrow> store_ok w \<and> seg (cells_of w) NULL ns NULL \<and> distinct (map fst ns)
     \<and> l_head l = first ns NULL \<and> l_tail l = final NULL ns \<and> l_size l = length ns
     \<and> 0 < l_elem_size l \<and> 16 + l_elem_size l \<le> SIZE_MAX"

definition list_conf :: "'a clist \<Rightarrow> size_t \<times> bool \<times> ('a \<Rightarrow> 'a) option" where
  "list_conf l = (l_elem_size l, l_elem_destroy l, l_elem_copy l)"

definition list_own :: "'a clist \<Rightarrow> int" where
  "list_own l = int (l_size l)"

lemma list_relD:
  assumes "list_rel l w ns"
  shows "store_ok w" "seg (cells_of w) NULL ns NULL" "distinct (map fst ns)" "l_head l = first ns NULL"
    "l_tail l = final NULL ns" "l_size l = length ns" "0 < l_elem_size l" "16 + l_elem_size l \<le> SIZE_MAX"
  using assms by (simp_all add: list_rel_def)

lemma list_conf_eq [simp]:
  "list_conf l' = list_conf l \<longleftrightarrow> l_elem_size l' = l_elem_size l \<and> l_elem_destroy l' = l_elem_destroy l
     \<and> l_elem_copy l' = l_elem_copy l"
  by (auto simp: list_conf_def)

lemma addrs_below:
  assumes "list_rel l w ns" and "a \<in> addrs ns"
  shows "a < fresh w" "cells_of w a \<noteq> None"
  using list_relD(1,2) [OF assms(1)] seg_used [OF _ assms(2)] by (auto simp: store_ok_def)

text \<open>There are fewer nodes than addresses.\<close>

lemma list_rel_size:
  assumes "list_rel l w ns"
  shows "length ns \<le> fresh w" "length ns \<le> SIZE_MAX"
proof -
  have "addrs ns \<subseteq> {..<fresh w}" using addrs_below(1) [OF assms] by auto
  then have "card (addrs ns) \<le> fresh w" using card_mono [of "{..<fresh w}" "addrs ns"] by simp
  moreover have "card (addrs ns) = length ns" using distinct_card [of "map fst ns"] list_relD(3) [OF assms] by simp
  ultimately show "length ns \<le> fresh w" by simp
  then show "length ns \<le> SIZE_MAX" using list_relD(1) [OF assms] by (simp add: store_ok_def)
qed

lemma list_rel_frame:
  assumes "list_rel l w ns" and "frame A w w'" and "A \<inter> addrs ns = {}" and "store_ok w'"
  shows "list_rel l w' ns"
proof -
  have "cells_of w' a = cells_of w a" if "a \<in> addrs ns" for a
    using frameD [OF assms(2) addrs_below(1) [OF assms(1) that]] assms(3) that by auto
  then have "seg (cells_of w') NULL ns NULL = seg (cells_of w) NULL ns NULL" by (rule seg_cong)
  then show ?thesis using assms(1,4) by (simp add: list_rel_def)
qed

section \<open>Linking and unlinking\<close>

lemma set_next_ok:
  assumes "q = NULL \<or> get_node q w \<noteq> None"
  shows "set_next q v l l1 w = Some (if q = NULL then l1 else l, with_cells (upd_next q v (cells_of w)) w)"
  using assms by (cases q) (auto simp: set_next_def upd_next_def put_node_Ptr)

lemma set_prev_ok:
  assumes "q = NULL \<or> get_node q w \<noteq> None"
  shows "set_prev q v l l1 w = Some (if q = NULL then l1 else l, with_cells (upd_prev q v (cells_of w)) w)"
  using assms by (cases q) (auto simp: set_prev_def upd_prev_def put_node_Ptr)

lemma seg_length:
  assumes "store_ok w" and "seg (cells_of w) p ns n" "distinct (map fst ns)"
  shows "length ns \<le> SIZE_MAX"
proof -
  have "addrs ns \<subseteq> {..<fresh w}" using seg_used [OF assms(2)] assms(1) by (auto simp: store_ok_def)
  then have "card (addrs ns) \<le> fresh w" using card_mono [of "{..<fresh w}" "addrs ns"] by simp
  then show ?thesis using distinct_card [OF assms(3)] assms(1) by (simp add: store_ok_def)
qed

lemma link_ok:
  assumes l: "list_rel l w0 (ms @ ns)" and w: "store_ok w" "cells_of w = (cells_of w0)(a \<mapsto> \<lparr>n_prev = p, n_next = q, n_data = Some x\<rparr>)"
    and a: "a \<notin> addrs (ms @ ns)"
  shows "\<exists>l' w'. list_link_between l (Ptr a) (final NULL ms) (first ns NULL) w = Some (l', w')
    \<and> list_rel l' w' (ms @ (a, x) # ns) \<and> list_conf l' = list_conf l \<and> list_own l' = list_own l + 1
    \<and> destroyed w' = destroyed w \<and> live w' = live w \<and> no_fail w' = no_fail w \<and> fresh w' = fresh w
    \<and> frame (insert a (addrs (ms @ ns))) w w'"
proof -
  note d = list_relD [OF l]
  let ?p = "final NULL ms" and ?n = "first ns NULL"
  let ?C1 = "(cells_of w0)(a \<mapsto> \<lparr>n_prev = ?p, n_next = ?n, n_data = Some x\<rparr>)"
  let ?C2 = "upd_next ?p (Ptr a) ?C1" let ?C3 = "upd_prev ?n (Ptr a) ?C2"
  have used: "cells_of w0 b \<noteq> None" if "b \<in> addrs (ms @ ns)" for b using seg_used [OF d(2) that] .
  have pn: "?p = NULL \<or> get_node ?p (with_cells ?C1 w) \<noteq> None"
    using final_in [of ms] used by (cases ?p) auto
  have nn: "?n = NULL \<or> get_node ?n (with_cells ?C2 w) \<noteq> None"
    using first_in [of ns] used by (cases ?n) (auto simp: upd_other)
  let ?l1 = "if ?p = NULL then l\<lparr>l_head := Ptr a\<rparr> else l"
  let ?l2 = "if ?n = NULL then ?l1\<lparr>l_tail := Ptr a\<rparr> else ?l1"
  let ?l3 = "?l2\<lparr>l_size := sz_add (l_size ?l2) 1\<rparr>"
  have put: "get_node (Ptr a) w = Some \<lparr>n_prev = p, n_next = q, n_data = Some x\<rparr>"
    "put_node (Ptr a) \<lparr>n_prev = ?p, n_next = ?n, n_data = Some x\<rparr> w = Some (with_cells ?C1 w)"
    using w(2) by (simp_all add: put_node_Ptr)
  have run: "list_link_between l (Ptr a) ?p ?n w = Some (?l3, with_cells ?C3 w)"
    using put by (simp add: list_link_between_def set_next_ok [OF pn] set_prev_ok [OF nn] split del: if_split)
  have seg: "seg ?C3 NULL (ms @ (a, x) # ns) NULL" by (rule seg_insert [OF d(2,3) a refl])
  have ok: "store_ok (with_cells ?C3 w)" by (rule store_ok_with [OF w(1)]) (auto simp: upd_other w(2))
  have dist: "distinct (map fst (ms @ (a, x) # ns))" using d(3) a by auto
  have len: "Suc (length (ms @ ns)) \<le> SIZE_MAX" using seg_length [OF ok, of NULL "ms @ (a, x) # ns" NULL] seg dist by simp
  have sz: "l_size ?l2 = length (ms @ ns)" using d(6) by simp
  have hd: "l_head ?l3 = first (ms @ (a, x) # ns) NULL" using d(4) by (cases ms) (auto simp: final_def)
  have tl: "l_tail ?l3 = final NULL (ms @ (a, x) # ns)" using d(5) by (cases ns) (auto simp: final_def)
  have conf: "list_conf ?l3 = list_conf l" by simp
  have rel: "list_rel ?l3 (with_cells ?C3 w) (ms @ (a, x) # ns)"
    unfolding list_rel_def using ok seg dist hd tl sz len d(7,8) by (simp add: list_conf_def)
  have "?C3 b = cells_of w b" if "b \<notin> insert a (addrs (ms @ ns))" for b
  proof -
    have "Ptr b \<noteq> ?p" "Ptr b \<noteq> ?n" "b \<noteq> a" using that final_in [of ms b] first_in [of ns b] by force+
    then show ?thesis using w(2) by (simp add: upd_other)
  qed
  then have fr: "frame (insert a (addrs (ms @ ns))) w (with_cells ?C3 w)" by (simp add: frame_def)
  have own: "list_own ?l3 = list_own l + 1" using sz len d(6) by (simp add: list_own_def)
  show ?thesis by (intro exI [of _ ?l3] exI [of _ "with_cells ?C3 w"] conjI run rel conf own fr) simp_all
qed

lemma unlink_ok:
  assumes l: "list_rel l w (ms @ (a, x) # ns)"
  shows "\<exists>l' w'. list_unlink_node l (Ptr a) w = Some (l', w')
    \<and> list_conf l' = list_conf l \<and> l_size l' = length (ms @ ns) \<and> l_head l' = first (ms @ ns) NULL \<and> l_tail l' = final NULL (ms @ ns)
    \<and> store_ok w' \<and> seg (cells_of w') NULL (ms @ ns) NULL
    \<and> cells_of w' a = Some \<lparr>n_prev = final NULL ms, n_next = first ns NULL, n_data = Some x\<rparr>
    \<and> destroyed w' = destroyed w \<and> live w' = live w \<and> no_fail w' = no_fail w \<and> fresh w' = fresh w
    \<and> frame (addrs (ms @ ns)) w w'"
proof -
  note d = list_relD [OF l]
  let ?p = "final NULL ms" and ?n = "first ns NULL"
  let ?C2 = "upd_next ?p ?n (cells_of w)" let ?C3 = "upd_prev ?n ?p ?C2"
  have used: "cells_of w b \<noteq> None" if "b \<in> addrs (ms @ (a, x) # ns)" for b using seg_used [OF d(2) that] .
  have ca: "cells_of w a = Some \<lparr>n_prev = ?p, n_next = ?n, n_data = Some x\<rparr>" using d(2) by simp
  have other: "Ptr a \<noteq> ?p" using final_in [of ms a] d(3) by force
  have pn: "?p = NULL \<or> get_node ?p w \<noteq> None" using final_in [of ms] used by (cases ?p) auto
  have nn: "?n = NULL \<or> get_node ?n (with_cells ?C2 w) \<noteq> None"
    using first_in [of ns] used by (cases ?n) (auto simp: upd_other)
  let ?l1 = "if ?p = NULL then l\<lparr>l_head := ?n\<rparr> else l"
  let ?l2 = "if ?n = NULL then ?l1\<lparr>l_tail := ?p\<rparr> else ?l1"
  let ?l3 = "?l2\<lparr>l_size := sz_sub (l_size ?l2) 1\<rparr>"
  have ca2: "?C2 a = cells_of w a" using other by (simp add: upd_other)
  have run: "list_unlink_node l (Ptr a) w = Some (?l3, with_cells ?C3 w)"
    using ca ca2 by (simp add: list_unlink_node_def set_next_ok [OF pn] set_prev_ok [OF nn] split del: if_split)
  note rem = seg_remove [OF d(2,3)]
  have ok: "store_ok (with_cells ?C3 w)" by (rule store_ok_with [OF d(1)]) (auto simp: upd_other)
  have sz: "l_size ?l3 = length (ms @ ns)" using d(6) list_rel_size(2) [OF l] by simp
  have hd: "l_head ?l3 = first (ms @ ns) NULL" using d(4) by (cases ms) (auto simp: final_def)
  have tl: "l_tail ?l3 = final NULL (ms @ ns)" using d(5) by (cases ns) (auto simp: final_def)
  have "?C3 b = cells_of w b" if "b \<notin> addrs (ms @ ns)" for b
  proof -
    have "Ptr b \<noteq> ?p" "Ptr b \<noteq> ?n" using that final_in [of ms b] first_in [of ns b] by force+
    then show ?thesis by (simp add: upd_other)
  qed
  then have fr: "frame (addrs (ms @ ns)) w (with_cells ?C3 w)" by (simp add: frame_def)
  show ?thesis
    by (intro exI [of _ ?l3] exI [of _ "with_cells ?C3 w"] conjI run sz hd tl fr ok) (use rem in simp_all)
qed

section \<open>Operations\<close>

lemma alloc_ok:
  assumes w: "store_ok w" and e: "16 + l_elem_size l \<le> SIZE_MAX"
  shows "\<exists>node w'. list_alloc_node (Ptr l) (Ptr x) w = Some (node, w') \<and> store_ok w' \<and> destroyed w' = destroyed w
    \<and> (no_fail w \<longrightarrow> no_fail w' \<and> (16 + l_elem_size l \<le> PTRDIFF_MAX \<and> fresh w < SIZE_MAX \<longrightarrow> node \<noteq> NULL))
    \<and> fresh w \<le> fresh w' \<and> fresh w' \<le> Suc (fresh w)
    \<and> (node = NULL \<and> cells_of w' = cells_of w \<and> live w' = live w
       \<or> node = Ptr (fresh w) \<and> live w' = live w + 1 \<and> cells_of w'
           = (cells_of w)(fresh w \<mapsto> \<lparr>n_prev = NULL, n_next = NULL, n_data = Some (copied (l_elem_copy l) x)\<rparr>))"
proof -
  let ?n = "\<lparr>n_prev = NULL, n_next = NULL, n_data = None\<rparr>"
  obtain node w1 where a: "new_node (16 + l_elem_size l) ?n w = (node, w1)" by fastforce
  note f = new_node_effect [OF a w] and none = store_ok_fresh [OF w]
  show ?thesis
  proof (cases node)
    case NULL
    then have "list_alloc_node (Ptr l) (Ptr x) w = Some (NULL, w1)" using a e by (simp add: list_alloc_node_def)
    then show ?thesis using f NULL by (intro exI [of _ NULL] exI [of _ w1]) auto
  next
    case (Ptr b)
    then have b: "b = fresh w" "cells_of w1 = (cells_of w)(b \<mapsto> ?n)" "fresh w1 = Suc (fresh w)" using f(7) by simp_all
    obtain c w2 where cp: "copy_element (l_elem_copy l) x w1 = (c, w2)" by fastforce
    note g = copy_element_effect [OF cp] and s = same_store [OF copy_element_effect(6) [OF cp]]
    show ?thesis
    proof (cases c)
      case None
      let ?w = "free_block (with_cells ((cells_of w2)(b := None)) w2)"
      have "list_alloc_node (Ptr l) (Ptr x) w = Some (NULL, ?w)"
        using a e Ptr cp None s b by (simp add: list_alloc_node_def list_copy_element_def free_node_Ptr)
      moreover have "cells_of ?w = cells_of w" using s b none by (simp add: fun_eq_iff)
      moreover have "store_ok (with_cells ((cells_of w2)(b := None)) w2)"
        by (rule store_ok_with) (use s f(3) in \<open>auto split: if_splits\<close>)
      moreover have "\<not> no_fail w" using g(5) f(5) None by auto
      ultimately show ?thesis using f(1,4,5) g(1,2,4) s b Ptr by (intro exI [of _ NULL] exI [of _ ?w]) simp
    next
      case (Some y)
      let ?C = "(cells_of w2)(b \<mapsto> \<lparr>n_prev = NULL, n_next = NULL, n_data = Some y\<rparr>)"
      have y: "y = copied (l_elem_copy l) x" using g(3) [OF Some] .
      have "list_alloc_node (Ptr l) (Ptr x) w = Some (Ptr b, with_cells ?C w2)"
        using a e Ptr cp Some s b by (simp add: list_alloc_node_def list_copy_element_def put_node_Ptr)
      moreover have "store_ok (with_cells ?C w2)"
        by (rule store_ok_with) (use s b f(3) in \<open>auto split: if_splits\<close>)
      ultimately show ?thesis using f(1,4,5) g(1,2,4) s b Ptr y by (intro exI [of _ "Ptr b"] exI [of _ "with_cells ?C w2"]) simp
    qed
  qed
qed

text \<open>The common part of all insertions.\<close>

definition insert_between ::
    "'a clist \<Rightarrow> nat ptr \<Rightarrow> nat ptr \<Rightarrow> 'a \<Rightarrow> 'a lworld \<Rightarrow> (int \<times> 'a clist ptr \<times> 'a lworld) option" where
  "insert_between l prev next x w = do {
     (node, w1) \<leftarrow> list_alloc_node (Ptr l) (Ptr x) w;
     if node = NULL then Some (- 1, Ptr l, w1)
     else do {
       (l1, w2) \<leftarrow> list_link_between l node prev next w1;
       Some (0, Ptr l1, w2) } }"

definition list_room :: "'a clist \<Rightarrow> 'a lworld \<Rightarrow> bool" where
  "list_room l w \<longleftrightarrow> 16 + l_elem_size l \<le> PTRDIFF_MAX \<and> fresh w < SIZE_MAX"

lemma insert_ok:
  assumes l: "list_rel l w (ms @ ns)"
  shows "\<exists>rc l' w'. insert_between l (final NULL ms) (first ns NULL) x w = Some (rc, Ptr l', w')
    \<and> list_conf l' = list_conf l \<and> destroyed w' = destroyed w \<and> live w' - list_own l' = live w - list_own l
    \<and> frame (addrs (ms @ ns)) w w' \<and> fresh w' \<le> Suc (fresh w)
    \<and> (no_fail w \<longrightarrow> no_fail w' \<and> (list_room l w \<longrightarrow> rc = 0))
    \<and> (rc = 0 \<and> list_rel l' w' (ms @ (fresh w, copied (l_elem_copy l) x) # ns) \<or> rc = - 1 \<and> l' = l \<and> list_rel l w' (ms @ ns))"
proof -
  note d = list_relD [OF l]
  from alloc_ok [OF d(1,8), of x] obtain node w1 where
    a: "list_alloc_node (Ptr l) (Ptr x) w = Some (node, w1)" "store_ok w1" "destroyed w1 = destroyed w"
    "no_fail w \<longrightarrow> no_fail w1 \<and> (16 + l_elem_size l \<le> PTRDIFF_MAX \<and> fresh w < SIZE_MAX \<longrightarrow> node \<noteq> NULL)"
    "fresh w \<le> fresh w1" "fresh w1 \<le> Suc (fresh w)"
    and res: "node = NULL \<and> cells_of w1 = cells_of w \<and> live w1 = live w
       \<or> node = Ptr (fresh w) \<and> live w1 = live w + 1 \<and> cells_of w1
           = (cells_of w)(fresh w \<mapsto> \<lparr>n_prev = NULL, n_next = NULL, n_data = Some (copied (l_elem_copy l) x)\<rparr>)"
    by (elim exE conjE) (rule that)
  from res show ?thesis
  proof
    assume n: "node = NULL \<and> cells_of w1 = cells_of w \<and> live w1 = live w"
    have fr: "frame (addrs (ms @ ns)) w w1" using n a(5) by (simp add: frame_def)
    have "list_rel l w1 (ms @ ns)" using l a(2) n by (simp add: list_rel_def)
    moreover have "insert_between l (final NULL ms) (first ns NULL) x w = Some (- 1, Ptr l, w1)"
      using a(1) n by (simp add: insert_between_def)
    ultimately show ?thesis
      using fr a(3,4,6) n by (intro exI [of _ "- 1"] exI [of _ l] exI [of _ w1]) (simp add: list_room_def)
  next
    assume n: "node = Ptr (fresh w) \<and> live w1 = live w + 1 \<and> cells_of w1
           = (cells_of w)(fresh w \<mapsto> \<lparr>n_prev = NULL, n_next = NULL, n_data = Some (copied (l_elem_copy l) x)\<rparr>)"
    then have c: "cells_of w1
           = (cells_of w)(fresh w \<mapsto> \<lparr>n_prev = NULL, n_next = NULL, n_data = Some (copied (l_elem_copy l) x)\<rparr>)" by simp
    have new: "fresh w \<notin> addrs (ms @ ns)" using addrs_below(1) [OF l, of "fresh w"] by auto
    from link_ok [OF l a(2) c new] obtain l' w' where
      k: "list_link_between l (Ptr (fresh w)) (final NULL ms) (first ns NULL) w1 = Some (l', w')"
      "list_rel l' w' (ms @ (fresh w, copied (l_elem_copy l) x) # ns)" "list_conf l' = list_conf l"
      "list_own l' = list_own l + 1" "destroyed w' = destroyed w1" "live w' = live w1" "no_fail w' = no_fail w1"
      "fresh w' = fresh w1" "frame (insert (fresh w) (addrs (ms @ ns))) w1 w'"
      by (elim exE conjE) (rule that)
    have fr: "frame (addrs (ms @ ns)) w w'"
      using k(9) c a(5) unfolding frame_def by (auto simp: fun_upd_def split: if_splits)
    have "insert_between l (final NULL ms) (first ns NULL) x w = Some (0, Ptr l', w')"
      using a(1) n k(1) by (simp add: insert_between_def)
    then show ?thesis
      using k(2-8) fr a(3,4,6) n by (intro exI [of _ 0] exI [of _ l'] exI [of _ w']) simp
  qed
qed

lemma erase_node_ok:
  assumes l: "list_rel l w (ms @ (a, x) # ns)"
  shows "\<exists>l' w'. list_erase_node (Ptr l) (Ptr a) w = Some (Ptr l', w') \<and> list_conf l' = list_conf l
    \<and> live w' - list_own l' = live w - list_own l \<and> no_fail w' = no_fail w \<and> frame (addrs (ms @ (a, x) # ns)) w w'
    \<and> destroyed w' = destroyed w @ log_if (l_elem_destroy l) [x] \<and> list_rel l' w' (ms @ ns)"
proof -
  note d = list_relD [OF l]
  from unlink_ok [OF l] obtain l1 w1 where
    u: "list_unlink_node l (Ptr a) w = Some (l1, w1)" "list_conf l1 = list_conf l" "l_size l1 = length (ms @ ns)"
    "l_head l1 = first (ms @ ns) NULL" "l_tail l1 = final NULL (ms @ ns)" "store_ok w1" "seg (cells_of w1) NULL (ms @ ns) NULL"
    "cells_of w1 a = Some \<lparr>n_prev = final NULL ms, n_next = first ns NULL, n_data = Some x\<rparr>"
    "destroyed w1 = destroyed w" "live w1 = live w" "no_fail w1 = no_fail w" "fresh w1 = fresh w" "frame (addrs (ms @ ns)) w w1"
    by (elim exE conjE) (rule that)
  let ?w1 = "destroy_element (l_elem_destroy l) x w1"
  let ?w2 = "free_block (with_cells ((cells_of w1)(a := None)) ?w1)"
  have cf: "l_elem_destroy l1 = l_elem_destroy l" using u(2) by simp
  have run: "list_erase_node (Ptr l) (Ptr a) w = Some (Ptr l1, ?w2)"
    using u(1,8) cf by (simp add: list_erase_node_def list_destroy_element_def free_node_Ptr)
  have dist: "distinct (map fst (ms @ ns))" "a \<notin> addrs (ms @ ns)" using d(3) by auto
  have "seg (cells_of ?w2) NULL (ms @ ns) NULL"
    by (rule seg_same [OF u(7)]) (use dist(2) in auto)
  moreover have "store_ok (with_cells ((cells_of w1)(a := None)) ?w1)"
    by (rule store_ok_with) (use u(6) in \<open>auto split: if_splits\<close>)
  ultimately have rel: "list_rel l1 ?w2 (ms @ ns)"
    unfolding list_rel_def using u(2-5) dist(1) d(7,8) by simp
  have fr: "frame (addrs (ms @ (a, x) # ns)) w ?w2"
    using u(12,13) unfolding frame_def by auto
  show ?thesis
    by (intro exI [of _ l1] exI [of _ ?w2] conjI run u(2) fr rel)
      (use u(3,9-11) d(6) in \<open>simp_all add: list_own_def log_if_def\<close>)
qed

section \<open>Positions\<close>

lemma first_drop: "i < length ns \<Longrightarrow> first (drop i ns) NULL = Ptr (fst (ns ! i))"
  by (cases "ns ! i") (simp add: Cons_nth_drop_Suc [symmetric])

lemma final_take: "i < length ns \<Longrightarrow> final NULL (take (Suc i) ns) = Ptr (fst (ns ! i))"
  by (cases "ns ! i") (simp add: take_Suc_conv_app_nth)

lemma follow_next_ok:
  "seg (cells_of w) p ns NULL \<Longrightarrow> k \<le> length ns \<Longrightarrow> follow_next k (first ns NULL) w = Some (first (drop k ns) NULL)"
proof (induction k arbitrary: p ns)
  case (Suc k)
  then obtain a x ms where "ns = (a, x) # ms" by (cases ns) auto
  then show ?case using Suc by auto
qed simp

lemma follow_prev_ok:
  "seg (cells_of w) NULL ns n \<Longrightarrow> k \<le> length ns \<Longrightarrow>
    follow_prev k (final NULL ns) w = Some (final NULL (take (length ns - k) ns))"
proof (induction k arbitrary: n ns)
  case (Suc k)
  then obtain ms a x where ns: "ns = ms @ [(a, x)]" by (cases ns rule: rev_cases) auto
  then show ?case using Suc.IH [of ms "Ptr a"] Suc.prems by simp
qed simp

lemma list_node_at_ok:
  assumes l: "list_rel l w ns"
  shows "list_node_at (Ptr l) i w = Some (if i < length ns then Ptr (fst (ns ! i)) else NULL)"
proof (cases "i < length ns")
  case True
  note d = list_relD [OF l]
  have n: "length ns - 1 - i \<le> length ns" "length ns - (length ns - 1 - i) = Suc i" using True by simp_all
  show ?thesis
    using True d(4-6) follow_next_ok [OF d(2), of i] follow_prev_ok [OF d(2) n(1)] first_drop [OF True] final_take [OF True] n(2)
    by (simp add: list_node_at_def)
qed (use list_relD(6) [OF l] in \<open>simp add: list_node_at_def\<close>)

lemma list_deref_ok:
  assumes l: "list_rel l w (ms @ (a, x) # ns)"
  shows "list_deref (Ptr a) w = Some x"
  using list_relD(2) [OF l] by (simp add: list_deref_def)

lemma split_at: "i < length ns \<Longrightarrow> ns = take i ns @ (fst (ns ! i), snd (ns ! i)) # drop (Suc i) ns"
  by (simp add: id_take_nth_drop)

section \<open>All insertions\<close>

lemma push_back_eq: "list_rel l w ns \<Longrightarrow>
    list_push_back (Ptr l) (Ptr x) w = insert_between l (final NULL ns) (first ([] :: (nat \<times> 'a) list) NULL) x w"
  for x :: 'a
  by (simp add: list_push_back_def insert_between_def list_relD cong: if_cong)

lemma push_front_eq: "list_rel l w ns \<Longrightarrow>
    list_push_front (Ptr l) (Ptr x) w = insert_between l (final NULL ([] :: (nat \<times> 'a) list)) (first ns NULL) x w"
  for x :: 'a
  by (simp add: list_push_front_def insert_between_def list_relD cong: if_cong)

text \<open>The neighbours of a node are read after the allocation, which does not change them.\<close>

lemma alloc_get:
  assumes l: "list_rel l w (ms @ (a, y) # ns)" and run: "list_alloc_node (Ptr l) (Ptr x) w = Some (node, w1)"
  shows "get_node (Ptr a) w1 = Some \<lparr>n_prev = final NULL ms, n_next = first ns NULL, n_data = Some y\<rparr>"
proof -
  note d = list_relD [OF l]
  have "a \<in> addrs (ms @ (a, y) # ns)" by simp
  then have "a < fresh w" by (rule addrs_below(1) [OF l])
  moreover have "cells_of w1 = cells_of w \<or> (\<exists>n. cells_of w1 = (cells_of w)(fresh w \<mapsto> n))"
    using alloc_ok [OF d(1,8), of x] run by auto
  ultimately show ?thesis using d(2) by auto
qed

lemma insert_before_eq:
  assumes l: "list_rel l w (ms @ (a, y) # ns)"
  shows "list_insert_before (Ptr l) (Ptr a) (Ptr x) w = insert_between l (final NULL ms) (first ((a, y) # ns) NULL) x w"
proof -
  obtain node w1 where r: "list_alloc_node (Ptr l) (Ptr x) w = Some (node, w1)"
    using alloc_ok [OF list_relD(1,8) [OF l], of x] by blast
  show ?thesis using r alloc_get [OF l r] by (simp add: list_insert_before_def insert_between_def)
qed

lemma insert_after_eq:
  assumes l: "list_rel l w (ms @ (a, y) # ns)"
  shows "list_insert_after (Ptr l) (Ptr a) (Ptr x) w = insert_between l (final NULL (ms @ [(a, y)])) (first ns NULL) x w"
proof -
  obtain node w1 where r: "list_alloc_node (Ptr l) (Ptr x) w = Some (node, w1)"
    using alloc_ok [OF list_relD(1,8) [OF l], of x] by blast
  show ?thesis using r alloc_get [OF l r] by (simp add: list_insert_after_def insert_between_def)
qed

lemma list_insert_eq:
  assumes l: "list_rel l w ns" and i: "i \<le> length ns"
  shows "list_insert (Ptr l) i (Ptr x) w = insert_between l (final NULL (take i ns)) (first (drop i ns) NULL) x w"
proof -
  have sz: "l_size l = length ns" using list_relD(6) [OF l] .
  consider "i = 0" | "i = length ns" "0 < i" | "0 < i" "i < length ns" using i by linarith
  then show ?thesis
  proof cases
    case 1
    then show ?thesis using push_front_eq [OF l] by (simp add: list_insert_def)
  next
    case 2
    then show ?thesis using push_back_eq [OF l] sz by (simp add: list_insert_def)
  next
    case 3
    have "list_rel l w (take i ns @ (fst (ns ! i), snd (ns ! i)) # drop (Suc i) ns)" using l split_at [OF 3(2)] by simp
    from insert_before_eq [OF this, of x] show ?thesis
      using 3 sz list_node_at_ok [OF l, of i] first_drop [OF 3(2)] Cons_nth_drop_Suc [OF 3(2)]
      by (simp add: list_insert_def)
  qed
qed

section \<open>Replacing and clearing\<close>

lemma set_node_ok:
  assumes l: "list_rel l w (ms @ (a, x) # ns)"
  shows "\<exists>rc w'. list_set_node (Ptr l) (Ptr a) (Ptr y) w = Some (rc, Ptr l, w') \<and> live w' = live w
    \<and> frame {a} w w' \<and> (no_fail w \<longrightarrow> no_fail w' \<and> (l_elem_size l \<le> PTRDIFF_MAX \<longrightarrow> rc = 0))
    \<and> (rc = 0 \<and> list_rel l w' (ms @ (a, copied (l_elem_copy l) y) # ns) \<and> destroyed w' = destroyed w @ log_if (l_elem_destroy l) [x]
       \<or> rc = - 1 \<and> list_rel l w' (ms @ (a, x) # ns) \<and> destroyed w' = destroyed w)"
proof -
  note d = list_relD [OF l]
  obtain ok w1 where m: "malloc (l_elem_size l) w = (ok, w1)" by fastforce
  obtain c w2 where cp: "copy_element (l_elem_copy l) y w1 = (c, w2)" by fastforce
  note e = malloc_effect(1,3,5,6) [OF m] and s = same_store [OF malloc_effect(7) [OF m]]
  note f = copy_element_effect(1,2,4,5) [OF cp] and t = same_store [OF copy_element_effect(6) [OF cp]]
  let ?n = "\<lparr>n_prev = final NULL ms, n_next = first ns NULL, n_data = Some x\<rparr>"
  have ca: "cells_of w a = Some ?n" using d(2) by simp
  have keep: "list_rel l v (ms @ (a, x) # ns)" if "cells_of v = cells_of w" "store_ok v" for v
    using l that by (simp add: list_rel_def)
  consider "\<not> ok" | ok "c = None" | z where ok "c = Some z" by (cases c) auto
  then show ?thesis
  proof cases
    case 1
    then have "list_set_node (Ptr l) (Ptr a) (Ptr y) w = Some (- 1, Ptr l, w1)" using m by (simp add: list_set_node_def)
    then show ?thesis using e 1 s keep [of w1] d(1) by (auto simp: frame_def)
  next
    case 2
    then have "list_set_node (Ptr l) (Ptr a) (Ptr y) w = Some (- 1, Ptr l, free_block w2)"
      using m cp by (simp add: list_set_node_def list_copy_element_def)
    then show ?thesis using e f 2 s t keep [of "free_block w2"] d(1) by (auto simp: frame_def)
  next
    case 3
    have z: "z = copied (l_elem_copy l) y" using copy_element_effect(3) [OF cp 3(2)] .
    let ?w2 = "destroy_element (l_elem_destroy l) x w2"
    let ?C = "(cells_of w2)(a \<mapsto> ?n\<lparr>n_data := Some z\<rparr>)"
    let ?w3 = "free_block (with_cells ?C ?w2)"
    have c2: "cells_of ?w2 = cells_of w" using s t by simp
    have run: "list_set_node (Ptr l) (Ptr a) (Ptr y) w = Some (0, Ptr l, ?w3)"
      using 3 m cp ca c2 by (simp add: list_set_node_def list_copy_element_def list_destroy_element_def put_node_Ptr)
    have ok: "store_ok (with_cells ?C ?w2)"
      by (rule store_ok_with) (use s t d(1) ca in \<open>auto split: if_splits\<close>)
    have "seg ?C NULL (ms @ (a, z) # ns) NULL"
      using d(2,3) c2 seg_cong [of ms ?C "cells_of w" NULL "Ptr a"] seg_cong [of ns ?C "cells_of w" "Ptr a" NULL] by force
    moreover have "map fst (ms @ (a, z) # ns) = map fst (ms @ (a, x) # ns)" by simp
    ultimately have rel: "list_rel l ?w3 (ms @ (a, z) # ns)"
      unfolding list_rel_def using d ok by (simp add: final_def split: if_splits)
    show ?thesis
      using run rel e f 3 z s t by (intro exI [of _ 0] exI [of _ ?w3]) (simp add: frame_def log_if_def)
  qed
qed

lemma clear_loop_ok:
  assumes "store_ok w" and "seg (cells_of w) p ns NULL" and "distinct (map fst ns)"
  shows "\<exists>w'. list_clear_loop l (first ns NULL) w = Some w' \<and> store_ok w' \<and> live w' = live w - int (length ns)
    \<and> destroyed w' = destroyed w @ log_if (l_elem_destroy l) (map snd ns) \<and> no_fail w' = no_fail w
    \<and> fresh w' = fresh w \<and> frame (addrs ns) w w'"
  using assms
proof (induction ns arbitrary: p w)
  case Nil
  then show ?case by (subst list_clear_loop.simps) (simp add: frame_refl)
next
  case (Cons m ns)
  obtain a x where m: "m = (a, x)" by (cases m)
  have ca: "cells_of w a = Some \<lparr>n_prev = p, n_next = first ns NULL, n_data = Some x\<rparr>" using Cons.prems(2) m by simp
  let ?w = "destroy_element (l_elem_destroy l) x w"
  let ?v = "free_block (with_cells ((cells_of w)(a := None)) ?w)"
  have "store_ok (with_cells ((cells_of w)(a := None)) ?w)"
    by (rule store_ok_with) (use Cons.prems(1) in \<open>auto split: if_splits\<close>)
  then have ok: "store_ok ?v" by simp
  have "seg (cells_of w) (Ptr a) ns NULL" using Cons.prems(2) m by simp
  then have sg: "seg (cells_of ?v) (Ptr a) ns NULL" by (rule seg_same) (use Cons.prems(3) m in auto)
  have dist: "distinct (map fst ns)" using Cons.prems(3) by simp
  from Cons.IH [OF ok sg dist] obtain w' where
    r: "list_clear_loop l (first ns NULL) ?v = Some w'" "store_ok w'" "live w' = live ?v - int (length ns)"
    "destroyed w' = destroyed ?v @ log_if (l_elem_destroy l) (map snd ns)" "no_fail w' = no_fail ?v" "fresh w' = fresh ?v" "frame (addrs ns) ?v w'"
    by (elim exE conjE) (rule that)
  have "list_clear_loop l (first (m # ns) NULL) w = Some w'"
    using ca r(1) m by (subst list_clear_loop.simps) (simp add: list_destroy_element_def free_node_Ptr)
  moreover have "frame (addrs (m # ns)) w w'" using r(7) m by (auto simp: frame_def)
  ultimately show ?case using r(2-6) m by (intro exI [of _ w']) (simp add: log_if_def)
qed

lemma list_clear_ok:
  assumes l: "list_rel l w ns"
  shows "\<exists>l' w'. list_clear (Ptr l) w = Some (Ptr l', w') \<and> list_conf l' = list_conf l \<and> list_rel l' w' [] \<and> list_own l' = 0
    \<and> live w' = live w - list_own l \<and> destroyed w' = destroyed w @ log_if (l_elem_destroy l) (map snd ns)
    \<and> no_fail w' = no_fail w \<and> fresh w' = fresh w \<and> frame (addrs ns) w w'"
proof -
  note d = list_relD [OF l]
  let ?l = "l\<lparr>l_size := 0, l_head := NULL, l_tail := NULL\<rparr>"
  from clear_loop_ok [OF d(1-3), of l] obtain w' where
    c: "list_clear_loop l (first ns NULL) w = Some w'" "store_ok w'" "live w' = live w - int (length ns)"
    "destroyed w' = destroyed w @ log_if (l_elem_destroy l) (map snd ns)" "no_fail w' = no_fail w" "fresh w' = fresh w" "frame (addrs ns) w w'"
    by (elim exE conjE) (rule that)
  have "list_rel ?l w' []" using c(2) d(7,8) by (simp add: list_rel_def)
  moreover have "list_clear (Ptr l) w = Some (Ptr ?l, w')" using c(1) d(4) by (simp add: list_clear_def)
  ultimately show ?thesis
    using c(3-7) d(6) by (intro exI [of _ ?l] exI [of _ w']) (simp add: list_own_def)
qed

lemma list_destroy_ok:
  assumes l: "list_rel l w ns"
  shows "\<exists>l' w'. list_destroy (Ptr l) w = Some (Ptr l', w') \<and> list_conf l' = list_conf l \<and> list_rel l' w' [] \<and> list_own l' = 0
    \<and> live w' = live w - list_own l \<and> destroyed w' = destroyed w @ log_if (l_elem_destroy l) (map snd ns)
    \<and> no_fail w' = no_fail w \<and> fresh w' = fresh w \<and> frame (addrs ns) w w'"
proof -
  from list_clear_ok [OF l] obtain l1 w' where
    c: "list_clear (Ptr l) w = Some (Ptr l1, w')" "list_conf l1 = list_conf l" "list_rel l1 w' []" "list_own l1 = 0"
    "live w' = live w - list_own l" "destroyed w' = destroyed w @ log_if (l_elem_destroy l) (map snd ns)"
    "no_fail w' = no_fail w" "fresh w' = fresh w" "frame (addrs ns) w w'"
    by (elim exE conjE) (rule that)
  have "l_head l1 = NULL" "l_tail l1 = NULL" using list_relD(4,5) [OF c(3)] by simp_all
  then have "list_destroy (Ptr l) w = Some (Ptr l1, w')" using c(1) by (cases l1) (simp add: list_destroy_def)
  then show ?thesis using c(2-9) by (intro exI [of _ l1] exI [of _ w']) simp
qed

lemma list_init_ok:
  assumes "0 < e" and "16 + e \<le> SIZE_MAX" and "store_ok w"
  shows "\<exists>l. list_init (Ptr u) e d c = (0, Ptr l) \<and> list_rel l w [] \<and> list_conf l = (e, d, c) \<and> list_own l = 0"
  using assms by (simp add: list_init_def list_rel_def list_conf_def list_own_def)

section \<open>Histories\<close>

datatype 'a list_op = LPushBack 'a | LPushFront 'a | LPopBack | LPopFront | LInsert nat 'a | LInsertBefore nat 'a
  | LInsertAfter nat 'a | LSet nat 'a | LErase nat | LClear

text \<open>The operations on nodes are called with the node that \<open>list_node_at\<close> gives for an index.\<close>

definition list_exec :: "'a list_op \<Rightarrow> 'a clist \<Rightarrow> 'a lworld \<Rightarrow> (int \<times> 'a clist \<times> 'a lworld) option" where
  "list_exec op l w = (case op of
       LPushBack x \<Rightarrow> map_option (\<lambda>(rc, p, w1). (rc, pt p, w1)) (list_push_back (Ptr l) (Ptr x) w)
     | LPushFront x \<Rightarrow> map_option (\<lambda>(rc, p, w1). (rc, pt p, w1)) (list_push_front (Ptr l) (Ptr x) w)
     | LPopBack \<Rightarrow> map_option (\<lambda>(rc, p, w1). (rc, pt p, w1)) (list_pop_back (Ptr l) w)
     | LPopFront \<Rightarrow> map_option (\<lambda>(rc, p, w1). (rc, pt p, w1)) (list_pop_front (Ptr l) w)
     | LInsert i x \<Rightarrow> map_option (\<lambda>(rc, p, w1). (rc, pt p, w1)) (list_insert (Ptr l) i (Ptr x) w)
     | LInsertBefore i x \<Rightarrow> do { node \<leftarrow> list_node_at (Ptr l) i w;
         map_option (\<lambda>(rc, p, w1). (rc, pt p, w1)) (list_insert_before (Ptr l) node (Ptr x) w) }
     | LInsertAfter i x \<Rightarrow> do { node \<leftarrow> list_node_at (Ptr l) i w;
         map_option (\<lambda>(rc, p, w1). (rc, pt p, w1)) (list_insert_after (Ptr l) node (Ptr x) w) }
     | LSet i x \<Rightarrow> map_option (\<lambda>(rc, p, w1). (rc, pt p, w1)) (list_set (Ptr l) i (Ptr x) w)
     | LErase i \<Rightarrow> map_option (\<lambda>(p, w1). (0, pt p, w1)) (list_erase (Ptr l) i w)
     | LClear \<Rightarrow> map_option (\<lambda>(p, w1). (0, pt p, w1)) (list_clear (Ptr l) w))"

fun list_ideal :: "('a \<Rightarrow> 'a) \<Rightarrow> 'a list_op \<Rightarrow> 'a list \<Rightarrow> int \<times> 'a list \<times> 'a list" where
  "list_ideal f (LPushBack x) xs = (0, xs @ [f x], [])"
| "list_ideal f (LPushFront x) xs = (0, f x # xs, [])"
| "list_ideal f LPopBack xs = (if xs = [] then (- 1, [], []) else (0, butlast xs, [last xs]))"
| "list_ideal f LPopFront xs = (if xs = [] then (- 1, [], []) else (0, tl xs, [hd xs]))"
| "list_ideal f (LInsert i x) xs = (if i \<le> length xs then (0, take i xs @ f x # drop i xs, []) else (- 1, xs, []))"
| "list_ideal f (LInsertBefore i x) xs = (if i < length xs then (0, take i xs @ f x # drop i xs, []) else (- 1, xs, []))"
| "list_ideal f (LInsertAfter i x) xs =
     (if i < length xs then (0, take (Suc i) xs @ f x # drop (Suc i) xs, []) else (- 1, xs, []))"
| "list_ideal f (LSet i x) xs = (if i < length xs then (0, take i xs @ f x # drop (Suc i) xs, [xs ! i]) else (- 1, xs, []))"
| "list_ideal f (LErase i) xs = (if i < length xs then (0, take i xs @ drop (Suc i) xs, [xs ! i]) else (0, xs, []))"
| "list_ideal f LClear xs = (0, [], xs)"

definition list_spec ::
    "size_t \<times> bool \<times> ('a \<Rightarrow> 'a) option \<Rightarrow> 'a list_op \<Rightarrow> 'a list \<Rightarrow> int \<Rightarrow> 'a list \<Rightarrow> 'a list \<Rightarrow> bool" where
  "list_spec k op xs rc ys ds \<longleftrightarrow> list_ideal (copied (snd (snd k))) op xs = (rc, ys, ds)"

fun list_stores :: "size_t \<times> bool \<times> ('a \<Rightarrow> 'a) option \<Rightarrow> 'a list_op \<Rightarrow> 'a multiset" where
  "list_stores k (LPushBack x) = {#copied (snd (snd k)) x#}"
| "list_stores k (LPushFront x) = {#copied (snd (snd k)) x#}"
| "list_stores k (LInsert i x) = {#copied (snd (snd k)) x#}"
| "list_stores k (LInsertBefore i x) = {#copied (snd (snd k)) x#}"
| "list_stores k (LInsertAfter i x) = {#copied (snd (snd k)) x#}"
| "list_stores k (LSet i x) = {#copied (snd (snd k)) x#}"
| "list_stores k _ = {#}"

lemma list_ideal_conserves:
  assumes "list_ideal (copied (snd (snd k))) op xs = (rc, ys, ds)"
  shows "mset xs + (if rc = 0 then list_stores k op else {#}) = mset ys + mset ds"
proof (cases op)
  case LPopBack
  then show ?thesis using assms by (cases xs rule: rev_cases) auto
next
  case LPopFront
  then show ?thesis using assms by (cases xs) auto
qed (use assms in \<open>auto simp: mset_take_drop mset_take_drop_Suc split: if_splits\<close>)

definition list_values :: "'a clist \<Rightarrow> 'a lworld \<Rightarrow> 'a list \<Rightarrow> bool" where
  "list_values l w xs \<longleftrightarrow> (\<exists>ns. list_rel l w ns \<and> map snd ns = xs)"

text \<open>What a step does to the values, in the form of the contract.\<close>

definition list_step ::
    "'a clist \<Rightarrow> 'a lworld \<Rightarrow> 'a list \<Rightarrow> 'a list \<Rightarrow> 'a list \<Rightarrow> (int \<times> 'a clist ptr \<times> 'a lworld) option \<Rightarrow> bool" where
  "list_step l w xs ys ds r \<longleftrightarrow> (\<exists>rc l' w'. r = Some (rc, Ptr l', w') \<and> list_conf l' = list_conf l
     \<and> live w' - list_own l' = live w - list_own l
     \<and> (rc = 0 \<and> list_values l' w' ys \<and> destroyed w' = destroyed w @ log_if (l_elem_destroy l) ds
        \<or> rc = - 1 \<and> list_values l' w' xs \<and> destroyed w' = destroyed w))"

lemma insert_step:
  assumes l: "list_rel l w (ms @ ns)"
  shows "list_step l w (map snd (ms @ ns)) (map snd ms @ copied (l_elem_copy l) x # map snd ns) []
    (insert_between l (final NULL ms) (first ns NULL) x w)"
proof -
  from insert_ok [OF l, of x] obtain rc l' w' where
    i: "insert_between l (final NULL ms) (first ns NULL) x w = Some (rc, Ptr l', w')" "list_conf l' = list_conf l"
    "destroyed w' = destroyed w" "live w' - list_own l' = live w - list_own l" "frame (addrs (ms @ ns)) w w'"
    "fresh w' \<le> Suc (fresh w)" "no_fail w \<longrightarrow> no_fail w' \<and> (list_room l w \<longrightarrow> rc = 0)"
    and res: "rc = 0 \<and> list_rel l' w' (ms @ (fresh w, copied (l_elem_copy l) x) # ns)
      \<or> rc = - 1 \<and> l' = l \<and> list_rel l w' (ms @ ns)"
    by (elim exE conjE) (rule that)
  from res have "rc = 0 \<and> list_values l' w' (map snd ms @ copied (l_elem_copy l) x # map snd ns)
      \<or> rc = - 1 \<and> list_values l' w' (map snd (ms @ ns))"
    unfolding list_values_def by (elim disjE) force+
  then show ?thesis unfolding list_step_def
    using i(1-4) by (intro exI [of _ rc] exI [of _ l'] exI [of _ w']) simp
qed

lemma erase_step:
  assumes l: "list_rel l w (ms @ (a, x) # ns)"
  shows "list_step l w (map snd (ms @ (a, x) # ns)) (map snd (ms @ ns)) [x]
    (map_option (\<lambda>(q, w1). (0, q, w1)) (list_erase_node (Ptr l) (Ptr a) w))"
proof -
  from erase_node_ok [OF l] obtain l' w' where
    e: "list_erase_node (Ptr l) (Ptr a) w = Some (Ptr l', w')" "list_conf l' = list_conf l"
    "live w' - list_own l' = live w - list_own l" "no_fail w' = no_fail w" "frame (addrs (ms @ (a, x) # ns)) w w'"
    "destroyed w' = destroyed w @ log_if (l_elem_destroy l) [x]" "list_rel l' w' (ms @ ns)"
    by (elim exE conjE) (rule that)
  have "list_values l' w' (map snd (ms @ ns))" using e(7) unfolding list_values_def by blast
  then show ?thesis unfolding list_step_def
    using e(1-3,6) by (intro exI [of _ 0] exI [of _ l'] exI [of _ w']) simp
qed

lemma replace_step:
  assumes l: "list_rel l w (ms @ (a, x) # ns)"
  shows "list_step l w (map snd (ms @ (a, x) # ns)) (map snd ms @ copied (l_elem_copy l) y # map snd ns) [x]
    (list_set_node (Ptr l) (Ptr a) (Ptr y) w)"
proof -
  from set_node_ok [OF l, of y] obtain rc w' where
    s: "list_set_node (Ptr l) (Ptr a) (Ptr y) w = Some (rc, Ptr l, w')" "live w' = live w" "frame {a} w w'"
    "no_fail w \<longrightarrow> no_fail w' \<and> (l_elem_size l \<le> PTRDIFF_MAX \<longrightarrow> rc = 0)"
    and res: "rc = 0 \<and> list_rel l w' (ms @ (a, copied (l_elem_copy l) y) # ns) \<and> destroyed w' = destroyed w @ log_if (l_elem_destroy l) [x]
       \<or> rc = - 1 \<and> list_rel l w' (ms @ (a, x) # ns) \<and> destroyed w' = destroyed w"
    by (elim exE conjE) (rule that)
  from res have "rc = 0 \<and> list_values l w' (map snd ms @ copied (l_elem_copy l) y # map snd ns) \<and> destroyed w' = destroyed w @ log_if (l_elem_destroy l) [x]
      \<or> rc = - 1 \<and> list_values l w' (map snd (ms @ (a, x) # ns)) \<and> destroyed w' = destroyed w"
    unfolding list_values_def by (elim disjE) force+
  then show ?thesis unfolding list_step_def
    using s(1,2) by (intro exI [of _ rc] exI [of _ l] exI [of _ w']) simp
qed

text \<open>Every operation of the machine is one of these steps, or does nothing.\<close>

lemma list_step_law:
  assumes "list_step l w xs ys ds r" and "list_spec (list_conf l) op xs 0 ys ds"
    and "list_exec op l w = map_option (\<lambda>(rc, p, w1). (rc, pt p, w1)) r"
  shows "\<exists>rc l' w'. list_exec op l w = Some (rc, l', w') \<and> list_conf l' = list_conf l
    \<and> live w' - list_own l' = live w - list_own l
    \<and> ((\<exists>ys ds. list_spec (list_conf l) op xs rc ys ds \<and> list_values l' w' ys
          \<and> destroyed w' = destroyed w @ log_if (l_elem_destroy l) ds)
       \<or> rc = - 1 \<and> list_values l' w' xs \<and> destroyed w' = destroyed w)"
proof -
  obtain rc l' w' where r: "r = Some (rc, Ptr l', w')" "list_conf l' = list_conf l" "live w' - list_own l' = live w - list_own l"
    and res: "rc = 0 \<and> list_values l' w' ys \<and> destroyed w' = destroyed w @ log_if (l_elem_destroy l) ds
        \<or> rc = - 1 \<and> list_values l' w' xs \<and> destroyed w' = destroyed w"
    using assms(1) unfolding list_step_def by (elim exE conjE) (rule that)
  have "(\<exists>ys ds. list_spec (list_conf l) op xs rc ys ds \<and> list_values l' w' ys
          \<and> destroyed w' = destroyed w @ log_if (l_elem_destroy l) ds)
       \<or> rc = - 1 \<and> list_values l' w' xs \<and> destroyed w' = destroyed w"
    using res assms(2) by blast
  then show ?thesis using r assms(3) by (intro exI [of _ rc] exI [of _ l'] exI [of _ w']) simp
qed

lemma list_noop_law:
  assumes "list_values l w xs" and "list_exec op l w = Some (rc, l, w)" and "list_spec (list_conf l) op xs rc xs []"
  shows "\<exists>rc l' w'. list_exec op l w = Some (rc, l', w') \<and> list_conf l' = list_conf l
    \<and> live w' - list_own l' = live w - list_own l
    \<and> ((\<exists>ys ds. list_spec (list_conf l) op xs rc ys ds \<and> list_values l' w' ys
          \<and> destroyed w' = destroyed w @ log_if (l_elem_destroy l) ds)
       \<or> rc = - 1 \<and> list_values l' w' xs \<and> destroyed w' = destroyed w)"
  using assms by (intro exI [of _ rc] exI [of _ l] exI [of _ w] conjI disjI1 exI [of _ xs] exI [of _ "[]"]) simp_all

lemma exec_void: "map_option (\<lambda>(p, w). (0, pt p, w)) r
    = map_option (\<lambda>(rc, p, w). (rc, pt p, w)) (map_option (\<lambda>(q, w). (0, q, w)) r)"
  by (cases r) auto

lemma list_exec_law:
  assumes v: "list_values l w xs"
  shows "\<exists>rc l' w'. list_exec op l w = Some (rc, l', w') \<and> list_conf l' = list_conf l
    \<and> live w' - list_own l' = live w - list_own l
    \<and> ((\<exists>ys ds. list_spec (list_conf l) op xs rc ys ds \<and> list_values l' w' ys
          \<and> destroyed w' = destroyed w @ log_if (l_elem_destroy l) ds)
       \<or> rc = - 1 \<and> list_values l' w' xs \<and> destroyed w' = destroyed w)"
proof -
  obtain ns where l: "list_rel l w ns" and xs: "xs = map snd ns" using v by (auto simp: list_values_def)
  note d = list_relD [OF l] and at = list_node_at_ok [OF l]
  have cf: "copied (snd (snd (list_conf l))) = copied (l_elem_copy l)" by (simp add: list_conf_def)
  note law = list_step_law [of l w xs] and noop = list_noop_law [OF v]
  have parts: "list_rel l w (take i ns @ (fst (ns ! i), snd (ns ! i)) # drop (Suc i) ns)"
    "xs = map snd (take i ns @ (fst (ns ! i), snd (ns ! i)) # drop (Suc i) ns)" "i < length xs" if "i < length ns" for i
    using l split_at [OF that] xs that by simp_all
  have none: "list_empty l \<longleftrightarrow> ns = []" using d(6) by (simp add: list_empty_def)
  note defs = list_exec_def list_spec_def
  show ?thesis
  proof (cases op)
    case (LPushBack x)
    have l': "list_rel l w (ns @ [])" using l by simp
    from insert_step [OF l', of x] have "list_step l w xs (xs @ [copied (l_elem_copy l) x]) []
        (list_push_back (Ptr l) (Ptr x) w)" using push_back_eq [OF l] xs by simp
    then show ?thesis by (rule law) (simp_all add: LPushBack defs cf)
  next
    case (LPushFront x)
    have l': "list_rel l w ([] @ ns)" using l by simp
    from insert_step [OF l', of x] have "list_step l w xs (copied (l_elem_copy l) x # xs) []
        (list_push_front (Ptr l) (Ptr x) w)" using push_front_eq [OF l] xs by simp
    then show ?thesis by (rule law) (simp_all add: LPushFront defs cf)
  next
    case LPopBack
    show ?thesis
    proof (cases ns rule: rev_cases)
      case Nil
      then show ?thesis using none xs by (intro noop) (simp_all add: LPopBack defs list_pop_back_def)
    next
      case (snoc ms m)
      obtain a x where m: "m = (a, x)" by (cases m)
      have l': "list_rel l w (ms @ (a, x) # [])" using l snoc m by simp
      have "l_tail l = Ptr a" using d(5) snoc m by simp
      then have r: "list_pop_back (Ptr l) w = map_option (\<lambda>(q, w1). (0, q, w1)) (list_erase_node (Ptr l) (Ptr a) w)"
        using none snoc by (simp add: list_pop_back_def map_option_case bind_split split: option.splits)
      from erase_step [OF l'] have "list_step l w xs (butlast xs) [last xs] (list_pop_back (Ptr l) w)"
        using r xs snoc m by simp
      then show ?thesis by (rule law) (use xs snoc in \<open>simp_all add: LPopBack defs cf\<close>)
    qed
  next
    case LPopFront
    show ?thesis
    proof (cases ns)
      case Nil
      then show ?thesis using none xs by (intro noop) (simp_all add: LPopFront defs list_pop_front_def)
    next
      case (Cons m ms)
      obtain a x where m: "m = (a, x)" by (cases m)
      have l': "list_rel l w ([] @ (a, x) # ms)" using l Cons m by simp
      have "l_head l = Ptr a" using d(4) Cons m by simp
      then have r: "list_pop_front (Ptr l) w = map_option (\<lambda>(q, w1). (0, q, w1)) (list_erase_node (Ptr l) (Ptr a) w)"
        using none Cons by (simp add: list_pop_front_def map_option_case bind_split split: option.splits)
      from erase_step [OF l'] have "list_step l w xs (tl xs) [hd xs] (list_pop_front (Ptr l) w)"
        using r xs Cons m by simp
      then show ?thesis by (rule law) (use xs Cons in \<open>simp_all add: LPopFront defs cf\<close>)
    qed
  next
    case (LInsert i x)
    show ?thesis
    proof (cases "i \<le> length ns")
      case True
      have l': "list_rel l w (take i ns @ drop i ns)" using l by simp
      from insert_step [OF l', of x] have "list_step l w xs (take i xs @ copied (l_elem_copy l) x # drop i xs) []
          (list_insert (Ptr l) i (Ptr x) w)" using list_insert_eq [OF l True] xs by (simp add: take_map drop_map)
      then show ?thesis by (rule law) (use True xs in \<open>simp_all add: LInsert defs cf\<close>)
    next
      case False
      then show ?thesis using d(6) xs by (intro noop) (simp_all add: LInsert defs list_insert_def)
    qed
  next
    case (LInsertBefore i x)
    show ?thesis
    proof (cases "i < length ns")
      case True
      from insert_step [of l w "take i ns" "(fst (ns ! i), snd (ns ! i)) # drop (Suc i) ns" x] parts [OF True]
      have "list_step l w xs (take i xs @ copied (l_elem_copy l) x # drop i xs) []
          (list_insert_before (Ptr l) (Ptr (fst (ns ! i))) (Ptr x) w)"
        using insert_before_eq [OF parts(1) [OF True], of x] xs True
        by (simp add: take_map drop_map Cons_nth_drop_Suc split_at [symmetric])
      then show ?thesis by (rule law) (use True xs at [of i] in \<open>simp_all add: LInsertBefore defs cf\<close>)
    next
      case False
      then show ?thesis using at [of i] xs by (intro noop) (simp_all add: LInsertBefore defs list_insert_before_def)
    qed
  next
    case (LInsertAfter i x)
    show ?thesis
    proof (cases "i < length ns")
      case True
      have sp: "take (Suc i) ns = take i ns @ [(fst (ns ! i), snd (ns ! i))]" using True by (simp add: take_Suc_conv_app_nth)
      have l': "list_rel l w (take (Suc i) ns @ drop (Suc i) ns)" using l by simp
      from insert_step [OF l', of x]
      have "list_step l w xs (take (Suc i) xs @ copied (l_elem_copy l) x # drop (Suc i) xs) []
          (list_insert_after (Ptr l) (Ptr (fst (ns ! i))) (Ptr x) w)"
        using insert_after_eq [OF parts(1) [OF True], of x, folded sp] xs
        by (simp only: take_map drop_map append_take_drop_id)
      then show ?thesis by (rule law) (use True xs at [of i] in \<open>simp_all add: LInsertAfter defs cf\<close>)
    next
      case False
      then show ?thesis using at [of i] xs by (intro noop) (simp_all add: LInsertAfter defs list_insert_after_def)
    qed
  next
    case (LSet i x)
    show ?thesis
    proof (cases "i < length ns")
      case True
      from replace_step [OF parts(1) [OF True], of x]
      have "list_step l w xs (take i xs @ copied (l_elem_copy l) x # drop (Suc i) xs) [xs ! i] (list_set (Ptr l) i (Ptr x) w)"
        unfolding parts(2) [OF True, symmetric] using at [of i] xs True by (simp add: list_set_def take_map drop_map)
      then show ?thesis by (rule law) (use True xs in \<open>simp_all add: LSet defs cf\<close>)
    next
      case False
      then show ?thesis using at [of i] xs by (intro noop) (simp_all add: LSet defs list_set_def)
    qed
  next
    case (LErase i)
    show ?thesis
    proof (cases "i < length ns")
      case True
      from erase_step [OF parts(1) [OF True]]
      have "list_step l w xs (take i xs @ drop (Suc i) xs) [xs ! i]
          (map_option (\<lambda>(q, w1). (0, q, w1)) (list_erase (Ptr l) i w))"
        unfolding parts(2) [OF True, symmetric] using at [of i] xs True by (simp add: list_erase_def take_map drop_map)
      then show ?thesis
        by (rule law) (use True xs in \<open>simp_all add: LErase defs cf exec_void\<close>)
    next
      case False
      then show ?thesis using at [of i] xs by (intro noop) (simp_all add: LErase defs list_erase_def)
    qed
  next
    case LClear
    from list_clear_ok [OF l] obtain l' w' where
      c: "list_clear (Ptr l) w = Some (Ptr l', w')" "list_conf l' = list_conf l" "list_rel l' w' []" "list_own l' = 0"
      "live w' = live w - list_own l" "destroyed w' = destroyed w @ log_if (l_elem_destroy l) (map snd ns)"
      "no_fail w' = no_fail w" "fresh w' = fresh w" "frame (addrs ns) w w'"
      by (elim exE conjE) (rule that)
    have "list_values l' w' []" using c(3) by (auto simp: list_values_def)
    then have "list_step l w xs [] xs (map_option (\<lambda>(q, w1). (0, q, w1)) (list_clear (Ptr l) w))"
      unfolding list_step_def using c xs by (intro exI [of _ 0] exI [of _ l'] exI [of _ w']) simp
    then show ?thesis by (rule law) (simp_all add: LClear defs cf exec_void)
  qed
qed

interpretation listm: spec_machine list_exec list_spec "\<lambda>k op. True" list_values list_conf
  "\<lambda>k. fst (snd k)" "\<lambda>l w. list_own l" mset list_stores
proof (unfold_locales, goal_cases)
  case (1 l w xs op)
  then show ?case using list_exec_law [of l w xs op] by (simp add: list_conf_def)
next
  case (2 k op xs rc ys ds)
  show ?case by (rule list_ideal_conserves [OF 2 [unfolded list_spec_def]])
qed

end
