(* ===== verification/Linkedlist_Props.thy ===== *)
theory Linkedlist_Props
  imports Linkedlist
begin

text \<open>
  The properties of \<open>src/list.c\<close> that rest on the model and the contracts of \<open>Linkedlist\<close>:
  whole histories, the stability of nodes, and copies.
\<close>

section \<open>Copying\<close>

lemma push_back_ok:
  assumes l: "list_rel l w ns"
  shows "\<exists>rc l' w'. list_push_back (Ptr l) (Ptr x) w = Some (rc, Ptr l', w') \<and> list_conf l' = list_conf l
    \<and> destroyed w' = destroyed w \<and> live w' - list_own l' = live w - list_own l
    \<and> frame (addrs ns) w w' \<and> fresh w' \<le> Suc (fresh w)
    \<and> (no_fail w \<longrightarrow> no_fail w' \<and> (list_room l w \<longrightarrow> rc = 0))
    \<and> (rc = 0 \<and> list_rel l' w' (ns @ [(fresh w, copied (l_elem_copy l) x)]) \<or> rc = - 1 \<and> l' = l \<and> list_rel l w' ns)"
  using insert_ok [of l w ns "[]" x] l by (simp add: push_back_eq [OF l])

lemma list_copy_loop_ok:
  assumes "list_rel s w (vs @ ns)" and "list_rel d w us" and "addrs us \<inter> addrs (vs @ ns) = {}"
  shows "\<exists>rc d' w' us' k. list_copy_loop (first ns NULL) (Ptr d) w = Some (rc, Ptr d', w') \<and> list_conf d' = list_conf d
    \<and> live w' - list_own d' = live w - list_own d \<and> frame (addrs us) w w' \<and> list_rel s w' (vs @ ns)
    \<and> (no_fail w \<longrightarrow> 16 + l_elem_size d \<le> PTRDIFF_MAX \<longrightarrow> fresh w + length ns \<le> SIZE_MAX \<longrightarrow> rc = 0)
    \<and> (rc = 0 \<and> list_rel d' w' us' \<and> addrs us' \<subseteq> addrs us \<union> {fresh w..} \<and> map snd us' = map snd us @ map (copied (l_elem_copy d) \<circ> snd) ns \<and> destroyed w' = destroyed w
       \<or> rc = - 1 \<and> list_rel d' w' [] \<and> destroyed w' = destroyed w
           @ log_if (l_elem_destroy d) (map snd us @ map (copied (l_elem_copy d) \<circ> snd) (take k ns)))"
  using assms
proof (induction ns arbitrary: vs d us w)
  case Nil
  then show ?case
    by (subst list_copy_loop.simps)
      (intro exI [of _ 0] exI [of _ d] exI [of _ w] exI [of _ us] exI [of _ 0], simp add: frame_refl)
next
  case (Cons m ns)
  obtain a x where m: "m = (a, x)" by (cases m)
  let ?f = "copied (l_elem_copy d)"
  note sd = list_relD [OF Cons.prems(1)] and dd = list_relD [OF Cons.prems(2)]
  have ca: "cells_of w a = Some \<lparr>n_prev = final NULL vs, n_next = first ns NULL, n_data = Some x\<rparr>" using sd(2) m by simp
  from push_back_ok [OF Cons.prems(2), of x] obtain rc d1 w1 where
    push: "list_push_back (Ptr d) (Ptr x) w = Some (rc, Ptr d1, w1)" and p: "list_conf d1 = list_conf d"
    "destroyed w1 = destroyed w" "live w1 - list_own d1 = live w - list_own d" "frame (addrs us) w w1"
    "fresh w1 \<le> Suc (fresh w)" "no_fail w \<longrightarrow> no_fail w1 \<and> (list_room d w \<longrightarrow> rc = 0)"
    and res: "rc = 0 \<and> list_rel d1 w1 (us @ [(fresh w, ?f x)]) \<or> rc = - 1 \<and> d1 = d \<and> list_rel d w1 us"
    by (elim exE conjE) (rule that)
  have ok1: "store_ok w1" using res list_relD(1) by blast
  have src1: "list_rel s w1 (vs @ m # ns)"
    by (rule list_rel_frame [OF Cons.prems(1) p(4) _ ok1]) (use Cons.prems(3) in simp)
  have cf: "l_elem_copy d1 = l_elem_copy d" "l_elem_destroy d1 = l_elem_destroy d" "l_elem_size d1 = l_elem_size d"
    using p(1) by simp_all
  show ?case
  proof (cases "rc = 0")
    case True
    let ?us = "us @ [(fresh w, ?f x)]"
    have rel1: "list_rel d1 w1 ?us" using res True by simp
    have "fresh w \<notin> addrs (vs @ m # ns)" using addrs_below(1) [OF Cons.prems(1), of "fresh w"] by blast
    then have dis: "addrs ?us \<inter> addrs ((vs @ [m]) @ ns) = {}" using Cons.prems(3) by auto
    have s1: "list_rel s w1 ((vs @ [m]) @ ns)" using src1 by simp
    have ca1: "cells_of w1 a = Some \<lparr>n_prev = final NULL vs, n_next = first ns NULL, n_data = Some x\<rparr>"
      using list_relD(2) [OF src1] m by simp
    from Cons.IH [OF s1 rel1 dis] obtain rc' d' w' us' k where
      r: "list_copy_loop (first ns NULL) (Ptr d1) w1 = Some (rc', Ptr d', w')" "list_conf d' = list_conf d1"
      "live w' - list_own d' = live w1 - list_own d1" "frame (addrs ?us) w1 w'" "list_rel s w' ((vs @ [m]) @ ns)"
      "no_fail w1 \<longrightarrow> 16 + l_elem_size d1 \<le> PTRDIFF_MAX \<longrightarrow> fresh w1 + length ns \<le> SIZE_MAX \<longrightarrow> rc' = 0"
      and res': "rc' = 0 \<and> list_rel d' w' us' \<and> addrs us' \<subseteq> addrs ?us \<union> {fresh w1..} \<and> map snd us' = map snd ?us @ map (copied (l_elem_copy d1) \<circ> snd) ns \<and> destroyed w' = destroyed w1
       \<or> rc' = - 1 \<and> list_rel d' w' [] \<and> destroyed w' = destroyed w1
           @ log_if (l_elem_destroy d1) (map snd ?us @ map (copied (l_elem_copy d1) \<circ> snd) (take k ns))"
      by (elim exE conjE) (rule that)
    have run: "list_copy_loop (first (m # ns) NULL) (Ptr d) w = Some (rc', Ptr d', w')"
      using m ca push True ca1 r(1) by (subst list_copy_loop.simps) simp
    have fr: "frame (addrs us) w w'" by (rule frame_trans [OF _ r(4)]) (use p(4) in auto)
    have nf: "no_fail w \<longrightarrow> 16 + l_elem_size d \<le> PTRDIFF_MAX \<longrightarrow> fresh w + length (m # ns) \<le> SIZE_MAX \<longrightarrow> rc' = 0"
      using r(6) p(5,6) cf(3) by simp
    have out: "rc' = 0 \<and> list_rel d' w' us' \<and> addrs us' \<subseteq> addrs us \<union> {fresh w..} \<and> map snd us' = map snd us @ map (?f \<circ> snd) (m # ns) \<and> destroyed w' = destroyed w
       \<or> rc' = - 1 \<and> list_rel d' w' [] \<and> destroyed w' = destroyed w
           @ log_if (l_elem_destroy d) (map snd us @ map (?f \<circ> snd) (take (Suc k) (m # ns)))"
      using res' p(2) cf m frame_fresh [OF p(4)] by auto
    have "list_conf d' = list_conf d" "live w' - list_own d' = live w - list_own d" "list_rel s w' (vs @ m # ns)"
      using r(2,3,5) p(1,3) by simp_all
    then show ?thesis
      by (intro exI [of _ rc'] exI [of _ d'] exI [of _ w'] exI [of _ us'] exI [of _ "Suc k"] conjI run fr nf out)
  next
    case False
    with res have rel1: "list_rel d1 w1 us" and rc: "rc = - 1" and d1: "d1 = d" by simp_all
    from list_clear_ok [OF rel1] obtain d2 w2 where
      c: "list_clear (Ptr d1) w1 = Some (Ptr d2, w2)" "list_conf d2 = list_conf d1" "list_rel d2 w2 []" "list_own d2 = 0"
      "live w2 = live w1 - list_own d1" "destroyed w2 = destroyed w1 @ log_if (l_elem_destroy d1) (map snd us)"
      "no_fail w2 = no_fail w1" "fresh w2 = fresh w1" "frame (addrs us) w1 w2"
      by (elim exE conjE) (rule that)
    have run: "list_copy_loop (first (m # ns) NULL) (Ptr d) w = Some (- 1, Ptr d2, w2)"
      using m ca push False c(1) by (subst list_copy_loop.simps) simp
    have fr: "frame (addrs us) w w2" by (rule frame_trans [OF _ c(9)]) (use p(4) in auto)
    have src2: "list_rel s w2 (vs @ m # ns)"
      by (rule list_rel_frame [OF src1 c(9) Cons.prems(3) list_relD(1) [OF c(3)]])
    have nf: "no_fail w \<longrightarrow> 16 + l_elem_size d \<le> PTRDIFF_MAX \<longrightarrow> fresh w + length (m # ns) \<le> SIZE_MAX \<longrightarrow> (- 1 :: int) = 0"
      using p(6) rc by (auto simp: list_room_def)
    show ?thesis
      using c(2-6) p(1-3) cf
      by (intro exI [of _ "- 1"] exI [of _ d2] exI [of _ w2] exI [of _ us] exI [of _ 0] conjI run fr nf src2 disjI2) simp_all
  qed
qed

lemma list_copy_ok:
  fixes s :: "'a clist"
  assumes s: "list_rel s w ns" and d: "list_rel d w ys" and dis: "addrs ys \<inter> addrs ns = {}"
  shows "\<exists>rc d' w' us k. list_copy False (Ptr d) (Ptr s) w = Some (rc, Ptr d', w') \<and> list_conf d' = list_conf s
    \<and> live w' - list_own d' = live w - list_own d \<and> frame (addrs ys) w w' \<and> list_rel s w' ns
    \<and> (no_fail w \<longrightarrow> 16 + l_elem_size s \<le> PTRDIFF_MAX \<longrightarrow> fresh w + length ns \<le> SIZE_MAX \<longrightarrow> rc = 0)
    \<and> (rc = 0 \<and> list_rel d' w' us \<and> addrs us \<inter> addrs ns = {} \<and> map snd us = map (copied (l_elem_copy s) \<circ> snd) ns
         \<and> destroyed w' = destroyed w @ log_if (l_elem_destroy d) (map snd ys)
       \<or> rc = - 1 \<and> list_rel d' w' [] \<and> destroyed w' = destroyed w @ log_if (l_elem_destroy d) (map snd ys)
           @ log_if (l_elem_destroy s) (map (copied (l_elem_copy s) \<circ> snd) (take k ns)))"
proof -
  note S = list_relD [OF s]
  from list_destroy_ok [OF d] obtain d1 w1 where
    k: "list_destroy (Ptr d) w = Some (Ptr d1, w1)" "list_conf d1 = list_conf d" "list_rel d1 w1 []" "list_own d1 = 0"
    "live w1 = live w - list_own d" "destroyed w1 = destroyed w @ log_if (l_elem_destroy d) (map snd ys)"
    "no_fail w1 = no_fail w" "fresh w1 = fresh w" "frame (addrs ys) w w1"
    by (elim exE conjE) (rule that)
  have ok1: "store_ok w1" using list_relD(1) [OF k(3)] .
  have s1: "list_rel s w1 ([] @ ns)" using list_rel_frame [OF s k(9) dis ok1] by simp
  from list_init_ok [OF S(7,8) ok1, of d1 "l_elem_destroy s" "l_elem_copy s"] obtain d2 where
    i: "list_init (Ptr d1) (l_elem_size s) (l_elem_destroy s) (l_elem_copy s) = (0, Ptr d2)" "list_rel d2 w1 []"
    "list_conf d2 = (l_elem_size s, l_elem_destroy s, l_elem_copy s)" "list_own d2 = 0"
    by (elim exE conjE) (rule that)
  have cf: "l_elem_size d2 = l_elem_size s" "l_elem_destroy d2 = l_elem_destroy s" "l_elem_copy d2 = l_elem_copy s"
    using i(3) by (simp_all add: list_conf_def)
  let ?no = "[] :: (nat \<times> 'a) list"
  have "addrs ?no \<inter> addrs (?no @ ns) = {}" by simp
  from list_copy_loop_ok [OF s1 i(2) this] obtain rc d' w' us k where
    r: "list_copy_loop (first ns NULL) (Ptr d2) w1 = Some (rc, Ptr d', w')" "list_conf d' = list_conf d2"
    "live w' - list_own d' = live w1 - list_own d2" "frame (addrs ?no) w1 w'" "list_rel s w' (?no @ ns)"
    "no_fail w1 \<longrightarrow> 16 + l_elem_size d2 \<le> PTRDIFF_MAX \<longrightarrow> fresh w1 + length ns \<le> SIZE_MAX \<longrightarrow> rc = 0"
    and res: "rc = 0 \<and> list_rel d' w' us \<and> addrs us \<subseteq> addrs ?no \<union> {fresh w1..} \<and> map snd us = map snd ?no @ map (copied (l_elem_copy d2) \<circ> snd) ns \<and> destroyed w' = destroyed w1
       \<or> rc = - 1 \<and> list_rel d' w' [] \<and> destroyed w' = destroyed w1
           @ log_if (l_elem_destroy d2) (map snd ?no @ map (copied (l_elem_copy d2) \<circ> snd) (take k ns))"
    by (elim exE conjE) (rule that)
  have below: "a < fresh w" if "a \<in> addrs ns" for a using addrs_below(1) [OF s that] .
  have new: "addrs us \<inter> addrs ns = {}" if "addrs us \<subseteq> addrs ?no \<union> {fresh w1..}"
  proof -
    have "a \<notin> addrs ns" if "fresh w1 \<le> a" for a using below [of a] that k(8) by linarith
    then show ?thesis using that by (simp add: subset_iff disjoint_iff)
  qed
  have run: "list_copy False (Ptr d) (Ptr s) w = Some (rc, Ptr d', w')"
    using k(1) i(1) r(1) S(4) by (simp add: list_copy_def)
  have fr: "frame (addrs ys) w w'" by (rule frame_trans [OF k(9) r(4)]) simp
  have out: "rc = 0 \<and> list_rel d' w' us \<and> addrs us \<inter> addrs ns = {} \<and> map snd us = map (copied (l_elem_copy s) \<circ> snd) ns
         \<and> destroyed w' = destroyed w @ log_if (l_elem_destroy d) (map snd ys)
       \<or> rc = - 1 \<and> list_rel d' w' [] \<and> destroyed w' = destroyed w @ log_if (l_elem_destroy d) (map snd ys)
           @ log_if (l_elem_destroy s) (map (copied (l_elem_copy s) \<circ> snd) (take k ns))"
    using res k(6) cf new by (elim disjE) simp_all
  show ?thesis
    by (intro exI [of _ rc] exI [of _ d'] exI [of _ w'] exI [of _ us] exI [of _ k] conjI run fr out)
      (use r(2,3,5,6) k(4,5,7,8) i(4) cf in \<open>simp_all add: list_conf_def\<close>)
qed

section \<open>Properties\<close>

text \<open>C31: every history of insertions at the ends, at indices and next to nodes, of replacements,
  removals and clears on a freshly initialised list never follows a dangling pointer and behaves
  like the list machine, whatever fails; destroying the list then releases every node and, with a
  destroy callback, every element that a successful call stored, exactly once.\<close>

theorem list_history:
  fixes w :: "'a lworld"
  assumes "0 < e" and "16 + e \<le> SIZE_MAX" and "store_ok w"
  shows "\<exists>l rcs l' w1 xs ds p w2. list_init (Ptr raw_list) e d c = (0, Ptr l)
    \<and> run list_exec ops l w = Some (rcs, l', w1) \<and> list_values l' w1 xs
    \<and> explains (list_spec (e, d, c)) ops rcs [] xs ds
    \<and> destroyed w1 = destroyed w @ log_if d ds
    \<and> list_destroy (Ptr l') w1 = Some (p, w2) \<and> destroyed w2 = destroyed w @ log_if d (ds @ xs)
    \<and> mset (ds @ xs) = stored (list_stores (e, d, c)) ops rcs \<and> live w2 = live w"
proof -
  from list_init_ok [OF assms, of raw_list d c] obtain l where
    i: "list_init (Ptr raw_list) e d c = (0, Ptr l)" "list_rel l w []" "list_conf l = (e, d, c)" "list_own l = 0"
    by (elim exE conjE) (rule that)
  have "list_values l w []" using i(2) by (auto simp: list_values_def)
  from listm.run_explained [OF this, of ops] obtain rcs l' w1 xs ds where
    r: "run list_exec ops l w = Some (rcs, l', w1)" "list_conf l' = list_conf l"
    "live w1 - list_own l' = live w - list_own l" "list_values l' w1 xs" "explains (list_spec (list_conf l)) ops rcs [] xs ds"
    "destroyed w1 = destroyed w @ log_if (fst (snd (list_conf l))) ds"
    by auto
  obtain ns where ns: "list_rel l' w1 ns" "map snd ns = xs" using r(4) by (auto simp: list_values_def)
  from list_destroy_ok [OF ns(1)] obtain l2 w2 where
    k: "list_destroy (Ptr l') w1 = Some (Ptr l2, w2)" "list_conf l2 = list_conf l'" "list_rel l2 w2 []" "list_own l2 = 0"
    "live w2 = live w1 - list_own l'" "destroyed w2 = destroyed w1 @ log_if (l_elem_destroy l') (map snd ns)"
    "no_fail w2 = no_fail w1" "fresh w2 = fresh w1" "frame (addrs ns) w1 w2"
    by (elim exE conjE) (rule that)
  have flag: "l_elem_destroy l' = d" using r(2) i(3) by (simp add: list_conf_def)
  have st: "stored (list_stores (e, d, c)) ops rcs = mset (ds @ xs)"
    using listm.explains_conserves [OF r(5)] i(3) by (simp add: ac_simps)
  have rest: "explains (list_spec (e, d, c)) ops rcs [] xs ds" "destroyed w1 = destroyed w @ log_if d ds"
    "destroyed w2 = destroyed w @ log_if d (ds @ xs)" "live w2 = live w"
    using r(3,5,6) k(5,6) ns(2) flag i(3,4) by (simp_all add: log_if_def)
  show ?thesis
    by (intro exI [of _ l] exI [of _ rcs] exI [of _ l'] exI [of _ w1] exI [of _ xs] exI [of _ ds] exI [of _ "Ptr l2"]
      exI [of _ w2] conjI i(1) r(1,4) k(1) rest st [symmetric])
qed

theorem list_history_witness:
  "\<exists>l rcs l' w1 xs ds p w2. list_init (Ptr raw_list) 4 True None = (0, Ptr l)
    \<and> run list_exec [LPushBack 7, LPushFront 5, LInsertAfter 0 9, LErase 1, LPopBack :: int list_op] l (lscript [True, False] [])
        = Some (rcs, l', w1) \<and> list_values l' w1 xs
    \<and> explains (list_spec (4, True, None)) [LPushBack 7, LPushFront 5, LInsertAfter 0 9, LErase 1, LPopBack] rcs [] xs ds
    \<and> destroyed w1 = destroyed (lscript [True, False] [] :: int lworld) @ log_if True ds
    \<and> list_destroy (Ptr l') w1 = Some (p, w2)
    \<and> destroyed w2 = destroyed (lscript [True, False] [] :: int lworld) @ log_if True (ds @ xs)
    \<and> mset (ds @ xs) = stored (list_stores (4, True, None)) [LPushBack 7, LPushFront 5, LInsertAfter 0 9, LErase 1, LPopBack] rcs
    \<and> live w2 = live (lscript [True, False] [] :: int lworld)"
  by (rule list_history) (simp_all add: SIZE_MAX_def)

text \<open>nodes are stable: \<open>list_node_at\<close> gives the node at an index, and the functions that
  take a node act at its place and leave the addresses and values of all other nodes as they were.
  \<open>list_set_node\<close> keeps the address of the node; a refused call changes nothing.\<close>

theorem list_nodes:
  assumes l: "list_rel l w (ms @ (a, x) # ns)"
  shows "list_node_at (Ptr l) (length ms) w = Some (Ptr a) \<and> list_deref (Ptr a) w = Some x
    \<and> (\<exists>rc l' w'. list_insert_before (Ptr l) (Ptr a) (Ptr y) w = Some (rc, Ptr l', w')
      \<and> (rc = 0 \<and> list_rel l' w' (ms @ (fresh w, copied (l_elem_copy l) y) # (a, x) # ns)
         \<or> rc = - 1 \<and> l' = l \<and> list_rel l w' (ms @ (a, x) # ns)))
    \<and> (\<exists>rc l' w'. list_insert_after (Ptr l) (Ptr a) (Ptr y) w = Some (rc, Ptr l', w')
      \<and> (rc = 0 \<and> list_rel l' w' (ms @ (a, x) # (fresh w, copied (l_elem_copy l) y) # ns)
         \<or> rc = - 1 \<and> l' = l \<and> list_rel l w' (ms @ (a, x) # ns)))
    \<and> (\<exists>rc w'. list_set_node (Ptr l) (Ptr a) (Ptr y) w = Some (rc, Ptr l, w')
      \<and> (rc = 0 \<and> list_rel l w' (ms @ (a, copied (l_elem_copy l) y) # ns) \<or> rc = - 1 \<and> list_rel l w' (ms @ (a, x) # ns)))
    \<and> (\<exists>l' w'. list_erase_node (Ptr l) (Ptr a) w = Some (Ptr l', w') \<and> list_rel l' w' (ms @ ns))"
proof (intro conjI)
  have l2: "list_rel l w ((ms @ [(a, x)]) @ ns)" using l by simp
  show "list_node_at (Ptr l) (length ms) w = Some (Ptr a)" using list_node_at_ok [OF l, of "length ms"] by simp
  show "list_deref (Ptr a) w = Some x" by (rule list_deref_ok [OF l])
  show "\<exists>rc l' w'. list_insert_before (Ptr l) (Ptr a) (Ptr y) w = Some (rc, Ptr l', w')
      \<and> (rc = 0 \<and> list_rel l' w' (ms @ (fresh w, copied (l_elem_copy l) y) # (a, x) # ns)
         \<or> rc = - 1 \<and> l' = l \<and> list_rel l w' (ms @ (a, x) # ns))"
    unfolding insert_before_eq [OF l] using insert_ok [OF l, of y] by blast
  show "\<exists>rc l' w'. list_insert_after (Ptr l) (Ptr a) (Ptr y) w = Some (rc, Ptr l', w')
      \<and> (rc = 0 \<and> list_rel l' w' (ms @ (a, x) # (fresh w, copied (l_elem_copy l) y) # ns)
         \<or> rc = - 1 \<and> l' = l \<and> list_rel l w' (ms @ (a, x) # ns))"
    unfolding insert_after_eq [OF l] using insert_ok [OF l2, of y] unfolding append_assoc append_Cons append_Nil by blast
  show "\<exists>rc w'. list_set_node (Ptr l) (Ptr a) (Ptr y) w = Some (rc, Ptr l, w')
      \<and> (rc = 0 \<and> list_rel l w' (ms @ (a, copied (l_elem_copy l) y) # ns) \<or> rc = - 1 \<and> list_rel l w' (ms @ (a, x) # ns))"
    using set_node_ok [OF l, of y] by blast
  show "\<exists>l' w'. list_erase_node (Ptr l) (Ptr a) w = Some (Ptr l', w') \<and> list_rel l' w' (ms @ ns)"
    using erase_node_ok [OF l] by blast
qed

definition list_example :: "int clist" where
  "list_example = \<lparr>l_size = 2, l_elem_size = 4, l_elem_destroy = True, l_elem_copy = None,
     l_head = Ptr 3, l_tail = Ptr 2\<rparr>"

definition list_world :: "int lworld" where
  "list_world = with_cells [3 \<mapsto> \<lparr>n_prev = NULL, n_next = Ptr 2, n_data = Some 50\<rparr>,
     2 \<mapsto> \<lparr>n_prev = Ptr 3, n_next = NULL, n_data = Some 60\<rparr>]
     (world.extend (script [False] []) \<lparr>cells = Map.empty, next_cell = 4\<rparr>)"

definition list_chain :: "(nat \<times> int) list" where
  "list_chain = [(3, 50), (2, 60)]"

lemma list_world_simps: "fresh list_world = 4" "cells_of list_world = [3 \<mapsto> \<lparr>n_prev = NULL, n_next = Ptr 2, n_data = Some 50\<rparr>,
     2 \<mapsto> \<lparr>n_prev = Ptr 3, n_next = NULL, n_data = Some 60\<rparr>]"
  unfolding list_world_def with_cells_simps by (simp_all add: fresh_def world.defs)

lemma list_example_rel: "list_rel list_example list_world list_chain"
  by (simp add: list_rel_def list_example_def store_ok_def list_world_simps SIZE_MAX_def final_def list_chain_def)

theorem list_nodes_witness:
  "list_node_at (Ptr list_example) (length [(3 :: nat, 50 :: int)]) list_world = Some (Ptr 2) \<and> list_deref (Ptr 2) list_world = Some 60
    \<and> (\<exists>rc l' w'. list_insert_before (Ptr list_example) (Ptr 2) (Ptr 7) list_world = Some (rc, Ptr l', w')
      \<and> (rc = 0 \<and> list_rel l' w' ([(3, 50)] @ (fresh list_world, copied (l_elem_copy list_example) 7) # (2, 60) # [])
         \<or> rc = - 1 \<and> l' = list_example \<and> list_rel list_example w' ([(3, 50)] @ (2, 60) # [])))
    \<and> (\<exists>rc l' w'. list_insert_after (Ptr list_example) (Ptr 2) (Ptr 7) list_world = Some (rc, Ptr l', w')
      \<and> (rc = 0 \<and> list_rel l' w' ([(3, 50)] @ (2, 60) # (fresh list_world, copied (l_elem_copy list_example) 7) # [])
         \<or> rc = - 1 \<and> l' = list_example \<and> list_rel list_example w' ([(3, 50)] @ (2, 60) # [])))
    \<and> (\<exists>rc w'. list_set_node (Ptr list_example) (Ptr 2) (Ptr 7) list_world = Some (rc, Ptr list_example, w')
      \<and> (rc = 0 \<and> list_rel list_example w' ([(3, 50)] @ (2, copied (l_elem_copy list_example) 7) # [])
         \<or> rc = - 1 \<and> list_rel list_example w' ([(3, 50)] @ (2, 60) # [])))
    \<and> (\<exists>l' w'. list_erase_node (Ptr list_example) (Ptr 2) list_world = Some (Ptr l', w') \<and> list_rel l' w' ([(3, 50)] @ []))"
  by (rule list_nodes) (use list_example_rel in \<open>simp add: list_chain_def\<close>)

text \<open>\<open>list_copy\<close> follows the nodes of the source and builds a deep copy on nodes of its own in an
  initialised destination, or returns \<open>- 1\<close> with an empty one and every copy it had made destroyed.
  The source is untouched, no node leaks, and it fails only when the allocator or the copy callback
  does or the addresses run out.\<close>

theorem list_copy_deep:
  assumes "list_rel s w ns" and "list_rel d w ys" and "addrs ys \<inter> addrs ns = {}"
  shows "\<exists>rc d' w' us k. list_copy False (Ptr d) (Ptr s) w = Some (rc, Ptr d', w') \<and> list_conf d' = list_conf s
    \<and> live w' - list_own d' = live w - list_own d \<and> frame (addrs ys) w w' \<and> list_rel s w' ns
    \<and> (no_fail w \<longrightarrow> 16 + l_elem_size s \<le> PTRDIFF_MAX \<longrightarrow> fresh w + length ns \<le> SIZE_MAX \<longrightarrow> rc = 0)
    \<and> (rc = 0 \<and> list_rel d' w' us \<and> addrs us \<inter> addrs ns = {} \<and> map snd us = map (copied (l_elem_copy s) \<circ> snd) ns
         \<and> destroyed w' = destroyed w @ log_if (l_elem_destroy d) (map snd ys)
       \<or> rc = - 1 \<and> list_rel d' w' [] \<and> destroyed w' = destroyed w @ log_if (l_elem_destroy d) (map snd ys)
           @ log_if (l_elem_destroy s) (map (copied (l_elem_copy s) \<circ> snd) (take k ns)))"
  by (rule list_copy_ok [OF assms])

definition list_empty_example :: "int clist" where
  "list_empty_example = \<lparr>l_size = 0, l_elem_size = 8, l_elem_destroy = False, l_elem_copy = None,
     l_head = NULL, l_tail = NULL\<rparr>"

theorem list_copy_deep_witness:
  "\<exists>rc d' w' us k. list_copy False (Ptr list_empty_example) (Ptr list_example) list_world = Some (rc, Ptr d', w')
    \<and> list_conf d' = list_conf list_example
    \<and> live w' - list_own d' = live list_world - list_own list_empty_example \<and> frame (addrs ([] :: (nat \<times> int) list)) list_world w'
    \<and> list_rel list_example w' list_chain
    \<and> (no_fail list_world \<longrightarrow> 16 + l_elem_size list_example \<le> PTRDIFF_MAX
        \<longrightarrow> fresh list_world + length list_chain \<le> SIZE_MAX \<longrightarrow> rc = 0)
    \<and> (rc = 0 \<and> list_rel d' w' us \<and> addrs us \<inter> addrs list_chain = {}
         \<and> map snd us = map (copied (l_elem_copy list_example) \<circ> snd) list_chain
         \<and> destroyed w' = destroyed list_world @ log_if (l_elem_destroy list_empty_example) (map snd ([] :: (nat \<times> int) list))
       \<or> rc = - 1 \<and> list_rel d' w' []
         \<and> destroyed w' = destroyed list_world @ log_if (l_elem_destroy list_empty_example) (map snd ([] :: (nat \<times> int) list))
           @ log_if (l_elem_destroy list_example) (map (copied (l_elem_copy list_example) \<circ> snd) (take k list_chain)))"
proof (rule list_copy_deep [OF list_example_rel])
  have "store_ok list_world" using list_relD(1) [OF list_example_rel] .
  then show "list_rel list_empty_example list_world []"
    by (simp add: list_rel_def list_empty_example_def SIZE_MAX_def)
qed simp

end
