(* ===== verification/Treemap.thy ===== *)
theory Treemap
  imports Maps Store
begin

text \<open>
  \<open>src/treemap.c\<close>: the red-black tree with parent pointers. Nodes live in the store of the world,
  every function of the file is a definition of the same name. A node is read before each use, as
  the code does, so that a write through one pointer is seen through another. The address of the
  key and of the value of a node is the address of the node.
\<close>

section \<open>Nodes\<close>

datatype treemap_color = TREEMAP_RED | TREEMAP_BLACK

record 'v treemap_node =
  t_left :: "nat ptr"
  t_right :: "nat ptr"
  t_parent :: "nat ptr"
  t_color :: treemap_color
  t_key :: "cell option"
  t_value :: "'v option"

record 'v treemap =
  t_size :: size_t
  t_key_size :: size_t
  t_value_size :: size_t
  t_key_kind :: int
  t_key_compare :: "cell \<Rightarrow> cell \<Rightarrow> int"
  t_value_destroy :: bool
  t_value_copy :: "('v \<Rightarrow> 'v) option"
  t_root :: "nat ptr"

type_synonym 'v tworld = "('v, 'v treemap_node) nworld"

definition treemap_empty :: "'v treemap \<Rightarrow> bool" where
  "treemap_empty m \<longleftrightarrow> t_size m = 0"

definition set_left :: "nat ptr \<Rightarrow> nat ptr \<Rightarrow> 'v tworld \<Rightarrow> 'v tworld option" where
  "set_left q v w = modify q (t_left_update (\<lambda>_. v)) w"

definition set_right :: "nat ptr \<Rightarrow> nat ptr \<Rightarrow> 'v tworld \<Rightarrow> 'v tworld option" where
  "set_right q v w = modify q (t_right_update (\<lambda>_. v)) w"

definition set_parent :: "nat ptr \<Rightarrow> nat ptr \<Rightarrow> 'v tworld \<Rightarrow> 'v tworld option" where
  "set_parent q v w = modify q (t_parent_update (\<lambda>_. v)) w"

text \<open>\<open>if (q != NULL) q->parent = v\<close>\<close>

definition adopt :: "nat ptr \<Rightarrow> nat ptr \<Rightarrow> 'v tworld \<Rightarrow> 'v tworld option" where
  "adopt q v w = (if q \<noteq> NULL then set_parent q v w else Some w)"

definition left_of :: "nat ptr \<Rightarrow> 'v tworld \<Rightarrow> nat ptr option" where
  "left_of q w = map_option t_left (get_node q w)"

definition right_of :: "nat ptr \<Rightarrow> 'v tworld \<Rightarrow> nat ptr option" where
  "right_of q w = map_option t_right (get_node q w)"

definition parent_of :: "nat ptr \<Rightarrow> 'v tworld \<Rightarrow> nat ptr option" where
  "parent_of q w = map_option t_parent (get_node q w)"

definition grandparent_of :: "nat ptr \<Rightarrow> 'v tworld \<Rightarrow> nat ptr option" where
  "grandparent_of q w = do { p \<leftarrow> parent_of q w; parent_of p w }"

section \<open>Keys and values\<close>

definition treemap_key_slot :: "'v treemap \<Rightarrow> nat ptr \<Rightarrow> nat ptr" where
  "treemap_key_slot m node = node"

definition treemap_key_slot_const :: "'v treemap \<Rightarrow> nat ptr \<Rightarrow> nat ptr" where
  "treemap_key_slot_const m node = node"

definition treemap_value_slot :: "'v treemap \<Rightarrow> nat ptr \<Rightarrow> nat ptr" where
  "treemap_value_slot m node = node"

definition treemap_value_slot_const :: "'v treemap \<Rightarrow> nat ptr \<Rightarrow> nat ptr" where
  "treemap_value_slot_const m node = node"

text \<open>Reading through such an address.\<close>

definition key_at :: "nat ptr \<Rightarrow> 'v tworld \<Rightarrow> cell option" where
  "key_at a w = do { n \<leftarrow> get_node a w; t_key n }"

definition value_at :: "nat ptr \<Rightarrow> 'v tworld \<Rightarrow> 'v option" where
  "value_at a w = do { n \<leftarrow> get_node a w; t_value n }"

definition treemap_copy_value :: "'v treemap \<Rightarrow> 'v \<Rightarrow> 'v tworld \<Rightarrow> 'v option \<times> 'v tworld" where
  "treemap_copy_value m src w = copy_element (t_value_copy m) src w"

definition treemap_destroy_value :: "'v treemap \<Rightarrow> 'v \<Rightarrow> 'v tworld \<Rightarrow> 'v tworld" where
  "treemap_destroy_value m x w = destroy_element (t_value_destroy m) x w"

definition treemap_copy_key :: "'v treemap \<Rightarrow> cell \<Rightarrow> 'v tworld \<Rightarrow> (cell option \<times> 'v tworld) option" where
  "treemap_copy_key m src w = copy_key (t_key_kind m) (t_key_size m) src w"

definition treemap_destroy_key :: "'v treemap \<Rightarrow> cell \<Rightarrow> 'v tworld \<Rightarrow> 'v tworld option" where
  "treemap_destroy_key m key w = destroy_key (t_key_kind m) key w"

definition treemap_key_is_valid :: "'v treemap \<Rightarrow> cell ptr \<Rightarrow> bool option" where
  "treemap_key_is_valid m key = key_is_valid (t_key_kind m) key"

section \<open>Walking the tree\<close>

partial_function (option) minimum_loop :: "nat ptr \<Rightarrow> 'v tworld \<Rightarrow> nat ptr option" where
  "minimum_loop node w = do {
     n \<leftarrow> get_node node w;
     if t_left n \<noteq> NULL then minimum_loop (t_left n) w else Some node }"

definition treemap_minimum :: "nat ptr \<Rightarrow> 'v tworld \<Rightarrow> nat ptr option" where
  "treemap_minimum node w = (if node = NULL then Some NULL else minimum_loop node w)"

partial_function (option) maximum_loop :: "nat ptr \<Rightarrow> 'v tworld \<Rightarrow> nat ptr option" where
  "maximum_loop node w = do {
     n \<leftarrow> get_node node w;
     if t_right n \<noteq> NULL then maximum_loop (t_right n) w else Some node }"

definition treemap_maximum :: "nat ptr \<Rightarrow> 'v tworld \<Rightarrow> nat ptr option" where
  "treemap_maximum node w = (if node = NULL then Some NULL else maximum_loop node w)"

definition treemap_color_of :: "nat ptr \<Rightarrow> 'v tworld \<Rightarrow> treemap_color option" where
  "treemap_color_of node w = (if node = NULL then Some TREEMAP_BLACK else map_option t_color (get_node node w))"

definition treemap_set_color :: "nat ptr \<Rightarrow> treemap_color \<Rightarrow> 'v tworld \<Rightarrow> 'v tworld option" where
  "treemap_set_color node c w = (if node \<noteq> NULL then modify node (t_color_update (\<lambda>_. c)) w else Some w)"

definition treemap_left_child :: "nat ptr \<Rightarrow> 'v tworld \<Rightarrow> nat ptr option" where
  "treemap_left_child node w = (if node = NULL then Some NULL else left_of node w)"

definition treemap_right_child :: "nat ptr \<Rightarrow> 'v tworld \<Rightarrow> nat ptr option" where
  "treemap_right_child node w = (if node = NULL then Some NULL else right_of node w)"

partial_function (option) find_node_loop :: "'v treemap \<Rightarrow> cell \<Rightarrow> nat ptr \<Rightarrow> 'v tworld \<Rightarrow> nat ptr option" where
  "find_node_loop m key node w =
     (if node = NULL then Some NULL
      else do {
        n \<leftarrow> get_node node w;
        k \<leftarrow> key_at (treemap_key_slot_const m node) w;
        if t_key_compare m k key > 0 then find_node_loop m key (t_left n) w
        else if t_key_compare m k key < 0 then find_node_loop m key (t_right n) w
        else Some node })"

definition treemap_find_node :: "'v treemap \<Rightarrow> cell \<Rightarrow> 'v tworld \<Rightarrow> nat ptr option" where
  "treemap_find_node m key w = find_node_loop m key (t_root m) w"

partial_function (option) find_bound_loop ::
    "'v treemap \<Rightarrow> cell \<Rightarrow> bool \<Rightarrow> nat ptr \<Rightarrow> nat ptr \<Rightarrow> 'v tworld \<Rightarrow> nat ptr option" where
  "find_bound_loop m key strict_greater node bound w =
     (if node = NULL then Some bound
      else do {
        n \<leftarrow> get_node node w;
        k \<leftarrow> key_at (treemap_key_slot_const m node) w;
        if t_key_compare m k key > 0 \<or> \<not> strict_greater \<and> t_key_compare m k key = 0
        then find_bound_loop m key strict_greater (t_left n) node w
        else find_bound_loop m key strict_greater (t_right n) bound w })"

definition treemap_find_bound_node :: "'v treemap ptr \<Rightarrow> cell ptr \<Rightarrow> bool \<Rightarrow> 'v tworld \<Rightarrow> nat ptr option" where
  "treemap_find_bound_node p key strict_greater w = (case p of NULL \<Rightarrow> Some NULL | Ptr m \<Rightarrow> do {
     valid \<leftarrow> treemap_key_is_valid m key;
     if \<not> valid then Some NULL
     else find_bound_loop m (pt key) strict_greater (t_root m) NULL w })"

section \<open>Rotations\<close>

text \<open>The parent \<open>q\<close> of \<open>old\<close>, or the map when there is none, gets \<open>new\<close> as its child. The functions
  differ in the side they compare first.\<close>

definition hang_left_first ::
    "'v treemap \<Rightarrow> nat ptr \<Rightarrow> nat ptr \<Rightarrow> nat ptr \<Rightarrow> 'v tworld \<Rightarrow> ('v treemap \<times> 'v tworld) option" where
  "hang_left_first m q old new w =
     (if q = NULL then Some (m\<lparr>t_root := new\<rparr>, w)
      else do {
        l \<leftarrow> left_of q w;
        w1 \<leftarrow> (if old = l then set_left q new w else set_right q new w);
        Some (m, w1) })"

definition hang_right_first ::
    "'v treemap \<Rightarrow> nat ptr \<Rightarrow> nat ptr \<Rightarrow> nat ptr \<Rightarrow> 'v tworld \<Rightarrow> ('v treemap \<times> 'v tworld) option" where
  "hang_right_first m q old new w =
     (if q = NULL then Some (m\<lparr>t_root := new\<rparr>, w)
      else do {
        r \<leftarrow> right_of q w;
        w1 \<leftarrow> (if old = r then set_right q new w else set_left q new w);
        Some (m, w1) })"

definition treemap_left_rotate ::
    "'v treemap \<Rightarrow> nat ptr \<Rightarrow> 'v tworld \<Rightarrow> ('v treemap \<times> 'v tworld) option" where
  "treemap_left_rotate m node w = do {
     right \<leftarrow> right_of node w;
     inner \<leftarrow> left_of right w;
     w1 \<leftarrow> set_right node inner w;
     inner1 \<leftarrow> left_of right w1;
     w2 \<leftarrow> adopt inner1 node w1;
     up \<leftarrow> parent_of node w2;
     w3 \<leftarrow> set_parent right up w2;
     up1 \<leftarrow> parent_of node w3;
     (m1, w4) \<leftarrow> hang_left_first m up1 node right w3;
     w5 \<leftarrow> set_left right node w4;
     w6 \<leftarrow> set_parent node right w5;
     Some (m1, w6) }"

definition treemap_right_rotate ::
    "'v treemap \<Rightarrow> nat ptr \<Rightarrow> 'v tworld \<Rightarrow> ('v treemap \<times> 'v tworld) option" where
  "treemap_right_rotate m node w = do {
     left \<leftarrow> left_of node w;
     inner \<leftarrow> right_of left w;
     w1 \<leftarrow> set_left node inner w;
     inner1 \<leftarrow> right_of left w1;
     w2 \<leftarrow> adopt inner1 node w1;
     up \<leftarrow> parent_of node w2;
     w3 \<leftarrow> set_parent left up w2;
     up1 \<leftarrow> parent_of node w3;
     (m1, w4) \<leftarrow> hang_right_first m up1 node left w3;
     w5 \<leftarrow> set_right left node w4;
     w6 \<leftarrow> set_parent node left w5;
     Some (m1, w6) }"

section \<open>Insertion\<close>

text \<open>The two branches of the body of the loop in \<open>treemap_insert_fixup\<close>.\<close>

definition insert_fixup_left ::
    "'v treemap \<Rightarrow> nat ptr \<Rightarrow> 'v tworld \<Rightarrow> ('v treemap \<times> nat ptr \<times> 'v tworld) option" where
  "insert_fixup_left m node w = do {
     parent \<leftarrow> parent_of node w;
     grand \<leftarrow> parent_of parent w;
     uncle \<leftarrow> right_of grand w;
     c \<leftarrow> treemap_color_of uncle w;
     if c = TREEMAP_RED then do {
       w1 \<leftarrow> treemap_set_color parent TREEMAP_BLACK w;
       w2 \<leftarrow> treemap_set_color uncle TREEMAP_BLACK w1;
       g \<leftarrow> grandparent_of node w2;
       w3 \<leftarrow> treemap_set_color g TREEMAP_RED w2;
       g1 \<leftarrow> grandparent_of node w3;
       Some (m, g1, w3) }
     else do {
       inner \<leftarrow> right_of parent w;
       (m1, node1, w1) \<leftarrow> (if node = inner then map_option (\<lambda>(m1, w1). (m1, parent, w1)) (treemap_left_rotate m parent w)
         else Some (m, node, w));
       p1 \<leftarrow> parent_of node1 w1;
       w2 \<leftarrow> treemap_set_color p1 TREEMAP_BLACK w1;
       g \<leftarrow> grandparent_of node1 w2;
       w3 \<leftarrow> treemap_set_color g TREEMAP_RED w2;
       g1 \<leftarrow> grandparent_of node1 w3;
       (m2, w4) \<leftarrow> treemap_right_rotate m1 g1 w3;
       Some (m2, node1, w4) } }"

definition insert_fixup_right ::
    "'v treemap \<Rightarrow> nat ptr \<Rightarrow> 'v tworld \<Rightarrow> ('v treemap \<times> nat ptr \<times> 'v tworld) option" where
  "insert_fixup_right m node w = do {
     parent \<leftarrow> parent_of node w;
     grand \<leftarrow> parent_of parent w;
     uncle \<leftarrow> left_of grand w;
     c \<leftarrow> treemap_color_of uncle w;
     if c = TREEMAP_RED then do {
       w1 \<leftarrow> treemap_set_color parent TREEMAP_BLACK w;
       w2 \<leftarrow> treemap_set_color uncle TREEMAP_BLACK w1;
       g \<leftarrow> grandparent_of node w2;
       w3 \<leftarrow> treemap_set_color g TREEMAP_RED w2;
       g1 \<leftarrow> grandparent_of node w3;
       Some (m, g1, w3) }
     else do {
       inner \<leftarrow> left_of parent w;
       (m1, node1, w1) \<leftarrow> (if node = inner then map_option (\<lambda>(m1, w1). (m1, parent, w1)) (treemap_right_rotate m parent w)
         else Some (m, node, w));
       p1 \<leftarrow> parent_of node1 w1;
       w2 \<leftarrow> treemap_set_color p1 TREEMAP_BLACK w1;
       g \<leftarrow> grandparent_of node1 w2;
       w3 \<leftarrow> treemap_set_color g TREEMAP_RED w2;
       g1 \<leftarrow> grandparent_of node1 w3;
       (m2, w4) \<leftarrow> treemap_left_rotate m1 g1 w3;
       Some (m2, node1, w4) } }"

partial_function (option) insert_fixup_loop ::
    "'v treemap \<Rightarrow> nat ptr \<Rightarrow> 'v tworld \<Rightarrow> ('v treemap \<times> 'v tworld) option" where
  "insert_fixup_loop m node w =
     (if node = t_root m then Some (m, w)
      else do {
        parent \<leftarrow> parent_of node w;
        c \<leftarrow> treemap_color_of parent w;
        if c \<noteq> TREEMAP_RED then Some (m, w)
        else do {
          grand \<leftarrow> parent_of parent w;
          l \<leftarrow> left_of grand w;
          (m1, node1, w1) \<leftarrow> (if parent = l then insert_fixup_left m node w else insert_fixup_right m node w);
          insert_fixup_loop m1 node1 w1 } })"

definition treemap_insert_fixup ::
    "'v treemap \<Rightarrow> nat ptr \<Rightarrow> 'v tworld \<Rightarrow> ('v treemap \<times> 'v tworld) option" where
  "treemap_insert_fixup m node w = do {
     (m1, w1) \<leftarrow> insert_fixup_loop m node w;
     w2 \<leftarrow> treemap_set_color (t_root m1) TREEMAP_BLACK w1;
     Some (m1, w2) }"

text \<open>A node has a header of 32 bytes; its data start at offset 25. When the sum wraps, they lie
  outside the block.\<close>

definition treemap_create_node ::
    "'v treemap \<Rightarrow> cell \<Rightarrow> 'v \<Rightarrow> 'v tworld \<Rightarrow> (nat ptr \<times> 'v tworld) option" where
  "treemap_create_node m key x w =
     (let bytes = sz_add (sz_add 32 (t_key_size m)) (t_value_size m);
          (node, w1) = new_node bytes \<lparr>t_left = NULL, t_right = NULL, t_parent = NULL, t_color = TREEMAP_RED,
            t_key = None, t_value = None\<rparr> w in
      if node = NULL then Some (NULL, w1)
      else if bytes < 25 + t_key_size m + t_value_size m then None
      else do {
        (k, w2) \<leftarrow> treemap_copy_key m key w1;
        case k of None \<Rightarrow> do { w3 \<leftarrow> free_node node w2; Some (NULL, w3) }
        | Some staged \<Rightarrow> do {
            w3 \<leftarrow> modify node (t_key_update (\<lambda>_. Some staged)) w2;
            case treemap_copy_value m x w3 of
              (None, w4) \<Rightarrow> do {
                k1 \<leftarrow> key_at (treemap_key_slot m node) w4;
                w5 \<leftarrow> treemap_destroy_key m k1 w4;
                w6 \<leftarrow> free_node node w5;
                Some (NULL, w6) }
            | (Some v, w4) \<Rightarrow> do {
                w5 \<leftarrow> modify node (t_value_update (\<lambda>_. Some v)) w4;
                Some (node, w5) } } })"

text \<open>The descent of \<open>treemap_set\<close>: the node with the key or \<open>NULL\<close>, its parent, and the last comparison.\<close>

partial_function (option) set_loop ::
    "'v treemap \<Rightarrow> cell \<Rightarrow> nat ptr \<Rightarrow> nat ptr \<Rightarrow> int \<Rightarrow> 'v tworld \<Rightarrow> (nat ptr \<times> nat ptr \<times> int) option" where
  "set_loop m key node parent cmp w =
     (if node = NULL then Some (NULL, parent, cmp)
      else do {
        n \<leftarrow> get_node node w;
        k \<leftarrow> key_at (treemap_key_slot_const m node) w;
        if t_key_compare m k key > 0 then set_loop m key (t_left n) node (t_key_compare m k key) w
        else if t_key_compare m k key < 0 then set_loop m key (t_right n) node (t_key_compare m k key) w
        else Some (node, node, t_key_compare m k key) })"

definition replace_at ::
    "'v treemap \<Rightarrow> nat ptr \<Rightarrow> 'v \<Rightarrow> 'v tworld \<Rightarrow> (int \<times> 'v treemap ptr \<times> 'v tworld) option" where
  "replace_at m node x w =
     (let (ok, w1) = malloc (t_value_size m) w in
      if \<not> ok then Some (- 1, Ptr m, w1)
      else case treemap_copy_value m x w1 of
        (None, w2) \<Rightarrow> Some (- 1, Ptr m, free_block w2)
      | (Some v, w2) \<Rightarrow> do {
          old \<leftarrow> value_at (treemap_value_slot m node) w2;
          w3 \<leftarrow> modify node (t_value_update (\<lambda>_. Some v)) (treemap_destroy_value m old w2);
          Some (0, Ptr m, free_block w3) })"

definition insert_at ::
    "'v treemap \<Rightarrow> nat ptr \<Rightarrow> int \<Rightarrow> cell \<Rightarrow> 'v \<Rightarrow> 'v tworld \<Rightarrow> (int \<times> 'v treemap ptr \<times> 'v tworld) option" where
  "insert_at m parent cmp key x w = do {
     (created, w1) \<leftarrow> treemap_create_node m key x w;
     if created = NULL then Some (- 1, Ptr m, w1)
     else do {
       w2 \<leftarrow> set_parent created parent w1;
       (m1, w3) \<leftarrow> (if parent = NULL then Some (m\<lparr>t_root := created\<rparr>, w2)
         else if cmp > 0 then do { w3 \<leftarrow> set_left parent created w2; Some (m, w3) }
         else do { w3 \<leftarrow> set_right parent created w2; Some (m, w3) });
       let m2 = m1\<lparr>t_size := sz_add (t_size m1) 1\<rparr>;
       (m3, w4) \<leftarrow> treemap_insert_fixup m2 created w3;
       Some (0, Ptr m3, w4) } }"

definition treemap_set ::
    "'v treemap ptr \<Rightarrow> cell ptr \<Rightarrow> 'v ptr \<Rightarrow> 'v tworld \<Rightarrow> (int \<times> 'v treemap ptr \<times> 'v tworld) option" where
  "treemap_set p key value w = (case p of NULL \<Rightarrow> Some (- 1, NULL, w) | Ptr m \<Rightarrow> do {
     valid \<leftarrow> treemap_key_is_valid m key;
     if \<not> valid \<or> value = NULL then Some (- 1, p, w)
     else do {
       (node, parent, cmp) \<leftarrow> set_loop m (pt key) (t_root m) NULL 0 w;
       if node \<noteq> NULL then replace_at m node (pt value) w
       else insert_at m parent cmp (pt key) (pt value) w } })"

definition treemap_contains :: "'v treemap ptr \<Rightarrow> cell ptr \<Rightarrow> 'v tworld \<Rightarrow> int option" where
  "treemap_contains p key w = (case p of NULL \<Rightarrow> Some 0 | Ptr m \<Rightarrow> do {
     valid \<leftarrow> treemap_key_is_valid m key;
     if \<not> valid then Some 0
     else do {
       node \<leftarrow> treemap_find_node m (pt key) w;
       Some (if node \<noteq> NULL then 1 else 0) } })"

section \<open>Deletion\<close>

definition treemap_transplant ::
    "'v treemap \<Rightarrow> nat ptr \<Rightarrow> nat ptr \<Rightarrow> 'v tworld \<Rightarrow> ('v treemap \<times> 'v tworld) option" where
  "treemap_transplant m old_node repl w = do {
     up \<leftarrow> parent_of old_node w;
     (m1, w1) \<leftarrow> hang_left_first m up old_node repl w;
     up1 \<leftarrow> parent_of old_node w1;
     w2 \<leftarrow> adopt repl up1 w1;
     Some (m1, w2) }"

text \<open>The two branches of the body of the loop in \<open>treemap_delete_fixup\<close>.\<close>

definition delete_fixup_left ::
    "'v treemap \<Rightarrow> nat ptr \<Rightarrow> 'v tworld \<Rightarrow> ('v treemap \<times> nat ptr \<times> nat ptr \<times> 'v tworld) option" where
  "delete_fixup_left m parent w = do {
     sibling \<leftarrow> right_of parent w;
     c \<leftarrow> treemap_color_of sibling w;
     (m1, s1, w1) \<leftarrow> (if c = TREEMAP_RED then do {
         wa \<leftarrow> treemap_set_color sibling TREEMAP_BLACK w;
         wb \<leftarrow> treemap_set_color parent TREEMAP_RED wa;
         (ma, wc) \<leftarrow> treemap_left_rotate m parent wb;
         s \<leftarrow> right_of parent wc;
         Some (ma, s, wc) }
       else Some (m, sibling, w));
     l1 \<leftarrow> treemap_left_child s1 w1;
     r1 \<leftarrow> treemap_right_child s1 w1;
     lc \<leftarrow> treemap_color_of l1 w1;
     rc \<leftarrow> treemap_color_of r1 w1;
     if lc = TREEMAP_BLACK \<and> rc = TREEMAP_BLACK then do {
       w2 \<leftarrow> treemap_set_color s1 TREEMAP_RED w1;
       up \<leftarrow> parent_of parent w2;
       Some (m1, parent, up, w2) }
     else do {
       (m2, s2, r2, w2) \<leftarrow> (if rc = TREEMAP_BLACK then do {
           wa \<leftarrow> treemap_set_color l1 TREEMAP_BLACK w1;
           wb \<leftarrow> treemap_set_color s1 TREEMAP_RED wa;
           (ma, wc) \<leftarrow> (if s1 \<noteq> NULL then treemap_right_rotate m1 s1 wb else Some (m1, wb));
           s \<leftarrow> right_of parent wc;
           _ \<leftarrow> treemap_left_child s wc;
           r \<leftarrow> treemap_right_child s wc;
           Some (ma, s, r, wc) }
         else Some (m1, s1, r1, w1));
       pc \<leftarrow> treemap_color_of parent w2;
       w3 \<leftarrow> treemap_set_color s2 pc w2;
       w4 \<leftarrow> treemap_set_color parent TREEMAP_BLACK w3;
       w5 \<leftarrow> treemap_set_color r2 TREEMAP_BLACK w4;
       (m3, w6) \<leftarrow> treemap_left_rotate m2 parent w5;
       Some (m3, t_root m3, NULL, w6) } }"

definition delete_fixup_right ::
    "'v treemap \<Rightarrow> nat ptr \<Rightarrow> 'v tworld \<Rightarrow> ('v treemap \<times> nat ptr \<times> nat ptr \<times> 'v tworld) option" where
  "delete_fixup_right m parent w = do {
     sibling \<leftarrow> left_of parent w;
     c \<leftarrow> treemap_color_of sibling w;
     (m1, s1, w1) \<leftarrow> (if c = TREEMAP_RED then do {
         wa \<leftarrow> treemap_set_color sibling TREEMAP_BLACK w;
         wb \<leftarrow> treemap_set_color parent TREEMAP_RED wa;
         (ma, wc) \<leftarrow> treemap_right_rotate m parent wb;
         s \<leftarrow> left_of parent wc;
         Some (ma, s, wc) }
       else Some (m, sibling, w));
     l1 \<leftarrow> treemap_left_child s1 w1;
     r1 \<leftarrow> treemap_right_child s1 w1;
     rc \<leftarrow> treemap_color_of r1 w1;
     lc \<leftarrow> treemap_color_of l1 w1;
     if rc = TREEMAP_BLACK \<and> lc = TREEMAP_BLACK then do {
       w2 \<leftarrow> treemap_set_color s1 TREEMAP_RED w1;
       up \<leftarrow> parent_of parent w2;
       Some (m1, parent, up, w2) }
     else do {
       (m2, s2, l2, w2) \<leftarrow> (if lc = TREEMAP_BLACK then do {
           wa \<leftarrow> treemap_set_color r1 TREEMAP_BLACK w1;
           wb \<leftarrow> treemap_set_color s1 TREEMAP_RED wa;
           (ma, wc) \<leftarrow> (if s1 \<noteq> NULL then treemap_left_rotate m1 s1 wb else Some (m1, wb));
           s \<leftarrow> left_of parent wc;
           l \<leftarrow> treemap_left_child s wc;
           _ \<leftarrow> treemap_right_child s wc;
           Some (ma, s, l, wc) }
         else Some (m1, s1, l1, w1));
       pc \<leftarrow> treemap_color_of parent w2;
       w3 \<leftarrow> treemap_set_color s2 pc w2;
       w4 \<leftarrow> treemap_set_color parent TREEMAP_BLACK w3;
       w5 \<leftarrow> treemap_set_color l2 TREEMAP_BLACK w4;
       (m3, w6) \<leftarrow> treemap_right_rotate m2 parent w5;
       Some (m3, t_root m3, NULL, w6) } }"

partial_function (option) delete_fixup_loop ::
    "'v treemap \<Rightarrow> nat ptr \<Rightarrow> nat ptr \<Rightarrow> 'v tworld \<Rightarrow> ('v treemap \<times> nat ptr \<times> 'v tworld) option" where
  "delete_fixup_loop m node parent w =
     (if node = t_root m then Some (m, node, w)
      else do {
        c \<leftarrow> treemap_color_of node w;
        if c \<noteq> TREEMAP_BLACK then Some (m, node, w)
        else if parent = NULL then Some (m, node, w)
        else do {
          l \<leftarrow> left_of parent w;
          (m1, node1, parent1, w1) \<leftarrow> (if node = l then delete_fixup_left m parent w else delete_fixup_right m parent w);
          delete_fixup_loop m1 node1 parent1 w1 } })"

definition treemap_delete_fixup ::
    "'v treemap \<Rightarrow> nat ptr \<Rightarrow> nat ptr \<Rightarrow> 'v tworld \<Rightarrow> ('v treemap \<times> 'v tworld) option" where
  "treemap_delete_fixup m node parent w = do {
     (m1, node1, w1) \<leftarrow> delete_fixup_loop m node parent w;
     w2 \<leftarrow> treemap_set_color node1 TREEMAP_BLACK w1;
     Some (m1, w2) }"

text \<open>The three branches of \<open>treemap_delete\<close> that take the node out of the tree: the map, the node
  where the colours may be wrong, its parent, the colour that was lost, and the world.\<close>

definition take_place :: "'v treemap \<Rightarrow> nat ptr \<Rightarrow> nat ptr \<Rightarrow> 'v tworld \<Rightarrow> ('v treemap \<times> 'v tworld) option" where
  "take_place m node moved w = do {
     (m1, w1) \<leftarrow> treemap_transplant m node moved w;
     l \<leftarrow> left_of node w1;
     w2 \<leftarrow> set_left moved l w1;
     l1 \<leftarrow> left_of moved w2;
     w3 \<leftarrow> set_parent l1 moved w2;
     n \<leftarrow> get_node node w3;
     w4 \<leftarrow> modify moved (t_color_update (\<lambda>_. t_color n)) w3;
     Some (m1, w4) }"

definition remove_successor ::
    "'v treemap \<Rightarrow> nat ptr \<Rightarrow> 'v tworld
     \<Rightarrow> ('v treemap \<times> nat ptr \<times> nat ptr \<times> treemap_color \<times> 'v tworld) option" where
  "remove_successor m node w = do {
     r \<leftarrow> right_of node w;
     moved \<leftarrow> treemap_minimum r w;
     mv \<leftarrow> get_node moved w;
     let removed_color = t_color mv;
     let fix_node = t_right mv;
     (m1, fix_parent, w1) \<leftarrow> (if t_parent mv = node then do {
         w1 \<leftarrow> adopt fix_node moved w;
         Some (m, moved, w1) }
       else do {
         (ma, wa) \<leftarrow> treemap_transplant m moved (t_right mv) w;
         r1 \<leftarrow> right_of node wa;
         wb \<leftarrow> set_right moved r1 wa;
         r2 \<leftarrow> right_of moved wb;
         wc \<leftarrow> set_parent r2 moved wb;
         Some (ma, t_parent mv, wc) });
     (m2, w2) \<leftarrow> take_place m1 node moved w1;
     Some (m2, fix_node, fix_parent, removed_color, w2) }"

definition unlink_node ::
    "'v treemap \<Rightarrow> nat ptr \<Rightarrow> 'v tworld
     \<Rightarrow> ('v treemap \<times> nat ptr \<times> nat ptr \<times> treemap_color \<times> 'v tworld) option" where
  "unlink_node m node w = do {
     n \<leftarrow> get_node node w;
     if t_left n = NULL then do {
       (m1, w1) \<leftarrow> treemap_transplant m node (t_right n) w;
       Some (m1, t_right n, t_parent n, t_color n, w1) }
     else if t_right n = NULL then do {
       (m1, w1) \<leftarrow> treemap_transplant m node (t_left n) w;
       Some (m1, t_left n, t_parent n, t_color n, w1) }
     else remove_successor m node w }"

definition treemap_delete ::
    "'v treemap ptr \<Rightarrow> cell ptr \<Rightarrow> 'v tworld \<Rightarrow> (int \<times> 'v treemap ptr \<times> 'v tworld) option" where
  "treemap_delete p key w = (case p of NULL \<Rightarrow> Some (- 1, NULL, w) | Ptr m \<Rightarrow> do {
     valid \<leftarrow> treemap_key_is_valid m key;
     if \<not> valid then Some (- 1, p, w)
     else do {
       node \<leftarrow> treemap_find_node m (pt key) w;
       if node = NULL then Some (- 1, p, w)
       else do {
         (m1, fix_node, fix_parent, removed_color, w1) \<leftarrow> unlink_node m node w;
         k \<leftarrow> key_at (treemap_key_slot m1 node) w1;
         w2 \<leftarrow> treemap_destroy_key m1 k w1;
         x \<leftarrow> value_at (treemap_value_slot m1 node) w2;
         w3 \<leftarrow> free_node node (treemap_destroy_value m1 x w2);
         let m2 = m1\<lparr>t_size := sz_sub (t_size m1) 1\<rparr>;
         (m3, w4) \<leftarrow> (if removed_color = TREEMAP_BLACK then treemap_delete_fixup m2 fix_node fix_parent w3
           else Some (m2, w3));
         Some (0, Ptr m3, w4) } } })"

section \<open>Life cycle\<close>

partial_function (option) treemap_clear_node :: "'v treemap \<Rightarrow> nat ptr \<Rightarrow> 'v tworld \<Rightarrow> 'v tworld option" where
  "treemap_clear_node m node w =
     (if node = NULL then Some w
      else do {
        l \<leftarrow> left_of node w;
        w1 \<leftarrow> treemap_clear_node m l w;
        r \<leftarrow> right_of node w1;
        w2 \<leftarrow> treemap_clear_node m r w1;
        k \<leftarrow> key_at (treemap_key_slot m node) w2;
        w3 \<leftarrow> treemap_destroy_key m k w2;
        x \<leftarrow> value_at (treemap_value_slot m node) w3;
        free_node node (treemap_destroy_value m x w3) })"

definition treemap_clear :: "'v treemap ptr \<Rightarrow> 'v tworld \<Rightarrow> ('v treemap ptr \<times> 'v tworld) option" where
  "treemap_clear p w = (case p of NULL \<Rightarrow> Some (NULL, w) | Ptr m \<Rightarrow> do {
     w1 \<leftarrow> treemap_clear_node m (t_root m) w;
     Some (Ptr (m\<lparr>t_root := NULL, t_size := 0\<rparr>), w1) })"

definition treemap_init ::
    "'v treemap ptr \<Rightarrow> int \<Rightarrow> size_t \<Rightarrow> size_t \<Rightarrow> (cell \<Rightarrow> cell \<Rightarrow> int) ptr \<Rightarrow> bool \<Rightarrow> ('v \<Rightarrow> 'v) option
     \<Rightarrow> int \<times> 'v treemap ptr" where
  "treemap_init p key_kind key_size value_size key_compare value_destroy value_copy =
     (if p = NULL \<or> key_size = 0 \<or> value_size = 0 \<or> key_compare = NULL then (- 1, p)
      else if key_kind \<noteq> KEY_SCALAR \<and> key_kind \<noteq> KEY_CSTR then (- 1, p)
      else if key_kind = KEY_CSTR \<and> key_size \<noteq> 8 then (- 1, p)
      else (0, Ptr \<lparr>t_size = 0, t_key_size = key_size, t_value_size = value_size, t_key_kind = key_kind,
        t_key_compare = pt key_compare, t_value_destroy = value_destroy, t_value_copy = value_copy,
        t_root = NULL\<rparr>))"

definition treemap_destroy :: "'v treemap ptr \<Rightarrow> 'v tworld \<Rightarrow> ('v treemap ptr \<times> 'v tworld) option" where
  "treemap_destroy p w = (case p of NULL \<Rightarrow> Some (NULL, w) | Ptr _ \<Rightarrow> treemap_clear p w)"

definition raw_treemap :: "'v treemap" where
  "raw_treemap = \<lparr>t_size = 0, t_key_size = 0, t_value_size = 0, t_key_kind = 0, t_key_compare = (\<lambda>_ _. 0),
     t_value_destroy = False, t_value_copy = None, t_root = NULL\<rparr>"

definition treemap_new ::
    "int \<Rightarrow> size_t \<Rightarrow> size_t \<Rightarrow> (cell \<Rightarrow> cell \<Rightarrow> int) ptr \<Rightarrow> bool \<Rightarrow> ('v \<Rightarrow> 'v) option \<Rightarrow> 'v tworld
     \<Rightarrow> 'v treemap ptr \<times> 'v tworld" where
  "treemap_new key_kind key_size value_size key_compare value_destroy value_copy w =
     (let (ok, w1) = malloc 64 w in
      if \<not> ok then (NULL, w1)
      else let (rc, p) = treemap_init (Ptr raw_treemap) key_kind key_size value_size key_compare value_destroy value_copy in
        if rc \<noteq> 0 then (NULL, free_block w1) else (p, w1))"

definition treemap_free :: "'v treemap ptr \<Rightarrow> 'v tworld \<Rightarrow> 'v tworld option" where
  "treemap_free p w = (case p of NULL \<Rightarrow> Some w | Ptr _ \<Rightarrow> do {
     (_, w1) \<leftarrow> treemap_destroy p w; Some (free_block w1) })"

section \<open>Access and iteration\<close>

definition treemap_at :: "'v treemap ptr \<Rightarrow> cell ptr \<Rightarrow> 'v tworld \<Rightarrow> nat ptr option" where
  "treemap_at p key w = (case p of NULL \<Rightarrow> Some NULL | Ptr m \<Rightarrow> do {
     valid \<leftarrow> treemap_key_is_valid m key;
     if \<not> valid then Some NULL
     else do {
       node \<leftarrow> treemap_find_node m (pt key) w;
       Some (if node = NULL then NULL else treemap_value_slot m node) } })"

definition treemap_at_const :: "'v treemap ptr \<Rightarrow> cell ptr \<Rightarrow> 'v tworld \<Rightarrow> nat ptr option" where
  "treemap_at_const p key w = (case p of NULL \<Rightarrow> Some NULL | Ptr m \<Rightarrow> do {
     valid \<leftarrow> treemap_key_is_valid m key;
     if \<not> valid then Some NULL
     else do {
       node \<leftarrow> treemap_find_node m (pt key) w;
       Some (if node = NULL then NULL else treemap_value_slot_const m node) } })"

definition treemap_first :: "'v treemap ptr \<Rightarrow> 'v tworld \<Rightarrow> nat ptr option" where
  "treemap_first p w = (case p of NULL \<Rightarrow> Some NULL | Ptr m \<Rightarrow> treemap_minimum (t_root m) w)"

definition treemap_first_const :: "'v treemap ptr \<Rightarrow> 'v tworld \<Rightarrow> nat ptr option" where
  "treemap_first_const p w = (case p of NULL \<Rightarrow> Some NULL | Ptr m \<Rightarrow> treemap_minimum (t_root m) w)"

definition treemap_last :: "'v treemap ptr \<Rightarrow> 'v tworld \<Rightarrow> nat ptr option" where
  "treemap_last p w = (case p of NULL \<Rightarrow> Some NULL | Ptr m \<Rightarrow> treemap_maximum (t_root m) w)"

definition treemap_last_const :: "'v treemap ptr \<Rightarrow> 'v tworld \<Rightarrow> nat ptr option" where
  "treemap_last_const p w = (case p of NULL \<Rightarrow> Some NULL | Ptr m \<Rightarrow> treemap_maximum (t_root m) w)"

definition treemap_lower_bound :: "'v treemap ptr \<Rightarrow> cell ptr \<Rightarrow> 'v tworld \<Rightarrow> nat ptr option" where
  "treemap_lower_bound p key w = treemap_find_bound_node p key False w"

definition treemap_lower_bound_const :: "'v treemap ptr \<Rightarrow> cell ptr \<Rightarrow> 'v tworld \<Rightarrow> nat ptr option" where
  "treemap_lower_bound_const p key w = treemap_find_bound_node p key False w"

definition treemap_upper_bound :: "'v treemap ptr \<Rightarrow> cell ptr \<Rightarrow> 'v tworld \<Rightarrow> nat ptr option" where
  "treemap_upper_bound p key w = treemap_find_bound_node p key True w"

definition treemap_upper_bound_const :: "'v treemap ptr \<Rightarrow> cell ptr \<Rightarrow> 'v tworld \<Rightarrow> nat ptr option" where
  "treemap_upper_bound_const p key w = treemap_find_bound_node p key True w"

partial_function (option) next_loop :: "nat ptr \<Rightarrow> 'v tworld \<Rightarrow> nat ptr option" where
  "next_loop node w = do {
     up \<leftarrow> parent_of node w;
     if up = NULL then Some NULL
     else do {
       r \<leftarrow> right_of up w;
       if node = r then next_loop up w else Some up } }"

definition treemap_next :: "nat ptr \<Rightarrow> 'v tworld \<Rightarrow> nat ptr option" where
  "treemap_next node w =
     (if node = NULL then Some NULL
      else do {
        r \<leftarrow> right_of node w;
        if r \<noteq> NULL then treemap_minimum r w else next_loop node w })"

definition treemap_next_const :: "nat ptr \<Rightarrow> 'v tworld \<Rightarrow> nat ptr option" where
  "treemap_next_const node w = treemap_next node w"

partial_function (option) prev_loop :: "nat ptr \<Rightarrow> 'v tworld \<Rightarrow> nat ptr option" where
  "prev_loop node w = do {
     up \<leftarrow> parent_of node w;
     if up = NULL then Some NULL
     else do {
       l \<leftarrow> left_of up w;
       if node = l then prev_loop up w else Some up } }"

definition treemap_prev :: "nat ptr \<Rightarrow> 'v tworld \<Rightarrow> nat ptr option" where
  "treemap_prev node w =
     (if node = NULL then Some NULL
      else do {
        l \<leftarrow> left_of node w;
        if l \<noteq> NULL then treemap_maximum l w else prev_loop node w })"

definition treemap_prev_const :: "nat ptr \<Rightarrow> 'v tworld \<Rightarrow> nat ptr option" where
  "treemap_prev_const node w = treemap_prev node w"

definition treemap_node_key :: "'v treemap ptr \<Rightarrow> nat ptr \<Rightarrow> nat ptr" where
  "treemap_node_key p node = (if p = NULL \<or> node = NULL then NULL else treemap_key_slot (pt p) node)"

definition treemap_node_key_const :: "'v treemap ptr \<Rightarrow> nat ptr \<Rightarrow> nat ptr" where
  "treemap_node_key_const p node = (if p = NULL \<or> node = NULL then NULL else treemap_key_slot_const (pt p) node)"

definition treemap_node_value :: "'v treemap ptr \<Rightarrow> nat ptr \<Rightarrow> nat ptr" where
  "treemap_node_value p node = (if p = NULL \<or> node = NULL then NULL else treemap_value_slot (pt p) node)"

definition treemap_node_value_const :: "'v treemap ptr \<Rightarrow> nat ptr \<Rightarrow> nat ptr" where
  "treemap_node_value_const p node = (if p = NULL \<or> node = NULL then NULL else treemap_value_slot_const (pt p) node)"

section \<open>Copying\<close>

partial_function (option) treemap_copy_loop ::
    "'v treemap ptr \<Rightarrow> nat ptr \<Rightarrow> 'v treemap ptr \<Rightarrow> 'v tworld \<Rightarrow> (int \<times> 'v treemap ptr \<times> 'v tworld) option" where
  "treemap_copy_loop src node dst w =
     (if node = NULL then Some (0, dst, w)
      else do {
        k \<leftarrow> key_at (treemap_node_key_const src node) w;
        x \<leftarrow> value_at (treemap_node_value_const src node) w;
        (rc, dst1, w1) \<leftarrow> treemap_set dst (Ptr k) (Ptr x) w;
        if rc \<noteq> 0 then do { (dst2, w2) \<leftarrow> treemap_clear dst1 w1; Some (- 1, dst2, w2) }
        else do {
          next \<leftarrow> treemap_next_const node w1;
          treemap_copy_loop src next dst1 w1 } })"

definition treemap_copy ::
    "bool \<Rightarrow> 'v treemap ptr \<Rightarrow> 'v treemap ptr \<Rightarrow> 'v tworld \<Rightarrow> (int \<times> 'v treemap ptr \<times> 'v tworld) option" where
  "treemap_copy same dst src w =
     (if dst = NULL \<or> src = NULL then Some (- 1, dst, w)
      else if same then Some (0, dst, w)
      else do {
        (dst1, w1) \<leftarrow> treemap_destroy dst w;
        let s = pt src;
        let (rc, dst2) = treemap_init dst1 (t_key_kind s) (t_key_size s) (t_value_size s) (Ptr (t_key_compare s))
          (t_value_destroy s) (t_value_copy s);
        if rc \<noteq> 0 then Some (- 1, dst2, w1)
        else do {
          first \<leftarrow> treemap_first_const src w1;
          treemap_copy_loop src first dst2 w1 } })"

definition treemap_clone :: "'v treemap ptr \<Rightarrow> 'v tworld \<Rightarrow> ('v treemap ptr \<times> 'v tworld) option" where
  "treemap_clone src w = (case src of NULL \<Rightarrow> Some (NULL, w) | Ptr s \<Rightarrow>
     let (copy, w1) = treemap_new (t_key_kind s) (t_key_size s) (t_value_size s) (Ptr (t_key_compare s))
       (t_value_destroy s) (t_value_copy s) w in
     if copy = NULL then Some (NULL, w1)
     else do {
       (rc, copy1, w2) \<leftarrow> treemap_copy False copy src w1;
       if rc \<noteq> 0 then do { w3 \<leftarrow> treemap_free copy1 w2; Some (NULL, w3) } else Some (copy1, w2) })"

section \<open>The macros of the header\<close>

definition treemap_size :: "'v treemap \<Rightarrow> size_t" where
  "treemap_size m = t_size m"

definition treemap_get_as :: "'v treemap ptr \<Rightarrow> cell \<Rightarrow> 'v tworld \<Rightarrow> nat ptr option" where
  "treemap_get_as p key_value w = treemap_at p (Ptr key_value) w"

definition treemap_get_const_as :: "'v treemap ptr \<Rightarrow> cell \<Rightarrow> 'v tworld \<Rightarrow> nat ptr option" where
  "treemap_get_const_as p key_value w = treemap_at_const p (Ptr key_value) w"

definition treemap_contains_value :: "'v treemap ptr \<Rightarrow> cell \<Rightarrow> 'v tworld \<Rightarrow> int option" where
  "treemap_contains_value p key_value w = treemap_contains p (Ptr key_value) w"

definition treemap_delete_value ::
    "'v treemap ptr \<Rightarrow> cell \<Rightarrow> 'v tworld \<Rightarrow> (int \<times> 'v treemap ptr \<times> 'v tworld) option" where
  "treemap_delete_value p key_value w = treemap_delete p (Ptr key_value) w"

definition treemap_set_value ::
    "'v treemap ptr \<Rightarrow> cell \<Rightarrow> 'v \<Rightarrow> 'v tworld \<Rightarrow> (int \<times> 'v treemap ptr \<times> 'v tworld) option" where
  "treemap_set_value p key_value value_value w = treemap_set p (Ptr key_value) (Ptr value_value) w"

definition treemap_node_key_as :: "'v treemap ptr \<Rightarrow> nat ptr \<Rightarrow> nat ptr" where
  "treemap_node_key_as p node = treemap_node_key p node"

definition treemap_node_key_const_as :: "'v treemap ptr \<Rightarrow> nat ptr \<Rightarrow> nat ptr" where
  "treemap_node_key_const_as p node = treemap_node_key_const p node"

definition treemap_node_value_as :: "'v treemap ptr \<Rightarrow> nat ptr \<Rightarrow> nat ptr" where
  "treemap_node_value_as p node = treemap_node_value p node"

definition treemap_node_value_const_as :: "'v treemap ptr \<Rightarrow> nat ptr \<Rightarrow> nat ptr" where
  "treemap_node_value_const_as p node = treemap_node_value_const p node"

end
