(* ===== verification/Rbtree.thy ===== *)
theory Rbtree
  imports Treemap
begin

text \<open>
  Red-black trees with their addresses, as mathematical objects: trees, contexts (a tree with a
  hole, from the hole up to the root), the colour and height invariant of both, sorted lists of
  entries, and the descent to a key. No pointer is followed here.
\<close>

section \<open>Trees and contexts\<close>

datatype side = Lside | Rside

fun opposite :: "side \<Rightarrow> side" where
  "opposite Lside = Rside"
| "opposite Rside = Lside"

datatype 'v rtree = Tip | Branch "'v rtree" nat treemap_color cell 'v "'v rtree"

text \<open>A node with the tree \<open>t\<close> on side \<open>s\<close> and \<open>u\<close> on the other.\<close>

definition fork :: "side \<Rightarrow> 'v rtree \<Rightarrow> nat \<Rightarrow> treemap_color \<Rightarrow> cell \<Rightarrow> 'v \<Rightarrow> 'v rtree \<Rightarrow> 'v rtree" where
  "fork s t a c k v u = (case s of Lside \<Rightarrow> Branch t a c k v u | Rside \<Rightarrow> Branch u a c k v t)"

datatype 'v ctx = Top | Step side nat treemap_color cell 'v "'v rtree" "'v ctx"

fun plug :: "'v rtree \<Rightarrow> 'v ctx \<Rightarrow> 'v rtree" where
  "plug t Top = t"
| "plug t (Step s a c k v u g) = plug (fork s t a c k v u) g"

lemma fork_opposite: "fork (opposite s) t a c k v u = fork s u a c k v t"
  by (cases s) (simp_all add: fork_def)

lemma opposite_opposite [simp]: "opposite (opposite s) = s" "opposite s \<noteq> s" "s \<noteq> opposite s"
  by (cases s; simp)+

lemma Branch_fork: "Branch l a c k v r = fork Lside l a c k v r" "Branch l a c k v r = fork Rside r a c k v l"
  by (simp_all add: fork_def)

lemma fork_neq_Tip [simp]: "fork s t a c k v u \<noteq> Tip" "Tip \<noteq> fork s t a c k v u"
  by (cases s; simp add: fork_def)+

lemma fork_cases: "t = Tip \<or> (\<exists>x a c k v y. t = fork s x a c k v y)"
  by (cases t; cases s) (auto simp: fork_def)

text \<open>The entries with their addresses, in order.\<close>

fun items :: "'v rtree \<Rightarrow> (nat \<times> cell \<times> 'v) list" where
  "items Tip = []"
| "items (Branch l a c k v r) = items l @ (a, k, v) # items r"

fun before :: "'v ctx \<Rightarrow> (nat \<times> cell \<times> 'v) list" where
  "before Top = []"
| "before (Step s a c k v u g) = before g @ (case s of Lside \<Rightarrow> [] | Rside \<Rightarrow> items u @ [(a, k, v)])"

fun after :: "'v ctx \<Rightarrow> (nat \<times> cell \<times> 'v) list" where
  "after Top = []"
| "after (Step s a c k v u g) = (case s of Lside \<Rightarrow> (a, k, v) # items u | Rside \<Rightarrow> []) @ after g"

lemma items_fork: "items (fork s t a c k v u) = (case s of Lside \<Rightarrow> items t @ (a, k, v) # items u | Rside \<Rightarrow> items u @ (a, k, v) # items t)"
  by (cases s) (simp_all add: fork_def)

lemma items_plug: "items (plug t g) = before g @ items t @ after g"
  by (induction g arbitrary: t) (auto simp: items_fork split: side.splits)

lemma items_Nil [simp]: "items t = [] \<longleftrightarrow> t = Tip"
  by (cases t) auto

lemma plug_Tip: "plug t g = Tip \<Longrightarrow> t = Tip \<and> g = Top"
  by (induction g arbitrary: t) (simp, metis fork_neq_Tip(1) plug.simps(2))

text \<open>A context inside another.\<close>

fun graft :: "'v ctx \<Rightarrow> 'v ctx \<Rightarrow> 'v ctx" where
  "graft Top g = g"
| "graft (Step s a c k v u h) g = Step s a c k v u (graft h g)"

lemma plug_graft [simp]: "plug t (graft h g) = plug (plug t h) g"
  by (induction h arbitrary: t) auto

lemma items_graft [simp]: "before (graft h g) = before g @ before h" "after (graft h g) = after h @ after g"
  by (induction h) auto

section \<open>Colours and heights\<close>

lemma color_cases [simp]: "c \<noteq> TREEMAP_RED \<longleftrightarrow> c = TREEMAP_BLACK" "c \<noteq> TREEMAP_BLACK \<longleftrightarrow> c = TREEMAP_RED"
  by (cases c; simp)+

fun hue :: "'v rtree \<Rightarrow> treemap_color" where
  "hue Tip = TREEMAP_BLACK"
| "hue (Branch l a c k v r) = c"

fun paint :: "treemap_color \<Rightarrow> 'v rtree \<Rightarrow> 'v rtree" where
  "paint c Tip = Tip"
| "paint c (Branch l a _ k v r) = Branch l a c k v r"

fun bh :: "'v rtree \<Rightarrow> nat" where
  "bh Tip = 0"
| "bh (Branch l a c k v r) = bh l + (if c = TREEMAP_BLACK then 1 else 0)"

fun rbt :: "'v rtree \<Rightarrow> bool" where
  "rbt Tip \<longleftrightarrow> True"
| "rbt (Branch l a c k v r) \<longleftrightarrow> rbt l \<and> rbt r \<and> bh l = bh r
     \<and> (c = TREEMAP_RED \<longrightarrow> hue l = TREEMAP_BLACK \<and> hue r = TREEMAP_BLACK)"

text \<open>The context is one of a red-black tree for a hole of colour \<open>c\<close> and black height \<open>h\<close>.\<close>

fun ctx_ok :: "treemap_color \<Rightarrow> nat \<Rightarrow> 'v ctx \<Rightarrow> bool" where
  "ctx_ok c h Top \<longleftrightarrow> c = TREEMAP_BLACK"
| "ctx_ok c h (Step s a d k v u g) \<longleftrightarrow> rbt u \<and> bh u = h
     \<and> (d = TREEMAP_RED \<longrightarrow> c = TREEMAP_BLACK \<and> hue u = TREEMAP_BLACK)
     \<and> ctx_ok d (h + (if d = TREEMAP_BLACK then 1 else 0)) g"

definition rb_tree :: "'v rtree \<Rightarrow> bool" where
  "rb_tree t \<longleftrightarrow> rbt t \<and> hue t = TREEMAP_BLACK"

lemma fork_simps [simp]:
  "hue (fork s t a c k v u) = c"
  "rbt (fork s t a c k v u) \<longleftrightarrow> rbt t \<and> rbt u \<and> bh t = bh u \<and> (c = TREEMAP_RED \<longrightarrow> hue t = TREEMAP_BLACK \<and> hue u = TREEMAP_BLACK)"
  "paint d (fork s t a c k v u) = fork s t a d k v u"
  by (cases s; auto simp: fork_def)+

lemma bh_fork: "bh t = bh u \<Longrightarrow> bh (fork s t a c k v u) = bh t + (if c = TREEMAP_BLACK then 1 else 0)"
  by (cases s) (auto simp: fork_def)

lemma rb_plug: "rb_tree (plug t g) \<longleftrightarrow> rbt t \<and> ctx_ok (hue t) (bh t) g"
proof (induction g arbitrary: t)
  case (Step s a c k v u g)
  show ?case
  proof (cases "bh t = bh u")
    case True
    then show ?thesis using Step.IH [of "fork s t a c k v u"] bh_fork [OF True, of s a c k v] by auto
  qed (use Step.IH in auto)
qed (auto simp: rb_tree_def)

lemma items_paint [simp]: "items (paint c t) = items t"
  by (cases t) auto

lemma paint_simps [simp]: "hue (paint TREEMAP_BLACK t) = TREEMAP_BLACK" "hue t = c \<Longrightarrow> paint c t = t"
  by (cases t; auto)+

lemma rbt_black: "rbt t \<Longrightarrow> rbt (paint TREEMAP_BLACK t)"
  by (cases t) auto

lemma bh_pos: "0 < bh t \<Longrightarrow> t \<noteq> Tip"
  by auto

lemma hue_red: "hue t = TREEMAP_RED \<Longrightarrow> t \<noteq> Tip"
  by auto

text \<open>A tree of \<open>n\<close> entries has a path of at most \<open>2 * log\<^sub>2 (n + 1)\<close> nodes.\<close>

fun depth :: "'v rtree \<Rightarrow> nat" where
  "depth Tip = 0"
| "depth (Branch l a c k v r) = Suc (max (depth l) (depth r))"

lemma bh_size: "rbt t \<Longrightarrow> 2 ^ bh t \<le> length (items t) + 1"
  by (induction t) auto

lemma depth_bh: "rbt t \<Longrightarrow> depth t \<le> 2 * bh t + (if hue t = TREEMAP_RED then 1 else 0)"
  by (induction t) (auto split: if_splits)

lemma rb_tree_depth:
  assumes "rb_tree t"
  shows "2 ^ depth t \<le> (length (items t) + 1) ^ 2"
proof -
  have "rbt t" "hue t = TREEMAP_BLACK" using assms by (simp_all add: rb_tree_def)
  then have "depth t \<le> bh t * 2" using depth_bh [of t] by simp
  then have "(2 :: nat) ^ depth t \<le> 2 ^ (bh t * 2)" by (rule power_increasing) simp
  also have "\<dots> = (2 ^ bh t) ^ 2" by (rule power_mult)
  also have "\<dots> \<le> (length (items t) + 1) ^ 2" by (rule power_mono [OF bh_size]) (use \<open>rbt t\<close> in simp_all)
  finally show ?thesis .
qed

section \<open>Sorted lists of entries\<close>

text \<open>A comparison function on the keys of a map.\<close>

definition orders :: "(cell \<Rightarrow> cell \<Rightarrow> int) \<Rightarrow> cell set \<Rightarrow> bool" where
  "orders cmp K \<longleftrightarrow> (\<forall>a \<in> K. \<forall>b \<in> K. sgn (cmp a b) = - sgn (cmp b a))
     \<and> (\<forall>a \<in> K. \<forall>b \<in> K. \<forall>c \<in> K. cmp a b \<le> 0 \<longrightarrow> cmp b c \<le> 0 \<longrightarrow> cmp a c \<le> 0)"

lemma orders_sym:
  assumes "orders cmp K" "a \<in> K" "b \<in> K"
  shows "cmp a b < 0 \<longleftrightarrow> 0 < cmp b a" "cmp a b = 0 \<longleftrightarrow> cmp b a = 0"
proof -
  have "sgn (cmp a b) = - sgn (cmp b a)" using assms unfolding orders_def by blast
  then show "cmp a b < 0 \<longleftrightarrow> 0 < cmp b a" "cmp a b = 0 \<longleftrightarrow> cmp b a = 0"
    using sgn_less [of "cmp a b"] sgn_greater [of "cmp b a"] sgn_0_0 [of "cmp a b"] sgn_0_0 [of "cmp b a"] by linarith+
qed

lemma orders_trans:
  assumes o: "orders cmp K" "a \<in> K" "b \<in> K" "c \<in> K"
  shows "cmp a b < 0 \<Longrightarrow> cmp b c \<le> 0 \<Longrightarrow> cmp a c < 0" "cmp a b \<le> 0 \<Longrightarrow> cmp b c < 0 \<Longrightarrow> cmp a c < 0"
proof -
  have t: "cmp x y \<le> 0 \<Longrightarrow> cmp y z \<le> 0 \<Longrightarrow> cmp x z \<le> 0" if "x \<in> K" "y \<in> K" "z \<in> K" for x y z
    using o(1) that unfolding orders_def by blast
  note sym = orders_sym [OF o(1)]
  show "cmp a c < 0" if "cmp a b < 0" "cmp b c \<le> 0"
    using t [OF o(2-4)] t [OF o(3,4,2)] sym [OF o(2,3)] sym [OF o(2,4)] that by linarith
  show "cmp a c < 0" if "cmp a b \<le> 0" "cmp b c < 0"
    using t [OF o(2-4)] t [OF o(4,2,3)] sym [OF o(3,4)] sym [OF o(2,4)] that by linarith
qed

definition ordered :: "(cell \<Rightarrow> cell \<Rightarrow> int) \<Rightarrow> (cell \<times> 'v) list \<Rightarrow> bool" where
  "ordered cmp ps \<longleftrightarrow> sorted_wrt (\<lambda>x y. cmp (fst x) (fst y) < 0) ps"

lemma ordered_append: "ordered cmp (ps @ qs) \<longleftrightarrow> ordered cmp ps \<and> ordered cmp qs \<and> (\<forall>x \<in> set ps. \<forall>y \<in> set qs. cmp (fst x) (fst y) < 0)"
  by (auto simp: ordered_def sorted_wrt_append)

lemma ordered_Cons: "ordered cmp (p # ps) \<longleftrightarrow> ordered cmp ps \<and> (\<forall>y \<in> set ps. cmp (fst p) (fst y) < 0)"
  by (auto simp: ordered_def)

lemma ordered_Nil [simp]: "ordered cmp []"
  by (simp add: ordered_def)

text \<open>What the operations do to the sorted entries.\<close>

fun upsert :: "(cell \<Rightarrow> cell \<Rightarrow> int) \<Rightarrow> cell \<Rightarrow> 'v \<Rightarrow> (cell \<times> 'v) list \<Rightarrow> (cell \<times> 'v) list" where
  "upsert cmp k v [] = [(k, v)]"
| "upsert cmp k v ((j, u) # ps) =
     (if cmp j k < 0 then (j, u) # upsert cmp k v ps
      else if cmp j k = 0 then (j, v) # ps else (k, v) # (j, u) # ps)"

fun omit :: "(cell \<Rightarrow> cell \<Rightarrow> int) \<Rightarrow> cell \<Rightarrow> (cell \<times> 'v) list \<Rightarrow> (cell \<times> 'v) list" where
  "omit cmp k [] = []"
| "omit cmp k ((j, u) # ps) =
     (if cmp j k < 0 then (j, u) # omit cmp k ps else if cmp j k = 0 then ps else (j, u) # ps)"

fun entry_for :: "(cell \<Rightarrow> cell \<Rightarrow> int) \<Rightarrow> cell \<Rightarrow> (cell \<times> 'v) list \<Rightarrow> (cell \<times> 'v) option" where
  "entry_for cmp k [] = None"
| "entry_for cmp k ((j, u) # ps) =
     (if cmp j k < 0 then entry_for cmp k ps else if cmp j k = 0 then Some (j, u) else None)"

definition all_less :: "(cell \<Rightarrow> cell \<Rightarrow> int) \<Rightarrow> (cell \<times> 'v) list \<Rightarrow> cell \<Rightarrow> bool" where
  "all_less cmp ps k \<longleftrightarrow> (\<forall>p \<in> set ps. cmp (fst p) k < 0)"

definition all_greater :: "(cell \<Rightarrow> cell \<Rightarrow> int) \<Rightarrow> (cell \<times> 'v) list \<Rightarrow> cell \<Rightarrow> bool" where
  "all_greater cmp ps k \<longleftrightarrow> (\<forall>p \<in> set ps. 0 < cmp (fst p) k)"

lemma all_simps [simp]:
  "all_less cmp [] k" "all_less cmp (p # ps) k \<longleftrightarrow> cmp (fst p) k < 0 \<and> all_less cmp ps k"
  "all_less cmp (ps @ qs) k \<longleftrightarrow> all_less cmp ps k \<and> all_less cmp qs k"
  "all_greater cmp [] k" "all_greater cmp (p # ps) k \<longleftrightarrow> 0 < cmp (fst p) k \<and> all_greater cmp ps k"
  "all_greater cmp (ps @ qs) k \<longleftrightarrow> all_greater cmp ps k \<and> all_greater cmp qs k"
  by (auto simp: all_less_def all_greater_def)

lemma split_less:
  assumes "all_less cmp ps k"
  shows "upsert cmp k v (ps @ qs) = ps @ upsert cmp k v qs" "omit cmp k (ps @ qs) = ps @ omit cmp k qs"
    "entry_for cmp k (ps @ qs) = entry_for cmp k qs"
  using assms by (induction ps) auto

lemma split_greater:
  assumes "all_greater cmp qs k"
  shows "upsert cmp k v qs = (k, v) # qs" "omit cmp k qs = qs" "entry_for cmp k qs = None"
  using assms by (cases qs; auto)+

lemma split_equal:
  assumes "cmp j k = 0"
  shows "upsert cmp k v ((j, u) # qs) = (j, v) # qs" "omit cmp k ((j, u) # qs) = qs"
    "entry_for cmp k ((j, u) # qs) = Some (j, u)"
  using assms by simp_all

end
