(* ===== verification/Treemap_Heap.thy ===== *)
theory Treemap_Heap
  imports Rbtree
begin

text \<open>
  Trees in the store. \<open>holds_tree C up t\<close> says that the cells \<open>C\<close> hold the nodes of \<open>t\<close>, with
  parent pointers, under a parent \<open>up\<close>. \<open>install t w\<close> is the world \<open>w\<close> with the nodes of \<open>t\<close> written
  into the store. The pointer operations become equations between such worlds, with the tree seen as
  a subtree in a context, and the loops of \<open>treemap.c\<close> are executed on trees by these equations. The
  two mirror images of an operation are proved once, for a side.
\<close>

section \<open>Trees in cells\<close>

type_synonym 'v cells = "nat \<Rightarrow> 'v treemap_node option"

fun root_ptr :: "'v rtree \<Rightarrow> nat ptr" where
  "root_ptr Tip = NULL"
| "root_ptr (Branch l a c k v r) = Ptr a"

fun hole_ptr :: "'v ctx \<Rightarrow> nat ptr" where
  "hole_ptr Top = NULL"
| "hole_ptr (Step s a c k v u g) = Ptr a"

definition child :: "side \<Rightarrow> 'v treemap_node \<Rightarrow> nat ptr" where
  "child s n = (case s of Lside \<Rightarrow> t_left n | Rside \<Rightarrow> t_right n)"

definition put_child :: "side \<Rightarrow> nat ptr \<Rightarrow> 'v treemap_node \<Rightarrow> 'v treemap_node" where
  "put_child s v n = (case s of Lside \<Rightarrow> n\<lparr>t_left := v\<rparr> | Rside \<Rightarrow> n\<lparr>t_right := v\<rparr>)"

definition fork_node ::
    "side \<Rightarrow> nat ptr \<Rightarrow> nat ptr \<Rightarrow> nat ptr \<Rightarrow> treemap_color \<Rightarrow> cell \<Rightarrow> 'v \<Rightarrow> 'v treemap_node" where
  "fork_node s x y up c k v = (case s of
     Lside \<Rightarrow> \<lparr>t_left = x, t_right = y, t_parent = up, t_color = c, t_key = Some k, t_value = Some v\<rparr>
   | Rside \<Rightarrow> \<lparr>t_left = y, t_right = x, t_parent = up, t_color = c, t_key = Some k, t_value = Some v\<rparr>)"

lemma fork_node_simps [simp]:
  "child s (fork_node s x y up c k v) = x" "child (opposite s) (fork_node s x y up c k v) = y"
  "t_parent (fork_node s x y up c k v) = up" "t_color (fork_node s x y up c k v) = c"
  "t_key (fork_node s x y up c k v) = Some k" "t_value (fork_node s x y up c k v) = Some v"
  "put_child s z (fork_node s x y up c k v) = fork_node s z y up c k v"
  "put_child (opposite s) z (fork_node s x y up c k v) = fork_node s x z up c k v"
  "t_parent_update (\<lambda>_. q) (fork_node s x y up c k v) = fork_node s x y q c k v"
  "t_color_update (\<lambda>_. d) (fork_node s x y up c k v) = fork_node s x y up d k v"
  "t_value_update (\<lambda>_. Some v') (fork_node s x y up c k v) = fork_node s x y up c k v'"
  by (cases s; simp add: fork_node_def child_def put_child_def)+

fun holds_tree :: "'v cells \<Rightarrow> nat ptr \<Rightarrow> 'v rtree \<Rightarrow> bool" where
  "holds_tree C up Tip \<longleftrightarrow> True"
| "holds_tree C up (Branch l a c k v r) \<longleftrightarrow> C a = Some (fork_node Lside (root_ptr l) (root_ptr r) up c k v)
     \<and> holds_tree C (Ptr a) l \<and> holds_tree C (Ptr a) r"

fun holds_ctx :: "'v cells \<Rightarrow> nat ptr \<Rightarrow> 'v ctx \<Rightarrow> bool" where
  "holds_ctx C h Top \<longleftrightarrow> True"
| "holds_ctx C h (Step s a c k v u g) \<longleftrightarrow> C a = Some (fork_node s h (root_ptr u) (hole_ptr g) c k v)
     \<and> holds_tree C (Ptr a) u \<and> holds_ctx C (Ptr a) g"

lemma root_fork [simp]: "root_ptr (fork s t a c k v u) = Ptr a"
  by (cases s) (simp_all add: fork_def)

lemma holds_fork [simp]:
  "holds_tree C up (fork s t a c k v u) \<longleftrightarrow> C a = Some (fork_node s (root_ptr t) (root_ptr u) up c k v)
     \<and> holds_tree C (Ptr a) t \<and> holds_tree C (Ptr a) u"
  by (cases s) (auto simp: fork_def fork_node_def)

lemma holds_plug: "holds_tree C NULL (plug t g) \<longleftrightarrow> holds_tree C (hole_ptr g) t \<and> holds_ctx C (root_ptr t) g"
  by (induction g arbitrary: t) auto

subsection \<open>Addresses\<close>

definition spots :: "'v rtree \<Rightarrow> nat set" where "spots t = fst ` set (items t)"
definition cspots :: "'v ctx \<Rightarrow> nat set" where "cspots g = fst ` (set (before g) \<union> set (after g))"
definition apart :: "'v rtree \<Rightarrow> bool" where "apart t \<longleftrightarrow> distinct (map fst (items t))"
definition capart :: "'v ctx \<Rightarrow> bool" where "capart g \<longleftrightarrow> distinct (map fst (before g @ after g))"

lemma spots_simps [simp]:
  "spots Tip = {}" "spots (Branch l a c k v r) = insert a (spots l \<union> spots r)"
  "spots (fork s t a c k v u) = insert a (spots t \<union> spots u)" "spots (plug t g) = spots t \<union> cspots g"
  "cspots Top = {}" "cspots (Step s a c k v u g) = insert a (spots u \<union> cspots g)" "spots (paint c t) = spots t"
  by (cases s; auto simp: spots_def cspots_def items_fork items_plug)+

lemma apart_simps [simp]:
  "apart Tip"
  "apart (fork s t a c k v u) \<longleftrightarrow> apart t \<and> apart u \<and> a \<notin> spots t \<and> a \<notin> spots u \<and> spots t \<inter> spots u = {}"
  "capart Top"
  "capart (Step s a c k v u g) \<longleftrightarrow> apart u \<and> capart g \<and> a \<notin> spots u \<and> a \<notin> cspots g \<and> spots u \<inter> cspots g = {}"
  "apart (plug t g) \<longleftrightarrow> apart t \<and> capart g \<and> spots t \<inter> cspots g = {}"
  "apart (paint c t) = apart t"
  by (cases s; auto simp: apart_def capart_def spots_def cspots_def items_fork items_plug)+

lemma root_in_spots: "root_ptr t = Ptr a \<Longrightarrow> a \<in> spots t"
  by (cases t) auto

lemma hole_in_cspots: "hole_ptr g = Ptr a \<Longrightarrow> a \<in> cspots g"
  by (cases g) auto

lemma root_NULL [simp]: "root_ptr t = NULL \<longleftrightarrow> t = Tip" "NULL = root_ptr t \<longleftrightarrow> t = Tip"
  by (cases t; auto)+

lemma hole_NULL [simp]: "hole_ptr g = NULL \<longleftrightarrow> g = Top" "NULL = hole_ptr g \<longleftrightarrow> g = Top"
  by (cases g; auto)+

lemma root_paint [simp]: "root_ptr (paint c t) = root_ptr t"
  by (cases t) auto

text \<open>The root of a plugged tree.\<close>

fun top_ptr :: "nat ptr \<Rightarrow> 'v ctx \<Rightarrow> nat ptr" where
  "top_ptr p Top = p"
| "top_ptr p (Step s a c k v u g) = top_ptr (Ptr a) g"

lemma root_plug [simp]: "root_ptr (plug t g) = top_ptr (root_ptr t) g"
  by (induction g arbitrary: t) auto

lemma top_in: "g \<noteq> Top \<Longrightarrow> \<exists>a \<in> cspots g. \<forall>p. top_ptr p g = Ptr a"
proof (induction g)
  case (Step s a c k v u g)
  then show ?case by (cases g) auto
qed simp

lemma top_outside: "a \<notin> cspots g \<Longrightarrow> Ptr a = top_ptr p g \<longleftrightarrow> g = Top \<and> p = Ptr a"
  using top_in [of g] by (cases g) auto

subsection \<open>Cells that agree\<close>

lemma holds_tree_cong: "(\<And>d. d \<in> spots t \<Longrightarrow> C' d = C d) \<Longrightarrow> holds_tree C' up t \<longleftrightarrow> holds_tree C up t"
  by (induction t arbitrary: up) auto

lemma holds_ctx_cong: "(\<And>d. d \<in> cspots g \<Longrightarrow> C' d = C d) \<Longrightarrow> holds_ctx C' h g \<longleftrightarrow> holds_ctx C h g"
proof (induction g arbitrary: h)
  case (Step s a c k v u g)
  then have "holds_tree C' (Ptr a) u \<longleftrightarrow> holds_tree C (Ptr a) u" by (intro holds_tree_cong) simp
  then show ?case using Step by simp
qed simp

lemma holds_tree_used: "holds_tree C up t \<Longrightarrow> d \<in> spots t \<Longrightarrow> C d \<noteq> None"
  by (induction t arbitrary: up) auto

lemma holds_ctx_used: "holds_ctx C h g \<Longrightarrow> d \<in> cspots g \<Longrightarrow> C d \<noteq> None"
  by (induction g arbitrary: h) (auto dest: holds_tree_used)

text \<open>A write to a node.\<close>

definition upd :: "nat ptr \<Rightarrow> ('v treemap_node \<Rightarrow> 'v treemap_node) \<Rightarrow> 'v cells \<Rightarrow> 'v cells" where
  "upd q f C = (case q of NULL \<Rightarrow> C | Ptr a \<Rightarrow> C(a := map_option f (C a)))"

lemma upd_apply: "upd q f C d = (if q = Ptr d then map_option f (C d) else C d)"
  by (auto simp: upd_def split: ptr.split)

text \<open>Writes elsewhere, to a single node or to the root of another tree.\<close>

lemma upd_NULL [simp]: "upd NULL f C = C"
  by (simp add: upd_def)

lemma upd_outside [simp]:
  "a \<notin> spots t \<Longrightarrow> holds_tree (upd (Ptr a) f C) up t \<longleftrightarrow> holds_tree C up t"
  "a \<notin> cspots g \<Longrightarrow> holds_ctx (upd (Ptr a) f C) h g \<longleftrightarrow> holds_ctx C h g"
  by (rule holds_tree_cong; auto simp: upd_apply) (rule holds_ctx_cong; auto simp: upd_apply)

lemma upd_root_outside [simp]:
  "spots u \<inter> spots t = {} \<Longrightarrow> holds_tree (upd (root_ptr u) f C) up t \<longleftrightarrow> holds_tree C up t"
  "spots u \<inter> cspots g = {} \<Longrightarrow> holds_ctx (upd (root_ptr u) f C) h g \<longleftrightarrow> holds_ctx C h g"
  by (rule holds_tree_cong; use root_in_spots in \<open>fastforce simp: upd_apply\<close>)
    (rule holds_ctx_cong; use root_in_spots in \<open>fastforce simp: upd_apply\<close>)

lemma holds_tree_adopt:
  assumes "holds_tree C up t" and "apart t"
  shows "holds_tree (upd (root_ptr t) (t_parent_update (\<lambda>_. q)) C) q t"
proof -
  obtain l a c k v r where "t = Tip \<or> t = fork Lside l a c k v r" using fork_cases by blast
  then show ?thesis
  proof
    assume t: "t = fork Lside l a c k v r"
    then show ?thesis using assms by (simp add: upd_apply)
  qed simp
qed

definition upd_hole :: "'v ctx \<Rightarrow> nat ptr \<Rightarrow> 'v cells \<Rightarrow> 'v cells" where
  "upd_hole g v C = (case g of Top \<Rightarrow> C | Step s a _ _ _ _ _ \<Rightarrow> upd (Ptr a) (put_child s v) C)"

lemma upd_hole_apply: "hole_ptr g \<noteq> Ptr d \<Longrightarrow> upd_hole g v C d = C d" "upd_hole g v C d = None \<longleftrightarrow> C d = None"
  by (auto simp: upd_hole_def upd_apply split: ctx.splits)

lemma holds_ctx_hang:
  assumes "holds_ctx C h g" and "capart g"
  shows "holds_ctx (upd_hole g v C) v g"
proof (cases g)
  case (Step s a c k x u g')
  let ?C = "upd_hole g v C"
  have "holds_tree ?C (Ptr a) u = holds_tree C (Ptr a) u"
    by (rule holds_tree_cong) (use assms(2) Step in \<open>auto simp: upd_hole_def upd_apply\<close>)
  moreover have "holds_ctx ?C (Ptr a) g' = holds_ctx C (Ptr a) g'"
    by (rule holds_ctx_cong) (use assms(2) Step in \<open>auto simp: upd_hole_def upd_apply\<close>)
  ultimately show ?thesis using assms(1) Step by (simp add: upd_hole_def upd_apply)
qed simp

section \<open>Installing a tree\<close>

fun nodes :: "nat ptr \<Rightarrow> 'v rtree \<Rightarrow> 'v cells" where
  "nodes up Tip = Map.empty"
| "nodes up (Branch l a c k v r) =
     (nodes (Ptr a) l ++ nodes (Ptr a) r)(a \<mapsto> fork_node Lside (root_ptr l) (root_ptr r) up c k v)"

definition install :: "'v rtree \<Rightarrow> 'v tworld \<Rightarrow> 'v tworld" where
  "install t w = with_cells (cells_of w ++ nodes NULL t) w"

lemma dom_nodes [simp]: "dom (nodes up t) = spots t"
  by (induction t arbitrary: up) auto

lemma nodes_None: "nodes up t d = None \<longleftrightarrow> d \<notin> spots t"
  using dom_nodes [of up t] by (metis domIff)

lemma holds_nodes: "holds_tree C up t \<Longrightarrow> d \<in> spots t \<Longrightarrow> nodes up t d = C d"
proof (induction t arbitrary: up)
  case (Branch l a c k v r)
  show ?case
  proof (cases "d = a")
    case False
    then have "d \<in> spots l \<or> d \<in> spots r" using Branch.prems(2) by simp
    then show ?thesis
    proof (cases "d \<in> spots r")
      case True
      then have "nodes (Ptr a) r d = C d" "d \<in> dom (nodes (Ptr a) r)" using Branch by simp_all
      then show ?thesis using False by (simp add: map_add_dom_app_simps)
    next
      case F: False
      then have "nodes (Ptr a) l d = C d" "d \<notin> dom (nodes (Ptr a) r)" using Branch False by simp_all
      then show ?thesis using False by (simp add: map_add_dom_app_simps)
    qed
  qed (use Branch in simp)
qed simp

lemma apart_Branch: "apart (Branch l a c k v r) \<longleftrightarrow> apart l \<and> apart r \<and> a \<notin> spots l \<and> a \<notin> spots r \<and> spots l \<inter> spots r = {}"
  by (simp add: Branch_fork(1))

lemma holds_install: "apart t \<Longrightarrow> holds_tree (C ++ nodes up t) up t"
proof (induction t arbitrary: up C)
  case (Branch l a c k v r)
  let ?D = "C ++ nodes up (Branch l a c k v r)"
  note d = Branch.prems [unfolded apart_Branch]
  have L: "holds_tree ?D (Ptr a) l \<longleftrightarrow> holds_tree (C ++ nodes (Ptr a) l) (Ptr a) l"
  proof (rule holds_tree_cong)
    fix x assume x: "x \<in> spots l"
    then have "x \<noteq> a" "nodes (Ptr a) r x = None" using d by (auto simp: nodes_None)
    then show "?D x = (C ++ nodes (Ptr a) l) x" by (simp add: map_add_def split: option.splits)
  qed
  have R: "holds_tree ?D (Ptr a) r \<longleftrightarrow> holds_tree (C ++ nodes (Ptr a) r) (Ptr a) r"
  proof (rule holds_tree_cong)
    fix x assume x: "x \<in> spots r"
    then have "x \<noteq> a" "nodes (Ptr a) r x \<noteq> None" using d nodes_None [of "Ptr a" r x] by auto
    then show "?D x = (C ++ nodes (Ptr a) r) x" by (auto simp: map_add_def split: option.splits)
  qed
  have "?D a = Some (fork_node Lside (root_ptr l) (root_ptr r) up c k v)" by simp
  moreover have "holds_tree ?D (Ptr a) l" "holds_tree ?D (Ptr a) r" using L R Branch.IH d by blast+
  ultimately show ?case unfolding holds_tree.simps by blast
qed simp

lemma cells_install: "cells_of (install t w) = cells_of w ++ nodes NULL t"
  by (simp add: install_def)

lemma install_simps [simp]:
  "destroyed (install t w) = destroyed w" "copies (install t w) = copies w" "live (install t w) = live w"
  "no_fail (install t w) = no_fail w" "fresh (install t w) = fresh w"
  by (simp_all add: install_def)

lemma install_outside: "d \<notin> spots t \<Longrightarrow> cells_of (install t w) d = cells_of w d"
  by (simp add: cells_install map_add_dom_app_simps)

text \<open>Cells that hold a tree and are otherwise those of \<open>w\<close>.\<close>

lemma installI:
  assumes "holds_tree C NULL t" and "\<And>d. d \<notin> spots t \<Longrightarrow> C d = cells_of w d"
  shows "with_cells C w = install t w"
proof -
  have "C d = (cells_of w ++ nodes NULL t) d" for d
  proof (cases "d \<in> spots t")
    case True
    then have "d \<in> dom (nodes NULL t)" "nodes NULL t d = C d" using holds_nodes [OF assms(1)] by simp_all
    then show ?thesis by (simp add: map_add_dom_app_simps)
  next
    case False
    then have "d \<notin> dom (nodes NULL t)" by simp
    then show ?thesis using assms(2) [OF False] by (simp add: map_add_dom_app_simps)
  qed
  then show ?thesis unfolding install_def by (metis ext)
qed

lemma install_id: "holds_tree (cells_of w) NULL t \<Longrightarrow> install t w = w"
  using installI [of "cells_of w" t w] by (cases w) (simp add: with_cells_def cells_of_def)

end
