(* ===== verification/Treemap_Ops.thy ===== *)
theory Treemap_Ops
  imports Treemap_Heap
begin

text \<open>
  The pointer operations of \<open>treemap.c\<close> as equations on installed trees: reading and writing the
  fields of a node in a context, and the rotations.
\<close>

section \<open>Fields\<close>

lemma modify_ok:
  assumes "get_node q w \<noteq> None"
  shows "modify q f w = Some (with_cells (upd q f (cells_of w)) w)"
  using assms by (cases q) (auto simp: modify_def upd_def put_node_Ptr)

definition child_at :: "side \<Rightarrow> nat ptr \<Rightarrow> 'v tworld \<Rightarrow> nat ptr option" where
  "child_at s q w = map_option (child s) (get_node q w)"

definition set_child :: "side \<Rightarrow> nat ptr \<Rightarrow> nat ptr \<Rightarrow> 'v tworld \<Rightarrow> 'v tworld option" where
  "set_child s q v w = modify q (put_child s v) w"

definition hang :: "side \<Rightarrow> 'v treemap \<Rightarrow> nat ptr \<Rightarrow> nat ptr \<Rightarrow> nat ptr \<Rightarrow> 'v tworld \<Rightarrow> ('v treemap \<times> 'v tworld) option" where
  "hang s m q old new w =
     (if q = NULL then Some (m\<lparr>t_root := new\<rparr>, w)
      else do {
        l \<leftarrow> child_at s q w;
        w1 \<leftarrow> (if old = l then set_child s q new w else set_child (opposite s) q new w);
        Some (m, w1) })"

lemma sides [simp]:
  "left_of q w = child_at Lside q w" "right_of q w = child_at Rside q w"
  "set_left q v w = set_child Lside q v w" "set_right q v w = set_child Rside q v w"
  "hang_left_first m q old new w = hang Lside m q old new w"
  "hang_right_first m q old new w = hang Rside m q old new w"
proof -
  have child: "child Lside = t_left" "child Rside = t_right" by (simp_all add: fun_eq_iff child_def)
  have put: "put_child Lside v = t_left_update (\<lambda>_. v)" "put_child Rside v = t_right_update (\<lambda>_. v)" for v :: "nat ptr"
    by (simp_all add: fun_eq_iff put_child_def)
  show "left_of q w = child_at Lside q w" "right_of q w = child_at Rside q w"
    "set_left q v w = set_child Lside q v w" "set_right q v w = set_child Rside q v w"
    "hang_left_first m q old new w = hang Lside m q old new w"
    "hang_right_first m q old new w = hang Rside m q old new w"
    by (simp_all add: left_of_def right_of_def child_at_def set_left_def set_right_def set_child_def
      hang_left_first_def hang_right_first_def hang_def child put cong: if_cong)
qed

definition rot :: "side \<Rightarrow> 'v treemap \<Rightarrow> nat ptr \<Rightarrow> 'v tworld \<Rightarrow> ('v treemap \<times> 'v tworld) option" where
  "rot s m node w = do {
     q \<leftarrow> child_at (opposite s) node w;
     inner \<leftarrow> child_at s q w;
     w1 \<leftarrow> set_child (opposite s) node inner w;
     inner1 \<leftarrow> child_at s q w1;
     w2 \<leftarrow> adopt inner1 node w1;
     up \<leftarrow> parent_of node w2;
     w3 \<leftarrow> set_parent q up w2;
     up1 \<leftarrow> parent_of node w3;
     (m1, w4) \<leftarrow> hang s m up1 node q w3;
     w5 \<leftarrow> set_child s q node w4;
     w6 \<leftarrow> set_parent node q w5;
     Some (m1, w6) }"

lemma rot_sides [simp]:
  "treemap_left_rotate m node w = rot Lside m node w" "treemap_right_rotate m node w = rot Rside m node w"
  by (simp_all add: treemap_left_rotate_def treemap_right_rotate_def rot_def)

text \<open>What a node in a context reads.\<close>

lemma node_in:
  assumes "apart (plug (fork s t a c k v u) g)"
  shows "cells_of (install (plug (fork s t a c k v u) g) w) a = Some (fork_node s (root_ptr t) (root_ptr u) (hole_ptr g) c k v)"
  using holds_install [OF assms, of "cells_of w" NULL] by (simp add: holds_plug cells_install)

lemma reads:
  assumes "apart (plug (fork s t a c k v u) g)" and "w = install (plug (fork s t a c k v u) g) w0"
  shows "get_node (Ptr a) w = Some (fork_node s (root_ptr t) (root_ptr u) (hole_ptr g) c k v)"
    "child_at s (Ptr a) w = Some (root_ptr t)" "child_at (opposite s) (Ptr a) w = Some (root_ptr u)"
    "parent_of (Ptr a) w = Some (hole_ptr g)" "treemap_color_of (Ptr a) w = Some c"
    "key_at (Ptr a) w = Some k" "value_at (Ptr a) w = Some v"
  using node_in [OF assms(1), of w0]
  by (simp_all add: assms(2) child_at_def parent_of_def treemap_color_of_def key_at_def value_at_def)

text \<open>Writes that keep the structure: the colour and the value of a node.\<close>

lemma write_node:
  assumes ap: "apart (plug (fork s t a c k v u) g)"
    and f: "f (fork_node s (root_ptr t) (root_ptr u) (hole_ptr g) c k v) = fork_node s (root_ptr t) (root_ptr u) (hole_ptr g) c' k' v'"
  shows "modify (Ptr a) f (install (plug (fork s t a c k v u) g) w) = Some (install (plug (fork s t a c' k' v' u) g) w)"
proof -
  let ?T = "plug (fork s t a c k v u) g" let ?w = "install ?T w"
  let ?C = "upd (Ptr a) f (cells_of ?w)"
  have h: "holds_tree (cells_of ?w) NULL ?T" using holds_install [OF ap] by (simp add: cells_install)
  have "holds_tree ?C NULL (plug (fork s t a c' k' v' u) g)"
    using h ap f by (simp add: holds_plug upd_apply)
  moreover have "?C d = cells_of w d" if "d \<notin> spots (plug (fork s t a c' k' v' u) g)" for d
    using that install_outside [of d ?T w] by (simp add: upd_apply)
  ultimately have "with_cells ?C w = install (plug (fork s t a c' k' v' u) g) w" by (rule installI)
  moreover have "get_node (Ptr a) ?w \<noteq> None" using node_in [OF ap] by simp
  ultimately show ?thesis by (simp add: modify_ok) (simp add: install_def)
qed

lemma set_color_ok:
  assumes "apart (plug t g)"
  shows "treemap_set_color (root_ptr t) d (install (plug t g) w) = Some (install (plug (paint d t) g) w)"
proof -
  obtain l a c k v r where "t = Tip \<or> t = fork Lside l a c k v r" using fork_cases by blast
  then show ?thesis
  proof
    assume t: "t = fork Lside l a c k v r"
    show ?thesis unfolding t treemap_set_color_def by (simp add: write_node [OF assms [unfolded t]])
  qed (simp add: treemap_set_color_def)
qed

lemma color_of_ok:
  assumes "apart (plug t g)"
  shows "treemap_color_of (root_ptr t) (install (plug t g) w) = Some (hue t)"
proof -
  obtain l a c k v r where "t = Tip \<or> t = fork Lside l a c k v r" using fork_cases by blast
  then show ?thesis using reads(5) [of Lside l a c k v r g _ w] assms by (auto simp: treemap_color_of_def)
qed

section \<open>Rotations\<close>

lemma adopt_ok:
  assumes "q \<noteq> NULL \<Longrightarrow> get_node q w \<noteq> None"
  shows "adopt q v w = Some (with_cells (upd q (t_parent_update (\<lambda>_. v)) (cells_of w)) w)"
  using assms by (cases "q = NULL") (simp_all add: adopt_def set_parent_def modify_ok)

lemma hang_ok:
  assumes h: "holds_ctx (cells_of w) (Ptr e) g" and e: "e \<notin> cspots g" and ap: "capart g"
  shows "hang s m (hole_ptr g) (Ptr e) new w
    = Some (if g = Top then m\<lparr>t_root := new\<rparr> else m, with_cells (upd_hole g new (cells_of w)) w)"
proof (cases g)
  case (Step s' a c k v u g')
  let ?n = "fork_node s' (Ptr e) (root_ptr u) (hole_ptr g') c k v"
  have n: "get_node (Ptr a) w = Some ?n" using h Step by simp
  have "root_ptr u \<noteq> Ptr e" using root_in_spots [of u e] e Step by auto
  then have "child s ?n = Ptr e \<longleftrightarrow> s = s'" "s \<noteq> s' \<Longrightarrow> opposite s = s'"
    by (cases s; cases s'; simp add: child_def fork_node_def)+
  then show ?thesis using n Step
    by (cases "s = s'") (auto simp: hang_def child_at_def set_child_def modify_ok upd_hole_def)
qed (simp add: hang_def upd_hole_def)

lemma root_neq: "a \<notin> spots t \<Longrightarrow> root_ptr t \<noteq> Ptr a" "a \<notin> cspots g \<Longrightarrow> hole_ptr g \<noteq> Ptr a"
  using root_in_spots hole_in_cspots by blast+

lemma upd_hole_outside [simp]:
  "spots t \<inter> cspots g = {} \<Longrightarrow> holds_tree (upd_hole g v C) up t \<longleftrightarrow> holds_tree C up t"
proof (rule holds_tree_cong)
  fix e assume "spots t \<inter> cspots g = {}" "e \<in> spots t"
  then have "e \<notin> cspots g" by auto
  then show "upd_hole g v C e = C e" by (rule upd_hole_apply(1) [OF root_neq(2)])
qed

lemma rot_ok:
  assumes ap: "apart (plug (fork s x a c k v (fork s y b d j u z)) g)"
    and r: "t_root m = root_ptr (plug (fork s x a c k v (fork s y b d j u z)) g)"
  shows "rot s m (Ptr a) (install (plug (fork s x a c k v (fork s y b d j u z)) g) w)
    = Some (m\<lparr>t_root := root_ptr (plug (fork s (fork s x a c k v y) b d j u z) g)\<rparr>,
        install (plug (fork s (fork s x a c k v y) b d j u z) g) w)"
proof -
  let ?T = "plug (fork s x a c k v (fork s y b d j u z)) g" and ?T' = "plug (fork s (fork s x a c k v y) b d j u z) g"
  let ?w = "install ?T w"
  obtain C where C: "C = cells_of ?w" by simp
  have h: "holds_tree C NULL ?T" using holds_install [OF ap] C by (simp add: cells_install)
  have neq: "root_ptr y \<noteq> Ptr a" "root_ptr y \<noteq> Ptr b" "a \<noteq> b" "hole_ptr g \<noteq> Ptr a" "hole_ptr g \<noteq> Ptr b"
    using ap root_neq(1) [of a y] root_neq(1) [of b y] root_neq(2) [of a g] root_neq(2) [of b g] by auto
  have ca: "C a = Some (fork_node s (root_ptr x) (Ptr b) (hole_ptr g) c k v)"
    and cb: "C b = Some (fork_node s (root_ptr y) (root_ptr z) (Ptr a) d j u)"
    and sub: "holds_tree C (Ptr a) x" "holds_tree C (Ptr b) y" "holds_tree C (Ptr b) z" and hg: "holds_ctx C (Ptr a) g"
    using h by (simp_all add: holds_plug)
  have used: "C e \<noteq> None" if "root_ptr y = Ptr e" for e using holds_tree_used [OF sub(2) root_in_spots [OF that]] .
  let ?C1 = "upd (Ptr a) (put_child (opposite s) (root_ptr y)) C"
  let ?C2 = "upd (root_ptr y) (t_parent_update (\<lambda>_. Ptr a)) ?C1"
  let ?C3 = "upd (Ptr b) (t_parent_update (\<lambda>_. hole_ptr g)) ?C2"
  let ?C4 = "upd_hole g (Ptr b) ?C3"
  let ?C5 = "upd (Ptr b) (put_child s (Ptr a)) ?C4"
  let ?C6 = "upd (Ptr a) (t_parent_update (\<lambda>_. Ptr b)) ?C5"
  have a1: "adopt (root_ptr y) (Ptr a) (with_cells ?C1 w) = Some (with_cells ?C2 w)"
    using used by (subst adopt_ok) (cases "root_ptr y"; simp add: upd_apply)+
  have hg3: "holds_ctx ?C3 (Ptr a) g" "a \<notin> cspots g" "capart g" using hg ap by (auto simp: Int_Un_distrib2)
  have a2: "hang s m (hole_ptr g) (Ptr a) (Ptr b) (with_cells ?C3 w)
      = Some (if g = Top then m\<lparr>t_root := Ptr b\<rparr> else m, with_cells ?C4 w)"
    using hang_ok [of "with_cells ?C3 w" a g s m "Ptr b"] hg3 by simp
  have run: "rot s m (Ptr a) (with_cells C w) = Some (if g = Top then m\<lparr>t_root := Ptr b\<rparr> else m, with_cells ?C6 w)"
    using ca cb neq a1 a2 by (simp add: rot_def child_at_def set_child_def set_parent_def parent_of_def modify_ok upd_apply upd_hole_apply)
  have y: "holds_tree ?C2 (Ptr a) y" by (rule holds_tree_adopt) (use sub(2) ap in auto)
  have g: "holds_ctx ?C4 (Ptr b) g" by (rule holds_ctx_hang [OF hg3(1,3)])
  have dis: "spots y \<inter> spots x = {}" using ap by auto
  have C6: "holds_tree ?C6 NULL ?T'"
    using ca cb sub y g neq ap dis by (simp add: holds_plug upd_apply upd_hole_apply Int_Un_distrib2)
  have "?C6 e = cells_of w e" if "e \<notin> spots ?T'" for e
    using that C install_outside [of e ?T w] root_neq(1) [of e y] root_neq(2) [of e g]
    by (simp add: upd_apply upd_hole_apply)
  then have fin: "with_cells ?C6 w = install ?T' w" by (rule installI [OF C6])
  have "install ?T w = with_cells C w" using C by (simp add: install_def)
  moreover have "(if g = Top then m\<lparr>t_root := Ptr b\<rparr> else m) = m\<lparr>t_root := root_ptr ?T'\<rparr>"
    using r top_in [of g] by (cases "g = Top") auto
  ultimately show ?thesis using run fin by simp
qed

end
