(* ===== verification/Treemap_Fixup.thy ===== *)
theory Treemap_Fixup
  imports Treemap_Ops
begin

text \<open>
  The two loops of \<open>treemap.c\<close> that restore the red-black invariant, executed on trees. A bundle of
  rewrite rules, \<open>tree_exec\<close>, evaluates a straight piece of pointer code on an installed tree whose
  relevant nodes are written out.
\<close>

section \<open>Executing pointer code on trees\<close>

named_theorems tree_exec

lemma nodes_fork [tree_exec]:
  assumes "apart (fork s t a c k v u)"
  shows "nodes up (fork s t a c k v u) d = (if d = a then Some (fork_node s (root_ptr t) (root_ptr u) up c k v)
    else if d \<in> spots t then nodes (Ptr a) t d else nodes (Ptr a) u d)"
proof -
  let ?T = "fork s t a c k v u"
  have h: "holds_tree (nodes up ?T) up ?T" using holds_install [OF assms, of Map.empty up] by simp
  show ?thesis
  proof (cases "d = a \<or> d \<in> spots t \<or> d \<in> spots u")
    case True
    then show ?thesis using h holds_nodes [of "nodes up ?T" "Ptr a" t d] holds_nodes [of "nodes up ?T" "Ptr a" u d] by auto
  next
    case False
    then show ?thesis using nodes_None [of up ?T d] nodes_None [of "Ptr a" u d] by simp
  qed
qed

lemma nodes_plug [tree_exec]:
  assumes "apart (plug t g)" and "d \<in> spots t"
  shows "nodes NULL (plug t g) d = nodes (hole_ptr g) t d"
proof -
  have "holds_tree (nodes NULL (plug t g)) NULL (plug t g)" using holds_install [OF assms(1), of Map.empty NULL] by simp
  then show ?thesis using holds_nodes [of "nodes NULL (plug t g)" "hole_ptr g" t d] assms(2) by (simp add: holds_plug)
qed

lemma get_install [tree_exec]:
  "a \<in> spots t \<Longrightarrow> cells_of (install t w) a = nodes NULL t a"
  using nodes_None [of NULL t a] by (auto simp: cells_install map_add_def split: option.split)

lemma child_at_Ptr [tree_exec]: "child_at s (Ptr a) w = map_option (child s) (get_node (Ptr a) w)"
  "parent_of (Ptr a) w = map_option t_parent (get_node (Ptr a) w)"
  "grandparent_of (Ptr a) w = (case get_node (Ptr a) w of None \<Rightarrow> None | Some n \<Rightarrow> parent_of (t_parent n) w)"
  "treemap_color_of (Ptr a) w = map_option t_color (get_node (Ptr a) w)"
  by (simp_all add: child_at_def parent_of_def grandparent_of_def treemap_color_of_def map_option_case split: option.split)

lemma fork_node_opposite [tree_exec]: "fork_node (opposite s) x y up c k v = fork_node s y x up c k v"
  by (cases s) (simp_all add: fork_node_def)

lemmas [tree_exec] = fork_opposite Int_Un_distrib Int_Un_distrib2

lemma root_eq [tree_exec]: "a \<notin> spots t \<Longrightarrow> root_ptr t = Ptr a \<longleftrightarrow> False" "a \<notin> spots t \<Longrightarrow> Ptr a = root_ptr t \<longleftrightarrow> False"
  using root_in_spots by force+

text \<open>The node at an address gets a colour.\<close>

fun repaint :: "nat \<Rightarrow> treemap_color \<Rightarrow> 'v rtree \<Rightarrow> 'v rtree" where
  "repaint a d Tip = Tip"
| "repaint a d (Branch l b c k v r) = Branch (repaint a d l) b (if a = b then d else c) k v (repaint a d r)"

lemma repaint_simps [tree_exec]:
  "repaint a d (fork s t b c k v u) = fork s (repaint a d t) b (if a = b then d else c) k v (repaint a d u)"
  "a \<notin> spots t \<Longrightarrow> repaint a d t = t" "a \<notin> cspots g \<Longrightarrow> repaint a d (plug t g) = plug (repaint a d t) g"
proof -
  show fork: "repaint a d (fork s t b c k v u) = fork s (repaint a d t) b (if a = b then d else c) k v (repaint a d u)"
    for s t b c k v u by (cases s) (simp_all add: fork_def)
  show out: "a \<notin> spots t \<Longrightarrow> repaint a d t = t" for t by (induction t) auto
  show "a \<notin> cspots g \<Longrightarrow> repaint a d (plug t g) = plug (repaint a d t) g"
    by (induction g arbitrary: t) (auto simp: fork out)
qed

text \<open>Every node is the root of a focus.\<close>

lemma spot_focus: "a \<in> spots t \<Longrightarrow> \<exists>s x c k v y g. t = plug (fork s x a c k v y) g"
proof (induction t)
  case (Branch l b c k v r)
  consider "a = b" | "a \<in> spots l" | "a \<in> spots r" using Branch.prems by auto
  then show ?case
  proof cases
    case 1
    then have "Branch l b c k v r = plug (fork Lside l a c k v r) Top" by (simp add: fork_def)
    then show ?thesis by blast
  next
    case 2
    then obtain s x d j u y g where "l = plug (fork s x a d j u y) g" using Branch.IH(1) by blast
    then have "Branch l b c k v r = plug (fork s x a d j u y) (graft g (Step Lside b c k v r Top))" by (simp add: fork_def)
    then show ?thesis by blast
  next
    case 3
    then obtain s x d j u y g where "r = plug (fork s x a d j u y) g" using Branch.IH(2) by blast
    then have "Branch l b c k v r = plug (fork s x a d j u y) (graft g (Step Rside b c k v l Top))" by (simp add: fork_def)
    then show ?thesis by blast
  qed
qed simp

lemma set_color_install [tree_exec]:
  assumes "apart t" and "a \<in> spots t"
  shows "treemap_set_color (Ptr a) d (install t w) = Some (install (repaint a d t) w)"
proof -
  obtain s x c k v y g where t: "t = plug (fork s x a c k v y) g" using spot_focus [OF assms(2)] by blast
  have "apart (plug (fork s x a c k v y) g)" using assms(1) t by simp
  from set_color_ok [OF this, of d w] show ?thesis using assms(1) t by (simp add: repaint_simps)
qed

text \<open>The rotations at the root of the focus, and one level below on either side.\<close>

lemmas rot_top [tree_exec] = rot_ok

lemma rot_first [tree_exec]:
  assumes "apart (plug (fork h (fork s x a c k v (fork s y b d j u z)) e f l i q) g)"
    and "t_root m = root_ptr (plug (fork h (fork s x a c k v (fork s y b d j u z)) e f l i q) g)"
  shows "rot s m (Ptr a) (install (plug (fork h (fork s x a c k v (fork s y b d j u z)) e f l i q) g) w)
    = Some (m\<lparr>t_root := root_ptr (plug (fork h (fork s (fork s x a c k v y) b d j u z) e f l i q) g)\<rparr>,
        install (plug (fork h (fork s (fork s x a c k v y) b d j u z) e f l i q) g) w)"
  using rot_ok [of s x a c k v y b d j u z "Step h e f l i q g" m w] assms by simp

lemma rot_second [tree_exec]:
  assumes "apart (plug (fork h q e f l i (fork s x a c k v (fork s y b d j u z))) g)"
    and "t_root m = root_ptr (plug (fork h q e f l i (fork s x a c k v (fork s y b d j u z))) g)"
  shows "rot s m (Ptr a) (install (plug (fork h q e f l i (fork s x a c k v (fork s y b d j u z))) g) w)
    = Some (m\<lparr>t_root := root_ptr (plug (fork h q e f l i (fork s (fork s x a c k v y) b d j u z)) g)\<rparr>,
        install (plug (fork h q e f l i (fork s (fork s x a c k v y) b d j u z)) g) w)"
  using rot_first [of "opposite h" s x a c k v y b d j u z e f l i q g m w] assms by (simp add: fork_opposite)

text \<open>Rotations to the other side.\<close>

lemma rot_back_top [tree_exec]:
  assumes "apart (plug (fork s (fork s z b d j u y) a c k v x) g)"
    and "t_root m = root_ptr (plug (fork s (fork s z b d j u y) a c k v x) g)"
  shows "rot (opposite s) m (Ptr a) (install (plug (fork s (fork s z b d j u y) a c k v x) g) w)
    = Some (m\<lparr>t_root := root_ptr (plug (fork s z b d j u (fork s y a c k v x)) g)\<rparr>,
        install (plug (fork s z b d j u (fork s y a c k v x)) g) w)"
  using rot_ok [of "opposite s" x a c k v y b d j u z g m w] assms by (simp add: fork_opposite)

lemma rot_back_second [tree_exec]:
  assumes "apart (plug (fork h q e f l i (fork s (fork s z b d j u y) a c k v x)) g)"
    and "t_root m = root_ptr (plug (fork h q e f l i (fork s (fork s z b d j u y) a c k v x)) g)"
  shows "rot (opposite s) m (Ptr a) (install (plug (fork h q e f l i (fork s (fork s z b d j u y) a c k v x)) g) w)
    = Some (m\<lparr>t_root := root_ptr (plug (fork h q e f l i (fork s z b d j u (fork s y a c k v x))) g)\<rparr>,
        install (plug (fork h q e f l i (fork s z b d j u (fork s y a c k v x))) g) w)"
  using rot_second [of h q e f l i "opposite s" x a c k v y b d j u z g m w] assms by (simp add: fork_opposite)

section \<open>Insertion\<close>

definition insert_fixup_side ::
    "side \<Rightarrow> 'v treemap \<Rightarrow> nat ptr \<Rightarrow> 'v tworld \<Rightarrow> ('v treemap \<times> nat ptr \<times> 'v tworld) option" where
  "insert_fixup_side s m node w = do {
     parent \<leftarrow> parent_of node w;
     grand \<leftarrow> parent_of parent w;
     uncle \<leftarrow> child_at (opposite s) grand w;
     c \<leftarrow> treemap_color_of uncle w;
     if c = TREEMAP_RED then do {
       w1 \<leftarrow> treemap_set_color parent TREEMAP_BLACK w;
       w2 \<leftarrow> treemap_set_color uncle TREEMAP_BLACK w1;
       g \<leftarrow> grandparent_of node w2;
       w3 \<leftarrow> treemap_set_color g TREEMAP_RED w2;
       g1 \<leftarrow> grandparent_of node w3;
       Some (m, g1, w3) }
     else do {
       inner \<leftarrow> child_at (opposite s) parent w;
       (m1, node1, w1) \<leftarrow> (if node = inner then map_option (\<lambda>(m1, w1). (m1, parent, w1)) (rot s m parent w)
         else Some (m, node, w));
       p1 \<leftarrow> parent_of node1 w1;
       w2 \<leftarrow> treemap_set_color p1 TREEMAP_BLACK w1;
       g \<leftarrow> grandparent_of node1 w2;
       w3 \<leftarrow> treemap_set_color g TREEMAP_RED w2;
       g1 \<leftarrow> grandparent_of node1 w3;
       (m2, w4) \<leftarrow> rot (opposite s) m1 g1 w3;
       Some (m2, node1, w4) } }"

lemma insert_fixup_sides:
  "insert_fixup_left m node w = insert_fixup_side Lside m node w"
  "insert_fixup_right m node w = insert_fixup_side Rside m node w"
  by (simp_all add: insert_fixup_left_def insert_fixup_right_def insert_fixup_side_def cong: if_cong)

lemma insert_red_uncle:
  assumes "apart (plug (fork s (fork s1 (fork s0 l n TREEMAP_RED k0 v0 r) p TREEMAP_RED k v u) gp TREEMAP_BLACK k2 v2
      (fork s2 x un TREEMAP_RED k3 v3 y)) g)"
  shows "insert_fixup_side s m (Ptr n) (install (plug (fork s (fork s1 (fork s0 l n TREEMAP_RED k0 v0 r) p TREEMAP_RED k v u)
        gp TREEMAP_BLACK k2 v2 (fork s2 x un TREEMAP_RED k3 v3 y)) g) w)
    = Some (m, Ptr gp, install (plug (fork s (fork s1 (fork s0 l n TREEMAP_RED k0 v0 r) p TREEMAP_BLACK k v u)
        gp TREEMAP_RED k2 v2 (fork s2 x un TREEMAP_BLACK k3 v3 y)) g) w)"
  using assms by (simp add: insert_fixup_side_def tree_exec)

lemma insert_outer:
  assumes ap: "apart (plug (fork s (fork s (fork s0 l n TREEMAP_RED k0 v0 r) p TREEMAP_RED k v u) gp TREEMAP_BLACK k2 v2 un) g)"
    and "t_root m = root_ptr (plug (fork s (fork s (fork s0 l n TREEMAP_RED k0 v0 r) p TREEMAP_RED k v u) gp TREEMAP_BLACK k2 v2 un) g)"
    and "hue un = TREEMAP_BLACK"
  shows "insert_fixup_side s m (Ptr n) (install (plug (fork s (fork s (fork s0 l n TREEMAP_RED k0 v0 r) p TREEMAP_RED k v u)
        gp TREEMAP_BLACK k2 v2 un) g) w)
    = Some (m\<lparr>t_root := root_ptr (plug (fork s (fork s0 l n TREEMAP_RED k0 v0 r) p TREEMAP_BLACK k v (fork s u gp TREEMAP_RED k2 v2 un)) g)\<rparr>,
        Ptr n, install (plug (fork s (fork s0 l n TREEMAP_RED k0 v0 r) p TREEMAP_BLACK k v (fork s u gp TREEMAP_RED k2 v2 un)) g) w)"
  using assms color_of_ok [of un "Step (opposite s) gp TREEMAP_BLACK k2 v2 (fork s (fork s0 l n TREEMAP_RED k0 v0 r) p TREEMAP_RED k v u) g" w]
  by (simp add: insert_fixup_side_def tree_exec)

lemma insert_inner:
  assumes ap: "apart (plug (fork s (fork s x p TREEMAP_RED k v (fork s y n TREEMAP_RED k0 v0 z)) gp TREEMAP_BLACK k2 v2 un) g)"
    and "t_root m = root_ptr (plug (fork s (fork s x p TREEMAP_RED k v (fork s y n TREEMAP_RED k0 v0 z)) gp TREEMAP_BLACK k2 v2 un) g)"
    and "hue un = TREEMAP_BLACK"
  shows "insert_fixup_side s m (Ptr n) (install (plug (fork s (fork s x p TREEMAP_RED k v (fork s y n TREEMAP_RED k0 v0 z))
        gp TREEMAP_BLACK k2 v2 un) g) w)
    = Some (m\<lparr>t_root := root_ptr (plug (fork s (fork s x p TREEMAP_RED k v y) n TREEMAP_BLACK k0 v0 (fork s z gp TREEMAP_RED k2 v2 un)) g)\<rparr>,
        Ptr p, install (plug (fork s (fork s x p TREEMAP_RED k v y) n TREEMAP_BLACK k0 v0 (fork s z gp TREEMAP_RED k2 v2 un)) g) w)"
  using assms color_of_ok [of un "Step (opposite s) gp TREEMAP_BLACK k2 v2 (fork s x p TREEMAP_RED k v (fork s y n TREEMAP_RED k0 v0 z)) g" w]
  by (simp add: insert_fixup_side_def tree_exec)

lemma insert_loop_exit:
  assumes "apart (plug (fork s (fork s0 l n c k0 v0 r) p TREEMAP_BLACK k v u) g)"
    and "t_root m = root_ptr (plug (fork s (fork s0 l n c k0 v0 r) p TREEMAP_BLACK k v u) g)"
  shows "insert_fixup_loop m (Ptr n) (install (plug (fork s (fork s0 l n c k0 v0 r) p TREEMAP_BLACK k v u) g) w)
    = Some (m, install (plug (fork s (fork s0 l n c k0 v0 r) p TREEMAP_BLACK k v u) g) w)"
  using assms top_outside [of n g] by (subst insert_fixup_loop.simps) (simp add: tree_exec)

end
