(* ===== verification/Treemap_Insert.thy ===== *)
theory Treemap_Insert
  imports Treemap_Fixup
begin

text \<open>The loop of \<open>treemap_insert_fixup\<close>.\<close>

lemma child_left: "child Lside (fork_node s x y up c k v) = (if s = Lside then x else y)"
  by (cases s) (simp_all add: child_def fork_node_def)

lemma insert_loop_step:
  assumes "apart (plug (fork s (fork s1 (fork s0 l n c k0 v0 r) p TREEMAP_RED k v u) gp d k2 v2 un) g)"
    and "t_root m = root_ptr (plug (fork s (fork s1 (fork s0 l n c k0 v0 r) p TREEMAP_RED k v u) gp d k2 v2 un) g)"
  shows "insert_fixup_loop m (Ptr n) (install (plug (fork s (fork s1 (fork s0 l n c k0 v0 r) p TREEMAP_RED k v u) gp d k2 v2 un) g) w)
    = do { (m1, node1, w1) \<leftarrow> insert_fixup_side s m (Ptr n)
             (install (plug (fork s (fork s1 (fork s0 l n c k0 v0 r) p TREEMAP_RED k v u) gp d k2 v2 un) g) w);
           insert_fixup_loop m1 node1 w1 }"
  using assms top_outside [of n g] top_outside [of p g]
  by (subst insert_fixup_loop.simps)
    (cases s; simp add: tree_exec insert_fixup_sides child_left cong: if_cong)

lemma fork_turn: "\<exists>x y. fork s0 l n d k v r = fork s x n d k v y"
  by (cases "s0 = s") (blast, metis fork_opposite opposite.simps side.exhaust)

text \<open>The uncle is black: one or two rotations, and the loop ends.\<close>

lemma insert_loop_outer:
  assumes ap: "apart (plug (fork s (fork s (fork s0 l n TREEMAP_RED k0 v0 r) p TREEMAP_RED k v u) gp TREEMAP_BLACK k2 v2 un) g)"
    and hN: "rbt l" "rbt r" "bh l = bh r" "hue l = TREEMAP_BLACK" "hue r = TREEMAP_BLACK"
    and ctx: "rbt u" "bh u = bh l" "hue u = TREEMAP_BLACK" "rbt un" "bh un = bh l" "hue un = TREEMAP_BLACK"
      "ctx_ok TREEMAP_BLACK (Suc (bh l)) g"
  shows "\<exists>T'. insert_fixup_loop (m\<lparr>t_root := root_ptr (plug (fork s (fork s (fork s0 l n TREEMAP_RED k0 v0 r) p TREEMAP_RED k v u)
        gp TREEMAP_BLACK k2 v2 un) g)\<rparr>) (Ptr n)
      (install (plug (fork s (fork s (fork s0 l n TREEMAP_RED k0 v0 r) p TREEMAP_RED k v u) gp TREEMAP_BLACK k2 v2 un) g) w)
      = Some (m\<lparr>t_root := root_ptr T'\<rparr>, install T' w)
    \<and> items T' = items (plug (fork s (fork s (fork s0 l n TREEMAP_RED k0 v0 r) p TREEMAP_RED k v u) gp TREEMAP_BLACK k2 v2 un) g)
    \<and> rb_tree (paint TREEMAP_BLACK T')"
proof -
  let ?N = "fork s0 l n TREEMAP_RED k0 v0 r"
  let ?T = "plug (fork s (fork s ?N p TREEMAP_RED k v u) gp TREEMAP_BLACK k2 v2 un) g" and ?m = "m\<lparr>t_root := root_ptr
    (plug (fork s (fork s (fork s0 l n TREEMAP_RED k0 v0 r) p TREEMAP_RED k v u) gp TREEMAP_BLACK k2 v2 un) g)\<rparr>"
  let ?F = "fork s ?N p TREEMAP_BLACK k v (fork s u gp TREEMAP_RED k2 v2 un)"
  have root: "t_root ?m = root_ptr ?T" by simp
  note step = insert_loop_step [OF ap root, of w] and body = insert_outer [OF ap root ctx(6), of w]
  have ap2: "apart (plug ?F g)" using ap by (auto simp: tree_exec)
  have "rbt ?F" "bh ?F = Suc (bh l)" using hN ctx by (simp_all add: bh_fork)
  then have "rb_tree (plug ?F g)" using ctx(7) by (simp add: rb_plug)
  then have "rb_tree (paint TREEMAP_BLACK (plug ?F g))" by (simp add: rb_tree_def)
  moreover have "items (plug ?F g) = items ?T" by (auto simp: items_plug items_fork split: side.split)
  ultimately show ?thesis
    unfolding step body using insert_loop_exit [OF ap2, of "?m\<lparr>t_root := root_ptr (plug ?F g)\<rparr>" w]
    by (intro exI [of _ "plug ?F g"]) simp
qed

lemma insert_loop_inner:
  assumes ap: "apart (plug (fork s (fork s u p TREEMAP_RED k v (fork s y n TREEMAP_RED k0 v0 z)) gp TREEMAP_BLACK k2 v2 un) g)"
    and hN: "rbt y" "rbt z" "bh y = bh u" "bh z = bh u" "hue y = TREEMAP_BLACK" "hue z = TREEMAP_BLACK"
    and ctx: "rbt u" "hue u = TREEMAP_BLACK" "rbt un" "bh un = bh u" "hue un = TREEMAP_BLACK"
      "ctx_ok TREEMAP_BLACK (Suc (bh u)) g"
  shows "\<exists>T'. insert_fixup_loop (m\<lparr>t_root := root_ptr (plug (fork s (fork s u p TREEMAP_RED k v (fork s y n TREEMAP_RED k0 v0 z))
        gp TREEMAP_BLACK k2 v2 un) g)\<rparr>) (Ptr n)
      (install (plug (fork s (fork s u p TREEMAP_RED k v (fork s y n TREEMAP_RED k0 v0 z)) gp TREEMAP_BLACK k2 v2 un) g) w)
      = Some (m\<lparr>t_root := root_ptr T'\<rparr>, install T' w)
    \<and> items T' = items (plug (fork s (fork s u p TREEMAP_RED k v (fork s y n TREEMAP_RED k0 v0 z)) gp TREEMAP_BLACK k2 v2 un) g)
    \<and> rb_tree (paint TREEMAP_BLACK T')"
proof -
  let ?T = "plug (fork s (fork s u p TREEMAP_RED k v (fork s y n TREEMAP_RED k0 v0 z)) gp TREEMAP_BLACK k2 v2 un) g"
  let ?m = "m\<lparr>t_root := root_ptr ?T\<rparr>"
  let ?F = "fork s (fork s u p TREEMAP_RED k v y) n TREEMAP_BLACK k0 v0 (fork s z gp TREEMAP_RED k2 v2 un)"
  have root: "t_root ?m = root_ptr ?T" by simp
  have ap': "apart (plug (fork s (fork (opposite s) (fork s y n TREEMAP_RED k0 v0 z) p TREEMAP_RED k v u) gp TREEMAP_BLACK k2 v2 un) g)"
    and root': "t_root ?m = root_ptr (plug (fork s (fork (opposite s) (fork s y n TREEMAP_RED k0 v0 z) p TREEMAP_RED k v u)
      gp TREEMAP_BLACK k2 v2 un) g)" using ap by (simp_all only: fork_opposite root)
  note step = insert_loop_step [OF ap' root', of w, unfolded fork_opposite] and body = insert_inner [OF ap root ctx(5), of w]
  have ap2: "apart (plug ?F g)" using ap by (auto simp: tree_exec)
  have "rbt ?F" "bh ?F = Suc (bh u)" using hN ctx by (simp_all add: bh_fork)
  then have "rb_tree (plug ?F g)" using ctx(6) by (simp add: rb_plug)
  then have "rb_tree (paint TREEMAP_BLACK (plug ?F g))" by (simp add: rb_tree_def)
  moreover have "items (plug ?F g) = items ?T" by (auto simp: items_plug items_fork split: side.split)
  ultimately show ?thesis
    unfolding step body using insert_loop_exit [OF ap2, of "?m\<lparr>t_root := root_ptr (plug ?F g)\<rparr>" w]
    by (intro exI [of _ "plug ?F g"]) simp
qed

lemma insert_loop_ok:
  assumes "apart (plug (fork s0 l n TREEMAP_RED k0 v0 r) g)" and "rbt (fork s0 l n TREEMAP_RED k0 v0 r)"
    and "ctx_ok TREEMAP_BLACK (bh l) g"
  shows "\<exists>T'. insert_fixup_loop (m\<lparr>t_root := root_ptr (plug (fork s0 l n TREEMAP_RED k0 v0 r) g)\<rparr>) (Ptr n)
      (install (plug (fork s0 l n TREEMAP_RED k0 v0 r) g) w) = Some (m\<lparr>t_root := root_ptr T'\<rparr>, install T' w)
    \<and> items T' = items (plug (fork s0 l n TREEMAP_RED k0 v0 r) g) \<and> rb_tree (paint TREEMAP_BLACK T')"
  using assms
proof (induction "size g" arbitrary: s0 l n k0 v0 r g rule: less_induct)
  case less
  let ?N = "fork s0 l n TREEMAP_RED k0 v0 r"
  have bhN: "bh ?N = bh l" using less.prems(2) by (simp add: bh_fork)
  show ?case
  proof (cases g)
    case Top
    then show ?thesis using less.prems(2)
      by (subst insert_fixup_loop.simps) (auto simp: rb_tree_def rbt_black intro!: exI [of _ ?N])
  next
    case (Step s1 p c k v u g1)
    note ap = less.prems(1) [unfolded Step] and ctx = less.prems(3) [unfolded Step]
    show ?thesis
    proof (cases "c = TREEMAP_RED")
      case False
      then have c: "c = TREEMAP_BLACK" by simp
      let ?T = "plug (fork s1 ?N p TREEMAP_BLACK k v u) g1"
      have "rb_tree ?T" using less.prems(2) ctx c bhN rb_plug [of ?N g] Step by simp
      then have "rb_tree (paint TREEMAP_BLACK ?T)" by (simp add: rb_tree_def)
      then show ?thesis
        using insert_loop_exit [of s1 s0 l n TREEMAP_RED k0 v0 r p k v u g1 "m\<lparr>t_root := root_ptr ?T\<rparr>" w] ap c Step
        by (intro exI [of _ ?T]) simp
    next
      case True
      then obtain s gp d k2 v2 un g2 where g1: "g1 = Step s gp d k2 v2 un g2" using ctx by (cases g1) auto
      have d: "d = TREEMAP_BLACK" using ctx True g1 by (cases d) simp_all
      note ap = ap [unfolded g1 d True] and ctx = ctx [unfolded g1 d True, simplified]
      let ?T = "plug (fork s (fork s1 ?N p TREEMAP_RED k v u) gp TREEMAP_BLACK k2 v2 un) g2"
      let ?m = "m\<lparr>t_root := root_ptr ?T\<rparr>"
      have T: "plug ?N g = ?T" using Step g1 d True by simp
      have ap: "apart ?T" using ap by (simp only: plug.simps)
      have root: "t_root ?m = root_ptr ?T" by simp
      note step = insert_loop_step [OF ap root, of w]
      show ?thesis
      proof (cases "hue un = TREEMAP_RED")
        case red: True
        then obtain x e k3 v3 y where un: "un = fork Lside x e TREEMAP_RED k3 v3 y"
          using fork_cases [of un Lside] by auto
        let ?P = "fork s1 ?N p TREEMAP_BLACK k v u" and ?U = "fork Lside x e TREEMAP_BLACK k3 v3 y"
        let ?G = "fork s ?P gp TREEMAP_RED k2 v2 ?U"
        have body: "insert_fixup_side s ?m (Ptr n) (install ?T w) = Some (?m, Ptr gp, install (plug ?G g2) w)"
          unfolding un by (rule insert_red_uncle) (use ap un in simp)
        have same: "items (plug ?G g2) = items ?T" "root_ptr (plug ?G g2) = root_ptr ?T"
          using un by (auto simp: items_plug items_fork split: side.split)
        have "apart (plug ?G g2)" using ap un by simp
        moreover have "rbt ?G" using less.prems(2) ctx bhN un by (auto simp: bh_fork)
        moreover have "ctx_ok TREEMAP_BLACK (bh ?P) g2" using ctx less.prems(2) bhN by (simp add: bh_fork)
        moreover have "size g2 < size g" using Step g1 by simp
        ultimately obtain T' where "insert_fixup_loop (m\<lparr>t_root := root_ptr (plug ?G g2)\<rparr>) (Ptr gp) (install (plug ?G g2) w)
            = Some (m\<lparr>t_root := root_ptr T'\<rparr>, install T' w)" "items T' = items (plug ?G g2)" "rb_tree (paint TREEMAP_BLACK T')"
          using less.hyps [of g2 s ?P gp k2 v2 ?U] by blast
        then show ?thesis unfolding T step body using same by (intro exI [of _ T']) simp
      next
        case black: False
        then have un: "hue un = TREEMAP_BLACK" by simp
        have hN: "rbt ?N" "bh l = bh r" "hue l = TREEMAP_BLACK" "hue r = TREEMAP_BLACK" using less.prems(2) by simp_all
        show ?thesis
        proof (cases "s1 = s")
          case outer: True
          show ?thesis unfolding T outer
            by (rule insert_loop_outer) (use ap ctx un hN outer in simp_all)
        next
          case False
          then have s1: "s1 = opposite s" by (cases s; cases s1; simp)
          obtain y z where N: "?N = fork s y n TREEMAP_RED k0 v0 z" using fork_turn [of s0 l n TREEMAP_RED k0 v0 r s] by blast
          have "rbt (fork s y n TREEMAP_RED k0 v0 z)" using hN(1) N by simp
          then have P: "fork s1 ?N p TREEMAP_RED k v u = fork s u p TREEMAP_RED k v (fork s y n TREEMAP_RED k0 v0 z)"
            "bh y = bh l" "bh z = bh l" "hue y = TREEMAP_BLACK" "hue z = TREEMAP_BLACK" "rbt y" "rbt z"
            using bhN unfolding s1 fork_opposite N by (simp_all add: bh_fork)
          show ?thesis unfolding T P(1)
            by (rule insert_loop_inner) (use ap ctx un P in simp_all)
        qed
      qed
    qed
  qed
qed

lemma insert_fixup_ok:
  assumes "apart (plug (fork s0 l n TREEMAP_RED k0 v0 r) g)" and "rbt (fork s0 l n TREEMAP_RED k0 v0 r)"
    and "ctx_ok TREEMAP_BLACK (bh l) g"
  shows "\<exists>T'. treemap_insert_fixup (m\<lparr>t_root := root_ptr (plug (fork s0 l n TREEMAP_RED k0 v0 r) g)\<rparr>) (Ptr n)
      (install (plug (fork s0 l n TREEMAP_RED k0 v0 r) g) w) = Some (m\<lparr>t_root := root_ptr T'\<rparr>, install T' w)
    \<and> items T' = items (plug (fork s0 l n TREEMAP_RED k0 v0 r) g) \<and> rb_tree T'"
proof -
  from insert_loop_ok [OF assms, of m w] obtain T where
    T: "insert_fixup_loop (m\<lparr>t_root := root_ptr (plug (fork s0 l n TREEMAP_RED k0 v0 r) g)\<rparr>) (Ptr n)
      (install (plug (fork s0 l n TREEMAP_RED k0 v0 r) g) w) = Some (m\<lparr>t_root := root_ptr T\<rparr>, install T w)"
    "items T = items (plug (fork s0 l n TREEMAP_RED k0 v0 r) g)" "rb_tree (paint TREEMAP_BLACK T)"
    by (elim exE conjE) (rule that)
  have "apart T" using assms(1) T(2) unfolding apart_def by simp
  then have "treemap_set_color (root_ptr T) TREEMAP_BLACK (install T w) = Some (install (paint TREEMAP_BLACK T) w)"
    using set_color_ok [of T Top TREEMAP_BLACK w] by simp
  then show ?thesis using T by (intro exI [of _ "paint TREEMAP_BLACK T"]) (simp add: treemap_insert_fixup_def)
qed

end
