(* ===== verification/Treemap_Delete.thy ===== *)
theory Treemap_Delete
  imports Treemap_Insert
begin

text \<open>The loop of \<open>treemap_delete_fixup\<close>: the tree in the hole is one black node short.\<close>

section \<open>The body of the loop, for a side\<close>

definition kids :: "side \<Rightarrow> nat ptr \<Rightarrow> 'v tworld \<Rightarrow> (nat ptr \<times> nat ptr) option" where
  "kids s q w = do {
     l \<leftarrow> treemap_left_child q w;
     r \<leftarrow> treemap_right_child q w;
     Some (if s = Lside then (l, r) else (r, l)) }"

definition delete_rest ::
    "side \<Rightarrow> 'v treemap \<Rightarrow> nat ptr \<Rightarrow> nat ptr \<Rightarrow> 'v tworld \<Rightarrow> ('v treemap \<times> nat ptr \<times> nat ptr \<times> 'v tworld) option" where
  "delete_rest s m1 s1 parent w1 = do {
     (near, far) \<leftarrow> kids s s1 w1;
     nc \<leftarrow> treemap_color_of near w1;
     fc \<leftarrow> treemap_color_of far w1;
     if nc = TREEMAP_BLACK \<and> fc = TREEMAP_BLACK then do {
       w2 \<leftarrow> treemap_set_color s1 TREEMAP_RED w1;
       up \<leftarrow> parent_of parent w2;
       Some (m1, parent, up, w2) }
     else do {
       (m2, s2, far2, w2) \<leftarrow> (if fc = TREEMAP_BLACK then do {
           wa \<leftarrow> treemap_set_color near TREEMAP_BLACK w1;
           wb \<leftarrow> treemap_set_color s1 TREEMAP_RED wa;
           (ma, wc) \<leftarrow> (if s1 \<noteq> NULL then rot (opposite s) m1 s1 wb else Some (m1, wb));
           q \<leftarrow> child_at (opposite s) parent wc;
           (_, f) \<leftarrow> kids s q wc;
           Some (ma, q, f, wc) }
         else Some (m1, s1, far, w1));
       pc \<leftarrow> treemap_color_of parent w2;
       w3 \<leftarrow> treemap_set_color s2 pc w2;
       w4 \<leftarrow> treemap_set_color parent TREEMAP_BLACK w3;
       w5 \<leftarrow> treemap_set_color far2 TREEMAP_BLACK w4;
       (m3, w6) \<leftarrow> rot s m2 parent w5;
       Some (m3, t_root m3, NULL, w6) } }"

definition delete_fixup_side ::
    "side \<Rightarrow> 'v treemap \<Rightarrow> nat ptr \<Rightarrow> 'v tworld \<Rightarrow> ('v treemap \<times> nat ptr \<times> nat ptr \<times> 'v tworld) option" where
  "delete_fixup_side s m parent w = do {
     sibling \<leftarrow> child_at (opposite s) parent w;
     c \<leftarrow> treemap_color_of sibling w;
     (m1, s1, w1) \<leftarrow> (if c = TREEMAP_RED then do {
         wa \<leftarrow> treemap_set_color sibling TREEMAP_BLACK w;
         wb \<leftarrow> treemap_set_color parent TREEMAP_RED wa;
         (ma, wc) \<leftarrow> rot s m parent wb;
         q \<leftarrow> child_at (opposite s) parent wc;
         Some (ma, q, wc) }
       else Some (m, sibling, w));
     delete_rest s m1 s1 parent w1 }"

lemma delete_fixup_sides:
  "delete_fixup_left m parent w = delete_fixup_side Lside m parent w"
  "delete_fixup_right m parent w = delete_fixup_side Rside m parent w"
  by (simp_all add: delete_fixup_left_def delete_fixup_right_def delete_fixup_side_def delete_rest_def kids_def cong: if_cong)

lemma kids_Ptr [tree_exec]:
  "kids s (Ptr a) w = map_option (\<lambda>n. (child s n, child (opposite s) n)) (get_node (Ptr a) w)"
  by (cases s; cases "cells_of w a")
    (simp_all add: kids_def treemap_left_child_def treemap_right_child_def child_at_def)

section \<open>Black sibling\<close>

lemma rest_black_kids:
  assumes "apart (plug (fork s t p c k v (fork s near b d kb vb far)) g)"
    and "hue near = TREEMAP_BLACK" "hue far = TREEMAP_BLACK"
  shows "delete_rest s m (Ptr b) (Ptr p) (install (plug (fork s t p c k v (fork s near b d kb vb far)) g) w)
    = Some (m, Ptr p, hole_ptr g, install (plug (fork s t p c k v (fork s near b TREEMAP_RED kb vb far)) g) w)"
  using assms color_of_ok [of near "Step s b d kb vb far (Step (opposite s) p c k v t g)" w]
    color_of_ok [of far "Step (opposite s) b d kb vb near (Step (opposite s) p c k v t g)" w]
  by (simp add: delete_rest_def tree_exec)

lemma rest_red_far:
  assumes "apart (plug (fork s t p c k v (fork s near b d kb vb (fork s2 x f TREEMAP_RED kf vf y))) g)"
    and "t_root m = root_ptr (plug (fork s t p c k v (fork s near b d kb vb (fork s2 x f TREEMAP_RED kf vf y))) g)"
  shows "delete_rest s m (Ptr b) (Ptr p) (install (plug (fork s t p c k v (fork s near b d kb vb (fork s2 x f TREEMAP_RED kf vf y))) g) w)
    = (let T = plug (fork s (fork s t p TREEMAP_BLACK k v near) b c kb vb (fork s2 x f TREEMAP_BLACK kf vf y)) g in
       Some (m\<lparr>t_root := root_ptr T\<rparr>, root_ptr T, NULL, install T w))"
  using assms color_of_ok [of near "Step s b d kb vb (fork s2 x f TREEMAP_RED kf vf y) (Step (opposite s) p c k v t g)" w]
  by (simp add: delete_rest_def tree_exec Let_def)

lemma rest_red_near:
  assumes "apart (plug (fork s t p c k v (fork s (fork s x n TREEMAP_RED kn vn y) b d kb vb far)) g)"
    and "t_root m = root_ptr (plug (fork s t p c k v (fork s (fork s x n TREEMAP_RED kn vn y) b d kb vb far)) g)"
    and "hue far = TREEMAP_BLACK"
  shows "delete_rest s m (Ptr b) (Ptr p) (install (plug (fork s t p c k v (fork s (fork s x n TREEMAP_RED kn vn y) b d kb vb far)) g) w)
    = (let T = plug (fork s (fork s t p TREEMAP_BLACK k v x) n c kn vn (fork s y b TREEMAP_BLACK kb vb far)) g in
       Some (m\<lparr>t_root := root_ptr T\<rparr>, root_ptr T, NULL, install T w))"
  using assms color_of_ok [of far "Step (opposite s) b d kb vb (fork s x n TREEMAP_RED kn vn y) (Step (opposite s) p c k v t g)" w]
  by (simp add: delete_rest_def tree_exec Let_def)

section \<open>Red sibling\<close>

lemma side_black:
  assumes "apart (plug (fork s t p c k v (fork s near b TREEMAP_BLACK kb vb far)) g)"
  shows "delete_fixup_side s m (Ptr p) (install (plug (fork s t p c k v (fork s near b TREEMAP_BLACK kb vb far)) g) w)
    = delete_rest s m (Ptr b) (Ptr p) (install (plug (fork s t p c k v (fork s near b TREEMAP_BLACK kb vb far)) g) w)"
  using assms by (simp add: delete_fixup_side_def tree_exec)

lemma side_red:
  assumes "apart (plug (fork s t p c k v (fork s near b TREEMAP_RED kb vb far)) g)"
    and "t_root m = root_ptr (plug (fork s t p c k v (fork s near b TREEMAP_RED kb vb far)) g)"
  shows "delete_fixup_side s m (Ptr p) (install (plug (fork s t p c k v (fork s near b TREEMAP_RED kb vb far)) g) w)
    = (let T = plug (fork s (fork s t p TREEMAP_RED k v near) b TREEMAP_BLACK kb vb far) g in
       delete_rest s (m\<lparr>t_root := root_ptr T\<rparr>) (root_ptr near) (Ptr p) (install T w))"
  using assms by (simp add: delete_fixup_side_def tree_exec Let_def)

section \<open>The loop\<close>

lemma delete_loop_root: "delete_fixup_loop (m\<lparr>t_root := q\<rparr>) q up w = Some (m\<lparr>t_root := q\<rparr>, q, w)"
  by (subst delete_fixup_loop.simps) simp

lemma delete_loop_red:
  assumes "apart (plug t g)" and "hue t = TREEMAP_RED"
  shows "delete_fixup_loop m (root_ptr t) up (install (plug t g) w) = Some (m, root_ptr t, install (plug t g) w)"
  using color_of_ok [OF assms(1), of w] assms(2) by (subst delete_fixup_loop.simps) simp

lemma delete_loop_step:
  assumes ap: "apart (plug (fork s t p c k v u) g)" and m: "t_root m = root_ptr (plug (fork s t p c k v u) g)"
    and t: "hue t = TREEMAP_BLACK" and u: "u \<noteq> Tip"
  shows "delete_fixup_loop m (root_ptr t) (Ptr p) (install (plug (fork s t p c k v u) g) w)
    = do { (m1, node1, up1, w1) \<leftarrow> delete_fixup_side s m (Ptr p) (install (plug (fork s t p c k v u) g) w);
           delete_fixup_loop m1 node1 up1 w1 }"
proof -
  have no_root: "root_ptr t \<noteq> top_ptr (Ptr p) g"
  proof (cases t)
    case (Branch l a c k v r)
    then show ?thesis using ap top_outside [of a g "Ptr p"] by (auto simp: tree_exec)
  qed (cases g; use top_in [of g] in auto)
  have left: "root_ptr t = child Lside (fork_node s (root_ptr t) (root_ptr u) q c k v) \<longleftrightarrow> s = Lside" for q
    using ap u by (cases t) (auto simp: child_left tree_exec)
  have "treemap_color_of (root_ptr t) (install (plug (fork s t p c k v u) g) w) = Some TREEMAP_BLACK"
    using color_of_ok [of t "Step s p c k v u g" w] ap t by simp
  then show ?thesis using ap m no_root left
    by (subst delete_fixup_loop.simps)
      (cases s; simp add: tree_exec delete_fixup_sides cong: if_cong)
qed

text \<open>What the loop achieves: all that is left to do is to paint the node black.\<close>

definition restores ::
    "'v treemap \<Rightarrow> 'v tworld \<Rightarrow> (nat \<times> cell \<times> 'v) list \<Rightarrow> ('v treemap \<times> nat ptr \<times> 'v tworld) option \<Rightarrow> bool" where
  "restores m w its r \<longleftrightarrow> (\<exists>t g. r = Some (m\<lparr>t_root := root_ptr (plug t g)\<rparr>, root_ptr t, install (plug t g) w)
     \<and> items (plug t g) = its \<and> rb_tree (plug (paint TREEMAP_BLACK t) g))"

lemma restores_top:
  assumes "rb_tree T" and "items T = its"
  shows "restores m w its (delete_fixup_loop (m\<lparr>t_root := root_ptr T\<rparr>) (root_ptr T) up (install T w))"
  using assms unfolding delete_loop_root restores_def rb_tree_def by (intro exI [of _ T] exI [of _ Top]) simp

lemma ctx_ok_black: "ctx_ok c h g \<Longrightarrow> ctx_ok TREEMAP_BLACK h g"
  by (cases g) auto

lemma rest_ok:
  assumes ap: "apart (plug (fork s t p c k v (fork s near b TREEMAP_BLACK kb vb far)) g)"
    and t: "rbt t" "hue t = TREEMAP_BLACK" and sib: "rbt near" "rbt far" "bh near = bh t" "bh far = bh t"
    and ctx: "ctx_ok c (Suc (bh t) + (if c = TREEMAP_BLACK then 1 else 0)) g"
    and again: "\<And>m. c = TREEMAP_BLACK \<Longrightarrow> hue near = TREEMAP_BLACK \<Longrightarrow> hue far = TREEMAP_BLACK \<Longrightarrow>
        restores m w (items (plug (fork s t p c k v (fork s near b TREEMAP_BLACK kb vb far)) g))
          (delete_fixup_loop (m\<lparr>t_root := root_ptr (plug (fork s t p c k v (fork s near b TREEMAP_RED kb vb far)) g)\<rparr>) (Ptr p)
            (hole_ptr g) (install (plug (fork s t p c k v (fork s near b TREEMAP_RED kb vb far)) g) w))"
  defines "T \<equiv> plug (fork s t p c k v (fork s near b TREEMAP_BLACK kb vb far)) g"
  shows "restores m w (items T) (do {
      (m1, node1, up1, w1) \<leftarrow> delete_rest s (m\<lparr>t_root := root_ptr T\<rparr>) (Ptr b) (Ptr p) (install T w);
      delete_fixup_loop m1 node1 up1 w1 })"
proof -
  let ?m = "m\<lparr>t_root := root_ptr T\<rparr>"
  consider (A) "hue near = TREEMAP_BLACK" "hue far = TREEMAP_BLACK" | (B) "hue far = TREEMAP_RED"
    | (C) "hue far = TREEMAP_BLACK" "hue near = TREEMAP_RED"
    by (cases "hue near"; cases "hue far") auto
  then show ?thesis
  proof cases
    case A
    let ?F = "fork s t p c k v (fork s near b TREEMAP_RED kb vb far)"
    have rest: "delete_rest s ?m (Ptr b) (Ptr p) (install T w) = Some (?m, Ptr p, hole_ptr g, install (plug ?F g) w)"
      unfolding T_def by (rule rest_black_kids [OF ap A])
    have root: "root_ptr T = root_ptr (plug ?F g)" by (simp add: T_def)
    show ?thesis
    proof (cases "c = TREEMAP_BLACK")
      case True
      then show ?thesis unfolding rest unfolding root using again [OF True A] by (simp add: T_def)
    next
      case False
      then have c: "c = TREEMAP_RED" by simp
      have apF: "apart (plug ?F g)" "hue ?F = TREEMAP_RED" using ap c by simp_all
      have "items (plug ?F g) = items T" by (auto simp: T_def items_plug items_fork split: side.split)
      moreover have "rb_tree (plug (paint TREEMAP_BLACK ?F) g)"
        using t sib A ctx_ok_black [OF ctx] c by (simp add: rb_plug bh_fork)
      ultimately show ?thesis unfolding rest unfolding root restores_def
        using delete_loop_red [OF apF, of "m\<lparr>t_root := root_ptr (plug ?F g)\<rparr>" "hole_ptr g" w]
        by (intro exI [of _ ?F] exI [of _ g]) simp
    qed
  next
    case B
    then obtain x f kf vf y where far: "far = fork Lside x f TREEMAP_RED kf vf y" using fork_cases [of far Lside] by auto
    let ?T = "plug (fork s (fork s t p TREEMAP_BLACK k v near) b c kb vb (fork Lside x f TREEMAP_BLACK kf vf y)) g"
    have rest: "delete_rest s ?m (Ptr b) (Ptr p) (install T w) = Some (m\<lparr>t_root := root_ptr ?T\<rparr>, root_ptr ?T, NULL, install ?T w)"
      using rest_red_far [of s t p c k v near b TREEMAP_BLACK kb vb Lside x f kf vf y g ?m w] ap far by (simp add: T_def)
    have "items ?T = items T" using far by (auto simp: T_def items_plug items_fork split: side.split)
    moreover have "rb_tree ?T" using t sib ctx far by (auto simp: rb_plug bh_fork)
    ultimately show ?thesis using restores_top [of ?T "items T" m w NULL] unfolding rest by simp
  next
    case C
    then obtain x n kn vn y where near: "near = fork s x n TREEMAP_RED kn vn y" using fork_cases [of near s] by auto
    let ?T = "plug (fork s (fork s t p TREEMAP_BLACK k v x) n c kn vn (fork s y b TREEMAP_BLACK kb vb far)) g"
    have rest: "delete_rest s ?m (Ptr b) (Ptr p) (install T w) = Some (m\<lparr>t_root := root_ptr ?T\<rparr>, root_ptr ?T, NULL, install ?T w)"
      using rest_red_near [of s t p c k v x n kn vn y b TREEMAP_BLACK kb vb far g ?m w] ap near C(1) by (simp add: T_def)
    have "items ?T = items T" using near by (auto simp: T_def items_plug items_fork split: side.split)
    moreover have "rb_tree ?T" using t sib ctx near C by (auto simp: rb_plug bh_fork)
    ultimately show ?thesis using restores_top [of ?T "items T" m w NULL] unfolding rest by simp
  qed
qed

lemma delete_loop_ok:
  assumes "apart (plug t g)" and "rbt (paint TREEMAP_BLACK t)" and "ctx_ok TREEMAP_BLACK (Suc (bh t)) g"
  shows "restores m w (items (plug t g))
    (delete_fixup_loop (m\<lparr>t_root := root_ptr (plug t g)\<rparr>) (root_ptr t) (hole_ptr g) (install (plug t g) w))"
  using assms
proof (induction "size g" arbitrary: t g m rule: less_induct)
  case less
  note ap = less.prems(1) and rt = less.prems(2) and ctx = less.prems(3)
  consider (top) "g = Top" | (red) "hue t = TREEMAP_RED" | (step) s p c k v u g1 where "g = Step s p c k v u g1" "hue t = TREEMAP_BLACK"
    by (cases g; cases "hue t") auto
  then show ?case
  proof cases
    case top
    then have "delete_fixup_loop (m\<lparr>t_root := root_ptr t\<rparr>) (root_ptr t) NULL (install t w) = Some (m\<lparr>t_root := root_ptr t\<rparr>, root_ptr t, install t w)"
      using delete_loop_root by blast
    then show ?thesis using top rt unfolding restores_def by (intro exI [of _ t] exI [of _ Top]) (simp add: rb_tree_def)
  next
    case red
    then have "bh (paint TREEMAP_BLACK t) = Suc (bh t)" by (cases t) auto
    then have "rb_tree (plug (paint TREEMAP_BLACK t) g)" using rt ctx by (simp add: rb_plug)
    then show ?thesis unfolding restores_def using delete_loop_red [OF ap red, of "m\<lparr>t_root := root_ptr (plug t g)\<rparr>" "hole_ptr g" w]
      by (intro exI [of _ t] exI [of _ g]) simp
  next
    case step
    have t: "rbt t" using rt step(2) by simp
    have c1: "rbt u" "bh u = Suc (bh t)" "c = TREEMAP_RED \<Longrightarrow> hue u = TREEMAP_BLACK"
      "ctx_ok c (Suc (bh t) + (if c = TREEMAP_BLACK then 1 else 0)) g1" using ctx step(1) by simp_all
    have "u \<noteq> Tip" using c1(2) by auto
    then obtain near b d kb vb far where u: "u = fork s near b d kb vb far" using fork_cases [of u s] by blast
    have kids: "rbt near" "rbt far" "bh near = bh far" using c1(1) u by simp_all
    let ?T = "plug (fork s t p c k v u) g1" let ?m = "m\<lparr>t_root := root_ptr ?T\<rparr>"
    have apT: "apart ?T" and root: "t_root ?m = root_ptr ?T" using ap step(1) by simp_all
    note loop = delete_loop_step [OF apT root step(2) \<open>u \<noteq> Tip\<close>, of w]
    have goal: "plug t g = ?T" "hole_ptr g = Ptr p" using step(1) by simp_all
    show ?thesis unfolding goal loop
    proof (cases "d = TREEMAP_BLACK")
      case True
      then have bl: "bh near = bh t" "bh far = bh t" using c1(2) u kids(3) by (simp_all add: bh_fork)
      let ?F = "fork s t p c k v (fork s near b TREEMAP_RED kb vb far)"
      note apu = apT [unfolded u True]
      have again: "restores m' w (items (plug ?F g1)) (delete_fixup_loop (m'\<lparr>t_root := root_ptr (plug ?F g1)\<rparr>) (root_ptr ?F) (hole_ptr g1) (install (plug ?F g1) w))"
        if "c = TREEMAP_BLACK" "hue near = TREEMAP_BLACK" "hue far = TREEMAP_BLACK" for m'
        by (rule less.hyps) (use apu t kids bl c1(4) step that in \<open>simp_all add: bh_fork\<close>)
      have same: "items (plug ?F g1) = items ?T" using u by (auto simp: items_plug items_fork split: side.split)
      show "restores m w (items ?T) (do { (m1, node1, up1, w1) \<leftarrow> delete_fixup_side s ?m (Ptr p) (install ?T w);
          delete_fixup_loop m1 node1 up1 w1 })"
        unfolding u True side_black [OF apu]
        by (rule rest_ok [OF apu t step(2) kids(1,2) bl c1(4)]) (use again same u True in simp)
    next
      case False
      then have d: "d = TREEMAP_RED" by simp
      then have c: "c = TREEMAP_BLACK" using c1(3) u by (cases c) simp_all
      have bl: "bh near = Suc (bh t)" "bh far = Suc (bh t)" "hue near = TREEMAP_BLACK" "hue far = TREEMAP_BLACK"
        using c1(1,2) u kids(3) d by (simp_all add: bh_fork)
      have "near \<noteq> Tip" using bl(1) by auto
      then obtain x n kn vn y where near: "near = fork s x n TREEMAP_BLACK kn vn y"
        using fork_cases [of near s] bl(3) by auto
      have xy: "rbt x" "rbt y" "bh x = bh t" "bh y = bh t" using kids(1) bl(1) near by (simp_all add: bh_fork)
      let ?G = "Step s b TREEMAP_BLACK kb vb far g1"
      let ?F = "fork s t p TREEMAP_RED k v (fork s x n TREEMAP_BLACK kn vn y)"
      have apF: "apart (plug ?F ?G)" using apT u near by (auto simp: tree_exec)
      have cg: "ctx_ok TREEMAP_RED (Suc (bh t) + (if TREEMAP_RED = TREEMAP_BLACK then 1 else 0)) ?G" using c1(4) bl(2) kids(2) c by simp
      have same: "items (plug ?F ?G) = items ?T" using u near by (auto simp: items_plug items_fork split: side.split)
      have "restores m w (items (plug ?F ?G)) (do { (m1, node1, up1, w1) \<leftarrow> delete_rest s (m\<lparr>t_root := root_ptr (plug ?F ?G)\<rparr>) (Ptr n)
          (Ptr p) (install (plug ?F ?G) w); delete_fixup_loop m1 node1 up1 w1 })"
        by (rule rest_ok [OF apF t step(2) xy cg]) simp
      then show "restores m w (items ?T) (do { (m1, node1, up1, w1) \<leftarrow> delete_fixup_side s ?m (Ptr p) (install ?T w);
          delete_fixup_loop m1 node1 up1 w1 })"
        using side_red [of s t p c k v near b kb vb far g1 ?m w] apT u d same near by (simp add: Let_def)
    qed
  qed
qed

lemma delete_fixup_ok:
  assumes "apart (plug t g)" and "rbt (paint TREEMAP_BLACK t)" and "ctx_ok TREEMAP_BLACK (Suc (bh t)) g"
  shows "\<exists>T'. treemap_delete_fixup (m\<lparr>t_root := root_ptr (plug t g)\<rparr>) (root_ptr t) (hole_ptr g) (install (plug t g) w)
      = Some (m\<lparr>t_root := root_ptr T'\<rparr>, install T' w) \<and> items T' = items (plug t g) \<and> rb_tree T'"
proof -
  obtain t' g' where r: "delete_fixup_loop (m\<lparr>t_root := root_ptr (plug t g)\<rparr>) (root_ptr t) (hole_ptr g) (install (plug t g) w)
      = Some (m\<lparr>t_root := root_ptr (plug t' g')\<rparr>, root_ptr t', install (plug t' g') w)"
    "items (plug t' g') = items (plug t g)" "rb_tree (plug (paint TREEMAP_BLACK t') g')"
    using delete_loop_ok [OF assms, of m w] unfolding restores_def by (elim exE conjE) (rule that)
  have "apart (plug t' g')" using assms(1) r(2) unfolding apart_def by simp
  then have "treemap_set_color (root_ptr t') TREEMAP_BLACK (install (plug t' g') w) = Some (install (plug (paint TREEMAP_BLACK t') g') w)"
    by (rule set_color_ok)
  then show ?thesis using r
    by (intro exI [of _ "plug (paint TREEMAP_BLACK t') g'"]) (simp add: treemap_delete_fixup_def items_plug)
qed

end
