(* ===== verification/Treemap_Unlink.thy ===== *)
theory Treemap_Unlink
  imports Treemap_Delete
begin

text \<open>
  Taking a node out of the tree: \<open>treemap_transplant\<close>, the minimum of a subtree, and the three
  branches of \<open>treemap_delete\<close>.
\<close>

section \<open>Transplanting\<close>

lemma adopt_same:
  assumes "holds_tree C q t"
  shows "upd (root_ptr t) (t_parent_update (\<lambda>_. q)) C = C"
proof -
  obtain l a c k v r where "t = Tip \<or> t = fork Lside l a c k v r" using fork_cases by blast
  then show ?thesis using assms by (auto simp: upd_def fun_eq_iff)
qed

lemma transplant_ok:
  assumes g: "holds_ctx (cells_of w) (Ptr a) g" and ap: "capart g" "a \<notin> cspots g" and t: "holds_tree (cells_of w) q t"
    and apt: "apart t" "a \<notin> spots t" "spots t \<inter> cspots g = {}"
    and n: "cells_of w a = Some n" "t_parent n = hole_ptr g" and m: "t_root m = top_ptr (Ptr a) g"
  shows "treemap_transplant m (Ptr a) (root_ptr t) w = Some (m\<lparr>t_root := root_ptr (plug t g)\<rparr>, install (plug t g) w)"
proof -
  let ?C1 = "upd_hole g (root_ptr t) (cells_of w)"
  let ?C2 = "upd (root_ptr t) (t_parent_update (\<lambda>_. hole_ptr g)) ?C1"
  have hg: "hole_ptr g \<noteq> Ptr a" by (rule root_neq(2) [OF ap(2)])
  have h1: "hang Lside m (hole_ptr g) (Ptr a) (root_ptr t) w
      = Some (if g = Top then m\<lparr>t_root := root_ptr t\<rparr> else m, with_cells ?C1 w)" by (rule hang_ok [OF g ap(2,1)])
  have used: "?C1 e \<noteq> None" if "root_ptr t = Ptr e" for e
    using holds_tree_used [OF t root_in_spots [OF that]] unfolding upd_hole_apply(2) .
  have a1: "adopt (root_ptr t) (hole_ptr g) (with_cells ?C1 w) = Some (with_cells ?C2 w)"
  proof -
    have "get_node (root_ptr t) (with_cells ?C1 w) \<noteq> None" if some: "root_ptr t \<noteq> NULL"
    proof -
      obtain e where "root_ptr t = Ptr e" using some by (cases "root_ptr t") simp_all
      then show ?thesis using used [of e] by (simp only: get_node_simps with_cells_simps not_False_eq_True)
    qed
    from adopt_ok [OF this, of "hole_ptr g"] show ?thesis by simp
  qed
  have run: "treemap_transplant m (Ptr a) (root_ptr t) w
      = Some (if g = Top then m\<lparr>t_root := root_ptr t\<rparr> else m, with_cells ?C2 w)"
    using n h1 a1 hg by (simp add: treemap_transplant_def parent_of_def upd_hole_apply)
  have "holds_tree ?C1 q t" using t apt(3) by simp
  then have "holds_tree ?C2 (hole_ptr g) t" using apt(1) by (rule holds_tree_adopt)
  moreover have "holds_ctx ?C2 (root_ptr t) g" using holds_ctx_hang [OF g ap(1)] apt(3) by simp
  ultimately have "holds_tree ?C2 NULL (plug t g)" by (simp add: holds_plug)
  moreover have "?C2 d = cells_of w d" if "d \<notin> spots (plug t g)" for d
    using that root_neq(1) [of d t] root_neq(2) [of d g] by (simp add: upd_apply upd_hole_apply)
  ultimately have "with_cells ?C2 w = install (plug t g) w" by (rule installI)
  moreover have "(if g = Top then m\<lparr>t_root := root_ptr t\<rparr> else m) = m\<lparr>t_root := root_ptr (plug t g)\<rparr>"
    using m top_in [of g] by (cases "g = Top") auto
  ultimately show ?thesis using run by simp
qed

section \<open>The minimum\<close>

lemma minimum_loop_ok:
  "t \<noteq> Tip \<Longrightarrow> \<exists>h b c k v x. t = plug (Branch Tip b c k v x) h \<and> before h = []
    \<and> (\<forall>w q. holds_tree (cells_of w) q t \<longrightarrow> minimum_loop (root_ptr t) w = Some (Ptr b))"
proof (induction t)
  case (Branch l a c k v r)
  show ?case
  proof (cases "l = Tip")
    case True
    have "minimum_loop (Ptr a) w = Some (Ptr a)" if "holds_tree (cells_of w) q (Branch l a c k v r)" for w q
      using that True by (subst minimum_loop.simps) (simp add: fork_node_def)
    then show ?thesis using True by (intro exI [of _ Top] exI [of _ a] exI [of _ c] exI [of _ k] exI [of _ v] exI [of _ r]) auto
  next
    case False
    then obtain h b d j u x where h: "l = plug (Branch Tip b d j u x) h" "before h = []"
      "\<forall>w q. holds_tree (cells_of w) q l \<longrightarrow> minimum_loop (root_ptr l) w = Some (Ptr b)" using Branch.IH(1) by blast
    let ?h = "graft h (Step Lside a c k v r Top)"
    have "minimum_loop (Ptr a) w = Some (Ptr b)" if "holds_tree (cells_of w) q (Branch l a c k v r)" for w q
      using that h(3) False by (subst minimum_loop.simps) (auto simp: fork_node_def)
    moreover have "Branch l a c k v r = plug (Branch Tip b d j u x) ?h" "before ?h = []"
      using h(1,2) by (simp_all add: fork_def)
    ultimately show ?thesis
      by (intro exI [of _ ?h] exI [of _ b] exI [of _ d] exI [of _ j] exI [of _ u] exI [of _ x]) auto
  qed
qed simp

section \<open>Attaching a subtree\<close>

lemma attach_ok:
  assumes ap: "apart (plug (fork s l b c k v r) g)" and l: "l \<noteq> Tip" and h: "holds_tree (cells_of w) q l"
  defines "W \<equiv> install (plug (fork s Tip b c k v r) g) w"
  shows "\<exists>w3. set_child s (Ptr b) (root_ptr l) W = Some w3 \<and> child_at s (Ptr b) w3 = Some (root_ptr l)
    \<and> set_parent (root_ptr l) (Ptr b) w3 = Some (install (plug (fork s l b c k v r) g) w)"
proof -
  let ?T = "plug (fork s Tip b c k v r) g"
  have apT: "apart ?T" using ap by (simp add: Int_Un_distrib2)
  have in_T: "holds_tree (cells_of W) NULL ?T" unfolding W_def using holds_install [OF apT] by (simp add: cells_install)
  have "holds_tree (cells_of W) q l"
  proof (rule iffD2 [OF holds_tree_cong h])
    fix d assume "d \<in> spots l"
    then have "d \<notin> spots ?T" using ap by auto
    then show "cells_of W d = cells_of w d" unfolding W_def by (rule install_outside)
  qed
  note hl = this
  obtain e where e: "root_ptr l = Ptr e" using l by (cases l) auto
  let ?C3 = "upd (Ptr b) (put_child s (root_ptr l)) (cells_of W)"
  let ?C4 = "upd (root_ptr l) (t_parent_update (\<lambda>_. Ptr b)) ?C3"
  have cb: "cells_of W b = Some (fork_node s NULL (root_ptr r) (hole_ptr g) c k v)" using in_T by (simp add: holds_plug)
  have b: "b \<notin> spots l" using ap by simp
  have eb: "e \<noteq> b" "cells_of W e \<noteq> None" using root_in_spots [OF e] b holds_tree_used [OF hl] by auto
  have s1: "set_child s (Ptr b) (root_ptr l) W = Some (with_cells ?C3 W)" using cb by (simp add: set_child_def modify_ok)
  have s2: "child_at s (Ptr b) (with_cells ?C3 W) = Some (root_ptr l)" using cb by (simp add: child_at_def upd_apply)
  have s3: "set_parent (root_ptr l) (Ptr b) (with_cells ?C3 W) = Some (with_cells ?C4 W)"
    using e eb by (simp add: set_parent_def modify_ok upd_apply)
  have l3: "holds_tree ?C3 q l" using hl b by simp
  have dis: "spots l \<inter> spots r = {}" "spots l \<inter> cspots g = {}" "apart l" "b \<notin> spots r" "b \<notin> cspots g" using ap by auto
  have "holds_tree ?C4 (Ptr b) l" by (rule holds_tree_adopt [OF l3 dis(3)])
  moreover have "holds_tree ?C4 (Ptr b) r" "holds_ctx ?C4 (Ptr b) g" using in_T dis by (simp_all add: holds_plug)
  moreover have "?C4 b = Some (fork_node s (root_ptr l) (root_ptr r) (hole_ptr g) c k v)" using cb e eb by (simp add: upd_apply)
  ultimately have "holds_tree ?C4 NULL (plug (fork s l b c k v r) g)" by (simp add: holds_plug)
  moreover have "?C4 d = cells_of w d" if "d \<notin> spots (plug (fork s l b c k v r) g)" for d
    using that root_neq(1) [of d l] install_outside [of d ?T w] by (simp add: upd_apply W_def)
  ultimately have "with_cells ?C4 w = install (plug (fork s l b c k v r) g) w" by (rule installI)
  then have "with_cells ?C4 W = install (plug (fork s l b c k v r) g) w" by (simp add: W_def install_def)
  then show ?thesis using s1 s2 s3 by auto
qed

section \<open>The successor\<close>

lemma take_place_ok:
  assumes g: "holds_ctx (cells_of w) (Ptr a) g" and b: "holds_tree (cells_of w) q (Branch Tip b d j u y)"
    and l: "holds_tree (cells_of w) (Ptr a) l" "l \<noteq> Tip"
    and a: "cells_of w a = Some (fork_node Lside (root_ptr l) z (hole_ptr g) c k v)"
    and ap: "apart (plug (Branch l b d j u y) g)" "a \<notin> spots (plug (Branch l b d j u y) g)"
    and m: "t_root m = top_ptr (Ptr a) g"
  shows "take_place m (Ptr a) (Ptr b) w
    = Some (m\<lparr>t_root := root_ptr (plug (Branch l b c j u y) g)\<rparr>, install (plug (Branch l b c j u y) g) w)"
proof -
  let ?R = "Branch Tip b d j u y" let ?w1 = "install (plug ?R g) w"
  have sep: "capart g" "a \<notin> cspots g" "apart ?R" "a \<notin> spots ?R" "spots ?R \<inter> cspots g = {}"
    using ap by (auto simp: apart_Branch)
  have "treemap_transplant m (Ptr a) (root_ptr ?R) w = Some (m\<lparr>t_root := root_ptr (plug ?R g)\<rparr>, ?w1)"
    by (rule transplant_ok [OF g sep(1,2) b sep(3-5) a _ m]) simp
  then have t: "treemap_transplant m (Ptr a) (Ptr b) w = Some (m\<lparr>t_root := top_ptr (Ptr b) g\<rparr>, ?w1)" by simp
  have "a \<notin> spots (plug ?R g)" using ap(2) by simp
  then have a1: "cells_of ?w1 a = cells_of w a" by (rule install_outside)
  have "apart (plug (fork Lside l b d j u y) g)" using ap(1) by (simp add: fork_def)
  from attach_ok [OF this l(2,1)] obtain w3 where
    w3: "set_child Lside (Ptr b) (root_ptr l) ?w1 = Some w3" "child_at Lside (Ptr b) w3 = Some (root_ptr l)"
    "set_parent (root_ptr l) (Ptr b) w3 = Some (install (plug (fork Lside l b d j u y) g) w)"
    unfolding fork_def side.case by blast
  let ?w4 = "install (plug (fork Lside l b d j u y) g) w"
  have a4: "cells_of ?w4 a = cells_of w a" by (rule install_outside) (use ap(2) in simp)
  have col: "modify (Ptr b) (t_color_update (\<lambda>_. c)) ?w4 = Some (install (plug (fork Lside l b c j u y) g) w)"
    by (rule write_node) (use ap(1) in \<open>simp_all add: fork_def\<close>)
  have la: "child_at Lside (Ptr a) ?w1 = Some (root_ptr l)" using a1 a by (simp add: child_at_def)
  show ?thesis
    using t la w3 a4 a col by (simp add: take_place_def fork_def)
qed

lemma hole_graft [simp]: "hole_ptr (graft h g) = (if h = Top then hole_ptr g else hole_ptr h)"
  by (cases h) auto

lemma top_graft [simp]: "top_ptr p (graft h g) = top_ptr (top_ptr p h) g"
  by (induction h arbitrary: p) auto

lemma successor_direct:
  assumes ap: "apart (plug (Branch l a c k v (Branch Tip b d j u x)) g)" and l: "l \<noteq> Tip"
    and m: "t_root m = root_ptr (plug (Branch l a c k v (Branch Tip b d j u x)) g)"
  shows "remove_successor m (Ptr a) (install (plug (Branch l a c k v (Branch Tip b d j u x)) g) w)
    = Some (m\<lparr>t_root := root_ptr (plug (Branch l b c j u x) g)\<rparr>, root_ptr x, Ptr b, d,
        install (plug (Branch l b c j u x) g) (install (plug (Branch l a c k v (Branch Tip b d j u x)) g) w))"
proof -
  let ?T = "plug (Branch l a c k v (Branch Tip b d j u x)) g" let ?w = "install ?T w"
  have T: "holds_tree (cells_of ?w) NULL ?T" using holds_install [OF ap] by (simp add: cells_install)
  have parts: "holds_ctx (cells_of ?w) (Ptr a) g" "holds_tree (cells_of ?w) (Ptr a) (Branch Tip b d j u x)"
    "holds_tree (cells_of ?w) (Ptr a) l" "holds_tree (cells_of ?w) (Ptr b) x"
    "cells_of ?w a = Some (fork_node Lside (root_ptr l) (Ptr b) (hole_ptr g) c k v)"
    "cells_of ?w b = Some (fork_node Lside NULL (root_ptr x) (Ptr a) d j u)"
    using T by (simp_all add: holds_plug)
  have "minimum_loop (Ptr b) ?w = Some (Ptr b)" using parts(6)
    by (subst minimum_loop.simps) (simp add: fork_node_def)
  then have min: "treemap_minimum (Ptr b) ?w = Some (Ptr b)" by (simp add: treemap_minimum_def)
  have ad: "adopt (root_ptr x) (Ptr b) ?w = Some ?w"
  proof -
    have "get_node (root_ptr x) ?w \<noteq> None" if some: "root_ptr x \<noteq> NULL"
    proof -
      obtain e where e: "root_ptr x = Ptr e" using some by (cases "root_ptr x") simp_all
      show ?thesis using holds_tree_used [OF parts(4) root_in_spots [OF e]] e by (simp)
    qed
    from adopt_ok [OF this, of "Ptr b"] show ?thesis unfolding adopt_same [OF parts(4)] by simp
  qed
  have right: "right_of (Ptr a) ?w = Some (Ptr b)" using parts(5) by (simp add: child_at_def child_def fork_node_def)
  have sep: "apart (plug (Branch l b d j u x) g)" "a \<notin> spots (plug (Branch l b d j u x) g)"
    using ap by (auto simp: apart_Branch)
  have tp: "take_place m (Ptr a) (Ptr b) ?w = Some (m\<lparr>t_root := root_ptr (plug (Branch l b c j u x) g)\<rparr>, install (plug (Branch l b c j u x) g) ?w)"
    by (rule take_place_ok [OF parts(1,2,3) l parts(5) sep]) (use m in simp)
  show ?thesis
    using right min ad tp parts(6) by (simp add: remove_successor_def fork_node_def sides)
qed

lemma install_with:
  assumes "\<And>d. d \<notin> spots t \<Longrightarrow> C d = cells_of w d"
  shows "install t (with_cells C w) = install t w"
proof -
  have "(C ++ nodes NULL t) d = (cells_of w ++ nodes NULL t) d" for d
    by (cases "d \<in> spots t") (simp_all add: assms map_add_dom_app_simps)
  then have "C ++ nodes NULL t = cells_of w ++ nodes NULL t" by blast
  then show ?thesis by (simp add: install_def)
qed

lemma cspots_graft [simp]: "cspots (graft h g) = cspots h \<union> cspots g"
  by (auto simp: cspots_def)

text \<open>The successor has been cut out and gets the right subtree of the node.\<close>

lemma move_right_ok:
  assumes b: "cells_of w b = Some (fork_node Lside NULL y q d j u)" and r: "holds_tree (cells_of w) p r" "r \<noteq> Tip"
    and ap: "apart r" "b \<notin> spots r"
  shows "\<exists>C w1. set_child Rside (Ptr b) (root_ptr r) w = Some w1 \<and> child_at Rside (Ptr b) w1 = Some (root_ptr r)
    \<and> set_parent (root_ptr r) (Ptr b) w1 = Some (with_cells C w) \<and> holds_tree C q (Branch Tip b d j u r)
    \<and> (\<forall>e. e \<noteq> b \<longrightarrow> e \<notin> spots r \<longrightarrow> C e = cells_of w e)"
proof -
  obtain e where e: "root_ptr r = Ptr e" using r(2) by (cases r) auto
  let ?C1 = "upd (Ptr b) (put_child Rside (root_ptr r)) (cells_of w)"
  let ?C2 = "upd (root_ptr r) (t_parent_update (\<lambda>_. Ptr b)) ?C1"
  have eb: "e \<noteq> b" "cells_of w e \<noteq> None" using root_in_spots [OF e] ap(2) holds_tree_used [OF r(1)] by auto
  have cb: "cells_of w b = Some (fork_node Rside y NULL q d j u)" using b by (simp add: fork_node_def)
  have s1: "set_child Rside (Ptr b) (root_ptr r) w = Some (with_cells ?C1 w)" using cb by (simp add: set_child_def modify_ok)
  have s2: "child_at Rside (Ptr b) (with_cells ?C1 w) = Some (root_ptr r)" using cb by (simp add: child_at_def upd_apply)
  have s3: "set_parent (root_ptr r) (Ptr b) (with_cells ?C1 w) = Some (with_cells ?C2 w)"
    using e eb by (simp add: set_parent_def modify_ok upd_apply)
  have r1: "holds_tree ?C1 p r" using r(1) ap(2) by simp
  have "?C2 b = Some (fork_node Rside (root_ptr r) NULL q d j u)" using cb e eb by (simp add: upd_apply)
  then have "holds_tree ?C2 q (Branch Tip b d j u r)" using holds_tree_adopt [OF r1 ap(1)] by (simp add: fork_node_def)
  moreover have "\<forall>f. f \<noteq> b \<longrightarrow> f \<notin> spots r \<longrightarrow> ?C2 f = cells_of w f"
    using root_neq(1) [of _ r] by (simp add: upd_apply)
  ultimately show ?thesis using s1 s2 s3 by auto
qed

lemma root_top: "h \<noteq> Top \<Longrightarrow> root_ptr (plug t h) = root_ptr (plug u h)"
  using top_in [of h] by auto

lemma successor_deep:
  assumes ap: "apart (plug (Branch l a c k v (plug (Branch Tip b d j u x) h)) g)" and l: "l \<noteq> Tip" and h: "h \<noteq> Top"
    and m: "t_root m = root_ptr (plug (Branch l a c k v (plug (Branch Tip b d j u x) h)) g)"
    and min: "\<And>w q. holds_tree (cells_of w) q (plug (Branch Tip b d j u x) h) \<Longrightarrow>
        minimum_loop (root_ptr (plug (Branch Tip b d j u x) h)) w = Some (Ptr b)"
    and T: "holds_tree (cells_of W) NULL (plug (Branch l a c k v (plug (Branch Tip b d j u x) h)) g)"
  shows "remove_successor m (Ptr a) W
    = Some (m\<lparr>t_root := root_ptr (plug (Branch l b c j u (plug x h)) g)\<rparr>, root_ptr x, hole_ptr h, d,
        install (plug (Branch l b c j u (plug x h)) g) W)"
proof -
  let ?B = "Branch Tip b d j u x" let ?r = "plug ?B h" let ?r1 = "plug x h"
  let ?T = "plug (Branch l a c k v ?r) g" and ?T1 = "plug (Branch l a c k v ?r1) g"
  let ?G = "graft h (Step Rside a c k v l g)" let ?m1 = "m\<lparr>t_root := root_ptr ?T1\<rparr>" let ?W1 = "install ?T1 W"
  have T1: "plug x ?G = ?T1" "plug ?B ?G = ?T" by (simp_all add: fork_def)
  have sep: "capart ?G" "b \<notin> cspots ?G" "apart x" "b \<notin> spots x" "spots x \<inter> cspots ?G = {}"
    using ap unfolding T1(2) [symmetric] apart_simps apart_Branch by auto
  have G: "holds_ctx (cells_of W) (Ptr b) ?G" "holds_tree (cells_of W) (Ptr b) x"
    and cb: "cells_of W b = Some (fork_node Lside NULL (root_ptr x) (hole_ptr ?G) d j u)"
    using T unfolding T1(2) [symmetric] holds_plug by simp_all
  have a0: "cells_of W a = Some (fork_node Lside (root_ptr l) (root_ptr ?r) (hole_ptr g) c k v)" "holds_tree (cells_of W) (Ptr a) ?r"
    using T by (simp_all add: holds_plug)
  have mT: "t_root m = top_ptr (Ptr b) ?G" using m unfolding T1(2) [symmetric] root_plug by simp
  have tr: "treemap_transplant m (Ptr b) (root_ptr x) W = Some (?m1, ?W1)"
    unfolding T1(1) [symmetric] by (rule transplant_ok [OF G(1) sep(1,2) G(2) sep(3-5) cb _ mT]) simp
  have ap1: "apart ?T1" unfolding T1(1) [symmetric] using sep unfolding apart_simps by blast
  have in1: "holds_tree (cells_of ?W1) NULL ?T1" using holds_install [OF ap1] by (simp add: cells_install)
  have a1: "cells_of ?W1 a = Some (fork_node Lside (root_ptr l) (root_ptr ?r1) (hole_ptr g) c k v)"
    and subs: "holds_tree (cells_of ?W1) (Ptr a) ?r1" "holds_tree (cells_of ?W1) (Ptr a) l" "holds_ctx (cells_of ?W1) (Ptr a) g"
    using in1 by (simp_all only: holds_plug [of _ "Branch l a c k v ?r1"] holds_tree.simps root_ptr.simps)
  have bT1: "b \<notin> spots ?T1" using sep(2,4) unfolding T1(1) [symmetric] by simp
  have b1: "cells_of ?W1 b = Some (fork_node Lside NULL (root_ptr x) (hole_ptr ?G) d j u)"
    using install_outside [OF bT1] cb by simp
  have r1: "?r1 \<noteq> Tip" using h plug_Tip by blast
  have ar1: "apart ?r1" "b \<notin> spots ?r1" using ap1 bT1 by (simp_all add: apart_Branch)
  from move_right_ok [OF b1 subs(1) r1 ar1] obtain C w1 where mv:
    "set_child Rside (Ptr b) (root_ptr ?r1) ?W1 = Some w1" "child_at Rside (Ptr b) w1 = Some (root_ptr ?r1)"
    "set_parent (root_ptr ?r1) (Ptr b) w1 = Some (with_cells C ?W1)" "holds_tree C (hole_ptr ?G) (Branch Tip b d j u ?r1)"
    "\<forall>e. e \<noteq> b \<longrightarrow> e \<notin> spots ?r1 \<longrightarrow> C e = cells_of ?W1 e"
    by (elim exE conjE) (rule that)
  have dis: "a \<notin> spots ?r1" "a \<noteq> b" "spots l \<inter> spots ?r1 = {}" "b \<notin> spots l" "spots ?r1 \<inter> cspots g = {}" "b \<notin> cspots g"
    using ap by (auto simp: apart_Branch)
  have C: "C e = cells_of ?W1 e" if e: "e = a \<or> e \<in> spots l \<or> e \<in> cspots g" for e
  proof -
    have "e \<notin> spots ?r1" using e dis(1,3,5) unfolding disjoint_iff by (elim disjE) (simp only: simp_thms, metis, metis)
    moreover have "e \<noteq> b" using e dis(2,4,6) by (elim disjE) (simp, metis, metis)
    ultimately show ?thesis using mv(5) by simp
  qed
  have hC: "holds_ctx C (Ptr a) g" "holds_tree C (Ptr a) l"
    using subs(2,3) holds_ctx_cong [of g C "cells_of ?W1"] holds_tree_cong [of l C "cells_of ?W1"] C by blast+
  have Ca: "C a = Some (fork_node Lside (root_ptr l) (root_ptr ?r1) (hole_ptr g) c k v)" using a1 C by simp
  have ap2: "apart (plug (Branch l b d j u ?r1) g)" "a \<notin> spots (plug (Branch l b d j u ?r1) g)"
    using ap by (auto simp: apart_Branch)
  let ?F = "plug (Branch l b c j u ?r1) g"
  have tp: "take_place ?m1 (Ptr a) (Ptr b) (with_cells C ?W1) = Some (?m1\<lparr>t_root := root_ptr ?F\<rparr>, install ?F (with_cells C ?W1))"
    by (rule take_place_ok [where w = "with_cells C ?W1", unfolded with_cells_simps, OF hC(1) mv(4) hC(2) l Ca ap2]) simp
  have same: "install ?F (with_cells C ?W1) = install ?F W"
  proof -
    have "C e = cells_of W e" if "e \<notin> spots ?F" for e
    proof (cases "e = a")
      case True
      then show ?thesis using Ca a0(1) root_top [OF h, of x ?B] by simp
    next
      case False
      then show ?thesis using that mv(5) install_outside [of e ?T1 W] by simp
    qed
    then have "install ?F (with_cells C W) = install ?F W" by (rule install_with)
    then show ?thesis by (simp add: install_def)
  qed
  have ra: "right_of (Ptr a) W = Some (root_ptr ?r)" using a0(1) by (simp add: child_at_def child_def fork_node_def)
  have "?r \<noteq> Tip" using plug_Tip by blast
  then have "root_ptr ?r \<noteq> NULL" unfolding root_NULL(1) .
  then have mi: "treemap_minimum (root_ptr ?r) W = Some (Ptr b)" unfolding treemap_minimum_def using min [OF a0(2)] by simp
  have ra1: "right_of (Ptr a) ?W1 = Some (root_ptr ?r1)" using a1 by (simp add: child_at_def child_def fork_node_def)
  have nb: "get_node (Ptr b) W = Some (fork_node Lside NULL (root_ptr x) (hole_ptr ?G) d j u)" using cb by simp
  have ah: "a \<notin> cspots h" using dis(1) by simp
  have hG: "hole_ptr ?G = hole_ptr h" "hole_ptr h \<noteq> Ptr a" using h root_neq(2) [OF ah] by simp_all
  show ?thesis
    using ra mi nb hG tr ra1 mv(1-3) tp same by (simp add: remove_successor_def fork_node_def)
qed

section \<open>The three branches\<close>

text \<open>The colours after a node with at most one child has been cut out.\<close>

lemma cut_ok:
  assumes "rbt (Branch l a c k v r)" and "ctx_ok c (bh (Branch l a c k v r)) g" and "l = Tip \<and> x = r \<or> r = Tip \<and> x = l"
  shows "rbt x \<and> (c = TREEMAP_BLACK \<longrightarrow> ctx_ok TREEMAP_BLACK (Suc (bh x)) g) \<and> (c = TREEMAP_RED \<longrightarrow> rb_tree (plug x g))"
  using assms ctx_ok_black [of c "bh x" g] by (cases c) (auto simp: rb_plug)

lemma ctx_ok_rename: "ctx_ok e n (graft h (Step s a c k v u g)) \<longleftrightarrow> ctx_ok e n (graft h (Step s b c j y u g))"
  by (induction h arbitrary: e n) auto

text \<open>The result of taking out a node: the tree \<open>x\<close> in the context \<open>G\<close> and the colour \<open>d\<close> that was lost.\<close>

definition cut_out :: "'v rtree \<Rightarrow> nat \<Rightarrow> treemap_color \<Rightarrow> cell \<Rightarrow> 'v \<Rightarrow> 'v rtree \<Rightarrow> 'v ctx \<Rightarrow> 'v rtree \<Rightarrow> 'v ctx \<Rightarrow> treemap_color \<Rightarrow> bool" where
  "cut_out l a c k v r g x G d \<longleftrightarrow> items (plug x G) = before g @ items l @ items r @ after g \<and> rbt x
     \<and> (d = TREEMAP_BLACK \<longrightarrow> ctx_ok TREEMAP_BLACK (Suc (bh x)) G) \<and> (d = TREEMAP_RED \<longrightarrow> rb_tree (plug x G))"

lemma successor_ok:
  assumes ap: "apart (plug (Branch l a c k v r) g)" and rb: "rb_tree (plug (Branch l a c k v r) g)" and lr: "l \<noteq> Tip" "r \<noteq> Tip"
    and m: "t_root m = root_ptr (plug (Branch l a c k v r) g)"
    and T: "holds_tree (cells_of W) NULL (plug (Branch l a c k v r) g)"
  shows "\<exists>x G d. remove_successor m (Ptr a) W
      = Some (m\<lparr>t_root := root_ptr (plug x G)\<rparr>, root_ptr x, hole_ptr G, d, install (plug x G) W) \<and> cut_out l a c k v r g x G d"
proof -
  from minimum_loop_ok [OF lr(2)] obtain h b d j u x where h: "r = plug (Branch Tip b d j u x) h" "before h = []"
    "\<forall>w q. holds_tree (cells_of w) q r \<longrightarrow> minimum_loop (root_ptr r) w = Some (Ptr b)" by (elim exE conjE) (rule that)
  let ?G = "graft h (Step Rside b c j u l g)"
  have F: "plug x ?G = plug (Branch l b c j u (plug x h)) g" by (simp add: fork_def)
  have run: "remove_successor m (Ptr a) W
    = Some (m\<lparr>t_root := root_ptr (plug x ?G)\<rparr>, root_ptr x, hole_ptr ?G, d, install (plug x ?G) W)"
  proof (cases "h = Top")
    case True
    then have r: "r = Branch Tip b d j u x" using h(1) by simp
    from successor_direct [OF ap [unfolded r] lr(1) m [unfolded r], of W] show ?thesis
      unfolding install_id [OF T [unfolded r]] using True by (simp add: fork_def)
  next
    case False
    have "minimum_loop (root_ptr (plug (Branch Tip b d j u x) h)) w = Some (Ptr b)"
      if "holds_tree (cells_of w) q (plug (Branch Tip b d j u x) h)" for w q using h(3) that unfolding h(1) by blast
    from successor_deep [OF ap [unfolded h(1)] lr(1) False m [unfolded h(1)] this T [unfolded h(1)]]
    show ?thesis unfolding F using False by simp
  qed
  have "rbt (Branch Tip b d j u x) \<and> ctx_ok d (bh (Branch Tip b d j u x)) (graft h (Step Rside a c k v l g))"
    using rb rb_plug [of "Branch Tip b d j u x" "graft h (Step Rside a c k v l g)"] unfolding h(1) by (simp add: fork_def)
  then have "rbt x \<and> (d = TREEMAP_BLACK \<longrightarrow> ctx_ok TREEMAP_BLACK (Suc (bh x)) ?G) \<and> (d = TREEMAP_RED \<longrightarrow> rb_tree (plug x ?G))"
    unfolding ctx_ok_rename [of d _ h Rside a c k v l g b j u] by (elim conjE, intro cut_ok [of Tip b d j u x]) simp_all
  then have "cut_out l a c k v r g x ?G d" unfolding cut_out_def F using h(1,2) by (simp add: items_plug)
  then show ?thesis using run by blast
qed

lemma unlink_tree_ok:
  assumes ap: "apart (plug (Branch l a c k v r) g)" and rb: "rb_tree (plug (Branch l a c k v r) g)"
    and m: "t_root m = root_ptr (plug (Branch l a c k v r) g)"
    and T: "holds_tree (cells_of W) NULL (plug (Branch l a c k v r) g)"
  shows "\<exists>x G d. unlink_node m (Ptr a) W
      = Some (m\<lparr>t_root := root_ptr (plug x G)\<rparr>, root_ptr x, hole_ptr G, d, install (plug x G) W) \<and> cut_out l a c k v r g x G d"
proof (cases "l = Tip \<or> r = Tip")
  case True
  let ?x = "if l = Tip then r else l"
  have x: "l = Tip \<and> ?x = r \<or> r = Tip \<and> ?x = l" using True by auto
  have parts: "holds_ctx (cells_of W) (Ptr a) g" "holds_tree (cells_of W) (Ptr a) ?x"
    "cells_of W a = Some (fork_node Lside (root_ptr l) (root_ptr r) (hole_ptr g) c k v)"
    using T by (simp_all add: holds_plug)
  have sep: "capart g" "a \<notin> cspots g" "apart ?x" "a \<notin> spots ?x" "spots ?x \<inter> cspots g = {}" using ap by (auto simp: apart_Branch)
  have t: "treemap_transplant m (Ptr a) (root_ptr ?x) W = Some (m\<lparr>t_root := root_ptr (plug ?x g)\<rparr>, install (plug ?x g) W)"
    by (rule transplant_ok [OF parts(1) sep(1,2) parts(2) sep(3-5) parts(3)]) (use m in simp_all)
  have run: "unlink_node m (Ptr a) W
      = Some (m\<lparr>t_root := root_ptr (plug ?x g)\<rparr>, root_ptr ?x, hole_ptr g, c, install (plug ?x g) W)"
    using t parts(3) x by (auto simp: unlink_node_def fork_node_def)
  have "cut_out l a c k v r g ?x g c"
    using cut_ok [of l a c k v r g ?x] rb x by (auto simp: cut_out_def rb_plug items_plug)
  then show ?thesis using run by blast
next
  case False
  then have run: "unlink_node m (Ptr a) W = remove_successor m (Ptr a) W"
    using T by (auto simp: unlink_node_def fork_node_def holds_plug)
  show ?thesis unfolding run by (rule successor_ok [OF ap rb _ _ m T]) (use False in simp_all)
qed

end
