(* ===== verification/Treemap_Map.thy ===== *)
theory Treemap_Map
  imports Treemap_Unlink
begin

text \<open>
  The map that a tree represents: its entries in the order of their keys. The descent to a key is a
  function on trees; from it the contracts of the lookups, of insertion, replacement, deletion and
  clearing follow, for every tree, key and pattern of failures.
\<close>

section \<open>Entries and descent\<close>

definition pairs :: "'v rtree \<Rightarrow> (cell \<times> 'v) list" where "pairs t = map snd (items t)"
definition pairs_before :: "'v ctx \<Rightarrow> (cell \<times> 'v) list" where "pairs_before g = map snd (before g)"
definition pairs_after :: "'v ctx \<Rightarrow> (cell \<times> 'v) list" where "pairs_after g = map snd (after g)"

lemma pairs_simps [simp]:
  "pairs Tip = []" "pairs (Branch l a c k v r) = pairs l @ (k, v) # pairs r"
  "pairs (plug t g) = pairs_before g @ pairs t @ pairs_after g"
  "pairs_before Top = []" "pairs_after Top = []"
  "pairs_before (Step Lside a c k v u g) = pairs_before g" "pairs_after (Step Lside a c k v u g) = (k, v) # pairs u @ pairs_after g"
  "pairs_before (Step Rside a c k v u g) = pairs_before g @ pairs u @ [(k, v)]" "pairs_after (Step Rside a c k v u g) = pairs_after g"
  by (simp_all add: pairs_def pairs_before_def pairs_after_def items_plug)

lemma pairs_items: "items t = items u \<Longrightarrow> pairs t = pairs u"
  by (simp add: pairs_def)

lemma length_pairs [simp]: "length (pairs t) = length (items t)"
  by (simp add: pairs_def)

fun descend :: "(cell \<Rightarrow> cell \<Rightarrow> int) \<Rightarrow> cell \<Rightarrow> 'v rtree \<Rightarrow> 'v ctx \<Rightarrow> 'v rtree \<times> 'v ctx" where
  "descend cmp key Tip g = (Tip, g)"
| "descend cmp key (Branch l a c k v r) g =
     (if 0 < cmp k key then descend cmp key l (Step Lside a c k v r g)
      else if cmp k key < 0 then descend cmp key r (Step Rside a c k v l g)
      else (Branch l a c k v r, g))"

lemma descend_plug: "descend cmp key t g = (t', g') \<Longrightarrow> plug t' g' = plug t g"
  by (induction t arbitrary: g) (auto simp: fork_def split: if_splits)

text \<open>Everything passed on the left is smaller than the key and everything on the right greater.\<close>

lemma descend_splits:
  assumes K: "orders cmp K" "key \<in> K"
  shows "descend cmp key t g = (t', g') \<Longrightarrow> ordered cmp (pairs t) \<Longrightarrow> fst ` set (pairs t) \<subseteq> K \<Longrightarrow>
    all_less cmp (pairs_before g) key \<Longrightarrow> all_greater cmp (pairs_after g) key \<Longrightarrow>
    all_less cmp (pairs_before g') key \<and> all_greater cmp (pairs_after g') key
    \<and> (t' = Tip \<or> (\<exists>l a c k v r. t' = Branch l a c k v r \<and> cmp k key = 0
        \<and> all_less cmp (pairs l) key \<and> all_greater cmp (pairs r) key))"
proof (induction t arbitrary: g)
  case (Branch l a c k v r)
  have k: "k \<in> K" and sub: "fst ` set (pairs l) \<subseteq> K" "fst ` set (pairs r) \<subseteq> K" using Branch.prems(3) by auto
  have ord: "ordered cmp (pairs l)" "ordered cmp (pairs r)"
    and lk: "\<And>p. p \<in> set (pairs l) \<Longrightarrow> cmp (fst p) k < 0" and kr: "\<And>p. p \<in> set (pairs r) \<Longrightarrow> cmp k (fst p) < 0"
    using Branch.prems(2) by (auto simp: ordered_append ordered_Cons)
  have less: "all_less cmp (pairs l) key" if "cmp k key \<le> 0"
    unfolding all_less_def using orders_trans(1) [OF K(1) _ k K(2)] lk that sub(1) by blast
  have greater: "all_greater cmp (pairs r) key" if "0 \<le> cmp k key"
    unfolding all_greater_def
  proof
    fix p assume p: "p \<in> set (pairs r)"
    then have pK: "fst p \<in> K" using sub(2) by auto
    have "cmp key k \<le> 0" using orders_sym [OF K(1) K(2) k] orders_sym [OF K(1) k K(2)] that by linarith
    then have "cmp key (fst p) < 0" using orders_trans(2) [OF K k pK] kr [OF p] by blast
    then show "0 < cmp (fst p) key" using orders_sym(1) [OF K pK] by simp
  qed
  consider "0 < cmp k key" | "cmp k key < 0" | "cmp k key = 0" by linarith
  then show ?case
  proof cases
    case 1
    then show ?thesis using Branch.IH(1) [of "Step Lside a c k v r g"] Branch.prems ord sub greater by simp
  next
    case 2
    then show ?thesis using Branch.IH(2) [of "Step Rside a c k v l g"] Branch.prems ord sub less by simp
  next
    case 3
    then show ?thesis using Branch.prems less greater by auto
  qed
qed simp

text \<open>The loops follow the descent.\<close>

lemma find_node_loop_ok:
  "holds_tree (cells_of w) up t \<Longrightarrow>
    find_node_loop m key (root_ptr t) w = Some (root_ptr (fst (descend (t_key_compare m) key t g)))"
proof (induction t arbitrary: up g)
  case (Branch l a c k v r)
  show ?case
    using Branch.prems Branch.IH(1) [of "Ptr a" "Step Lside a c k v r g"] Branch.IH(2) [of "Ptr a" "Step Rside a c k v l g"]
    by (subst find_node_loop.simps) (simp add: key_at_def treemap_key_slot_const_def, simp add: fork_node_def)
qed (subst find_node_loop.simps, simp)

definition side_sign :: "'v ctx \<Rightarrow> int \<Rightarrow> bool" where
  "side_sign g c \<longleftrightarrow> (case g of Top \<Rightarrow> True | Step s _ _ _ _ _ _ \<Rightarrow> s = Lside \<longleftrightarrow> 0 < c)"

lemma set_loop_ok:
  "holds_tree (cells_of w) up t \<Longrightarrow> side_sign g c \<Longrightarrow> descend (t_key_compare m) key t g = (t', g') \<Longrightarrow>
    \<exists>c'. set_loop m key (root_ptr t) (hole_ptr g) c w
        = Some (root_ptr t', if t' = Tip then hole_ptr g' else root_ptr t', c') \<and> (t' = Tip \<longrightarrow> side_sign g' c')"
proof (induction t arbitrary: up g c)
  case (Branch l a d k v r)
  have a: "get_node (Ptr a) w = Some (fork_node Lside (root_ptr l) (root_ptr r) up d k v)" using Branch.prems by simp
  have k: "key_at (Ptr a) w = Some k" using a by (simp add: key_at_def)
  let ?c = "t_key_compare m k key"
  consider "0 < ?c" | "?c < 0" | "?c = 0" by linarith
  then show ?case
  proof cases
    case 1
    then show ?thesis
      using Branch.IH(1) [of "Ptr a" "Step Lside a d k v r g" ?c] Branch.prems a k
      by (subst set_loop.simps) (simp add: treemap_key_slot_const_def fork_node_def side_sign_def)
  next
    case 2
    then show ?thesis
      using Branch.IH(2) [of "Ptr a" "Step Rside a d k v l g" ?c] Branch.prems a k
      by (subst set_loop.simps) (simp add: treemap_key_slot_const_def fork_node_def side_sign_def)
  next
    case 3
    then show ?thesis using Branch.prems a k by (subst set_loop.simps) (auto simp: treemap_key_slot_const_def)
  qed
qed (subst set_loop.simps, simp)

section \<open>The relation\<close>

definition keys_of :: "'v treemap \<Rightarrow> cell set" where
  "keys_of m = {k. key_ok (t_key_kind m) (t_key_size m) k}"

type_synonym 'v tm_conf = "int \<times> size_t \<times> size_t \<times> (cell \<Rightarrow> cell \<Rightarrow> int) \<times> bool \<times> ('v \<Rightarrow> 'v) option"

definition tm_conf :: "'v treemap \<Rightarrow> 'v tm_conf" where
  "tm_conf m = (t_key_kind m, t_key_size m, t_value_size m, t_key_compare m, t_value_destroy m, t_value_copy m)"

text \<open>What a client has to guarantee: a key kind with its size, sizes whose sum does not wrap, and a
  comparison function that orders the keys.\<close>

definition tm_legal :: "'v tm_conf \<Rightarrow> bool" where
  "tm_legal cf \<longleftrightarrow> (case cf of (kind, ks, vs, cmp, d, f) \<Rightarrow>
     (kind = KEY_SCALAR \<or> kind = KEY_CSTR \<and> ks = 8) \<and> 0 < ks \<and> 0 < vs \<and> 32 + ks + vs \<le> SIZE_MAX
     \<and> orders cmp {k. key_ok kind ks k})"

definition tree_rel :: "'v treemap \<Rightarrow> 'v tworld \<Rightarrow> 'v rtree \<Rightarrow> bool" where
  "tree_rel m w T \<longleftrightarrow> store_ok w \<and> holds_tree (cells_of w) NULL T \<and> apart T \<and> rb_tree T
     \<and> t_root m = root_ptr T \<and> t_size m = length (items T) \<and> tm_legal (tm_conf m)
     \<and> fst ` set (pairs T) \<subseteq> keys_of m \<and> ordered (t_key_compare m) (pairs T)"

text \<open>The blocks that the map owns: its nodes and the strings of its keys.\<close>

definition tm_own :: "'v treemap \<Rightarrow> int" where
  "tm_own m = int (t_size m) * (1 + key_blocks (t_key_kind m))"

lemma tree_relD:
  assumes "tree_rel m w T"
  shows "store_ok w" "holds_tree (cells_of w) NULL T" "apart T" "rb_tree T" "t_root m = root_ptr T"
    "t_size m = length (items T)" "tm_legal (tm_conf m)" "fst ` set (pairs T) \<subseteq> keys_of m"
    "ordered (t_key_compare m) (pairs T)" "orders (t_key_compare m) (keys_of m)"
  using assms by (simp_all add: tree_rel_def tm_legal_def tm_conf_def keys_of_def)

lemma tm_conf_cong:
  assumes "tm_conf m' = tm_conf m"
  shows "t_key_kind m' = t_key_kind m" "t_key_size m' = t_key_size m" "t_value_size m' = t_value_size m"
    "t_key_compare m' = t_key_compare m" "t_value_destroy m' = t_value_destroy m" "t_value_copy m' = t_value_copy m"
    "keys_of m' = keys_of m"
  using assms by (simp_all add: tm_conf_def keys_of_def)

lemma tree_rel_below: "tree_rel m w T \<Longrightarrow> a \<in> spots T \<Longrightarrow> a < fresh w"
  using holds_tree_used tree_relD(1,2) unfolding store_ok_def by blast

lemma store_size:
  assumes "tree_rel m w T"
  shows "length (items T) \<le> fresh w"
proof -
  have "card (spots T) = length (items T)" using tree_relD(3) [OF assms] unfolding apart_def spots_def
    by (metis distinct_card length_map list.set_map)
  moreover have "card (spots T) \<le> card {..<fresh w}" by (rule card_mono) (use tree_rel_below [OF assms] in auto)
  ultimately show ?thesis by simp
qed

text \<open>A world with the same cells, or with other cells outside the tree.\<close>

lemma tree_rel_frame:
  assumes "tree_rel m w T" and "frame A w w'" and "A \<inter> spots T = {}" and "store_ok w'"
  shows "tree_rel m w' T"
proof -
  have "cells_of w' a = cells_of w a" if "a \<in> spots T" for a
    using frameD [OF assms(2) tree_rel_below [OF assms(1) that]] assms(3) that by blast
  then have "holds_tree (cells_of w') NULL T" using holds_tree_cong tree_relD(2) [OF assms(1)] by blast
  then show ?thesis using assms(1,4) by (simp add: tree_rel_def)
qed

lemma tree_rel_same:
  assumes "tree_rel m w T" and "cells_of w' = cells_of w" "store_ok w'"
  shows "tree_rel m w' T"
  using assms by (simp add: tree_rel_def)

lemma store_ok_install:
  assumes "store_ok w" and "\<And>a. a \<in> spots t \<Longrightarrow> a < fresh w"
  shows "store_ok (install t w)"
proof -
  have "a < fresh w" if "(cells_of w ++ nodes NULL t) a \<noteq> None" for a
    using that assms by (cases "a \<in> spots t") (auto simp: store_ok_def map_add_dom_app_simps)
  then show ?thesis using assms(1) by (simp add: store_ok_def cells_install)
qed

text \<open>The world after an operation is one with a new tree installed.\<close>

lemma tree_rel_install:
  assumes "store_ok w" and "\<And>a. a \<in> spots T \<Longrightarrow> a < fresh w" and "apart T" "rb_tree T" "t_root m = root_ptr T"
    "t_size m = length (items T)" "tm_legal (tm_conf m)" "fst ` set (pairs T) \<subseteq> keys_of m" "ordered (t_key_compare m) (pairs T)"
  shows "tree_rel m (install T w) T"
  using assms store_ok_install [OF assms(1,2)] holds_install [OF assms(3)] by (simp add: tree_rel_def cells_install)

lemma frame_install:
  assumes "fresh w \<le> fresh w1" and "\<And>d. d < fresh w \<Longrightarrow> d \<notin> A \<Longrightarrow> d \<notin> spots t \<and> cells_of w1 d = cells_of w d"
  shows "frame A w (install t w1)"
  using assms install_outside [of _ t w1] by (simp add: frame_def)

lemma frame_free_block [simp]: "frame A w (free_block w') = frame A w w'"
  by (simp add: frame_def)

lemma spots_items: "items t = items u \<Longrightarrow> spots t = spots u" "items t = items u \<Longrightarrow> apart t = apart u"
  by (simp_all add: spots_def apart_def)

lemma ordered_insert:
  assumes "orders cmp K" "key \<in> K" "fst ` set (ps @ qs) \<subseteq> K" "ordered cmp (ps @ qs)" "all_less cmp ps key" "all_greater cmp qs key"
  shows "ordered cmp (ps @ (key, v) # qs)"
proof -
  have "cmp key (fst q) < 0" if "q \<in> set qs" for q
  proof -
    have "fst q \<in> K" using assms(3) that by auto
    then show ?thesis using orders_sym(1) [OF assms(1,2)] assms(6) that unfolding all_greater_def by simp
  qed
  then show ?thesis using assms(4,5) by (auto simp: ordered_append ordered_Cons all_less_def)
qed

lemma ordered_value: "ordered cmp (ps @ (k, u) # qs) \<longleftrightarrow> ordered cmp (ps @ (k, v) # qs)"
  by (auto simp: ordered_append ordered_Cons)

lemma ordered_remove: "ordered cmp (ps @ (k, u) # qs) \<Longrightarrow> ordered cmp (ps @ qs)"
  by (auto simp: ordered_append ordered_Cons)

section \<open>New nodes\<close>

lemma copy_key_more: "copy_key kind n c w = Some (r, w') \<Longrightarrow> world.more w' = world.more w"
  using malloc_effect(7)
  by (auto simp: copy_key_def split: if_splits cell.splits ptr.splits prod.splits)

lemma destroy_key_more: "destroy_key kind c w = Some w' \<Longrightarrow> world.more w' = world.more w"
  by (auto simp: destroy_key_def free_ptr_def split: if_splits cell.splits ptr.splits)

lemma treemap_copy_key_ok:
  assumes "k \<in> keys_of m"
  shows "\<exists>r w'. treemap_copy_key m k w = Some (r, w') \<and> world.more w' = world.more w \<and> destroyed w' = destroyed w
    \<and> (no_fail w \<longrightarrow> no_fail w' \<and> r = Some k)
    \<and> (r = Some k \<and> live w' = live w + key_blocks (t_key_kind m) \<or> r = None \<and> live w' = live w)"
  using copy_key_ok [of "t_key_kind m" "t_key_size m" k w] copy_key_more assms
  unfolding treemap_copy_key_def keys_of_def by blast

lemma treemap_destroy_key_ok:
  assumes "k \<in> keys_of m"
  shows "\<exists>w'. treemap_destroy_key m k w = Some w' \<and> world.more w' = world.more w \<and> destroyed w' = destroyed w
    \<and> no_fail w' = no_fail w \<and> live w' = live w - key_blocks (t_key_kind m)"
  using destroy_key_ok [of "t_key_kind m" "t_key_size m" k w] destroy_key_more assms
  unfolding treemap_destroy_key_def keys_of_def by blast

definition tree_room :: "'v treemap \<Rightarrow> 'v tworld \<Rightarrow> bool" where
  "tree_room m w \<longleftrightarrow> 32 + t_key_size m + t_value_size m \<le> PTRDIFF_MAX \<and> fresh w < SIZE_MAX"

lemma create_node_ok:
  assumes ok: "store_ok w" and legal: "tm_legal (tm_conf m)" and key: "key \<in> keys_of m"
  shows "\<exists>q w'. treemap_create_node m key x w = Some (q, w') \<and> store_ok w' \<and> destroyed w' = destroyed w
    \<and> frame {} w w' \<and> fresh w' \<le> Suc (fresh w) \<and> (no_fail w \<longrightarrow> no_fail w' \<and> (tree_room m w \<longrightarrow> q \<noteq> NULL))
    \<and> (q = NULL \<and> live w' = live w \<and> cells_of w' = cells_of w
       \<or> q = Ptr (fresh w) \<and> live w' = live w + 1 + key_blocks (t_key_kind m) \<and> fresh w' = Suc (fresh w)
         \<and> cells_of w' = (cells_of w)(fresh w \<mapsto> fork_node Lside NULL NULL NULL TREEMAP_RED key (copied (t_value_copy m) x)))"
proof -
  let ?n = "\<lparr>t_left = NULL, t_right = NULL, t_parent = NULL, t_color = TREEMAP_RED, t_key = None, t_value = None\<rparr>"
  have bytes: "sz_add (sz_add 32 (t_key_size m)) (t_value_size m) = 32 + t_key_size m + t_value_size m"
    using legal by (simp add: tm_legal_def tm_conf_def)
  obtain p w1 where new: "new_node (32 + t_key_size m + t_value_size m) ?n w = (p, w1)" by fastforce
  note e = new_node_effect [OF new ok]
  show ?thesis
  proof (cases p)
    case NULL
    then have "treemap_create_node m key x w = Some (NULL, w1)" using new bytes by (simp add: treemap_create_node_def)
    then show ?thesis using e NULL by (intro exI [of _ NULL] exI [of _ w1]) (auto simp: tree_room_def intro: frame_refl)
  next
    case (Ptr a)
    then have a: "a = fresh w" and c1: "cells_of w1 = (cells_of w)(a \<mapsto> ?n)" and f1: "fresh w1 = Suc a"
      and l1: "live w1 = live w + 1" using e(4,7) by auto
    have fa: "cells_of w a = None" using store_ok_fresh [OF ok] a by simp
    have lim: "Suc a \<le> SIZE_MAX" using e(3) f1 by (simp add: store_ok_def)
    from treemap_copy_key_ok [OF key, of w1] obtain r w2 where
      k: "treemap_copy_key m key w1 = Some (r, w2)" "world.more w2 = world.more w1" "destroyed w2 = destroyed w1"
      "no_fail w1 \<longrightarrow> no_fail w2 \<and> r = Some key"
      and res: "r = Some key \<and> live w2 = live w1 + key_blocks (t_key_kind m) \<or> r = None \<and> live w2 = live w1"
      by (elim exE conjE) (rule that)
    note s2 = same_store [OF k(2)]
    have drop: "store_ok v'" "frame {} w v'" "fresh v' \<le> Suc (fresh w)" "cells_of v' = cells_of w"
      if "cells_of v = (cells_of w)(a \<mapsto> n)" "fresh v = Suc a" "v' = free_block (with_cells ((cells_of v)(a := None)) v)" for v v' n
    proof -
      show c: "cells_of v' = cells_of w" using that fa by (auto simp: fun_eq_iff)
      then show "store_ok v'" "frame {} w v'" "fresh v' \<le> Suc (fresh w)"
        using that ok a lim by (auto simp: store_ok_def frame_def)
    qed
    show ?thesis
    proof (cases r)
      case None
      let ?w = "free_block (with_cells ((cells_of w2)(a := None)) w2)"
      have "treemap_create_node m key x w = Some (NULL, ?w)"
        using new bytes Ptr k(1) None c1 s2(1) by (simp add: treemap_create_node_def free_node_Ptr)
      moreover have "\<not> no_fail w" using e(5) k(4) None by auto
      ultimately show ?thesis
        using drop [of w2 ?n ?w] s2 c1 f1 e(1) k(3) res None l1 a by (intro exI [of _ NULL] exI [of _ ?w]) simp
    next
      case (Some staged)
      then have st: "staged = key" and l2: "live w2 = live w1 + key_blocks (t_key_kind m)" using res by auto
      let ?n2 = "?n\<lparr>t_key := Some key\<rparr>" let ?w3 = "with_cells ((cells_of w2)(a \<mapsto> ?n2)) w2"
      have m3: "modify (Ptr a) (t_key_update (\<lambda>_. Some key)) w2 = Some ?w3" using modify_at [of w2 a] c1 s2(1) by simp
      obtain v w4 where cv: "treemap_copy_value m x ?w3 = (v, w4)" by fastforce
      note e4 = copy_element_effect [OF cv [unfolded treemap_copy_value_def]] and s4 = same_store [OF copy_element_effect(6) [OF cv [unfolded treemap_copy_value_def]]]
      have c4: "cells_of w4 = (cells_of w)(a \<mapsto> ?n2)" "fresh w4 = Suc a" "store_ok w4"
        using s4 s2 c1 f1 e(3) lim by (auto simp: fun_eq_iff store_ok_def)
      show ?thesis
      proof (cases v)
        case None
        from treemap_destroy_key_ok [OF key, of w4] obtain w5 where
          d: "treemap_destroy_key m key w4 = Some w5" "world.more w5 = world.more w4" "destroyed w5 = destroyed w4"
          "no_fail w5 = no_fail w4" "live w5 = live w4 - key_blocks (t_key_kind m)" by (elim exE conjE) (rule that)
        note s5 = same_store [OF d(2)]
        let ?w = "free_block (with_cells ((cells_of w5)(a := None)) w5)"
        have "treemap_create_node m key x w = Some (NULL, ?w)"
          using new bytes Ptr k(1) Some st m3 cv None d(1) c4(1) s5(1)
          by (simp add: treemap_create_node_def key_at_def treemap_key_slot_def free_node_Ptr)
        moreover have "\<not> no_fail w" using e(5) k(4) e4(5) None by auto
        ultimately show ?thesis
          using drop [of w5 ?n2 ?w] s5 c4 e(1) k(3) e4(1,2) d(3,5) l2 l1 a by (intro exI [of _ NULL] exI [of _ ?w]) simp
      next
        case v: (Some y)
        let ?N = "fork_node Lside NULL NULL NULL TREEMAP_RED key (copied (t_value_copy m) x)"
        let ?w = "with_cells ((cells_of w4)(a \<mapsto> ?N)) w4"
        have y: "y = copied (t_value_copy m) x" using e4(3) v by blast
        have "modify (Ptr a) (t_value_update (\<lambda>_. Some y)) w4 = Some ?w"
          using modify_at [of w4 a] c4(1) y by (simp add: fork_node_def)
        then have "treemap_create_node m key x w = Some (Ptr a, ?w)"
          using new bytes Ptr k(1) Some st m3 cv v by (simp add: treemap_create_node_def)
        moreover have "store_ok ?w" using c4 ok a lim by (auto simp: store_ok_def)
        moreover have "frame {} w ?w" using c4 a by (auto simp: frame_def)
        ultimately show ?thesis
          using c4 e(1,5) k(3,4) e4(1,2,4) l2 l1 a
          by (intro exI [of _ "Ptr a"] exI [of _ ?w]) simp
      qed
    qed
  qed
qed

section \<open>What an operation does\<close>

text \<open>Entries that are still there keep their node.\<close>

definition stays :: "'v rtree \<Rightarrow> 'v rtree \<Rightarrow> bool" where
  "stays T T' \<longleftrightarrow> (\<forall>a j u. (a, j, u) \<in> set (items T) \<longrightarrow> (\<exists>v. (j, v) \<in> set (pairs T')) \<longrightarrow> (\<exists>v. (a, j, v) \<in> set (items T')))"

definition tm_step :: "'v treemap \<Rightarrow> 'v tworld \<Rightarrow> 'v rtree \<Rightarrow> 'v treemap \<Rightarrow> 'v tworld \<Rightarrow> 'v rtree \<Rightarrow> 'v list \<Rightarrow> bool" where
  "tm_step m w T m' w' T' ds \<longleftrightarrow> tm_conf m' = tm_conf m \<and> tree_rel m' w' T' \<and> spots T' \<subseteq> spots T \<union> {fresh w..}
     \<and> frame (spots T) w w' \<and> fresh w' \<le> Suc (fresh w) \<and> destroyed w' = destroyed w @ log_if (t_value_destroy m) ds
     \<and> live w' - tm_own m' = live w - tm_own m \<and> stays T T'"

lemma stays_refl [simp]: "stays T T"
  by (auto simp: stays_def)

text \<open>A call that fails leaves the tree alone.\<close>

lemma tm_step_refused:
  assumes "tree_rel m w T" "store_ok w'" "cells_of w' = cells_of w" "fresh w \<le> fresh w'" "fresh w' \<le> Suc (fresh w)"
    "destroyed w' = destroyed w" "live w' = live w"
  shows "tm_step m w T m w' T []"
  using assms tree_rel_same [OF assms(1,3,2)] by (auto simp: tm_step_def frame_def)

section \<open>Setting a value\<close>

lemma replace_at_ok:
  assumes rel: "tree_rel m w T" and T: "T = plug (Branch l a c k u r) g"
  shows "\<exists>rc w' T'. replace_at m (Ptr a) x w = Some (rc, Ptr m, w') \<and> (no_fail w \<longrightarrow> no_fail w' \<and> (tree_room m w \<longrightarrow> rc = 0))
    \<and> (rc = 0 \<and> T' = plug (Branch l a c k (copied (t_value_copy m) x) r) g \<and> tm_step m w T m w' T' [u]
       \<or> rc = - 1 \<and> T' = T \<and> tm_step m w T m w' T [])"
proof -
  note R = tree_relD [OF rel]
  obtain ok w1 where al: "malloc (t_value_size m) w = (ok, w1)" by fastforce
  note e1 = malloc_effect [OF al] and s1 = same_store [OF malloc_effect(7) [OF al]]
  obtain v w2 where cp: "treemap_copy_value m x w1 = (v, w2)" by fastforce
  note e2 = copy_element_effect [OF cp [unfolded treemap_copy_value_def]]
    and s2 = same_store [OF copy_element_effect(6) [OF cp [unfolded treemap_copy_value_def]]]
  consider "\<not> ok" | "ok" "v = None" | "ok" "v = Some (copied (t_value_copy m) x)" using e2(3) by (cases v) auto
  then show ?thesis
  proof cases
    case 1
    have "tm_step m w T m w1 T []" by (rule tm_step_refused [OF rel]) (use 1 e1 s1 R(1) in simp_all)
    moreover have "replace_at m (Ptr a) x w = Some (- 1, Ptr m, w1)" using al 1 by (simp add: replace_at_def)
    ultimately show ?thesis using e1 1 by (intro exI [of _ "- 1"] exI [of _ w1] exI [of _ T]) (auto simp: tree_room_def)
  next
    case 2
    have "tm_step m w T m (free_block w2) T []" by (rule tm_step_refused [OF rel]) (use 2 e1 s1 e2 s2 R(1) in simp_all)
    moreover have "replace_at m (Ptr a) x w = Some (- 1, Ptr m, free_block w2)" using al 2 cp by (simp add: replace_at_def)
    moreover have "\<not> no_fail w" using e1(5) e2(5) 2 by auto
    ultimately show ?thesis by (intro exI [of _ "- 1"] exI [of _ "free_block w2"] exI [of _ T]) simp
  next
    case 3
    let ?y = "copied (t_value_copy m) x" let ?T = "plug (Branch l a c k ?y r) g"
    let ?w3 = "treemap_destroy_value m u w2" let ?w' = "free_block (install ?T ?w3)"
    have h3: "holds_tree (cells_of ?w3) NULL T" using R(2) s1 s2 by (simp add: treemap_destroy_value_def)
    have fk: "T = plug (fork Lside l a c k u r) g" "?T = plug (fork Lside l a c k ?y r) g" using T by (simp_all add: fork_def)
    have "modify (Ptr a) (t_value_update (\<lambda>_. Some ?y)) (install T ?w3) = Some (install ?T ?w3)"
      unfolding fk by (rule write_node) (use R(3) fk(1) in simp_all)
    then have wr: "modify (Ptr a) (t_value_update (\<lambda>_. Some ?y)) ?w3 = Some (install ?T ?w3)" unfolding install_id [OF h3] .
    have "value_at (Ptr a) w2 = Some u" using R(2) T s1 s2 by (simp add: value_at_def holds_plug)
    then have run: "replace_at m (Ptr a) x w = Some (0, Ptr m, ?w')"
      using al 3 cp wr by (simp add: replace_at_def treemap_value_slot_def)
    have sp: "spots ?T = spots T" "apart ?T = apart T" "root_ptr ?T = root_ptr T" "length (items ?T) = length (items T)"
      using T by (simp_all add: apart_Branch items_plug)
    have below: "e < fresh w" if "e \<in> spots T" for e using tree_rel_below [OF rel that] .
    have "tree_rel m (install ?T ?w3) ?T"
    proof (rule tree_rel_install)
      show "store_ok ?w3" using R(1) s1 s2 by (simp add: treemap_destroy_value_def)
      show "rb_tree ?T" using R(4) unfolding T rb_plug by (cases c) auto
      show "fst ` set (pairs ?T) \<subseteq> keys_of m" using R(8) T by simp
      show "ordered (t_key_compare m) (pairs ?T)"
        using R(9) ordered_value [of "t_key_compare m" "pairs_before g @ pairs l" k u "pairs r @ pairs_after g" ?y] T by simp
      show "e < fresh ?w3" if "e \<in> spots ?T" for e
        using below [of e] that s1 s2 unfolding sp(1) by (simp add: treemap_destroy_value_def)
    qed (use R sp in \<open>simp_all add: treemap_destroy_value_def\<close>)
    then have "tree_rel m ?w' ?T" using tree_rel_same tree_relD(1) by fastforce
    moreover have "frame (spots T) w ?w'"
      unfolding frame_free_block by (rule frame_install) (use s1 s2 in \<open>simp_all only: sp(1) treemap_destroy_value_def store_unchanged simp_thms order_refl\<close>)
    moreover have "stays T ?T" unfolding stays_def T by (auto simp: items_plug)
    moreover have "destroyed ?w' = destroyed w @ log_if (t_value_destroy m) [u]" "live ?w' = live w" "fresh ?w' = fresh w"
      "no_fail w \<longrightarrow> no_fail ?w'"
      using e1 e2 3 s1 s2 by (simp_all add: treemap_destroy_value_def log_if_def)
    ultimately show ?thesis
      using run sp(1) by (intro exI [of _ 0] exI [of _ ?w'] exI [of _ ?T]) (simp add: tm_step_def)
  qed
qed

text \<open>Hanging a new node into the tree.\<close>

lemma link_node_ok:
  assumes g: "holds_ctx (cells_of w) NULL g" "capart g" "n \<notin> cspots g"
    and c1: "cells_of w1 = (cells_of w)(n \<mapsto> fork_node Lside NULL NULL NULL d k v)"
    and c: "side_sign g c" and m: "t_root m = top_ptr NULL g"
  shows "\<exists>w2. set_parent (Ptr n) (hole_ptr g) w1 = Some w2
    \<and> (if hole_ptr g = NULL then Some (m\<lparr>t_root := Ptr n\<rparr>, w2)
       else if c > 0 then do { w3 \<leftarrow> set_left (hole_ptr g) (Ptr n) w2; Some (m, w3) }
       else do { w3 \<leftarrow> set_right (hole_ptr g) (Ptr n) w2; Some (m, w3) })
      = Some (m\<lparr>t_root := root_ptr (plug (Branch Tip n d k v Tip) g)\<rparr>, install (plug (Branch Tip n d k v Tip) g) w1)"
proof -
  let ?F = "plug (Branch Tip n d k v Tip) g"
  let ?C2 = "upd (Ptr n) (t_parent_update (\<lambda>_. hole_ptr g)) (cells_of w1)" let ?C3 = "upd_hole g (Ptr n) ?C2"
  have p: "set_parent (Ptr n) (hole_ptr g) w1 = Some (with_cells ?C2 w1)" using c1 by (simp add: set_parent_def modify_ok)
  have g2: "holds_ctx ?C2 NULL g"
    by (rule iffD2 [OF holds_ctx_cong g(1)]) (use g(3) c1 in \<open>auto simp: upd_apply\<close>)
  have hn: "hole_ptr g \<noteq> Ptr n" by (rule root_neq(2) [OF g(3)])
  have n: "?C3 n = Some (fork_node Lside NULL NULL (hole_ptr g) d k v)" using upd_hole_apply(1) [OF hn] c1 by (simp add: upd_apply)
  have "holds_ctx ?C3 (Ptr n) g" by (rule holds_ctx_hang [OF g2 g(2)])
  then have "holds_tree ?C3 NULL ?F" using n by (simp add: holds_plug)
  then have W: "with_cells ?C3 w1 = install ?F w1"
    by (rule installI) (simp add: upd_apply upd_hole_apply(1) [OF root_neq(2)])
  show ?thesis
  proof (cases g)
    case Top
    then show ?thesis using p W by (auto simp: upd_hole_def)
  next
    case (Step s a e j u t h)
    have "get_node (Ptr a) (with_cells ?C2 w1) \<noteq> None" using g2 Step by simp
    then have "set_child s (Ptr a) (Ptr n) (with_cells ?C2 w1) = Some (install ?F w1)"
      using W Step by (simp add: set_child_def modify_ok upd_hole_def)
    moreover have "m\<lparr>t_root := root_ptr ?F\<rparr> = m" using m Step by simp
    ultimately show ?thesis using p c Step by (cases s) (auto simp: side_sign_def)
  qed
qed

lemma insert_at_ok:
  assumes rel: "tree_rel m w T" and T: "T = plug Tip g" and c: "side_sign g c" and key: "key \<in> keys_of m"
    and side: "all_less (t_key_compare m) (pairs_before g) key" "all_greater (t_key_compare m) (pairs_after g) key"
  shows "\<exists>rc m' w' T'. insert_at m (hole_ptr g) c key x w = Some (rc, Ptr m', w')
    \<and> (no_fail w \<longrightarrow> no_fail w' \<and> (tree_room m w \<longrightarrow> rc = 0))
    \<and> (rc = 0 \<and> pairs T' = pairs_before g @ (key, copied (t_value_copy m) x) # pairs_after g \<and> tm_step m w T m' w' T' []
       \<or> rc = - 1 \<and> T' = T \<and> tm_step m w T m' w' T [])"
proof -
  note R = tree_relD [OF rel]
  from create_node_ok [OF R(1,7) key, of x] obtain q w1 where
    q: "treemap_create_node m key x w = Some (q, w1)" "store_ok w1" "destroyed w1 = destroyed w" "frame {} w w1"
    "fresh w1 \<le> Suc (fresh w)" "no_fail w \<longrightarrow> no_fail w1 \<and> (tree_room m w \<longrightarrow> q \<noteq> NULL)"
    and res: "q = NULL \<and> live w1 = live w \<and> cells_of w1 = cells_of w
       \<or> q = Ptr (fresh w) \<and> live w1 = live w + 1 + key_blocks (t_key_kind m) \<and> fresh w1 = Suc (fresh w)
         \<and> cells_of w1 = (cells_of w)(fresh w \<mapsto> fork_node Lside NULL NULL NULL TREEMAP_RED key (copied (t_value_copy m) x))"
    by (elim exE conjE) (rule that)
  show ?thesis
  proof (cases q)
    case NULL
    have "tm_step m w T m w1 T []" by (rule tm_step_refused [OF rel]) (use NULL q res frame_fresh [OF q(4)] in auto)
    moreover have "insert_at m (hole_ptr g) c key x w = Some (- 1, Ptr m, w1)" using q(1) NULL by (simp add: insert_at_def)
    ultimately show ?thesis using q(6) NULL by (intro exI [of _ "- 1"] exI [of _ m] exI [of _ w1] exI [of _ T]) auto
  next
    case (Ptr a)
    let ?n = "fresh w" let ?y = "copied (t_value_copy m) x" let ?F = "plug (Branch Tip ?n TREEMAP_RED key ?y Tip) g"
    have a: "q = Ptr ?n" "live w1 = live w + 1 + key_blocks (t_key_kind m)" "fresh w1 = Suc ?n"
      "cells_of w1 = (cells_of w)(?n \<mapsto> fork_node Lside NULL NULL NULL TREEMAP_RED key ?y)" using res Ptr by auto
    have g: "holds_ctx (cells_of w) NULL g" "capart g" using R(2,3) T by (simp_all add: holds_plug)
    have below: "e < ?n" if "e \<in> spots T" for e using tree_rel_below [OF rel that] .
    have n: "?n \<notin> cspots g" using below [of ?n] T by auto
    have top: "t_root m = top_ptr NULL g" using R(5) T by simp
    from link_node_ok [OF g n a(4) c top] obtain w2 where
      l: "set_parent (Ptr ?n) (hole_ptr g) w1 = Some w2"
      "(if hole_ptr g = NULL then Some (m\<lparr>t_root := Ptr ?n\<rparr>, w2)
       else if c > 0 then do { w3 \<leftarrow> set_left (hole_ptr g) (Ptr ?n) w2; Some (m, w3) }
       else do { w3 \<leftarrow> set_right (hole_ptr g) (Ptr ?n) w2; Some (m, w3) }) = Some (m\<lparr>t_root := root_ptr ?F\<rparr>, install ?F w1)"
      by (elim exE conjE) (rule that)
    let ?m = "m\<lparr>t_size := sz_add (t_size m) 1\<rparr>"
    have "apart (plug (fork Lside Tip ?n TREEMAP_RED key ?y Tip) g)" using g n by (simp add: fork_def apart_Branch)
    moreover have "rbt (fork Lside Tip ?n TREEMAP_RED key ?y Tip)" by simp
    moreover have "ctx_ok TREEMAP_BLACK (bh Tip) g" using R(4) T by (simp add: rb_plug)
    ultimately have "\<exists>T'. treemap_insert_fixup (?m\<lparr>t_root := root_ptr (plug (fork Lside Tip ?n TREEMAP_RED key ?y Tip) g)\<rparr>) (Ptr ?n)
      (install (plug (fork Lside Tip ?n TREEMAP_RED key ?y Tip) g) w1) = Some (?m\<lparr>t_root := root_ptr T'\<rparr>, install T' w1)
      \<and> items T' = items (plug (fork Lside Tip ?n TREEMAP_RED key ?y Tip) g) \<and> rb_tree T'"
      by (rule insert_fixup_ok)
    then obtain T' where fx: "treemap_insert_fixup (?m\<lparr>t_root := root_ptr ?F\<rparr>) (Ptr ?n) (install ?F w1)
      = Some (?m\<lparr>t_root := root_ptr T'\<rparr>, install T' w1)" "items T' = items ?F" "rb_tree T'"
      by (elim exE conjE) (simp add: fork_def that)
    let ?m' = "?m\<lparr>t_root := root_ptr T'\<rparr>"
    have swap: "(m\<lparr>t_root := r\<rparr>)\<lparr>t_size := k\<rparr> = (m\<lparr>t_size := k\<rparr>)\<lparr>t_root := r\<rparr>" for r k by (cases m) simp
    have run: "insert_at m (hole_ptr g) c key x w = Some (0, Ptr ?m', install T' w1)"
      using q(1) a(1) l fx(1) by (simp add: insert_at_def swap del: root_plug sides)
    have sp: "spots T' = insert ?n (spots T)" "apart T'" "length (items T') = Suc (length (items T))"
      "pairs T' = pairs_before g @ (key, ?y) # pairs_after g"
      using spots_items [OF fx(2)] pairs_items [OF fx(2)] fx(2) g n T by (simp_all add: apart_Branch items_plug)
    have size: "sz_add (t_size m) 1 = Suc (length (items T))" using store_size [OF rel] R(6) q(2) a(3) by (simp add: store_ok_def)
    have new: "fst ` set (pairs T') \<subseteq> keys_of ?m'" "ordered (t_key_compare m) (pairs T')"
      using R(8) key ordered_insert [OF R(10) key _ _ side] R(8,9) T sp(4) by (auto simp: keys_of_def)
    have "tree_rel ?m' (install T' w1) T'"
    proof (rule tree_rel_install)
      show "e < fresh w1" if "e \<in> spots T'" for e using that below [of e] a(3) unfolding sp(1) by auto
      show "tm_legal (tm_conf ?m')" using R(7) by (simp add: tm_conf_def)
    qed (use q(2) sp(2,3) fx(3) new size in simp_all)
    moreover have "frame (spots T) w (install T' w1)"
    proof (rule frame_install)
      show "d \<notin> spots T' \<and> cells_of w1 d = cells_of w d" if "d < ?n" "d \<notin> spots T" for d using that a(4) unfolding sp(1) by simp
    qed (use a(3) in simp)
    moreover have "stays T T'" unfolding stays_def fx(2) T by (auto simp: items_plug)
    moreover have "live w1 - tm_own ?m' = live w - tm_own m" using a(2) size R(6) by (simp add: tm_own_def algebra_simps)
    ultimately have "tm_step m w T ?m' (install T' w1) T' []"
      using sp(1) q(3) a(3) by (auto simp: tm_step_def tm_conf_def)
    then show ?thesis using run sp(4) q(6) by (intro exI [of _ 0] exI [of _ ?m'] exI [of _ "install T' w1"] exI [of _ T']) simp
  qed
qed

section \<open>Lookups and setting\<close>

lemma descend_ok:
  assumes rel: "tree_rel m w T" and key: "key \<in> keys_of m" and d: "descend (t_key_compare m) key T Top = (t, g)"
  shows "T = plug t g" "all_less (t_key_compare m) (pairs_before g) key" "all_greater (t_key_compare m) (pairs_after g) key"
    "t = Tip \<or> (\<exists>l a c k v r. t = Branch l a c k v r \<and> t_key_compare m k key = 0
        \<and> all_less (t_key_compare m) (pairs l) key \<and> all_greater (t_key_compare m) (pairs r) key)"
  using descend_plug [OF d] descend_splits [OF tree_relD(10) [OF rel] key d tree_relD(9,8) [OF rel]] by simp_all

text \<open>What a descent finds.\<close>

lemma descend_entry:
  assumes rel: "tree_rel m w T" and key: "key \<in> keys_of m" and d: "descend (t_key_compare m) key T Top = (t, g)"
  shows "t = Tip \<Longrightarrow> entry_for (t_key_compare m) key (pairs T) = None"
    "t = Tip \<Longrightarrow> upsert (t_key_compare m) key v (pairs T) = pairs_before g @ (key, v) # pairs_after g"
    "t = Branch l a c k u r \<Longrightarrow> entry_for (t_key_compare m) key (pairs T) = Some (k, u)"
    "t = Branch l a c k u r \<Longrightarrow> upsert (t_key_compare m) key v (pairs T) = pairs (plug (Branch l a c k v r) g)"
    "t = Branch l a c k u r \<Longrightarrow> omit (t_key_compare m) key (pairs T) = pairs_before g @ pairs l @ pairs r @ pairs_after g"
  using descend_ok [OF rel key d] by (auto simp: split_less split_greater split_equal)

lemma find_node_ok:
  assumes "tree_rel m w T"
  shows "treemap_find_node m key w = Some (root_ptr (fst (descend (t_key_compare m) key T Top)))"
  using find_node_loop_ok [OF tree_relD(2) [OF assms]] tree_relD(5) [OF assms] by (simp add: treemap_find_node_def)

lemma key_valid: "key \<in> keys_of m \<Longrightarrow> treemap_key_is_valid m (Ptr key) = Some True"
  by (simp add: treemap_key_is_valid_def keys_of_def key_ok_valid)

lemma treemap_contains_ok:
  assumes "tree_rel m w T" "key \<in> keys_of m"
  shows "treemap_contains (Ptr m) (Ptr key) w = Some (if entry_for (t_key_compare m) key (pairs T) = None then 0 else 1)"
proof -
  obtain t g where d: "descend (t_key_compare m) key T Top = (t, g)" by fastforce
  note e = descend_entry [OF assms d]
  show ?thesis
    using find_node_ok [OF assms(1), of key] key_valid [OF assms(2)] d e(1) e(3)
    by (cases t) (auto simp: treemap_contains_def)
qed

lemma treemap_at_ok:
  assumes "tree_rel m w T" "key \<in> keys_of m"
  shows "\<exists>q. treemap_at (Ptr m) (Ptr key) w = Some q \<and> treemap_at_const (Ptr m) (Ptr key) w = Some q
    \<and> (case entry_for (t_key_compare m) key (pairs T) of None \<Rightarrow> q = NULL
       | Some (j, u) \<Rightarrow> \<exists>a. q = Ptr a \<and> (a, j, u) \<in> set (items T) \<and> value_at q w = Some u)"
proof -
  obtain t g where d: "descend (t_key_compare m) key T Top = (t, g)" by fastforce
  note e = descend_entry [OF assms d] and T = descend_ok(1) [OF assms d]
  have at: "treemap_at (Ptr m) (Ptr key) w = Some (root_ptr t)" "treemap_at_const (Ptr m) (Ptr key) w = Some (root_ptr t)"
    using find_node_ok [OF assms(1), of key] key_valid [OF assms(2)] d
    by (simp_all add: treemap_at_def treemap_at_const_def treemap_value_slot_def treemap_value_slot_const_def)
  show ?thesis
  proof (cases t)
    case Tip
    then show ?thesis using at e(1) by simp
  next
    case (Branch l a c k v r)
    have "(a, k, v) \<in> set (items T)" unfolding T Branch by (simp add: items_plug)
    moreover have "value_at (Ptr a) w = Some v"
      using tree_relD(2) [OF assms(1)] unfolding T Branch by (simp add: holds_plug value_at_def)
    ultimately show ?thesis using at e(3) [OF Branch] Branch by simp
  qed
qed

lemma treemap_set_ok:
  assumes rel: "tree_rel m w T" and key: "key \<in> keys_of m"
  shows "\<exists>rc m' w' T'. treemap_set (Ptr m) (Ptr key) (Ptr x) w = Some (rc, Ptr m', w')
    \<and> (no_fail w \<longrightarrow> no_fail w' \<and> (tree_room m w \<longrightarrow> rc = 0))
    \<and> (rc = 0 \<and> pairs T' = upsert (t_key_compare m) key (copied (t_value_copy m) x) (pairs T)
         \<and> tm_step m w T m' w' T' (case entry_for (t_key_compare m) key (pairs T) of None \<Rightarrow> [] | Some (j, u) \<Rightarrow> [u])
       \<or> rc = - 1 \<and> T' = T \<and> tm_step m w T m' w' T [])"
proof -
  note R = tree_relD [OF rel]
  obtain t g where d: "descend (t_key_compare m) key T Top = (t, g)" by fastforce
  note D = descend_ok [OF rel key d] and E = descend_entry [OF rel key d]
  have "side_sign Top 0" by (simp add: side_sign_def)
  from set_loop_ok [OF R(2) this d] obtain c where
    c: "set_loop m key (root_ptr T) (hole_ptr (Top :: 'a ctx)) 0 w = Some (root_ptr t, if t = Tip then hole_ptr g else root_ptr t, c)"
    "t = Tip \<longrightarrow> side_sign g c" by (elim exE conjE) (rule that)
  show ?thesis
  proof (cases t)
    case Tip
    have "treemap_set (Ptr m) (Ptr key) (Ptr x) w = insert_at m (hole_ptr g) c key x w"
      using c(1) Tip key_valid [OF key] R(5) by (simp add: treemap_set_def)
    moreover have "T = plug Tip g" "side_sign g c" using D(1) Tip c(2) by simp_all
    ultimately show ?thesis
      using insert_at_ok [OF rel _ _ key D(2,3), of c x] E(1,2) [OF Tip] by simp
  next
    case (Branch l a e k u r)
    have run: "treemap_set (Ptr m) (Ptr key) (Ptr x) w = replace_at m (Ptr a) x w"
      using c(1) Branch key_valid [OF key] R(5) by (simp add: treemap_set_def)
    have T: "T = plug (Branch l a e k u r) g" using D(1) Branch by simp
    from replace_at_ok [OF rel T, of x] obtain rc w' T' where
      "replace_at m (Ptr a) x w = Some (rc, Ptr m, w')" "no_fail w \<longrightarrow> no_fail w' \<and> (tree_room m w \<longrightarrow> rc = 0)"
      "rc = 0 \<and> T' = plug (Branch l a e k (copied (t_value_copy m) x) r) g \<and> tm_step m w T m w' T' [u]
       \<or> rc = - 1 \<and> T' = T \<and> tm_step m w T m w' T []" by (elim exE conjE) (rule that)
    then show ?thesis
      using E(3,4) [OF Branch] unfolding run by (intro exI [of _ rc] exI [of _ m] exI [of _ w'] exI [of _ T']) auto
  qed
qed

end
