(* ===== verification/Treemap_Remove.thy ===== *)
theory Treemap_Remove
  imports Treemap_Map
begin

text \<open>
  Contracts of deletion, clearing and the life cycle of the tree map.
\<close>

section \<open>Deleting\<close>

lemma ordered_irrefl:
  assumes "orders cmp K" "k \<in> K" "ordered cmp (ps @ (k, u) # qs)"
  shows "(k, v) \<notin> set (ps @ qs)"
proof
  assume "(k, v) \<in> set (ps @ qs)"
  then have "cmp k k < 0" using assms(3) by (auto simp: ordered_append ordered_Cons)
  then show False using orders_sym(1) [OF assms(1,2,2)] by simp
qed

text \<open>A node outside of the tree is released.\<close>

lemma install_drop:
  assumes "a \<notin> spots t" "apart t"
  shows "with_cells ((cells_of (install t w))(a := None)) v = install t (with_cells ((cells_of w)(a := None)) v)"
proof -
  let ?C = "(cells_of (install t w))(a := None)"
  have "holds_tree ?C NULL t"
    by (rule iffD2 [OF holds_tree_cong [of t _ "cells_of (install t w)"]])
      (use assms holds_install [OF assms(2)] in \<open>auto simp: cells_install\<close>)
  moreover have "?C d = cells_of (with_cells ((cells_of w)(a := None)) v) d" if "d \<notin> spots t" for d
    using install_outside [OF that] by simp
  ultimately have "with_cells ?C (with_cells ((cells_of w)(a := None)) v) = install t (with_cells ((cells_of w)(a := None)) v)"
    by (rule installI)
  then show ?thesis by simp
qed

lemma free_block_cells: "free_block (with_cells C w) = with_cells C (free_block w)"
  by (cases w) (simp add: free_block_def with_cells_def)

text \<open>The tree of the map after a node has been taken out and released.\<close>

lemma removed_ok:
  assumes rel: "tree_rel m w T" and T: "T = plug (Branch l a c k u r) g"
    and T': "items T' = before g @ items l @ items r @ after g" "rb_tree T'"
    and W: "fresh w' = fresh w" "live w' = live w - key_blocks (t_key_kind m) - 1"
      "destroyed w' = destroyed w @ log_if (t_value_destroy m) [u]"
  shows "tm_step m w T (m\<lparr>t_size := sz_sub (t_size m) 1, t_root := root_ptr T'\<rparr>)
    (install T' (with_cells ((cells_of w)(a := None)) w')) T' [u]"
proof -
  note R = tree_relD [OF rel]
  let ?m = "m\<lparr>t_size := sz_sub (t_size m) 1, t_root := root_ptr T'\<rparr>" let ?W = "with_cells ((cells_of w)(a := None)) w'"
  have it: "items T = before g @ items l @ (a, k, u) # items r @ after g" unfolding T by (simp add: items_plug)
  have sp: "spots T = insert a (spots T')" "a \<notin> spots T'" "apart T'" "length (items T) = Suc (length (items T'))"
    using R(3) unfolding apart_def spots_def it T'(1) by auto
  have pr: "pairs T = (pairs_before g @ pairs l) @ (k, u) # (pairs r @ pairs_after g)" unfolding T by simp
  have pr': "pairs T' = (pairs_before g @ pairs l) @ (pairs r @ pairs_after g)"
    using T'(1) by (simp add: pairs_def pairs_before_def pairs_after_def)
  have "length (items T) \<le> SIZE_MAX" using store_size [OF rel] R(1) by (simp add: store_ok_def)
  then have size: "sz_sub (t_size m) 1 = length (items T')" using R(6) sp(4) by simp
  have below: "e < fresh ?W" if "e \<in> spots T'" for e using tree_rel_below [OF rel, of e] that sp(1) W(1) by simp
  have "tree_rel ?m (install T' ?W) T'"
  proof (rule tree_rel_install [OF _ below])
    show "store_ok ?W" using R(1) W(1) by (auto simp: store_ok_def)
    show "tm_legal (tm_conf ?m)" using R(7) by (simp add: tm_conf_def)
    show "fst ` set (pairs T') \<subseteq> keys_of ?m" using R(8) unfolding pr pr' by (auto simp: keys_of_def)
    show "ordered (t_key_compare ?m) (pairs T')" unfolding pr' by (rule ordered_remove) (use R(9) pr in simp)
  qed (use sp(3) T'(2) size in simp_all)
  moreover have "frame (spots T) w (install T' ?W)"
    by (rule frame_install) (use sp(1) W(1) in auto)
  moreover have "stays T T'"
  proof -
    have "(k, v) \<notin> set (pairs T')" for v
      using ordered_irrefl [OF R(10) _ R(9) [unfolded pr]] R(8) unfolding pr pr' by auto
    then show ?thesis unfolding stays_def it T'(1) by auto
  qed
  moreover have "live w' - tm_own ?m = live w - tm_own m" using W(2) size sp(4) R(6) by (simp add: tm_own_def algebra_simps)
  ultimately show ?thesis
    using sp(1) W(1,3) by (auto simp: tm_step_def tm_conf_def)
qed

lemma treemap_delete_ok:
  assumes rel: "tree_rel m w T" and key: "key \<in> keys_of m"
  shows "\<exists>rc m' w' T'. treemap_delete (Ptr m) (Ptr key) w = Some (rc, Ptr m', w') \<and> no_fail w' = no_fail w
    \<and> (case entry_for (t_key_compare m) key (pairs T) of
         None \<Rightarrow> rc = - 1 \<and> m' = m \<and> w' = w \<and> T' = T
       | Some (j, u) \<Rightarrow> rc = 0 \<and> pairs T' = omit (t_key_compare m) key (pairs T) \<and> tm_step m w T m' w' T' [u])"
proof -
  note R = tree_relD [OF rel]
  obtain t g where d: "descend (t_key_compare m) key T Top = (t, g)" by fastforce
  note D = descend_ok [OF rel key d] and E = descend_entry [OF rel key d]
  have find: "treemap_find_node m key w = Some (root_ptr t)" using find_node_ok [OF rel, of key] d by simp
  show ?thesis
  proof (cases t)
    case Tip
    then show ?thesis using find E(1) key_valid [OF key] by (auto simp: treemap_delete_def)
  next
    case (Branch l a c k u r)
    have T: "T = plug (Branch l a c k u r) g" using D(1) Branch by simp
    from unlink_tree_ok [OF R(3) [unfolded T] R(4) [unfolded T] R(5) [unfolded T] R(2) [unfolded T]] obtain x G e where
      un: "unlink_node m (Ptr a) w = Some (m\<lparr>t_root := root_ptr (plug x G)\<rparr>, root_ptr x, hole_ptr G, e, install (plug x G) w)"
      and cut: "cut_out l a c k u r g x G e" by (elim exE conjE) (rule that)
    have it: "items (plug x G) = before g @ items l @ items r @ after g" "rbt x"
      "e = TREEMAP_BLACK \<Longrightarrow> ctx_ok TREEMAP_BLACK (Suc (bh x)) G" "e = TREEMAP_RED \<Longrightarrow> rb_tree (plug x G)"
      using cut by (simp_all add: cut_out_def)
    have "distinct (map fst (before g @ items l @ (a, k, u) # items r @ after g))"
      using R(3) unfolding T apart_def items_plug by simp
    then have ap: "apart (plug x G)" "a \<notin> spots (plug x G)" unfolding apart_def spots_def it(1) by auto
    let ?w1 = "install (plug x G) w" let ?m1 = "m\<lparr>t_root := root_ptr (plug x G)\<rparr>"
    have ca: "cells_of ?w1 a = Some (fork_node Lside (root_ptr l) (root_ptr r) (hole_ptr g) c k u)"
      using install_outside [OF ap(2)] R(2) unfolding T by (simp add: holds_plug)
    have "k \<in> keys_of ?m1" using R(8) T by (simp add: keys_of_def)
    from treemap_destroy_key_ok [OF this, of ?w1] obtain w2 where
      dk: "treemap_destroy_key ?m1 k ?w1 = Some w2" "world.more w2 = world.more ?w1" "destroyed w2 = destroyed ?w1"
      "no_fail w2 = no_fail ?w1" "live w2 = live ?w1 - key_blocks (t_key_kind ?m1)" by (elim exE conjE) (rule that)
    note s2 = same_store [OF dk(2)]
    let ?w3 = "free_block (treemap_destroy_value ?m1 u w2)" let ?W = "with_cells ((cells_of w)(a := None)) ?w3"
    have val: "value_at (Ptr a) w2 = Some u" using ca s2(1) by (simp add: value_at_def)
    have c2: "cells_of (treemap_destroy_value ?m1 u w2) = cells_of ?w1" using s2(1) by (simp add: treemap_destroy_value_def)
    then have fr: "free_node (Ptr a) (treemap_destroy_value ?m1 u w2) = Some (install (plug x G) ?W)"
      using ca install_drop [OF ap(2,1), of w ?w3] by (simp add: free_node_Ptr free_block_cells)
    let ?m2 = "?m1\<lparr>t_size := sz_sub (t_size ?m1) 1\<rparr>"
    have run: "treemap_delete (Ptr m) (Ptr key) w = do {
         (m3, w4) \<leftarrow> (if e = TREEMAP_BLACK then treemap_delete_fixup ?m2 (root_ptr x) (hole_ptr G) (install (plug x G) ?W)
           else Some (?m2, install (plug x G) ?W));
         Some (0, Ptr m3, w4) }"
      using key_valid [OF key] find Branch un ca dk(1) val fr
      by (simp add: treemap_delete_def key_at_def treemap_key_slot_def treemap_value_slot_def del: root_plug)
    have swap: "?m2 = m\<lparr>t_size := sz_sub (t_size m) 1, t_root := root_ptr (plug x G)\<rparr>" by (cases m) simp
    have "\<exists>T'. treemap_delete (Ptr m) (Ptr key) w = Some (0, Ptr (m\<lparr>t_size := sz_sub (t_size m) 1, t_root := root_ptr T'\<rparr>), install T' ?W)
      \<and> items T' = items (plug x G) \<and> rb_tree T'"
    proof (cases "e = TREEMAP_BLACK")
      case True
      from delete_fixup_ok [OF ap(1) rbt_black [OF it(2)] it(3) [OF True], of "m\<lparr>t_size := sz_sub (t_size m) 1\<rparr>" ?W]
      show ?thesis unfolding run swap using True by (elim exE conjE) (simp add: exI del: root_plug)
    next
      case False
      then show ?thesis unfolding run swap using it(4) by (intro exI [of _ "plug x G"]) (simp del: root_plug)
    qed
    then obtain T' where T': "treemap_delete (Ptr m) (Ptr key) w
        = Some (0, Ptr (m\<lparr>t_size := sz_sub (t_size m) 1, t_root := root_ptr T'\<rparr>), install T' ?W)"
      "items T' = items (plug x G)" "rb_tree T'" by (elim exE conjE) (rule that)
    have "tm_step m w T (m\<lparr>t_size := sz_sub (t_size m) 1, t_root := root_ptr T'\<rparr>) (install T' ?W) T' [u]"
      by (rule removed_ok [OF rel T _ T'(3)])
        (use T'(2) it(1) s2(2) dk(3,5) in \<open>simp_all add: treemap_destroy_value_def log_if_def\<close>)
    moreover have "pairs T' = omit (t_key_compare m) key (pairs T)"
      unfolding E(5) [OF Branch] using T'(2) it(1) by (simp add: pairs_def pairs_before_def pairs_after_def)
    moreover have "no_fail (install T' ?W) = no_fail w" using dk(4) by (simp add: treemap_destroy_value_def)
    ultimately show ?thesis
      using T'(1) E(3) [OF Branch]
      by (intro exI [of _ 0] exI [of _ "m\<lparr>t_size := sz_sub (t_size m) 1, t_root := root_ptr T'\<rparr>"] exI [of _ "install T' ?W"] exI [of _ T']) simp
  qed
qed

section \<open>Clearing\<close>

text \<open>The values in the order in which they are destroyed.\<close>

fun postorder :: "'v rtree \<Rightarrow> 'v list" where
  "postorder Tip = []"
| "postorder (Branch l a c k v r) = postorder l @ postorder r @ [v]"

lemma mset_postorder: "mset (postorder t) = mset (map snd (pairs t))"
  by (induction t) auto

lemma clear_node_ok:
  assumes "holds_tree (cells_of w) up t" "apart t" "fst ` set (pairs t) \<subseteq> keys_of m"
  shows "\<exists>w'. treemap_clear_node m (root_ptr t) w = Some w' \<and> cells_of w' = cells_of w |` (- spots t) \<and> fresh w' = fresh w
    \<and> destroyed w' = destroyed w @ log_if (t_value_destroy m) (postorder t) \<and> no_fail w' = no_fail w
    \<and> live w' = live w - int (length (items t)) * (1 + key_blocks (t_key_kind m))"
  using assms
proof (induction t arbitrary: up w)
  case Tip
  then show ?case by (subst treemap_clear_node.simps) (auto simp: restrict_map_def fun_eq_iff)
next
  case (Branch l a c k v r)
  let ?N = "fork_node Lside (root_ptr l) (root_ptr r) up c k v"
  have a: "cells_of w a = Some ?N" and hl: "holds_tree (cells_of w) (Ptr a) l" and hr: "holds_tree (cells_of w) (Ptr a) r"
    using Branch.prems(1) by simp_all
  have ap: "apart l" "apart r" "a \<notin> spots l" "a \<notin> spots r" "spots l \<inter> spots r = {}" using Branch.prems(2) by (simp_all add: apart_Branch)
  have keys: "fst ` set (pairs l) \<subseteq> keys_of m" "fst ` set (pairs r) \<subseteq> keys_of m" "k \<in> keys_of m" using Branch.prems(3) by auto
  from Branch.IH(1) [OF hl ap(1) keys(1)] obtain w1 where
    l: "treemap_clear_node m (root_ptr l) w = Some w1" "cells_of w1 = cells_of w |` (- spots l)" "fresh w1 = fresh w"
    "destroyed w1 = destroyed w @ log_if (t_value_destroy m) (postorder l)" "no_fail w1 = no_fail w"
    "live w1 = live w - int (length (items l)) * (1 + key_blocks (t_key_kind m))" by (elim exE conjE) (rule that)
  have "holds_tree (cells_of w1) (Ptr a) r"
  proof (rule iffD2 [OF holds_tree_cong hr])
    fix e assume "e \<in> spots r"
    then have "e \<notin> spots l" using ap(5) by blast
    then show "cells_of w1 e = cells_of w e" by (simp add: l(2))
  qed
  from Branch.IH(2) [OF this ap(2) keys(2)] obtain w2 where
    r: "treemap_clear_node m (root_ptr r) w1 = Some w2" "cells_of w2 = cells_of w1 |` (- spots r)" "fresh w2 = fresh w1"
    "destroyed w2 = destroyed w1 @ log_if (t_value_destroy m) (postorder r)" "no_fail w2 = no_fail w1"
    "live w2 = live w1 - int (length (items r)) * (1 + key_blocks (t_key_kind m))" by (elim exE conjE) (rule that)
  from treemap_destroy_key_ok [OF keys(3), of w2] obtain w3 where
    d: "treemap_destroy_key m k w2 = Some w3" "world.more w3 = world.more w2" "destroyed w3 = destroyed w2"
    "no_fail w3 = no_fail w2" "live w3 = live w2 - key_blocks (t_key_kind m)" by (elim exE conjE) (rule that)
  note s3 = same_store [OF d(2)]
  have at: "cells_of w1 a = Some ?N" "cells_of w2 a = Some ?N" using a l(2) r(2) ap(3,4) by simp_all
  let ?w4 = "treemap_destroy_value m v w3" let ?w5 = "free_block (with_cells ((cells_of ?w4)(a := None)) ?w4)"
  have "treemap_clear_node m (Ptr a) w = Some ?w5"
    using a at l(1) r(1) d(1) s3(1)
    by (subst treemap_clear_node.simps)
      (simp add: child_at_def child_def fork_node_def key_at_def value_at_def treemap_key_slot_def treemap_value_slot_def
        free_node_Ptr treemap_destroy_value_def)
  moreover have "cells_of ?w5 = cells_of w |` (- spots (Branch l a c k v r))"
    using l(2) r(2) s3(1) by (auto simp: treemap_destroy_value_def restrict_map_def fun_eq_iff)
  ultimately show ?case
    using l r d s3(2) by (intro exI [of _ ?w5]) (simp add: treemap_destroy_value_def log_if_def algebra_simps)
qed

lemma treemap_clear_ok:
  assumes rel: "tree_rel m w T"
  shows "\<exists>m' w'. treemap_clear (Ptr m) w = Some (Ptr m', w') \<and> tm_step m w T m' w' Tip (postorder T)
    \<and> fresh w' = fresh w \<and> no_fail w' = no_fail w \<and> tm_own m' = 0"
proof -
  note R = tree_relD [OF rel]
  from clear_node_ok [OF R(2,3,8)] obtain w' where
    c: "treemap_clear_node m (root_ptr T) w = Some w'" "cells_of w' = cells_of w |` (- spots T)" "fresh w' = fresh w"
    "destroyed w' = destroyed w @ log_if (t_value_destroy m) (postorder T)" "no_fail w' = no_fail w"
    "live w' = live w - int (length (items T)) * (1 + key_blocks (t_key_kind m))" by (elim exE conjE) (rule that)
  let ?m = "m\<lparr>t_root := NULL, t_size := 0\<rparr>"
  have "tree_rel ?m w' Tip"
    using R(1,7) c(2,3) by (auto simp: tree_rel_def tm_conf_def store_ok_def rb_tree_def restrict_map_def)
  moreover have "stays T Tip" by (simp add: stays_def)
  ultimately have "tm_step m w T ?m w' Tip (postorder T)"
    using c(2-4,6) R(6) by (auto simp: tm_step_def tm_conf_def frame_def tm_own_def)
  then show ?thesis
    using c(1,3,5) R(5) by (intro exI [of _ ?m] exI [of _ w']) (simp add: treemap_clear_def tm_own_def)
qed

lemma treemap_destroy_eq: "treemap_destroy (Ptr m) w = treemap_clear (Ptr m) w"
  by (simp add: treemap_destroy_def)

section \<open>Creating\<close>

lemma treemap_init_ok:
  assumes "tm_legal (kind, ks, vs, cmp, d, f)"
  shows "\<exists>m. treemap_init (Ptr u) kind ks vs (Ptr cmp) d f = (0, Ptr m) \<and> tm_conf m = (kind, ks, vs, cmp, d, f)
    \<and> tm_own m = 0 \<and> (\<forall>w. store_ok w \<longrightarrow> tree_rel m w Tip)"
  using assms by (auto simp: treemap_init_def tm_legal_def tm_conf_def tm_own_def tree_rel_def rb_tree_def)

end
