(* ===== verification/Treemap_Walk.thy ===== *)
theory Treemap_Walk
  imports Treemap_Remove
begin

text \<open>
  Iteration over a tree map in both directions and the search for bounds, as functions on the list
  of entries.
\<close>

section \<open>Positions in a tree\<close>

fun head_ptr :: "(nat \<times> cell \<times> 'v) list \<Rightarrow> nat ptr" where
  "head_ptr [] = NULL"
| "head_ptr ((a, _, _) # _) = Ptr a"

definition last_ptr :: "(nat \<times> cell \<times> 'v) list \<Rightarrow> nat ptr" where
  "last_ptr es = head_ptr (rev es)"

lemma head_append [simp]: "head_ptr (es @ fs) = (if es = [] then head_ptr fs else head_ptr es)"
  by (cases es) auto

lemma last_append [simp]: "last_ptr (es @ fs) = (if fs = [] then last_ptr es else last_ptr fs)" "last_ptr [] = NULL" "last_ptr [(a, k, v)] = Ptr a"
  by (simp_all add: last_ptr_def)

lemma last_Cons [simp]: "last_ptr ((a, k, v) # fs) = (if fs = [] then Ptr a else last_ptr fs)"
  by (simp add: last_ptr_def)

text \<open>A position in the entries is a node in a context.\<close>

lemma items_split:
  "items t = es @ (a, k, v) # fs \<Longrightarrow>
    \<exists>l c r g. t = plug (Branch l a c k v r) g \<and> es = before g @ items l \<and> fs = items r @ after g"
proof (induction t arbitrary: es fs)
  case (Branch l b d j u r)
  from Branch.prems have "items l @ (b, j, u) # items r = es @ (a, k, v) # fs" by simp
  then obtain us where
    "items l = es @ us \<and> us @ (b, j, u) # items r = (a, k, v) # fs \<or> items l @ us = es \<and> (b, j, u) # items r = us @ (a, k, v) # fs"
    unfolding append_eq_append_conv2 by blast
  then consider "us \<noteq> []" "items l = es @ us" "us @ (b, j, u) # items r = (a, k, v) # fs"
    | "items l = es" "(b, j, u) = (a, k, v)" "items r = fs"
    | ts where "es = items l @ (b, j, u) # ts" "items r = ts @ (a, k, v) # fs"
    by (cases us) auto
  then show ?case
  proof cases
    case 1
    then obtain ts where "items l = es @ (a, k, v) # ts" "fs = ts @ (b, j, u) # items r" by (cases us) auto
    with Branch.IH(1) obtain l' c r' g where "l = plug (Branch l' a c k v r') g" "es = before g @ items l'" "ts = items r' @ after g"
      by blast
    then show ?thesis using \<open>fs = _\<close>
      by (intro exI [of _ l'] exI [of _ c] exI [of _ r'] exI [of _ "graft g (Step Lside b d j u r Top)"]) (simp add: fork_def)
  next
    case 2
    then show ?thesis by (intro exI [of _ l] exI [of _ d] exI [of _ r] exI [of _ Top]) simp
  next
    case 3
    with Branch.IH(2) obtain l' c r' g where "r = plug (Branch l' a c k v r') g" "ts = before g @ items l'" "fs = items r' @ after g"
      by blast
    then show ?thesis using 3(1)
      by (intro exI [of _ l'] exI [of _ c] exI [of _ r'] exI [of _ "graft g (Step Rside b d j u l Top)"]) (simp add: fork_def)
  qed
qed simp

section \<open>Ends\<close>

lemma minimum_ok: "holds_tree (cells_of w) up t \<Longrightarrow> treemap_minimum (root_ptr t) w = Some (head_ptr (items t))"
proof -
  have "holds_tree (cells_of w) up t \<Longrightarrow> t \<noteq> Tip \<Longrightarrow> minimum_loop (root_ptr t) w = Some (head_ptr (items t))" for up
  proof (induction t arbitrary: up)
    case (Branch l a c k v r)
    show ?case using Branch.prems Branch.IH(1) [of "Ptr a"] by (subst minimum_loop.simps) (cases "l = Tip", auto simp: fork_node_def)
  qed simp
  then show "holds_tree (cells_of w) up t \<Longrightarrow> treemap_minimum (root_ptr t) w = Some (head_ptr (items t))"
    by (cases "t = Tip") (simp_all add: treemap_minimum_def)
qed

lemma maximum_ok: "holds_tree (cells_of w) up t \<Longrightarrow> treemap_maximum (root_ptr t) w = Some (last_ptr (items t))"
proof -
  have "holds_tree (cells_of w) up t \<Longrightarrow> t \<noteq> Tip \<Longrightarrow> maximum_loop (root_ptr t) w = Some (last_ptr (items t))" for up
  proof (induction t arbitrary: up)
    case (Branch l a c k v r)
    show ?case using Branch.prems Branch.IH(2) [of "Ptr a"] by (subst maximum_loop.simps) (cases "r = Tip", auto simp: fork_node_def)
  qed simp
  then show "holds_tree (cells_of w) up t \<Longrightarrow> treemap_maximum (root_ptr t) w = Some (last_ptr (items t))"
    by (cases "t = Tip") (simp_all add: treemap_maximum_def)
qed

lemma ends_ok:
  assumes "tree_rel m w T"
  shows "treemap_first (Ptr m) w = Some (head_ptr (items T))" "treemap_first_const (Ptr m) w = Some (head_ptr (items T))"
    "treemap_last (Ptr m) w = Some (last_ptr (items T))" "treemap_last_const (Ptr m) w = Some (last_ptr (items T))"
  using minimum_ok [OF tree_relD(2) [OF assms]] maximum_ok [OF tree_relD(2) [OF assms]] tree_relD(5) [OF assms]
  by (simp_all add: treemap_first_def treemap_first_const_def treemap_last_def treemap_last_const_def)

section \<open>Steps\<close>

lemma next_loop_ok:
  "holds_ctx (cells_of w) (Ptr e) g \<Longrightarrow> parent_of (Ptr e) w = Some (hole_ptr g) \<Longrightarrow> capart g \<Longrightarrow> e \<notin> cspots g \<Longrightarrow>
    next_loop (Ptr e) w = Some (head_ptr (after g))"
proof (induction g arbitrary: e)
  case (Step s a c k v u g)
  have a: "cells_of w a = Some (fork_node s (Ptr e) (root_ptr u) (hole_ptr g) c k v)" using Step.prems(1) by simp
  have e: "root_ptr u \<noteq> Ptr e" using root_neq(1) [of e u] Step.prems(4) by simp
  show ?case
    using Step.prems Step.IH [of a] a e
    by (subst next_loop.simps) (cases s, auto simp: child_at_def child_def fork_node_def parent_of_def)
qed (subst next_loop.simps, simp)

lemma prev_loop_ok:
  "holds_ctx (cells_of w) (Ptr e) g \<Longrightarrow> parent_of (Ptr e) w = Some (hole_ptr g) \<Longrightarrow> capart g \<Longrightarrow> e \<notin> cspots g \<Longrightarrow>
    prev_loop (Ptr e) w = Some (last_ptr (before g))"
proof (induction g arbitrary: e)
  case (Step s a c k v u g)
  have a: "cells_of w a = Some (fork_node s (Ptr e) (root_ptr u) (hole_ptr g) c k v)" using Step.prems(1) by simp
  have e: "root_ptr u \<noteq> Ptr e" using root_neq(1) [of e u] Step.prems(4) by simp
  show ?case
    using Step.prems Step.IH [of a] a e
    by (subst prev_loop.simps) (cases s, auto simp: child_at_def child_def fork_node_def parent_of_def)
qed (subst prev_loop.simps, simp)

lemma steps_ok:
  assumes rel: "tree_rel m w T" and it: "items T = es @ (a, k, v) # fs"
  shows "treemap_next (Ptr a) w = Some (head_ptr fs)" "treemap_prev (Ptr a) w = Some (last_ptr es)"
    "key_at (Ptr a) w = Some k" "value_at (Ptr a) w = Some v"
proof -
  from items_split [OF it] obtain l c r g where T: "T = plug (Branch l a c k v r) g"
    "es = before g @ items l" "fs = items r @ after g" by (elim exE conjE) (rule that)
  have h: "cells_of w a = Some (fork_node Lside (root_ptr l) (root_ptr r) (hole_ptr g) c k v)"
    "holds_tree (cells_of w) (Ptr a) l" "holds_tree (cells_of w) (Ptr a) r" "holds_ctx (cells_of w) (Ptr a) g"
    using tree_relD(2) [OF rel] T(1) by (simp_all add: holds_plug)
  have ap: "capart g" "a \<notin> cspots g" using tree_relD(3) [OF rel] T(1) by simp_all
  have up: "parent_of (Ptr a) w = Some (hole_ptr g)" using h(1) by (simp add: parent_of_def)
  have ch: "child_at Lside (Ptr a) w = Some (root_ptr l)" "child_at Rside (Ptr a) w = Some (root_ptr r)"
    using h(1) by (simp_all add: child_at_def child_def fork_node_def)
  show "treemap_next (Ptr a) w = Some (head_ptr fs)"
    using ch(2) minimum_ok [OF h(3)] next_loop_ok [OF h(4) up ap] T(3) by (simp add: treemap_next_def)
  show "treemap_prev (Ptr a) w = Some (last_ptr es)"
    using ch(1) maximum_ok [OF h(2)] prev_loop_ok [OF h(4) up ap] T(2) by (simp add: treemap_prev_def)
  show "key_at (Ptr a) w = Some k" "value_at (Ptr a) w = Some v" using h(1) by (simp_all add: key_at_def value_at_def)
qed

section \<open>Bounds\<close>

definition below :: "(cell \<Rightarrow> cell \<Rightarrow> int) \<Rightarrow> cell \<Rightarrow> bool \<Rightarrow> cell \<Rightarrow> bool" where
  "below cmp key strict k \<longleftrightarrow> cmp k key < 0 \<or> strict \<and> cmp k key = 0"

lemma dropWhile_stop: "\<not> P y \<Longrightarrow> dropWhile P (xs @ y # ys) = dropWhile P xs @ y # ys"
  by (induction xs) auto

lemma find_bound_loop_ok:
  assumes K: "orders (t_key_compare m) K" "key \<in> K"
  shows "holds_tree (cells_of w) up t \<Longrightarrow> ordered (t_key_compare m) (pairs t) \<Longrightarrow> fst ` set (pairs t) \<subseteq> K \<Longrightarrow>
    find_bound_loop m key strict (root_ptr t) b w
      = Some (case head_ptr (dropWhile (\<lambda>(a, k, v). below (t_key_compare m) key strict k) (items t)) of NULL \<Rightarrow> b | Ptr a \<Rightarrow> Ptr a)"
proof (induction t arbitrary: up b)
  case (Branch l a c k v r)
  let ?P = "\<lambda>(a, k, v). below (t_key_compare m) key strict k"
  have a: "cells_of w a = Some (fork_node Lside (root_ptr l) (root_ptr r) up c k v)" using Branch.prems(1) by simp
  have k: "k \<in> K" and sub: "fst ` set (pairs l) \<subseteq> K" "fst ` set (pairs r) \<subseteq> K" using Branch.prems(3) by auto
  have ord: "ordered (t_key_compare m) (pairs l)" "ordered (t_key_compare m) (pairs r)"
    and lk: "\<And>p. p \<in> set (pairs l) \<Longrightarrow> t_key_compare m (fst p) k < 0"
    using Branch.prems(2) by (auto simp: ordered_append ordered_Cons)
  have hl: "holds_tree (cells_of w) (Ptr a) l" and hr: "holds_tree (cells_of w) (Ptr a) r" using Branch.prems(1) by simp_all
  have step: "key_at (treemap_key_slot_const m (Ptr a)) w = Some k"
    "0 < t_key_compare m k key \<or> \<not> strict \<and> t_key_compare m k key = 0 \<longleftrightarrow> \<not> below (t_key_compare m) key strict k"
    using a by (auto simp: key_at_def treemap_key_slot_const_def below_def)
  show ?case
  proof (cases "below (t_key_compare m) key strict k")
    case True
    have "?P e" if "e \<in> set (items l)" for e
    proof -
      have p: "snd e \<in> set (pairs l)" using that by (simp add: pairs_def)
      then have "fst (snd e) \<in> K" using sub(1) by blast
      moreover have "t_key_compare m k key \<le> 0" using True unfolding below_def by auto
      ultimately have "t_key_compare m (fst (snd e)) key < 0" by (rule orders_trans(1) [OF K(1) _ k K(2) lk [OF p]])
      then show ?thesis by (cases e) (simp add: below_def)
    qed
    then have "dropWhile ?P (items (Branch l a c k v r)) = dropWhile ?P (items r)" using True by (simp add: dropWhile_append2)
    moreover have "find_bound_loop m key strict (Ptr a) b w = find_bound_loop m key strict (root_ptr r) b w"
      using a step True by (subst find_bound_loop.simps) (auto simp: fork_node_def)
    ultimately show ?thesis unfolding root_ptr.simps Branch.IH(2) [OF hr ord(2) sub(2), of b] by simp
  next
    case False
    have "head_ptr (dropWhile ?P (items (Branch l a c k v r))) = (case head_ptr (dropWhile ?P (items l)) of NULL \<Rightarrow> Ptr a | Ptr a \<Rightarrow> Ptr a)"
      using False by (cases "dropWhile ?P (items l)") (auto simp: dropWhile_stop simp del: dropWhile_eq_Nil_conv)
    moreover have "find_bound_loop m key strict (Ptr a) b w = find_bound_loop m key strict (root_ptr l) (Ptr a) w"
      using a step False by (subst find_bound_loop.simps) (auto simp: fork_node_def)
    ultimately show ?thesis unfolding root_ptr.simps Branch.IH(1) [OF hl ord(1) sub(1), of "Ptr a"] by (simp split: ptr.split)
  qed
qed (subst find_bound_loop.simps, simp)

lemma bounds_ok:
  assumes rel: "tree_rel m w T" and key: "key \<in> keys_of m"
  shows "treemap_find_bound_node (Ptr m) (Ptr key) strict w
    = Some (head_ptr (dropWhile (\<lambda>(a, k, v). below (t_key_compare m) key strict k) (items T)))"
proof -
  have "(case q of NULL \<Rightarrow> NULL | Ptr a \<Rightarrow> Ptr a) = q" for q :: "nat ptr" by (cases q) simp_all
  then show ?thesis
    using find_bound_loop_ok [OF tree_relD(10) [OF rel] key tree_relD(2,9,8) [OF rel], of strict NULL]
      key_valid [OF key] tree_relD(5) [OF rel] by (simp add: treemap_find_bound_node_def)
qed

end
