(* ===== verification/Treemap_Machine.thy ===== *)
theory Treemap_Machine
  imports Treemap_Walk
begin

text \<open>
  The tree map as a machine on the sorted list of its entries and, when the comparison function
  distinguishes all keys, as the machine of a finite map. Histories, lookups after a history, and
  the properties of \<open>src/treemap.c\<close>.
\<close>

section \<open>The machine of sorted entries\<close>

text \<open>There is no call to reserve room.\<close>

definition tree_exec ::
    "(cell, 'v) map_op \<Rightarrow> 'v treemap \<Rightarrow> 'v tworld \<Rightarrow> (int \<times> 'v treemap \<times> 'v tworld) option" where
  "tree_exec op m w = (case op of
       Put k v \<Rightarrow> map_option (\<lambda>(rc, p, w1). (rc, pt p, w1)) (treemap_set (Ptr m) (Ptr k) (Ptr v) w)
     | Remove k \<Rightarrow> map_option (\<lambda>(rc, p, w1). (rc, pt p, w1)) (treemap_delete (Ptr m) (Ptr k) w)
     | Wipe \<Rightarrow> map_option (\<lambda>(p, w1). (0, pt p, w1)) (treemap_clear (Ptr m) w)
     | Reserve n \<Rightarrow> Some (- 1, m, w))"

definition conf_key_ok :: "'v tm_conf \<Rightarrow> cell \<Rightarrow> bool" where
  "conf_key_ok cf k = (case cf of (kind, ks, _) \<Rightarrow> key_ok kind ks k)"

definition conf_cmp :: "'v tm_conf \<Rightarrow> cell \<Rightarrow> cell \<Rightarrow> int" where
  "conf_cmp cf = (case cf of (_, _, _, cmp, _, _) \<Rightarrow> cmp)"

definition tm_destroys :: "'v tm_conf \<Rightarrow> bool" where
  "tm_destroys cf = (case cf of (_, _, _, _, d, _) \<Rightarrow> d)"

definition tm_copies :: "'v tm_conf \<Rightarrow> ('v \<Rightarrow> 'v) option" where
  "tm_copies cf = (case cf of (_, _, _, _, _, f) \<Rightarrow> f)"

lemma tm_conf_simps [simp]:
  "conf_cmp (kind, ks, vs, cmp, d, f) = cmp" "tm_destroys (kind, ks, vs, cmp, d, f) = d"
  "tm_copies (kind, ks, vs, cmp, d, f) = f" "conf_key_ok (kind, ks, vs, cmp, d, f) k = key_ok kind ks k"
  "conf_cmp (tm_conf m) = t_key_compare m" "tm_destroys (tm_conf m) = t_value_destroy m"
  "tm_copies (tm_conf m) = t_value_copy m" "conf_key_ok (tm_conf m) k \<longleftrightarrow> k \<in> keys_of m"
  by (simp_all add: conf_cmp_def tm_destroys_def tm_copies_def conf_key_ok_def tm_conf_def keys_of_def)

definition tree_legal :: "'v tm_conf \<Rightarrow> (cell, 'v) map_op \<Rightarrow> bool" where
  "tree_legal cf op \<longleftrightarrow> (case op of Put k v \<Rightarrow> conf_key_ok cf k | Remove k \<Rightarrow> conf_key_ok cf k | Wipe \<Rightarrow> True | Reserve n \<Rightarrow> False)"

definition replaced :: "(cell \<Rightarrow> cell \<Rightarrow> int) \<Rightarrow> cell \<Rightarrow> (cell \<times> 'v) list \<Rightarrow> 'v list" where
  "replaced cmp k ps = (case entry_for cmp k ps of None \<Rightarrow> [] | Some (j, u) \<Rightarrow> [u])"

definition tree_spec ::
    "'v tm_conf \<Rightarrow> (cell, 'v) map_op \<Rightarrow> (cell \<times> 'v) list \<Rightarrow> int \<Rightarrow> (cell \<times> 'v) list \<Rightarrow> 'v list \<Rightarrow> bool" where
  "tree_spec cf op ps rc ps' ds \<longleftrightarrow> rc = 0 \<and> (case op of
       Put k v \<Rightarrow> ps' = upsert (conf_cmp cf) k (copied (tm_copies cf) v) ps \<and> ds = replaced (conf_cmp cf) k ps
     | Remove k \<Rightarrow> ps' = omit (conf_cmp cf) k ps \<and> ds = replaced (conf_cmp cf) k ps \<and> ds \<noteq> []
     | Wipe \<Rightarrow> ps' = [] \<and> mset ds = mset (map snd ps)
     | Reserve n \<Rightarrow> False)"

definition tree_holds :: "'v treemap \<Rightarrow> 'v tworld \<Rightarrow> (cell \<times> 'v) list \<Rightarrow> bool" where
  "tree_holds m w ps \<longleftrightarrow> (\<exists>T. tree_rel m w T \<and> pairs T = ps)"

lemma upsert_values: "mset (map snd (upsert cmp k v ps)) + mset (replaced cmp k ps) = add_mset v (mset (map snd ps))"
  by (induction cmp k v ps rule: upsert.induct) (auto simp: replaced_def)

lemma omit_values: "mset (map snd (omit cmp k ps)) + mset (replaced cmp k ps) = mset (map snd ps)"
  by (induction cmp k ps rule: omit.induct) (auto simp: replaced_def)

lemma tm_stepD:
  assumes "tm_step m w T m' w' T' ds"
  shows "tm_conf m' = tm_conf m" "tree_rel m' w' T'" "spots T' \<subseteq> spots T \<union> {fresh w..}" "frame (spots T) w w'"
    "fresh w' \<le> Suc (fresh w)" "destroyed w' = destroyed w @ log_if (t_value_destroy m) ds"
    "live w' - tm_own m' = live w - tm_own m" "stays T T'"
  using assms by (simp_all add: tm_step_def)

text \<open>Every call, on the level of trees.\<close>

lemma tree_exec_ok:
  assumes rel: "tree_rel m w T" and legal: "tree_legal (tm_conf m) op"
  shows "\<exists>rc m' w' T' ds. tree_exec op m w = Some (rc, m', w') \<and> tm_step m w T m' w' T' ds
    \<and> (no_fail w \<longrightarrow> no_fail w' \<and> (tree_room m w \<longrightarrow> rc = 0 \<or> (\<exists>k. op = Remove k \<and> entry_for (t_key_compare m) k (pairs T) = None)))
    \<and> (tree_spec (tm_conf m) op (pairs T) rc (pairs T') ds \<or> rc = - 1 \<and> T' = T \<and> ds = [])"
proof (cases op)
  case (Put k v)
  then have k: "k \<in> keys_of m" using legal by (simp add: tree_legal_def)
  from treemap_set_ok [OF rel k, of v] obtain rc m' w' T' where
    s: "treemap_set (Ptr m) (Ptr k) (Ptr v) w = Some (rc, Ptr m', w')" "no_fail w \<longrightarrow> no_fail w' \<and> (tree_room m w \<longrightarrow> rc = 0)"
    and res: "rc = 0 \<and> pairs T' = upsert (t_key_compare m) k (copied (t_value_copy m) v) (pairs T)
         \<and> tm_step m w T m' w' T' (case entry_for (t_key_compare m) k (pairs T) of None \<Rightarrow> [] | Some (j, u) \<Rightarrow> [u])
       \<or> rc = - 1 \<and> T' = T \<and> tm_step m w T m' w' T []" by (elim exE conjE) (rule that)
  have run: "tree_exec op m w = Some (rc, m', w')" using s(1) Put by (simp add: tree_exec_def)
  from res show ?thesis
  proof
    assume r: "rc = 0 \<and> pairs T' = upsert (t_key_compare m) k (copied (t_value_copy m) v) (pairs T)
         \<and> tm_step m w T m' w' T' (case entry_for (t_key_compare m) k (pairs T) of None \<Rightarrow> [] | Some (j, u) \<Rightarrow> [u])"
    show ?thesis
      using run r s(2) Put
      by (intro exI [of _ rc] exI [of _ m'] exI [of _ w'] exI [of _ T'] exI [of _ "replaced (t_key_compare m) k (pairs T)"])
        (simp add: tree_spec_def replaced_def)
  next
    assume r: "rc = - 1 \<and> T' = T \<and> tm_step m w T m' w' T []"
    show ?thesis using run r s(2) by (intro exI [of _ rc] exI [of _ m'] exI [of _ w'] exI [of _ T] exI [of _ "[]"]) simp
  qed
next
  case (Remove k)
  then have k: "k \<in> keys_of m" using legal by (simp add: tree_legal_def)
  from treemap_delete_ok [OF rel k] obtain rc m' w' T' where
    s: "treemap_delete (Ptr m) (Ptr k) w = Some (rc, Ptr m', w')" "no_fail w' = no_fail w"
    and res: "case entry_for (t_key_compare m) k (pairs T) of
         None \<Rightarrow> rc = - 1 \<and> m' = m \<and> w' = w \<and> T' = T
       | Some (j, u) \<Rightarrow> rc = 0 \<and> pairs T' = omit (t_key_compare m) k (pairs T) \<and> tm_step m w T m' w' T' [u]"
    by (elim exE conjE) (rule that)
  have run: "tree_exec op m w = Some (rc, m', w')" using s(1) Remove by (simp add: tree_exec_def)
  show ?thesis
  proof (cases "entry_for (t_key_compare m) k (pairs T)")
    case None
    then have r: "rc = - 1" "m' = m" "w' = w" "T' = T" using res by simp_all
    have "tm_step m w T m w T []" by (rule tm_step_refused [OF rel]) (use tree_relD(1) [OF rel] in simp_all)
    then show ?thesis
      using run r None Remove by (intro exI [of _ rc] exI [of _ m'] exI [of _ w'] exI [of _ T] exI [of _ "[]"]) simp
  next
    case (Some e)
    then obtain j u where e: "e = (j, u)" by (cases e)
    show ?thesis
      using run res s(2) Some e Remove
      by (intro exI [of _ rc] exI [of _ m'] exI [of _ w'] exI [of _ T'] exI [of _ "[u]"]) (simp add: tree_spec_def replaced_def)
  qed
next
  case Wipe
  from treemap_clear_ok [OF rel] obtain m' w' where
    c: "treemap_clear (Ptr m) w = Some (Ptr m', w')" "tm_step m w T m' w' Tip (postorder T)" "fresh w' = fresh w"
    "no_fail w' = no_fail w" "tm_own m' = 0" by (elim exE conjE) (rule that)
  then show ?thesis
    using Wipe mset_postorder [of T]
    by (intro exI [of _ 0] exI [of _ m'] exI [of _ w'] exI [of _ Tip] exI [of _ "postorder T"]) (simp add: tree_exec_def tree_spec_def)
next
  case (Reserve n)
  then show ?thesis using legal by (simp add: tree_legal_def)
qed

interpretation treem: spec_machine tree_exec tree_spec tree_legal tree_holds tm_conf tm_destroys
  "\<lambda>m w. tm_own m"
  "\<lambda>ps. mset (map snd ps)" "\<lambda>cf. map_stores (tm_copies cf)"
proof (unfold_locales, goal_cases)
  case (1 m w ps op)
  then obtain T where T: "tree_rel m w T" "pairs T = ps" by (auto simp: tree_holds_def)
  from tree_exec_ok [OF T(1) 1(2)] obtain rc m' w' T' ds where
    e: "tree_exec op m w = Some (rc, m', w')" "tm_step m w T m' w' T' ds"
    "tree_spec (tm_conf m) op (pairs T) rc (pairs T') ds \<or> rc = - 1 \<and> T' = T \<and> ds = []" by (elim exE conjE) (rule that)
  note D = tm_stepD [OF e(2)]
  have "(\<exists>ps' ds. tree_spec (tm_conf m) op ps rc ps' ds \<and> tree_holds m' w' ps'
      \<and> destroyed w' = destroyed w @ log_if (tm_destroys (tm_conf m)) ds)
    \<or> rc = - 1 \<and> tree_holds m' w' ps \<and> destroyed w' = destroyed w"
    using e(3) D(2,6) T(2) unfolding tree_holds_def by auto
  then show ?case using e(1) D(1,7) by (intro exI [of _ rc] exI [of _ m'] exI [of _ w'] conjI)
next
  case (2 cf op ps rc ps' ds)
  then show ?case
    by (auto simp: tree_spec_def map_stores_def upsert_values omit_values simp del: mset_map split: map_op.splits)
qed

section \<open>The machine of a finite map\<close>

text \<open>A comparison function that gives 0 on equal keys only.\<close>

definition tm_strict :: "'v tm_conf \<Rightarrow> bool" where
  "tm_strict cf \<longleftrightarrow> (\<forall>a b. conf_key_ok cf a \<longrightarrow> conf_key_ok cf b \<longrightarrow> conf_cmp cf a b = 0 \<longrightarrow> a = b)"

definition strict_on :: "(cell \<Rightarrow> cell \<Rightarrow> int) \<Rightarrow> cell set \<Rightarrow> bool" where
  "strict_on cmp K \<longleftrightarrow> orders cmp K \<and> (\<forall>a \<in> K. \<forall>b \<in> K. cmp a b = 0 \<longrightarrow> a = b)"

lemma strict_zero:
  assumes "strict_on cmp K" "a \<in> K" "b \<in> K"
  shows "cmp a b = 0 \<longleftrightarrow> a = b"
proof
  assume ab: "a = b"
  have "cmp a a < 0 \<longleftrightarrow> 0 < cmp a a" using orders_sym(1) [of cmp K a a] assms(1,2) unfolding strict_on_def by blast
  then show "cmp a b = 0" using ab by (cases "cmp a b < 0") auto
qed (use assms in \<open>auto simp: strict_on_def\<close>)

lemma strict_not_there:
  assumes s: "strict_on cmp K" and k: "k \<in> K" and sub: "fst ` set ((j, u) # ps) \<subseteq> K" and ord: "ordered cmp ((j, u) # ps)"
    and le: "0 \<le> cmp j k"
  shows "map_of ps k = None"
proof (rule ccontr)
  assume "map_of ps k \<noteq> None"
  then obtain v where "(k, v) \<in> set ps" by (auto dest: map_of_SomeD)
  then have "cmp j k < 0" using ord by (auto simp: ordered_Cons)
  then show False using le by simp
qed

lemma strict_entries:
  assumes s: "strict_on cmp K" and k: "k \<in> K"
  shows "fst ` set ps \<subseteq> K \<Longrightarrow> ordered cmp ps \<Longrightarrow> map_of (upsert cmp k v ps) = (map_of ps)(k \<mapsto> v)
    \<and> map_of (omit cmp k ps) = (map_of ps)(k := None)
    \<and> replaced cmp k ps = (case map_of ps k of None \<Rightarrow> [] | Some u \<Rightarrow> [u])"
proof (induction ps)
  case (Cons p ps)
  obtain j u where p: "p = (j, u)" by (cases p)
  have j: "j \<in> K" using Cons.prems(1) p by simp
  note z = strict_zero [OF s j k] and rest = strict_not_there [OF s k Cons.prems [unfolded p]]
  have ord: "ordered cmp ps" using Cons.prems(2) by (simp add: ordered_Cons)
  consider "cmp j k < 0" "j \<noteq> k" | "cmp j k = 0" "j = k" "map_of ps k = None" | "0 < cmp j k" "j \<noteq> k" "map_of ps k = None"
    using z rest by (metis less_irrefl linorder_cases order.strict_implies_order order_refl)
  then show ?case
    by cases (use Cons ord p in \<open>auto simp: replaced_def fun_eq_iff\<close>)
qed (simp_all add: replaced_def)

lemma ordered_distinct:
  assumes "orders cmp K"
  shows "fst ` set ps \<subseteq> K \<Longrightarrow> ordered cmp ps \<Longrightarrow> distinct (map fst ps)"
proof (induction ps)
  case (Cons p ps)
  have "fst p \<notin> fst ` set ps"
  proof
    assume "fst p \<in> fst ` set ps"
    then obtain q where "q \<in> set ps" "fst q = fst p" by auto
    then have "cmp (fst p) (fst p) < 0" using Cons.prems(2) by (force simp: ordered_Cons)
    then show False using orders_sym(1) [OF assms, of "fst p" "fst p"] Cons.prems(1) by simp
  qed
  then show ?case using Cons by (simp add: ordered_Cons)
qed simp

definition tree_map :: "'v treemap \<Rightarrow> 'v tworld \<Rightarrow> (cell \<rightharpoonup> 'v) \<Rightarrow> bool" where
  "tree_map m w M \<longleftrightarrow> tm_strict (tm_conf m) \<and> (\<exists>T. tree_rel m w T \<and> map_of (pairs T) = M)"

lemma tm_strict_on: "tree_rel m w T \<Longrightarrow> tm_strict (tm_conf m) \<Longrightarrow> strict_on (t_key_compare m) (keys_of m)"
  using tree_relD(10) by (auto simp: tm_strict_def strict_on_def)

lemma tree_spec_map:
  assumes rel: "tree_rel m w T" and st: "tm_strict (tm_conf m)" and legal: "tree_legal (tm_conf m) op"
    and spec: "tree_spec (tm_conf m) op (pairs T) rc ps' ds"
  shows "map_spec (t_value_copy m) op (map_of (pairs T)) rc (map_of ps') ds"
proof -
  note R = tree_relD [OF rel]
  note S = strict_entries [OF tm_strict_on [OF rel st] _ R(8,9)]
  show ?thesis
  proof (cases op)
    case (Put k v)
    then have "k \<in> keys_of m" using legal by (simp add: tree_legal_def)
    from S [OF this, of "copied (t_value_copy m) v"] show ?thesis
      using spec Put by (simp add: map_spec_def tree_spec_def finite_dom_map_of)
  next
    case (Remove k)
    then have "k \<in> keys_of m" using legal by (simp add: tree_legal_def)
    from S [OF this] show ?thesis
      using spec Remove by (auto simp: map_spec_def tree_spec_def finite_dom_map_of split: option.splits)
  next
    case Wipe
    then show ?thesis
      using spec range_mset_map_of [OF ordered_distinct [OF R(10,8,9)]] by (simp add: map_spec_def tree_spec_def finite_dom_map_of)
  qed (use spec in \<open>simp add: tree_spec_def\<close>)
qed

interpretation treemm: spec_machine tree_exec "\<lambda>cf. map_spec (tm_copies cf)" tree_legal tree_map tm_conf tm_destroys
  "\<lambda>m w. tm_own m"
  range_mset "\<lambda>cf. map_stores (tm_copies cf)"
proof (unfold_locales, goal_cases)
  case (1 m w M op)
  then obtain T where T: "tm_strict (tm_conf m)" "tree_rel m w T" "map_of (pairs T) = M" by (auto simp: tree_map_def)
  from tree_exec_ok [OF T(2) 1(2)] obtain rc m' w' T' ds where
    e: "tree_exec op m w = Some (rc, m', w')" "tm_step m w T m' w' T' ds"
    "tree_spec (tm_conf m) op (pairs T) rc (pairs T') ds \<or> rc = - 1 \<and> T' = T \<and> ds = []" by (elim exE conjE) (rule that)
  note D = tm_stepD [OF e(2)]
  have "tree_map m' w' (map_of (pairs T'))" using D(1,2) T(1) by (auto simp: tree_map_def)
  then have "(\<exists>M' ds. map_spec (tm_copies (tm_conf m)) op M rc M' ds \<and> tree_map m' w' M'
      \<and> destroyed w' = destroyed w @ log_if (tm_destroys (tm_conf m)) ds)
    \<or> rc = - 1 \<and> tree_map m' w' M \<and> destroyed w' = destroyed w"
    using e(3) D(6) T(3) tree_spec_map [OF T(2,1) 1(2), of rc "pairs T'" ds] by auto
  then show ?case using e(1) D(1,7) by (intro exI [of _ rc] exI [of _ m'] exI [of _ w'] conjI)
qed (rule map_spec_conserves)

end
