(* ===== verification/Treemap_Props.thy ===== *)
theory Treemap_Props
  imports Treemap_Machine
begin

text \<open>
  Copies of a tree map, and the properties of \<open>src/treemap.c\<close>.
\<close>

section \<open>Copying\<close>

definition copied_pair :: "('v \<Rightarrow> 'v) option \<Rightarrow> nat \<times> cell \<times> 'v \<Rightarrow> cell \<times> 'v" where
  "copied_pair f e = (case e of (a, k, v) \<Rightarrow> (k, copied f v))"

lemma fst_copied [simp]: "fst (copied_pair f e) = fst (snd e)" "snd (copied_pair f e) = copied f (snd (snd e))"
  by (cases e; simp add: copied_pair_def)+

lemma upsert_last:
  assumes "all_less cmp ps k"
  shows "upsert cmp k v ps = ps @ [(k, v)]" "entry_for cmp k ps = None"
  using split_less(1) [OF assms, of v "[]"] split_less(3) [OF assms, of "[]"] by simp_all

text \<open>Copying an entry that is larger than all entries of the destination.\<close>

lemma copy_entry_ok:
  assumes src: "tree_rel s w S" and it: "items S = es @ (a, k, v) # fs" and dst: "tree_rel d w D" and conf: "tm_conf d = tm_conf s"
    and pd: "pairs D = map (copied_pair (t_value_copy s)) es" and dis: "spots D \<inter> spots S = {}"
  shows "\<exists>rc d' w' D'. treemap_set (Ptr d) (Ptr k) (Ptr v) w = Some (rc, Ptr d', w') \<and> tree_rel s w' S \<and> spots D' \<inter> spots S = {}
    \<and> (no_fail w \<longrightarrow> no_fail w' \<and> (tree_room d w \<longrightarrow> rc = 0))
    \<and> (rc = 0 \<and> pairs D' = map (copied_pair (t_value_copy s)) (es @ [(a, k, v)]) \<or> rc = - 1 \<and> D' = D) \<and> tm_step d w D d' w' D' []"
proof -
  note R = tree_relD [OF src] and cf = tm_conf_cong [OF conf]
  have pS: "pairs S = map snd es @ (k, v) # map snd fs" unfolding pairs_def it by simp
  have key: "k \<in> keys_of d" using R(8) pS cf(7) by simp
  have less: "all_less (t_key_compare d) (pairs D) k"
    using R(9) unfolding pS pd cf(4) by (auto simp: all_less_def ordered_append)
  note up = upsert_last [OF less]
  from treemap_set_ok [OF dst key, of v] obtain rc d' w' D' where
    s: "treemap_set (Ptr d) (Ptr k) (Ptr v) w = Some (rc, Ptr d', w')" "no_fail w \<longrightarrow> no_fail w' \<and> (tree_room d w \<longrightarrow> rc = 0)"
    and res: "rc = 0 \<and> pairs D' = upsert (t_key_compare d) k (copied (t_value_copy d) v) (pairs D)
         \<and> tm_step d w D d' w' D' (case entry_for (t_key_compare d) k (pairs D) of None \<Rightarrow> [] | Some (j, u) \<Rightarrow> [u])
       \<or> rc = - 1 \<and> D' = D \<and> tm_step d w D d' w' D []" by (elim exE conjE) (rule that)
  have st: "tm_step d w D d' w' D' []" using res up(2) by auto
  note T = tm_stepD [OF st]
  have "spots D' \<inter> spots S = {}" using T(3) dis tree_rel_below [OF src] by force
  moreover have "tree_rel s w' S" by (rule tree_rel_frame [OF src T(4) dis tree_relD(1) [OF T(2)]])
  moreover have "rc = 0 \<and> pairs D' = map (copied_pair (t_value_copy s)) (es @ [(a, k, v)]) \<or> rc = - 1 \<and> D' = D"
    using res unfolding up(1) unfolding pd cf(6) by (auto simp: copied_pair_def)
  ultimately show ?thesis using s st by blast
qed

lemma tree_copy_loop_ok:
  assumes "tree_rel s w S" and "items S = es @ fs" and "tree_rel d w D" and "tm_conf d = tm_conf s"
    and "pairs D = map (copied_pair (t_value_copy s)) es" and "spots D \<inter> spots S = {}"
  shows "\<exists>rc d' w' D' k ds. treemap_copy_loop (Ptr s) (head_ptr fs) (Ptr d) w = Some (rc, Ptr d', w') \<and> tm_conf d' = tm_conf d
    \<and> tree_rel s w' S \<and> tree_rel d' w' D' \<and> spots D' \<inter> spots S = {} \<and> live w' - tm_own d' = live w - tm_own d
    \<and> (no_fail w \<longrightarrow> 32 + t_key_size s + t_value_size s \<le> PTRDIFF_MAX \<longrightarrow> fresh w + length fs \<le> SIZE_MAX \<longrightarrow> rc = 0)
    \<and> destroyed w' = destroyed w @ log_if (t_value_destroy s) ds
    \<and> (rc = 0 \<and> ds = [] \<and> pairs D' = map (copied_pair (t_value_copy s)) (items S)
       \<or> rc = - 1 \<and> D' = Tip \<and> mset ds = mset (map (\<lambda>e. copied (t_value_copy s) (snd (snd e))) (take k (items S))))"
  using assms
proof (induction fs arbitrary: es d D w)
  case Nil
  then show ?case
    by (subst treemap_copy_loop.simps)
      (intro exI [of _ 0] exI [of _ d] exI [of _ w] exI [of _ D] exI [of _ 0] exI [of _ "[]"], simp)
next
  case (Cons e fs)
  obtain a k v where e: "e = (a, k, v)" by (cases e)
  have it: "items S = es @ (a, k, v) # fs" using Cons.prems(2) e by simp
  note rd = steps_ok(3,4) [OF Cons.prems(1) it]
  from copy_entry_ok [OF Cons.prems(1) it Cons.prems(3-6)] obtain rc d1 w1 D1 where
    s: "treemap_set (Ptr d) (Ptr k) (Ptr v) w = Some (rc, Ptr d1, w1)" "tree_rel s w1 S" "spots D1 \<inter> spots S = {}"
    "no_fail w \<longrightarrow> no_fail w1 \<and> (tree_room d w \<longrightarrow> rc = 0)"
    and res: "rc = 0 \<and> pairs D1 = map (copied_pair (t_value_copy s)) (es @ [(a, k, v)]) \<or> rc = - 1 \<and> D1 = D"
    and st: "tm_step d w D d1 w1 D1 []" by (elim exE conjE) (rule that)
  note T = tm_stepD [OF st] and cf = tm_conf_cong [OF Cons.prems(4)]
  show ?case
  proof (cases "rc = 0")
    case True
    then have pr: "pairs D1 = map (copied_pair (t_value_copy s)) (es @ [(a, k, v)])" using res by simp
    have it1: "items S = (es @ [(a, k, v)]) @ fs" using it by simp
    from Cons.IH [OF s(2) it1 T(2) trans [OF T(1) Cons.prems(4)] pr s(3)] obtain rc' d' w' D' j ds where
      r: "treemap_copy_loop (Ptr s) (head_ptr fs) (Ptr d1) w1 = Some (rc', Ptr d', w')" "tm_conf d' = tm_conf d1"
      "tree_rel s w' S" "tree_rel d' w' D'" "spots D' \<inter> spots S = {}" "live w' - tm_own d' = live w1 - tm_own d1"
      "no_fail w1 \<longrightarrow> 32 + t_key_size s + t_value_size s \<le> PTRDIFF_MAX \<longrightarrow> fresh w1 + length fs \<le> SIZE_MAX \<longrightarrow> rc' = 0"
      "destroyed w' = destroyed w1 @ log_if (t_value_destroy s) ds"
      "rc' = 0 \<and> ds = [] \<and> pairs D' = map (copied_pair (t_value_copy s)) (items S)
       \<or> rc' = - 1 \<and> D' = Tip \<and> mset ds = mset (map (\<lambda>e. copied (t_value_copy s) (snd (snd e))) (take j (items S)))"
      by (elim exE conjE) (rule that)
    have run: "treemap_copy_loop (Ptr s) (head_ptr (e # fs)) (Ptr d) w = Some (rc', Ptr d', w')"
      using e rd s(1) True r(1) steps_ok(1) [OF s(2) it]
      by (subst treemap_copy_loop.simps) (simp add: treemap_node_key_const_def treemap_node_value_const_def treemap_key_slot_const_def
          treemap_value_slot_const_def treemap_next_const_def)
    have "no_fail w \<longrightarrow> 32 + t_key_size s + t_value_size s \<le> PTRDIFF_MAX \<longrightarrow> fresh w + length (e # fs) \<le> SIZE_MAX \<longrightarrow> rc' = 0"
      using r(7) s(4) T(5) by simp
    then show ?thesis
      using run r(2-6,8,9) T(1,6,7)
      by (intro exI [of _ rc'] exI [of _ d'] exI [of _ w'] exI [of _ D'] exI [of _ j] exI [of _ ds]) simp
  next
    case False
    with res have rc: "rc = - 1" "D1 = D" by simp_all
    have rel1: "tree_rel d1 w1 D" using T(2) rc by simp
    from treemap_clear_ok [OF rel1] obtain d2 w2 where
      c: "treemap_clear (Ptr d1) w1 = Some (Ptr d2, w2)" "tm_step d1 w1 D d2 w2 Tip (postorder D)" "fresh w2 = fresh w1"
      "no_fail w2 = no_fail w1" "tm_own d2 = 0" by (elim exE conjE) (rule that)
    note C = tm_stepD [OF c(2)] and cf1 = tm_conf_cong [OF T(1)]
    have run: "treemap_copy_loop (Ptr s) (head_ptr (e # fs)) (Ptr d) w = Some (- 1, Ptr d2, w2)"
      using e rd s(1) False c(1)
      by (subst treemap_copy_loop.simps) (simp add: treemap_node_key_const_def treemap_node_value_const_def treemap_key_slot_const_def
          treemap_value_slot_const_def)
    have src2: "tree_rel s w2 S" by (rule tree_rel_frame [OF s(2) C(4) Cons.prems(6) tree_relD(1) [OF C(2)]])
    have "mset (postorder D) = mset (map (\<lambda>e. copied (t_value_copy s) (snd (snd e))) (take (length es) (items S)))"
      unfolding mset_postorder Cons.prems(2,5) by (simp add: comp_def)
    moreover have "\<not> (no_fail w \<and> 32 + t_key_size s + t_value_size s \<le> PTRDIFF_MAX \<and> fresh w + length (e # fs) \<le> SIZE_MAX)"
      using s(4) False cf by (auto simp: tree_room_def)
    ultimately show ?thesis
      using run src2 C(1,2,6,7) T(1,6,7) cf cf1
      by (intro exI [of _ "- 1"] exI [of _ d2] exI [of _ w2] exI [of _ Tip] exI [of _ "length es"] exI [of _ "postorder D"]) auto
  qed
qed

lemma treemap_copy_ok:
  fixes s :: "'v treemap"
  assumes src: "tree_rel s w S" and dst: "tree_rel d w D" and dis: "spots D \<inter> spots S = {}"
  shows "\<exists>rc d' w' D' k ds. treemap_copy False (Ptr d) (Ptr s) w = Some (rc, Ptr d', w') \<and> tm_conf d' = tm_conf s
    \<and> tree_rel s w' S \<and> tree_rel d' w' D' \<and> spots D' \<inter> spots S = {} \<and> live w' - tm_own d' = live w - tm_own d
    \<and> (no_fail w \<longrightarrow> 32 + t_key_size s + t_value_size s \<le> PTRDIFF_MAX \<longrightarrow> fresh w + length (items S) \<le> SIZE_MAX \<longrightarrow> rc = 0)
    \<and> destroyed w' = destroyed w @ log_if (t_value_destroy d) (postorder D) @ log_if (t_value_destroy s) ds
    \<and> (rc = 0 \<and> ds = [] \<and> pairs D' = map (copied_pair (t_value_copy s)) (items S)
       \<or> rc = - 1 \<and> D' = Tip \<and> mset ds = mset (map (\<lambda>e. copied (t_value_copy s) (snd (snd e))) (take k (items S))))"
proof -
  note R = tree_relD [OF src]
  from treemap_clear_ok [OF dst] obtain d1 w1 where
    c: "treemap_clear (Ptr d) w = Some (Ptr d1, w1)" "tm_step d w D d1 w1 Tip (postorder D)" "fresh w1 = fresh w"
    "no_fail w1 = no_fail w" "tm_own d1 = 0" by (elim exE conjE) (rule that)
  note C = tm_stepD [OF c(2)]
  have src1: "tree_rel s w1 S" by (rule tree_rel_frame [OF src C(4) dis tree_relD(1) [OF C(2)]])
  from treemap_init_ok [OF R(7) [unfolded tm_conf_def], of d1] obtain d2 where
    i: "treemap_init (Ptr d1) (t_key_kind s) (t_key_size s) (t_value_size s) (Ptr (t_key_compare s)) (t_value_destroy s) (t_value_copy s) = (0, Ptr d2)"
    "tm_conf d2 = (t_key_kind s, t_key_size s, t_value_size s, t_key_compare s, t_value_destroy s, t_value_copy s)"
    "tm_own d2 = 0" "\<forall>w. store_ok w \<longrightarrow> tree_rel d2 w Tip"
    by (elim exE conjE) (rule that)
  have conf: "tm_conf d2 = tm_conf s" using i(2) by (simp add: tm_conf_def)
  have rel2: "tree_rel d2 w1 Tip" using i(4) tree_relD(1) [OF C(2)] by blast
  have none: "pairs (Tip :: 'v rtree) = map (copied_pair (t_value_copy s)) []" "spots (Tip :: 'v rtree) \<inter> spots S = {}"
    by simp_all
  from tree_copy_loop_ok [OF src1 append_Nil [symmetric] rel2 conf none] obtain rc d' w' D' k ds where
    r: "treemap_copy_loop (Ptr s) (head_ptr (items S)) (Ptr d2) w1 = Some (rc, Ptr d', w')" "tm_conf d' = tm_conf d2"
    "tree_rel s w' S" "tree_rel d' w' D'" "spots D' \<inter> spots S = {}" "live w' - tm_own d' = live w1 - tm_own d2"
    "no_fail w1 \<longrightarrow> 32 + t_key_size s + t_value_size s \<le> PTRDIFF_MAX \<longrightarrow> fresh w1 + length (items S) \<le> SIZE_MAX \<longrightarrow> rc = 0"
    "destroyed w' = destroyed w1 @ log_if (t_value_destroy s) ds"
    "rc = 0 \<and> ds = [] \<and> pairs D' = map (copied_pair (t_value_copy s)) (items S)
       \<or> rc = - 1 \<and> D' = Tip \<and> mset ds = mset (map (\<lambda>e. copied (t_value_copy s) (snd (snd e))) (take k (items S)))"
    by (elim exE conjE) (rule that)
  have run: "treemap_copy False (Ptr d) (Ptr s) w = Some (rc, Ptr d', w')"
    using c(1) i(1) r(1) ends_ok(2) [OF src1] by (simp add: treemap_copy_def treemap_destroy_eq)
  show ?thesis
    using run r(2-9) conf i(3) c(3-5) C(6,7)
    by (intro exI [of _ rc] exI [of _ d'] exI [of _ w'] exI [of _ D'] exI [of _ k] exI [of _ ds]) simp
qed

section \<open>Histories\<close>

lemma history_run:
  assumes "tm_legal (kind, ks, vs, cmp, d, f)" and "store_ok w" and "\<forall>op \<in> set ops. tree_legal (kind, ks, vs, cmp, d, f) op"
  shows "\<exists>m rcs m' w1 T ds. treemap_init (Ptr raw_treemap) kind ks vs (Ptr cmp) d f = (0, Ptr m)
    \<and> run tree_exec ops m w = Some (rcs, m', w1) \<and> tm_conf m' = (kind, ks, vs, cmp, d, f) \<and> tree_rel m' w1 T
    \<and> explains (tree_spec (kind, ks, vs, cmp, d, f)) ops rcs [] (pairs T) ds \<and> destroyed w1 = destroyed w @ log_if d ds
    \<and> live w1 = live w + tm_own m'"
proof -
  from treemap_init_ok [OF assms(1), of raw_treemap] obtain m where
    i: "treemap_init (Ptr raw_treemap) kind ks vs (Ptr cmp) d f = (0, Ptr m)" "tm_conf m = (kind, ks, vs, cmp, d, f)"
    "tm_own m = 0" "\<forall>w. store_ok w \<longrightarrow> tree_rel m w Tip" by (elim exE conjE) (rule that)
  have hold: "tree_holds m w []" unfolding tree_holds_def using i(4) assms(2) by (intro exI [of _ Tip]) simp
  have lg: "\<forall>op \<in> set ops. tree_legal (tm_conf m) op" using assms(3) i(2) by simp
  from treem.run_explained [OF hold lg] obtain rcs m' w1 ps ds where
    r: "run tree_exec ops m w = Some (rcs, m', w1)" "tm_conf m' = tm_conf m" "live w1 - tm_own m' = live w - tm_own m"
    "tree_holds m' w1 ps" "explains (tree_spec (tm_conf m)) ops rcs [] ps ds"
    "destroyed w1 = destroyed w @ log_if (tm_destroys (tm_conf m)) ds" by (elim exE conjE) (rule that)
  obtain T where T: "tree_rel m' w1 T" "pairs T = ps" using r(4) by (auto simp: tree_holds_def)
  show ?thesis
    using i(1,2,3) r(1,2,3,5,6) T
    by (intro exI [of _ m] exI [of _ rcs] exI [of _ m'] exI [of _ w1] exI [of _ T] exI [of _ ds]) simp
qed

text \<open>The exact results when nothing fails.\<close>

fun tree_ideal :: "'v tm_conf \<Rightarrow> (cell, 'v) map_op list \<Rightarrow> (cell \<times> 'v) list \<Rightarrow> int list \<times> (cell \<times> 'v) list" where
  "tree_ideal cf [] ps = ([], ps)"
| "tree_ideal cf (op # ops) ps =
     (let (rc, ps1) = (case op of
          Put k v \<Rightarrow> (0, upsert (conf_cmp cf) k (copied (tm_copies cf) v) ps)
        | Remove k \<Rightarrow> (if entry_for (conf_cmp cf) k ps = None then - 1 else 0, omit (conf_cmp cf) k ps)
        | Wipe \<Rightarrow> (0, [])
        | Reserve n \<Rightarrow> (- 1, ps));
       (rcs, ps2) = tree_ideal cf ops ps1
      in (rc # rcs, ps2))"

lemma entry_for_found: "entry_for cmp key ps = Some (j, u) \<Longrightarrow> cmp j key = 0 \<and> (j, u) \<in> set ps"
  by (induction cmp key ps rule: entry_for.induct) (auto split: if_splits)

lemma omit_absent: "entry_for cmp k ps = None \<Longrightarrow> omit cmp k ps = ps"
  by (induction cmp k ps rule: omit.induct) (auto split: if_splits)

lemma tree_run_exact:
  assumes "tree_rel m w T" and "\<forall>op \<in> set ops. tree_legal (tm_conf m) op" and "no_fail w"
    and "32 + t_key_size m + t_value_size m \<le> PTRDIFF_MAX" and "fresh w + length ops \<le> SIZE_MAX"
  shows "\<exists>m' w' T'. run tree_exec ops m w = Some (fst (tree_ideal (tm_conf m) ops (pairs T)), m', w')
    \<and> tm_conf m' = tm_conf m \<and> tree_rel m' w' T' \<and> pairs T' = snd (tree_ideal (tm_conf m) ops (pairs T))"
  using assms
proof (induction ops arbitrary: m w T)
  case (Cons op ops)
  have lg: "tree_legal (tm_conf m) op" "\<forall>op \<in> set ops. tree_legal (tm_conf m) op" using Cons.prems(2) by simp_all
  from tree_exec_ok [OF Cons.prems(1) lg(1)] obtain rc m1 w1 T1 ds where
    e: "tree_exec op m w = Some (rc, m1, w1)" and st: "tm_step m w T m1 w1 T1 ds"
    and nf: "no_fail w \<longrightarrow> no_fail w1 \<and> (tree_room m w \<longrightarrow> rc = 0 \<or> (\<exists>k. op = Remove k \<and> entry_for (t_key_compare m) k (pairs T) = None))"
    and sp: "tree_spec (tm_conf m) op (pairs T) rc (pairs T1) ds \<or> rc = - 1 \<and> T1 = T \<and> ds = []" by (elim exE conjE) (rule that)
  note D = tm_stepD [OF st] and cf = tm_conf_cong [OF tm_stepD(1) [OF st]]
  have "tree_room m w" using Cons.prems(4,5) by (simp add: tree_room_def)
  then have rc: "rc = 0 \<or> (\<exists>k. op = Remove k \<and> entry_for (t_key_compare m) k (pairs T) = None)" "no_fail w1"
    using nf Cons.prems(3) by simp_all
  from Cons.IH [OF D(2) _ rc(2), unfolded cf(2,3) D(1), OF lg(2) Cons.prems(4)] D(5) Cons.prems(5) obtain m' w' T' where
    r: "run tree_exec ops m1 w1 = Some (fst (tree_ideal (tm_conf m) ops (pairs T1)), m', w')" "tm_conf m' = tm_conf m"
    "tree_rel m' w' T'" "pairs T' = snd (tree_ideal (tm_conf m) ops (pairs T1))" by auto
  have "tree_ideal (tm_conf m) (op # ops) (pairs T) = (let (rcs, ps) = tree_ideal (tm_conf m) ops (pairs T1) in (rc # rcs, ps))"
  proof (cases op)
    case (Put k v)
    then show ?thesis using rc(1) sp by (auto simp: tree_spec_def)
  next
    case (Remove k)
    show ?thesis
    proof (cases "entry_for (t_key_compare m) k (pairs T) = None")
      case True
      then show ?thesis using Remove sp omit_absent [OF True] by (auto simp: tree_spec_def replaced_def)
    next
      case False
      then show ?thesis using Remove sp rc(1) by (auto simp: tree_spec_def)
    qed
  next
    case Wipe
    then show ?thesis using rc(1) sp by (auto simp: tree_spec_def)
  qed (use lg(1) in \<open>simp add: tree_legal_def\<close>)
  then show ?case using e r by (intro exI [of _ m'] exI [of _ w'] exI [of _ T']) (simp add: case_prod_unfold Let_def)
qed auto

section \<open>The cost of a search\<close>

text \<open>The search loop with a count of the nodes that it visits.\<close>

partial_function (option) find_cost :: "'v treemap \<Rightarrow> cell \<Rightarrow> nat ptr \<Rightarrow> 'v tworld \<Rightarrow> (nat ptr \<times> nat) option" where
  "find_cost m key node w =
     (if node = NULL then Some (NULL, 0)
      else do {
        n \<leftarrow> get_node node w;
        k \<leftarrow> key_at (treemap_key_slot_const m node) w;
        (q, c) \<leftarrow> (if t_key_compare m k key > 0 then find_cost m key (t_left n) w
          else if t_key_compare m k key < 0 then find_cost m key (t_right n) w
          else Some (node, 0));
        Some (q, Suc c) })"

lemma find_cost_ok:
  "holds_tree (cells_of w) up t \<Longrightarrow>
    \<exists>c. find_cost m key (root_ptr t) w = Some (root_ptr (fst (descend (t_key_compare m) key t g)), c) \<and> c \<le> depth t"
proof (induction t arbitrary: up g)
  case (Branch l a c k v r)
  have a: "get_node (Ptr a) w = Some (fork_node Lside (root_ptr l) (root_ptr r) up c k v)"
    "key_at (treemap_key_slot_const m (Ptr a)) w = Some k"
    using Branch.prems by (simp_all add: key_at_def treemap_key_slot_const_def)
  have "holds_tree (cells_of w) (Ptr a) l" "holds_tree (cells_of w) (Ptr a) r" using Branch.prems by simp_all
  from Branch.IH(1) [OF this(1), of "Step Lside a c k v r g"] Branch.IH(2) [OF this(2), of "Step Rside a c k v l g"]
  show ?case using a by (subst find_cost.simps) (auto simp: fork_node_def)
qed (subst find_cost.simps, simp)

section \<open>Walking\<close>

partial_function (option) walk_next :: "'v treemap ptr \<Rightarrow> nat ptr \<Rightarrow> 'v tworld \<Rightarrow> (cell \<times> 'v) list option" where
  "walk_next p q w =
     (if q = NULL then Some []
      else do {
        k \<leftarrow> key_at (treemap_node_key p q) w;
        x \<leftarrow> value_at (treemap_node_value p q) w;
        r \<leftarrow> treemap_next q w;
        rest \<leftarrow> walk_next p r w;
        Some ((k, x) # rest) })"

partial_function (option) walk_prev :: "'v treemap ptr \<Rightarrow> nat ptr \<Rightarrow> 'v tworld \<Rightarrow> (cell \<times> 'v) list option" where
  "walk_prev p q w =
     (if q = NULL then Some []
      else do {
        k \<leftarrow> key_at (treemap_node_key p q) w;
        x \<leftarrow> value_at (treemap_node_value p q) w;
        r \<leftarrow> treemap_prev q w;
        rest \<leftarrow> walk_prev p r w;
        Some ((k, x) # rest) })"

lemma walk_next_ok:
  assumes rel: "tree_rel m w T"
  shows "items T = es @ fs \<Longrightarrow> walk_next (Ptr m) (head_ptr fs) w = Some (map snd fs)"
proof (induction fs arbitrary: es)
  case (Cons e fs)
  obtain a k v where e: "e = (a, k, v)" by (cases e)
  have "items T = (es @ [e]) @ fs" using Cons.prems by simp
  from Cons.IH [OF this] show ?case
    using steps_ok [OF rel Cons.prems [unfolded e]] e
    by (subst walk_next.simps) (simp add: treemap_node_key_def treemap_node_value_def treemap_key_slot_def treemap_value_slot_def)
qed (subst walk_next.simps, simp)

lemma walk_prev_ok:
  assumes rel: "tree_rel m w T"
  shows "items T = es @ fs \<Longrightarrow> walk_prev (Ptr m) (last_ptr es) w = Some (map snd (rev es))"
proof (induction es arbitrary: fs rule: rev_induct)
  case (snoc e es)
  obtain a k v where e: "e = (a, k, v)" by (cases e)
  have it: "items T = es @ (a, k, v) # fs" using snoc.prems e by simp
  from snoc.IH [OF it] show ?case
    using steps_ok [OF rel it] e
    by (subst walk_prev.simps) (simp add: treemap_node_key_def treemap_node_value_def treemap_key_slot_def treemap_value_slot_def)
qed (subst walk_prev.simps, simp)

section \<open>An example\<close>

text \<open>Scalar keys of one byte, in numerical order.\<close>

fun cell_code :: "cell \<Rightarrow> int" where
  "cell_code (Bytes bs) = foldr (\<lambda>b n. uint b + 256 * n) bs 0"
| "cell_code (Str s) = 0"

definition byte_cmp :: "cell \<Rightarrow> cell \<Rightarrow> int" where
  "byte_cmp a b = cell_code a - cell_code b"

lemma orders_byte_cmp: "orders byte_cmp K"
proof -
  have "sgn (byte_cmp a b) = - sgn (byte_cmp b a)" for a b
    unfolding byte_cmp_def by (metis minus_diff_eq sgn_minus)
  moreover have "byte_cmp a b \<le> 0 \<Longrightarrow> byte_cmp b c \<le> 0 \<Longrightarrow> byte_cmp a c \<le> 0" for a b c
    unfolding byte_cmp_def by linarith
  ultimately show ?thesis unfolding orders_def by blast
qed

abbreviation byte_conf :: "int tm_conf" where
  "byte_conf \<equiv> (KEY_SCALAR, 1, 4, byte_cmp, True, None)"

lemma byte_conf_legal: "tm_legal byte_conf"
  by (simp add: tm_legal_def orders_byte_cmp SIZE_MAX_def)

lemma byte_conf_strict: "tm_strict byte_conf"
  by (auto simp: tm_strict_def key_ok_def byte_cmp_def length_Suc_conv word_uint_eq_iff split: cell.splits)

definition tree_example_ops :: "(cell, int) map_op list" where
  "tree_example_ops = [Put (Bytes [5]) 50, Put (Bytes [3]) 30, Put (Bytes [9]) 90, Put (Bytes [1]) 10, Put (Bytes [3]) 31,
     Remove (Bytes [5]), Remove (Bytes [7])]"

lemma tree_example_legal: "\<forall>op \<in> set tree_example_ops. tree_legal byte_conf op"
  by (simp add: tree_example_ops_def tree_legal_def key_ok_def)

definition example_tree :: "int rtree" where
  "example_tree = Branch (Branch Tip 1 TREEMAP_RED (Bytes [3]) 30 Tip) 0 TREEMAP_BLACK (Bytes [5]) 50 Tip"

definition example_treemap :: "nat ptr \<Rightarrow> size_t \<Rightarrow> int treemap" where
  "example_treemap r n = \<lparr>t_size = n, t_key_size = 1, t_value_size = 4, t_key_kind = KEY_SCALAR, t_key_compare = byte_cmp,
     t_value_destroy = True, t_value_copy = None, t_root = r\<rparr>"

definition example_tree_world :: "int tworld" where
  "example_tree_world = world.extend (script [True, True, False] []) \<lparr>cells = nodes NULL example_tree, next_cell = 2\<rparr>"

lemma example_treemap_rel: "tree_rel (example_treemap (Ptr 0) 2) example_tree_world example_tree"
proof -
  have c: "cells_of example_tree_world = Map.empty ++ nodes NULL example_tree" "fresh example_tree_world = 2"
    by (simp_all add: example_tree_world_def cells_of_def fresh_def world.defs store.defs)
  have ap: "apart example_tree" by (simp add: example_tree_def apart_Branch)
  have "nodes NULL example_tree a \<noteq> None \<longleftrightarrow> a < 2" for a
    unfolding nodes_None by (auto simp: example_tree_def)
  then have "store_ok example_tree_world" using c by (simp add: store_ok_def SIZE_MAX_def)
  moreover have "holds_tree (cells_of example_tree_world) NULL example_tree" unfolding c(1) by (rule holds_install [OF ap])
  ultimately show ?thesis
    using ap byte_conf_legal
    by (simp add: tree_rel_def example_treemap_def tm_conf_def keys_of_def key_ok_def)
      (simp add: example_tree_def rb_tree_def ordered_def byte_cmp_def)
qed

section \<open>Properties\<close>

text \<open>C13: every history of \<open>treemap_set\<close>, \<open>treemap_delete\<close> and \<open>treemap_clear\<close> on a freshly
  initialised map runs to its end without following a dangling pointer, under any failures of the
  allocator and the copy callback, through all rotations and recolourings. It behaves like a list of
  entries sorted by the comparison function: each call has its effect, or returns \<open>- 1\<close> and
  leaves the entries alone. Keys that compare equal are one entry, which keeps its first key. Lookups
  and the size then read that list. Destroying the map releases the rest: with a destroy callback
  every value that a successful call stored has been destroyed exactly once, and no node, no copied
  string and no other block stays allocated.\<close>

theorem treemap_history:
  assumes legal: "tm_legal (kind, ks, vs, cmp, d, f)" and w: "store_ok w" and ops: "\<forall>op \<in> set ops. tree_legal (kind, ks, vs, cmp, d, f) op"
  shows "\<exists>m rcs m' w1 ps ds zs p w2. treemap_init (Ptr raw_treemap) kind ks vs (Ptr cmp) d f = (0, Ptr m)
    \<and> run tree_exec ops m w = Some (rcs, m', w1) \<and> explains (tree_spec (kind, ks, vs, cmp, d, f)) ops rcs [] ps ds
    \<and> destroyed w1 = destroyed w @ log_if d ds \<and> ordered cmp ps \<and> t_size m' = length ps
    \<and> (\<forall>k. key_ok kind ks k \<longrightarrow>
         treemap_contains (Ptr m') (Ptr k) w1 = Some (if entry_for cmp k ps = None then 0 else 1)
         \<and> (\<exists>q. treemap_at (Ptr m') (Ptr k) w1 = Some q
              \<and> (case entry_for cmp k ps of None \<Rightarrow> q = NULL | Some (j, v) \<Rightarrow> value_at q w1 = Some v)))
    \<and> treemap_destroy (Ptr m') w1 = Some (p, w2) \<and> destroyed w2 = destroyed w @ log_if d (ds @ zs)
    \<and> mset zs = mset (map snd ps) \<and> mset (ds @ zs) = stored (map_stores f) ops rcs \<and> live w2 = live w"
proof -
  from history_run [OF assms] obtain m rcs m' w1 T ds where
    h: "treemap_init (Ptr raw_treemap) kind ks vs (Ptr cmp) d f = (0, Ptr m)" "run tree_exec ops m w = Some (rcs, m', w1)"
    "tm_conf m' = (kind, ks, vs, cmp, d, f)" "tree_rel m' w1 T"
    "explains (tree_spec (kind, ks, vs, cmp, d, f)) ops rcs [] (pairs T) ds" "destroyed w1 = destroyed w @ log_if d ds"
    "live w1 = live w + tm_own m'" by (elim exE conjE) (rule that)
  have cf: "t_key_compare m' = cmp" "t_value_destroy m' = d" "keys_of m' = {k. key_ok kind ks k}"
    using h(3) by (simp_all add: tm_conf_def keys_of_def)
  note R = tree_relD [OF h(4)]
  from treemap_clear_ok [OF h(4)] obtain m2 w2 where
    c: "treemap_clear (Ptr m') w1 = Some (Ptr m2, w2)" "tm_step m' w1 T m2 w2 Tip (postorder T)" "fresh w2 = fresh w1"
    "no_fail w2 = no_fail w1" "tm_own m2 = 0" by (elim exE conjE) (rule that)
  note C = tm_stepD [OF c(2)]
  have reads: "treemap_contains (Ptr m') (Ptr k) w1 = Some (if entry_for cmp k (pairs T) = None then 0 else 1)
      \<and> (\<exists>q. treemap_at (Ptr m') (Ptr k) w1 = Some q
          \<and> (case entry_for cmp k (pairs T) of None \<Rightarrow> q = NULL | Some (j, v) \<Rightarrow> value_at q w1 = Some v))" if "key_ok kind ks k" for k
  proof -
    have k: "k \<in> keys_of m'" using that cf(3) by simp
    from treemap_at_ok [OF h(4) k] treemap_contains_ok [OF h(4) k] show ?thesis
      unfolding cf(1) by (fastforce split: option.splits)
  qed
  have st: "mset (ds @ postorder T) = stored (map_stores f) ops rcs"
    using treem.explains_conserves [OF h(5)] mset_postorder [of T] by (simp add: ac_simps)
  show ?thesis
    using h(1,2,5-7) R(6,9) cf(1,2) reads c(1,5) C(6,7) st mset_postorder [of T]
    by (intro exI [of _ m] exI [of _ rcs] exI [of _ m'] exI [of _ w1] exI [of _ "pairs T"] exI [of _ ds] exI [of _ "postorder T"]
        exI [of _ "Ptr m2"] exI [of _ w2]) (simp add: treemap_destroy_eq)
qed

theorem treemap_history_witness:
  "\<exists>m rcs m' w1 ps ds zs p w2. treemap_init (Ptr raw_treemap) KEY_SCALAR 1 4 (Ptr byte_cmp) True None = (0, Ptr m)
    \<and> run tree_exec tree_example_ops m (lscript [True, True, True, False] []) = Some (rcs, m', w1)
    \<and> explains (tree_spec byte_conf) tree_example_ops rcs [] ps ds
    \<and> destroyed w1 = destroyed (lscript [True, True, True, False] [] :: int tworld) @ log_if True ds
    \<and> ordered byte_cmp ps \<and> t_size m' = length ps
    \<and> (\<forall>k. key_ok KEY_SCALAR 1 k \<longrightarrow>
         treemap_contains (Ptr m') (Ptr k) w1 = Some (if entry_for byte_cmp k ps = None then 0 else 1)
         \<and> (\<exists>q. treemap_at (Ptr m') (Ptr k) w1 = Some q
              \<and> (case entry_for byte_cmp k ps of None \<Rightarrow> q = NULL | Some (j, v) \<Rightarrow> value_at q w1 = Some v)))
    \<and> treemap_destroy (Ptr m') w1 = Some (p, w2)
    \<and> destroyed w2 = destroyed (lscript [True, True, True, False] [] :: int tworld) @ log_if True (ds @ zs)
    \<and> mset zs = mset (map snd ps) \<and> mset (ds @ zs) = stored (map_stores None) tree_example_ops rcs
    \<and> live w2 = live (lscript [True, True, True, False] [] :: int tworld)"
  by (rule treemap_history [OF byte_conf_legal lscript_ok tree_example_legal])

text \<open>C15: when no allocation and no copy fails, every call of a history makes progress: \<open>treemap_set\<close>
  and \<open>treemap_clear\<close> return \<open>0\<close>, \<open>treemap_delete\<close> returns \<open>0\<close> when an entry compares equal
  to the key and \<open>- 1\<close> otherwise, and a walk over the final map yields exactly the expected
  entries, in order.\<close>

theorem treemap_exact:
  assumes legal: "tm_legal (kind, ks, vs, cmp, d, f)" and ops: "\<forall>op \<in> set ops. tree_legal (kind, ks, vs, cmp, d, f) op"
    and w: "store_ok w" "no_fail w" and room: "32 + ks + vs \<le> PTRDIFF_MAX" "fresh w + length ops \<le> SIZE_MAX"
  shows "\<exists>m m' w' q. treemap_init (Ptr raw_treemap) kind ks vs (Ptr cmp) d f = (0, Ptr m)
    \<and> run tree_exec ops m w = Some (fst (tree_ideal (kind, ks, vs, cmp, d, f) ops []), m', w')
    \<and> treemap_first (Ptr m') w' = Some q
    \<and> walk_next (Ptr m') q w' = Some (snd (tree_ideal (kind, ks, vs, cmp, d, f) ops []))"
proof -
  from treemap_init_ok [OF legal, of raw_treemap] obtain m where
    i: "treemap_init (Ptr raw_treemap) kind ks vs (Ptr cmp) d f = (0, Ptr m)" "tm_conf m = (kind, ks, vs, cmp, d, f)"
    "tm_own m = 0" "\<forall>w. store_ok w \<longrightarrow> tree_rel m w Tip" by (elim exE conjE) (rule that)
  have rel: "tree_rel m w Tip" using i(4) w(1) by blast
  have ops': "\<forall>op \<in> set ops. tree_legal (tm_conf m) op" "32 + t_key_size m + t_value_size m \<le> PTRDIFF_MAX"
    using ops room(1) i(2) by (simp_all add: tm_conf_def)
  from tree_run_exact [OF rel ops'(1) w(2) ops'(2) room(2)] obtain m' w' T where
    r: "run tree_exec ops m w = Some (fst (tree_ideal (tm_conf m) ops (pairs (Tip :: 'a rtree))), m', w')" "tm_conf m' = tm_conf m"
    "tree_rel m' w' T" "pairs T = snd (tree_ideal (tm_conf m) ops (pairs (Tip :: 'a rtree)))" by (elim exE conjE) (rule that)
  have "walk_next (Ptr m') (head_ptr (items T)) w' = Some (pairs T)"
    using walk_next_ok [OF r(3) append_Nil [symmetric]] by (simp add: pairs_def)
  then show ?thesis using i(1,2) r ends_ok(1) [OF r(3)]
    by (intro exI [of _ m] exI [of _ m'] exI [of _ w'] exI [of _ "head_ptr (items T)"]) simp
qed

theorem treemap_exact_witness:
  "\<exists>m m' w' q. treemap_init (Ptr raw_treemap) KEY_SCALAR 1 4 (Ptr byte_cmp) True None = (0, Ptr m)
    \<and> run tree_exec tree_example_ops m (lscript [] []) = Some (fst (tree_ideal byte_conf tree_example_ops []), m', w')
    \<and> treemap_first (Ptr m') w' = Some q
    \<and> walk_next (Ptr m') q w' = Some (snd (tree_ideal byte_conf tree_example_ops []))"
  by (rule treemap_exact [OF byte_conf_legal tree_example_legal lscript_ok])
    (simp_all add: no_fail_def lscript_def script_def world.defs store.defs fresh_def PTRDIFF_MAX_def SIZE_MAX_def tree_example_ops_def)

text \<open>C14: after any history the tree is balanced: the search for any key, present or not, visits
  \<open>c\<close> nodes with \<open>2 ^ c \<le> (n + 1) ^ 2\<close>, that is at most \<open>2 * log\<^sub>2 (n + 1)\<close> of the \<open>n\<close>
  nodes, whatever insertions, deletions and failures came before.\<close>

theorem treemap_search_bound:
  assumes legal: "tm_legal (kind, ks, vs, cmp, d, f)" and w: "store_ok w" and ops: "\<forall>op \<in> set ops. tree_legal (kind, ks, vs, cmp, d, f) op"
  shows "\<exists>m rcs m' w1. treemap_init (Ptr raw_treemap) kind ks vs (Ptr cmp) d f = (0, Ptr m)
    \<and> run tree_exec ops m w = Some (rcs, m', w1)
    \<and> (\<forall>key. \<exists>q c. treemap_find_node m' key w1 = Some q \<and> find_cost m' key (t_root m') w1 = Some (q, c)
         \<and> 2 ^ c \<le> (t_size m' + 1) ^ 2)"
proof -
  from history_run [OF assms] obtain m rcs m' w1 T ds where
    h: "treemap_init (Ptr raw_treemap) kind ks vs (Ptr cmp) d f = (0, Ptr m)" "run tree_exec ops m w = Some (rcs, m', w1)"
    "tm_conf m' = (kind, ks, vs, cmp, d, f)" "tree_rel m' w1 T"
    "explains (tree_spec (kind, ks, vs, cmp, d, f)) ops rcs [] (pairs T) ds" "destroyed w1 = destroyed w @ log_if d ds"
    "live w1 = live w + tm_own m'" by (elim exE conjE) (rule that)
  note R = tree_relD [OF h(4)]
  have "\<exists>q c. treemap_find_node m' key w1 = Some q \<and> find_cost m' key (t_root m') w1 = Some (q, c) \<and> 2 ^ c \<le> (t_size m' + 1) ^ 2" for key
  proof -
    from find_cost_ok [OF R(2), of m' key Top] obtain c where
      c: "find_cost m' key (root_ptr T) w1 = Some (root_ptr (fst (descend (t_key_compare m') key T Top)), c)" "c \<le> depth T"
      by (elim exE conjE) (rule that)
    have "(2 :: nat) ^ c \<le> 2 ^ depth T" by (rule power_increasing [OF c(2)]) simp
    also have "\<dots> \<le> (t_size m' + 1) ^ 2" using rb_tree_depth [OF R(4)] R(6) by simp
    finally show ?thesis using c(1) R(5) find_node_ok [OF h(4), of key] by simp
  qed
  then show ?thesis using h(1,2) by blast
qed

theorem treemap_search_bound_witness:
  "\<exists>m rcs m' w1. treemap_init (Ptr raw_treemap) KEY_SCALAR 1 4 (Ptr byte_cmp) True None = (0, Ptr m)
    \<and> run tree_exec tree_example_ops m (lscript [True, True, True, False] []) = Some (rcs, m', w1)
    \<and> (\<forall>key. \<exists>q c. treemap_find_node m' key w1 = Some q \<and> find_cost m' key (t_root m') w1 = Some (q, c)
         \<and> 2 ^ c \<le> (t_size m' + 1) ^ 2)"
  by (rule treemap_search_bound [OF byte_conf_legal lscript_ok tree_example_legal])

text \<open>C16: iteration and bounds: walking with \<open>treemap_next\<close> from \<open>treemap_first\<close> ends and yields
  all entries in ascending order, walking with \<open>treemap_prev\<close> from \<open>treemap_last\<close> yields them in
  descending order, \<open>treemap_lower_bound\<close> is where the entries begin that are not less than the key
  and \<open>treemap_upper_bound\<close> where those begin that are greater.\<close>

theorem treemap_iterates:
  assumes rel: "tree_rel m w T" and key: "key \<in> keys_of m"
  shows "\<exists>first last lower upper. treemap_first (Ptr m) w = Some first \<and> treemap_last (Ptr m) w = Some last
    \<and> treemap_lower_bound (Ptr m) (Ptr key) w = Some lower \<and> treemap_upper_bound (Ptr m) (Ptr key) w = Some upper
    \<and> walk_next (Ptr m) first w = Some (pairs T) \<and> walk_prev (Ptr m) last w = Some (rev (pairs T))
    \<and> walk_next (Ptr m) lower w = Some (dropWhile (\<lambda>(k, v). t_key_compare m k key < 0) (pairs T))
    \<and> walk_next (Ptr m) upper w = Some (dropWhile (\<lambda>(k, v). t_key_compare m k key \<le> 0) (pairs T))"
proof -
  have walk: "walk_next (Ptr m) (head_ptr (dropWhile P (items T))) w = Some (map snd (dropWhile P (items T)))" for P
    using walk_next_ok [OF rel takeWhile_dropWhile_id [symmetric]] .
  have sn: "map snd (dropWhile (\<lambda>(a, k, v). Q k) es) = dropWhile (\<lambda>(k, v). Q k) (map snd es)" for Q and es :: "(nat \<times> cell \<times> 'a) list"
    by (simp add: dropWhile_map comp_def case_prod_unfold)
  have le: "below (t_key_compare m) key True k \<longleftrightarrow> t_key_compare m k key \<le> 0" "below (t_key_compare m) key False k \<longleftrightarrow> t_key_compare m k key < 0" for k
    by (auto simp: below_def)
  note b = bounds_ok [OF rel key, unfolded le]
  have "walk_next (Ptr m) (head_ptr (items T)) w = Some (pairs T)" "walk_prev (Ptr m) (last_ptr (items T)) w = Some (rev (pairs T))"
    using walk_next_ok [OF rel append_Nil [symmetric]] walk_prev_ok [OF rel append_Nil2 [symmetric]] by (simp_all add: pairs_def rev_map)
  then show ?thesis
    using ends_ok [OF rel] b [of False] b [of True] walk [of "\<lambda>(a, k, v). t_key_compare m k key < 0"]
      walk [of "\<lambda>(a, k, v). t_key_compare m k key \<le> 0"]
    by (simp add: treemap_lower_bound_def treemap_upper_bound_def le sn pairs_def)
qed

theorem treemap_iterates_witness:
  "\<exists>first last lower upper. treemap_first (Ptr (example_treemap (Ptr 0) 2)) example_tree_world = Some first
    \<and> treemap_last (Ptr (example_treemap (Ptr 0) 2)) example_tree_world = Some last
    \<and> treemap_lower_bound (Ptr (example_treemap (Ptr 0) 2)) (Ptr (Bytes [4])) example_tree_world = Some lower
    \<and> treemap_upper_bound (Ptr (example_treemap (Ptr 0) 2)) (Ptr (Bytes [4])) example_tree_world = Some upper
    \<and> walk_next (Ptr (example_treemap (Ptr 0) 2)) first example_tree_world = Some (pairs example_tree)
    \<and> walk_prev (Ptr (example_treemap (Ptr 0) 2)) last example_tree_world = Some (rev (pairs example_tree))
    \<and> walk_next (Ptr (example_treemap (Ptr 0) 2)) lower example_tree_world
        = Some (dropWhile (\<lambda>(k, v). t_key_compare (example_treemap (Ptr 0) 2) k (Bytes [4]) < 0) (pairs example_tree))
    \<and> walk_next (Ptr (example_treemap (Ptr 0) 2)) upper example_tree_world
        = Some (dropWhile (\<lambda>(k, v). t_key_compare (example_treemap (Ptr 0) 2) k (Bytes [4]) \<le> 0) (pairs example_tree))"
  by (rule treemap_iterates [OF example_treemap_rel]) (simp add: keys_of_def example_treemap_def key_ok_def)

text \<open>What a call does with the entry of a key that is in the map: only \<open>treemap_delete\<close> of that key and
  \<open>treemap_clear\<close> remove it, and they never fail for it; only a successful \<open>treemap_set\<close> under that
  key changes its value.\<close>

definition entry_after :: "('v \<Rightarrow> 'v) option \<Rightarrow> (cell, 'v) map_op \<Rightarrow> cell \<Rightarrow> int \<Rightarrow> 'v \<Rightarrow> 'v option" where
  "entry_after f op key rc u = (case op of
       Put k v \<Rightarrow> Some (if k = key \<and> rc = 0 then copied f v else u)
     | Remove k \<Rightarrow> if k = key then None else Some u
     | Wipe \<Rightarrow> None
     | Reserve n \<Rightarrow> Some u)"

lemma strict_entry_for:
  assumes "strict_on cmp K" "k \<in> K" "fst ` set ps \<subseteq> K" "ordered cmp ps"
  shows "map_option snd (entry_for cmp k ps) = map_of ps k"
proof -
  have "replaced cmp k ps = (case map_of ps k of None \<Rightarrow> [] | Some u \<Rightarrow> [u])"
    using strict_entries [OF assms] by blast
  then show ?thesis by (auto simp: replaced_def split: option.splits)
qed

lemma tree_exec_entry:
  assumes rel: "tree_rel m w T" and st: "tm_strict (tm_conf m)" and op: "tree_legal (tm_conf m) op" and key: "key \<in> keys_of m"
    and there: "map_of (pairs T) key = Some u"
  shows "\<exists>rc m' w' T' ds. tree_exec op m w = Some (rc, m', w') \<and> tm_step m w T m' w' T' ds
    \<and> map_of (pairs T') key = entry_after (t_value_copy m) op key rc u \<and> (map_of (pairs T') key = None \<longrightarrow> rc = 0)"
proof -
  note R = tree_relD [OF rel]
  note S = strict_entries [OF tm_strict_on [OF rel st] _ R(8,9)]
  from tree_exec_ok [OF rel op] obtain rc m' w' T' ds where
    e: "tree_exec op m w = Some (rc, m', w')" "tm_step m w T m' w' T' ds"
    and r: "tree_spec (tm_conf m) op (pairs T) rc (pairs T') ds \<or> rc = - 1 \<and> T' = T \<and> ds = []"
    by (elim exE conjE) (rule that)
  have "map_of (pairs T') key = entry_after (t_value_copy m) op key rc u \<and> (map_of (pairs T') key = None \<longrightarrow> rc = 0)"
  proof (cases op)
    case (Put k v)
    then have "k \<in> keys_of m" using op by (simp add: tree_legal_def)
    from S [OF this] show ?thesis using r there Put by (auto simp: tree_spec_def entry_after_def)
  next
    case (Remove k)
    then have k: "k \<in> keys_of m" using op by (simp add: tree_legal_def)
    have "rc = 0" if "k = key"
    proof -
      have "entry_for (t_key_compare m) key (pairs T) \<noteq> None"
        using strict_entry_for [OF tm_strict_on [OF rel st] key R(8,9)] there by auto
      with treemap_delete_ok [OF rel key] e(1) Remove that show ?thesis
        by (auto simp: tree_exec_def split: option.splits)
    qed
    with S [OF k] show ?thesis using r there Remove by (auto simp: tree_spec_def entry_after_def)
  next
    case Wipe
    then show ?thesis using r e(1) by (auto simp: tree_spec_def tree_exec_def entry_after_def)
  qed (use op in \<open>simp add: tree_legal_def\<close>)
  then show ?thesis
    using e by (intro exI [of _ rc] exI [of _ m'] exI [of _ w'] exI [of _ T'] exI [of _ ds]) simp
qed

text \<open>What \<open>treemap_at\<close> returns, when the comparison function distinguishes all keys.\<close>

lemma treemap_at_strict:
  assumes rel: "tree_rel m w T" and st: "tm_strict (tm_conf m)" and key: "key \<in> keys_of m"
  shows "\<exists>q. treemap_at (Ptr m) (Ptr key) w = Some q
    \<and> (case map_of (pairs T) key of None \<Rightarrow> q = NULL
       | Some u \<Rightarrow> \<exists>a. q = Ptr a \<and> (a, key, u) \<in> set (items T) \<and> value_at q w = Some u)"
proof -
  note R = tree_relD [OF rel]
  note S = strict_entry_for [OF tm_strict_on [OF rel st] key R(8,9)]
  obtain q where q: "treemap_at (Ptr m) (Ptr key) w = Some q"
    "case entry_for (t_key_compare m) key (pairs T) of None \<Rightarrow> q = NULL
       | Some (j, u) \<Rightarrow> \<exists>a. q = Ptr a \<and> (a, j, u) \<in> set (items T) \<and> value_at q w = Some u"
    using treemap_at_ok [OF rel key] by (elim exE conjE) (rule that)
  show ?thesis
  proof (cases "entry_for (t_key_compare m) key (pairs T)")
    case None
    then have "map_of (pairs T) key = None" using S by simp
    then show ?thesis using q None by simp
  next
    case (Some p)
    obtain j u where p: "p = (j, u)" by (cases p)
    have "t_key_compare m j key = 0" "(j, u) \<in> set (pairs T)" using entry_for_found [of _ _ _ j u] Some p by blast+
    moreover from this have "j \<in> keys_of m" using R(8) by auto
    ultimately have "j = key" using strict_zero [OF tm_strict_on [OF rel st] _ key] by simp
    moreover have "map_of (pairs T) key = Some u" using S Some p by simp
    ultimately show ?thesis using q Some p by simp
  qed
qed

text \<open>C17: the address of a value stays valid. When \<open>treemap_at\<close> has returned an address for a key and
  the comparison function distinguishes all keys, then after any other call, successful or not,
  \<open>treemap_at\<close> returns exactly the same address for that key, with the same value in it or, after a
  successful \<open>treemap_set\<close> under the same key, the new one; only after \<open>treemap_delete\<close> of that very key and
  after \<open>treemap_clear\<close>, which always succeed then, it returns \<open>NULL\<close>. So the relinking and the rotations of
  deletions and insertions under other keys neither move nor lose nor change the entry.\<close>

theorem treemap_stable:
  assumes rel: "tree_rel m w T" and st: "tm_strict (tm_conf m)" and op: "tree_legal (tm_conf m) op" and key: "key \<in> keys_of m"
    and at: "treemap_at (Ptr m) (Ptr key) w = Some (Ptr a)"
  shows "\<exists>rc m' w' q. tree_exec op m w = Some (rc, m', w') \<and> treemap_at (Ptr m') (Ptr key) w' = Some q
    \<and> (case op of
         Put k v \<Rightarrow> q = Ptr a \<and> value_at q w' = (if k = key \<and> rc = 0 then Some (copied (t_value_copy m) v) else value_at (Ptr a) w)
       | Remove k \<Rightarrow> if k = key then rc = 0 \<and> q = NULL else q = Ptr a \<and> value_at q w' = value_at (Ptr a) w
       | Wipe \<Rightarrow> rc = 0 \<and> q = NULL
       | Reserve n \<Rightarrow> False)"
proof -
  from treemap_at_strict [OF rel st key] at obtain u where
    u: "map_of (pairs T) key = Some u" "(a, key, u) \<in> set (items T)" "value_at (Ptr a) w = Some u"
    by (auto split: option.splits)
  from tree_exec_entry [OF rel st op key u(1)] obtain rc m' w' T' ds where
    e: "tree_exec op m w = Some (rc, m', w')" and s: "tm_step m w T m' w' T' ds"
    and after: "map_of (pairs T') key = entry_after (t_value_copy m) op key rc u" "map_of (pairs T') key = None \<longrightarrow> rc = 0"
    by (elim exE conjE) (rule that)
  note D = tm_stepD [OF s] and cf = tm_conf_cong [OF tm_stepD(1) [OF s]]
  have k': "key \<in> keys_of m'" and st': "tm_strict (tm_conf m')" using key st cf(7) D(1) by simp_all
  from treemap_at_strict [OF D(2) st' k'] obtain q where q: "treemap_at (Ptr m') (Ptr key) w' = Some q"
    "case map_of (pairs T') key of None \<Rightarrow> q = NULL
       | Some u \<Rightarrow> \<exists>a. q = Ptr a \<and> (a, key, u) \<in> set (items T') \<and> value_at q w' = Some u"
    by (elim exE conjE) (rule that)
  have here: "q = Ptr a \<and> value_at q w' = Some x" if x: "map_of (pairs T') key = Some x" for x
  proof -
    obtain b where b: "q = Ptr b" "(b, key, x) \<in> set (items T')" "value_at q w' = Some x" using q(2) x by auto
    then have "(key, x) \<in> set (pairs T')" by (force simp: pairs_def)
    then obtain v where v: "(a, key, v) \<in> set (items T')" using D(8) u(2) unfolding stays_def by blast
    note R = tree_relD [OF D(2)]
    have "distinct (map (\<lambda>e. fst (snd e)) (items T'))"
      using ordered_distinct [OF R(10,8,9)] by (simp add: pairs_def comp_def)
    then have inj: "inj_on (\<lambda>e. fst (snd e)) (set (items T'))" by (simp add: distinct_map)
    have "(a, key, v) = (b, key, x)" by (rule inj_onD [OF inj _ v b(2)]) simp
    then show ?thesis using b by simp
  qed
  have gone: "q = NULL \<and> rc = 0" if "map_of (pairs T') key = None" using q(2) after(2) that by simp
  have "case op of
         Put k v \<Rightarrow> q = Ptr a \<and> value_at q w' = (if k = key \<and> rc = 0 then Some (copied (t_value_copy m) v) else value_at (Ptr a) w)
       | Remove k \<Rightarrow> if k = key then rc = 0 \<and> q = NULL else q = Ptr a \<and> value_at q w' = value_at (Ptr a) w
       | Wipe \<Rightarrow> rc = 0 \<and> q = NULL
       | Reserve n \<Rightarrow> False"
  proof (cases op)
    case (Put k v)
    then have "map_of (pairs T') key = Some (if k = key \<and> rc = 0 then copied (t_value_copy m) v else u)"
      using after(1) by (simp add: entry_after_def)
    from here [OF this] show ?thesis using u(3) Put by auto
  next
    case (Remove k)
    then show ?thesis using after(1) here [of u] gone u(3) by (auto simp: entry_after_def split: if_splits)
  next
    case Wipe
    then show ?thesis using after(1) gone by (simp add: entry_after_def)
  qed (use op in \<open>simp add: tree_legal_def\<close>)
  with e q(1) show ?thesis by blast
qed

theorem treemap_stable_witness:
  "\<exists>rc m' w' q. tree_exec (Remove (Bytes [5])) (example_treemap (Ptr 0) 2) example_tree_world = Some (rc, m', w')
    \<and> treemap_at (Ptr m') (Ptr (Bytes [3])) w' = Some q
    \<and> (case Remove (Bytes [5]) of
         Put k v \<Rightarrow> q = Ptr 1 \<and> value_at q w' = (if k = Bytes [3] \<and> rc = 0 then Some (copied (t_value_copy (example_treemap (Ptr 0) 2)) v)
             else value_at (Ptr 1) example_tree_world)
       | Remove k \<Rightarrow> if k = Bytes [3] then rc = 0 \<and> q = NULL else q = Ptr 1 \<and> value_at q w' = value_at (Ptr 1) example_tree_world
       | Wipe \<Rightarrow> rc = 0 \<and> q = NULL
       | Reserve n \<Rightarrow> False)"
proof (rule treemap_stable [OF example_treemap_rel])
  have cf: "tm_conf (example_treemap (Ptr 0) 2) = byte_conf" by (simp add: tm_conf_def example_treemap_def)
  show "tm_strict (tm_conf (example_treemap (Ptr 0) 2))" unfolding cf by (rule byte_conf_strict)
  show "tree_legal (tm_conf (example_treemap (Ptr 0) 2)) (Remove (Bytes [5]))" unfolding cf by (simp add: tree_legal_def key_ok_def)
  have k: "Bytes [3] \<in> keys_of (example_treemap (Ptr 0) 2)" by (simp add: keys_of_def example_treemap_def key_ok_def)
  then show "Bytes [3] \<in> keys_of (example_treemap (Ptr 0) 2)" .
  from treemap_at_ok [OF example_treemap_rel k]
  show "treemap_at (Ptr (example_treemap (Ptr 0) 2)) (Ptr (Bytes [3])) example_tree_world = Some (Ptr 1)"
    by (auto simp: example_treemap_def example_tree_def byte_cmp_def)
qed

text \<open>C18: \<open>treemap_copy\<close> clears an initialised destination and builds a deep copy of the source in it,
  with the same configuration, on nodes of its own and without touching the source. When the allocator
  or the copy callback fails it returns \<open>- 1\<close> with an empty destination, and what has been destroyed
  besides the old contents are the copies of some first \<open>k\<close> entries of the source, each once. No block leaks, and without failures the copy succeeds.\<close>

theorem treemap_copy_deep:
  assumes "tree_rel s w S" and "tree_rel d w D" and "spots D \<inter> spots S = {}"
  shows "\<exists>rc d' w' D' k ds. treemap_copy False (Ptr d) (Ptr s) w = Some (rc, Ptr d', w') \<and> tm_conf d' = tm_conf s
    \<and> tree_rel s w' S \<and> tree_rel d' w' D' \<and> spots D' \<inter> spots S = {} \<and> live w' - tm_own d' = live w - tm_own d
    \<and> (no_fail w \<longrightarrow> 32 + t_key_size s + t_value_size s \<le> PTRDIFF_MAX \<longrightarrow> fresh w + length (items S) \<le> SIZE_MAX \<longrightarrow> rc = 0)
    \<and> destroyed w' = destroyed w @ log_if (t_value_destroy d) (postorder D) @ log_if (t_value_destroy s) ds
    \<and> (rc = 0 \<and> ds = [] \<and> pairs D' = map (copied_pair (t_value_copy s)) (items S)
       \<or> rc = - 1 \<and> D' = Tip \<and> mset ds = mset (map (\<lambda>e. copied (t_value_copy s) (snd (snd e))) (take k (items S))))"
  by (rule treemap_copy_ok [OF assms])

theorem treemap_copy_deep_witness:
  "\<exists>rc d' w' D' k ds. treemap_copy False (Ptr (example_treemap NULL 0)) (Ptr (example_treemap (Ptr 0) 2)) example_tree_world = Some (rc, Ptr d', w')
    \<and> tm_conf d' = tm_conf (example_treemap (Ptr 0) 2)
    \<and> tree_rel (example_treemap (Ptr 0) 2) w' example_tree \<and> tree_rel d' w' D' \<and> spots D' \<inter> spots example_tree = {}
    \<and> live w' - tm_own d' = live example_tree_world - tm_own (example_treemap NULL 0)
    \<and> (no_fail example_tree_world \<longrightarrow> 32 + t_key_size (example_treemap (Ptr 0) 2) + t_value_size (example_treemap (Ptr 0) 2) \<le> PTRDIFF_MAX
        \<longrightarrow> fresh example_tree_world + length (items example_tree) \<le> SIZE_MAX \<longrightarrow> rc = 0)
    \<and> destroyed w' = destroyed example_tree_world @ log_if (t_value_destroy (example_treemap NULL 0)) (postorder (Tip :: int rtree))
        @ log_if (t_value_destroy (example_treemap (Ptr 0) 2)) ds
    \<and> (rc = 0 \<and> ds = [] \<and> pairs D' = map (copied_pair (t_value_copy (example_treemap (Ptr 0) 2))) (items example_tree)
       \<or> rc = - 1 \<and> D' = Tip
         \<and> mset ds = mset (map (\<lambda>e. copied (t_value_copy (example_treemap (Ptr 0) 2)) (snd (snd e))) (take k (items example_tree))))"
proof (rule treemap_copy_deep [OF example_treemap_rel])
  show "tree_rel (example_treemap NULL 0) example_tree_world Tip"
    using tree_relD(1,7) [OF example_treemap_rel] by (simp add: tree_rel_def example_treemap_def tm_conf_def rb_tree_def)
qed simp

end
