(* ===== verification/Treeset.thy ===== *)
theory Treeset
  imports Treemap_Props
begin

text \<open>
  \<open>src/treeset.c\<close>: the ordered set of keys, a tree map that stores the byte 1 for every member. Every
  function and macro is a definition of the same name. Histories come from the interface
  \<open>set_wrapper\<close> of \<open>Maps\<close>, interpreted on the tree map.
\<close>

section \<open>Model\<close>

record treeset =
  ts_map :: "8 word treemap"

type_synonym sworld = "8 word tworld"

definition treeset_init :: "treeset ptr \<Rightarrow> int \<Rightarrow> size_t \<Rightarrow> (cell \<Rightarrow> cell \<Rightarrow> int) ptr \<Rightarrow> int \<times> treeset ptr" where
  "treeset_init p key_kind key_size key_compare = (case p of NULL \<Rightarrow> (- 1, NULL) | Ptr s \<Rightarrow>
     let (rc, q) = treemap_init (Ptr (ts_map s)) key_kind key_size 1 key_compare False None in
     (rc, Ptr (s\<lparr>ts_map := pt q\<rparr>)))"

definition treeset_destroy :: "treeset ptr \<Rightarrow> sworld \<Rightarrow> (treeset ptr \<times> sworld) option" where
  "treeset_destroy p w = (case p of NULL \<Rightarrow> Some (NULL, w) | Ptr s \<Rightarrow> do {
     (q, w1) \<leftarrow> treemap_destroy (Ptr (ts_map s)) w;
     Some (Ptr (s\<lparr>ts_map := pt q\<rparr>), w1) })"

definition raw_treeset :: treeset where
  "raw_treeset = \<lparr>ts_map = raw_treemap\<rparr>"

definition treeset_new :: "int \<Rightarrow> size_t \<Rightarrow> (cell \<Rightarrow> cell \<Rightarrow> int) ptr \<Rightarrow> sworld \<Rightarrow> treeset ptr \<times> sworld" where
  "treeset_new key_kind key_size key_compare w =
     (let (ok, w1) = malloc 64 w in
      if \<not> ok then (NULL, w1)
      else let (rc, p) = treeset_init (Ptr raw_treeset) key_kind key_size key_compare in
        if rc \<noteq> 0 then (NULL, free_block w1) else (p, w1))"

definition treeset_free :: "treeset ptr \<Rightarrow> sworld \<Rightarrow> sworld option" where
  "treeset_free p w = (case p of NULL \<Rightarrow> Some w | Ptr _ \<Rightarrow> do {
     (_, w1) \<leftarrow> treeset_destroy p w; Some (free_block w1) })"

definition treeset_copy :: "bool \<Rightarrow> treeset ptr \<Rightarrow> treeset ptr \<Rightarrow> sworld \<Rightarrow> (int \<times> treeset ptr \<times> sworld) option" where
  "treeset_copy same dst src w =
     (if dst = NULL \<or> src = NULL then Some (- 1, dst, w)
      else do {
        (rc, q, w1) \<leftarrow> treemap_copy same (Ptr (ts_map (pt dst))) (Ptr (ts_map (pt src))) w;
        Some (rc, Ptr ((pt dst)\<lparr>ts_map := pt q\<rparr>), w1) })"

definition treeset_clone :: "treeset ptr \<Rightarrow> sworld \<Rightarrow> (treeset ptr \<times> sworld) option" where
  "treeset_clone src w = (case src of NULL \<Rightarrow> Some (NULL, w) | Ptr s \<Rightarrow>
     let (copy, w1) = treeset_new (t_key_kind (ts_map s)) (t_key_size (ts_map s)) (Ptr (t_key_compare (ts_map s))) w in
     if copy = NULL then Some (NULL, w1)
     else do {
       (rc, copy1, w2) \<leftarrow> treeset_copy False copy src w1;
       if rc \<noteq> 0 then do { w3 \<leftarrow> treeset_free copy1 w2; Some (NULL, w3) } else Some (copy1, w2) })"

definition treeset_add :: "treeset ptr \<Rightarrow> cell ptr \<Rightarrow> sworld \<Rightarrow> (int \<times> treeset ptr \<times> sworld) option" where
  "treeset_add p key w = (case p of NULL \<Rightarrow> Some (- 1, NULL, w) | Ptr s \<Rightarrow> do {
     (rc, q, w1) \<leftarrow> treemap_set (Ptr (ts_map s)) key (Ptr 1) w;
     Some (rc, Ptr (s\<lparr>ts_map := pt q\<rparr>), w1) })"

definition treeset_contains :: "treeset ptr \<Rightarrow> cell ptr \<Rightarrow> sworld \<Rightarrow> int option" where
  "treeset_contains p key w = (case p of NULL \<Rightarrow> Some 0 | Ptr s \<Rightarrow> treemap_contains (Ptr (ts_map s)) key w)"

definition treeset_delete :: "treeset ptr \<Rightarrow> cell ptr \<Rightarrow> sworld \<Rightarrow> (int \<times> treeset ptr \<times> sworld) option" where
  "treeset_delete p key w = (case p of NULL \<Rightarrow> Some (- 1, NULL, w) | Ptr s \<Rightarrow> do {
     (rc, q, w1) \<leftarrow> treemap_delete (Ptr (ts_map s)) key w;
     Some (rc, Ptr (s\<lparr>ts_map := pt q\<rparr>), w1) })"

definition treeset_clear :: "treeset ptr \<Rightarrow> sworld \<Rightarrow> (treeset ptr \<times> sworld) option" where
  "treeset_clear p w = (case p of NULL \<Rightarrow> Some (NULL, w) | Ptr s \<Rightarrow> do {
     (q, w1) \<leftarrow> treemap_clear (Ptr (ts_map s)) w;
     Some (Ptr (s\<lparr>ts_map := pt q\<rparr>), w1) })"

subsection \<open>The macros of the header\<close>

definition treeset_empty :: "treeset \<Rightarrow> bool" where "treeset_empty s = treemap_empty (ts_map s)"
definition treeset_size :: "treeset \<Rightarrow> size_t" where "treeset_size s = treemap_size (ts_map s)"

definition treeset_add_value :: "treeset ptr \<Rightarrow> cell \<Rightarrow> sworld \<Rightarrow> (int \<times> treeset ptr \<times> sworld) option" where
  "treeset_add_value p key_value w = treeset_add p (Ptr key_value) w"

definition treeset_contains_value :: "treeset ptr \<Rightarrow> cell \<Rightarrow> sworld \<Rightarrow> int option" where
  "treeset_contains_value p key_value w = treeset_contains p (Ptr key_value) w"

definition treeset_delete_value :: "treeset ptr \<Rightarrow> cell \<Rightarrow> sworld \<Rightarrow> (int \<times> treeset ptr \<times> sworld) option" where
  "treeset_delete_value p key_value w = treeset_delete p (Ptr key_value) w"

definition treeset_first :: "treeset \<Rightarrow> sworld \<Rightarrow> nat ptr option" where
  "treeset_first s w = treemap_first (Ptr (ts_map s)) w"

definition treeset_last :: "treeset \<Rightarrow> sworld \<Rightarrow> nat ptr option" where
  "treeset_last s w = treemap_last (Ptr (ts_map s)) w"

definition treeset_lower_bound :: "treeset \<Rightarrow> cell ptr \<Rightarrow> sworld \<Rightarrow> nat ptr option" where
  "treeset_lower_bound s key w = treemap_lower_bound (Ptr (ts_map s)) key w"

definition treeset_lower_bound_const :: "treeset \<Rightarrow> cell ptr \<Rightarrow> sworld \<Rightarrow> nat ptr option" where
  "treeset_lower_bound_const s key w = treemap_lower_bound_const (Ptr (ts_map s)) key w"

definition treeset_upper_bound :: "treeset \<Rightarrow> cell ptr \<Rightarrow> sworld \<Rightarrow> nat ptr option" where
  "treeset_upper_bound s key w = treemap_upper_bound (Ptr (ts_map s)) key w"

definition treeset_upper_bound_const :: "treeset \<Rightarrow> cell ptr \<Rightarrow> sworld \<Rightarrow> nat ptr option" where
  "treeset_upper_bound_const s key w = treemap_upper_bound_const (Ptr (ts_map s)) key w"

definition treeset_next :: "nat ptr \<Rightarrow> sworld \<Rightarrow> nat ptr option" where
  "treeset_next node w = treemap_next node w"

definition treeset_prev :: "nat ptr \<Rightarrow> sworld \<Rightarrow> nat ptr option" where
  "treeset_prev node w = treemap_prev node w"

definition treeset_node_key_as :: "treeset \<Rightarrow> nat ptr \<Rightarrow> nat ptr" where
  "treeset_node_key_as s node = treemap_node_key (Ptr (ts_map s)) node"

definition treeset_node_key_const_as :: "treeset \<Rightarrow> nat ptr \<Rightarrow> nat ptr" where
  "treeset_node_key_const_as s node = treemap_node_key_const (Ptr (ts_map s)) node"

section \<open>The machine\<close>

definition treeset_exec :: "cell set_op \<Rightarrow> treeset \<Rightarrow> sworld \<Rightarrow> (int \<times> treeset \<times> sworld) option" where
  "treeset_exec op s w = (case op of
       Add k \<Rightarrow> map_option (\<lambda>(rc, p, w1). (rc, pt p, w1)) (treeset_add (Ptr s) (Ptr k) w)
     | Drop k \<Rightarrow> map_option (\<lambda>(rc, p, w1). (rc, pt p, w1)) (treeset_delete (Ptr s) (Ptr k) w)
     | Empty \<Rightarrow> map_option (\<lambda>(p, w1). (0, pt p, w1)) (treeset_clear (Ptr s) w)
     | Room n \<Rightarrow> Some (- 1, s, w))"

interpretation tset: set_wrapper tree_exec tm_copies tree_legal tree_map tm_conf tm_destroys "\<lambda>m w. tm_own m" treeset_exec ts_map treeset.make
proof (unfold_locales, goal_cases)
  case (1 op s w)
  show ?case
    by (cases s; cases op) (auto simp: treeset_exec_def tree_exec_def treeset_add_def treeset_delete_def treeset_clear_def
        treeset.make_def split: Option.bind_split)
next
  case (2 c)
  show ?case by (simp add: treeset.make_def)
qed

lemma treeset_init_ok:
  assumes "tm_legal (kind, ks, 1, cmp, False, None :: (8 word \<Rightarrow> 8 word) option)"
  shows "\<exists>s. treeset_init (Ptr u) kind ks (Ptr cmp) = (0, Ptr s) \<and> tm_conf (ts_map s) = (kind, ks, 1, cmp, False, None)
    \<and> tm_own (ts_map s) = 0 \<and> (\<forall>w. store_ok w \<longrightarrow> tree_rel (ts_map s) w Tip)"
proof -
  from treemap_init_ok [OF assms, of "ts_map u"] obtain m where
    "treemap_init (Ptr (ts_map u)) kind ks 1 (Ptr cmp) False (None :: (8 word \<Rightarrow> 8 word) option) = (0, Ptr m)"
    "tm_conf m = (kind, ks, 1, cmp, False, None)" "tm_own m = 0" "\<forall>w. store_ok w \<longrightarrow> tree_rel m w Tip"
    by (elim exE conjE) (rule that)
  then show ?thesis by (intro exI [of _ "u\<lparr>ts_map := m\<rparr>"]) (simp add: treeset_init_def)
qed

text \<open>The members of a set are the keys of its tree.\<close>

lemma members_ok:
  assumes rel: "tree_rel m w T" and st: "tm_strict (tm_conf m)" and S: "dom (map_of (pairs T)) = S"
  shows "k \<in> keys_of m \<Longrightarrow> treemap_contains (Ptr m) (Ptr k) w = Some (if k \<in> S then 1 else 0)"
    "t_size m = card S" "set (map fst (pairs T)) = S" "distinct (map fst (pairs T))"
proof -
  note R = tree_relD [OF rel]
  show set: "set (map fst (pairs T)) = S" using S by (simp add: dom_map_of_conv_image_fst)
  show dist: "distinct (map fst (pairs T))" by (rule ordered_distinct [OF R(10,8,9)])
  show "t_size m = card S" using distinct_card [OF dist] R(6) unfolding set by simp
  show "treemap_contains (Ptr m) (Ptr k) w = Some (if k \<in> S then 1 else 0)" if k: "k \<in> keys_of m"
  proof -
    have "replaced (t_key_compare m) k (pairs T) = (case map_of (pairs T) k of None \<Rightarrow> [] | Some u \<Rightarrow> [u])"
      using strict_entries [OF tm_strict_on [OF rel st] k R(8,9)] by blast
    then have "entry_for (t_key_compare m) k (pairs T) = None \<longleftrightarrow> k \<notin> S"
      unfolding S [symmetric] by (auto simp: replaced_def split: option.splits)
    then show ?thesis using treemap_contains_ok [OF rel k] by simp
  qed
qed

section \<open>Properties\<close>

text \<open>C19: with a comparison function that distinguishes all keys, every history of additions, deletions
  and clears on a freshly initialised ordered set follows no dangling pointer under any
  allocation failures (the alignment of the keys in a node is outside of the model) and behaves like a mathematical set, each call having its effect or returning
  \<open>- 1\<close> without one. Membership tests and the size then read that set, iteration visits every member
  exactly once in ascending order, and destroying the set leaves no block allocated.\<close>

theorem treeset_history:
  assumes legal: "tm_legal (kind, ks, 1, cmp, False, None :: (8 word \<Rightarrow> 8 word) option)"
    and strict: "tm_strict (kind, ks, 1, cmp, False, None :: (8 word \<Rightarrow> 8 word) option)"
    and w: "store_ok w" and ops: "\<forall>op \<in> set ops. tree_legal (kind, ks, 1, cmp, False, None) (as_map_op op)"
  shows "\<exists>s rcs s' w1 S q ps p w2. treeset_init (Ptr raw_treeset) kind ks (Ptr cmp) = (0, Ptr s)
    \<and> run treeset_exec ops s w = Some (rcs, s', w1) \<and> explains set_spec ops rcs {} S []
    \<and> (\<forall>k. key_ok kind ks k \<longrightarrow> treeset_contains (Ptr s') (Ptr k) w1 = Some (if k \<in> S then 1 else 0))
    \<and> treeset_size s' = card S
    \<and> treeset_first s' w1 = Some q \<and> walk_next (Ptr (ts_map s')) q w1 = Some ps \<and> ordered cmp ps
    \<and> distinct (map fst ps) \<and> set (map fst ps) = S
    \<and> treeset_destroy (Ptr s') w1 = Some (p, w2) \<and> live w2 = live w"
proof -
  let ?cf = "(kind, ks, 1, cmp, False, None) :: 8 word tm_conf"
  from treeset_init_ok [OF legal, of raw_treeset] obtain s where
    i: "treeset_init (Ptr raw_treeset) kind ks (Ptr cmp) = (0, Ptr s)" "tm_conf (ts_map s) = ?cf"
    "tm_own (ts_map s) = 0" "\<forall>w. store_ok w \<longrightarrow> tree_rel (ts_map s) w Tip" by (elim exE conjE) (rule that)
  have "tree_map (ts_map s) w Map.empty"
    unfolding tree_map_def using i(2,4) w strict by (intro conjI exI [of _ Tip]) simp_all
  then have hold: "tset.set_rel s w {}" using i(2) by (auto simp: tset.set_rel_def)
  have lg: "\<forall>op \<in> set ops. tree_legal (tm_conf (ts_map s)) (as_map_op op)" using ops i(2) by simp
  from tset.sets.run_explained [OF hold lg] obtain rcs s' w1 S ds where
    r: "run treeset_exec ops s w = Some (rcs, s', w1)" "tm_conf (ts_map s') = tm_conf (ts_map s)"
    "live w1 - tm_own (ts_map s') = live w - tm_own (ts_map s)" "tset.set_rel s' w1 S"
    "explains set_spec ops rcs {} S ds" "destroyed w1 = destroyed w @ log_if False ds" by (elim exE conjE) (rule that)
  from r(4) obtain T where T: "tree_rel (ts_map s') w1 T" "tm_strict (tm_conf (ts_map s'))" "dom (map_of (pairs T)) = S"
    by (auto simp: tset.set_rel_def tree_map_def)
  note M = members_ok [OF T] and R = tree_relD [OF T(1)]
  have cf: "t_key_compare (ts_map s') = cmp" "keys_of (ts_map s') = {k. key_ok kind ks k}"
    using r(2) i(2) by (simp_all add: tm_conf_def keys_of_def)
  from treemap_clear_ok [OF T(1)] obtain m2 w2 where
    c: "treemap_clear (Ptr (ts_map s')) w1 = Some (Ptr m2, w2)" "tm_step (ts_map s') w1 T m2 w2 Tip (postorder T)" "fresh w2 = fresh w1"
    "no_fail w2 = no_fail w1" "tm_own m2 = 0" by (elim exE conjE) (rule that)
  have "ds = []" using r(5) by (rule explains_no_log) (simp add: set_spec_def)
  moreover have "live w2 = live w" using tm_stepD(7) [OF c(2)] c(5) r(3) i(3) by simp
  moreover have "walk_next (Ptr (ts_map s')) (head_ptr (items T)) w1 = Some (pairs T)"
    using walk_next_ok [OF T(1) append_Nil [symmetric]] by (simp add: pairs_def)
  ultimately show ?thesis
    using i(1) r(1,5) M R(9) ends_ok(1) [OF T(1)] c(1) cf
    by (intro exI [of _ s] exI [of _ rcs] exI [of _ s'] exI [of _ w1] exI [of _ S] exI [of _ "head_ptr (items T)"] exI [of _ "pairs T"]
        exI [of _ "Ptr (s'\<lparr>ts_map := m2\<rparr>)"] exI [of _ w2])
      (simp add: treeset_contains_def treeset_size_def treemap_size_def treeset_first_def treeset_destroy_def treemap_destroy_eq)
qed

lemma byte_set_conf:
  "tm_legal (KEY_SCALAR, 1, 1, byte_cmp, False, None :: (8 word \<Rightarrow> 8 word) option)"
  "tm_strict (KEY_SCALAR, 1, 1, byte_cmp, False, None :: (8 word \<Rightarrow> 8 word) option)"
  using byte_conf_strict by (simp_all add: tm_legal_def orders_byte_cmp SIZE_MAX_def tm_strict_def)

theorem treeset_history_witness:
  "\<exists>s rcs s' w1 S q ps p w2. treeset_init (Ptr raw_treeset) KEY_SCALAR 1 (Ptr byte_cmp) = (0, Ptr s)
    \<and> run treeset_exec [Add (Bytes [2]), Add (Bytes [1]), Add (Bytes [2]), Drop (Bytes [2]), Add (Bytes [7])] s
        (lscript [True, True, True, False] []) = Some (rcs, s', w1)
    \<and> explains set_spec [Add (Bytes [2]), Add (Bytes [1]), Add (Bytes [2]), Drop (Bytes [2]), Add (Bytes [7])] rcs {} S []
    \<and> (\<forall>k. key_ok KEY_SCALAR 1 k \<longrightarrow> treeset_contains (Ptr s') (Ptr k) w1 = Some (if k \<in> S then 1 else 0))
    \<and> treeset_size s' = card S
    \<and> treeset_first s' w1 = Some q \<and> walk_next (Ptr (ts_map s')) q w1 = Some ps \<and> ordered byte_cmp ps
    \<and> distinct (map fst ps) \<and> set (map fst ps) = S
    \<and> treeset_destroy (Ptr s') w1 = Some (p, w2) \<and> live w2 = live (lscript [True, True, True, False] [] :: sworld)"
  by (rule treeset_history [OF byte_set_conf lscript_ok]) (simp add: tree_legal_def key_ok_def)

end
