(* ===== verification/Radixmap.thy ===== *)
theory Radixmap
  imports Maps Store
begin

text \<open>
  \<open>src/radixmap.c\<close>: the compressed trie from strings to values. A node has its first child, its next
  sibling and the segment of the edge that leads to it. Nodes live in the store of the world, every
  function of the file is a definition of the same name, and a pointer to a link (\<open>radixmap_node **\<close>)
  names the field that it points to. The address of the value of a node is the address of the node.
\<close>

section \<open>Nodes\<close>

record 'v radixmap_node =
  x_child :: "nat ptr"
  x_next :: "nat ptr"
  x_segment :: bytes
  x_segment_len :: size_t
  x_has_value :: bool
  x_value :: "'v option"

record 'v radixmap =
  x_size :: size_t
  x_value_size :: size_t
  x_value_destroy :: bool
  x_value_copy :: "('v \<Rightarrow> 'v) option"
  x_root :: "nat ptr"

type_synonym 'v rworld = "('v, 'v radixmap_node) nworld"

definition radixmap_empty :: "'v radixmap \<Rightarrow> bool" where
  "radixmap_empty m \<longleftrightarrow> x_size m = 0"

definition radixmap_size :: "'v radixmap \<Rightarrow> size_t" where
  "radixmap_size m = x_size m"

definition radixmap_copy_value :: "'v radixmap \<Rightarrow> 'v \<Rightarrow> 'v rworld \<Rightarrow> 'v option \<times> 'v rworld" where
  "radixmap_copy_value m src w = copy_element (x_value_copy m) src w"

definition radixmap_destroy_value :: "'v radixmap \<Rightarrow> 'v \<Rightarrow> 'v rworld \<Rightarrow> 'v rworld" where
  "radixmap_destroy_value m x w = destroy_element (x_value_destroy m) x w"

text \<open>A node has a header of 40 bytes; its value starts at offset 33. When the sum wraps, the value
  lies outside the block. The segment is a second block.\<close>

definition radixmap_node_new ::
    "'v radixmap \<Rightarrow> bytes \<Rightarrow> size_t \<Rightarrow> 'v rworld \<Rightarrow> (nat ptr \<times> 'v rworld) option" where
  "radixmap_node_new m segment segment_len w =
     (let bytes = sz_add 40 (x_value_size m);
          (node, w1) = new_node bytes \<lparr>x_child = NULL, x_next = NULL, x_segment = [], x_segment_len = 0,
            x_has_value = False, x_value = None\<rparr> w in
      if node = NULL then Some (NULL, w1)
      else if bytes < 33 + x_value_size m \<or> length segment < segment_len then None
      else let (ok, w2) = malloc (sz_add segment_len 1) w1 in
        if \<not> ok then do { w3 \<leftarrow> free_node node w2; Some (NULL, w3) }
        else do {
          w3 \<leftarrow> modify node (\<lambda>n. n\<lparr>x_segment := take segment_len segment, x_segment_len := segment_len\<rparr>) w2;
          Some (node, w3) })"

partial_function (option) radixmap_node_free_chain ::
    "'v radixmap \<Rightarrow> nat ptr \<Rightarrow> 'v rworld \<Rightarrow> 'v rworld option" where
  "radixmap_node_free_chain m node w =
     (if node = NULL then Some w
      else do {
        n \<leftarrow> get_node node w;
        w1 \<leftarrow> radixmap_node_free_chain m (x_child n) w;
        n1 \<leftarrow> get_node node w1;
        w2 \<leftarrow> radixmap_node_free_chain m (x_next n1) w1;
        n2 \<leftarrow> get_node node w2;
        w3 \<leftarrow> (if x_has_value n2 then do { x \<leftarrow> x_value n2; Some (radixmap_destroy_value m x w2) } else Some w2);
        free_node node (free_block w3) })"

partial_function (option) common_loop :: "bytes \<Rightarrow> size_t \<Rightarrow> bytes \<Rightarrow> size_t \<Rightarrow> size_t option" where
  "common_loop segment segment_len key common =
     (if common < segment_len then do {
        c \<leftarrow> char_at key common;
        if c = 0 then Some common
        else do {
          d \<leftarrow> char_at segment common;
          if d = c then common_loop segment segment_len key (sz_add common 1) else Some common } }
      else Some common)"

definition radixmap_common_prefix_len :: "bytes \<Rightarrow> size_t \<Rightarrow> bytes \<Rightarrow> size_t option" where
  "radixmap_common_prefix_len segment segment_len key = common_loop segment segment_len key 0"

section \<open>Links\<close>

datatype link = Child_field "nat ptr" | Next_field "nat ptr"

fun read_link :: "link \<Rightarrow> 'v rworld \<Rightarrow> nat ptr option" where
  "read_link (Child_field q) w = map_option x_child (get_node q w)"
| "read_link (Next_field q) w = map_option x_next (get_node q w)"

fun write_link :: "link \<Rightarrow> nat ptr \<Rightarrow> 'v rworld \<Rightarrow> 'v rworld option" where
  "write_link (Child_field q) v w = modify q (x_child_update (\<lambda>_. v)) w"
| "write_link (Next_field q) v w = modify q (x_next_update (\<lambda>_. v)) w"

partial_function (option) find_link_loop :: "link \<Rightarrow> 8 word \<Rightarrow> 'v rworld \<Rightarrow> link option" where
  "find_link_loop link ch w = do {
     q \<leftarrow> read_link link w;
     if q \<noteq> NULL then do {
       n \<leftarrow> get_node q w;
       c \<leftarrow> char_at (x_segment n) 0;
       if c = ch then Some link else find_link_loop (Next_field q) ch w }
     else Some link }"

definition radixmap_find_child_link :: "nat ptr \<Rightarrow> 8 word \<Rightarrow> 'v rworld \<Rightarrow> link option" where
  "radixmap_find_child_link node ch w = find_link_loop (Child_field node) ch w"

section \<open>Storing values\<close>

definition put_value :: "nat ptr \<Rightarrow> 'v \<Rightarrow> 'v rworld \<Rightarrow> 'v rworld option" where
  "put_value node x w = modify node (x_value_update (\<lambda>_. Some x)) w"

definition radixmap_store_value ::
    "'v radixmap \<Rightarrow> nat ptr \<Rightarrow> 'v \<Rightarrow> 'v rworld \<Rightarrow> (int \<times> 'v rworld) option" where
  "radixmap_store_value m node x w = do {
     n \<leftarrow> get_node node w;
     if \<not> x_has_value n then
       (case radixmap_copy_value m x w of
          (None, w1) \<Rightarrow> Some (- 1, w1)
        | (Some v, w1) \<Rightarrow> do {
            w2 \<leftarrow> put_value node v w1;
            w3 \<leftarrow> modify node (x_has_value_update (\<lambda>_. True)) w2;
            Some (0, w3) })
     else if x_value_copy m = None then do {
       old \<leftarrow> x_value n;
       w1 \<leftarrow> put_value node x (radixmap_destroy_value m old w);
       Some (0, w1) }
     else let (ok, w1) = malloc (x_value_size m) w in
       if \<not> ok then Some (- 1, w1)
       else case radixmap_copy_value m x w1 of
         (None, w2) \<Rightarrow> Some (- 1, free_block w2)
       | (Some v, w2) \<Rightarrow> do {
           old \<leftarrow> x_value n;
           w3 \<leftarrow> put_value node v (radixmap_destroy_value m old w2);
           Some (0, free_block w3) } }"

text \<open>The last part of \<open>radixmap_split_insert\<close>: linking the prefix and the leaf.\<close>

definition link_split ::
    "'v radixmap \<Rightarrow> link \<Rightarrow> nat ptr \<Rightarrow> nat ptr \<Rightarrow> nat ptr \<Rightarrow> bytes \<Rightarrow> size_t \<Rightarrow> 'v rworld
     \<Rightarrow> (int \<times> 'v radixmap \<times> 'v rworld) option" where
  "link_split m link node prefix leaf suffix suffix_len w = do {
     n \<leftarrow> get_node node w;
     w1 \<leftarrow> modify prefix (x_next_update (\<lambda>_. x_next n)) w;
     w2 \<leftarrow> modify prefix (x_child_update (\<lambda>_. node)) w1;
     w3 \<leftarrow> modify node (\<lambda>n. n\<lparr>x_segment := suffix, x_segment_len := suffix_len, x_next := NULL\<rparr>) (free_block w2);
     w4 \<leftarrow> (if leaf \<noteq> NULL then do {
         p \<leftarrow> get_node prefix w3;
         wa \<leftarrow> modify leaf (x_next_update (\<lambda>_. x_child p)) w3;
         modify prefix (x_child_update (\<lambda>_. leaf)) wa }
       else Some w3);
     w5 \<leftarrow> write_link link prefix w4;
     Some (0, m\<lparr>x_size := sz_add (x_size m) 1\<rparr>, w5) }"

text \<open>The part of \<open>radixmap_split_insert\<close> after the allocation of the prefix.\<close>

definition split_attach ::
    "'v radixmap \<Rightarrow> link \<Rightarrow> nat ptr \<Rightarrow> nat ptr \<Rightarrow> bytes \<Rightarrow> size_t \<Rightarrow> 'v \<Rightarrow> bytes \<Rightarrow> size_t \<Rightarrow> 'v rworld
     \<Rightarrow> (int \<times> 'v radixmap \<times> 'v rworld) option" where
  "split_attach m link node prefix key common x suffix suffix_len w = do {
     c \<leftarrow> char_at key common;
     if c = 0 then do {
       (rc, w1) \<leftarrow> radixmap_store_value m prefix x w;
       if rc \<noteq> 0 then do {
         w2 \<leftarrow> radixmap_node_free_chain m prefix w1;
         Some (- 1, m, free_block w2) }
       else link_split m link node prefix NULL suffix suffix_len w1 }
     else do {
       (leaf, w1) \<leftarrow> radixmap_node_new m (drop common key) (strlen (drop common key)) w;
       if leaf = NULL then do {
         w2 \<leftarrow> radixmap_node_free_chain m prefix w1;
         Some (- 1, m, free_block w2) }
       else do {
         (rc, w2) \<leftarrow> radixmap_store_value m leaf x w1;
         if rc \<noteq> 0 then do {
           w3 \<leftarrow> radixmap_node_free_chain m leaf w2;
           w4 \<leftarrow> radixmap_node_free_chain m prefix w3;
           Some (- 1, m, free_block w4) }
         else link_split m link node prefix leaf suffix suffix_len w2 } } }"

definition radixmap_split_insert ::
    "'v radixmap \<Rightarrow> link \<Rightarrow> nat ptr \<Rightarrow> bytes \<Rightarrow> size_t \<Rightarrow> 'v \<Rightarrow> 'v rworld
     \<Rightarrow> (int \<times> 'v radixmap \<times> 'v rworld) option" where
  "radixmap_split_insert m link node key common x w = do {
     n \<leftarrow> get_node node w;
     let suffix_len = sz_sub (x_segment_len n) common;
     let (ok, w1) = malloc (sz_add suffix_len 1) w;
     if \<not> ok then Some (- 1, m, w1)
     else do {
       let suffix = take suffix_len (drop common (x_segment n));
       (prefix, w2) \<leftarrow> radixmap_node_new m key common w1;
       if prefix = NULL then Some (- 1, m, free_block w2)
       else split_attach m link node prefix key common x suffix suffix_len w2 } }"

section \<open>Searching\<close>

text \<open>The inner loop over the children of a node.\<close>

partial_function (option) sibling_loop :: "nat ptr \<Rightarrow> 8 word \<Rightarrow> 'v rworld \<Rightarrow> nat ptr option" where
  "sibling_loop child ch w =
     (if child \<noteq> NULL then do {
        n \<leftarrow> get_node child w;
        c \<leftarrow> char_at (x_segment n) 0;
        if c \<noteq> ch then sibling_loop (x_next n) ch w else Some child }
      else Some NULL)"

partial_function (option) match_loop :: "nat ptr \<Rightarrow> bytes \<Rightarrow> 'v rworld \<Rightarrow> nat ptr option" where
  "match_loop node key w = do {
     c \<leftarrow> char_at key 0;
     n \<leftarrow> get_node node w;
     if c \<noteq> 0 then do {
       child \<leftarrow> sibling_loop (x_child n) c w;
       if child = NULL then Some NULL
       else do {
         cn \<leftarrow> get_node child w;
         common \<leftarrow> radixmap_common_prefix_len (x_segment cn) (x_segment_len cn) key;
         if common \<noteq> x_segment_len cn then Some NULL
         else match_loop child (drop common key) w } }
     else Some (if x_has_value n then node else NULL) }"

definition radixmap_match_exact_const :: "'v radixmap \<Rightarrow> bytes \<Rightarrow> 'v rworld \<Rightarrow> nat ptr option" where
  "radixmap_match_exact_const m key w = match_loop (x_root m) key w"

section \<open>Cloning nodes\<close>

definition radixmap_node_clone_value ::
    "'v radixmap \<Rightarrow> nat ptr \<Rightarrow> nat ptr \<Rightarrow> 'v rworld \<Rightarrow> (int \<times> 'v rworld) option" where
  "radixmap_node_clone_value m dst src w = do {
     s \<leftarrow> get_node src w;
     if \<not> x_has_value s then Some (0, w)
     else do {
       x \<leftarrow> x_value s;
       case radixmap_copy_value m x w of
         (None, w1) \<Rightarrow> Some (- 1, w1)
       | (Some v, w1) \<Rightarrow> do {
           w2 \<leftarrow> put_value dst v w1;
           w3 \<leftarrow> modify dst (x_has_value_update (\<lambda>_. True)) w2;
           Some (0, w3) } } }"

partial_function (option) radixmap_node_clone_chain ::
    "'v radixmap \<Rightarrow> nat ptr \<Rightarrow> 'v rworld \<Rightarrow> (nat ptr \<times> 'v rworld) option" where
  "radixmap_node_clone_chain m src w =
     (if src = NULL then Some (NULL, w)
      else do {
        s \<leftarrow> get_node src w;
        (copy, w1) \<leftarrow> radixmap_node_new m (x_segment s) (x_segment_len s) w;
        if copy = NULL then Some (NULL, w1)
        else do {
          (rc, w2) \<leftarrow> radixmap_node_clone_value m copy src w1;
          if rc \<noteq> 0 then do { w3 \<leftarrow> radixmap_node_free_chain m copy w2; Some (NULL, w3) }
          else do {
            s1 \<leftarrow> get_node src w2;
            (c, w3) \<leftarrow> radixmap_node_clone_chain m (x_child s1) w2;
            w4 \<leftarrow> write_link (Child_field copy) c w3;
            s2 \<leftarrow> get_node src w4;
            if x_child s2 \<noteq> NULL \<and> c = NULL then do { w5 \<leftarrow> radixmap_node_free_chain m copy w4; Some (NULL, w5) }
            else do {
              (d, w5) \<leftarrow> radixmap_node_clone_chain m (x_next s2) w4;
              w6 \<leftarrow> write_link (Next_field copy) d w5;
              s3 \<leftarrow> get_node src w6;
              if x_next s3 \<noteq> NULL \<and> d = NULL then do { w7 \<leftarrow> radixmap_node_free_chain m copy w6; Some (NULL, w7) }
              else Some (copy, w6) } } } })"

section \<open>Deleting\<close>

definition radixmap_node_has_single_child :: "nat ptr \<Rightarrow> 'v rworld \<Rightarrow> bool option" where
  "radixmap_node_has_single_child node w = do {
     n \<leftarrow> get_node node w;
     if x_child n = NULL then Some False
     else do { c \<leftarrow> get_node (x_child n) w; Some (x_next c = NULL) } }"

definition radixmap_node_try_merge_child :: "nat ptr \<Rightarrow> 'v rworld \<Rightarrow> 'v rworld option" where
  "radixmap_node_try_merge_child node w = do {
     n \<leftarrow> get_node node w;
     single \<leftarrow> radixmap_node_has_single_child node w;
     if x_has_value n \<or> \<not> single then Some w
     else do {
       c \<leftarrow> get_node (x_child n) w;
       let segment_len = sz_add (x_segment_len n) (x_segment_len c);
       let (ok, w1) = malloc (sz_add segment_len 1) w;
       if \<not> ok then Some w1
       else do {
         w2 \<leftarrow> modify node (\<lambda>n. n\<lparr>x_segment := take (x_segment_len n) (x_segment n) @ take (x_segment_len c) (x_segment c),
             x_segment_len := segment_len, x_child := x_child c, x_has_value := x_has_value c\<rparr>) (free_block w1);
         w3 \<leftarrow> (if x_has_value c then do {
             v \<leftarrow> x_value c;
             wa \<leftarrow> put_value node v w2;
             modify (x_child n) (x_has_value_update (\<lambda>_. False)) wa }
           else Some w2);
         free_node (x_child n) (free_block w3) } } }"

partial_function (option) radixmap_delete_node ::
    "'v radixmap \<Rightarrow> nat ptr \<Rightarrow> bytes \<Rightarrow> bool \<Rightarrow> 'v rworld \<Rightarrow> (int \<times> bool \<times> 'v radixmap \<times> 'v rworld) option" where
  "radixmap_delete_node m node key is_root w = do {
     c \<leftarrow> char_at key 0;
     (found, m1, w1) \<leftarrow> (if c = 0 then do {
         n \<leftarrow> get_node node w;
         if \<not> x_has_value n then Some (False, m, w)
         else do {
           x \<leftarrow> x_value n;
           w1 \<leftarrow> modify node (x_has_value_update (\<lambda>_. False)) (radixmap_destroy_value m x w);
           Some (True, m\<lparr>x_size := sz_sub (x_size m) 1\<rparr>, w1) } }
       else do {
         link \<leftarrow> radixmap_find_child_link node c w;
         child \<leftarrow> read_link link w;
         if child = NULL then Some (False, m, w)
         else do {
           cn \<leftarrow> get_node child w;
           common \<leftarrow> radixmap_common_prefix_len (x_segment cn) (x_segment_len cn) key;
           if common \<noteq> x_segment_len cn then Some (False, m, w)
           else do {
             (rc, remove_child, m1, w1) \<leftarrow> radixmap_delete_node m child (drop common key) False w;
             if rc = 0 then Some (False, m1, w1)
             else if remove_child then do {
               cn1 \<leftarrow> get_node child w1;
               w2 \<leftarrow> write_link link (x_next cn1) w1;
               w3 \<leftarrow> modify child (x_next_update (\<lambda>_. NULL)) w2;
               w4 \<leftarrow> radixmap_node_free_chain m1 child w3;
               Some (True, m1, w4) }
             else Some (True, m1, w1) } } });
     if \<not> found then Some (0, False, m1, w1)
     else do {
       n \<leftarrow> get_node node w1;
       if \<not> is_root \<and> \<not> x_has_value n then
         (if x_child n = NULL then Some (1, True, m1, w1)
          else do { w2 \<leftarrow> radixmap_node_try_merge_child node w1; Some (1, False, m1, w2) })
       else Some (1, False, m1, w1) } }"

section \<open>Life cycle\<close>

definition radixmap_init ::
    "'v radixmap ptr \<Rightarrow> size_t \<Rightarrow> bool \<Rightarrow> ('v \<Rightarrow> 'v) option \<Rightarrow> 'v rworld \<Rightarrow> (int \<times> 'v radixmap ptr \<times> 'v rworld) option" where
  "radixmap_init p value_size value_destroy value_copy w =
     (if p = NULL \<or> value_size = 0 then Some (- 1, p, w)
      else do {
        let m = \<lparr>x_size = 0, x_value_size = value_size, x_value_destroy = value_destroy, x_value_copy = value_copy, x_root = NULL\<rparr>;
        (root, w1) \<leftarrow> radixmap_node_new m [] 0 w;
        Some (if root = NULL then - 1 else 0, Ptr (m\<lparr>x_root := root\<rparr>), w1) })"

definition radixmap_destroy :: "'v radixmap ptr \<Rightarrow> 'v rworld \<Rightarrow> ('v radixmap ptr \<times> 'v rworld) option" where
  "radixmap_destroy p w = (case p of NULL \<Rightarrow> Some (NULL, w) | Ptr m \<Rightarrow>
     if x_root m = NULL then Some (p, w)
     else do {
       w1 \<leftarrow> radixmap_node_free_chain m (x_root m) w;
       Some (Ptr \<lparr>x_size = 0, x_value_size = 0, x_value_destroy = False, x_value_copy = None, x_root = NULL\<rparr>, w1) })"

definition raw_radixmap :: "'v radixmap" where
  "raw_radixmap = \<lparr>x_size = 0, x_value_size = 0, x_value_destroy = False, x_value_copy = None, x_root = NULL\<rparr>"

definition radixmap_new ::
    "size_t \<Rightarrow> bool \<Rightarrow> ('v \<Rightarrow> 'v) option \<Rightarrow> 'v rworld \<Rightarrow> ('v radixmap ptr \<times> 'v rworld) option" where
  "radixmap_new value_size value_destroy value_copy w =
     (let (ok, w1) = malloc 40 w in
      if \<not> ok then Some (NULL, w1)
      else do {
        (rc, p, w2) \<leftarrow> radixmap_init (Ptr raw_radixmap) value_size value_destroy value_copy w1;
        Some (if rc \<noteq> 0 then (NULL, free_block w2) else (p, w2)) })"

definition radixmap_free :: "'v radixmap ptr \<Rightarrow> 'v rworld \<Rightarrow> 'v rworld option" where
  "radixmap_free p w = (case p of NULL \<Rightarrow> Some w | Ptr _ \<Rightarrow> do {
     (_, w1) \<leftarrow> radixmap_destroy p w; Some (free_block w1) })"

text \<open>\<open>radixmap_copy\<close> builds the copy in a local variable; the second half replaces the destination.\<close>

definition copy_temp :: "'v radixmap \<Rightarrow> 'v rworld \<Rightarrow> ((int \<times> 'v radixmap) \<times> 'v rworld) option" where
  "copy_temp s w = do {
     (rc, p, w1) \<leftarrow> radixmap_init (Ptr raw_radixmap) (x_value_size s) (x_value_destroy s) (x_value_copy s) w;
     if rc \<noteq> 0 then Some ((- 1, pt p), w1)
     else do {
       let temp = (pt p)\<lparr>x_size := x_size s\<rparr>;
       w2 \<leftarrow> modify (x_root temp) (x_has_value_update (\<lambda>_. False)) w1;
       r \<leftarrow> get_node (x_root s) w2;
       (rc1, w3) \<leftarrow> (if x_has_value r then do { x \<leftarrow> x_value r; radixmap_store_value temp (x_root temp) x w2 }
         else Some (0, w2));
       if rc1 \<noteq> 0 then do { (_, w4) \<leftarrow> radixmap_destroy (Ptr temp) w3; Some ((- 1, temp), w4) }
       else do {
         r1 \<leftarrow> get_node (x_root s) w3;
         (c, w4) \<leftarrow> radixmap_node_clone_chain temp (x_child r1) w3;
         w5 \<leftarrow> write_link (Child_field (x_root temp)) c w4;
         r2 \<leftarrow> get_node (x_root s) w5;
         if x_child r2 \<noteq> NULL \<and> c = NULL then do { (_, w6) \<leftarrow> radixmap_destroy (Ptr temp) w5; Some ((- 1, temp), w6) }
         else Some ((0, temp), w5) } } }"

definition radixmap_copy ::
    "bool \<Rightarrow> 'v radixmap ptr \<Rightarrow> 'v radixmap ptr \<Rightarrow> 'v rworld \<Rightarrow> (int \<times> 'v radixmap ptr \<times> 'v rworld) option" where
  "radixmap_copy same dst src w =
     (if dst = NULL \<or> src = NULL \<or> x_root (pt src) = NULL then Some (- 1, dst, w)
      else if same then Some (0, dst, w)
      else do {
        ((rc, temp), w1) \<leftarrow> copy_temp (pt src) w;
        if rc \<noteq> 0 then Some (- 1, dst, w1)
        else do { (_, w2) \<leftarrow> radixmap_destroy dst w1; Some (0, Ptr temp, w2) } })"

definition radixmap_clone :: "'v radixmap ptr \<Rightarrow> 'v rworld \<Rightarrow> ('v radixmap ptr \<times> 'v rworld) option" where
  "radixmap_clone src w = (case src of NULL \<Rightarrow> Some (NULL, w) | Ptr s \<Rightarrow> do {
     (copy, w1) \<leftarrow> radixmap_new (x_value_size s) (x_value_destroy s) (x_value_copy s) w;
     if copy = NULL then Some (NULL, w1)
     else do {
       (rc, copy1, w2) \<leftarrow> radixmap_copy False copy src w1;
       if rc \<noteq> 0 then do { w3 \<leftarrow> radixmap_free copy1 w2; Some (NULL, w3) } else Some (copy1, w2) } })"

section \<open>Operations\<close>

partial_function (option) radix_set_loop ::
    "'v radixmap \<Rightarrow> nat ptr \<Rightarrow> bytes \<Rightarrow> 'v \<Rightarrow> 'v rworld \<Rightarrow> (int \<times> 'v radixmap \<times> 'v rworld) option" where
  "radix_set_loop m node key x w = do {
     c \<leftarrow> char_at key 0;
     if c = 0 then do {
       n \<leftarrow> get_node node w;
       (rc, w1) \<leftarrow> radixmap_store_value m node x w;
       if rc \<noteq> 0 then Some (- 1, m, w1)
       else Some (0, if x_has_value n then m else m\<lparr>x_size := sz_add (x_size m) 1\<rparr>, w1) }
     else do {
       link \<leftarrow> radixmap_find_child_link node c w;
       child \<leftarrow> read_link link w;
       if child = NULL then do {
         (leaf, w1) \<leftarrow> radixmap_node_new m key (strlen key) w;
         if leaf = NULL then Some (- 1, m, w1)
         else do {
           (rc, w2) \<leftarrow> radixmap_store_value m leaf x w1;
           if rc \<noteq> 0 then do { w3 \<leftarrow> radixmap_node_free_chain m leaf w2; Some (- 1, m, w3) }
           else do {
             w3 \<leftarrow> write_link link leaf w2;
             Some (0, m\<lparr>x_size := sz_add (x_size m) 1\<rparr>, w3) } } }
       else do {
         cn \<leftarrow> get_node child w;
         common \<leftarrow> radixmap_common_prefix_len (x_segment cn) (x_segment_len cn) key;
         if common = x_segment_len cn then radix_set_loop m child (drop common key) x w
         else radixmap_split_insert m link child key common x w } } }"

definition radixmap_set ::
    "'v radixmap ptr \<Rightarrow> bytes ptr \<Rightarrow> 'v ptr \<Rightarrow> 'v rworld \<Rightarrow> (int \<times> 'v radixmap ptr \<times> 'v rworld) option" where
  "radixmap_set p key value w =
     (if p = NULL \<or> x_root (pt p) = NULL \<or> key = NULL \<or> value = NULL then Some (- 1, p, w)
      else do {
        (rc, m, w1) \<leftarrow> radix_set_loop (pt p) (x_root (pt p)) (pt key) (pt value) w;
        Some (rc, Ptr m, w1) })"

definition radixmap_at_const :: "'v radixmap ptr \<Rightarrow> bytes ptr \<Rightarrow> 'v rworld \<Rightarrow> nat ptr option" where
  "radixmap_at_const p key w =
     (if p = NULL \<or> x_root (pt p) = NULL \<or> key = NULL then Some NULL
      else radixmap_match_exact_const (pt p) (pt key) w)"

definition radixmap_at :: "'v radixmap ptr \<Rightarrow> bytes ptr \<Rightarrow> 'v rworld \<Rightarrow> nat ptr option" where
  "radixmap_at p key w = radixmap_at_const p key w"

definition radixmap_contains :: "'v radixmap ptr \<Rightarrow> bytes ptr \<Rightarrow> 'v rworld \<Rightarrow> int option" where
  "radixmap_contains p key w = do { q \<leftarrow> radixmap_at_const p key w; Some (if q \<noteq> NULL then 1 else 0) }"

definition radixmap_delete ::
    "'v radixmap ptr \<Rightarrow> bytes ptr \<Rightarrow> 'v rworld \<Rightarrow> (int \<times> 'v radixmap ptr \<times> 'v rworld) option" where
  "radixmap_delete p key w =
     (if p = NULL \<or> x_root (pt p) = NULL \<or> key = NULL then Some (- 1, p, w)
      else do {
        (rc, _, m, w1) \<leftarrow> radixmap_delete_node (pt p) (x_root (pt p)) (pt key) True w;
        Some (if rc \<noteq> 0 then 0 else - 1, Ptr m, w1) })"

definition radixmap_clear :: "'v radixmap ptr \<Rightarrow> 'v rworld \<Rightarrow> ('v radixmap ptr \<times> 'v rworld) option" where
  "radixmap_clear p w =
     (if p = NULL \<or> x_root (pt p) = NULL then Some (p, w)
      else do {
        let m = pt p;
        r \<leftarrow> get_node (x_root m) w;
        w1 \<leftarrow> (if x_has_value r then do {
            x \<leftarrow> x_value r;
            modify (x_root m) (x_has_value_update (\<lambda>_. False)) (radixmap_destroy_value m x w) }
          else Some w);
        r1 \<leftarrow> get_node (x_root m) w1;
        w2 \<leftarrow> radixmap_node_free_chain m (x_child r1) w1;
        w3 \<leftarrow> write_link (Child_field (x_root m)) NULL w2;
        Some (Ptr (m\<lparr>x_size := 0\<rparr>), w3) })"

partial_function (option) prefix_search_loop :: "nat ptr \<Rightarrow> bytes \<Rightarrow> 'v rworld \<Rightarrow> int option" where
  "prefix_search_loop node prefix w = do {
     c \<leftarrow> char_at prefix 0;
     if c \<noteq> 0 then do {
       n \<leftarrow> get_node node w;
       child \<leftarrow> sibling_loop (x_child n) c w;
       if child = NULL then Some 0
       else do {
         cn \<leftarrow> get_node child w;
         common \<leftarrow> radixmap_common_prefix_len (x_segment cn) (x_segment_len cn) prefix;
         d \<leftarrow> char_at prefix common;
         if d = 0 then Some (if common > 0 then 1 else 0)
         else if common \<noteq> x_segment_len cn then Some 0
         else prefix_search_loop child (drop common prefix) w } }
     else Some 1 }"

definition radixmap_has_prefix :: "'v radixmap ptr \<Rightarrow> bytes ptr \<Rightarrow> 'v rworld \<Rightarrow> int option" where
  "radixmap_has_prefix p prefix w =
     (if p = NULL \<or> x_root (pt p) = NULL \<or> prefix = NULL then Some 0
      else do {
        c \<leftarrow> char_at (pt prefix) 0;
        if c = 0 then Some (if x_size (pt p) \<noteq> 0 then 1 else 0)
        else prefix_search_loop (x_root (pt p)) (pt prefix) w })"

section \<open>The macros of the header\<close>

definition radixmap_get_as :: "'v radixmap ptr \<Rightarrow> bytes ptr \<Rightarrow> 'v rworld \<Rightarrow> nat ptr option" where
  "radixmap_get_as p key w = radixmap_at p key w"

definition radixmap_get_const_as :: "'v radixmap ptr \<Rightarrow> bytes ptr \<Rightarrow> 'v rworld \<Rightarrow> nat ptr option" where
  "radixmap_get_const_as p key w = radixmap_at_const p key w"

definition radixmap_contains_value :: "'v radixmap ptr \<Rightarrow> bytes ptr \<Rightarrow> 'v rworld \<Rightarrow> int option" where
  "radixmap_contains_value p key w = radixmap_contains p key w"

definition radixmap_delete_value ::
    "'v radixmap ptr \<Rightarrow> bytes ptr \<Rightarrow> 'v rworld \<Rightarrow> (int \<times> 'v radixmap ptr \<times> 'v rworld) option" where
  "radixmap_delete_value p key w = radixmap_delete p key w"

definition radixmap_set_value ::
    "'v radixmap ptr \<Rightarrow> bytes ptr \<Rightarrow> 'v \<Rightarrow> 'v rworld \<Rightarrow> (int \<times> 'v radixmap ptr \<times> 'v rworld) option" where
  "radixmap_set_value p key value_value w = radixmap_set p key (Ptr value_value) w"

end
