(* ===== verification/Radix_Trie.thy ===== *)
theory Radix_Trie
  imports Radixmap "HOL-Library.Sublist"
begin

text \<open>
  Compressed tries with the addresses of their nodes, as mathematical objects: lookup, insertion, the
  entries, the invariant of the segments, and contexts (a trie with a hole at a link). No pointer is
  followed here.
\<close>

section \<open>Tries\<close>

text \<open>A node with its address, segment, value, first child and next sibling.\<close>

datatype 'v trie = Void | Knot nat bytes "'v option" "'v trie" "'v trie"

fun find_in :: "'v trie \<Rightarrow> bytes \<Rightarrow> 'v option" where
  "find_in Void k = None"
| "find_in (Knot a s u c n) k =
     (if k = [] then None
      else if hd s = hd k then
        (if prefix s k then (if length s = length k then u else find_in c (drop (length s) k)) else None)
      else find_in n k)"

fun heads :: "'v trie \<Rightarrow> 8 word set" where
  "heads Void = {}"
| "heads (Knot a s u c n) = insert (hd s) (heads n)"

text \<open>Segments are not empty, siblings start with different characters, a node without a value has
  children, and no path is longer than \<open>L\<close>.\<close>

fun good :: "nat \<Rightarrow> 'v trie \<Rightarrow> bool" where
  "good L Void \<longleftrightarrow> True"
| "good L (Knot a s u c n) \<longleftrightarrow> s \<noteq> [] \<and> 0 \<notin> set s \<and> length s \<le> L \<and> (u = None \<longrightarrow> c \<noteq> Void) \<and> hd s \<notin> heads n
     \<and> good (L - length s) c \<and> good L n"

lemma find_in_Nil [simp]: "find_in t [] = None"
  by (cases t) auto

lemma find_in_heads: "find_in t k \<noteq> None \<Longrightarrow> k \<noteq> [] \<and> hd k \<in> heads t"
  by (induction t) (auto split: if_splits)

lemma find_in_other: "hd k \<notin> heads t \<Longrightarrow> find_in t k = None"
  using find_in_heads [of t k] by blast

lemma find_in_below: "s \<noteq> [] \<Longrightarrow> hd s \<notin> heads n \<Longrightarrow>
    find_in (Knot a s u c n) (s @ k) = (if k = [] then u else find_in c k)"
  by auto

section \<open>Insertion\<close>

definition common :: "bytes \<Rightarrow> bytes \<Rightarrow> nat" where
  "common s k = length (longest_common_prefix s k)"

lemma take_prefix: "prefix p s \<Longrightarrow> take (length p) s = p"
  by (auto simp: prefix_def)

lemma common_take: "take (common s k) s = longest_common_prefix s k" "take (common s k) k = longest_common_prefix s k"
  unfolding common_def by (rule take_prefix [OF longest_common_prefix_prefix1], rule take_prefix [OF longest_common_prefix_prefix2])

lemma common_le: "common s k \<le> length s" "common s k \<le> length k"
  using longest_common_prefix_prefix1 [of s k] longest_common_prefix_prefix2 [of s k]
  by (auto simp: common_def dest: prefix_length_le)

lemma common_full: "common s k = length s \<longleftrightarrow> prefix s k"
proof
  assume "common s k = length s"
  then show "prefix s k" using common_take [of s k] longest_common_prefix_prefix2 [of s k] by simp
next
  assume "prefix s k"
  then have "prefix s (longest_common_prefix s k)" by (simp add: longest_common_prefix_max_prefix)
  then show "common s k = length s" using common_le(1) [of s k] by (auto simp: common_def dest: prefix_length_le)
qed

lemma common_pos: "s \<noteq> [] \<Longrightarrow> k \<noteq> [] \<Longrightarrow> hd s = hd k \<Longrightarrow> 0 < common s k"
  by (cases s; cases k) (auto simp: common_def)

text \<open>After the common prefix the strings differ.\<close>

lemma common_differ:
  assumes "common s k < length s" "common s k < length k"
  shows "s ! common s k \<noteq> k ! common s k"
proof
  let ?j = "common s k"
  assume eq: "s ! ?j = k ! ?j"
  have t: "take (Suc ?j) s = take (Suc ?j) k" using assms eq common_take [of s k] by (simp add: take_Suc_conv_app_nth)
  have "prefix (take (Suc ?j) s) s" "prefix (take (Suc ?j) s) k" by (simp add: take_is_prefix) (simp add: t take_is_prefix)
  then have "prefix (take (Suc ?j) s) (longest_common_prefix s k)" by (rule longest_common_prefix_max_prefix)
  then have "Suc ?j \<le> ?j" using assms(1) by (auto simp: common_def dest: prefix_length_le)
  then show False by simp
qed

text \<open>The new nodes of an insertion are at \<open>p\<close> and \<open>q\<close>.\<close>

fun ins :: "nat \<Rightarrow> nat \<Rightarrow> bytes \<Rightarrow> 'v \<Rightarrow> 'v trie \<Rightarrow> 'v trie" where
  "ins p q k v Void = Knot p k (Some v) Void Void"
| "ins p q k v (Knot a s u c n) =
     (if hd s \<noteq> hd k then Knot a s u c (ins p q k v n)
      else let j = common s k in
        if j = length s then
          (if j = length k then Knot a s (Some v) c n else Knot a s u (ins p q (drop j k) v c) n)
        else if j = length k then Knot p k (Some v) (Knot a (drop j s) u c Void) n
        else Knot p (take j k) None (Knot q (drop j k) (Some v) Void (Knot a (drop j s) u c Void)) n)"

lemma heads_ins: "good L t \<Longrightarrow> k \<noteq> [] \<Longrightarrow> heads (ins p q k v t) = insert (hd k) (heads t)"
proof (induction t)
  case (Knot a s u c n)
  show ?case
  proof (cases "hd s = hd k")
    case True
    then have "0 < common s k" using Knot.prems common_pos [of s k] by simp
    then have "hd (take (common s k) k) = hd k" by (simp add: hd_take)
    then show ?thesis using True by (auto simp: Let_def)
  qed (use Knot in auto)
qed simp

lemma ins_neq [simp]: "ins p q k v t \<noteq> Void"
  by (cases t) (auto simp: Let_def)

lemma good_ins: "good L t \<Longrightarrow> k \<noteq> [] \<Longrightarrow> 0 \<notin> set k \<Longrightarrow> length k \<le> L \<Longrightarrow> good L (ins p q k v t)"
proof (induction t arbitrary: L k)
  case (Knot a s u c n)
  let ?j = "common s k"
  have s: "s \<noteq> []" "0 \<notin> set s" "length s \<le> L" "good (L - length s) c" "good L n" "hd s \<notin> heads n" "u = None \<longrightarrow> c \<noteq> Void"
    using Knot.prems(1) by simp_all
  note le = common_le [of s k]
  show ?case
  proof (cases "hd s = hd k")
    case False
    then show ?thesis using Knot heads_ins [OF s(5) Knot.prems(2)] by simp
  next
    case True
    have pos: "0 < ?j" using common_pos [OF s(1) Knot.prems(2) True] .
    then have hd: "hd (take ?j k) = hd s" using True by (simp add: hd_take)
    have zero: "0 \<notin> set (take i k)" "0 \<notin> set (drop i k)" "0 \<notin> set (drop i s)" for i
      using Knot.prems(3) s(2) by (auto dest: in_set_takeD in_set_dropD)
    consider "?j = length s" "?j = length k" | "?j = length s" "?j < length k" | "?j < length s" "?j = length k"
      | "?j < length s" "?j < length k" using le by linarith
    then show ?thesis
    proof cases
      case 1
      then show ?thesis using True s Knot.prems by simp
    next
      case 2
      have "good (L - length s) (ins p q (drop ?j k) v c)"
        using Knot.IH(1) [OF s(4), of "drop ?j k"] 2 zero(2) Knot.prems(4) by simp
      then show ?thesis using True s 2 by simp
    next
      case 3
      then show ?thesis using True s Knot.prems(2-4) zero(3) pos by (simp add: Let_def)
    next
      case 4
      have "hd (drop ?j k) \<noteq> hd (drop ?j s)" using common_differ [OF 4] 4 by (simp add: hd_drop_conv_nth)
      then show ?thesis using True s Knot.prems(2-4) zero pos hd 4 by (simp add: Let_def diff_le_mono)
    qed
  qed
qed simp

text \<open>Looking up a key that shares the prefix \<open>p0\<close> with the segment.\<close>

lemma find_in_prefix: "p0 \<noteq> [] \<Longrightarrow> find_in (Knot a (p0 @ s) u c n) (p0 @ y) =
    (if prefix s y then (if length s = length y then u else find_in c (drop (length s) y)) else None)"
  by auto

lemma find_in_no_prefix: "p0 \<noteq> [] \<Longrightarrow> hd p0 = hd x \<Longrightarrow> \<not> prefix p0 x \<Longrightarrow> find_in (Knot a (p0 @ s) u c n) x = None"
  by (auto dest: append_prefixD)

lemma prefix_length_eq: "prefix s k \<Longrightarrow> length s = length k \<Longrightarrow> s = k"
  by (auto simp: prefix_def)

lemma find_fork: "k \<noteq> [] \<Longrightarrow> hd s \<noteq> hd k \<Longrightarrow>
    find_in (Knot q k (Some v) Void (Knot a s u c Void)) y = (if y = k then Some v else find_in (Knot a s u c Void) y)"
  by (cases "y = []"; cases "hd y = hd k") (auto dest: prefix_length_eq)

lemma common_split:
  assumes "s \<noteq> []" "k \<noteq> []" "hd s = hd k"
  obtains p0 s' k' where "s = p0 @ s'" "k = p0 @ k'" "p0 \<noteq> []" "common s k = length p0" "s' = [] \<or> k' = [] \<or> hd s' \<noteq> hd k'"
proof (rule that)
  let ?j = "common s k"
  show "s = take ?j s @ drop ?j s" "k = take ?j s @ drop ?j k" using common_take [of s k] append_take_drop_id by metis+
  show "take ?j s \<noteq> []" using common_pos [OF assms] assms(1) by simp
  show "?j = length (take ?j s)" using common_le(1) [of s k] by simp
  show "drop ?j s = [] \<or> drop ?j k = [] \<or> hd (drop ?j s) \<noteq> hd (drop ?j k)"
    using common_differ [of s k] by (auto simp: hd_drop_conv_nth not_le)
qed

lemma find_ins:
  "good L t \<Longrightarrow> k \<noteq> [] \<Longrightarrow> find_in (ins p q k v t) x = (if x = k then Some v else find_in t x)"
proof (induction t arbitrary: L k x)
  case Void
  then show ?case by (auto simp: prefix_def)
next
  case (Knot a s u c n)
  have s: "s \<noteq> []" "good (L - length s) c" "good L n" "hd s \<notin> heads n" using Knot.prems(1) by simp_all
  show ?case
  proof (cases "hd s = hd k")
    case False
    then show ?thesis using Knot.IH(2) [OF s(3) Knot.prems(2), of x] Knot.prems(2) by (cases "x = k") auto
  next
    case True
    from common_split [OF s(1) Knot.prems(2) True] obtain p0 s' k' where
      e: "s = p0 @ s'" "k = p0 @ k'" "p0 \<noteq> []" "common s k = length p0" "s' = [] \<or> k' = [] \<or> hd s' \<noteq> hd k'" .
    have hp: "hd s = hd p0" "hd k = hd p0" using e(1-3) by simp_all
    have new: "ins p q k v (Knot a s u c n) =
      (if s' = [] then (if k' = [] then Knot a s (Some v) c n else Knot a s u (ins p q k' v c) n)
       else if k' = [] then Knot p p0 (Some v) (Knot a s' u c Void) n
       else Knot p p0 None (Knot q k' (Some v) Void (Knot a s' u c Void)) n)"
      using True e(4) by (simp add: Let_def) (simp add: e(1,2))
    consider "x = [] \<or> hd x \<noteq> hd p0" | "hd x = hd p0" "\<not> prefix p0 x" | y where "x = p0 @ y"
      by (auto simp: prefix_def)
    then show ?thesis
    proof cases
      case 1
      then have "x \<noteq> k" using hp(2) Knot.prems(2) by auto
      then show ?thesis unfolding new using 1 hp by (cases "x = []") simp_all
    next
      case 2
      have "find_in (Knot b p0 u' c' n) x = None" for b u' c'
        using find_in_no_prefix [OF e(3) _ 2(2), of b "[]" u' c' n] 2(1) by simp
      moreover have "find_in (Knot b s u' c' n) x = None" for b u' c'
        using find_in_no_prefix [OF e(3) _ 2(2), of b s' u' c' n] 2(1) e(1) by simp
      moreover have "x \<noteq> k" using 2(2) e(2) by (auto simp: prefix_def)
      ultimately show ?thesis unfolding new by simp
    next
      case 3
      have old: "find_in (Knot b s u' c' n) x = (if prefix s' y then (if length s' = length y then u' else find_in c' (drop (length s') y)) else None)" for b u' c'
        unfolding e(1) 3 by (rule find_in_prefix [OF e(3)])
      have at: "find_in (Knot b p0 u' c' n) x = (if y = [] then u' else find_in c' y)" for b u' c'
        using find_in_prefix [OF e(3), of b "[]" u' c' n y] 3 by simp
      have xk: "x = k \<longleftrightarrow> y = k'" using e(2) 3 by simp
      have IH: "k' \<noteq> [] \<Longrightarrow> find_in (ins p q k' v c) z = (if z = k' then Some v else find_in c z)" for z
        using Knot.IH(1) [OF s(2), of k' z] by simp
      have sub: "find_in (Knot b s' u c Void) y = (if prefix s' y then (if length s' = length y then u else find_in c (drop (length s') y)) else None)"
        if "s' \<noteq> []" for b using that by (cases y; cases s') auto
      consider "s' = []" "k' = []" | "s' = []" "k' \<noteq> []" | "s' \<noteq> []" "k' = []" | "s' \<noteq> []" "k' \<noteq> []" "hd s' \<noteq> hd k'"
        using e(5) by blast
      then show ?thesis
      proof cases
        case 1
        then show ?thesis unfolding new xk by (simp add: old del: find_in.simps(2))
      next
        case 2
        then show ?thesis unfolding new xk by (simp add: old IH del: find_in.simps(2))
      next
        case 3
        have "ins p q k v (Knot a s u c n) = Knot p p0 (Some v) (Knot a s' u c Void) n" unfolding new using 3 by simp
        then show ?thesis unfolding xk using 3 by (simp only: at old sub) (auto simp: prefix_def)
      next
        case 4
        have t: "ins p q k v (Knot a s u c n) = Knot p p0 None (Knot q k' (Some v) Void (Knot a s' u c Void)) n"
          unfolding new using 4 by simp
        have leaf: "find_in (Knot q k' (Some v) Void (Knot a s' u c Void)) y
            = (if y = k' then Some v else find_in (Knot a s' u c Void) y)"
          by (rule find_fork [OF 4(2,3)])
        show ?thesis unfolding t xk using 4 by (simp only: at old sub leaf) (auto simp: prefix_def)
      qed
    qed
  qed
qed

section \<open>Entries\<close>

fun ents :: "'v trie \<Rightarrow> (bytes \<times> 'v) list" where
  "ents Void = []"
| "ents (Knot a s u c n) = (case u of None \<Rightarrow> [] | Some v \<Rightarrow> [(s, v)]) @ map (\<lambda>(k, v). (s @ k, v)) (ents c) @ ents n"

fun knots :: "'v trie \<Rightarrow> nat list" where
  "knots Void = []"
| "knots (Knot a s u c n) = a # knots c @ knots n"

text \<open>The value below a node, without the segment of the node.\<close>

definition value_below :: "'v option \<Rightarrow> 'v trie \<Rightarrow> bytes \<rightharpoonup> 'v" where
  "value_below u c k = (if k = [] then u else find_in c k)"

lemma map_of_below: "map_of (map (\<lambda>(k, v). (s @ k, v)) es) x = (if prefix s x then map_of es (drop (length s) x) else None)"
  by (induction es) (auto simp: prefix_def)

lemma map_of_ents: "good L t \<Longrightarrow> map_of (ents t) = find_in t"
proof (induction t arbitrary: L)
  case (Knot a s u c n)
  have IH: "map_of (ents c) = find_in c" "map_of (ents n) = find_in n" using Knot by auto
  have s: "s \<noteq> []" "hd s \<notin> heads n" using Knot.prems by simp_all
  show ?case
  proof
    fix x
    have other: "find_in n x = None" if "x \<noteq> []" "hd x = hd s" using s(2) that find_in_other [of x n] by simp
    show "map_of (ents (Knot a s u c n)) x = find_in (Knot a s u c n) x"
    proof (cases "prefix s x")
      case True
      then obtain y where x: "x = s @ y" by (auto simp: prefix_def)
      have "find_in n x = None" using other s(1) by (simp add: x)
      then show ?thesis using s(1) by (cases "y = []") (simp_all add: x map_of_below IH map_add_def split: option.splits)
    next
      case False
      then have "x \<noteq> s" by auto
      then show ?thesis using False other by (simp add: map_of_below IH map_add_def split: option.splits)
    qed
  qed
qed auto

lemma ents_heads: "good L t \<Longrightarrow> (k, v) \<in> set (ents t) \<Longrightarrow> k \<noteq> [] \<and> hd k \<in> heads t"
  using weak_map_of_SomeI [of k v "ents t"] find_in_heads [of t k] by (simp add: map_of_ents)

lemma distinct_ents: "good L t \<Longrightarrow> distinct (map fst (ents t))"
proof (induction t arbitrary: L)
  case (Knot a s u c n)
  have s: "s \<noteq> []" "hd s \<notin> heads n" "good (L - length s) c" "good L n" using Knot.prems by simp_all
  have below: "distinct (map fst (map (\<lambda>(k, v). (s @ k, v)) es))" if "distinct (map fst es)" for es :: "(bytes \<times> 'v) list"
    using that by (simp add: distinct_map inj_on_def case_prod_unfold comp_def)
  have "(s @ k, v) \<notin> set (ents n)" for k v using ents_heads [OF s(4), of "s @ k" v] s(1,2) by auto
  moreover have "(s, v) \<notin> set (ents n)" for v using ents_heads [OF s(4), of s v] s(2) by auto
  moreover have "([], v) \<notin> set (ents c)" for v using ents_heads [OF s(3), of "[]" v] by auto
  ultimately show ?case
    using below [OF Knot.IH(1) [OF s(3)]] Knot.IH(2) [OF s(4)] by (auto split: option.splits)
qed simp

lemma distinct_top: "good L c \<Longrightarrow> distinct (map fst (ents (Knot r [] u c Void)))"
  using distinct_ents [of L c] ents_heads [of L c "[]"] by (auto split: option.splits simp: case_prod_unfold)

lemma map_of_top: "good L c \<Longrightarrow> map_of (ents (Knot r [] u c Void)) = value_below u c"
  using map_of_ents [of L c] by (auto simp: value_below_def fun_eq_iff split: option.splits)

lemma ents_knots: "length (ents t) \<le> length (knots t)"
  by (induction t) (auto split: option.splits)

lemma has_entry: "good L t \<Longrightarrow> t \<noteq> Void \<Longrightarrow> ents t \<noteq> []"
  by (induction t arbitrary: L) (auto split: option.splits)

section \<open>Siblings before a link\<close>

type_synonym 'v sib = "nat \<times> bytes \<times> 'v option \<times> 'v trie"

fun chain :: "'v sib list \<Rightarrow> 'v trie \<Rightarrow> 'v trie" where
  "chain [] t = t"
| "chain ((a, s, u, c) # bs) t = Knot a s u c (chain bs t)"

fun seek :: "8 word \<Rightarrow> 'v trie \<Rightarrow> 'v sib list \<times> 'v trie" where
  "seek ch Void = ([], Void)"
| "seek ch (Knot a s u c n) = (if hd s = ch then ([], Knot a s u c n) else (let (bs, t) = seek ch n in ((a, s, u, c) # bs, t)))"

definition sib_heads :: "'v sib list \<Rightarrow> 8 word set" where
  "sib_heads bs = (\<lambda>(a, s, u, c). hd s) ` set bs"

lemma sib_heads_simps [simp]: "sib_heads [] = {}" "sib_heads ((a, s, u, c) # bs) = insert (hd s) (sib_heads bs)"
  by (simp_all add: sib_heads_def)

lemma seek_split: "seek ch t = (bs, t') \<Longrightarrow> t = chain bs t' \<and> ch \<notin> sib_heads bs \<and> (t' = Void \<or> (\<exists>a s u c n. t' = Knot a s u c n \<and> hd s = ch))"
  by (induction t arbitrary: bs) (auto split: if_splits prod.splits)

lemma heads_chain [simp]: "heads (chain bs t) = sib_heads bs \<union> heads t"
  by (induction bs t rule: chain.induct) auto

lemma find_in_chain: "k \<noteq> [] \<Longrightarrow> hd k \<notin> sib_heads bs \<Longrightarrow> find_in (chain bs t) k = find_in t k"
  by (induction bs t rule: chain.induct) auto

lemma find_in_chain_if: "find_in (chain bs t) k =
    (if hd k \<in> sib_heads bs then find_in (chain bs Void) k else find_in t k)"
  by (induction bs t rule: chain.induct) auto

lemma good_chain: "good L (chain bs t) \<Longrightarrow> good L t"
  by (induction bs t rule: chain.induct) auto

lemma good_chain_swap: "good L (chain bs t) \<Longrightarrow> good L t' \<Longrightarrow> heads t' \<subseteq> heads t \<Longrightarrow> good L (chain bs t')"
  by (induction bs t rule: chain.induct) auto

lemma ins_chain: "hd k \<notin> sib_heads bs \<Longrightarrow> ins p q k v (chain bs t) = chain bs (ins p q k v t)"
  by (induction bs t rule: chain.induct) auto

lemma chain_Void [simp]: "chain bs t = Void \<longleftrightarrow> bs = [] \<and> t = Void"
  by (cases bs) auto

section \<open>Compression\<close>

text \<open>A node without a value has at least two children.\<close>

fun many :: "'v trie \<Rightarrow> bool" where
  "many Void \<longleftrightarrow> False"
| "many (Knot a s u c n) \<longleftrightarrow> n \<noteq> Void"

fun compact :: "'v trie \<Rightarrow> bool" where
  "compact Void \<longleftrightarrow> True"
| "compact (Knot a s u c n) \<longleftrightarrow> (u = None \<longrightarrow> many c) \<and> compact c \<and> compact n"

fun siblings :: "'v trie \<Rightarrow> nat" where
  "siblings Void = 0"
| "siblings (Knot a s u c n) = Suc (siblings n)"

lemma many_siblings: "many t \<longleftrightarrow> 2 \<le> siblings t"
proof (cases t)
  case (Knot a s u c n)
  then show ?thesis by (cases n) simp_all
qed simp

lemma compact_bound: "compact t \<Longrightarrow> length (knots t) + siblings t \<le> 2 * length (ents t)"
  by (induction t) (auto simp: many_siblings split: option.splits)

lemma siblings_ins: "siblings t \<le> siblings (ins p q k v t)"
  by (induction t) (auto simp: Let_def)

lemma many_ins: "many t \<Longrightarrow> many (ins p q k v t)"
  using siblings_ins [of t p q k v] by (simp add: many_siblings)

lemma compact_ins: "compact t \<Longrightarrow> compact (ins p q k v t)"
  by (induction t arbitrary: k) (auto simp: Let_def many_ins)

lemma compact_chain: "compact (chain bs t) \<Longrightarrow> compact t' \<Longrightarrow> compact (chain bs t')"
  by (induction bs t rule: chain.induct) auto

lemma compact_chainD: "compact (chain bs t) \<Longrightarrow> compact t"
  by (induction bs t rule: chain.induct) auto

end
