(* ===== verification/Radix_Heap.thy ===== *)
theory Radix_Heap
  imports Radix_Trie
begin

text \<open>
  Tries in the store: when the store holds a trie, and the contracts of the functions of
  \<open>radixmap.c\<close> that work on single nodes, links and chains of siblings.
\<close>

section \<open>Tries in the store\<close>

definition node_is :: "'v radixmap_node \<Rightarrow> bytes \<Rightarrow> 'v option \<Rightarrow> nat ptr \<Rightarrow> nat ptr \<Rightarrow> bool" where
  "node_is nd s u c n \<longleftrightarrow> x_child nd = c \<and> x_next nd = n \<and> x_segment nd = s \<and> x_segment_len nd = length s
     \<and> (case u of None \<Rightarrow> \<not> x_has_value nd | Some v \<Rightarrow> x_has_value nd \<and> x_value nd = Some v)"

lemma node_isD:
  assumes "node_is nd s u c n"
  shows "x_child nd = c" "x_next nd = n" "x_segment nd = s" "x_segment_len nd = length s" "x_has_value nd \<longleftrightarrow> u \<noteq> None"
    "u = Some v \<Longrightarrow> x_value nd = Some v"
  using assms by (auto simp: node_is_def split: option.splits)

lemma node_is_update:
  assumes "node_is nd s u c n"
  shows "node_is (x_child_update (\<lambda>_. c') nd) s u c' n" "node_is (x_next_update (\<lambda>_. n') nd) s u c n'"
    "node_is (x_has_value_update (\<lambda>_. False) nd) s None c n"
    "node_is (x_has_value_update (\<lambda>_. True) (x_value_update (\<lambda>_. Some v) nd)) s (Some v) c n"
    "u \<noteq> None \<Longrightarrow> node_is (x_value_update (\<lambda>_. Some v) nd) s (Some v) c n"
  using assms by (auto simp: node_is_def split: option.splits)

fun tptr :: "'v trie \<Rightarrow> nat ptr" where
  "tptr Void = NULL"
| "tptr (Knot a s u c n) = Ptr a"

definition node_at :: "(nat \<Rightarrow> 'v radixmap_node option) \<Rightarrow> nat \<Rightarrow> bytes \<Rightarrow> 'v option \<Rightarrow> nat ptr \<Rightarrow> nat ptr \<Rightarrow> bool" where
  "node_at C a s u c n \<longleftrightarrow> (\<exists>nd. C a = Some nd \<and> node_is nd s u c n)"

lemma node_atE:
  assumes "node_at C a s u c n"
  obtains nd where "C a = Some nd" "node_is nd s u c n"
  using assms by (auto simp: node_at_def)

lemma node_at_upd [simp]: "node_at (C(b \<mapsto> nd)) a s u c n \<longleftrightarrow> (if a = b then node_is nd s u c n else node_at C a s u c n)"
  "node_at (C(b := None)) a s u c n \<longleftrightarrow> a \<noteq> b \<and> node_at C a s u c n"
  by (auto simp: node_at_def)

fun trie_at :: "(nat \<Rightarrow> 'v radixmap_node option) \<Rightarrow> 'v trie \<Rightarrow> bool" where
  "trie_at C Void \<longleftrightarrow> True"
| "trie_at C (Knot a s u c n) \<longleftrightarrow> node_at C a s u (tptr c) (tptr n) \<and> trie_at C c \<and> trie_at C n"

definition places :: "'v trie \<Rightarrow> nat set" where "places t = set (knots t)"
definition separate :: "'v trie \<Rightarrow> bool" where "separate t \<longleftrightarrow> distinct (knots t)"

lemma places_simps [simp]: "places Void = {}" "places (Knot a s u c n) = insert a (places c \<union> places n)" "finite (places t)"
  by (simp_all add: places_def)

lemma separate_simps [simp]: "separate Void"
  "separate (Knot a s u c n) \<longleftrightarrow> a \<notin> places c \<and> a \<notin> places n \<and> places c \<inter> places n = {} \<and> separate c \<and> separate n"
  by (auto simp: separate_def places_def)

lemma trie_at_cong: "(\<And>a. a \<in> places t \<Longrightarrow> C' a = C a) \<Longrightarrow> trie_at C' t = trie_at C t"
  by (induction t) (auto simp: node_at_def)

lemma trie_at_used: "trie_at C t \<Longrightarrow> a \<in> places t \<Longrightarrow> C a \<noteq> None"
  by (induction t) (auto simp: node_at_def)

lemma trie_at_fresh: "trie_at (cells_of w) t \<Longrightarrow> store_ok w \<Longrightarrow> a \<in> places t \<Longrightarrow> a < fresh w"
  using trie_at_used unfolding store_ok_def by blast

lemma trie_at_upd [simp]: "a \<notin> places t \<Longrightarrow> trie_at (C(a := v)) t = trie_at C t"
  by (rule trie_at_cong) auto

lemma trie_at_restrict: "A \<inter> places t = {} \<Longrightarrow> trie_at (C |` (- A)) t = trie_at C t"
  by (rule trie_at_cong) (auto simp: restrict_map_def)

lemma tptr_NULL [simp]: "tptr t = NULL \<longleftrightarrow> t = Void" "NULL = tptr t \<longleftrightarrow> t = Void"
  by (cases t; simp)+

section \<open>Configurations\<close>

definition sizes_ok :: "'v radixmap \<Rightarrow> bool" where
  "sizes_ok m \<longleftrightarrow> 0 < x_value_size m \<and> 40 + x_value_size m \<le> SIZE_MAX"

definition radix_room :: "'v radixmap \<Rightarrow> 'v rworld \<Rightarrow> bool" where
  "radix_room m w \<longleftrightarrow> 40 + x_value_size m \<le> PTRDIFF_MAX \<and> fresh w + 2 \<le> SIZE_MAX"

section \<open>Single nodes\<close>

definition blank :: "bytes \<Rightarrow> 'v radixmap_node" where
  "blank s = \<lparr>x_child = NULL, x_next = NULL, x_segment = s, x_segment_len = length s, x_has_value = False, x_value = None\<rparr>"

lemma blank_is [simp]: "node_is (blank s) s None NULL NULL"
  by (simp add: blank_def node_is_def)

lemma radix_node_new_ok:
  assumes ok: "store_ok w" and sz: "sizes_ok m" and len: "n \<le> length segment" "n < PTRDIFF_MAX"
  shows "\<exists>q w'. radixmap_node_new m segment n w = Some (q, w')
    \<and> (no_fail w \<longrightarrow> 40 + x_value_size m \<le> PTRDIFF_MAX \<longrightarrow> fresh w < SIZE_MAX \<longrightarrow> q \<noteq> NULL) \<and> fresh w' \<le> Suc (fresh w)
    \<and> (q = NULL \<and> becomes w w' (cells_of w) 0 []
       \<or> q = Ptr (fresh w) \<and> becomes w w' ((cells_of w)(fresh w \<mapsto> blank (take n segment))) 2 [] \<and> fresh w' = Suc (fresh w))"
proof -
  let ?n = "\<lparr>x_child = NULL, x_next = NULL, x_segment = [], x_segment_len = 0, x_has_value = False, x_value = None\<rparr>"
  have bytes: "sz_add 40 (x_value_size m) = 40 + x_value_size m" using sz by (simp add: sizes_ok_def)
  have slen: "sz_add n 1 = n + 1" "n + 1 \<le> PTRDIFF_MAX" using len SIZE_MAX_PTRDIFF_MAX by simp_all
  obtain p w1 where new: "new_node (40 + x_value_size m) ?n w = (p, w1)" by fastforce
  note e = becomes_new_node [OF new ok]
  show ?thesis
  proof (cases "p = NULL")
    case True
    then have "radixmap_node_new m segment n w = Some (NULL, w1)" using new bytes by (simp add: radixmap_node_new_def)
    then show ?thesis using e True by auto
  next
    case False
    let ?a = "fresh w"
    have b1: "p = Ptr ?a" "becomes w w1 ((cells_of w)(?a \<mapsto> ?n)) 1 []" "fresh w1 = Suc ?a" using e(1) False by auto
    note D1 = becomesD [OF b1(2)]
    obtain ok2 w2 where m: "malloc (n + 1) w1 = (ok2, w2)" by fastforce
    note b2 = becomes_malloc [OF m D1(1)]
    note D2 = becomesD [OF b2(1)]
    show ?thesis
    proof (cases ok2)
      case True
      from becomes_modify [OF D2(1), of ?a ?n "\<lambda>nd. nd\<lparr>x_segment := take n segment, x_segment_len := n\<rparr>"] D1(2) D2(2)
      obtain w3 where w3: "modify (Ptr ?a) (\<lambda>nd. nd\<lparr>x_segment := take n segment, x_segment_len := n\<rparr>) w2 = Some w3"
        "becomes w2 w3 ((cells_of w2)(?a \<mapsto> ?n\<lparr>x_segment := take n segment, x_segment_len := n\<rparr>)) 0 []" "fresh w3 = fresh w2"
        by auto
      have run: "radixmap_node_new m segment n w = Some (Ptr ?a, w3)"
        using new bytes slen m True b1(1) w3(1) len by (simp add: radixmap_node_new_def)
      have "becomes w w3 ((cells_of w2)(?a \<mapsto> ?n\<lparr>x_segment := take n segment, x_segment_len := n\<rparr>)) 2 []"
        by (rule becomes_trans [OF b1(2) becomes_trans [OF b2(1) w3(2) refl refl]]) (simp_all add: True)
      moreover have "(cells_of w2)(?a \<mapsto> ?n\<lparr>x_segment := take n segment, x_segment_len := n\<rparr>) = (cells_of w)(?a \<mapsto> blank (take n segment))"
        using D1(2) D2(2) len by (simp add: blank_def)
      ultimately show ?thesis using run w3(3) b2(2) b1(3) by (intro exI [of _ "Ptr ?a"] exI [of _ w3]) simp
    next
      case False
      from becomes_free_node [OF D2(1), of ?a ?n] D1(2) D2(2) obtain w3 where
        w3: "free_node (Ptr ?a) w2 = Some w3" "becomes w2 w3 ((cells_of w2)(?a := None)) (- 1) []" "fresh w3 = fresh w2" by auto
      have run: "radixmap_node_new m segment n w = Some (NULL, w3)"
        using new bytes slen m False b1(1) w3(1) len by (simp add: radixmap_node_new_def)
      have "becomes w w3 ((cells_of w2)(?a := None)) 0 []"
        by (rule becomes_trans [OF b1(2) becomes_trans [OF b2(1) w3(2) refl refl]]) (simp_all add: False)
      moreover have "(cells_of w2)(?a := None) = cells_of w" using D1(2) D2(2) store_ok_fresh [OF ok] by auto
      moreover have "\<not> no_fail w" using b2(3) D1(6) False slen(2) by auto
      ultimately show ?thesis using run w3(3) b2(2) b1(3) by (intro exI [of _ NULL] exI [of _ w3]) simp
    qed
  qed
qed

text \<open>The value that a store replaces.\<close>

definition old :: "'v option \<Rightarrow> 'v list" where "old u = (case u of None \<Rightarrow> [] | Some v \<Rightarrow> [v])"

lemma old_simps [simp]: "old None = []" "old (Some v) = [v]"
  by (simp_all add: old_def)

lemma store_value_ok:
  assumes ok: "store_ok w" and node: "node_at (cells_of w) a s u c n"
  shows "\<exists>rc w'. radixmap_store_value m (Ptr a) x w = Some (rc, w') \<and> fresh w' = fresh w
    \<and> (no_fail w \<longrightarrow> x_value_size m \<le> PTRDIFF_MAX \<longrightarrow> rc = 0)
    \<and> (rc = - 1 \<and> becomes w w' (cells_of w) 0 []
       \<or> rc = 0 \<and> (\<exists>nd. becomes w w' ((cells_of w)(a \<mapsto> nd)) 0 (log_if (x_value_destroy m) (old u))
            \<and> node_is nd s (Some (copied (x_value_copy m) x)) c n))"
proof -
  from node obtain nd where nd: "cells_of w a = Some nd" "node_is nd s u c n" by (rule node_atE)
  note D = node_isD [OF nd(2)] and U = node_is_update [OF nd(2)]
  let ?v = "copied (x_value_copy m) x"
  consider "u = None" | y where "u = Some y" "x_value_copy m = None" | y f where "u = Some y" "x_value_copy m = Some f"
    by (cases u; cases "x_value_copy m") auto
  then show ?thesis
  proof cases
    case 1
    obtain r w1 where r: "copy_element (x_value_copy m) x w = (r, w1)" by fastforce
    note b1 = becomes_copy [OF r ok]
    note D1 = becomesD [OF b1(1)]
    show ?thesis
    proof (cases r)
      case None
      then have "radixmap_store_value m (Ptr a) x w = Some (- 1, w1)"
        using nd(1) D(5) 1 r by (simp add: radixmap_store_value_def radixmap_copy_value_def)
      then show ?thesis using b1 None by auto
    next
      case (Some v)
      let ?n1 = "x_value_update (\<lambda>_. Some ?v) nd"
      from becomes_modify [OF D1(1), of a nd "x_value_update (\<lambda>_. Some ?v)"] nd(1) D1(2) obtain w2 where
        w2: "modify (Ptr a) (x_value_update (\<lambda>_. Some ?v)) w1 = Some w2" "becomes w1 w2 ((cells_of w)(a \<mapsto> ?n1)) 0 []" "fresh w2 = fresh w1"
        by auto
      note D2 = becomesD [OF w2(2)]
      from becomes_modify [OF D2(1), of a ?n1 "x_has_value_update (\<lambda>_. True)"] D2(2) obtain w3 where
        w3: "modify (Ptr a) (x_has_value_update (\<lambda>_. True)) w2 = Some w3"
          "becomes w2 w3 ((cells_of w)(a \<mapsto> x_has_value_update (\<lambda>_. True) ?n1)) 0 []" "fresh w3 = fresh w2"
        by auto
      have run: "radixmap_store_value m (Ptr a) x w = Some (0, w3)"
        using nd(1) D(5) 1 r Some b1(4) w2(1) w3(1) by (simp add: radixmap_store_value_def radixmap_copy_value_def put_value_def)
      have "becomes w w3 ((cells_of w)(a \<mapsto> x_has_value_update (\<lambda>_. True) ?n1)) 0 (log_if (x_value_destroy m) (old u))"
        by (rule becomes_trans [OF b1(1) becomes_trans [OF w2(2) w3(2) refl refl]]) (simp_all add: 1)
      then show ?thesis using run U(4) w3(3) w2(3) b1(2) by auto
    qed
  next
    case (2 y)
    let ?n1 = "x_value_update (\<lambda>_. Some x) nd"
    note b1 = becomes_destroy [OF ok, of "x_value_destroy m" y]
    note D1 = becomesD [OF b1(1)]
    from becomes_modify [OF D1(1), of a nd "x_value_update (\<lambda>_. Some x)"] nd(1) obtain w2 where
      w2: "modify (Ptr a) (x_value_update (\<lambda>_. Some x)) (destroy_element (x_value_destroy m) y w) = Some w2"
        "becomes (destroy_element (x_value_destroy m) y w) w2 ((cells_of w)(a \<mapsto> ?n1)) 0 []" "fresh w2 = fresh w"
      by auto
    have run: "radixmap_store_value m (Ptr a) x w = Some (0, w2)"
      using nd(1) D(5,6) 2 w2(1) by (simp add: radixmap_store_value_def radixmap_destroy_value_def put_value_def)
    have "becomes w w2 ((cells_of w)(a \<mapsto> ?n1)) 0 (log_if (x_value_destroy m) (old u))"
      by (rule becomes_trans [OF b1(1) w2(2)]) (simp_all add: 2)
    then show ?thesis using run U(5) [of x] w2(3) 2 by (auto simp: copied_def)
  next
    case (3 y f)
    obtain b w1 where b: "malloc (x_value_size m) w = (b, w1)" by fastforce
    note b1 = becomes_malloc [OF b ok]
    note D1 = becomesD [OF b1(1)]
    show ?thesis
    proof (cases b)
      case False
      have "radixmap_store_value m (Ptr a) x w = Some (- 1, w1)"
        using nd(1) D(5) 3 b False by (simp add: radixmap_store_value_def)
      then show ?thesis using b1 False by auto
    next
      case True
      obtain r w2 where r: "copy_element (x_value_copy m) x w1 = (r, w2)" by fastforce
      note b2 = becomes_copy [OF r D1(1)]
      note D2 = becomesD [OF b2(1)]
      show ?thesis
      proof (cases r)
        case None
        have "radixmap_store_value m (Ptr a) x w = Some (- 1, free_block w2)"
          using nd(1) D(5) 3 b True r None by (simp add: radixmap_store_value_def radixmap_copy_value_def)
        moreover have "becomes w (free_block w2) (cells_of w2) 0 []"
          by (rule becomes_trans [OF b1(1) becomes_trans [OF b2(1) becomes_free_block [OF D2(1)] refl refl]]) (simp_all add: True)
        ultimately show ?thesis using b1(2) b2(2,3) D1(2,6) D2(2) None by auto
      next
        case (Some v)
        let ?n1 = "x_value_update (\<lambda>_. Some ?v) nd"
        note b3 = becomes_destroy [OF D2(1), of "x_value_destroy m" y]
        note D3 = becomesD [OF b3(1)]
        from becomes_modify [OF D3(1), of a nd "x_value_update (\<lambda>_. Some ?v)"] nd(1) D1(2) D2(2) obtain w4 where
          w4: "modify (Ptr a) (x_value_update (\<lambda>_. Some ?v)) (destroy_element (x_value_destroy m) y w2) = Some w4"
            "becomes (destroy_element (x_value_destroy m) y w2) w4 ((cells_of w)(a \<mapsto> ?n1)) 0 []" "fresh w4 = fresh w2"
          by auto
        note D4 = becomesD [OF w4(2)]
        have run: "radixmap_store_value m (Ptr a) x w = Some (0, free_block w4)"
          using nd(1) D(5,6) 3 b True r Some b2(4) w4(1)
          by (simp add: radixmap_store_value_def radixmap_copy_value_def radixmap_destroy_value_def put_value_def)
        have "becomes w (free_block w4) (cells_of w4) 0 (log_if (x_value_destroy m) (old u))"
          by (rule becomes_trans [OF b1(1) becomes_trans [OF b2(1) becomes_trans [OF b3 becomes_trans [OF w4(2)
              becomes_free_block [OF D4(1)] refl refl] refl refl] refl refl]]) (simp_all add: True 3)
        then show ?thesis using run U(5) [of ?v] w4(3) b1(2) b2(2) D4(2) 3 by auto
      qed
    qed
  qed
qed

section \<open>Freeing\<close>

fun vals :: "'v trie \<Rightarrow> 'v list" where
  "vals Void = []"
| "vals (Knot a s u c n) = vals c @ vals n @ old u"

lemma mset_vals: "mset (vals t) = mset (map snd (ents t))"
  by (induction t) (auto simp: old_def comp_def case_prod_unfold split: option.splits)

lemma free_chain_ok:
  assumes "trie_at (cells_of w) t" "separate t" "store_ok w"
  shows "\<exists>w'. radixmap_node_free_chain m (tptr t) w = Some w' \<and> fresh w' = fresh w
    \<and> becomes w w' (cells_of w |` (- places t)) (- 2 * int (length (knots t))) (log_if (x_value_destroy m) (vals t))"
  using assms
proof (induction t arbitrary: w)
  case Void
  then show ?case by (simp add: radixmap_node_free_chain.simps becomes_refl restrict_map_def)
next
  case (Knot a s u c n)
  from Knot.prems(1) obtain nd where nd: "cells_of w a = Some nd" "node_is nd s u (tptr c) (tptr n)"
    and sub: "trie_at (cells_of w) c" "trie_at (cells_of w) n" by (auto simp: node_at_def)
  note D = node_isD [OF nd(2)]
  have sep: "a \<notin> places c" "a \<notin> places n" "places c \<inter> places n = {}" "separate c" "separate n" using Knot.prems(2) by simp_all
  let ?d = "x_value_destroy m"
  from Knot.IH(1) [OF sub(1) sep(4) Knot.prems(3)] obtain w1 where
    w1: "radixmap_node_free_chain m (tptr c) w = Some w1" "fresh w1 = fresh w"
      "becomes w w1 (cells_of w |` (- places c)) (- 2 * int (length (knots c))) (log_if ?d (vals c))" by (elim exE conjE) (rule that)
  note D1 = becomesD [OF w1(3)]
  have n1: "trie_at (cells_of w1) n" using trie_at_restrict [OF sep(3)] sub(2) D1(2) by simp
  from Knot.IH(2) [OF n1 sep(5) D1(1)] obtain w2 where
    w2: "radixmap_node_free_chain m (tptr n) w1 = Some w2" "fresh w2 = fresh w1"
      "becomes w1 w2 (cells_of w1 |` (- places n)) (- 2 * int (length (knots n))) (log_if ?d (vals n))" by (elim exE conjE) (rule that)
  note D2 = becomesD [OF w2(3)]
  let ?w3 = "case u of None \<Rightarrow> w2 | Some x \<Rightarrow> destroy_element ?d x w2"
  have b3: "becomes w2 ?w3 (cells_of w2) 0 (log_if ?d (old u))"
    using becomes_refl [OF D2(1)] becomes_destroy [OF D2(1)] by (cases u) simp_all
  note D3 = becomesD [OF b3] note b4 = becomes_free_block [OF D3(1)]
  note D4 = becomesD [OF b4]
  have a1: "cells_of w1 a = Some nd" "cells_of w2 a = Some nd" using nd(1) sep(1,2) D1(2) D2(2) by simp_all
  from becomes_free_node [OF D4(1), of a nd] a1(2) D3(2) D4(2) obtain w5 where
    w5: "free_node (Ptr a) (free_block ?w3) = Some w5" "becomes (free_block ?w3) w5 ((cells_of w2)(a := None)) (- 1) []"
      "fresh w5 = fresh ?w3" by auto
  have run: "radixmap_node_free_chain m (tptr (Knot a s u c n)) w = Some w5"
    using nd(1) D a1 w1(1) w2(1) w5(1)
    by (subst radixmap_node_free_chain.simps) (simp add: radixmap_destroy_value_def split: option.splits)
  have "becomes w w5 ((cells_of w2)(a := None)) (- 2 * int (length (knots (Knot a s u c n)))) (log_if ?d (vals (Knot a s u c n)))"
    by (rule becomes_trans [OF w1(3) becomes_trans [OF w2(3) becomes_trans [OF b3 becomes_trans [OF b4 w5(2) refl refl] refl refl] refl refl]])
      (simp_all add: log_if_def)
  moreover have "(cells_of w2)(a := None) = cells_of w |` (- places (Knot a s u c n))"
    using D1(2) D2(2) by (auto simp: restrict_map_def fun_eq_iff)
  moreover have "fresh w5 = fresh w" using w5(3) w2(2) w1(2) by (simp split: option.splits)
  ultimately show ?case using run by auto
qed

section \<open>Reading\<close>

lemma common_reach:
  assumes "i \<le> common s k" "i < length s" "i < length k"
  shows "s ! i = k ! i \<longleftrightarrow> i < common s k"
proof
  assume "i < common s k"
  then show "s ! i = k ! i" using common_take [of s k] by (metis nth_take)
next
  assume "s ! i = k ! i"
  then show "i < common s k" using common_differ [of s k] assms by (metis le_neq_implies_less)
qed

lemma common_loop_step:
  assumes "0 \<notin> set k" "length s \<le> SIZE_MAX"
  shows "i \<le> common s k \<Longrightarrow> common_loop s (length s) k i = Some (common s k)"
proof (induction "length s - i" arbitrary: i rule: less_induct)
  case less
  note le = common_le [of s k]
  consider "i = length s" | "i < length s" "i = length k" | "i < length s" "i < length k" using less.prems le by linarith
  then show ?case
  proof cases
    case 1
    then show ?thesis using less.prems le by (subst common_loop.simps) simp
  next
    case 2
    then show ?thesis using less.prems le by (subst common_loop.simps) (simp add: char_at_def)
  next
    case 3
    have nz: "k ! i \<noteq> 0" using assms(1) 3(2) by (metis nth_mem)
    note reach = common_reach [OF less.prems 3]
    show ?thesis
    proof (cases "s ! i = k ! i")
      case True
      then show ?thesis
        using less.hyps [of "Suc i"] reach 3 nz assms(2) by (subst common_loop.simps) (simp add: char_at_def)
    next
      case False
      then show ?thesis using reach less.prems 3 nz by (subst common_loop.simps) (simp add: char_at_def)
    qed
  qed
qed

lemma common_prefix_ok: "0 \<notin> set k \<Longrightarrow> length s \<le> SIZE_MAX \<Longrightarrow> radixmap_common_prefix_len s (length s) k = Some (common s k)"
  unfolding radixmap_common_prefix_len_def by (rule common_loop_step) simp_all

lemma hd_neq_0: "0 \<notin> set k \<Longrightarrow> k \<noteq> [] \<Longrightarrow> hd k \<noteq> 0"
  by (cases k) auto

lemma sibling_loop_ok: "trie_at (cells_of w) t \<Longrightarrow> good L t \<Longrightarrow> sibling_loop (tptr t) ch w = Some (tptr (snd (seek ch t)))"
proof (induction t)
  case (Knot a s u c n)
  then show ?case
    by (subst sibling_loop.simps) (auto simp: node_at_def node_is_def split: prod.splits)
qed (subst sibling_loop.simps, simp)

section \<open>Links\<close>

text \<open>The address of the first sibling, and the siblings before a pointer \<open>p\<close>.\<close>

fun first :: "'v sib list \<Rightarrow> nat ptr \<Rightarrow> nat ptr" where
  "first [] p = p"
| "first ((a, s, u, c) # bs) p = Ptr a"

fun chain_at :: "(nat \<Rightarrow> 'v radixmap_node option) \<Rightarrow> 'v sib list \<Rightarrow> nat ptr \<Rightarrow> bool" where
  "chain_at C [] p \<longleftrightarrow> True"
| "chain_at C ((a, s, u, c) # bs) p \<longleftrightarrow> node_at C a s u (tptr c) (first bs p) \<and> trie_at C c \<and> chain_at C bs p"

lemma tptr_chain [simp]: "tptr (chain bs t) = first bs (tptr t)"
  by (cases "(bs, t)" rule: chain.cases) auto

lemma trie_at_chain [simp]: "trie_at C (chain bs t) \<longleftrightarrow> chain_at C bs (tptr t) \<and> trie_at C t"
  by (induction bs t rule: chain.induct) auto

definition sib_places :: "'v sib list \<Rightarrow> nat set" where
  "sib_places bs = places (chain bs Void)"

lemma knots_chain: "knots (chain bs t) = knots (chain bs Void) @ knots t"
  by (induction bs t rule: chain.induct) auto

lemma places_chain [simp]: "places (chain bs t) = sib_places bs \<union> places t"
  using knots_chain [of bs t] by (simp add: places_def sib_places_def)

lemma separate_chain: "separate (chain bs t) \<longleftrightarrow> separate (chain bs Void) \<and> separate t \<and> sib_places bs \<inter> places t = {}"
  using knots_chain [of bs t] by (auto simp: separate_def sib_places_def places_def)

lemma chain_at_cong: "(\<And>a. a \<in> sib_places bs \<Longrightarrow> C' a = C a) \<Longrightarrow> chain_at C' bs p = chain_at C bs p"
  unfolding sib_places_def
proof (induction C bs p rule: chain_at.induct)
  case (2 C a s u c bs p)
  have "trie_at C' c = trie_at C c" by (rule trie_at_cong) (use 2 in simp)
  then show ?case using 2 by (simp add: node_at_def)
qed simp

lemma chain_at_upd [simp]: "b \<notin> sib_places bs \<Longrightarrow> chain_at (C(b := v)) bs p = chain_at C bs p"
  by (rule chain_at_cong) auto

lemma first_snoc [simp]: "first (bs @ [(b, s, u, c)]) p = first bs (Ptr b)"
  by (cases "(bs, p)" rule: first.cases) auto

lemma chain_at_snoc [simp]:
  "chain_at C (bs @ [(b, s, u, c)]) p \<longleftrightarrow> chain_at C bs (Ptr b) \<and> node_at C b s u (tptr c) p \<and> trie_at C c"
  by (induction C bs p rule: chain_at.induct) auto

lemma chain_snoc: "chain (bs @ [(b, s, u, c)]) t = chain bs (Knot b s u c t)"
  by (induction bs t rule: chain.induct) auto

lemma sib_places_simps [simp]: "sib_places [] = {}" "sib_places ((a, s, u, c) # bs) = insert a (places c \<union> sib_places bs)"
  "sib_places (bs @ [(a, s, u, c)]) = insert a (places c \<union> sib_places bs)"
  using places_chain [of "[] :: 'v sib list" Void] places_chain [of "(a, s, u, c) # bs" Void]
    places_chain [of "bs @ [(a, s, u, c)]" Void]
  by (simp_all only: chain_snoc) (auto simp: chain_snoc)

text \<open>The link after the siblings \<open>bs\<close> among the children of the node \<open>a\<close>.\<close>

definition link_after :: "link \<Rightarrow> 'v sib list \<Rightarrow> link" where
  "link_after l bs = (if bs = [] then l else Next_field (Ptr (fst (last bs))))"

definition link_place :: "nat \<Rightarrow> 'v sib list \<Rightarrow> nat" where
  "link_place a bs = (if bs = [] then a else fst (last bs))"

definition level ::
    "(nat \<Rightarrow> 'v radixmap_node option) \<Rightarrow> nat \<Rightarrow> bytes \<Rightarrow> 'v option \<Rightarrow> 'v sib list \<Rightarrow> nat ptr \<Rightarrow> nat ptr \<Rightarrow> bool" where
  "level C a s u bs p n \<longleftrightarrow> node_at C a s u (first bs p) n \<and> chain_at C bs p"

lemma trie_at_level: "trie_at C (Knot a s u (chain bs t) n) \<longleftrightarrow> level C a s u bs (tptr t) (tptr n) \<and> trie_at C t \<and> trie_at C n"
  by (auto simp: level_def)

lemma find_link_loop_ok:
  "read_link l w = Some (tptr t) \<Longrightarrow> trie_at (cells_of w) t \<Longrightarrow> good L t \<Longrightarrow> seek ch t = (bs, t') \<Longrightarrow>
    find_link_loop l ch w = Some (link_after l bs)"
proof (induction t arbitrary: l bs)
  case Void
  then show ?case by (subst find_link_loop.simps) (simp add: link_after_def)
next
  case (Knot a s u c n)
  show ?case
  proof (cases "hd s = ch")
    case True
    then show ?thesis
      using Knot.prems by (subst find_link_loop.simps) (auto simp: link_after_def node_at_def node_is_def)
  next
    case False
    obtain bs1 where b: "seek ch n = (bs1, t')" "bs = (a, s, u, c) # bs1"
      using Knot.prems(4) False by (auto split: prod.splits)
    have "read_link (Next_field (Ptr a)) w = Some (tptr n)" using Knot.prems(2) by (auto simp: node_at_def node_is_def)
    from Knot.IH(2) [OF this _ _ b(1)] have "find_link_loop (Next_field (Ptr a)) ch w = Some (link_after l bs)"
      using Knot.prems(2,3) b(2) by (simp add: link_after_def)
    then show ?thesis
      using Knot.prems False by (subst find_link_loop.simps) (auto simp: node_at_def node_is_def)
  qed
qed

lemma read_link_ok: "level (cells_of w) a s u bs p n \<Longrightarrow> read_link (link_after (Child_field (Ptr a)) bs) w = Some p"
  by (cases bs rule: rev_cases) (auto simp: level_def link_after_def node_at_def node_is_def)

lemma level_cong: "level C a s u bs p n \<Longrightarrow> C' a = C a \<Longrightarrow> (\<And>d. d \<in> sib_places bs \<Longrightarrow> C' d = C d) \<Longrightarrow> level C' a s u bs p n"
  using chain_at_cong [of bs C' C] by (simp add: level_def node_at_def)

lemma link_place_in: "link_place a bs \<in> insert a (sib_places bs)"
proof (cases bs rule: rev_cases)
  case (snoc bs1 x)
  obtain b s u c where "x = (b, s, u, c)" by (cases x)
  then show ?thesis using snoc by (simp add: link_place_def)
qed (simp add: link_place_def)

lemma write_link_ok:
  assumes ok: "store_ok w" and lev: "level (cells_of w) a s u bs p n" and sep: "separate (Knot a s u (chain bs Void) Void)"
  shows "\<exists>w' nd. write_link (link_after (Child_field (Ptr a)) bs) q w = Some w'
    \<and> becomes w w' ((cells_of w)(link_place a bs \<mapsto> nd)) 0 [] \<and> fresh w' = fresh w
    \<and> level ((cells_of w)(link_place a bs \<mapsto> nd)) a s u bs q n"
proof (cases bs rule: rev_cases)
  case Nil
  obtain nd where nd: "cells_of w a = Some nd" "node_is nd s u p n" using lev Nil by (auto simp: level_def node_at_def)
  from becomes_modify [OF ok nd(1), of "x_child_update (\<lambda>_. q)"] node_is_update(1) [OF nd(2), of q] Nil
  show ?thesis by (auto simp: link_after_def link_place_def level_def)
next
  case (snoc bs1 x)
  obtain b s1 u1 c1 where x: "x = (b, s1, u1, c1)" by (cases x)
  obtain nd where nd: "cells_of w b = Some nd" "node_is nd s1 u1 (tptr c1) p"
    using lev by (auto simp: level_def snoc x node_at_def)
  let ?n = "x_next_update (\<lambda>_. q) nd" let ?C = "(cells_of w)(b \<mapsto> ?n)"
  from becomes_modify [OF ok nd(1), of "x_next_update (\<lambda>_. q)"] obtain w' where
    w': "modify (Ptr b) (x_next_update (\<lambda>_. q)) w = Some w'" "becomes w w' ?C 0 []" "fresh w' = fresh w"
    by (elim exE conjE) (rule that)
  have out: "b \<noteq> a" "b \<notin> sib_places bs1" "b \<notin> places c1"
    using sep separate_chain [of bs1 "Knot b s1 u1 c1 Void"] by (auto simp: snoc x chain_snoc)
  have "chain_at ?C bs1 (Ptr b)" using out(2) lev by (simp add: level_def snoc x)
  then have "level ?C a s u bs q n"
    using lev out nd node_is_update(2) [OF nd(2), of q] by (auto simp: level_def snoc x)
  then show ?thesis using w' by (auto simp: snoc x link_after_def link_place_def)
qed

end
