(* ===== verification/Radix_Insert.thy ===== *)
theory Radix_Insert
  imports Radix_Heap
begin

text \<open>
  The contracts of the lookup and of the insertion of \<open>radixmap.c\<close>: what they do at a node, for every
  key and every pattern of failures.
\<close>

section \<open>Changing the trie below a node\<close>

definition knot_at :: "(nat \<Rightarrow> 'v radixmap_node option) \<Rightarrow> nat \<Rightarrow> bytes \<Rightarrow> 'v option \<Rightarrow> 'v trie \<Rightarrow> nat ptr \<Rightarrow> bool" where
  "knot_at C a s u c np \<longleftrightarrow> node_at C a s u (tptr c) np \<and> trie_at C c"

lemma trie_at_knot: "trie_at C (Knot a s u c n) \<longleftrightarrow> knot_at C a s u c (tptr n) \<and> trie_at C n"
  by (auto simp: knot_at_def)

lemma knot_at_level: "knot_at C a s u (chain bs t) np \<longleftrightarrow> level C a s u bs (tptr t) np \<and> trie_at C t"
  by (auto simp: knot_at_def level_def)

text \<open>The cells \<open>C\<close> hold new contents at the node \<open>a\<close> and below; the other cells of \<open>w\<close> are as before.\<close>

definition swaps ::
    "'v rworld \<Rightarrow> (nat \<Rightarrow> 'v radixmap_node option) \<Rightarrow> nat \<Rightarrow> 'v trie \<Rightarrow> nat ptr \<Rightarrow> bytes \<Rightarrow> 'v option \<Rightarrow> 'v trie \<Rightarrow> bool" where
  "swaps w C a c np s' u' c' \<longleftrightarrow> knot_at C a s' u' c' np \<and> separate (Knot a s' u' c' Void)
     \<and> places c' \<subseteq> places c \<union> {fresh w..} \<and> (\<forall>d < fresh w. d \<notin> insert a (places c) \<longrightarrow> C d = cells_of w d)"

lemma swapsD:
  assumes "swaps w C a c np s' u' c'"
  shows "knot_at C a s' u' c' np" "separate (Knot a s' u' c' Void)" "d \<in> places c' \<Longrightarrow> d \<in> places c \<or> fresh w \<le> d"
    "d < fresh w \<Longrightarrow> d \<noteq> a \<Longrightarrow> d \<notin> places c \<Longrightarrow> C d = cells_of w d"
  using assms by (auto simp: swaps_def)

lemma knot_at_fresh: "knot_at (cells_of w) a s u c np \<Longrightarrow> store_ok w \<Longrightarrow> d \<in> insert a (places c) \<Longrightarrow> d < fresh w"
  using trie_at_fresh [of w c d] by (auto simp: knot_at_def node_at_def store_ok_def)

lemma separate_replace:
  assumes "separate (chain bs t)" "separate t'" "\<And>d. d \<in> places t' \<Longrightarrow> d \<in> places t \<or> d \<notin> sib_places bs"
  shows "separate (chain bs t')"
  using assms unfolding separate_chain [of bs t] separate_chain [of bs t'] by blast

text \<open>A new trie behind a link.\<close>

lemma relink_ok:
  assumes ok: "store_ok w" "store_ok w1" and k: "knot_at (cells_of w) a s u (chain bs t) np" and sep: "separate (Knot a s u (chain bs t) Void)"
    and same: "\<And>d. d < fresh w \<Longrightarrow> d \<notin> places t \<Longrightarrow> cells_of w1 d = cells_of w d"
    and t': "trie_at (cells_of w1) t'" "separate t'" and new: "\<And>d. d \<in> places t' \<Longrightarrow> d \<in> places t \<or> fresh w \<le> d"
  shows "\<exists>w2 C. write_link (link_after (Child_field (Ptr a)) bs) (tptr t') w1 = Some w2 \<and> becomes w1 w2 C 0 []
    \<and> fresh w2 = fresh w1 \<and> swaps w C a (chain bs t) np s u (chain bs t')
    \<and> (\<forall>d. d \<noteq> a \<longrightarrow> d \<notin> sib_places bs \<longrightarrow> C d = cells_of w1 d)"
proof -
  have S: "a \<notin> sib_places bs" "a \<notin> places t" "separate (chain bs t)" "separate (chain bs Void)" "sib_places bs \<inter> places t = {}"
    using sep by (auto simp: separate_chain [of bs t])
  note low = knot_at_fresh [OF k ok(1)]
  have old: "cells_of w1 d = cells_of w d" if "d \<in> insert a (sib_places bs)" for d
    using same [of d] low [of d] that S by auto
  have "level (cells_of w) a s u bs (tptr t) np" using k by (simp add: knot_at_level)
  then have "level (cells_of w1) a s u bs (tptr t) np" by (rule level_cong) (use old in auto)
  moreover have "separate (Knot a s u (chain bs Void) Void)" using S by simp
  ultimately obtain w2 nd where
    w2: "write_link (link_after (Child_field (Ptr a)) bs) (tptr t') w1 = Some w2"
      "becomes w1 w2 ((cells_of w1)(link_place a bs \<mapsto> nd)) 0 []" "fresh w2 = fresh w1"
      "level ((cells_of w1)(link_place a bs \<mapsto> nd)) a s u bs (tptr t') np"
    using write_link_ok [OF ok(2)] by blast
  have lp: "link_place a bs \<in> insert a (sib_places bs)" by (rule link_place_in)
  have out: "d \<notin> places t'" if "d \<in> insert a (sib_places bs)" for d
    using new [of d] low [of d] that S by auto
  have "trie_at ((cells_of w1)(link_place a bs \<mapsto> nd)) t'" using t'(1) out [OF lp] by simp
  moreover have "separate (chain bs t')" by (rule separate_replace [OF S(3) t'(2)]) (use out in auto)
  ultimately have "swaps w ((cells_of w1)(link_place a bs \<mapsto> nd)) a (chain bs t) np s u (chain bs t')"
    unfolding swaps_def knot_at_level using w2(4) S out new same lp by auto
  moreover have "\<forall>d. d \<noteq> a \<longrightarrow> d \<notin> sib_places bs \<longrightarrow> ((cells_of w1)(link_place a bs \<mapsto> nd)) d = cells_of w1 d"
    using lp by auto
  ultimately show ?thesis using w2(1-3) by blast
qed

text \<open>A change below a child is a change below the parent.\<close>

lemma swaps_up:
  assumes ok: "store_ok w" and k: "knot_at (cells_of w) a s u (chain bs (Knot b s2 u2 c2 n2)) np"
    and sep: "separate (Knot a s u (chain bs (Knot b s2 u2 c2 n2)) Void)"
    and sw: "swaps w C b c2 (tptr n2) s2' u2' c2'"
  shows "swaps w C a (chain bs (Knot b s2 u2 c2 n2)) np s u (chain bs (Knot b s2' u2' c2' n2))"
proof -
  let ?t = "Knot b s2 u2 c2 n2" let ?t' = "Knot b s2' u2' c2' n2"
  note D = swapsD [OF sw]
  have S: "a \<notin> sib_places bs" "a \<notin> places ?t" "separate (chain bs ?t)" "separate ?t" "sib_places bs \<inter> places ?t = {}"
    using sep by (auto simp: separate_chain [of bs ?t])
  note low = knot_at_fresh [OF k ok]
  have old: "C d = cells_of w d" if "d \<in> insert a (sib_places bs)" for d
    using D(4) [of d] low [of d] that S by auto
  have old2: "C d = cells_of w d" if "d \<in> places n2" for d
    using D(4) [of d] low [of d] that S by auto
  have lev: "level (cells_of w) a s u bs (Ptr b) np" and n2: "trie_at (cells_of w) n2" using k by (simp_all add: knot_at_level)
  have "level C a s u bs (tptr ?t') np" using level_cong [OF lev, of C] old by simp
  moreover have "trie_at C n2" using n2 trie_at_cong [of n2 C "cells_of w"] old2 by simp
  ultimately have k': "knot_at C a s u (chain bs ?t') np" using D(1) by (simp add: knot_at_level level_def knot_at_def)
  have sub: "d \<in> places ?t \<or> fresh w \<le> d" if "d \<in> places ?t'" for d using D(3) [of d] that by auto
  have "places c2' \<inter> places n2 = {}" using D(3) low S(4) by fastforce
  then have t': "separate ?t'" using D(2) S(4) by simp
  have "separate (chain bs ?t')" by (rule separate_replace [OF S(3) t']) (use sub low S(5) in force)
  moreover have "a \<notin> places (chain bs ?t')" using S(1,2) sub [of a] low [of a] by auto
  ultimately have "separate (Knot a s u (chain bs ?t') Void)" by simp
  then show ?thesis unfolding swaps_def using k' sub D(4) by auto
qed

section \<open>Lookup\<close>

lemma match_loop_ok:
  "0 \<notin> set key \<Longrightarrow> knot_at (cells_of w) a s u c np \<Longrightarrow> good L c \<Longrightarrow> L < PTRDIFF_MAX \<Longrightarrow>
   \<exists>q. match_loop (Ptr a) key w = Some q \<and> (case value_below u c key of None \<Rightarrow> q = NULL
     | Some v \<Rightarrow> \<exists>b nd. q = Ptr b \<and> cells_of w b = Some nd \<and> x_has_value nd \<and> x_value nd = Some v)"
proof (induction "length key" arbitrary: key a s u c np L rule: less_induct)
  case less
  obtain nd where nd: "cells_of w a = Some nd" "node_is nd s u (tptr c) np" and c: "trie_at (cells_of w) c"
    using less.prems(2) by (auto simp: knot_at_def node_at_def)
  note D = node_isD [OF nd(2)]
  show ?case
  proof (cases "key = []")
    case True
    then show ?thesis
      using nd(1) D by (subst match_loop.simps) (auto simp: value_below_def split: option.splits)
  next
    case False
    note k = hd_neq_0 [OF less.prems(1) False]
    obtain bs t where sk: "seek (hd key) c = (bs, t)" by fastforce
    note sp = seek_split [OF sk]
    have find: "find_in c key = find_in t key" using sp find_in_chain [OF False, of bs t] by auto
    have sib: "sibling_loop (tptr c) (hd key) w = Some (tptr t)" using sibling_loop_ok [OF c less.prems(3)] sk by simp
    show ?thesis
    proof (cases t)
      case Void
      then show ?thesis
        using nd(1) D k False sib find by (subst match_loop.simps) (simp add: value_below_def)
    next
      case (Knot b s2 u2 c2 n2)
      have hd2: "hd s2 = hd key" using sp Knot by auto
      have g: "s2 \<noteq> []" "length s2 \<le> L" "good (L - length s2) c2" using good_chain [of L bs t] sp less.prems(3) Knot by auto
      have tt: "knot_at (cells_of w) b s2 u2 c2 (tptr n2)" using c sp Knot by (auto simp: knot_at_def)
      then obtain nb where nb: "cells_of w b = Some nb" "node_is nb s2 u2 (tptr c2) (tptr n2)" by (auto simp: knot_at_def node_at_def)
      have cm: "radixmap_common_prefix_len (x_segment nb) (x_segment_len nb) key = Some (common s2 key)"
        using common_prefix_ok [OF less.prems(1), of s2] node_isD [OF nb(2)] g(2) less.prems(4) SIZE_MAX_PTRDIFF_MAX by simp
      show ?thesis
      proof (cases "prefix s2 key")
        case True
        then obtain y where y: "key = s2 @ y" by (auto simp: prefix_def)
        have j: "common s2 key = length s2" using True by (simp add: common_full)
        have "0 \<notin> set y" "length y < length key" using less.prems(1) g(1) y by auto
        from less.hyps [OF this(2,1) tt g(3)] less.prems(4)
        have IH: "\<exists>q. match_loop (Ptr b) y w = Some q \<and> (case value_below u2 c2 y of None \<Rightarrow> q = NULL
           | Some v \<Rightarrow> \<exists>b nd. q = Ptr b \<and> cells_of w b = Some nd \<and> x_has_value nd \<and> x_value nd = Some v)" by simp
        have "value_below u c key = value_below u2 c2 y" using find Knot g(1) y by (simp add: value_below_def)
        moreover have "match_loop (Ptr a) key w = match_loop (Ptr b) y w"
          using nd(1) D k False sib Knot nb(1) cm j node_isD(4) [OF nb(2)] by (subst match_loop.simps) (simp add: y)
        ultimately show ?thesis using IH by simp
      next
        case npre: False
        then have "value_below u c key = None" using find Knot hd2 False by (simp add: value_below_def)
        moreover have "common s2 key \<noteq> length s2" using npre by (simp add: common_full)
        then have "match_loop (Ptr a) key w = Some NULL"
          using nd(1) D k False sib Knot nb(1) cm node_isD(4) [OF nb(2)] by (subst match_loop.simps) simp
        ultimately show ?thesis by simp
      qed
    qed
  qed
qed

section \<open>Splitting a node\<close>

definition with_leaf :: "(nat \<times> bytes \<times> 'v option) option \<Rightarrow> 'v trie \<Rightarrow> 'v trie" where
  "with_leaf lf t = (case lf of None \<Rightarrow> t | Some (q, s, u) \<Rightarrow> Knot q s u Void t)"

lemma with_leaf_simps [simp]: "with_leaf None t = t" "with_leaf (Some (q, s, u)) t = Knot q s u Void t"
  by (simp_all add: with_leaf_def)

lemma link_split_ok:
  fixes w :: "'v rworld"
  assumes ok: "store_ok w0" "store_ok w" and k: "knot_at (cells_of w0) a s u (chain bs (Knot b s2 u2 c2 n2)) np"
    and sep: "separate (Knot a s u (chain bs (Knot b s2 u2 c2 n2)) Void)"
    and same: "\<And>d. d < fresh w0 \<Longrightarrow> cells_of w d = cells_of w0 d"
    and p: "fresh w0 \<le> p" "node_at (cells_of w) p pre up NULL NULL"
    and lf: "trie_at (cells_of w) (with_leaf lf Void)" "\<And>d. d \<in> places (with_leaf lf Void) \<Longrightarrow> fresh w0 \<le> d \<and> d \<noteq> p"
  shows "\<exists>w' C. link_split m (link_after (Child_field (Ptr a)) bs) (Ptr b) (Ptr p) (tptr (with_leaf lf Void)) suf (length suf) w
      = Some (0, m\<lparr>x_size := sz_add (x_size m) 1\<rparr>, w') \<and> becomes w w' C (- 1) [] \<and> fresh w' = fresh w
    \<and> swaps w0 C a (chain bs (Knot b s2 u2 c2 n2)) np s u (chain bs (Knot p pre up (with_leaf lf (Knot b suf u2 c2 Void)) n2))"
proof -
  let ?t = "Knot b s2 u2 c2 n2" let ?t' = "Knot p pre up (with_leaf lf (Knot b suf u2 c2 Void)) n2"
  note low = knot_at_fresh [OF k ok(1)]
  have S: "separate ?t" using sep separate_chain [of bs ?t] by simp
  have below: "d < fresh w0" if "d \<in> places ?t" for d using low [of d] that by auto
  have high: "d \<notin> places ?t" if "fresh w0 \<le> d" for d using below [of d] that by linarith
  have bl: "b < fresh w0" "b \<noteq> p" "p \<notin> places c2" "p \<notin> places n2" using high [OF p(1)] below [of b] by auto
  obtain nb where nb: "cells_of w0 b = Some nb" "node_is nb s2 u2 (tptr c2) (tptr n2)" and sub: "trie_at (cells_of w0) c2" "trie_at (cells_of w0) n2"
    using k by (auto simp: knot_at_level node_at_def)
  have sub': "trie_at (cells_of w) c2" "trie_at (cells_of w) n2"
    using sub trie_at_cong [of c2 "cells_of w" "cells_of w0"] trie_at_cong [of n2 "cells_of w" "cells_of w0"] same below by auto
  have nb': "cells_of w b = Some nb" using same [OF bl(1)] nb(1) by simp
  obtain nd where nd: "cells_of w p = Some nd" "node_is nd pre up NULL NULL" using p(2) by (rule node_atE)
  let ?p1 = "x_next_update (\<lambda>_. tptr n2) nd" let ?p2 = "x_child_update (\<lambda>_. Ptr b) ?p1"
  let ?b1 = "nb\<lparr>x_segment := suf, x_segment_len := length suf, x_next := NULL\<rparr>"
  have p2: "node_is ?p2 pre up (Ptr b) (tptr n2)" using node_is_update(1,2) nd(2) by blast
  have b1: "node_is ?b1 suf u2 (tptr c2) NULL" using nb(2) by (auto simp: node_is_def split: option.splits)
  from becomes_modify [OF ok(2) nd(1), of "x_next_update (\<lambda>_. tptr n2)"] obtain w1 where
    w1: "modify (Ptr p) (x_next_update (\<lambda>_. tptr n2)) w = Some w1" "becomes w w1 ((cells_of w)(p \<mapsto> ?p1)) 0 []" "fresh w1 = fresh w" by blast
  note D1 = becomesD [OF w1(2)]
  from becomes_modify [OF D1(1), of p ?p1 "x_child_update (\<lambda>_. Ptr b)"] D1(2) obtain w2 where
    w2: "modify (Ptr p) (x_child_update (\<lambda>_. Ptr b)) w1 = Some w2" "becomes w1 w2 ((cells_of w)(p \<mapsto> ?p2)) 0 []" "fresh w2 = fresh w1" by auto
  note D2 = becomesD [OF w2(2)]
  note f2 = becomes_free_block [OF D2(1)]
  note F2 = becomesD [OF f2]
  from becomes_modify [OF F2(1), of b nb "\<lambda>n. n\<lparr>x_segment := suf, x_segment_len := length suf, x_next := NULL\<rparr>"] D2(2) nb' bl(2)
  obtain w3 where
    w3: "modify (Ptr b) (\<lambda>n. n\<lparr>x_segment := suf, x_segment_len := length suf, x_next := NULL\<rparr>) (free_block w2) = Some w3"
      "becomes (free_block w2) w3 ((cells_of w)(p \<mapsto> ?p2, b \<mapsto> ?b1)) 0 []" "fresh w3 = fresh w2" by auto
  note D3 = becomesD [OF w3(2)]
  have b3: "becomes w w3 ((cells_of w)(p \<mapsto> ?p2, b \<mapsto> ?b1)) (- 1) []"
    by (rule becomes_trans [OF w1(2) becomes_trans [OF w2(2) becomes_trans [OF f2 w3(2) refl refl] refl refl]]) simp_all
  let ?step = "if tptr (with_leaf lf (Void :: 'v trie)) \<noteq> NULL then do {
         p' \<leftarrow> get_node (Ptr p) w3;
         wa \<leftarrow> modify (tptr (with_leaf lf (Void :: 'v trie))) (x_next_update (\<lambda>_. x_child p')) w3;
         modify (Ptr p) (x_child_update (\<lambda>_. tptr (with_leaf lf (Void :: 'v trie)))) wa }
       else Some w3"
  have "\<exists>w4. ?step = Some w4 \<and> becomes w w4 (cells_of w4) (- 1) [] \<and> fresh w4 = fresh w \<and> trie_at (cells_of w4) ?t'
    \<and> (\<forall>d < fresh w0. d \<notin> places ?t \<longrightarrow> cells_of w4 d = cells_of w0 d)"
  proof (cases lf)
    case None
    have "trie_at (cells_of w3) ?t'" using D3(2) None p2 b1 sub' bl S by simp
    then show ?thesis using b3 D3(2) None w3(3) w2(3) w1(3) bl p(1) same by auto
  next
    case (Some x)
    then obtain q s' uq where x: "lf = Some (q, s', uq)" by (cases x) auto
    have q: "fresh w0 \<le> q" "q \<noteq> p" "q \<noteq> b" "q \<notin> places c2" "q \<notin> places n2" using lf(2) [of q] x high [of q] bl(1) by auto
    obtain nq where nq: "cells_of w q = Some nq" "node_is nq s' uq NULL NULL" using lf(1) x by (auto simp: node_at_def)
    let ?q1 = "x_next_update (\<lambda>_. Ptr b) nq" let ?p3 = "x_child_update (\<lambda>_. Ptr q) ?p2"
    have q1: "node_is ?q1 s' uq NULL (Ptr b)" using node_is_update(2) nq(2) by blast
    have p3: "node_is ?p3 pre up (Ptr q) (tptr n2)" using node_is_update(1) p2 by blast
    have "cells_of w3 q = Some nq" using D3(2) nq(1) q by simp
    from becomes_modify [OF D3(1) this, of "x_next_update (\<lambda>_. Ptr b)"] D3(2) obtain wa where
      wa: "modify (Ptr q) (x_next_update (\<lambda>_. Ptr b)) w3 = Some wa"
        "becomes w3 wa ((cells_of w)(p \<mapsto> ?p2, b \<mapsto> ?b1, q \<mapsto> ?q1)) 0 []" "fresh wa = fresh w3" by auto
    note Da = becomesD [OF wa(2)]
    from becomes_modify [OF Da(1), of p ?p2 "x_child_update (\<lambda>_. Ptr q)"] Da(2) q bl obtain w4 where
      w4: "modify (Ptr p) (x_child_update (\<lambda>_. Ptr q)) wa = Some w4"
        "becomes wa w4 ((cells_of w)(p \<mapsto> ?p2, b \<mapsto> ?b1, q \<mapsto> ?q1, p \<mapsto> ?p3)) 0 []" "fresh w4 = fresh wa" by auto
    note D4 = becomesD [OF w4(2)]
    have run: "?step = Some w4" using x D3(2) bl wa(1) w4(1) by simp
    have "becomes w w4 (cells_of w4) (- 1) []"
      using becomes_trans [OF b3 becomes_trans [OF wa(2) w4(2) refl refl]] D4(2) by simp
    moreover have "trie_at (cells_of w4) ?t'" using D4(2) x p3 q1 b1 sub' bl S q by simp
    moreover have "\<forall>d < fresh w0. d \<notin> places ?t \<longrightarrow> cells_of w4 d = cells_of w0 d" using D4(2) same q(1) p(1) by auto
    ultimately show ?thesis using run w4(3) wa(3) w3(3) w2(3) w1(3) by auto
  qed
  then obtain w4 where w4: "?step = Some w4" "becomes w w4 (cells_of w4) (- 1) []" "fresh w4 = fresh w" "trie_at (cells_of w4) ?t'"
    and out: "\<And>d. d < fresh w0 \<Longrightarrow> d \<notin> places ?t \<Longrightarrow> cells_of w4 d = cells_of w0 d" by blast
  have sep': "separate ?t'" using S bl lf(2) below p(1) by (cases lf) (fastforce simp: with_leaf_def split: prod.splits)+
  have new: "d \<in> places ?t \<or> fresh w0 \<le> d" if "d \<in> places ?t'" for d
    using that p(1) lf(2) [of d] by (cases lf) (auto simp: with_leaf_def split: prod.splits)
  from relink_ok [OF ok(1) becomesD(1) [OF w4(2)] k sep out w4(4) sep' new] obtain w5 C where
    w5: "write_link (link_after (Child_field (Ptr a)) bs) (tptr ?t') w4 = Some w5" "becomes w4 w5 C 0 []" "fresh w5 = fresh w4"
      "swaps w0 C a (chain bs ?t) np s u (chain bs ?t')" by blast
  have "link_split m (link_after (Child_field (Ptr a)) bs) (Ptr b) (Ptr p) (tptr (with_leaf lf Void)) suf (length suf) w
      = Some (0, m\<lparr>x_size := sz_add (x_size m) 1\<rparr>, w5)"
    using w1(1) w2(1) w3(1) w4(1) w5(1) nb' node_isD(2) [OF nb(2)] by (simp add: link_split_def)
  moreover have "becomes w w5 C (- 1) []" by (rule becomes_trans [OF w4(2) w5(2)]) simp_all
  ultimately show ?thesis using w4(3) w5(3,4) by auto
qed

lemma free_leaf_ok:
  assumes "store_ok w" "node_at (cells_of w) p s None NULL NULL"
  shows "\<exists>w'. radixmap_node_free_chain m (Ptr p) w = Some w' \<and> becomes w w' ((cells_of w)(p := None)) (- 2) [] \<and> fresh w' = fresh w"
proof -
  have "cells_of w |` (- {p}) = (cells_of w)(p := None)" by (auto simp: restrict_map_def)
  then show ?thesis using free_chain_ok [of w "Knot p s None Void Void" m] assms by auto
qed

text \<open>What an insertion may do: nothing, or replace the children \<open>c\<close> of the node \<open>a\<close> by \<open>c'\<close>.\<close>

definition grows ::
    "'v radixmap \<Rightarrow> 'v rworld \<Rightarrow> nat \<Rightarrow> 'v trie \<Rightarrow> nat ptr \<Rightarrow> bytes \<Rightarrow> int \<Rightarrow> 'v rworld \<Rightarrow> 'v option \<Rightarrow> 'v trie \<Rightarrow> 'v list \<Rightarrow> bool" where
  "grows m w a c np s rc w' u' c' ds \<longleftrightarrow> fresh w' \<le> fresh w + 2 \<and> (no_fail w \<longrightarrow> radix_room m w \<longrightarrow> rc = 0)
     \<and> (rc = - 1 \<and> becomes w w' (cells_of w) 0 []
        \<or> rc = 0 \<and> (\<exists>C. becomes w w' C (2 * (int (length (knots c')) - int (length (knots c)))) (log_if (x_value_destroy m) ds)
            \<and> swaps w C a c np s u' c'))"

lemma grows_refused:
  "becomes w w' (cells_of w) 0 [] \<Longrightarrow> fresh w' \<le> fresh w + 2 \<Longrightarrow> (no_fail w \<Longrightarrow> \<not> radix_room m w) \<Longrightarrow> grows m w a c np s (- 1) w' u' c' ds"
  by (auto simp: grows_def)

lemma knots_chain_diff [simp]:
  "int (length (knots (chain bs t'))) - int (length (knots (chain bs t))) = int (length (knots t')) - int (length (knots t))"
  using knots_chain [of bs t] knots_chain [of bs t'] by simp

definition prefix_made :: "'v rworld \<Rightarrow> 'v rworld \<Rightarrow> nat \<Rightarrow> bytes \<Rightarrow> bool" where
  "prefix_made w0 w p pre \<longleftrightarrow> store_ok w0 \<and> p = fresh w0 \<and> fresh w = Suc p \<and> becomes w0 w ((cells_of w0)(p \<mapsto> blank pre)) 3 []"

lemma prefix_madeD:
  assumes "prefix_made w0 w p pre"
  shows "store_ok w0" "p = fresh w0" "fresh w = Suc p" "becomes w0 w ((cells_of w0)(p \<mapsto> blank pre)) 3 []"
  using assms unfolding prefix_made_def by auto

text \<open>Giving up after the allocation of the prefix and the suffix.\<close>

lemma drop_prefix_ok:
  assumes pm: "prefix_made w0 w p pre" and w1: "becomes w w1 (cells_of w) 0 []"
  shows "\<exists>w2. radixmap_node_free_chain m (Ptr p) w1 = Some w2 \<and> becomes w0 (free_block w2) (cells_of w0) 0 [] \<and> fresh w2 = fresh w1"
proof -
  note P = prefix_madeD [OF pm]
  note D = becomesD [OF P(4)] and D1 = becomesD [OF w1]
  have "node_at (cells_of w1) p pre None NULL NULL" using D(2) D1(2) by simp
  from free_leaf_ok [OF D1(1) this, of m] obtain w2 where
    w2: "radixmap_node_free_chain m (Ptr p) w1 = Some w2" "becomes w1 w2 ((cells_of w1)(p := None)) (- 2) []" "fresh w2 = fresh w1" by blast
  note D2 = becomesD [OF w2(2)]
  have "cells_of w2 = cells_of w0" using D(2) D1(2) D2(2) P(2) store_ok_fresh [OF P(1)] by (simp add: fun_upd_idem)
  moreover have "becomes w0 (free_block w2) (cells_of w2) 0 []"
    by (rule becomes_trans [OF P(4) becomes_trans [OF w1 becomes_trans [OF w2(2) becomes_free_block [OF D2(1)] refl refl] refl refl]]) simp_all
  ultimately show ?thesis using w2 by auto
qed

lemma attach_prefix_ok:
  fixes w :: "'v rworld"
  assumes pm: "prefix_made w0 w p key" and k: "knot_at (cells_of w0) a s u (chain bs (Knot b s2 u2 c2 n2)) np"
    and sep: "separate (Knot a s u (chain bs (Knot b s2 u2 c2 n2)) Void)"
  shows "\<exists>rc w'. split_attach m (link_after (Child_field (Ptr a)) bs) (Ptr b) (Ptr p) key (length key) x suf (length suf) w
      = Some (rc, if rc = 0 then m\<lparr>x_size := sz_add (x_size m) 1\<rparr> else m, w')
    \<and> grows m w0 a (chain bs (Knot b s2 u2 c2 n2)) np s rc w' u
        (chain bs (Knot p key (Some (copied (x_value_copy m) x)) (Knot b suf u2 c2 Void) n2)) []"
proof -
  let ?t = "Knot b s2 u2 c2 n2" let ?v = "copied (x_value_copy m) x" let ?l = "link_after (Child_field (Ptr a)) bs"
  note P = prefix_madeD [OF pm]
  note D = becomesD [OF P(4)]
  have "char_at key (length key) = Some 0" by (simp add: char_at_def)
  note run0 = split_attach_def [of m ?l "Ptr b" "Ptr p" key "length key" x suf "length suf" w, unfolded this]
  have "node_at (cells_of w) p key None NULL NULL" using D(2) by simp
  from store_value_ok [OF D(1) this, of m x] obtain rc w1 where
    sv: "radixmap_store_value m (Ptr p) x w = Some (rc, w1)" "fresh w1 = fresh w" "no_fail w \<Longrightarrow> x_value_size m \<le> PTRDIFF_MAX \<Longrightarrow> rc = 0"
    and sres: "rc = - 1 \<and> becomes w w1 (cells_of w) 0 []
      \<or> rc = 0 \<and> (\<exists>nd. becomes w w1 ((cells_of w)(p \<mapsto> nd)) 0 (log_if (x_value_destroy m) (old None)) \<and> node_is nd key (Some ?v) NULL NULL)"
    by auto
  show ?thesis
  proof (cases "rc = 0")
    case True
    then obtain nd where nd: "becomes w w1 ((cells_of w)(p \<mapsto> nd)) 0 []" "node_is nd key (Some ?v) NULL NULL" using sres by auto
    note D1 = becomesD [OF nd(1)]
    have c1: "cells_of w1 = (cells_of w0)(p \<mapsto> nd)" using D1(2) D(2) by simp
    from link_split_ok [OF P(1) D1(1) k sep _ eq_imp_le [OF P(2) [symmetric]], of key "Some ?v" None m suf] c1 nd(2) P(2) obtain w2 C where
      w2: "link_split m ?l (Ptr b) (Ptr p) NULL suf (length suf) w1 = Some (0, m\<lparr>x_size := sz_add (x_size m) 1\<rparr>, w2)"
        "becomes w1 w2 C (- 1) []" "fresh w2 = fresh w1"
        "swaps w0 C a (chain bs ?t) np s u (chain bs (Knot p key (Some ?v) (Knot b suf u2 c2 Void) n2))" by auto
    have "becomes w0 w2 C 2 []" by (rule becomes_trans [OF P(4) becomes_trans [OF nd(1) w2(2) refl refl]]) simp_all
    then have "grows m w0 a (chain bs ?t) np s 0 w2 u (chain bs (Knot p key (Some ?v) (Knot b suf u2 c2 Void) n2)) []"
      using w2(3,4) sv(2) P(2,3) by (auto simp: grows_def)
    then show ?thesis using sv(1) True w2(1) by (intro exI [of _ 0] exI [of _ w2]) (simp add: run0)
  next
    case False
    then have rc: "rc = - 1" and B1: "becomes w w1 (cells_of w) 0 []" using sres by auto
    from drop_prefix_ok [OF pm B1, of m] obtain w2 where
      w2: "radixmap_node_free_chain m (Ptr p) w1 = Some w2" "becomes w0 (free_block w2) (cells_of w0) 0 []" "fresh w2 = fresh w1" by blast
    have "grows m w0 a (chain bs ?t) np s (- 1) (free_block w2) u c' []" for c'
      by (rule grows_refused) (use w2 sv rc P D(6) in \<open>auto simp: radix_room_def\<close>)
    then show ?thesis using sv(1) rc w2(1) by (intro exI [of _ "- 1"] exI [of _ "free_block w2"]) (simp add: run0)
  qed
qed

lemma make_leaf_ok:
  assumes ok: "store_ok w" and sz: "sizes_ok m" and k: "0 \<notin> set k" "length k < PTRDIFF_MAX"
  shows "\<exists>r w1. radixmap_node_new m k (strlen k) w = Some (r, w1) \<and> fresh w1 \<le> Suc (fresh w)
    \<and> (no_fail w \<longrightarrow> 40 + x_value_size m \<le> PTRDIFF_MAX \<longrightarrow> fresh w < SIZE_MAX \<longrightarrow> r \<noteq> NULL)
    \<and> (r = NULL \<and> becomes w w1 (cells_of w) 0 []
       \<or> r = Ptr (fresh w) \<and> (\<exists>rc w2. radixmap_store_value m r x w1 = Some (rc, w2) \<and> fresh w2 \<le> Suc (fresh w)
           \<and> (no_fail w \<longrightarrow> x_value_size m \<le> PTRDIFF_MAX \<longrightarrow> rc = 0)
           \<and> (rc = 0 \<and> (\<exists>nd. becomes w w2 ((cells_of w)(fresh w \<mapsto> nd)) 2 [] \<and> node_is nd k (Some (copied (x_value_copy m) x)) NULL NULL)
              \<or> rc = - 1 \<and> (\<exists>w3. radixmap_node_free_chain m r w2 = Some w3 \<and> fresh w3 \<le> Suc (fresh w) \<and> becomes w w3 (cells_of w) 0 []))))"
proof -
  let ?q = "fresh w" let ?v = "copied (x_value_copy m) x"
  from radix_node_new_ok [OF ok sz, of "length k" k] k(2) obtain r w1 where
    r: "radixmap_node_new m k (strlen k) w = Some (r, w1)" "fresh w1 \<le> Suc ?q"
      "no_fail w \<longrightarrow> 40 + x_value_size m \<le> PTRDIFF_MAX \<longrightarrow> fresh w < SIZE_MAX \<longrightarrow> r \<noteq> NULL"
    and res: "r = NULL \<and> becomes w w1 (cells_of w) 0 []
       \<or> r = Ptr ?q \<and> becomes w w1 ((cells_of w)(?q \<mapsto> blank k)) 2 []"
    using strlen_ok [OF k(1)] by auto
  from res show ?thesis
  proof
    assume B1: "r = Ptr ?q \<and> becomes w w1 ((cells_of w)(?q \<mapsto> blank k)) 2 []"
    then have b1: "becomes w w1 ((cells_of w)(?q \<mapsto> blank k)) 2 []" by blast
    note D1 = becomesD [OF b1]
    have "node_at (cells_of w1) ?q k None NULL NULL" using D1(2) by simp
    from store_value_ok [OF D1(1) this, of m x] obtain rc w2 where
      sv: "radixmap_store_value m (Ptr ?q) x w1 = Some (rc, w2)" "fresh w2 = fresh w1" "no_fail w1 \<Longrightarrow> x_value_size m \<le> PTRDIFF_MAX \<Longrightarrow> rc = 0"
      and sres: "rc = - 1 \<and> becomes w1 w2 (cells_of w1) 0 []
        \<or> rc = 0 \<and> (\<exists>nd. becomes w1 w2 ((cells_of w1)(?q \<mapsto> nd)) 0 (log_if (x_value_destroy m) (old None)) \<and> node_is nd k (Some ?v) NULL NULL)"
      by auto
    have "rc = 0 \<and> (\<exists>nd. becomes w w2 ((cells_of w)(?q \<mapsto> nd)) 2 [] \<and> node_is nd k (Some ?v) NULL NULL)
      \<or> rc = - 1 \<and> (\<exists>w3. radixmap_node_free_chain m r w2 = Some w3 \<and> fresh w3 \<le> Suc ?q \<and> becomes w w3 (cells_of w) 0 [])"
    proof (cases "rc = 0")
      case True
      then obtain nd where nd: "becomes w1 w2 ((cells_of w1)(?q \<mapsto> nd)) 0 []" "node_is nd k (Some ?v) NULL NULL" using sres by auto
      have "becomes w w2 ((cells_of w1)(?q \<mapsto> nd)) 2 []" by (rule becomes_trans [OF b1 nd(1)]) simp_all
      then show ?thesis using True nd(2) D1(2) by auto
    next
      case False
      then have rc: "rc = - 1" and b2: "becomes w1 w2 (cells_of w1) 0 []" using sres by auto
      note D2 = becomesD [OF b2]
      have "node_at (cells_of w2) ?q k None NULL NULL" using D1(2) D2(2) by simp
      from free_leaf_ok [OF D2(1) this, of m] obtain w3 where
        w3: "radixmap_node_free_chain m (Ptr ?q) w2 = Some w3" "becomes w2 w3 ((cells_of w2)(?q := None)) (- 2) []" "fresh w3 = fresh w2" by blast
      have "becomes w w3 ((cells_of w2)(?q := None)) 0 []"
        by (rule becomes_trans [OF b1 becomes_trans [OF b2 w3(2) refl refl]]) simp_all
      moreover have "(cells_of w2)(?q := None) = cells_of w" using D1(2) D2(2) store_ok_fresh [OF ok] by (simp add: fun_upd_idem)
      ultimately show ?thesis using rc w3 B1 sv(2) r(2) by auto
    qed
    then show ?thesis using r sv B1 D1(6) by (intro exI [of _ r] exI [of _ w1]) auto
  qed (use r in auto)
qed

lemma attach_leaf_ok:
  fixes w :: "'v rworld"
  assumes pm: "prefix_made w0 w p (take j key)" and k: "knot_at (cells_of w0) a s u (chain bs (Knot b s2 u2 c2 n2)) np"
    and sep: "separate (Knot a s u (chain bs (Knot b s2 u2 c2 n2)) Void)" and sz: "sizes_ok m"
    and key: "0 \<notin> set key" "j < length key" "length key < PTRDIFF_MAX"
  shows "\<exists>rc w'. split_attach m (link_after (Child_field (Ptr a)) bs) (Ptr b) (Ptr p) key j x suf (length suf) w
      = Some (rc, if rc = 0 then m\<lparr>x_size := sz_add (x_size m) 1\<rparr> else m, w')
    \<and> grows m w0 a (chain bs (Knot b s2 u2 c2 n2)) np s rc w' u
        (chain bs (Knot p (take j key) None
          (Knot (Suc p) (drop j key) (Some (copied (x_value_copy m) x)) Void (Knot b suf u2 c2 Void)) n2)) []"
proof -
  let ?t = "Knot b s2 u2 c2 n2" let ?v = "copied (x_value_copy m) x" let ?l = "link_after (Child_field (Ptr a)) bs"
  let ?k = "drop j key" let ?pre = "take j key"
  let ?t' = "Knot p ?pre None (Knot (Suc p) ?k (Some ?v) Void (Knot b suf u2 c2 Void)) n2"
  note P = prefix_madeD [OF pm]
  note D = becomesD [OF P(4)]
  have "key ! j \<noteq> 0" "char_at key j = Some (key ! j)" using key by (auto simp: char_at_def dest: nth_mem)
  note run0 = split_attach_def [of m ?l "Ptr b" "Ptr p" key j x suf "length suf" w, unfolded this(2)] this(1)
  have kz: "0 \<notin> set ?k" "length ?k < PTRDIFF_MAX" using key by (auto dest: in_set_dropD)
  from make_leaf_ok [OF D(1) sz kz, of x] obtain r w1 where
    r: "radixmap_node_new m ?k (strlen ?k) w = Some (r, w1)" "fresh w1 \<le> Suc (fresh w)"
      "no_fail w \<longrightarrow> 40 + x_value_size m \<le> PTRDIFF_MAX \<longrightarrow> fresh w < SIZE_MAX \<longrightarrow> r \<noteq> NULL"
    and res: "r = NULL \<and> becomes w w1 (cells_of w) 0 []
       \<or> r = Ptr (fresh w) \<and> (\<exists>rc w2. radixmap_store_value m r x w1 = Some (rc, w2) \<and> fresh w2 \<le> Suc (fresh w)
           \<and> (no_fail w \<longrightarrow> x_value_size m \<le> PTRDIFF_MAX \<longrightarrow> rc = 0)
           \<and> (rc = 0 \<and> (\<exists>nd. becomes w w2 ((cells_of w)(fresh w \<mapsto> nd)) 2 [] \<and> node_is nd ?k (Some ?v) NULL NULL)
              \<or> rc = - 1 \<and> (\<exists>w3. radixmap_node_free_chain m r w2 = Some w3 \<and> fresh w3 \<le> Suc (fresh w) \<and> becomes w w3 (cells_of w) 0 [])))"
    by (elim exE conjE) (rule that)
  have refused: ?thesis if B: "becomes w wx (cells_of w) 0 []" "fresh wx \<le> Suc (fresh w)" "no_fail w \<Longrightarrow> \<not> radix_room m w0"
    and run: "\<And>wy. radixmap_node_free_chain m (Ptr p) wx = Some wy \<Longrightarrow>
      split_attach m ?l (Ptr b) (Ptr p) key j x suf (length suf) w = Some (- 1, m, free_block wy)" for wx
  proof -
    from drop_prefix_ok [OF pm B(1), of m] obtain w2 where
      w2: "radixmap_node_free_chain m (Ptr p) wx = Some w2" "becomes w0 (free_block w2) (cells_of w0) 0 []" "fresh w2 = fresh wx" by blast
    have "grows m w0 a (chain bs ?t) np s (- 1) (free_block w2) u (chain bs ?t') []"
      by (rule grows_refused) (use w2 B P D(6) in auto)
    then show ?thesis using run [OF w2(1)] by (intro exI [of _ "- 1"] exI [of _ "free_block w2"]) simp
  qed
  have room: "x_value_size m \<le> PTRDIFF_MAX" "40 + x_value_size m \<le> PTRDIFF_MAX" "fresh w < SIZE_MAX" if "radix_room m w0"
    using that P(2,3) by (simp_all add: radix_room_def)
  from res show ?thesis
  proof (elim disjE conjE exE)
    assume r0: "r = NULL" "becomes w w1 (cells_of w) 0 []"
    show ?thesis by (rule refused [OF r0(2) r(2)]) (use r r0 run0 room in auto)
  next
    fix rc w2 nd
    assume r1: "r = Ptr (fresh w)" "radixmap_store_value m r x w1 = Some (rc, w2)" "fresh w2 \<le> Suc (fresh w)" "rc = 0"
      and nd: "becomes w w2 ((cells_of w)(fresh w \<mapsto> nd)) 2 []" "node_is nd ?k (Some ?v) NULL NULL"
    note D2 = becomesD [OF nd(1)]
    have c2: "cells_of w2 = (cells_of w0)(p \<mapsto> blank ?pre, Suc p \<mapsto> nd)" using D2(2) D(2) P(3) by simp
    from link_split_ok [OF P(1) D2(1) k sep _ eq_imp_le [OF P(2) [symmetric]], of ?pre None "Some (Suc p, ?k, Some ?v)" m suf] c2 nd(2) P(2) obtain w3 C where
      w3: "link_split m ?l (Ptr b) (Ptr p) (Ptr (Suc p)) suf (length suf) w2 = Some (0, m\<lparr>x_size := sz_add (x_size m) 1\<rparr>, w3)"
        "becomes w2 w3 C (- 1) []" "fresh w3 = fresh w2" "swaps w0 C a (chain bs ?t) np s u (chain bs ?t')" by auto
    have "becomes w0 w3 C 4 []" by (rule becomes_trans [OF P(4) becomes_trans [OF nd(1) w3(2) refl refl]]) simp_all
    then have "grows m w0 a (chain bs ?t) np s 0 w3 u (chain bs ?t') []"
      using w3(3,4) r1(3) P(2,3) by (auto simp: grows_def)
    then show ?thesis using r(1) r1 w3(1) P(3) run0 by (intro exI [of _ 0] exI [of _ w3]) simp
  next
    fix rc w2 w3
    assume r2: "r = Ptr (fresh w)" "radixmap_store_value m r x w1 = Some (rc, w2)" "no_fail w \<longrightarrow> x_value_size m \<le> PTRDIFF_MAX \<longrightarrow> rc = 0"
      "rc = - 1" "radixmap_node_free_chain m r w2 = Some w3" "fresh w3 \<le> Suc (fresh w)" "becomes w w3 (cells_of w) 0 []"
    show ?thesis by (rule refused [OF r2(7,6)]) (use r r2 run0 room in auto)
  qed
qed

lemma split_insert_ok:
  fixes w :: "'v rworld"
  assumes ok: "store_ok w" and sz: "sizes_ok m" and k: "knot_at (cells_of w) a s u (chain bs (Knot b s2 u2 c2 n2)) np"
    and sep: "separate (Knot a s u (chain bs (Knot b s2 u2 c2 n2)) Void)"
    and key: "0 \<notin> set key" "hd key = hd s2" "common s2 key < length s2" "length key < PTRDIFF_MAX" "length s2 < PTRDIFF_MAX"
  shows "\<exists>rc w'. radixmap_split_insert m (link_after (Child_field (Ptr a)) bs) (Ptr b) key (common s2 key) x w
      = Some (rc, if rc = 0 then m\<lparr>x_size := sz_add (x_size m) 1\<rparr> else m, w')
    \<and> grows m w a (chain bs (Knot b s2 u2 c2 n2)) np s rc w' u
        (chain bs (ins (fresh w) (Suc (fresh w)) key (copied (x_value_copy m) x) (Knot b s2 u2 c2 n2))) []"
proof -
  let ?t = "Knot b s2 u2 c2 n2" let ?j = "common s2 key" let ?v = "copied (x_value_copy m) x" let ?suf = "drop ?j s2"
  let ?l = "link_after (Child_field (Ptr a)) bs" let ?p = "fresh w"
  let ?t' = "ins ?p (Suc ?p) key ?v ?t"
  note le = common_le [of s2 key]
  obtain nb where nb: "cells_of w b = Some nb" "node_is nb s2 u2 (tptr c2) (tptr n2)"
    using k by (auto simp: knot_at_level node_at_def)
  note N = node_isD [OF nb(2)]
  have len: "sz_sub (length s2) ?j = length ?suf" "sz_add (length ?suf) 1 = length ?suf + 1" "length ?suf + 1 \<le> PTRDIFF_MAX"
    using key(3,5) SIZE_MAX_PTRDIFF_MAX by simp_all
  obtain b1 w1 where m1: "malloc (length ?suf + 1) w = (b1, w1)" by fastforce
  note B1 = becomes_malloc [OF m1 ok]
  note D1 = becomesD [OF B1(1)]
  note run0 = radixmap_split_insert_def [of m ?l "Ptr b" key ?j x w]
  show ?thesis
  proof (cases b1)
    case False
    have "grows m w a (chain bs ?t) np s (- 1) w1 u (chain bs ?t') []"
      by (rule grows_refused) (use B1 False len(3) in auto)
    then show ?thesis using nb(1) N len m1 False by (intro exI [of _ "- 1"] exI [of _ w1]) (simp add: run0)
  next
    case True
    from radix_node_new_ok [OF D1(1) sz, of ?j key] le(2) key(4) obtain r w2 where
      r: "radixmap_node_new m key ?j w1 = Some (r, w2)"
        "no_fail w1 \<Longrightarrow> 40 + x_value_size m \<le> PTRDIFF_MAX \<Longrightarrow> fresh w1 < SIZE_MAX \<Longrightarrow> r \<noteq> NULL" "fresh w2 \<le> Suc (fresh w1)"
      and res: "r = NULL \<and> becomes w1 w2 (cells_of w1) 0 []
       \<or> r = Ptr ?p \<and> becomes w1 w2 ((cells_of w1)(?p \<mapsto> blank (take ?j key))) 2 [] \<and> fresh w2 = Suc ?p"
      using B1(2) by auto
    from res show ?thesis
    proof (elim disjE conjE)
      assume r0: "r = NULL" and B2: "becomes w1 w2 (cells_of w1) 0 []"
      note D2 = becomesD [OF B2]
      have bf: "becomes w (free_block w2) (cells_of w) 0 []"
        using becomes_trans [OF B1(1) becomes_trans [OF B2 becomes_free_block [OF D2(1)] refl refl]] True D1(2) D2(2) by simp
      have "grows m w a (chain bs ?t) np s (- 1) (free_block w2) u (chain bs ?t') []"
        by (rule grows_refused) (use bf r r0 B1(2) D1(6) in \<open>auto simp: radix_room_def\<close>)
      then show ?thesis
        using nb(1) N len m1 True r(1) r0 by (intro exI [of _ "- 1"] exI [of _ "free_block w2"]) (simp add: run0)
    next
      assume rp: "r = Ptr ?p" and B2: "becomes w1 w2 ((cells_of w1)(?p \<mapsto> blank (take ?j key))) 2 []" and f2: "fresh w2 = Suc ?p"
      have "becomes w w2 ((cells_of w1)(?p \<mapsto> blank (take ?j key))) 3 []" by (rule becomes_trans [OF B1(1) B2]) (simp_all add: True)
      then have pm: "prefix_made w w2 ?p (take ?j key)" using ok f2 D1(2) by (simp add: prefix_made_def)
      have run: "radixmap_split_insert m ?l (Ptr b) key ?j x w = split_attach m ?l (Ptr b) (Ptr ?p) key ?j x ?suf (length ?suf) w2"
        using nb(1) N len m1 True r(1) rp by (simp add: run0)
      show ?thesis
      proof (cases "?j = length key")
        case j: True
        then have "?t' = Knot ?p key (Some ?v) (Knot b ?suf u2 c2 Void) n2" using key(2,3) by (simp add: Let_def)
        then show ?thesis unfolding run using attach_prefix_ok [OF _ k sep, of w2 ?p key m x ?suf] pm j by simp
      next
        case False
        then have "?t' = Knot ?p (take ?j key) None (Knot (Suc ?p) (drop ?j key) (Some ?v) Void (Knot b ?suf u2 c2 Void)) n2"
          using key(2,3) by (simp add: Let_def)
        moreover have "?j < length key" using False le by simp
        ultimately show ?thesis unfolding run using attach_leaf_ok [OF pm k sep sz key(1) _ key(4), of x ?suf] by simp
      qed
    qed
  qed
qed

section \<open>Insertion\<close>

lemma grows_up:
  fixes w :: "'v rworld"
  assumes "store_ok w" "knot_at (cells_of w) a s u (chain bs (Knot b s2 u2 c2 n2)) np"
    "separate (Knot a s u (chain bs (Knot b s2 u2 c2 n2)) Void)" "grows m w b c2 (tptr n2) s2 rc w' u2' c2' ds"
  shows "grows m w a (chain bs (Knot b s2 u2 c2 n2)) np s rc w' u (chain bs (Knot b s2 u2' c2' n2)) ds"
  using assms(4) swaps_up [OF assms(1-3)] unfolding grows_def by fastforce

lemma set_loop_leaf:
  fixes w :: "'v rworld"
  assumes ok: "store_ok w" and sz: "sizes_ok m" and k: "knot_at (cells_of w) a s u (chain bs Void) np"
    and sep: "separate (Knot a s u (chain bs Void) Void)" and key: "0 \<notin> set key" "length key < PTRDIFF_MAX"
    and run: "radix_set_loop m (Ptr a) key x w = do {
         (leaf, w1) \<leftarrow> radixmap_node_new m key (strlen key) w;
         if leaf = NULL then Some (- 1, m, w1)
         else do {
           (rc, w2) \<leftarrow> radixmap_store_value m leaf x w1;
           if rc \<noteq> 0 then do { w3 \<leftarrow> radixmap_node_free_chain m leaf w2; Some (- 1, m, w3) }
           else do {
             w3 \<leftarrow> write_link (link_after (Child_field (Ptr a)) bs) leaf w2;
             Some (0, m\<lparr>x_size := sz_add (x_size m) 1\<rparr>, w3) } } }"
  shows "\<exists>rc w'. radix_set_loop m (Ptr a) key x w = Some (rc, if rc = 0 then m\<lparr>x_size := sz_add (x_size m) 1\<rparr> else m, w')
    \<and> grows m w a (chain bs Void) np s rc w' u (chain bs (Knot (fresh w) key (Some (copied (x_value_copy m) x)) Void Void)) []"
proof -
  let ?q = "fresh w" let ?v = "copied (x_value_copy m) x" let ?t' = "Knot ?q key (Some ?v) Void Void"
  from make_leaf_ok [OF ok sz key, of x] obtain r w1 where
    r: "radixmap_node_new m key (strlen key) w = Some (r, w1)" "fresh w1 \<le> Suc ?q"
      "no_fail w \<longrightarrow> 40 + x_value_size m \<le> PTRDIFF_MAX \<longrightarrow> ?q < SIZE_MAX \<longrightarrow> r \<noteq> NULL"
    and res: "r = NULL \<and> becomes w w1 (cells_of w) 0 []
       \<or> r = Ptr ?q \<and> (\<exists>rc w2. radixmap_store_value m r x w1 = Some (rc, w2) \<and> fresh w2 \<le> Suc ?q
           \<and> (no_fail w \<longrightarrow> x_value_size m \<le> PTRDIFF_MAX \<longrightarrow> rc = 0)
           \<and> (rc = 0 \<and> (\<exists>nd. becomes w w2 ((cells_of w)(?q \<mapsto> nd)) 2 [] \<and> node_is nd key (Some ?v) NULL NULL)
              \<or> rc = - 1 \<and> (\<exists>w3. radixmap_node_free_chain m r w2 = Some w3 \<and> fresh w3 \<le> Suc ?q \<and> becomes w w3 (cells_of w) 0 [])))"
    by (elim exE conjE) (rule that)
  from res show ?thesis
  proof (elim disjE conjE exE)
    assume r0: "r = NULL" "becomes w w1 (cells_of w) 0 []"
    have "grows m w a (chain bs Void) np s (- 1) w1 u (chain bs ?t') []"
      by (rule grows_refused) (use r r0 in \<open>auto simp: radix_room_def\<close>)
    then show ?thesis using run r(1) r0 by (intro exI [of _ "- 1"] exI [of _ w1]) simp
  next
    fix rc w2 w3
    assume r2: "r = Ptr ?q" "radixmap_store_value m r x w1 = Some (rc, w2)" "no_fail w \<longrightarrow> x_value_size m \<le> PTRDIFF_MAX \<longrightarrow> rc = 0"
      "rc = - 1" "radixmap_node_free_chain m r w2 = Some w3" "fresh w3 \<le> Suc ?q" "becomes w w3 (cells_of w) 0 []"
    have "grows m w a (chain bs Void) np s (- 1) w3 u (chain bs ?t') []"
      by (rule grows_refused) (use r r2 in \<open>auto simp: radix_room_def\<close>)
    then show ?thesis using run r(1) r2 by (intro exI [of _ "- 1"] exI [of _ w3]) simp
  next
    fix rc w2 nd
    assume r1: "r = Ptr ?q" "radixmap_store_value m r x w1 = Some (rc, w2)" "fresh w2 \<le> Suc ?q" "rc = 0"
      and nd: "becomes w w2 ((cells_of w)(?q \<mapsto> nd)) 2 []" "node_is nd key (Some ?v) NULL NULL"
    note D2 = becomesD [OF nd(1)]
    have "trie_at (cells_of w2) ?t'" using D2(2) nd(2) by simp
    from relink_ok [OF ok D2(1) k sep _ this] D2(2) obtain w3 C where
      w3: "write_link (link_after (Child_field (Ptr a)) bs) (Ptr ?q) w2 = Some w3" "becomes w2 w3 C 0 []" "fresh w3 = fresh w2"
        "swaps w C a (chain bs Void) np s u (chain bs ?t')" by auto
    have "becomes w w3 C 2 []" by (rule becomes_trans [OF nd(1) w3(2)]) simp_all
    then have "grows m w a (chain bs Void) np s 0 w3 u (chain bs ?t') []" using w3(3,4) r1(3) by (auto simp: grows_def)
    then show ?thesis using run r(1) r1 w3(1) by (intro exI [of _ 0] exI [of _ w3]) simp
  qed
qed

definition put_value_at :: "'v option \<Rightarrow> bytes \<Rightarrow> 'v \<Rightarrow> 'v option" where
  "put_value_at u key v = (if key = [] then Some v else u)"

definition put_below :: "nat \<Rightarrow> bytes \<Rightarrow> 'v \<Rightarrow> 'v trie \<Rightarrow> 'v trie" where
  "put_below p key v c = (if key = [] then c else ins p (Suc p) key v c)"

lemma ins_prefix: "s2 \<noteq> [] \<Longrightarrow> ins p (Suc p) (s2 @ y) v (Knot b s2 u2 c2 n2) = Knot b s2 (put_value_at u2 y v) (put_below p y v c2) n2"
  using common_full [of s2 "s2 @ y"] by (auto simp: Let_def put_value_at_def put_below_def)

lemma set_here_ok:
  fixes w :: "'v rworld"
  assumes ok: "store_ok w" and k: "knot_at (cells_of w) a s u c np" and sep: "separate (Knot a s u c Void)"
  shows "\<exists>rc w'. radix_set_loop m (Ptr a) [] x w
      = Some (rc, if rc = 0 \<and> u = None then m\<lparr>x_size := sz_add (x_size m) 1\<rparr> else m, w')
    \<and> grows m w a c np s rc w' (Some (copied (x_value_copy m) x)) c (old u)"
proof -
  obtain nd where nd: "cells_of w a = Some nd" "node_is nd s u (tptr c) np" and c: "trie_at (cells_of w) c"
    using k by (auto simp: knot_at_def node_at_def)
  have "node_at (cells_of w) a s u (tptr c) np" using k by (simp add: knot_at_def)
  from store_value_ok [OF ok this, of m x] obtain rc w' where
    sv: "radixmap_store_value m (Ptr a) x w = Some (rc, w')" "fresh w' = fresh w" "no_fail w \<longrightarrow> x_value_size m \<le> PTRDIFF_MAX \<longrightarrow> rc = 0"
    and res: "rc = - 1 \<and> becomes w w' (cells_of w) 0 []
       \<or> rc = 0 \<and> (\<exists>nd. becomes w w' ((cells_of w)(a \<mapsto> nd)) 0 (log_if (x_value_destroy m) (old u))
            \<and> node_is nd s (Some (copied (x_value_copy m) x)) (tptr c) np)" by (elim exE conjE) (rule that)
  have run: "radix_set_loop m (Ptr a) [] x w = Some (rc, if rc = 0 \<and> u = None then m\<lparr>x_size := sz_add (x_size m) 1\<rparr> else m, w')"
    using nd(1) node_isD(5) [OF nd(2)] sv(1) res by (subst radix_set_loop.simps) auto
  have "grows m w a c np s rc w' (Some (copied (x_value_copy m) x)) c (old u)"
    using res
  proof (elim disjE conjE exE)
    fix nd'
    assume n: "rc = 0" "becomes w w' ((cells_of w)(a \<mapsto> nd')) 0 (log_if (x_value_destroy m) (old u))"
      "node_is nd' s (Some (copied (x_value_copy m) x)) (tptr c) np"
    have "swaps w ((cells_of w)(a \<mapsto> nd')) a c np s (Some (copied (x_value_copy m) x)) c"
      unfolding swaps_def knot_at_def using n(3) sep c by auto
    then show ?thesis using n sv(2) by (auto simp: grows_def)
  qed (use sv in \<open>auto simp: grows_def radix_room_def\<close>)
  then show ?thesis using run by blast
qed

lemma radix_set_loop_ok:
  fixes w :: "'v rworld"
  assumes ok: "store_ok w" and sz: "sizes_ok m"
  shows "0 \<notin> set key \<Longrightarrow> knot_at (cells_of w) a s u c np \<Longrightarrow> separate (Knot a s u c Void) \<Longrightarrow> good L c \<Longrightarrow> length key \<le> L \<Longrightarrow> L < PTRDIFF_MAX \<Longrightarrow>
   \<exists>rc w'. radix_set_loop m (Ptr a) key x w
      = Some (rc, if rc = 0 \<and> value_below u c key = None then m\<lparr>x_size := sz_add (x_size m) 1\<rparr> else m, w')
    \<and> grows m w a c np s rc w' (put_value_at u key (copied (x_value_copy m) x)) (put_below (fresh w) key (copied (x_value_copy m) x) c)
        (old (value_below u c key))"
proof (induction "length key" arbitrary: key a s u c np L rule: less_induct)
  case less
  obtain nd where nd: "cells_of w a = Some nd" "node_is nd s u (tptr c) np" and c: "trie_at (cells_of w) c"
    using less.prems(2) by (auto simp: knot_at_def node_at_def)
  note N = node_isD [OF nd(2)]
  let ?v = "copied (x_value_copy m) x"
  show ?case
  proof (cases "key = []")
    case True
    then show ?thesis using set_here_ok [OF ok less.prems(2,3)] by (simp add: value_below_def put_value_at_def put_below_def)
  next
    case False
    note k = hd_neq_0 [OF less.prems(1) False]
    obtain bs t where sk: "seek (hd key) c = (bs, t)" by fastforce
    from seek_split [OF sk] have sp: "c = chain bs t" "hd key \<notin> sib_heads bs"
      "t = Void \<or> (\<exists>b s2 u2 c2 n2. t = Knot b s2 u2 c2 n2 \<and> hd s2 = hd key)" by blast+
    have find: "value_below u c key = find_in t key" using sp(1,2) False by (simp add: value_below_def find_in_chain)
    have new: "put_value_at u key ?v = u" "put_below (fresh w) key ?v c = chain bs (ins (fresh w) (Suc (fresh w)) key ?v t)"
      using sp(1,2) False by (simp_all add: put_value_at_def put_below_def ins_chain)
    have "read_link (Child_field (Ptr a)) w = Some (tptr c)" using nd(1) N by simp
    from find_link_loop_ok [OF this c less.prems(4) sk]
    have link: "radixmap_find_child_link (Ptr a) (hd key) w = Some (link_after (Child_field (Ptr a)) bs)"
      by (simp add: radixmap_find_child_link_def)
    have rl: "read_link (link_after (Child_field (Ptr a)) bs) w = Some (tptr t)"
      using less.prems(2) sp(1) read_link_ok [of w a s u bs "tptr t" np] by (simp add: knot_at_level)
    note K = less.prems(2) [unfolded sp(1)] and S = less.prems(3) [unfolded sp(1)]
    show ?thesis
    proof (cases t)
      case Void
      have len: "length key < PTRDIFF_MAX" using less.prems(5,6) by simp
      from set_loop_leaf [OF ok sz K [unfolded Void] S [unfolded Void] less.prems(1) len, of x] show ?thesis
        using link rl k False Void find new sp(1) by (simp add: radix_set_loop.simps [of m "Ptr a" key x w])
    next
      case (Knot b s2 u2 c2 n2)
      have hd2: "hd s2 = hd key" using sp(3) Knot by auto
      have g: "s2 \<noteq> []" "length s2 \<le> L" "good (L - length s2) c2" using good_chain [of L bs t] sp(1) less.prems(4) Knot by auto
      have tt: "knot_at (cells_of w) b s2 u2 c2 (tptr n2)" using c sp(1) Knot by (auto simp: knot_at_def)
      then obtain nb where nb: "cells_of w b = Some nb" "node_is nb s2 u2 (tptr c2) (tptr n2)" by (auto simp: knot_at_def node_at_def)
      have cm: "radixmap_common_prefix_len (x_segment nb) (x_segment_len nb) key = Some (common s2 key)"
        using common_prefix_ok [OF less.prems(1), of s2] node_isD [OF nb(2)] g(2) less.prems(6) SIZE_MAX_PTRDIFF_MAX by simp
      note run0 = radix_set_loop.simps [of m "Ptr a" key x w]
      show ?thesis
      proof (cases "prefix s2 key")
        case True
        then obtain y where y: "key = s2 @ y" by (auto simp: prefix_def)
        have j: "common s2 key = length s2" using True by (simp add: common_full)
        have sep2: "separate (Knot b s2 u2 c2 Void)" using S Knot separate_chain [of bs t] by simp
        have yk: "0 \<notin> set y" "length y < length key" "length y \<le> L - length s2" "L - length s2 < PTRDIFF_MAX"
          using less.prems(1,5,6) g(1) y by auto
        from less.hyps [OF yk(2,1) tt sep2 g(3) yk(3,4)] obtain rc w' where
          IH: "radix_set_loop m (Ptr b) y x w = Some (rc, if rc = 0 \<and> value_below u2 c2 y = None then m\<lparr>x_size := sz_add (x_size m) 1\<rparr> else m, w')"
            "grows m w b c2 (tptr n2) s2 rc w' (put_value_at u2 y ?v) (put_below (fresh w) y ?v c2) (old (value_below u2 c2 y))"
          by (elim exE conjE) (rule that)
        have val: "value_below u c key = value_below u2 c2 y" using find Knot g(1) y by (simp add: value_below_def)
        have "radix_set_loop m (Ptr a) key x w = radix_set_loop m (Ptr b) y x w"
          unfolding run0 using link rl k False Knot nb(1) cm j node_isD(4) [OF nb(2)] by (simp add: y)
        moreover have "grows m w a c np s rc w' u (chain bs (ins (fresh w) (Suc (fresh w)) key ?v t)) (old (value_below u c key))"
          using grows_up [OF ok K [unfolded Knot] S [unfolded Knot] IH(2)] val
          by (simp only: sp(1) Knot y ins_prefix [OF g(1)])
        ultimately show ?thesis using IH(1) val new by (intro exI [of _ rc] exI [of _ w']) simp
      next
        case npre: False
        then have "common s2 key \<noteq> length s2" by (simp add: common_full)
        then have j: "common s2 key < length s2" using common_le(1) [of s2 key] by simp
        have len: "length key < PTRDIFF_MAX" "length s2 < PTRDIFF_MAX" using less.prems(5,6) g(2) by simp_all
        have val: "value_below u c key = None" using find Knot hd2 False npre by simp
        have "radix_set_loop m (Ptr a) key x w
            = radixmap_split_insert m (link_after (Child_field (Ptr a)) bs) (Ptr b) key (common s2 key) x w"
          using link rl k False Knot nb(1) cm j node_isD(4) [OF nb(2)] by (simp add: run0)
        then show ?thesis
          using split_insert_ok [OF ok sz K [unfolded Knot] S [unfolded Knot] less.prems(1) hd2 [symmetric] j len, of x] val new Knot sp(1)
          by simp
      qed
    qed
  qed
qed

end
