(* ===== verification/Radix_Delete.thy ===== *)
theory Radix_Delete
  imports Radix_Insert
begin

text \<open>
  The contract of the recursive deletion of \<open>radixmap.c\<close>. A node that loses its value is removed when it
  has no children, and merged with its child when it has one and the allocation of the longer segment
  succeeds; the entries do not depend on whether it does.
\<close>

section \<open>Entries below a node with a longer segment\<close>

definition path :: "bytes \<Rightarrow> 'v option \<Rightarrow> 'v trie \<Rightarrow> bytes \<rightharpoonup> 'v" where
  "path e u c x = (if prefix e x then value_below u c (drop (length e) x) else None)"

lemma path_Nil [simp]: "path [] u c = value_below u c"
  by (simp add: path_def fun_eq_iff)

lemma path_Void [simp]: "path e None Void = Map.empty"
  by (simp add: path_def value_below_def fun_eq_iff)

lemma path_one: "e \<noteq> [] \<Longrightarrow> path e u c = value_below None (Knot b e u c Void)"
  by (auto simp: path_def value_below_def fun_eq_iff prefix_def)

lemma find_in_path: "s \<noteq> [] \<Longrightarrow> find_in (Knot b (s @ e) u c n) x =
    (if x = [] then None else if hd s = hd x then (if prefix s x then path e u c (drop (length s) x) else None) else find_in n x)"
  by (auto simp: path_def value_below_def prefix_def)

lemma find_in_knot: "s \<noteq> [] \<Longrightarrow> find_in (Knot b s u c n) x =
    (if x = [] then None else if hd s = hd x then (if prefix s x then value_below u c (drop (length s) x) else None) else find_in n x)"
  by (auto simp: value_below_def prefix_def)

section \<open>Effects\<close>

lemma swaps_refl: "knot_at (cells_of w) a s u c np \<Longrightarrow> separate (Knot a s u c Void) \<Longrightarrow> swaps w (cells_of w) a c np s u c"
  by (simp add: swaps_def)

lemma swaps_trans:
  assumes "swaps w (cells_of w1) a c np s1 u1 c1" "swaps w1 C a c1 np s2 u2 c2" "fresh w \<le> fresh w1"
  shows "swaps w C a c np s2 u2 c2"
proof -
  note A = swapsD [OF assms(1)] and B = swapsD [OF assms(2)]
  have "d \<in> places c \<or> fresh w \<le> d" if "d \<in> places c2" for d
    using B(3) [OF that] A(3) [of d] assms(3) by auto
  moreover have "C d = cells_of w d" if "d < fresh w" "d \<noteq> a" "d \<notin> places c" for d
    using that B(4) [of d] A(4) [of d] A(3) [of d] assms(3) by auto
  ultimately show ?thesis using B(1,2) by (auto simp: swaps_def)
qed

lemma swaps_drop:
  assumes "swaps w C a c np s u c1" "b \<noteq> a" "b \<notin> places c1" "b \<in> places c"
  shows "swaps w (C(b := v)) a c np s u c1"
  using assms by (auto simp: swaps_def knot_at_def node_at_def)

text \<open>What a successful deletion leaves at the node: a segment that may be longer, and the entries \<open>M\<close>.\<close>

definition shrinks ::
    "nat \<Rightarrow> 'v rworld \<Rightarrow> nat \<Rightarrow> 'v trie \<Rightarrow> nat ptr \<Rightarrow> bytes \<Rightarrow> 'v rworld \<Rightarrow> bytes \<Rightarrow> 'v option \<Rightarrow> 'v trie \<Rightarrow> 'v list \<Rightarrow> (bytes \<rightharpoonup> 'v) \<Rightarrow> bool" where
  "shrinks L w a c np s w' e u' c' ds M \<longleftrightarrow> fresh w' = fresh w
     \<and> becomes w w' (cells_of w') (2 * (int (length (knots c')) - int (length (knots c)))) ds
     \<and> swaps w (cells_of w') a c np (s @ e) u' c' \<and> good (L - length (s @ e)) c' \<and> length (s @ e) \<le> L \<and> 0 \<notin> set e
     \<and> path e u' c' = M \<and> (no_fail w \<longrightarrow> compact c \<longrightarrow> compact c')"

lemma shrinksD:
  assumes "shrinks L w a c np s w' e u' c' ds M"
  shows "fresh w' = fresh w" "becomes w w' (cells_of w') (2 * (int (length (knots c')) - int (length (knots c)))) ds"
    "swaps w (cells_of w') a c np (s @ e) u' c'" "good (L - length (s @ e)) c'" "length (s @ e) \<le> L" "0 \<notin> set e" "path e u' c' = M"
    "no_fail w \<Longrightarrow> compact c \<Longrightarrow> compact c'"
  using assms by (simp_all add: shrinks_def)

lemma shrinks_trans:
  assumes "shrinks L w a c np s w1 [] u1 c1 ds M" "shrinks L w1 a c1 np s w2 e u2 c2 [] M"
  shows "shrinks L w a c np s w2 e u2 c2 ds M"
proof -
  note A = shrinksD [OF assms(1)] and B = shrinksD [OF assms(2)]
  have "becomes w w2 (cells_of w2) (2 * (int (length (knots c2)) - int (length (knots c)))) ds"
    by (rule becomes_trans [OF A(2) B(2)]) simp_all
  moreover have "swaps w (cells_of w2) a c np (s @ e) u2 c2" by (rule swaps_trans [OF A(3) B(3)]) (simp add: A(1))
  moreover have "no_fail w \<longrightarrow> compact c \<longrightarrow> compact c2" using A(8) B(8) becomesD(6) [OF A(2)] by blast
  ultimately show ?thesis using A(1) B by (simp add: shrinks_def)
qed

section \<open>Merging a node with its only child\<close>

lemma single_child_ok:
  assumes "knot_at (cells_of w) a s u c np"
  shows "radixmap_node_has_single_child (Ptr a) w = Some (\<exists>b s2 u2 c2. c = Knot b s2 u2 c2 Void)"
  using assms by (cases c) (auto simp: radixmap_node_has_single_child_def knot_at_def node_at_def node_is_def)

lemma merge_ok:
  fixes w :: "'v rworld"
  assumes ok: "store_ok w" and k: "knot_at (cells_of w) a s None (Knot b s2 u2 c2 Void) np"
    and sep: "separate (Knot a s None (Knot b s2 u2 c2 Void) Void)" and len: "length s + length s2 < PTRDIFF_MAX"
  shows "\<exists>w'. radixmap_node_try_merge_child (Ptr a) w = Some w' \<and> fresh w' = fresh w
    \<and> (\<not> no_fail w \<and> becomes w w' (cells_of w) 0 []
       \<or> becomes w w' (cells_of w') (- 2) [] \<and> swaps w (cells_of w') a (Knot b s2 u2 c2 Void) np (s @ s2) u2 c2)"
proof -
  obtain na nb where na: "cells_of w a = Some na" "node_is na s None (Ptr b) np" and nb: "cells_of w b = Some nb" "node_is nb s2 u2 (tptr c2) NULL"
    and c2: "trie_at (cells_of w) c2" using k by (auto simp: knot_at_def node_at_def)
  note A = node_isD [OF na(2)] and B = node_isD [OF nb(2)]
  have S: "a \<noteq> b" "a \<notin> places c2" "b \<notin> places c2" "separate c2" using sep by simp_all
  have sz: "sz_add (length s) (length s2) = length (s @ s2)" "sz_add (length (s @ s2)) 1 = length (s @ s2) + 1" "length (s @ s2) + 1 \<le> PTRDIFF_MAX"
    using len SIZE_MAX_PTRDIFF_MAX by simp_all
  obtain b1 w1 where m1: "malloc (length (s @ s2) + 1) w = (b1, w1)" by fastforce
  note B1 = becomes_malloc [OF m1 ok]
  note D1 = becomesD [OF B1(1)]
  note run0 = radixmap_node_try_merge_child_def [of "Ptr a" w] single_child_ok [OF k]
  show ?thesis
  proof (cases b1)
    case False
    then have "\<not> no_fail w" using B1(3) sz(3) by auto
    then show ?thesis using False na(1) nb(1) A B sz m1 B1 by (auto simp: run0)
  next
    case True
    note f1 = becomes_free_block [OF D1(1)]
    note F1 = becomesD [OF f1]
    let ?f = "\<lambda>n. n\<lparr>x_segment := take (x_segment_len n) (x_segment n) @ take (x_segment_len nb) (x_segment nb),
             x_segment_len := length (s @ s2), x_child := x_child nb, x_has_value := x_has_value nb\<rparr>"
    from becomes_modify [OF F1(1), of a na ?f] na(1) D1(2) F1(2) obtain w2 where
      w2: "modify (Ptr a) ?f (free_block w1) = Some w2" "becomes (free_block w1) w2 ((cells_of w)(a \<mapsto> ?f na)) 0 []" "fresh w2 = fresh w1" by auto
    note D2 = becomesD [OF w2(2)]
    let ?step = "if x_has_value nb then do {
             v \<leftarrow> x_value nb;
             wa \<leftarrow> put_value (Ptr a) v w2;
             modify (Ptr b) (x_has_value_update (\<lambda>_. False)) wa }
           else Some w2"
    have "\<exists>w3 na' nb'. ?step = Some w3 \<and> becomes w2 w3 ((cells_of w)(a \<mapsto> na', b \<mapsto> nb')) 0 [] \<and> fresh w3 = fresh w2
      \<and> node_is na' (s @ s2) u2 (tptr c2) np"
    proof (cases u2)
      case None
      have "(cells_of w)(a \<mapsto> ?f na, b \<mapsto> nb) = (cells_of w)(a \<mapsto> ?f na)" using nb(1) S(1) by auto
      moreover have "node_is (?f na) (s @ s2) u2 (tptr c2) np" using A B None by (simp add: node_is_def)
      ultimately show ?thesis
        using None B(5) becomes_refl [OF D2(1)] D2(2) by (intro exI [of _ w2] exI [of _ "?f na"] exI [of _ nb]) simp
    next
      case (Some v)
      from becomes_modify [OF D2(1), of a "?f na" "x_value_update (\<lambda>_. Some v)"] D2(2) obtain wa where
        wa: "modify (Ptr a) (x_value_update (\<lambda>_. Some v)) w2 = Some wa"
          "becomes w2 wa ((cells_of w)(a \<mapsto> x_value_update (\<lambda>_. Some v) (?f na))) 0 []" "fresh wa = fresh w2" by auto
      note Da = becomesD [OF wa(2)]
      from becomes_modify [OF Da(1), of b nb "x_has_value_update (\<lambda>_. False)"] Da(2) nb(1) S(1) obtain w3 where
        w3: "modify (Ptr b) (x_has_value_update (\<lambda>_. False)) wa = Some w3"
          "becomes wa w3 ((cells_of w)(a \<mapsto> x_value_update (\<lambda>_. Some v) (?f na), b \<mapsto> x_has_value_update (\<lambda>_. False) nb)) 0 []"
          "fresh w3 = fresh wa" by auto
      have "node_is (x_value_update (\<lambda>_. Some v) (?f na)) (s @ s2) u2 (tptr c2) np" using A B Some by (simp add: node_is_def)
      moreover have "?step = Some w3" using B(5,6) Some wa(1) w3(1) by (simp add: put_value_def)
      ultimately show ?thesis using becomes_trans [OF wa(2) w3(2) refl refl] w3(3) wa(3) by auto
    qed
    then obtain w3 na' nb' where w3: "?step = Some w3" "becomes w2 w3 ((cells_of w)(a \<mapsto> na', b \<mapsto> nb')) 0 []" "fresh w3 = fresh w2"
      "node_is na' (s @ s2) u2 (tptr c2) np" by blast
    note D3 = becomesD [OF w3(2)]
    note f3 = becomes_free_block [OF D3(1)]
    note F3 = becomesD [OF f3]
    from becomes_free_node [OF F3(1), of b nb'] D3(2) F3(2) obtain w4 where
      w4: "free_node (Ptr b) (free_block w3) = Some w4" "becomes (free_block w3) w4 ((cells_of w)(a \<mapsto> na', b := None)) (- 1) []" "fresh w4 = fresh w3"
      by auto
    note D4 = becomesD [OF w4(2)]
    have run: "radixmap_node_try_merge_child (Ptr a) w = Some w4"
      using na(1) nb(1) A B sz(1,2) m1 True w2(1) w3(1) w4(1) by (cases u2) (auto simp: run0 bind_eq_Some_conv)
    have "becomes w w4 ((cells_of w)(a \<mapsto> na', b := None)) (- 2) []"
      by (rule becomes_trans [OF B1(1) becomes_trans [OF f1 becomes_trans [OF w2(2) becomes_trans [OF w3(2) becomes_trans [OF f3 w4(2) refl refl]
        refl refl] refl refl] refl refl]]) (simp_all add: True)
    moreover have "swaps w ((cells_of w)(a \<mapsto> na', b := None)) a (Knot b s2 u2 c2 Void) np (s @ s2) u2 c2"
      unfolding swaps_def knot_at_def using w3(4) c2 S by auto
    ultimately show ?thesis using run D4(2) w4(3) w3(3) w2(3) B1(2) by auto
  qed
qed

text \<open>The last part of the deletion, at a node without a value.\<close>

lemma try_merge_ok:
  fixes w :: "'v rworld"
  assumes ok: "store_ok w" and k: "knot_at (cells_of w) a s None c np" and sep: "separate (Knot a s None c Void)"
    and g: "good (L - length s) c" "length s \<le> L" "L < PTRDIFF_MAX" "c \<noteq> Void"
  shows "\<exists>w' e u' c'. radixmap_node_try_merge_child (Ptr a) w = Some w' \<and> shrinks L w a c np s w' e u' c' [] (value_below None c)
    \<and> (u' \<noteq> None \<or> c' \<noteq> Void) \<and> (no_fail w \<longrightarrow> compact c \<longrightarrow> u' = None \<longrightarrow> many c')"
proof -
  have same: "shrinks L w a c np s w' [] None c [] (value_below None c)" if "becomes w w' (cells_of w) 0 []" "fresh w' = fresh w" for w'
    using that swaps_refl [OF k sep] becomesD(2) [OF that(1)] g(1,2) by (simp add: shrinks_def)
  show ?thesis
  proof (cases "\<exists>b s2 u2 c2. c = Knot b s2 u2 c2 Void")
    case False
    then have "radixmap_node_try_merge_child (Ptr a) w = Some w"
      using k single_child_ok [OF k] by (auto simp: radixmap_node_try_merge_child_def knot_at_def node_at_def)
    moreover have "many c" using False g(4) by (cases c) auto
    ultimately show ?thesis
      using same [OF becomes_refl [OF ok]] g(4) by (intro exI [of _ w] exI [of _ "[]"] exI [of _ None] exI [of _ c]) simp
  next
    case True
    then obtain b s2 u2 c2 where c: "c = Knot b s2 u2 c2 Void" by blast
    have s2: "s2 \<noteq> []" "length s + length s2 \<le> L" "good (L - length s - length s2) c2" "u2 = None \<longrightarrow> c2 \<noteq> Void" "0 \<notin> set s2"
      using g(1,2) c by auto
    from merge_ok [OF ok k [unfolded c] sep [unfolded c]] s2(2) g(3) obtain w' where
      w': "radixmap_node_try_merge_child (Ptr a) w = Some w'" "fresh w' = fresh w"
      and res: "\<not> no_fail w \<and> becomes w w' (cells_of w) 0 []
       \<or> becomes w w' (cells_of w') (- 2) [] \<and> swaps w (cells_of w') a c np (s @ s2) u2 c2" using c by auto
    from res show ?thesis
    proof (elim disjE conjE)
      assume nf: "\<not> no_fail w" and "becomes w w' (cells_of w) 0 []"
      from same [OF this(2) w'(2)] show ?thesis using w'(1) g(4) nf by (intro exI [of _ w'] exI [of _ "[]"] exI [of _ None] exI [of _ c]) simp
    next
      assume m: "becomes w w' (cells_of w') (- 2) []" "swaps w (cells_of w') a c np (s @ s2) u2 c2"
      then have "shrinks L w a c np s w' s2 u2 c2 [] (value_below None c)"
        using w'(2) s2 path_one [of s2 u2 c2 b] c by (simp add: shrinks_def diff_diff_left)
      then show ?thesis using w'(1) s2(4) c by (intro exI [of _ w'] exI [of _ s2] exI [of _ u2] exI [of _ c2]) auto
    qed
  qed
qed

section \<open>Deletion\<close>

text \<open>What remains to do when the entry below the node is gone.\<close>

definition settle :: "'v radixmap \<Rightarrow> nat ptr \<Rightarrow> bool \<Rightarrow> 'v rworld \<Rightarrow> (int \<times> bool \<times> 'v radixmap \<times> 'v rworld) option" where
  "settle m node is_root w = do {
     n \<leftarrow> get_node node w;
     if \<not> is_root \<and> \<not> x_has_value n then
       (if x_child n = NULL then Some (1, True, m, w)
        else do { w2 \<leftarrow> radixmap_node_try_merge_child node w; Some (1, False, m, w2) })
     else Some (1, False, m, w) }"

definition leaves :: "bool \<Rightarrow> bool \<Rightarrow> bool \<Rightarrow> bytes \<Rightarrow> 'v option \<Rightarrow> 'v trie \<Rightarrow> bool" where
  "leaves ideal root rem e u c \<longleftrightarrow> (rem \<longleftrightarrow> \<not> root \<and> u = None \<and> c = Void) \<and> (root \<longrightarrow> e = [])
     \<and> (ideal \<longrightarrow> \<not> root \<longrightarrow> \<not> rem \<longrightarrow> u = None \<longrightarrow> many c)"

lemma settle_ok:
  fixes w :: "'v rworld"
  assumes sh: "shrinks L w a c np s w1 [] u1 c1 ds M" and L: "L < PTRDIFF_MAX"
  shows "\<exists>rem w2 e u' c'. settle m (Ptr a) root w1 = Some (1, rem, m, w2) \<and> shrinks L w a c np s w2 e u' c' ds M \<and> leaves (no_fail w \<and> compact c) root rem e u' c'"
proof -
  note D = shrinksD [OF sh]
  have k: "knot_at (cells_of w1) a s u1 c1 np" and sep: "separate (Knot a s u1 c1 Void)" using swapsD(1,2) [OF D(3)] by simp_all
  obtain na where na: "cells_of w1 a = Some na" "node_is na s u1 (tptr c1) np" using k by (auto simp: knot_at_def node_at_def)
  note N = node_isD [OF na(2)]
  show ?thesis
  proof (cases "root \<or> u1 \<noteq> None \<or> c1 = Void")
    case True
    then have "settle m (Ptr a) root w1 = Some (1, \<not> root \<and> u1 = None \<and> c1 = Void, m, w1)" using na(1) N by (auto simp: settle_def)
    moreover have "leaves (no_fail w \<and> compact c) root (\<not> root \<and> u1 = None \<and> c1 = Void) [] u1 c1" using True by (auto simp: leaves_def)
    ultimately show ?thesis using sh by blast
  next
    case False
    then have u1: "u1 = None" by simp
    from try_merge_ok [OF becomesD(1) [OF D(2)] k [unfolded u1] sep [unfolded u1] _ _ L] D(4,5) False obtain w2 e u' c' where
      m: "radixmap_node_try_merge_child (Ptr a) w1 = Some w2" "shrinks L w1 a c1 np s w2 e u' c' [] (value_below None c1)" "u' \<noteq> None \<or> c' \<noteq> Void"
        "no_fail w1 \<longrightarrow> compact c1 \<longrightarrow> u' = None \<longrightarrow> many c'"
      by auto
    have "M = value_below None c1" using D(7) u1 by simp
    then have "shrinks L w a c np s w2 e u' c' ds M" using shrinks_trans [OF sh] m(2) by simp
    moreover have "settle m (Ptr a) root w1 = Some (1, False, m, w2)" using na(1) N False m(1) by (simp add: settle_def)
    moreover have "no_fail w \<and> compact c \<Longrightarrow> no_fail w1 \<and> compact c1" using D(8) becomesD(6) [OF D(2)] by blast
    then have "leaves (no_fail w \<and> compact c) root False e u' c'" using False m(3,4) by (auto simp: leaves_def)
    ultimately show ?thesis by blast
  qed
qed

text \<open>The entry at the node itself.\<close>

lemma drop_here_ok:
  fixes w :: "'v rworld"
  assumes ok: "store_ok w" and k: "knot_at (cells_of w) a s (Some v) c np" and sep: "separate (Knot a s (Some v) c Void)"
    and g: "good (L - length s) c" "length s \<le> L"
  shows "\<exists>w'. modify (Ptr a) (x_has_value_update (\<lambda>_. False)) (radixmap_destroy_value m v w) = Some w'
    \<and> shrinks L w a c np s w' [] None c (log_if (x_value_destroy m) [v]) ((value_below (Some v) c)([] := None))"
proof -
  obtain na where na: "cells_of w a = Some na" "node_is na s (Some v) (tptr c) np" and c: "trie_at (cells_of w) c"
    using k by (auto simp: knot_at_def node_at_def)
  note b1 = becomes_destroy [OF ok, of "x_value_destroy m" v]
  note D1 = becomesD [OF b1]
  from becomes_modify [OF D1(1), of a na "x_has_value_update (\<lambda>_. False)"] na(1) obtain w' where
    w': "modify (Ptr a) (x_has_value_update (\<lambda>_. False)) (radixmap_destroy_value m v w) = Some w'"
      "becomes (radixmap_destroy_value m v w) w' ((cells_of w)(a \<mapsto> x_has_value_update (\<lambda>_. False) na)) 0 []" "fresh w' = fresh w"
    by (auto simp: radixmap_destroy_value_def)
  have b: "becomes w w' ((cells_of w)(a \<mapsto> x_has_value_update (\<lambda>_. False) na)) 0 (log_if (x_value_destroy m) [v])"
    by (rule becomes_trans [OF b1 [folded radixmap_destroy_value_def] w'(2)]) simp_all
  moreover have "swaps w ((cells_of w)(a \<mapsto> x_has_value_update (\<lambda>_. False) na)) a c np s None c"
    using node_is_update(3) [OF na(2)] sep c by (auto simp: swaps_def knot_at_def)
  moreover have "value_below None c = (value_below (Some v) c)([] := None)" by (simp add: value_below_def fun_eq_iff)
  ultimately show ?thesis using w'(1,3) b becomesD(2) [OF b] g by (simp add: shrinks_def)
qed

text \<open>The entries of the parent, when the child keeps its place and when it goes.\<close>

lemma below_cong:
  assumes "\<And>x. x \<noteq> [] \<Longrightarrow> hd x \<notin> sib_heads bs \<Longrightarrow> find_in t' x = (if x = k then None else find_in t x)" "k \<noteq> []" "hd k \<notin> sib_heads bs"
  shows "value_below u (chain bs t') = (value_below u (chain bs t))(k := None)"
proof
  fix x
  show "value_below u (chain bs t') x = ((value_below u (chain bs t))(k := None)) x"
  proof (cases "x = [] \<or> hd x \<in> sib_heads bs")
    case True
    then show ?thesis using assms(2,3) find_in_chain_if [of bs t' x] find_in_chain_if [of bs t x] by (auto simp: value_below_def)
  next
    case False
    then show ?thesis using assms(1) [of x] find_in_chain [of x bs] by (simp add: value_below_def)
  qed
qed

lemma below_kept:
  assumes "path e u2' c2' = (value_below u2 c2)(y := None)" "s2 \<noteq> []" "hd s2 \<notin> sib_heads bs"
  shows "value_below u (chain bs (Knot b (s2 @ e) u2' c2' n2)) = (value_below u (chain bs (Knot b s2 u2 c2 n2)))(s2 @ y := None)"
proof (rule below_cong)
  fix x :: bytes assume "x \<noteq> []"
  show "find_in (Knot b (s2 @ e) u2' c2' n2) x = (if x = s2 @ y then None else find_in (Knot b s2 u2 c2 n2) x)"
  proof (cases "prefix s2 x")
    case True
    then obtain z where "x = s2 @ z" by (auto simp: prefix_def)
    then show ?thesis unfolding find_in_path [OF assms(2)] find_in_knot [OF assms(2)] using assms by simp
  next
    case False
    then show ?thesis unfolding find_in_path [OF assms(2)] find_in_knot [OF assms(2)] by (auto simp: prefix_def)
  qed
qed (use assms in simp_all)

lemma below_gone:
  assumes "(value_below u2 c2)(y := None) = Map.empty" "s2 \<noteq> []" "hd s2 \<notin> sib_heads bs" "hd s2 \<notin> heads n2"
  shows "value_below u (chain bs n2) = (value_below u (chain bs (Knot b s2 u2 c2 n2)))(s2 @ y := None)"
proof (rule below_cong)
  fix x :: bytes assume x: "x \<noteq> []"
  have none: "find_in n2 x = None" if "hd x = hd s2" using find_in_other [of x n2] assms(4) that by simp
  have "value_below u2 c2 z = None" if "z \<noteq> y" for z using fun_cong [OF assms(1), of z] that by simp
  then have "find_in (Knot b s2 u2 c2 n2) x = find_in n2 x" if "x \<noteq> s2 @ y"
    unfolding find_in_knot [OF assms(2)] using that none x by (auto simp: prefix_def)
  moreover have "find_in n2 (s2 @ y) = None" using find_in_other [of "s2 @ y" n2] assms(2,4) by simp
  ultimately show "find_in n2 x = (if x = s2 @ y then None else find_in (Knot b s2 u2 c2 n2) x)" by (auto simp del: find_in.simps(2))
qed (use assms in simp_all)

lemma unlink_child_ok:
  fixes w :: "'v rworld"
  assumes ok: "store_ok w" and k: "knot_at (cells_of w) a s u (chain bs (Knot b s2 u2 c2 n2)) np"
    and sep: "separate (Knot a s u (chain bs (Knot b s2 u2 c2 n2)) Void)"
    and sh: "shrinks L w b c2 (tptr n2) s2 w1 e None Void ds M"
  shows "\<exists>cn w2 w3 w4. get_node (Ptr b) w1 = Some cn \<and> write_link (link_after (Child_field (Ptr a)) bs) (x_next cn) w1 = Some w2
    \<and> modify (Ptr b) (x_next_update (\<lambda>_. NULL)) w2 = Some w3 \<and> radixmap_node_free_chain m (Ptr b) w3 = Some w4
    \<and> fresh w4 = fresh w \<and> swaps w (cells_of w4) a (chain bs (Knot b s2 u2 c2 n2)) np s u (chain bs n2)
    \<and> becomes w w4 (cells_of w4) (2 * (int (length (knots (chain bs n2))) - int (length (knots (chain bs (Knot b s2 u2 c2 n2)))))) ds"
proof -
  let ?t = "Knot b s2 u2 c2 n2"
  note D = shrinksD [OF sh]
  note W = swapsD [OF D(3)]
  note low = knot_at_fresh [OF k ok]
  have S: "a \<notin> sib_places bs" "a \<notin> places ?t" "separate ?t" "sib_places bs \<inter> places ?t = {}"
    using sep by (auto simp: separate_chain [of bs ?t])
  obtain cn where cn: "cells_of w1 b = Some cn" "node_is cn (s2 @ e) None NULL (tptr n2)"
    using W(1) by (auto simp: knot_at_def node_at_def)
  have "trie_at (cells_of w) n2" using k by (simp add: knot_at_level)
  moreover have "cells_of w1 d = cells_of w d" if "d \<in> places n2" for d using W(4) [of d] low [of d] that S(3) by auto
  ultimately have n2: "trie_at (cells_of w1) n2" using trie_at_cong [of n2 "cells_of w1" "cells_of w"] by simp
  have same: "cells_of w1 d = cells_of w d" if "d < fresh w" "d \<notin> places ?t" for d using W(4) [of d] that by simp
  from relink_ok [OF ok becomesD(1) [OF D(2)] k sep same n2] S(3) obtain w2 C where
    w2: "write_link (link_after (Child_field (Ptr a)) bs) (tptr n2) w1 = Some w2" "becomes w1 w2 C 0 []" "fresh w2 = fresh w1"
      "swaps w C a (chain bs ?t) np s u (chain bs n2)" and out: "\<forall>d. d \<noteq> a \<longrightarrow> d \<notin> sib_places bs \<longrightarrow> C d = cells_of w1 d" by auto
  note D2 = becomesD [OF w2(2)]
  have b: "b \<noteq> a" "b \<notin> sib_places bs" "b \<notin> places n2" using S by auto
  let ?n = "x_next_update (\<lambda>_. NULL) cn"
  from becomes_modify [OF D2(1), of b cn "x_next_update (\<lambda>_. NULL)"] out b(1,2) cn(1) D2(2) obtain w3 where
    w3: "modify (Ptr b) (x_next_update (\<lambda>_. NULL)) w2 = Some w3" "becomes w2 w3 (C(b \<mapsto> ?n)) 0 []" "fresh w3 = fresh w2" by auto
  note D3 = becomesD [OF w3(2)]
  have "node_at (cells_of w3) b (s2 @ e) None NULL NULL" using D3(2) node_is_update(2) [OF cn(2)] by simp
  from free_leaf_ok [OF D3(1) this, of m] obtain w4 where
    w4: "radixmap_node_free_chain m (Ptr b) w3 = Some w4" "becomes w3 w4 ((cells_of w3)(b := None)) (- 2) []" "fresh w4 = fresh w3" by blast
  note D4 = becomesD [OF w4(2)]
  have c4: "cells_of w4 = C(b := None)" using D4(2) D3(2) by simp
  have "becomes w w4 (cells_of w4) (2 * (int (length (knots (chain bs n2))) - int (length (knots (chain bs ?t))))) ds"
    unfolding D4(2)
    by (rule becomes_trans [OF D(2) becomes_trans [OF w2(2) becomes_trans [OF w3(2) w4(2) refl refl] refl refl]]) simp_all
  moreover have "swaps w (cells_of w4) a (chain bs ?t) np s u (chain bs n2)"
    unfolding c4 by (rule swaps_drop [OF w2(4) b(1)]) (use b in auto)
  moreover have "x_next cn = tptr n2" using node_isD(2) [OF cn(2)] .
  ultimately show ?thesis using cn(1) w2(1,3) w3(1,3) w4(1,3) D(1) by auto
qed

text \<open>After the deletion below a child: the child is freed, or it stays.\<close>

lemma child_deleted_ok:
  fixes w :: "'v rworld"
  assumes ok: "store_ok w" and k: "knot_at (cells_of w) a s u (chain bs (Knot b s2 u2 c2 n2)) np"
    and sep: "separate (Knot a s u (chain bs (Knot b s2 u2 c2 n2)) Void)"
    and G: "good (L - length s) (chain bs (Knot b s2 u2 c2 n2))" and h: "hd s2 \<notin> sib_heads bs" and len: "length s \<le> L"
    and sh: "shrinks (L - length s) w b c2 (tptr n2) s2 w1 e u2' c2' ds ((value_below u2 c2)(y := None))"
    and lv: "leaves (no_fail w \<and> compact c2) False rem e u2' c2'"
  shows "\<exists>w2 c1. (if rem then do {
               cn1 \<leftarrow> get_node (Ptr b) w1;
               w2 \<leftarrow> write_link (link_after (Child_field (Ptr a)) bs) (x_next cn1) w1;
               w3 \<leftarrow> modify (Ptr b) (x_next_update (\<lambda>_. NULL)) w2;
               w4 \<leftarrow> radixmap_node_free_chain m (Ptr b) w3;
               Some (True, m, w4) }
             else Some (True, m, w1)) = Some (True, m, w2)
    \<and> shrinks L w a (chain bs (Knot b s2 u2 c2 n2)) np s w2 [] u c1 ds ((value_below u (chain bs (Knot b s2 u2 c2 n2)))(s2 @ y := None))"
proof -
  let ?t = "Knot b s2 u2 c2 n2" let ?t' = "Knot b (s2 @ e) u2' c2' n2"
  note D = shrinksD [OF sh]
  have g: "s2 \<noteq> []" "0 \<notin> set s2" "hd s2 \<notin> heads n2" "good (L - length s) n2" using good_chain [OF G] by simp_all
  show ?thesis
  proof (cases rem)
    case True
    then have gone: "u2' = None" "c2' = Void" using lv by (simp_all add: leaves_def)
    from unlink_child_ok [OF ok k sep sh [unfolded gone], of m] obtain cn w2 w3 w4 where
      w4: "get_node (Ptr b) w1 = Some cn" "write_link (link_after (Child_field (Ptr a)) bs) (x_next cn) w1 = Some w2"
        "modify (Ptr b) (x_next_update (\<lambda>_. NULL)) w2 = Some w3" "radixmap_node_free_chain m (Ptr b) w3 = Some w4"
        "fresh w4 = fresh w" "swaps w (cells_of w4) a (chain bs ?t) np s u (chain bs n2)"
        "becomes w w4 (cells_of w4) (2 * (int (length (knots (chain bs n2))) - int (length (knots (chain bs ?t))))) ds"
      by (elim exE conjE) (rule that)
    have "(value_below u2 c2)(y := None) = Map.empty" using D(7) gone by simp
    from below_gone [OF this g(1) h g(3)]
    have "value_below u (chain bs n2) = (value_below u (chain bs ?t))(s2 @ y := None)" .
    moreover have "good (L - length s) (chain bs n2)" by (rule good_chain_swap [OF G g(4)]) (simp add: subset_insertI)
    ultimately have "shrinks L w a (chain bs ?t) np s w4 [] u (chain bs n2) ds ((value_below u (chain bs ?t))(s2 @ y := None))"
      using w4(5-7) len compact_chain [of bs ?t n2] compact_chainD [of bs ?t] by (simp add: shrinks_def)
    then show ?thesis using True w4(1-4) by (intro exI [of _ w4] exI [of _ "chain bs n2"]) simp
  next
    case False
    have "good (L - length s) ?t'" using D(4,5,6) g lv False by (auto simp: leaves_def)
    then have "good (L - length s) (chain bs ?t')" by (rule good_chain_swap [OF G]) (use g(1) in simp)
    moreover have "becomes w w1 (cells_of w1) (2 * (int (length (knots (chain bs ?t'))) - int (length (knots (chain bs ?t))))) ds"
      using D(2) by simp
    ultimately have "shrinks L w a (chain bs ?t) np s w1 [] u (chain bs ?t') ds ((value_below u (chain bs ?t))(s2 @ y := None))"
      using D(1,8) swaps_up [OF ok k sep D(3)] below_kept [OF D(7) g(1) h] len lv False
        compact_chain [of bs ?t ?t'] compact_chainD [of bs ?t] by (auto simp: shrinks_def leaves_def)
    then show ?thesis using False by (intro exI [of _ w1] exI [of _ "chain bs ?t'"]) simp
  qed
qed

lemma delete_node_unfold:
  "radixmap_delete_node m node key root w = do {
     c \<leftarrow> char_at key 0;
     (found, m1, w1) \<leftarrow> (if c = 0 then do {
         n \<leftarrow> get_node node w;
         if \<not> x_has_value n then Some (False, m, w)
         else do {
           x \<leftarrow> x_value n;
           w1 \<leftarrow> modify node (x_has_value_update (\<lambda>_. False)) (radixmap_destroy_value m x w);
           Some (True, m\<lparr>x_size := sz_sub (x_size m) 1\<rparr>, w1) } }
       else do {
         link \<leftarrow> radixmap_find_child_link node c w;
         child \<leftarrow> read_link link w;
         if child = NULL then Some (False, m, w)
         else do {
           cn \<leftarrow> get_node child w;
           common \<leftarrow> radixmap_common_prefix_len (x_segment cn) (x_segment_len cn) key;
           if common \<noteq> x_segment_len cn then Some (False, m, w)
           else do {
             (rc, remove_child, m1, w1) \<leftarrow> radixmap_delete_node m child (drop common key) False w;
             if rc = 0 then Some (False, m1, w1)
             else if remove_child then do {
               cn1 \<leftarrow> get_node child w1;
               w2 \<leftarrow> write_link link (x_next cn1) w1;
               w3 \<leftarrow> modify child (x_next_update (\<lambda>_. NULL)) w2;
               w4 \<leftarrow> radixmap_node_free_chain m1 child w3;
               Some (True, m1, w4) }
             else Some (True, m1, w1) } } });
     if \<not> found then Some (0, False, m1, w1) else settle m1 node root w1 }"
  unfolding settle_def by (rule radixmap_delete_node.simps)

text \<open>The destroyed value and the size after a successful deletion.\<close>

definition deleted :: "'v radixmap \<Rightarrow> 'v radixmap" where
  "deleted m = m\<lparr>x_size := sz_sub (x_size m) 1\<rparr>"

lemma deleted_simps [simp]: "x_value_destroy (deleted m) = x_value_destroy m" "x_value_size (deleted m) = x_value_size m"
  "x_value_copy (deleted m) = x_value_copy m" "x_root (deleted m) = x_root m" "x_size (deleted m) = sz_sub (x_size m) 1"
  by (simp_all add: deleted_def)

lemma delete_node_ok:
  fixes w :: "'v rworld"
  assumes ok: "store_ok w"
  shows "0 \<notin> set key \<Longrightarrow> knot_at (cells_of w) a s u c np \<Longrightarrow> separate (Knot a s u c Void) \<Longrightarrow> good (L - length s) c \<Longrightarrow> length s \<le> L \<Longrightarrow>
    L < PTRDIFF_MAX \<Longrightarrow> case value_below u c key of
        None \<Rightarrow> radixmap_delete_node m (Ptr a) key root w = Some (0, False, m, w)
      | Some v \<Rightarrow> (\<exists>rem w' e u' c'. radixmap_delete_node m (Ptr a) key root w = Some (1, rem, deleted m, w')
          \<and> shrinks L w a c np s w' e u' c' (log_if (x_value_destroy m) [v]) ((value_below u c)(key := None))
          \<and> leaves (no_fail w \<and> compact c) root rem e u' c')"
proof (induction "length key" arbitrary: key a s u c np L root rule: less_induct)
  case less
  obtain nd where nd: "cells_of w a = Some nd" "node_is nd s u (tptr c) np" and c: "trie_at (cells_of w) c"
    using less.prems(2) by (auto simp: knot_at_def node_at_def)
  note N = node_isD [OF nd(2)]
  note run0 = delete_node_unfold [of m "Ptr a" key root w]
  show ?case
  proof (cases "key = []")
    case True
    show ?thesis
    proof (cases u)
      case None
      then show ?thesis unfolding run0 using nd(1) N True by (simp add: value_below_def)
    next
      case (Some v)
      from drop_here_ok [OF ok less.prems(2,3) [unfolded Some] less.prems(4,5), of m] obtain w1 where
        w1: "modify (Ptr a) (x_has_value_update (\<lambda>_. False)) (radixmap_destroy_value m v w) = Some w1"
          "shrinks L w a c np s w1 [] None c (log_if (x_value_destroy m) [v]) ((value_below (Some v) c)([] := None))" by blast
      from settle_ok [OF w1(2) less.prems(6), of "deleted m" root] show ?thesis
        unfolding run0 using nd(1) N True w1(1) Some by (simp add: value_below_def [of "Some v" c "[]"] deleted_def)
    qed
  next
    case False
    note k = hd_neq_0 [OF less.prems(1) False]
    obtain bs t where sk: "seek (hd key) c = (bs, t)" by fastforce
    from seek_split [OF sk] have sp: "c = chain bs t" "hd key \<notin> sib_heads bs"
      "t = Void \<or> (\<exists>b s2 u2 c2 n2. t = Knot b s2 u2 c2 n2 \<and> hd s2 = hd key)" by blast+
    have find: "value_below u c key = find_in t key" using sp(1,2) False by (simp add: value_below_def find_in_chain)
    have "read_link (Child_field (Ptr a)) w = Some (tptr c)" using nd(1) N by simp
    from find_link_loop_ok [OF this c less.prems(4) sk]
    have link: "radixmap_find_child_link (Ptr a) (hd key) w = Some (link_after (Child_field (Ptr a)) bs)"
      by (simp add: radixmap_find_child_link_def)
    have rl: "read_link (link_after (Child_field (Ptr a)) bs) w = Some (tptr t)"
      using less.prems(2) sp(1) read_link_ok [of w a s u bs "tptr t" np] by (simp add: knot_at_level)
    note K = less.prems(2) [unfolded sp(1)] and S = less.prems(3) [unfolded sp(1)] and G = less.prems(4) [unfolded sp(1)]
    show ?thesis
    proof (cases t)
      case Void
      then show ?thesis unfolding run0 using find link rl k False by simp
    next
      case (Knot b s2 u2 c2 n2)
      have hd2: "hd s2 = hd key" using sp(3) Knot by auto
      have g: "s2 \<noteq> []" "length s2 \<le> L - length s" "good (L - length s - length s2) c2" "0 \<notin> set s2" "hd s2 \<notin> heads n2" "good (L - length s) n2"
        using good_chain [OF G] Knot by simp_all
      have tt: "knot_at (cells_of w) b s2 u2 c2 (tptr n2)" using c sp(1) Knot by (auto simp: knot_at_def)
      then obtain nb where nb: "cells_of w b = Some nb" "node_is nb s2 u2 (tptr c2) (tptr n2)" by (auto simp: knot_at_def node_at_def)
      have cm: "radixmap_common_prefix_len (x_segment nb) (x_segment_len nb) key = Some (common s2 key)"
        using common_prefix_ok [OF less.prems(1), of s2] node_isD [OF nb(2)] g(2) less.prems(6) SIZE_MAX_PTRDIFF_MAX by simp
      show ?thesis
      proof (cases "prefix s2 key")
        case npre: False
        then have "common s2 key \<noteq> length s2" by (simp add: common_full)
        moreover have "value_below u c key = None" using find Knot hd2 False npre by simp
        ultimately show ?thesis unfolding run0 using link rl k False Knot nb(1) cm node_isD(4) [OF nb(2)] by simp
      next
        case True
        then obtain y where y: "key = s2 @ y" by (auto simp: prefix_def)
        have j: "common s2 key = length s2" using True by (simp add: common_full)
        have sep2: "separate (Knot b s2 u2 c2 Void)" using S Knot separate_chain [of bs t] by simp
        have yk: "0 \<notin> set y" "length y < length key" "L - length s < PTRDIFF_MAX" using less.prems(1,6) g(1) y by auto
        note IH = less.hyps [OF yk(2,1) tt sep2 g(3,2) yk(3), of False]
        have val: "value_below u c key = value_below u2 c2 y" using find Knot g(1) y by (simp add: value_below_def)
        note facts = link rl k False Knot nb(1) cm j node_isD(4) [OF nb(2)]
        show ?thesis
        proof (cases "value_below u2 c2 y")
          case None
          then show ?thesis unfolding run0 using IH val facts by (simp add: y)
        next
          case (Some v)
          let ?M = "(value_below u2 c2)(y := None)" let ?ds = "log_if (x_value_destroy m) [v]"
          from IH Some obtain rem w1 e u2' c2' where
            d: "radixmap_delete_node m (Ptr b) y False w = Some (1, rem, deleted m, w1)"
              "shrinks (L - length s) w b c2 (tptr n2) s2 w1 e u2' c2' ?ds ?M" "leaves (no_fail w \<and> compact c2) False rem e u2' c2'" by auto
          from child_deleted_ok [OF ok K [unfolded Knot] S [unfolded Knot] G [unfolded Knot] _ less.prems(5) d(2,3), of "deleted m"] sp(2) hd2
          obtain w2 c1 where w2: "(if rem then do {
               cn1 \<leftarrow> get_node (Ptr b) w1;
               w2 \<leftarrow> write_link (link_after (Child_field (Ptr a)) bs) (x_next cn1) w1;
               w3 \<leftarrow> modify (Ptr b) (x_next_update (\<lambda>_. NULL)) w2;
               w4 \<leftarrow> radixmap_node_free_chain (deleted m) (Ptr b) w3;
               Some (True, deleted m, w4) }
             else Some (True, deleted m, w1)) = Some (True, deleted m, w2)"
            "shrinks L w a (chain bs (Knot b s2 u2 c2 n2)) np s w2 [] u c1 ?ds ((value_below u (chain bs (Knot b s2 u2 c2 n2)))(s2 @ y := None))"
            by auto
          have r: "radixmap_delete_node m (Ptr a) key root w = settle (deleted m) (Ptr a) root w2"
            unfolding run0 using facts d(1) w2(1) by (simp add: y)
          have sh: "shrinks L w a c np s w2 [] u c1 ?ds ((value_below u c)(key := None))" using w2(2) by (simp only: sp(1) Knot y)
          from settle_ok [OF sh less.prems(6), of "deleted m" root] show ?thesis unfolding r val Some by (simp add: val Some)
        qed
      qed
    qed
  qed
qed

end
