(* ===== verification/Radix_Map.thy ===== *)
theory Radix_Map
  imports Radix_Delete
begin

text \<open>
  The relation between a radix map and its trie, and the contracts of the public operations of
  \<open>radixmap.c\<close> with the interpretation of the machine of a finite map.
\<close>

section \<open>The relation\<close>

type_synonym 'v radix_conf = "size_t \<times> bool \<times> ('v \<Rightarrow> 'v) option"

definition radix_conf :: "'v radixmap \<Rightarrow> 'v radix_conf" where
  "radix_conf m = (x_value_size m, x_value_destroy m, x_value_copy m)"

definition key_legal :: "bytes \<Rightarrow> bool" where
  "key_legal k \<longleftrightarrow> 0 \<notin> set k \<and> length k < PTRDIFF_MAX"

definition radix_rel :: "'v radixmap \<Rightarrow> 'v rworld \<Rightarrow> 'v trie \<Rightarrow> bool" where
  "radix_rel m w t \<longleftrightarrow> store_ok w \<and> sizes_ok m \<and> separate t \<and> (\<exists>r u c. t = Knot r [] u c Void \<and> x_root m = Ptr r
     \<and> knot_at (cells_of w) r [] u c NULL \<and> good (PTRDIFF_MAX - 1) c) \<and> x_size m = card (dom (map_of (ents t)))"

lemma radix_relE:
  assumes "radix_rel m w t"
  obtains r u c where "t = Knot r [] u c Void" "x_root m = Ptr r" "knot_at (cells_of w) r [] u c NULL" "good (PTRDIFF_MAX - 1) c"
    "map_of (ents t) = value_below u c" "x_size m = card (dom (value_below u c))"
proof -
  from assms obtain r u c where t: "t = Knot r [] u c Void" "x_root m = Ptr r" "knot_at (cells_of w) r [] u c NULL" "good (PTRDIFF_MAX - 1) c"
    and size: "x_size m = card (dom (map_of (ents t)))" unfolding radix_rel_def by (elim exE conjE) (rule that)
  have M: "map_of (ents t) = value_below u c" unfolding t(1) by (rule map_of_top [OF t(4)])
  show thesis by (rule that [OF t M]) (simp only: size M)
qed

lemma radix_relD: "radix_rel m w t \<Longrightarrow> store_ok w" "radix_rel m w t \<Longrightarrow> sizes_ok m" "radix_rel m w t \<Longrightarrow> separate t"
  by (simp_all add: radix_rel_def)

lemma PTRDIFF_pred: "PTRDIFF_MAX - 1 < PTRDIFF_MAX"
  using PTRDIFF_MAX_big by simp

lemma places_below:
  assumes "radix_rel m w t" "d \<in> places t"
  shows "d < fresh w"
proof -
  from assms(1) obtain r u c where "t = Knot r [] u c Void" "knot_at (cells_of w) r [] u c NULL" by (rule radix_relE)
  then show ?thesis using knot_at_fresh [of w r "[]" u c NULL d] radix_relD(1) [OF assms(1)] assms(2) by simp
qed

text \<open>There are no more entries than addresses.\<close>

lemma entries_bound:
  assumes "\<And>d. d \<in> places t \<Longrightarrow> d < N" "separate t"
  shows "card (dom (map_of (ents t))) \<le> N"
proof -
  have "card (dom (map_of (ents t))) \<le> length (ents t)"
    unfolding dom_map_of_conv_image_fst by (rule order_trans [OF card_image_le [OF finite_set] card_length])
  also have "\<dots> \<le> length (knots t)" by (rule ents_knots)
  also have "\<dots> = card (places t)" using assms(2) by (simp add: separate_def places_def distinct_card)
  also have "\<dots> \<le> card {..<N}" by (rule card_mono) (use assms(1) in auto)
  finally show ?thesis by simp
qed

text \<open>Every node has two blocks.\<close>

partial_function (option) node_count :: "nat ptr \<Rightarrow> 'v rworld \<Rightarrow> nat option" where
  "node_count q w =
     (if q = NULL then Some 0
      else do {
        n \<leftarrow> get_node q w;
        i \<leftarrow> node_count (x_child n) w;
        j \<leftarrow> node_count (x_next n) w;
        Some (i + j + 1) })"

definition radix_own :: "'v radixmap \<Rightarrow> 'v rworld \<Rightarrow> int" where
  "radix_own m w = (case node_count (x_root m) w of None \<Rightarrow> 0 | Some n \<Rightarrow> 2 * int n)"

lemma node_count_ok: "trie_at (cells_of w) t \<Longrightarrow> node_count (tptr t) w = Some (length (knots t))"
proof (induction t)
  case (Knot a s u c n)
  then show ?case by (subst node_count.simps) (auto simp: node_at_def node_is_def)
qed (subst node_count.simps, simp)

lemma radix_own_ok: "radix_rel m w t \<Longrightarrow> radix_own m w = 2 * int (length (knots t))"
  using node_count_ok [of w t] by (auto simp: radix_rel_def radix_own_def knot_at_def)

text \<open>A call that turns the trie \<open>t\<close> into \<open>t'\<close> and destroys the values \<open>ds\<close>.\<close>

definition packed :: "'v trie \<Rightarrow> bool" where
  "packed t \<longleftrightarrow> (case t of Void \<Rightarrow> True | Knot r s u c n \<Rightarrow> compact c)"

lemma packed_Knot [simp]: "packed (Knot r s u c n) \<longleftrightarrow> compact c"
  by (simp add: packed_def)

definition radix_step ::
    "'v radixmap \<Rightarrow> 'v rworld \<Rightarrow> 'v trie \<Rightarrow> 'v radixmap \<Rightarrow> 'v rworld \<Rightarrow> 'v trie \<Rightarrow> 'v list \<Rightarrow> bool" where
  "radix_step m w t m' w' t' ds \<longleftrightarrow> radix_conf m' = radix_conf m \<and> radix_rel m' w' t' \<and> frame (places t) w w'
     \<and> (\<forall>d \<in> places t'. d \<in> places t \<or> fresh w \<le> d) \<and> (no_fail w \<longrightarrow> no_fail w')
     \<and> destroyed w' = destroyed w @ log_if (x_value_destroy m) ds
     \<and> live w' - 2 * int (length (knots t')) = live w - 2 * int (length (knots t)) \<and> (no_fail w \<longrightarrow> packed t \<longrightarrow> packed t')"

lemma radix_stepD:
  assumes "radix_step m w t m' w' t' ds"
  shows "radix_conf m' = radix_conf m" "radix_rel m' w' t'" "frame (places t) w w'" "d \<in> places t' \<Longrightarrow> d \<in> places t \<or> fresh w \<le> d"
    "no_fail w \<Longrightarrow> no_fail w'" "destroyed w' = destroyed w @ log_if (x_value_destroy m) ds"
    "live w' - 2 * int (length (knots t')) = live w - 2 * int (length (knots t))" "no_fail w \<Longrightarrow> packed t \<Longrightarrow> packed t'"
  using assms by (simp_all add: radix_step_def)

lemma radix_step_same:
  assumes "radix_rel m w t" "becomes w w' (cells_of w) 0 []"
  shows "radix_step m w t m w' t []"
  using assms becomesD [OF assms(2)] by (auto simp: radix_step_def radix_rel_def frame_def)

text \<open>A change at the root.\<close>

lemma radix_step_swap:
  assumes rel: "radix_rel m w (Knot r [] u c Void)" and b: "becomes w w' C (2 * (int (length (knots c')) - int (length (knots c)))) (log_if (x_value_destroy m) ds)"
    and sw: "swaps w C r c NULL [] u' c'" and g: "good (PTRDIFF_MAX - 1) c'" and m': "radix_conf m' = radix_conf m" "x_root m' = x_root m"
    and size: "x_size m' = card (dom (value_below u' c'))" and cp: "no_fail w \<Longrightarrow> compact c \<Longrightarrow> compact c'"
  shows "radix_step m w (Knot r [] u c Void) m' w' (Knot r [] u' c' Void) ds"
proof -
  note B = becomesD [OF b] and S = swapsD [OF sw]
  have root: "x_root m = Ptr r" using rel by (auto simp: radix_rel_def)
  have "sizes_ok m'" using radix_relD(2) [OF rel] m'(1) by (simp add: sizes_ok_def radix_conf_def)
  then have "radix_rel m' w' (Knot r [] u' c' Void)"
    using B(1,2) S(1,2) g m'(2) root size map_of_top [OF g, of r u'] by (auto simp: radix_rel_def)
  moreover have "frame (places (Knot r [] u c Void)) w w'" using B(2,3) S(4) by (auto simp: frame_def)
  ultimately show ?thesis using m'(1) S(3) B(4-6) cp by (auto simp: radix_step_def)
qed

section \<open>Insertion and lookup\<close>

lemma put_below_ok:
  assumes "good L c" "0 \<notin> set k" "length k \<le> L"
  shows "good L (put_below p k v c)" "value_below (put_value_at u k v) (put_below p k v c) = (value_below u c)(k \<mapsto> v)"
  using assms good_ins [of L c k p "Suc p" v] find_ins [OF assms(1), of k p "Suc p" v]
  by (auto simp: put_below_def put_value_at_def value_below_def fun_eq_iff)

lemma radix_conf_size [simp]: "radix_conf (m\<lparr>x_size := n\<rparr>) = radix_conf m"
  by (simp add: radix_conf_def)

lemma radixmap_set_ok:
  assumes rel: "radix_rel m w t" and key: "key_legal k"
  shows "\<exists>rc m' w' t'. radixmap_set (Ptr m) (Ptr k) (Ptr x) w = Some (rc, Ptr m', w') \<and> fresh w' \<le> fresh w + 2
    \<and> (no_fail w \<longrightarrow> radix_room m w \<longrightarrow> rc = 0)
    \<and> (rc = 0 \<and> map_of (ents t') = (map_of (ents t))(k \<mapsto> copied (x_value_copy m) x) \<and> radix_step m w t m' w' t' (old (map_of (ents t) k))
       \<or> rc = - 1 \<and> t' = t \<and> radix_step m w t m' w' t [])"
proof -
  from rel obtain r u c where t: "t = Knot r [] u c Void" "x_root m = Ptr r" "knot_at (cells_of w) r [] u c NULL" "good (PTRDIFF_MAX - 1) c"
    "map_of (ents t) = value_below u c" "x_size m = card (dom (value_below u c))" by (rule radix_relE)
  have k: "0 \<notin> set k" "length k \<le> PTRDIFF_MAX - 1" using key by (auto simp: key_legal_def)
  let ?v = "copied (x_value_copy m) x"
  let ?u = "put_value_at u k ?v" and ?c = "put_below (fresh w) k ?v c"
  have sep: "separate (Knot r [] u c Void)" using radix_relD(3) [OF rel] t(1) by simp
  from radix_set_loop_ok [OF radix_relD(1,2) [OF rel] k(1) t(3) sep t(4) k(2) PTRDIFF_pred, of x] obtain rc w' where
    s: "radix_set_loop m (Ptr r) k x w = Some (rc, if rc = 0 \<and> value_below u c k = None then m\<lparr>x_size := sz_add (x_size m) 1\<rparr> else m, w')"
    and gr: "grows m w r c NULL [] rc w' ?u ?c (old (value_below u c k))" by (elim exE conjE) (rule that)
  note P = put_below_ok [OF t(4) k, where p = "fresh w" and v = ?v]
  let ?m = "if rc = 0 \<and> value_below u c k = None then m\<lparr>x_size := sz_add (x_size m) 1\<rparr> else m"
  have run: "radixmap_set (Ptr m) (Ptr k) (Ptr x) w = Some (rc, Ptr ?m, w')" using s t(2) by (simp add: radixmap_set_def)
  have gen: "fresh w' \<le> fresh w + 2" "no_fail w \<longrightarrow> radix_room m w \<longrightarrow> rc = 0" using gr by (simp_all add: grows_def)
  from gr have "rc = - 1 \<and> becomes w w' (cells_of w) 0 [] \<or> rc = 0 \<and> (\<exists>C. becomes w w' C (2 * (int (length (knots ?c)) - int (length (knots c))))
      (log_if (x_value_destroy m) (old (value_below u c k))) \<and> swaps w C r c NULL [] ?u ?c)" by (simp add: grows_def)
  then show ?thesis
  proof (elim disjE conjE exE)
    assume "rc = - 1" "becomes w w' (cells_of w) 0 []"
    then show ?thesis using run gen radix_step_same [OF rel] by (intro exI [of _ rc] exI [of _ m] exI [of _ w'] exI [of _ t]) simp
  next
    fix C
    assume a: "rc = 0" "becomes w w' C (2 * (int (length (knots ?c)) - int (length (knots c)))) (log_if (x_value_destroy m) (old (value_below u c k)))"
      "swaps w C r c NULL [] ?u ?c"
    have M': "map_of (ents (Knot r [] ?u ?c Void)) = (value_below u c)(k \<mapsto> ?v)" using map_of_top [OF P(1)] P(2) by simp
    have "card (dom (map_of (ents (Knot r [] ?u ?c Void)))) \<le> fresh w'"
      by (rule entries_bound) (use knot_at_fresh [of w' r "[]" ?u ?c NULL] swapsD(1,2) [OF a(3)] becomesD(1,2) [OF a(2)] in auto)
    then have bound: "card (dom ((value_below u c)(k \<mapsto> ?v))) \<le> SIZE_MAX" unfolding M' using becomesD(1) [OF a(2)] by (simp add: store_ok_def)
    have fin: "finite (dom (value_below u c))" using finite_dom_map_of [of "ents t"] t(5) by simp
    have "x_size ?m = card (dom (value_below ?u ?c))"
      unfolding P(2) using t(6) bound fin a(1) by (cases "value_below u c k") (auto simp: insert_absorb domI domIff)
    from radix_step_swap [OF rel [unfolded t(1)] a(2,3) P(1) _ _ this] have "radix_step m w t ?m w' (Knot r [] ?u ?c Void) (old (value_below u c k))"
      by (simp add: t(1) put_below_def compact_ins)
    then show ?thesis
      using run gen a(1) M' t(5) by (intro exI [of _ rc] exI [of _ ?m] exI [of _ w'] exI [of _ "Knot r [] ?u ?c Void"]) simp
  qed
qed

lemma radixmap_at_ok:
  assumes rel: "radix_rel m w t" and key: "0 \<notin> set k"
  shows "\<exists>q. radixmap_at (Ptr m) (Ptr k) w = Some q \<and> (case map_of (ents t) k of None \<Rightarrow> q = NULL
     | Some v \<Rightarrow> \<exists>b nd. q = Ptr b \<and> cells_of w b = Some nd \<and> x_has_value nd \<and> x_value nd = Some v)"
proof -
  from rel obtain r u c where t: "t = Knot r [] u c Void" "x_root m = Ptr r" "knot_at (cells_of w) r [] u c NULL" "good (PTRDIFF_MAX - 1) c"
    "map_of (ents t) = value_below u c" "x_size m = card (dom (value_below u c))" by (rule radix_relE)
  show ?thesis unfolding t(5) using match_loop_ok [OF key t(3,4) PTRDIFF_pred] t(2)
    by (simp add: radixmap_at_def radixmap_at_const_def radixmap_match_exact_const_def)
qed

lemma radixmap_contains_ok:
  assumes rel: "radix_rel m w t" and key: "0 \<notin> set k"
  shows "radixmap_contains (Ptr m) (Ptr k) w = Some (if map_of (ents t) k = None then 0 else 1)"
  using radixmap_at_ok [OF assms] by (auto simp: radixmap_contains_def radixmap_at_def split: option.splits)

section \<open>Deletion\<close>

lemma radixmap_delete_ok:
  assumes rel: "radix_rel m w t" and key: "0 \<notin> set k"
  shows "\<exists>rc m' w' t'. radixmap_delete (Ptr m) (Ptr k) w = Some (rc, Ptr m', w') \<and> fresh w' = fresh w
    \<and> (case map_of (ents t) k of None \<Rightarrow> rc = - 1 \<and> m' = m \<and> w' = w \<and> t' = t
       | Some v \<Rightarrow> rc = 0 \<and> map_of (ents t') = (map_of (ents t))(k := None) \<and> radix_step m w t m' w' t' [v])"
proof -
  from rel obtain r u c where t: "t = Knot r [] u c Void" "x_root m = Ptr r" "knot_at (cells_of w) r [] u c NULL" "good (PTRDIFF_MAX - 1) c"
    "map_of (ents t) = value_below u c" "x_size m = card (dom (value_below u c))" by (rule radix_relE)
  have sep: "separate (Knot r [] u c Void)" using radix_relD(3) [OF rel] t(1) by simp
  have g: "good (PTRDIFF_MAX - 1 - length ([] :: bytes)) c" using t(4) by simp
  note del = delete_node_ok [OF radix_relD(1) [OF rel] key t(3) sep g _ PTRDIFF_pred, of m True]
  show ?thesis
  proof (cases "value_below u c k")
    case None
    then have "radixmap_delete (Ptr m) (Ptr k) w = Some (- 1, Ptr m, w)" using del t(2) by (simp add: radixmap_delete_def)
    then show ?thesis using None t(5) by simp
  next
    case (Some v)
    from del Some obtain rem w' e u' c' where
      d: "radixmap_delete_node m (Ptr r) k True w = Some (1, rem, deleted m, w')"
        "shrinks (PTRDIFF_MAX - 1) w r c NULL [] w' e u' c' (log_if (x_value_destroy m) [v]) ((value_below u c)(k := None))" "leaves (no_fail w \<and> compact c) True rem e u' c'"
      by auto
    have e: "e = []" using d(3) by (simp add: leaves_def)
    note D = shrinksD [OF d(2) [unfolded e]]
    have g': "good (PTRDIFF_MAX - 1) c'" using D(4) by simp
    have fin: "finite (dom (value_below u c))" using finite_dom_map_of [of "ents t"] t(5) by simp
    have "k \<in> dom (value_below u c)" using Some by blast
    then have "x_size (deleted m) = card (dom (value_below u' c'))"
      using t(6) D(7) fin entries_bound [of t "fresh w"] places_below [OF rel] radix_relD(1,3) [OF rel] t(5)
      by (simp add: store_ok_def card_gt_0_iff Suc_le_eq) (metis card_Diff_singleton card_gt_0_iff empty_iff less_eq_Suc_le One_nat_def order_trans sz_sub_exact)
    from radix_step_swap [OF rel [unfolded t(1)] D(2) _ g' _ _ this D(8)] D(3)
    have "radix_step m w t (deleted m) w' (Knot r [] u' c' Void) [v]" by (simp add: t(1) deleted_def)
    moreover have "map_of (ents (Knot r [] u' c' Void)) = (map_of (ents t))(k := None)" using map_of_top [OF g'] D(7) t(5) by simp
    moreover have "radixmap_delete (Ptr m) (Ptr k) w = Some (0, Ptr (deleted m), w')" using d(1) t(2) by (simp add: radixmap_delete_def)
    ultimately show ?thesis using Some t(5) D(1) by (intro exI [of _ 0] exI [of _ "deleted m"] exI [of _ w'] exI [of _ "Knot r [] u' c' Void"]) simp
  qed
qed

section \<open>Prefixes\<close>

lemma some_below: "good L c \<Longrightarrow> (u = None \<Longrightarrow> c \<noteq> Void) \<Longrightarrow> \<exists>y. value_below u c y \<noteq> None"
proof (cases u)
  case None
  assume g: "good L c" and "u = None \<Longrightarrow> c \<noteq> Void"
  then have "ents c \<noteq> []" using has_entry None by blast
  then obtain k v where kv: "(k, v) \<in> set (ents c)" by (cases "ents c") auto
  then have "find_in c k \<noteq> None" using weak_map_of_SomeI [OF kv] map_of_ents [OF g] by simp
  then show ?thesis using ents_heads [OF g kv] by (auto simp: value_below_def)
qed (auto simp: value_below_def intro: exI [of _ "[]"])

lemma prefix_search_ok:
  "0 \<notin> set p \<Longrightarrow> p \<noteq> [] \<Longrightarrow> knot_at (cells_of w) a s u c np \<Longrightarrow> good L c \<Longrightarrow> L < PTRDIFF_MAX \<Longrightarrow>
   prefix_search_loop (Ptr a) p w = Some (if \<exists>x. value_below u c (p @ x) \<noteq> None then 1 else 0)"
proof (induction "length p" arbitrary: p a s u c np L rule: less_induct)
  case less
  obtain nd where nd: "cells_of w a = Some nd" "node_is nd s u (tptr c) np" and c: "trie_at (cells_of w) c"
    using less.prems(3) by (auto simp: knot_at_def node_at_def)
  note D = node_isD [OF nd(2)] and k = hd_neq_0 [OF less.prems(1,2)] and run0 = prefix_search_loop.simps [of "Ptr a" p w]
  obtain bs t where sk: "seek (hd p) c = (bs, t)" by fastforce
  from seek_split [OF sk] have sp: "c = chain bs t" "hd p \<notin> sib_heads bs"
    "t = Void \<or> (\<exists>b s2 u2 c2 n2. t = Knot b s2 u2 c2 n2 \<and> hd s2 = hd p)" by blast+
  have find: "value_below u c (p @ x) = find_in t (p @ x)" for x
    using sp(1,2) less.prems(2) find_in_chain [of "p @ x" bs t] by (simp add: value_below_def)
  have sib: "sibling_loop (tptr c) (hd p) w = Some (tptr t)" using sibling_loop_ok [OF c less.prems(4)] sk by simp
  show ?case
  proof (cases t)
    case Void
    then show ?thesis unfolding run0 using nd(1) D k less.prems(2) sib find by simp
  next
    case (Knot b s2 u2 c2 n2)
    have hd2: "hd s2 = hd p" using sp(3) Knot by auto
    have g: "s2 \<noteq> []" "length s2 \<le> L" "good (L - length s2) c2" "u2 = None \<longrightarrow> c2 \<noteq> Void" using good_chain [of L bs t] sp(1) less.prems(4) Knot by auto
    have tt: "knot_at (cells_of w) b s2 u2 c2 (tptr n2)" using c sp(1) Knot by (auto simp: knot_at_def)
    then obtain nb where nb: "cells_of w b = Some nb" "node_is nb s2 u2 (tptr c2) (tptr n2)" by (auto simp: knot_at_def node_at_def)
    let ?j = "common s2 p"
    have cm: "radixmap_common_prefix_len (x_segment nb) (x_segment_len nb) p = Some ?j"
      using common_prefix_ok [OF less.prems(1), of s2] node_isD [OF nb(2)] g(2) less.prems(5) SIZE_MAX_PTRDIFF_MAX by simp
    note facts = nd(1) D k less.prems(2) sib Knot nb(1) cm node_isD(4) [OF nb(2)]
    have val: "value_below u c (p @ x) = (if prefix s2 (p @ x) then value_below u2 c2 (drop (length s2) (p @ x)) else None)" for x
      using find [of x] Knot less.prems(2) hd2 find_in_knot [OF g(1), of b u2 c2 n2 "p @ x"] by (simp del: find_in.simps(2))
    show ?thesis
    proof (cases "?j = length p")
      case True
      have "prefix p s2" using True common_take(2) [of s2 p] longest_common_prefix_prefix1 [of s2 p] by simp
      then obtain z where z: "s2 = p @ z" by (auto simp: prefix_def)
      obtain y where "value_below u2 c2 y \<noteq> None" using some_below [OF g(3)] g(4) by blast
      then have "value_below u c (p @ z @ y) \<noteq> None" using val [of "z @ y"] z by simp
      then have "\<exists>x. value_below u c (p @ x) \<noteq> None" by blast
      moreover have "char_at p ?j = Some 0" "0 < ?j" using True less.prems(2) by (simp_all add: char_at_def)
      ultimately show ?thesis unfolding run0 using facts by simp
    next
      case False
      then have j: "?j < length p" using common_le(2) [of s2 p] by simp
      then have ch: "char_at p ?j = Some (p ! ?j)" "p ! ?j \<noteq> 0" using less.prems(1) by (auto simp: char_at_def dest: nth_mem)
      show ?thesis
      proof (cases "?j = length s2")
        case True
        then obtain y where y: "p = s2 @ y" using common_full [of s2 p] by (auto simp: prefix_def)
        have yk: "0 \<notin> set y" "y \<noteq> []" "length y < length p" "L - length s2 < PTRDIFF_MAX" using less.prems(1,5) g(1) y j True by auto
        note IH = less.hyps [OF yk(3,1,2) tt g(3) yk(4)]
        have "value_below u c (p @ x) = value_below u2 c2 (y @ x)" for x using val [of x] y by simp
        moreover have "prefix_search_loop (Ptr a) p w = prefix_search_loop (Ptr b) y w"
          unfolding run0 using facts ch True by (simp add: y)
        ultimately show ?thesis using IH by simp
      next
        case npre: False
        have "\<not> prefix s2 (p @ x)" for x
        proof
          assume "prefix s2 (p @ x)"
          then have "prefix s2 p \<or> prefix p s2" by (rule prefix_same_cases) simp
          moreover have "prefix s2 p \<Longrightarrow> False" using npre common_full [of s2 p] by simp
          moreover have "prefix p s2 \<Longrightarrow> False"
            using prefix_length_le [OF longest_common_prefix_max_prefix [of p s2 p]] j by (simp add: common_def)
          ultimately show False by blast
        qed
        then have "\<not> (\<exists>x. value_below u c (p @ x) \<noteq> None)" using val by simp
        then show ?thesis unfolding run0 using facts ch npre by simp
      qed
    qed
  qed
qed

lemma radixmap_has_prefix_ok:
  assumes rel: "radix_rel m w t" and p: "0 \<notin> set p"
  shows "radixmap_has_prefix (Ptr m) (Ptr p) w = Some (if \<exists>k \<in> dom (map_of (ents t)). prefix p k then 1 else 0)"
proof -
  from rel obtain r u c where t: "t = Knot r [] u c Void" "x_root m = Ptr r" "knot_at (cells_of w) r [] u c NULL" "good (PTRDIFF_MAX - 1) c"
    "map_of (ents t) = value_below u c" "x_size m = card (dom (value_below u c))" by (rule radix_relE)
  show ?thesis
  proof (cases "p = []")
    case True
    have "finite (dom (value_below u c))" using finite_dom_map_of [of "ents t"] t(5) by simp
    then show ?thesis using True t(2,5,6) by (auto simp: radixmap_has_prefix_def)
  next
    case False
    have "(\<exists>x. value_below u c (p @ x) \<noteq> None) \<longleftrightarrow> (\<exists>k \<in> dom (map_of (ents t)). prefix p k)"
      unfolding t(5) by (auto simp: prefix_def)
    then show ?thesis
      using prefix_search_ok [OF p False t(3,4) PTRDIFF_pred] False hd_neq_0 [OF p False] t(2) by (simp add: radixmap_has_prefix_def)
  qed
qed

section \<open>Life cycle\<close>

lemma vals_range:
  assumes "radix_rel m w t"
  shows "mset (vals t) = range_mset (map_of (ents t))"
proof -
  from assms obtain r u c where "t = Knot r [] u c Void" "good (PTRDIFF_MAX - 1) c" by (rule radix_relE)
  then have "distinct (map fst (ents t))" using distinct_top by blast
  then show ?thesis using range_mset_map_of mset_vals by metis
qed

lemma radixmap_destroy_ok:
  assumes rel: "radix_rel m w t"
  shows "\<exists>w'. radixmap_destroy (Ptr m) w = Some (Ptr raw_radixmap, w') \<and> fresh w' = fresh w
    \<and> becomes w w' (cells_of w |` (- places t)) (- 2 * int (length (knots t))) (log_if (x_value_destroy m) (vals t))"
proof -
  from rel obtain r u c where t: "t = Knot r [] u c Void" "x_root m = Ptr r" "knot_at (cells_of w) r [] u c NULL" by (rule radix_relE)
  have "trie_at (cells_of w) t" using t(1,3) by (simp add: knot_at_def)
  from free_chain_ok [OF this radix_relD(3,1) [OF rel], of m] t(1,2) show ?thesis by (auto simp: radixmap_destroy_def raw_radixmap_def)
qed

lemma radixmap_init_ok:
  assumes ok: "store_ok w" and sz: "0 < vs" "40 + vs \<le> SIZE_MAX"
  shows "\<exists>rc m w'. radixmap_init (Ptr b) vs d f w = Some (rc, Ptr m, w') \<and> radix_conf m = (vs, d, f) \<and> fresh w' \<le> Suc (fresh w)
    \<and> (no_fail w \<longrightarrow> 40 + vs \<le> PTRDIFF_MAX \<longrightarrow> fresh w < SIZE_MAX \<longrightarrow> rc = 0)
    \<and> (rc = - 1 \<and> x_root m = NULL \<and> becomes w w' (cells_of w) 0 []
       \<or> rc = 0 \<and> x_root m = Ptr (fresh w) \<and> radix_rel m w' (Knot (fresh w) [] None Void Void)
         \<and> becomes w w' ((cells_of w)(fresh w \<mapsto> blank [])) 2 [])"
proof -
  let ?m = "\<lparr>x_size = 0, x_value_size = vs, x_value_destroy = d, x_value_copy = f, x_root = NULL\<rparr>"
  have "sizes_ok ?m" using sz by (simp add: sizes_ok_def)
  from radix_node_new_ok [OF ok this, of 0 "[]"] PTRDIFF_MAX_big obtain q w' where
    q: "radixmap_node_new ?m [] 0 w = Some (q, w')" "fresh w' \<le> Suc (fresh w)"
      "no_fail w \<longrightarrow> 40 + vs \<le> PTRDIFF_MAX \<longrightarrow> fresh w < SIZE_MAX \<longrightarrow> q \<noteq> NULL"
    and res: "q = NULL \<and> becomes w w' (cells_of w) 0 [] \<or> q = Ptr (fresh w) \<and> becomes w w' ((cells_of w)(fresh w \<mapsto> blank [])) 2 []" by auto
  let ?m' = "?m\<lparr>x_root := q\<rparr>" let ?rc = "if q = NULL then - 1 else 0 :: int"
  have "radixmap_init (Ptr b) vs d f w = Some (?rc, Ptr ?m', w')" using q(1) sz(1) by (simp add: radixmap_init_def)
  moreover have "radix_rel ?m' w' (Knot (fresh w) [] None Void Void)" if "q = Ptr (fresh w)" "becomes w w' ((cells_of w)(fresh w \<mapsto> blank [])) 2 []"
    using becomesD(1,2) [OF that(2)] that(1) sz by (simp add: radix_rel_def sizes_ok_def knot_at_def)
  ultimately show ?thesis using q(2,3) res by (intro exI [of _ ?rc] exI [of _ ?m'] exI [of _ w']) (auto simp: radix_conf_def)
qed

lemma radixmap_clear_ok:
  assumes rel: "radix_rel m w t"
  shows "\<exists>m' w' t' ds. radixmap_clear (Ptr m) w = Some (Ptr m', w') \<and> fresh w' = fresh w \<and> map_of (ents t') = Map.empty
    \<and> radix_step m w t m' w' t' ds \<and> mset ds = range_mset (map_of (ents t))"
proof -
  from rel obtain r u c where t: "t = Knot r [] u c Void" "x_root m = Ptr r" "knot_at (cells_of w) r [] u c NULL" by (rule radix_relE)
  obtain nd where nd: "cells_of w r = Some nd" "node_is nd [] u (tptr c) NULL" and c: "trie_at (cells_of w) c"
    using t(3) by (auto simp: knot_at_def node_at_def)
  note N = node_isD [OF nd(2)]
  have sep: "r \<notin> places c" "separate c" using radix_relD(3) [OF rel] t(1) by simp_all
  let ?d = "x_value_destroy m"
  have "\<exists>w1 nd1. (if x_has_value nd then do { x \<leftarrow> x_value nd;
        modify (Ptr r) (x_has_value_update (\<lambda>_. False)) (radixmap_destroy_value m x w) } else Some w) = Some w1
    \<and> becomes w w1 ((cells_of w)(r \<mapsto> nd1)) 0 (log_if ?d (old u)) \<and> fresh w1 = fresh w \<and> node_is nd1 [] None (tptr c) NULL"
  proof (cases u)
    case None
    then show ?thesis using N(5) nd becomes_refl [OF radix_relD(1) [OF rel]] by (intro exI [of _ w] exI [of _ nd]) (simp add: fun_upd_idem)
  next
    case (Some v)
    note b1 = becomes_destroy [OF radix_relD(1) [OF rel], of ?d v]
    from becomes_modify [OF becomesD(1) [OF b1], of r nd "x_has_value_update (\<lambda>_. False)"] nd(1) obtain w1 where
      w1: "modify (Ptr r) (x_has_value_update (\<lambda>_. False)) (destroy_element ?d v w) = Some w1"
        "becomes (destroy_element ?d v w) w1 ((cells_of w)(r \<mapsto> x_has_value_update (\<lambda>_. False) nd)) 0 []" "fresh w1 = fresh w" by auto
    have "becomes w w1 ((cells_of w)(r \<mapsto> x_has_value_update (\<lambda>_. False) nd)) 0 (log_if ?d (old u))"
      by (rule becomes_trans [OF b1 w1(2)]) (simp_all add: Some)
    then show ?thesis using N(5,6) Some w1(1,3) node_is_update(3) [OF nd(2)] by (auto simp: radixmap_destroy_value_def)
  qed
  then obtain w1 nd1 where w1: "(if x_has_value nd then do { x \<leftarrow> x_value nd;
        modify (Ptr r) (x_has_value_update (\<lambda>_. False)) (radixmap_destroy_value m x w) } else Some w) = Some w1"
    "becomes w w1 ((cells_of w)(r \<mapsto> nd1)) 0 (log_if ?d (old u))" "fresh w1 = fresh w" "node_is nd1 [] None (tptr c) NULL"
    by (elim exE conjE) (rule that)
  note B1 = becomesD [OF w1(2)]
  have c1: "trie_at (cells_of w1) c" "cells_of w1 r = Some nd1" using B1(2) c sep(1) by simp_all
  from free_chain_ok [OF c1(1) sep(2) B1(1), of m] obtain w2 where
    w2: "radixmap_node_free_chain m (tptr c) w1 = Some w2" "fresh w2 = fresh w1"
      "becomes w1 w2 (cells_of w1 |` (- places c)) (- 2 * int (length (knots c))) (log_if ?d (vals c))" by blast
  note B2 = becomesD [OF w2(3)]
  have "cells_of w2 r = Some nd1" using B2(2) c1(2) sep(1) by simp
  from becomes_modify [OF B2(1) this, of "x_child_update (\<lambda>_. NULL)"] obtain w3 where
    w3: "modify (Ptr r) (x_child_update (\<lambda>_. NULL)) w2 = Some w3"
      "becomes w2 w3 ((cells_of w2)(r \<mapsto> x_child_update (\<lambda>_. NULL) nd1)) 0 []" "fresh w3 = fresh w2" by blast
  let ?C = "(cells_of w2)(r \<mapsto> x_child_update (\<lambda>_. NULL) nd1)" let ?ds = "old u @ vals c"
  have "becomes w w3 ?C (2 * (int (length (knots (Void :: 'a trie))) - int (length (knots c)))) (log_if ?d ?ds)"
    by (rule becomes_trans [OF w1(2) becomes_trans [OF w2(3) w3(2) refl refl]]) (simp_all add: log_if_def)
  moreover have "swaps w ?C r c NULL [] None (Void :: 'a trie)"
    using node_is_update(1) [OF w1(4), of NULL] B1(2) B2(2) by (auto simp: swaps_def knot_at_def restrict_map_def)
  ultimately have "radix_step m w t (m\<lparr>x_size := 0\<rparr>) w3 (Knot r [] None Void Void) ?ds"
    unfolding t(1) by (rule radix_step_swap [OF rel [unfolded t(1)]]) (simp_all add: value_below_def dom_def)
  moreover have "radixmap_clear (Ptr m) w = Some (Ptr (m\<lparr>x_size := 0\<rparr>), w3)"
    using t(2) nd(1) w1(1) c1(2) node_isD(1) [OF w1(4)] w2(1) w3(1)
    by (cases "x_has_value nd") (auto simp: radixmap_clear_def bind_eq_Some_conv)
  moreover have "mset ?ds = range_mset (map_of (ents t))" using vals_range [OF rel] t(1) by (simp add: add.commute)
  moreover have "map_of (ents (Knot r [] None Void Void)) = (Map.empty :: bytes \<rightharpoonup> 'a)" by simp
  ultimately show ?thesis using w3(3) w2(2) w1(3)
    by (intro exI [of _ "m\<lparr>x_size := 0\<rparr>"] exI [of _ w3] exI [of _ "Knot r [] None Void Void"] exI [of _ ?ds]) simp
qed

section \<open>The machine\<close>

definition radix_exec :: "(bytes, 'v) map_op \<Rightarrow> 'v radixmap \<Rightarrow> 'v rworld \<Rightarrow> (int \<times> 'v radixmap \<times> 'v rworld) option" where
  "radix_exec op m w = (case op of
       Put k v \<Rightarrow> map_option (\<lambda>(rc, p, w1). (rc, pt p, w1)) (radixmap_set (Ptr m) (Ptr k) (Ptr v) w)
     | Remove k \<Rightarrow> map_option (\<lambda>(rc, p, w1). (rc, pt p, w1)) (radixmap_delete (Ptr m) (Ptr k) w)
     | Wipe \<Rightarrow> map_option (\<lambda>(p, w1). (0, pt p, w1)) (radixmap_clear (Ptr m) w)
     | Reserve n \<Rightarrow> Some (- 1, m, w))"

definition radix_legal :: "'v radix_conf \<Rightarrow> (bytes, 'v) map_op \<Rightarrow> bool" where
  "radix_legal cf op \<longleftrightarrow> (case op of Put k v \<Rightarrow> key_legal k | Remove k \<Rightarrow> key_legal k | Wipe \<Rightarrow> True | Reserve n \<Rightarrow> False)"

definition radix_map :: "'v radixmap \<Rightarrow> 'v rworld \<Rightarrow> (bytes \<rightharpoonup> 'v) \<Rightarrow> bool" where
  "radix_map m w M \<longleftrightarrow> (\<exists>t. radix_rel m w t \<and> map_of (ents t) = M)"

definition rc_destroys :: "'v radix_conf \<Rightarrow> bool" where "rc_destroys cf = fst (snd cf)"
definition rc_copies :: "'v radix_conf \<Rightarrow> ('v \<Rightarrow> 'v) option" where "rc_copies cf = snd (snd cf)"

lemma rc_simps [simp]: "rc_destroys (radix_conf m) = x_value_destroy m" "rc_copies (radix_conf m) = x_value_copy m"
  "rc_destroys (vs, d, f) = d" "rc_copies (vs, d, f) = f"
  by (simp_all add: rc_destroys_def rc_copies_def radix_conf_def)

lemma radix_exec_ok:
  assumes rel: "radix_rel m w t" and legal: "radix_legal (radix_conf m) op"
  shows "\<exists>rc m' w' t' ds. radix_exec op m w = Some (rc, m', w') \<and> radix_step m w t m' w' t' ds \<and> fresh w' \<le> fresh w + 2
    \<and> (no_fail w \<longrightarrow> radix_room m w \<longrightarrow> rc = 0 \<or> (\<exists>k. op = Remove k \<and> map_of (ents t) k = None))
    \<and> (map_spec (x_value_copy m) op (map_of (ents t)) rc (map_of (ents t')) ds \<or> rc = - 1 \<and> t' = t \<and> ds = [])"
proof (cases op)
  case (Put k v)
  then have k: "key_legal k" using legal by (simp add: radix_legal_def)
  from radixmap_set_ok [OF rel k, of v] obtain rc m' w' t' where
    s: "radixmap_set (Ptr m) (Ptr k) (Ptr v) w = Some (rc, Ptr m', w')" "fresh w' \<le> fresh w + 2" "no_fail w \<longrightarrow> radix_room m w \<longrightarrow> rc = 0"
    and res: "rc = 0 \<and> map_of (ents t') = (map_of (ents t))(k \<mapsto> copied (x_value_copy m) v) \<and> radix_step m w t m' w' t' (old (map_of (ents t) k))
       \<or> rc = - 1 \<and> t' = t \<and> radix_step m w t m' w' t []" by (elim exE conjE) (rule that)
  have run: "radix_exec op m w = Some (rc, m', w')" using s(1) Put by (simp add: radix_exec_def)
  from res show ?thesis
  proof (elim disjE conjE)
    assume "rc = 0" "map_of (ents t') = (map_of (ents t))(k \<mapsto> copied (x_value_copy m) v)" "radix_step m w t m' w' t' (old (map_of (ents t) k))"
    then show ?thesis using run s(2) Put
      by (intro exI [of _ rc] exI [of _ m'] exI [of _ w'] exI [of _ t'] exI [of _ "old (map_of (ents t) k)"])
        (simp add: map_spec_def finite_dom_map_of old_def)
  next
    assume "rc = - 1" "t' = t" "radix_step m w t m' w' t []"
    then show ?thesis using run s(2,3) by (intro exI [of _ rc] exI [of _ m'] exI [of _ w'] exI [of _ t] exI [of _ "[]"]) simp
  qed
next
  case (Remove k)
  then have k: "0 \<notin> set k" using legal by (simp add: radix_legal_def key_legal_def)
  from radixmap_delete_ok [OF rel k] obtain rc m' w' t' where
    s: "radixmap_delete (Ptr m) (Ptr k) w = Some (rc, Ptr m', w')" "fresh w' = fresh w"
    and res: "case map_of (ents t) k of None \<Rightarrow> rc = - 1 \<and> m' = m \<and> w' = w \<and> t' = t
       | Some v \<Rightarrow> rc = 0 \<and> map_of (ents t') = (map_of (ents t))(k := None) \<and> radix_step m w t m' w' t' [v]"
    by (elim exE conjE) (rule that)
  have run: "radix_exec op m w = Some (rc, m', w')" using s(1) Remove by (simp add: radix_exec_def)
  show ?thesis
  proof (cases "map_of (ents t) k")
    case None
    then show ?thesis using run res s(2) Remove radix_step_same [OF rel becomes_refl [OF radix_relD(1) [OF rel]]]
      by (intro exI [of _ rc] exI [of _ m'] exI [of _ w'] exI [of _ t] exI [of _ "[]"]) simp
  next
    case (Some v)
    then show ?thesis using run res s(2) Remove
      by (intro exI [of _ rc] exI [of _ m'] exI [of _ w'] exI [of _ t'] exI [of _ "[v]"]) (simp add: map_spec_def finite_dom_map_of)
  qed
next
  case Wipe
  from radixmap_clear_ok [OF rel] obtain m' w' t' ds where
    c: "radixmap_clear (Ptr m) w = Some (Ptr m', w')" "fresh w' = fresh w" "map_of (ents t') = Map.empty"
      "radix_step m w t m' w' t' ds" "mset ds = range_mset (map_of (ents t))" by (elim exE conjE) (rule that)
  then show ?thesis using Wipe
    by (intro exI [of _ 0] exI [of _ m'] exI [of _ w'] exI [of _ t'] exI [of _ ds]) (simp add: radix_exec_def map_spec_def finite_dom_map_of)
next
  case (Reserve n)
  then show ?thesis using legal by (simp add: radix_legal_def)
qed

interpretation radm: spec_machine radix_exec "\<lambda>cf. map_spec (rc_copies cf)" radix_legal radix_map radix_conf rc_destroys radix_own
  range_mset "\<lambda>cf. map_stores (rc_copies cf)"
proof (unfold_locales, goal_cases)
  case (1 m w M op)
  then obtain t where t: "radix_rel m w t" "map_of (ents t) = M" by (auto simp: radix_map_def)
  from radix_exec_ok [OF t(1) 1(2)] obtain rc m' w' t' ds where
    e: "radix_exec op m w = Some (rc, m', w')" "radix_step m w t m' w' t' ds"
      "map_spec (x_value_copy m) op (map_of (ents t)) rc (map_of (ents t')) ds \<or> rc = - 1 \<and> t' = t \<and> ds = []" by (elim exE conjE) (rule that)
  note D = radix_stepD [OF e(2)]
  have "radix_map m' w' (map_of (ents t'))" using D(2) by (auto simp: radix_map_def)
  then have "(\<exists>M' ds. map_spec (rc_copies (radix_conf m)) op M rc M' ds \<and> radix_map m' w' M'
      \<and> destroyed w' = destroyed w @ log_if (rc_destroys (radix_conf m)) ds)
    \<or> rc = - 1 \<and> radix_map m' w' M \<and> destroyed w' = destroyed w"
    using e(3) D(6) t(2) by auto
  moreover have "live w' - radix_own m' w' = live w - radix_own m w" using D(7) radix_own_ok [OF t(1)] radix_own_ok [OF D(2)] by simp
  ultimately show ?case using e(1) D(1) by (intro exI [of _ rc] exI [of _ m'] exI [of _ w'] conjI)
qed (rule map_spec_conserves)

end
