(* ===== verification/Radix_Copy.thy ===== *)
theory Radix_Copy
  imports Radix_Map
begin

text \<open>
  Copies of radix maps: \<open>radixmap_node_clone_chain\<close> and \<open>radixmap_copy\<close>, for every pattern of failures.
\<close>

section \<open>Tries of the same shape\<close>

fun twin :: "('v \<Rightarrow> 'v) option \<Rightarrow> 'v trie \<Rightarrow> 'v trie \<Rightarrow> bool" where
  "twin f Void Void \<longleftrightarrow> True"
| "twin f (Knot a s u c n) (Knot a' s' u' c' n') \<longleftrightarrow> s' = s \<and> u' = map_option (copied f) u \<and> twin f c c' \<and> twin f n n'"
| "twin f _ _ \<longleftrightarrow> False"

lemma twin_Void [simp]: "twin f t Void \<longleftrightarrow> t = Void" "twin f Void t \<longleftrightarrow> t = Void"
  by (cases t; simp)+

lemma twin_ents: "twin f t t' \<Longrightarrow> ents t' = map (\<lambda>(k, v). (k, copied f v)) (ents t)"
  by (induction f t t' rule: twin.induct) (auto split: option.splits)

lemma twin_vals: "twin f t t' \<Longrightarrow> vals t' = map (copied f) (vals t)"
  by (induction f t t' rule: twin.induct) (auto simp: old_def split: option.splits)

lemma twin_heads: "twin f t t' \<Longrightarrow> heads t' = heads t"
  by (induction f t t' rule: twin.induct) auto

lemma twin_good: "twin f t t' \<Longrightarrow> good L t \<Longrightarrow> good L t'"
  by (induction f t t' arbitrary: L rule: twin.induct) (auto simp: twin_heads)

lemma twin_knots: "twin f t t' \<Longrightarrow> length (knots t') = length (knots t)"
  by (induction f t t' rule: twin.induct) auto

section \<open>Cloning\<close>

text \<open>A clone of one node without links, or nothing.\<close>

lemma clone_head_ok:
  assumes ok: "store_ok w" and sz: "sizes_ok m" and src: "cells_of w a = Some na" "node_is na s u cp np" and len: "length s < PTRDIFF_MAX"
  shows "\<exists>q w1. radixmap_node_new m (x_segment na) (x_segment_len na) w = Some (q, w1) \<and> fresh w1 \<le> Suc (fresh w)
    \<and> (no_fail w \<longrightarrow> 40 + x_value_size m \<le> PTRDIFF_MAX \<longrightarrow> fresh w < SIZE_MAX \<longrightarrow> q \<noteq> NULL)
    \<and> (q = NULL \<and> becomes w w1 (cells_of w) 0 []
       \<or> q = Ptr (fresh w) \<and> (\<exists>rc w2. radixmap_node_clone_value m q (Ptr a) w1 = Some (rc, w2) \<and> fresh w2 = Suc (fresh w) \<and> (no_fail w \<longrightarrow> rc = 0)
           \<and> (rc = 0 \<and> (\<exists>nd. becomes w w2 ((cells_of w)(fresh w \<mapsto> nd)) 2 [] \<and> node_is nd s (map_option (copied (x_value_copy m)) u) NULL NULL)
              \<or> rc \<noteq> 0 \<and> (\<exists>w3. radixmap_node_free_chain m q w2 = Some w3 \<and> fresh w3 = Suc (fresh w) \<and> becomes w w3 (cells_of w) 0 []))))"
proof -
  let ?p = "fresh w" let ?f = "x_value_copy m"
  note N = node_isD [OF src(2)]
  from radix_node_new_ok [OF ok sz, of "length s" s] len obtain q w1 where
    q: "radixmap_node_new m (x_segment na) (x_segment_len na) w = Some (q, w1)" "fresh w1 \<le> Suc ?p"
      "no_fail w \<longrightarrow> 40 + x_value_size m \<le> PTRDIFF_MAX \<longrightarrow> fresh w < SIZE_MAX \<longrightarrow> q \<noteq> NULL"
    and res: "q = NULL \<and> becomes w w1 (cells_of w) 0 []
      \<or> q = Ptr ?p \<and> becomes w w1 ((cells_of w)(?p \<mapsto> blank s)) 2 [] \<and> fresh w1 = Suc ?p" using N by auto
  from res show ?thesis
  proof (elim disjE conjE)
    assume qp: "q = Ptr ?p" and b1: "becomes w w1 ((cells_of w)(?p \<mapsto> blank s)) 2 []" and f1: "fresh w1 = Suc ?p"
    note D1 = becomesD [OF b1]
    have ap: "a \<noteq> ?p" using src(1) store_ok_fresh [OF ok] by auto
    then have a1: "cells_of w1 a = Some na" using D1(2) src(1) by simp
    have "\<exists>rc w2. radixmap_node_clone_value m (Ptr ?p) (Ptr a) w1 = Some (rc, w2) \<and> fresh w2 = Suc ?p \<and> (no_fail w \<longrightarrow> rc = 0)
      \<and> (rc = 0 \<and> (\<exists>nd. becomes w w2 ((cells_of w)(?p \<mapsto> nd)) 2 [] \<and> node_is nd s (map_option (copied ?f) u) NULL NULL)
         \<or> rc \<noteq> 0 \<and> becomes w w2 ((cells_of w)(?p \<mapsto> blank s)) 2 [])"
    proof (cases u)
      case None
      then show ?thesis using a1 N b1 f1 by (auto simp: radixmap_node_clone_value_def)
    next
      case (Some v)
      obtain r w2 where r: "copy_element ?f v w1 = (r, w2)" by fastforce
      note b2 = becomes_copy [OF r D1(1)]
      note D2 = becomesD [OF b2(1)]
      have b12: "becomes w w2 ((cells_of w)(?p \<mapsto> blank s)) 2 []" using becomes_trans [OF b1 b2(1)] D1(2) by simp
      show ?thesis
      proof (cases r)
        case None
        then show ?thesis using a1 N Some r b12 b2(2,3) f1 D1(6) by (auto simp: radixmap_node_clone_value_def radixmap_copy_value_def)
      next
        case (Some v')
        then have v': "v' = copied ?f v" using b2(4) by simp
        let ?n1 = "x_value_update (\<lambda>_. Some v') (blank s)"
        from becomes_modify [OF D2(1), of ?p "blank s" "x_value_update (\<lambda>_. Some v')"] D2(2) D1(2) obtain w3 where
          w3: "modify (Ptr ?p) (x_value_update (\<lambda>_. Some v')) w2 = Some w3" "becomes w2 w3 ((cells_of w)(?p \<mapsto> ?n1)) 0 []" "fresh w3 = fresh w2"
          by auto
        note D3 = becomesD [OF w3(2)]
        from becomes_modify [OF D3(1), of ?p ?n1 "x_has_value_update (\<lambda>_. True)"] D3(2) obtain w4 where
          w4: "modify (Ptr ?p) (x_has_value_update (\<lambda>_. True)) w3 = Some w4"
            "becomes w3 w4 ((cells_of w)(?p \<mapsto> x_has_value_update (\<lambda>_. True) ?n1)) 0 []" "fresh w4 = fresh w3" by auto
        have "becomes w w4 ((cells_of w)(?p \<mapsto> x_has_value_update (\<lambda>_. True) ?n1)) 2 []"
          by (rule becomes_trans [OF b12 becomes_trans [OF w3(2) w4(2) refl refl]]) simp_all
        moreover have "node_is (x_has_value_update (\<lambda>_. True) ?n1) s (map_option (copied ?f) u) NULL NULL"
          using node_is_update(4) [OF blank_is] \<open>u = Some v\<close> v' by simp
        moreover have "radixmap_node_clone_value m (Ptr ?p) (Ptr a) w1 = Some (0, w4)"
          using a1 N \<open>u = Some v\<close> r Some w3(1) w4(1) by (simp add: radixmap_node_clone_value_def radixmap_copy_value_def put_value_def)
        ultimately show ?thesis using w4(3) w3(3) b2(2) f1 by auto
      qed
    qed
    then obtain rc w2 where cv: "radixmap_node_clone_value m (Ptr ?p) (Ptr a) w1 = Some (rc, w2)" "fresh w2 = Suc ?p" "no_fail w \<longrightarrow> rc = 0"
      and vres: "rc = 0 \<and> (\<exists>nd. becomes w w2 ((cells_of w)(?p \<mapsto> nd)) 2 [] \<and> node_is nd s (map_option (copied ?f) u) NULL NULL)
         \<or> rc \<noteq> 0 \<and> becomes w w2 ((cells_of w)(?p \<mapsto> blank s)) 2 []" by (elim exE conjE) (rule that)
    have "\<exists>w3. radixmap_node_free_chain m (Ptr ?p) w2 = Some w3 \<and> fresh w3 = Suc ?p \<and> becomes w w3 (cells_of w) 0 []"
      if b: "becomes w w2 ((cells_of w)(?p \<mapsto> blank s)) 2 []"
    proof -
      note D2 = becomesD [OF b]
      have "node_at (cells_of w2) ?p s None NULL NULL" using D2(2) by simp
      from free_leaf_ok [OF D2(1) this, of m] obtain w3 where
        w3: "radixmap_node_free_chain m (Ptr ?p) w2 = Some w3" "becomes w2 w3 ((cells_of w2)(?p := None)) (- 2) []" "fresh w3 = fresh w2" by blast
      have "(cells_of w2)(?p := None) = cells_of w" using D2(2) store_ok_fresh [OF ok] by (simp add: fun_upd_idem)
      then show ?thesis using becomes_trans [OF b w3(2)] w3(1,3) cv(2) by simp
    qed
    then show ?thesis using q(1,3) f1 qp cv vres by (intro exI [of _ q] exI [of _ w1]) auto
  qed (use q in auto)
qed

text \<open>A copy of a trie next to it, or nothing but destroyed copies of some of its values.\<close>

definition cloned :: "'v radixmap \<Rightarrow> 'v rworld \<Rightarrow> 'v trie \<Rightarrow> nat ptr \<Rightarrow> 'v rworld \<Rightarrow> bool" where
  "cloned m w t q w' \<longleftrightarrow> fresh w' \<le> fresh w + length (knots t) \<and> (\<forall>d < fresh w. cells_of w' d = cells_of w d)
     \<and> (no_fail w \<longrightarrow> 40 + x_value_size m \<le> PTRDIFF_MAX \<longrightarrow> fresh w + length (knots t) \<le> SIZE_MAX \<longrightarrow> t \<noteq> Void \<longrightarrow> q \<noteq> NULL)
     \<and> ((\<exists>t'. q = tptr t' \<and> twin (x_value_copy m) t t' \<and> becomes w w' (cells_of w') (2 * int (length (knots t))) []
            \<and> trie_at (cells_of w') t' \<and> separate t' \<and> (\<forall>d \<in> places t'. fresh w \<le> d))
        \<or> t \<noteq> Void \<and> q = NULL \<and> (\<exists>ds. becomes w w' (cells_of w') 0 (log_if (x_value_destroy m) ds)
            \<and> mset ds \<subseteq># mset (map (copied (x_value_copy m)) (vals t))))"

lemma cloned_failed:
  assumes "t \<noteq> Void" "becomes w w' (cells_of w') 0 (log_if (x_value_destroy m) ds)" "mset ds \<subseteq># mset (map (copied (x_value_copy m)) (vals t))"
    "fresh w' \<le> fresh w + length (knots t)" "\<And>d. d < fresh w \<Longrightarrow> cells_of w' d = cells_of w d"
    "no_fail w \<Longrightarrow> 40 + x_value_size m \<le> PTRDIFF_MAX \<Longrightarrow> fresh w + length (knots t) \<le> SIZE_MAX \<Longrightarrow> False"
  shows "cloned m w t NULL w'"
  using assms unfolding cloned_def by blast

lemma cloned_Void: "store_ok w \<Longrightarrow> cloned m w Void NULL w"
  unfolding cloned_def using becomes_refl by (auto intro!: exI [of _ Void])

lemma clonedE:
  assumes "cloned m w t q w'"
  obtains t' where "q = tptr t'" "twin (x_value_copy m) t t'" "becomes w w' (cells_of w') (2 * int (length (knots t))) []"
      "trie_at (cells_of w') t'" "separate t'" "\<And>d. d \<in> places t' \<Longrightarrow> fresh w \<le> d"
  | ds where "t \<noteq> Void" "q = NULL" "becomes w w' (cells_of w') 0 (log_if (x_value_destroy m) ds)"
      "mset ds \<subseteq># mset (map (copied (x_value_copy m)) (vals t))"
      "no_fail w \<Longrightarrow> 40 + x_value_size m \<le> PTRDIFF_MAX \<Longrightarrow> fresh w + length (knots t) \<le> SIZE_MAX \<Longrightarrow> False"
  using assms unfolding cloned_def by blast

lemma clonedD:
  assumes "cloned m w t q w'"
  shows "fresh w' \<le> fresh w + length (knots t)" "d < fresh w \<Longrightarrow> cells_of w' d = cells_of w d"
  using assms by (simp_all add: cloned_def)

text \<open>The second half: the node is copied to \<open>p\<close>, its children too.\<close>

lemma clone_next_ok:
  fixes w :: "'v rworld"
  assumes ok: "store_ok w" and p: "p < fresh w" "node_at (cells_of w) p s u' (tptr c') NULL" and c': "trie_at (cells_of w) c'" "separate c'" "p \<notin> places c'"
    and src: "cells_of w a = Some na" "x_next na = tptr n" "a < fresh w" "a \<noteq> p"
    and IH: "radixmap_node_clone_chain m (tptr n) w = Some (q, w1)" "cloned m w n q w1"
  shows "\<exists>w2. write_link (Next_field (Ptr p)) q w1 = Some w2 \<and> get_node (Ptr a) w2 = Some na \<and> fresh w2 \<le> fresh w + length (knots n)
    \<and> (\<forall>d < fresh w. d \<noteq> p \<longrightarrow> cells_of w2 d = cells_of w d)
    \<and> ((\<exists>n'. q = tptr n' \<and> twin (x_value_copy m) n n' \<and> becomes w w2 (cells_of w2) (2 * int (length (knots n))) []
           \<and> trie_at (cells_of w2) (Knot p s u' c' n') \<and> separate n' \<and> (\<forall>d \<in> places n'. fresh w \<le> d))
       \<or> n \<noteq> Void \<and> q = NULL \<and> (no_fail w \<longrightarrow> 40 + x_value_size m \<le> PTRDIFF_MAX \<longrightarrow> fresh w + length (knots n) \<le> SIZE_MAX \<longrightarrow> False)
         \<and> (\<exists>w3 ds. radixmap_node_free_chain m (Ptr p) w2 = Some w3 \<and> fresh w3 = fresh w2
             \<and> becomes w w3 (cells_of w3) (- 2 * int (Suc (length (knots c')))) (log_if (x_value_destroy m) (ds @ vals c' @ old u'))
             \<and> (\<forall>d < fresh w. d \<noteq> p \<longrightarrow> d \<notin> places c' \<longrightarrow> cells_of w3 d = cells_of w d)
             \<and> mset ds \<subseteq># mset (map (copied (x_value_copy m)) (vals n))))"
proof -
  note C = clonedD [OF IH(2)]
  obtain np where np: "cells_of w p = Some np" "node_is np s u' (tptr c') NULL" using p(2) by (rule node_atE)
  have ok1: "store_ok w1" and f1: "fresh w \<le> fresh w1" using IH(2) unfolding cloned_def becomes_def by blast+
  have np1: "cells_of w1 p = Some np" using C(2) p(1) np(1) by simp
  let ?n2 = "x_next_update (\<lambda>_. q) np"
  from becomes_modify [OF ok1 np1, of "x_next_update (\<lambda>_. q)"] obtain w2 where
    w2: "modify (Ptr p) (x_next_update (\<lambda>_. q)) w1 = Some w2" "becomes w1 w2 ((cells_of w1)(p \<mapsto> ?n2)) 0 []" "fresh w2 = fresh w1" by blast
  note D2 = becomesD [OF w2(2)]
  have nn: "node_is ?n2 s u' (tptr c') q" by (rule node_is_update(2) [OF np(2)])
  have out: "cells_of w2 d = cells_of w d" if "d < fresh w" "d \<noteq> p" for d using C(2) that D2(2) by simp
  have c2: "trie_at (cells_of w2) c'"
    using c'(1) trie_at_cong [of c' "cells_of w2" "cells_of w"] out trie_at_fresh [OF c'(1) ok] c'(3) by metis
  have a2: "cells_of w2 a = Some na" using out src by simp
  from IH(2) show ?thesis
  proof (cases rule: clonedE)
    case (1 n')
    have "p \<notin> places n'" using 1(6) [of p] p(1) by auto
    then have "trie_at (cells_of w2) (Knot p s u' c' n')" using D2(2) nn 1(1,4) c2 by (simp add: node_at_def)
    moreover have "becomes w w2 (cells_of w2) (2 * int (length (knots n))) []"
      unfolding D2(2) by (rule becomes_trans [OF 1(3) w2(2)]) simp_all
    ultimately show ?thesis using w2(1,3) a2 C(1) out 1 by auto
  next
    case (2 ds)
    have "trie_at (cells_of w2) (Knot p s u' c' Void)" using D2(2) nn 2(2) c2 by (simp add: node_at_def)
    from free_chain_ok [OF this _ D2(1), of m] c'(2,3) obtain w3 where
      w3: "radixmap_node_free_chain m (Ptr p) w2 = Some w3" "fresh w3 = fresh w2"
        "becomes w2 w3 (cells_of w2 |` (- insert p (places c'))) (- 2 * int (Suc (length (knots c')))) (log_if (x_value_destroy m) (vals c' @ old u'))" by auto
    note D3 = becomesD [OF w3(3)]
    have "becomes w w3 (cells_of w3) (- 2 * int (Suc (length (knots c')))) (log_if (x_value_destroy m) (ds @ vals c' @ old u'))"
      unfolding D3(2) by (rule becomes_trans [OF 2(3) becomes_trans [OF w2(2) w3(3) refl refl]]) (simp_all add: log_if_def)
    moreover have "\<forall>d < fresh w. d \<noteq> p \<longrightarrow> d \<notin> places c' \<longrightarrow> cells_of w3 d = cells_of w d" using D3(2) out by simp
    ultimately show ?thesis using w2(1,3) w3(1,2) a2 C(1) out 2 by auto
  qed
qed

text \<open>The first half: the children.\<close>

lemma clone_child_ok:
  fixes w :: "'v rworld"
  assumes ok: "store_ok w" and p: "p < fresh w" "node_at (cells_of w) p s u' NULL NULL"
    and src: "cells_of w a = Some na" "x_child na = tptr c" "a < fresh w" "a \<noteq> p"
    and IH: "radixmap_node_clone_chain m (tptr c) w = Some (q, w1)" "cloned m w c q w1"
  shows "\<exists>w2. write_link (Child_field (Ptr p)) q w1 = Some w2 \<and> get_node (Ptr a) w2 = Some na \<and> fresh w2 \<le> fresh w + length (knots c)
    \<and> (\<forall>d < fresh w. d \<noteq> p \<longrightarrow> cells_of w2 d = cells_of w d)
    \<and> ((\<exists>c'. q = tptr c' \<and> twin (x_value_copy m) c c' \<and> becomes w w2 (cells_of w2) (2 * int (length (knots c))) []
           \<and> node_at (cells_of w2) p s u' (tptr c') NULL \<and> trie_at (cells_of w2) c' \<and> separate c' \<and> (\<forall>d \<in> places c'. fresh w \<le> d))
       \<or> c \<noteq> Void \<and> q = NULL \<and> (no_fail w \<longrightarrow> 40 + x_value_size m \<le> PTRDIFF_MAX \<longrightarrow> fresh w + length (knots c) \<le> SIZE_MAX \<longrightarrow> False)
         \<and> (\<exists>w3 ds. radixmap_node_free_chain m (Ptr p) w2 = Some w3 \<and> fresh w3 = fresh w2
             \<and> becomes w w3 (cells_of w3) (- 2) (log_if (x_value_destroy m) (ds @ old u'))
             \<and> (\<forall>d < fresh w. d \<noteq> p \<longrightarrow> cells_of w3 d = cells_of w d)
             \<and> mset ds \<subseteq># mset (map (copied (x_value_copy m)) (vals c))))"
proof -
  note C = clonedD [OF IH(2)]
  obtain np where np: "cells_of w p = Some np" "node_is np s u' NULL NULL" using p(2) by (rule node_atE)
  have ok1: "store_ok w1" using IH(2) unfolding cloned_def becomes_def by blast
  have np1: "cells_of w1 p = Some np" using C(2) p(1) np(1) by simp
  let ?n2 = "x_child_update (\<lambda>_. q) np"
  from becomes_modify [OF ok1 np1, of "x_child_update (\<lambda>_. q)"] obtain w2 where
    w2: "modify (Ptr p) (x_child_update (\<lambda>_. q)) w1 = Some w2" "becomes w1 w2 ((cells_of w1)(p \<mapsto> ?n2)) 0 []" "fresh w2 = fresh w1" by blast
  note D2 = becomesD [OF w2(2)]
  have nn: "node_is ?n2 s u' q NULL" by (rule node_is_update(1) [OF np(2)])
  have out: "cells_of w2 d = cells_of w d" if "d < fresh w" "d \<noteq> p" for d using C(2) that D2(2) by simp
  have a2: "cells_of w2 a = Some na" using out src by simp
  from IH(2) show ?thesis
  proof (cases rule: clonedE)
    case (1 c')
    have "p \<notin> places c'" using 1(6) [of p] p(1) by auto
    then have "trie_at (cells_of w2) c'" "node_at (cells_of w2) p s u' (tptr c') NULL" using D2(2) nn 1(1,4) by (simp_all add: node_at_def)
    moreover have "becomes w w2 (cells_of w2) (2 * int (length (knots c))) []"
      unfolding D2(2) by (rule becomes_trans [OF 1(3) w2(2)]) simp_all
    ultimately show ?thesis using w2(1,3) a2 C(1) out 1 by auto
  next
    case (2 ds)
    have "trie_at (cells_of w2) (Knot p s u' Void Void)" using D2(2) nn 2(2) by (simp add: node_at_def)
    from free_chain_ok [OF this _ D2(1), of m] obtain w3 where
      w3: "radixmap_node_free_chain m (Ptr p) w2 = Some w3" "fresh w3 = fresh w2"
        "becomes w2 w3 (cells_of w2 |` (- {p})) (- 2) (log_if (x_value_destroy m) (old u'))" by auto
    note D3 = becomesD [OF w3(3)]
    have "becomes w w3 (cells_of w3) (- 2) (log_if (x_value_destroy m) (ds @ old u'))"
      unfolding D3(2) by (rule becomes_trans [OF 2(3) becomes_trans [OF w2(2) w3(3) refl refl]]) (simp_all add: log_if_def)
    moreover have "\<forall>d < fresh w. d \<noteq> p \<longrightarrow> cells_of w3 d = cells_of w d" using D3(2) out by simp
    ultimately show ?thesis using w2(1,3) w3(1,2) a2 C(1) out 2 by auto
  qed
qed

lemma clone_chain_ok:
  fixes w :: "'v rworld"
  assumes sz: "sizes_ok m"
  shows "trie_at (cells_of w) t \<Longrightarrow> good L t \<Longrightarrow> L < PTRDIFF_MAX \<Longrightarrow> store_ok w \<Longrightarrow>
    \<exists>q w'. radixmap_node_clone_chain m (tptr t) w = Some (q, w') \<and> cloned m w t q w'"
proof (induction t arbitrary: w L)
  case Void
  then show ?case by (subst radixmap_node_clone_chain.simps) (simp add: cloned_Void)
next
  case (Knot a s u c n)
  let ?t = "Knot a s u c n" let ?f = "x_value_copy m" let ?d = "x_value_destroy m" let ?p = "fresh w" let ?u = "map_option (copied ?f) u"
  obtain na where na: "cells_of w a = Some na" "node_is na s u (tptr c) (tptr n)" and sub: "trie_at (cells_of w) c" "trie_at (cells_of w) n"
    using Knot.prems(1) by (auto simp: node_at_def)
  note N = node_isD [OF na(2)] and ok = Knot.prems(4)
  have g: "good (L - length s) c" "good L n" "L - length s < PTRDIFF_MAX" "length s < PTRDIFF_MAX" using Knot.prems(2,3) by auto
  have ap: "a < ?p" "a \<noteq> ?p" using na(1) ok by (auto simp: store_ok_def)
  note run0 = radixmap_node_clone_chain.simps [of m "Ptr a" w]
  from clone_head_ok [OF ok sz na g(4)] obtain q w1 where
    q: "radixmap_node_new m (x_segment na) (x_segment_len na) w = Some (q, w1)" "fresh w1 \<le> Suc ?p"
      "no_fail w \<longrightarrow> 40 + x_value_size m \<le> PTRDIFF_MAX \<longrightarrow> ?p < SIZE_MAX \<longrightarrow> q \<noteq> NULL"
    and res: "q = NULL \<and> becomes w w1 (cells_of w) 0 []
       \<or> q = Ptr ?p \<and> (\<exists>rc w2. radixmap_node_clone_value m q (Ptr a) w1 = Some (rc, w2) \<and> fresh w2 = Suc ?p \<and> (no_fail w \<longrightarrow> rc = 0)
           \<and> (rc = 0 \<and> (\<exists>nd. becomes w w2 ((cells_of w)(?p \<mapsto> nd)) 2 [] \<and> node_is nd s ?u NULL NULL)
              \<or> rc \<noteq> 0 \<and> (\<exists>w3. radixmap_node_free_chain m q w2 = Some w3 \<and> fresh w3 = Suc ?p \<and> becomes w w3 (cells_of w) 0 [])))"
    by (elim exE conjE) (rule that)
  have refused: "cloned m w ?t NULL w'" if "becomes w w' (cells_of w) 0 []" "fresh w' \<le> Suc ?p"
      "no_fail w \<Longrightarrow> 40 + x_value_size m \<le> PTRDIFF_MAX \<Longrightarrow> ?p < SIZE_MAX \<Longrightarrow> False" for w'
    by (rule cloned_failed [where ds = "[]"]) (use that becomesD(2) [OF that(1)] in auto)
  from res show ?case
  proof (elim disjE conjE exE)
    assume r0: "q = NULL" "becomes w w1 (cells_of w) 0 []"
    have "cloned m w ?t NULL w1" by (rule refused [OF r0(2) q(2)]) (use q(3) r0(1) in blast)
    then show ?thesis using na(1) q(1) r0(1) by (simp add: run0)
  next
    fix rc w2 w3
    assume r2: "q = Ptr ?p" "radixmap_node_clone_value m q (Ptr a) w1 = Some (rc, w2)" "no_fail w \<longrightarrow> rc = 0" "rc \<noteq> 0"
      "radixmap_node_free_chain m q w2 = Some w3" "fresh w3 = Suc ?p" "becomes w w3 (cells_of w) 0 []"
    have "cloned m w ?t NULL w3" by (rule refused [OF r2(7)]) (use r2 in auto)
    then show ?thesis using na(1) q(1) r2 by (simp add: run0)
  next
    fix rc w2 nd
    assume r1: "q = Ptr ?p" "radixmap_node_clone_value m q (Ptr a) w1 = Some (rc, w2)" "fresh w2 = Suc ?p" "rc = 0"
      and nd: "becomes w w2 ((cells_of w)(?p \<mapsto> nd)) 2 []" "node_is nd s ?u NULL NULL"
    note D2 = becomesD [OF nd(1)]
    have p2: "node_at (cells_of w2) ?p s ?u NULL NULL" "?p < fresh w2" using D2(2) nd(2) r1(3) by (simp_all add: node_at_def)
    have a2: "cells_of w2 a = Some na" "a < fresh w2" using D2(2) na(1) ap r1(3) by simp_all
    have same2: "cells_of w2 d = cells_of w d" if "d < ?p" for d using D2(2) that by simp
    have below: "d < ?p" if "d \<in> places c \<union> places n" for d using that trie_at_fresh [OF sub(1) ok] trie_at_fresh [OF sub(2) ok] by blast
    have "trie_at (cells_of w2) c" using sub(1) trie_at_cong [of c "cells_of w2" "cells_of w"] same2 below by simp
    from Knot.IH(1) [OF this g(1,3) D2(1)] obtain qc w3 where
      c3: "radixmap_node_clone_chain m (tptr c) w2 = Some (qc, w3)" "cloned m w2 c qc w3" by blast
    from clone_child_ok [OF D2(1) p2(2,1) a2(1) N(1) a2(2) ap(2) c3] obtain w4 where
      w4: "write_link (Child_field (Ptr ?p)) qc w3 = Some w4" "get_node (Ptr a) w4 = Some na" "fresh w4 \<le> fresh w2 + length (knots c)"
        "\<forall>d < fresh w2. d \<noteq> ?p \<longrightarrow> cells_of w4 d = cells_of w2 d"
      and cres: "(\<exists>c'. qc = tptr c' \<and> twin ?f c c' \<and> becomes w2 w4 (cells_of w4) (2 * int (length (knots c))) []
           \<and> node_at (cells_of w4) ?p s ?u (tptr c') NULL \<and> trie_at (cells_of w4) c' \<and> separate c' \<and> (\<forall>d \<in> places c'. fresh w2 \<le> d))
       \<or> c \<noteq> Void \<and> qc = NULL \<and> (no_fail w2 \<longrightarrow> 40 + x_value_size m \<le> PTRDIFF_MAX \<longrightarrow> fresh w2 + length (knots c) \<le> SIZE_MAX \<longrightarrow> False)
         \<and> (\<exists>w5 ds. radixmap_node_free_chain m (Ptr ?p) w4 = Some w5 \<and> fresh w5 = fresh w4
             \<and> becomes w2 w5 (cells_of w5) (- 2) (log_if ?d (ds @ old ?u))
             \<and> (\<forall>d < fresh w2. d \<noteq> ?p \<longrightarrow> cells_of w5 d = cells_of w2 d)
             \<and> mset ds \<subseteq># mset (map (copied ?f) (vals c)))" by (elim exE conjE) (rule that)
    have same4: "cells_of w4 d = cells_of w d" if "d < ?p" for d using w4(4) same2 [OF that] that r1(3) by simp
    note facts = na(1) q(1) r1(1,2,4) a2(1) N(1,2) c3(1) w4(1,2)
    from cres show ?thesis
    proof (elim disjE conjE exE)
      fix w5 ds
      assume f: "c \<noteq> Void" "qc = NULL" "no_fail w2 \<longrightarrow> 40 + x_value_size m \<le> PTRDIFF_MAX \<longrightarrow> fresh w2 + length (knots c) \<le> SIZE_MAX \<longrightarrow> False"
        "radixmap_node_free_chain m (Ptr ?p) w4 = Some w5" "fresh w5 = fresh w4" "becomes w2 w5 (cells_of w5) (- 2) (log_if ?d (ds @ old ?u))"
        "\<forall>d < fresh w2. d \<noteq> ?p \<longrightarrow> cells_of w5 d = cells_of w2 d" "mset ds \<subseteq># mset (map (copied ?f) (vals c))"
      have b5: "becomes w w5 (cells_of w5) 0 (log_if ?d (ds @ old ?u))" by (rule becomes_trans [OF nd(1) f(6)]) simp_all
      have S: "mset (ds @ old ?u) \<subseteq># mset (map (copied ?f) (vals ?t))"
        using f(8) by (cases u) (auto intro: subset_mset.add_mono subset_mset.order_trans simp: subset_mset.add_increasing2)
      have "cloned m w ?t NULL w5"
        by (rule cloned_failed [OF _ b5 S]) (use f w4(3) r1(3) same2 D2(6) in auto)
      moreover have "radixmap_node_clone_chain m (tptr ?t) w = Some (NULL, w5)" using facts f(1,2,4) by (simp add: run0)
      ultimately show ?thesis by blast
    next
      fix c'
      assume c': "qc = tptr c'" "twin ?f c c'" "becomes w2 w4 (cells_of w4) (2 * int (length (knots c))) []"
        "node_at (cells_of w4) ?p s ?u (tptr c') NULL" "trie_at (cells_of w4) c'" "separate c'" "\<forall>d \<in> places c'. fresh w2 \<le> d"
      note D4 = becomesD [OF c'(3)]
      have "trie_at (cells_of w4) n" using sub(2) trie_at_cong [of n "cells_of w4" "cells_of w"] same4 below by simp
      from Knot.IH(2) [OF this g(2) Knot.prems(3) D4(1)] obtain qn w5 where
        n5: "radixmap_node_clone_chain m (tptr n) w4 = Some (qn, w5)" "cloned m w4 n qn w5" by blast
      have p4: "?p < fresh w4" "?p \<notin> places c'" "a < fresh w4" using D4(3) p2(2) c'(7) a2(2) by auto
      from clone_next_ok [OF D4(1) p4(1) c'(4-6) p4(2) w4(2) [unfolded get_node_simps] N(2) p4(3) ap(2) n5] obtain w6 where
        w6: "write_link (Next_field (Ptr ?p)) qn w5 = Some w6" "get_node (Ptr a) w6 = Some na" "fresh w6 \<le> fresh w4 + length (knots n)"
          "\<forall>d < fresh w4. d \<noteq> ?p \<longrightarrow> cells_of w6 d = cells_of w4 d"
        and nres: "(\<exists>n'. qn = tptr n' \<and> twin ?f n n' \<and> becomes w4 w6 (cells_of w6) (2 * int (length (knots n))) []
           \<and> trie_at (cells_of w6) (Knot ?p s ?u c' n') \<and> separate n' \<and> (\<forall>d \<in> places n'. fresh w4 \<le> d))
       \<or> n \<noteq> Void \<and> qn = NULL \<and> (no_fail w4 \<longrightarrow> 40 + x_value_size m \<le> PTRDIFF_MAX \<longrightarrow> fresh w4 + length (knots n) \<le> SIZE_MAX \<longrightarrow> False)
         \<and> (\<exists>w7 ds. radixmap_node_free_chain m (Ptr ?p) w6 = Some w7 \<and> fresh w7 = fresh w6
             \<and> becomes w4 w7 (cells_of w7) (- 2 * int (Suc (length (knots c')))) (log_if ?d (ds @ vals c' @ old ?u))
             \<and> (\<forall>d < fresh w4. d \<noteq> ?p \<longrightarrow> d \<notin> places c' \<longrightarrow> cells_of w7 d = cells_of w4 d)
             \<and> mset ds \<subseteq># mset (map (copied ?f) (vals n)))" by (elim exE conjE) (rule that)
      have b4: "becomes w w4 (cells_of w4) (2 + 2 * int (length (knots c))) []" by (rule becomes_trans [OF nd(1) c'(3)]) simp_all
      have above: "d \<notin> places c'" if "d < ?p" for d using c'(7) that r1(3) by auto
      note facts2 = facts c'(1) n5(1) w6(1,2)
      from nres show ?thesis
      proof (elim disjE conjE exE)
        fix w7 ds
        assume f: "n \<noteq> Void" "qn = NULL" "no_fail w4 \<longrightarrow> 40 + x_value_size m \<le> PTRDIFF_MAX \<longrightarrow> fresh w4 + length (knots n) \<le> SIZE_MAX \<longrightarrow> False"
          "radixmap_node_free_chain m (Ptr ?p) w6 = Some w7" "fresh w7 = fresh w6"
          "becomes w4 w7 (cells_of w7) (- 2 * int (Suc (length (knots c')))) (log_if ?d (ds @ vals c' @ old ?u))"
          "\<forall>d < fresh w4. d \<noteq> ?p \<longrightarrow> d \<notin> places c' \<longrightarrow> cells_of w7 d = cells_of w4 d" "mset ds \<subseteq># mset (map (copied ?f) (vals n))"
        have b7: "becomes w w7 (cells_of w7) 0 (log_if ?d (ds @ vals c' @ old ?u))"
          by (rule becomes_trans [OF b4 f(6)]) (simp_all add: twin_knots [OF c'(2)])
        have S: "mset (ds @ vals c' @ old ?u) \<subseteq># mset (map (copied ?f) (vals ?t))"
          using f(8) twin_vals [OF c'(2)] by (cases u) (simp_all add: ac_simps)
        have "cloned m w ?t NULL w7"
          by (rule cloned_failed [OF _ b7 S]) (use f w4(3) w6(3) r1(3) same4 above D4(3,6) D2(6) in auto)
        moreover have "radixmap_node_clone_chain m (tptr ?t) w = Some (NULL, w7)" using facts2 twin_Void c'(2) f(1,2,4) by (auto simp: run0)
        ultimately show ?thesis by blast
      next
        fix n'
        assume n': "qn = tptr n'" "twin ?f n n'" "becomes w4 w6 (cells_of w6) (2 * int (length (knots n))) []"
          "trie_at (cells_of w6) (Knot ?p s ?u c' n')" "separate n'" "\<forall>d \<in> places n'. fresh w4 \<le> d"
        let ?t' = "Knot ?p s ?u c' n'"
        have "becomes w w6 (cells_of w6) (2 * int (length (knots ?t))) []" by (rule becomes_trans [OF b4 n'(3)]) simp_all
        moreover have "?p \<notin> places n'" "places c' \<inter> places n' = {}"
          using n'(6) p4(1) trie_at_fresh [OF c'(5) D4(1)] by fastforce+
        then have "separate ?t'" using n'(5) c'(6) p4(2) by simp
        moreover have "\<forall>d \<in> places ?t'. ?p \<le> d" using n'(6) c'(7) r1(3) D4(3) by auto
        moreover have "twin ?f ?t ?t'" using c'(2) n'(2) by simp
        moreover have "\<forall>d < ?p. cells_of w6 d = cells_of w d" using w6(4) same4 p4(1) by simp
        moreover have "fresh w6 \<le> ?p + length (knots ?t)" using w6(3) w4(3) r1(3) by simp
        ultimately have "cloned m w ?t (Ptr ?p) w6" unfolding cloned_def using n'(4) by (intro conjI disjI1 exI [of _ ?t']) simp_all
        moreover have "radixmap_node_clone_chain m (tptr ?t) w = Some (Ptr ?p, w6)" using facts2 n'(1,2) c'(2) by (auto simp: run0)
        ultimately show ?thesis by blast
      qed
    qed
  qed
qed

section \<open>Copying a map\<close>

text \<open>A map in a world that differs outside its nodes.\<close>

lemma radix_rel_frame:
  assumes "radix_rel m w t" "store_ok w'" "\<And>d. d \<in> places t \<Longrightarrow> cells_of w' d = cells_of w d"
  shows "radix_rel m w' t"
proof -
  from assms(1) obtain r u c where t: "t = Knot r [] u c Void" "x_root m = Ptr r" "knot_at (cells_of w) r [] u c NULL" "good (PTRDIFF_MAX - 1) c"
    "map_of (ents t) = value_below u c" "x_size m = card (dom (value_below u c))" by (rule radix_relE)
  have "knot_at (cells_of w') r [] u c NULL"
    using t(3) assms(3) t(1) trie_at_cong [of c "cells_of w'" "cells_of w"] by (simp add: knot_at_def node_at_def)
  then show ?thesis using assms(1,2) t by (simp add: radix_rel_def)
qed

text \<open>The copy of the value of the root.\<close>

lemma copy_root_ok:
  assumes ok: "store_ok w" and p: "cells_of w p = Some (blank [])"
  shows "\<exists>rc w'. (case u of None \<Rightarrow> Some (0, w) | Some x \<Rightarrow> radixmap_store_value m (Ptr p) x w) = Some (rc, w') \<and> fresh w' = fresh w
    \<and> (no_fail w \<longrightarrow> x_value_size m \<le> PTRDIFF_MAX \<longrightarrow> rc = 0)
    \<and> (rc \<noteq> 0 \<and> becomes w w' (cells_of w) 0 []
       \<or> rc = 0 \<and> (\<exists>nd. becomes w w' ((cells_of w)(p \<mapsto> nd)) 0 [] \<and> node_is nd [] (map_option (copied (x_value_copy m)) u) NULL NULL))"
proof (cases u)
  case None
  then show ?thesis using becomes_refl [OF ok] p by (auto simp: fun_upd_idem intro!: exI [of _ "blank []"])
next
  case (Some x)
  have "node_at (cells_of w) p [] None NULL NULL" using p by (simp add: node_at_def)
  from store_value_ok [OF ok this, of m x] Some show ?thesis by auto
qed

definition copies_values :: "('v \<Rightarrow> 'v) option \<Rightarrow> (bytes \<rightharpoonup> 'v) \<Rightarrow> (bytes \<rightharpoonup> 'v)" where
  "copies_values f M = (\<lambda>k. map_option (copied f) (M k))"

lemma twin_map:
  assumes "twin f c c'"
  shows "map_of (ents (Knot p [] (map_option (copied f) u) c' Void)) = copies_values f (map_of (ents (Knot r [] u c Void)))"
proof -
  have "twin f (Knot r [] u c Void) (Knot p [] (map_option (copied f) u) c' Void)" using assms by simp
  then have e: "ents (Knot p [] (map_option (copied f) u) c' Void) = map (\<lambda>(k, v). (k, copied f v)) (ents (Knot r [] u c Void))"
    by (rule twin_ents)
  show ?thesis unfolding e map_of_map copies_values_def comp_def ..
qed

lemma dom_copies_values [simp]: "dom (copies_values f M) = dom M"
  by (auto simp: copies_values_def dom_def)

lemma copy_temp_ok:
  assumes src: "radix_rel s w S"
  shows "\<exists>rc temp w'. copy_temp s w = Some ((rc, temp), w') \<and> (\<forall>d < fresh w. cells_of w' d = cells_of w d)
    \<and> (no_fail w \<longrightarrow> 40 + x_value_size s \<le> PTRDIFF_MAX \<longrightarrow> fresh w + length (knots S) \<le> SIZE_MAX \<longrightarrow> rc = 0)
    \<and> (rc = 0 \<and> radix_conf temp = radix_conf s
         \<and> (\<exists>T. radix_rel temp w' T \<and> map_of (ents T) = copies_values (x_value_copy s) (map_of (ents S)) \<and> (\<forall>d \<in> places T. fresh w \<le> d)
              \<and> becomes w w' (cells_of w') (2 * int (length (knots T))) [])
       \<or> rc \<noteq> 0 \<and> (\<exists>ds. becomes w w' (cells_of w') 0 (log_if (x_value_destroy s) ds)
            \<and> mset ds \<subseteq># image_mset (copied (x_value_copy s)) (range_mset (map_of (ents S)))))"
proof -
  from src obtain r u c where S: "S = Knot r [] u c Void" "x_root s = Ptr r" "knot_at (cells_of w) r [] u c NULL" "good (PTRDIFF_MAX - 1) c"
    "map_of (ents S) = value_below u c" "x_size s = card (dom (value_below u c))" by (rule radix_relE)
  note ok = radix_relD(1) [OF src] and sz = radix_relD(2) [OF src]
  obtain nr where nr: "cells_of w r = Some nr" "node_is nr [] u (tptr c) NULL" and c: "trie_at (cells_of w) c"
    using S(3) by (auto simp: knot_at_def node_at_def)
  note N = node_isD [OF nr(2)]
  let ?p = "fresh w" let ?d = "x_value_destroy s" let ?f = "x_value_copy s" let ?u = "map_option (copied ?f) u"
  have range: "range_mset (map_of (ents S)) = mset (vals c) + mset (old u)" using vals_range [OF src] S(1) by (simp add: S(1))
  have "0 < x_value_size s" "40 + x_value_size s \<le> SIZE_MAX" using sz by (simp_all add: sizes_ok_def)
  from radixmap_init_ok [OF ok this, of raw_radixmap ?d ?f] obtain rc m w1 where
    i: "radixmap_init (Ptr raw_radixmap) (x_value_size s) ?d ?f w = Some (rc, Ptr m, w1)" "radix_conf m = radix_conf s" "fresh w1 \<le> Suc ?p"
      "no_fail w \<longrightarrow> 40 + x_value_size s \<le> PTRDIFF_MAX \<longrightarrow> ?p < SIZE_MAX \<longrightarrow> rc = 0"
    and ires: "rc = - 1 \<and> x_root m = NULL \<and> becomes w w1 (cells_of w) 0 []
       \<or> rc = 0 \<and> x_root m = Ptr ?p \<and> radix_rel m w1 (Knot ?p [] None Void Void) \<and> becomes w w1 ((cells_of w)(?p \<mapsto> blank [])) 2 []"
    unfolding radix_conf_def [of s, symmetric] by (elim exE conjE) (rule that)
  let ?m = "m\<lparr>x_size := x_size s\<rparr>"
  have refused: "(\<forall>d < fresh w. cells_of w' d = cells_of w d) \<and> (\<exists>ds. becomes w w' (cells_of w') 0 (log_if ?d ds)
      \<and> mset ds \<subseteq># image_mset (copied ?f) (range_mset (map_of (ents S))))" if b: "becomes w w' (cells_of w) 0 []" for w'
    using b becomesD(2) [OF b] by (auto intro!: exI [of _ "[]"])
  have cf: "x_value_destroy m = ?d" "x_value_copy m = ?f" "x_value_size m = x_value_size s" using i(2) by (simp_all add: radix_conf_def)
  have cfm: "x_value_destroy ?m = ?d" "x_value_copy ?m = ?f" "x_value_size ?m = x_value_size s" using cf by simp_all
  have szm: "sizes_ok ?m" using sz cf(3) by (simp add: sizes_ok_def)
  from ires show ?thesis
  proof (elim disjE conjE)
    assume "rc = - 1" "becomes w w1 (cells_of w) 0 []"
    then show ?thesis using i(1,4) refused S(1)
      by (intro exI [of _ "- 1"] exI [of _ m] exI [of _ w1]) (auto simp: copy_temp_def)
  next
    assume r0: "rc = 0" "x_root m = Ptr ?p" and b1: "becomes w w1 ((cells_of w)(?p \<mapsto> blank [])) 2 []"
    note D1 = becomesD [OF b1]
    have rp: "r < ?p" using nr(1) ok by (auto simp: store_ok_def)
    have "x_has_value_update (\<lambda>_. False) (blank []) = (blank [] :: 'a radixmap_node)" by (simp add: blank_def)
    with becomes_modify [OF D1(1), of ?p "blank []" "x_has_value_update (\<lambda>_. False)"] D1(2) obtain w2 where
      w2: "modify (Ptr ?p) (x_has_value_update (\<lambda>_. False)) w1 = Some w2" "becomes w1 w2 ((cells_of w)(?p \<mapsto> blank [])) 0 []" "fresh w2 = fresh w1" by auto
    note D2 = becomesD [OF w2(2)]
    have b2: "becomes w w2 ((cells_of w)(?p \<mapsto> blank [])) 2 []" by (rule becomes_trans [OF b1 w2(2)]) simp_all
    have r2: "cells_of w2 r = Some nr" using D2(2) nr(1) rp by simp
    from copy_root_ok [OF D2(1), where p = ?p and u = u and m = ?m] D2(2) obtain rc1 w3 where
      w3: "(case u of None \<Rightarrow> Some (0, w2) | Some x \<Rightarrow> radixmap_store_value ?m (Ptr ?p) x w2) = Some (rc1, w3)" "fresh w3 = fresh w2"
        "no_fail w2 \<longrightarrow> x_value_size m \<le> PTRDIFF_MAX \<longrightarrow> rc1 = 0"
      and vres: "rc1 \<noteq> 0 \<and> becomes w2 w3 (cells_of w2) 0 []
       \<or> rc1 = 0 \<and> (\<exists>nd. becomes w2 w3 ((cells_of w2)(?p \<mapsto> nd)) 0 [] \<and> node_is nd [] ?u NULL NULL)" by (auto simp: cf)
    have run0: "copy_temp s w = (if rc1 \<noteq> 0 then do { (_, w4) \<leftarrow> radixmap_destroy (Ptr ?m) w3; Some ((- 1, ?m), w4) }
      else do {
        r1 \<leftarrow> get_node (Ptr r) w3;
        (c, w4) \<leftarrow> radixmap_node_clone_chain ?m (x_child r1) w3;
        w5 \<leftarrow> write_link (Child_field (Ptr ?p)) c w4;
        r2 \<leftarrow> get_node (Ptr r) w5;
        if x_child r2 \<noteq> NULL \<and> c = NULL then do { (_, w6) \<leftarrow> radixmap_destroy (Ptr ?m) w5; Some ((- 1, ?m), w6) }
        else Some ((0, ?m), w5) })"
      using i(1) r0 w2(1) S(2) r2 w3(1) N(5,6) by (cases u) (simp_all add: copy_temp_def Let_def cong: if_cong)
    from vres show ?thesis
    proof (elim disjE conjE exE)
      assume v: "rc1 \<noteq> 0" "becomes w2 w3 (cells_of w2) 0 []"
      note D3 = becomesD [OF v(2)]
      have "node_at (cells_of w3) ?p [] None NULL NULL" using D3(2) D2(2) by simp
      from free_leaf_ok [OF D3(1) this, of ?m] obtain w4 where
        w4: "radixmap_node_free_chain ?m (Ptr ?p) w3 = Some w4" "becomes w3 w4 ((cells_of w3)(?p := None)) (- 2) []" by blast
      have "(cells_of w3)(?p := None) = cells_of w" using D3(2) D2(2) store_ok_fresh [OF ok] by (simp add: fun_upd_idem)
      then have "becomes w w4 (cells_of w) 0 []" using becomes_trans [OF b2 becomes_trans [OF v(2) w4(2) refl refl]] by simp
      moreover have "copy_temp s w = Some ((- 1, ?m), w4)" using v(1) w4(1) r0(2) by (simp add: run0 radixmap_destroy_def)
      moreover have "no_fail w \<Longrightarrow> 40 + x_value_size s \<le> PTRDIFF_MAX \<Longrightarrow> False" using v(1) w3(3) D2(6) D1(6) cf(3) by simp
      ultimately show ?thesis using refused [of w4] by (intro exI [of _ "- 1"] exI [of _ ?m] exI [of _ w4]) auto
    next
      fix nd
      assume v: "rc1 = 0" "becomes w2 w3 ((cells_of w2)(?p \<mapsto> nd)) 0 []" "node_is nd [] ?u NULL NULL"
      note D3 = becomesD [OF v(2)]
      have b3: "becomes w w3 (cells_of w3) 2 []" unfolding D3(2) by (rule becomes_trans [OF b2 v(2)]) simp_all
      have same3: "cells_of w3 d = cells_of w d" if "d < ?p" for d using D3(2) D2(2) that by simp
      have p3: "node_at (cells_of w3) ?p [] ?u NULL NULL" using D3(2) v(3) by (simp add: node_at_def)
      have pf: "?p < fresh w3" using p3 D3(1) by (auto simp: node_at_def store_ok_def)
      have r3: "cells_of w3 r = Some nr" "r < fresh w3" "r \<noteq> ?p" using same3 rp nr(1) pf by auto
      have "trie_at (cells_of w3) c" using c trie_at_cong [of c "cells_of w3" "cells_of w"] same3 trie_at_fresh [OF c ok] by simp
      from clone_chain_ok [OF szm this S(4) PTRDIFF_pred D3(1)] obtain q w4 where
        c4: "radixmap_node_clone_chain ?m (tptr c) w3 = Some (q, w4)" "cloned ?m w3 c q w4" by blast
      from clone_child_ok [OF D3(1) pf p3 r3(1) N(1) r3(2,3) c4, unfolded cfm] obtain w5 where
        w5: "write_link (Child_field (Ptr ?p)) q w4 = Some w5" "get_node (Ptr r) w5 = Some nr" "fresh w5 \<le> fresh w3 + length (knots c)"
          "\<forall>d < fresh w3. d \<noteq> ?p \<longrightarrow> cells_of w5 d = cells_of w3 d"
        and cres: "(\<exists>c'. q = tptr c' \<and> twin ?f c c' \<and> becomes w3 w5 (cells_of w5) (2 * int (length (knots c))) []
             \<and> node_at (cells_of w5) ?p [] ?u (tptr c') NULL \<and> trie_at (cells_of w5) c' \<and> separate c' \<and> (\<forall>d \<in> places c'. fresh w3 \<le> d))
         \<or> c \<noteq> Void \<and> q = NULL \<and> (no_fail w3 \<longrightarrow> 40 + x_value_size s \<le> PTRDIFF_MAX \<longrightarrow> fresh w3 + length (knots c) \<le> SIZE_MAX \<longrightarrow> False)
           \<and> (\<exists>w6 ds. radixmap_node_free_chain ?m (Ptr ?p) w5 = Some w6 \<and> fresh w6 = fresh w5
               \<and> becomes w3 w6 (cells_of w6) (- 2) (log_if ?d (ds @ old ?u))
               \<and> (\<forall>d < fresh w3. d \<noteq> ?p \<longrightarrow> cells_of w6 d = cells_of w3 d)
               \<and> mset ds \<subseteq># mset (map (copied ?f) (vals c)))" by (elim exE conjE) (rule that)
      note facts3 = v(1) r0(2) r3(1) N(1) c4(1) w5(1,2)
      from cres show ?thesis
      proof (elim disjE conjE exE)
        fix w6 ds
        assume f: "c \<noteq> Void" "q = NULL" "no_fail w3 \<longrightarrow> 40 + x_value_size s \<le> PTRDIFF_MAX \<longrightarrow> fresh w3 + length (knots c) \<le> SIZE_MAX \<longrightarrow> False"
          "radixmap_node_free_chain ?m (Ptr ?p) w5 = Some w6" "becomes w3 w6 (cells_of w6) (- 2) (log_if ?d (ds @ old ?u))"
          "\<forall>d < fresh w3. d \<noteq> ?p \<longrightarrow> cells_of w6 d = cells_of w3 d" "mset ds \<subseteq># mset (map (copied ?f) (vals c))"
        have "becomes w w6 (cells_of w6) 0 (log_if ?d (ds @ old ?u))" by (rule becomes_trans [OF b3 f(5)]) simp_all
        moreover have "mset (ds @ old ?u) \<subseteq># image_mset (copied ?f) (range_mset (map_of (ents S)))"
          unfolding range using f(7) by (cases u) simp_all
        ultimately have "\<exists>es. becomes w w6 (cells_of w6) 0 (log_if ?d es)
          \<and> mset es \<subseteq># image_mset (copied ?f) (range_mset (map_of (ents S)))" by blast
        moreover have "\<forall>d < ?p. cells_of w6 d = cells_of w d" using f(6) same3 pf by simp
        moreover have "copy_temp s w = Some ((- 1, ?m), w6)" using facts3 f(1,2,4) by (simp add: run0 radixmap_destroy_def)
        moreover have "fresh w3 + length (knots c) \<le> fresh w + length (knots S)" using w3(2) w2(3) i(3) S(1) by simp
        ultimately show ?thesis using f(3) becomesD(6) [OF b3] by (intro exI [of _ "- 1"] exI [of _ ?m] exI [of _ w6]) auto
      next
        fix c'
        assume c': "q = tptr c'" "twin ?f c c'" "becomes w3 w5 (cells_of w5) (2 * int (length (knots c))) []"
          "node_at (cells_of w5) ?p [] ?u (tptr c') NULL" "trie_at (cells_of w5) c'" "separate c'" "\<forall>d \<in> places c'. fresh w3 \<le> d"
        let ?T = "Knot ?p [] ?u c' Void"
        have M: "map_of (ents ?T) = copies_values ?f (map_of (ents S))" unfolding S(1) by (rule twin_map [OF c'(2)])
        have "?p \<notin> places c'" using c'(7) pf by auto
        then have "separate ?T" using c'(6) by simp
        moreover have "good (PTRDIFF_MAX - 1) c'" by (rule twin_good [OF c'(2) S(4)])
        moreover have "x_size ?m = card (dom (map_of (ents ?T)))" unfolding M using S(5,6) by simp
        ultimately have "radix_rel ?m w5 ?T"
          unfolding radix_rel_def using becomesD(1) [OF c'(3)] szm c'(4,5) r0(2) by (simp add: knot_at_def)
        moreover have "becomes w w5 (cells_of w5) (2 * int (length (knots ?T))) []"
          by (rule becomes_trans [OF b3 c'(3)]) (simp_all add: twin_knots [OF c'(2)])
        moreover have "\<forall>d \<in> places ?T. ?p \<le> d" using c'(7) pf by auto
        ultimately have "\<exists>T. radix_rel ?m w5 T \<and> map_of (ents T) = copies_values ?f (map_of (ents S)) \<and> (\<forall>d \<in> places T. ?p \<le> d)
            \<and> becomes w w5 (cells_of w5) (2 * int (length (knots T))) []" using M by blast
        moreover have "\<forall>d < ?p. cells_of w5 d = cells_of w d" using w5(4) same3 pf by simp
        moreover have "copy_temp s w = Some ((0, ?m), w5)" using facts3 c'(1,2) by (auto simp: run0)
        moreover have "radix_conf ?m = radix_conf s" using i(2) by simp
        ultimately show ?thesis by blast
      qed
    qed
  qed
qed

end
