(* ===== verification/Radix_Props.thy ===== *)
theory Radix_Props
  imports Radix_Copy
begin

text \<open>
  The properties of \<open>src/radixmap.c\<close>: histories, prefix search and copies.
\<close>

section \<open>Reading a map\<close>

text \<open>The value at an address that \<open>radixmap_at\<close> returned.\<close>

definition stored_at :: "nat ptr \<Rightarrow> 'v rworld \<Rightarrow> 'v option" where
  "stored_at q w = do { n \<leftarrow> get_node q w; if x_has_value n then x_value n else None }"

definition reads :: "'v radixmap \<Rightarrow> 'v rworld \<Rightarrow> (bytes \<rightharpoonup> 'v) \<Rightarrow> bytes \<Rightarrow> bool" where
  "reads m w M k \<longleftrightarrow> radixmap_contains (Ptr m) (Ptr k) w = Some (if k \<in> dom M then 1 else 0)
     \<and> (\<exists>q. radixmap_at (Ptr m) (Ptr k) w = Some q \<and> (q = NULL \<longleftrightarrow> M k = None) \<and> (q \<noteq> NULL \<longrightarrow> stored_at q w = M k))
     \<and> radixmap_has_prefix (Ptr m) (Ptr k) w = Some (if \<exists>j \<in> dom M. prefix k j then 1 else 0)"

lemma reads_ok:
  assumes rel: "radix_rel m w t" and k: "0 \<notin> set k"
  shows "reads m w (map_of (ents t)) k"
proof -
  have "radixmap_contains (Ptr m) (Ptr k) w = Some (if k \<in> dom (map_of (ents t)) then 1 else 0)"
    using radixmap_contains_ok [OF assms] by (simp add: domIff)
  moreover have "\<exists>q. radixmap_at (Ptr m) (Ptr k) w = Some q \<and> (q = NULL \<longleftrightarrow> map_of (ents t) k = None)
      \<and> (q \<noteq> NULL \<longrightarrow> stored_at q w = map_of (ents t) k)"
    using radixmap_at_ok [OF assms] by (auto simp: stored_at_def split: option.splits)
  ultimately show ?thesis unfolding reads_def using radixmap_has_prefix_ok [OF assms] by blast
qed

lemma radix_size_ok: "radix_rel m w t \<Longrightarrow> radixmap_size m = card (dom (map_of (ents t)))"
  by (simp add: radix_rel_def radixmap_size_def)

text \<open>A history from a freshly initialised map, up to its destruction.\<close>

lemma radix_history_run:
  assumes rel: "radix_rel m w t" and M: "map_of (ents t) = Map.empty" and ops: "\<forall>op \<in> set ops. radix_legal (radix_conf m) op"
  shows "\<exists>rcs m' w1 t' ds p w2. run radix_exec ops m w = Some (rcs, m', w1) \<and> radix_rel m' w1 t' \<and> radix_conf m' = radix_conf m
    \<and> explains (map_spec (x_value_copy m)) ops rcs Map.empty (map_of (ents t')) ds
    \<and> destroyed w1 = destroyed w @ log_if (x_value_destroy m) ds
    \<and> radixmap_destroy (Ptr m') w1 = Some (p, w2) \<and> destroyed w2 = destroyed w @ log_if (x_value_destroy m) (ds @ vals t')
    \<and> mset (vals t') = range_mset (map_of (ents t')) \<and> mset (ds @ vals t') = stored (map_stores (x_value_copy m)) ops rcs
    \<and> live w2 = live w - 2 * int (length (knots t)) \<and> store_ok w2"
proof -
  have hold: "radix_map m w Map.empty" using rel M by (auto simp: radix_map_def)
  from radm.run_explained [OF hold ops] obtain rcs m' w1 M' ds where
    r: "run radix_exec ops m w = Some (rcs, m', w1)" "radix_conf m' = radix_conf m"
      "live w1 - radix_own m' w1 = live w - radix_own m w" "radix_map m' w1 M'"
      "explains (map_spec (rc_copies (radix_conf m))) ops rcs Map.empty M' ds"
      "destroyed w1 = destroyed w @ log_if (rc_destroys (radix_conf m)) ds" by (elim exE conjE) (rule that)
  from r(4) obtain t' where t': "radix_rel m' w1 t'" "map_of (ents t') = M'" by (auto simp: radix_map_def)
  from radixmap_destroy_ok [OF t'(1)] obtain w2 where
    d: "radixmap_destroy (Ptr m') w1 = Some (Ptr raw_radixmap, w2)" "becomes w1 w2 (cells_of w1 |` (- places t'))
      (- 2 * int (length (knots t'))) (log_if (x_value_destroy m') (vals t'))" by blast
  note D = becomesD [OF d(2)]
  have cf: "x_value_destroy m' = x_value_destroy m" using r(2) by (simp add: radix_conf_def)
  have st: "mset (ds @ vals t') = stored (map_stores (x_value_copy m)) ops rcs"
    using radm.explains_conserves [OF r(5)] vals_range [OF t'(1)] t'(2) by (simp add: ac_simps)
  have "live w2 = live w - 2 * int (length (knots t))" using D(4) r(3) radix_own_ok [OF rel] radix_own_ok [OF t'(1)] by simp
  moreover have "destroyed w2 = destroyed w @ log_if (x_value_destroy m) (ds @ vals t')" using D(5) r(6) cf by (simp add: log_if_def)
  ultimately show ?thesis using r(1,2,5,6) t' d(1) D(1) st vals_range [OF t'(1)]
    by (intro exI [of _ rcs] exI [of _ m'] exI [of _ w1] exI [of _ t'] exI [of _ ds] exI [of _ "Ptr raw_radixmap"] exI [of _ w2]) simp
qed

text \<open>A history without failures.\<close>

lemma map_spec_ideal: "map_spec f op M rc M' ds \<Longrightarrow> map_ideal f op M = (rc, M')"
  by (cases op) (auto simp: map_spec_def)

lemma radix_run_exact:
  "radix_rel m w t \<Longrightarrow> \<forall>op \<in> set ops. radix_legal (radix_conf m) op \<Longrightarrow> no_fail w \<Longrightarrow> packed t \<Longrightarrow>
    40 + x_value_size m \<le> PTRDIFF_MAX \<Longrightarrow> fresh w + 2 * length ops \<le> SIZE_MAX \<Longrightarrow>
    \<exists>m' w' t'. run radix_exec ops m w = Some (fst (ideal_run (x_value_copy m) ops (map_of (ents t))), m', w') \<and> radix_rel m' w' t'
      \<and> map_of (ents t') = snd (ideal_run (x_value_copy m) ops (map_of (ents t))) \<and> packed t'"
proof (induction ops arbitrary: m w t)
  case (Cons op ops)
  have room: "radix_room m w" using Cons.prems(5,6) by (simp add: radix_room_def)
  have legal: "radix_legal (radix_conf m) op" using Cons.prems(2) by simp
  from radix_exec_ok [OF Cons.prems(1) legal] obtain rc m1 w1 t1 ds where
    e: "radix_exec op m w = Some (rc, m1, w1)" "radix_step m w t m1 w1 t1 ds" "fresh w1 \<le> fresh w + 2"
      "no_fail w \<longrightarrow> radix_room m w \<longrightarrow> rc = 0 \<or> (\<exists>k. op = Remove k \<and> map_of (ents t) k = None)"
      "map_spec (x_value_copy m) op (map_of (ents t)) rc (map_of (ents t1)) ds \<or> rc = - 1 \<and> t1 = t \<and> ds = []" by (elim exE conjE) (rule that)
  note D = radix_stepD [OF e(2)]
  have cf: "x_value_copy m1 = x_value_copy m" "x_value_size m1 = x_value_size m" using D(1) by (simp_all add: radix_conf_def)
  have id: "map_ideal (x_value_copy m) op (map_of (ents t)) = (rc, map_of (ents t1))"
    using e(5)
  proof
    assume "map_spec (x_value_copy m) op (map_of (ents t)) rc (map_of (ents t1)) ds"
    then show ?thesis by (rule map_spec_ideal)
  next
    assume "rc = - 1 \<and> t1 = t \<and> ds = []"
    then show ?thesis using e(4) Cons.prems(3) room by (auto simp: fun_upd_idem)
  qed
  have nf: "no_fail w1" using D(5) Cons.prems(3) by blast
  have pk: "packed t1" using D(8) Cons.prems(3,4) by blast
  have rest: "\<forall>op \<in> set ops. radix_legal (radix_conf m1) op" "40 + x_value_size m1 \<le> PTRDIFF_MAX" "fresh w1 + 2 * length ops \<le> SIZE_MAX"
    using Cons.prems(2,5,6) D(1) cf e(3) by simp_all
  from Cons.IH [OF D(2) rest(1) nf pk rest(2,3)] obtain m' w' t' where
    r: "run radix_exec ops m1 w1 = Some (fst (ideal_run (x_value_copy m) ops (map_of (ents t1))), m', w')" "radix_rel m' w' t'"
      "map_of (ents t') = snd (ideal_run (x_value_copy m) ops (map_of (ents t1)))" "packed t'" unfolding cf by blast
  have "ideal_run (x_value_copy m) (op # ops) (map_of (ents t))
      = (rc # fst (ideal_run (x_value_copy m) ops (map_of (ents t1))), snd (ideal_run (x_value_copy m) ops (map_of (ents t1))))"
    by (simp add: id split: prod.split)
  then show ?case using e(1) r by (intro exI [of _ m'] exI [of _ w'] exI [of _ t']) simp
qed auto

lemma packed_count:
  assumes rel: "radix_rel m w t" and pk: "packed t"
  shows "\<exists>n. node_count (x_root m) w = Some n \<and> n \<le> 2 * radixmap_size m + 1"
proof -
  from rel obtain r u c where t: "t = Knot r [] u c Void" "x_root m = Ptr r" "knot_at (cells_of w) r [] u c NULL" "good (PTRDIFF_MAX - 1) c"
    "map_of (ents t) = value_below u c" "x_size m = card (dom (value_below u c))" by (rule radix_relE)
  have "trie_at (cells_of w) t" using t(1,3) by (simp add: knot_at_def)
  from node_count_ok [OF this] have "node_count (x_root m) w = Some (length (knots t))" using t(1,2) by simp
  moreover have "distinct (map fst (ents t))" using distinct_top [OF t(4), of r u] t(1) by simp
  then have "card (dom (map_of (ents t))) = length (ents t)" by (simp add: dom_map_of_conv_image_fst distinct_card flip: set_map)
  moreover have "length (ents c) \<le> length (ents t)" using t(1) by simp
  moreover have "length (knots c) \<le> 2 * length (ents c)" using compact_bound [of c] pk t(1) by simp
  ultimately show ?thesis using t(1) radix_size_ok [OF rel] by simp
qed

section \<open>Properties\<close>

text \<open>C20: a radix map is initialised, or \<open>radixmap_init\<close> returns \<open>- 1\<close> and holds no block. Every history
  of \<open>radixmap_set\<close>, \<open>radixmap_delete\<close> and \<open>radixmap_clear\<close> on the map then runs to its end without
  following a dangling pointer, under any failures of the allocator and the copy callback, through all
  splits and merges of nodes. It behaves like a finite map from strings: each call has its effect, or
  returns \<open>- 1\<close> and leaves the entries alone. Lookups and the size then read that map, and
  \<open>radixmap_has_prefix\<close> returns \<open>1\<close> exactly for the prefixes of its keys. Destroying the map releases
  the rest: with a destroy callback every value that a successful call stored has been destroyed
  exactly once, and no node, no segment and no other block stays allocated.\<close>

theorem radixmap_history:
  assumes sz: "0 < vs" "40 + vs \<le> SIZE_MAX" and w: "store_ok w" and ops: "\<forall>op \<in> set ops. radix_legal (vs, d, f) op"
  shows "\<exists>rc m w0. radixmap_init (Ptr raw_radixmap) vs d f w = Some (rc, Ptr m, w0)
    \<and> (rc = - 1 \<and> live w0 = live w
       \<or> rc = 0 \<and> (\<exists>rcs m' w1 M ds zs p w2. run radix_exec ops m w0 = Some (rcs, m', w1) \<and> explains (map_spec f) ops rcs Map.empty M ds
           \<and> destroyed w1 = destroyed w @ log_if d ds \<and> radixmap_size m' = card (dom M) \<and> (\<forall>k. 0 \<notin> set k \<longrightarrow> reads m' w1 M k)
           \<and> radixmap_destroy (Ptr m') w1 = Some (p, w2) \<and> destroyed w2 = destroyed w @ log_if d (ds @ zs)
           \<and> mset zs = range_mset M \<and> mset (ds @ zs) = stored (map_stores f) ops rcs \<and> live w2 = live w))"
proof -
  from radixmap_init_ok [OF w sz, of raw_radixmap d f] obtain rc m w0 where
    i: "radixmap_init (Ptr raw_radixmap) vs d f w = Some (rc, Ptr m, w0)" "radix_conf m = (vs, d, f)"
    and res: "rc = - 1 \<and> x_root m = NULL \<and> becomes w w0 (cells_of w) 0 []
       \<or> rc = 0 \<and> x_root m = Ptr (fresh w) \<and> radix_rel m w0 (Knot (fresh w) [] None Void Void)
         \<and> becomes w w0 ((cells_of w)(fresh w \<mapsto> blank [])) 2 []" by (elim exE conjE) (rule that)
  from res show ?thesis
  proof (elim disjE conjE)
    assume "rc = - 1" "becomes w w0 (cells_of w) 0 []"
    then show ?thesis using i(1) becomesD(4) by fastforce
  next
    assume r0: "rc = 0" "radix_rel m w0 (Knot (fresh w) [] None Void Void)" and b: "becomes w w0 ((cells_of w)(fresh w \<mapsto> blank [])) 2 []"
    have cf: "x_value_destroy m = d" "x_value_copy m = f" using i(2) by (simp_all add: radix_conf_def)
    from radix_history_run [OF r0(2) _ ops [folded i(2)]] obtain rcs m' w1 t' ds p w2 where
      r: "run radix_exec ops m w0 = Some (rcs, m', w1)" "radix_rel m' w1 t'"
        "explains (map_spec f) ops rcs Map.empty (map_of (ents t')) ds" "destroyed w1 = destroyed w0 @ log_if d ds"
        "radixmap_destroy (Ptr m') w1 = Some (p, w2)" "destroyed w2 = destroyed w0 @ log_if d (ds @ vals t')"
        "mset (vals t') = range_mset (map_of (ents t'))" "mset (ds @ vals t') = stored (map_stores f) ops rcs" "live w2 = live w0 - 2"
      unfolding cf by auto
    have "destroyed w0 = destroyed w" "live w0 = live w + 2" using becomesD(4,5) [OF b] by simp_all
    then have "\<exists>rcs m' w1 M ds zs p w2. run radix_exec ops m w0 = Some (rcs, m', w1) \<and> explains (map_spec f) ops rcs Map.empty M ds
           \<and> destroyed w1 = destroyed w @ log_if d ds \<and> radixmap_size m' = card (dom M) \<and> (\<forall>k. 0 \<notin> set k \<longrightarrow> reads m' w1 M k)
           \<and> radixmap_destroy (Ptr m') w1 = Some (p, w2) \<and> destroyed w2 = destroyed w @ log_if d (ds @ zs)
           \<and> mset zs = range_mset M \<and> mset (ds @ zs) = stored (map_stores f) ops rcs \<and> live w2 = live w"
      using r reads_ok [OF r(2)] radix_size_ok [OF r(2)]
      by (intro exI [of _ rcs] exI [of _ m'] exI [of _ w1] exI [of _ "map_of (ents t')"] exI [of _ ds] exI [of _ "vals t'"]
        exI [of _ p] exI [of _ w2]) simp
    then show ?thesis using i(1) r0(1) by blast
  qed
qed

definition radix_example_ops :: "(bytes, int) map_op list" where
  "radix_example_ops = [Put [102, 111, 111] 1, Put [102, 111, 120] 2, Put [102] 3, Remove [102, 111, 111], Put [] 4, Put [102, 111, 120] 5]"

lemma radix_example_legal: "\<forall>op \<in> set radix_example_ops. radix_legal cf op"
  by (simp add: radix_example_ops_def radix_legal_def key_legal_def PTRDIFF_MAX_def)

theorem radixmap_history_witness:
  "\<exists>rc m w0. radixmap_init (Ptr raw_radixmap) 4 True None (lscript [True, True, True, True, False] []) = Some (rc, Ptr m, w0)
    \<and> (rc = - 1 \<and> live w0 = live (lscript [True, True, True, True, False] [] :: int rworld)
       \<or> rc = 0 \<and> (\<exists>rcs m' w1 M ds zs p w2. run radix_exec radix_example_ops m w0 = Some (rcs, m', w1)
           \<and> explains (map_spec None) radix_example_ops rcs Map.empty M ds
           \<and> destroyed w1 = destroyed (lscript [True, True, True, True, False] [] :: int rworld) @ log_if True ds
           \<and> radixmap_size m' = card (dom M) \<and> (\<forall>k. 0 \<notin> set k \<longrightarrow> reads m' w1 M k)
           \<and> radixmap_destroy (Ptr m') w1 = Some (p, w2)
           \<and> destroyed w2 = destroyed (lscript [True, True, True, True, False] [] :: int rworld) @ log_if True (ds @ zs)
           \<and> mset zs = range_mset M \<and> mset (ds @ zs) = stored (map_stores None) radix_example_ops rcs
           \<and> live w2 = live (lscript [True, True, True, True, False] [] :: int rworld)))"
  by (rule radixmap_history [OF _ _ lscript_ok radix_example_legal]) (simp_all add: SIZE_MAX_def)

text \<open>C22: \<open>radixmap_copy\<close> builds a deep copy of the source, with the same configuration, on nodes of its
  own and without touching the source, and only then destroys the old contents of the destination.
  When the allocator or the copy callback fails it returns \<open>- 1\<close> with the destination unchanged, and
  the copies that it had made have been destroyed. No block leaks, and without failures the copy
  succeeds.\<close>

theorem radixmap_copy_deep:
  assumes src: "radix_rel s w S" and dst: "radix_rel m w D" and dis: "places D \<inter> places S = {}"
  shows "\<exists>rc m' w' D'. radixmap_copy False (Ptr m) (Ptr s) w = Some (rc, Ptr m', w') \<and> radix_rel s w' S \<and> radix_rel m' w' D'
    \<and> places D' \<inter> places S = {} \<and> live w' - radix_own m' w' = live w - radix_own m w
    \<and> (no_fail w \<longrightarrow> 40 + x_value_size s \<le> PTRDIFF_MAX \<longrightarrow> fresh w + length (knots S) \<le> SIZE_MAX \<longrightarrow> rc = 0)
    \<and> (rc = 0 \<and> radix_conf m' = radix_conf s \<and> map_of (ents D') = copies_values (x_value_copy s) (map_of (ents S))
         \<and> (\<exists>zs. destroyed w' = destroyed w @ log_if (x_value_destroy m) zs \<and> mset zs = range_mset (map_of (ents D)))
       \<or> rc = - 1 \<and> m' = m \<and> D' = D
         \<and> (\<exists>ds. destroyed w' = destroyed w @ log_if (x_value_destroy s) ds
              \<and> mset ds \<subseteq># image_mset (copied (x_value_copy s)) (range_mset (map_of (ents S)))))"
proof -
  from copy_temp_ok [OF src] obtain rc temp w1 where
    c: "copy_temp s w = Some ((rc, temp), w1)" "\<forall>d < fresh w. cells_of w1 d = cells_of w d"
      "no_fail w \<longrightarrow> 40 + x_value_size s \<le> PTRDIFF_MAX \<longrightarrow> fresh w + length (knots S) \<le> SIZE_MAX \<longrightarrow> rc = 0"
    and res: "rc = 0 \<and> radix_conf temp = radix_conf s
         \<and> (\<exists>T. radix_rel temp w1 T \<and> map_of (ents T) = copies_values (x_value_copy s) (map_of (ents S)) \<and> (\<forall>d \<in> places T. fresh w \<le> d)
              \<and> becomes w w1 (cells_of w1) (2 * int (length (knots T))) [])
       \<or> rc \<noteq> 0 \<and> (\<exists>ds. becomes w w1 (cells_of w1) 0 (log_if (x_value_destroy s) ds)
            \<and> mset ds \<subseteq># image_mset (copied (x_value_copy s)) (range_mset (map_of (ents S))))" by (elim exE conjE) (rule that)
  have keep: "radix_rel s w1 S" "radix_rel m w1 D" if "store_ok w1"
    using radix_rel_frame [OF src that] radix_rel_frame [OF dst that] c(2) places_below [OF src] places_below [OF dst] by blast+
  have root: "x_root s \<noteq> NULL" using src by (auto simp: radix_rel_def)
  from res show ?thesis
  proof (elim disjE conjE exE)
    fix ds
    assume f: "rc \<noteq> 0" "becomes w w1 (cells_of w1) 0 (log_if (x_value_destroy s) ds)"
      "mset ds \<subseteq># image_mset (copied (x_value_copy s)) (range_mset (map_of (ents S)))"
    note B = becomesD [OF f(2)]
    have "radixmap_copy False (Ptr m) (Ptr s) w = Some (- 1, Ptr m, w1)" using root c(1) f(1) by (simp add: radixmap_copy_def)
    moreover have "live w1 - radix_own m w1 = live w - radix_own m w" using B(4) radix_own_ok [OF keep(2) [OF B(1)]] radix_own_ok [OF dst] by simp
    ultimately show ?thesis using keep [OF B(1)] c(3) f(1,3) B(5) dis
      by (intro exI [of _ "- 1"] exI [of _ m] exI [of _ w1] exI [of _ D]) auto
  next
    fix T
    assume t: "rc = 0" "radix_conf temp = radix_conf s" "radix_rel temp w1 T" "map_of (ents T) = copies_values (x_value_copy s) (map_of (ents S))"
      "\<forall>d \<in> places T. fresh w \<le> d" "becomes w w1 (cells_of w1) (2 * int (length (knots T))) []"
    note B = becomesD [OF t(6)]
    note K = keep [OF B(1)]
    from radixmap_destroy_ok [OF K(2)] obtain w2 where
      w2: "radixmap_destroy (Ptr m) w1 = Some (Ptr raw_radixmap, w2)" "becomes w1 w2 (cells_of w1 |` (- places D))
        (- 2 * int (length (knots D))) (log_if (x_value_destroy m) (vals D))" by blast
    note B2 = becomesD [OF w2(2)]
    have out: "d \<notin> places D" if "d \<in> places T" for d using t(5) that places_below [OF dst, of d] by auto
    have T2: "radix_rel temp w2 T" by (rule radix_rel_frame [OF t(3) B2(1)]) (use out B2(2) in simp)
    have "d \<notin> places D" if "d \<in> places S" for d using that dis by auto
    then have S2: "radix_rel s w2 S" by (intro radix_rel_frame [OF K(1) B2(1)]) (use B2(2) in simp)
    have disT: "places T \<inter> places S = {}" using t(5) places_below [OF src] by force
    have "live w2 - radix_own temp w2 = live w - radix_own m w" using B(4) B2(4) radix_own_ok [OF T2] radix_own_ok [OF dst] by simp
    moreover have "destroyed w2 = destroyed w @ log_if (x_value_destroy m) (vals D)" using B(5) B2(5) by simp
    moreover have "radixmap_copy False (Ptr m) (Ptr s) w = Some (0, Ptr temp, w2)" using root c(1) t(1) w2(1) by (simp add: radixmap_copy_def)
    ultimately show ?thesis using S2 T2 disT t(2,4) vals_range [OF dst]
      by (intro exI [of _ 0] exI [of _ temp] exI [of _ w2] exI [of _ T]) auto
  qed
qed

definition radix_source :: "int radixmap" where
  "radix_source = \<lparr>x_size = 1, x_value_size = 4, x_value_destroy = True, x_value_copy = Some id, x_root = Ptr 0\<rparr>"

definition radix_target :: "int radixmap" where
  "radix_target = \<lparr>x_size = 0, x_value_size = 4, x_value_destroy = True, x_value_copy = Some id, x_root = Ptr 2\<rparr>"

definition radix_source_trie :: "int trie" where
  "radix_source_trie = Knot 0 [] None (Knot 1 [97, 98] (Some 7) Void Void) Void"

definition radix_target_trie :: "int trie" where
  "radix_target_trie = Knot 2 [] None Void Void"

definition radix_two_maps :: "int rworld" where
  "radix_two_maps = world.extend (script [True, True, True, False] []) \<lparr>cells =
     [0 \<mapsto> \<lparr>x_child = Ptr 1, x_next = NULL, x_segment = [], x_segment_len = 0, x_has_value = False, x_value = None\<rparr>,
      1 \<mapsto> \<lparr>x_child = NULL, x_next = NULL, x_segment = [97, 98], x_segment_len = 2, x_has_value = True, x_value = Some 7\<rparr>,
      2 \<mapsto> blank []], next_cell = 3\<rparr>"

lemma radix_two_maps_ok:
  "radix_rel radix_source radix_two_maps radix_source_trie" "radix_rel radix_target radix_two_maps radix_target_trie"
  "places radix_target_trie \<inter> places radix_source_trie = {}"
proof -
  have w: "store_ok radix_two_maps" "cells_of radix_two_maps = [0 \<mapsto> \<lparr>x_child = Ptr 1, x_next = NULL, x_segment = [], x_segment_len = 0, x_has_value = False, x_value = None\<rparr>,
      1 \<mapsto> \<lparr>x_child = NULL, x_next = NULL, x_segment = [97, 98], x_segment_len = 2, x_has_value = True, x_value = Some 7\<rparr>, 2 \<mapsto> blank []]"
    by (auto simp: radix_two_maps_def store_ok_def cells_of_def fresh_def world.defs SIZE_MAX_def split: if_splits)
  show "radix_rel radix_source radix_two_maps radix_source_trie"
    unfolding radix_rel_def using w
    by (simp add: radix_source_def radix_source_trie_def sizes_ok_def SIZE_MAX_def PTRDIFF_MAX_def knot_at_def node_at_def node_is_def)
  show "radix_rel radix_target radix_two_maps radix_target_trie"
    unfolding radix_rel_def using w
    by (simp add: radix_target_def radix_target_trie_def sizes_ok_def SIZE_MAX_def knot_at_def node_at_def)
  show "places radix_target_trie \<inter> places radix_source_trie = {}"
    by (simp add: radix_source_trie_def radix_target_trie_def)
qed

theorem radixmap_copy_deep_witness:
  "\<exists>rc m' w' D'. radixmap_copy False (Ptr radix_target) (Ptr radix_source) radix_two_maps = Some (rc, Ptr m', w')
    \<and> radix_rel radix_source w' radix_source_trie \<and> radix_rel m' w' D'
    \<and> places D' \<inter> places radix_source_trie = {} \<and> live w' - radix_own m' w' = live radix_two_maps - radix_own radix_target radix_two_maps
    \<and> (no_fail radix_two_maps \<longrightarrow> 40 + x_value_size radix_source \<le> PTRDIFF_MAX
         \<longrightarrow> fresh radix_two_maps + length (knots radix_source_trie) \<le> SIZE_MAX \<longrightarrow> rc = 0)
    \<and> (rc = 0 \<and> radix_conf m' = radix_conf radix_source
         \<and> map_of (ents D') = copies_values (x_value_copy radix_source) (map_of (ents radix_source_trie))
         \<and> (\<exists>zs. destroyed w' = destroyed radix_two_maps @ log_if (x_value_destroy radix_target) zs
              \<and> mset zs = range_mset (map_of (ents radix_target_trie)))
       \<or> rc = - 1 \<and> m' = radix_target \<and> D' = radix_target_trie
         \<and> (\<exists>ds. destroyed w' = destroyed radix_two_maps @ log_if (x_value_destroy radix_source) ds
              \<and> mset ds \<subseteq># image_mset (copied (x_value_copy radix_source)) (range_mset (map_of (ents radix_source_trie)))))"
  by (rule radixmap_copy_deep [OF radix_two_maps_ok])

text \<open>C21: when no allocation and no copy fails, every call of a history makes progress: \<open>radixmap_set\<close>
  and \<open>radixmap_clear\<close> return \<open>0\<close>, \<open>radixmap_delete\<close> returns \<open>0\<close> for a key of the map and \<open>- 1\<close>
  otherwise, the final map has exactly the expected entries, and the trie is compressed: whatever was
  inserted and deleted before, a map with \<open>n\<close> entries has at most \<open>2 * n + 1\<close> nodes.\<close>

theorem radixmap_exact:
  assumes sz: "0 < vs" "40 + vs \<le> PTRDIFF_MAX" and w: "store_ok w" "no_fail w" and room: "fresh w + 2 * length ops + 1 \<le> SIZE_MAX"
    and ops: "\<forall>op \<in> set ops. radix_legal (vs, d, f) op"
  shows "\<exists>m w0 m' w1 n. radixmap_init (Ptr raw_radixmap) vs d f w = Some (0, Ptr m, w0)
    \<and> run radix_exec ops m w0 = Some (fst (ideal_run f ops Map.empty), m', w1)
    \<and> (\<forall>k. 0 \<notin> set k \<longrightarrow> reads m' w1 (snd (ideal_run f ops Map.empty)) k)
    \<and> node_count (x_root m') w1 = Some n \<and> n \<le> 2 * radixmap_size m' + 1"
proof -
  have sz': "40 + vs \<le> SIZE_MAX" using sz(2) SIZE_MAX_PTRDIFF_MAX by simp
  from radixmap_init_ok [OF w(1) sz(1) sz', of raw_radixmap d f] obtain rc m w0 where
    i: "radixmap_init (Ptr raw_radixmap) vs d f w = Some (rc, Ptr m, w0)" "radix_conf m = (vs, d, f)" "fresh w0 \<le> Suc (fresh w)"
      "no_fail w \<longrightarrow> 40 + vs \<le> PTRDIFF_MAX \<longrightarrow> fresh w < SIZE_MAX \<longrightarrow> rc = 0"
    and res: "rc = - 1 \<and> x_root m = NULL \<and> becomes w w0 (cells_of w) 0 []
       \<or> rc = 0 \<and> x_root m = Ptr (fresh w) \<and> radix_rel m w0 (Knot (fresh w) [] None Void Void)
         \<and> becomes w w0 ((cells_of w)(fresh w \<mapsto> blank [])) 2 []" by (elim exE conjE) (rule that)
  have rc: "rc = 0" using i(4) w(2) sz(2) room by simp
  with res have rel: "radix_rel m w0 (Knot (fresh w) [] None Void Void)" and nf: "no_fail w0" using becomesD(6) w(2) by auto
  have cf: "x_value_copy m = f" "x_value_size m = vs" using i(2) by (simp_all add: radix_conf_def)
  have "40 + x_value_size m \<le> PTRDIFF_MAX" "fresh w0 + 2 * length ops \<le> SIZE_MAX" using sz(2) cf i(3) room by simp_all
  from radix_run_exact [OF rel ops [folded i(2)] nf _ this] obtain m' w1 t' where
    r: "run radix_exec ops m w0 = Some (fst (ideal_run f ops Map.empty), m', w1)" "radix_rel m' w1 t'"
      "map_of (ents t') = snd (ideal_run f ops Map.empty)" "packed t'" unfolding cf by auto
  from packed_count [OF r(2,4)] obtain n where "node_count (x_root m') w1 = Some n" "n \<le> 2 * radixmap_size m' + 1" by blast
  then show ?thesis using i(1) rc r(1) reads_ok [OF r(2)] unfolding r(3) by blast
qed

theorem radixmap_exact_witness:
  "\<exists>m w0 m' w1 n. radixmap_init (Ptr raw_radixmap) 4 True None (lscript [] []) = Some (0, Ptr m, w0)
    \<and> run radix_exec radix_example_ops m w0 = Some (fst (ideal_run None radix_example_ops Map.empty), m', w1)
    \<and> (\<forall>k. 0 \<notin> set k \<longrightarrow> reads m' w1 (snd (ideal_run None radix_example_ops Map.empty)) k)
    \<and> node_count (x_root m') w1 = Some n \<and> n \<le> 2 * radixmap_size m' + 1"
  by (rule radixmap_exact [OF _ _ lscript_ok _ _ radix_example_legal])
    (simp_all add: no_fail_def lscript_def script_def world.defs store.defs fresh_def PTRDIFF_MAX_def SIZE_MAX_def radix_example_ops_def)

end
