(* ===== verification/Radix.thy ===== *)
theory Radix
  imports Radix_Props
begin

text \<open>
  \<open>src/radix.c\<close>: the set of strings, a radix map that stores the byte 1 for every member. Every function
  and macro is a definition of the same name. Histories come from the interface \<open>set_wrapper\<close> of
  \<open>Maps\<close>, interpreted on the radix map.
\<close>

section \<open>Model\<close>

record radix =
  rx_map :: "8 word radixmap"

type_synonym rxworld = "8 word rworld"

definition radix_init :: "radix ptr \<Rightarrow> rxworld \<Rightarrow> (int \<times> radix ptr \<times> rxworld) option" where
  "radix_init p w = (case p of NULL \<Rightarrow> Some (- 1, NULL, w) | Ptr s \<Rightarrow> do {
     (rc, q, w1) \<leftarrow> radixmap_init (Ptr (rx_map s)) 1 False None w;
     Some (rc, Ptr (s\<lparr>rx_map := pt q\<rparr>), w1) })"

definition radix_destroy :: "radix ptr \<Rightarrow> rxworld \<Rightarrow> (radix ptr \<times> rxworld) option" where
  "radix_destroy p w = (case p of NULL \<Rightarrow> Some (NULL, w) | Ptr s \<Rightarrow> do {
     (q, w1) \<leftarrow> radixmap_destroy (Ptr (rx_map s)) w;
     Some (Ptr (s\<lparr>rx_map := pt q\<rparr>), w1) })"

definition raw_radix :: radix where
  "raw_radix = \<lparr>rx_map = raw_radixmap\<rparr>"

definition radix_new :: "rxworld \<Rightarrow> (radix ptr \<times> rxworld) option" where
  "radix_new w =
     (let (ok, w1) = malloc 40 w in
      if \<not> ok then Some (NULL, w1)
      else do {
        (rc, p, w2) \<leftarrow> radix_init (Ptr raw_radix) w1;
        Some (if rc \<noteq> 0 then (NULL, free_block w2) else (p, w2)) })"

definition radix_free :: "radix ptr \<Rightarrow> rxworld \<Rightarrow> rxworld option" where
  "radix_free p w = (case p of NULL \<Rightarrow> Some w | Ptr _ \<Rightarrow> do {
     (_, w1) \<leftarrow> radix_destroy p w; Some (free_block w1) })"

definition radix_copy :: "bool \<Rightarrow> radix ptr \<Rightarrow> radix ptr \<Rightarrow> rxworld \<Rightarrow> (int \<times> radix ptr \<times> rxworld) option" where
  "radix_copy same dst src w =
     (if dst = NULL \<or> src = NULL then Some (- 1, dst, w)
      else do {
        (rc, q, w1) \<leftarrow> radixmap_copy same (Ptr (rx_map (pt dst))) (Ptr (rx_map (pt src))) w;
        Some (rc, Ptr ((pt dst)\<lparr>rx_map := pt q\<rparr>), w1) })"

definition radix_clone :: "radix ptr \<Rightarrow> rxworld \<Rightarrow> (radix ptr \<times> rxworld) option" where
  "radix_clone src w = (case src of NULL \<Rightarrow> Some (NULL, w) | Ptr s \<Rightarrow> do {
     (copy, w1) \<leftarrow> radix_new w;
     if copy = NULL then Some (NULL, w1)
     else do {
       (rc, copy1, w2) \<leftarrow> radix_copy False copy src w1;
       if rc \<noteq> 0 then do { w3 \<leftarrow> radix_free copy1 w2; Some (NULL, w3) } else Some (copy1, w2) } })"

definition radix_add :: "radix ptr \<Rightarrow> bytes ptr \<Rightarrow> rxworld \<Rightarrow> (int \<times> radix ptr \<times> rxworld) option" where
  "radix_add p key w = (case p of NULL \<Rightarrow> Some (- 1, NULL, w) | Ptr s \<Rightarrow> do {
     (rc, q, w1) \<leftarrow> radixmap_set (Ptr (rx_map s)) key (Ptr 1) w;
     Some (rc, Ptr (s\<lparr>rx_map := pt q\<rparr>), w1) })"

definition radix_contains :: "radix ptr \<Rightarrow> bytes ptr \<Rightarrow> rxworld \<Rightarrow> int option" where
  "radix_contains p key w = (case p of NULL \<Rightarrow> Some 0 | Ptr s \<Rightarrow> radixmap_contains (Ptr (rx_map s)) key w)"

definition radix_delete :: "radix ptr \<Rightarrow> bytes ptr \<Rightarrow> rxworld \<Rightarrow> (int \<times> radix ptr \<times> rxworld) option" where
  "radix_delete p key w = (case p of NULL \<Rightarrow> Some (- 1, NULL, w) | Ptr s \<Rightarrow> do {
     (rc, q, w1) \<leftarrow> radixmap_delete (Ptr (rx_map s)) key w;
     Some (rc, Ptr (s\<lparr>rx_map := pt q\<rparr>), w1) })"

definition radix_clear :: "radix ptr \<Rightarrow> rxworld \<Rightarrow> (radix ptr \<times> rxworld) option" where
  "radix_clear p w = (case p of NULL \<Rightarrow> Some (NULL, w) | Ptr s \<Rightarrow> do {
     (q, w1) \<leftarrow> radixmap_clear (Ptr (rx_map s)) w;
     Some (Ptr (s\<lparr>rx_map := pt q\<rparr>), w1) })"

definition radix_has_prefix :: "radix ptr \<Rightarrow> bytes ptr \<Rightarrow> rxworld \<Rightarrow> int option" where
  "radix_has_prefix p pre w = (case p of NULL \<Rightarrow> Some 0 | Ptr s \<Rightarrow> radixmap_has_prefix (Ptr (rx_map s)) pre w)"

definition radix_empty :: "radix \<Rightarrow> bool" where "radix_empty s = radixmap_empty (rx_map s)"
definition radix_size :: "radix \<Rightarrow> size_t" where "radix_size s = radixmap_size (rx_map s)"

section \<open>The machine\<close>

definition strings_exec :: "bytes set_op \<Rightarrow> radix \<Rightarrow> rxworld \<Rightarrow> (int \<times> radix \<times> rxworld) option" where
  "strings_exec op s w = (case op of
       Add k \<Rightarrow> map_option (\<lambda>(rc, p, w1). (rc, pt p, w1)) (radix_add (Ptr s) (Ptr k) w)
     | Drop k \<Rightarrow> map_option (\<lambda>(rc, p, w1). (rc, pt p, w1)) (radix_delete (Ptr s) (Ptr k) w)
     | Empty \<Rightarrow> map_option (\<lambda>(p, w1). (0, pt p, w1)) (radix_clear (Ptr s) w)
     | Room n \<Rightarrow> Some (- 1, s, w))"

interpretation rset: set_wrapper radix_exec rc_copies radix_legal radix_map radix_conf rc_destroys radix_own strings_exec rx_map radix.make
proof (unfold_locales, goal_cases)
  case (1 op s w)
  show ?case
    by (cases s; cases op) (auto simp: strings_exec_def radix_exec_def radix_add_def radix_delete_def radix_clear_def
        radix.make_def split: Option.bind_split)
next
  case (2 c)
  show ?case by (simp add: radix.make_def)
qed

section \<open>Properties\<close>

definition set_reads :: "radix \<Rightarrow> rxworld \<Rightarrow> bytes set \<Rightarrow> bytes \<Rightarrow> bool" where
  "set_reads s w S k \<longleftrightarrow> radix_contains (Ptr s) (Ptr k) w = Some (if k \<in> S then 1 else 0)
     \<and> radix_has_prefix (Ptr s) (Ptr k) w = Some (if \<exists>j \<in> S. prefix k j then 1 else 0)"

text \<open>C23: a set of strings is initialised, or \<open>radix_init\<close> returns \<open>- 1\<close> and holds no block. Every
  history of additions, deletions and clears then runs without undefined behaviour under any allocation
  failures and behaves like a mathematical set, each call having its effect or returning \<open>- 1\<close> without
  one. Membership tests, prefix tests and the size then read that set, and destroying it leaves no
  block allocated.\<close>

theorem radix_history:
  assumes w: "store_ok w" and ops: "\<forall>op \<in> set ops. radix_legal (1, False, None) (as_map_op op)"
  shows "\<exists>rc s w0. radix_init (Ptr raw_radix) w = Some (rc, Ptr s, w0)
    \<and> (rc = - 1 \<and> live w0 = live w
       \<or> rc = 0 \<and> (\<exists>rcs s' w1 S p w2. run strings_exec ops s w0 = Some (rcs, s', w1) \<and> explains set_spec ops rcs {} S []
           \<and> radix_size s' = card S \<and> (\<forall>k. 0 \<notin> set k \<longrightarrow> set_reads s' w1 S k)
           \<and> radix_destroy (Ptr s') w1 = Some (p, w2) \<and> live w2 = live w))"
proof -
  have "0 < (1 :: nat)" "40 + 1 \<le> SIZE_MAX" by (simp_all add: SIZE_MAX_def)
  from radixmap_init_ok [OF w this, of raw_radixmap False None] obtain rc m w0 where
    i: "radixmap_init (Ptr raw_radixmap) 1 False None w = Some (rc, Ptr m, w0)" "radix_conf m = (1, False, None)"
    and res: "rc = - 1 \<and> x_root m = NULL \<and> becomes w w0 (cells_of w) 0 []
       \<or> rc = 0 \<and> x_root m = Ptr (fresh w) \<and> radix_rel m w0 (Knot (fresh w) [] None Void Void)
         \<and> becomes w w0 ((cells_of w)(fresh w \<mapsto> blank [])) 2 []" by (elim exE conjE) (rule that)
  let ?s = "\<lparr>rx_map = m\<rparr>"
  have init: "radix_init (Ptr raw_radix) w = Some (rc, Ptr ?s, w0)" using i(1) by (simp add: radix_init_def raw_radix_def)
  from res show ?thesis
  proof (elim disjE conjE)
    assume "rc = - 1" "becomes w w0 (cells_of w) 0 []"
    then show ?thesis using init becomesD(4) by fastforce
  next
    assume r0: "rc = 0" "radix_rel m w0 (Knot (fresh w) [] None Void Void)" and b: "becomes w w0 ((cells_of w)(fresh w \<mapsto> blank [])) 2 []"
    have "radix_map m w0 Map.empty" unfolding radix_map_def using r0(2) by (intro exI conjI) auto
    then have hold: "rset.set_rel ?s w0 {}" using i(2) by (auto simp: rset.set_rel_def)
    have lg: "\<forall>op \<in> set ops. radix_legal (radix_conf (rx_map ?s)) (as_map_op op)" using ops i(2) by simp
    from rset.sets.run_explained [OF hold lg] obtain rcs s' w1 S ds where
      r: "run strings_exec ops ?s w0 = Some (rcs, s', w1)" "radix_conf (rx_map s') = radix_conf (rx_map ?s)"
        "live w1 - radix_own (rx_map s') w1 = live w0 - radix_own (rx_map ?s) w0" "rset.set_rel s' w1 S"
        "explains set_spec ops rcs {} S ds" "destroyed w1 = destroyed w0 @ log_if False ds" by (elim exE conjE) (rule that)
    from r(4) obtain t where t: "radix_rel (rx_map s') w1 t" "dom (map_of (ents t)) = S" by (auto simp: rset.set_rel_def radix_map_def)
    from radixmap_destroy_ok [OF t(1)] obtain w2 where
      d: "radixmap_destroy (Ptr (rx_map s')) w1 = Some (Ptr raw_radixmap, w2)" "becomes w1 w2 (cells_of w1 |` (- places t))
        (- 2 * int (length (knots t))) (log_if (x_value_destroy (rx_map s')) (vals t))" by blast
    have "ds = []" using r(5) by (rule explains_no_log) (simp add: set_spec_def)
    moreover have "live w2 = live w"
      using becomesD(4) [OF b] becomesD(4) [OF d(2)] r(3) radix_own_ok [OF t(1)] radix_own_ok [OF r0(2)] by simp
    moreover have "set_reads s' w1 S k" if "0 \<notin> set k" for k
      using reads_ok [OF t(1) that] t(2) by (simp add: set_reads_def reads_def radix_contains_def radix_has_prefix_def)
    moreover have "radix_size s' = card S" using radix_size_ok [OF t(1)] t(2) by (simp add: radix_size_def)
    ultimately show ?thesis using init r0(1) r(1,5) d(1)
      by (intro exI [of _ rc] exI [of _ ?s] exI [of _ w0] conjI disjI2 exI [of _ rcs] exI [of _ s'] exI [of _ w1] exI [of _ S]
          exI [of _ "Ptr (s'\<lparr>rx_map := raw_radixmap\<rparr>)"] exI [of _ w2]) (simp_all add: radix_destroy_def)
  qed
qed

theorem radix_history_witness:
  "\<exists>rc s w0. radix_init (Ptr raw_radix) (lscript [True, True, True, True, False] []) = Some (rc, Ptr s, w0)
    \<and> (rc = - 1 \<and> live w0 = live (lscript [True, True, True, True, False] [] :: rxworld)
       \<or> rc = 0 \<and> (\<exists>rcs s' w1 S p w2.
           run strings_exec [Add [102, 111, 111], Add [102, 111, 120], Add [102], Drop [102, 111, 111], Empty, Add []] s w0 = Some (rcs, s', w1)
           \<and> explains set_spec [Add [102, 111, 111], Add [102, 111, 120], Add [102], Drop [102, 111, 111], Empty, Add []] rcs {} S []
           \<and> radix_size s' = card S \<and> (\<forall>k. 0 \<notin> set k \<longrightarrow> set_reads s' w1 S k)
           \<and> radix_destroy (Ptr s') w1 = Some (p, w2) \<and> live w2 = live (lscript [True, True, True, True, False] [] :: rxworld)))"
  by (rule radix_history [OF lscript_ok]) (simp add: radix_legal_def key_legal_def PTRDIFF_MAX_def)

end
