(* ===== verification/Sds.thy ===== *)
theory Sds
  imports Machine Store Cstring
begin

text \<open>
  \<open>src/sds.c\<close>: strings with a header in front of their bytes. Headers live in the store of the world, an
  \<open>sds\<close> is the address of its header, and every function of the file is a definition of the same name,
  so a string that was freed or moved by \<open>realloc\<close> is a dangling address. A failed \<open>assert\<close> is a fault.
  Arguments of type \<open>const char *\<close> and \<open>const void *\<close> are regions outside of the strings.
\<close>

section \<open>Headers\<close>

record sdshdr =
  h_len :: size_t
  h_alloc :: size_t
  h_buf :: "8 word option list"

type_synonym sds = "nat ptr"
type_synonym sds_world = "(unit, sdshdr) nworld"

definition SDS_MAX_PREALLOC :: size_t where
  "SDS_MAX_PREALLOC = 1024"

text \<open>The header has 16 bytes.\<close>

definition SDS_BYTES :: "size_t \<Rightarrow> size_t" where
  "SDS_BYTES n = sz_add (sz_add n 16) 1"

definition SDS_HDR :: "sds \<Rightarrow> sds_world \<Rightarrow> sdshdr option" where
  "SDS_HDR s w = get_node s w"

text \<open>Copying bytes to an offset of the buffer of a string, and setting the length.\<close>

definition sds_write :: "sds \<Rightarrow> nat \<Rightarrow> bytes \<Rightarrow> sds_world \<Rightarrow> sds_world option" where
  "sds_write s i xs w = do { h \<leftarrow> SDS_HDR s w; b \<leftarrow> mem_write (h_buf h) i xs; put_node s (h\<lparr>h_buf := b\<rparr>) w }"

definition sds_set_len :: "sds \<Rightarrow> size_t \<Rightarrow> sds_world \<Rightarrow> sds_world option" where
  "sds_set_len s n w = modify s (h_len_update (\<lambda>_. n)) w"

text \<open>A block of \<open>bytes\<close> bytes from \<open>malloc\<close>. The code writes the header next, so a shorter block is a
  fault.\<close>

definition raw_hdr :: "size_t \<Rightarrow> sdshdr" where
  "raw_hdr bytes = \<lparr>h_len = 0, h_alloc = 0, h_buf = replicate (bytes - 16) None\<rparr>"

definition malloc_hdr :: "size_t \<Rightarrow> sds_world \<Rightarrow> (sds \<times> sds_world) option" where
  "malloc_hdr bytes w =
     (let (q, w1) = new_node bytes (raw_hdr bytes) w in
      if q \<noteq> NULL \<and> bytes < 16 then None else Some (q, w1))"

text \<open>\<open>realloc\<close> moves the block: the old address dangles as soon as it succeeds.\<close>

definition realloc_hdr :: "sds \<Rightarrow> size_t \<Rightarrow> sds_world \<Rightarrow> (sds \<times> sds_world) option" where
  "realloc_hdr s bytes w = do {
     h \<leftarrow> SDS_HDR s w;
     (q, w1) \<leftarrow> malloc_hdr bytes w;
     if q = NULL then Some (NULL, w1)
     else do {
       w2 \<leftarrow> modify q (\<lambda>r. h\<lparr>h_buf := take (length (h_buf r)) (h_buf h) @ drop (length (h_buf h)) (h_buf r)\<rparr>) w1;
       w3 \<leftarrow> free_node s w2;
       Some (q, w3) } }"

definition sds_reserve_for_additional :: "sds \<Rightarrow> size_t \<Rightarrow> sds_world \<Rightarrow> (sds \<times> sds_world) option" where
  "sds_reserve_for_additional s addlen w = do {
     sh \<leftarrow> SDS_HDR s w;
     if addlen \<le> sz_sub (h_alloc sh) (h_len sh) then Some (s, w)
     else let newlen = sz_add (h_len sh) addlen in
       if newlen < h_len sh then None
       else let newlen1 = (if newlen < SDS_MAX_PREALLOC then sz_mul newlen 2 else sz_add newlen SDS_MAX_PREALLOC) in
         if newlen1 < sz_add (h_len sh) addlen then None
         else do {
           (newsh, w1) \<leftarrow> realloc_hdr s (SDS_BYTES newlen1) w;
           if newsh = NULL then Some (NULL, w1)
           else do { w2 \<leftarrow> modify newsh (h_alloc_update (\<lambda>_. newlen1)) w1; Some (newsh, w2) } } }"

section \<open>Searching\<close>

text \<open>The result is \<open>NULL\<close> or an offset into the haystack.\<close>

partial_function (option) find_bytes_loop :: "bytes \<Rightarrow> size_t \<Rightarrow> bytes \<Rightarrow> size_t \<Rightarrow> size_t \<Rightarrow> nat ptr option" where
  "find_bytes_loop haystack haystack_len needle needle_len i =
     (if sz_add i needle_len \<le> haystack_len then do {
        a \<leftarrow> region_read (drop i haystack) needle_len;
        b \<leftarrow> region_read needle needle_len;
        if memcmp a b = 0 then Some (Ptr i)
        else find_bytes_loop haystack haystack_len needle needle_len (sz_add i 1) }
      else Some NULL)"

definition sds_find_bytes :: "bytes \<Rightarrow> size_t \<Rightarrow> bytes \<Rightarrow> size_t \<Rightarrow> nat ptr option" where
  "sds_find_bytes haystack haystack_len needle needle_len =
     (if needle_len = 0 \<or> haystack_len < needle_len then Some NULL
      else find_bytes_loop haystack haystack_len needle needle_len 0)"

section \<open>Creation, copies and accessors\<close>

definition sdsnewlen :: "bytes ptr \<Rightarrow> size_t \<Rightarrow> sds_world \<Rightarrow> (sds \<times> sds_world) option" where
  "sdsnewlen init initlen w =
     (if init = NULL then Some (NULL, w)
      else do {
        (sh, w1) \<leftarrow> malloc_hdr (SDS_BYTES initlen) w;
        if sh = NULL then Some (NULL, w1)
        else do {
          w2 \<leftarrow> modify sh (\<lambda>h. h\<lparr>h_len := initlen, h_alloc := initlen\<rparr>) w1;
          xs \<leftarrow> region_read (pt init) initlen;
          w3 \<leftarrow> (if initlen \<noteq> 0 then sds_write sh 0 xs w2 else Some w2);
          w4 \<leftarrow> sds_write sh initlen [0] w3;
          Some (sh, w4) } })"

definition sdsnew :: "bytes ptr \<Rightarrow> sds_world \<Rightarrow> (sds \<times> sds_world) option" where
  "sdsnew init w = (if init = NULL then Some (NULL, w) else sdsnewlen init (strlen (pt init)) w)"

definition sdslen :: "sds \<Rightarrow> sds_world \<Rightarrow> size_t option" where
  "sdslen s w = map_option h_len (SDS_HDR s w)"

definition sdsavail :: "sds \<Rightarrow> sds_world \<Rightarrow> size_t option" where
  "sdsavail s w = map_option (\<lambda>h. sz_sub (h_alloc h) (h_len h)) (SDS_HDR s w)"

definition sdsalloc :: "sds \<Rightarrow> sds_world \<Rightarrow> size_t option" where
  "sdsalloc s w = map_option h_alloc (SDS_HDR s w)"

text \<open>The bytes of a string, which callers read through its address.\<close>

definition sds_bytes :: "sds \<Rightarrow> size_t \<Rightarrow> sds_world \<Rightarrow> bytes option" where
  "sds_bytes s n w = do { h \<leftarrow> SDS_HDR s w; mem_read (h_buf h) 0 n }"

definition sdsdup :: "sds \<Rightarrow> sds_world \<Rightarrow> (sds \<times> sds_world) option" where
  "sdsdup s w =
     (if s = NULL then Some (NULL, w)
      else do { n \<leftarrow> sdslen s w; xs \<leftarrow> sds_bytes s n w; sdsnewlen (Ptr xs) n w })"

definition sdsfree :: "sds \<Rightarrow> sds_world \<Rightarrow> sds_world option" where
  "sdsfree s w = (if s = NULL then Some w else free_node s w)"

definition sdsreserve :: "sds \<Rightarrow> size_t \<Rightarrow> sds_world \<Rightarrow> (sds \<times> sds_world) option" where
  "sdsreserve s capacity w =
     (if s = NULL then Some (NULL, w)
      else do {
        a \<leftarrow> sdsalloc s w;
        if capacity \<le> a then Some (s, w)
        else do { n \<leftarrow> sdslen s w; sds_reserve_for_additional s (sz_sub capacity n) w } })"

definition sdsclear :: "sds \<Rightarrow> sds_world \<Rightarrow> sds_world option" where
  "sdsclear s w = (if s = NULL then Some w else do { w1 \<leftarrow> sds_set_len s 0 w; sds_write s 0 [0] w1 })"

section \<open>Formatted output\<close>

text \<open>\<open>vsnprintf\<close> on a format and arguments whose complete output is \<open>out\<close>, if there is one: it writes at
  most \<open>n\<close> bytes with the terminator and returns the length of the complete output, or a negative
  number for an error or when that length is no \<open>int\<close>.\<close>

definition vsnprintf :: "bytes option \<Rightarrow> sds \<Rightarrow> size_t \<Rightarrow> sds_world \<Rightarrow> (int \<times> sds_world) option" where
  "vsnprintf out s n w = (case out of
       None \<Rightarrow> Some (- 1, w)
     | Some xs \<Rightarrow>
         if 2147483647 < length xs then Some (- 1, w)
         else do {
           w1 \<leftarrow> (if n = 0 then Some w else sds_write s 0 (take (n - 1) xs @ [0]) w);
           Some (int (length xs), w1) })"

partial_function (option) newfmt_loop :: "bytes option \<Rightarrow> sds \<Rightarrow> size_t \<Rightarrow> sds_world \<Rightarrow> (sds \<times> sds_world) option" where
  "newfmt_loop out s buflen w = do {
     (bufstrlen, w1) \<leftarrow> vsnprintf out s buflen w;
     if bufstrlen < 0 then do { w2 \<leftarrow> sdsfree s w1; Some (NULL, w2) }
     else if buflen \<le> nat bufstrlen then do {
       let buflen1 = sz_add (nat bufstrlen) 1;
       (grown, w2) \<leftarrow> sds_reserve_for_additional s buflen1 w1;
       if grown = NULL then do { w3 \<leftarrow> sdsfree s w2; Some (NULL, w3) }
       else newfmt_loop out grown buflen1 w2 }
     else do { w2 \<leftarrow> sds_set_len s (nat bufstrlen) w1; Some (s, w2) } }"

text \<open>\<open>out\<close> is what the format and its arguments expand to.\<close>

definition sdsnewfmtva :: "bytes \<Rightarrow> bytes option \<Rightarrow> sds_world \<Rightarrow> (sds \<times> sds_world) option" where
  "sdsnewfmtva fmt out w = do {
     let buflen = sz_mul (strlen fmt) 2;
     (s, w1) \<leftarrow> sdsnew (Ptr []) w;
     if s = NULL then Some (NULL, w1)
     else do {
       (grown, w2) \<leftarrow> sds_reserve_for_additional s buflen w1;
       if grown = NULL then do { w3 \<leftarrow> sdsfree s w2; Some (NULL, w3) }
       else newfmt_loop out grown buflen w2 } }"

definition sdsnewfmt :: "(bytes \<Rightarrow> 'args \<Rightarrow> bytes option) \<Rightarrow> bytes \<Rightarrow> 'args \<Rightarrow> sds_world \<Rightarrow> (sds \<times> sds_world) option" where
  "sdsnewfmt expand fmt ap w = sdsnewfmtva fmt (expand fmt ap) w"

section \<open>Appending, trimming and comparing\<close>

definition sdsncat :: "sds \<Rightarrow> bytes ptr \<Rightarrow> size_t \<Rightarrow> sds_world \<Rightarrow> (sds \<times> sds_world) option" where
  "sdsncat s t n w =
     (if s = NULL then sdsnewlen t n w
      else do {
        (grown, w1) \<leftarrow> sds_reserve_for_additional s n w;
        if grown = NULL then Some (NULL, w1)
        else do {
          len \<leftarrow> sdslen grown w1;
          xs \<leftarrow> (if t = NULL then (if n = 0 then Some [] else None) else region_read (pt t) n);
          w2 \<leftarrow> sds_write grown len xs w1;
          w3 \<leftarrow> sds_set_len grown (sz_add len n) w2;
          w4 \<leftarrow> sds_write grown (sz_add len n) [0] w3;
          Some (grown, w4) } })"

definition sdscat :: "sds \<Rightarrow> bytes ptr \<Rightarrow> sds_world \<Rightarrow> (sds \<times> sds_world) option" where
  "sdscat s t w =
     (if s = NULL then sdsnew t w else if t = NULL then None else sdsncat s t (strlen (pt t)) w)"

text \<open>The two loops of \<open>sdstrim\<close>, over the offsets of the bytes \<open>xs\<close> of the string.\<close>

function trim_left_loop :: "bytes \<Rightarrow> bytes \<Rightarrow> nat \<Rightarrow> nat \<Rightarrow> nat" where
  "trim_left_loop cset xs sp end =
     (if sp \<le> end \<and> strchr cset (xs ! sp) then trim_left_loop cset xs (sp + 1) end else sp)"
  by auto
termination by (relation "measure (\<lambda>(cset, xs, sp, end). Suc end - sp)") auto

function trim_right_loop :: "bytes \<Rightarrow> bytes \<Rightarrow> nat \<Rightarrow> nat \<Rightarrow> nat" where
  "trim_right_loop cset xs sp ep =
     (if sp < ep \<and> strchr cset (xs ! ep) then trim_right_loop cset xs sp (ep - 1) else ep)"
  by auto
termination by (relation "measure (\<lambda>(cset, xs, sp, ep). ep)") auto

declare trim_left_loop.simps [simp del] trim_right_loop.simps [simp del]

definition sdstrim :: "sds \<Rightarrow> bytes ptr \<Rightarrow> sds_world \<Rightarrow> (sds \<times> sds_world) option" where
  "sdstrim s cset w = do {
     slen \<leftarrow> sdslen s w;
     if slen = 0 then Some (s, w)
     else if cset = NULL then None
     else do {
       xs \<leftarrow> sds_bytes s slen w;
       let end = slen - 1;
       let sp = trim_left_loop (pt cset) xs 0 end;
       let ep = trim_right_loop (pt cset) xs sp end;
       let len = ep + 1 - sp;
       w1 \<leftarrow> (if sp \<noteq> 0 then sds_write s 0 (take len (drop sp xs)) w else Some w);
       w2 \<leftarrow> sds_write s len [0] w1;
       w3 \<leftarrow> sds_set_len s len w2;
       Some (s, w3) } }"

definition sdscmp :: "sds \<Rightarrow> sds \<Rightarrow> sds_world \<Rightarrow> int option" where
  "sdscmp s1 s2 w = do {
     l1 \<leftarrow> sdslen s1 w;
     l2 \<leftarrow> sdslen s2 w;
     let minlen = (if l1 < l2 then l1 else l2);
     a \<leftarrow> sds_bytes s1 minlen w;
     b \<leftarrow> sds_bytes s2 minlen w;
     let cmp = memcmp a b;
     Some (if cmp = 0 then (if l2 < l1 then 1 else if l1 < l2 then - 1 else 0) else cmp) }"

section \<open>Replacing\<close>

text \<open>The counting loop, which \<open>sdssplitlen\<close> has as well; a cursor is an offset into the source.\<close>

partial_function (option) count_matches_loop :: "bytes \<Rightarrow> size_t \<Rightarrow> nat \<Rightarrow> bytes \<Rightarrow> size_t \<Rightarrow> size_t \<Rightarrow> size_t option" where
  "count_matches_loop source source_len cursor replace replace_len cnt = do {
     let remaining_len = sz_sub source_len cursor;
     m \<leftarrow> sds_find_bytes (drop cursor source) remaining_len replace replace_len;
     case m of
       NULL \<Rightarrow> Some cnt
     | Ptr k \<Rightarrow> count_matches_loop source source_len (cursor + k + replace_len) replace replace_len (sz_add cnt 1) }"

text \<open>The filling loop returns where it stopped in the source and in the new string.\<close>

partial_function (option) replace_fill_loop ::
    "bytes \<Rightarrow> size_t \<Rightarrow> nat \<Rightarrow> bytes \<Rightarrow> size_t \<Rightarrow> bytes \<Rightarrow> size_t \<Rightarrow> sds \<Rightarrow> nat \<Rightarrow> sds_world \<Rightarrow> ((nat \<times> nat) \<times> sds_world) option" where
  "replace_fill_loop source source_len cursor replace replace_len subst with_len newsh dest w = do {
     let remaining_len = sz_sub source_len cursor;
     m \<leftarrow> sds_find_bytes (drop cursor source) remaining_len replace replace_len;
     case m of
       NULL \<Rightarrow> Some ((cursor, dest), w)
     | Ptr k \<Rightarrow> do {
         xs \<leftarrow> region_read (drop cursor source) k;
         w1 \<leftarrow> sds_write newsh dest xs w;
         ys \<leftarrow> region_read subst with_len;
         w2 \<leftarrow> sds_write newsh (dest + k) ys w1;
         replace_fill_loop source source_len (cursor + k + replace_len) replace replace_len subst with_len newsh (dest + k + with_len) w2 } }"

definition sdsreplacelen :: "sds \<Rightarrow> bytes ptr \<Rightarrow> size_t \<Rightarrow> bytes ptr \<Rightarrow> size_t \<Rightarrow> sds_world \<Rightarrow> (sds \<times> sds_world) option" where
  "sdsreplacelen s replace replace_len subst with_len w =
     (if s = NULL \<or> replace = NULL \<or> subst = NULL then Some (NULL, w)
      else if replace_len = 0 then Some (s, w)
      else do {
        source_len \<leftarrow> sdslen s w;
        source \<leftarrow> sds_bytes s source_len w;
        cnt \<leftarrow> count_matches_loop source source_len 0 (pt replace) replace_len 0;
        if cnt = 0 then Some (s, w)
        else do {
          let newlen = (if replace_len \<le> with_len then sz_add source_len (sz_mul (sz_sub with_len replace_len) cnt)
            else sz_sub source_len (sz_mul (sz_sub replace_len with_len) cnt));
          (newsh, w1) \<leftarrow> malloc_hdr (SDS_BYTES newlen) w;
          if newsh = NULL then Some (NULL, w1)
          else do {
            w2 \<leftarrow> modify newsh (\<lambda>h. h\<lparr>h_len := newlen, h_alloc := newlen\<rparr>) w1;
            ((cursor, dest), w3) \<leftarrow> replace_fill_loop source source_len 0 (pt replace) replace_len (pt subst) with_len newsh 0 w2;
            rest \<leftarrow> region_read (drop cursor source) (sz_sub source_len cursor);
            w4 \<leftarrow> sds_write newsh dest rest w3;
            w5 \<leftarrow> sds_write newsh newlen [0] w4;
            w6 \<leftarrow> sdsfree s w5;
            Some (newsh, w6) } } })"

definition sdsreplace :: "sds \<Rightarrow> bytes ptr \<Rightarrow> bytes ptr \<Rightarrow> sds_world \<Rightarrow> (sds \<times> sds_world) option" where
  "sdsreplace s replace subst w =
     (if replace = NULL \<or> subst = NULL then None
      else sdsreplacelen s replace (strlen (pt replace)) subst (strlen (pt subst)) w)"

section \<open>Joining and splitting\<close>

text \<open>\<open>parts\<close> is the array that the argument points to. The first loop adds up the lengths, and
  returns \<open>NULL\<close> when a part is \<open>NULL\<close>.\<close>

function join_length_loop :: "sds list \<Rightarrow> size_t \<Rightarrow> size_t \<Rightarrow> size_t \<Rightarrow> size_t \<Rightarrow> sds_world \<Rightarrow> size_t ptr option" where
  "join_length_loop parts cnt sep_len i total_len w =
     (if i < cnt then
        if length parts \<le> i then None
        else if parts ! i = NULL then Some NULL
        else do {
          n \<leftarrow> sdslen (parts ! i) w;
          let total1 = sz_add total_len n;
          join_length_loop parts cnt sep_len (i + 1) (if i + 1 < cnt then sz_add total1 sep_len else total1) w }
      else Some (Ptr total_len))"
  by auto
termination by (relation "measure (\<lambda>(parts, cnt, sep_len, i, total_len, w). cnt - i)") auto

function join_fill_loop :: "sds list \<Rightarrow> size_t \<Rightarrow> bytes ptr \<Rightarrow> size_t \<Rightarrow> sds \<Rightarrow> size_t \<Rightarrow> nat \<Rightarrow> sds_world \<Rightarrow> (nat \<times> sds_world) option" where
  "join_fill_loop parts cnt sep sep_len joined i dest w =
     (if i < cnt then
        if length parts \<le> i then None
        else do {
          part_len \<leftarrow> sdslen (parts ! i) w;
          xs \<leftarrow> sds_bytes (parts ! i) part_len w;
          w1 \<leftarrow> sds_write joined dest xs w;
          if i + 1 < cnt then do {
            ys \<leftarrow> (if sep = NULL then (if sep_len = 0 then Some [] else None) else region_read (pt sep) sep_len);
            w2 \<leftarrow> sds_write joined (dest + part_len) ys w1;
            join_fill_loop parts cnt sep sep_len joined (i + 1) (dest + part_len + sep_len) w2 }
          else join_fill_loop parts cnt sep sep_len joined (i + 1) (dest + part_len) w1 }
      else Some (dest, w))"
  by auto
termination by (relation "measure (\<lambda>(parts, cnt, sep, sep_len, joined, i, dest, w). cnt - i)") auto

declare join_length_loop.simps [simp del] join_fill_loop.simps [simp del]

definition sdsjoinlen :: "sds list ptr \<Rightarrow> size_t \<Rightarrow> bytes ptr \<Rightarrow> size_t \<Rightarrow> sds_world \<Rightarrow> (sds \<times> sds_world) option" where
  "sdsjoinlen parts cnt sep sep_len w =
     (if parts = NULL \<and> 0 < cnt \<or> sep = NULL \<and> 0 < sep_len then Some (NULL, w)
      else do {
        let ps = (case parts of NULL \<Rightarrow> [] | Ptr ps \<Rightarrow> ps);
        total \<leftarrow> join_length_loop ps cnt sep_len 0 0 w;
        if total = NULL then Some (NULL, w)
        else do {
          (joined, w1) \<leftarrow> sdsnew (Ptr []) w;
          if joined = NULL then Some (NULL, w1)
          else do {
            (grown, w2) \<leftarrow> sds_reserve_for_additional joined (pt total) w1;
            if grown = NULL then do { w3 \<leftarrow> sdsfree joined w2; Some (NULL, w3) }
            else do {
              (dest, w3) \<leftarrow> join_fill_loop ps cnt sep sep_len grown 0 0 w2;
              w4 \<leftarrow> sds_write grown dest [0] w3;
              w5 \<leftarrow> sds_set_len grown (pt total) w4;
              Some (grown, w5) } } } })"

definition sdsjoin :: "sds list ptr \<Rightarrow> size_t \<Rightarrow> bytes ptr \<Rightarrow> sds_world \<Rightarrow> (sds \<times> sds_world) option" where
  "sdsjoin parts cnt sep w = (if sep = NULL then Some (NULL, w) else sdsjoinlen parts cnt sep (strlen (pt sep)) w)"

fun split_free_loop :: "sds list \<Rightarrow> size_t \<Rightarrow> sds_world \<Rightarrow> sds_world option" where
  "split_free_loop parts 0 w = Some w"
| "split_free_loop [] (Suc n) w = None"
| "split_free_loop (p # parts) (Suc n) w = do { w1 \<leftarrow> sdsfree p w; split_free_loop parts n w1 }"

definition sdssplitfree :: "sds list ptr \<Rightarrow> size_t \<Rightarrow> sds_world \<Rightarrow> sds_world option" where
  "sdssplitfree parts cnt w =
     (case parts of NULL \<Rightarrow> Some w | Ptr ps \<Rightarrow> do { w1 \<leftarrow> split_free_loop ps cnt w; Some (free_block w1) })"

text \<open>The first loop of \<open>sdssplitlen\<close> is the counting loop of \<open>sdsreplacelen\<close>; the second one fills the
  array of parts.\<close>

partial_function (option) split_fill_loop ::
    "bytes \<Rightarrow> size_t \<Rightarrow> nat \<Rightarrow> bytes \<Rightarrow> size_t \<Rightarrow> sds list \<Rightarrow> size_t \<Rightarrow> sds_world \<Rightarrow> (sds list ptr \<times> size_t \<times> sds_world) option" where
  "split_fill_loop source len cursor sep sep_len parts index w = do {
     let remaining_len = sz_sub len cursor;
     m \<leftarrow> sds_find_bytes (drop cursor source) remaining_len sep sep_len;
     let part_len = (case m of NULL \<Rightarrow> remaining_len | Ptr k \<Rightarrow> k);
     (part, w1) \<leftarrow> sdsnewlen (Ptr (drop cursor source)) part_len w;
     if part = NULL then do { w2 \<leftarrow> sdssplitfree (Ptr parts) index w1; Some (NULL, index, w2) }
     else if length parts \<le> index then None
     else do {
       let parts1 = parts[index := part];
       case m of
         NULL \<Rightarrow> Some (Ptr parts1, sz_add index 1, w1)
       | Ptr k \<Rightarrow> split_fill_loop source len (cursor + k + sep_len) sep sep_len parts1 (sz_add index 1) w1 } }"

text \<open>The number behind \<open>count\<close> is returned with the array.\<close>

definition sdssplitlen ::
    "bytes ptr \<Rightarrow> size_t \<Rightarrow> bytes ptr \<Rightarrow> size_t \<Rightarrow> size_t ptr \<Rightarrow> sds_world \<Rightarrow> (sds list ptr \<times> size_t ptr \<times> sds_world) option" where
  "sdssplitlen s len sep sep_len cnt w =
     (if cnt = NULL then Some (NULL, NULL, w)
      else if s = NULL \<or> sep = NULL \<or> sep_len = 0 then Some (NULL, Ptr 0, w)
      else do {
        part_count \<leftarrow> count_matches_loop (pt s) len 0 (pt sep) sep_len 1;
        let (ok, w1) = calloc part_count 8 w;
        if \<not> ok then Some (NULL, Ptr 0, w1)
        else do {
          (parts, index, w2) \<leftarrow> split_fill_loop (pt s) len 0 (pt sep) sep_len (replicate part_count NULL) 0 w1;
          Some (parts, if parts = NULL then Ptr 0 else Ptr index, w2) } })"

definition sdssplit :: "bytes ptr \<Rightarrow> bytes ptr \<Rightarrow> size_t ptr \<Rightarrow> sds_world \<Rightarrow> (sds list ptr \<times> size_t ptr \<times> sds_world) option" where
  "sdssplit s sep cnt w =
     (if s = NULL \<or> sep = NULL then Some (NULL, if cnt = NULL then NULL else Ptr 0, w)
      else sdssplitlen s (strlen (pt s)) sep (strlen (pt sep)) cnt w)"

end
