(* ===== verification/Sds_Ops.thy ===== *)
theory Sds_Ops
  imports Sds
begin

text \<open>
  The contracts of the operations of \<open>sds.c\<close> on one string: a string is created, or edited, with one
  equation for the store that says which address holds the result and that every other string is the
  same; or the operation returns \<open>NULL\<close> and the store is as before.
\<close>

section \<open>Strings in the store\<close>

definition sized_hdr :: "sdshdr \<Rightarrow> nat \<Rightarrow> bool" where
  "sized_hdr h n \<longleftrightarrow> h_len h = n \<and> n \<le> h_alloc h \<and> h_alloc h + 17 \<le> PTRDIFF_MAX \<and> length (h_buf h) = h_alloc h + 1"

definition good_hdr :: "sdshdr \<Rightarrow> bytes \<Rightarrow> bool" where
  "good_hdr h xs \<longleftrightarrow> sized_hdr h (length xs) \<and> starts (h_buf h) (xs @ [0])"

definition sds_at :: "sds_world \<Rightarrow> sds \<Rightarrow> bytes \<Rightarrow> bool" where
  "sds_at w s xs \<longleftrightarrow> (\<exists>a h. s = Ptr a \<and> cells_of w a = Some h \<and> good_hdr h xs)"

definition creates :: "bytes \<Rightarrow> sds_world \<Rightarrow> sds \<Rightarrow> sds_world \<Rightarrow> bool" where
  "creates xs w q w' \<longleftrightarrow> q = NULL \<and> becomes w w' (cells_of w) 0 []
     \<or> (\<exists>a h. q = Ptr a \<and> fresh w \<le> a \<and> a < fresh w' \<and> good_hdr h xs \<and> becomes w w' ((cells_of w)(a \<mapsto> h)) 1 [])"

definition edits :: "nat \<Rightarrow> bytes \<Rightarrow> sds_world \<Rightarrow> sds \<Rightarrow> sds_world \<Rightarrow> bool" where
  "edits a xs w q w' \<longleftrightarrow> q = NULL \<and> becomes w w' (cells_of w) 0 []
     \<or> (\<exists>b h. q = Ptr b \<and> (b = a \<or> fresh w \<le> b \<and> b < fresh w') \<and> good_hdr h xs
          \<and> becomes w w' ((cells_of w)(a := None, b \<mapsto> h)) 0 [])"

text \<open>Enough memory and addresses for one more block of \<open>n\<close> characters.\<close>

definition room_for :: "nat \<Rightarrow> sds_world \<Rightarrow> bool" where
  "room_for n w \<longleftrightarrow> no_fail w \<and> n + 17 \<le> PTRDIFF_MAX \<and> fresh w < SIZE_MAX"

lemma sized_hdrD:
  assumes "sized_hdr h n"
  shows "h_len h = n" "n \<le> h_alloc h" "h_alloc h + 17 \<le> PTRDIFF_MAX" "length (h_buf h) = h_alloc h + 1"
    "n \<le> PTRDIFF_MAX" "n \<le> SIZE_MAX" "h_alloc h \<le> SIZE_MAX"
  using assms SIZE_MAX_PTRDIFF_MAX by (simp_all add: sized_hdr_def)

lemma good_hdrD:
  assumes "good_hdr h xs"
  shows "h_len h = length xs" "length xs \<le> h_alloc h" "h_alloc h + 17 \<le> PTRDIFF_MAX"
    "length (h_buf h) = h_alloc h + 1" "starts (h_buf h) (xs @ [0])" "length xs \<le> PTRDIFF_MAX" "length xs \<le> SIZE_MAX"
    "h_alloc h \<le> SIZE_MAX"
  using assms SIZE_MAX_PTRDIFF_MAX by (simp_all add: good_hdr_def sized_hdr_def)

lemma good_hdr_read: "good_hdr h xs \<Longrightarrow> n \<le> length xs \<Longrightarrow> mem_read (h_buf h) 0 n = Some (take n xs)"
  using starts_read0 [of "h_buf h" "take n xs"] starts_prefix [of "h_buf h" "take n xs" "drop n xs @ [0]"]
  by (simp add: good_hdr_def flip: append_assoc)

section \<open>Writing to one string\<close>

lemma at_cell [simp]:
  "SDS_HDR (Ptr a) (with_cells (C(a \<mapsto> h)) w) = Some h"
  "modify (Ptr a) f (with_cells (C(a \<mapsto> h)) w) = Some (with_cells (C(a \<mapsto> f h)) w)"
  "sds_set_len (Ptr a) n (with_cells (C(a \<mapsto> h)) w) = Some (with_cells (C(a \<mapsto> h\<lparr>h_len := n\<rparr>)) w)"
  by (simp_all add: SDS_HDR_def modify_def put_node_def sds_set_len_def)

lemma write_cell:
  "mem_write (h_buf h) i xs = Some b \<Longrightarrow>
   sds_write (Ptr a) i xs (with_cells (C(a \<mapsto> h)) w) = Some (with_cells (C(a \<mapsto> h\<lparr>h_buf := b\<rparr>)) w)"
  by (simp add: sds_write_def put_node_def)

text \<open>Appending to the part of the buffer that is written.\<close>

lemma append_cell:
  assumes "starts (h_buf h) xs" and "length xs + length ys \<le> length (h_buf h)" and "i = length xs"
  shows "\<exists>b. sds_write (Ptr a) i ys (with_cells (C(a \<mapsto> h)) w) = Some (with_cells (C(a \<mapsto> h\<lparr>h_buf := b\<rparr>)) w)
    \<and> starts b (xs @ ys) \<and> length b = length (h_buf h)"
  using starts_write [OF assms(1,2)] write_cell [of h i ys _ a C w] assms(3) by blast

lemma on_cells: "cells_of w a = Some h \<Longrightarrow> w = with_cells ((cells_of w)(a \<mapsto> h)) w"
  by (simp add: fun_upd_idem)

section \<open>Creation\<close>

lemma SDS_BYTES_ok: "n + 17 \<le> SIZE_MAX \<Longrightarrow> SDS_BYTES n = n + 17"
  by (simp add: SDS_BYTES_def)

lemma malloc_hdr_ok:
  assumes "store_ok w" and "n + 17 \<le> SIZE_MAX"
  obtains q w' where "malloc_hdr (SDS_BYTES n) w = Some (q, w')" "room_for n w \<longrightarrow> q \<noteq> NULL" "fresh w' \<le> Suc (fresh w)"
    "q = NULL \<and> becomes w w' (cells_of w) 0 []
     \<or> q = Ptr (fresh w) \<and> n + 17 \<le> PTRDIFF_MAX \<and> fresh w' = Suc (fresh w) \<and> becomes w w' ((cells_of w)(fresh w \<mapsto> raw_hdr (n + 17))) 1 []"
proof -
  obtain q w' where new: "new_node (n + 17) (raw_hdr (n + 17)) w = (q, w')" by fastforce
  note e = becomes_new_node [OF new assms(1)]
  have "q = NULL \<or> n + 17 \<le> PTRDIFF_MAX"
    using new by (auto simp: new_node_def malloc_def Let_def split: if_splits prod.splits)
  moreover have "malloc_hdr (SDS_BYTES n) w = Some (q, w')"
    using new by (simp add: malloc_hdr_def SDS_BYTES_ok [OF assms(2)])
  ultimately show ?thesis using e that [of q w'] by (auto simp: room_for_def)
qed

lemma sdsnewlen_ok:
  assumes "store_ok w" and "n \<le> length t" and "n + 17 \<le> SIZE_MAX"
  shows "\<exists>q w'. sdsnewlen (Ptr t) n w = Some (q, w') \<and> creates (take n t) w q w' \<and> fresh w' \<le> Suc (fresh w)
    \<and> (room_for n w \<longrightarrow> q \<noteq> NULL)"
proof -
  from malloc_hdr_ok [OF assms(1,3)] obtain q w1 where m: "malloc_hdr (SDS_BYTES n) w = Some (q, w1)"
    "room_for n w \<longrightarrow> q \<noteq> NULL" "fresh w1 \<le> Suc (fresh w)"
    "q = NULL \<and> becomes w w1 (cells_of w) 0 []
     \<or> q = Ptr (fresh w) \<and> n + 17 \<le> PTRDIFF_MAX \<and> fresh w1 = Suc (fresh w) \<and> becomes w w1 ((cells_of w)(fresh w \<mapsto> raw_hdr (n + 17))) 1 []" by blast
  from m(4) show ?thesis
  proof (elim disjE conjE)
    assume "q = NULL" "becomes w w1 (cells_of w) 0 []"
    then show ?thesis using m(1-3) by (auto simp: sdsnewlen_def creates_def)
  next
    let ?a = "fresh w" and ?C = "cells_of w"
    assume q: "q = Ptr ?a" "n + 17 \<le> PTRDIFF_MAX" "fresh w1 = Suc ?a" "becomes w w1 (?C(?a \<mapsto> raw_hdr (n + 17))) 1 []"
    let ?h = "(raw_hdr (n + 17))\<lparr>h_len := n, h_alloc := n\<rparr>"
    have w1: "with_cells (?C(?a \<mapsto> raw_hdr (n + 17))) w1 = w1" by (rule world_cells) (rule becomesD(2) [OF q(4)])
    have len: "length (h_buf ?h) = n + 1" by (simp add: raw_hdr_def)
    have set: "modify (Ptr ?a) (\<lambda>h. h\<lparr>h_len := n, h_alloc := n\<rparr>) w1 = Some (with_cells (?C(?a \<mapsto> ?h)) w1)"
      by (subst (1) w1 [symmetric]) (rule at_cell)
    have "\<exists>b. (if n \<noteq> 0 then sds_write (Ptr ?a) 0 (take n t) (with_cells (?C(?a \<mapsto> ?h)) w1) else Some (with_cells (?C(?a \<mapsto> ?h)) w1))
          = Some (with_cells (?C(?a \<mapsto> ?h\<lparr>h_buf := b\<rparr>)) w1) \<and> starts b (take n t) \<and> length b = n + 1"
    proof (cases "n = 0")
      case False
      from append_cell [of ?h "[]" "take n t" 0 ?a ?C w1] len assms(2) False show ?thesis by force
    qed (use len in \<open>auto intro!: exI [of _ "h_buf ?h"]\<close>)
    then obtain b where b: "(if n \<noteq> 0 then sds_write (Ptr ?a) 0 (take n t) (with_cells (?C(?a \<mapsto> ?h)) w1) else Some (with_cells (?C(?a \<mapsto> ?h)) w1))
          = Some (with_cells (?C(?a \<mapsto> ?h\<lparr>h_buf := b\<rparr>)) w1)" "starts b (take n t)" "length b = n + 1" by blast
    from append_cell [of "?h\<lparr>h_buf := b\<rparr>" "take n t" "[0]" n ?a ?C w1] b(2,3) assms(2) obtain c where
      c: "sds_write (Ptr ?a) n [0] (with_cells (?C(?a \<mapsto> ?h\<lparr>h_buf := b\<rparr>)) w1) = Some (with_cells (?C(?a \<mapsto> ?h\<lparr>h_buf := c\<rparr>)) w1)"
        "starts c (take n t @ [0])" "length c = n + 1" by auto
    have "sdsnewlen (Ptr t) n w = Some (Ptr ?a, with_cells (?C(?a \<mapsto> ?h\<lparr>h_buf := c\<rparr>)) w1)"
      by (simp only: sdsnewlen_def m(1) [unfolded q(1)] set b(1) c(1) region_read_ok [OF assms(2)] Option.bind.simps prod.case
          ptr.simps ptr.sel if_False simp_thms)
    moreover have "good_hdr (?h\<lparr>h_buf := c\<rparr>) (take n t)" using c(2,3) q(2) assms(2) by (simp add: good_hdr_def sized_hdr_def)
    ultimately show ?thesis using becomes_with [OF q(4)] q(3) by (auto simp: creates_def)
  qed
qed

lemma sdsnew_ok:
  assumes "store_ok w" and "0 \<notin> set t" and "length t + 17 \<le> SIZE_MAX"
  shows "\<exists>q w'. sdsnew (Ptr t) w = Some (q, w') \<and> creates t w q w' \<and> fresh w' \<le> Suc (fresh w) \<and> (room_for (length t) w \<longrightarrow> q \<noteq> NULL)"
  using sdsnewlen_ok [OF assms(1) order_refl assms(3)] assms(2) by (simp add: sdsnew_def strlen_ok)

lemma sds_bytes_ok: "sds_at w s xs \<Longrightarrow> n \<le> length xs \<Longrightarrow> sds_bytes s n w = Some (take n xs)"
  by (auto simp: sds_at_def sds_bytes_def SDS_HDR_def good_hdr_read)

lemma sdslen_ok: "sds_at w s xs \<Longrightarrow> sdslen s w = Some (length xs)"
  by (auto simp: sds_at_def sdslen_def SDS_HDR_def good_hdr_def sized_hdr_def)

lemma sdsdup_ok:
  assumes "store_ok w" and "sds_at w s xs"
  shows "\<exists>q w'. sdsdup s w = Some (q, w') \<and> creates xs w q w' \<and> fresh w' \<le> Suc (fresh w) \<and> (room_for (length xs) w \<longrightarrow> q \<noteq> NULL)"
proof -
  from assms(2) obtain a h where s: "s = Ptr a" "good_hdr h xs" by (auto simp: sds_at_def)
  have "length xs + 17 \<le> SIZE_MAX" using good_hdrD(2,3) [OF s(2)] SIZE_MAX_PTRDIFF_MAX by simp
  from sdsnewlen_ok [OF assms(1) order_refl this]
  show ?thesis using sds_bytes_ok [OF assms(2) order_refl] sdslen_ok [OF assms(2)] s(1) by (simp add: sdsdup_def)
qed

section \<open>Growing\<close>

lemma realloc_hdr_ok:
  assumes "store_ok w" and h: "cells_of w a = Some h" "sized_hdr h k" "starts (h_buf h) zs" and n: "h_alloc h \<le> n" "n + 17 \<le> SIZE_MAX"
  shows "\<exists>q w' b. realloc_hdr (Ptr a) (SDS_BYTES n) w = Some (q, w') \<and> (room_for n w \<longrightarrow> q \<noteq> NULL) \<and> fresh w' \<le> Suc (fresh w)
    \<and> (q = NULL \<and> becomes w w' (cells_of w) 0 []
     \<or> q = Ptr (fresh w) \<and> n + 17 \<le> PTRDIFF_MAX \<and> fresh w < fresh w' \<and> starts b zs \<and> length b = n + 1
       \<and> becomes w w' ((cells_of w)(a := None, fresh w \<mapsto> h\<lparr>h_buf := b\<rparr>)) 0 [])"
proof -
  from malloc_hdr_ok [OF assms(1) n(2)] obtain q w1 where m: "malloc_hdr (SDS_BYTES n) w = Some (q, w1)"
    "room_for n w \<longrightarrow> q \<noteq> NULL" "fresh w1 \<le> Suc (fresh w)"
    "q = NULL \<and> becomes w w1 (cells_of w) 0 []
     \<or> q = Ptr (fresh w) \<and> n + 17 \<le> PTRDIFF_MAX \<and> fresh w1 = Suc (fresh w) \<and> becomes w w1 ((cells_of w)(fresh w \<mapsto> raw_hdr (n + 17))) 1 []" by blast
  have hdr: "SDS_HDR (Ptr a) w = Some h" using h(1) by (simp add: SDS_HDR_def)
  from m(4) show ?thesis
  proof (elim disjE conjE)
    assume "q = NULL" "becomes w w1 (cells_of w) 0 []"
    then show ?thesis using m(1-3) hdr by (auto simp: realloc_hdr_def)
  next
    let ?a = "fresh w" and ?C = "cells_of w" and ?r = "raw_hdr (n + 17)"
    let ?b = "take (length (h_buf ?r)) (h_buf h) @ drop (length (h_buf h)) (h_buf ?r)"
    assume q: "q = Ptr ?a" "n + 17 \<le> PTRDIFF_MAX" "fresh w1 = Suc ?a" "becomes w w1 (?C(?a \<mapsto> ?r)) 1 []"
    have w1: "with_cells (?C(?a \<mapsto> ?r)) w1 = w1" by (rule world_cells) (rule becomesD(2) [OF q(4)])
    have ne: "a \<noteq> ?a" using assms(1) h(1) by (auto simp: store_ok_def)
    have set: "modify (Ptr ?a) f w1 = Some (with_cells (?C(?a \<mapsto> f ?r)) w1)" for f by (subst (1) w1 [symmetric]) (rule at_cell)
    note b1 = becomes_with [OF q(4), of "h\<lparr>h_buf := ?b\<rparr>"]
    from becomes_free_node [OF becomesD(1) [OF b1], of a h] h(1) ne obtain w2 where
      w2: "free_node (Ptr a) (with_cells (?C(?a \<mapsto> h\<lparr>h_buf := ?b\<rparr>)) w1) = Some w2"
        "becomes (with_cells (?C(?a \<mapsto> h\<lparr>h_buf := ?b\<rparr>)) w1) w2 (?C(?a \<mapsto> h\<lparr>h_buf := ?b\<rparr>, a := None)) (- 1) []" "fresh w2 = fresh w1" by auto
    have "becomes w w2 (?C(a := None, ?a \<mapsto> h\<lparr>h_buf := ?b\<rparr>)) 0 []"
      using becomes_trans [OF b1 w2(2)] ne by (simp add: fun_upd_twist)
    moreover have "realloc_hdr (Ptr a) (SDS_BYTES n) w = Some (Ptr ?a, w2)"
      using hdr m(1) q(1) w2(1) by (simp add: realloc_hdr_def set)
    moreover have "starts ?b zs" "length ?b = n + 1"
      using sized_hdrD(4) [OF h(2)] h(3) n(1) by (auto simp: raw_hdr_def intro!: starts_append)
    ultimately show ?thesis using q(1-3) w2(3) by (intro exI [of _ q] exI [of _ w2] exI [of _ ?b]) auto
  qed
qed

text \<open>The capacity that a growth asks for.\<close>

definition grown_to :: "nat \<Rightarrow> nat" where
  "grown_to n = (if n < 1024 then 2 * n else n + 1024)"

lemma grown_to_bounds: "n \<le> grown_to n" "grown_to n \<le> 2 * n + 1024" "grown_to n \<le> n + 1024"
  by (simp_all add: grown_to_def)

lemma reserve_sized:
  assumes "store_ok w" and h: "cells_of w a = Some h" "sized_hdr h k" "starts (h_buf h) zs" and n: "k + n + 1041 \<le> SIZE_MAX"
  shows "\<exists>q w'. sds_reserve_for_additional (Ptr a) n w = Some (q, w') \<and> (room_for (grown_to (k + n)) w \<longrightarrow> q \<noteq> NULL)
    \<and> fresh w' \<le> Suc (fresh w)
    \<and> (q = NULL \<and> becomes w w' (cells_of w) 0 []
     \<or> (\<exists>b h'. q = Ptr b \<and> (b = a \<or> fresh w \<le> b \<and> b < fresh w') \<and> sized_hdr h' k \<and> starts (h_buf h') zs \<and> k + n \<le> h_alloc h'
          \<and> h_alloc h' \<le> max (h_alloc h) (grown_to (k + n)) \<and> becomes w w' ((cells_of w)(a := None, b \<mapsto> h')) 0 []))"
proof (cases "n \<le> h_alloc h - k")
  case True
  have "sds_reserve_for_additional (Ptr a) n w = Some (Ptr a, w)"
    using h True sized_hdrD [OF h(2)] by (simp add: sds_reserve_for_additional_def SDS_HDR_def)
  moreover have "(cells_of w)(a := None, a \<mapsto> h) = cells_of w" using h(1) by (simp add: fun_upd_idem)
  ultimately show ?thesis using h(2,3) True sized_hdrD(2) [OF h(2)] becomes_refl [OF assms(1)]
    by (intro exI [of _ "Ptr a"] exI [of _ w]) (force intro!: exI [of _ h])
next
  case False
  note H = sized_hdrD [OF h(2)]
  let ?m = "grown_to (k + n)"
  have big: "h_alloc h \<le> ?m" using False H(2) grown_to_bounds(1) [of "k + n"] by simp
  have le: "?m + 17 \<le> SIZE_MAX" using grown_to_bounds(3) [of "k + n"] n by simp
  from realloc_hdr_ok [OF assms(1) h big le] obtain q w1 b where r: "realloc_hdr (Ptr a) (SDS_BYTES ?m) w = Some (q, w1)"
    "room_for ?m w \<longrightarrow> q \<noteq> NULL" "fresh w1 \<le> Suc (fresh w)"
    "q = NULL \<and> becomes w w1 (cells_of w) 0 []
     \<or> q = Ptr (fresh w) \<and> ?m + 17 \<le> PTRDIFF_MAX \<and> fresh w < fresh w1 \<and> starts b zs \<and> length b = ?m + 1
       \<and> becomes w w1 ((cells_of w)(a := None, fresh w \<mapsto> h\<lparr>h_buf := b\<rparr>)) 0 []" by (elim exE conjE) (rule that)
  have "sz_add (h_len h) n = k + n" using n H(1) by simp
  moreover have "(if k + n < SDS_MAX_PREALLOC then sz_mul (k + n) 2 else sz_add (k + n) SDS_MAX_PREALLOC) = ?m"
    using n by (simp add: SDS_MAX_PREALLOC_def grown_to_def SIZE_MAX_def)
  ultimately have f: "sds_reserve_for_additional (Ptr a) n w = (if q = NULL then Some (NULL, w1)
      else do { w2 \<leftarrow> modify q (h_alloc_update (\<lambda>_. ?m)) w1; Some (q, w2) })"
    using False H grown_to_bounds(1) [of "k + n"] h(1) r(1)
    by (simp add: sds_reserve_for_additional_def SDS_HDR_def Let_def)
  from r(4) show ?thesis
  proof (elim disjE conjE)
    assume "q = NULL" "becomes w w1 (cells_of w) 0 []"
    then show ?thesis using f r(2,3) by auto
  next
    let ?a = "fresh w" and ?C = "(cells_of w)(a := None)" and ?h = "h\<lparr>h_buf := b\<rparr>"
    assume q: "q = Ptr ?a" "?m + 17 \<le> PTRDIFF_MAX" "?a < fresh w1" "starts b zs" "length b = ?m + 1" "becomes w w1 (?C(?a \<mapsto> ?h)) 0 []"
    have "with_cells (?C(?a \<mapsto> ?h)) w1 = w1" by (rule world_cells) (rule becomesD(2) [OF q(6)])
    then have "modify q (h_alloc_update (\<lambda>_. ?m)) w1 = Some (with_cells (?C(?a \<mapsto> ?h\<lparr>h_alloc := ?m\<rparr>)) w1)"
      using at_cell(2) [of ?a "h_alloc_update (\<lambda>_. ?m)" ?C ?h w1] q(1) by simp
    then have "sds_reserve_for_additional (Ptr a) n w = Some (Ptr ?a, with_cells (?C(?a \<mapsto> ?h\<lparr>h_alloc := ?m\<rparr>)) w1)" using f q(1) by simp
    moreover have "sized_hdr (?h\<lparr>h_alloc := ?m\<rparr>) k" "starts (h_buf (?h\<lparr>h_alloc := ?m\<rparr>)) zs"
      using H(1,2) big q(2,4,5) by (simp_all add: sized_hdr_def)
    moreover have "k + n \<le> h_alloc (?h\<lparr>h_alloc := ?m\<rparr>)" using grown_to_bounds(1) by simp
    moreover note becomes_with [OF q(6), of "?h\<lparr>h_alloc := ?m\<rparr>"]
    ultimately show ?thesis using q(3) r(3)
      by (intro exI [of _ "Ptr ?a"] exI [of _ "with_cells (?C(?a \<mapsto> ?h\<lparr>h_alloc := ?m\<rparr>)) w1"]) (force simp: le_max_iff_disj)
  qed
qed

lemma reserve_ok:
  assumes "store_ok w" and h: "cells_of w a = Some h" "good_hdr h xs" and n: "length xs + n + 1041 \<le> SIZE_MAX"
  shows "\<exists>q w'. sds_reserve_for_additional (Ptr a) n w = Some (q, w') \<and> (room_for (grown_to (length xs + n)) w \<longrightarrow> q \<noteq> NULL)
    \<and> fresh w' \<le> Suc (fresh w)
    \<and> (q = NULL \<and> becomes w w' (cells_of w) 0 []
     \<or> (\<exists>b h'. q = Ptr b \<and> (b = a \<or> fresh w \<le> b \<and> b < fresh w') \<and> good_hdr h' xs \<and> length xs + n \<le> h_alloc h'
          \<and> h_alloc h' \<le> max (h_alloc h) (grown_to (length xs + n)) \<and> becomes w w' ((cells_of w)(a := None, b \<mapsto> h')) 0 []))"
  using reserve_sized [OF assms(1) h(1) _ _ n, of "xs @ [0]"] h(2) unfolding good_hdr_def by simp

section \<open>Operations on one string\<close>

lemma sdsncat_ok:
  assumes "store_ok w" and h: "cells_of w a = Some h" "good_hdr h xs" and n: "n \<le> length t" "length xs + n + 1041 \<le> SIZE_MAX"
  shows "\<exists>q w'. sdsncat (Ptr a) (Ptr t) n w = Some (q, w') \<and> edits a (xs @ take n t) w q w' \<and> fresh w' \<le> Suc (fresh w)
    \<and> (room_for (grown_to (length xs + n)) w \<longrightarrow> q \<noteq> NULL)"
proof -
  from reserve_ok [OF assms(1) h n(2)] obtain q w1 where r: "sds_reserve_for_additional (Ptr a) n w = Some (q, w1)"
    "room_for (grown_to (length xs + n)) w \<longrightarrow> q \<noteq> NULL" "fresh w1 \<le> Suc (fresh w)"
    "q = NULL \<and> becomes w w1 (cells_of w) 0 []
     \<or> (\<exists>b h'. q = Ptr b \<and> (b = a \<or> fresh w \<le> b \<and> b < fresh w1) \<and> good_hdr h' xs \<and> length xs + n \<le> h_alloc h'
          \<and> h_alloc h' \<le> max (h_alloc h) (grown_to (length xs + n)) \<and> becomes w w1 ((cells_of w)(a := None, b \<mapsto> h')) 0 [])"
    by (elim exE conjE) (rule that)
  from r(4) show ?thesis
  proof
    assume "q = NULL \<and> becomes w w1 (cells_of w) 0 []"
    then show ?thesis using r(1-3) by (auto simp: sdsncat_def edits_def)
  next
    let ?C = "(cells_of w)(a := None)"
    assume "\<exists>b h'. q = Ptr b \<and> (b = a \<or> fresh w \<le> b \<and> b < fresh w1) \<and> good_hdr h' xs \<and> length xs + n \<le> h_alloc h'
          \<and> h_alloc h' \<le> max (h_alloc h) (grown_to (length xs + n)) \<and> becomes w w1 (?C(b \<mapsto> h')) 0 []"
    then obtain b h' where q: "q = Ptr b" "b = a \<or> fresh w \<le> b \<and> b < fresh w1" "good_hdr h' xs" "length xs + n \<le> h_alloc h'"
      "becomes w w1 (?C(b \<mapsto> h')) 0 []" by blast
    note H = good_hdrD [OF q(3)]
    have w1: "w1 = with_cells (?C(b \<mapsto> h')) w1" by (rule world_cells [symmetric]) (rule becomesD(2) [OF q(5)])
    have "length xs + length (take n t) \<le> length (h_buf h')" using H(4) q(4) n(1) by simp
    from append_cell [OF starts_prefix [OF H(5)] this refl, of b ?C w1] obtain c where
      c: "sds_write (Ptr b) (length xs) (take n t) (with_cells (?C(b \<mapsto> h')) w1) = Some (with_cells (?C(b \<mapsto> h'\<lparr>h_buf := c\<rparr>)) w1)"
        "starts c (xs @ take n t)" "length c = length (h_buf h')" by blast
    let ?h = "h'\<lparr>h_buf := c, h_len := length xs + n\<rparr>"
    have "starts (h_buf ?h) (xs @ take n t)" "length (xs @ take n t) + length [0] \<le> length (h_buf ?h)" "length xs + n = length (xs @ take n t)"
      using c(2,3) H(4) q(4) n(1) by simp_all
    from append_cell [OF this, of b ?C w1] c(3) obtain d where
      d: "sds_write (Ptr b) (length xs + n) [0] (with_cells (?C(b \<mapsto> ?h)) w1) = Some (with_cells (?C(b \<mapsto> ?h\<lparr>h_buf := d\<rparr>)) w1)"
        "starts d ((xs @ take n t) @ [0])" "length d = length (h_buf h')" by auto
    have "sz_add (length xs) n = length xs + n" using n(2) by simp
    moreover have "sdslen (Ptr b) w1 = Some (length xs)" using H(1) by (subst w1) (simp add: sdslen_def del: with_cells_simps)
    ultimately have "sdsncat (Ptr a) (Ptr t) n w = Some (Ptr b, with_cells (?C(b \<mapsto> ?h\<lparr>h_buf := d\<rparr>)) w1)"
      by (simp only: sdsncat_def r(1) [unfolded q(1)] Option.bind.simps prod.case ptr.simps ptr.sel if_False
          region_read_ok [OF n(1)] c(1) [folded w1] at_cell d(1))
    moreover have "good_hdr (?h\<lparr>h_buf := d\<rparr>) (xs @ take n t)" using H(3,4) q(4) d(2,3) n(1) by (simp add: good_hdr_def sized_hdr_def)
    ultimately show ?thesis using becomes_with [OF q(5), of "?h\<lparr>h_buf := d\<rparr>"] q(2) r(3) by (auto simp: edits_def)
  qed
qed

lemma sdscat_ok:
  assumes "store_ok w" and h: "cells_of w a = Some h" "good_hdr h xs" and t: "0 \<notin> set t" "length xs + length t + 1041 \<le> SIZE_MAX"
  shows "\<exists>q w'. sdscat (Ptr a) (Ptr t) w = Some (q, w') \<and> edits a (xs @ t) w q w' \<and> fresh w' \<le> Suc (fresh w)
    \<and> (room_for (grown_to (length xs + length t)) w \<longrightarrow> q \<noteq> NULL)"
  using sdsncat_ok [OF assms(1) h order_refl t(2)] t(1) by (simp add: sdscat_def strlen_ok)

lemma sdsreserve_ok:
  assumes "store_ok w" and h: "cells_of w a = Some h" "good_hdr h xs" and n: "n + 1041 \<le> SIZE_MAX"
  shows "\<exists>q w'. sdsreserve (Ptr a) n w = Some (q, w') \<and> edits a xs w q w' \<and> fresh w' \<le> Suc (fresh w)
    \<and> (room_for (grown_to n) w \<longrightarrow> q \<noteq> NULL) \<and> (q \<noteq> NULL \<longrightarrow> (\<exists>c. sdsalloc q w' = Some c \<and> n \<le> c \<and> c \<le> max (h_alloc h) (grown_to n)))"
proof (cases "n \<le> h_alloc h")
  case True
  have "sdsreserve (Ptr a) n w = Some (Ptr a, w)" "sdsalloc (Ptr a) w = Some (h_alloc h)"
    using h(1) True by (simp_all add: sdsreserve_def sdsalloc_def SDS_HDR_def)
  moreover have "(cells_of w)(a := None, a \<mapsto> h) = cells_of w" using h(1) by (simp add: fun_upd_idem)
  ultimately show ?thesis using h(2) True becomes_refl [OF assms(1)] by (force simp: edits_def intro!: exI [of _ h])
next
  case False
  note H = good_hdrD [OF h(2)]
  have sum: "length xs + (n - length xs) = n" using False H(2) by simp
  then have "length xs + (n - length xs) + 1041 \<le> SIZE_MAX" using n by simp
  from reserve_ok [OF assms(1) h this, unfolded sum] obtain q w1 where r: "sds_reserve_for_additional (Ptr a) (n - length xs) w = Some (q, w1)"
    "room_for (grown_to n) w \<longrightarrow> q \<noteq> NULL" "fresh w1 \<le> Suc (fresh w)"
    "q = NULL \<and> becomes w w1 (cells_of w) 0 []
     \<or> (\<exists>b h'. q = Ptr b \<and> (b = a \<or> fresh w \<le> b \<and> b < fresh w1) \<and> good_hdr h' xs \<and> n \<le> h_alloc h'
          \<and> h_alloc h' \<le> max (h_alloc h) (grown_to n) \<and> becomes w w1 ((cells_of w)(a := None, b \<mapsto> h')) 0 [])"
    by (elim exE conjE) (rule that)
  have "sz_sub n (length xs) = n - length xs" using n False H(2) by simp
  then have f: "sdsreserve (Ptr a) n w = Some (q, w1)" using r(1) h(1) False H(1) by (simp add: sdsreserve_def sdsalloc_def sdslen_def SDS_HDR_def)
  have "q \<noteq> NULL \<Longrightarrow> \<exists>c. sdsalloc q w1 = Some c \<and> n \<le> c \<and> c \<le> max (h_alloc h) (grown_to n)"
    using r(4) by (auto simp: sdsalloc_def SDS_HDR_def dest: becomesD(2))
  moreover have "edits a xs w q w1" using r(4) unfolding edits_def by blast
  ultimately show ?thesis using f r(2,3) by auto
qed

lemma sdsclear_ok:
  assumes "store_ok w" and h: "cells_of w a = Some h" "good_hdr h xs"
  shows "\<exists>w'. sdsclear (Ptr a) w = Some w' \<and> edits a [] w (Ptr a) w' \<and> fresh w' = fresh w"
proof -
  note H = good_hdrD [OF h(2)]
  let ?C = "cells_of w" and ?h = "h\<lparr>h_len := 0\<rparr>"
  have "starts (h_buf ?h) []" "length ([] :: bytes) + length [0 :: 8 word] \<le> length (h_buf ?h)" using H(4) by simp_all
  from append_cell [OF this, of 0 a ?C w] obtain b where
    b: "sds_write (Ptr a) 0 [0] (with_cells (?C(a \<mapsto> ?h)) w) = Some (with_cells (?C(a \<mapsto> ?h\<lparr>h_buf := b\<rparr>)) w)"
      "starts b [0]" "length b = length (h_buf h)" by auto
  have w: "w = with_cells (?C(a \<mapsto> h)) w" by (rule on_cells [OF h(1)])
  have "sds_set_len (Ptr a) 0 w = Some (with_cells (?C(a \<mapsto> ?h)) w)" by (subst w) (rule at_cell)
  then have "sdsclear (Ptr a) w = Some (with_cells (?C(a \<mapsto> ?h\<lparr>h_buf := b\<rparr>)) w)" using b(1) by (simp add: sdsclear_def)
  moreover have "good_hdr (?h\<lparr>h_buf := b\<rparr>) []" using H(3,4) b(2,3) by (simp add: good_hdr_def sized_hdr_def)
  moreover have "becomes w w (?C(a \<mapsto> h)) 0 []" using becomes_refl [OF assms(1)] h(1) by (simp add: fun_upd_idem)
  from becomes_with [OF this] have "becomes w (with_cells (?C(a \<mapsto> ?h\<lparr>h_buf := b\<rparr>)) w) (?C(a := None, a \<mapsto> ?h\<lparr>h_buf := b\<rparr>)) 0 []" by simp
  ultimately show ?thesis by (auto simp: edits_def)
qed

lemma sdsfree_ok:
  assumes "store_ok w" and "cells_of w a = Some h"
  shows "\<exists>w'. sdsfree (Ptr a) w = Some w' \<and> becomes w w' ((cells_of w)(a := None)) (- 1) [] \<and> fresh w' = fresh w"
  using becomes_free_node [OF assms] by (simp add: sdsfree_def)

section \<open>Trimming\<close>

definition trimmed :: "('a \<Rightarrow> bool) \<Rightarrow> 'a list \<Rightarrow> 'a list" where
  "trimmed P xs = rev (dropWhile P (rev (dropWhile P xs)))"

lemma trim_left_ok:
  "xs \<noteq> [] \<Longrightarrow> sp \<le> length xs \<Longrightarrow> trim_left_loop cset xs sp (length xs - 1) = sp + length (takeWhile (strchr cset) (drop sp xs))"
proof (induction cset xs sp "length xs - 1" rule: trim_left_loop.induct)
  case (1 cset xs sp)
  show ?case
  proof (cases "sp < length xs")
    case True
    then have "drop sp xs = xs ! sp # drop (Suc sp) xs" by (simp add: Cons_nth_drop_Suc)
    moreover from True 1(2) have "sp \<le> length xs - 1" by (cases xs) auto
    ultimately show ?thesis using 1 True by (subst trim_left_loop.simps) simp
  next
    case False
    then show ?thesis using 1(2,3) by (subst trim_left_loop.simps) (cases xs; auto)
  qed
qed

lemma trim_right_ok:
  "sp \<le> ep \<Longrightarrow> ep < length xs \<Longrightarrow> \<not> strchr cset (xs ! sp) \<Longrightarrow>
   take (Suc (trim_right_loop cset xs sp ep) - sp) (drop sp xs) = rev (dropWhile (strchr cset) (rev (take (Suc ep - sp) (drop sp xs))))
   \<and> sp \<le> trim_right_loop cset xs sp ep \<and> trim_right_loop cset xs sp ep \<le> ep"
proof (induction cset xs sp ep rule: trim_right_loop.induct)
  case (1 cset xs sp ep)
  have last: "take (Suc ep - sp) (drop sp xs) = take (ep - sp) (drop sp xs) @ [xs ! ep]"
    using 1(2,3) by (simp add: Suc_diff_le take_Suc_conv_app_nth)
  show ?case
  proof (cases "sp < ep \<and> strchr cset (xs ! ep)")
    case True
    then have "sp \<le> ep - 1" "ep - 1 < length xs" "Suc (ep - 1) = ep" using 1(3) by auto
    with 1(1) [OF True this(1,2) 1(4)] True last show ?thesis by (subst (1 2 3) trim_right_loop.simps) auto
  next
    case False
    then have "\<not> strchr cset (xs ! ep)" using 1(2,4) by (cases "sp = ep") auto
    then show ?thesis using False 1(2) last by (subst (1 2 3) trim_right_loop.simps) simp
  qed
qed

lemma trim_loops:
  fixes xs cset :: bytes
  assumes "xs \<noteq> []"
  defines "sp \<equiv> trim_left_loop cset xs 0 (length xs - 1)"
  defines "ep \<equiv> trim_right_loop cset xs sp (length xs - 1)"
  shows "take (Suc ep - sp) (drop sp xs) = trimmed (strchr cset) xs" "Suc ep - sp \<le> length xs - sp" "sp \<le> length xs"
proof -
  let ?P = "strchr cset"
  have sp: "sp = length (takeWhile ?P xs)" using trim_left_ok [OF assms(1), of 0 cset] by (simp add: sp_def)
  then have d: "drop sp xs = dropWhile ?P xs" by (simp add: dropWhile_eq_drop)
  show "sp \<le> length xs" using sp by (simp add: length_takeWhile_le)
  show "take (Suc ep - sp) (drop sp xs) = trimmed ?P xs" "Suc ep - sp \<le> length xs - sp"
  proof (atomize (full), cases "sp = length xs")
    case True
    have "ep = length xs - 1" using assms(1) True by (cases xs) (simp_all add: ep_def trim_right_loop.simps)
    then have "Suc ep - sp = 0" using True assms(1) by simp
    moreover have "trimmed ?P xs = []" using d True unfolding trimmed_def by (metis drop_all dropWhile.simps(1) order_refl rev.simps(1))
    ultimately show "take (Suc ep - sp) (drop sp xs) = trimmed ?P xs \<and> Suc ep - sp \<le> length xs - sp" by simp
  next
    case False
    then have lt: "sp < length xs" using \<open>sp \<le> length xs\<close> by simp
    then have "\<not> ?P (xs ! sp)" unfolding sp by (rule nth_length_takeWhile)
    have e: "sp \<le> length xs - 1" "length xs - 1 < length xs" "Suc (length xs - 1) = length xs" using lt by auto
    have "take (length xs - sp) (drop sp xs) = dropWhile ?P xs" unfolding d [symmetric] by simp
    with trim_right_ok [OF e(1,2) \<open>\<not> ?P (xs ! sp)\<close>, folded ep_def] e(3)
    have "take (Suc ep - sp) (drop sp xs) = trimmed ?P xs" "ep \<le> length xs - 1" by (simp_all only: trimmed_def)
    moreover have "Suc ep - sp \<le> length xs - sp" using \<open>ep \<le> length xs - 1\<close> e(3) by (intro diff_le_mono) simp
    ultimately show "take (Suc ep - sp) (drop sp xs) = trimmed ?P xs \<and> Suc ep - sp \<le> length xs - sp" by blast
  qed
qed

lemma sdstrim_ok:
  assumes "store_ok w" and h: "cells_of w a = Some h" "good_hdr h xs"
  shows "\<exists>w'. sdstrim (Ptr a) (Ptr cset) w = Some (Ptr a, w') \<and> edits a (trimmed (strchr cset) xs) w (Ptr a) w' \<and> fresh w' = fresh w"
proof (cases "xs = []")
  case True
  have "sdslen (Ptr a) w = Some 0" using h True by (simp add: sdslen_def SDS_HDR_def good_hdrD)
  moreover have "(cells_of w)(a := None, a \<mapsto> h) = cells_of w" using h(1) by (simp add: fun_upd_idem)
  ultimately show ?thesis using True h(2) becomes_refl [OF assms(1)]
    by (auto simp: sdstrim_def edits_def trimmed_def intro!: exI [of _ h])
next
  case False
  note H = good_hdrD [OF h(2)]
  let ?C = "cells_of w" and ?sp = "trim_left_loop cset xs 0 (length xs - 1)"
  let ?ep = "trim_right_loop cset xs ?sp (length xs - 1)" and ?ys = "trimmed (strchr cset) xs"
  let ?n = "Suc ?ep - ?sp"
  note T = trim_loops [OF False, of cset]
  have n: "length ?ys = ?n" using arg_cong [OF T(1), of length] T(2) by simp
  have le: "?n \<le> length xs" by (rule order_trans [OF T(2) diff_le_self])
  have w: "w = with_cells (?C(a \<mapsto> h)) w" by (rule on_cells [OF h(1)])
  have at: "sds_at w (Ptr a) xs" using h by (simp add: sds_at_def)
  have "\<exists>b. (if ?sp \<noteq> 0 then sds_write (Ptr a) 0 ?ys w else Some w) = Some (with_cells (?C(a \<mapsto> h\<lparr>h_buf := b\<rparr>)) w)
      \<and> starts b ?ys \<and> length b = length (h_buf h)"
  proof (cases "?sp = 0")
    case True
    then have "?ys = take ?n xs" using T(1) by simp
    then have "starts (h_buf h) ?ys" using starts_prefix [of "h_buf h" "take ?n xs" "drop ?n xs @ [0]"] H(5) by (simp flip: append_assoc)
    then show ?thesis using True w by (intro exI [of _ "h_buf h"]) simp
  next
    case False
    have "length ([] :: bytes) + length ?ys \<le> length (h_buf h)" using n le H(2,4) by simp
    from append_cell [OF starts_Nil this refl, of a ?C w] False show ?thesis by (simp flip: w)
  qed
  then obtain b where b: "(if ?sp \<noteq> 0 then sds_write (Ptr a) 0 ?ys w else Some w) = Some (with_cells (?C(a \<mapsto> h\<lparr>h_buf := b\<rparr>)) w)"
    "starts b ?ys" "length b = length (h_buf h)" by blast
  have "starts (h_buf (h\<lparr>h_buf := b\<rparr>)) ?ys" "length ?ys + length [0 :: 8 word] \<le> length (h_buf (h\<lparr>h_buf := b\<rparr>))" "?n = length ?ys"
    using b(2,3) n le H(2,4) by simp_all
  from append_cell [OF this, of a ?C w] b(3) obtain c where
    c: "sds_write (Ptr a) ?n [0] (with_cells (?C(a \<mapsto> h\<lparr>h_buf := b\<rparr>)) w) = Some (with_cells (?C(a \<mapsto> h\<lparr>h_buf := c\<rparr>)) w)"
      "starts c (?ys @ [0])" "length c = length (h_buf h)" by auto
  let ?h = "h\<lparr>h_buf := c, h_len := ?n\<rparr>"
  have "length xs \<noteq> 0" "?ep + 1 - ?sp = ?n" using False by simp_all
  moreover have "sdslen (Ptr a) w = Some (length xs)" "sds_bytes (Ptr a) (length xs) w = Some xs"
    using sdslen_ok [OF at] sds_bytes_ok [OF at, of "length xs"] by simp_all
  ultimately have "sdstrim (Ptr a) (Ptr cset) w = Some (Ptr a, with_cells (?C(a \<mapsto> ?h)) w)"
    by (simp only: sdstrim_def Option.bind.simps prod.case ptr.simps ptr.sel if_False Let_def T(1) b(1) c(1) at_cell)
  moreover have "good_hdr ?h ?ys" using H(2,3,4) c(2,3) n le by (simp add: good_hdr_def sized_hdr_def)
  moreover have "becomes w w (?C(a \<mapsto> h)) 0 []" using becomes_refl [OF assms(1)] h(1) by (simp add: fun_upd_idem)
  from becomes_with [OF this] have "becomes w (with_cells (?C(a \<mapsto> ?h)) w) (?C(a := None, a \<mapsto> ?h)) 0 []" by simp
  ultimately show ?thesis by (auto simp: edits_def)
qed

section \<open>Comparing\<close>

text \<open>The order of strings: bytewise, and a proper prefix is smaller.\<close>

fun sds_order :: "bytes \<Rightarrow> bytes \<Rightarrow> int" where
  "sds_order [] [] = 0"
| "sds_order [] (_ # _) = - 1"
| "sds_order (_ # _) [] = 1"
| "sds_order (x # xs) (y # ys) = (if x < y then - 1 else if y < x then 1 else sds_order xs ys)"

lemma memcmp_order:
  "(let c = memcmp (take (min (length xs) (length ys)) xs) (take (min (length xs) (length ys)) ys) in
     if c = 0 then (if length ys < length xs then 1 else if length xs < length ys then - 1 else 0) else c) = sds_order xs ys"
  by (induction xs ys rule: sds_order.induct) (auto simp: Let_def)

lemma sdscmp_ok:
  assumes "sds_at w s xs" and "sds_at w t ys"
  shows "sdscmp s t w = Some (sds_order xs ys)"
proof -
  have m: "(if length xs < length ys then length xs else length ys) = min (length xs) (length ys)" by simp
  show ?thesis using sdslen_ok [OF assms(1)] sdslen_ok [OF assms(2)]
      sds_bytes_ok [OF assms(1), of "min (length xs) (length ys)"] sds_bytes_ok [OF assms(2), of "min (length xs) (length ys)"]
    by (simp add: sdscmp_def m memcmp_order [symmetric] Let_def)
qed

lemma sds_order_laws:
  "sds_order xs ys = 0 \<longleftrightarrow> xs = ys" "sds_order ys xs = - sds_order xs ys"
  "sds_order xs ys < 0 \<Longrightarrow> sds_order ys zs < 0 \<Longrightarrow> sds_order xs zs < 0"
proof -
  show "sds_order xs ys = 0 \<longleftrightarrow> xs = ys" "sds_order ys xs = - sds_order xs ys"
    by (induction xs ys rule: sds_order.induct) auto
  show "sds_order xs ys < 0 \<Longrightarrow> sds_order ys zs < 0 \<Longrightarrow> sds_order xs zs < 0"
  proof (induction xs ys arbitrary: zs rule: sds_order.induct)
    case (2 y ys)
    then show ?case by (cases zs) auto
  next
    case (4 x xs y ys)
    then show ?case by (cases zs) (auto split: if_splits)
  qed auto
qed

end
