(* ===== verification/Sds_Text.thy ===== *)
theory Sds_Text
  imports Sds_Ops
begin

text \<open>
  The operations of \<open>sds.c\<close> that build new strings: formatted output, search, replacement, joining and
  splitting, against reference functions on lists of bytes.
\<close>

section \<open>A string under construction\<close>

text \<open>\<open>building w w1 q b h\<close>: since \<open>w\<close>, the call has allocated the string \<open>b\<close> with header \<open>h\<close> and
  changed nothing else.\<close>

definition building :: "sds_world \<Rightarrow> sds_world \<Rightarrow> nat \<Rightarrow> sdshdr \<Rightarrow> bool" where
  "building w w1 b h \<longleftrightarrow> store_ok w \<and> fresh w \<le> b \<and> b < fresh w1 \<and> becomes w w1 ((cells_of w)(b \<mapsto> h)) 1 []"

lemma buildingD:
  assumes "building w w1 b h"
  shows "fresh w \<le> b" "b < fresh w1" "becomes w w1 ((cells_of w)(b \<mapsto> h)) 1 []" "cells_of w b = None" "store_ok w1"
    "cells_of w1 b = Some h" "w1 = with_cells ((cells_of w)(b \<mapsto> h)) w1"
proof -
  from assms show b: "fresh w \<le> b" "b < fresh w1" "becomes w w1 ((cells_of w)(b \<mapsto> h)) 1 []" by (simp_all add: building_def)
  show "store_ok w1" "cells_of w1 b = Some h" using becomesD(1,2) [OF b(3)] by simp_all
  show "cells_of w b = None" using assms by (auto simp: building_def store_ok_def not_le [symmetric])
  show "w1 = with_cells ((cells_of w)(b \<mapsto> h)) w1" by (rule world_cells [symmetric]) (rule becomesD(2) [OF b(3)])
qed

lemma building_set: "building w w1 b h \<Longrightarrow> building w (with_cells ((cells_of w)(b \<mapsto> h')) w1) b h'"
  using becomes_with [of w w1 "cells_of w" b h 1 "[]" h'] by (simp add: building_def)

lemma building_done: "building w w1 b h \<Longrightarrow> good_hdr h xs \<Longrightarrow> creates xs w (Ptr b) w1"
  by (auto simp: building_def creates_def)

lemma discard_ok:
  assumes "building w w1 b h"
  shows "\<exists>w2. sdsfree (Ptr b) w1 = Some w2 \<and> becomes w w2 (cells_of w) 0 [] \<and> fresh w2 = fresh w1"
proof -
  note B = buildingD [OF assms]
  from sdsfree_ok [OF B(5,6)] obtain w2 where
    f: "sdsfree (Ptr b) w1 = Some w2" "becomes w1 w2 ((cells_of w1)(b := None)) (- 1) []" "fresh w2 = fresh w1" by blast
  have "(cells_of w1)(b := None) = cells_of w" using becomesD(2) [OF B(3)] B(4) by (simp add: fun_upd_idem)
  then have "becomes w w2 (cells_of w) 0 []" using becomes_trans [OF B(3) f(2)] by simp
  then show ?thesis using f(1,3) by blast
qed

lemma start_ok:
  assumes "store_ok w"
  shows "\<exists>q w1. sdsnew (Ptr []) w = Some (q, w1) \<and> fresh w1 \<le> Suc (fresh w) \<and> (room_for 0 w \<longrightarrow> q \<noteq> NULL)
    \<and> (q = NULL \<and> becomes w w1 (cells_of w) 0 [] \<or> (\<exists>b h. q = Ptr b \<and> building w w1 b h \<and> good_hdr h []))"
proof -
  have "0 \<notin> set ([] :: bytes)" "length ([] :: bytes) + 17 \<le> SIZE_MAX" by (simp_all add: SIZE_MAX_def)
  from sdsnew_ok [OF assms this] obtain q w1 where "sdsnew (Ptr []) w = Some (q, w1)" "creates [] w q w1" "fresh w1 \<le> Suc (fresh w)"
    "room_for 0 w \<longrightarrow> q \<noteq> NULL" by auto
  then show ?thesis using assms unfolding creates_def building_def by blast
qed

lemma grow_ok:
  assumes b: "building w w1 b h" and h: "sized_hdr h k" "starts (h_buf h) zs" and n: "k + n + 1041 \<le> SIZE_MAX"
  shows "\<exists>q w2. sds_reserve_for_additional (Ptr b) n w1 = Some (q, w2) \<and> fresh w2 \<le> Suc (fresh w1)
    \<and> (room_for (grown_to (k + n)) w1 \<longrightarrow> q \<noteq> NULL)
    \<and> (q = NULL \<and> building w w2 b h
       \<or> (\<exists>c h'. q = Ptr c \<and> building w w2 c h' \<and> sized_hdr h' k \<and> starts (h_buf h') zs \<and> k + n \<le> h_alloc h'))"
proof -
  note B = buildingD [OF b]
  from reserve_sized [OF B(5,6) h n] obtain q w2 where
    r: "sds_reserve_for_additional (Ptr b) n w1 = Some (q, w2)" "room_for (grown_to (k + n)) w1 \<longrightarrow> q \<noteq> NULL" "fresh w2 \<le> Suc (fresh w1)"
      "q = NULL \<and> becomes w1 w2 (cells_of w1) 0 []
     \<or> (\<exists>c h'. q = Ptr c \<and> (c = b \<or> fresh w1 \<le> c \<and> c < fresh w2) \<and> sized_hdr h' k \<and> starts (h_buf h') zs \<and> k + n \<le> h_alloc h'
          \<and> h_alloc h' \<le> max (h_alloc h) (grown_to (k + n)) \<and> becomes w1 w2 ((cells_of w1)(b := None, c \<mapsto> h')) 0 [])"
    by (elim exE conjE) (rule that)
  have C: "(cells_of w1)(b := None) = cells_of w" using becomesD(2) [OF B(3)] B(4) by (simp add: fun_upd_idem)
  have ok: "store_ok w" using b by (simp add: building_def)
  from r(4) have "q = NULL \<and> building w w2 b h
       \<or> (\<exists>c h'. q = Ptr c \<and> building w w2 c h' \<and> sized_hdr h' k \<and> starts (h_buf h') zs \<and> k + n \<le> h_alloc h')"
  proof
    assume q: "q = NULL \<and> becomes w1 w2 (cells_of w1) 0 []"
    have "becomes w w2 ((cells_of w)(b \<mapsto> h)) 1 []" using becomes_trans [OF B(3) conjunct2 [OF q]] becomesD(2) [OF B(3)] by simp
    moreover have "b < fresh w2" using q B(2) becomesD(3) less_le_trans by blast
    ultimately show ?thesis using q ok B(1) by (simp add: building_def)
  next
    assume "\<exists>c h'. q = Ptr c \<and> (c = b \<or> fresh w1 \<le> c \<and> c < fresh w2) \<and> sized_hdr h' k \<and> starts (h_buf h') zs \<and> k + n \<le> h_alloc h'
          \<and> h_alloc h' \<le> max (h_alloc h) (grown_to (k + n)) \<and> becomes w1 w2 ((cells_of w1)(b := None, c \<mapsto> h')) 0 []"
    then obtain c h' where q: "q = Ptr c" "c = b \<or> fresh w1 \<le> c \<and> c < fresh w2" "sized_hdr h' k" "starts (h_buf h') zs" "k + n \<le> h_alloc h'"
      "becomes w1 w2 ((cells_of w)(c \<mapsto> h')) 0 []" unfolding C by blast
    have "becomes w w2 ((cells_of w)(c \<mapsto> h')) 1 []" using becomes_trans [OF B(3) q(6)] by simp
    moreover have "fresh w \<le> c" "c < fresh w2" using q(2) B(1,2) becomesD(3) [OF q(6)] becomesD(3) [OF B(3)] by auto
    ultimately show ?thesis using q ok by (auto simp: building_def)
  qed
  then show ?thesis using r(1-3) by blast
qed

text \<open>Writing behind what is written.\<close>

lemma build_write:
  assumes b: "building w w1 b h" and h: "sized_hdr h k" "starts (h_buf h) xs" and n: "length xs + length ys \<le> h_alloc h + 1"
  shows "\<exists>w2 h'. sds_write (Ptr b) (length xs) ys w1 = Some w2 \<and> building w w2 b h' \<and> sized_hdr h' k \<and> starts (h_buf h') (xs @ ys)
    \<and> h_alloc h' = h_alloc h \<and> fresh w2 = fresh w1 \<and> (no_fail w1 \<longrightarrow> no_fail w2)"
proof -
  note B = buildingD [OF b]
  have "length xs + length ys \<le> length (h_buf h)" using n sized_hdrD(4) [OF h(1)] by simp
  from append_cell [OF h(2) this refl, of b "cells_of w" w1] obtain c where
    c: "sds_write (Ptr b) (length xs) ys (with_cells ((cells_of w)(b \<mapsto> h)) w1) = Some (with_cells ((cells_of w)(b \<mapsto> h\<lparr>h_buf := c\<rparr>)) w1)"
      "starts c (xs @ ys)" "length c = length (h_buf h)" by blast
  have "sized_hdr (h\<lparr>h_buf := c\<rparr>) k" using h(1) c(3) by (simp add: sized_hdr_def)
  then show ?thesis using c(1,2) building_set [OF b, of "h\<lparr>h_buf := c\<rparr>"] unfolding B(7) [symmetric]
    by (intro exI [of _ "with_cells ((cells_of w)(b \<mapsto> h\<lparr>h_buf := c\<rparr>)) w1"] exI [of _ "h\<lparr>h_buf := c\<rparr>"]) simp
qed

lemma build_write0:
  assumes b: "building w w1 b h" and h: "sized_hdr h k" and n: "length ys \<le> h_alloc h + 1"
  shows "\<exists>w2 h'. sds_write (Ptr b) 0 ys w1 = Some w2 \<and> building w w2 b h' \<and> sized_hdr h' k \<and> starts (h_buf h') ys
    \<and> h_alloc h' = h_alloc h \<and> fresh w2 = fresh w1 \<and> (no_fail w1 \<longrightarrow> no_fail w2)"
  using build_write [OF b h starts_Nil] n by simp

lemma build_close:
  assumes b: "building w w1 b h" and h: "sized_hdr h k" "starts (h_buf h) (xs @ [0])"
  shows "\<exists>w2. sds_set_len (Ptr b) (length xs) w1 = Some w2 \<and> creates xs w (Ptr b) w2 \<and> fresh w2 = fresh w1"
proof -
  let ?h = "h\<lparr>h_len := length xs\<rparr>"
  note S = sized_hdrD [OF h(1)]
  have "length xs + 1 \<le> h_alloc h + 1" using starts_length [OF h(2)] S(4) by simp
  then have "good_hdr ?h xs" using S(3,4) h(2) by (simp add: good_hdr_def sized_hdr_def)
  from building_done [OF building_set [OF b] this]
  have "creates xs w (Ptr b) (with_cells ((cells_of w)(b \<mapsto> ?h)) w1)" .
  moreover have "sds_set_len (Ptr b) (length xs) w1 = Some (with_cells ((cells_of w)(b \<mapsto> ?h)) w1)"
    by (subst buildingD(7) [OF b]) (rule at_cell)
  ultimately show ?thesis by simp
qed

section \<open>Formatted output\<close>

definition printable :: "bytes option \<Rightarrow> bool" where
  "printable out \<longleftrightarrow> (case out of None \<Rightarrow> False | Some xs \<Rightarrow> length xs \<le> 2147483647)"

lemma newfmt_fits:
  assumes b: "building w w1 b h" "sized_hdr h 0" and xs: "length xs < n" "n \<le> h_alloc h" "length xs \<le> 2147483647"
  shows "\<exists>w2. newfmt_loop (Some xs) (Ptr b) n w1 = Some (Ptr b, w2) \<and> creates xs w (Ptr b) w2 \<and> fresh w2 = fresh w1"
proof -
  have "length (xs @ [0]) \<le> h_alloc h + 1" using xs(1,2) by simp
  from build_write0 [OF b this] obtain w2 h' where w2: "sds_write (Ptr b) 0 (xs @ [0]) w1 = Some w2" "building w w2 b h'"
    "sized_hdr h' 0" "starts (h_buf h') (xs @ [0])" "fresh w2 = fresh w1" by blast
  from build_close [OF w2(2-4)] obtain w3 where w3: "sds_set_len (Ptr b) (length xs) w2 = Some w3" "creates xs w (Ptr b) w3"
    "fresh w3 = fresh w2" by blast
  have "vsnprintf (Some xs) (Ptr b) n w1 = Some (int (length xs), w2)" using xs w2(1) by (simp add: vsnprintf_def)
  then have "newfmt_loop (Some xs) (Ptr b) n w1 = Some (Ptr b, w3)" using xs(1) w3(1) by (subst newfmt_loop.simps) simp
  then show ?thesis using w3(2,3) w2(5) by simp
qed

lemma newfmt_refused:
  assumes b: "building w w1 b h" and out: "\<not> printable out"
  shows "\<exists>w2. newfmt_loop out (Ptr b) n w1 = Some (NULL, w2) \<and> becomes w w2 (cells_of w) 0 [] \<and> fresh w2 = fresh w1"
proof -
  from discard_ok [OF b] obtain w2 where w2: "sdsfree (Ptr b) w1 = Some w2" "becomes w w2 (cells_of w) 0 []" "fresh w2 = fresh w1" by blast
  have "vsnprintf out (Ptr b) n w1 = Some (- 1, w1)" using out by (auto simp: vsnprintf_def printable_def not_le split: option.splits)
  then have "newfmt_loop out (Ptr b) n w1 = Some (NULL, w2)" using w2(1) by (subst newfmt_loop.simps) simp
  then show ?thesis using w2 by blast
qed

lemma newfmt_loop_ok:
  assumes b: "building w w1 b h" "sized_hdr h 0" and n: "n \<le> h_alloc h"
  shows "\<exists>q w2. newfmt_loop out (Ptr b) n w1 = Some (q, w2) \<and> fresh w2 \<le> Suc (fresh w1)
    \<and> (if printable out then creates (the out) w q w2 \<and> (no_fail w1 \<longrightarrow> fresh w1 < SIZE_MAX \<longrightarrow> q \<noteq> NULL)
       else q = NULL \<and> becomes w w2 (cells_of w) 0 [])"
proof (cases "printable out")
  case False
  then show ?thesis using newfmt_refused [OF b(1) False, of n] by auto
next
  case True
  then obtain xs where xs: "out = Some xs" "length xs \<le> 2147483647" by (auto simp: printable_def split: option.splits)
  show ?thesis
  proof (cases "length xs < n")
    case True
    from newfmt_fits [OF b True n xs(2)] \<open>printable out\<close> xs(1) show ?thesis by auto
  next
    case False
    have "\<exists>w2 h'. vsnprintf out (Ptr b) n w1 = Some (int (length xs), w2) \<and> building w w2 b h' \<and> sized_hdr h' 0 \<and> fresh w2 = fresh w1
      \<and> (no_fail w1 \<longrightarrow> no_fail w2)"
    proof (cases "n = 0")
      case False
      have "length (take (n - 1) xs @ [0]) \<le> h_alloc h + 1" using n by simp
      from build_write0 [OF b this] False xs show ?thesis by (auto simp: vsnprintf_def)
    qed (use b xs in \<open>auto simp: vsnprintf_def\<close>)
    then obtain w2 h' where w2: "vsnprintf out (Ptr b) n w1 = Some (int (length xs), w2)" "building w w2 b h'" "sized_hdr h' 0" "fresh w2 = fresh w1"
      "no_fail w1 \<longrightarrow> no_fail w2" by blast
    have "0 + (length xs + 1) + 1041 \<le> SIZE_MAX" using xs(2) by (simp add: SIZE_MAX_def)
    from grow_ok [OF w2(2,3) starts_Nil this] obtain q w3 where w3: "sds_reserve_for_additional (Ptr b) (length xs + 1) w2 = Some (q, w3)"
      "fresh w3 \<le> Suc (fresh w2)" "room_for (grown_to (0 + (length xs + 1))) w2 \<longrightarrow> q \<noteq> NULL"
      "q = NULL \<and> building w w3 b h' \<or> (\<exists>c h1. q = Ptr c \<and> building w w3 c h1 \<and> sized_hdr h1 0 \<and> starts (h_buf h1) [] \<and> 0 + (length xs + 1) \<le> h_alloc h1)"
      by (elim exE conjE) (rule that)
    have sum: "sz_add (length xs) 1 = length xs + 1" using xs(2) by (simp add: SIZE_MAX_def)
    have f: "newfmt_loop out (Ptr b) n w1 = (if q = NULL then do { w4 \<leftarrow> sdsfree (Ptr b) w3; Some (NULL, w4) } else newfmt_loop out q (length xs + 1) w3)"
      using False w2(1) w3(1) sum by (subst newfmt_loop.simps) simp
    from w3(4) show ?thesis
    proof (elim disjE conjE exE)
      assume q: "q = NULL" "building w w3 b h'"
      from discard_ok [OF q(2)] obtain w4 where w4: "sdsfree (Ptr b) w3 = Some w4" "becomes w w4 (cells_of w) 0 []" "fresh w4 = fresh w3" by blast
      have "room_for (grown_to (0 + (length xs + 1))) w2" if "no_fail w1" "fresh w1 < SIZE_MAX"
        using that w2(4,5) xs(2) grown_to_bounds(3) [of "length xs + 1"] by (simp add: room_for_def PTRDIFF_MAX_def)
      then show ?thesis using f q(1) w4 w3(2,3) w2(4) \<open>printable out\<close> by (auto simp: creates_def)
    next
      fix c h1
      assume q: "q = Ptr c" "building w w3 c h1" "sized_hdr h1 0" "0 + (length xs + 1) \<le> h_alloc h1"
      from newfmt_fits [OF q(2,3), of xs "length xs + 1"] q(4) xs(2) obtain w4 where
        "newfmt_loop out (Ptr c) (length xs + 1) w3 = Some (Ptr c, w4)" "creates xs w (Ptr c) w4" "fresh w4 = fresh w3" unfolding xs(1) by auto
      then show ?thesis using f q(1) w3(2) w2(4) \<open>printable out\<close> xs(1) by auto
    qed
  qed
qed

lemma sdsnewfmt_ok:
  assumes w: "store_ok w" and f: "2 * strlen fmt + 1041 \<le> SIZE_MAX"
  shows "\<exists>q w'. sdsnewfmt expand fmt ap w = Some (q, w')
    \<and> (if printable (expand fmt ap) then creates (the (expand fmt ap)) w q w'
         \<and> (room_for (grown_to (2 * strlen fmt)) w \<longrightarrow> fresh w + 3 \<le> SIZE_MAX \<longrightarrow> q \<noteq> NULL)
       else q = NULL \<and> becomes w w' (cells_of w) 0 [])"
proof -
  let ?out = "expand fmt ap"
  from start_ok [OF w] obtain q w1 where s: "sdsnew (Ptr []) w = Some (q, w1)" "fresh w1 \<le> Suc (fresh w)" "room_for 0 w \<longrightarrow> q \<noteq> NULL"
    "q = NULL \<and> becomes w w1 (cells_of w) 0 [] \<or> (\<exists>b h. q = Ptr b \<and> building w w1 b h \<and> good_hdr h [])" by blast
  have n: "sz_mul (strlen fmt) 2 = 2 * strlen fmt" using f by simp
  have room: "room_for 0 w" if "room_for (grown_to (2 * strlen fmt)) w" using that by (simp add: room_for_def)
  from s(4) show ?thesis
  proof (elim disjE conjE exE)
    assume "q = NULL" "becomes w w1 (cells_of w) 0 []"
    then show ?thesis using s(1,3) room by (auto simp: sdsnewfmt_def sdsnewfmtva_def creates_def)
  next
    fix b h
    assume b: "q = Ptr b" "building w w1 b h" "good_hdr h []"
    have "sized_hdr h 0" "0 + 2 * strlen fmt + 1041 \<le> SIZE_MAX" using b(3) f by (simp_all add: good_hdr_def)
    from grow_ok [OF b(2) this(1) starts_Nil this(2)] obtain p w2 where g: "sds_reserve_for_additional (Ptr b) (2 * strlen fmt) w1 = Some (p, w2)"
      "fresh w2 \<le> Suc (fresh w1)" "room_for (grown_to (0 + 2 * strlen fmt)) w1 \<longrightarrow> p \<noteq> NULL"
      "p = NULL \<and> building w w2 b h \<or> (\<exists>c h1. p = Ptr c \<and> building w w2 c h1 \<and> sized_hdr h1 0 \<and> starts (h_buf h1) [] \<and> 0 + 2 * strlen fmt \<le> h_alloc h1)"
      by (elim exE conjE) (rule that)
    have e: "sdsnewfmt expand fmt ap w = (if p = NULL then do { w3 \<leftarrow> sdsfree (Ptr b) w2; Some (NULL, w3) } else newfmt_loop ?out p (2 * strlen fmt) w2)"
      using s(1) b(1) n g(1) by (simp add: sdsnewfmt_def sdsnewfmtva_def)
    have more: "room_for (grown_to (0 + 2 * strlen fmt)) w1" if "room_for (grown_to (2 * strlen fmt)) w" "fresh w + 3 \<le> SIZE_MAX"
      using that s(2) becomesD(6) [OF buildingD(3) [OF b(2)]] by (simp add: room_for_def)
    from g(4) show ?thesis
    proof (elim disjE conjE exE)
      assume q: "p = NULL" "building w w2 b h"
      from discard_ok [OF q(2)] obtain w3 where "sdsfree (Ptr b) w2 = Some w3" "becomes w w3 (cells_of w) 0 []" by blast
      then show ?thesis using e q(1) g(3) more by (auto simp: creates_def)
    next
      fix c h1
      assume q: "p = Ptr c" "building w w2 c h1" "sized_hdr h1 0" "0 + 2 * strlen fmt \<le> h_alloc h1"
      from newfmt_loop_ok [OF q(2,3), of "2 * strlen fmt" ?out] q(4) obtain r w3 where
        r: "newfmt_loop ?out (Ptr c) (2 * strlen fmt) w2 = Some (r, w3)"
          "if printable ?out then creates (the ?out) w r w3 \<and> (no_fail w2 \<longrightarrow> fresh w2 < SIZE_MAX \<longrightarrow> r \<noteq> NULL)
           else r = NULL \<and> becomes w w3 (cells_of w) 0 []" by auto
      have "no_fail w2" if "no_fail w" using that becomesD(6) [OF buildingD(3) [OF q(2)]] by blast
      then show ?thesis using e q(1) r s(2) g(2) by (auto simp: room_for_def split: if_splits)
    qed
  qed
qed

section \<open>Searching\<close>

text \<open>The reference: the first place at which a list occurs in another one.\<close>

fun find_sub :: "'a list \<Rightarrow> 'a list \<Rightarrow> nat option" where
  "find_sub sep xs = (if take (length sep) xs = sep then Some 0
     else case xs of [] \<Rightarrow> None | _ # ys \<Rightarrow> map_option Suc (find_sub sep ys))"

declare find_sub.simps [simp del]

lemma find_sub_Some:
  "find_sub sep xs = Some k \<longleftrightarrow> take (length sep) (drop k xs) = sep \<and> k \<le> length xs \<and> (\<forall>j < k. take (length sep) (drop j xs) \<noteq> sep)"
proof (induction xs arbitrary: k)
  case Nil
  show ?case by (subst find_sub.simps) auto
next
  case (Cons x xs)
  show ?case
  proof (cases k)
    case 0
    then show ?thesis by (subst find_sub.simps) (auto split: option.splits)
  next
    case (Suc j)
    have "(\<forall>i < Suc j. take (length sep) (drop i (x # xs)) \<noteq> sep)
        \<longleftrightarrow> take (length sep) (x # xs) \<noteq> sep \<and> (\<forall>i < j. take (length sep) (drop i xs) \<noteq> sep)"
      by (simp add: All_less_Suc2)
    then show ?thesis using Suc Cons.IH [of j] by (subst find_sub.simps) auto
  qed
qed

lemma all_le_Suc: "(\<forall>k \<le> Suc n. P k) \<longleftrightarrow> P 0 \<and> (\<forall>k \<le> n. P (Suc k))"
  by (metis Suc_le_mono le0 not0_implies_Suc)

lemma find_sub_None: "find_sub sep xs = None \<longleftrightarrow> (\<forall>k \<le> length xs. take (length sep) (drop k xs) \<noteq> sep)"
proof (induction xs)
  case Nil
  show ?case by (subst find_sub.simps) auto
next
  case (Cons x xs)
  have "(\<forall>k \<le> Suc (length xs). take (length sep) (drop k (x # xs)) \<noteq> sep)
      \<longleftrightarrow> take (length sep) (x # xs) \<noteq> sep \<and> (\<forall>k \<le> length xs. take (length sep) (drop k xs) \<noteq> sep)"
    by (simp add: all_le_Suc)
  then show ?case using Cons.IH by (subst find_sub.simps) simp
qed

lemma find_sub_bound:
  assumes "find_sub sep xs = Some k"
  shows "k + length sep \<le> length xs" "take (length sep) (drop k xs) = sep" "take k xs @ sep @ drop (k + length sep) xs = xs"
proof -
  from assms have k: "take (length sep) (drop k xs) = sep" "k \<le> length xs" by (simp_all add: find_sub_Some)
  have "length (take (length sep) (drop k xs)) = length sep" by (simp only: k(1))
  then show "k + length sep \<le> length xs" using k(2) by simp
  show "take (length sep) (drop k xs) = sep" by (rule k(1))
  have "sep @ drop (length sep) (drop k xs) = drop k xs" using append_take_drop_id [of "length sep" "drop k xs"] by (simp only: k(1))
  then show "take k xs @ sep @ drop (k + length sep) xs = xs" by (metis append_take_drop_id drop_drop add.commute)
qed

lemma find_sub_shorter: "sep \<noteq> [] \<Longrightarrow> find_sub sep xs = Some k \<Longrightarrow> length (drop (k + length sep) xs) < length xs"
  using find_sub_bound(1) [of sep xs k] by (cases sep) auto

lemma find_loop_ok:
  fixes hay needle :: bytes
  assumes n: "0 < n" "n \<le> length needle" and h: "m \<le> length hay" "m < SIZE_MAX"
    and i: "i + n \<le> Suc m" "\<forall>j < i. take n (drop j (take m hay)) \<noteq> take n needle"
  shows "find_bytes_loop hay m needle n i = Some (case find_sub (take n needle) (take m hay) of None \<Rightarrow> NULL | Some k \<Rightarrow> Ptr k)"
  using i
proof (induction "Suc m - i" arbitrary: i rule: less_induct)
  case (less i)
  have add: "sz_add i n = i + n" "sz_add i 1 = i + 1" using less.prems(1) n(1) h(2) by simp_all
  have len: "length (take n needle) = n" using n(2) by simp
  show ?case
  proof (cases "i + n \<le> m")
    case True
    then have r: "region_read (drop i hay) n = Some (take n (drop i (take m hay)))" using h(1)
      by (simp add: drop_take min_def)
    have "length (take n (drop i (take m hay))) = n" using True h(1) by simp
    with len have c: "memcmp (take n (drop i (take m hay))) (take n needle) = 0 \<longleftrightarrow> take n (drop i (take m hay)) = take n needle"
      by (intro memcmp_eq) simp
    show ?thesis
    proof (cases "take n (drop i (take m hay)) = take n needle")
      case eq: True
      then have "find_sub (take n needle) (take m hay) = Some i"
        using less.prems(2) True h(1) len by (simp add: find_sub_Some)
      then show ?thesis using True add(1) r c eq n(2) by (subst find_bytes_loop.simps) simp
    next
      case ne: False
      have "\<forall>j < i + 1. take n (drop j (take m hay)) \<noteq> take n needle" using less.prems(2) ne by (auto simp: less_Suc_eq)
      from less.hyps [OF _ _ this] less.prems(1) True n(1)
      have "find_bytes_loop hay m needle n (i + 1) = Some (case find_sub (take n needle) (take m hay) of None \<Rightarrow> NULL | Some k \<Rightarrow> Ptr k)" by simp
      then show ?thesis using True add r c ne n(2) by (subst find_bytes_loop.simps) simp
    qed
  next
    case False
    have "find_sub (take n needle) (take m hay) = None"
    proof (subst find_sub_None, intro allI impI)
      fix k assume "k \<le> length (take m hay)"
      show "take (length (take n needle)) (drop k (take m hay)) \<noteq> take n needle"
      proof (cases "k < i")
        case False
        then have "length (take n (drop k (take m hay))) < n" using \<open>\<not> i + n \<le> m\<close> h(1) n(1) by simp
        then show ?thesis using len by (metis less_irrefl)
      qed (use less.prems(2) len in auto)
    qed
    then show ?thesis using False add(1) by (subst find_bytes_loop.simps) simp
  qed
qed

lemma sds_find_bytes_ok:
  fixes hay needle :: bytes
  assumes "0 < n" "n \<le> length needle" "m \<le> length hay" "m < SIZE_MAX"
  shows "sds_find_bytes hay m needle n = Some (case find_sub (take n needle) (take m hay) of None \<Rightarrow> NULL | Some k \<Rightarrow> Ptr k)"
proof (cases "m < n")
  case True
  have "find_sub (take n needle) (take m hay) = None" if "find_sub (take n needle) (take m hay) = Some k" for k
    using find_sub_bound(1) [OF that] True assms(2,3) by simp
  then have "find_sub (take n needle) (take m hay) = None" by (cases "find_sub (take n needle) (take m hay)") auto
  then show ?thesis using True by (simp add: sds_find_bytes_def)
qed (use find_loop_ok [OF assms, of 0] assms(1) in \<open>simp add: sds_find_bytes_def\<close>)

section \<open>Splitting, joining and replacing on lists\<close>

function split_on :: "'a list \<Rightarrow> 'a list \<Rightarrow> 'a list list" where
  "split_on sep xs = (if sep = [] then [xs] else case find_sub sep xs of
       None \<Rightarrow> [xs]
     | Some k \<Rightarrow> take k xs # split_on sep (drop (k + length sep) xs))"
  by auto
termination by (relation "measure (\<lambda>(sep, xs). length xs)") (use find_sub_shorter in auto)

declare split_on.simps [simp del]

fun join_with :: "'a list \<Rightarrow> 'a list list \<Rightarrow> 'a list" where
  "join_with sep [] = []"
| "join_with sep [x] = x"
| "join_with sep (x # y # zs) = x @ sep @ join_with sep (y # zs)"

lemma split_on_neq [simp]: "split_on sep xs \<noteq> []"
  by (subst split_on.simps) (simp split: option.splits)

lemma join_with_Cons: "ps \<noteq> [] \<Longrightarrow> join_with sep (p # ps) = p @ sep @ join_with sep ps"
  by (cases ps) simp_all

text \<open>Joining the parts again gives the string.\<close>

lemma join_split: "join_with sep (split_on sep xs) = xs"
proof (induction sep xs rule: split_on.induct)
  case (1 sep xs)
  show ?case
  proof (cases "sep = [] \<or> find_sub sep xs = None")
    case False
    then obtain k where k: "sep \<noteq> []" "find_sub sep xs = Some k" by auto
    show ?thesis using 1 [OF k] k find_sub_bound(3) [OF k(2)] by (subst split_on.simps) (simp add: join_with_Cons)
  qed (subst split_on.simps; auto)
qed

text \<open>No part contains the separator.\<close>

lemma split_on_parts: "sep \<noteq> [] \<Longrightarrow> p \<in> set (split_on sep xs) \<Longrightarrow> find_sub sep p = None"
proof (induction sep xs rule: split_on.induct)
  case (1 sep xs)
  show ?case
  proof (cases "find_sub sep xs")
    case None
    then show ?thesis using 1(2,3) by (subst (asm) split_on.simps) simp
  next
    case (Some k)
    have "find_sub sep (take k xs) = None"
    proof (rule ccontr)
      assume "find_sub sep (take k xs) \<noteq> None"
      then obtain j where j: "find_sub sep (take k xs) = Some j" by auto
      note J = find_sub_bound(1,2) [OF j]
      have "j + length sep \<le> k" using J(1) by simp
      then have "take (length sep) (drop j (take k xs)) = take (length sep) (drop j xs)" "j < k" using 1(2) by (simp_all add: drop_take min_def) (cases sep; simp)
      moreover have "\<forall>i < k. take (length sep) (drop i xs) \<noteq> sep" using Some by (simp add: find_sub_Some)
      ultimately show False using J(2) by metis
    qed
    then show ?thesis using 1(1) [OF 1(2) Some 1(2)] 1(2,3) Some by (subst (asm) split_on.simps) auto
  qed
qed

text \<open>The last two facts determine the parts, together with the leftmost choice.\<close>

definition replace_all :: "'a list \<Rightarrow> 'a list \<Rightarrow> 'a list \<Rightarrow> 'a list" where
  "replace_all old new xs = join_with new (split_on old xs)"

lemma replace_all_simps:
  "find_sub old xs = None \<Longrightarrow> replace_all old new xs = xs"
  "old \<noteq> [] \<Longrightarrow> find_sub old xs = Some k \<Longrightarrow> replace_all old new xs = take k xs @ new @ replace_all old new (drop (k + length old) xs)"
  unfolding replace_all_def by (subst split_on.simps, simp add: join_with_Cons)+

lemma replace_all_length:
  "old \<noteq> [] \<Longrightarrow> length (replace_all old new xs) + length old * (length (split_on old xs) - 1)
     = length xs + length new * (length (split_on old xs) - 1)"
proof (induction old xs rule: split_on.induct)
  case (1 old xs)
  show ?case
  proof (cases "find_sub old xs")
    case None
    then show ?thesis by (simp add: replace_all_simps split_on.simps)
  next
    case (Some k)
    let ?ys = "drop (k + length old) xs"
    have s: "split_on old xs = take k xs # split_on old ?ys" using Some 1(2) by (subst split_on.simps) simp
    obtain p ps where n: "split_on old ?ys = p # ps" by (cases "split_on old ?ys") simp_all
    obtain r where r: "length xs = k + length old + r" using find_sub_bound(1) [OF Some] by (metis le_Suc_ex)
    have "length (replace_all old new xs) = k + length new + length (replace_all old new ?ys)"
      using replace_all_simps(2) [OF 1(2) Some] find_sub_bound(1) [OF Some] by simp
    moreover have "length (replace_all old new ?ys) + length old * length ps = r + length new * length ps"
      using 1(1) [OF 1(2) Some 1(2)] n r by simp
    ultimately show ?thesis using s n r by simp
  qed
qed

end
