(* ===== verification/Sds_Build.thy ===== *)
theory Sds_Build
  imports Sds_Text
begin

text \<open>
  The contracts of \<open>sdsreplacelen\<close>, \<open>sdsjoinlen\<close> and \<open>sdssplitlen\<close>: they compute the reference functions
  of \<open>Sds_Text\<close>, or release what they took and return \<open>NULL\<close>.
\<close>

section \<open>The counting loop\<close>

text \<open>The part of a region from a cursor to its end.\<close>

definition rest_of :: "bytes \<Rightarrow> size_t \<Rightarrow> nat \<Rightarrow> bytes" where
  "rest_of source len c = take (len - c) (drop c source)"

lemma rest_of_simps:
  "rest_of source len 0 = take len source" "drop k (rest_of source len c) = rest_of source len (c + k)"
  "len \<le> length source \<Longrightarrow> length (rest_of source len c) = len - c"
  by (simp_all add: rest_of_def drop_take add.commute)

lemma find_rest:
  assumes n: "0 < n" "n \<le> length sep" and s: "len \<le> length source" "len < SIZE_MAX" and c: "c \<le> len"
  shows "sds_find_bytes (drop c source) (sz_sub len c) sep n
    = Some (case find_sub (take n sep) (rest_of source len c) of None \<Rightarrow> NULL | Some k \<Rightarrow> Ptr k)"
proof -
  have "sz_sub len c = len - c" using s(2) c by simp
  moreover have "len - c \<le> length (drop c source)" "len - c < SIZE_MAX" using s by auto
  ultimately show ?thesis using sds_find_bytes_ok [OF n, of "len - c" "drop c source"] by (simp add: rest_of_def)
qed

text \<open>What the loops know about a match.\<close>

lemma find_restD:
  assumes "find_sub S (rest_of source len c) = Some k" and "S \<noteq> []" and "len \<le> length source" "c \<le> len"
  shows "c + k + length S \<le> len" "drop (k + length S) (rest_of source len c) = rest_of source len (c + k + length S)"
    "take k (rest_of source len c) = take k (drop c source)" "len - (c + k + length S) < len - c"
    "split_on S (rest_of source len c) = take k (drop c source) # split_on S (rest_of source len (c + k + length S))"
proof -
  have "k + length S \<le> len - c" using find_sub_bound(1) [OF assms(1)] assms(3) by (simp add: rest_of_simps)
  then show le: "c + k + length S \<le> len" and "len - (c + k + length S) < len - c" using assms(2,4) by (auto simp: neq_Nil_conv)
  show d: "drop (k + length S) (rest_of source len c) = rest_of source len (c + k + length S)" by (simp add: rest_of_simps add.assoc)
  show t: "take k (rest_of source len c) = take k (drop c source)" using le by (simp add: rest_of_def min_def)
  show "split_on S (rest_of source len c) = take k (drop c source) # split_on S (rest_of source len (c + k + length S))"
    using assms(1,2) d t by (subst split_on.simps) simp
qed

lemma split_on_None: "find_sub S xs = None \<Longrightarrow> split_on S xs = [xs]"
  by (subst split_on.simps) simp

lemma split_count: "split_on S xs \<noteq> [] \<and> 0 < length (split_on S xs)"
  by simp

lemma split_on_length: "S \<noteq> [] \<Longrightarrow> length (split_on S xs) \<le> length xs + 1"
proof (induction S xs rule: split_on.induct)
  case (1 S xs)
  show ?case
  proof (cases "find_sub S xs")
    case (Some k)
    have "length (split_on S (drop (k + length S) xs)) \<le> length xs"
      using 1(1) [OF 1(2) Some 1(2)] find_sub_shorter [OF 1(2) Some] by simp
    then show ?thesis using Some 1(2) by (subst split_on.simps) simp
  qed (simp add: split_on_None)
qed

lemma count_matches_ok:
  assumes n: "0 < n" "n \<le> length sep" and s: "len \<le> length source" "len < SIZE_MAX"
    and c: "c \<le> len" "cnt + length (split_on (take n sep) (rest_of source len c)) \<le> SIZE_MAX"
  shows "count_matches_loop source len c sep n cnt = Some (cnt + (length (split_on (take n sep) (rest_of source len c)) - 1))"
  using c
proof (induction "len - c" arbitrary: c cnt rule: less_induct)
  case less
  let ?S = "take n sep"
  note f = find_rest [OF n s less.prems(1)]
  have S: "?S \<noteq> []" "length ?S = n" using n by auto
  show ?case
  proof (cases "find_sub ?S (rest_of source len c)")
    case None
    then show ?thesis using f by (subst count_matches_loop.simps) (simp add: split_on_None)
  next
    case (Some k)
    note D = find_restD [OF Some S(1) s(1) less.prems(1), unfolded S(2)]
    have "cnt + 1 + length (split_on ?S (rest_of source len (c + k + n))) \<le> SIZE_MAX" using less.prems(2) D(5) by simp
    from less.hyps [OF D(4,1) this] split_count [of ?S "rest_of source len (c + k + n)"]
    have "count_matches_loop source len (c + k + n) sep n (cnt + 1) = Some (cnt + length (split_on ?S (rest_of source len (c + k + n))))" by simp
    moreover have "sz_add cnt 1 = cnt + 1" using less.prems(2) D(5) by simp
    ultimately show ?thesis using f Some D(5) by (subst count_matches_loop.simps) simp
  qed
qed

section \<open>Replacing\<close>

lemma replace_fill_ok:
  assumes n: "0 < n" "n \<le> length old" and s: "len \<le> length source" "len < SIZE_MAX" and m: "m \<le> length new"
    and c: "c \<le> len" and b: "building w w1 b h" "sized_hdr h k" "starts (h_buf h) acc"
    and room: "length acc + length (replace_all (take n old) (take m new) (rest_of source len c)) \<le> h_alloc h"
  shows "\<exists>d pre w2 h'. replace_fill_loop source len c old n new m (Ptr b) (length acc) w1 = Some ((d, length pre), w2) \<and> d \<le> len
    \<and> building w w2 b h' \<and> sized_hdr h' k \<and> starts (h_buf h') pre \<and> h_alloc h' = h_alloc h \<and> fresh w2 = fresh w1
    \<and> pre @ rest_of source len d = acc @ replace_all (take n old) (take m new) (rest_of source len c)"
  using c b room
proof (induction "len - c" arbitrary: c acc w1 h rule: less_induct)
  case less
  let ?S = "take n old" and ?R = "take m new"
  note f = find_rest [OF n s less.prems(1)]
  have S: "?S \<noteq> []" "length ?S = n" using n by auto
  show ?case
  proof (cases "find_sub ?S (rest_of source len c)")
    case None
    then show ?thesis using f less.prems by (subst replace_fill_loop.simps) (simp add: replace_all_simps(1), blast)
  next
    case (Some i)
    note D = find_restD [OF Some S(1) s(1) less.prems(1), unfolded S(2)]
    let ?x = "take i (drop c source)" and ?next = "rest_of source len (c + i + n)"
    have rep: "replace_all ?S ?R (rest_of source len c) = ?x @ ?R @ replace_all ?S ?R ?next"
      using replace_all_simps(2) [OF S(1) Some, of ?R] D(2,3) S(2) by simp
    have x: "i \<le> length (drop c source)" "length ?x = i" using D(1) s(1) by auto
    have lens: "length acc + (i + (m + length (replace_all ?S ?R ?next))) \<le> h_alloc h" using less.prems(5) rep x(2) m by simp
    then have "length acc + length ?x \<le> h_alloc h + 1" using x(2) by simp
    from build_write [OF less.prems(2-4) this] obtain w2 h2 where
      w2: "sds_write (Ptr b) (length acc) ?x w1 = Some w2" "building w w2 b h2" "sized_hdr h2 k" "starts (h_buf h2) (acc @ ?x)"
        "h_alloc h2 = h_alloc h" "fresh w2 = fresh w1" by blast
    have "length (acc @ ?x) + length ?R \<le> h_alloc h2 + 1" using lens x(2) w2(5) m by simp
    from build_write [OF w2(2-4) this] obtain w3 h3 where
      w3: "sds_write (Ptr b) (length (acc @ ?x)) ?R w2 = Some w3" "building w w3 b h3" "sized_hdr h3 k" "starts (h_buf h3) ((acc @ ?x) @ ?R)"
        "h_alloc h3 = h_alloc h2" "fresh w3 = fresh w2" by blast
    have "length ((acc @ ?x) @ ?R) + length (replace_all ?S ?R ?next) \<le> h_alloc h3" using lens x(2) w2(5) w3(5) m by simp
    from less.hyps [OF D(4,1) w3(2-4) this] obtain d pre w4 h4 where
      w4: "replace_fill_loop source len (c + i + n) old n new m (Ptr b) (length ((acc @ ?x) @ ?R)) w3 = Some ((d, length pre), w4)" "d \<le> len"
        "building w w4 b h4" "sized_hdr h4 k" "starts (h_buf h4) pre" "h_alloc h4 = h_alloc h3" "fresh w4 = fresh w3"
        "pre @ rest_of source len d = ((acc @ ?x) @ ?R) @ replace_all ?S ?R ?next" by (elim exE conjE) (rule that)
    have l: "length (acc @ ?x) = length acc + i" "length ((acc @ ?x) @ ?R) = length acc + i + m" using x(2) m by simp_all
    have "replace_fill_loop source len c old n new m (Ptr b) (length acc) w1 = Some ((d, length pre), w4)"
      using f Some w2(1) w3(1) [unfolded l] w4(1) [unfolded l] x(1) m by (subst replace_fill_loop.simps) simp
    then show ?thesis using w4(2-8) w3(5,6) w2(5,6) rep
      by (intro exI [of _ d] exI [of _ pre] exI [of _ w4] exI [of _ h4]) simp
  qed
qed

lemma replaced_length:
  assumes n: "0 < n" "n = length S" "length (replace_all S R xs) \<le> SIZE_MAX" "length xs \<le> SIZE_MAX" "n \<le> SIZE_MAX" "length R \<le> SIZE_MAX"
  defines "cnt \<equiv> length (split_on S xs) - 1"
  shows "(if n \<le> length R then sz_add (length xs) (sz_mul (sz_sub (length R) n) cnt)
      else sz_sub (length xs) (sz_mul (sz_sub n (length R)) cnt)) = length (replace_all S R xs)"
proof -
  have S: "S \<noteq> []" using n(1,2) by auto
  have L: "length (replace_all S R xs) + n * cnt = length xs + length R * cnt"
    using replace_all_length [OF S, of R xs] unfolding cnt_def n(2) .
  show ?thesis
  proof (cases "n \<le> length R")
    case True
    then have "length (replace_all S R xs) = length xs + (length R - n) * cnt" using L by (simp add: diff_mult_distrib)
    then show ?thesis using True n(3,6) by simp
  next
    case False
    then have "length (replace_all S R xs) = length xs - (n - length R) * cnt" "(n - length R) * cnt \<le> length xs"
      using L by (simp_all add: diff_mult_distrib)
    then show ?thesis using False n(4,5) by simp
  qed
qed

lemma split_on_once: "length (split_on S xs) = 1 \<Longrightarrow> replace_all S R xs = xs"
  by (cases "split_on S xs"; cases "tl (split_on S xs)") (use join_split [of S xs] in \<open>auto simp: replace_all_def\<close>)

lemma edits_same:
  assumes "store_ok w" "cells_of w a = Some h" "good_hdr h xs"
  shows "edits a xs w (Ptr a) w"
proof -
  have "(cells_of w)(a := None, a \<mapsto> h) = cells_of w" using assms(2) by (simp add: fun_upd_idem)
  then show ?thesis using assms(3) becomes_refl [OF assms(1)] by (auto simp: edits_def intro!: exI [of _ h])
qed

lemma malloc_building:
  assumes "store_ok w" and "n + 17 \<le> SIZE_MAX"
  shows "\<exists>q w1. malloc_hdr (SDS_BYTES n) w = Some (q, w1) \<and> (room_for n w \<longrightarrow> q \<noteq> NULL) \<and> fresh w1 \<le> Suc (fresh w)
    \<and> (q = NULL \<and> becomes w w1 (cells_of w) 0 []
       \<or> (\<exists>b w2 h. q = Ptr b \<and> modify q (\<lambda>h. h\<lparr>h_len := n, h_alloc := n\<rparr>) w1 = Some w2 \<and> building w w2 b h \<and> sized_hdr h n
            \<and> h_alloc h = n \<and> fresh w2 = fresh w1))"
proof -
  from malloc_hdr_ok [OF assms] obtain q w1 where m: "malloc_hdr (SDS_BYTES n) w = Some (q, w1)"
    "room_for n w \<longrightarrow> q \<noteq> NULL" "fresh w1 \<le> Suc (fresh w)"
    "q = NULL \<and> becomes w w1 (cells_of w) 0 []
     \<or> q = Ptr (fresh w) \<and> n + 17 \<le> PTRDIFF_MAX \<and> fresh w1 = Suc (fresh w) \<and> becomes w w1 ((cells_of w)(fresh w \<mapsto> raw_hdr (n + 17))) 1 []" by blast
  from m(4) show ?thesis
  proof (elim disjE conjE)
    assume q: "q = Ptr (fresh w)" "n + 17 \<le> PTRDIFF_MAX" "fresh w1 = Suc (fresh w)" "becomes w w1 ((cells_of w)(fresh w \<mapsto> raw_hdr (n + 17))) 1 []"
    let ?r = "raw_hdr (n + 17)" and ?h = "(raw_hdr (n + 17))\<lparr>h_len := n, h_alloc := n\<rparr>"
    have b: "building w w1 (fresh w) ?r" using assms(1) q(3,4) by (simp add: building_def)
    have "modify q (\<lambda>h. h\<lparr>h_len := n, h_alloc := n\<rparr>) w1 = Some (with_cells ((cells_of w)(fresh w \<mapsto> ?h)) w1)"
      unfolding q(1) by (subst buildingD(7) [OF b]) (rule at_cell)
    moreover have "sized_hdr ?h n" using q(2) by (simp add: sized_hdr_def raw_hdr_def)
    ultimately show ?thesis using m(1-3) q(1) building_set [OF b, of ?h]
      by (intro exI [of _ q] exI [of _ w1]) (auto intro!: exI [of _ ?h])
  qed (use m in blast)
qed

lemma sdsreplacelen_ok:
  assumes w: "store_ok w" and h: "cells_of w a = Some h" "good_hdr h xs" and n: "n \<le> length old" "m \<le> length new" "n \<le> SIZE_MAX" "m \<le> SIZE_MAX"
    and room: "length (replace_all (take n old) (take m new) xs) + 17 \<le> SIZE_MAX"
  defines "ys \<equiv> (if n = 0 then xs else replace_all (take n old) (take m new) xs)"
  shows "\<exists>q w'. sdsreplacelen (Ptr a) (Ptr old) n (Ptr new) m w = Some (q, w') \<and> edits a ys w q w' \<and> fresh w' \<le> Suc (fresh w)
    \<and> (room_for (length ys) w \<longrightarrow> q \<noteq> NULL)"
proof (cases "n = 0")
  case True
  then show ?thesis using edits_same [OF w h] by (simp add: sdsreplacelen_def ys_def)
next
  case False
  let ?S = "take n old" and ?R = "take m new" and ?len = "length xs"
  note H = good_hdrD [OF h(2)]
  have ys: "ys = replace_all ?S ?R xs" using False by (simp add: ys_def)
  have len: "?len < SIZE_MAX" using H(6) SIZE_MAX_PTRDIFF_MAX by simp
  have S: "0 < n" "n = length ?S" "?S \<noteq> []" using False n(1) by auto
  have R: "length ?R = m" using n(2) by simp
  obtain cnt where cnt_def: "length (split_on ?S xs) - 1 = cnt" by blast
  have at: "sds_at w (Ptr a) xs" using h by (simp add: sds_at_def)
  have src: "sdslen (Ptr a) w = Some ?len" "sds_bytes (Ptr a) ?len w = Some xs"
    using sdslen_ok [OF at] sds_bytes_ok [OF at, of ?len] by simp_all
  have "0 + length (split_on ?S (rest_of xs ?len 0)) \<le> SIZE_MAX" using split_on_length [OF S(3), of xs] len by (simp add: rest_of_simps)
  from count_matches_ok [OF S(1) n(1) order_refl len _ this] have cnt: "count_matches_loop xs ?len 0 old n 0 = Some cnt" by (simp add: rest_of_simps cnt_def [symmetric])
  have newlen: "(if n \<le> m then sz_add ?len (sz_mul (sz_sub m n) cnt) else sz_sub ?len (sz_mul (sz_sub n m) cnt)) = length ys"
    using replaced_length [OF S(1,2), of ?R xs] room len n(3,4) unfolding R ys cnt_def by simp
  show ?thesis
  proof (cases "cnt = 0")
    case True
    then have "length (split_on ?S xs) = 1" using cnt_def by (cases "split_on ?S xs") simp_all
    then have "ys = xs" unfolding ys by (rule split_on_once)
    then show ?thesis using edits_same [OF w h] False src cnt True by (simp add: sdsreplacelen_def)
  next
    case cnt0: False
    have "length ys + 17 \<le> SIZE_MAX" using room ys by simp
    from malloc_building [OF w this] obtain q w1 where m: "malloc_hdr (SDS_BYTES (length ys)) w = Some (q, w1)" "room_for (length ys) w \<longrightarrow> q \<noteq> NULL"
      "fresh w1 \<le> Suc (fresh w)"
      "q = NULL \<and> becomes w w1 (cells_of w) 0 []
       \<or> (\<exists>b w2 h. q = Ptr b \<and> modify q (\<lambda>h. h\<lparr>h_len := length ys, h_alloc := length ys\<rparr>) w1 = Some w2 \<and> building w w2 b h
            \<and> sized_hdr h (length ys) \<and> h_alloc h = length ys \<and> fresh w2 = fresh w1)" by (elim exE conjE) (rule that)
    let ?fill = "\<lambda>w2. do {
            ((cursor, dest), w3) \<leftarrow> replace_fill_loop xs ?len 0 old n new m q 0 w2;
            rest \<leftarrow> region_read (drop cursor xs) (sz_sub ?len cursor);
            w4 \<leftarrow> sds_write q dest rest w3;
            w5 \<leftarrow> sds_write q (length ys) [0] w4;
            w6 \<leftarrow> sdsfree (Ptr a) w5;
            Some (q, w6) }"
    have e: "sdsreplacelen (Ptr a) (Ptr old) n (Ptr new) m w = (if q = NULL then Some (NULL, w1)
        else modify q (\<lambda>h. h\<lparr>h_len := length ys, h_alloc := length ys\<rparr>) w1 \<bind> ?fill)"
      using False src cnt cnt0 m(1) by (simp add: sdsreplacelen_def Let_def newlen)
    from m(4) show ?thesis
    proof (elim disjE conjE exE)
      assume "q = NULL" "becomes w w1 (cells_of w) 0 []"
      then show ?thesis using e m(2,3) by (auto simp: edits_def)
    next
      fix b w2 h2
      assume q: "q = Ptr b" "modify q (\<lambda>h. h\<lparr>h_len := length ys, h_alloc := length ys\<rparr>) w1 = Some w2" "building w w2 b h2"
        "sized_hdr h2 (length ys)" "h_alloc h2 = length ys" "fresh w2 = fresh w1"
      have "length ([] :: bytes) + length (replace_all ?S ?R (rest_of xs ?len 0)) \<le> h_alloc h2" using q(5) ys by (simp add: rest_of_simps)
      from replace_fill_ok [OF S(1) n(1) order_refl len n(2) _ q(3,4) starts_Nil this] obtain d pre w3 h3 where
        f: "replace_fill_loop xs ?len 0 old n new m (Ptr b) 0 w2 = Some ((d, length pre), w3)" "d \<le> ?len"
          "building w w3 b h3" "sized_hdr h3 (length ys)" "starts (h_buf h3) pre" "h_alloc h3 = h_alloc h2" "fresh w3 = fresh w2"
          "pre @ rest_of xs ?len d = ys" by (auto simp: rest_of_simps ys)
      have rest: "rest_of xs ?len d = drop d xs" by (simp add: rest_of_def)
      have total: "length pre + length (drop d xs) = length ys" using arg_cong [OF f(8), of length] rest by simp
      then have "length pre + length (drop d xs) \<le> h_alloc h3 + 1" using f(6) q(5) by simp
      from build_write [OF f(3-5) this] obtain w4 h4 where
        w4: "sds_write (Ptr b) (length pre) (drop d xs) w3 = Some w4" "building w w4 b h4" "sized_hdr h4 (length ys)"
          "starts (h_buf h4) (pre @ drop d xs)" "h_alloc h4 = h_alloc h3" "fresh w4 = fresh w3" by blast
      have pre: "pre @ drop d xs = ys" using f(8) rest by simp
      have "length ys + length [0 :: 8 word] \<le> h_alloc h4 + 1" using w4(5) f(6) q(5) by simp
      from build_write [OF w4(2,3) w4(4) [unfolded pre] this] obtain w5 h5 where
        w5: "sds_write (Ptr b) (length ys) [0] w4 = Some w5" "building w w5 b h5" "sized_hdr h5 (length ys)" "starts (h_buf h5) (ys @ [0])"
          "fresh w5 = fresh w4" by blast
      note B = buildingD [OF w5(2)]
      have ne: "a \<noteq> b" using B(4) h(1) by auto
      then have "cells_of w5 a = Some h" using becomesD(2) [OF B(3)] h(1) by simp
      from sdsfree_ok [OF B(5) this] obtain w6 where
        w6: "sdsfree (Ptr a) w5 = Some w6" "becomes w5 w6 ((cells_of w5)(a := None)) (- 1) []" "fresh w6 = fresh w5" by blast
      have "(cells_of w5)(a := None) = (cells_of w)(a := None, b \<mapsto> h5)" using becomesD(2) [OF B(3)] ne by (simp add: fun_upd_twist)
      then have "becomes w w6 ((cells_of w)(a := None, b \<mapsto> h5)) 0 []" using becomes_trans [OF B(3) w6(2)] by simp
      moreover have "good_hdr h5 ys" using w5(3,4) by (simp add: good_hdr_def)
      ultimately have "edits a ys w (Ptr b) w6" using B(1,2) w6(3) by (auto simp: edits_def)
      moreover have "sz_sub ?len d = ?len - d" using f(2) len by simp
      then have "sdsreplacelen (Ptr a) (Ptr old) n (Ptr new) m w = Some (Ptr b, w6)"
        using e q(1,2) f(1) w4(1) w5(1) w6(1) by simp
      ultimately show ?thesis using m(3) q(6) f(7) w4(6) w5(5) w6(3) by auto
    qed
  qed
qed

end
