(* ===== verification/Sds_Parts.thy ===== *)
theory Sds_Parts
  imports Sds_Build
begin

text \<open>
  The contracts of \<open>sdsjoinlen\<close>, \<open>sdssplitlen\<close> and \<open>sdssplitfree\<close>, which work on arrays of strings.
\<close>

section \<open>Joining\<close>

text \<open>What the pointer and the length of a separator stand for.\<close>

definition sep_region :: "bytes ptr \<Rightarrow> size_t \<Rightarrow> bytes \<Rightarrow> bool" where
  "sep_region sep n S \<longleftrightarrow> n = length S \<and> (case sep of NULL \<Rightarrow> n = 0 | Ptr t \<Rightarrow> n \<le> length t \<and> take n t = S)"

lemma sep_regionD:
  assumes "sep_region sep n S"
  shows "n = length S" "\<not> (sep = NULL \<and> 0 < n)"
    "(if sep = NULL then (if n = 0 then Some [] else None) else region_read (pt sep) n) = Some S"
  using assms by (auto simp: sep_region_def split: ptr.splits)

lemma drop_parts:
  assumes "i < length xss"
  shows "join_with S (drop i xss) = xss ! i @ (if i + 1 < length xss then S @ join_with S (drop (i + 1) xss) else [])"
  using assms by (cases "drop (Suc i) xss") (auto simp: Cons_nth_drop_Suc [symmetric])

lemma join_length_ok:
  assumes p: "list_all2 (sds_at w) ps xss" and n: "n = length S"
  shows "i \<le> length ps \<Longrightarrow> tot + length (join_with S (drop i xss)) \<le> SIZE_MAX \<Longrightarrow>
    join_length_loop ps (length ps) n i tot w = Some (Ptr (tot + length (join_with S (drop i xss))))"
proof (induction "length ps - i" arbitrary: i tot)
  case 0
  then show ?case using list_all2_lengthD [OF p] by (subst join_length_loop.simps) simp
next
  case (Suc m)
  have len: "length xss = length ps" using list_all2_lengthD [OF p] by simp
  have i: "i < length ps" using Suc.hyps(2) by simp
  have at: "sds_at w (ps ! i) (xss ! i)" using list_all2_nthD [OF p i] .
  have nn: "ps ! i \<noteq> NULL" using at by (auto simp: sds_at_def)
  note d = drop_parts [of i xss S, unfolded len, OF i]
  let ?t = "if i + 1 < length ps then sz_add (sz_add tot (length (xss ! i))) n else sz_add tot (length (xss ! i))"
  have t: "?t + length (join_with S (drop (i + 1) xss)) = tot + length (join_with S (drop i xss))"
    using Suc.prems(2) d n len by (auto split: if_splits)
  have "m = length ps - (i + 1)" "i + 1 \<le> length ps" "?t + length (join_with S (drop (i + 1) xss)) \<le> SIZE_MAX"
    using Suc.hyps(2) i Suc.prems(2) t by simp_all
  from Suc.hyps(1) [OF this] have
    "join_length_loop ps (length ps) n (i + 1) ?t w = Some (Ptr (tot + length (join_with S (drop i xss))))" unfolding t .
  then show ?case using i nn sdslen_ok [OF at] by (subst join_length_loop.simps) (simp add: Let_def)
qed

text \<open>A string that is being built does not touch the others.\<close>

lemma building_keeps: "building w w1 b h \<Longrightarrow> sds_at w s xs \<Longrightarrow> sds_at w1 s xs"
  using buildingD(3,4) [of w w1 b h] by (force simp: sds_at_def dest: becomesD(2))

lemma join_fill_ok:
  assumes p: "list_all2 (sds_at w) ps xss" and S: "sep_region sep n S"
  shows "i \<le> length ps \<Longrightarrow> building w w1 b h \<Longrightarrow> sized_hdr h 0 \<Longrightarrow> starts (h_buf h) acc \<Longrightarrow>
    length acc + length (join_with S (drop i xss)) \<le> h_alloc h \<Longrightarrow>
    \<exists>w2 h'. join_fill_loop ps (length ps) sep n (Ptr b) i (length acc) w1 = Some (length acc + length (join_with S (drop i xss)), w2)
      \<and> building w w2 b h' \<and> sized_hdr h' 0 \<and> starts (h_buf h') (acc @ join_with S (drop i xss)) \<and> h_alloc h' = h_alloc h \<and> fresh w2 = fresh w1"
proof (induction "length ps - i" arbitrary: i acc w1 h)
  case 0
  then show ?case using list_all2_lengthD [OF p] by (subst join_fill_loop.simps) auto
next
  case (Suc k)
  have len: "length xss = length ps" using list_all2_lengthD [OF p] by simp
  have i: "i < length ps" using Suc.hyps(2) by simp
  let ?x = "xss ! i"
  have at: "sds_at w1 (ps ! i) ?x" by (rule building_keeps [OF Suc.prems(2) list_all2_nthD [OF p i]])
  note rd = sdslen_ok [OF at] sds_bytes_ok [OF at order_refl]
  note d = drop_parts [of i xss S, unfolded len, OF i] and sep = sep_regionD [OF S]
  have "length acc + length ?x \<le> h_alloc h + 1" using Suc.prems(5) d by simp
  from build_write [OF Suc.prems(2-4) this] obtain w2 h2 where
    w2: "sds_write (Ptr b) (length acc) ?x w1 = Some w2" "building w w2 b h2" "sized_hdr h2 0" "starts (h_buf h2) (acc @ ?x)"
      "h_alloc h2 = h_alloc h" "fresh w2 = fresh w1" by blast
  have k: "k = length ps - (i + 1)" "i + 1 \<le> length ps" using Suc.hyps(2) i by simp_all
  show ?case
  proof (cases "i + 1 < length ps")
    case True
    have "length (acc @ ?x) + length S \<le> h_alloc h2 + 1" using Suc.prems(5) d True w2(5) by simp
    from build_write [OF w2(2-4) this] obtain w3 h3 where
      w3: "sds_write (Ptr b) (length (acc @ ?x)) S w2 = Some w3" "building w w3 b h3" "sized_hdr h3 0" "starts (h_buf h3) ((acc @ ?x) @ S)"
        "h_alloc h3 = h_alloc h2" "fresh w3 = fresh w2" by blast
    have "length ((acc @ ?x) @ S) + length (join_with S (drop (i + 1) xss)) \<le> h_alloc h3" using Suc.prems(5) d True w2(5) w3(5) by simp
    from Suc.hyps(1) [OF k w3(2-4) this] obtain w4 h4 where
      w4: "join_fill_loop ps (length ps) sep n (Ptr b) (i + 1) (length ((acc @ ?x) @ S)) w3
          = Some (length ((acc @ ?x) @ S) + length (join_with S (drop (i + 1) xss)), w4)"
        "building w w4 b h4" "sized_hdr h4 0" "starts (h_buf h4) (((acc @ ?x) @ S) @ join_with S (drop (i + 1) xss))"
        "h_alloc h4 = h_alloc h3" "fresh w4 = fresh w3" by (elim exE conjE) (rule that)
    have l: "length ((acc @ ?x) @ S) = length acc + length ?x + n" "length (acc @ ?x) = length acc + length ?x" using sep(1) by simp_all
    have "join_fill_loop ps (length ps) sep n (Ptr b) i (length acc) w1
        = join_fill_loop ps (length ps) sep n (Ptr b) (i + 1) (length ((acc @ ?x) @ S)) w3"
      using i True rd w2(1) w3(1) sep(3) l by (subst join_fill_loop.simps) (simp add: add.assoc)
    then show ?thesis using w4 w2(5,6) w3(5,6) d True by (intro exI [of _ w4] exI [of _ h4]) simp
  next
    case False
    have "length (acc @ ?x) + length (join_with S (drop (i + 1) xss)) \<le> h_alloc h2" using Suc.prems(5) d False w2(5) len by simp
    from Suc.hyps(1) [OF k w2(2-4) this] obtain w4 h4 where
      w4: "join_fill_loop ps (length ps) sep n (Ptr b) (i + 1) (length (acc @ ?x)) w2
          = Some (length (acc @ ?x) + length (join_with S (drop (i + 1) xss)), w4)"
        "building w w4 b h4" "sized_hdr h4 0" "starts (h_buf h4) ((acc @ ?x) @ join_with S (drop (i + 1) xss))"
        "h_alloc h4 = h_alloc h2" "fresh w4 = fresh w2" by (elim exE conjE) (rule that)
    have "join_fill_loop ps (length ps) sep n (Ptr b) i (length acc) w1
        = join_fill_loop ps (length ps) sep n (Ptr b) (i + 1) (length (acc @ ?x)) w2"
      using i False rd w2(1) by (subst join_fill_loop.simps) simp
    moreover have "drop (i + 1) xss = []" using False len by simp
    ultimately show ?thesis using w4 w2(5,6) d False by (intro exI [of _ w4] exI [of _ h4]) simp
  qed
qed

lemma sdsjoinlen_ok:
  assumes w: "store_ok w" and p: "list_all2 (sds_at w) ps xss" and S: "sep_region sep n S"
    and room: "length (join_with S xss) + 1041 \<le> SIZE_MAX"
  shows "\<exists>q w'. sdsjoinlen (Ptr ps) (length ps) sep n w = Some (q, w') \<and> creates (join_with S xss) w q w' \<and> fresh w' \<le> fresh w + 2
    \<and> (room_for (grown_to (length (join_with S xss))) w \<longrightarrow> fresh w + 2 \<le> SIZE_MAX \<longrightarrow> q \<noteq> NULL)"
proof -
  let ?J = "join_with S xss"
  note sep = sep_regionD [OF S]
  have "0 + length (join_with S (drop 0 xss)) \<le> SIZE_MAX" using room by simp
  from join_length_ok [OF p sep(1) _ this] have tot: "join_length_loop ps (length ps) n 0 0 w = Some (Ptr (length ?J))" by simp
  from start_ok [OF w] obtain q w1 where s: "sdsnew (Ptr []) w = Some (q, w1)" "fresh w1 \<le> Suc (fresh w)" "room_for 0 w \<longrightarrow> q \<noteq> NULL"
    "q = NULL \<and> becomes w w1 (cells_of w) 0 [] \<or> (\<exists>b h. q = Ptr b \<and> building w w1 b h \<and> good_hdr h [])" by blast
  have room0: "room_for 0 w" if "room_for (grown_to (length ?J)) w" using that by (simp add: room_for_def)
  have e: "sdsjoinlen (Ptr ps) (length ps) sep n w = (if q = NULL then Some (NULL, w1)
      else do {
            (grown, w2) \<leftarrow> sds_reserve_for_additional q (length ?J) w1;
            if grown = NULL then do { w3 \<leftarrow> sdsfree q w2; Some (NULL, w3) }
            else do {
              (dest, w3) \<leftarrow> join_fill_loop ps (length ps) sep n grown 0 0 w2;
              w4 \<leftarrow> sds_write grown dest [0] w3;
              w5 \<leftarrow> sds_set_len grown (length ?J) w4;
              Some (grown, w5) } })"
    using sep(2) tot s(1) by (auto simp: sdsjoinlen_def cong: if_cong)
  from s(4) show ?thesis
  proof (elim disjE conjE exE)
    assume "q = NULL" "becomes w w1 (cells_of w) 0 []"
    then show ?thesis using e s(2,3) room0 by (auto simp: creates_def)
  next
    fix b h
    assume b: "q = Ptr b" "building w w1 b h" "good_hdr h []"
    have "sized_hdr h 0" "0 + length ?J + 1041 \<le> SIZE_MAX" using b(3) room by (simp_all add: good_hdr_def)
    from grow_ok [OF b(2) this(1) starts_Nil this(2)] obtain g w2 where g: "sds_reserve_for_additional (Ptr b) (length ?J) w1 = Some (g, w2)"
      "fresh w2 \<le> Suc (fresh w1)" "room_for (grown_to (0 + length ?J)) w1 \<longrightarrow> g \<noteq> NULL"
      "g = NULL \<and> building w w2 b h \<or> (\<exists>c h1. g = Ptr c \<and> building w w2 c h1 \<and> sized_hdr h1 0 \<and> starts (h_buf h1) [] \<and> 0 + length ?J \<le> h_alloc h1)"
      by (elim exE conjE) (rule that)
    have more: "room_for (grown_to (0 + length ?J)) w1" if "room_for (grown_to (length ?J)) w" "fresh w + 2 \<le> SIZE_MAX"
      using that s(2) becomesD(6) [OF buildingD(3) [OF b(2)]] by (simp add: room_for_def)
    from g(4) show ?thesis
    proof (elim disjE conjE exE)
      assume q: "g = NULL" "building w w2 b h"
      from discard_ok [OF q(2)] obtain w3 where "sdsfree (Ptr b) w2 = Some w3" "becomes w w3 (cells_of w) 0 []" "fresh w3 = fresh w2" by blast
      then show ?thesis using e b(1) q(1) g more s(2) by (auto simp: creates_def)
    next
      fix c h1
      assume q: "g = Ptr c" "building w w2 c h1" "sized_hdr h1 0" "0 + length ?J \<le> h_alloc h1"
      have "length ([] :: bytes) + length (join_with S (drop 0 xss)) \<le> h_alloc h1" using q(4) by simp
      from join_fill_ok [OF p S _ q(2,3) starts_Nil this] obtain w3 h3 where
        w3: "join_fill_loop ps (length ps) sep n (Ptr c) 0 0 w2 = Some (length ?J, w3)" "building w w3 c h3" "sized_hdr h3 0"
          "starts (h_buf h3) ?J" "h_alloc h3 = h_alloc h1" "fresh w3 = fresh w2" by auto
      have "length ?J + length [0 :: 8 word] \<le> h_alloc h3 + 1" using q(4) w3(5) by simp
      from build_write [OF w3(2-4) this] obtain w4 h4 where
        w4: "sds_write (Ptr c) (length ?J) [0] w3 = Some w4" "building w w4 c h4" "sized_hdr h4 0" "starts (h_buf h4) (?J @ [0])"
          "fresh w4 = fresh w3" by blast
      from build_close [OF w4(2-4)] obtain w5 where
        w5: "sds_set_len (Ptr c) (length ?J) w4 = Some w5" "creates ?J w (Ptr c) w5" "fresh w5 = fresh w4" by blast
      then show ?thesis using e b(1) q(1) g(1,2) w3(1,6) w4(1,5) s(2) by auto
    qed
  qed
qed

section \<open>Splitting\<close>

text \<open>\<open>pieces w w1 bs xss k\<close>: since \<open>w\<close>, the call has created the strings \<open>xss\<close> at the addresses
  \<open>bs\<close> and holds \<open>k\<close> other blocks.\<close>

definition pieces :: "sds_world \<Rightarrow> sds_world \<Rightarrow> nat list \<Rightarrow> bytes list \<Rightarrow> int \<Rightarrow> bool" where
  "pieces w w1 bs xss k \<longleftrightarrow> store_ok w \<and> distinct bs \<and> (\<forall>b \<in> set bs. fresh w \<le> b \<and> b < fresh w1)
     \<and> (\<exists>H. list_all2 (\<lambda>b. good_hdr (H b)) bs xss
          \<and> becomes w w1 (\<lambda>c. if c \<in> set bs then Some (H c) else cells_of w c) (k + int (length bs)) [])"

lemma pieces_at:
  assumes "pieces w w1 bs xss k"
  shows "list_all2 (sds_at w1) (map Ptr bs) xss"
proof -
  from assms obtain H where H: "list_all2 (\<lambda>b. good_hdr (H b)) bs xss"
    "becomes w w1 (\<lambda>c. if c \<in> set bs then Some (H c) else cells_of w c) (k + int (length bs)) []" by (auto simp: pieces_def)
  show ?thesis using H(1) becomesD(2) [OF H(2)] by (auto simp: list_all2_conv_all_nth sds_at_def)
qed

lemma pieces_add:
  assumes p: "pieces w w1 bs xss k" and c: "creates x w1 (Ptr b) w2"
  shows "pieces w w2 (bs @ [b]) (xss @ [x]) k"
proof -
  from p obtain H where H: "list_all2 (\<lambda>b. good_hdr (H b)) bs xss"
    "becomes w w1 (\<lambda>c. if c \<in> set bs then Some (H c) else cells_of w c) (k + int (length bs)) []"
    and ok: "store_ok w" "distinct bs" "\<forall>b \<in> set bs. fresh w \<le> b \<and> b < fresh w1" by (auto simp: pieces_def)
  from c obtain h where h: "fresh w1 \<le> b" "b < fresh w2" "good_hdr h x" "becomes w1 w2 ((cells_of w1)(b \<mapsto> h)) 1 []"
    by (auto simp: creates_def)
  have new: "b \<notin> set bs" using ok(3) h(1) by force
  then have "list_all2 (\<lambda>c. good_hdr ((H(b := h)) c)) bs xss" using H(1) by (auto simp: list_all2_conv_all_nth)
  then have g: "list_all2 (\<lambda>c. good_hdr ((H(b := h)) c)) (bs @ [b]) (xss @ [x])" using h(3) by (intro list_all2_appendI) simp_all
  have C: "(cells_of w1)(b \<mapsto> h) = (\<lambda>c. if c \<in> set (bs @ [b]) then Some ((H(b := h)) c) else cells_of w c)"
    using becomesD(2) [OF H(2)] by (intro ext) simp
  have "becomes w w2 (\<lambda>c. if c \<in> set (bs @ [b]) then Some ((H(b := h)) c) else cells_of w c) (k + int (length (bs @ [b]))) []"
    by (rule becomes_trans [OF H(2) h(4) [unfolded C]]) simp_all
  with g have "\<exists>H. list_all2 (\<lambda>b. good_hdr (H b)) (bs @ [b]) (xss @ [x])
      \<and> becomes w w2 (\<lambda>c. if c \<in> set (bs @ [b]) then Some (H c) else cells_of w c) (k + int (length (bs @ [b]))) []" by blast
  moreover have "\<forall>c \<in> set (bs @ [b]). fresh w \<le> c \<and> c < fresh w2"
    using ok(3) h(1,2) becomesD(3) [OF H(2)] by force
  moreover have "distinct (bs @ [b])" using ok(2) new by simp
  ultimately show ?thesis using ok(1) unfolding pieces_def by blast
qed

lemma pieces_keep:
  assumes p: "pieces w w1 bs xss k" and c: "becomes w1 w2 (cells_of w1) 0 []"
  shows "pieces w w2 bs xss k"
proof -
  from p obtain H where H: "list_all2 (\<lambda>b. good_hdr (H b)) bs xss"
    "becomes w w1 (\<lambda>c. if c \<in> set bs then Some (H c) else cells_of w c) (k + int (length bs)) []"
    and ok: "store_ok w" "distinct bs" "\<forall>b \<in> set bs. fresh w \<le> b \<and> b < fresh w1" by (auto simp: pieces_def)
  have "becomes w w2 (\<lambda>c. if c \<in> set bs then Some (H c) else cells_of w c) (k + int (length bs)) []"
    by (rule becomes_trans [OF H(2) c [unfolded becomesD(2) [OF H(2)]]]) simp_all
  with H(1) have "\<exists>H. list_all2 (\<lambda>b. good_hdr (H b)) bs xss
      \<and> becomes w w2 (\<lambda>c. if c \<in> set bs then Some (H c) else cells_of w c) (k + int (length bs)) []" by blast
  moreover have "\<forall>b \<in> set bs. fresh w \<le> b \<and> b < fresh w2" using ok(3) becomesD(3) [OF c] by force
  ultimately show ?thesis using ok(1,2) unfolding pieces_def by blast
qed

text \<open>Releasing strings.\<close>

lemma split_free_ok:
  "store_ok w \<Longrightarrow> distinct bs \<Longrightarrow> (\<forall>b \<in> set bs. cells_of w b \<noteq> None) \<Longrightarrow>
   \<exists>w'. split_free_loop (map Ptr bs @ rest) (length bs) w = Some w' \<and> becomes w w' (cells_of w |` (- set bs)) (- int (length bs)) []
     \<and> fresh w' = fresh w"
proof (induction bs arbitrary: w)
  case Nil
  then show ?case using becomes_refl [of w] by simp
next
  case (Cons b bs)
  then obtain h where "cells_of w b = Some h" by auto
  from sdsfree_ok [OF Cons.prems(1) this] obtain w1 where
    w1: "sdsfree (Ptr b) w = Some w1" "becomes w w1 ((cells_of w)(b := None)) (- 1) []" "fresh w1 = fresh w" by blast
  note D = becomesD [OF w1(2)]
  have "distinct bs" "\<forall>c \<in> set bs. cells_of w1 c \<noteq> None" using Cons.prems(2,3) D(2) by auto
  from Cons.IH [OF D(1) this] obtain w2 where
    w2: "split_free_loop (map Ptr bs @ rest) (length bs) w1 = Some w2" "becomes w1 w2 (cells_of w1 |` (- set bs)) (- int (length bs)) []"
      "fresh w2 = fresh w1" by blast
  have "cells_of w1 |` (- set bs) = cells_of w |` (- set (b # bs))" using D(2) by (auto simp: restrict_map_def fun_eq_iff)
  then have "becomes w w2 (cells_of w |` (- set (b # bs))) (- int (length (b # bs))) []"
    using becomes_trans [OF w1(2) w2(2)] by simp
  then show ?case using w1(1,3) w2(1,3) by simp
qed

lemma sdssplitfree_ok:
  assumes "pieces w w1 bs xss 1"
  shows "\<exists>w'. sdssplitfree (Ptr (map Ptr bs @ rest)) (length bs) w1 = Some w' \<and> becomes w w' (cells_of w) 0 [] \<and> fresh w' = fresh w1"
proof -
  from assms obtain H where H: "becomes w w1 (\<lambda>c. if c \<in> set bs then Some (H c) else cells_of w c) (1 + int (length bs)) []"
    and ok: "store_ok w" "distinct bs" "\<forall>b \<in> set bs. fresh w \<le> b \<and> b < fresh w1" by (auto simp: pieces_def)
  note D = becomesD [OF H]
  from split_free_ok [OF D(1) ok(2), of rest] D(2) obtain w2 where
    w2: "split_free_loop (map Ptr bs @ rest) (length bs) w1 = Some w2" "becomes w1 w2 (cells_of w1 |` (- set bs)) (- int (length bs)) []"
      "fresh w2 = fresh w1" by auto
  have "cells_of w c = None" if "c \<in> set bs" for c using ok(1,3) that by (auto simp: store_ok_def not_le [symmetric])
  then have "cells_of w1 |` (- set bs) = cells_of w" using D(2) by (auto simp: restrict_map_def fun_eq_iff)
  then have b: "becomes w w2 (cells_of w) 1 []" using becomes_trans [OF H w2(2)] by simp
  have "becomes w (free_block w2) (cells_of w) 0 []"
    using becomes_trans [OF b becomes_free_block [OF becomesD(1) [OF b]]] becomesD(2) [OF b] by simp
  then show ?thesis using w2(1,3) by (simp add: sdssplitfree_def)
qed

lemma split_fill_ok:
  assumes n: "0 < n" "n \<le> length sep" and s: "len \<le> length source" "len + 17 \<le> SIZE_MAX"
  shows "c \<le> len \<Longrightarrow> pieces w w1 bs xss 1 \<Longrightarrow> k = length (split_on (take n sep) (rest_of source len c)) \<Longrightarrow>
      length bs + k \<le> SIZE_MAX \<Longrightarrow>
    \<exists>parts i w2. split_fill_loop source len c sep n (map Ptr bs @ replicate k NULL) (length bs) w1 = Some (parts, i, w2)
      \<and> (parts = NULL \<and> becomes w w2 (cells_of w) 0 []
         \<or> (\<exists>cs. parts = Ptr (map Ptr cs) \<and> i = length cs \<and> pieces w w2 cs (xss @ split_on (take n sep) (rest_of source len c)) 1))
      \<and> (no_fail w1 \<longrightarrow> len + 17 \<le> PTRDIFF_MAX \<longrightarrow> fresh w1 + k \<le> SIZE_MAX \<longrightarrow> parts \<noteq> NULL) \<and> fresh w2 \<le> fresh w1 + k"
proof (induction "len - c" arbitrary: c w1 bs xss k rule: less_induct)
  case less
  let ?S = "take n sep" and ?X = "rest_of source len c"
  have S: "?S \<noteq> []" "length ?S = n" using n by auto
  have lt: "len < SIZE_MAX" using s(2) by simp
  note f = find_rest [OF n s(1) lt less.prems(1)]
  define pl where "pl = (case find_sub ?S ?X of None \<Rightarrow> len - c | Some j \<Rightarrow> j)"
  have pl: "pl \<le> len - c" "take pl (drop c source) = hd (split_on ?S ?X)"
    using find_restD [OF _ S(1) s(1) less.prems(1)] by (auto simp: pl_def rest_of_def split_on_None S split: option.splits)
  have "store_ok w1" using less.prems(2) becomesD(1) by (auto simp: pieces_def)
  moreover have "pl \<le> length (drop c source)" "pl + 17 \<le> SIZE_MAX" using pl(1) s by auto
  ultimately obtain q w2 where new: "sdsnewlen (Ptr (drop c source)) pl w1 = Some (q, w2)" "creates (hd (split_on ?S ?X)) w1 q w2"
    "fresh w2 \<le> Suc (fresh w1)" "room_for pl w1 \<longrightarrow> q \<noteq> NULL" using sdsnewlen_ok [of w1 pl "drop c source"] pl(2) by auto
  have sub: "sz_sub len c = len - c" using lt less.prems(1) by simp
  have "0 < k" using less.prems(3) by simp
  then have k: "0 < k" "sz_add (length bs) 1 = length bs + 1" using less.prems(4) by simp_all
  have m: "(case (case find_sub ?S ?X of None \<Rightarrow> NULL | Some j \<Rightarrow> Ptr j) of NULL \<Rightarrow> len - c | Ptr j \<Rightarrow> j) = pl"
    by (simp add: pl_def split: option.splits)
  have e: "split_fill_loop source len c sep n (map Ptr bs @ replicate k NULL) (length bs) w1
      = (if q = NULL then do { w3 \<leftarrow> sdssplitfree (Ptr (map Ptr bs @ replicate k NULL)) (length bs) w2; Some (NULL, length bs, w3) }
         else case find_sub ?S ?X of
             None \<Rightarrow> Some (Ptr ((map Ptr bs @ replicate k NULL)[length bs := q]), length bs + 1, w2)
           | Some j \<Rightarrow> split_fill_loop source len (c + j + n) sep n ((map Ptr bs @ replicate k NULL)[length bs := q]) (length bs + 1) w2)"
    using f new(1) k m sub by (subst split_fill_loop.simps) (simp add: Let_def split: option.splits)
  show ?case
  proof (cases q)
    case NULL
    then have "becomes w1 w2 (cells_of w1) 0 []" using new(2) by (simp add: creates_def)
    from pieces_keep [OF less.prems(2) this] have "pieces w w2 bs xss 1" .
    from sdssplitfree_ok [OF this, of "replicate k NULL"] show ?thesis using e NULL new(3,4) pl(1) k(1) by (auto simp: room_for_def)
  next
    case (Ptr b)
    have p: "pieces w w2 (bs @ [b]) (xss @ [hd (split_on ?S ?X)]) 1" by (rule pieces_add [OF less.prems(2) new(2) [unfolded Ptr]])
    have upd: "(map Ptr bs @ replicate k NULL)[length bs := q] = map Ptr (bs @ [b]) @ replicate (k - 1) NULL"
      using k(1) Ptr by (cases k) (simp_all add: list_update_append)
    show ?thesis
    proof (cases "find_sub ?S ?X")
      case None
      then show ?thesis using e Ptr upd p less.prems(3) new(3) by (auto simp: split_on_None intro!: exI [of _ "bs @ [b]"])
    next
      case (Some j)
      note D = find_restD [OF Some S(1) s(1) less.prems(1), unfolded S(2)]
      have hd: "hd (split_on ?S ?X) = take j (drop c source)" and k1: "k - 1 = length (split_on ?S (rest_of source len (c + j + n)))"
        using D(5) less.prems(3) by simp_all
      have "length (bs @ [b]) + (k - 1) \<le> SIZE_MAX" using less.prems(4) k(1) by simp
      from less.hyps [OF D(4,1) p k1 this] obtain parts i w3 where
        r: "split_fill_loop source len (c + j + n) sep n (map Ptr (bs @ [b]) @ replicate (k - 1) NULL) (length (bs @ [b])) w2 = Some (parts, i, w3)"
          "parts = NULL \<and> becomes w w3 (cells_of w) 0 []
           \<or> (\<exists>cs. parts = Ptr (map Ptr cs) \<and> i = length cs
                \<and> pieces w w3 cs ((xss @ [hd (split_on ?S ?X)]) @ split_on ?S (rest_of source len (c + j + n))) 1)"
          "no_fail w2 \<longrightarrow> len + 17 \<le> PTRDIFF_MAX \<longrightarrow> fresh w2 + (k - 1) \<le> SIZE_MAX \<longrightarrow> parts \<noteq> NULL" "fresh w3 \<le> fresh w2 + (k - 1)" by (elim exE conjE) (rule that)
      have "no_fail w1 \<Longrightarrow> no_fail w2" using new(2) by (auto simp: creates_def dest: becomesD(6))
      then have "no_fail w1 \<longrightarrow> len + 17 \<le> PTRDIFF_MAX \<longrightarrow> fresh w1 + k \<le> SIZE_MAX \<longrightarrow> parts \<noteq> NULL" using r(3) new(3) k(1) by auto
      moreover have "fresh w3 \<le> fresh w1 + k" using r(4) new(3) k(1) by simp
      ultimately show ?thesis using e Ptr upd Some r(1,2) D(5) hd by (intro exI [of _ parts] exI [of _ i] exI [of _ w3]) simp
    qed
  qed
qed

lemma sdssplitlen_ok:
  assumes w: "store_ok w" and n: "0 < n" "n \<le> length sep" and s: "len \<le> length t" "len + 17 \<le> SIZE_MAX"
  defines "parts \<equiv> split_on (take n sep) (take len t)"
  shows "\<exists>ps cnt w'. sdssplitlen (Ptr t) len (Ptr sep) n (Ptr c) w = Some (ps, Ptr cnt, w')
    \<and> (ps = NULL \<and> cnt = 0 \<and> becomes w w' (cells_of w) 0 [] \<or> (\<exists>bs. ps = Ptr (map Ptr bs) \<and> cnt = length bs \<and> pieces w w' bs parts 1))
    \<and> (no_fail w \<longrightarrow> 8 * (len + 17) \<le> PTRDIFF_MAX \<longrightarrow> fresh w + len + 1 \<le> SIZE_MAX \<longrightarrow> ps \<noteq> NULL) \<and> fresh w' \<le> fresh w + len + 1"
proof -
  have S: "take n sep \<noteq> []" using n by auto
  have le: "length parts \<le> len + 1" using split_on_length [OF S, of "take len t"] s(1) by (simp add: parts_def)
  have X: "split_on (take n sep) (rest_of t len 0) = parts" by (simp add: rest_of_simps parts_def)
  have lt: "len < SIZE_MAX" using s(2) by simp
  have pos: "0 < length parts" by (simp add: parts_def)
  have "1 + length (split_on (take n sep) (rest_of t len 0)) \<le> SIZE_MAX" using le s(2) X by simp
  from count_matches_ok [OF n s(1) lt _ this] pos have cnt: "count_matches_loop t len 0 sep n 1 = Some (length parts)" unfolding X by simp
  obtain ok w1 where m: "malloc (length parts * 8) w = (ok, w1)" by fastforce
  note M = becomes_malloc [OF m w]
  show ?thesis
  proof (cases ok)
    case False
    then have "sdssplitlen (Ptr t) len (Ptr sep) n (Ptr c) w = Some (NULL, Ptr 0, w1)"
      using n(1) cnt m by (simp add: sdssplitlen_def calloc_def)
    moreover have "\<not> (no_fail w \<and> 8 * (len + 17) \<le> PTRDIFF_MAX)" using M(3) False le by auto
    ultimately show ?thesis using M(1,2) False by auto
  next
    case True
    have le0: "0 \<le> len" by simp
    have p: "pieces w w1 [] [] 1" using M(1) True w by (simp add: pieces_def)
    have "length ([] :: nat list) + length parts \<le> SIZE_MAX" using le s(2) by simp
    from split_fill_ok [OF n s le0 p arg_cong [OF X [symmetric], of length] this] X obtain ps i w2 where
      r: "split_fill_loop t len 0 sep n (replicate (length parts) NULL) 0 w1 = Some (ps, i, w2)"
        "ps = NULL \<and> becomes w w2 (cells_of w) 0 [] \<or> (\<exists>cs. ps = Ptr (map Ptr cs) \<and> i = length cs \<and> pieces w w2 cs parts 1)"
        "no_fail w1 \<longrightarrow> len + 17 \<le> PTRDIFF_MAX \<longrightarrow> fresh w1 + length parts \<le> SIZE_MAX \<longrightarrow> ps \<noteq> NULL"
        "fresh w2 \<le> fresh w1 + length parts" by auto
    have "sdssplitlen (Ptr t) len (Ptr sep) n (Ptr c) w = Some (ps, if ps = NULL then Ptr 0 else Ptr i, w2)"
      using n(1) cnt m True r(1) by (simp add: sdssplitlen_def calloc_def)
    moreover have "no_fail w \<longrightarrow> 8 * (len + 17) \<le> PTRDIFF_MAX \<longrightarrow> fresh w + len + 1 \<le> SIZE_MAX \<longrightarrow> ps \<noteq> NULL"
      using r(3) M(2) le becomesD(6) [OF M(1)] by auto
    moreover have "fresh w2 \<le> fresh w + len + 1" using r(4) M(2) le by simp
    ultimately show ?thesis using r(2) by auto
  qed
qed

end
