(* ===== verification/Sds_Props.thy ===== *)
theory Sds_Props
  imports Sds_Parts
begin

text \<open>
  Histories of calls on a string, and the properties of \<open>sds.c\<close>.
\<close>

section \<open>The machine\<close>

datatype sds_op = SCat bytes | SNCat bytes nat | STrim bytes | SClear | SReserve nat | SReplace bytes bytes

text \<open>A client keeps its old string when a call returns \<open>NULL\<close>.\<close>

definition sds_keep :: "sds \<Rightarrow> sds \<times> sds_world \<Rightarrow> int \<times> sds \<times> sds_world" where
  "sds_keep s r = (if fst r = NULL then (- 1, s, snd r) else (0, fst r, snd r))"

definition sds_exec :: "sds_op \<Rightarrow> sds \<Rightarrow> sds_world \<Rightarrow> (int \<times> sds \<times> sds_world) option" where
  "sds_exec op s w = (case op of
       SCat t \<Rightarrow> map_option (sds_keep s) (sdscat s (Ptr t) w)
     | SNCat t n \<Rightarrow> map_option (sds_keep s) (sdsncat s (Ptr t) n w)
     | STrim cset \<Rightarrow> map_option (sds_keep s) (sdstrim s (Ptr cset) w)
     | SClear \<Rightarrow> map_option (\<lambda>w1. (0, s, w1)) (sdsclear s w)
     | SReserve n \<Rightarrow> map_option (sds_keep s) (sdsreserve s n w)
     | SReplace old new \<Rightarrow> map_option (sds_keep s) (sdsreplacelen s (Ptr old) (length old) (Ptr new) (length new) w))"

fun sds_result :: "sds_op \<Rightarrow> bytes \<Rightarrow> bytes" where
  "sds_result (SCat t) xs = xs @ t"
| "sds_result (SNCat t n) xs = xs @ take n t"
| "sds_result (STrim cset) xs = trimmed (\<lambda>c. c = 0 \<or> c \<in> set (takeWhile (\<lambda>c. c \<noteq> 0) cset)) xs"
| "sds_result SClear xs = []"
| "sds_result (SReserve n) xs = xs"
| "sds_result (SReplace old new) xs = (if old = [] then xs else replace_all old new xs)"

definition sds_spec :: "sds_op \<Rightarrow> bytes \<Rightarrow> int \<Rightarrow> bytes \<Rightarrow> unit list \<Rightarrow> bool" where
  "sds_spec op xs rc ys ds \<longleftrightarrow> rc = 0 \<and> ys = sds_result op xs \<and> ds = []"

fun sds_legal :: "sds_op \<Rightarrow> bool" where
  "sds_legal (SCat t) \<longleftrightarrow> 0 \<notin> set t"
| "sds_legal (SNCat t n) \<longleftrightarrow> n \<le> length t"
| "sds_legal (SReplace old new) \<longleftrightarrow> length old \<le> PTRDIFF_MAX \<and> length new \<le> PTRDIFF_MAX"
| "sds_legal _ \<longleftrightarrow> True"

text \<open>The histories in which no string can get near the largest size of a block.\<close>

fun sds_grow :: "sds_op \<Rightarrow> nat \<Rightarrow> nat" where
  "sds_grow (SCat t) n = n + length t"
| "sds_grow (SNCat t k) n = n + k"
| "sds_grow (SReserve k) n = max n k"
| "sds_grow (SReplace old new) n = n + n * length new"
| "sds_grow _ n = n"

fun sds_room :: "sds_op list \<Rightarrow> nat \<Rightarrow> bool" where
  "sds_room [] n \<longleftrightarrow> True"
| "sds_room (op # ops) n \<longleftrightarrow> sds_grow op n + 2048 \<le> PTRDIFF_MAX \<and> sds_room ops (sds_grow op n)"

section \<open>Steps\<close>

lemma replace_all_bound:
  assumes "old \<noteq> []"
  shows "length (replace_all old new xs) \<le> length xs + length xs * length new"
proof -
  let ?c = "length (split_on old xs) - 1"
  have "1 * ?c \<le> length old * ?c" using assms by (intro mult_le_mono1) (cases old; simp)
  also have "\<dots> \<le> length xs" using replace_all_length [OF assms, of "[]" xs] by simp
  finally have "length new * ?c \<le> length xs * length new" by (metis mult.commute mult_le_mono2 mult_1)
  then show ?thesis using replace_all_length [OF assms, of new xs] by linarith
qed

lemma trimmed_length: "length (trimmed P xs) \<le> length xs"
  unfolding trimmed_def by (metis length_dropWhile_le length_rev order_trans)

lemma sds_result_length: "sds_legal op \<Longrightarrow> length xs \<le> n \<Longrightarrow> length (sds_result op xs) \<le> sds_grow op n"
proof (cases op)
  case (STrim cset)
  then show "length xs \<le> n \<Longrightarrow> ?thesis" using order_trans [OF trimmed_length] by simp
next
  case (SReplace old new)
  assume n: "length xs \<le> n"
  have "length (replace_all old new xs) \<le> n + n * length new" if "old \<noteq> []"
    using replace_all_bound [OF that, of new xs] n by (meson add_le_mono mult_le_mono1 order_trans)
  then show ?thesis using n SReplace by simp
qed auto

lemma building_edit:
  assumes b: "building w w1 a h" and e: "edits a ys w1 q w2"
  shows "q = NULL \<and> building w w2 a h \<or> (\<exists>b h2. q = Ptr b \<and> building w w2 b h2 \<and> good_hdr h2 ys)"
proof -
  note B = buildingD [OF b]
  have ok: "store_ok w" using b by (simp add: building_def)
  have C: "(cells_of w1)(a := None) = cells_of w" using becomesD(2) [OF B(3)] B(4) by (simp add: fun_upd_idem)
  from e show ?thesis unfolding edits_def
  proof
    assume q: "q = NULL \<and> becomes w1 w2 (cells_of w1) 0 []"
    have "becomes w w2 ((cells_of w)(a \<mapsto> h)) 1 []" using becomes_trans [OF B(3) conjunct2 [OF q]] becomesD(2) [OF B(3)] by simp
    moreover have "a < fresh w2" using q B(2) becomesD(3) less_le_trans by blast
    ultimately show ?thesis using q ok B(1) by (simp add: building_def)
  next
    assume "\<exists>b h. q = Ptr b \<and> (b = a \<or> fresh w1 \<le> b \<and> b < fresh w2) \<and> good_hdr h ys \<and> becomes w1 w2 ((cells_of w1)(a := None, b \<mapsto> h)) 0 []"
    then obtain b h2 where q: "q = Ptr b" "b = a \<or> fresh w1 \<le> b \<and> b < fresh w2" "good_hdr h2 ys" "becomes w1 w2 ((cells_of w)(b \<mapsto> h2)) 0 []"
      unfolding C by blast
    have "becomes w w2 ((cells_of w)(b \<mapsto> h2)) 1 []" using becomes_trans [OF B(3) q(4)] by simp
    moreover have "fresh w \<le> b" "b < fresh w2" using q(2) B(1,2) becomesD(3) [OF q(4)] becomesD(3) [OF B(3)] by auto
    ultimately show ?thesis using q ok by (auto simp: building_def)
  qed
qed

text \<open>One call, from the contracts of the operations.\<close>

lemma sds_exec_edits:
  assumes ok: "store_ok w" and h: "cells_of w a = Some h" "good_hdr h xs" and op: "sds_legal op" "length xs \<le> n" "sds_grow op n + 2048 \<le> PTRDIFF_MAX"
  shows "\<exists>q w'. sds_exec op (Ptr a) w = Some (sds_keep (Ptr a) (q, w')) \<and> edits a (sds_result op xs) w q w' \<and> fresh w' \<le> Suc (fresh w)
    \<and> (no_fail w \<longrightarrow> fresh w < SIZE_MAX \<longrightarrow> q \<noteq> NULL)"
proof -
  have room: "room_for k w" if "no_fail w" "fresh w < SIZE_MAX" "k \<le> m + 1024" "m \<le> sds_grow op n" for k m
    using that op(3) by (simp add: room_for_def)
  have big: "m + 1041 \<le> SIZE_MAX" "m \<le> SIZE_MAX" if "m \<le> sds_grow op n" for m using that op(3) SIZE_MAX_PTRDIFF_MAX by simp_all
  show ?thesis
  proof (cases op)
    case (SCat t)
    have m: "length xs + length t \<le> sds_grow op n" using op(2) SCat by simp
    from sdscat_ok [OF ok h _ big(1) [OF m]] op(1) SCat room [OF _ _ grown_to_bounds(3) m] show ?thesis by (fastforce simp: sds_exec_def)
  next
    case (SNCat t k)
    have m: "length xs + k \<le> sds_grow op n" using op(2) SNCat by simp
    from sdsncat_ok [OF ok h _ big(1) [OF m]] op(1) SNCat room [OF _ _ grown_to_bounds(3) m] show ?thesis by (fastforce simp: sds_exec_def)
  next
    case (STrim cset)
    have P: "strchr cset = (\<lambda>c. c = 0 \<or> c \<in> set (takeWhile (\<lambda>c. c \<noteq> 0) cset))" by (simp add: strchr_def fun_eq_iff)
    from sdstrim_ok [OF ok h, of cset] STrim show ?thesis by (force simp: sds_exec_def P)
  next
    case SClear
    from sdsclear_ok [OF ok h] SClear show ?thesis by (force simp: sds_exec_def sds_keep_def)
  next
    case (SReserve k)
    have m: "k \<le> sds_grow op n" using SReserve by simp
    from sdsreserve_ok [OF ok h big(1) [OF m]] SReserve room [OF _ _ grown_to_bounds(3) m] show ?thesis by (fastforce simp: sds_exec_def)
  next
    case (SReplace old new)
    have m: "length (sds_result op xs) \<le> sds_grow op n" by (rule sds_result_length [OF op(1,2)])
    have len: "length old \<le> SIZE_MAX" "length new \<le> SIZE_MAX" using op(1) SReplace SIZE_MAX_PTRDIFF_MAX by simp_all
    show ?thesis
    proof (cases "old = []")
      case True
      then show ?thesis using edits_same [OF ok h] SReplace by (force simp: sds_exec_def sdsreplacelen_def)
    next
      case False
      then have "length (replace_all (take (length old) old) (take (length new) new) xs) + 17 \<le> SIZE_MAX" using big(1) [OF m] SReplace by simp
      from sdsreplacelen_ok [OF ok h order_refl order_refl len this] False SReplace room [OF _ _ le_add1 m]
      show ?thesis by (fastforce simp: sds_exec_def)
    qed
  qed
qed

lemma sds_run_ok:
  assumes "\<forall>op \<in> set ops. sds_legal op" "sds_room ops n" "building w w1 a h" "good_hdr h xs" "length xs \<le> n"
  shows "\<exists>rcs b w2 h2 ys. run sds_exec ops (Ptr a) w1 = Some (rcs, Ptr b, w2) \<and> building w w2 b h2 \<and> good_hdr h2 ys
    \<and> explains sds_spec ops rcs xs ys [] \<and> (no_fail w1 \<longrightarrow> fresh w1 + length ops \<le> SIZE_MAX \<longrightarrow> (\<forall>rc \<in> set rcs. rc = 0))"
  using assms
proof (induction ops arbitrary: w1 a h xs n)
  case Nil
  have "explains sds_spec [] [] xs xs []" by (rule explains.finished)
  then show ?case using Nil.prems(3,4) by (intro exI [of _ "[]"] exI [of _ a] exI [of _ w1] exI [of _ h] exI [of _ xs]) simp
next
  case (Cons op ops)
  note B = buildingD [OF Cons.prems(3)]
  have op: "sds_legal op" "sds_grow op n + 2048 \<le> PTRDIFF_MAX" "\<forall>op \<in> set ops. sds_legal op" "sds_room ops (sds_grow op n)"
    using Cons.prems(1,2) by simp_all
  from sds_exec_edits [OF B(5,6) Cons.prems(4) op(1) Cons.prems(5) op(2)] obtain q w2 where
    e: "sds_exec op (Ptr a) w1 = Some (sds_keep (Ptr a) (q, w2))" "edits a (sds_result op xs) w1 q w2" "fresh w2 \<le> Suc (fresh w1)"
      "no_fail w1 \<longrightarrow> fresh w1 < SIZE_MAX \<longrightarrow> q \<noteq> NULL" by blast
  have nf: "no_fail w1 \<longrightarrow> no_fail w2" using e(2) by (auto simp: edits_def dest: becomesD(6))
  have grow: "length xs \<le> sds_grow op n" using Cons.prems(5) by (cases op) auto
  have "\<exists>rc b h2 ys. sds_keep (Ptr a) (q, w2) = (rc, Ptr b, w2) \<and> building w w2 b h2 \<and> good_hdr h2 ys \<and> length ys \<le> sds_grow op n
      \<and> (q \<noteq> NULL \<longrightarrow> rc = 0) \<and> (\<forall>zs rcs. explains sds_spec ops rcs ys zs [] \<longrightarrow> explains sds_spec (op # ops) (rc # rcs) xs zs [])"
    using building_edit [OF Cons.prems(3) e(2)]
  proof (elim disjE conjE exE)
    assume "q = NULL" "building w w2 a h"
    then show ?thesis using Cons.prems(4) grow by (auto simp: sds_keep_def intro: explains.refused)
  next
    fix b h2
    assume q: "q = Ptr b" "building w w2 b h2" "good_hdr h2 (sds_result op xs)"
    have "explains sds_spec (op # ops) (0 # rcs) xs zs []" if "explains sds_spec ops rcs (sds_result op xs) zs []" for zs rcs
      using explains.performed [of sds_spec op xs 0 "sds_result op xs" "[]", OF _ that] by (simp add: sds_spec_def)
    then show ?thesis using q sds_result_length [OF op(1) Cons.prems(5)] by (auto simp: sds_keep_def)
  qed
  then obtain rc b h2 ys where k: "sds_keep (Ptr a) (q, w2) = (rc, Ptr b, w2)" "building w w2 b h2" "good_hdr h2 ys" "length ys \<le> sds_grow op n"
    "q \<noteq> NULL \<longrightarrow> rc = 0" "\<And>zs rcs. explains sds_spec ops rcs ys zs [] \<Longrightarrow> explains sds_spec (op # ops) (rc # rcs) xs zs []" by blast
  from Cons.IH [OF op(3,4) k(2-4)] obtain rcs c w3 h3 zs where
    r: "run sds_exec ops (Ptr b) w2 = Some (rcs, Ptr c, w3)" "building w w3 c h3" "good_hdr h3 zs" "explains sds_spec ops rcs ys zs []"
      "no_fail w2 \<longrightarrow> fresh w2 + length ops \<le> SIZE_MAX \<longrightarrow> (\<forall>rc \<in> set rcs. rc = 0)" by (elim exE conjE) (rule that)
  have "run sds_exec (op # ops) (Ptr a) w1 = Some (rc # rcs, Ptr c, w3)" using e(1) k(1) r(1) by simp
  moreover have "no_fail w1 \<longrightarrow> fresh w1 + length (op # ops) \<le> SIZE_MAX \<longrightarrow> (\<forall>rc \<in> set (rc # rcs). rc = 0)" using e(3,4) nf k(5) r(5) by auto
  ultimately show ?case using r(2,3) k(6) [OF r(4)] by blast
qed

section \<open>Properties\<close>

text \<open>C24: \<open>sdsnewlen\<close> creates a string or returns \<open>NULL\<close>. Every history of \<open>sdscat\<close>, \<open>sdsncat\<close>, \<open>sdstrim\<close>,
  \<open>sdsclear\<close>, \<open>sdsreserve\<close> and \<open>sdsreplacelen\<close> on it then runs without undefined behaviour under any
  allocation failures, although \<open>realloc\<close> and \<open>sdsreplacelen\<close> move the string, and has the effect of
  the list functions; a call that returns \<open>NULL\<close> leaves the old string valid and unchanged, and without
  allocation failures no call does. \<open>sdstrim\<close> also strips NUL bytes, which \<open>strchr\<close> always finds.
  Freeing the string restores the store: nothing leaks and no other string was touched.\<close>

theorem sds_history:
  assumes w: "store_ok w" and ops: "\<forall>op \<in> set ops. sds_legal op" and room: "sds_room ops (length t)" "length t + 2048 \<le> PTRDIFF_MAX"
  shows "\<exists>q w0. sdsnewlen (Ptr t) (length t) w = Some (q, w0)
    \<and> (q = NULL \<and> cells_of w0 = cells_of w \<and> live w0 = live w
       \<or> (\<exists>rcs s w1 ys w2. run sds_exec ops q w0 = Some (rcs, s, w1) \<and> explains sds_spec ops rcs t ys [] \<and> sds_at w1 s ys
            \<and> sdslen s w1 = Some (length ys) \<and> sdsfree s w1 = Some w2 \<and> cells_of w2 = cells_of w \<and> live w2 = live w
            \<and> (no_fail w \<longrightarrow> fresh w + length ops + 1 \<le> SIZE_MAX \<longrightarrow> (\<forall>rc \<in> set rcs. rc = 0))))
    \<and> (no_fail w \<longrightarrow> fresh w < SIZE_MAX \<longrightarrow> q \<noteq> NULL)"
proof -
  have "length t + 17 \<le> SIZE_MAX" using room(2) SIZE_MAX_PTRDIFF_MAX by simp
  from sdsnewlen_ok [OF w order_refl this] obtain q w0 where n: "sdsnewlen (Ptr t) (length t) w = Some (q, w0)" "creates t w q w0"
    "fresh w0 \<le> Suc (fresh w)" "room_for (length t) w \<longrightarrow> q \<noteq> NULL" by auto
  have nf: "no_fail w \<longrightarrow> fresh w < SIZE_MAX \<longrightarrow> q \<noteq> NULL" using n(4) room(2) by (simp add: room_for_def)
  show ?thesis
  proof (cases q)
    case NULL
    then have "becomes w w0 (cells_of w) 0 []" using n(2) by (simp add: creates_def)
    then show ?thesis using n(1) nf NULL by (auto dest: becomesD)
  next
    case (Ptr a)
    then obtain h where h: "building w w0 a h" "good_hdr h t" using n(2) w by (auto simp: creates_def building_def)
    from sds_run_ok [OF ops room(1) h order_refl] obtain rcs b w1 h1 ys where
      r: "run sds_exec ops (Ptr a) w0 = Some (rcs, Ptr b, w1)" "building w w1 b h1" "good_hdr h1 ys" "explains sds_spec ops rcs t ys []"
        "no_fail w0 \<longrightarrow> fresh w0 + length ops \<le> SIZE_MAX \<longrightarrow> (\<forall>rc \<in> set rcs. rc = 0)" by (elim exE conjE) (rule that)
    from discard_ok [OF r(2)] obtain w2 where f: "sdsfree (Ptr b) w1 = Some w2" "becomes w w2 (cells_of w) 0 []" by blast
    have at: "sds_at w1 (Ptr b) ys" using buildingD(6) [OF r(2)] r(3) by (simp add: sds_at_def)
    have "no_fail w \<longrightarrow> no_fail w0" using becomesD(6) [OF buildingD(3) [OF h(1)]] by blast
    then have "no_fail w \<longrightarrow> fresh w + length ops + 1 \<le> SIZE_MAX \<longrightarrow> (\<forall>rc \<in> set rcs. rc = 0)" using r(5) n(3) by auto
    then have "\<exists>rcs s w1 ys w2. run sds_exec ops q w0 = Some (rcs, s, w1) \<and> explains sds_spec ops rcs t ys [] \<and> sds_at w1 s ys
            \<and> sdslen s w1 = Some (length ys) \<and> sdsfree s w1 = Some w2 \<and> cells_of w2 = cells_of w \<and> live w2 = live w
            \<and> (no_fail w \<longrightarrow> fresh w + length ops + 1 \<le> SIZE_MAX \<longrightarrow> (\<forall>rc \<in> set rcs. rc = 0))"
      using r(1,4) at sdslen_ok [OF at] f(1) becomesD(2,4) [OF f(2)] Ptr
      by (intro exI [of _ rcs] exI [of _ "Ptr b"] exI [of _ w1] exI [of _ ys] exI [of _ w2]) simp
    then show ?thesis using n(1) nf by blast
  qed
qed

theorem sds_history_witness:
  "\<exists>q w0. sdsnewlen (Ptr [97, 0, 32]) (length [97, 0, 32 :: 8 word]) (lscript [True, False, True] []) = Some (q, w0)
    \<and> (q = NULL \<and> cells_of w0 = cells_of (lscript [True, False, True] [] :: sds_world) \<and> live w0 = live (lscript [True, False, True] [] :: sds_world)
       \<or> (\<exists>rcs s w1 ys w2.
            run sds_exec [SCat [98, 99], STrim [32], SReplace [98] [120, 120], SReserve 100, SNCat [0, 1] 2, SClear] q w0 = Some (rcs, s, w1)
            \<and> explains sds_spec [SCat [98, 99], STrim [32], SReplace [98] [120, 120], SReserve 100, SNCat [0, 1] 2, SClear] rcs [97, 0, 32] ys []
            \<and> sds_at w1 s ys \<and> sdslen s w1 = Some (length ys) \<and> sdsfree s w1 = Some w2
            \<and> cells_of w2 = cells_of (lscript [True, False, True] [] :: sds_world) \<and> live w2 = live (lscript [True, False, True] [] :: sds_world)
            \<and> (no_fail (lscript [True, False, True] [] :: sds_world) \<longrightarrow> fresh (lscript [True, False, True] [] :: sds_world)
                + length [SCat [98, 99], STrim [32], SReplace [98] [120, 120], SReserve 100, SNCat [0, 1] 2, SClear] + 1 \<le> SIZE_MAX
                \<longrightarrow> (\<forall>rc \<in> set rcs. rc = 0))))
    \<and> (no_fail (lscript [True, False, True] [] :: sds_world) \<longrightarrow> fresh (lscript [True, False, True] [] :: sds_world) < SIZE_MAX \<longrightarrow> q \<noteq> NULL)"
  by (rule sds_history [OF lscript_ok]) (simp_all add: PTRDIFF_MAX_def)

lemma find_sub_absent: "find_sub sep xs = None \<longleftrightarrow> (\<nexists>us vs. xs = us @ sep @ vs)"
proof
  assume "find_sub sep xs = None"
  then have n: "\<forall>k \<le> length xs. take (length sep) (drop k xs) \<noteq> sep" by (simp only: find_sub_None)
  show "\<nexists>us vs. xs = us @ sep @ vs"
  proof
    assume "\<exists>us vs. xs = us @ sep @ vs"
    then obtain us vs where "xs = us @ sep @ vs" by blast
    then show False using n [rule_format, of "length us"] by simp
  qed
next
  assume none: "\<nexists>us vs. xs = us @ sep @ vs"
  show "find_sub sep xs = None"
  proof (cases "find_sub sep xs")
    case (Some k)
    from find_sub_bound(3) [OF this] none show ?thesis by metis
  qed
qed

text \<open>C25: splitting and joining are inverse. \<open>sdssplitlen\<close> returns \<open>NULL\<close> with nothing allocated, or an array of
  new strings, none of which contains the separator, such that \<open>sdsjoinlen\<close> with the same separator gives
  a string with the bytes of the source, or \<open>NULL\<close> when the allocator fails. \<open>sdssplitfree\<close> then releases
  the array and its strings, keeps the joined string, and nothing leaks. Without allocation failures
  neither call fails.\<close>

theorem sds_split_join:
  assumes w: "store_ok w" and sep: "sep \<noteq> []" and len: "8 * length t + 4096 \<le> PTRDIFF_MAX"
  shows "\<exists>ps cnt w1. sdssplitlen (Ptr t) (length t) (Ptr sep) (length sep) (Ptr c) w = Some (ps, Ptr cnt, w1)
    \<and> (ps = NULL \<and> cnt = 0 \<and> cells_of w1 = cells_of w \<and> live w1 = live w
       \<or> (\<exists>parts xss q w2 w3. ps = Ptr parts \<and> cnt = length parts \<and> list_all2 (sds_at w1) parts xss
            \<and> (\<forall>xs \<in> set xss. \<nexists>us vs. xs = us @ sep @ vs)
            \<and> sdsjoinlen ps cnt (Ptr sep) (length sep) w1 = Some (q, w2)
            \<and> sdssplitfree ps cnt w2 = Some w3
            \<and> (q = NULL \<and> cells_of w3 = cells_of w \<and> live w3 = live w \<or> sds_at w2 q t \<and> sds_at w3 q t \<and> live w3 = live w + 1)
            \<and> (no_fail w1 \<longrightarrow> fresh w1 + 2 \<le> SIZE_MAX \<longrightarrow> q \<noteq> NULL)))
    \<and> (no_fail w \<longrightarrow> fresh w + length t + 1 \<le> SIZE_MAX \<longrightarrow> ps \<noteq> NULL)"
proof -
  have small: "length t + 1041 \<le> SIZE_MAX" "length t + 17 \<le> SIZE_MAX" "8 * (length t + 17) \<le> PTRDIFF_MAX" "length t + 1041 \<le> PTRDIFF_MAX"
    using len SIZE_MAX_PTRDIFF_MAX by simp_all
  have n: "0 < length sep" "length sep \<le> length sep" using sep by simp_all
  from sdssplitlen_ok [OF w n order_refl small(2), of c] obtain ps cnt w1 where
    s: "sdssplitlen (Ptr t) (length t) (Ptr sep) (length sep) (Ptr c) w = Some (ps, Ptr cnt, w1)"
      "ps = NULL \<and> cnt = 0 \<and> becomes w w1 (cells_of w) 0 [] \<or> (\<exists>bs. ps = Ptr (map Ptr bs) \<and> cnt = length bs \<and> pieces w w1 bs (split_on sep t) 1)"
      "no_fail w \<longrightarrow> 8 * (length t + 17) \<le> PTRDIFF_MAX \<longrightarrow> fresh w + length t + 1 \<le> SIZE_MAX \<longrightarrow> ps \<noteq> NULL" by auto
  from s(2) show ?thesis
  proof (elim disjE conjE exE)
    assume "ps = NULL" "cnt = 0" "becomes w w1 (cells_of w) 0 []"
    then show ?thesis using s(1,3) small(3) by (auto dest: becomesD)
  next
    fix bs assume b: "ps = Ptr (map Ptr bs)" "cnt = length bs" "pieces w w1 bs (split_on sep t) 1"
    let ?xss = "split_on sep t"
    have at: "list_all2 (sds_at w1) (map Ptr bs) ?xss" by (rule pieces_at [OF b(3)])
    obtain H where H: "becomes w w1 (\<lambda>c. if c \<in> set bs then Some (H c) else cells_of w c) (1 + int (length bs)) []"
      and own: "store_ok w" "distinct bs" "\<forall>b \<in> set bs. fresh w \<le> b \<and> b < fresh w1" using b(3) by (auto simp: pieces_def)
    have sr: "sep_region (Ptr sep) (length sep) sep" by (simp add: sep_region_def)
    have J: "join_with sep ?xss = t" by (rule join_split)
    from sdsjoinlen_ok [OF becomesD(1) [OF H] at sr] small(1) obtain q w2 where
      j: "sdsjoinlen (Ptr (map Ptr bs)) (length bs) (Ptr sep) (length sep) w1 = Some (q, w2)" "creates t w1 q w2"
        "room_for (grown_to (length t)) w1 \<longrightarrow> fresh w1 + 2 \<le> SIZE_MAX \<longrightarrow> q \<noteq> NULL" unfolding J by auto
    have room: "no_fail w1 \<longrightarrow> fresh w1 + 2 \<le> SIZE_MAX \<longrightarrow> q \<noteq> NULL"
      using j(3) small(4) grown_to_bounds(3) [of "length t"] by (simp add: room_for_def)
    have parts: "\<forall>xs \<in> set ?xss. \<nexists>us vs. xs = us @ sep @ vs" using split_on_parts [OF sep] find_sub_absent by blast
    have "\<exists>w3. sdssplitfree (Ptr (map Ptr bs)) (length bs) w2 = Some w3
        \<and> (q = NULL \<and> cells_of w3 = cells_of w \<and> live w3 = live w \<or> sds_at w2 q t \<and> sds_at w3 q t \<and> live w3 = live w + 1)"
    proof (cases q)
      case NULL
      then have "becomes w1 w2 (cells_of w1) 0 []" using j(2) by (simp add: creates_def)
      from sdssplitfree_ok [OF pieces_keep [OF b(3) this], of "[]"] NULL show ?thesis by (auto simp: becomes_def)
    next
      case (Ptr a)
      then obtain h where h: "fresh w1 \<le> a" "good_hdr h t" "becomes w1 w2 ((cells_of w1)(a \<mapsto> h)) 1 []" using j(2) by (auto simp: creates_def)
      note D = becomesD [OF h(3)]
      have a: "a \<notin> set bs" using own(3) h(1) by force
      have "\<forall>b \<in> set bs. cells_of w2 b \<noteq> None" using D(2) becomesD(2) [OF H] by simp
      from split_free_ok [OF D(1) own(2) this, of "[]"] obtain w3 where
        w3: "split_free_loop (map Ptr bs) (length bs) w2 = Some w3" "becomes w2 w3 (cells_of w2 |` (- set bs)) (- int (length bs)) []" by auto
      have "sdssplitfree (Ptr (map Ptr bs)) (length bs) w2 = Some (free_block w3)" using w3(1) by (simp add: sdssplitfree_def)
      moreover have "live (free_block w3) = live w + 1" using becomesD(4) [OF w3(2)] D(4) becomesD(4) [OF H] by simp
      moreover have "sds_at w2 q t" "sds_at (free_block w3) q t" using Ptr D(2) h(2) becomesD(2) [OF w3(2)] a by (simp_all add: sds_at_def)
      ultimately show ?thesis by blast
    qed
    then obtain w3 where w3: "sdssplitfree (Ptr (map Ptr bs)) (length bs) w2 = Some w3"
      "q = NULL \<and> cells_of w3 = cells_of w \<and> live w3 = live w \<or> sds_at w2 q t \<and> sds_at w3 q t \<and> live w3 = live w + 1" by blast
    have "\<exists>parts xss q w2 w3. ps = Ptr parts \<and> cnt = length parts \<and> list_all2 (sds_at w1) parts xss
            \<and> (\<forall>xs \<in> set xss. \<nexists>us vs. xs = us @ sep @ vs)
            \<and> sdsjoinlen ps cnt (Ptr sep) (length sep) w1 = Some (q, w2)
            \<and> sdssplitfree ps cnt w2 = Some w3
            \<and> (q = NULL \<and> cells_of w3 = cells_of w \<and> live w3 = live w \<or> sds_at w2 q t \<and> sds_at w3 q t \<and> live w3 = live w + 1)
            \<and> (no_fail w1 \<longrightarrow> fresh w1 + 2 \<le> SIZE_MAX \<longrightarrow> q \<noteq> NULL)"
      using b(1,2) at parts j(1) room w3
      by (intro exI [of _ "map Ptr bs"] exI [of _ ?xss] exI [of _ q] exI [of _ w2] exI [of _ w3]) simp
    then show ?thesis using s(1) b(1) by blast
  qed
qed

theorem sds_split_join_witness:
  "\<exists>ps cnt w1. sdssplitlen (Ptr [97, 44, 44, 98]) (length [97, 44, 44, 98 :: 8 word]) (Ptr [44]) (length [44 :: 8 word]) (Ptr 0)
      (lscript [True, True, True, True, False] []) = Some (ps, Ptr cnt, w1)
    \<and> (ps = NULL \<and> cnt = 0 \<and> cells_of w1 = cells_of (lscript [True, True, True, True, False] [] :: sds_world)
         \<and> live w1 = live (lscript [True, True, True, True, False] [] :: sds_world)
       \<or> (\<exists>parts xss q w2 w3. ps = Ptr parts \<and> cnt = length parts \<and> list_all2 (sds_at w1) parts xss
            \<and> (\<forall>xs \<in> set xss. \<nexists>us vs. xs = us @ [44] @ vs)
            \<and> sdsjoinlen ps cnt (Ptr [44]) (length [44 :: 8 word]) w1 = Some (q, w2)
            \<and> sdssplitfree ps cnt w2 = Some w3
            \<and> (q = NULL \<and> cells_of w3 = cells_of (lscript [True, True, True, True, False] [] :: sds_world)
                 \<and> live w3 = live (lscript [True, True, True, True, False] [] :: sds_world)
               \<or> sds_at w2 q [97, 44, 44, 98] \<and> sds_at w3 q [97, 44, 44, 98]
                 \<and> live w3 = live (lscript [True, True, True, True, False] [] :: sds_world) + 1)
            \<and> (no_fail w1 \<longrightarrow> fresh w1 + 2 \<le> SIZE_MAX \<longrightarrow> q \<noteq> NULL)))
    \<and> (no_fail (lscript [True, True, True, True, False] [] :: sds_world)
        \<longrightarrow> fresh (lscript [True, True, True, True, False] [] :: sds_world) + length [97, 44, 44, 98 :: 8 word] + 1 \<le> SIZE_MAX \<longrightarrow> ps \<noteq> NULL)"
  by (rule sds_split_join [OF lscript_ok]) (simp_all add: PTRDIFF_MAX_def)

text \<open>C26: \<open>sdsreplacelen\<close>, which counts the occurrences, allocates once and fills the new string, is equivalent to
  splitting the string at the occurrences and joining the parts with the replacement: without allocation
  failures both ways succeed and give the same bytes. Where the text to be replaced does not occur,
  \<open>sdsreplacelen\<close> returns the same string.\<close>

theorem sds_replace_equiv:
  assumes w: "store_ok w" "no_fail w" and s: "sds_at w s xs" and old: "old \<noteq> []" and len: "length old \<le> PTRDIFF_MAX" "length new \<le> PTRDIFF_MAX"
    and room: "8 * length xs + length xs * length new + 4096 \<le> PTRDIFF_MAX" "fresh w + 2 * length xs + 4 \<le> SIZE_MAX"
  shows "\<exists>q wq ps cnt w1 r w2 ys. sdsreplacelen s (Ptr old) (length old) (Ptr new) (length new) w = Some (q, wq)
    \<and> sdssplitlen (Ptr xs) (length xs) (Ptr old) (length old) (Ptr c) w = Some (ps, Ptr cnt, w1)
    \<and> sdsjoinlen ps cnt (Ptr new) (length new) w1 = Some (r, w2)
    \<and> sds_at wq q ys \<and> sds_at w2 r ys \<and> ((\<nexists>us vs. xs = us @ old @ vs) \<longrightarrow> q = s)"
proof -
  let ?R = "replace_all old new xs"
  from s obtain a h where a: "s = Ptr a" "cells_of w a = Some h" "good_hdr h xs" by (auto simp: sds_at_def)
  have R: "length ?R \<le> length xs + length xs * length new" by (rule replace_all_bound [OF old])
  then have big: "length ?R + 2000 \<le> PTRDIFF_MAX" "length ?R + 1041 \<le> SIZE_MAX" "length ?R + 17 \<le> SIZE_MAX"
    "length xs + 17 \<le> SIZE_MAX" "8 * (length xs + 17) \<le> PTRDIFF_MAX"
    using room(1) SIZE_MAX_PTRDIFF_MAX by simp_all
  have le: "length old \<le> SIZE_MAX" "length new \<le> SIZE_MAX" using len SIZE_MAX_PTRDIFF_MAX by simp_all
  have "length (replace_all (take (length old) old) (take (length new) new) xs) + 17 \<le> SIZE_MAX" using big(3) by simp
  from sdsreplacelen_ok [OF w(1) a(2,3) order_refl order_refl le this] old obtain q wq where
    q: "sdsreplacelen s (Ptr old) (length old) (Ptr new) (length new) w = Some (q, wq)" "edits a ?R w q wq" "room_for (length ?R) w \<longrightarrow> q \<noteq> NULL"
    unfolding a(1) by auto
  have "room_for (length ?R) w" using w(2) room(2) big(1) by (simp add: room_for_def)
  with q(2,3) have atq: "sds_at wq q ?R" by (auto simp: edits_def sds_at_def dest: becomesD(2))
  have same: "q = s" if "\<nexists>us vs. xs = us @ old @ vs"
  proof -
    have at: "sds_at w s xs" and "find_sub old xs = None" using s that find_sub_absent by blast+
    then have one: "split_on old xs = [xs]" by (simp add: split_on_None)
    have "length xs < SIZE_MAX" "length old \<le> length old" "0 < length old" using big(4) old by simp_all
    from count_matches_ok [OF this(3,2) order_refl this(1), of 0 0] one have "count_matches_loop xs (length xs) 0 old (length old) 0 = Some 0"
      using big(4) by (simp add: rest_of_simps)
    then have "sdsreplacelen s (Ptr old) (length old) (Ptr new) (length new) w = Some (s, w)"
      using a(1) old sdslen_ok [OF at] sds_bytes_ok [OF at order_refl] by (simp add: sdsreplacelen_def)
    then show ?thesis using q(1) by simp
  qed
  have n: "0 < length old" "length old \<le> length old" using old by simp_all
  from sdssplitlen_ok [OF w(1) n order_refl big(4), of c] obtain ps cnt w1 where
    sp: "sdssplitlen (Ptr xs) (length xs) (Ptr old) (length old) (Ptr c) w = Some (ps, Ptr cnt, w1)"
      "ps = NULL \<and> cnt = 0 \<and> becomes w w1 (cells_of w) 0 [] \<or> (\<exists>bs. ps = Ptr (map Ptr bs) \<and> cnt = length bs \<and> pieces w w1 bs (split_on old xs) 1)"
      "no_fail w \<longrightarrow> 8 * (length xs + 17) \<le> PTRDIFF_MAX \<longrightarrow> fresh w + length xs + 1 \<le> SIZE_MAX \<longrightarrow> ps \<noteq> NULL"
      "fresh w1 \<le> fresh w + length xs + 1" by auto
  from sp(2,3) w(2) big(5) room(2) obtain bs where bs: "ps = Ptr (map Ptr bs)" "cnt = length bs" "pieces w w1 bs (split_on old xs) 1" by auto
  from bs(3) obtain C i where C: "becomes w w1 C i []" by (auto simp: pieces_def)
  have "sep_region (Ptr new) (length new) new" by (simp add: sep_region_def)
  from sdsjoinlen_ok [OF becomesD(1) [OF C] pieces_at [OF bs(3)] this] big(2) obtain r w2 where
    j: "sdsjoinlen (Ptr (map Ptr bs)) (length bs) (Ptr new) (length new) w1 = Some (r, w2)" "creates ?R w1 r w2"
      "room_for (grown_to (length ?R)) w1 \<longrightarrow> fresh w1 + 2 \<le> SIZE_MAX \<longrightarrow> r \<noteq> NULL" unfolding replace_all_def by auto
  have "room_for (grown_to (length ?R)) w1" "fresh w1 + 2 \<le> SIZE_MAX"
    using becomesD(6) [OF C w(2)] sp(4) room(2) big(1) grown_to_bounds(3) [of "length ?R"] by (simp_all add: room_for_def)
  with j(2,3) have "sds_at w2 r ?R" by (auto simp: creates_def sds_at_def dest: becomesD(2))
  then show ?thesis using q(1) sp(1) j(1) atq same bs(1,2)
    by (intro exI [of _ q] exI [of _ wq] exI [of _ ps] exI [of _ cnt] exI [of _ w1] exI [of _ r] exI [of _ w2] exI [of _ ?R]) simp
qed

definition sds_example :: sds_world where
  "sds_example = world.extend (script [] []) \<lparr>cells = [0 \<mapsto> \<lparr>h_len = 3, h_alloc = 4, h_buf = [Some 97, Some 44, Some 98, Some 0, None]\<rparr>,
     1 \<mapsto> \<lparr>h_len = 2, h_alloc = 2, h_buf = [Some 97, Some 200, Some 0]\<rparr>], next_cell = 2\<rparr>"

lemma sds_example_cells:
  "cells_of sds_example = [0 \<mapsto> \<lparr>h_len = 3, h_alloc = 4, h_buf = [Some 97, Some 44, Some 98, Some 0, None]\<rparr>,
     1 \<mapsto> \<lparr>h_len = 2, h_alloc = 2, h_buf = [Some 97, Some 200, Some 0]\<rparr>]" "fresh sds_example = 2"
  by (simp_all add: sds_example_def cells_of_def fresh_def world.defs)

lemma sds_example_ok:
  "store_ok sds_example" "no_fail sds_example" "sds_at sds_example (Ptr 0) [97, 44, 98]" "sds_at sds_example (Ptr 1) [97, 200]"
proof -
  show "store_ok sds_example" by (auto simp: store_ok_def sds_example_cells SIZE_MAX_def split: if_splits)
  show "no_fail sds_example" by (simp add: sds_example_def no_fail_def script_def world.defs)
  show "sds_at sds_example (Ptr 0) [97, 44, 98]" "sds_at sds_example (Ptr 1) [97, 200]"
    by (simp_all add: sds_at_def sds_example_cells good_hdr_def sized_hdr_def starts_def PTRDIFF_MAX_def)
qed

theorem sds_replace_equiv_witness:
  "\<exists>q wq ps cnt w1 r w2 ys. sdsreplacelen (Ptr 0) (Ptr [44]) (length [44 :: 8 word]) (Ptr [59, 59]) (length [59, 59 :: 8 word]) sds_example = Some (q, wq)
    \<and> sdssplitlen (Ptr [97, 44, 98]) (length [97, 44, 98 :: 8 word]) (Ptr [44]) (length [44 :: 8 word]) (Ptr 7) sds_example = Some (ps, Ptr cnt, w1)
    \<and> sdsjoinlen ps cnt (Ptr [59, 59]) (length [59, 59 :: 8 word]) w1 = Some (r, w2)
    \<and> sds_at wq q ys \<and> sds_at w2 r ys \<and> ((\<nexists>us vs. [97, 44, 98 :: 8 word] = us @ [44] @ vs) \<longrightarrow> q = Ptr 0)"
  by (rule sds_replace_equiv [OF sds_example_ok(1,2,3)]) (simp_all add: PTRDIFF_MAX_def SIZE_MAX_def sds_example_cells)

text \<open>C27: \<open>sdscmp\<close> is equivalent to the lexicographic order of unsigned bytes on the whole strings, embedded NUL
  bytes included: it returns \<open>0\<close> exactly for equal strings, a negative number exactly when the first is
  smaller, and changes its sign with the order of the arguments.\<close>

theorem sds_compare:
  assumes "sds_at w s xs" and "sds_at w t ys"
  shows "\<exists>c. sdscmp s t w = Some c \<and> sdscmp t s w = Some (- c) \<and> (c = 0 \<longleftrightarrow> xs = ys) \<and> (c < 0 \<longleftrightarrow> (xs, ys) \<in> lexord {(x, y). x < y})"
proof -
  have "sds_order xs ys < 0 \<longleftrightarrow> (xs, ys) \<in> lexord {(x, y). x < y}" by (induction xs ys rule: sds_order.induct) auto
  then show ?thesis using sdscmp_ok [OF assms] sdscmp_ok [OF assms(2,1)] sds_order_laws(1,2) [of xs ys] by simp
qed

theorem sds_compare_witness:
  "\<exists>c. sdscmp (Ptr 0) (Ptr 1) sds_example = Some c \<and> sdscmp (Ptr 1) (Ptr 0) sds_example = Some (- c)
    \<and> (c = 0 \<longleftrightarrow> [97, 44, 98] = [97, 200 :: 8 word]) \<and> (c < 0 \<longleftrightarrow> ([97, 44, 98], [97, 200 :: 8 word]) \<in> lexord {(x, y). x < y})"
  by (rule sds_compare [OF sds_example_ok(3,4)])

text \<open>C28: \<open>sdsnewfmt\<close> always returns, so its \<open>while (1)\<close> ends. When the output exists and its length is an
  \<open>int\<close>, the result is a new string with exactly the output, or \<open>NULL\<close> when the allocator fails; otherwise
  it is \<open>NULL\<close>. A call that returns \<open>NULL\<close> leaves nothing allocated and no call touches other strings.\<close>

theorem sds_format:
  assumes "store_ok w" and "2 * strlen fmt + 1041 \<le> SIZE_MAX"
  shows "\<exists>q w'. sdsnewfmt expand fmt ap w = Some (q, w')
    \<and> (q = NULL \<and> cells_of w' = cells_of w \<and> live w' = live w
       \<or> (\<exists>xs. expand fmt ap = Some xs \<and> length xs \<le> 2147483647 \<and> sds_at w' q xs \<and> live w' = live w + 1
            \<and> (\<forall>c. cells_of w c \<noteq> None \<longrightarrow> cells_of w' c = cells_of w c)))
    \<and> (no_fail w \<longrightarrow> 4 * strlen fmt + 1041 \<le> PTRDIFF_MAX \<longrightarrow> fresh w + 3 \<le> SIZE_MAX \<longrightarrow> printable (expand fmt ap) \<longrightarrow> q \<noteq> NULL)"
proof -
  from sdsnewfmt_ok [OF assms, of expand ap] obtain q w' where f: "sdsnewfmt expand fmt ap w = Some (q, w')"
    "if printable (expand fmt ap) then creates (the (expand fmt ap)) w q w'
         \<and> (room_for (grown_to (2 * strlen fmt)) w \<longrightarrow> fresh w + 3 \<le> SIZE_MAX \<longrightarrow> q \<noteq> NULL)
       else q = NULL \<and> becomes w w' (cells_of w) 0 []" by blast
  show ?thesis
  proof (cases "printable (expand fmt ap)")
    case False
    then show ?thesis using f by (auto simp: becomes_def)
  next
    case True
    then obtain xs where xs: "expand fmt ap = Some xs" "length xs \<le> 2147483647" by (auto simp: printable_def split: option.splits)
    have c: "creates xs w q w'" and r: "room_for (grown_to (2 * strlen fmt)) w \<longrightarrow> fresh w + 3 \<le> SIZE_MAX \<longrightarrow> q \<noteq> NULL"
      using f(2) True xs(1) by simp_all
    have "no_fail w \<longrightarrow> 4 * strlen fmt + 1041 \<le> PTRDIFF_MAX \<longrightarrow> fresh w + 3 \<le> SIZE_MAX \<longrightarrow> printable (expand fmt ap) \<longrightarrow> q \<noteq> NULL"
      using r grown_to_bounds(3) [of "2 * strlen fmt"] by (auto simp: room_for_def)
    moreover from c have "q = NULL \<and> cells_of w' = cells_of w \<and> live w' = live w
        \<or> sds_at w' q xs \<and> live w' = live w + 1 \<and> (\<forall>c. cells_of w c \<noteq> None \<longrightarrow> cells_of w' c = cells_of w c)"
      using assms(1) by (fastforce simp: creates_def becomes_def sds_at_def store_ok_def not_le [symmetric])
    ultimately show ?thesis using f(1) xs by blast
  qed
qed

definition echo :: "bytes \<Rightarrow> bytes list \<Rightarrow> bytes option" where
  "echo fmt ap = Some (concat (fmt # ap))"

theorem sds_format_witness:
  "\<exists>q w'. sdsnewfmt echo [37] [[97, 98], [99]] sds_example = Some (q, w')
    \<and> (q = NULL \<and> cells_of w' = cells_of sds_example \<and> live w' = live sds_example
       \<or> (\<exists>xs. echo [37] [[97, 98], [99]] = Some xs \<and> length xs \<le> 2147483647 \<and> sds_at w' q xs \<and> live w' = live sds_example + 1
            \<and> (\<forall>c. cells_of sds_example c \<noteq> None \<longrightarrow> cells_of w' c = cells_of sds_example c)))
    \<and> (no_fail sds_example \<longrightarrow> 4 * strlen [37] + 1041 \<le> PTRDIFF_MAX \<longrightarrow> fresh sds_example + 3 \<le> SIZE_MAX
        \<longrightarrow> printable (echo [37] [[97, 98], [99]]) \<longrightarrow> q \<noteq> NULL)"
  by (rule sds_format [OF sds_example_ok(1)]) (simp add: strlen_def SIZE_MAX_def)

text \<open>\<open>sdsreserve\<close> grows to at most \<open>1024\<close> bytes more than asked for. For capacities in the last \<open>1024\<close> bytes
  below \<open>SIZE_MAX - 1024\<close> the size of the block wraps around after the asserts: with a willing allocator the
  call succeeds with a block for the header alone, reports a capacity of \<open>SIZE_MAX\<close> bytes and has lost
  the bytes of the string, and even \<open>sdsclear\<close> writes outside of the block.\<close>

theorem sds_reserve_wraps:
  assumes w: "store_ok w" "no_fail w" "fresh w < SIZE_MAX" and s: "sds_at w s xs"
  shows "(n + 1041 \<le> PTRDIFF_MAX \<longrightarrow>
      (\<exists>q w' c. sdsreserve s n w = Some (q, w') \<and> sds_at w' q xs \<and> sdsalloc q w' = Some c \<and> n \<le> c \<and> c \<le> max (the (sdsalloc s w)) (n + 1024)))
    \<and> (\<exists>q w'. sdsreserve s (SIZE_MAX - 1024) w = Some (q, w') \<and> q \<noteq> NULL \<and> sdsalloc q w' = Some SIZE_MAX
      \<and> sds_bytes q (length xs) w' = (if xs = [] then Some [] else None) \<and> sdsclear q w' = None)"
proof
  from s obtain a h where a: "s = Ptr a" "cells_of w a = Some h" "good_hdr h xs" by (auto simp: sds_at_def)
  note H = good_hdrD [OF a(3)]
  have al: "sdsalloc s w = Some (h_alloc h)" using a by (simp add: sdsalloc_def SDS_HDR_def)
  show "n + 1041 \<le> PTRDIFF_MAX \<longrightarrow>
      (\<exists>q w' c. sdsreserve s n w = Some (q, w') \<and> sds_at w' q xs \<and> sdsalloc q w' = Some c \<and> n \<le> c \<and> c \<le> max (the (sdsalloc s w)) (n + 1024))"
  proof
    assume n: "n + 1041 \<le> PTRDIFF_MAX"
    then have "n + 1041 \<le> SIZE_MAX" using SIZE_MAX_PTRDIFF_MAX by simp
    from sdsreserve_ok [OF w(1) a(2,3) this] obtain q w' where
      r: "sdsreserve (Ptr a) n w = Some (q, w')" "edits a xs w q w'" "room_for (grown_to n) w \<longrightarrow> q \<noteq> NULL"
        "q \<noteq> NULL \<longrightarrow> (\<exists>c. sdsalloc q w' = Some c \<and> n \<le> c \<and> c \<le> max (h_alloc h) (grown_to n))" by blast
    have "room_for (grown_to n) w" using w(2,3) n grown_to_bounds(3) [of n] by (simp add: room_for_def)
    then have q: "q \<noteq> NULL" using r(3) by blast
    then obtain c where c: "sdsalloc q w' = Some c" "n \<le> c" "c \<le> max (h_alloc h) (grown_to n)" using r(4) by blast
    have "sds_at w' q xs" using r(2) q by (auto simp: edits_def sds_at_def dest: becomesD(2))
    moreover have "c \<le> max (h_alloc h) (n + 1024)" using c(3) grown_to_bounds(3) [of n] by (simp add: le_max_iff_disj) linarith
    ultimately show "\<exists>q w' c. sdsreserve s n w = Some (q, w') \<and> sds_at w' q xs \<and> sdsalloc q w' = Some c \<and> n \<le> c
        \<and> c \<le> max (the (sdsalloc s w)) (n + 1024)" using r(1) a(1) al c(1,2) by auto
  qed
  let ?C = "SIZE_MAX - 1024"
  have sums: "\<not> ?C \<le> h_alloc h" "sz_sub ?C (length xs) = ?C - length xs" "sz_add (length xs) (?C - length xs) = ?C"
      "sz_sub (h_alloc h) (length xs) = h_alloc h - length xs" "\<not> ?C - length xs \<le> h_alloc h - length xs" "\<not> ?C < length xs"
    using H(2,3,6) by (simp_all add: SIZE_MAX_def PTRDIFF_MAX_def)
  have limits: "\<not> ?C < SDS_MAX_PREALLOC" "sz_add ?C SDS_MAX_PREALLOC = SIZE_MAX" "SDS_BYTES SIZE_MAX = 16" "\<not> SIZE_MAX < ?C"
    by (simp_all add: SDS_MAX_PREALLOC_def SDS_BYTES_def sz_add_def SIZE_MAX_def)
  obtain q w1 where new: "new_node 16 (raw_hdr 16) w = (q, w1)" by fastforce
  note e = becomes_new_node [OF new w(1)]
  have q: "q = Ptr (fresh w)" "becomes w w1 ((cells_of w)(fresh w \<mapsto> raw_hdr 16)) 1 []" "fresh w1 = Suc (fresh w)"
    using e(1) e(2) [OF w(2) _ w(3)] by (auto simp: PTRDIFF_MAX_def)
  let ?b = "fresh w" and ?h = "h\<lparr>h_buf := []\<rparr>"
  have B: "building w w1 ?b (raw_hdr 16)" using w(1) q(2,3) by (simp add: building_def)
  have ne: "a \<noteq> ?b" using w(1) a(2) by (auto simp: store_ok_def)
  have set: "modify (Ptr ?b) f w1 = Some (with_cells ((cells_of w)(?b \<mapsto> f (raw_hdr 16))) w1)" for f
    by (subst buildingD(7) [OF B]) (rule at_cell)
  have b2: "building w (with_cells ((cells_of w)(?b \<mapsto> ?h)) w1) ?b ?h" by (rule building_set [OF B])
  have "cells_of (with_cells ((cells_of w)(?b \<mapsto> ?h)) w1) a = Some h" using a(2) ne by simp
  from becomes_free_node [OF buildingD(5) [OF b2] this] obtain w2 where
    w2: "free_node (Ptr a) (with_cells ((cells_of w)(?b \<mapsto> ?h)) w1) = Some w2" "cells_of w2 ?b = Some ?h"
    using ne by (auto simp: becomes_def)
  have "realloc_hdr (Ptr a) 16 w = Some (Ptr ?b, w2)"
    using a(2) new q(1) w2(1) set by (simp add: realloc_hdr_def malloc_hdr_def SDS_HDR_def raw_hdr_def)
  moreover have "modify (Ptr ?b) (h_alloc_update (\<lambda>_. SIZE_MAX)) w2 = Some (with_cells ((cells_of w2)(?b \<mapsto> ?h\<lparr>h_alloc := SIZE_MAX\<rparr>)) w2)"
    using w2(2) by (simp add: modify_at)
  ultimately have f: "sdsreserve s ?C w = Some (Ptr ?b, with_cells ((cells_of w2)(?b \<mapsto> ?h\<lparr>h_alloc := SIZE_MAX\<rparr>)) w2)"
    using a(1,2) H(1) sums limits
    by (simp add: sdsreserve_def sdsalloc_def sdslen_def SDS_HDR_def sds_reserve_for_additional_def Let_def)
  then show "\<exists>q w'. sdsreserve s ?C w = Some (q, w') \<and> q \<noteq> NULL \<and> sdsalloc q w' = Some SIZE_MAX
      \<and> sds_bytes q (length xs) w' = (if xs = [] then Some [] else None) \<and> sdsclear q w' = None"
    by (simp add: sdsalloc_def sds_bytes_def sdsclear_def sds_write_def mem_read_def mem_write_def)
qed

theorem sds_reserve_wraps_witness:
  "(100 + 1041 \<le> PTRDIFF_MAX \<longrightarrow>
      (\<exists>q w' c. sdsreserve (Ptr 0) 100 sds_example = Some (q, w') \<and> sds_at w' q [97, 44, 98] \<and> sdsalloc q w' = Some c \<and> 100 \<le> c
        \<and> c \<le> max (the (sdsalloc (Ptr 0) sds_example)) (100 + 1024)))
    \<and> (\<exists>q w'. sdsreserve (Ptr 0) (SIZE_MAX - 1024) sds_example = Some (q, w') \<and> q \<noteq> NULL \<and> sdsalloc q w' = Some SIZE_MAX
      \<and> sds_bytes q (length [97, 44, 98 :: 8 word]) w' = (if [97, 44, 98 :: 8 word] = [] then Some [] else None) \<and> sdsclear q w' = None)"
  by (rule sds_reserve_wraps [OF sds_example_ok(1,2) _ sds_example_ok(3)]) (simp add: sds_example_cells SIZE_MAX_def)

end
