(* ===== verification/Typed.thy ===== *)
theory Typed
  imports Prelude
begin

text \<open>
  What the macro containers of \<open>src/legacy\<close> share. A macro either runs into undefined behaviour
  or a failed \<open>assert\<close> (\<open>None\<close>), ends the process by \<open>exit(1)\<close> when the allocator refuses
  (\<open>Some Exit\<close>), or completes (\<open>Some (Done r)\<close>). The locale \<open>typed_container\<close> is the
  contract between the macros of a container and its abstract machine, whose steps are undefined
  exactly where a macro asserts.
\<close>

section \<open>Outcomes\<close>

datatype 'a outcome = Exit | Done 'a

definition and_then :: "'a outcome option \<Rightarrow> ('a \<Rightarrow> 'b outcome option) \<Rightarrow> 'b outcome option" where
  "and_then m f = (case m of None \<Rightarrow> None | Some Exit \<Rightarrow> Some Exit | Some (Done x) \<Rightarrow> f x)"

lemma and_then_simps [simp]:
  "and_then None f = None" "and_then (Some Exit) f = Some Exit" "and_then (Some (Done x)) f = f x"
  by (simp_all add: and_then_def)

lemma and_then_assoc: "and_then (and_then m f) g = and_then m (\<lambda>x. and_then (f x) g)"
  by (simp add: and_then_def split: option.splits outcome.splits)

text \<open>The cases of a macro that completes or exits, never undefined.\<close>

lemma outcome_cases:
  obtains "m = None" | "m = Some Exit" | x where "m = Some (Done x)"
  by (cases m; cases "the m") auto

section \<open>Histories\<close>

fun typed_run :: "('op \<Rightarrow> 'h \<Rightarrow> 'w \<Rightarrow> ('h \<times> 'w) outcome option) \<Rightarrow> 'op list \<Rightarrow> 'h \<Rightarrow> 'w
    \<Rightarrow> ('h \<times> 'w) outcome option" where
  "typed_run exec [] h w = Some (Done (h, w))"
| "typed_run exec (op # ops) h w = and_then (exec op h w) (\<lambda>(h1, w1). typed_run exec ops h1 w1)"

inductive typed_steps :: "('op \<Rightarrow> 'm \<Rightarrow> 'm \<Rightarrow> bool) \<Rightarrow> 'op list \<Rightarrow> 'm \<Rightarrow> 'm \<Rightarrow> bool" for step where
  stop: "typed_steps step [] m m"
| go: "step op m m1 \<Longrightarrow> typed_steps step ops m1 m2 \<Longrightarrow> typed_steps step (op # ops) m m2"

inductive_simps typed_steps_simps [simp]: "typed_steps step [] m m'" "typed_steps step (op # ops) m m'"

text \<open>The abstract machine gets stuck within \<open>ops\<close>: an assertion of the code fails.\<close>

definition gets_stuck :: "('op \<Rightarrow> 'm \<Rightarrow> 'm \<Rightarrow> bool) \<Rightarrow> 'op list \<Rightarrow> 'm \<Rightarrow> bool" where
  "gets_stuck step ops m \<longleftrightarrow>
     (\<exists>pre op post m1. ops = pre @ op # post \<and> typed_steps step pre m m1 \<and> (\<nexists>m2. step op m1 m2))"

lemma gets_stuck_now: "(\<nexists>m2. step op m m2) \<Longrightarrow> gets_stuck step (op # ops) m"
  unfolding gets_stuck_def by (intro exI [of _ "[]"] exI [of _ op] exI [of _ ops] exI [of _ m]) simp

lemma gets_stuck_later: "step op m m1 \<Longrightarrow> gets_stuck step ops m1 \<Longrightarrow> gets_stuck step (op # ops) m"
  unfolding gets_stuck_def by (elim exE conjE) (metis append_Cons typed_steps.go)

text \<open>
  The contract. \<open>budget h n\<close> says that \<open>n\<close> more operations keep the counters of the container in
  range, and \<open>room h n\<close> that they cannot make a block exceed what the allocator may grant, so that
  only a failing allocator can end the process.
\<close>

locale typed_container =
  fixes exec :: "'op \<Rightarrow> 'h \<Rightarrow> ('a, 'b) world_scheme \<Rightarrow> ('h \<times> ('a, 'b) world_scheme) outcome option"
    and step :: "'op \<Rightarrow> 'm \<Rightarrow> 'm \<Rightarrow> bool"
    and rel :: "'h \<Rightarrow> ('a, 'b) world_scheme \<Rightarrow> 'm \<Rightarrow> bool"
    and own :: "'h \<Rightarrow> int"
    and budget :: "'h \<Rightarrow> nat \<Rightarrow> bool"
    and room :: "'h \<Rightarrow> nat \<Rightarrow> bool"
  assumes law_stuck: "rel h w m \<Longrightarrow> budget h (Suc n) \<Longrightarrow> exec op h w = None \<Longrightarrow> \<nexists>m'. step op m m'"
    and law_exit: "rel h w m \<Longrightarrow> budget h (Suc n) \<Longrightarrow> exec op h w = Some Exit \<Longrightarrow>
      \<not> (no_fail w \<and> room h (Suc n))"
    and law_done: "rel h w m \<Longrightarrow> budget h (Suc n) \<Longrightarrow> exec op h w = Some (Done (h', w')) \<Longrightarrow>
      \<exists>m'. step op m m' \<and> rel h' w' m' \<and> budget h' n \<and> live w' - own h' = live w - own h
        \<and> (no_fail w \<longrightarrow> room h (Suc n) \<longrightarrow> no_fail w' \<and> room h' n)"
begin

lemma run_law:
  assumes "rel h w m" and "budget h (length ops)"
  shows "case typed_run exec ops h w of
      None \<Rightarrow> gets_stuck step ops m
    | Some Exit \<Rightarrow> \<not> (no_fail w \<and> room h (length ops))
    | Some (Done (h', w')) \<Rightarrow> \<exists>m'. typed_steps step ops m m' \<and> rel h' w' m'
        \<and> live w' - own h' = live w - own h"
  using assms
proof (induction ops arbitrary: h m w)
  case (Cons op ops)
  have b: "budget h (Suc (length ops))" using Cons.prems(2) by simp
  show ?case
  proof (cases "exec op h w" rule: outcome_cases)
    case 1
    then show ?thesis using law_stuck [OF Cons.prems(1) b] by (simp add: gets_stuck_now)
  next
    case 2
    then show ?thesis using law_exit [OF Cons.prems(1) b 2] by simp
  next
    case (3 x)
    obtain h1 w1 where x: "x = (h1, w1)" by (cases x)
    from law_done [OF Cons.prems(1) b 3 [unfolded x]] obtain m1 where m1: "step op m m1" "rel h1 w1 m1"
      "budget h1 (length ops)" "live w1 - own h1 = live w - own h"
      "no_fail w \<longrightarrow> room h (Suc (length ops)) \<longrightarrow> no_fail w1 \<and> room h1 (length ops)"
      by (elim exE conjE) (rule that)
    have run: "typed_run exec (op # ops) h w = typed_run exec ops h1 w1" using 3 x by simp
    from Cons.IH [OF m1(2,3)] show ?thesis
      unfolding run using m1 gets_stuck_later [of step op m m1 ops]
      by (auto split: option.splits outcome.splits)
  qed
qed simp

text \<open>What a client may rely on: a run without failed assertion, with memory enough, completes.\<close>

lemma run_completes:
  assumes "rel h w m" and "budget h (length ops)" and "\<not> gets_stuck step ops m" and "no_fail w"
    and "room h (length ops)"
  shows "\<exists>h' w' m'. typed_run exec ops h w = Some (Done (h', w')) \<and> typed_steps step ops m m' \<and> rel h' w' m'"
  using run_law [OF assms(1,2)] assms(3-5)
  by (auto split: option.splits outcome.splits)

end

section \<open>The growing block of the vector and heap macros\<close>

text \<open>
  \<open>b\<close> is the size of the element type in bytes. A block of \<open>cap\<close> slots is what \<open>realloc\<close> or
  \<open>malloc\<close> may have granted.
\<close>

definition granted :: "size_t \<Rightarrow> size_t \<Rightarrow> 'a buf \<Rightarrow> bool" where
  "granted b cap d \<longleftrightarrow> length (slots d) = cap \<and> (d = NULL \<longleftrightarrow> cap = 0)
     \<and> 0 < b \<and> 8 * b \<le> PTRDIFF_MAX \<and> cap * b \<le> PTRDIFF_MAX"

lemma grantedD:
  assumes "granted b cap d"
  shows "length (slots d) = cap" "d = NULL \<longleftrightarrow> cap = 0" "0 < b" "8 * b \<le> PTRDIFF_MAX"
    "cap * b \<le> PTRDIFF_MAX" "cap \<le> PTRDIFF_MAX"
  using assms mult_le_PTRDIFF [of cap b] by (auto simp: granted_def)

lemma granted_put:
  assumes "granted b cap d" and "buf_put d i v = Some d'"
  shows "granted b cap d'"
  using assms by (auto simp: granted_def buf_put_def split: if_splits)

text \<open>Doubling a granted block computes its byte count without wrap-around.\<close>

definition doubled :: "size_t \<Rightarrow> size_t" where
  "doubled cap = (if cap = 0 then 8 else 2 * cap)"

lemma doubled_exact:
  assumes "granted b cap d"
  shows "sz_mul cap 2 = 2 * cap" "sz_mul (doubled cap) b = doubled cap * b" "cap < doubled cap"
    "doubled cap * b \<le> PTRDIFF_MAX \<Longrightarrow> granted b (doubled cap) (buf_new (doubled cap))"
proof -
  note D = grantedD [OF assms]
  have "doubled cap * b \<le> SIZE_MAX"
    using D(4,5) SIZE_MAX_PTRDIFF_MAX by (cases "cap = 0") (simp_all add: doubled_def)
  then show "sz_mul (doubled cap) b = doubled cap * b" by simp
  show "sz_mul cap 2 = 2 * cap" using D(6) SIZE_MAX_PTRDIFF_MAX by (simp add: mult.commute)
  show "cap < doubled cap" by (simp add: doubled_def)
  show "doubled cap * b \<le> PTRDIFF_MAX \<Longrightarrow> granted b (doubled cap) (buf_new (doubled cap))"
    using D(3,4) by (simp add: granted_def doubled_def)
qed

text \<open>Room for \<open>n\<close> more elements beside the \<open>k\<close> stored ones.\<close>

definition typed_room :: "size_t \<Rightarrow> nat \<Rightarrow> nat \<Rightarrow> bool" where
  "typed_room b k n \<longleftrightarrow> (2 * (k + n) + 8) * b \<le> PTRDIFF_MAX"

lemma typed_room_mono: "typed_room b k n \<Longrightarrow> k' + n' \<le> k + n \<Longrightarrow> typed_room b k' n'"
  unfolding typed_room_def by (erule order_trans [rotated]) (simp add: mult_le_mono1)

lemma typed_room_doubled: "typed_room b k n \<Longrightarrow> cap \<le> k + n \<Longrightarrow> doubled cap * b \<le> PTRDIFF_MAX"
  unfolding typed_room_def
  by (erule order_trans [rotated]) (rule mult_le_mono1, simp add: doubled_def)

end
