(* ===== verification/Vector_Typed.thy ===== *)
theory Vector_Typed
  imports Typed
begin

text \<open>
  \<open>src/legacy/vector_typed.h\<close>: the dynamic array as macros over a structure with a typed data
  pointer. Every macro with an effect is a definition of its name with the suffix \<open>_typed\<close>;
  \<open>b\<close> stands for \<open>vector_type_bytes\<close>, the size of the element type.
\<close>

section \<open>Model\<close>

record 'a vector_typed =
  tv_capacity :: size_t
  tv_size :: size_t
  tv_data :: "'a buf"

definition VECTOR_INIT_CAPACITY_typed :: size_t where
  "VECTOR_INIT_CAPACITY_typed = 8"

definition vector_empty_typed :: "'a vector_typed \<Rightarrow> bool" where
  "vector_empty_typed v \<longleftrightarrow> tv_size v = 0"

text \<open>The value of \<open>vector_back\<close>, read in the slot before \<open>size\<close>.\<close>

definition vector_back_typed :: "'a vector_typed \<Rightarrow> 'a option" where
  "vector_back_typed v = buf_get (tv_data v) (sz_sub (tv_size v) 1)"

definition vector_new_typed ::
    "('a, 'b) world_scheme \<Rightarrow> 'c vector_typed ptr \<times> ('a, 'b) world_scheme" where
  "vector_new_typed w = (let (ok, w1) = calloc 1 24 w in
     (if ok then Ptr \<lparr>tv_capacity = 0, tv_size = 0, tv_data = NULL\<rparr> else NULL, w1))"

text \<open>The flag tells whether the macro returns from the function that uses it.\<close>

definition vector_free_typed ::
    "'c vector_typed ptr \<Rightarrow> ('a, 'b) world_scheme \<Rightarrow> bool \<times> ('a, 'b) world_scheme" where
  "vector_free_typed p w = (case p of NULL \<Rightarrow> (True, w)
     | Ptr v \<Rightarrow> (False, free_block (if tv_data v \<noteq> NULL then free_ptr (tv_data v) w else w)))"

definition vector_expand_typed ::
    "size_t \<Rightarrow> 'c vector_typed \<Rightarrow> ('a, 'b) world_scheme
     \<Rightarrow> ('c vector_typed \<times> ('a, 'b) world_scheme) outcome option" where
  "vector_expand_typed b v w =
     (if tv_size v < tv_capacity v then Some (Done (v, w))
      else let cap = (if tv_capacity v = 0 then VECTOR_INIT_CAPACITY_typed else sz_mul (tv_capacity v) 2);
               bytes = sz_mul cap b; (ok, w1) = realloc (tv_data v \<noteq> NULL) bytes w in
        if \<not> ok then Some Exit
        else Some (Done (v\<lparr>tv_capacity := cap, tv_data := buf_resize (bytes div b) (tv_data v)\<rparr>, w1)))"

definition vector_push_back_typed ::
    "size_t \<Rightarrow> 'c vector_typed \<Rightarrow> 'c \<Rightarrow> ('a, 'b) world_scheme
     \<Rightarrow> ('c vector_typed \<times> ('a, 'b) world_scheme) outcome option" where
  "vector_push_back_typed b v e w = and_then (vector_expand_typed b v w) (\<lambda>(v1, w1). do {
     d \<leftarrow> buf_put (tv_data v1) (tv_size v1) (Some e);
     Some (Done (v1\<lparr>tv_data := d, tv_size := sz_add (tv_size v1) 1\<rparr>, w1)) })"

definition vector_pop_back_typed :: "'c vector_typed \<Rightarrow> 'c vector_typed option" where
  "vector_pop_back_typed v =
     (if vector_empty_typed v then None else Some (v\<lparr>tv_size := sz_sub (tv_size v) 1\<rparr>))"

definition vector_clear_typed :: "'c vector_typed \<Rightarrow> 'c vector_typed" where
  "vector_clear_typed v = v\<lparr>tv_size := 0\<rparr>"

definition vector_insert_typed ::
    "size_t \<Rightarrow> 'c vector_typed \<Rightarrow> size_t \<Rightarrow> 'c \<Rightarrow> ('a, 'b) world_scheme
     \<Rightarrow> ('c vector_typed \<times> ('a, 'b) world_scheme) outcome option" where
  "vector_insert_typed b v i e w =
     (if \<not> i < tv_size v then None
      else and_then (vector_expand_typed b v w) (\<lambda>(v1, w1). do {
        d \<leftarrow> buf_move (tv_data v1) (sz_add i 1) i (sz_sub (tv_size v1) i);
        d1 \<leftarrow> buf_put d i (Some e);
        Some (Done (v1\<lparr>tv_data := d1, tv_size := sz_add (tv_size v1) 1\<rparr>, w1)) }))"

definition vector_erase_typed :: "'c vector_typed \<Rightarrow> size_t \<Rightarrow> 'c vector_typed option" where
  "vector_erase_typed v i =
     (if \<not> i < tv_size v then None
      else let n = sz_sub (sz_sub (tv_size v) i) 1 in do {
        d \<leftarrow> (if 0 < n then buf_move (tv_data v) i (sz_add i 1) n else Some (tv_data v));
        Some (v\<lparr>tv_data := d, tv_size := sz_sub (tv_size v) 1\<rparr>) })"

text \<open>
  \<open>qsort\<close> and \<open>bsearch\<close> are parameters as in \<open>Vector\<close>. The C library demands a valid array
  even when it has no elements, so a vector without a block must not be sorted.
\<close>

definition vector_sort_typed ::
    "(('c \<Rightarrow> 'c \<Rightarrow> int) \<Rightarrow> 'c list \<Rightarrow> 'c list) \<Rightarrow> 'c vector_typed \<Rightarrow> ('c \<Rightarrow> 'c \<Rightarrow> int) \<Rightarrow> 'c vector_typed option" where
  "vector_sort_typed qs v cmp = (case tv_data v of NULL \<Rightarrow> None | Ptr d \<Rightarrow> do {
     xs \<leftarrow> those (take (tv_size v) d);
     Some (v\<lparr>tv_data := Ptr (map Some (qs cmp xs) @ drop (tv_size v) d)\<rparr>) })"

definition vector_bsearch_typed ::
    "(('c \<Rightarrow> 'c \<Rightarrow> int) \<Rightarrow> 'c \<Rightarrow> 'c list \<Rightarrow> nat option) \<Rightarrow> 'c vector_typed \<Rightarrow> 'c \<Rightarrow> ('c \<Rightarrow> 'c \<Rightarrow> int)
     \<Rightarrow> nat ptr option" where
  "vector_bsearch_typed bs v key cmp = (case tv_data v of NULL \<Rightarrow> None | Ptr d \<Rightarrow> do {
     xs \<leftarrow> those (take (tv_size v) d);
     Some (case bs cmp key xs of None \<Rightarrow> NULL | Some i \<Rightarrow> Ptr i) })"

section \<open>Contracts\<close>

definition tvec_rel :: "size_t \<Rightarrow> 'c vector_typed \<Rightarrow> 'c list \<Rightarrow> bool" where
  "tvec_rel b v xs \<longleftrightarrow> tv_size v = length xs \<and> holds (tv_data v) xs \<and> granted b (tv_capacity v) (tv_data v)"

definition tvec_own :: "'c vector_typed \<Rightarrow> int" where
  "tvec_own v = blocks (tv_data v)"

lemma tvec_relD:
  assumes "tvec_rel b v xs"
  shows "tv_size v = length xs" "holds (tv_data v) xs" "granted b (tv_capacity v) (tv_data v)"
    "length xs \<le> tv_capacity v" "length xs \<le> PTRDIFF_MAX"
proof -
  show c: "tv_size v = length xs" "holds (tv_data v) xs" "granted b (tv_capacity v) (tv_data v)"
    using assms by (simp_all add: tvec_rel_def)
  show "length xs \<le> tv_capacity v" using c(2) grantedD(1) [OF c(3)] by (simp add: holds_def)
  then show "length xs \<le> PTRDIFF_MAX" using grantedD(6) [OF c(3)] by linarith
qed

text \<open>The new vector is empty, and its releases give every block back.\<close>

lemma vector_new_typed_ok:
  assumes "0 < b" and "8 * b \<le> PTRDIFF_MAX" and "vector_new_typed w = (p, w')"
  shows "p = NULL \<and> \<not> no_fail w \<and> live w' = live w
    \<or> (\<exists>v. p = Ptr v \<and> tvec_rel b v [] \<and> tvec_own v = 0 \<and> live w' = live w + 1 \<and> (no_fail w \<longrightarrow> no_fail w'))"
proof -
  obtain ok w1 where m: "malloc 24 w = (ok, w1)" by fastforce
  have "p = (if ok then Ptr \<lparr>tv_capacity = 0, tv_size = 0, tv_data = NULL\<rparr> else NULL)" "w' = w1"
    using assms(3) m by (simp_all add: vector_new_typed_def calloc_def)
  with malloc_effect [OF m] assms(1,2) show ?thesis
    by (cases ok) (auto simp: tvec_rel_def tvec_own_def granted_def PTRDIFF_MAX_def)
qed

lemma vector_free_typed_ok: "vector_free_typed (Ptr v) w = (f, w') \<Longrightarrow> \<not> f \<and> live w' = live w - tvec_own v - 1"
  by (auto simp: vector_free_typed_def tvec_own_def)

lemma vector_expand_typed_ok:
  assumes v: "tvec_rel b v xs"
  shows "vector_expand_typed b v w = Some Exit \<and> \<not> (no_fail w \<and> typed_room b (length xs) (Suc n))
    \<or> (\<exists>v' w'. vector_expand_typed b v w = Some (Done (v', w')) \<and> tvec_rel b v' xs
        \<and> length xs < tv_capacity v' \<and> live w' - tvec_own v' = live w - tvec_own v
        \<and> (no_fail w \<longrightarrow> no_fail w'))"
proof (cases "tv_size v < tv_capacity v")
  case True
  then show ?thesis using v tvec_relD(1) [OF v] by (auto simp: vector_expand_typed_def)
next
  case False
  note D = tvec_relD [OF v] note G = grantedD [OF D(3)] note E = doubled_exact [OF D(3)]
  have cap: "(if tv_capacity v = 0 then VECTOR_INIT_CAPACITY_typed else sz_mul (tv_capacity v) 2)
      = doubled (tv_capacity v)"
    using E(1) by (simp add: doubled_def VECTOR_INIT_CAPACITY_typed_def)
  let ?c = "doubled (tv_capacity v)"
  obtain ok w1 where r: "realloc (tv_data v \<noteq> NULL) (?c * b) w = (ok, w1)" by fastforce
  note R = realloc_effect [OF r]
  have exp: "vector_expand_typed b v w = (if \<not> ok then Some Exit
      else Some (Done (v\<lparr>tv_capacity := ?c, tv_data := buf_resize ?c (tv_data v)\<rparr>, w1)))"
    using False G(3) r by (simp only: vector_expand_typed_def cap Let_def E(2)) simp
  show ?thesis
  proof (cases ok)
    case True
    have "tvec_rel b (v\<lparr>tv_capacity := ?c, tv_data := buf_resize ?c (tv_data v)\<rparr>) xs"
      using D(1,2,4) E(3) G(3,4) R(4) True holds_resize [OF D(2), of ?c]
      by (auto simp: tvec_rel_def granted_def doubled_def)
    with exp True D(4) E(3) R(3,5) show ?thesis
      by (auto simp: tvec_own_def blocks_def split: ptr.splits)
  next
    case no: False
    have "\<not> (no_fail w \<and> typed_room b (length xs) (Suc n))"
    proof
      assume a: "no_fail w \<and> typed_room b (length xs) (Suc n)"
      have "tv_capacity v \<le> length xs + Suc n" using False D(1) by simp
      then show False using typed_room_doubled [of b "length xs" "Suc n" "tv_capacity v"] R(6) a no by simp
    qed
    with exp no show ?thesis by simp
  qed
qed

section \<open>The abstract machine\<close>

datatype 'c vector_typed_op = TPush 'c | TPop | TClear | TInsert size_t 'c | TErase size_t

fun vector_typed_exec :: "size_t \<Rightarrow> 'c vector_typed_op \<Rightarrow> 'c vector_typed \<Rightarrow> ('a, 'b) world_scheme
    \<Rightarrow> ('c vector_typed \<times> ('a, 'b) world_scheme) outcome option" where
  "vector_typed_exec b (TPush x) v w = vector_push_back_typed b v x w"
| "vector_typed_exec b TPop v w = map_option (\<lambda>v'. Done (v', w)) (vector_pop_back_typed v)"
| "vector_typed_exec b TClear v w = Some (Done (vector_clear_typed v, w))"
| "vector_typed_exec b (TInsert i x) v w = vector_insert_typed b v i x w"
| "vector_typed_exec b (TErase i) v w = map_option (\<lambda>v'. Done (v', w)) (vector_erase_typed v i)"

fun vector_typed_step :: "'c vector_typed_op \<Rightarrow> 'c list \<Rightarrow> 'c list \<Rightarrow> bool" where
  "vector_typed_step (TPush x) xs ys \<longleftrightarrow> ys = xs @ [x]"
| "vector_typed_step TPop xs ys \<longleftrightarrow> xs \<noteq> [] \<and> ys = butlast xs"
| "vector_typed_step TClear xs ys \<longleftrightarrow> ys = []"
| "vector_typed_step (TInsert i x) xs ys \<longleftrightarrow> i < length xs \<and> ys = take i xs @ x # drop i xs"
| "vector_typed_step (TErase i) xs ys \<longleftrightarrow> i < length xs \<and> ys = take i xs @ drop (Suc i) xs"

text \<open>What every macro guarantees of its outcome.\<close>

definition tvec_law :: "size_t \<Rightarrow> 'c vector_typed \<Rightarrow> 'c list \<Rightarrow> ('c list \<Rightarrow> bool) \<Rightarrow> ('a, 'b) world_scheme
    \<Rightarrow> ('c vector_typed \<times> ('a, 'b) world_scheme) outcome option \<Rightarrow> bool" where
  "tvec_law b v xs post w r \<longleftrightarrow> (case r of None \<Rightarrow> \<nexists>ys. post ys
     | Some Exit \<Rightarrow> \<forall>n. \<not> (no_fail w \<and> typed_room b (length xs) (Suc n))
     | Some (Done (v', w')) \<Rightarrow> \<exists>ys. post ys \<and> tvec_rel b v' ys \<and> length ys \<le> Suc (length xs)
         \<and> live w' - tvec_own v' = live w - tvec_own v \<and> (no_fail w \<longrightarrow> no_fail w'))"

lemma tvec_law_grow:
  assumes v: "tvec_rel b v xs"
    and f: "\<And>v1 w1. tvec_rel b v1 xs \<Longrightarrow> length xs < tv_capacity v1 \<Longrightarrow>
      \<exists>d ys. f (v1, w1) = Some (Done (v1\<lparr>tv_data := d, tv_size := Suc (length xs)\<rparr>, w1)) \<and> post ys
        \<and> length ys = Suc (length xs) \<and> holds d ys \<and> length (slots d) = length (slots (tv_data v1)) \<and> d \<noteq> NULL"
  shows "tvec_law b v xs post w (and_then (vector_expand_typed b v w) f)"
  using vector_expand_typed_ok [OF v, of w]
proof (cases "vector_expand_typed b v w" rule: outcome_cases)
  case 2
  then show ?thesis using vector_expand_typed_ok [OF v, of w] by (auto simp: tvec_law_def)
next
  case (3 r)
  then obtain v1 w1 where e: "vector_expand_typed b v w = Some (Done (v1, w1))" and v1: "tvec_rel b v1 xs"
    "length xs < tv_capacity v1" "live w1 - tvec_own v1 = live w - tvec_own v" "no_fail w \<longrightarrow> no_fail w1"
    using vector_expand_typed_ok [OF v, of w] by auto
  obtain d ys where d: "f (v1, w1) = Some (Done (v1\<lparr>tv_data := d, tv_size := Suc (length xs)\<rparr>, w1))" "post ys"
    "length ys = Suc (length xs)" "holds d ys" "length (slots d) = length (slots (tv_data v1))" "d \<noteq> NULL"
    using f [OF v1(1,2)] by blast
  have own: "tv_data v1 \<noteq> NULL" using v1(2) grantedD(2) [OF tvec_relD(3) [OF v1(1)]] by auto
  have "tvec_rel b (v1\<lparr>tv_data := d, tv_size := Suc (length xs)\<rparr>) ys"
    using d tvec_relD(3) [OF v1(1)] v1(2) by (auto simp: tvec_rel_def granted_def)
  moreover have "tvec_own (v1\<lparr>tv_data := d, tv_size := Suc (length xs)\<rparr>) = tvec_own v1"
    using d(6) own by (simp add: tvec_own_def)
  ultimately show ?thesis
    using e d(1-3) v1(3,4) by (auto simp: tvec_law_def)
qed (auto simp: tvec_law_def)

lemma vector_push_back_typed_law:
  assumes v: "tvec_rel b v xs"
  shows "tvec_law b v xs (vector_typed_step (TPush x) xs) w (vector_push_back_typed b v x w)"
  unfolding vector_push_back_typed_def
proof (rule tvec_law_grow [OF v])
  fix v1 :: "'a vector_typed" and w1 :: "('b, 'c) world_scheme"
  assume v1: "tvec_rel b v1 xs" "length xs < tv_capacity v1"
  note D = tvec_relD [OF v1(1)] note G = grantedD [OF D(3)]
  obtain d where d: "buf_put (tv_data v1) (length xs) (Some x) = Some d" "holds d (xs @ [x])"
    "length (slots d) = length (slots (tv_data v1))" "d \<noteq> NULL"
    using holds_put_new [OF D(2), of x] v1(2) G(1) by auto
  have "sz_add (tv_size v1) 1 = Suc (length xs)" using D(1,5) SIZE_MAX_PTRDIFF_MAX by simp
  with d D(1) show "\<exists>d ys. (case (v1, w1) of (v1, w1) \<Rightarrow> do {
       d \<leftarrow> buf_put (tv_data v1) (tv_size v1) (Some x);
       Some (Done (v1\<lparr>tv_data := d, tv_size := sz_add (tv_size v1) 1\<rparr>, w1)) })
     = Some (Done (v1\<lparr>tv_data := d, tv_size := Suc (length xs)\<rparr>, w1)) \<and> vector_typed_step (TPush x) xs ys
     \<and> length ys = Suc (length xs) \<and> holds d ys \<and> length (slots d) = length (slots (tv_data v1)) \<and> d \<noteq> NULL"
    by (intro exI [of _ d] exI [of _ "xs @ [x]"]) simp
qed

lemma vector_insert_typed_law:
  assumes v: "tvec_rel b v xs"
  shows "tvec_law b v xs (vector_typed_step (TInsert i x) xs) w (vector_insert_typed b v i x w)"
proof (cases "i < length xs")
  case False
  then show ?thesis using tvec_relD(1) [OF v] by (simp add: vector_insert_typed_def tvec_law_def)
next
  case i: True
  have "tvec_law b v xs (vector_typed_step (TInsert i x) xs) w
     (and_then (vector_expand_typed b v w) (\<lambda>(v1, w1). do {
        d \<leftarrow> buf_move (tv_data v1) (sz_add i 1) i (sz_sub (tv_size v1) i);
        d1 \<leftarrow> buf_put d i (Some x);
        Some (Done (v1\<lparr>tv_data := d1, tv_size := sz_add (tv_size v1) 1\<rparr>, w1)) }))"
  proof (rule tvec_law_grow [OF v])
    fix v1 :: "'a vector_typed" and w1 :: "('b, 'c) world_scheme"
    assume v1: "tvec_rel b v1 xs" "length xs < tv_capacity v1"
    note D = tvec_relD [OF v1(1)] note G = grantedD [OF D(3)]
    obtain d1 d2 where d: "buf_move (tv_data v1) (i + 1) i (length xs - i) = Some d1"
      "buf_put d1 i (Some x) = Some d2" "holds d2 (take i xs @ x # drop i xs)"
      "length (slots d2) = length (slots (tv_data v1))" "d2 \<noteq> NULL"
      using holds_insert [OF D(2) i, of x] v1(2) G(1) by auto
    have "sz_add (tv_size v1) 1 = Suc (length xs)" "sz_add i 1 = i + 1" "sz_sub (tv_size v1) i = length xs - i"
      using D(1,5) i SIZE_MAX_PTRDIFF_MAX by simp_all
    with d i show "\<exists>d ys. (case (v1, w1) of (v1, w1) \<Rightarrow> do {
         d \<leftarrow> buf_move (tv_data v1) (sz_add i 1) i (sz_sub (tv_size v1) i);
         d1 \<leftarrow> buf_put d i (Some x);
         Some (Done (v1\<lparr>tv_data := d1, tv_size := sz_add (tv_size v1) 1\<rparr>, w1)) })
       = Some (Done (v1\<lparr>tv_data := d, tv_size := Suc (length xs)\<rparr>, w1)) \<and> vector_typed_step (TInsert i x) xs ys
       \<and> length ys = Suc (length xs) \<and> holds d ys \<and> length (slots d) = length (slots (tv_data v1)) \<and> d \<noteq> NULL"
      by (intro exI [of _ d2] exI [of _ "take i xs @ x # drop i xs"]) simp
  qed
  then show ?thesis using i tvec_relD(1) [OF v] by (simp add: vector_insert_typed_def)
qed

lemma vector_erase_typed_law:
  assumes v: "tvec_rel b v xs"
  shows "tvec_law b v xs (vector_typed_step (TErase i) xs) w
    (map_option (\<lambda>v'. Done (v', w)) (vector_erase_typed v i))"
proof (cases "i < length xs")
  case False
  then show ?thesis using tvec_relD(1) [OF v] by (simp add: vector_erase_typed_def tvec_law_def)
next
  case True
  note D = tvec_relD [OF v] note G = grantedD [OF D(3)]
  obtain d where d: "(if Suc i < length xs then buf_move (tv_data v) i (i + 1) (length xs - i - 1)
      else Some (tv_data v)) = Some d" "holds d (take i xs @ drop (Suc i) xs)"
    "length (slots d) = length (slots (tv_data v))" "d \<noteq> NULL"
    using holds_erase [OF D(2) True] by blast
  have e: "sz_sub (sz_sub (tv_size v) i) 1 = length xs - i - 1" "sz_add i 1 = i + 1"
    "sz_sub (tv_size v) 1 = length xs - 1" "0 < length xs - i - 1 \<longleftrightarrow> Suc i < length xs"
    using D(1,5) True SIZE_MAX_PTRDIFF_MAX by auto
  have eq: "vector_erase_typed v i = Some (v\<lparr>tv_data := d, tv_size := length xs - 1\<rparr>)"
  proof -
    have "i < tv_size v" using True D(1) by simp
    then show ?thesis using d(1) by (simp only: vector_erase_typed_def Let_def e not_not simp_thms if_False Option.bind.simps)
  qed
  have "tvec_rel b (v\<lparr>tv_data := d, tv_size := length xs - 1\<rparr>) (take i xs @ drop (Suc i) xs)"
    using d D True G by (auto simp: tvec_rel_def granted_def)
  moreover have "tv_data v \<noteq> NULL" using G(2) D(4) True by auto
  ultimately show ?thesis
    unfolding eq using True d(4) by (auto simp: tvec_law_def tvec_own_def)
qed

lemma vector_typed_exec_law:
  assumes v: "tvec_rel b v xs"
  shows "tvec_law b v xs (vector_typed_step op xs) w (vector_typed_exec b op v w)"
proof (cases op)
  case TPop
  note D = tvec_relD [OF v]
  have "holds (tv_data v) (butlast xs)" using holds_take [OF D(2)] by (simp add: butlast_conv_take)
  then show ?thesis
    using D SIZE_MAX_PTRDIFF_MAX unfolding TPop
    by (cases "xs = []")
      (auto simp: vector_pop_back_typed_def vector_empty_typed_def tvec_law_def tvec_rel_def tvec_own_def Suc_le_eq)
next
  case TClear
  then show ?thesis
    using v by (simp add: vector_clear_typed_def tvec_law_def tvec_rel_def tvec_own_def)
qed (simp_all add: vector_push_back_typed_law [OF v] vector_insert_typed_law [OF v] vector_erase_typed_law [OF v]
    del: vector_typed_step.simps)

interpretation tvm: typed_container "vector_typed_exec b" vector_typed_step "\<lambda>v w. tvec_rel b v" tvec_own
  "\<lambda>v n. True" "\<lambda>v n. typed_room b (tv_size v) n"
proof (unfold_locales, goal_cases)
  case (1 h w m n op)
  then show ?case using vector_typed_exec_law [of b h m op w] by (simp add: tvec_law_def)
next
  case (2 h w m n op)
  then show ?case using vector_typed_exec_law [of b h m op w] tvec_relD(1) [of b h m] by (simp add: tvec_law_def)
next
  case (3 h w m n op h' w')
  from vector_typed_exec_law [OF 3(1), of op w] 3(3) obtain ys where "vector_typed_step op m ys" "tvec_rel b h' ys"
    "length ys \<le> Suc (length m)" "live w' - tvec_own h' = live w - tvec_own h" "no_fail w \<longrightarrow> no_fail w'"
    by (auto simp: tvec_law_def)
  moreover have "tv_size h = length m" "tv_size h' = length ys" using 3(1) calculation(2) by (simp_all add: tvec_relD(1))
  ultimately show ?case by (auto elim!: typed_room_mono)
qed

text \<open>Reading and searching.\<close>

lemma vector_back_typed_ok:
  assumes v: "tvec_rel b v xs"
  shows "vector_back_typed v = (if xs = [] then None else Some (last xs))"
    "vector_empty_typed v \<longleftrightarrow> xs = []"
proof -
  note D = tvec_relD [OF v] note G = grantedD [OF D(3)]
  have "vector_back_typed v = None" if "xs = []"
    using that D(1) G(1,6) SIZE_MAX_PTRDIFF_MAX by (auto simp: vector_back_typed_def buf_get_def sz_sub_def PTRDIFF_MAX_def)
  moreover have "vector_back_typed v = Some (last xs)" if "xs \<noteq> []"
    using that D(1,5) SIZE_MAX_PTRDIFF_MAX holds_get [OF D(2), of "length xs - 1"]
    by (simp add: vector_back_typed_def last_conv_nth Suc_le_eq)
  ultimately show "vector_back_typed v = (if xs = [] then None else Some (last xs))" by simp
  show "vector_empty_typed v \<longleftrightarrow> xs = []" using D(1) by (simp add: vector_empty_typed_def)
qed

lemma those_map_Some [simp]: "those (map Some xs) = Some xs"
  by (induction xs) simp_all

lemma vector_sort_typed_ok:
  assumes v: "tvec_rel b v xs" and "tv_data v \<noteq> NULL" and "qsort_spec qs" and "cmp_ok cmp"
  shows "\<exists>v'. vector_sort_typed qs v cmp = Some v' \<and> tvec_rel b v' (qs cmp xs) \<and> tvec_own v' = tvec_own v"
proof -
  note D = tvec_relD [OF v] note G = grantedD [OF D(3)]
  obtain d where d: "tv_data v = Ptr d" using assms(2) by (auto simp: ptr_neq_NULL)
  have len: "length (qs cmp xs) = length xs" using assms(3,4) unfolding qsort_spec_def by (metis size_mset)
  have t: "take (length xs) d = map Some xs" "length xs \<le> length d" using D(2) d by (simp_all add: holds_def)
  have "tvec_rel b (v\<lparr>tv_data := Ptr (map Some (qs cmp xs) @ drop (length xs) d)\<rparr>) (qs cmp xs)"
    using D(1) D(3) len t(2) d by (auto simp: tvec_rel_def granted_def holds_def)
  then show ?thesis using d t(1) D(1) by (auto simp: vector_sort_typed_def tvec_own_def)
qed

lemma vector_bsearch_typed_ok:
  assumes v: "tvec_rel b v xs" and "tv_data v \<noteq> NULL" and "bsearch_spec bs" and "cmp_ok cmp"
    and "sorted_wrt (\<lambda>a b. cmp a b \<le> 0) xs"
  shows "\<exists>a. vector_bsearch_typed bs v key cmp = Some a
    \<and> (case a of NULL \<Rightarrow> \<forall>x \<in> set xs. cmp key x \<noteq> 0
       | Ptr i \<Rightarrow> i < length xs \<and> buf_get (tv_data v) i = Some (xs ! i) \<and> cmp key (xs ! i) = 0)"
proof -
  note D = tvec_relD [OF v]
  obtain d where d: "tv_data v = Ptr d" using assms(2) by (auto simp: ptr_neq_NULL)
  have t: "take (length xs) d = map Some xs" using D(2) d by (simp add: holds_def)
  have s: "case bs cmp key xs of None \<Rightarrow> \<forall>x \<in> set xs. cmp key x \<noteq> 0
      | Some i \<Rightarrow> i < length xs \<and> cmp key (xs ! i) = 0"
    using assms(3-5) by (simp add: bsearch_spec_def)
  then show ?thesis
    using d t D(1) holds_get [OF D(2)] by (auto simp: vector_bsearch_typed_def split: option.splits)
qed

section \<open>Properties\<close>

text \<open>A run of the vector macros never leaves the block. It fails an assertion only where the
  list machine is stuck (a pop of an empty vector, an insertion or erasure at an index that is not
  below the size), ends the process only when the allocator fails or the run outgrows the address
  space, and otherwise ends with the vector of the list machine; freeing it leaves no block
  allocated.\<close>

theorem vector_typed_history:
  assumes "0 < b" and "8 * b \<le> PTRDIFF_MAX" and "vector_new_typed w = (Ptr v, w1)"
  shows "case typed_run (vector_typed_exec b) ops v w1 of
      None \<Rightarrow> gets_stuck vector_typed_step ops []
    | Some Exit \<Rightarrow> \<not> (no_fail w1 \<and> typed_room b 0 (length ops))
    | Some (Done (v', w2)) \<Rightarrow> \<exists>xs. typed_steps vector_typed_step ops [] xs \<and> tvec_rel b v' xs
        \<and> vector_back_typed v' = (if xs = [] then None else Some (last xs))
        \<and> (\<exists>w3. vector_free_typed (Ptr v') w2 = (False, w3) \<and> live w3 = live w)"
proof -
  have v: "tvec_rel b v []" "tvec_own v = 0" "live w1 = live w + 1"
    using vector_new_typed_ok [OF assms] by auto
  have sz: "tv_size v = 0" using tvec_relD(1) [OF v(1)] by simp
  note law = tvm.run_law [OF v(1) TrueI, of ops w1]
  show ?thesis
  proof (cases "typed_run (vector_typed_exec b) ops v w1" rule: outcome_cases)
    case (3 r)
    obtain v' w2 where r: "r = (v', w2)" by (cases r)
    obtain xs where xs: "typed_steps vector_typed_step ops [] xs" "tvec_rel b v' xs"
      "live w2 - tvec_own v' = live w1 - tvec_own v"
      using law unfolding 3 r by auto
    obtain f w3 where f: "vector_free_typed (Ptr v') w2 = (f, w3)" by fastforce
    have "\<not> f" "live w3 = live w" using vector_free_typed_ok [OF f] xs(3) v(2,3) by simp_all
    then show ?thesis unfolding 3 r using xs(1,2) f vector_back_typed_ok(1) [OF xs(2)] by auto
  qed (use law sz in simp_all)
qed

end
