(* ===== verification/Deque_Typed.thy ===== *)
theory Deque_Typed
  imports Typed
begin

text \<open>
  \<open>src/legacy/deque_typed.h\<close>: the ring buffer as macros. There is no size field: the tail is
  the slot behind the last element, and one slot always stays free to tell a full ring from an
  empty one. Every macro with an effect is a definition of its name with the suffix \<open>_typed\<close>.
\<close>

section \<open>Model\<close>

record 'a deque_typed =
  td_capacity :: size_t
  td_head :: size_t
  td_tail :: size_t
  td_data :: "'a buf"

definition DEQUE_INIT_CAPACITY_typed :: size_t where
  "DEQUE_INIT_CAPACITY_typed = 8"

definition deque_empty_typed :: "'a deque_typed \<Rightarrow> bool" where
  "deque_empty_typed q \<longleftrightarrow> td_head q = td_tail q"

definition deque_size_typed :: "'a deque_typed \<Rightarrow> size_t" where
  "deque_size_typed q = (if td_head q \<le> td_tail q then sz_sub (td_tail q) (td_head q)
     else sz_add (sz_sub (td_capacity q) (td_head q)) (td_tail q))"

definition deque_front_typed :: "'a deque_typed \<Rightarrow> 'a option" where
  "deque_front_typed q = buf_get (td_data q) (td_head q)"

definition deque_back_typed :: "'a deque_typed \<Rightarrow> 'a option" where
  "deque_back_typed q = (if 0 < td_tail q then buf_get (td_data q) (sz_sub (td_tail q) 1)
     else buf_get (td_data q) (sz_sub (td_capacity q) 1))"

definition deque_new_typed ::
    "('a, 'b) world_scheme \<Rightarrow> 'c deque_typed ptr \<times> ('a, 'b) world_scheme" where
  "deque_new_typed w = (let (ok, w1) = calloc 1 32 w in
     (if ok then Ptr \<lparr>td_capacity = 0, td_head = 0, td_tail = 0, td_data = NULL\<rparr> else NULL, w1))"

text \<open>The flag tells whether the macro returns from the function that uses it.\<close>

definition deque_free_typed ::
    "'c deque_typed ptr \<Rightarrow> ('a, 'b) world_scheme \<Rightarrow> bool \<times> ('a, 'b) world_scheme" where
  "deque_free_typed p w = (case p of NULL \<Rightarrow> (True, w)
     | Ptr q \<Rightarrow> (False, free_block (if td_data q \<noteq> NULL then free_ptr (td_data q) w else w)))"

definition deque_isfull_typed :: "'a deque_typed \<Rightarrow> bool" where
  "deque_isfull_typed q \<longleftrightarrow> (if td_capacity q \<le> sz_add (td_tail q) 1 then td_head q = 0
     else sz_add (td_tail q) 1 = td_head q)"

text \<open>\<open>memcpy\<close> of \<open>n\<close> slots between two blocks.\<close>

definition buf_blit :: "'a buf \<Rightarrow> nat \<Rightarrow> 'a buf \<Rightarrow> nat \<Rightarrow> nat \<Rightarrow> 'a buf option" where
  "buf_blit d i s j n =
     (if i + n \<le> length (slots d) \<and> j + n \<le> length (slots s)
      then Some (Ptr (take i (slots d) @ take n (drop j (slots s)) @ drop (i + n) (slots d)))
      else None)"

text \<open>The part of \<open>deque_expand\<close> that copies the elements into the new block.\<close>

definition deque_straighten_typed :: "'c deque_typed \<Rightarrow> 'c buf \<Rightarrow> 'c buf option" where
  "deque_straighten_typed q dst =
     (if td_tail q < td_head q then
        let n = sz_sub (td_capacity q) (td_head q) in do {
          d \<leftarrow> buf_blit dst 0 (td_data q) (td_head q) n;
          buf_blit d n (td_data q) 0 (td_tail q) }
      else if td_head q < td_tail q then
        buf_blit dst 0 (td_data q) (td_head q) (sz_sub (td_tail q) (td_head q))
      else Some dst)"

definition deque_expand_typed ::
    "size_t \<Rightarrow> 'c deque_typed \<Rightarrow> ('a, 'b) world_scheme
     \<Rightarrow> ('c deque_typed \<times> ('a, 'b) world_scheme) outcome option" where
  "deque_expand_typed b q w =
     (if \<not> deque_isfull_typed q then Some (Done (q, w))
      else let cap = (if td_capacity q = 0 then DEQUE_INIT_CAPACITY_typed else sz_mul (td_capacity q) 2);
               bytes = sz_mul cap b; (ok, w1) = malloc bytes w; dst = buf_new (bytes div b) in
        if \<not> ok then Some Exit
        else do {
          dst1 \<leftarrow> deque_straighten_typed q dst;
          Some (Done (\<lparr>td_capacity = cap, td_head = 0,
            td_tail = (if td_capacity q = 0 then 0 else sz_sub (td_capacity q) 1), td_data = dst1\<rparr>,
            if td_data q \<noteq> NULL then free_ptr (td_data q) w1 else w1)) })"

definition deque_push_back_typed ::
    "size_t \<Rightarrow> 'c deque_typed \<Rightarrow> 'c \<Rightarrow> ('a, 'b) world_scheme
     \<Rightarrow> ('c deque_typed \<times> ('a, 'b) world_scheme) outcome option" where
  "deque_push_back_typed b q e w = and_then (deque_expand_typed b q w) (\<lambda>(q1, w1). do {
     d \<leftarrow> buf_put (td_data q1) (td_tail q1) (Some e);
     let tail = sz_add (td_tail q1) 1 in
     Some (Done (q1\<lparr>td_data := d, td_tail := (if tail = td_capacity q1 then 0 else tail)\<rparr>, w1)) })"

definition deque_pop_back_typed :: "'c deque_typed \<Rightarrow> 'c deque_typed option" where
  "deque_pop_back_typed q =
     (if deque_empty_typed q then None
      else Some (q\<lparr>td_tail := (if 0 < td_tail q then sz_sub (td_tail q) 1 else sz_sub (td_capacity q) 1)\<rparr>))"

definition deque_push_front_typed ::
    "size_t \<Rightarrow> 'c deque_typed \<Rightarrow> 'c \<Rightarrow> ('a, 'b) world_scheme
     \<Rightarrow> ('c deque_typed \<times> ('a, 'b) world_scheme) outcome option" where
  "deque_push_front_typed b q e w = and_then (deque_expand_typed b q w) (\<lambda>(q1, w1).
     let head = (if 0 < td_head q1 then sz_sub (td_head q1) 1 else sz_sub (td_capacity q1) 1) in do {
     d \<leftarrow> buf_put (td_data q1) head (Some e);
     Some (Done (q1\<lparr>td_data := d, td_head := head\<rparr>, w1)) })"

definition deque_pop_front_typed :: "'c deque_typed \<Rightarrow> 'c deque_typed option" where
  "deque_pop_front_typed q =
     (if deque_empty_typed q then None
      else let head = sz_add (td_head q) 1 in
        Some (q\<lparr>td_head := (if head = td_capacity q then 0 else head)\<rparr>))"

definition deque_clear_typed :: "'c deque_typed \<Rightarrow> 'c deque_typed" where
  "deque_clear_typed q = q\<lparr>td_head := 0, td_tail := 0\<rparr>"

section \<open>The ring\<close>

definition tring :: "nat \<Rightarrow> nat \<Rightarrow> nat \<Rightarrow> nat" where
  "tring c h i = (if h + i < c then h + i else h + i - c)"

definition tdeq_rel :: "size_t \<Rightarrow> 'c deque_typed \<Rightarrow> 'c list \<Rightarrow> bool" where
  "tdeq_rel b q xs \<longleftrightarrow> granted b (td_capacity q) (td_data q)
     \<and> (if td_capacity q = 0 then td_head q = 0 \<and> td_tail q = 0 \<and> xs = []
        else td_head q < td_capacity q \<and> length xs < td_capacity q
          \<and> td_tail q = tring (td_capacity q) (td_head q) (length xs))
     \<and> (\<forall>i < length xs. buf_get (td_data q) (tring (td_capacity q) (td_head q) i) = Some (xs ! i))"

definition tdeq_own :: "'c deque_typed \<Rightarrow> int" where
  "tdeq_own q = blocks (td_data q)"

lemma tdeq_relD:
  assumes "tdeq_rel b q xs"
  shows "granted b (td_capacity q) (td_data q)" "length xs \<le> td_capacity q"
    "0 < td_capacity q \<Longrightarrow> td_head q < td_capacity q \<and> length xs < td_capacity q
      \<and> td_tail q = tring (td_capacity q) (td_head q) (length xs) \<and> td_tail q < td_capacity q"
    "td_capacity q = 0 \<Longrightarrow> td_head q = 0 \<and> td_tail q = 0 \<and> xs = []"
    "\<And>i. i < length xs \<Longrightarrow> buf_get (td_data q) (tring (td_capacity q) (td_head q) i) = Some (xs ! i)"
    "td_capacity q < SIZE_MAX"
  using assms grantedD(6) [of b "td_capacity q" "td_data q"] SIZE_MAX_PTRDIFF_MAX PTRDIFF_MAX_big
  by (auto simp: tdeq_rel_def tring_def split: if_splits)

lemma tdeq_views:
  assumes q: "tdeq_rel b q xs"
  shows "deque_empty_typed q \<longleftrightarrow> xs = []" "deque_size_typed q = length xs"
    "deque_isfull_typed q \<longleftrightarrow> td_capacity q \<le> Suc (length xs)"
    "xs \<noteq> [] \<Longrightarrow> deque_front_typed q = Some (hd xs)" "xs \<noteq> [] \<Longrightarrow> deque_back_typed q = Some (last xs)"
proof -
  note D = tdeq_relD [OF q]
  show "deque_empty_typed q \<longleftrightarrow> xs = []"
    using D(3,4) by (cases "td_capacity q = 0") (auto simp: deque_empty_typed_def tring_def split: if_splits)
  show "deque_size_typed q = length xs"
    using D(3,4,6) by (cases "td_capacity q = 0") (auto simp: deque_size_typed_def tring_def split: if_splits)
  show "deque_isfull_typed q \<longleftrightarrow> td_capacity q \<le> Suc (length xs)"
    using D(3,4,6) by (cases "td_capacity q = 0") (auto simp: deque_isfull_typed_def tring_def split: if_splits)
  assume ne: "xs \<noteq> []"
  then have c: "0 < td_capacity q" using D(4) by auto
  have "tring (td_capacity q) (td_head q) 0 = td_head q" using D(3) [OF c] by (simp add: tring_def)
  then show "deque_front_typed q = Some (hd xs)"
    using D(5) [of 0] ne by (simp add: deque_front_typed_def hd_conv_nth)
  have "(if 0 < td_tail q then sz_sub (td_tail q) 1 else sz_sub (td_capacity q) 1)
      = tring (td_capacity q) (td_head q) (length xs - 1)"
    using D(3) [OF c] D(6) ne by (cases xs) (auto simp: tring_def split: if_splits)
  then show "deque_back_typed q = Some (last xs)"
    using D(5) [of "length xs - 1"] ne by (auto simp: deque_back_typed_def last_conv_nth split: if_splits)
qed

lemma tring_inj: "i < c \<Longrightarrow> j < c \<Longrightarrow> h < c \<Longrightarrow> tring c h i = tring c h j \<longleftrightarrow> i = j"
  by (auto simp: tring_def)

text \<open>Writing behind the last element, or before the first one.\<close>

lemma tdeq_put_back:
  assumes q: "tdeq_rel b q xs" and room: "Suc (length xs) < td_capacity q"
  shows "\<exists>d. buf_put (td_data q) (td_tail q) (Some x) = Some d \<and> d \<noteq> NULL
    \<and> tdeq_rel b (q\<lparr>td_data := d, td_tail := (if sz_add (td_tail q) 1 = td_capacity q then 0 else sz_add (td_tail q) 1)\<rparr>)
        (xs @ [x])"
proof -
  note D = tdeq_relD [OF q]
  have c: "0 < td_capacity q" using room by simp
  note R = D(3) [OF c]
  obtain d where d: "buf_put (td_data q) (td_tail q) (Some x) = Some d" "d \<noteq> NULL"
    using R grantedD(1) [OF D(1)] buf_put_ok [of "td_tail q" "td_data q" "Some x"] by auto
  have get: "buf_get d (tring (td_capacity q) (td_head q) i) = Some ((xs @ [x]) ! i)" if "i < Suc (length xs)" for i
    using that D(5) [of i] R room tring_inj [of i "td_capacity q" "length xs" "td_head q"]
    by (auto simp: buf_get_put [OF d(1)] nth_append less_Suc_eq)
  have "sz_add (td_tail q) 1 = Suc (td_tail q)" using R D(6) by simp
  then have "(if sz_add (td_tail q) 1 = td_capacity q then 0 else sz_add (td_tail q) 1)
      = tring (td_capacity q) (td_head q) (Suc (length xs))"
    using R room by (auto simp: tring_def)
  then have "tdeq_rel b (q\<lparr>td_data := d, td_tail := (if sz_add (td_tail q) 1 = td_capacity q then 0 else sz_add (td_tail q) 1)\<rparr>)
      (xs @ [x])"
    using granted_put [OF D(1) d(1)] c R room get by (simp add: tdeq_rel_def)
  with d show ?thesis by blast
qed

lemma tdeq_put_front:
  assumes q: "tdeq_rel b q xs" and room: "Suc (length xs) < td_capacity q"
    and h: "h = (if 0 < td_head q then sz_sub (td_head q) 1 else sz_sub (td_capacity q) 1)"
  shows "\<exists>d. buf_put (td_data q) h (Some x) = Some d \<and> d \<noteq> NULL
    \<and> tdeq_rel b (q\<lparr>td_data := d, td_head := h\<rparr>) (x # xs)"
proof -
  note D = tdeq_relD [OF q]
  have c: "0 < td_capacity q" using room by simp
  note R = D(3) [OF c]
  have h': "h = (if 0 < td_head q then td_head q - 1 else td_capacity q - 1)"
    unfolding h using R D(6) c by simp
  have shift: "tring (td_capacity q) h (Suc i) = tring (td_capacity q) (td_head q) i" "h < td_capacity q"
    "tring (td_capacity q) h 0 = h" if "i < td_capacity q" for i
    using that R c by (auto simp: h' tring_def)
  obtain d where d: "buf_put (td_data q) h (Some x) = Some d" "d \<noteq> NULL"
    using shift(2) [of 0] c grantedD(1) [OF D(1)] buf_put_ok [of h "td_data q" "Some x"] by auto
  have get: "buf_get d (tring (td_capacity q) h i) = Some ((x # xs) ! i)" if "i < Suc (length xs)" for i
  proof (cases i)
    case 0
    then show ?thesis using shift(3) [of 0] c by (simp add: buf_get_put [OF d(1)])
  next
    case (Suc j)
    have "tring (td_capacity q) h (Suc j) \<noteq> tring (td_capacity q) h 0"
      using tring_inj [of "Suc j" "td_capacity q" 0 h] shift(2) [of 0] Suc that room c by simp
    then show ?thesis
      using Suc that D(5) [of j] shift(1) [of j] shift(3) [of j] room by (simp add: buf_get_put [OF d(1)])
  qed
  have "td_tail q = tring (td_capacity q) h (Suc (length xs))" using R shift(1) [of "length xs"] by simp
  then have "tdeq_rel b (q\<lparr>td_data := d, td_head := h\<rparr>) (x # xs)"
    using granted_put [OF D(1) d(1)] c shift(2) [of 0] room get by (simp add: tdeq_rel_def)
  with d show ?thesis by blast
qed

lemma tdeq_drop_back:
  assumes q: "tdeq_rel b q xs" and ne: "xs \<noteq> []"
  shows "tdeq_rel b (q\<lparr>td_tail := (if 0 < td_tail q then sz_sub (td_tail q) 1 else sz_sub (td_capacity q) 1)\<rparr>)
    (butlast xs)"
proof -
  note D = tdeq_relD [OF q]
  have c: "0 < td_capacity q" using D(4) ne by auto
  note R = D(3) [OF c]
  have "(if 0 < td_tail q then sz_sub (td_tail q) 1 else sz_sub (td_capacity q) 1)
      = tring (td_capacity q) (td_head q) (length xs - 1)"
    using R D(6) ne by (cases xs) (auto simp: tring_def split: if_splits)
  moreover have "length xs - 1 < td_capacity q" using R by linarith
  ultimately show ?thesis using D(1,5) R c by (simp add: tdeq_rel_def nth_butlast)
qed

lemma tdeq_drop_front:
  assumes q: "tdeq_rel b q xs" and ne: "xs \<noteq> []"
  shows "tdeq_rel b (q\<lparr>td_head := (if sz_add (td_head q) 1 = td_capacity q then 0 else sz_add (td_head q) 1)\<rparr>) (tl xs)"
proof -
  note D = tdeq_relD [OF q]
  have c: "0 < td_capacity q" using D(4) ne by auto
  note R = D(3) [OF c]
  define h where "h = (if sz_add (td_head q) 1 = td_capacity q then 0 else sz_add (td_head q) 1)"
  have h: "h = (if Suc (td_head q) = td_capacity q then 0 else Suc (td_head q))" using R D(6) by (simp add: h_def)
  have shift: "tring (td_capacity q) h i = tring (td_capacity q) (td_head q) (Suc i)" if "Suc i < td_capacity q" for i
    using that R by (auto simp: h tring_def)
  have "buf_get (td_data q) (tring (td_capacity q) h i) = Some (tl xs ! i)" if "i < length (tl xs)" for i
  proof -
    have i: "Suc i < length xs" using that by simp
    then have i2: "Suc i < td_capacity q" using R by linarith
    show ?thesis using that D(5) [OF i] shift [OF i2] by (simp add: nth_tl)
  qed
  moreover have "td_tail q = tring (td_capacity q) h (length (tl xs))"
    using R shift [of "length (tl xs)"] ne by (cases xs) simp_all
  ultimately have "tdeq_rel b (q\<lparr>td_head := h\<rparr>) (tl xs)"
    using D(1) R c h by (auto simp: tdeq_rel_def)
  then show ?thesis unfolding h_def .
qed

section \<open>Growing\<close>

lemma buf_blit_ok: "i + n \<le> length (slots d) \<Longrightarrow> j + n \<le> length (slots s) \<Longrightarrow>
    buf_blit d i s j n = Some (Ptr (take i (slots d) @ take n (drop j (slots s)) @ drop (i + n) (slots d)))"
  by (simp add: buf_blit_def)

text \<open>The two copies straighten the ring.\<close>

lemma tdeq_straighten:
  assumes q: "tdeq_rel b q xs" and c: "0 < td_capacity q" and m: "td_capacity q \<le> m"
  shows "\<exists>d. deque_straighten_typed q (buf_new m) = Some d \<and> holds d xs \<and> length (slots d) = m \<and> d \<noteq> NULL"
proof -
  note D = tdeq_relD [OF q]
  note R = D(3) [OF c]
  let ?s = "slots (td_data q)" and ?c = "td_capacity q" and ?h = "td_head q" and ?t = "td_tail q"
  have rh: "?h < ?c" "?t < ?c" using R by simp_all
  have len: "length ?s = ?c" using grantedD(1) [OF D(1)] .
  have get: "?s ! tring ?c ?h i = Some (xs ! i)" if "i < length xs" for i
    using D(5) [OF that] by (auto simp: buf_get_def split: if_splits)
  have new: "slots (buf_new m) = replicate m None" by (simp add: buf_new_def)
  show ?thesis
  proof (cases "?t < ?h")
    case True
    let ?n = "?c - ?h"
    have n: "sz_sub ?c ?h = ?n" using R D(6) by simp
    have tl: "length xs = ?n + ?t" using R True by (auto simp: tring_def split: if_splits)
    let ?d = "take ?n (drop ?h ?s) @ drop ?n (replicate m None)"
    have b1: "buf_blit (buf_new m) 0 (td_data q) ?h ?n = Some (Ptr ?d)"
      using rh len m by (subst buf_blit_ok) (simp_all add: new)
    let ?e = "take ?n ?d @ take ?t (drop 0 ?s) @ drop (?n + ?t) ?d"
    have b2: "buf_blit (Ptr ?d) ?n (td_data q) 0 ?t = Some (Ptr ?e)"
      using rh len m True by (subst buf_blit_ok) simp_all
    have "take ?n (drop ?h ?s) @ take ?t ?s = map Some xs"
    proof (rule nth_equalityI)
      show "length (take ?n (drop ?h ?s) @ take ?t ?s) = length (map Some xs)" using len tl rh True by simp
      fix i assume "i < length (take ?n (drop ?h ?s) @ take ?t ?s)"
      then have i: "i < length xs" using len tl rh True by simp
      show "(take ?n (drop ?h ?s) @ take ?t ?s) ! i = map Some xs ! i"
      proof (cases "i < ?n")
        case lt: True
        then have "?h + i < ?c" by linarith
        then have "tring ?c ?h i = ?h + i" by (simp add: tring_def)
        then show ?thesis using get [OF i] i lt len by (simp add: nth_append)
      next
        case ge: False
        then have "\<not> ?h + i < ?c" "?h + i - ?c = i - ?n" using rh by linarith+
        then have "tring ?c ?h i = i - ?n" "i - ?n < ?t" using tl i ge by (auto simp: tring_def)
        then show ?thesis using get [OF i] i ge len rh by (simp add: nth_append)
      qed
    qed
    then have e: "?e = map Some xs @ drop (?n + ?t) ?d" using len rh by simp
    have l: "length (slots (Ptr ?e)) = m" using len rh m True by (simp add: min_def)
    have h: "holds (Ptr ?e) xs" by (subst e) (simp add: holds_def)
    have p: "Ptr ?e \<noteq> NULL" by (rule ptr.distinct)
    obtain d1 d2 where "buf_blit (buf_new m) 0 (td_data q) ?h ?n = Some d1"
      "buf_blit d1 ?n (td_data q) 0 ?t = Some d2" "holds d2 xs" "length (slots d2) = m" "d2 \<noteq> NULL"
      by (rule that [OF b1 b2 h l p])
    with True n show ?thesis by (simp add: deque_straighten_typed_def Let_def)
  next
    case False
    have tl: "length xs = ?t - ?h" "?h \<le> ?t" using R False by (auto simp: tring_def split: if_splits)
    show ?thesis
    proof (cases "?h < ?t")
      case True
      have n: "sz_sub ?t ?h = length xs" using rh D(6) tl by simp
      let ?d = "take (length xs) (drop ?h ?s) @ drop (length xs) (replicate m None)"
      have b1: "buf_blit (buf_new m) 0 (td_data q) ?h (length xs) = Some (Ptr ?d)"
        using rh len m tl by (subst buf_blit_ok) (simp_all add: new)
      have "take (length xs) (drop ?h ?s) = map Some xs"
      proof (rule nth_equalityI)
        show "length (take (length xs) (drop ?h ?s)) = length (map Some xs)" using len rh tl by simp
        fix i assume "i < length (take (length xs) (drop ?h ?s))"
        then have i: "i < length xs" by simp
        then have "?h + i < ?c" using tl rh by linarith
        then show "take (length xs) (drop ?h ?s) ! i = map Some xs ! i"
          using get [OF i] i len rh by (simp add: tring_def)
      qed
      moreover have "length xs \<le> m" using rh m tl by linarith
      ultimately have "holds (Ptr ?d) xs" "length ?d = m" by (simp_all add: holds_def)
      with False True n b1 show ?thesis by (simp add: deque_straighten_typed_def)
    next
      case no: False
      then show ?thesis using False tl by (simp add: deque_straighten_typed_def)
    qed
  qed
qed

lemma deque_expand_typed_ok:
  assumes q: "tdeq_rel b q xs"
  shows "deque_expand_typed b q w = Some Exit \<and> \<not> (no_fail w \<and> typed_room b (length xs) (Suc n))
    \<or> (\<exists>q' w'. deque_expand_typed b q w = Some (Done (q', w')) \<and> tdeq_rel b q' xs
        \<and> Suc (length xs) < td_capacity q' \<and> live w' - tdeq_own q' = live w - tdeq_own q
        \<and> (no_fail w \<longrightarrow> no_fail w'))"
proof (cases "deque_isfull_typed q")
  case False
  then show ?thesis using q tdeq_views(3) [OF q] by (auto simp: deque_expand_typed_def)
next
  case True
  note D = tdeq_relD [OF q] note G = grantedD [OF D(1)] note E = doubled_exact [OF D(1)]
  have full: "td_capacity q \<le> Suc (length xs)" using True tdeq_views(3) [OF q] by simp
  let ?c = "doubled (td_capacity q)"
  have cap: "(if td_capacity q = 0 then DEQUE_INIT_CAPACITY_typed else sz_mul (td_capacity q) 2) = ?c"
    using E(1) by (simp add: doubled_def DEQUE_INIT_CAPACITY_typed_def)
  have div: "?c * b div b = ?c" using G(3) by simp
  obtain ok w1 where r: "malloc (?c * b) w = (ok, w1)" by fastforce
  note R = malloc_effect [OF r]
  obtain d where d: "deque_straighten_typed q (buf_new ?c) = Some d" "holds d xs" "length (slots d) = ?c" "d \<noteq> NULL"
  proof (cases "td_capacity q = 0")
    case True
    then show ?thesis using that [of "buf_new ?c"] D(4) by (simp add: deque_straighten_typed_def)
  next
    case False
    then show ?thesis using that tdeq_straighten [OF q, of ?c] E(3) by auto
  qed
  let ?q = "\<lparr>td_capacity = ?c, td_head = 0,
      td_tail = (if td_capacity q = 0 then 0 else sz_sub (td_capacity q) 1), td_data = d\<rparr>"
  have exp: "deque_expand_typed b q w = (if \<not> ok then Some Exit
      else Some (Done (?q, if td_data q \<noteq> NULL then free_ptr (td_data q) w1 else w1)))"
    using True div r d(1) E(2) by (simp add: deque_expand_typed_def cap)
  show ?thesis
  proof (cases ok)
    case True
    have tail: "(if td_capacity q = 0 then 0 else sz_sub (td_capacity q) 1) = length xs"
      using D(3,4,6) full by (cases "td_capacity q = 0") (auto simp: Suc_le_eq)
    have fit: "Suc (length xs) < ?c" using D(3,4) by (cases "td_capacity q = 0") (auto simp: doubled_def)
    have "tdeq_rel b ?q xs"
      using fit d(2-4) G(3,4) R(4) [OF True] holds_get [OF d(2)] unfolding tail
      by (auto simp: tdeq_rel_def granted_def tring_def)
    with exp True fit d(4) R(3,5) show ?thesis
      by (auto simp: tdeq_own_def)
  next
    case no: False
    have "\<not> (no_fail w \<and> typed_room b (length xs) (Suc n))"
    proof
      assume a: "no_fail w \<and> typed_room b (length xs) (Suc n)"
      have "td_capacity q \<le> length xs + Suc n" using full by simp
      then show False using typed_room_doubled [of b "length xs" "Suc n" "td_capacity q"] R(6) a no by simp
    qed
    with exp no show ?thesis by simp
  qed
qed

section \<open>The abstract machine\<close>

datatype 'c deque_typed_op = TPushBack 'c | TPushFront 'c | TPopBack | TPopFront | TClearDeque

fun deque_typed_exec :: "size_t \<Rightarrow> 'c deque_typed_op \<Rightarrow> 'c deque_typed \<Rightarrow> ('a, 'b) world_scheme
    \<Rightarrow> ('c deque_typed \<times> ('a, 'b) world_scheme) outcome option" where
  "deque_typed_exec b (TPushBack x) q w = deque_push_back_typed b q x w"
| "deque_typed_exec b (TPushFront x) q w = deque_push_front_typed b q x w"
| "deque_typed_exec b TPopBack q w = map_option (\<lambda>q'. Done (q', w)) (deque_pop_back_typed q)"
| "deque_typed_exec b TPopFront q w = map_option (\<lambda>q'. Done (q', w)) (deque_pop_front_typed q)"
| "deque_typed_exec b TClearDeque q w = Some (Done (deque_clear_typed q, w))"

fun deque_typed_step :: "'c deque_typed_op \<Rightarrow> 'c list \<Rightarrow> 'c list \<Rightarrow> bool" where
  "deque_typed_step (TPushBack x) xs ys \<longleftrightarrow> ys = xs @ [x]"
| "deque_typed_step (TPushFront x) xs ys \<longleftrightarrow> ys = x # xs"
| "deque_typed_step TPopBack xs ys \<longleftrightarrow> xs \<noteq> [] \<and> ys = butlast xs"
| "deque_typed_step TPopFront xs ys \<longleftrightarrow> xs \<noteq> [] \<and> ys = tl xs"
| "deque_typed_step TClearDeque xs ys \<longleftrightarrow> ys = []"

definition tdeq_law :: "size_t \<Rightarrow> 'c deque_typed \<Rightarrow> 'c list \<Rightarrow> ('c list \<Rightarrow> bool) \<Rightarrow> ('a, 'b) world_scheme
    \<Rightarrow> ('c deque_typed \<times> ('a, 'b) world_scheme) outcome option \<Rightarrow> bool" where
  "tdeq_law b q xs post w r \<longleftrightarrow> (case r of None \<Rightarrow> \<nexists>ys. post ys
     | Some Exit \<Rightarrow> \<forall>n. \<not> (no_fail w \<and> typed_room b (length xs) (Suc n))
     | Some (Done (q', w')) \<Rightarrow> \<exists>ys. post ys \<and> tdeq_rel b q' ys \<and> length ys \<le> Suc (length xs)
         \<and> live w' - tdeq_own q' = live w - tdeq_own q \<and> (no_fail w \<longrightarrow> no_fail w'))"

lemma tdeq_law_grow:
  assumes q: "tdeq_rel b q xs"
    and f: "\<And>q1 w1. tdeq_rel b q1 xs \<Longrightarrow> Suc (length xs) < td_capacity q1 \<Longrightarrow>
      \<exists>q2 ys. f (q1, w1) = Some (Done (q2, w1)) \<and> post ys
        \<and> length ys = Suc (length xs) \<and> tdeq_rel b q2 ys \<and> tdeq_own q2 = tdeq_own q1"
  shows "tdeq_law b q xs post w (and_then (deque_expand_typed b q w) f)"
proof (cases "deque_expand_typed b q w" rule: outcome_cases)
  case 1
  then show ?thesis using deque_expand_typed_ok [OF q, of w] by auto
next
  case 2
  then show ?thesis using deque_expand_typed_ok [OF q, of w] by (auto simp: tdeq_law_def)
next
  case (3 r)
  then obtain q1 w1 where e: "deque_expand_typed b q w = Some (Done (q1, w1))" and q1: "tdeq_rel b q1 xs"
    "Suc (length xs) < td_capacity q1" "live w1 - tdeq_own q1 = live w - tdeq_own q" "no_fail w \<longrightarrow> no_fail w1"
    using deque_expand_typed_ok [OF q, of w] by auto
  obtain q2 ys where q2: "f (q1, w1) = Some (Done (q2, w1))" "post ys" "length ys = Suc (length xs)"
    "tdeq_rel b q2 ys" "tdeq_own q2 = tdeq_own q1"
    using f [OF q1(1,2), of w1] by blast
  have "\<exists>ys. post ys \<and> tdeq_rel b q2 ys \<and> length ys \<le> Suc (length xs)" using q2(2-4) by auto
  with e q1(3,4) q2(1,5) show ?thesis by (simp add: tdeq_law_def)
qed

lemma tdeq_own_set:
  assumes "tdeq_rel b q xs" and "0 < td_capacity q" and "d \<noteq> NULL"
  shows "tdeq_own (q\<lparr>td_data := d, td_head := h\<rparr>) = tdeq_own q" "tdeq_own (q\<lparr>td_data := d, td_tail := t\<rparr>) = tdeq_own q"
  using assms grantedD(2) [OF tdeq_relD(1) [OF assms(1)]] by (auto simp: tdeq_own_def)

lemma deque_push_back_typed_law:
  assumes q: "tdeq_rel b q xs"
  shows "tdeq_law b q xs (deque_typed_step (TPushBack x) xs) w (deque_push_back_typed b q x w)"
  unfolding deque_push_back_typed_def
proof (rule tdeq_law_grow [OF q], goal_cases)
  case (1 q1 w1)
  obtain d where d: "buf_put (td_data q1) (td_tail q1) (Some x) = Some d" "d \<noteq> NULL"
    "tdeq_rel b (q1\<lparr>td_data := d, td_tail := (if sz_add (td_tail q1) 1 = td_capacity q1 then 0 else sz_add (td_tail q1) 1)\<rparr>)
        (xs @ [x])"
    using tdeq_put_back [OF 1] by blast
  have "0 < td_capacity q1" using 1(2) by simp
  note own = tdeq_own_set(2) [OF 1(1) this d(2)]
  show ?case
    using d(1,3) own
    by (intro exI [of _ "q1\<lparr>td_data := d, td_tail := (if sz_add (td_tail q1) 1 = td_capacity q1 then 0 else sz_add (td_tail q1) 1)\<rparr>"]
        exI [of _ "xs @ [x]"]) (simp add: Let_def)
qed

lemma deque_push_front_typed_law:
  assumes q: "tdeq_rel b q xs"
  shows "tdeq_law b q xs (deque_typed_step (TPushFront x) xs) w (deque_push_front_typed b q x w)"
  unfolding deque_push_front_typed_def
proof (rule tdeq_law_grow [OF q], goal_cases)
  case (1 q1 w1)
  define h where "h = (if 0 < td_head q1 then sz_sub (td_head q1) 1 else sz_sub (td_capacity q1) 1)"
  obtain d where d: "buf_put (td_data q1) h (Some x) = Some d" "d \<noteq> NULL"
    "tdeq_rel b (q1\<lparr>td_data := d, td_head := h\<rparr>) (x # xs)"
    using tdeq_put_front [OF 1 h_def] by blast
  have "0 < td_capacity q1" using 1(2) by simp
  note own = tdeq_own_set(1) [OF 1(1) this d(2)]
  show ?case
    unfolding prod.case h_def [symmetric]
    using d(1,3) own
    by (intro exI [of _ "q1\<lparr>td_data := d, td_head := h\<rparr>"] exI [of _ "x # xs"]) (simp add: Let_def)
qed

lemma deque_typed_exec_law:
  assumes q: "tdeq_rel b q xs"
  shows "tdeq_law b q xs (deque_typed_step op xs) w (deque_typed_exec b op q w)"
proof (cases op)
  case TPopBack
  then show ?thesis
    using tdeq_views(1) [OF q] tdeq_drop_back [OF q]
    by (cases "xs = []") (auto simp: deque_pop_back_typed_def tdeq_law_def tdeq_own_def)
next
  case TPopFront
  then show ?thesis
    using tdeq_views(1) [OF q] tdeq_drop_front [OF q]
    by (cases "xs = []") (auto simp: deque_pop_front_typed_def tdeq_law_def tdeq_own_def Let_def)
next
  case TClearDeque
  have "tdeq_rel b (deque_clear_typed q) []"
    using tdeq_relD(1,3,4) [OF q] by (auto simp: deque_clear_typed_def tdeq_rel_def tring_def)
  with TClearDeque show ?thesis by (simp add: deque_clear_typed_def tdeq_law_def tdeq_own_def)
qed (simp_all add: deque_push_back_typed_law [OF q] deque_push_front_typed_law [OF q] del: deque_typed_step.simps)

interpretation tdm: typed_container "deque_typed_exec b" deque_typed_step "\<lambda>q w. tdeq_rel b q" tdeq_own
  "\<lambda>q n. True" "\<lambda>q n. typed_room b (deque_size_typed q) n"
proof (unfold_locales, goal_cases)
  case (1 h w m n op)
  then show ?case using deque_typed_exec_law [of b h m op w] by (simp add: tdeq_law_def)
next
  case (2 h w m n op)
  then show ?case using deque_typed_exec_law [of b h m op w] tdeq_views(2) [of b h m] by (simp add: tdeq_law_def)
next
  case (3 h w m n op h' w')
  from deque_typed_exec_law [OF 3(1), of op w] 3(3) obtain ys where "deque_typed_step op m ys" "tdeq_rel b h' ys"
    "length ys \<le> Suc (length m)" "live w' - tdeq_own h' = live w - tdeq_own h" "no_fail w \<longrightarrow> no_fail w'"
    by (auto simp: tdeq_law_def)
  moreover have "deque_size_typed h = length m" "deque_size_typed h' = length ys"
    using 3(1) calculation(2) by (simp_all add: tdeq_views(2))
  ultimately show ?case by (auto elim!: typed_room_mono)
qed

lemma deque_new_typed_ok:
  assumes "0 < b" and "8 * b \<le> PTRDIFF_MAX" and "deque_new_typed w = (p, w')"
  shows "p = NULL \<and> \<not> no_fail w \<and> live w' = live w
    \<or> (\<exists>q. p = Ptr q \<and> tdeq_rel b q [] \<and> tdeq_own q = 0 \<and> live w' = live w + 1 \<and> (no_fail w \<longrightarrow> no_fail w'))"
proof -
  obtain ok w1 where m: "malloc 32 w = (ok, w1)" by fastforce
  have "p = (if ok then Ptr \<lparr>td_capacity = 0, td_head = 0, td_tail = 0, td_data = NULL\<rparr> else NULL)" "w' = w1"
    using assms(3) m by (simp_all add: deque_new_typed_def calloc_def)
  with malloc_effect [OF m] assms(1,2) show ?thesis
    by (cases ok) (auto simp: tdeq_rel_def tdeq_own_def granted_def PTRDIFF_MAX_def)
qed

lemma deque_free_typed_ok: "deque_free_typed (Ptr q) w = (f, w') \<Longrightarrow> \<not> f \<and> live w' = live w - tdeq_own q - 1"
  by (auto simp: deque_free_typed_def tdeq_own_def)

section \<open>Properties\<close>

text \<open>A run of the ring-buffer macros never leaves the block and never reads a slot that was not
  written. It fails an assertion only where a pop finds the deque empty, ends the process only when the
  allocator fails or the run outgrows the address space, and otherwise ends with the list of the
  abstract machine, whose length and ends \<open>deque_size\<close>, \<open>deque_front\<close> and \<open>deque_back\<close> report;
  freeing the deque leaves no block allocated.\<close>

theorem deque_typed_history:
  assumes "0 < b" and "8 * b \<le> PTRDIFF_MAX" and "deque_new_typed w = (Ptr q, w1)"
  shows "case typed_run (deque_typed_exec b) ops q w1 of
      None \<Rightarrow> gets_stuck deque_typed_step ops []
    | Some Exit \<Rightarrow> \<not> (no_fail w1 \<and> typed_room b 0 (length ops))
    | Some (Done (q', w2)) \<Rightarrow> \<exists>xs. typed_steps deque_typed_step ops [] xs \<and> tdeq_rel b q' xs
        \<and> deque_size_typed q' = length xs
        \<and> (xs \<noteq> [] \<longrightarrow> deque_front_typed q' = Some (hd xs) \<and> deque_back_typed q' = Some (last xs))
        \<and> (\<exists>w3. deque_free_typed (Ptr q') w2 = (False, w3) \<and> live w3 = live w)"
proof -
  have q: "tdeq_rel b q []" "tdeq_own q = 0" "live w1 = live w + 1"
    using deque_new_typed_ok [OF assms] by auto
  have sz: "deque_size_typed q = 0" using tdeq_views(2) [OF q(1)] by simp
  note law = tdm.run_law [OF q(1) TrueI, of ops w1]
  show ?thesis
  proof (cases "typed_run (deque_typed_exec b) ops q w1" rule: outcome_cases)
    case (3 r)
    obtain q' w2 where r: "r = (q', w2)" by (cases r)
    obtain xs where xs: "typed_steps deque_typed_step ops [] xs" "tdeq_rel b q' xs"
      "live w2 - tdeq_own q' = live w1 - tdeq_own q"
      using law unfolding 3 r by auto
    obtain f w3 where f: "deque_free_typed (Ptr q') w2 = (f, w3)" by fastforce
    have "\<not> f" "live w3 = live w" using deque_free_typed_ok [OF f] xs(3) q(2,3) by simp_all
    then show ?thesis unfolding 3 r using xs(1,2) f tdeq_views(2,4,5) [OF xs(2)] by auto
  qed (use law sz in simp_all)
qed

end
