(* ===== verification/Heap_Typed.thy ===== *)
theory Heap_Typed
  imports Typed Heap
begin

text \<open>
  \<open>src/legacy/heap_typed.h\<close>: the binary heap as macros. The sift-up loop is that of
  \<open>src/heap.c\<close>; the sift-down loop swaps through the slot behind the last element instead of a
  local buffer, and is proved to arrange the elements exactly as the loop of \<open>src/heap.c\<close> does.
  So the heap order and the laws of \<open>Heap\<close> carry over.
\<close>

section \<open>Model\<close>

record 'a heap_typed =
  th_capacity :: size_t
  th_size :: size_t
  th_compare :: "'a \<Rightarrow> 'a \<Rightarrow> int"
  th_data :: "'a buf"

definition HEAP_INIT_CAPACITY_typed :: size_t where
  "HEAP_INIT_CAPACITY_typed = 8"

definition heap_empty_typed :: "'a heap_typed \<Rightarrow> bool" where
  "heap_empty_typed v \<longleftrightarrow> th_size v = 0"

definition heap_back_typed :: "'a heap_typed \<Rightarrow> 'a option" where
  "heap_back_typed v = buf_get (th_data v) (sz_sub (th_size v) 1)"

definition heap_top_typed :: "'a heap_typed \<Rightarrow> 'a option" where
  "heap_top_typed v = buf_get (th_data v) 0"

text \<open>\<open>heap_new\<close> stores the comparison without looking at what \<open>calloc\<close> returned.\<close>

definition heap_new_typed ::
    "('c \<Rightarrow> 'c \<Rightarrow> int) \<Rightarrow> ('a, 'b) world_scheme \<Rightarrow> ('c heap_typed \<times> ('a, 'b) world_scheme) option" where
  "heap_new_typed cmp w = (let (ok, w1) = calloc 1 32 w in
     if ok then Some (\<lparr>th_capacity = 0, th_size = 0, th_compare = cmp, th_data = NULL\<rparr>, w1) else None)"

text \<open>The flag tells whether the macro returns from the function that uses it.\<close>

definition heap_free_typed ::
    "'c heap_typed ptr \<Rightarrow> ('a, 'b) world_scheme \<Rightarrow> bool \<times> ('a, 'b) world_scheme" where
  "heap_free_typed p w = (case p of NULL \<Rightarrow> (True, w)
     | Ptr v \<Rightarrow> (False, free_block (if th_data v \<noteq> NULL then free_ptr (th_data v) w else w)))"

definition heap_expand_typed ::
    "size_t \<Rightarrow> 'c heap_typed \<Rightarrow> ('a, 'b) world_scheme
     \<Rightarrow> ('c heap_typed \<times> ('a, 'b) world_scheme) outcome option" where
  "heap_expand_typed b v w =
     (if th_size v < th_capacity v then Some (Done (v, w))
      else let cap = (if th_capacity v = 0 then HEAP_INIT_CAPACITY_typed else sz_mul (th_capacity v) 2);
               bytes = sz_mul cap b; (ok, w1) = realloc (th_data v \<noteq> NULL) bytes w in
        if \<not> ok then Some Exit
        else Some (Done (v\<lparr>th_capacity := cap, th_data := buf_resize (bytes div b) (th_data v)\<rparr>, w1)))"

text \<open>The loop of \<open>heap_push\<close>: the final position of the hole and the moved elements.\<close>

function heap_push_loop_typed :: "('c \<Rightarrow> 'c \<Rightarrow> int) \<Rightarrow> 'c \<Rightarrow> nat \<Rightarrow> 'c buf \<Rightarrow> (nat \<times> 'c buf) option" where
  "heap_push_loop_typed cmp e i d =
     (if i = 0 then Some (i, d)
      else let parent = (i - 1) div 2 in do {
        x \<leftarrow> buf_get d parent;
        if 0 \<le> cmp x e then Some (i, d)
        else do { d1 \<leftarrow> buf_put d i (Some x); heap_push_loop_typed cmp e parent d1 } })"
  by pat_completeness auto
termination by (relation "measure (\<lambda>(cmp, e, i, d). i)") auto

declare heap_push_loop_typed.simps [simp del]

definition heap_push_typed ::
    "size_t \<Rightarrow> 'c heap_typed \<Rightarrow> 'c \<Rightarrow> ('a, 'b) world_scheme
     \<Rightarrow> ('c heap_typed \<times> ('a, 'b) world_scheme) outcome option" where
  "heap_push_typed b v e w = and_then (heap_expand_typed b v w) (\<lambda>(v1, w1). do {
     (i, d) \<leftarrow> heap_push_loop_typed (th_compare v1) e (th_size v1) (th_data v1);
     d1 \<leftarrow> buf_put d i (Some e);
     Some (Done (v1\<lparr>th_data := d1, th_size := sz_add (th_size v1) 1\<rparr>, w1)) })"

text \<open>The choice of the larger child, and the loop of \<open>heap_pop\<close> on a heap of \<open>n\<close> elements.\<close>

definition heap_pick_typed :: "('c \<Rightarrow> 'c \<Rightarrow> int) \<Rightarrow> nat \<Rightarrow> nat \<Rightarrow> 'c buf \<Rightarrow> nat option" where
  "heap_pick_typed cmp n i d =
     (let left = i * 2 + 1; right = left + 1 in
      if right < n then do {
        x \<leftarrow> buf_get d left; y \<leftarrow> buf_get d right;
        Some (if cmp x y < 0 then right else left) }
      else Some left)"

lemma heap_pick_typed_eq: "heap_pick_typed = heap_child"
  by (intro ext) (simp add: heap_pick_typed_def heap_child_def)

function heap_pop_loop_typed :: "('c \<Rightarrow> 'c \<Rightarrow> int) \<Rightarrow> nat \<Rightarrow> nat \<Rightarrow> 'c buf \<Rightarrow> 'c buf option" where
  "heap_pop_loop_typed cmp n i d =
     (if n \<le> i * 2 + 1 then Some d
      else do {
        j \<leftarrow> heap_pick_typed cmp n i d;
        x \<leftarrow> buf_get d i;
        y \<leftarrow> buf_get d j;
        if 0 \<le> cmp x y then Some d
        else do {
          d1 \<leftarrow> buf_put d n (Some x);
          y1 \<leftarrow> buf_get d1 j;
          d2 \<leftarrow> buf_put d1 i (Some y1);
          x1 \<leftarrow> buf_get d2 n;
          d3 \<leftarrow> buf_put d2 j (Some x1);
          heap_pop_loop_typed cmp n j d3 } })"
  by pat_completeness auto
termination
  by (relation "measure (\<lambda>(cmp, n, i, d). n - i)") (auto simp: heap_pick_typed_eq dest!: heap_child_cases)

declare heap_pop_loop_typed.simps [simp del]

definition heap_pop_typed :: "'c heap_typed \<Rightarrow> 'c heap_typed option" where
  "heap_pop_typed v =
     (if heap_empty_typed v then None
      else do {
        x \<leftarrow> heap_back_typed v;
        d \<leftarrow> buf_put (th_data v) 0 (Some x);
        let n = sz_sub (th_size v) 1 in do {
        d1 \<leftarrow> heap_pop_loop_typed (th_compare v) n 0 d;
        Some (v\<lparr>th_data := d1, th_size := n\<rparr>) } })"

section \<open>The loops against those of \<open>src/heap.c\<close>\<close>

lemma heap_push_loop_typed_eq: "heap_push_loop_typed cmp e i d = heap_sift_up cmp e i d"
proof (induction cmp e i d rule: heap_push_loop_typed.induct)
  case (1 cmp e i d)
  then show ?case
    by (subst heap_push_loop_typed.simps, subst heap_sift_up.simps) (auto simp: Let_def split: Option.bind_splits)
qed

text \<open>Two blocks that agree below \<open>n\<close>, where the second also has a slot \<open>n\<close>.\<close>

definition agrees :: "nat \<Rightarrow> 'c buf \<Rightarrow> 'c buf \<Rightarrow> bool" where
  "agrees n d c \<longleftrightarrow> (\<forall>k < n. buf_get c k = buf_get d k) \<and> n < length (slots c)"

lemma heap_child_agrees:
  "agrees n d c \<Longrightarrow> i * 2 + 1 < n \<Longrightarrow> heap_child cmp n i c = heap_child cmp n i d"
  by (simp add: heap_child_def agrees_def Let_def)

lemma heap_pop_loop_typed_sim:
  assumes "heap_sift_down cmp n i d = Some d'" and "agrees n d c"
  shows "\<exists>c'. heap_pop_loop_typed cmp n i c = Some c' \<and> agrees n d' c' \<and> length (slots c') = length (slots c)"
  using assms
proof (induction cmp n i d arbitrary: c rule: heap_sift_down.induct)
  case (1 cmp n i d)
  show ?case
  proof (cases "n \<le> i * 2 + 1")
    case True
    then show ?thesis
      using "1.prems" by (simp add: heap_sift_down.simps [of cmp n i d] heap_pop_loop_typed.simps [of cmp n i c])
  next
    case False
    then obtain j x y where j: "heap_child cmp n i d = Some j" and xy: "buf_get d i = Some x" "buf_get d j = Some y"
      using "1.prems"(1) by (subst (asm) heap_sift_down.simps) (auto split: Option.bind_splits if_splits)
    have lt: "i < n" "j < n" "i \<noteq> j" using heap_child_cases [OF j] False by auto
    have c: "heap_pick_typed cmp n i c = Some j" "buf_get c i = Some x" "buf_get c j = Some y" "n < length (slots c)"
      using heap_child_agrees [OF "1.prems"(2), of i cmp] "1.prems"(2) j xy lt False
      by (simp_all add: agrees_def heap_pick_typed_eq)
    have down: "heap_sift_down cmp n i d = (if 0 \<le> cmp x y then Some d
        else heap_swap_slots d i j \<bind> heap_sift_down cmp n j)"
      using False j xy by (subst heap_sift_down.simps) simp
    show ?thesis
    proof (cases "0 \<le> cmp x y")
      case True
      then show ?thesis
        using "1.prems" down False c by (simp add: heap_pop_loop_typed.simps [of cmp n i c])
    next
      case less: False
      obtain d1 where d1: "heap_swap_slots d i j = Some d1" "heap_sift_down cmp n j d1 = Some d'"
        using "1.prems"(1) down less by (auto split: Option.bind_splits)
      obtain c1 where c1: "buf_put c n (Some x) = Some c1" "length (slots c1) = length (slots c)"
        using buf_put_ok c(4) by blast
      obtain c2 where c2: "buf_put c1 i (Some y) = Some c2" "length (slots c2) = length (slots c)"
        using buf_put_ok [of i c1 "Some y"] c1(2) c(4) lt by auto
      obtain c3 where c3: "buf_put c2 j (Some x) = Some c3" "length (slots c3) = length (slots c)"
        using buf_put_ok [of j c2 "Some x"] c2(2) c(4) lt by auto
      obtain e where e: "buf_put d i (Some y) = Some e" "buf_put e j (Some x) = Some d1"
        using d1(1) lt(3) xy by (auto simp: heap_swap_slots_def split: Option.bind_splits)
      have "agrees n d1 c3"
        using "1.prems"(2) c3(2) c(4)
        by (simp add: agrees_def buf_get_put [OF c1(1)] buf_get_put [OF c2(1)] buf_get_put [OF c3(1)]
            buf_get_put [OF e(1)] buf_get_put [OF e(2)])
      moreover have "heap_pop_loop_typed cmp n i c = heap_pop_loop_typed cmp n j c3"
        using False less c lt c1(1) c2(1) c3(1)
        by (subst heap_pop_loop_typed.simps) (simp add: buf_get_put [OF c1(1)] buf_get_put [OF c2(1)])
      ultimately show ?thesis
        using "1.IH" [OF False j xy less d1] c3(2) by metis
    qed
  qed
qed

section \<open>Contracts\<close>

text \<open>A typed heap read as a heap of \<open>src/heap.c\<close> without callbacks for its elements.\<close>

definition as_heap :: "size_t \<Rightarrow> 'c heap_typed \<Rightarrow> 'c heap" where
  "as_heap b v = \<lparr>h_capacity = th_capacity v, h_size = th_size v, h_elem_size = b,
     h_elem_compare = th_compare v, h_elem_destroy = False, h_elem_copy = None, h_data = th_data v\<rparr>"

lemma as_heap_simps [simp]:
  "h_capacity (as_heap b v) = th_capacity v" "h_size (as_heap b v) = th_size v" "h_elem_size (as_heap b v) = b"
  "h_elem_compare (as_heap b v) = th_compare v" "h_data (as_heap b v) = th_data v"
  "(as_heap b v)\<lparr>h_data := d, h_size := n\<rparr> = as_heap b (v\<lparr>th_data := d, th_size := n\<rparr>)"
  by (simp_all add: as_heap_def)

definition theap_bag :: "size_t \<Rightarrow> ('c \<Rightarrow> 'c \<Rightarrow> int) \<Rightarrow> 'c heap_typed \<Rightarrow> 'c multiset \<Rightarrow> bool" where
  "theap_bag b cmp v m \<longleftrightarrow> th_compare v = cmp \<and> heap_bag (as_heap b v) m"

definition theap_own :: "'c heap_typed \<Rightarrow> int" where
  "theap_own v = blocks (th_data v)"

lemma heap_rel_granted: "heap_rel (as_heap b v) xs \<Longrightarrow> granted b (th_capacity v) (th_data v)"
  by (simp add: heap_rel_def granted_def)

lemma heap_expand_typed_ok:
  assumes v: "heap_rel (as_heap b v) xs"
  shows "heap_expand_typed b v w = Some Exit \<and> \<not> (no_fail w \<and> typed_room b (length xs) (Suc n))
    \<or> (\<exists>v' w'. heap_expand_typed b v w = Some (Done (v', w')) \<and> heap_rel (as_heap b v') xs
        \<and> th_compare v' = th_compare v \<and> length xs < th_capacity v'
        \<and> live w' - theap_own v' = live w - theap_own v \<and> (no_fail w \<longrightarrow> no_fail w'))"
proof (cases "th_size v < th_capacity v")
  case True
  then show ?thesis using v heap_relD(2) [OF v] by (auto simp: heap_expand_typed_def)
next
  case False
  note D = heap_relD [OF v, unfolded as_heap_simps] note g = heap_rel_granted [OF v]
  note E = doubled_exact [OF g]
  let ?c = "doubled (th_capacity v)"
  have cap: "(if th_capacity v = 0 then HEAP_INIT_CAPACITY_typed else sz_mul (th_capacity v) 2) = ?c"
    using E(1) by (simp add: doubled_def HEAP_INIT_CAPACITY_typed_def)
  obtain ok w1 where r: "realloc (th_data v \<noteq> NULL) (?c * b) w = (ok, w1)" by fastforce
  note R = realloc_effect [OF r]
  let ?v = "v\<lparr>th_capacity := ?c, th_data := buf_resize ?c (th_data v)\<rparr>"
  have exp: "heap_expand_typed b v w = (if \<not> ok then Some Exit else Some (Done (?v, w1)))"
    using False D(5) r by (simp only: heap_expand_typed_def cap Let_def E(2)) simp
  show ?thesis
  proof (cases ok)
    case True
    have "heap_rel (as_heap b ?v) xs"
      using D E(3) R(4) True holds_resize [OF D(1), of ?c] by (auto simp: heap_rel_def doubled_def)
    with exp True D(7) E(3) R(3,5) show ?thesis
      by (auto simp: theap_own_def blocks_def split: ptr.splits)
  next
    case no: False
    have "\<not> (no_fail w \<and> typed_room b (length xs) (Suc n))"
    proof
      assume a: "no_fail w \<and> typed_room b (length xs) (Suc n)"
      have "th_capacity v \<le> length xs + Suc n" using False D(2) by simp
      then show False using typed_room_doubled [of b "length xs" "Suc n" "th_capacity v"] R(6) a no by simp
    qed
    with exp no show ?thesis by simp
  qed
qed

section \<open>The abstract machine\<close>

datatype 'c heap_typed_op = THPush 'c | THPop

fun heap_typed_exec :: "size_t \<Rightarrow> 'c heap_typed_op \<Rightarrow> 'c heap_typed \<Rightarrow> ('a, 'b) world_scheme
    \<Rightarrow> ('c heap_typed \<times> ('a, 'b) world_scheme) outcome option" where
  "heap_typed_exec b (THPush x) v w = heap_push_typed b v x w"
| "heap_typed_exec b THPop v w = map_option (\<lambda>v'. Done (v', w)) (heap_pop_typed v)"

text \<open>A pop removes an element that no other exceeds.\<close>

fun heap_typed_step :: "('c \<Rightarrow> 'c \<Rightarrow> int) \<Rightarrow> 'c heap_typed_op \<Rightarrow> 'c multiset \<Rightarrow> 'c multiset \<Rightarrow> bool" where
  "heap_typed_step cmp (THPush x) m m' \<longleftrightarrow> m' = add_mset x m"
| "heap_typed_step cmp THPop m m' \<longleftrightarrow> (\<exists>x. m = add_mset x m' \<and> (\<forall>y \<in># m'. cmp y x \<le> 0))"

definition theap_law :: "size_t \<Rightarrow> ('c \<Rightarrow> 'c \<Rightarrow> int) \<Rightarrow> 'c heap_typed \<Rightarrow> 'c multiset \<Rightarrow> ('c multiset \<Rightarrow> bool)
    \<Rightarrow> ('a, 'b) world_scheme \<Rightarrow> ('c heap_typed \<times> ('a, 'b) world_scheme) outcome option \<Rightarrow> bool" where
  "theap_law b cmp v m post w r \<longleftrightarrow> (case r of None \<Rightarrow> \<nexists>m'. post m'
     | Some Exit \<Rightarrow> \<forall>n. \<not> (no_fail w \<and> typed_room b (th_size v) (Suc n))
     | Some (Done (v', w')) \<Rightarrow> \<exists>m'. post m' \<and> theap_bag b cmp v' m' \<and> th_size v' \<le> Suc (th_size v)
         \<and> live w' - theap_own v' = live w - theap_own v \<and> (no_fail w \<longrightarrow> no_fail w'))"

lemma heap_push_typed_law:
  assumes v: "theap_bag b cmp v m"
  shows "theap_law b cmp v m (heap_typed_step cmp (THPush x) m) w (heap_push_typed b v x w)"
proof -
  obtain xs where xs: "heap_rel (as_heap b v) xs" "mset xs = m" "th_compare v = cmp"
    using v by (auto simp: theap_bag_def heap_bag_def)
  have sz: "th_size v = length xs" using heap_relD(2) [OF xs(1)] by simp
  show ?thesis
  proof (cases "heap_expand_typed b v w" rule: outcome_cases)
    case 1
    then show ?thesis using heap_expand_typed_ok [OF xs(1), of w] by auto
  next
    case 2
    then show ?thesis
      using heap_expand_typed_ok [OF xs(1), of w] sz by (auto simp: theap_law_def heap_push_typed_def)
  next
    case (3 r)
    then obtain v1 w1 where e: "heap_expand_typed b v w = Some (Done (v1, w1))"
      and v1: "heap_rel (as_heap b v1) xs" "th_compare v1 = th_compare v" "length xs < th_capacity v1"
        "live w1 - theap_own v1 = live w - theap_own v" "no_fail w \<longrightarrow> no_fail w1"
      using heap_expand_typed_ok [OF xs(1), of w] by auto
    note D = heap_relD [OF v1(1), unfolded as_heap_simps]
    obtain i d d1 ys where s: "heap_sift_up (th_compare v1) x (length xs) (th_data v1) = Some (i, d)"
      "buf_put d i (Some x) = Some d1" "mset ys = add_mset x (mset xs)" "d1 \<noteq> NULL"
      "heap_rel (as_heap b (v1\<lparr>th_data := d1, th_size := Suc (length xs)\<rparr>)) ys"
      using heap_sift_in [OF v1(1), of x] v1(3) unfolding as_heap_simps by blast
    have "sz_add (th_size v1) 1 = Suc (length xs)" using D(2,7,8) SIZE_MAX_PTRDIFF_MAX by simp
    then have push: "heap_push_typed b v x w = Some (Done (v1\<lparr>th_data := d1, th_size := Suc (length xs)\<rparr>, w1))"
      using e s(1,2) D(2) by (simp add: heap_push_typed_def heap_push_loop_typed_eq)
    have "theap_bag b cmp (v1\<lparr>th_data := d1, th_size := Suc (length xs)\<rparr>) (add_mset x m)"
      using s(3,5) xs(2,3) v1(2) by (auto simp: theap_bag_def heap_bag_def)
    moreover have "th_data v1 \<noteq> NULL" using D(4) v1(3) by auto
    ultimately show ?thesis
      unfolding push using sz s(4) v1(4,5) by (simp add: theap_law_def theap_own_def)
  qed
qed

lemma heap_pop_typed_ok:
  assumes v: "heap_rel (as_heap b v) xs" and ne: "xs \<noteq> []"
  shows "\<exists>d. heap_pop_typed v = Some (v\<lparr>th_data := d, th_size := length xs - 1\<rparr>) \<and> d \<noteq> NULL
    \<and> heap_bag (as_heap b (v\<lparr>th_data := d, th_size := length xs - 1\<rparr>)) (mset (tl xs))"
proof -
  note D = heap_relD [OF v, unfolded as_heap_simps]
  let ?n = "length xs - 1"
  have n: "?n < length xs" "sz_sub (th_size v) 1 = ?n" "th_size v \<noteq> 0"
    using ne D(2,7,8) SIZE_MAX_PTRDIFF_MAX by (simp_all add: Suc_le_eq)
  have lastx: "heap_back_typed v = Some (xs ! ?n)"
    unfolding heap_back_typed_def n(2) by (rule holds_get [OF D(1) n(1)])
  obtain d where d: "buf_put (th_data v) 0 (Some (xs ! ?n)) = Some d" "length (slots d) = length (slots (th_data v))"
    "d \<noteq> NULL"
    using holds_put_old [OF D(1), of 0] ne by auto
  have pop: "heap_pop_typed v = map_option (\<lambda>d1. v\<lparr>th_data := d1, th_size := ?n\<rparr>)
      (heap_pop_loop_typed (th_compare v) ?n 0 d)"
    unfolding heap_pop_typed_def heap_empty_typed_def n(2)
    using n(3) lastx d(1)
    by (cases "heap_pop_loop_typed (th_compare v) ?n 0 d") (simp_all add: Let_def)
  show ?thesis
  proof (cases "?n = 0")
    case True
    then have "heap_pop_loop_typed (th_compare v) ?n 0 d = Some d" by (subst heap_pop_loop_typed.simps) simp
    moreover have "heap_rel (as_heap b (v\<lparr>th_data := d, th_size := ?n\<rparr>)) []"
    proof -
      have "0 < th_capacity v" using ne D(7) by (cases xs) auto
      with D d True show ?thesis by (simp add: heap_rel_def)
    qed
    moreover have "tl xs = []" using True by (cases xs) simp_all
    ultimately show ?thesis using pop d(3) by (auto simp: heap_bag_def)
  next
    case False
    obtain h' where h': "heap_pop (Ptr (as_heap b v)) (script [] []) = Some (0, Ptr h', script [] [])"
      "heap_bag h' (mset (tl xs))"
    proof -
      obtain rc h' w' where r: "heap_pop (Ptr (as_heap b v)) (script [] []) = Some (rc, Ptr h', w')"
        and "xs = [] \<and> rc = - 1 \<and> h' = as_heap b v \<and> w' = script [] []
          \<or> xs \<noteq> [] \<and> rc = 0 \<and> heap_bag h' (mset (tl xs))
             \<and> destroyed w' = destroyed (script [] []) @ log_if (h_elem_destroy (as_heap b v)) [hd xs]"
        using heap_pop_ok [OF v, of "script [] []"] by (elim exE conjE) (rule that)
      moreover have "w' = script [] []"
        using r by (auto simp: heap_pop_def as_heap_def heap_destroy_element_def destroy_element_def Let_def
            split: if_splits Option.bind_splits)
      ultimately show ?thesis using that ne by auto
    qed
    then obtain e where e: "heap_sift_down (th_compare v) ?n 0 d = Some e"
      "h' = as_heap b (v\<lparr>th_data := e, th_size := ?n\<rparr>)"
      using n D(2) False d(1) holds_get [OF D(1) n(1)]
      by (auto simp: heap_pop_def heap_empty_def Let_def split: Option.bind_splits)
    have "agrees ?n d d" using d(2) D(3,7) n(1) by (simp add: agrees_def)
    with heap_pop_loop_typed_sim [OF e(1)] obtain c where c: "heap_pop_loop_typed (th_compare v) ?n 0 d = Some c"
      "agrees ?n e c" "length (slots c) = length (slots d)" by blast
    obtain ys where ys: "heap_rel h' ys" "mset ys = mset (tl xs)" using h'(2) by (auto simp: heap_bag_def)
    note Y = heap_relD [OF ys(1), unfolded e(2) as_heap_simps, simplified]
    have "holds c ys"
      using c(2) holds_get [OF Y(1)] Y(2) by (auto simp: agrees_def holds_iff buf_get_def split: if_splits)
    moreover have "c \<noteq> NULL" using c(3) d(2) D(3,7) n(1) by (cases c) auto
    ultimately have "heap_rel (as_heap b (v\<lparr>th_data := c, th_size := ?n\<rparr>)) ys"
      using Y D(3) c(3) d(2) D(4,7) n(1) by (auto simp: heap_rel_def)
    with pop c(1) ys(2) \<open>c \<noteq> NULL\<close> show ?thesis by (auto simp: heap_bag_def)
  qed
qed

lemma heap_pop_typed_law:
  assumes v: "theap_bag b cmp v m"
  shows "theap_law b cmp v m (heap_typed_step cmp THPop m) w (map_option (\<lambda>v'. Done (v', w)) (heap_pop_typed v))"
proof -
  obtain xs where xs: "heap_rel (as_heap b v) xs" "mset xs = m" "th_compare v = cmp"
    using v by (auto simp: theap_bag_def heap_bag_def)
  note D = heap_relD [OF xs(1), unfolded as_heap_simps]
  show ?thesis
  proof (cases "xs = []")
    case True
    then show ?thesis using xs(2) D(2) by (auto simp: heap_pop_typed_def heap_empty_typed_def theap_law_def)
  next
    case False
    obtain d where d: "heap_pop_typed v = Some (v\<lparr>th_data := d, th_size := length xs - 1\<rparr>)" "d \<noteq> NULL"
      "heap_bag (as_heap b (v\<lparr>th_data := d, th_size := length xs - 1\<rparr>)) (mset (tl xs))"
      using heap_pop_typed_ok [OF xs(1) False] by blast
    have m: "m = add_mset (hd xs) (mset (tl xs))" using xs(2) False by (cases xs) auto
    have "\<forall>y \<in># mset (tl xs). cmp y (hd xs) \<le> 0"
      using heap_top_ok(3) [OF xs(1)] xs(3) False by (cases xs) auto
    with m have "heap_typed_step cmp THPop m (mset (tl xs))" by auto
    moreover have "th_data v \<noteq> NULL" using D(4,7) False by auto
    moreover have "theap_bag b cmp (v\<lparr>th_data := d, th_size := length xs - 1\<rparr>) (mset (tl xs))"
      using d(3) xs(3) by (simp add: theap_bag_def)
    ultimately show ?thesis
      unfolding d(1) using d(2) D(2) by (auto simp: theap_law_def theap_own_def simp del: heap_typed_step.simps)
  qed
qed

lemma heap_typed_exec_law:
  assumes v: "theap_bag b cmp v m"
  shows "theap_law b cmp v m (heap_typed_step cmp op m) w (heap_typed_exec b op v w)"
  using heap_push_typed_law [OF v] heap_pop_typed_law [OF v]
  by (cases op) (simp_all del: heap_typed_step.simps)

interpretation thm_machine: typed_container "heap_typed_exec b" "heap_typed_step cmp" "\<lambda>v w. theap_bag b cmp v" theap_own
  "\<lambda>v n. True" "\<lambda>v n. typed_room b (th_size v) n"
proof (unfold_locales, goal_cases)
  case (1 h w m n op)
  then show ?case using heap_typed_exec_law [of b cmp h m op w] by (simp add: theap_law_def)
next
  case (2 h w m n op)
  then show ?case using heap_typed_exec_law [of b cmp h m op w] by (simp add: theap_law_def)
next
  case (3 h w m n op h' w')
  from heap_typed_exec_law [OF 3(1), of op w] 3(3) obtain m' where "heap_typed_step cmp op m m'" "theap_bag b cmp h' m'"
    "th_size h' \<le> Suc (th_size h)" "live w' - theap_own h' = live w - theap_own h" "no_fail w \<longrightarrow> no_fail w'"
    by (auto simp: theap_law_def simp del: heap_typed_step.simps)
  then show ?case by (auto elim!: typed_room_mono simp del: heap_typed_step.simps)
qed

lemma heap_new_typed_ok:
  assumes "0 < b" and "8 * b \<le> PTRDIFF_MAX" and "cmp_ok cmp"
  shows "case heap_new_typed cmp w of None \<Rightarrow> \<not> no_fail w
    | Some (v, w') \<Rightarrow> theap_bag b cmp v {#} \<and> th_size v = 0 \<and> theap_own v = 0 \<and> live w' = live w + 1
        \<and> (no_fail w \<longrightarrow> no_fail w')"
proof -
  obtain ok w1 where m: "malloc 32 w = (ok, w1)" by fastforce
  with malloc_effect [OF m] assms show ?thesis
    by (cases ok) (auto simp: heap_new_typed_def calloc_def theap_bag_def heap_bag_empty heap_rel_def theap_own_def
        PTRDIFF_MAX_def)
qed

lemma heap_free_typed_ok: "heap_free_typed (Ptr v) w = (f, w') \<Longrightarrow> \<not> f \<and> live w' = live w - theap_own v - 1"
  by (auto simp: heap_free_typed_def theap_own_def)

section \<open>Properties\<close>

text \<open>A run of the heap macros never leaves the block. It fails an assertion only where a pop
  finds the heap empty, ends the process only when the allocator fails or the run outgrows the address
  space, and otherwise behaves like a priority queue: every pop removes an element that no stored
  element exceeds, and at the end \<open>heap_top\<close> is such an element; freeing the heap leaves no block
  allocated. \<open>heap_new\<close> itself writes through a null pointer when the allocator fails, and only then.\<close>

theorem heap_typed_history:
  assumes "0 < b" and "8 * b \<le> PTRDIFF_MAX" and "cmp_ok cmp"
  shows "case heap_new_typed cmp w of None \<Rightarrow> \<not> no_fail w
    | Some (v, w1) \<Rightarrow> (case typed_run (heap_typed_exec b) ops v w1 of
        None \<Rightarrow> gets_stuck (heap_typed_step cmp) ops {#}
      | Some Exit \<Rightarrow> \<not> (no_fail w1 \<and> typed_room b 0 (length ops))
      | Some (Done (v', w2)) \<Rightarrow> \<exists>m. typed_steps (heap_typed_step cmp) ops {#} m \<and> theap_bag b cmp v' m
          \<and> (m \<noteq> {#} \<longrightarrow> (\<exists>x \<in># m. heap_top_typed v' = Some x \<and> (\<forall>y \<in># m. cmp y x \<le> 0)))
          \<and> (\<exists>w3. heap_free_typed (Ptr v') w2 = (False, w3) \<and> live w3 = live w))"
proof (cases "heap_new_typed cmp w")
  case None
  then show ?thesis using heap_new_typed_ok [OF assms, of w] by simp
next
  case (Some r)
  then obtain v w1 where new: "heap_new_typed cmp w = Some (v, w1)" by (cases r) simp
  with heap_new_typed_ok [OF assms, of w] have v: "theap_bag b cmp v {#}" "theap_own v = 0" "live w1 = live w + 1"
    "th_size v = 0"
    by simp_all
  note law = thm_machine.run_law [OF v(1) TrueI, of ops w1]
  show ?thesis
  proof (cases "typed_run (heap_typed_exec b) ops v w1" rule: outcome_cases)
    case (3 r)
    obtain v' w2 where r: "r = (v', w2)" by (cases r)
    obtain m where m: "typed_steps (heap_typed_step cmp) ops {#} m" "theap_bag b cmp v' m"
      "live w2 - theap_own v' = live w1 - theap_own v"
      using law unfolding 3 r by auto
    obtain f w3 where f: "heap_free_typed (Ptr v') w2 = (f, w3)" by fastforce
    have free: "\<not> f" "live w3 = live w" using heap_free_typed_ok [OF f] m(3) v(2,3) by simp_all
    obtain xs where xs: "heap_rel (as_heap b v') xs" "mset xs = m" "th_compare v' = cmp"
      using m(2) by (auto simp: theap_bag_def heap_bag_def)
    have top: "\<exists>x \<in># m. heap_top_typed v' = Some x \<and> (\<forall>y \<in># m. cmp y x \<le> 0)" if "m \<noteq> {#}"
    proof -
      have "xs \<noteq> []" using that xs(2) by auto
      then have "heap_top_typed v' = Some (hd xs)" "hd xs \<in># m"
        using holds_get [OF heap_relD(1) [OF xs(1)], of 0] xs(2)
        by (auto simp: heap_top_typed_def hd_conv_nth)
      moreover have "\<forall>y \<in># m. cmp y (hd xs) \<le> 0"
        using heap_top_ok(3) [OF xs(1)] xs(2,3) by auto
      ultimately show ?thesis by blast
    qed
    from m(1,2) top f free show ?thesis unfolding new option.case prod.case 3 r by auto
  qed (use law v(4) new in simp_all)
qed

end
