(* ===== verification/Dict_Typed.thy ===== *)
theory Dict_Typed
  imports Typed "HOL-Library.Word"
begin

unbundle bit_operations_syntax

text \<open>
  \<open>src/legacy/dict_typed.h\<close>: the hash map and hash set as macros, with open addressing, linear
  probing and deletion by shifting back. A key that is 0 marks an empty bucket; the actual key 0
  lives at index \<open>- 1\<close> of the arrays. Every macro is a definition of its name with the suffix
  \<open>_typed\<close>. What the macros take from the element types (the zero of the keys and of the values,
  their sizes, the hash function chosen by \<open>_Generic\<close>, whether hashes are cached) is a record.
\<close>

section \<open>Hash functions\<close>

definition scalar_hash :: "64 word \<Rightarrow> 32 word" where
  "scalar_hash n = ucast n XOR ucast (drop_bit 32 n)"

text \<open>A string is the list of its characters up to the terminator or beyond it. A \<open>char\<close> is signed, so its
  addition extends the sign.\<close>

fun djb2_loop :: "8 word list \<Rightarrow> 32 word \<Rightarrow> 32 word" where
  "djb2_loop [] hash = hash"
| "djb2_loop (c # s) hash = (if c = 0 then hash else djb2_loop s (push_bit 5 hash + hash + scast c))"

definition djb2_hash :: "8 word list \<Rightarrow> 32 word" where
  "djb2_hash s = djb2_loop s 5381"

section \<open>Data\<close>

datatype dict_t = DICT_HASH_SET | DICT_HASH_MAP

definition DICT_INIT_EXP :: int where
  "DICT_INIT_EXP = 3"

record ('k, 'v) dict_types =
  dt_zero :: 'k
  dt_null :: 'v
  dt_key_bytes :: size_t
  dt_val_bytes :: size_t
  dt_hash :: "'k \<Rightarrow> 32 word"
  dt_hashed :: bool

text \<open>The fields with two entries, one for the dictionary and one for its successor in an expansion.\<close>

record ('k, 'v) dict_table =
  t_exp :: int
  t_keys :: "'k list ptr"
  t_values :: "'v list ptr"
  t_hashes :: "32 word list ptr"

record ('k, 'v) dict_typed =
  dd_size :: size_t
  dd_zero_occupied :: bool
  dd_type :: dict_t
  dd_key_cmp :: "'k \<Rightarrow> 'k \<Rightarrow> int"
  dd_key_free :: bool
  dd_value_free :: bool
  dd_tab0 :: "('k, 'v) dict_table"
  dd_tab1 :: "('k, 'v) dict_table"
  dd_cursor :: int

definition no_table :: "int \<Rightarrow> ('k, 'v) dict_table" where
  "no_table e = \<lparr>t_exp = e, t_keys = NULL, t_values = NULL, t_hashes = NULL\<rparr>"

text \<open>The arrays are indexed from \<open>- 1\<close> on.\<close>

definition arr_get :: "'e list ptr \<Rightarrow> int \<Rightarrow> 'e option" where
  "arr_get a i = (case a of NULL \<Rightarrow> None
     | Ptr xs \<Rightarrow> if - 1 \<le> i \<and> nat (i + 1) < length xs then Some (xs ! nat (i + 1)) else None)"

definition arr_put :: "'e list ptr \<Rightarrow> int \<Rightarrow> 'e \<Rightarrow> 'e list ptr option" where
  "arr_put a i x = (case a of NULL \<Rightarrow> None
     | Ptr xs \<Rightarrow> if - 1 \<le> i \<and> nat (i + 1) < length xs then Some (Ptr (xs[nat (i + 1) := x])) else None)"

text \<open>A write to an array that is only there for some element types.\<close>

definition arr_put_if :: "'e list ptr \<Rightarrow> int \<Rightarrow> 'e option \<Rightarrow> 'e list ptr option" where
  "arr_put_if a i x = (if a = NULL then Some NULL else do { y \<leftarrow> x; arr_put a i y })"

text \<open>The conversion of a \<open>size_t\<close> to \<open>int\<close>.\<close>

definition c_int :: "nat \<Rightarrow> int" where
  "c_int n = (int n + 2147483648) mod 4294967296 - 2147483648"

definition exp_cap :: "int \<Rightarrow> size_t" where
  "exp_cap e = (if e = - 1 then 0 else 2 ^ nat e)"

definition dict_i_cap :: "('k, 'v) dict_table \<Rightarrow> size_t" where
  "dict_i_cap t = exp_cap (t_exp t)"

definition dict_i_mask :: "('k, 'v) dict_table \<Rightarrow> size_t" where
  "dict_i_mask t = (if t_exp t = - 1 then 0 else sz_sub (dict_i_cap t) 1)"

definition dict_found_typed :: "('k, 'v) dict_types \<Rightarrow> ('k, 'v) dict_typed \<Rightarrow> bool option" where
  "dict_found_typed T d =
     (if 0 \<le> dd_cursor d then do { k \<leftarrow> arr_get (t_keys (dd_tab0 d)) (dd_cursor d); Some (k \<noteq> dt_zero T) }
      else Some (dd_cursor d = - 1 \<and> dd_zero_occupied d))"

definition dict_cur_key :: "('k, 'v) dict_typed \<Rightarrow> 'k option" where
  "dict_cur_key d = arr_get (t_keys (dd_tab0 d)) (dd_cursor d)"

definition dict_cur_value :: "('k, 'v) dict_typed \<Rightarrow> 'v option" where
  "dict_cur_value d = arr_get (t_values (dd_tab0 d)) (dd_cursor d)"

section \<open>Operations\<close>

type_synonym ('k, 'v) dict_world = "('k + 'v) world"

text \<open>\<open>dict_new\<close> writes the fields without looking at what \<open>calloc\<close> returned.\<close>

definition dict_new_typed ::
    "dict_t \<Rightarrow> ('k \<Rightarrow> 'k \<Rightarrow> int) \<Rightarrow> bool \<Rightarrow> bool \<Rightarrow> ('k, 'v) dict_world
     \<Rightarrow> (('k, 'v) dict_typed \<times> ('k, 'v) dict_world) option" where
  "dict_new_typed dt cmp fk fv w = (let (ok, w1) = calloc 1 96 w in
     if \<not> ok then None
     else Some (\<lparr>dd_size = 0, dd_zero_occupied = False, dd_type = dt, dd_key_cmp = cmp, dd_key_free = fk,
       dd_value_free = fv, dd_tab0 = no_table (- 1), dd_tab1 = no_table (- 1), dd_cursor = 0\<rparr>, w1))"

text \<open>The release loops pass every entry that is not zero to the callback, from index \<open>- 1\<close> on.\<close>

fun dict_free_loop :: "'e \<Rightarrow> ('e \<Rightarrow> 'k + 'v) \<Rightarrow> 'e list ptr \<Rightarrow> int list \<Rightarrow> ('k, 'v) dict_world
    \<Rightarrow> ('k, 'v) dict_world option" where
  "dict_free_loop z tag a [] w = Some w"
| "dict_free_loop z tag a (i # is) w = do {
     x \<leftarrow> arr_get a i;
     dict_free_loop z tag a is (if x \<noteq> z then destroy_element True (tag x) w else w) }"

definition dict_free_typed ::
    "('k, 'v) dict_types \<Rightarrow> ('k, 'v) dict_typed ptr \<Rightarrow> ('k, 'v) dict_world
     \<Rightarrow> (bool \<times> ('k, 'v) dict_world) option" where
  "dict_free_typed T p w = (case p of NULL \<Rightarrow> Some (True, w) | Ptr d \<Rightarrow>
     let t = dd_tab0 d; is = [- 1 .. c_int (dict_i_cap t) - 1] in
     if t_keys t = NULL then Some (False, free_block w)
     else do {
       w1 \<leftarrow> (if dd_key_free d then dict_free_loop (dt_zero T) Inl (t_keys t) is w else Some w);
       w2 \<leftarrow> (if dd_value_free d then dict_free_loop (dt_null T) Inr (t_values t) is w1 else Some w1);
       let w3 = free_ptr (t_keys t) w2;
           w4 = (if dd_type d = DICT_HASH_MAP then free_ptr (t_values t) w3 else w3);
           w5 = free_ptr (t_hashes t) w4 in
       Some (False, free_block w5) })"

text \<open>
  The probe loop of \<open>_dict_find\<close>. A search that has looked at every bucket of the table would
  go round for ever, so its fuel is one more than the capacity, and running out of it is the value \<open>None\<close>.
\<close>

fun dict_find_loop :: "('k, 'v) dict_types \<Rightarrow> ('k \<Rightarrow> 'k \<Rightarrow> int) \<Rightarrow> ('k, 'v) dict_table \<Rightarrow> 'k \<Rightarrow> 32 word
    \<Rightarrow> nat \<Rightarrow> int \<Rightarrow> int option" where
  "dict_find_loop T cmp t key h 0 c = None"
| "dict_find_loop T cmp t key h (Suc n) c = do {
     k \<leftarrow> arr_get (t_keys t) c;
     if k = dt_zero T then Some c
     else do {
       stop \<leftarrow> (if t_hashes t = NULL then Some (cmp k key = 0)
         else do { g \<leftarrow> arr_get (t_hashes t) c; Some (g = h \<and> cmp k key = 0) });
       if stop then Some c
       else dict_find_loop T cmp t key h n (c_int (nat (c + 1) AND dict_i_mask t)) } }"

definition dict_probe :: "('k, 'v) dict_types \<Rightarrow> ('k \<Rightarrow> 'k \<Rightarrow> int) \<Rightarrow> ('k, 'v) dict_table \<Rightarrow> 'k \<Rightarrow> 32 word \<Rightarrow> int option" where
  "dict_probe T cmp t key h =
     (if key \<noteq> dt_zero T
      then dict_find_loop T cmp t key h (Suc (dict_i_cap t)) (c_int (unat h AND dict_i_mask t))
      else Some (- 1))"

definition dict_find_typed ::
    "('k, 'v) dict_types \<Rightarrow> ('k, 'v) dict_typed \<Rightarrow> 'k \<Rightarrow> ('k, 'v) dict_typed option" where
  "dict_find_typed T d key = do {
     c \<leftarrow> dict_probe T (dd_key_cmp d) (dd_tab0 d) key (dt_hash T key);
     Some (d\<lparr>dd_cursor := c\<rparr>) }"

text \<open>The arrays of the successor table.\<close>

definition dict_alloc_typed ::
    "('k, 'v) dict_types \<Rightarrow> ('k, 'v) dict_typed \<Rightarrow> ('k, 'v) dict_world
     \<Rightarrow> (('k, 'v) dict_table \<times> ('k, 'v) dict_world) outcome" where
  "dict_alloc_typed T d w =
     (let e = (if t_exp (dd_tab0 d) \<le> 0 then DICT_INIT_EXP else t_exp (dd_tab0 d) + 1);
          n = 1 + exp_cap e;
          (ok, w1) = calloc n (dt_key_bytes T) w in
      if \<not> ok then Exit
      else let (ok2, w2) = (if dd_type d = DICT_HASH_MAP then calloc n (dt_val_bytes T) w1 else (True, w1)) in
        if \<not> ok2 then Exit
        else let (ok3, w3) = (if dt_hashed T then calloc n 4 w2 else (True, w2)) in
          if \<not> ok3 then Exit
          else Done (\<lparr>t_exp = e, t_keys = Ptr (replicate n (dt_zero T)),
            t_values = (if dd_type d = DICT_HASH_MAP then Ptr (replicate n (dt_null T)) else NULL),
            t_hashes = (if dt_hashed T then Ptr (replicate n 0) else NULL)\<rparr>, w3))"

text \<open>The entry at \<open>i\<close> of one table written at \<open>c\<close> of another.\<close>

definition dict_move_entry :: "('k, 'v) dict_table \<Rightarrow> int \<Rightarrow> ('k, 'v) dict_table \<Rightarrow> int \<Rightarrow> ('k, 'v) dict_table option" where
  "dict_move_entry t0 i t c = do {
     k \<leftarrow> arr_get (t_keys t0) i;
     ks \<leftarrow> arr_put (t_keys t) c k;
     vs \<leftarrow> arr_put_if (t_values t) c (arr_get (t_values t0) i);
     hs \<leftarrow> arr_put_if (t_hashes t) c (arr_get (t_hashes t0) i);
     Some (t\<lparr>t_keys := ks, t_values := vs, t_hashes := hs\<rparr>) }"

fun dict_expand_loop :: "('k, 'v) dict_types \<Rightarrow> ('k \<Rightarrow> 'k \<Rightarrow> int) \<Rightarrow> ('k, 'v) dict_table \<Rightarrow> int list
    \<Rightarrow> ('k, 'v) dict_table \<times> int \<Rightarrow> (('k, 'v) dict_table \<times> int) option" where
  "dict_expand_loop T cmp t0 [] r = Some r"
| "dict_expand_loop T cmp t0 (i # is) (t, c) = do {
     k \<leftarrow> arr_get (t_keys t0) i;
     if k = dt_zero T then dict_expand_loop T cmp t0 is (t, c)
     else do {
       h \<leftarrow> (if t_hashes t0 \<noteq> NULL then arr_get (t_hashes t0) i else Some (dt_hash T k));
       c1 \<leftarrow> dict_probe T cmp t k h;
       t1 \<leftarrow> dict_move_entry t0 i t c1;
       dict_expand_loop T cmp t0 is (t1, c1) } }"

text \<open>
  The load test compares \<open>size + 1\<close> with \<open>0.75\<close> times the capacity in floating point, which is
  exact for the sizes that fit into memory.
\<close>

definition dict_expand_typed ::
    "('k, 'v) dict_types \<Rightarrow> ('k, 'v) dict_typed \<Rightarrow> ('k, 'v) dict_world
     \<Rightarrow> (('k, 'v) dict_typed \<times> ('k, 'v) dict_world) outcome option" where
  "dict_expand_typed T d w =
     (let t0 = dd_tab0 d in
      if 4 * sz_add (dd_size d) 1 < 3 * dict_i_cap t0 then Some (Done (d, w))
      else and_then (Some (dict_alloc_typed T d w)) (\<lambda>(t1, w1). do {
        t2 \<leftarrow> (if dd_zero_occupied d then dict_move_entry t0 (- 1) t1 (- 1) else Some t1);
        (t3, c) \<leftarrow> dict_expand_loop T (dd_key_cmp d) t0 [0 .. c_int (dict_i_cap t0) - 1] (t2, dd_cursor d);
        let w2 = free_ptr (t_hashes t0) (free_ptr (t_values t0) (free_ptr (t_keys t0) w1)) in
        Some (Done (d\<lparr>dd_tab0 := t3, dd_tab1 := no_table (t_exp t3), dd_cursor := c\<rparr>, w2)) }))"

definition dict_set_key_typed ::
    "('k, 'v) dict_types \<Rightarrow> ('k, 'v) dict_typed \<Rightarrow> 'k \<Rightarrow> ('k, 'v) dict_world
     \<Rightarrow> (('k, 'v) dict_typed \<times> ('k, 'v) dict_world) outcome option" where
  "dict_set_key_typed T d key w = and_then (dict_expand_typed T d w) (\<lambda>(d1, w1).
     let hash = dt_hash T key in do {
     d2 \<leftarrow> dict_find_typed T d1 key;
     found \<leftarrow> dict_found_typed T d2;
     if found then Some (Done (d2, w1))
     else let c = dd_cursor d2; t = dd_tab0 d2 in do {
       ks \<leftarrow> arr_put (t_keys t) c key;
       hs \<leftarrow> arr_put_if (t_hashes t) c (Some hash);
       Some (Done (d2\<lparr>dd_size := sz_add (dd_size d2) 1,
         dd_zero_occupied := (dd_zero_occupied d2 \<or> c = - 1),
         dd_tab0 := t\<lparr>t_keys := ks, t_hashes := hs\<rparr>\<rparr>, w1)) } })"

definition dict_set_typed ::
    "('k, 'v) dict_types \<Rightarrow> ('k, 'v) dict_typed \<Rightarrow> 'k \<Rightarrow> 'v \<Rightarrow> ('k, 'v) dict_world
     \<Rightarrow> (('k, 'v) dict_typed \<times> ('k, 'v) dict_world) outcome option" where
  "dict_set_typed T d key value w = and_then (dict_set_key_typed T d key w) (\<lambda>(d1, w1). do {
     w2 \<leftarrow> (if dd_value_free d1 then do {
              old \<leftarrow> dict_cur_value d1;
              Some (if old \<noteq> dt_null T then destroy_element True (Inr old) w1 else w1) }
            else Some w1);
     vs \<leftarrow> arr_put (t_values (dd_tab0 d1)) (dd_cursor d1) value;
     Some (Done (d1\<lparr>dd_tab0 := (dd_tab0 d1)\<lparr>t_values := vs\<rparr>\<rparr>, w2)) })"

text \<open>
  The loop of \<open>dict_delete\<close> that shifts entries back into the hole \<open>prev\<close>. It stops at an
  empty bucket, at the latest at the hole itself after one round, so its fuel is one more than the capacity.
\<close>

fun dict_shift_loop :: "('k, 'v) dict_types \<Rightarrow> nat \<Rightarrow> int \<Rightarrow> int \<Rightarrow> ('k, 'v) dict_table \<Rightarrow> ('k, 'v) dict_table option" where
  "dict_shift_loop T 0 prev cur t = None"
| "dict_shift_loop T (Suc n) prev cur t =
     (let cur = c_int (nat (cur + 1) AND dict_i_mask t) in do {
      k \<leftarrow> arr_get (t_keys t) cur;
      if k = dt_zero T then Some t
      else do {
        h \<leftarrow> (if t_hashes t \<noteq> NULL then arr_get (t_hashes t) cur else Some (dt_hash T k));
        let p = c_int (unat h AND dict_i_mask t) in
        if prev < cur \<and> p \<le> prev \<or> cur < p \<and> p \<le> prev
        then do {
          t1 \<leftarrow> dict_move_entry t cur t prev;
          ks \<leftarrow> arr_put (t_keys t1) cur (dt_zero T);
          dict_shift_loop T n cur cur (t1\<lparr>t_keys := ks\<rparr>) }
        else dict_shift_loop T n prev cur t } })"

definition dict_delete_typed ::
    "('k, 'v) dict_types \<Rightarrow> ('k, 'v) dict_typed \<Rightarrow> 'k \<Rightarrow> ('k, 'v) dict_world
     \<Rightarrow> (('k, 'v) dict_typed \<times> ('k, 'v) dict_world) option" where
  "dict_delete_typed T d key w = do {
     d1 \<leftarrow> dict_find_typed T d key;
     found \<leftarrow> dict_found_typed T d1;
     if \<not> found then Some (d1, w)
     else let c = dd_cursor d1; t = dd_tab0 d1 in do {
       k \<leftarrow> dict_cur_key d1;
       let w1 = destroy_element (dd_key_free d1) (Inl k) w in do {
       ks \<leftarrow> arr_put (t_keys t) c (dt_zero T);
       (vs, w2) \<leftarrow> (if dd_value_free d1 then do {
            v \<leftarrow> dict_cur_value d1;
            vs \<leftarrow> arr_put (t_values t) c (dt_null T);
            Some (vs, destroy_element True (Inr v) w1) }
          else Some (t_values t, w1));
       let t1 = t\<lparr>t_keys := ks, t_values := vs\<rparr>; n = sz_sub (dd_size d1) 1 in
       if c = - 1 then Some (d1\<lparr>dd_size := n, dd_zero_occupied := False, dd_tab0 := t1\<rparr>, w2)
       else do {
         t2 \<leftarrow> dict_shift_loop T (Suc (dict_i_cap t1)) c c t1;
         Some (d1\<lparr>dd_size := n, dd_tab0 := t2\<rparr>, w2) } } } }"

end
