(* ===== verification/Dict_Table.thy ===== *)
theory Dict_Table
  imports Dict_Typed Probe
begin

text \<open>
  The arrays of \<open>src/legacy/dict_typed.h\<close> as tables of slots: what the buckets of a table mean
  (\<open>dview\<close>), and the contracts of the probe loop, of moving an entry and of the expansion, over
  the theory of linear probing in \<open>Probe\<close>.
\<close>

unbundle bit_operations_syntax

section \<open>Well-formed arrays\<close>

fun array_cells :: "'e list ptr \<Rightarrow> 'e list" where
  "array_cells NULL = []"
| "array_cells (Ptr xs) = xs"

lemma arr_get_int [simp]: "Suc i < length (array_cells a) \<Longrightarrow> arr_get a (int i) = Some (array_cells a ! Suc i)"
  and arr_get_first [simp]: "0 < length (array_cells a) \<Longrightarrow> arr_get a (- 1) = Some (array_cells a ! 0)"
  by (cases a; simp add: arr_get_def nat_add_distrib)+

lemma arr_put_int [simp]: "Suc i < length (array_cells a) \<Longrightarrow> arr_put a (int i) x = Some (Ptr ((array_cells a)[Suc i := x]))"
  and arr_put_first [simp]: "0 < length (array_cells a) \<Longrightarrow> arr_put a (- 1) x = Some (Ptr ((array_cells a)[0 := x]))"
  by (cases a; simp add: arr_put_def nat_add_distrib)+

text \<open>What the macros assume of the element types.\<close>

definition types_ok :: "('k, 'v) dict_types \<Rightarrow> ('k \<Rightarrow> 'k \<Rightarrow> int) \<Rightarrow> bool" where
  "types_ok T cmp \<longleftrightarrow> (\<forall>a b. a \<noteq> dt_zero T \<longrightarrow> b \<noteq> dt_zero T \<longrightarrow> (cmp a b = 0 \<longleftrightarrow> a = b))"

text \<open>
  A table of capacity \<open>cap\<close>: a power of two that an \<open>int\<close> can index, the arrays with one more
  entry in front, cached hashes exactly for the key types that use them.
\<close>

definition shaped :: "('k, 'v) dict_types \<Rightarrow> nat \<Rightarrow> ('k, 'v) dict_table \<Rightarrow> bool" where
  "shaped T cap t \<longleftrightarrow> (\<exists>e. t_exp t = int e \<and> e \<le> 30 \<and> cap = 2 ^ e) \<and> length (array_cells (t_keys t)) = Suc cap
     \<and> array_cells (t_keys t) ! 0 = dt_zero T \<and> (t_values t = NULL \<or> length (array_cells (t_values t)) = Suc cap)
     \<and> (t_hashes t = NULL \<longleftrightarrow> \<not> dt_hashed T)
     \<and> (t_hashes t \<noteq> NULL \<longrightarrow> length (array_cells (t_hashes t)) = Suc cap
          \<and> (\<forall>i < cap. array_cells (t_keys t) ! Suc i \<noteq> dt_zero T \<longrightarrow>
               array_cells (t_hashes t) ! Suc i = dt_hash T (array_cells (t_keys t) ! Suc i)))"

lemma shapedD:
  assumes "shaped T cap t"
  shows "dict_i_cap t = cap" "0 < cap" "cap \<le> 1073741824" "length (array_cells (t_keys t)) = Suc cap"
    "array_cells (t_keys t) ! 0 = dt_zero T" "t_values t = NULL \<or> length (array_cells (t_values t)) = Suc cap"
    "t_hashes t = NULL \<longleftrightarrow> \<not> dt_hashed T"
    "t_hashes t \<noteq> NULL \<Longrightarrow> length (array_cells (t_hashes t)) = Suc cap"
    "t_hashes t \<noteq> NULL \<Longrightarrow> i < cap \<Longrightarrow> array_cells (t_keys t) ! Suc i \<noteq> dt_zero T \<Longrightarrow>
      array_cells (t_hashes t) ! Suc i = dt_hash T (array_cells (t_keys t) ! Suc i)"
    "t_keys t \<noteq> NULL"
proof -
  obtain e where e: "t_exp t = int e" "e \<le> 30" "cap = 2 ^ e" using assms by (auto simp: shaped_def)
  show "dict_i_cap t = cap" "0 < cap" using e by (simp_all add: dict_i_cap_def exp_cap_def)
  have "(2 :: nat) ^ e \<le> 2 ^ 30" using e(2) by (intro power_increasing) simp_all
  then show "cap \<le> 1073741824" using e(3) by simp
  show "length (array_cells (t_keys t)) = Suc cap" using assms by (simp add: shaped_def)
  then show "t_keys t \<noteq> NULL" by (cases "t_keys t") simp_all
qed (use assms in \<open>auto simp: shaped_def\<close>)

lemma shaped_exp: "shaped T cap t \<Longrightarrow> 4 * n < 3 * cap \<or> t_exp t < 30 \<or> 805306368 \<le> n"
proof -
  assume "shaped T cap t"
  then obtain e where e: "t_exp t = int e" "e \<le> 30" "cap = 2 ^ e" by (auto simp: shaped_def)
  show ?thesis
  proof (cases "e = 30")
    case True
    then show ?thesis using e by auto
  next
    case False
    then show ?thesis using e by auto
  qed
qed

lemma c_int_small [simp]: "n < 2147483648 \<Longrightarrow> c_int n = int n"
  by (simp add: c_int_def)

text \<open>Masking is the remainder by the capacity.\<close>

lemma masked:
  assumes "shaped T cap t"
  shows "c_int (n AND dict_i_mask t) = int (n mod cap)"
proof -
  obtain e where e: "t_exp t = int e" "e \<le> 30" "cap = 2 ^ e" using assms by (auto simp: shaped_def)
  have "dict_i_mask t = mask e"
    using e shapedD(1-3) [OF assms] by (simp add: dict_i_mask_def mask_eq_exp_minus_1 SIZE_MAX_def)
  then have "n AND dict_i_mask t = n mod cap"
    using e(3) by (simp add: take_bit_eq_mask [symmetric] take_bit_eq_mod)
  moreover have "n mod cap < 2147483648"
    using shapedD(2,3) [OF assms] mod_less_divisor [of cap n] by linarith
  ultimately show ?thesis by simp
qed

section \<open>The slots of a table\<close>

definition value_at_bucket :: "('k, 'v) dict_types \<Rightarrow> ('k, 'v) dict_table \<Rightarrow> nat \<Rightarrow> 'v" where
  "value_at_bucket T t i = (case t_values t of NULL \<Rightarrow> dt_null T | Ptr vs \<Rightarrow> vs ! i)"

definition dview :: "('k, 'v) dict_types \<Rightarrow> ('k, 'v) dict_table \<Rightarrow> ('k, 'v) slot list" where
  "dview T t = map (\<lambda>i. if array_cells (t_keys t) ! Suc i = dt_zero T then Free
     else Full (array_cells (t_keys t) ! Suc i) (value_at_bucket T t (Suc i))) [0 ..< dict_i_cap t]"

definition dhash :: "('k, 'v) dict_types \<Rightarrow> 'k \<Rightarrow> nat" where
  "dhash T k = unat (dt_hash T k)"

lemma dview_length: "shaped T cap t \<Longrightarrow> length (dview T t) = cap"
  using shapedD(1) by (simp add: dview_def)

lemma dview_nth:
  assumes "shaped T cap t" and "i < cap"
  shows "dview T t ! i = (if array_cells (t_keys t) ! Suc i = dt_zero T then Free
     else Full (array_cells (t_keys t) ! Suc i) (value_at_bucket T t (Suc i)))"
    "arr_get (t_keys t) (int i) = Some (array_cells (t_keys t) ! Suc i)"
    "t_hashes t \<noteq> NULL \<Longrightarrow> arr_get (t_hashes t) (int i) = Some (array_cells (t_hashes t) ! Suc i)"
    "t_values t \<noteq> NULL \<Longrightarrow> arr_get (t_values t) (int i) = Some (value_at_bucket T t (Suc i))"
  using assms(2) shapedD [OF assms(1)]
  by (auto simp: dview_def value_at_bucket_def split: ptr.split)

lemma dview_no_dead: "Dead \<notin> set (dview T t)" and dead_dview [simp]: "dead (dview T t) = 0"
  by (auto simp: dview_def dead_def filter_empty_conv)

lemma dview_key_nonzero: "Full k v \<in> set (dview T t) \<Longrightarrow> k \<noteq> dt_zero T"
  by (auto simp: dview_def split: if_splits)

lemma dview_content_zero [simp]: "content (dview T t) (dt_zero T) = None"
  using dview_key_nonzero [of "dt_zero T" _ T] by (auto simp: content_None_iff)

section \<open>The probe loop\<close>

lemma dict_find_loop_ok:
  assumes t: "shaped T cap t" and cmp: "types_ok T cmp" and key: "key \<noteq> dt_zero T"
    and st: "stops (dview T t) key (dhash T key) d" and "c \<le> d" and "d - c < n"
  shows "dict_find_loop T cmp t key (dt_hash T key) n (int (step_slot (dview T t) (dhash T key) c))
    = Some (int (step_slot (dview T t) (dhash T key) d))"
  using assms(5,6)
proof (induction n arbitrary: c)
  case (Suc n)
  let ?s = "step_slot (dview T t) (dhash T key)"
  note len = dview_length [OF t] note D = shapedD [OF t]
  have s: "?s c < cap" using step_slot_less [of "dview T t"] len D(2) by simp
  define k where "k = array_cells (t_keys t) ! Suc (?s c)"
  note V = dview_nth [OF t s]
  have get: "arr_get (t_keys t) (int (?s c)) = Some k" unfolding k_def by (rule V(2))
  have stop: "(if t_hashes t = NULL then Some (cmp k key = 0)
      else do { g \<leftarrow> arr_get (t_hashes t) (int (?s c)); Some (g = dt_hash T key \<and> cmp k key = 0) })
     = Some (k = key)" if "k \<noteq> dt_zero T"
  proof -
    have "cmp k key = 0 \<longleftrightarrow> k = key" using cmp that key by (simp add: types_ok_def)
    moreover have "array_cells (t_hashes t) ! Suc (?s c) = dt_hash T k" if "t_hashes t \<noteq> NULL"
      using D(9) [OF that s] \<open>k \<noteq> dt_zero T\<close> by (simp add: k_def)
    ultimately show ?thesis using V(3) by auto
  qed
  have ends: "ends key (dview T t ! ?s c) \<longleftrightarrow> k = dt_zero T \<or> k = key"
    using V(1) key unfolding k_def ends_def by auto
  have unf: "dict_find_loop T cmp t key (dt_hash T key) (Suc n) (int (?s c)) =
      (if k = dt_zero T \<or> k = key then Some (int (?s c))
       else dict_find_loop T cmp t key (dt_hash T key) n (c_int (nat (int (?s c) + 1) AND dict_i_mask t)))"
  proof (cases "k = dt_zero T")
    case True
    then show ?thesis by (simp only: dict_find_loop.simps get Option.bind.simps if_True simp_thms)
  next
    case False
    show ?thesis by (simp only: dict_find_loop.simps get Option.bind.simps False stop [OF False] if_False simp_thms)
  qed
  show ?case
  proof (cases "c = d")
    case True
    have "ends key (dview T t ! ?s c)" using st True by (simp add: stops_def)
    then show ?thesis using ends True unfolding unf by simp
  next
    case False
    then have "c < d" using Suc.prems(1) by simp
    then have k: "k \<noteq> dt_zero T" "k \<noteq> key" using st ends by (auto simp: stops_def)
    have "nat (int (?s c) + 1) = ?s c + 1" by simp
    then have "c_int (nat (int (?s c) + 1) AND dict_i_mask t) = int ((?s c + 1) mod cap)"
      using masked [OF t] by simp
    also have "\<dots> = int (?s (Suc c))" using step_slot_next [of "dview T t"] len D(2) by simp
    finally show ?thesis
      using k Suc.IH [of "Suc c"] \<open>c < d\<close> Suc.prems(2) unfolding unf by simp
  qed
qed simp

lemma dict_probe_ok:
  assumes t: "shaped T cap t" and cmp: "types_ok T cmp" and key: "key \<noteq> dt_zero T"
    and ok: "table_ok (dhash T) (dview T t)" and room: "Free \<in> set (dview T t)"
  shows "\<exists>i < cap. dict_probe T cmp t key (dt_hash T key) = Some (int i) \<and> reach (dview T t) (dhash T key) i
    \<and> dview T t ! i = (case content (dview T t) key of None \<Rightarrow> Free | Some v \<Rightarrow> Full key v)"
proof -
  let ?ts = "dview T t"
  note len = dview_length [OF t] note D = shapedD [OF t]
  obtain d where d: "stops ?ts key (dhash T key) d" using stops_exists [OF room] by blast
  have "d < cap" using d len by (simp add: stops_def)
  then have "dict_find_loop T cmp t key (dt_hash T key) (Suc cap) (int (step_slot ?ts (dhash T key) 0))
      = Some (int (step_slot ?ts (dhash T key) d))"
    by (intro dict_find_loop_ok [OF t cmp key d]) simp_all
  moreover have "c_int (unat (dt_hash T key) AND dict_i_mask t) = int (step_slot ?ts (dhash T key) 0)"
    using masked [OF t] len by (simp add: step_slot_0 dhash_def)
  ultimately have "dict_probe T cmp t key (dt_hash T key) = Some (int (step_slot ?ts (dhash T key) d))"
    using key D(1) by (simp add: dict_probe_def)
  moreover have "step_slot ?ts (dhash T key) d < cap" using step_slot_less [of ?ts] len D(2) by simp
  moreover have "?ts ! step_slot ?ts (dhash T key) d
      = (case content ?ts key of None \<Rightarrow> Free | Some v \<Rightarrow> Full key v)"
    using stops_stored [OF ok d] stops_missing [OF d] by (auto split: option.split)
  ultimately show ?thesis using stops_reach [OF d order_refl] by blast
qed

lemma dict_probe_zero: "dict_probe T cmp t (dt_zero T) h = Some (- 1)"
  by (simp add: dict_probe_def)

section \<open>Writing a bucket\<close>

text \<open>A bucket that gets a key, its hash and its value.\<close>

lemma dview_write:
  assumes t: "shaped T cap t" and i: "i < cap" and k: "k \<noteq> dt_zero T"
    and t': "t_exp t' = t_exp t" "t_keys t' = Ptr ((array_cells (t_keys t))[Suc i := k])"
    "t_hashes t' = (if t_hashes t = NULL then NULL else Ptr ((array_cells (t_hashes t))[Suc i := dt_hash T k]))"
    "t_values t' = (if t_values t = NULL then NULL else Ptr ((array_cells (t_values t))[Suc i := v]))"
  shows "shaped T cap t'" "dview T t' = (dview T t)[i := Full k (if t_values t = NULL then dt_null T else v)]"
proof -
  note D = shapedD [OF t]
  show s: "shaped T cap t'"
    using t i k by (auto simp: shaped_def t' nth_list_update)
  show "dview T t' = (dview T t)[i := Full k (if t_values t = NULL then dt_null T else v)]"
  proof (rule nth_equalityI)
    show "length (dview T t') = length ((dview T t)[i := Full k (if t_values t = NULL then dt_null T else v)])"
      using dview_length [OF s] dview_length [OF t] by simp
    fix j assume "j < length (dview T t')"
    then have j: "j < cap" using dview_length [OF s] by simp
    have "value_at_bucket T t' (Suc j) = (if j = i then (if t_values t = NULL then dt_null T else v)
        else value_at_bucket T t (Suc j))"
      using i j D(6) by (auto simp: value_at_bucket_def t' nth_list_update split: ptr.split)
    then show "dview T t' ! j = (dview T t)[i := Full k (if t_values t = NULL then dt_null T else v)] ! j"
      using dview_nth(1) [OF s j] dview_nth(1) [OF t j] dview_length [OF t] i j k D(4)
      by (simp add: t' nth_list_update)
  qed
qed

lemma value_at_bucket_cells: "t_values t \<noteq> NULL \<Longrightarrow> value_at_bucket T t i = array_cells (t_values t) ! i"
  by (cases "t_values t") (simp_all add: value_at_bucket_def)

lemma dict_move_entry_ok:
  assumes t0: "shaped T cap0 t0" and t: "shaped T cap t" and i: "i < cap0" "dview T t0 ! i = Full k v"
    and c: "c < cap" and vals: "t_values t = NULL \<longleftrightarrow> t_values t0 = NULL"
  shows "\<exists>t'. dict_move_entry t0 (int i) t (int c) = Some t' \<and> shaped T cap t' \<and> t_exp t' = t_exp t
    \<and> dview T t' = (dview T t)[c := Full k v] \<and> (t_values t' = NULL \<longleftrightarrow> t_values t = NULL)
    \<and> array_cells (t_keys t') = (array_cells (t_keys t))[Suc c := k]
    \<and> (\<forall>j. j \<noteq> Suc c \<longrightarrow> value_at_bucket T t' j = value_at_bucket T t j)"
proof -
  note D0 = shapedD [OF t0] note D = shapedD [OF t] note V = dview_nth [OF t0 i(1)]
  have k: "array_cells (t_keys t0) ! Suc i = k" "k \<noteq> dt_zero T" "value_at_bucket T t0 (Suc i) = v"
    using V(1) i(2) by (auto split: if_splits)
  have hash: "array_cells (t_hashes t0) ! Suc i = dt_hash T k" if "t_hashes t0 \<noteq> NULL"
    using D0(9) [OF that i(1)] k by simp
  have hn: "t_hashes t = NULL \<longleftrightarrow> t_hashes t0 = NULL" using D(7) D0(7) by simp
  define t' where "t' = t\<lparr>t_keys := Ptr ((array_cells (t_keys t))[Suc c := k]),
     t_values := (if t_values t = NULL then NULL else Ptr ((array_cells (t_values t))[Suc c := v])),
     t_hashes := (if t_hashes t = NULL then NULL else Ptr ((array_cells (t_hashes t))[Suc c := dt_hash T k]))\<rparr>"
  have "arr_put_if (t_values t) (int c) (arr_get (t_values t0) (int i)) = Some (t_values t')"
  proof (cases "t_values t = NULL")
    case False
    then have "length (array_cells (t_values t)) = Suc cap" "t_values t0 \<noteq> NULL" using D(6) vals by simp_all
    then show ?thesis using V(4) c k(3) False by (simp add: arr_put_if_def t'_def)
  qed (simp add: arr_put_if_def t'_def)
  moreover have "arr_put_if (t_hashes t) (int c) (arr_get (t_hashes t0) (int i)) = Some (t_hashes t')"
  proof (cases "t_hashes t = NULL")
    case False
    then have "length (array_cells (t_hashes t)) = Suc cap" "t_hashes t0 \<noteq> NULL" using D(8) hn by simp_all
    then show ?thesis using V(3) c hash False by (simp add: arr_put_if_def t'_def)
  qed (simp add: arr_put_if_def t'_def)
  ultimately have "dict_move_entry t0 (int i) t (int c) = Some t'"
    using V(2) D(4) c k(1) by (simp add: dict_move_entry_def t'_def)
  moreover have "shaped T cap t'"
    "dview T t' = (dview T t)[c := Full k (if t_values t = NULL then dt_null T else v)]"
    using dview_write [OF t c k(2), of t' v] by (simp_all add: t'_def)
  moreover have "(if t_values t = NULL then dt_null T else v) = v"
    using k(3) vals by (auto simp: value_at_bucket_def)
  moreover have "value_at_bucket T t' j = value_at_bucket T t j" if "j \<noteq> Suc c" for j
    using that by (cases "t_values t") (auto simp: t'_def value_at_bucket_def)
  ultimately show ?thesis by (intro exI [of _ t']) (simp add: t'_def)
qed

end
