(* ===== verification/Dict_Expand.thy ===== *)
theory Dict_Expand
  imports Dict_Table
begin

text \<open>
  The dictionary of \<open>src/legacy/dict_typed.h\<close> as a finite map (\<open>dict_rel\<close>), and the contract
  of its expansion: the successor table represents the same map and has room for one more entry.
\<close>

section \<open>The represented map\<close>

definition dict_rel :: "('k, 'v) dict_types \<Rightarrow> ('k, 'v) dict_typed \<Rightarrow> ('k \<rightharpoonup> 'v) \<Rightarrow> bool" where
  "dict_rel T d M \<longleftrightarrow> types_ok T (dd_key_cmp d) \<and>
     (if t_exp (dd_tab0 d) = - 1
      then dd_tab0 d = no_table (- 1) \<and> dd_size d = 0 \<and> \<not> dd_zero_occupied d \<and> M = Map.empty
      else \<exists>cap. shaped T cap (dd_tab0 d) \<and> table_ok (dhash T) (dview T (dd_tab0 d))
        \<and> (t_values (dd_tab0 d) = NULL \<longleftrightarrow> dd_type d = DICT_HASH_SET)
        \<and> dd_size d = length (entries (dview T (dd_tab0 d))) + of_bool (dd_zero_occupied d)
        \<and> 4 * dd_size d < 3 * cap
        \<and> M = (content (dview T (dd_tab0 d)))
            (dt_zero T := (if dd_zero_occupied d then Some (value_at_bucket T (dd_tab0 d) 0) else None)))"

text \<open>The buckets without a key hold no value either.\<close>

definition tclean :: "('k, 'v) dict_types \<Rightarrow> bool \<Rightarrow> ('k, 'v) dict_table \<Rightarrow> bool" where
  "tclean T z t \<longleftrightarrow> (\<forall>i < dict_i_cap t. array_cells (t_keys t) ! Suc i = dt_zero T \<longrightarrow> value_at_bucket T t (Suc i) = dt_null T)
     \<and> (z \<or> value_at_bucket T t 0 = dt_null T)"

abbreviation dict_clean :: "('k, 'v) dict_types \<Rightarrow> ('k, 'v) dict_typed \<Rightarrow> bool" where
  "dict_clean T d \<equiv> tclean T (dd_zero_occupied d) (dd_tab0 d)"

definition table_own :: "('k, 'v) dict_table \<Rightarrow> int" where
  "table_own t = blocks (t_keys t) + blocks (t_values t) + blocks (t_hashes t)"

definition dict_conf :: "('k, 'v) dict_typed \<Rightarrow> dict_t \<times> ('k \<Rightarrow> 'k \<Rightarrow> int) \<times> bool \<times> bool" where
  "dict_conf d = (dd_type d, dd_key_cmp d, dd_key_free d, dd_value_free d)"

lemma dict_conf_eq [simp]: "dict_conf d' = dict_conf d \<longleftrightarrow> dd_type d' = dd_type d \<and> dd_key_cmp d' = dd_key_cmp d
    \<and> dd_key_free d' = dd_key_free d \<and> dd_value_free d' = dd_value_free d"
  by (auto simp: dict_conf_def)

lemma no_table_simps [simp]:
  "t_exp (no_table e) = e" "t_keys (no_table e) = NULL" "t_values (no_table e) = NULL" "t_hashes (no_table e) = NULL"
  by (simp_all add: no_table_def)

text \<open>The types are narrow enough for every table that an \<open>int\<close> can index.\<close>

definition dict_room :: "('k, 'v) dict_types \<Rightarrow> bool" where
  "dict_room T \<longleftrightarrow> 1073741825 * dt_key_bytes T \<le> PTRDIFF_MAX \<and> 1073741825 * dt_val_bytes T \<le> PTRDIFF_MAX"

section \<open>The new arrays\<close>

lemma shaped_fresh:
  assumes "e \<le> 30" and "cap = 2 ^ e"
    and t: "t = \<lparr>t_exp = int e, t_keys = Ptr (replicate (Suc cap) (dt_zero T)),
      t_values = (if m then Ptr (replicate (Suc cap) (dt_null T)) else NULL),
      t_hashes = (if dt_hashed T then Ptr (replicate (Suc cap) 0) else NULL)\<rparr>"
  shows "shaped T cap t" "dview T t = replicate cap Free" "value_at_bucket T t 0 = dt_null T"
    "i < cap \<Longrightarrow> value_at_bucket T t (Suc i) = dt_null T" "t_values t = NULL \<longleftrightarrow> \<not> m"
    "table_own t = 1 + of_bool m + of_bool (dt_hashed T)"
proof -
  show s: "shaped T cap t" using assms(1,2) by (auto simp: shaped_def t nth_Cons')
  have "dict_i_cap t = cap" by (rule shapedD(1) [OF s])
  then show "dview T t = replicate cap Free"
    by (intro nth_equalityI) (simp_all add: dview_def t)
  show "value_at_bucket T t 0 = dt_null T" "i < cap \<Longrightarrow> value_at_bucket T t (Suc i) = dt_null T"
    "t_values t = NULL \<longleftrightarrow> \<not> m"
    by (simp_all add: value_at_bucket_def t)
  show "table_own t = 1 + of_bool m + of_bool (dt_hashed T)" by (simp add: table_own_def t)
qed

lemma malloc_if_effect:
  assumes "(if c then malloc n w else (True, w)) = (ok, w')"
  shows "destroyed w' = destroyed w" "live w' = live w + (if c \<and> ok then 1 else 0)" "no_fail w \<Longrightarrow> no_fail w'"
    "no_fail w \<Longrightarrow> n \<le> PTRDIFF_MAX \<Longrightarrow> ok"
proof -
  have "destroyed w' = destroyed w \<and> live w' = live w + (if c \<and> ok then 1 else 0) \<and> (no_fail w \<longrightarrow> no_fail w')
    \<and> (no_fail w \<longrightarrow> n \<le> PTRDIFF_MAX \<longrightarrow> ok)"
  proof (cases c)
    case True
    then have m: "malloc n w = (ok, w')" using assms by simp
    show ?thesis using True malloc_effect [OF m] by simp
  qed (use assms in auto)
  then show "destroyed w' = destroyed w" "live w' = live w + (if c \<and> ok then 1 else 0)" "no_fail w \<Longrightarrow> no_fail w'"
    "no_fail w \<Longrightarrow> n \<le> PTRDIFF_MAX \<Longrightarrow> ok"
    by simp_all
qed

lemma dict_alloc_typed_ok:
  assumes e: "e = (if t_exp (dd_tab0 d) \<le> 0 then 3 else t_exp (dd_tab0 d) + 1)" "e \<le> 30"
  shows "case dict_alloc_typed T d w of
      Exit \<Rightarrow> \<not> (no_fail w \<and> dict_room T)
    | Done (t, w') \<Rightarrow> shaped T (2 ^ nat e) t \<and> t_exp t = e \<and> dview T t = replicate (2 ^ nat e) Free
        \<and> tclean T False t \<and> (t_values t = NULL \<longleftrightarrow> dd_type d = DICT_HASH_SET)
        \<and> live w' = live w + table_own t \<and> destroyed w' = destroyed w \<and> (no_fail w \<longrightarrow> no_fail w')"
proof -
  let ?m = "dd_type d = DICT_HASH_MAP"
  let ?cap = "2 ^ nat e :: nat"
  have e0: "0 \<le> e" "int (nat e) = e" "nat e \<le> 30" using e by (auto split: if_splits)
  have cap: "exp_cap e = ?cap" using e0(1) by (simp add: exp_cap_def)
  have big: "?cap \<le> 1073741824"
    using power_increasing [of "nat e" 30 "2 :: nat"] e0(3) by simp
  have fits: "Suc ?cap * b \<le> PTRDIFF_MAX" if "1073741825 * b \<le> PTRDIFF_MAX" for b
  proof -
    have "Suc ?cap * b \<le> 1073741825 * b" using big by (intro mult_le_mono1) simp
    with that show ?thesis by linarith
  qed
  define t where "t = \<lparr>t_exp = e, t_keys = Ptr (replicate (Suc ?cap) (dt_zero T)),
      t_values = (if ?m then Ptr (replicate (Suc ?cap) (dt_null T)) else NULL),
      t_hashes = (if dt_hashed T then Ptr (replicate (Suc ?cap) 0) else NULL)\<rparr>"
  have "t = \<lparr>t_exp = int (nat e), t_keys = Ptr (replicate (Suc ?cap) (dt_zero T)),
      t_values = (if ?m then Ptr (replicate (Suc ?cap) (dt_null T)) else NULL),
      t_hashes = (if dt_hashed T then Ptr (replicate (Suc ?cap) 0) else NULL)\<rparr>"
    by (simp only: t_def e0(2))
  note F = shaped_fresh [OF e0(3) refl this]
  obtain ok1 w1 where 1: "malloc (Suc ?cap * dt_key_bytes T) w = (ok1, w1)" by fastforce
  obtain ok2 w2 where 2: "(if ?m then malloc (Suc ?cap * dt_val_bytes T) w1 else (True, w1)) = (ok2, w2)" by fastforce
  obtain ok3 w3 where 3: "(if dt_hashed T then malloc (Suc ?cap * 4) w2 else (True, w2)) = (ok3, w3)" by fastforce
  note M1 = malloc_effect [OF 1]
  note M2 = malloc_if_effect [OF 2] and M3 = malloc_if_effect [OF 3]
  have four: "Suc ?cap * 4 \<le> PTRDIFF_MAX" by (rule fits) (simp add: PTRDIFF_MAX_def)
  have r: "dict_alloc_typed T d w =
      (if ok1 \<and> ok2 \<and> ok3 then Done (t, w3) else Exit)"
    unfolding dict_alloc_typed_def t_def DICT_INIT_EXP_def calloc_def e(1) [symmetric] Let_def cap plus_1_eq_Suc
      1 prod.case 2 3
    by simp
  have type: "dd_type d = DICT_HASH_SET \<longleftrightarrow> \<not> ?m" by (cases "dd_type d") simp_all
  show ?thesis
  proof (cases "ok1 \<and> ok2 \<and> ok3")
    case True
    have "live w3 = live w + table_own t" using True M1(3) M2(2) M3(2) F(6) by simp
    moreover have "tclean T False t"
      using F(3,4) shapedD(1) [OF F(1)] by (simp add: tclean_def)
    ultimately show ?thesis
      using r True F(1,2,5) M1 M2 M3 type by (simp add: t_def [THEN arg_cong, of t_exp, simplified])
  next
    case False
    have "\<not> (no_fail w \<and> dict_room T)"
    proof
      assume a: "no_fail w \<and> dict_room T"
      then have "ok1" using M1(6) fits [of "dt_key_bytes T"] by (simp add: dict_room_def)
      moreover have "ok2" using a M1(5) M2(4) fits [of "dt_val_bytes T"] by (simp add: dict_room_def)
      moreover have "ok3" using a M1(5) M2(3) M3(4) four by simp
      ultimately show False using False by simp
    qed
    then show ?thesis using r False by simp
  qed
qed

section \<open>Moving all entries\<close>

lemma tclean_write:
  assumes "shaped T cap t" and "tclean T z t" and "shaped T cap t'" and "c < cap"
    and "array_cells (t_keys t') = (array_cells (t_keys t))[Suc c := k]" and "k \<noteq> dt_zero T"
    and "\<forall>j. j \<noteq> Suc c \<longrightarrow> value_at_bucket T t' j = value_at_bucket T t j"
  shows "tclean T z t'"
proof -
  have "value_at_bucket T t' (Suc i) = dt_null T"
    if "i < cap" "array_cells (t_keys t') ! Suc i = dt_zero T" for i
    using that assms shapedD(1) [OF assms(1)] shapedD(4) [OF assms(1)]
    by (cases "i = c") (auto simp: tclean_def nth_list_update)
  then show ?thesis
    using assms(2,7) shapedD(1) [OF assms(3)] by (auto simp: tclean_def)
qed

lemma dict_expand_loop_ok:
  assumes t0: "shaped T cap0 t0" and cmp: "types_ok T cmp" and ok0: "table_ok (dhash T) (dview T t0)"
    and room: "length (entries (dview T t0)) < cap"
    and "i \<le> cap0" and "shaped T cap t" and "table_ok (dhash T) (dview T t)"
    and "content (dview T t) = map_of (entries (take i (dview T t0)))"
    and "length (entries (dview T t)) = length (entries (take i (dview T t0)))"
    and "t_values t = NULL \<longleftrightarrow> t_values t0 = NULL" and "tclean T z t"
  shows "\<exists>t' c'. dict_expand_loop T cmp t0 [int i .. int cap0 - 1] (t, c) = Some (t', c')
    \<and> shaped T cap t' \<and> t_exp t' = t_exp t \<and> table_ok (dhash T) (dview T t')
    \<and> content (dview T t') = content (dview T t0) \<and> length (entries (dview T t')) = length (entries (dview T t0))
    \<and> (t_values t' = NULL \<longleftrightarrow> t_values t0 = NULL) \<and> tclean T z t'
    \<and> value_at_bucket T t' 0 = value_at_bucket T t 0"
  using assms(5-)
proof (induction "cap0 - i" arbitrary: i t c)
  case 0
  then have "i = cap0" by simp
  then show ?case
    using 0 dview_length [OF t0] by (intro exI [of _ t] exI [of _ c]) (simp add: content_def)
next
  case (Suc n)
  let ?us = "dview T t0" and ?ts = "dview T t"
  have i: "i < cap0" using Suc.hyps(2) by simp
  note len0 = dview_length [OF t0] and len = dview_length [OF Suc.prems(2)]
  have upto: "[int i .. int cap0 - 1] = int i # [int (Suc i) .. int cap0 - 1]"
    using i by (subst upto_rec1) (simp_all add: add.commute)
  note V = dview_nth [OF t0 i]
  have take: "take (Suc i) ?us = take i ?us @ [?us ! i]" using i len0 by (simp add: take_Suc_conv_app_nth)
  define k where "k = array_cells (t_keys t0) ! Suc i"
  show ?case
  proof (cases "k = dt_zero T")
    case True
    then have "?us ! i = Free" using V(1) by (simp add: k_def)
    then have "entries (take (Suc i) ?us) = entries (take i ?us)" using take by simp
    with Suc.hyps(1) [of "Suc i" t c] Suc.hyps(2) Suc.prems i
    have "\<exists>t' c'. dict_expand_loop T cmp t0 [int (Suc i) .. int cap0 - 1] (t, c) = Some (t', c')
      \<and> shaped T cap t' \<and> t_exp t' = t_exp t \<and> table_ok (dhash T) (dview T t')
      \<and> content (dview T t') = content (dview T t0) \<and> length (entries (dview T t')) = length (entries (dview T t0))
      \<and> (t_values t' = NULL \<longleftrightarrow> t_values t0 = NULL) \<and> tclean T z t'
      \<and> value_at_bucket T t' 0 = value_at_bucket T t 0"
      by simp
    then show ?thesis unfolding upto using V(2) True by (simp add: k_def)
  next
    case False
    define v where "v = value_at_bucket T t0 (Suc i)"
    have full: "?us ! i = Full k v" using V(1) False by (simp add: k_def v_def)
    then have e: "entries (take (Suc i) ?us) = entries (take i ?us) @ [(k, v)]" using take by simp
    have split: "entries ?us = entries (take i ?us) @ (k, v) # entries (drop (Suc i) ?us)"
      using entries_split(1) [of i ?us] i len0 full by simp
    have fresh: "k \<notin> fst ` set (entries (take i ?us))"
      using ok0 unfolding table_ok_def split by auto
    then have none: "content ?ts k = None" using Suc.prems(4) by (simp add: map_of_eq_None_iff)
    have "length (entries ?ts) + dead ?ts < length ?ts"
      using room Suc.prems(5) len split by simp
    then have "Free \<in> set ?ts" by (rule free_exists)
    from dict_probe_ok [OF Suc.prems(2) cmp False Suc.prems(3) this] none
    obtain c1 where c1: "c1 < cap" "dict_probe T cmp t k (dt_hash T k) = Some (int c1)"
      "reach ?ts (dhash T k) c1" "?ts ! c1 = Free" by auto
    obtain t1 where t1: "dict_move_entry t0 (int i) t (int c1) = Some t1" "shaped T cap t1" "t_exp t1 = t_exp t"
      "dview T t1 = ?ts[c1 := Full k v]" "t_values t1 = NULL \<longleftrightarrow> t_values t = NULL"
      "array_cells (t_keys t1) = (array_cells (t_keys t))[Suc c1 := k]"
      "\<forall>j. j \<noteq> Suc c1 \<longrightarrow> value_at_bucket T t1 j = value_at_bucket T t j"
      using dict_move_entry_ok [OF t0 Suc.prems(2) i full c1(1) Suc.prems(6)] by blast
    have ins: "table_ok (dhash T) (dview T t1)" "content (dview T t1) = (content ?ts)(k \<mapsto> v)"
      "length (entries (dview T t1)) = Suc (length (entries ?ts))"
      using table_insert [OF Suc.prems(3) none, of c1 v] c1 len unfolding t1(4) by simp_all
    have "map_of (entries (take i ?us) @ [(k, v)]) = (map_of (entries (take i ?us)))(k \<mapsto> v)"
    proof -
      have "map_of (entries (take i ?us)) k = None" using fresh by (simp add: map_of_eq_None_iff)
      then show ?thesis by (auto simp: map_add_def fun_eq_iff split: option.split)
    qed
    then have con: "content (dview T t1) = map_of (entries (take (Suc i) ?us))"
      using ins(2) Suc.prems(4) e by simp
    have clean: "tclean T z t1" by (rule tclean_write [OF Suc.prems(2,7) t1(2) c1(1) t1(6) False t1(7)])
    have hash: "(if t_hashes t0 \<noteq> NULL then arr_get (t_hashes t0) (int i) else Some (dt_hash T k)) = Some (dt_hash T k)"
      using V(3) shapedD(9) [OF t0 _ i] False by (simp add: k_def)
    have step: "dict_expand_loop T cmp t0 [int i .. int cap0 - 1] (t, c)
        = dict_expand_loop T cmp t0 [int (Suc i) .. int cap0 - 1] (t1, int c1)"
      unfolding upto dict_expand_loop.simps V(2) Option.bind.simps k_def [symmetric] hash
      using False c1(2) t1(1) by simp
    have "\<exists>t' c'. dict_expand_loop T cmp t0 [int (Suc i) .. int cap0 - 1] (t1, int c1) = Some (t', c')
      \<and> shaped T cap t' \<and> t_exp t' = t_exp t1 \<and> table_ok (dhash T) (dview T t')
      \<and> content (dview T t') = content (dview T t0) \<and> length (entries (dview T t')) = length (entries (dview T t0))
      \<and> (t_values t' = NULL \<longleftrightarrow> t_values t0 = NULL) \<and> tclean T z t'
      \<and> value_at_bucket T t' 0 = value_at_bucket T t1 0"
    proof (rule Suc.hyps(1))
      show "n = cap0 - Suc i" "Suc i \<le> cap0" using Suc.hyps(2) by simp_all
      show "length (entries (dview T t1)) = length (entries (take (Suc i) ?us))" using ins(3) Suc.prems(5) e by simp
      show "t_values t1 = NULL \<longleftrightarrow> t_values t0 = NULL" using t1(5) Suc.prems(6) by simp
    qed (use t1(2) ins(1) con clean in simp_all)
    then show ?thesis unfolding step t1(3) using t1(7) by simp
  qed
qed

text \<open>The entry of the key 0.\<close>

lemma dview_first:
  assumes t: "shaped T cap t"
    and t': "t_exp t' = t_exp t" "t_keys t' = Ptr ((array_cells (t_keys t))[0 := dt_zero T])"
    "t_hashes t' = (if t_hashes t = NULL then NULL else Ptr ((array_cells (t_hashes t))[0 := h]))"
    "t_values t' = (if t_values t = NULL then NULL else Ptr ((array_cells (t_values t))[0 := v]))"
  shows "shaped T cap t'" "dview T t' = dview T t"
    "value_at_bucket T t' j = (if j = 0 \<and> t_values t \<noteq> NULL then v else value_at_bucket T t j)"
    "array_cells (t_keys t') = array_cells (t_keys t)"
proof -
  note D = shapedD [OF t]
  have keys: "(array_cells (t_keys t))[0 := dt_zero T] = array_cells (t_keys t)" using D(5) by (metis list_update_id)
  then show "array_cells (t_keys t') = array_cells (t_keys t)" using t'(2) by simp
  show s: "shaped T cap t'" using t by (auto simp: shaped_def t' keys)
  show val: "value_at_bucket T t' j = (if j = 0 \<and> t_values t \<noteq> NULL then v else value_at_bucket T t j)" for j
    using D(6) by (cases "t_values t") (auto simp: t' value_at_bucket_def)
  show "dview T t' = dview T t"
    using shapedD(1) [OF s] D(1) val by (simp add: dview_def t'(2) keys)
qed

lemma dict_move_zero_ok:
  assumes t0: "shaped T cap0 t0" and t: "shaped T cap t" and vals: "t_values t = NULL \<longleftrightarrow> t_values t0 = NULL"
  shows "\<exists>t'. dict_move_entry t0 (- 1) t (- 1) = Some t' \<and> shaped T cap t' \<and> t_exp t' = t_exp t
    \<and> dview T t' = dview T t \<and> (t_values t' = NULL \<longleftrightarrow> t_values t = NULL)
    \<and> value_at_bucket T t' 0 = value_at_bucket T t0 0 \<and> (tclean T False t \<longrightarrow> tclean T True t')"
proof -
  note D0 = shapedD [OF t0] note D = shapedD [OF t]
  have hn: "t_hashes t = NULL \<longleftrightarrow> t_hashes t0 = NULL" using D(7) D0(7) by simp
  define t' where "t' = t\<lparr>t_keys := Ptr ((array_cells (t_keys t))[0 := dt_zero T]),
     t_values := (if t_values t = NULL then NULL else Ptr ((array_cells (t_values t))[0 := array_cells (t_values t0) ! 0])),
     t_hashes := (if t_hashes t = NULL then NULL else Ptr ((array_cells (t_hashes t))[0 := array_cells (t_hashes t0) ! 0]))\<rparr>"
  have "arr_put_if (t_values t) (- 1) (arr_get (t_values t0) (- 1)) = Some (t_values t')"
  proof (cases "t_values t = NULL")
    case False
    then have "length (array_cells (t_values t)) = Suc cap" "length (array_cells (t_values t0)) = Suc cap0"
      using D(6) D0(6) vals by simp_all
    then show ?thesis using False by (simp add: arr_put_if_def t'_def)
  qed (simp add: arr_put_if_def t'_def)
  moreover have "arr_put_if (t_hashes t) (- 1) (arr_get (t_hashes t0) (- 1)) = Some (t_hashes t')"
  proof (cases "t_hashes t = NULL")
    case False
    then have "length (array_cells (t_hashes t)) = Suc cap" "length (array_cells (t_hashes t0)) = Suc cap0"
      using D(8) D0(8) hn by simp_all
    then show ?thesis using False by (simp add: arr_put_if_def t'_def)
  qed (simp add: arr_put_if_def t'_def)
  ultimately have "dict_move_entry t0 (- 1) t (- 1) = Some t'"
    using D(4) D0(4,5) by (simp add: dict_move_entry_def t'_def)
  moreover have t'_fields: "t_exp t' = t_exp t" "t_keys t' = Ptr ((array_cells (t_keys t))[0 := dt_zero T])"
    "t_hashes t' = (if t_hashes t = NULL then NULL else Ptr ((array_cells (t_hashes t))[0 := array_cells (t_hashes t0) ! 0]))"
    "t_values t' = (if t_values t = NULL then NULL else Ptr ((array_cells (t_values t))[0 := array_cells (t_values t0) ! 0]))"
    by (simp_all add: t'_def)
  note F = dview_first [OF t t'_fields]
  moreover have "value_at_bucket T t' 0 = value_at_bucket T t0 0"
    using F(3) [of 0] vals by (cases "t_values t0") (auto simp: value_at_bucket_def)
  moreover have "tclean T False t \<longrightarrow> tclean T True t'"
    using F(3,4) shapedD(1) [OF F(1)] D(1) by (simp add: tclean_def)
  moreover have "t_values t' = NULL \<longleftrightarrow> t_values t = NULL" using t'_fields(4) by simp
  ultimately have "dict_move_entry t0 (- 1) t (- 1) = Some t' \<and> shaped T cap t' \<and> t_exp t' = t_exp t
    \<and> dview T t' = dview T t \<and> (t_values t' = NULL \<longleftrightarrow> t_values t = NULL)
    \<and> value_at_bucket T t' 0 = value_at_bucket T t0 0 \<and> (tclean T False t \<longrightarrow> tclean T True t')"
    using t'_fields(1) by simp
  then show ?thesis by blast
qed

section \<open>Expansion\<close>

lemma dict_rel_table:
  assumes "dict_rel T d M" and "t_exp (dd_tab0 d) \<noteq> - 1"
  obtains cap where "shaped T cap (dd_tab0 d)" "table_ok (dhash T) (dview T (dd_tab0 d))"
    "t_values (dd_tab0 d) = NULL \<longleftrightarrow> dd_type d = DICT_HASH_SET"
    "dd_size d = length (entries (dview T (dd_tab0 d))) + of_bool (dd_zero_occupied d)"
    "4 * dd_size d < 3 * cap" "types_ok T (dd_key_cmp d)"
    "M = (content (dview T (dd_tab0 d)))
       (dt_zero T := (if dd_zero_occupied d then Some (value_at_bucket T (dd_tab0 d) 0) else None))"
proof -
  have "\<exists>cap. shaped T cap (dd_tab0 d) \<and> table_ok (dhash T) (dview T (dd_tab0 d))
    \<and> (t_values (dd_tab0 d) = NULL \<longleftrightarrow> dd_type d = DICT_HASH_SET)
    \<and> dd_size d = length (entries (dview T (dd_tab0 d))) + of_bool (dd_zero_occupied d)
    \<and> 4 * dd_size d < 3 * cap
    \<and> M = (content (dview T (dd_tab0 d)))
        (dt_zero T := (if dd_zero_occupied d then Some (value_at_bucket T (dd_tab0 d) 0) else None))"
    "types_ok T (dd_key_cmp d)"
    using assms by (simp_all add: dict_rel_def)
  then show ?thesis by (elim exE conjE) (rule that)
qed

lemma dict_rel_scratch [simp]:
  "dict_rel T (d\<lparr>dd_cursor := c\<rparr>) M \<longleftrightarrow> dict_rel T d M" "dict_rel T (d\<lparr>dd_tab1 := t\<rparr>) M \<longleftrightarrow> dict_rel T d M"
  by (simp_all add: dict_rel_def)

lemma dict_rel_none:
  assumes "dict_rel T d M" and "t_exp (dd_tab0 d) = - 1"
  shows "dd_tab0 d = no_table (- 1)" "dd_size d = 0" "\<not> dd_zero_occupied d" "M = Map.empty"
    "types_ok T (dd_key_cmp d)"
  using assms by (simp_all add: dict_rel_def)

text \<open>The result of an expansion, or the exit of the process.\<close>

definition dict_grown :: "('k, 'v) dict_types \<Rightarrow> ('k, 'v) dict_typed \<Rightarrow> ('k \<rightharpoonup> 'v) \<Rightarrow> ('k, 'v) dict_world
    \<Rightarrow> ('k, 'v) dict_typed \<Rightarrow> ('k, 'v) dict_world \<Rightarrow> bool" where
  "dict_grown T d M w d' w' \<longleftrightarrow> dict_rel T d' M \<and> dict_conf d' = dict_conf d \<and> dd_size d' = dd_size d
     \<and> (\<exists>cap. shaped T cap (dd_tab0 d') \<and> 4 * Suc (dd_size d) < 3 * cap)
     \<and> live w' - table_own (dd_tab0 d') = live w - table_own (dd_tab0 d) \<and> destroyed w' = destroyed w
     \<and> (no_fail w \<longrightarrow> no_fail w') \<and> (dict_clean T d \<longrightarrow> dict_clean T d')"

lemma shaped_not_none: "shaped T cap t \<Longrightarrow> t_exp t \<noteq> - 1"
  by (auto simp: shaped_def)

lemma shaped_own: "shaped T cap t \<Longrightarrow> table_own t = 1 + of_bool (t_values t \<noteq> NULL) + of_bool (dt_hashed T)"
proof -
  assume t: "shaped T cap t"
  show ?thesis using shapedD(7) [OF t] shapedD(10) [OF t] by (auto simp: table_own_def)
qed

lemma dict_expand_fill:
  assumes rel: "dict_rel T d M" and t1: "shaped T cap t1" "dview T t1 = replicate cap Free" "tclean T False t1"
    and vals: "t_values t1 = NULL \<longleftrightarrow> dd_type d = DICT_HASH_SET" and room: "4 * Suc (dd_size d) < 3 * cap"
  shows "\<exists>t2 t3 c. (if dd_zero_occupied d then dict_move_entry (dd_tab0 d) (- 1) t1 (- 1) else Some t1) = Some t2
    \<and> dict_expand_loop T (dd_key_cmp d) (dd_tab0 d) [0 .. c_int (dict_i_cap (dd_tab0 d)) - 1] (t2, dd_cursor d) = Some (t3, c)
    \<and> shaped T cap t3 \<and> tclean T (dd_zero_occupied d) t3
    \<and> dict_rel T (d\<lparr>dd_tab0 := t3\<rparr>) M"
proof (cases "t_exp (dd_tab0 d) = - 1")
  case True
  note N = dict_rel_none [OF rel True]
  have "dict_i_cap (dd_tab0 d) = 0" using True by (simp add: dict_i_cap_def exp_cap_def)
  moreover have "dict_rel T (d\<lparr>dd_tab0 := t1\<rparr>) M"
    using N t1(1,2) vals room shaped_not_none [OF t1(1)] by (auto simp: dict_rel_def table_ok_empty)
  ultimately show ?thesis using N(3) t1(1,3) by simp
next
  case False
  let ?t0 = "dd_tab0 d" and ?z = "dd_zero_occupied d"
  from rel False obtain cap0 where R: "shaped T cap0 ?t0" "table_ok (dhash T) (dview T ?t0)"
    "t_values ?t0 = NULL \<longleftrightarrow> dd_type d = DICT_HASH_SET"
    "dd_size d = length (entries (dview T ?t0)) + of_bool ?z" "4 * dd_size d < 3 * cap0" "types_ok T (dd_key_cmp d)"
    "M = (content (dview T ?t0)) (dt_zero T := (if ?z then Some (value_at_bucket T ?t0 0) else None))"
    by (rule dict_rel_table)
  have v10: "t_values t1 = NULL \<longleftrightarrow> t_values ?t0 = NULL" using R(3) vals by simp
  obtain t2 where t2: "(if ?z then dict_move_entry ?t0 (- 1) t1 (- 1) else Some t1) = Some t2"
    "shaped T cap t2" "dview T t2 = replicate cap Free" "t_values t2 = NULL \<longleftrightarrow> t_values ?t0 = NULL"
    "tclean T ?z t2" "?z \<Longrightarrow> value_at_bucket T t2 0 = value_at_bucket T ?t0 0"
  proof (cases ?z)
    case True
    from dict_move_zero_ok [OF R(1) t1(1) v10] obtain t2 where "dict_move_entry ?t0 (- 1) t1 (- 1) = Some t2"
      "shaped T cap t2" "dview T t2 = dview T t1" "t_values t2 = NULL \<longleftrightarrow> t_values t1 = NULL"
      "value_at_bucket T t2 0 = value_at_bucket T ?t0 0" "tclean T True t2"
      using t1(3) by blast
    then show ?thesis using that [of t2] True t1(2) v10 by simp
  next
    case False
    then show ?thesis using that [of t1] t1 v10 by simp
  qed
  have lt: "length (entries (dview T ?t0)) < cap"
    using R(4) room by (simp add: of_bool_def split: if_splits)
  have c0: "c_int (dict_i_cap ?t0) = int cap0" using shapedD(1,3) [OF R(1)] by simp
  have "\<exists>t' c'. dict_expand_loop T (dd_key_cmp d) ?t0 [int 0 .. int cap0 - 1] (t2, dd_cursor d) = Some (t', c')
    \<and> shaped T cap t' \<and> t_exp t' = t_exp t2 \<and> table_ok (dhash T) (dview T t')
    \<and> content (dview T t') = content (dview T ?t0) \<and> length (entries (dview T t')) = length (entries (dview T ?t0))
    \<and> (t_values t' = NULL \<longleftrightarrow> t_values ?t0 = NULL) \<and> tclean T ?z t'
    \<and> value_at_bucket T t' 0 = value_at_bucket T t2 0"
    by (rule dict_expand_loop_ok [OF R(1,6,2) lt _ t2(2)]) (simp_all add: t2(3-5) table_ok_empty)
  from this [unfolded semiring_1_class.of_nat_0, folded c0] obtain t3 c where t3: "dict_expand_loop T (dd_key_cmp d) ?t0 [0 .. c_int (dict_i_cap ?t0) - 1] (t2, dd_cursor d)
      = Some (t3, c)" "shaped T cap t3" "table_ok (dhash T) (dview T t3)" "content (dview T t3) = content (dview T ?t0)"
    "length (entries (dview T t3)) = length (entries (dview T ?t0))" "t_values t3 = NULL \<longleftrightarrow> t_values ?t0 = NULL"
    "tclean T ?z t3" "value_at_bucket T t3 0 = value_at_bucket T t2 0"
    by (elim exE conjE) (rule that)
  have "dict_rel T (d\<lparr>dd_tab0 := t3\<rparr>) M"
    unfolding dict_rel_def using shaped_not_none [OF t3(2)] R(3,4,6,7) t3 t2(6) room
    by (auto intro!: exI [of _ cap])
  with t2(1) t3(1,2,7) show ?thesis by blast
qed

lemma dict_expand_typed_ok:
  assumes rel: "dict_rel T d M" and small: "dd_size d < 268435456"
  shows "dict_expand_typed T d w = Some Exit \<and> \<not> (no_fail w \<and> dict_room T)
    \<or> (\<exists>d' w'. dict_expand_typed T d w = Some (Done (d', w')) \<and> dict_grown T d M w d' w')"
proof -
  let ?t0 = "dd_tab0 d" and ?n = "dd_size d"
  have add: "sz_add ?n 1 = Suc ?n" using small by (simp add: SIZE_MAX_def)
  show ?thesis
  proof (cases "4 * Suc ?n < 3 * dict_i_cap ?t0")
    case True
    then have "t_exp ?t0 \<noteq> - 1" by (auto simp: dict_i_cap_def exp_cap_def)
    with rel obtain cap0 where "shaped T cap0 ?t0" by (rule dict_rel_table)
    then have "dict_grown T d M w d w" using rel True shapedD(1) [of T cap0 ?t0] by (auto simp: dict_grown_def)
    then show ?thesis using True add by (simp add: dict_expand_typed_def)
  next
    case False
    define e where "e = (if t_exp ?t0 \<le> 0 then 3 else t_exp ?t0 + 1)"
    have e: "e \<le> 30 \<and> 4 * Suc ?n < 3 * 2 ^ nat e"
    proof (cases "t_exp ?t0 = - 1")
      case True
      then show ?thesis using dict_rel_none(2) [OF rel] by (simp add: e_def)
    next
      case not_none: False
      with rel obtain cap0 where t0: "shaped T cap0 ?t0" "4 * ?n < 3 * cap0" by (rule dict_rel_table)
      then obtain k where k: "t_exp ?t0 = int k" "k \<le> 30" "cap0 = 2 ^ k" by (auto simp: shaped_def)
      have full: "3 * cap0 \<le> 4 * Suc ?n" using False shapedD(1) [OF t0(1)] by simp
      have "k < 30"
      proof (rule ccontr)
        assume "\<not> k < 30"
        then have "cap0 = 1073741824" using k(2,3) by simp
        then show False using full small by simp
      qed
      then have "e \<le> 30" using k(1) by (simp add: e_def)
      moreover have "4 * Suc ?n < 3 * 2 ^ nat e"
      proof (cases "k = 0")
        case True
        then show ?thesis using k t0(2) by (simp add: e_def)
      next
        case False
        then have "nat e = Suc k" using k(1) by (simp add: e_def nat_add_distrib)
        moreover have "2 \<le> cap0" using False k(3) self_le_power [of 2 k] by simp
        ultimately show ?thesis using t0(2) k(3) by simp
      qed
      ultimately show ?thesis ..
    qed
    have alloc: "case dict_alloc_typed T d w of
        Exit \<Rightarrow> \<not> (no_fail w \<and> dict_room T)
      | Done (t, w') \<Rightarrow> shaped T (2 ^ nat e) t \<and> t_exp t = e \<and> dview T t = replicate (2 ^ nat e) Free
          \<and> tclean T False t \<and> (t_values t = NULL \<longleftrightarrow> dd_type d = DICT_HASH_SET)
          \<and> live w' = live w + table_own t \<and> destroyed w' = destroyed w \<and> (no_fail w \<longrightarrow> no_fail w')"
      by (rule dict_alloc_typed_ok [OF e_def]) (use e in simp)
    show ?thesis
    proof (cases "dict_alloc_typed T d w")
      case Exit
      then show ?thesis using alloc False add by (simp add: dict_expand_typed_def)
    next
      case (Done r)
      obtain t1 w1 where r: "r = (t1, w1)" by (cases r)
      have t1: "shaped T (2 ^ nat e) t1" "dview T t1 = replicate (2 ^ nat e) Free" "tclean T False t1"
        "t_values t1 = NULL \<longleftrightarrow> dd_type d = DICT_HASH_SET" and w1: "live w1 = live w + table_own t1"
        "destroyed w1 = destroyed w" "no_fail w \<longrightarrow> no_fail w1"
        using alloc unfolding Done r by simp_all
      obtain t2 t3 c where
        f: "(if dd_zero_occupied d then dict_move_entry ?t0 (- 1) t1 (- 1) else Some t1) = Some t2"
        "dict_expand_loop T (dd_key_cmp d) ?t0 [0 .. c_int (dict_i_cap ?t0) - 1] (t2, dd_cursor d) = Some (t3, c)"
        "shaped T (2 ^ nat e) t3" "tclean T (dd_zero_occupied d) t3" "dict_rel T (d\<lparr>dd_tab0 := t3\<rparr>) M"
        using dict_expand_fill [OF rel t1 conjunct2 [OF e]] by (elim exE conjE) (rule that)
      let ?d = "d\<lparr>dd_tab0 := t3, dd_tab1 := no_table (t_exp t3), dd_cursor := c\<rparr>"
      let ?w = "free_ptr (t_hashes ?t0) (free_ptr (t_values ?t0) (free_ptr (t_keys ?t0) w1))"
      have "dict_expand_typed T d w = Some (Done (?d, ?w))"
        unfolding dict_expand_typed_def Let_def add Done r and_then_simps prod.case f(1) Option.bind.simps f(2)
        using False by simp
      moreover have "table_own t3 = table_own t1"
      proof -
        have "t_exp (dd_tab0 (d\<lparr>dd_tab0 := t3\<rparr>)) \<noteq> - 1" using shaped_not_none [OF f(3)] by simp
        with f(5) obtain cap where "t_values t3 = NULL \<longleftrightarrow> dd_type d = DICT_HASH_SET"
          by (rule dict_rel_table) simp
        then show ?thesis using shaped_own [OF f(3)] shaped_own [OF t1(1)] t1(4) by simp
      qed
      then have "dict_grown T d M w ?d ?w"
        using f(3-5) e w1 by (auto simp: dict_grown_def table_own_def)
      ultimately show ?thesis by blast
    qed
  qed
qed

end
