(* ===== verification/Dict_Ops.thy ===== *)
theory Dict_Ops
  imports Dict_Expand
begin

text \<open>
  The contracts of searching, inserting and releasing in \<open>src/legacy/dict_typed.h\<close>, over the
  finite map that a dictionary represents.
\<close>

section \<open>Searching\<close>

text \<open>Where the cursor stands after a search for a key that is stored.\<close>

definition cursor_at :: "('k, 'v) dict_types \<Rightarrow> ('k, 'v) dict_typed \<Rightarrow> 'k \<Rightarrow> bool" where
  "cursor_at T d key \<longleftrightarrow> (if key = dt_zero T then dd_cursor d = - 1 \<and> dd_zero_occupied d
     else \<exists>i v. i < dict_i_cap (dd_tab0 d) \<and> dd_cursor d = int i \<and> dview T (dd_tab0 d) ! i = Full key v)"

lemma dict_size_free:
  assumes "dict_rel T d M" and "shaped T cap (dd_tab0 d)"
  shows "Free \<in> set (dview T (dd_tab0 d))"
proof -
  from assms(1) shaped_not_none [OF assms(2)] obtain c where c: "shaped T c (dd_tab0 d)"
    "dd_size d = length (entries (dview T (dd_tab0 d))) + of_bool (dd_zero_occupied d)" "4 * dd_size d < 3 * c"
    by (rule dict_rel_table)
  have "length (entries (dview T (dd_tab0 d))) < c" using c(2,3) by (simp add: of_bool_def split: if_splits)
  then show ?thesis using free_exists [of "dview T (dd_tab0 d)"] dview_length [OF c(1)] by simp
qed

lemma dict_find_ok:
  assumes rel: "dict_rel T d M" and some: "t_exp (dd_tab0 d) \<noteq> - 1 \<or> key = dt_zero T"
  shows "\<exists>c. dict_find_typed T d key = Some (d\<lparr>dd_cursor := c\<rparr>)
    \<and> dict_found_typed T (d\<lparr>dd_cursor := c\<rparr>) = Some (M key \<noteq> None)
    \<and> (if key = dt_zero T then c = - 1
       else \<exists>i < dict_i_cap (dd_tab0 d). c = int i \<and> reach (dview T (dd_tab0 d)) (dhash T key) i
         \<and> dview T (dd_tab0 d) ! i = (case M key of None \<Rightarrow> Free | Some v \<Rightarrow> Full key v))
    \<and> (M key \<noteq> None \<longrightarrow> cursor_at T (d\<lparr>dd_cursor := c\<rparr>) key)"
proof (cases "key = dt_zero T")
  case True
  have "M key \<noteq> None \<longleftrightarrow> dd_zero_occupied d"
  proof (cases "t_exp (dd_tab0 d) = - 1")
    case True
    then show ?thesis using dict_rel_none [OF rel] by simp
  next
    case False
    from rel False obtain cap where
      "M = (content (dview T (dd_tab0 d)))
         (dt_zero T := (if dd_zero_occupied d then Some (value_at_bucket T (dd_tab0 d) 0) else None))"
      by (rule dict_rel_table)
    then show ?thesis using \<open>key = dt_zero T\<close> by simp
  qed
  then show ?thesis
    using True by (simp add: dict_find_typed_def dict_probe_zero dict_found_typed_def cursor_at_def)
next
  case False
  let ?t = "dd_tab0 d"
  have "t_exp ?t \<noteq> - 1" using some False by simp
  with rel obtain cap where R: "shaped T cap ?t" "table_ok (dhash T) (dview T ?t)" "types_ok T (dd_key_cmp d)"
    "M = (content (dview T ?t))(dt_zero T := (if dd_zero_occupied d then Some (value_at_bucket T ?t 0) else None))"
    by (rule dict_rel_table)
  have M: "M key = content (dview T ?t) key" using R(4) False by simp
  obtain i where i: "i < cap" "dict_probe T (dd_key_cmp d) ?t key (dt_hash T key) = Some (int i)"
    "reach (dview T ?t) (dhash T key) i"
    "dview T ?t ! i = (case M key of None \<Rightarrow> Free | Some v \<Rightarrow> Full key v)"
    using dict_probe_ok [OF R(1,3) False R(2) dict_size_free [OF rel R(1)]] unfolding M by blast
  note V = dview_nth [OF R(1) i(1)]
  have "array_cells (t_keys ?t) ! Suc i \<noteq> dt_zero T \<longleftrightarrow> M key \<noteq> None"
    using V(1) i(4) by (auto split: if_splits option.splits)
  then have "dict_found_typed T (d\<lparr>dd_cursor := int i\<rparr>) = Some (M key \<noteq> None)"
    using V(2) by (simp add: dict_found_typed_def)
  moreover have "M key \<noteq> None \<longrightarrow> cursor_at T (d\<lparr>dd_cursor := int i\<rparr>) key"
    using i(1,4) False shapedD(1) [OF R(1)] by (auto simp: cursor_at_def)
  ultimately show ?thesis
    using i False shapedD(1) [OF R(1)] by (auto simp: dict_find_typed_def)
qed

text \<open>In a dictionary without arrays a search for a key that is not 0 reads through a null pointer.\<close>

lemma dict_find_fresh:
  assumes "dict_rel T d M" and "t_exp (dd_tab0 d) = - 1" and "key \<noteq> dt_zero T"
  shows "dict_find_typed T d key = None"
  using dict_rel_none(1) [OF assms(1,2)] assms(3)
  by (simp add: dict_find_typed_def dict_probe_def arr_get_def)

lemma cursor_at_value:
  assumes rel: "dict_rel T d M" and at: "cursor_at T d key" and vals: "t_values (dd_tab0 d) \<noteq> NULL"
  shows "dict_cur_value d = M key" "M key \<noteq> None"
proof -
  let ?t = "dd_tab0 d"
  have ne: "t_exp ?t \<noteq> - 1" using dict_rel_none(1) [OF rel] vals by auto
  from rel ne obtain cap where R: "shaped T cap ?t" "table_ok (dhash T) (dview T ?t)"
    "M = (content (dview T ?t))(dt_zero T := (if dd_zero_occupied d then Some (value_at_bucket T ?t 0) else None))"
    by (rule dict_rel_table)
  have len: "length (array_cells (t_values ?t)) = Suc cap" using shapedD(6) [OF R(1)] vals by simp
  have "dict_cur_value d = M key \<and> M key \<noteq> None"
  proof (cases "key = dt_zero T")
    case True
    then show ?thesis
      using at R(3) len vals by (simp add: cursor_at_def dict_cur_value_def value_at_bucket_cells)
  next
    case False
    then obtain i v where i: "i < cap" "dd_cursor d = int i" "dview T ?t ! i = Full key v"
      using at shapedD(1) [OF R(1)] by (auto simp: cursor_at_def)
    have "Full key v \<in> set (dview T ?t)" using i dview_length [OF R(1)] by (metis nth_mem)
    then have "M key = Some v" using content_iff [OF R(2)] R(3) False by simp
    moreover have "value_at_bucket T ?t (Suc i) = v"
      using dview_nth(1) [OF R(1) i(1)] i(3) by (simp split: if_splits)
    ultimately show ?thesis
      using dview_nth(4) [OF R(1) i(1) vals] i(2) by (simp add: dict_cur_value_def)
  qed
  then show "dict_cur_value d = M key" "M key \<noteq> None" by simp_all
qed

section \<open>Writing a value\<close>

lemma dict_write_value:
  assumes rel: "dict_rel T d M" and at: "cursor_at T d key" and vals: "t_values (dd_tab0 d) \<noteq> NULL"
  shows "\<exists>vs. arr_put (t_values (dd_tab0 d)) (dd_cursor d) x = Some vs
    \<and> dict_rel T (d\<lparr>dd_tab0 := (dd_tab0 d)\<lparr>t_values := vs\<rparr>\<rparr>) (M(key \<mapsto> x)) \<and> vs \<noteq> NULL
    \<and> (dict_clean T d \<longrightarrow> dict_clean T (d\<lparr>dd_tab0 := (dd_tab0 d)\<lparr>t_values := vs\<rparr>\<rparr>))"
proof -
  let ?t = "dd_tab0 d" and ?z = "dt_zero T"
  have ne: "t_exp ?t \<noteq> - 1" using dict_rel_none(1) [OF rel] vals by auto
  from rel ne obtain cap where R: "shaped T cap ?t" "table_ok (dhash T) (dview T ?t)"
    "t_values ?t = NULL \<longleftrightarrow> dd_type d = DICT_HASH_SET"
    "dd_size d = length (entries (dview T ?t)) + of_bool (dd_zero_occupied d)" "4 * dd_size d < 3 * cap"
    "types_ok T (dd_key_cmp d)"
    "M = (content (dview T ?t))(?z := (if dd_zero_occupied d then Some (value_at_bucket T ?t 0) else None))"
    by (rule dict_rel_table)
  note D = shapedD [OF R(1)]
  have len: "length (array_cells (t_values ?t)) = Suc cap" using D(6) vals by simp
  show ?thesis
  proof (cases "key = ?z")
    case True
    let ?vs = "Ptr ((array_cells (t_values ?t))[0 := x])"
    let ?t' = "?t\<lparr>t_values := ?vs\<rparr>"
    have at': "dd_cursor d = - 1" "dd_zero_occupied d" using at True by (simp_all add: cursor_at_def)
    have put: "arr_put (t_values ?t) (dd_cursor d) x = Some ?vs" using at'(1) len by simp
    have val: "value_at_bucket T ?t' j = (if j = 0 then x else value_at_bucket T ?t j)" for j
      using len vals by (cases "t_values ?t") (simp_all add: value_at_bucket_def nth_list_update)
    have s: "shaped T cap ?t'" using R(1) vals by (simp add: shaped_def)
    have v: "dview T ?t' = dview T ?t" by (simp add: dview_def val dict_i_cap_def)
    have "dict_rel T (d\<lparr>dd_tab0 := ?t'\<rparr>) (M(key \<mapsto> x))"
      unfolding dict_rel_def using s v ne R True at'(2) vals by (auto simp: val intro!: exI [of _ cap])
    moreover have "dict_clean T d \<longrightarrow> dict_clean T (d\<lparr>dd_tab0 := ?t'\<rparr>)"
      using at'(2) by (simp add: tclean_def val dict_i_cap_def)
    ultimately show ?thesis using put by blast
  next
    case False
    then obtain i v where i: "i < cap" "dd_cursor d = int i" "dview T ?t ! i = Full key v"
      using at D(1) by (auto simp: cursor_at_def)
    let ?vs = "Ptr ((array_cells (t_values ?t))[Suc i := x])"
    let ?t' = "?t\<lparr>t_values := ?vs\<rparr>"
    have put: "arr_put (t_values ?t) (dd_cursor d) x = Some ?vs" using i(1,2) len by simp
    have k: "array_cells (t_keys ?t) ! Suc i = key"
      using dview_nth(1) [OF R(1) i(1)] i(3) by (simp split: if_splits)
    have val: "value_at_bucket T ?t' j = (if j = Suc i then x else value_at_bucket T ?t j)" for j
      using len i(1) vals by (cases "t_values ?t") (simp_all add: value_at_bucket_def nth_list_update)
    have s: "shaped T cap ?t'" using R(1) vals by (simp add: shaped_def)
    have v: "dview T ?t' = (dview T ?t)[i := Full key x]"
    proof (rule nth_equalityI)
      show "length (dview T ?t') = length ((dview T ?t)[i := Full key x])"
        using dview_length [OF s] dview_length [OF R(1)] by simp
      fix j assume "j < length (dview T ?t')"
      then have j: "j < cap" using dview_length [OF s] by simp
      show "dview T ?t' ! j = (dview T ?t)[i := Full key x] ! j"
        using dview_nth(1) [OF s j] dview_nth(1) [OF R(1) j] dview_length [OF R(1)] j k False
        by (simp add: val nth_list_update)
    qed
    have r: "table_ok (dhash T) (dview T ?t')" "content (dview T ?t') = (content (dview T ?t))(key \<mapsto> x)"
      "length (entries (dview T ?t')) = length (entries (dview T ?t))"
      unfolding v using table_replace [OF R(2) _ i(3), of x] i(1) dview_length [OF R(1)] by simp_all
    have "dict_rel T (d\<lparr>dd_tab0 := ?t'\<rparr>) (M(key \<mapsto> x))"
      unfolding dict_rel_def using s r ne R False vals by (auto simp: val fun_upd_twist intro!: exI [of _ cap])
    moreover have "dict_clean T d \<longrightarrow> dict_clean T (d\<lparr>dd_tab0 := ?t'\<rparr>)"
      using k False by (auto simp: tclean_def val dict_i_cap_def)
    ultimately show ?thesis using put by blast
  qed
qed

section \<open>Adding a key\<close>

lemma value_at_bucket_keys [simp]:
  "value_at_bucket T (t\<lparr>t_keys := ks\<rparr>) j = value_at_bucket T t j"
  "value_at_bucket T (t\<lparr>t_hashes := hs\<rparr>) j = value_at_bucket T t j"
  by (simp_all add: value_at_bucket_def)

text \<open>A new key in the bucket where its search stopped; it finds whatever value lies there.\<close>

lemma dict_write_key:
  assumes rel: "dict_rel T d M" and t: "shaped T cap (dd_tab0 d)" and room: "4 * Suc (dd_size d) < 3 * cap"
    and none: "M key = None"
    and at: "if key = dt_zero T then dd_cursor d = - 1
      else \<exists>i < cap. dd_cursor d = int i \<and> reach (dview T (dd_tab0 d)) (dhash T key) i \<and> dview T (dd_tab0 d) ! i = Free"
  shows "\<exists>ks hs u d'. arr_put (t_keys (dd_tab0 d)) (dd_cursor d) key = Some ks
    \<and> arr_put_if (t_hashes (dd_tab0 d)) (dd_cursor d) (Some (dt_hash T key)) = Some hs
    \<and> d' = d\<lparr>dd_size := Suc (dd_size d), dd_zero_occupied := (dd_zero_occupied d \<or> dd_cursor d = - 1),
        dd_tab0 := (dd_tab0 d)\<lparr>t_keys := ks, t_hashes := hs\<rparr>\<rparr>
    \<and> dict_rel T d' (M(key \<mapsto> u)) \<and> cursor_at T d' key \<and> table_own (dd_tab0 d') = table_own (dd_tab0 d)
    \<and> (dict_clean T d \<longrightarrow> dict_clean T d' \<and> u = dt_null T)"
proof -
  let ?t = "dd_tab0 d" and ?z = "dt_zero T"
  from rel shaped_not_none [OF t] obtain c where R0: "shaped T c ?t" "table_ok (dhash T) (dview T ?t)"
    "t_values ?t = NULL \<longleftrightarrow> dd_type d = DICT_HASH_SET"
    "dd_size d = length (entries (dview T ?t)) + of_bool (dd_zero_occupied d)" "4 * dd_size d < 3 * c"
    "types_ok T (dd_key_cmp d)"
    "M = (content (dview T ?t))(?z := (if dd_zero_occupied d then Some (value_at_bucket T ?t 0) else None))"
    by (rule dict_rel_table)
  have "c = cap" using shapedD(1) [OF R0(1)] shapedD(1) [OF t] by simp
  note R = R0 [unfolded this] note D = shapedD [OF t]
  show ?thesis
  proof (cases "key = ?z")
    case True
    have c: "dd_cursor d = - 1" using at True by simp
    have zo: "\<not> dd_zero_occupied d" using none R(7) True by auto
    let ?ks = "Ptr ((array_cells (t_keys ?t))[0 := ?z])"
    let ?hs = "if t_hashes ?t = NULL then NULL else Ptr ((array_cells (t_hashes ?t))[0 := dt_hash T key])"
    let ?t' = "?t\<lparr>t_keys := ?ks, t_hashes := ?hs\<rparr>"
    have put: "arr_put (t_keys ?t) (dd_cursor d) key = Some ?ks"
      "arr_put_if (t_hashes ?t) (dd_cursor d) (Some (dt_hash T key)) = Some ?hs"
      using c True D(4,8) by (simp_all add: arr_put_if_def)
    have vals: "t_values ?t' = (if t_values ?t = NULL then NULL else Ptr ((array_cells (t_values ?t))[0 := array_cells (t_values ?t) ! 0]))"
      by (cases "t_values ?t") simp_all
    note F = dview_first [OF t, of ?t' "dt_hash T key" "array_cells (t_values ?t) ! 0", OF _ _ _ vals, simplified]
    let ?d = "d\<lparr>dd_size := Suc (dd_size d), dd_zero_occupied := (dd_zero_occupied d \<or> dd_cursor d = - 1), dd_tab0 := ?t'\<rparr>"
    have "dict_rel T ?d (M(key \<mapsto> value_at_bucket T ?t 0))"
      unfolding dict_rel_def using F(1,2) R zo c True room shaped_not_none [OF t]
      by (auto intro!: exI [of _ cap])
    moreover have "cursor_at T ?d key" using True c by (simp add: cursor_at_def)
    moreover have "table_own ?t' = table_own ?t" using D(10) by (auto simp: table_own_def)
    moreover have "dict_clean T d \<longrightarrow> dict_clean T ?d \<and> value_at_bucket T ?t 0 = dt_null T"
      using zo c F(4) by (simp add: tclean_def dict_i_cap_def)
    ultimately show ?thesis using put by auto
  next
    case False
    then obtain i where i: "i < cap" "dd_cursor d = int i" "reach (dview T ?t) (dhash T key) i" "dview T ?t ! i = Free"
      using at by auto
    let ?ks = "Ptr ((array_cells (t_keys ?t))[Suc i := key])"
    let ?hs = "if t_hashes ?t = NULL then NULL else Ptr ((array_cells (t_hashes ?t))[Suc i := dt_hash T key])"
    let ?t' = "?t\<lparr>t_keys := ?ks, t_hashes := ?hs\<rparr>" and ?u = "value_at_bucket T ?t (Suc i)"
    have put: "arr_put (t_keys ?t) (dd_cursor d) key = Some ?ks"
      "arr_put_if (t_hashes ?t) (dd_cursor d) (Some (dt_hash T key)) = Some ?hs"
      using i(1,2) D(4,8) by (simp_all add: arr_put_if_def)
    have vals: "t_values ?t' = (if t_values ?t = NULL then NULL else Ptr ((array_cells (t_values ?t))[Suc i := array_cells (t_values ?t) ! Suc i]))"
      by (cases "t_values ?t") simp_all
    have u: "(if t_values ?t = NULL then dt_null T else array_cells (t_values ?t) ! Suc i) = ?u"
      by (cases "t_values ?t") (simp_all add: value_at_bucket_def)
    have F: "shaped T cap ?t'" "dview T ?t' = (dview T ?t)[i := Full key ?u]"
      using dview_write [OF t i(1) False, of ?t' "array_cells (t_values ?t) ! Suc i", OF _ _ _ vals] unfolding u by simp_all
    have con: "content (dview T ?t) key = None" using none R(7) False by simp
    have ins: "table_ok (dhash T) (dview T ?t')" "content (dview T ?t') = (content (dview T ?t))(key \<mapsto> ?u)"
      "length (entries (dview T ?t')) = Suc (length (entries (dview T ?t)))"
      unfolding F(2) using table_insert [OF R(2) con _ _ i(3), of ?u] i(1,4) dview_length [OF t] by simp_all
    let ?d = "d\<lparr>dd_size := Suc (dd_size d), dd_zero_occupied := (dd_zero_occupied d \<or> dd_cursor d = - 1), dd_tab0 := ?t'\<rparr>"
    have zo: "dd_zero_occupied ?d = dd_zero_occupied d" using i(2) by simp
    have "dict_rel T ?d (M(key \<mapsto> ?u))"
      unfolding dict_rel_def zo using F(1) ins R False room shaped_not_none [OF t]
      by (auto simp: fun_upd_twist intro!: exI [of _ cap])
    moreover have "cursor_at T ?d key"
      using False i(1,2) F(2) shapedD(1) [OF F(1)] dview_length [OF t] by (simp add: cursor_at_def)
    moreover have "table_own ?t' = table_own ?t" using D(10) by (auto simp: table_own_def)
    moreover have "dict_clean T d \<longrightarrow> dict_clean T ?d \<and> ?u = dt_null T"
    proof
      assume cl: "dict_clean T d"
      then have "?u = dt_null T"
        using i(1,4) dview_nth(1) [OF t i(1)] D(1) by (simp add: tclean_def split: if_splits)
      moreover have "tclean T (dd_zero_occupied d) ?t'"
        by (rule tclean_write [OF t cl F(1) i(1) _ False]) simp_all
      ultimately show "dict_clean T ?d \<and> ?u = dt_null T" using zo by simp
    qed
    ultimately show ?thesis
      using put by (intro exI [of _ ?ks] exI [of _ ?hs] exI [of _ ?u] exI [of _ ?d] conjI refl) simp_all
  qed
qed

text \<open>The map after a key was added with whatever value, if it was missing.\<close>

definition with_key :: "('k \<rightharpoonup> 'v) \<Rightarrow> 'k \<Rightarrow> 'v \<Rightarrow> 'k \<rightharpoonup> 'v" where
  "with_key M k u = (if M k = None then M(k \<mapsto> u) else M)"

lemma dict_set_key_ok:
  assumes rel: "dict_rel T d M" and small: "dd_size d < 268435456"
  shows "dict_set_key_typed T d key w = Some Exit \<and> \<not> (no_fail w \<and> dict_room T)
    \<or> (\<exists>d' w' u. dict_set_key_typed T d key w = Some (Done (d', w')) \<and> dict_rel T d' (with_key M key u)
        \<and> dict_conf d' = dict_conf d \<and> dd_size d' \<le> Suc (dd_size d) \<and> cursor_at T d' key \<and> t_exp (dd_tab0 d') \<noteq> - 1
        \<and> live w' - table_own (dd_tab0 d') = live w - table_own (dd_tab0 d) \<and> destroyed w' = destroyed w
        \<and> (no_fail w \<longrightarrow> no_fail w') \<and> (dict_clean T d \<longrightarrow> dict_clean T d' \<and> u = dt_null T))"
proof (cases "dict_expand_typed T d w" rule: outcome_cases)
  case 1
  then show ?thesis using dict_expand_typed_ok [OF rel small, of w] by auto
next
  case 2
  then show ?thesis using dict_expand_typed_ok [OF rel small, of w] by (simp add: dict_set_key_typed_def)
next
  case (3 r)
  then obtain d1 w1 where e: "dict_expand_typed T d w = Some (Done (d1, w1))" and g: "dict_grown T d M w d1 w1"
    using dict_expand_typed_ok [OF rel small, of w] by auto
  from g obtain cap where G: "dict_rel T d1 M" "dict_conf d1 = dict_conf d" "dd_size d1 = dd_size d"
    "shaped T cap (dd_tab0 d1)" "4 * Suc (dd_size d) < 3 * cap"
    "live w1 - table_own (dd_tab0 d1) = live w - table_own (dd_tab0 d)" "destroyed w1 = destroyed w"
    "no_fail w \<longrightarrow> no_fail w1" "dict_clean T d \<longrightarrow> dict_clean T d1"
    unfolding dict_grown_def by blast
  have ne: "t_exp (dd_tab0 d1) \<noteq> - 1" by (rule shaped_not_none [OF G(4)])
  obtain c where f: "dict_find_typed T d1 key = Some (d1\<lparr>dd_cursor := c\<rparr>)"
    "dict_found_typed T (d1\<lparr>dd_cursor := c\<rparr>) = Some (M key \<noteq> None)"
    "if key = dt_zero T then c = - 1
     else \<exists>i < dict_i_cap (dd_tab0 d1). c = int i \<and> reach (dview T (dd_tab0 d1)) (dhash T key) i
       \<and> dview T (dd_tab0 d1) ! i = (case M key of None \<Rightarrow> Free | Some v \<Rightarrow> Full key v)"
    "M key \<noteq> None \<longrightarrow> cursor_at T (d1\<lparr>dd_cursor := c\<rparr>) key"
    using dict_find_ok [OF G(1), of key] ne by blast
  let ?d = "d1\<lparr>dd_cursor := c\<rparr>"
  show ?thesis
  proof (cases "M key = None")
    case False
    then have "dict_set_key_typed T d key w = Some (Done (?d, w1))"
      using e f(1,2) by (simp add: dict_set_key_typed_def Let_def)
    moreover have "cursor_at T ?d key" using f(4) False by simp
    moreover have "with_key M key (dt_null T) = M" using False by (auto simp: with_key_def)
    ultimately show ?thesis
      using G ne by (intro disjI2 exI [of _ ?d] exI [of _ w1] exI [of _ "dt_null T"]) simp
  next
    case True
    have rel2: "dict_rel T ?d M" "shaped T cap (dd_tab0 ?d)" "4 * Suc (dd_size ?d) < 3 * cap"
      using G(1,3,4,5) by simp_all
    have at: "if key = dt_zero T then dd_cursor ?d = - 1
      else \<exists>i < cap. dd_cursor ?d = int i \<and> reach (dview T (dd_tab0 ?d)) (dhash T key) i \<and> dview T (dd_tab0 ?d) ! i = Free"
      using f(3) True shapedD(1) [OF G(4)] by auto
    obtain ks hs u d' where k: "arr_put (t_keys (dd_tab0 ?d)) (dd_cursor ?d) key = Some ks"
      "arr_put_if (t_hashes (dd_tab0 ?d)) (dd_cursor ?d) (Some (dt_hash T key)) = Some hs"
      and d': "d' = ?d\<lparr>dd_size := Suc (dd_size ?d), dd_zero_occupied := (dd_zero_occupied ?d \<or> dd_cursor ?d = - 1),
        dd_tab0 := (dd_tab0 ?d)\<lparr>t_keys := ks, t_hashes := hs\<rparr>\<rparr>"
      and r: "dict_rel T d' (M(key \<mapsto> u))" "cursor_at T d' key" "table_own (dd_tab0 d') = table_own (dd_tab0 ?d)"
        "dict_clean T ?d \<longrightarrow> dict_clean T d' \<and> u = dt_null T"
      using dict_write_key [OF rel2 True at] by (elim exE conjE) (rule that)
    have "sz_add (dd_size ?d) 1 = Suc (dd_size ?d)" using small G(3) by (simp add: SIZE_MAX_def)
    then have "dict_set_key_typed T d key w = Some (Done (d', w1))"
      using e f(1,2) True k unfolding d' by (simp add: dict_set_key_typed_def Let_def)
    moreover have "with_key M key u = M(key \<mapsto> u)" using True by (simp add: with_key_def)
    moreover have "dict_conf d' = dict_conf d" "dd_size d' = Suc (dd_size d)" "t_exp (dd_tab0 d') \<noteq> - 1"
      using G(2,3) ne by (simp_all add: d')
    ultimately show ?thesis
      using r G(6-9) by (intro disjI2 exI [of _ d'] exI [of _ w1] exI [of _ u]) simp
  qed
qed

text \<open>Storing a value releases the previous one, unless that is null.\<close>

definition dict_replaced :: "('k, 'v) dict_types \<Rightarrow> bool \<Rightarrow> 'v option \<Rightarrow> ('k + 'v) list" where
  "dict_replaced T f old = (case old of None \<Rightarrow> [] | Some v \<Rightarrow> log_if (f \<and> v \<noteq> dt_null T) [Inr v])"

lemma dict_set_ok:
  assumes rel: "dict_rel T d M" and small: "dd_size d < 268435456" and map: "dd_type d = DICT_HASH_MAP"
    and clean: "dd_value_free d \<Longrightarrow> dict_clean T d"
  shows "dict_set_typed T d key x w = Some Exit \<and> \<not> (no_fail w \<and> dict_room T)
    \<or> (\<exists>d' w'. dict_set_typed T d key x w = Some (Done (d', w')) \<and> dict_rel T d' (M(key \<mapsto> x))
        \<and> dict_conf d' = dict_conf d \<and> dd_size d' \<le> Suc (dd_size d)
        \<and> live w' - table_own (dd_tab0 d') = live w - table_own (dd_tab0 d)
        \<and> destroyed w' = destroyed w @ dict_replaced T (dd_value_free d) (M key)
        \<and> (no_fail w \<longrightarrow> no_fail w') \<and> (dict_clean T d \<longrightarrow> dict_clean T d'))"
proof (cases "dict_set_key_typed T d key w" rule: outcome_cases)
  case 1
  then show ?thesis using dict_set_key_ok [OF rel small, of key w] by auto
next
  case 2
  then show ?thesis using dict_set_key_ok [OF rel small, of key w] by (simp add: dict_set_typed_def)
next
  case (3 r)
  then obtain d1 w1 u where e: "dict_set_key_typed T d key w = Some (Done (d1, w1))"
    and g: "dict_rel T d1 (with_key M key u)" "dict_conf d1 = dict_conf d" "dd_size d1 \<le> Suc (dd_size d)"
      "cursor_at T d1 key" "t_exp (dd_tab0 d1) \<noteq> - 1"
      "live w1 - table_own (dd_tab0 d1) = live w - table_own (dd_tab0 d)" "destroyed w1 = destroyed w"
      "no_fail w \<longrightarrow> no_fail w1" "dict_clean T d \<longrightarrow> dict_clean T d1 \<and> u = dt_null T"
    using dict_set_key_ok [OF rel small, of key w] by (auto simp del: dict_conf_eq)
  have vals: "t_values (dd_tab0 d1) \<noteq> NULL"
    using g(1,5) by (rule dict_rel_table) (use g(2) map in simp)
  obtain old where old: "dict_cur_value d1 = Some old" "with_key M key u key = Some old"
    using cursor_at_value [OF g(1,4) vals] by auto
  obtain vs where vs: "arr_put (t_values (dd_tab0 d1)) (dd_cursor d1) x = Some vs"
    "dict_rel T (d1\<lparr>dd_tab0 := (dd_tab0 d1)\<lparr>t_values := vs\<rparr>\<rparr>) ((with_key M key u)(key \<mapsto> x))" "vs \<noteq> NULL"
    "dict_clean T d1 \<longrightarrow> dict_clean T (d1\<lparr>dd_tab0 := (dd_tab0 d1)\<lparr>t_values := vs\<rparr>\<rparr>)"
    using dict_write_value [OF g(1,4) vals] by blast
  let ?d = "d1\<lparr>dd_tab0 := (dd_tab0 d1)\<lparr>t_values := vs\<rparr>\<rparr>"
  let ?w = "if dd_value_free d1 then (if old \<noteq> dt_null T then destroy_element True (Inr old) w1 else w1) else w1"
  have set: "dict_set_typed T d key x w = Some (Done (?d, ?w))"
    using e old(1) vs(1) by (simp add: dict_set_typed_def)
  have "(with_key M key u)(key \<mapsto> x) = M(key \<mapsto> x)" by (simp add: with_key_def)
  moreover have "destroyed ?w = destroyed w @ dict_replaced T (dd_value_free d) (M key)"
    using g(2,7,9) clean old(2) by (auto simp: dict_replaced_def with_key_def log_if_def split: if_splits option.splits)
  moreover have "live ?w = live w1" "no_fail ?w = no_fail w1" by simp_all
  moreover have "table_own (dd_tab0 ?d) = table_own (dd_tab0 d1)" using vs(3) vals by (simp add: table_own_def)
  ultimately show ?thesis
    using set vs(2,4) g by (intro disjI2 exI [of _ ?d] exI [of _ ?w]) simp
qed

end
