(* ===== verification/Dict_Props.thy ===== *)
theory Dict_Props
  imports Dict_Ops
begin

text \<open>
  The properties of \<open>src/legacy/dict_typed.h\<close> for programs that insert and search: histories
  refine a finite map, and the release of a dictionary gives every key and every value back once.
\<close>

section \<open>Releasing a dictionary\<close>

lemma dict_free_loop_ok:
  assumes "length (array_cells a) = n" and "i \<le> n"
  shows "\<exists>w'. dict_free_loop z tag a [int i - 1 .. int n - 2] w = Some w' \<and> live w' = live w
    \<and> destroyed w' = destroyed w @ map tag (filter (\<lambda>x. x \<noteq> z) (drop i (array_cells a)))"
  using assms(2)
proof (induction "n - i" arbitrary: i w)
  case 0
  then show ?case using assms(1) by simp
next
  case (Suc m)
  then have i: "i < length (array_cells a)" using assms(1) by simp
  have upto: "[int i - 1 .. int n - 2] = (int i - 1) # [int (Suc i) - 1 .. int n - 2]"
    using i assms(1) by (subst upto_rec1) (simp_all add: algebra_simps)
  have get: "arr_get a (int i - 1) = Some (array_cells a ! i)"
    using i by (cases a) (simp_all add: arr_get_def)
  have dropi: "drop i (array_cells a) = array_cells a ! i # drop (Suc i) (array_cells a)" using i by (simp add: Cons_nth_drop_Suc)
  have "m = n - Suc i" "Suc i \<le> n" using Suc.hyps(2) by simp_all
  from Suc.hyps(1) [OF this, of "if array_cells a ! i \<noteq> z then destroy_element True (tag (array_cells a ! i)) w else w"]
  show ?case unfolding upto by (auto simp: get dropi)
qed

lemma entries_map:
  "entries (map (\<lambda>i. if P i then Free else Full (g i) (h i)) is) = map (\<lambda>i. (g i, h i)) (filter (\<lambda>i. \<not> P i) is)"
  by (induction "is") simp_all

lemma array_cells_upt: "length xs = Suc n \<Longrightarrow> xs = xs ! 0 # map (\<lambda>i. xs ! Suc i) [0 ..< n]"
  by (rule nth_equalityI) (auto simp: nth_Cons split: nat.split)

text \<open>The keys and the values in the arrays are those of the entries.\<close>

lemma filter_keys:
  assumes t: "shaped T cap t"
  shows "filter (\<lambda>k. k \<noteq> dt_zero T) (array_cells (t_keys t)) = map fst (entries (dview T t))"
proof -
  note D = shapedD [OF t]
  have "array_cells (t_keys t) = dt_zero T # map (\<lambda>i. array_cells (t_keys t) ! Suc i) [0 ..< cap]"
    using array_cells_upt [OF D(4)] D(5) by simp
  then have "filter (\<lambda>k. k \<noteq> dt_zero T) (array_cells (t_keys t))
      = filter (\<lambda>k. k \<noteq> dt_zero T) (map (\<lambda>i. array_cells (t_keys t) ! Suc i) [0 ..< cap])"
    by (metis (mono_tags, lifting) filter.simps(2))
  then show ?thesis
    unfolding dview_def D(1) entries_map by (simp add: filter_map comp_def)
qed

lemma filter_values:
  assumes t: "shaped T cap t" and "t_values t \<noteq> NULL" and cl: "tclean T z t"
  shows "filter (\<lambda>v. v \<noteq> dt_null T) (array_cells (t_values t))
    = filter (\<lambda>v. v \<noteq> dt_null T) (if z then [value_at_bucket T t 0] else [])
      @ filter (\<lambda>v. v \<noteq> dt_null T) (map snd (entries (dview T t)))"
proof -
  note D = shapedD [OF t]
  let ?vs = "array_cells (t_values t)"
  have len: "length ?vs = Suc cap" using D(6) assms(2) by simp
  have val: "value_at_bucket T t j = ?vs ! j" for j using assms(2) by (rule value_at_bucket_cells)
  have sub: "filter (\<lambda>i. ?vs ! Suc i \<noteq> dt_null T) [0 ..< cap]
      = filter (\<lambda>i. ?vs ! Suc i \<noteq> dt_null T) (filter (\<lambda>i. array_cells (t_keys t) ! Suc i \<noteq> dt_zero T) [0 ..< cap])"
    using cl unfolding filter_filter tclean_def D(1) val by (intro filter_cong) auto
  have "filter (\<lambda>v. v \<noteq> dt_null T) (map snd (entries (dview T t)))
      = map (\<lambda>i. ?vs ! Suc i) (filter (\<lambda>i. ?vs ! Suc i \<noteq> dt_null T) (filter (\<lambda>i. array_cells (t_keys t) ! Suc i \<noteq> dt_zero T) [0 ..< cap]))"
    unfolding dview_def D(1) entries_map val by (simp add: filter_map comp_def)
  also have "\<dots> = filter (\<lambda>v. v \<noteq> dt_null T) (map (\<lambda>i. ?vs ! Suc i) [0 ..< cap])"
    unfolding sub [symmetric] by (simp add: filter_map comp_def)
  finally have tail: "filter (\<lambda>v. v \<noteq> dt_null T) (map snd (entries (dview T t)))
      = filter (\<lambda>v. v \<noteq> dt_null T) (map (\<lambda>i. ?vs ! Suc i) [0 ..< cap])" .
  have first: "filter (\<lambda>v. v \<noteq> dt_null T) (if z then [value_at_bucket T t 0] else [])
      = filter (\<lambda>v. v \<noteq> dt_null T) [?vs ! 0]"
    using cl val [of 0] by (auto simp: tclean_def)
  have "filter (\<lambda>v. v \<noteq> dt_null T) ?vs = filter (\<lambda>v. v \<noteq> dt_null T) ([?vs ! 0] @ map (\<lambda>i. ?vs ! Suc i) [0 ..< cap])"
    using arg_cong [OF array_cells_upt [OF len], of "filter (\<lambda>v. v \<noteq> dt_null T)"] by simp
  then show ?thesis unfolding first tail filter_append .
qed

text \<open>The values of a finite map, with their multiplicity.\<close>

definition dict_range_mset :: "('k \<rightharpoonup> 'v) \<Rightarrow> 'v multiset" where
  "dict_range_mset M = image_mset (\<lambda>k. the (M k)) (mset_set (dom M))"

lemma dict_range_mset_map_of:
  assumes "distinct (map fst es)"
  shows "dict_range_mset (map_of es) = mset (map snd es)"
proof -
  have "dict_range_mset (map_of es) = image_mset (\<lambda>k. the (map_of es k)) (mset (map fst es))"
    using assms by (simp add: dict_range_mset_def dom_map_of_conv_image_fst mset_set_set flip: set_map)
  also have "\<dots> = image_mset (\<lambda>e. the (map_of es (fst e))) (mset es)"
    by (simp add: multiset.map_comp comp_def)
  also have "\<dots> = image_mset snd (mset es)"
    using assms by (intro image_mset_cong) (auto simp: map_of_is_SomeI)
  finally show ?thesis by simp
qed

lemma dict_range_mset_upd:
  assumes "M k = None" and "finite (dom M)"
  shows "dict_range_mset (M(k \<mapsto> v)) = add_mset v (dict_range_mset M)"
proof -
  have "mset_set (insert k (dom M)) = add_mset k (mset_set (dom M))"
    using assms by (intro mset_set.insert) auto
  moreover have "image_mset (\<lambda>x. the ((M(k \<mapsto> v)) x)) (mset_set (dom M)) = image_mset (\<lambda>x. the (M x)) (mset_set (dom M))"
    using assms by (intro image_mset_cong) auto
  ultimately show ?thesis by (simp add: dict_range_mset_def)
qed

lemma dict_free_ok:
  assumes rel: "dict_rel T d M" and vf: "dd_value_free d \<Longrightarrow> dd_type d = DICT_HASH_MAP \<and> dict_clean T d"
  shows "\<exists>w' ks vs. dict_free_typed T (Ptr d) w = Some (False, w') \<and> live w' = live w - table_own (dd_tab0 d) - 1
    \<and> destroyed w' = destroyed w @ log_if (dd_key_free d) (map Inl ks) @ log_if (dd_value_free d) (map Inr vs)
    \<and> distinct ks \<and> set ks = dom M - {dt_zero T} \<and> mset vs = filter_mset (\<lambda>v. v \<noteq> dt_null T) (dict_range_mset M)"
proof (cases "t_exp (dd_tab0 d) = - 1")
  case True
  note N = dict_rel_none [OF rel True]
  have "dict_free_typed T (Ptr d) w = Some (False, free_block w)"
    unfolding dict_free_typed_def ptr.case Let_def N(1) by simp
  then show ?thesis
    using N by (intro exI [of _ "free_block w"] exI [of _ "[]"]) (simp add: table_own_def dict_range_mset_def)
next
  case False
  let ?t = "dd_tab0 d"
  from rel False obtain cap where R: "shaped T cap ?t" "table_ok (dhash T) (dview T ?t)"
    "t_values ?t = NULL \<longleftrightarrow> dd_type d = DICT_HASH_SET"
    "M = (content (dview T ?t))(dt_zero T := (if dd_zero_occupied d then Some (value_at_bucket T ?t 0) else None))"
    by (rule dict_rel_table)
  note D = shapedD [OF R(1)]
  have "c_int (dict_i_cap ?t) = int cap" using D(1,3) by simp
  then have "c_int (dict_i_cap ?t) - 1 = int (Suc cap) - 2" by simp
  then have range: "[- 1 .. c_int (dict_i_cap ?t) - 1] = [int 0 - 1 .. int (Suc cap) - 2]" by simp
  have keys: "\<exists>w'. dict_free_loop (dt_zero T) Inl (t_keys ?t) [- 1 .. c_int (dict_i_cap ?t) - 1] w = Some w'
      \<and> live w' = live w \<and> destroyed w' = destroyed w @ map Inl (map fst (entries (dview T ?t)))" for w :: "('a, 'b) dict_world"
    unfolding range using dict_free_loop_ok [OF D(4) le0, of "dt_zero T" Inl w] filter_keys [OF R(1)]
    by (simp only: drop_0)
  define vs where "vs = filter (\<lambda>v. v \<noteq> dt_null T) (if dd_zero_occupied d then [value_at_bucket T ?t 0] else [])
      @ filter (\<lambda>v. v \<noteq> dt_null T) (map snd (entries (dview T ?t)))"
  have vals: "\<exists>w'. dict_free_loop (dt_null T) Inr (t_values ?t) [- 1 .. c_int (dict_i_cap ?t) - 1] w = Some w'
      \<and> live w' = live w \<and> destroyed w' = destroyed w @ map Inr vs" if "dd_value_free d" for w :: "('a, 'b) dict_world"
  proof -
    have nn: "t_values ?t \<noteq> NULL" using R(3) vf [OF that] by simp
    then have len: "length (array_cells (t_values ?t)) = Suc cap" using D(6) by simp
    show ?thesis
      unfolding range vs_def using dict_free_loop_ok [OF len le0, of "dt_null T" Inr w]
        filter_values [OF R(1) nn conjunct2 [OF vf [OF that]]]
      by (simp only: drop_0)
  qed
  obtain w1 where w1: "(if dd_key_free d then dict_free_loop (dt_zero T) Inl (t_keys ?t) [- 1 .. c_int (dict_i_cap ?t) - 1] w
      else Some w) = Some w1" "live w1 = live w"
    "destroyed w1 = destroyed w @ log_if (dd_key_free d) (map Inl (map fst (entries (dview T ?t))))"
    using keys [of w] that by (cases "dd_key_free d") auto
  obtain w2 where w2: "(if dd_value_free d then dict_free_loop (dt_null T) Inr (t_values ?t) [- 1 .. c_int (dict_i_cap ?t) - 1] w1
      else Some w1) = Some w2" "live w2 = live w1"
    "destroyed w2 = destroyed w1 @ log_if (dd_value_free d) (map Inr vs)"
    using vals [of w1] that by (cases "dd_value_free d") auto
  let ?w3 = "free_ptr (t_keys ?t) w2"
  let ?w = "free_block (free_ptr (t_hashes ?t)
      (if dd_type d = DICT_HASH_MAP then free_ptr (t_values ?t) ?w3 else ?w3))"
  have free: "dict_free_typed T (Ptr d) w = Some (False, ?w)"
    unfolding dict_free_typed_def ptr.case Let_def using D(10) by (simp only: w1(1) w2(1) Option.bind.simps if_False)
  have live: "live ?w = live w - table_own ?t - 1"
    using w1(2) w2(2) R(3) by (cases "dd_type d") (simp_all add: table_own_def)
  let ?ks = "map fst (entries (dview T ?t))"
  have dist: "distinct ?ks" using R(2) by (simp add: table_ok_def)
  have dom: "set ?ks = dom (content (dview T ?t))" by (simp add: dom_content)
  have "dt_zero T \<notin> dom (content (dview T ?t))" using dview_content_zero [of T ?t] by (simp add: domIff)
  then have set: "set ?ks = dom M - {dt_zero T}" unfolding dom R(4) by auto
  have c: "dict_range_mset (content (dview T ?t)) = mset (map snd (entries (dview T ?t)))"
    using dict_range_mset_map_of [OF dist] by (simp add: content_def)
  have "dict_range_mset M = mset (if dd_zero_occupied d then [value_at_bucket T ?t 0] else [])
      + mset (map snd (entries (dview T ?t)))"
  proof (cases "dd_zero_occupied d")
    case True
    then have "M = (content (dview T ?t))(dt_zero T \<mapsto> value_at_bucket T ?t 0)" using R(4) by simp
    then show ?thesis
      using True c dict_range_mset_upd [OF dview_content_zero finite_content, of T ?t "value_at_bucket T ?t 0"] by simp
  next
    case False
    then have "M = content (dview T ?t)" using R(4) fun_upd_idem [of "content (dview T ?t)" "dt_zero T" None] by simp
    then show ?thesis using False c by simp
  qed
  then have mvs: "mset vs = filter_mset (\<lambda>v. v \<noteq> dt_null T) (dict_range_mset M)"
    unfolding vs_def by simp
  show ?thesis
    using free live w1(3) w2(3) dist set mvs
    by (intro exI [of _ ?w] exI [of _ ?ks] exI [of _ vs]) simp
qed

section \<open>Histories\<close>

datatype ('k, 'v) dict_op = DSet 'k 'v | DAdd 'k | DFind 'k

fun dict_exec :: "('k, 'v) dict_types \<Rightarrow> ('k, 'v) dict_op \<Rightarrow> ('k, 'v) dict_typed \<Rightarrow> ('k, 'v) dict_world
    \<Rightarrow> (('k, 'v) dict_typed \<times> ('k, 'v) dict_world) outcome option" where
  "dict_exec T (DSet k v) d w = dict_set_typed T d k v w"
| "dict_exec T (DAdd k) d w = dict_set_key_typed T d k w"
| "dict_exec T (DFind k) d w = map_option (\<lambda>d'. Done (d', w)) (dict_find_typed T d k)"

text \<open>
  The abstract machine: the map, whether arrays were allocated, and the values released so far. It is
  stuck where a value is stored in a hash set, and where a dictionary that never held an entry is
  searched for a key other than 0.
\<close>

type_synonym ('k, 'v) dict_state = "('k \<rightharpoonup> 'v) \<times> bool \<times> ('k + 'v) list"

fun dict_step :: "('k, 'v) dict_types \<Rightarrow> dict_t \<Rightarrow> bool \<Rightarrow> ('k, 'v) dict_op
    \<Rightarrow> ('k, 'v) dict_state \<Rightarrow> ('k, 'v) dict_state \<Rightarrow> bool" where
  "dict_step T dt vf (DSet k v) (M, a, l) m' \<longleftrightarrow> dt = DICT_HASH_MAP \<and> m' = (M(k \<mapsto> v), True, l @ dict_replaced T vf (M k))"
| "dict_step T dt vf (DAdd k) (M, a, l) m' \<longleftrightarrow> m' = (with_key M k (dt_null T), True, l)"
| "dict_step T dt vf (DFind k) (M, a, l) m' \<longleftrightarrow> (a \<or> k = dt_zero T) \<and> m' = (M, a, l)"

definition dict_state :: "('k, 'v) dict_types \<Rightarrow> dict_t \<Rightarrow> bool \<Rightarrow> ('k + 'v) list
    \<Rightarrow> ('k, 'v) dict_typed \<Rightarrow> ('k, 'v) dict_world \<Rightarrow> ('k, 'v) dict_state \<Rightarrow> bool" where
  "dict_state T dt vf l0 d w m \<longleftrightarrow> dict_rel T d (fst m) \<and> dict_clean T d \<and> dd_type d = dt \<and> dd_value_free d = vf
     \<and> (t_exp (dd_tab0 d) \<noteq> - 1 \<longleftrightarrow> fst (snd m)) \<and> destroyed w = l0 @ snd (snd m)"

definition dict_budget :: "('k, 'v) dict_typed \<Rightarrow> nat \<Rightarrow> bool" where
  "dict_budget d n \<longleftrightarrow> dd_size d + n \<le> 268435456"

text \<open>What every macro guarantees of its outcome.\<close>

definition dict_law :: "('k, 'v) dict_types \<Rightarrow> dict_t \<Rightarrow> bool \<Rightarrow> ('k + 'v) list \<Rightarrow> ('k, 'v) dict_typed
    \<Rightarrow> (('k, 'v) dict_state \<Rightarrow> bool) \<Rightarrow> ('k, 'v) dict_world
    \<Rightarrow> (('k, 'v) dict_typed \<times> ('k, 'v) dict_world) outcome option \<Rightarrow> bool" where
  "dict_law T dt vf l0 d post w r \<longleftrightarrow> (case r of None \<Rightarrow> \<nexists>m'. post m'
     | Some Exit \<Rightarrow> \<not> (no_fail w \<and> dict_room T)
     | Some (Done (d', w')) \<Rightarrow> \<exists>m'. post m' \<and> dict_state T dt vf l0 d' w' m' \<and> dd_size d' \<le> Suc (dd_size d)
         \<and> live w' - table_own (dd_tab0 d') = live w - table_own (dd_tab0 d) \<and> (no_fail w \<longrightarrow> no_fail w'))"

lemma dict_exec_law:
  assumes st: "dict_state T dt vf l0 d w m" and small: "dd_size d < 268435456"
  shows "dict_law T dt vf l0 d (dict_step T dt vf op m) w (dict_exec T op d w)"
proof -
  obtain M a l where m: "m = (M, a, l)" by (cases m)
  have S: "dict_rel T d M" "dict_clean T d" "dd_type d = dt" "dd_value_free d = vf"
    "t_exp (dd_tab0 d) \<noteq> - 1 \<longleftrightarrow> a" "destroyed w = l0 @ l"
    using st by (simp_all add: dict_state_def m)
  show ?thesis
  proof (cases op)
    case (DSet k v)
    show ?thesis
    proof (cases "dt = DICT_HASH_MAP")
      case True
      have "dd_type d = DICT_HASH_MAP" using S(3) True by simp
      from dict_set_ok [OF S(1) small this S(2), of k v w] show ?thesis
      unfolding DSet m dict_exec.simps True
      proof (elim disjE)
        assume "dict_set_typed T d k v w = Some Exit \<and> \<not> (no_fail w \<and> dict_room T)"
        then show "dict_law T DICT_HASH_MAP vf l0 d (dict_step T DICT_HASH_MAP vf (DSet k v) (M, a, l)) w (dict_set_typed T d k v w)"
          by (simp add: dict_law_def)
      next
        assume "\<exists>d' w'. dict_set_typed T d k v w = Some (Done (d', w')) \<and> dict_rel T d' (M(k \<mapsto> v))
          \<and> dict_conf d' = dict_conf d \<and> dd_size d' \<le> Suc (dd_size d)
          \<and> live w' - table_own (dd_tab0 d') = live w - table_own (dd_tab0 d)
          \<and> destroyed w' = destroyed w @ dict_replaced T (dd_value_free d) (M k)
          \<and> (no_fail w \<longrightarrow> no_fail w') \<and> (dict_clean T d \<longrightarrow> dict_clean T d')"
        then obtain d' w' where d': "dict_set_typed T d k v w = Some (Done (d', w'))" "dict_rel T d' (M(k \<mapsto> v))"
          "dict_conf d' = dict_conf d" "dd_size d' \<le> Suc (dd_size d)"
          "live w' - table_own (dd_tab0 d') = live w - table_own (dd_tab0 d)"
          "destroyed w' = destroyed w @ dict_replaced T (dd_value_free d) (M k)"
          "no_fail w \<longrightarrow> no_fail w'" "dict_clean T d \<longrightarrow> dict_clean T d'"
          by (elim exE conjE) (rule that)
        have "t_exp (dd_tab0 d') \<noteq> - 1" using fun_cong [OF dict_rel_none(4) [OF d'(2)], of k] by auto
        then have "dict_state T dt vf l0 d' w' (M(k \<mapsto> v), True, l @ dict_replaced T vf (M k))"
          using d' S by (simp add: dict_state_def)
        then show "dict_law T DICT_HASH_MAP vf l0 d (dict_step T DICT_HASH_MAP vf (DSet k v) (M, a, l)) w (dict_set_typed T d k v w)"
          using d'(1,4,5,7) True by (simp add: dict_law_def)
      qed
    next
      case False
      then have set: "dd_type d = DICT_HASH_SET" using S(3) by (cases dt) simp_all
      have "dict_set_typed T d k v w = None \<or> dict_set_typed T d k v w = Some Exit \<and> \<not> (no_fail w \<and> dict_room T)"
      proof (cases "dict_set_key_typed T d k w" rule: outcome_cases)
        case 1
        then show ?thesis using dict_set_key_ok [OF S(1) small, of k w] by auto
      next
        case 2
        then show ?thesis using dict_set_key_ok [OF S(1) small, of k w] by (simp add: dict_set_typed_def)
      next
        case (3 r)
        obtain d1 w1 where r: "r = (d1, w1)" by (cases r)
        obtain u where g: "dict_rel T d1 (with_key M k u)" "dict_conf d1 = dict_conf d" "t_exp (dd_tab0 d1) \<noteq> - 1"
          using dict_set_key_ok [OF S(1) small, of k w] unfolding 3 r by (auto simp del: dict_conf_eq)
        have "t_values (dd_tab0 d1) = NULL" using g(1,3) by (rule dict_rel_table) (use g(2) set in simp)
        then show ?thesis
          unfolding dict_set_typed_def 3 r by (auto simp: dict_cur_value_def arr_get_def arr_put_def)
      qed
      then show ?thesis unfolding DSet m using False by (auto simp: dict_law_def)
    qed
  next
    case (DAdd k)
    from dict_set_key_ok [OF S(1) small, of k w] show ?thesis
      unfolding DAdd m dict_exec.simps
    proof (elim disjE)
      assume "dict_set_key_typed T d k w = Some Exit \<and> \<not> (no_fail w \<and> dict_room T)"
      then show "dict_law T dt vf l0 d (dict_step T dt vf (DAdd k) (M, a, l)) w (dict_set_key_typed T d k w)"
        by (simp add: dict_law_def)
    next
      assume "\<exists>d' w' u. dict_set_key_typed T d k w = Some (Done (d', w')) \<and> dict_rel T d' (with_key M k u)
        \<and> dict_conf d' = dict_conf d \<and> dd_size d' \<le> Suc (dd_size d) \<and> cursor_at T d' k \<and> t_exp (dd_tab0 d') \<noteq> - 1
        \<and> live w' - table_own (dd_tab0 d') = live w - table_own (dd_tab0 d) \<and> destroyed w' = destroyed w
        \<and> (no_fail w \<longrightarrow> no_fail w') \<and> (dict_clean T d \<longrightarrow> dict_clean T d' \<and> u = dt_null T)"
      then obtain d' w' u where d': "dict_set_key_typed T d k w = Some (Done (d', w'))" "dict_rel T d' (with_key M k u)"
        "dict_conf d' = dict_conf d" "dd_size d' \<le> Suc (dd_size d)" "cursor_at T d' k" "t_exp (dd_tab0 d') \<noteq> - 1"
        "live w' - table_own (dd_tab0 d') = live w - table_own (dd_tab0 d)" "destroyed w' = destroyed w"
        "no_fail w \<longrightarrow> no_fail w'" "dict_clean T d \<longrightarrow> dict_clean T d' \<and> u = dt_null T"
        by (elim exE conjE) (rule that)
      have "dict_state T dt vf l0 d' w' (with_key M k (dt_null T), True, l)"
        using d' S by (simp add: dict_state_def)
      then show "dict_law T dt vf l0 d (dict_step T dt vf (DAdd k) (M, a, l)) w (dict_set_key_typed T d k w)"
        using d'(1,4,7,9) by (simp add: dict_law_def)
    qed
  next
    case (DFind k)
    show ?thesis
    proof (cases "a \<or> k = dt_zero T")
      case True
      then obtain c where c: "dict_find_typed T d k = Some (d\<lparr>dd_cursor := c\<rparr>)"
        using dict_find_ok [OF S(1), of k] S(5) by blast
      have "dict_state T dt vf l0 (d\<lparr>dd_cursor := c\<rparr>) w (M, a, l)" using S by (simp add: dict_state_def)
      then show ?thesis unfolding DFind m using c True by (simp add: dict_law_def)
    next
      case False
      then show ?thesis
        unfolding DFind m using dict_find_fresh [OF S(1)] S(5) by (simp add: dict_law_def)
    qed
  qed
qed

interpretation ddm: typed_container "dict_exec T" "dict_step T dt vf" "dict_state T dt vf l0"
  "\<lambda>d. table_own (dd_tab0 d)" dict_budget "\<lambda>d n. dict_room T"
proof (unfold_locales, goal_cases)
  case (1 h w m n op)
  then show ?case using dict_exec_law [OF 1(1), of op] by (simp add: dict_law_def dict_budget_def)
next
  case (2 h w m n op)
  then show ?case using dict_exec_law [OF 2(1), of op] by (simp add: dict_law_def dict_budget_def)
next
  case (3 h w m n op h' w')
  have "dd_size h < 268435456" using 3(2) by (simp add: dict_budget_def)
  from dict_exec_law [OF 3(1) this, of op] 3(3) obtain m' where "dict_step T dt vf op m m'" "dict_state T dt vf l0 h' w' m'"
    "dd_size h' \<le> Suc (dd_size h)" "live w' - table_own (dd_tab0 h') = live w - table_own (dd_tab0 h)"
    "no_fail w \<longrightarrow> no_fail w'"
    by (auto simp: dict_law_def simp del: split_paired_Ex)
  then show ?case using 3(2) by (intro exI [of _ m']) (simp add: dict_budget_def)
qed

lemma dict_new_ok:
  assumes "types_ok T cmp"
  shows "case dict_new_typed dt cmp fk fv w of None \<Rightarrow> \<not> no_fail w
    | Some (d, w') \<Rightarrow> dict_state T dt fv (destroyed w) d w' (Map.empty, False, []) \<and> dd_size d = 0 \<and> dd_key_free d = fk
        \<and> table_own (dd_tab0 d) = 0 \<and> live w' = live w + 1 \<and> (no_fail w \<longrightarrow> no_fail w')"
proof -
  obtain ok w1 where m: "malloc 96 w = (ok, w1)" by fastforce
  with malloc_effect [OF m] assms show ?thesis
    by (cases ok) (auto simp: dict_new_typed_def calloc_def dict_state_def dict_rel_def tclean_def table_own_def
        dict_i_cap_def exp_cap_def value_at_bucket_def PTRDIFF_MAX_def)
qed

section \<open>Properties\<close>

text \<open>A run of insertions and searches on a new dictionary is memory safe and every probe loop
  ends. It is stuck only where the abstract map machine is: where a value is stored in a hash set, or
  where a dictionary without arrays is searched, which reads through a null pointer. It ends the process
  only when the allocator fails or the elements are too wide. Otherwise it ends with the map of the
  abstract machine: every search finds exactly the stored keys with the value stored last. Freeing it
  then releases every key but 0 once, and every value that is not null once, those that were dict_replaced
  included, and no block stays allocated.\<close>

theorem dict_typed_history:
  assumes "types_ok T cmp" and "fv \<Longrightarrow> dt = DICT_HASH_MAP" and "length ops \<le> 268435456"
  shows "case dict_new_typed dt cmp fk fv w of None \<Rightarrow> \<not> no_fail w
    | Some (d, w1) \<Rightarrow> (case typed_run (dict_exec T) ops d w1 of
        None \<Rightarrow> gets_stuck (dict_step T dt fv) ops (Map.empty, False, [])
      | Some Exit \<Rightarrow> \<not> (no_fail w1 \<and> dict_room T)
      | Some (Done (d', w2)) \<Rightarrow> \<exists>M a l ks vs w3.
          typed_steps (dict_step T dt fv) ops (Map.empty, False, []) (M, a, l)
          \<and> (\<forall>k. a \<longrightarrow> (\<exists>c. dict_find_typed T d' k = Some (d'\<lparr>dd_cursor := c\<rparr>)
                \<and> dict_found_typed T (d'\<lparr>dd_cursor := c\<rparr>) = Some (M k \<noteq> None)
                \<and> (dt = DICT_HASH_MAP \<longrightarrow> M k \<noteq> None \<longrightarrow> dict_cur_value (d'\<lparr>dd_cursor := c\<rparr>) = M k)))
          \<and> dict_free_typed T (Ptr d') w2 = Some (False, w3) \<and> live w3 = live w
          \<and> destroyed w3 = destroyed w @ l @ log_if (dd_key_free d') (map Inl ks) @ log_if fv (map Inr vs)
          \<and> distinct ks \<and> set ks = dom M - {dt_zero T} \<and> mset vs = filter_mset (\<lambda>v. v \<noteq> dt_null T) (dict_range_mset M))"
proof (cases "dict_new_typed dt cmp fk fv w")
  case None
  then show ?thesis using dict_new_ok [OF assms(1), where dt = dt and fk = fk and fv = fv and w = w] by simp
next
  case (Some r)
  then obtain d w1 where new: "dict_new_typed dt cmp fk fv w = Some (d, w1)" by (cases r) simp
  have d: "dict_state T dt fv (destroyed w) d w1 (Map.empty, False, [])" "dd_size d = 0"
    "table_own (dd_tab0 d) = 0" "live w1 = live w + 1"
    using dict_new_ok [OF assms(1), where dt = dt and fk = fk and fv = fv and w = w] unfolding new by simp_all
  have b: "dict_budget d (length ops)" using assms(3) d(2) by (simp add: dict_budget_def)
  note law = ddm.run_law [OF d(1) b]
  show ?thesis
  proof (cases "typed_run (dict_exec T) ops d w1" rule: outcome_cases)
    case (3 r)
    obtain d' w2 where r: "r = (d', w2)" by (cases r)
    obtain M a l where st: "typed_steps (dict_step T dt fv) ops (Map.empty, False, []) (M, a, l)"
      "dict_state T dt fv (destroyed w) d' w2 (M, a, l)"
      "live w2 - table_own (dd_tab0 d') = live w1 - table_own (dd_tab0 d)"
      using law unfolding 3 r by auto
    have S: "dict_rel T d' M" "dict_clean T d'" "dd_type d' = dt" "dd_value_free d' = fv"
      "t_exp (dd_tab0 d') \<noteq> - 1 \<longleftrightarrow> a" "destroyed w2 = destroyed w @ l"
      using st(2) by (simp_all add: dict_state_def)
    have find: "\<exists>c. dict_find_typed T d' k = Some (d'\<lparr>dd_cursor := c\<rparr>)
        \<and> dict_found_typed T (d'\<lparr>dd_cursor := c\<rparr>) = Some (M k \<noteq> None)
        \<and> (dt = DICT_HASH_MAP \<longrightarrow> M k \<noteq> None \<longrightarrow> dict_cur_value (d'\<lparr>dd_cursor := c\<rparr>) = M k)" if al: a for k
    proof -
      have ne: "t_exp (dd_tab0 d') \<noteq> - 1" using S(5) al by simp
      obtain c where c: "dict_find_typed T d' k = Some (d'\<lparr>dd_cursor := c\<rparr>)"
        "dict_found_typed T (d'\<lparr>dd_cursor := c\<rparr>) = Some (M k \<noteq> None)"
        "M k \<noteq> None \<longrightarrow> cursor_at T (d'\<lparr>dd_cursor := c\<rparr>) k"
        using dict_find_ok [OF S(1), of k] ne by blast
      have "dict_cur_value (d'\<lparr>dd_cursor := c\<rparr>) = M k" if "dt = DICT_HASH_MAP" "M k \<noteq> None"
      proof (rule cursor_at_value(1) [of T])
        from S(1) ne show "t_values (dd_tab0 (d'\<lparr>dd_cursor := c\<rparr>)) \<noteq> NULL"
          by (rule dict_rel_table) (use S(3) that(1) in simp)
      qed (use S(1) c(3) that(2) in simp_all)
      with c show ?thesis by blast
    qed
    obtain w3 ks vs where f: "dict_free_typed T (Ptr d') w2 = Some (False, w3)"
      "live w3 = live w2 - table_own (dd_tab0 d') - 1"
      "destroyed w3 = destroyed w2 @ log_if (dd_key_free d') (map Inl ks) @ log_if (dd_value_free d') (map Inr vs)"
      "distinct ks" "set ks = dom M - {dt_zero T}" "mset vs = filter_mset (\<lambda>v. v \<noteq> dt_null T) (dict_range_mset M)"
      using dict_free_ok [OF S(1), of w2] S(2-4) assms(2) by blast
    have "live w3 = live w" using f(2) st(3) d(3,4) by simp
    then show ?thesis
      unfolding new option.case prod.case 3 r outcome.case
      using st(1) find f(1,3-6) S(4,6)
      by (intro exI [of _ M] exI [of _ a] exI [of _ l] exI [of _ ks] exI [of _ vs] exI [of _ w3]) simp
  qed (use law new in simp_all)
qed

end
