(* ===== verification/Dict_Delete.thy ===== *)
theory Dict_Delete
  imports Dict_Props
begin

text \<open>
  Deletion in \<open>src/legacy/dict_typed.h\<close>. The loop that shifts entries back into the hole is
  correct in tables where no run of full buckets crosses the end of the arrays (here: the last
  bucket is empty). Otherwise it can cut off an entry from its home bucket, and it never clears
  the value of an entry it has moved; both are shown on concrete dictionaries.
\<close>

unbundle bit_operations_syntax

section \<open>Runs that do not wrap around\<close>

definition linear_ok :: "('k \<Rightarrow> nat) \<Rightarrow> ('k, 'v) slot list \<Rightarrow> bool" where
  "linear_ok H ts \<longleftrightarrow> (\<forall>i < length ts. \<forall>k v. ts ! i = Full k v \<longrightarrow>
     H k mod length ts \<le> i \<and> (\<forall>j. H k mod length ts \<le> j \<longrightarrow> j < i \<longrightarrow> ts ! j \<noteq> Free))"

lemma linear_table:
  assumes "distinct (map fst (entries ts))" and lin: "linear_ok H ts"
  shows "table_ok H ts"
  unfolding table_ok_def
proof (intro conjI assms(1) allI impI)
  fix i k v assume i: "i < length ts" "ts ! i = Full k v"
  let ?n = "length ts" and ?h = "H k mod length ts"
  have h: "?h \<le> i" "\<And>j. ?h \<le> j \<Longrightarrow> j < i \<Longrightarrow> ts ! j \<noteq> Free" using lin i by (auto simp: linear_ok_def)
  have step: "step_slot ts (H k) c = ?h + c" if "c \<le> i - ?h" for c
  proof -
    have "(H k + c) mod ?n = (?h + c) mod ?n" by (simp add: mod_simps)
    then show ?thesis using that h(1) i(1) by (simp add: step_slot_def)
  qed
  have "ts ! step_slot ts (H k) c \<noteq> Free" if "c < i - ?h" for c
    using step [of c] h(2) [of "?h + c"] that by simp
  moreover have "step_slot ts (H k) (i - ?h) = i" using step [of "i - ?h"] h(1) by simp
  ultimately show "reach ts (H k) i"
    using i(1) by (auto simp: reach_def intro!: exI [of _ "i - ?h"])
qed

lemma table_linear:
  assumes ok: "table_ok H ts" and last: "ts ! (length ts - 1) = Free"
  shows "linear_ok H ts"
  unfolding linear_ok_def
proof (intro allI impI)
  fix i k v assume i: "i < length ts" "ts ! i = Full k v"
  let ?n = "length ts" and ?h = "H k mod length ts"
  obtain d where d: "d < ?n" "step_slot ts (H k) d = i" "\<And>c. c < d \<Longrightarrow> ts ! step_slot ts (H k) c \<noteq> Free"
    using ok i by (auto simp: table_ok_def reach_def)
  have h: "?h < ?n" using i(1) by (intro mod_less_divisor) auto
  have step: "step_slot ts (H k) c = ?h + c" if "?h + c < ?n" for c
  proof -
    have "(H k + c) mod ?n = (?h + c) mod ?n" by (simp add: mod_simps)
    then show ?thesis using that by (simp add: step_slot_def)
  qed
  have "?h + d < ?n"
  proof (rule ccontr)
    assume "\<not> ?h + d < ?n"
    then have "?n - 1 - ?h < d" using h by linarith
    moreover have "step_slot ts (H k) (?n - 1 - ?h) = ?n - 1" using step [of "?n - 1 - ?h"] h by simp
    ultimately show False using d(3) [of "?n - 1 - ?h"] last by simp
  qed
  then have di: "i = ?h + d" using step d(2) by simp
  have "ts ! j \<noteq> Free" if "?h \<le> j" "j < i" for j
    using d(3) [of "j - ?h"] step [of "j - ?h"] that di i(1) by simp
  then show "?h \<le> i \<and> (\<forall>j. ?h \<le> j \<longrightarrow> j < i \<longrightarrow> ts ! j \<noteq> Free)" using di by simp
qed

text \<open>
  The invariant of the loop: bucket \<open>p\<close> is the hole, the buckets behind it up to \<open>c\<close> are full,
  and only entries behind \<open>c\<close> may have the hole between them and their home.
\<close>

definition hole_inv :: "('k \<Rightarrow> nat) \<Rightarrow> ('k, 'v) slot list \<Rightarrow> nat \<Rightarrow> nat \<Rightarrow> bool" where
  "hole_inv H ts p c \<longleftrightarrow> p \<le> c \<and> Suc c < length ts \<and> ts ! p = Free \<and> ts ! (length ts - 1) = Free
     \<and> (\<forall>i < length ts. \<forall>k v. ts ! i = Full k v \<longrightarrow> H k mod length ts \<le> i
          \<and> (\<forall>j. H k mod length ts \<le> j \<longrightarrow> j < i \<longrightarrow> ts ! j = Free \<longrightarrow> j = p)
          \<and> (i \<le> c \<longrightarrow> \<not> (H k mod length ts \<le> p \<and> p < i)))"

lemma hole_start:
  assumes lin: "linear_ok H ts" and i: "Suc i < length ts" and last: "ts ! (length ts - 1) = Free"
  shows "hole_inv H (ts[i := Free]) i i"
proof -
  have "H k mod length ts \<le> j \<and> (\<forall>l. H k mod length ts \<le> l \<longrightarrow> l < j \<longrightarrow> ts[i := Free] ! l = Free \<longrightarrow> l = i)"
    if j: "j < length ts" "ts[i := Free] ! j = Full k v" for j k v
  proof -
    have "ts ! j = Full k v" using j by (cases "j = i") simp_all
    then have l: "H k mod length ts \<le> j" "\<And>l. H k mod length ts \<le> l \<Longrightarrow> l < j \<Longrightarrow> ts ! l \<noteq> Free"
      using lin j(1) by (auto simp: linear_ok_def)
    have "l = i" if "H k mod length ts \<le> l" "l < j" "ts[i := Free] ! l = Free" for l
      using that l(2) [of l] by (cases "l = i") simp_all
    with l(1) show ?thesis by blast
  qed
  then show ?thesis
    using i last unfolding hole_inv_def length_list_update by (auto simp: nth_list_update)
qed

lemma hole_stop:
  assumes inv: "hole_inv H ts p c" and nx: "ts ! Suc c = Free"
  shows "linear_ok H ts"
  unfolding linear_ok_def
proof (intro allI impI conjI)
  fix i k v assume i: "i < length ts" "ts ! i = Full k v"
  let ?h = "H k mod length ts"
  have I: "?h \<le> i" "\<And>j. ?h \<le> j \<Longrightarrow> j < i \<Longrightarrow> ts ! j = Free \<Longrightarrow> j = p" "i \<le> c \<Longrightarrow> \<not> (?h \<le> p \<and> p < i)"
    using inv i unfolding hole_inv_def by blast+
  show "?h \<le> i" by (rule I(1))
  fix j assume j: "?h \<le> j" "j < i"
  show "ts ! j \<noteq> Free"
  proof
    assume "ts ! j = Free"
    then have p: "j = p" using I(2) j by blast
    then have "c < i" using I(3) j by (meson not_less)
    moreover have "i \<noteq> Suc c" using nx i(2) by auto
    ultimately have "Suc c < i" by simp
    moreover have "p \<le> c" using inv by (simp add: hole_inv_def)
    ultimately have "Suc c = p" using I(2) [of "Suc c"] j p nx by simp
    then show False using \<open>p \<le> c\<close> by simp
  qed
qed

lemma hole_skip:
  assumes inv: "hole_inv H ts p c" and nx: "ts ! Suc c = Full k v" and "p < H k mod length ts"
  shows "hole_inv H ts p (Suc c)"
proof -
  have "Suc c \<noteq> length ts - 1" using inv nx by (auto simp: hole_inv_def)
  then have "Suc (Suc c) < length ts" using inv by (auto simp: hole_inv_def)
  moreover have "p \<le> c" "ts ! p = Free" "ts ! (length ts - 1) = Free"
    and I: "\<forall>i < length ts. \<forall>l u. ts ! i = Full l u \<longrightarrow> H l mod length ts \<le> i
      \<and> (\<forall>j. H l mod length ts \<le> j \<longrightarrow> j < i \<longrightarrow> ts ! j = Free \<longrightarrow> j = p)
      \<and> (i \<le> c \<longrightarrow> \<not> (H l mod length ts \<le> p \<and> p < i))"
    using inv unfolding hole_inv_def by blast+
  moreover have "\<not> (H l mod length ts \<le> p \<and> p < i)" if "i < length ts" "ts ! i = Full l u" "i \<le> Suc c" for i l u
  proof (cases "i = Suc c")
    case True
    then have "l = k" using that(2) nx by simp
    then show ?thesis using assms(3) by simp
  next
    case False
    then have "i \<le> c" using that(3) by simp
    then show ?thesis using I that(1,2) by blast
  qed
  ultimately show ?thesis unfolding hole_inv_def by (meson le_SucI)
qed

lemma hole_move:
  assumes inv: "hole_inv H ts p c" and nx: "ts ! Suc c = Full k v" and home: "H k mod length ts \<le> p"
  shows "hole_inv H (ts[p := Full k v, Suc c := Free]) (Suc c) (Suc c)"
proof -
  let ?us = "ts[p := Full k v, Suc c := Free]"
  have I: "p \<le> c" "Suc c < length ts" "ts ! p = Free" "ts ! (length ts - 1) = Free"
    "\<And>i l u. i < length ts \<Longrightarrow> ts ! i = Full l u \<Longrightarrow> H l mod length ts \<le> i"
    "\<And>i l u j. i < length ts \<Longrightarrow> ts ! i = Full l u \<Longrightarrow> H l mod length ts \<le> j \<Longrightarrow> j < i \<Longrightarrow> ts ! j = Free \<Longrightarrow> j = p"
    using inv unfolding hole_inv_def by blast+
  have "Suc c \<noteq> length ts - 1" using nx I(4) by auto
  then have c: "Suc (Suc c) < length ts" using I(2) by simp
  have nth: "?us ! j = (if j = Suc c then Free else if j = p then Full k v else ts ! j)" if "j < length ts" for j
    using that I(1,2) by (simp add: nth_list_update)
  have "H l mod length ts \<le> i \<and> (\<forall>j. H l mod length ts \<le> j \<longrightarrow> j < i \<longrightarrow> ?us ! j = Free \<longrightarrow> j = Suc c)"
    if i: "i < length ts" "?us ! i = Full l u" for i l u
  proof (cases "i = p")
    case True
    then have l: "l = k" using i nth [OF i(1)] I(1) by simp
    have "j = Suc c" if "H k mod length ts \<le> j" "j < p" "?us ! j = Free" for j
    proof -
      have "ts ! j = Free" using that nth [of j] I(1,2) by simp
      then have "j = p" using I(6) [OF I(2) nx that(1)] that(2) I(1) by simp
      then show ?thesis using that(2) by simp
    qed
    then show ?thesis using True l home by blast
  next
    case False
    then have old: "ts ! i = Full l u" using i nth [OF i(1)] by (simp split: if_splits)
    have "j = Suc c" if "H l mod length ts \<le> j" "j < i" "?us ! j = Free" for j
      using that nth [of j] i(1) I(6) [OF i(1) old that(1,2)] by (auto split: if_splits)
    then show ?thesis using I(5) [OF i(1) old] by blast
  qed
  moreover have "?us ! (length ts - 1) = Free" using nth [of "length ts - 1"] I(1,2,4) c by simp
  ultimately show ?thesis
    using c nth [of "Suc c"] unfolding hole_inv_def length_list_update by auto
qed

text \<open>Moving an entry keeps the multiset of entries.\<close>

lemma mset_entries_update:
  "i < length ts \<Longrightarrow> mset (entries (ts[i := s])) + mset (entries [ts ! i]) = mset (entries ts) + mset (entries [s])"
  by (subst entries_split(1) [of i ts], assumption, subst entries_split(2) [of i ts s], assumption) (simp add: ac_simps)

lemma entries_same:
  assumes ok: "table_ok H ts" and "mset (entries us) = mset (entries ts)"
  shows "distinct (map fst (entries us))" "content us = content ts" "length (entries us) = length (entries ts)"
proof -
  have "mset (map fst (entries us)) = mset (map fst (entries ts))" using assms(2) by simp
  then show d: "distinct (map fst (entries us))" using ok by (metis mset_eq_imp_distinct_iff table_ok_def)
  show "length (entries us) = length (entries ts)" using assms(2) by (metis size_mset)
  show "content us = content ts"
    unfolding content_def
    using map_of_inject_set [OF d, of "entries ts"] ok mset_eq_setD [OF assms(2)] by (simp add: table_ok_def)
qed

section \<open>The shift loop on the arrays\<close>

lemma dview_erase:
  assumes t: "shaped T cap t" and i: "i < cap"
    and t': "t_exp t' = t_exp t" "t_keys t' = Ptr ((array_cells (t_keys t))[Suc i := dt_zero T])" "t_hashes t' = t_hashes t"
    and vals: "t_values t' = NULL \<longleftrightarrow> t_values t = NULL" "length (array_cells (t_values t')) = length (array_cells (t_values t))"
      "\<And>j. j \<noteq> Suc i \<Longrightarrow> value_at_bucket T t' j = value_at_bucket T t j"
  shows "shaped T cap t'" "dview T t' = (dview T t)[i := Free]"
proof -
  note D = shapedD [OF t]
  show s: "shaped T cap t'"
    using t i vals(1,2) by (auto simp: shaped_def t' nth_list_update)
  show "dview T t' = (dview T t)[i := Free]"
  proof (rule nth_equalityI)
    show "length (dview T t') = length ((dview T t)[i := Free])" using dview_length [OF s] dview_length [OF t] by simp
    fix j assume "j < length (dview T t')"
    then have j: "j < cap" using dview_length [OF s] by simp
    show "dview T t' ! j = (dview T t)[i := Free] ! j"
      using dview_nth(1) [OF s j] dview_nth(1) [OF t j] dview_length [OF t] i j D(4) vals(3) [of "Suc j"]
      by (auto simp: t' nth_list_update)
  qed
qed

lemma dict_shift_loop_ok:
  assumes "shaped T cap t" and "hole_inv (dhash T) (dview T t) p c" and "cap < n + c"
  shows "\<exists>t'. dict_shift_loop T n (int p) (int c) t = Some t' \<and> shaped T cap t'
    \<and> linear_ok (dhash T) (dview T t') \<and> mset (entries (dview T t')) = mset (entries (dview T t))
    \<and> (t_values t' = NULL \<longleftrightarrow> t_values t = NULL) \<and> value_at_bucket T t' 0 = value_at_bucket T t 0"
  using assms
proof (induction n arbitrary: t p c)
  case 0
  then show ?case using dview_length [OF "0.prems"(1)] by (simp add: hole_inv_def)
next
  case (Suc n)
  let ?ts = "dview T t"
  note t = Suc.prems(1) and inv = Suc.prems(2)
  note D = shapedD [OF t] and len = dview_length [OF t]
  have lt: "p \<le> c" "Suc c < cap" using inv len by (simp_all add: hole_inv_def)
  have "nat (int c + 1) = Suc c" by simp
  then have cur: "c_int (nat (int c + 1) AND dict_i_mask t) = int (Suc c)"
    using masked [OF t, of "Suc c"] lt(2) by simp
  note V = dview_nth [OF t lt(2)]
  define k where "k = array_cells (t_keys t) ! Suc (Suc c)"
  have get: "arr_get (t_keys t) (int (Suc c)) = Some k" unfolding k_def by (rule V(2))
  show ?case
  proof (cases "k = dt_zero T")
    case True
    then have "?ts ! Suc c = Free" using V(1) by (simp add: k_def)
    from hole_stop [OF inv this] show ?thesis
      using t by (simp add: Let_def cur get True del: of_nat_Suc)
  next
    case False
    define v where "v = value_at_bucket T t (Suc (Suc c))"
    have full: "?ts ! Suc c = Full k v" using V(1) False by (simp add: k_def v_def)
    have hash: "(if t_hashes t \<noteq> NULL then arr_get (t_hashes t) (int (Suc c)) else Some (dt_hash T k)) = Some (dt_hash T k)"
      using V(3) D(9) [OF _ lt(2)] False by (simp add: k_def del: of_nat_Suc)
    have home: "c_int (unat (dt_hash T k) AND dict_i_mask t) = int (dhash T k mod cap)"
      using masked [OF t] by (simp add: dhash_def)
    have le: "dhash T k mod cap \<le> Suc c"
      using inv full lt(2) len unfolding hole_inv_def by auto
    have step: "dict_shift_loop T (Suc n) (int p) (int c) t =
      (if dhash T k mod cap \<le> p
       then do {
         t1 \<leftarrow> dict_move_entry t (int (Suc c)) t (int p);
         ks \<leftarrow> arr_put (t_keys t1) (int (Suc c)) (dt_zero T);
         dict_shift_loop T n (int (Suc c)) (int (Suc c)) (t1\<lparr>t_keys := ks\<rparr>) }
       else dict_shift_loop T n (int p) (int (Suc c)) t)"
    proof -
      have cond: "(int p < int (Suc c) \<and> int (dhash T k mod cap) \<le> int p
          \<or> int (Suc c) < int (dhash T k mod cap) \<and> int (dhash T k mod cap) \<le> int p) \<longleftrightarrow> dhash T k mod cap \<le> p"
        using lt(1) le by linarith
      show ?thesis
        unfolding dict_shift_loop.simps Let_def cur get Option.bind.simps hash home cond using False by simp
    qed
    show ?thesis
    proof (cases "dhash T k mod cap \<le> p")
      case True
      have ps: "p < cap" using lt by simp
      obtain t1 where t1: "dict_move_entry t (int (Suc c)) t (int p) = Some t1" "shaped T cap t1" "t_exp t1 = t_exp t"
        "dview T t1 = ?ts[p := Full k v]" "t_values t1 = NULL \<longleftrightarrow> t_values t = NULL"
        "array_cells (t_keys t1) = (array_cells (t_keys t))[Suc p := k]"
        "\<forall>j. j \<noteq> Suc p \<longrightarrow> value_at_bucket T t1 j = value_at_bucket T t j"
        using dict_move_entry_ok [OF t t lt(2) full ps refl] by blast
      let ?ks = "Ptr ((array_cells (t_keys t1))[Suc (Suc c) := dt_zero T])"
      let ?t2 = "t1\<lparr>t_keys := ?ks\<rparr>"
      have put: "arr_put (t_keys t1) (int (Suc c)) (dt_zero T) = Some ?ks"
        using shapedD(4) [OF t1(2)] lt(2) by (simp del: of_nat_Suc)
      have t2: "shaped T cap ?t2" "dview T ?t2 = ?ts[p := Full k v, Suc c := Free]"
        using dview_erase [OF t1(2) lt(2), of ?t2] by (simp_all add: t1(4))
      have "hole_inv (dhash T) (dview T ?t2) (Suc c) (Suc c)"
        unfolding t2(2) by (rule hole_move [OF inv full]) (use True len in simp)
      moreover have "cap < n + Suc c" using Suc.prems(3) by simp
      ultimately obtain t' where t': "dict_shift_loop T n (int (Suc c)) (int (Suc c)) ?t2 = Some t'" "shaped T cap t'"
        "linear_ok (dhash T) (dview T t')" "mset (entries (dview T t')) = mset (entries (dview T ?t2))"
        "t_values t' = NULL \<longleftrightarrow> t_values ?t2 = NULL" "value_at_bucket T t' 0 = value_at_bucket T ?t2 0"
        using Suc.IH [OF t2(1), of "Suc c" "Suc c"] by blast
      have "?ts ! p = Free" using inv by (simp add: hole_inv_def)
      moreover have "?ts[p := Full k v] ! Suc c = Full k v" using full lt by simp
      ultimately have "mset (entries (dview T ?t2)) = mset (entries ?ts)"
        using mset_entries_update [of p ?ts "Full k v"] mset_entries_update [of "Suc c" "?ts[p := Full k v]" Free]
          ps lt(2) len unfolding t2(2) by simp
      then show ?thesis
        unfolding step using True t1(1,5,7) put t' by (simp del: of_nat_Suc)
    next
      case no: False
      have "hole_inv (dhash T) ?ts p (Suc c)"
        by (rule hole_skip [OF inv full]) (use no len in simp)
      moreover have "cap < n + Suc c" using Suc.prems(3) by simp
      ultimately show ?thesis
        unfolding step using no Suc.IH [OF t, of p "Suc c"] by (simp del: of_nat_Suc)
    qed
  qed
qed

section \<open>Deletion\<close>

text \<open>What the callbacks receive when the entry of a key is deleted.\<close>

definition released :: "bool \<Rightarrow> bool \<Rightarrow> 'k \<Rightarrow> 'v option \<Rightarrow> ('k + 'v) list" where
  "released kf vf k v = (case v of None \<Rightarrow> [] | Some x \<Rightarrow> log_if kf [Inl k] @ log_if vf [Inr x])"

lemma dict_delete_ok:
  assumes rel: "dict_rel T d M" and some: "t_exp (dd_tab0 d) \<noteq> - 1"
    and last: "arr_get (t_keys (dd_tab0 d)) (int (dict_i_cap (dd_tab0 d)) - 1) = Some (dt_zero T)"
    and vf: "dd_value_free d \<Longrightarrow> dd_type d = DICT_HASH_MAP"
  shows "\<exists>d' w'. dict_delete_typed T d key w = Some (d', w') \<and> dict_rel T d' (M(key := None))
    \<and> dict_conf d' = dict_conf d \<and> table_own (dd_tab0 d') = table_own (dd_tab0 d) \<and> live w' = live w
    \<and> destroyed w' = destroyed w @ released (dd_key_free d) (dd_value_free d) key (M key)"
proof -
  let ?t = "dd_tab0 d" and ?z = "dt_zero T"
  from rel some obtain cap where R: "shaped T cap ?t" "table_ok (dhash T) (dview T ?t)"
    "t_values ?t = NULL \<longleftrightarrow> dd_type d = DICT_HASH_SET"
    "dd_size d = length (entries (dview T ?t)) + of_bool (dd_zero_occupied d)" "4 * dd_size d < 3 * cap"
    "types_ok T (dd_key_cmp d)"
    "M = (content (dview T ?t))(?z := (if dd_zero_occupied d then Some (value_at_bucket T ?t 0) else None))"
    by (rule dict_rel_table)
  note D = shapedD [OF R(1)] and len = dview_length [OF R(1)]
  obtain c where c: "dict_find_typed T d key = Some (d\<lparr>dd_cursor := c\<rparr>)"
    "dict_found_typed T (d\<lparr>dd_cursor := c\<rparr>) = Some (M key \<noteq> None)"
    "if key = ?z then c = - 1
     else \<exists>i < dict_i_cap ?t. c = int i \<and> reach (dview T ?t) (dhash T key) i
       \<and> dview T ?t ! i = (case M key of None \<Rightarrow> Free | Some v \<Rightarrow> Full key v)"
    "M key \<noteq> None \<longrightarrow> cursor_at T (d\<lparr>dd_cursor := c\<rparr>) key"
    using dict_find_ok [OF rel, of key] some by blast
  let ?d = "d\<lparr>dd_cursor := c\<rparr>"
  show ?thesis
  proof (cases "M key")
    case None
    then have "M(key := None) = M" by (simp add: fun_upd_idem)
    moreover have "dict_delete_typed T d key w = Some (?d, w)"
      using c(1,2) None by (simp add: dict_delete_typed_def)
    ultimately show ?thesis using rel None by (simp add: released_def)
  next
    case (Some x)
    have size: "0 < dd_size d"
    proof (cases "dd_zero_occupied d")
      case False
      then have "content (dview T ?t) key \<noteq> None" using Some R(7) by (auto split: if_splits)
      then have "entries (dview T ?t) \<noteq> []" by (auto simp: content_def)
      then show ?thesis using R(4) by simp
    qed (use R(4) in simp)
    let ?n = "dd_size d - 1"
    have n: "sz_sub (dd_size ?d) 1 = ?n" using size R(5) D(3) by (simp add: SIZE_MAX_def)
    have rel2: "dict_rel T ?d M" and vals2: "t_values ?t \<noteq> NULL" if "dd_value_free d"
      using rel R(3) vf [OF that] by simp_all
    have cv: "dict_cur_value ?d = Some x" if "dd_value_free d"
      using cursor_at_value(1) [OF rel2 [OF that]] c(4) Some vals2 [OF that] by simp
    define w2 where "w2 = (if dd_value_free d
      then destroy_element True (Inr x) (destroy_element (dd_key_free d) (Inl key) w)
      else destroy_element (dd_key_free d) (Inl key) w)"
    have w2: "live w2 = live w"
      "destroyed w2 = destroyed w @ released (dd_key_free d) (dd_value_free d) key (M key)"
      using Some by (simp_all add: w2_def released_def log_if_def)
    show ?thesis
    proof (cases "key = ?z")
      case True
      have c1: "c = - 1" using c(3) True by simp
      have zo: "dd_zero_occupied d" using c(4) Some True by (simp add: cursor_at_def)
      have curk: "dict_cur_key ?d = Some key" using c1 True D(4,5) by (simp add: dict_cur_key_def)
      let ?ks = "Ptr ((array_cells (t_keys ?t))[0 := ?z])"
      let ?vs = "if dd_value_free d then Ptr ((array_cells (t_values ?t))[0 := dt_null T]) else t_values ?t"
      define t1 where "t1 = ?t\<lparr>t_keys := ?ks, t_values := ?vs\<rparr>"
      have puts: "arr_put (t_keys ?t) c ?z = Some ?ks"
        "dd_value_free d \<Longrightarrow> arr_put (t_values ?t) c (dt_null T) = Some ?vs"
        using c1 D(4,6) vals2 by simp_all
      let ?e = "?d\<lparr>dd_size := ?n, dd_zero_occupied := False, dd_tab0 := t1\<rparr>"
      have del: "dict_delete_typed T d key w = Some (?e, w2)"
        using c(1,2) Some curk puts cv n c1
        by (cases "dd_value_free d") (simp_all add: dict_delete_typed_def Let_def w2_def t1_def)
      have vs: "t_values t1 = (if t_values ?t = NULL then NULL
          else Ptr ((array_cells (t_values ?t))[0 := if dd_value_free d then dt_null T else array_cells (t_values ?t) ! 0]))"
        unfolding t1_def using vals2 by (cases "t_values ?t") auto
      have hs: "t_hashes t1 = (if t_hashes ?t = NULL then NULL else Ptr ((array_cells (t_hashes ?t))[0 := array_cells (t_hashes ?t) ! 0]))"
        unfolding t1_def by (cases "t_hashes ?t") simp_all
      have ke: "t_exp t1 = t_exp ?t" "t_keys t1 = Ptr ((array_cells (t_keys ?t))[0 := ?z])" by (simp_all add: t1_def)
      note F = dview_first [OF R(1) ke hs vs]
      have vals1: "t_values t1 = NULL \<longleftrightarrow> t_values ?t = NULL" by (simp add: vs)
      have "dict_rel T ?e (M(key := None))"
        unfolding dict_rel_def using F(1,2) some R zo True ke(1) vals1 by (auto intro!: exI [of _ cap])
      moreover have "table_own t1 = table_own ?t" using shaped_own [OF F(1)] shaped_own [OF R(1)] vals1 by simp
      ultimately show ?thesis using del w2 by (intro exI [of _ ?e] exI [of _ w2]) simp
    next
      case False
      then obtain i where i: "i < cap" "c = int i" "dview T ?t ! i = Full key x"
        using c(3) D(1) Some by auto
      have k: "array_cells (t_keys ?t) ! Suc i = key"
        using dview_nth(1) [OF R(1) i(1)] i(3) by (simp split: if_splits)
      have lastF: "dview T ?t ! (cap - 1) = Free"
      proof -
        have "int (dict_i_cap ?t) - 1 = int (cap - 1)" "cap - 1 < cap" using D(1,2) by simp_all
        then show ?thesis using last dview_nth [OF R(1), of "cap - 1"] by simp
      qed
      have si: "Suc i < cap"
      proof (rule ccontr)
        assume "\<not> Suc i < cap"
        then have "i = cap - 1" using i(1) by simp
        then show False using i(3) lastF by simp
      qed
      have curk: "dict_cur_key ?d = Some key" using i(1,2) k D(4) by (simp add: dict_cur_key_def)
      let ?ks = "Ptr ((array_cells (t_keys ?t))[Suc i := ?z])"
      let ?vs = "if dd_value_free d then Ptr ((array_cells (t_values ?t))[Suc i := dt_null T]) else t_values ?t"
      let ?t1 = "?t\<lparr>t_keys := ?ks, t_values := ?vs\<rparr>"
      have puts: "arr_put (t_keys ?t) c ?z = Some ?ks"
        "dd_value_free d \<Longrightarrow> arr_put (t_values ?t) c (dt_null T) = Some ?vs"
        using i(1,2) D(4,6) vals2 by simp_all
      have vals1: "t_values ?t1 = NULL \<longleftrightarrow> t_values ?t = NULL" using vals2 by auto
      have val: "value_at_bucket T ?t1 j = value_at_bucket T ?t j" if "j \<noteq> Suc i" for j
        using that vals2 by (cases "t_values ?t") (auto simp: value_at_bucket_def)
      have t1: "shaped T cap ?t1" "dview T ?t1 = (dview T ?t)[i := Free]"
        using dview_erase [OF R(1) i(1), of ?t1, OF _ _ _ vals1 _ val] by simp_all
      have "linear_ok (dhash T) (dview T ?t)"
        by (rule table_linear [OF R(2)]) (use lastF len in simp)
      then have "hole_inv (dhash T) (dview T ?t1) i i"
        unfolding t1(2) by (rule hole_start) (use si len lastF in simp_all)
      moreover have "dict_i_cap ?t1 = cap" by (rule shapedD(1) [OF t1(1)])
      ultimately obtain t2 where t2: "dict_shift_loop T (Suc (dict_i_cap ?t1)) c c ?t1 = Some t2" "shaped T cap t2"
        "linear_ok (dhash T) (dview T t2)" "mset (entries (dview T t2)) = mset (entries (dview T ?t1))"
        "t_values t2 = NULL \<longleftrightarrow> t_values ?t1 = NULL" "value_at_bucket T t2 0 = value_at_bucket T ?t1 0"
        using dict_shift_loop_ok [OF t1(1), of i i "Suc cap"] i(2) by auto
      let ?e = "?d\<lparr>dd_size := ?n, dd_tab0 := t2\<rparr>"
      have del: "dict_delete_typed T d key w = Some (?e, w2)"
        using c(1,2) Some curk puts cv n t2(1) i(2)
        by (cases "dd_value_free d") (simp_all add: dict_delete_typed_def Let_def w2_def del: dict_shift_loop.simps)
      have split: "entries (dview T ?t) = entries (take i (dview T ?t)) @ (key, x) # entries (drop (Suc i) (dview T ?t))"
        "entries (dview T ?t1) = entries (take i (dview T ?t)) @ entries (drop (Suc i) (dview T ?t))"
        using entries_split(1) [of i "dview T ?t"] entries_split(2) [of i "dview T ?t" Free] i(1,3) len
        unfolding t1(2) by simp_all
      have dist: "distinct (map fst (entries (dview T ?t)))" using R(2) by (simp add: table_ok_def)
      have ms: "mset (map fst (entries (dview T t2))) = mset (map fst (entries (dview T ?t1)))"
        using t2(4) by simp
      have d1: "distinct (map fst (entries (dview T ?t1)))" using dist unfolding split by simp
      then have d2: "distinct (map fst (entries (dview T t2)))" using ms by (metis mset_eq_imp_distinct_iff)
      have ok: "table_ok (dhash T) (dview T t2)" by (rule linear_table [OF d2 t2(3)])
      have "content (dview T t2) = content (dview T ?t1)"
        unfolding content_def using map_of_inject_set [OF d2 d1] mset_eq_setD [OF t2(4)] by simp
      also have "\<dots> = (content (dview T ?t))(key := None)"
      proof -
        have "map_of (entries (take i (dview T ?t))) key = None" "map_of (entries (drop (Suc i) (dview T ?t))) key = None"
          using dist unfolding split by (auto simp: map_of_eq_None_iff)
        then show ?thesis
          unfolding content_def split by (auto simp: fun_eq_iff map_add_def split: option.split)
      qed
      finally have con: "content (dview T t2) = (content (dview T ?t))(key := None)" .
      have "length (entries (dview T t2)) = length (entries (dview T ?t)) - 1"
        using t2(4) split by (metis One_nat_def add_Suc_right diff_Suc_1 length_Cons length_append size_mset)
      moreover have "0 < length (entries (dview T ?t))" unfolding split by simp
      ultimately have "?n = length (entries (dview T t2)) + of_bool (dd_zero_occupied d)" using R(4) by simp
      moreover have "value_at_bucket T t2 0 = value_at_bucket T ?t 0" using t2(6) val [of 0] by simp
      ultimately have "dict_rel T ?e (M(key := None))"
        unfolding dict_rel_def
        using ok con t2(2,5) vals1 R(3,5-7) False shaped_not_none [OF t2(2)]
        by (auto simp: fun_upd_twist intro!: exI [of _ cap])
      moreover have "table_own t2 = table_own ?t"
        using shaped_own [OF t2(2)] shaped_own [OF R(1)] t2(5) vals1 by simp
      ultimately show ?thesis using del w2 by (intro exI [of _ ?e] exI [of _ w2]) simp
    qed
  qed
qed

end
