(* ===== verification/Dict_Examples.thy ===== *)
theory Dict_Examples
  imports Dict_Delete
begin

text \<open>
  The dictionaries from \<open>int\<close> to pointers of \<open>src/legacy/dict_typed.h\<close> (\<open>dict_def(ints, int, char*)\<close>),
  evaluated on two short runs that show what \<open>dict_delete\<close> does when the last bucket is occupied
  and when values are released. \<open>dict_delete_ok\<close> is its contract for an empty last bucket.
\<close>

unbundle bit_operations_syntax

section \<open>Dictionaries with \<open>int\<close> keys\<close>

definition ints_dict :: "(32 word, nat) dict_types" where
  "ints_dict = \<lparr>dt_zero = 0, dt_null = 0, dt_key_bytes = 4, dt_val_bytes = 8,
     dt_hash = (\<lambda>k. scalar_hash (scast k)), dt_hashed = False\<rparr>"

definition ints_cmp :: "32 word \<Rightarrow> 32 word \<Rightarrow> int" where
  "ints_cmp a b = sint a - sint b"

lemma ints_types_ok: "types_ok ints_dict ints_cmp"
  by (auto simp: types_ok_def ints_cmp_def intro: signed_word_eqI)

lemma find_loop_numeral: "dict_find_loop T cmp t key h (numeral m) c = do {
     k \<leftarrow> arr_get (t_keys t) c;
     if k = dt_zero T then Some c
     else do {
       stop \<leftarrow> (if t_hashes t = NULL then Some (cmp k key = 0)
         else do { g \<leftarrow> arr_get (t_hashes t) c; Some (g = h \<and> cmp k key = 0) });
       if stop then Some c
       else dict_find_loop T cmp t key h (pred_numeral m) (c_int (nat (c + 1) AND dict_i_mask t)) } }"
  by (simp add: numeral_eq_Suc)

lemma shift_loop_numeral: "dict_shift_loop T (numeral m) prev cur t =
     (let cur = c_int (nat (cur + 1) AND dict_i_mask t) in do {
      k \<leftarrow> arr_get (t_keys t) cur;
      if k = dt_zero T then Some t
      else do {
        h \<leftarrow> (if t_hashes t \<noteq> NULL then arr_get (t_hashes t) cur else Some (dt_hash T k));
        let p = c_int (unat h AND dict_i_mask t) in
        if prev < cur \<and> p \<le> prev \<or> cur < p \<and> p \<le> prev
        then do {
          t1 \<leftarrow> dict_move_entry t cur t prev;
          ks \<leftarrow> arr_put (t_keys t1) cur (dt_zero T);
          dict_shift_loop T (pred_numeral m) cur cur (t1\<lparr>t_keys := ks\<rparr>) }
        else dict_shift_loop T (pred_numeral m) prev cur t } })"
  by (simp only: numeral_eq_Suc dict_shift_loop.simps)

lemma replicate_nine: "replicate 9 x = [x, x, x, x, x, x, x, x, x]"
  by (simp add: numeral_eq_Suc)

lemmas dict_eval = dict_set_typed_def dict_set_key_typed_def dict_expand_typed_def dict_alloc_typed_def calloc_def
  malloc_def script_def next_outcome_def no_table_def dict_i_cap_def exp_cap_def DICT_INIT_EXP_def ints_dict_def
  ints_cmp_def Let_def PTRDIFF_MAX_def SIZE_MAX_def dict_find_typed_def dict_probe_def find_loop_numeral
  replicate_nine scalar_hash_def c_int_def dict_i_mask_def arr_get_def arr_put_def arr_put_if_def
  dict_found_typed_def dict_cur_value_def dict_cur_key_def free_ptr_def free_block_def dict_delete_typed_def
  shift_loop_numeral dict_move_entry_def destroy_element_def dict_free_typed_def dict_new_typed_def

text \<open>A dictionary of the first eight buckets, whose values a callback releases.\<close>

definition ints_table :: "size_t \<Rightarrow> 32 word list \<Rightarrow> nat list \<Rightarrow> int \<Rightarrow> (32 word, nat) dict_typed" where
  "ints_table n ks vs c = \<lparr>dd_size = n, dd_zero_occupied = False, dd_type = DICT_HASH_MAP, dd_key_cmp = ints_cmp,
     dd_key_free = False, dd_value_free = True,
     dd_tab0 = \<lparr>t_exp = 3, t_keys = Ptr ks, t_values = Ptr vs, t_hashes = NULL\<rparr>,
     dd_tab1 = \<lparr>t_exp = 3, t_keys = NULL, t_values = NULL, t_hashes = NULL\<rparr>, dd_cursor = c\<rparr>"

definition ints_world :: "(32 word + nat) list \<Rightarrow> (32 word, nat) dict_world" where
  "ints_world l = \<lparr>allocs = [], copies = [], destroyed = l, live = 3\<rparr>"

lemmas ints_eval = dict_eval ints_table_def ints_world_def

text \<open>Three keys that share their home bucket, the last one.\<close>

lemma ints_run_wrapped:
  "typed_run (dict_exec ints_dict) [DSet 7 1, DSet 15 2, DSet 23 3]
     (fst (the (dict_new_typed DICT_HASH_MAP ints_cmp False True (script [] []))))
     (snd (the (dict_new_typed DICT_HASH_MAP ints_cmp False True (script [] []))))
   = Some (Done (ints_table 3 [0, 15, 23, 0, 0, 0, 0, 0, 7] [0, 2, 3, 0, 0, 0, 0, 0, 1] 1, ints_world []))"
  by (simp add: ints_eval)

lemma ints_delete_wrapped:
  "dict_delete_typed ints_dict (ints_table 3 [0, 15, 23, 0, 0, 0, 0, 0, 7] [0, 2, 3, 0, 0, 0, 0, 0, 1] 1) 15 (ints_world [])
   = Some (ints_table 2 [0, 0, 23, 0, 0, 0, 0, 0, 7] [0, 0, 3, 0, 0, 0, 0, 0, 1] 0, ints_world [Inr 2])"
  by (simp add: ints_eval)

lemma ints_find_wrapped:
  "dict_find_typed ints_dict (ints_table 2 [0, 0, 23, 0, 0, 0, 0, 0, 7] [0, 0, 3, 0, 0, 0, 0, 0, 1] 0) 23
   = Some (ints_table 2 [0, 0, 23, 0, 0, 0, 0, 0, 7] [0, 0, 3, 0, 0, 0, 0, 0, 1] 0)"
  "dict_found_typed ints_dict (ints_table 2 [0, 0, 23, 0, 0, 0, 0, 0, 7] [0, 0, 3, 0, 0, 0, 0, 0, 1] 0) = Some False"
  by (simp_all add: ints_eval)

text \<open>Two keys that share their home bucket, the first one.\<close>

lemma ints_run_shared:
  "typed_run (dict_exec ints_dict) [DSet 8 1, DSet 16 2]
     (fst (the (dict_new_typed DICT_HASH_MAP ints_cmp False True (script [] []))))
     (snd (the (dict_new_typed DICT_HASH_MAP ints_cmp False True (script [] []))))
   = Some (Done (ints_table 2 [0, 8, 16, 0, 0, 0, 0, 0, 0] [0, 1, 2, 0, 0, 0, 0, 0, 0] 1, ints_world []))"
  by (simp add: ints_eval)

lemma ints_delete_shared:
  "dict_delete_typed ints_dict (ints_table 2 [0, 8, 16, 0, 0, 0, 0, 0, 0] [0, 1, 2, 0, 0, 0, 0, 0, 0] 1) 8 (ints_world [])
   = Some (ints_table 1 [0, 16, 0, 0, 0, 0, 0, 0, 0] [0, 2, 2, 0, 0, 0, 0, 0, 0] 0, ints_world [Inr 1])"
  by (simp add: ints_eval)

lemma ints_free_shared:
  "dict_free_typed ints_dict (Ptr (ints_table 1 [0, 16, 0, 0, 0, 0, 0, 0, 0] [0, 2, 2, 0, 0, 0, 0, 0, 0] 0)) (ints_world [Inr 1])
   = Some (False, \<lparr>allocs = [], copies = [], destroyed = [Inr 1, Inr 2, Inr 2], live = 0\<rparr>)"
  by (simp add: ints_eval upto_rec1)

section \<open>Two defects of deletion\<close>

definition ints_new :: "(32 word, nat) dict_typed \<times> (32 word, nat) dict_world" where
  "ints_new = the (dict_new_typed DICT_HASH_MAP ints_cmp False True (script [] []))"

text \<open>
  The test of the shift loop does not move an entry across the end of the array into a hole before it: it
  has no case for a hole at the front whose entry has its home in the last bucket. After three
  insertions that share the last bucket, deleting the second key leaves a hole between the first and the
  third, and \<open>dict_find\<close> does not find the third key any more.
\<close>

theorem dict_delete_loses_key:
  "\<exists>d w d' w' d''. typed_run (dict_exec ints_dict) [DSet 7 1, DSet 15 2, DSet 23 3] (fst ints_new) (snd ints_new) = Some (Done (d, w))
    \<and> dict_delete_typed ints_dict d 15 w = Some (d', w')
    \<and> dict_find_typed ints_dict d' 23 = Some d'' \<and> dict_found_typed ints_dict d'' = Some False"
  unfolding ints_new_def using ints_run_wrapped ints_delete_wrapped ints_find_wrapped by blast

text \<open>
  An entry that is shifted back leaves its value behind, and \<open>dict_free\<close> releases every value that is not
  zero, of empty buckets too: after two insertions that share a bucket and the deletion of the first, the
  value of the second is released twice.
\<close>

theorem dict_free_releases_twice:
  "\<exists>d w d' w' w''. typed_run (dict_exec ints_dict) [DSet 8 1, DSet 16 2] (fst ints_new) (snd ints_new) = Some (Done (d, w))
    \<and> dict_delete_typed ints_dict d 8 w = Some (d', w')
    \<and> dict_free_typed ints_dict (Ptr d') w' = Some (False, w'') \<and> destroyed w'' = [Inr 1, Inr 2, Inr 2]"
proof -
  let ?w = "\<lparr>allocs = [], copies = [], destroyed = [Inr 1, Inr 2, Inr 2], live = 0\<rparr> :: (32 word, nat) dict_world"
  have "destroyed ?w = [Inr 1, Inr 2, Inr 2]" by simp
  then show ?thesis
    unfolding ints_new_def using ints_run_shared ints_delete_shared ints_free_shared by blast
qed

end
