(* ===== verification/Spec2Isabelle.thy ===== *)
theory Spec2Isabelle
  imports Vector Deque Heap Unionfind Bitree Segtree Bitset Hashset Graph Linkedlist_Props Treeset Radix Sds_Props
    Vector_Typed Deque_Typed Heap_Typed Dict_Examples
begin

text \<open>
  A verification library for libcp, a collection of containers in C (\<open>src/*.c\<close>, \<open>src/*.h\<close>).

  \<^bold>\<open>The program and its parts.\<close> Each container is one pair of files with the same life cycle:
  \<open>X_init\<close>/\<open>X_destroy\<close> for a structure of the caller, \<open>X_new\<close>/\<open>X_free\<close> for one on
  the heap, \<open>X_copy\<close>/\<open>X_clone\<close>, and its operations. Elements are bytes of a size fixed at
  \<open>init\<close>, with optional callbacks that copy and destroy them. Containers that call each other:
  \<open>graph.c\<close> keeps one \<open>vector\<close> per vertex, \<open>hashset.c\<close> wraps \<open>hashmap.c\<close>, \<open>treeset.c\<close>
  wraps \<open>treemap.c\<close>, \<open>radix.c\<close> wraps \<open>radixmap.c\<close>. The other modelled files are self-contained.

  \<^bold>\<open>Theories.\<close>
  \<^item> \<open>Prelude\<close>: pointers, \<open>size_t\<close>, the world (allocator, callbacks, destroyed elements, live
    blocks), buffers of slots with checked access, the contracts of \<open>qsort\<close> and \<open>bsearch\<close>, and the
    interface \<open>push_container\<close> behind every element-wise copy.
  \<^item> \<open>Machine\<close>: histories of operations, and the interface \<open>spec_machine\<close>: what an operation must
    satisfy so that whole histories run without undefined behaviour, refine an abstract machine and
    conserve elements and blocks.
  \<^item> \<open>Vector\<close>, \<open>Deque\<close>, \<open>Heap\<close>, \<open>Unionfind\<close>, \<open>Bitree\<close>, \<open>Segtree\<close>,
    \<open>Bitset\<close>, \<open>Graph\<close>, \<open>Hashset\<close>: the file of the same name in \<open>src/\<close>. A record has the fields
    of the C structure, every function of the file is a definition of the same name, and a loop of
    a function is a recursive definition before it.
  \<^item> \<open>Store\<close>: nodes of linked structures at addresses, so that following a dangling pointer is
    undefined behaviour. \<open>Linkedlist\<close>, \<open>Linkedlist_Props\<close>: \<open>list.c\<close>, whose nodes live in such a store.
  \<^item> \<open>Probe\<close>: linear probing on lists of slots. \<open>Maps\<close>: keys, the abstract machine of a finite
    map, and the interface \<open>set_wrapper\<close> of the sets that wrap a map. \<open>Hashmap\<close>: the model of
    \<open>hashmap.c\<close> and its operations. \<open>Hashmap_Props\<close>: iteration, copying and histories.
  \<^item> \<open>Treemap\<close>: the model of \<open>treemap.c\<close>, a red-black tree with parent pointers in the store.
    \<open>Rbtree\<close>: trees, contexts and the colour invariant as mathematics. \<open>Treemap_Heap\<close>,
    \<open>Treemap_Ops\<close>: trees in the store, and each pointer operation as an equation between worlds with
    a tree installed, for both mirror images at once. \<open>Treemap_Fixup\<close>, \<open>Treemap_Insert\<close>,
    \<open>Treemap_Delete\<close>, \<open>Treemap_Unlink\<close>: the two loops that restore the colours and the taking out
    of a node. \<open>Treemap_Map\<close>, \<open>Treemap_Remove\<close>, \<open>Treemap_Walk\<close>: the contracts of all operations.
    \<open>Treemap_Machine\<close>, \<open>Treemap_Props\<close>: histories, copies and properties. \<open>Treeset\<close>: \<open>treeset.c\<close>.
  \<^item> \<open>Radixmap\<close>: the model of \<open>radixmap.c\<close>, a compressed trie in the store whose nodes are reached
    through links. \<open>Radix_Trie\<close>: tries as mathematics. \<open>Radix_Heap\<close>: tries in the store.
    \<open>Radix_Insert\<close>, \<open>Radix_Delete\<close>: the splitting and the merging of nodes. \<open>Radix_Map\<close>,
    \<open>Radix_Copy\<close>, \<open>Radix_Props\<close>: the contracts of all operations, copies, histories and properties.
    \<open>Radix\<close>: \<open>radix.c\<close>.
  \<^item> \<open>Cstring\<close>: strings, byte regions and blocks of slots. \<open>Sds\<close>: the model of \<open>sds.c\<close>, whose headers
    live in the store, so that a string that \<open>realloc\<close> moved is dangling. \<open>Sds_Ops\<close>: the contracts of the
    operations on one string. \<open>Sds_Text\<close>: formatted output, and search, splitting and replacement on lists.
    \<open>Sds_Build\<close>, \<open>Sds_Parts\<close>: replacing, joining and splitting in the store. \<open>Sds_Props\<close>: properties.
  \<^item> \<open>Typed\<close>: outcomes of the macros of \<open>src/legacy\<close>, which exit the process when the allocator fails, and
    their contract \<open>typed_container\<close>. \<open>Vector_Typed\<close>, \<open>Deque_Typed\<close>, \<open>Heap_Typed\<close>: the macros of
    \<open>legacy/vector_typed.h\<close>, \<open>deque_typed.h\<close> and \<open>heap_typed.h\<close>, each named like the macro with the suffix
    \<open>_typed\<close>, and what every run of them does (\<open>vector_typed_history\<close>, \<open>deque_typed_history\<close>,
    \<open>heap_typed_history\<close>). \<open>Dict_Typed\<close>: the macros of \<open>legacy/dict_typed.h\<close>. \<open>Dict_Table\<close>, \<open>Dict_Expand\<close>,
    \<open>Dict_Ops\<close>, \<open>Dict_Props\<close>: its tables as probe tables, growth, insertion and search, and every run of
    these (\<open>dict_typed_history\<close>). \<open>Dict_Delete\<close>, \<open>Dict_Examples\<close>: deletion while the last bucket is empty
    (\<open>dict_delete_ok\<close>), and what goes wrong otherwise (\<open>dict_delete_loses_key\<close>, \<open>dict_free_releases_twice\<close>).

  \<^bold>\<open>Conventions.\<close> An operation returns an \<open>option\<close> where the C code could run into undefined
  behaviour; \<open>None\<close> stands for a read of memory that was never written, an access outside a
  block, a failed assertion or signed overflow, and for a loop that does not return
  (\<open>partial_function\<close>). That an operation returns \<open>Some\<close> is thus memory safety and
  termination, and every property says it. A structure that the code modifies through a pointer is
  returned updated; addresses of slots are their indices. Copying from a structure to itself is the
  flag \<open>same\<close>. \<open>memset\<close>, \<open>memcpy\<close> and \<open>memcmp\<close> of length 0 on \<open>NULL\<close> do nothing.
  Sizes are \<open>nat\<close> below \<open>2 ^ 64\<close> with wrapping \<open>sz_add\<close>, \<open>sz_sub\<close> and \<open>sz_mul\<close>;
  bytes and hash values are words.

  \<^bold>\<open>Failures.\<close> The world carries two scripts of outcomes, one for the allocator and one for the
  copy callbacks, that the calls consume. A property for all worlds holds for every pattern of
  failures; \<open>no_fail\<close> worlds have none. \<open>live\<close> counts allocated blocks and \<open>destroyed\<close> lists
  the elements that were handed to the destroy callback, so leaks and double frees of elements
  show in equations between the two and the representation.

  \<^bold>\<open>Lemmas.\<close> In every component theory: a relation between the record and an abstract value
  (\<open>vec_rel\<close>, \<open>deq_rel\<close>, \<open>heap_rel\<close>, \<open>hm_rel\<close>, \<open>graph_holds\<close>, \<open>tree_rel\<close>, \<open>radix_rel\<close>, \<open>sds_at\<close>, \<dots>), which contains the
  well-formedness of the record; one lemma \<open>X_ok\<close> per operation, for all its branches and failures;
  the interpretation of \<open>spec_machine\<close> where the container has a machine; and the properties at the
  end, each with a witness. Unbounded loops are shown to return: \<open>raw_loop_ok\<close> and
  \<open>find_slot_loop_ok\<close> for the probe loops, \<open>bucket_loop_ok\<close> for the growth of a hash table below
  the overflow bound, which \<open>hashmap_reserve_hangs\<close> shows to be needed. Only the two loops
  of \<open>Dict_Typed\<close> use fuel, one step more than the capacity: a loop that has been round the whole table
  would go round for ever, and the contracts of \<open>Dict_Ops\<close> and \<open>Dict_Delete\<close> show that it is never used up.

  \<^bold>\<open>Bounds.\<close> The relations require that the blocks of a container fit into \<open>PTRDIFF_MAX\<close> bytes,
  which the allocator guarantees, and that a minimal block of eight slots does. Where the code
  multiplies sizes without a check, the properties are stated below the wrap, and
  \<open>size_checks_missing\<close> shows what happens beyond.

  \<^bold>\<open>Not modelled.\<close> The addresses of blocks and elements, so an argument that points into the
  container it is passed to is outside the model; element types other than as HOL values; the
  typed convenience macros of most headers; the alignment of data. Of the templates under
  \<open>legacy/\<close> the red-black tree (\<open>rbtree_typed.h\<close>) is not modelled: \<open>treemap.c\<close> supersedes it, and its deletion
  and its release follow null and freed pointers on small trees already. Tests, the build and the
  amalgamation script are not part of the library.
\<close>

section \<open>Sizes that wrap around\<close>

text \<open>C40: sizes and differences are computed without overflow checks. The initialisations do not check the
  sizes of their blocks: with an allocator that grants every request, \<open>unionfind_init\<close>, \<open>segtree_init\<close> and \<open>graph_init\<close> write
  behind blocks that are too small, and \<open>bitree_init\<close> and \<open>bitset_init\<close> succeed without storage
  (a granted request of 0 bytes, in \<open>segtree_init\<close> and \<open>bitree_init\<close>, is a block without a usable byte, as in
  the GNU library), so that the first access that passes the checks of the code is out of bounds. \<open>bitree_set\<close> computes
  \<open>value - current\<close> in \<open>int64_t\<close> and is undefined behaviour when that difference is not representable,
  even if every sum of the new values is. \<open>vector_reserve\<close> returns \<open>0\<close> and records a capacity that its block
  does not have when the byte count wraps to a positive number (for 0 bytes the outcome of \<open>realloc\<close> depends on the
  library, and nothing is claimed). \<open>sdsreserve\<close> with a capacity \<open>1024\<close> below \<open>SIZE_MAX\<close> succeeds
  with a block for the header alone, after which even \<open>sdsclear\<close> writes outside of the block.\<close>

theorem size_checks_missing:
  assumes "no_fail w" and "no_fail v" and "no_fail g"
    and "bit_rel s vs" and "safe vs" and "i < length vs" and "\<not> fits (z - vs ! i)"
    and "vec_rel p ps" and "SIZE_MAX < n * v_elem_size p" and "0 < sz_mul n (v_elem_size p)" and "sz_mul n (v_elem_size p) \<le> PTRDIFF_MAX"
    and "v_capacity p < n" and "no_fail pw"
    and "store_ok sw" and "no_fail sw" and "fresh sw < SIZE_MAX" and "sds_at sw q xs"
  shows "unionfind_init (Ptr a) (2 ^ 61 + 1) w = None
    \<and> segtree_init (Ptr b) (2 ^ 61) 4 (Ptr e) (Ptr f) v = None
    \<and> graph_init (Ptr c) GRAPH_DIRECTED (2 ^ 60 + 1) g = None
    \<and> (\<exists>t w'. bitree_init (Ptr d) SIZE_MAX w = (0, Ptr t, w') \<and> b_size t = SIZE_MAX \<and> bitree_add (Ptr t) 0 x = None)
    \<and> (\<exists>bs. bitset_init (Ptr h) SIZE_MAX w = Some (0, Ptr bs, w) \<and> bs_size bs = SIZE_MAX \<and> bitset_get (Ptr bs) 0 = None)
    \<and> bitree_set (Ptr s) i z = None
    \<and> (\<exists>p' w'. vector_reserve (Ptr p) n pw = (0, Ptr p', w') \<and> v_capacity p' = n \<and> length (slots (v_data p')) < n)
    \<and> (\<exists>q' w'. sdsreserve q (SIZE_MAX - 1024) sw = Some (q', w') \<and> q' \<noteq> NULL \<and> sdsalloc q' w' = Some SIZE_MAX \<and> sdsclear q' w' = None)"
proof (intro conjI)
  show "\<exists>p' w'. vector_reserve (Ptr p) n pw = (0, Ptr p', w') \<and> v_capacity p' = n \<and> length (slots (v_data p')) < n"
    by (rule vector_reserve_wraps [OF assms(8-13)])
  show "\<exists>q' w'. sdsreserve q (SIZE_MAX - 1024) sw = Some (q', w') \<and> q' \<noteq> NULL \<and> sdsalloc q' w' = Some SIZE_MAX \<and> sdsclear q' w' = None"
    using sds_reserve_wraps [OF assms(14-17)] by blast
  show "bitree_set (Ptr s) i z = None" by (rule bitree_set_overflows [OF assms(4-7)])
  show "unionfind_init (Ptr a) (2 ^ 61 + 1) w = None"
    by (rule unionfind_init_wraps [OF _ _ assms(1)]) (simp_all add: SIZE_MAX_def PTRDIFF_MAX_def sz_mul_def)
  show "segtree_init (Ptr b) (2 ^ 61) 4 (Ptr e) (Ptr f) v = None" by (rule segtree_init_wraps [OF assms(2)])
  show "graph_init (Ptr c) GRAPH_DIRECTED (2 ^ 60 + 1) g = None" by (rule graph_init_wraps [OF assms(3)])
  show "\<exists>t w'. bitree_init (Ptr d) SIZE_MAX w = (0, Ptr t, w') \<and> b_size t = SIZE_MAX \<and> bitree_add (Ptr t) 0 x = None"
    using bitree_init_wraps [OF assms(1), of d x] by blast
  show "\<exists>bs. bitset_init (Ptr h) SIZE_MAX w = Some (0, Ptr bs, w) \<and> bs_size bs = SIZE_MAX \<and> bitset_get (Ptr bs) 0 = None"
    using bitset_init_wraps [of SIZE_MAX 0 h w] by (simp add: SIZE_MAX_def)
qed

theorem size_checks_missing_witness:
  "unionfind_init (Ptr uf_example) (2 ^ 61 + 1) (script [] [] :: unit world) = None
    \<and> segtree_init (Ptr seg_example) (2 ^ 61) 4 (Ptr 0) (Ptr (+)) (script [] []) = None
    \<and> graph_init (Ptr raw_graph) GRAPH_DIRECTED (2 ^ 60 + 1) (script [] [] :: graph_edge world) = None
    \<and> (\<exists>t w'. bitree_init (Ptr bit_example) SIZE_MAX (script [] [] :: unit world) = (0, Ptr t, w') \<and> b_size t = SIZE_MAX
        \<and> bitree_add (Ptr t) 0 7 = None)
    \<and> (\<exists>bs. bitset_init (Ptr empty_bitset) SIZE_MAX (script [] [] :: unit world) = Some (0, Ptr bs, script [] [])
        \<and> bs_size bs = SIZE_MAX \<and> bitset_get (Ptr bs) 0 = None)
    \<and> bitree_set (Ptr bit_example) 0 9223372036854775807 = None
    \<and> (\<exists>p' w'. vector_reserve (Ptr vec_example) 4611686018427387905 (script [] []) = (0, Ptr p', w') \<and> v_capacity p' = 4611686018427387905
        \<and> length (slots (v_data p')) < 4611686018427387905)
    \<and> (\<exists>q' w'. sdsreserve (Ptr 0) (SIZE_MAX - 1024) sds_example = Some (q', w') \<and> q' \<noteq> NULL \<and> sdsalloc q' w' = Some SIZE_MAX \<and> sdsclear q' w' = None)"
  by (rule size_checks_missing [OF _ _ _ bit_example_rel _ _ _ vec_example_rel _ _ _ _ _ sds_example_ok(1,2) _ sds_example_ok(3)])
    (simp_all add: no_fail_def script_def safe3 fits_def vec_example_def SIZE_MAX_def PTRDIFF_MAX_def sz_mul_def sds_example_cells)

end
